(* ===== verification/Prelude.thy ===== *)
theory Prelude
  imports Main "HOL-Library.Word"
begin

text \<open>
  Shared material of the development: names for the machine integer types of the
  C++ sources, the collections of rewrite rules the component theories extend, the
  bit-level lemmas about words that the bitboard code rests on, and the bit
  functions of the C++ standard library the sources call (popcount, countr_zero,
  countl_zero).
\<close>

unbundle bit_operations_syntax

type_synonym u8 = "8 word"
type_synonym u16 = "16 word"
type_synonym u32 = "32 word"
type_synonym u64 = "64 word"

named_theorems bb_simps \<open>membership rules of the bitboard operations\<close>
named_theorems bb_intros \<open>well-formedness of the bitboard operations\<close>
named_theorems board_simps \<open>effect of the board operations on the fields\<close>

subsection \<open>Finite case analysis on small naturals\<close>

lemma less_81_file_rank: "s < 81 \<Longrightarrow> s div 9 < 9 \<and> s mod 9 < (9::nat)"
  by simp

lemma all_less_numeral_unfold:
  "(\<forall>n<(15::nat). P n) \<longleftrightarrow> P 0 \<and> P 1 \<and> P 2 \<and> P 3 \<and> P 4 \<and> P 5 \<and> P 6 \<and> P 7 \<and>
     P 8 \<and> P 9 \<and> P 10 \<and> P 11 \<and> P 12 \<and> P 13 \<and> P 14"
  by (simp add: numeral_eq_Suc All_less_Suc conj_ac)

lemma all_less_8_unfold:
  "(\<forall>n<(8::nat). P n) \<longleftrightarrow> P 0 \<and> P 1 \<and> P 2 \<and> P 3 \<and> P 4 \<and> P 5 \<and> P 6 \<and> P 7"
  by (simp add: numeral_eq_Suc All_less_Suc conj_ac)

lemma nat_and_mask: "(n::nat) AND mask k = n mod 2 ^ k"
  by (simp flip: take_bit_eq_mask take_bit_eq_mod)

lemma nat_and_7: "(n::nat) AND 7 = n mod 8"
  using nat_and_mask [of n 3] by (simp add: mask_eq_exp_minus_1)

lemma nat_and_15: "(n::nat) AND 15 = n mod 16"
  using nat_and_mask [of n 4] by (simp add: mask_eq_exp_minus_1)

lemma nat_and_127: "(n::nat) AND 127 = n mod 128"
  using nat_and_mask [of n 7] by (simp add: mask_eq_exp_minus_1)

lemma nat_bit_bound: "t < 2 ^ k \<Longrightarrow> k \<le> n \<Longrightarrow> \<not> bit (t::nat) n"
proof -
  assume "t < 2 ^ k" "k \<le> n"
  then have "t < 2 ^ n" by (meson less_le_trans one_le_numeral power_increasing)
  then show ?thesis by (simp add: bit_iff_odd)
qed

lemma upt_split: "a \<le> b \<Longrightarrow> b \<le> c \<Longrightarrow> [a..<c] = [a..<b] @ [b..<c]"
  by (metis le_add_diff_inverse upt_add_eq_append)

lemma filter_map_add:
  "map (\<lambda>i. i + k) (filter P [a..<b]) = filter (\<lambda>i. P (i - k)) [a + k..<b + k]"
proof -
  have "map (\<lambda>i. i + k) [a..<b] = [a + k..<b + k]"
    by (rule nth_equalityI) simp_all
  then show ?thesis by (simp add: filter_map o_def flip: \<open>map (\<lambda>i. i + k) [a..<b] = [a + k..<b + k]\<close>)
qed

subsection \<open>Bits of words\<close>

lemma bit_single_word [simp]:
  "bit (push_bit i (1 :: 'a::len word)) j \<longleftrightarrow> i = j \<and> j < LENGTH('a)"
  by (auto simp: bit_simps)

lemma and_single_bit_nonzero:
  "(w :: 'a::len word) AND push_bit i 1 \<noteq> 0 \<longleftrightarrow> bit w i"
proof -
  have "w AND push_bit i 1 \<noteq> 0 \<longleftrightarrow> (\<exists>j. bit w j \<and> i = j \<and> j < LENGTH('a))"
    by (auto simp: bit_eq_iff bit_simps)
  then show ?thesis by (auto dest: bit_imp_le_length)
qed

lemma word_nonzero_iff_bit: "(w :: 'a::len word) \<noteq> 0 \<longleftrightarrow> (\<exists>i<LENGTH('a). bit w i)"
  by (auto simp: bit_eq_iff dest: bit_imp_le_length)

lemma word_eq_bits_less:
  "(\<And>i. i < LENGTH('a) \<Longrightarrow> bit v i \<longleftrightarrow> bit w i) \<Longrightarrow> v = (w :: 'a::len word)"
  by (rule bit_word_eqI) auto

text \<open>Subtracting one flips exactly the bits up to and including the lowest set one.\<close>

lemma word_split_lowest:
  fixes w :: "'a::len word"
  assumes "bit w k" and "\<forall>j<k. \<not> bit w j"
  shows "w = push_bit (Suc k) (drop_bit (Suc k) w) + push_bit k 1"
proof -
  have k: "k < LENGTH('a)" using assms(1) by (rule bit_imp_le_length)
  have "push_bit (Suc k) (drop_bit (Suc k) w) AND push_bit k 1 = 0"
    by (rule word_eq_bits_less) (auto simp: bit_simps simp del: push_bit_Suc)
  then have "push_bit (Suc k) (drop_bit (Suc k) w) + push_bit k 1
      = push_bit (Suc k) (drop_bit (Suc k) w) OR push_bit k 1"
    by (rule disjunctive_add_eq_or)
  also have "\<dots> = w"
  proof (rule word_eq_bits_less)
    fix i assume "i < LENGTH('a)"
    show "bit (push_bit (Suc k) (drop_bit (Suc k) w) OR push_bit k 1) i = bit w i"
    proof (cases "i \<le> k")
      case True
      with assms show ?thesis by (cases "i = k") (auto simp: bit_simps k simp del: push_bit_Suc)
    next
      case False
      then show ?thesis
        by (auto simp: bit_simps \<open>i < LENGTH('a)\<close> simp del: push_bit_Suc drop_bit_Suc)
    qed
  qed
  finally show ?thesis by simp
qed

lemma bit_word_minus_one:
  fixes w :: "'a::len word"
  shows "bit (w - 1) i \<longleftrightarrow> i < LENGTH('a) \<and> (bit w i \<longleftrightarrow> (\<exists>j<i. bit w j))"
proof (cases "w = 0")
  case True
  then show ?thesis by (simp add: bit_simps)
next
  case False
  then obtain k0 where "bit w k0" by (auto simp: word_nonzero_iff_bit)
  define k where "k = (LEAST k. bit w k)"
  have k: "bit w k" unfolding k_def using \<open>bit w k0\<close> by (rule LeastI)
  have below: "\<forall>j<k. \<not> bit w j" unfolding k_def using not_less_Least by blast
  have kl: "k < LENGTH('a)" using k by (rule bit_imp_le_length)
  have split: "w = push_bit (Suc k) (drop_bit (Suc k) w) + push_bit k 1"
    using k below by (rule word_split_lowest)
  have "w - 1 = push_bit (Suc k) (drop_bit (Suc k) w) + (push_bit k 1 - 1)"
    by (subst split) (rule add_diff_eq [symmetric])
  also have "push_bit k 1 - 1 = (mask k :: 'a word)"
    by (simp add: mask_eq_exp_minus_1 push_bit_eq_mult)
  also have "push_bit (Suc k) (drop_bit (Suc k) w) + mask k
      = push_bit (Suc k) (drop_bit (Suc k) w) OR (mask k :: 'a word)"
    by (rule disjunctive_add_eq_or)
      (rule word_eq_bits_less, auto simp: bit_simps simp del: push_bit_Suc)
  finally have eq: "w - 1 = push_bit (Suc k) (drop_bit (Suc k) w) OR mask k" .
  show ?thesis
  proof (cases "i \<le> k")
    case True
    then have "\<not> (\<exists>j<i. bit w j)" using below by auto
    with True show ?thesis using below k kl
      by (cases "i = k") (auto simp: eq bit_simps simp del: push_bit_Suc)
  next
    case False
    then have "\<exists>j<i. bit w j" using k by (intro exI [of _ k]) simp
    with False show ?thesis 
      by (auto simp: eq bit_simps simp del: push_bit_Suc drop_bit_Suc dest: bit_imp_le_length)
  qed
qed

lemma bit_word_and_minus_one:
  fixes w :: "'a::len word"
  shows "bit (w AND (w - 1)) i \<longleftrightarrow> bit w i \<and> (\<exists>j<i. bit w j)"
  by (auto simp: bit_simps bit_word_minus_one dest: bit_imp_le_length)

lemma bit_word_xor_minus_one:
  fixes w :: "'a::len word"
  shows "bit (w XOR (w - 1)) i \<longleftrightarrow> i < LENGTH('a) \<and> (\<forall>j<i. \<not> bit w j)"
  by (auto simp: bit_simps bit_word_minus_one dest: bit_imp_le_length)

subsection \<open>Bit counting functions of the standard library\<close>

definition countr_zero :: "'a::len word \<Rightarrow> nat" where
  "countr_zero w = length (takeWhile (\<lambda>i. \<not> bit w i) [0..<LENGTH('a)])"

definition countl_zero :: "'a::len word \<Rightarrow> nat" where
  "countl_zero w = length (takeWhile (\<lambda>i. \<not> bit w i) (rev [0..<LENGTH('a)]))"

definition popcount :: "'a::len word \<Rightarrow> nat" where
  "popcount w = length (filter (bit w) [0..<LENGTH('a)])"

lemma countr_zero_least:
  fixes w :: "'a::len word"
  assumes "w \<noteq> 0"
  shows "bit w (countr_zero w)" and "\<forall>j<countr_zero w. \<not> bit w j"
    and "countr_zero w < LENGTH('a)"
proof -
  let ?P = "\<lambda>i. \<not> bit w i"
  let ?xs = "[0..<LENGTH('a)]"
  have ex: "\<exists>x\<in>set ?xs. \<not> ?P x"
    using assms by (auto simp: word_nonzero_iff_bit)
  have lt: "length (takeWhile ?P ?xs) < length ?xs"
    using ex by (metis (no_types, lifting) length_takeWhile_le le_neq_implies_less
        takeWhile_eq_all_conv takeWhile_eq_take take_all_iff order_refl)
  then show lt': "countr_zero w < LENGTH('a)" by (simp add: countr_zero_def)
  have "\<not> ?P (?xs ! length (takeWhile ?P ?xs))"
    using lt by (rule nth_length_takeWhile)
  then show "bit w (countr_zero w)"
    using lt by (simp add: countr_zero_def)
  show "\<forall>j<countr_zero w. \<not> bit w j"
  proof (intro allI impI)
    fix j assume j: "j < countr_zero w"
    then have "takeWhile ?P ?xs ! j \<in> set (takeWhile ?P ?xs)"
      by (intro nth_mem) (simp add: countr_zero_def)
    moreover have "takeWhile ?P ?xs ! j = j"
      using j lt' by (simp add: countr_zero_def takeWhile_nth)
    ultimately show "\<not> bit w j" by (auto dest: set_takeWhileD)
  qed
qed

lemma countr_zero_eqI:
  fixes w :: "'a::len word"
  assumes "bit w k" and "\<forall>j<k. \<not> bit w j"
  shows "countr_zero w = k"
proof -
  from assms(1) have "w \<noteq> 0" by auto
  from countr_zero_least [OF this] assms show ?thesis
    by (meson linorder_neqE_nat)
qed

lemma popcount_card: "popcount (w :: 'a::len word) = card {i. bit w i}"
proof -
  have "popcount w = card (set (filter (bit w) [0..<LENGTH('a)]))"
    unfolding popcount_def by (rule distinct_card [symmetric]) simp
  also have "set (filter (bit w) [0..<LENGTH('a)]) = {i. bit w i}"
    by (auto dest: bit_imp_le_length)
  finally show ?thesis .
qed

lemma popcount_clear_lowest:
  fixes w :: "'a::len word"
  assumes "w \<noteq> 0"
  shows "popcount (w AND (w - 1)) = popcount w - 1" and "0 < popcount w"
proof -
  let ?k = "countr_zero w"
  note k = countr_zero_least [OF assms]
  have fin: "finite {i. bit w i}"
    by (rule finite_subset [of _ "{..<LENGTH('a)}"]) (auto dest: bit_imp_le_length)
  have "{i. bit (w AND (w - 1)) i} = {i. bit w i} - {?k}"
    unfolding bit_word_and_minus_one using k by (auto, metis linorder_neqE_nat)
  then show "popcount (w AND (w - 1)) = popcount w - 1"
    using k(1) fin by (simp add: popcount_card)
  show "0 < popcount w" using k(1) fin by (auto simp: popcount_card card_gt_0_iff)
qed

end
