(* ===== verification/ShogiTypes.thy ===== *)
theory ShogiTypes
  imports Prelude
begin

text \<open>
  Model of shogi/types.h: colours, piece types, files, ranks and squares, the packed
  hand, and the 16-bit move.  An index of type \<open>uint8_t\<close> is a \<open>nat\<close> below 256; every
  operation that can leave that range is written with the reduction modulo 256 the
  C++ conversion performs.  The packed hand is a 32-bit word and the move a 16-bit word,
  because the sources compute on their bits.
\<close>

subsection \<open>Color\<close>

datatype color = BLACK | WHITE

fun color_idx :: "color \<Rightarrow> nat" where
  "color_idx BLACK = 0"
| "color_idx WHITE = 1"

fun opp :: "color \<Rightarrow> color" where
  "opp BLACK = WHITE"
| "opp WHITE = BLACK"

instantiation color :: linorder
begin

definition less_eq_color :: "color \<Rightarrow> color \<Rightarrow> bool" where
  "less_eq_color c d \<longleftrightarrow> color_idx c \<le> color_idx d"

definition less_color :: "color \<Rightarrow> color \<Rightarrow> bool" where
  "less_color c d \<longleftrightarrow> color_idx c < color_idx d"

instance
proof
  fix c d :: color
  show "c \<le> d \<Longrightarrow> d \<le> c \<Longrightarrow> c = d"
    by (cases c; cases d) (auto simp: less_eq_color_def)
qed (auto simp: less_eq_color_def less_color_def)

end

lemma opp_opp [simp]: "opp (opp c) = c"
  by (cases c) simp_all

lemma opp_neq [simp]: "opp c \<noteq> c" "c \<noteq> opp c"
  by (cases c, simp_all)+

lemma opp_eq_iff [simp]: "opp c = opp d \<longleftrightarrow> c = d"
  by (cases c; cases d) simp_all

lemma neq_opp: "c \<noteq> d \<longleftrightarrow> d = opp c"
  by (cases c; cases d) simp_all

lemma all_color: "(\<forall>c. P c) \<longleftrightarrow> P BLACK \<and> P WHITE"
  by (metis color.exhaust)

subsection \<open>PieceType\<close>

type_synonym piece_type = nat

definition kNoPieceType :: piece_type where "kNoPieceType = 0"
definition kPawn :: piece_type where "kPawn = 1"
definition kLance :: piece_type where "kLance = 2"
definition kKnight :: piece_type where "kKnight = 3"
definition kSilver :: piece_type where "kSilver = 4"
definition kBishop :: piece_type where "kBishop = 5"
definition kRook :: piece_type where "kRook = 6"
definition kGold :: piece_type where "kGold = 7"
definition kKing :: piece_type where "kKing = 8"
definition kProPawn :: piece_type where "kProPawn = 9"
definition kProLance :: piece_type where "kProLance = 10"
definition kProKnight :: piece_type where "kProKnight = 11"
definition kProSilver :: piece_type where "kProSilver = 12"
definition kHorse :: piece_type where "kHorse = 13"
definition kDragon :: piece_type where "kDragon = 14"

lemmas piece_type_defs =
  kNoPieceType_def kPawn_def kLance_def kKnight_def kSilver_def kBishop_def kRook_def
  kGold_def kKing_def kProPawn_def kProLance_def kProKnight_def kProSilver_def
  kHorse_def kDragon_def

definition pt_IsHandPiece :: "piece_type \<Rightarrow> bool" where
  "pt_IsHandPiece pt \<longleftrightarrow> pt \<ge> 1 \<and> pt \<le> 7"

definition pt_IsPromoted :: "piece_type \<Rightarrow> bool" where
  "pt_IsPromoted pt \<longleftrightarrow> pt \<ge> 9"

definition pt_Promote :: "piece_type \<Rightarrow> piece_type" where
  "pt_Promote pt = pt OR 8"

definition pt_Unpromote :: "piece_type \<Rightarrow> piece_type" where
  "pt_Unpromote pt = pt AND 7"

definition pt_CanPromote :: "piece_type \<Rightarrow> bool" where
  "pt_CanPromote pt \<longleftrightarrow> pt \<ge> 1 \<and> pt \<le> 6"

definition pt_IsValid :: "piece_type \<Rightarrow> bool" where
  "pt_IsValid pt \<longleftrightarrow> pt \<ge> 1 \<and> pt \<le> 14 \<and> pt \<noteq> 15"

definition pt_ToChar :: "piece_type \<Rightarrow> char" where
  "pt_ToChar pt = (if pt \<le> 8 then ''.PLNSBRGK'' ! pt else CHR ''+'')"

definition pt_Parse :: "char \<Rightarrow> piece_type" where
  "pt_Parse c =
     (if c = CHR ''P'' \<or> c = CHR ''p'' then kPawn
      else if c = CHR ''L'' \<or> c = CHR ''l'' then kLance
      else if c = CHR ''N'' \<or> c = CHR ''n'' then kKnight
      else if c = CHR ''S'' \<or> c = CHR ''s'' then kSilver
      else if c = CHR ''B'' \<or> c = CHR ''b'' then kBishop
      else if c = CHR ''R'' \<or> c = CHR ''r'' then kRook
      else if c = CHR ''G'' \<or> c = CHR ''g'' then kGold
      else if c = CHR ''K'' \<or> c = CHR ''k'' then kKing
      else kNoPieceType)"

lemma pt_cases_less_15: "(\<And>n. n \<in> {0,1,2,3,4,5,6,7,8,9,10,11,12,13,14} \<Longrightarrow> P n) \<Longrightarrow> pt < 15 \<Longrightarrow> P (pt::nat)"
  using all_less_numeral_unfold [of P] by auto

lemma pt_cases_less_8: "(\<And>n. n \<in> {0,1,2,3,4,5,6,7} \<Longrightarrow> P n) \<Longrightarrow> pt < 8 \<Longrightarrow> P (pt::nat)"
  using all_less_8_unfold [of P] by auto

lemma pt_Unpromote_Promote: "pt < 8 \<Longrightarrow> pt_Unpromote (pt_Promote pt) = pt"
  by (erule pt_cases_less_8 [rotated]) (auto simp: pt_Unpromote_def pt_Promote_def)

lemma pt_Promote_less: "pt < 15 \<Longrightarrow> pt \<noteq> 7 \<Longrightarrow> pt_Promote pt < 15"
  by (erule pt_cases_less_15 [rotated, where P = "\<lambda>pt. pt \<noteq> 7 \<longrightarrow> pt_Promote pt < 15", THEN mp])
    (auto simp: pt_Promote_def)

lemma pt_Unpromote_less: "pt_Unpromote pt < 8"
  by (simp add: pt_Unpromote_def nat_and_7)

lemma pt_Parse_ToChar: "pt \<le> 8 \<Longrightarrow> pt_Parse (pt_ToChar pt) = pt"
proof -
  have "\<forall>pt<9. pt_Parse (pt_ToChar pt) = pt"
    by (simp add: numeral_eq_Suc All_less_Suc)
      (simp add: pt_Parse_def pt_ToChar_def piece_type_defs)
  then show "pt \<le> 8 \<Longrightarrow> pt_Parse (pt_ToChar pt) = pt" by simp
qed

subsection \<open>File, Rank and Square\<close>

type_synonym square = nat

definition file_Parse :: "char \<Rightarrow> nat" where
  "file_Parse c = nat ((int (of_char c) - 49) mod 256)"

definition file_ToString :: "nat \<Rightarrow> string" where
  "file_ToString f = [char_of ((49 + f) mod 256)]"

definition file_Flip :: "nat \<Rightarrow> nat" where
  "file_Flip f = nat ((8 - int f) mod 256)"

definition rank_Parse :: "char \<Rightarrow> nat" where
  "rank_Parse c = nat ((int (of_char c) - 97) mod 256)"

definition rank_ToString :: "nat \<Rightarrow> string" where
  "rank_ToString r = [char_of ((97 + r) mod 256)]"

definition rank_Flip :: "nat \<Rightarrow> nat" where
  "rank_Flip r = nat ((8 - int r) mod 256)"

definition rank_InPromotionZone :: "nat \<Rightarrow> color \<Rightarrow> bool" where
  "rank_InPromotionZone r c = (if c = BLACK then r \<le> 2 else r \<ge> 6)"

definition mk_square :: "nat \<Rightarrow> nat \<Rightarrow> square" where
  "mk_square f r = (f * 9 + r) mod 256"

definition sq_file :: "square \<Rightarrow> nat" where
  "sq_file s = s div 9"

definition sq_rank :: "square \<Rightarrow> nat" where
  "sq_rank s = s mod 9"

definition sq_Flipped :: "square \<Rightarrow> square" where
  "sq_Flipped s = nat ((80 - int s) mod 256)"

definition sq_InPromotionZone :: "square \<Rightarrow> color \<Rightarrow> bool" where
  "sq_InPromotionZone s c = rank_InPromotionZone (sq_rank s) c"

definition sq_IsValid :: "square \<Rightarrow> bool" where
  "sq_IsValid s \<longleftrightarrow> s < 81"

definition sq_ToString :: "square \<Rightarrow> string" where
  "sq_ToString s = file_ToString (sq_file s) @ rank_ToString (sq_rank s)"

definition sq_Parse :: "char \<Rightarrow> char \<Rightarrow> square" where
  "sq_Parse c0 c1 = mk_square (file_Parse c0) (rank_Parse c1)"

definition kSquareNone :: square where
  "kSquareNone = 81"

lemma mk_square_less [simp]: "f < 9 \<Longrightarrow> r < 9 \<Longrightarrow> mk_square f r < 81"
  by (simp add: mk_square_def)

lemma mk_square_eq: "f < 9 \<Longrightarrow> r < 9 \<Longrightarrow> mk_square f r = f * 9 + r"
  by (simp add: mk_square_def)

lemma sq_file_less [simp]: "s < 81 \<Longrightarrow> sq_file s < 9"
  by (simp add: sq_file_def)

lemma sq_rank_less [simp]: "sq_rank s < 9"
  by (simp add: sq_rank_def)

lemma sq_file_mk [simp]: "f < 9 \<Longrightarrow> r < 9 \<Longrightarrow> sq_file (mk_square f r) = f"
  by (simp add: mk_square_eq sq_file_def)

lemma sq_rank_mk [simp]: "f < 9 \<Longrightarrow> r < 9 \<Longrightarrow> sq_rank (mk_square f r) = r"
  by (simp add: mk_square_eq sq_rank_def)

lemma mk_square_file_rank [simp]: "s < 81 \<Longrightarrow> mk_square (sq_file s) (sq_rank s) = s"
  by (simp add: mk_square_def sq_file_def sq_rank_def)

lemma square_eq_iff: "s < 81 \<Longrightarrow> t < 81 \<Longrightarrow> s = t \<longleftrightarrow> sq_file s = sq_file t \<and> sq_rank s = sq_rank t"
  by (metis mk_square_file_rank)

lemma sq_Flipped_eq [simp]: "s \<le> 80 \<Longrightarrow> sq_Flipped s = 80 - s"
  by (simp add: sq_Flipped_def)

lemma sq_Flipped_coords:
  assumes "s < 81"
  shows "sq_file (sq_Flipped s) = 8 - sq_file s" and "sq_rank (sq_Flipped s) = 8 - sq_rank s"
proof -
  define a b where "a = 8 - s div 9" and "b = 8 - s mod 9"
  have "80 - s = 9 * a + b" unfolding a_def b_def using assms by presburger
  moreover have "b < 9" unfolding b_def by simp
  ultimately have "(80 - s) div 9 = a" and "(80 - s) mod 9 = b" by simp_all
  then show "sq_file (sq_Flipped s) = 8 - sq_file s"
    and "sq_rank (sq_Flipped s) = 8 - sq_rank s"
    using assms by (simp_all add: sq_file_def sq_rank_def a_def b_def)
qed

lemma file_Parse_ToString: "f < 9 \<Longrightarrow> file_Parse (hd (file_ToString f)) = f"
  by (simp add: file_Parse_def file_ToString_def)

lemma rank_Parse_ToString: "r < 9 \<Longrightarrow> rank_Parse (hd (rank_ToString r)) = r"
  by (simp add: rank_Parse_def rank_ToString_def)

lemma length_sq_ToString [simp]: "length (sq_ToString s) = 2"
  by (simp add: sq_ToString_def file_ToString_def rank_ToString_def)

lemma sq_Parse_ToString:
  "s < 81 \<Longrightarrow> sq_Parse (sq_ToString s ! 0) (sq_ToString s ! 1) = s"
  using file_Parse_ToString [of "sq_file s"] rank_Parse_ToString [of "sq_rank s"]
  by (simp add: sq_ToString_def sq_Parse_def file_ToString_def rank_ToString_def)

end
