(* ===== verification/Bitboards.thy ===== *)
theory Bitboards
  imports ShogiTypes
begin

text \<open>
  Class \<open>Bitboard\<close> of shogi/bitboard.h: 81 squares in two 64-bit words, squares 0 to 62
  in the low word and 63 to 80 in the high one.  Every operation is translated on the
  words; the collection \<open>bb_simps\<close> gives its meaning as membership of squares, so that
  the later theories reason about sets of squares.  The loops that pop the lowest square
  until the board is empty are modelled once, by \<open>bb_squares\<close>, and shown to visit exactly
  the members in increasing order.
\<close>

record bitboard =
  p0 :: u64
  p1 :: u64

definition kBBSplit :: nat where "kBBSplit = 63"
definition kBBMask0 :: u64 where "kBBMask0 = 0x7FFFFFFFFFFFFFFF"
definition kBBMask1 :: u64 where "kBBMask1 = 0x000000000003FFFF"

definition bb_FromRaw :: "u64 \<Rightarrow> u64 \<Rightarrow> bitboard" where
  "bb_FromRaw a b = \<lparr>p0 = a, p1 = b\<rparr>"

definition bb_Zero :: bitboard where
  "bb_Zero = bb_FromRaw 0 0"

definition bb_All :: bitboard where
  "bb_All = bb_FromRaw kBBMask0 kBBMask1"

definition bb_FromSquare :: "square \<Rightarrow> bitboard" where
  "bb_FromSquare i =
     (if i < kBBSplit then bb_FromRaw (push_bit i 1) 0
      else bb_FromRaw 0 (push_bit (i - kBBSplit) 1))"

definition bb_Test :: "bitboard \<Rightarrow> square \<Rightarrow> bool" where
  "bb_Test b i =
     (if i < kBBSplit then p0 b AND push_bit i 1 \<noteq> 0
      else p1 b AND push_bit (i - kBBSplit) 1 \<noteq> 0)"

definition bb_Any :: "bitboard \<Rightarrow> bool" where
  "bb_Any b \<longleftrightarrow> p0 b OR p1 b \<noteq> 0"

definition bb_Empty :: "bitboard \<Rightarrow> bool" where
  "bb_Empty b \<longleftrightarrow> \<not> bb_Any b"

definition bb_PopCount :: "bitboard \<Rightarrow> nat" where
  "bb_PopCount b = popcount (p0 b) + popcount (p1 b)"

definition bb_MoreThanOne :: "bitboard \<Rightarrow> bool" where
  "bb_MoreThanOne b =
     (if p0 b \<noteq> 0 \<and> p1 b \<noteq> 0 then True
      else p0 b AND (p0 b - 1) \<noteq> 0 \<or> p1 b AND (p1 b - 1) \<noteq> 0)"

definition bb_Set :: "bitboard \<Rightarrow> square \<Rightarrow> bitboard" where
  "bb_Set b i =
     (if i < kBBSplit then b\<lparr>p0 := p0 b OR push_bit i 1\<rparr>
      else b\<lparr>p1 := p1 b OR push_bit (i - kBBSplit) 1\<rparr>)"

definition bb_Clear :: "bitboard \<Rightarrow> square \<Rightarrow> bitboard" where
  "bb_Clear b i =
     (if i < kBBSplit then b\<lparr>p0 := p0 b AND NOT (push_bit i 1)\<rparr>
      else b\<lparr>p1 := p1 b AND NOT (push_bit (i - kBBSplit) 1)\<rparr>)"

definition bb_Toggle :: "bitboard \<Rightarrow> square \<Rightarrow> bitboard" where
  "bb_Toggle b i =
     (if i < kBBSplit then b\<lparr>p0 := p0 b XOR push_bit i 1\<rparr>
      else b\<lparr>p1 := p1 b XOR push_bit (i - kBBSplit) 1\<rparr>)"

definition bb_Pop :: "bitboard \<Rightarrow> square \<times> bitboard" where
  "bb_Pop b =
     (if p0 b \<noteq> 0 then (countr_zero (p0 b), b\<lparr>p0 := p0 b AND (p0 b - 1)\<rparr>)
      else (countr_zero (p1 b) + kBBSplit, b\<lparr>p1 := p1 b AND (p1 b - 1)\<rparr>))"

definition bb_Peek :: "bitboard \<Rightarrow> square" where
  "bb_Peek b =
     (if p0 b \<noteq> 0 then countr_zero (p0 b) else countr_zero (p1 b) + kBBSplit)"

definition bb_Part :: "square \<Rightarrow> nat" where
  "bb_Part s = (if s \<ge> kBBSplit then 1 else 0)"

definition bb_Merge :: "bitboard \<Rightarrow> u64" where
  "bb_Merge b = p0 b OR p1 b"

definition bb_Or :: "bitboard \<Rightarrow> bitboard \<Rightarrow> bitboard" where
  "bb_Or a b = bb_FromRaw (p0 a OR p0 b) (p1 a OR p1 b)"

definition bb_And :: "bitboard \<Rightarrow> bitboard \<Rightarrow> bitboard" where
  "bb_And a b = bb_FromRaw (p0 a AND p0 b) (p1 a AND p1 b)"

definition bb_Xor :: "bitboard \<Rightarrow> bitboard \<Rightarrow> bitboard" where
  "bb_Xor a b = bb_FromRaw (p0 a XOR p0 b) (p1 a XOR p1 b)"

definition bb_Not :: "bitboard \<Rightarrow> bitboard" where
  "bb_Not a = bb_FromRaw (NOT (p0 a) AND kBBMask0) (NOT (p1 a) AND kBBMask1)"

definition bb_AndNot :: "bitboard \<Rightarrow> bitboard \<Rightarrow> bitboard" where
  "bb_AndNot a b = bb_FromRaw (NOT (p0 a) AND p0 b) (NOT (p1 a) AND p1 b)"

definition bb_Shl :: "bitboard \<Rightarrow> nat \<Rightarrow> bitboard" where
  "bb_Shl a s = bb_FromRaw (push_bit s (p0 a)) (push_bit s (p1 a))"

definition bb_Shr :: "bitboard \<Rightarrow> nat \<Rightarrow> bitboard" where
  "bb_Shr a s = bb_FromRaw (drop_bit s (p0 a)) (drop_bit s (p1 a))"

definition bb_Eq :: "bitboard \<Rightarrow> bitboard \<Rightarrow> bool" where
  "bb_Eq a b \<longleftrightarrow> p0 a = p0 b \<and> p1 a = p1 b"

subsection \<open>Iteration\<close>

text \<open>The bits of one word, extracted lowest first as the loop \<open>lo &= lo - 1\<close> does.\<close>

function word_bits :: "u64 \<Rightarrow> nat list" where
  "word_bits w = (if w = 0 then [] else countr_zero w # word_bits (w AND (w - 1)))"
  by pat_completeness auto
termination
proof (relation "measure popcount")
  fix w :: u64
  assume "w \<noteq> 0"
  from popcount_clear_lowest [OF this]
  show "(w AND (w - 1), w) \<in> measure popcount" by simp
qed simp

declare word_bits.simps [simp del]

definition bb_ForEach_squares :: "bitboard \<Rightarrow> square list" where
  "bb_ForEach_squares b = word_bits (p0 b) @ map (\<lambda>i. i + kBBSplit) (word_bits (p1 b))"

text \<open>The squares visited by \<open>while (b.Any()) sq = b.Pop();\<close>.\<close>

lemma bb_Any_iff: "bb_Any b \<longleftrightarrow> p0 b \<noteq> 0 \<or> p1 b \<noteq> 0"
  by (auto simp: bb_Any_def or_eq_0_iff)

function bb_squares :: "bitboard \<Rightarrow> square list" where
  "bb_squares b = (if bb_Any b then fst (bb_Pop b) # bb_squares (snd (bb_Pop b)) else [])"
  by pat_completeness auto
termination
proof (relation "measure bb_PopCount")
  fix b
  assume "bb_Any b"
  then show "(snd (bb_Pop b), b) \<in> measure bb_PopCount"
    using popcount_clear_lowest [of "p0 b"] popcount_clear_lowest [of "p1 b"]
    by (auto simp: bb_Any_iff bb_Pop_def bb_PopCount_def)
qed simp

declare bb_squares.simps [simp del]

text \<open>\<open>ToPlane\<close> writes the 81 entries of a plane, rank-major.\<close>

definition bb_ToPlane :: "bitboard \<Rightarrow> nat list" where
  "bb_ToPlane b =
     fold (\<lambda>s plane. plane[(s mod 9) * 9 + s div 9 := 1])
       (word_bits (p0 b) @ map (\<lambda>i. i + kBBSplit) (word_bits (p1 b))) (replicate 81 0)"

definition bb_DebugString :: "bitboard \<Rightarrow> string" where
  "bb_DebugString b = ''  9 8 7 6 5 4 3 2 1'' @ [CHR 0x0A] @
     concat (map (\<lambda>r. [char_of (97 + r), CHR '' ''] @
       concat (map (\<lambda>f. [if bb_Test b (mk_square f r) then CHR ''*'' else CHR ''.'', CHR '' ''])
         [8, 7, 6, 5, 4, 3, 2, 1, 0]) @ [CHR 0x0A]) [0..<9])"

subsection \<open>Byte reversal and the paired 128-bit decrement\<close>

definition bswap64 :: "u64 \<Rightarrow> u64" where
  "bswap64 w = foldr (\<lambda>k acc. acc OR push_bit (8 * (7 - k)) (take_bit 8 (drop_bit (8 * k) w))) [0..<8] 0"

definition bb_byte_reverse :: "bitboard \<Rightarrow> bitboard" where
  "bb_byte_reverse b = bb_FromRaw (bswap64 (p1 b)) (bswap64 (p0 b))"

definition bb_Unpack :: "bitboard \<Rightarrow> bitboard \<Rightarrow> bitboard \<times> bitboard" where
  "bb_Unpack hi_in lo_in = (bb_FromRaw (p1 lo_in) (p1 hi_in), bb_FromRaw (p0 lo_in) (p0 hi_in))"

definition bb_Decrement :: "bitboard \<Rightarrow> bitboard \<Rightarrow> bitboard \<times> bitboard" where
  "bb_Decrement hi_in lo_in =
     (bb_FromRaw (p0 hi_in - (if p0 lo_in = 0 then 1 else 0))
                 (p1 hi_in - (if p1 lo_in = 0 then 1 else 0)),
      bb_FromRaw (p0 lo_in - 1) (p1 lo_in - 1))"

text \<open>\<open>Bitboard256\<close>: two bitboards side by side, every operation lane-wise.\<close>

record bitboard256 =
  lane0 :: bitboard
  lane1 :: bitboard

definition bb256_dup :: "bitboard \<Rightarrow> bitboard256" where
  "bb256_dup b = \<lparr>lane0 = b, lane1 = b\<rparr>"

definition bb256_map2 ::
    "(bitboard \<Rightarrow> bitboard \<Rightarrow> bitboard) \<Rightarrow> bitboard256 \<Rightarrow> bitboard256 \<Rightarrow> bitboard256" where
  "bb256_map2 f a b = \<lparr>lane0 = f (lane0 a) (lane0 b), lane1 = f (lane1 a) (lane1 b)\<rparr>"

definition bb256_And :: "bitboard256 \<Rightarrow> bitboard256 \<Rightarrow> bitboard256" where
  "bb256_And = bb256_map2 bb_And"

definition bb256_Or :: "bitboard256 \<Rightarrow> bitboard256 \<Rightarrow> bitboard256" where
  "bb256_Or = bb256_map2 bb_Or"

definition bb256_Xor :: "bitboard256 \<Rightarrow> bitboard256 \<Rightarrow> bitboard256" where
  "bb256_Xor = bb256_map2 bb_Xor"

definition bb256_byte_reverse :: "bitboard256 \<Rightarrow> bitboard256" where
  "bb256_byte_reverse a = \<lparr>lane0 = bb_byte_reverse (lane0 a), lane1 = bb_byte_reverse (lane1 a)\<rparr>"

definition bb256_Unpack :: "bitboard256 \<Rightarrow> bitboard256 \<Rightarrow> bitboard256 \<times> bitboard256" where
  "bb256_Unpack hi_in lo_in =
     (bb256_map2 (\<lambda>h l. fst (bb_Unpack h l)) hi_in lo_in,
      bb256_map2 (\<lambda>h l. snd (bb_Unpack h l)) hi_in lo_in)"

definition bb256_Decrement :: "bitboard256 \<Rightarrow> bitboard256 \<Rightarrow> bitboard256 \<times> bitboard256" where
  "bb256_Decrement hi_in lo_in =
     (bb256_map2 (\<lambda>h l. fst (bb_Decrement h l)) hi_in lo_in,
      bb256_map2 (\<lambda>h l. snd (bb_Decrement h l)) hi_in lo_in)"

definition bb256_Merge :: "bitboard256 \<Rightarrow> bitboard" where
  "bb256_Merge a = bb_FromRaw (p0 (lane0 a) OR p0 (lane1 a)) (p1 (lane0 a) OR p1 (lane1 a))"

subsection \<open>Well-formed boards and membership\<close>

definition bb_ok :: "bitboard \<Rightarrow> bool" where
  "bb_ok b \<longleftrightarrow> p0 b AND kBBMask0 = p0 b \<and> p1 b AND kBBMask1 = p1 b"

lemma kBBMask_mask: "kBBMask0 = mask 63" "kBBMask1 = mask 18"
  by (simp_all add: kBBMask0_def kBBMask1_def mask_eq_exp_minus_1)

lemma bb_ok_bits: "bb_ok b \<longleftrightarrow> (\<forall>i. bit (p0 b) i \<longrightarrow> i < 63) \<and> (\<forall>i. bit (p1 b) i \<longrightarrow> i < 18)"
proof -
  have m: "w AND mask k = w \<longleftrightarrow> (\<forall>i. bit w i \<longrightarrow> i < k)" for w :: u64 and k
  proof
    assume "w AND mask k = w"
    then show "\<forall>i. bit w i \<longrightarrow> i < k" by (metis bit_and_iff bit_mask_iff)
  next
    assume "\<forall>i. bit w i \<longrightarrow> i < k"
    then show "w AND mask k = w"
      by (intro word_eq_bits_less) (auto simp: bit_and_iff bit_mask_iff)
  qed
  show ?thesis by (simp only: bb_ok_def kBBMask_mask m)
qed

lemma bb_Test_bit: "bb_Test b i = (if i < 63 then bit (p0 b) i else bit (p1 b) (i - 63))"
  by (simp only: bb_Test_def kBBSplit_def and_single_bit_nonzero)

lemma bb_eqI:
  assumes "bb_ok a" "bb_ok b" "\<And>s. s < 81 \<Longrightarrow> bb_Test a s \<longleftrightarrow> bb_Test b s"
  shows "a = b"
proof (rule bitboard.equality)
  show "p0 a = p0 b"
  proof (rule bit_word_eqI)
    fix n assume "n < LENGTH(64)"
    show "bit (p0 a) n = bit (p0 b) n"
      using assms(1,2) assms(3) [of n] by (cases "n < 63") (auto simp: bb_ok_bits bb_Test_bit)
  qed
  show "p1 a = p1 b"
  proof (rule bit_word_eqI)
    fix n assume "n < LENGTH(64)"
    show "bit (p1 a) n = bit (p1 b) n"
      using assms(1,2) assms(3) [of "n + 63"]
      by (cases "n < 18") (auto simp: bb_ok_bits bb_Test_bit)
  qed
qed simp

lemmas bb_defs = bb_FromRaw_def bb_Zero_def bb_All_def bb_FromSquare_def bb_Set_def bb_Clear_def
  bb_Toggle_def bb_Or_def bb_And_def bb_Xor_def bb_Not_def bb_AndNot_def kBBSplit_def

lemma bb_FromRaw_sel [simp]: "p0 (bb_FromRaw a b) = a" "p1 (bb_FromRaw a b) = b"
  by (simp_all add: bb_FromRaw_def)

lemma bit_single_u64: "bit (push_bit i (1::u64)) n \<longleftrightarrow> i = n \<and> n < 64"
  unfolding bit_single_word by simp

lemma bit_u64_less: "bit (w :: u64) n \<Longrightarrow> n < 64"
  using bit_imp_le_length [of w n] by simp

lemma square_split_cases: "s < 81 \<Longrightarrow> s - 63 < (18::nat)"
  by simp

lemma Test_Zero [bb_simps, simp]: "\<not> bb_Test bb_Zero s"
  by (simp add: bb_Test_bit bb_Zero_def)

lemma Test_All [bb_simps]: "s < 81 \<Longrightarrow> bb_Test bb_All s"
  by (auto simp: bb_Test_bit bb_All_def kBBMask_mask bit_mask_iff)

lemma Test_FromSquare [bb_simps]: "s < 81 \<Longrightarrow> t < 81 \<Longrightarrow> bb_Test (bb_FromSquare s) t \<longleftrightarrow> s = t"
  unfolding bb_Test_bit bb_FromSquare_def kBBSplit_def
  by (cases "s < 63"; cases "t < 63") (auto simp: bit_single_u64 simp del: push_bit_of_1)

lemma Test_Set [bb_simps]: "s < 81 \<Longrightarrow> t < 81 \<Longrightarrow> bb_Test (bb_Set b s) t \<longleftrightarrow> s = t \<or> bb_Test b t"
  unfolding bb_Test_bit bb_Set_def kBBSplit_def
  by (cases "s < 63"; cases "t < 63") (auto simp: bit_single_u64 bit_or_iff simp del: push_bit_of_1)

lemma Test_Clear [bb_simps]: "s < 81 \<Longrightarrow> t < 81 \<Longrightarrow> bb_Test (bb_Clear b s) t \<longleftrightarrow> s \<noteq> t \<and> bb_Test b t"
  unfolding bb_Test_bit bb_Clear_def kBBSplit_def
  by (cases "s < 63"; cases "t < 63")
    (auto simp: bit_single_u64 bit_and_iff bit_not_iff simp del: push_bit_of_1 dest: bit_imp_le_length)

lemma Test_Toggle [bb_simps]:
  "s < 81 \<Longrightarrow> t < 81 \<Longrightarrow> bb_Test (bb_Toggle b s) t \<longleftrightarrow> (s = t) \<noteq> bb_Test b t"
  unfolding bb_Test_bit bb_Toggle_def kBBSplit_def
  by (cases "s < 63"; cases "t < 63") (auto simp: bit_single_u64 bit_xor_iff simp del: push_bit_of_1)

lemma Test_Or [bb_simps]: "bb_Test (bb_Or a b) t \<longleftrightarrow> bb_Test a t \<or> bb_Test b t"
  by (simp add: bb_Test_bit bb_Or_def bit_or_iff)

lemma Test_And [bb_simps]: "bb_Test (bb_And a b) t \<longleftrightarrow> bb_Test a t \<and> bb_Test b t"
  by (simp add: bb_Test_bit bb_And_def bit_and_iff)

lemma Test_Xor [bb_simps]: "bb_Test (bb_Xor a b) t \<longleftrightarrow> bb_Test a t \<noteq> bb_Test b t"
  by (simp add: bb_Test_bit bb_Xor_def bit_xor_iff)

lemma Test_Not [bb_simps]: "t < 81 \<Longrightarrow> bb_Test (bb_Not a) t \<longleftrightarrow> \<not> bb_Test a t"
  by (auto simp: bb_Test_bit bb_Not_def kBBMask_mask bit_and_iff bit_not_iff bit_mask_iff)

lemma Test_AndNot [bb_simps]: "t < 81 \<Longrightarrow> bb_Test (bb_AndNot a b) t \<longleftrightarrow> \<not> bb_Test a t \<and> bb_Test b t"
  by (auto simp: bb_Test_bit bb_AndNot_def bit_and_iff bit_not_iff dest: bit_imp_le_length)

lemma bb_ok_Zero [bb_intros, simp]: "bb_ok bb_Zero"
  by (simp add: bb_ok_def bb_Zero_def)

lemma bb_ok_All [bb_intros, simp]: "bb_ok bb_All"
  by (simp add: bb_ok_def bb_All_def)

lemma bb_ok_FromSquare [bb_intros]: "s < 81 \<Longrightarrow> bb_ok (bb_FromSquare s)"
  unfolding bb_ok_bits bb_FromSquare_def kBBSplit_def
  by (cases "s < 63") (auto simp: bit_single_u64 simp del: push_bit_of_1)

lemma bb_ok_Set [bb_intros]: "s < 81 \<Longrightarrow> bb_ok b \<Longrightarrow> bb_ok (bb_Set b s)"
  unfolding bb_ok_bits bb_Set_def kBBSplit_def
  by (cases "s < 63") (auto simp: bit_single_u64 bit_or_iff simp del: push_bit_of_1)

lemma bb_ok_Clear [bb_intros]: "bb_ok b \<Longrightarrow> bb_ok (bb_Clear b s)"
  unfolding bb_ok_bits bb_Clear_def by (auto simp: bit_and_iff)

lemma bb_ok_Or [bb_intros]: "bb_ok a \<Longrightarrow> bb_ok b \<Longrightarrow> bb_ok (bb_Or a b)"
  unfolding bb_ok_bits bb_Or_def by (auto simp: bit_or_iff)

lemma bb_ok_And1 [bb_intros]: "bb_ok a \<Longrightarrow> bb_ok (bb_And a b)"
  unfolding bb_ok_bits bb_And_def by (auto simp: bit_and_iff)

lemma bb_ok_And2: "bb_ok b \<Longrightarrow> bb_ok (bb_And a b)"
  unfolding bb_ok_bits bb_And_def by (auto simp: bit_and_iff)

lemma bb_ok_Xor [bb_intros]: "bb_ok a \<Longrightarrow> bb_ok b \<Longrightarrow> bb_ok (bb_Xor a b)"
  unfolding bb_ok_bits bb_Xor_def by (auto simp: bit_xor_iff)

lemma bb_ok_Not [bb_intros]: "bb_ok (bb_Not a)"
  unfolding bb_ok_bits bb_Not_def kBBMask_mask by (auto simp: bit_and_iff bit_mask_iff)

lemma bb_ok_AndNot [bb_intros]: "bb_ok b \<Longrightarrow> bb_ok (bb_AndNot a b)"
  unfolding bb_ok_bits bb_AndNot_def by (auto simp: bit_and_iff)

lemma bb_Any_iff_Test: "bb_ok b \<Longrightarrow> bb_Any b \<longleftrightarrow> (\<exists>s<81. bb_Test b s)"
proof -
  assume ok: "bb_ok b"
  have "bb_Any b \<longleftrightarrow> (\<exists>i. bit (p0 b) i) \<or> (\<exists>i. bit (p1 b) i)"
    by (auto simp: bb_Any_iff word_nonzero_iff_bit dest: bit_u64_less)
  also have "\<dots> \<longleftrightarrow> (\<exists>s<81. bb_Test b s)"
  proof
    assume "(\<exists>i. bit (p0 b) i) \<or> (\<exists>i. bit (p1 b) i)"
    then show "\<exists>s<81. bb_Test b s"
    proof (elim disjE exE)
      fix i assume "bit (p0 b) i"
      with ok have "i < 63" by (auto simp: bb_ok_bits)
      with \<open>bit (p0 b) i\<close> show ?thesis by (intro exI [of _ i]) (simp add: bb_Test_bit)
    next
      fix i assume "bit (p1 b) i"
      with ok have "i < 18" by (auto simp: bb_ok_bits)
      with \<open>bit (p1 b) i\<close> show ?thesis by (intro exI [of _ "i + 63"]) (simp add: bb_Test_bit)
    qed
  qed (auto simp: bb_Test_bit split: if_splits)
  finally show ?thesis .
qed

subsection \<open>The pop loop visits the members in increasing order\<close>

lemma filter_split_lowest:
  assumes "P k" "\<forall>j<k. \<not> P j" "k < n"
  shows "filter P [0..<n] = k # filter (\<lambda>i. P i \<and> (\<exists>j<i. P j)) [0..<n]"
proof -
  have "[0..<n] = [0..<k] @ k # [Suc k..<n]"
    using assms(3) upt_split [of 0 k n] by (simp add: upt_conv_Cons)
  moreover have "filter P [0..<k] = []" using assms(2) by (simp add: filter_empty_conv)
  moreover have "filter (\<lambda>i. P i \<and> (\<exists>j<i. P j)) [0..<k] = []"
    using assms(2) by (simp add: filter_empty_conv)
  moreover have "filter (\<lambda>i. P i \<and> (\<exists>j<i. P j)) [Suc k..<n] = filter P [Suc k..<n]"
    using assms(1) by (intro filter_cong refl) (auto intro!: exI [of _ k] simp: Suc_le_eq)
  ultimately show ?thesis using assms(1,2) by auto
qed

lemma word_bits_filter: "word_bits w = filter (bit w) [0..<64]"
proof (induction w rule: word_bits.induct)
  case (1 w)
  show ?case
  proof (cases "w = 0")
    case True
    then show ?thesis by (simp add: word_bits.simps)
  next
    case False
    let ?k = "countr_zero w"
    have k: "bit w ?k" "\<forall>j<?k. \<not> bit w j" "?k < 64"
      using countr_zero_least [OF False] by simp_all
    have "word_bits w = ?k # word_bits (w AND (w - 1))"
      using False by (subst word_bits.simps) simp
    also have "word_bits (w AND (w - 1)) = filter (bit (w AND (w - 1))) [0..<64]"
      using "1.IH" [OF False] .
    also have "\<dots> = filter (\<lambda>i. bit w i \<and> (\<exists>j<i. bit w j)) [0..<64]"
      by (rule arg_cong [where f = "\<lambda>P. filter P [0..<64]"])
        (rule ext, rule bit_word_and_minus_one)
    also have "?k # \<dots> = filter (bit w) [0..<64]"
      using filter_split_lowest [of "bit w" ?k 64, OF k] by simp
    finally show ?thesis .
  qed
qed

lemma word_bits_Cons: "w \<noteq> 0 \<Longrightarrow> word_bits w = countr_zero w # word_bits (w AND (w - 1))"
  by (subst word_bits.simps) simp

lemma word_bits_0 [simp]: "word_bits 0 = []"
  by (simp add: word_bits.simps)

lemma bb_squares_ForEach: "bb_squares b = bb_ForEach_squares b"
proof (induction b rule: bb_squares.induct)
  case (1 b)
  consider "p0 b \<noteq> 0" | "p0 b = 0" "p1 b \<noteq> 0" | "p0 b = 0" "p1 b = 0" by auto
  then show ?case
  proof cases
    case a: 1
    then show ?thesis
      using "1.IH" by (subst bb_squares.simps)
        (simp add: bb_Any_iff bb_Pop_def bb_ForEach_squares_def word_bits_Cons)
  next
    case a: 2
    then show ?thesis
      using "1.IH" by (subst bb_squares.simps)
        (simp add: bb_Any_iff bb_Pop_def bb_ForEach_squares_def word_bits_Cons)
  next
    case a: 3
    then show ?thesis
      by (subst bb_squares.simps) (simp add: bb_Any_iff bb_ForEach_squares_def)
  qed
qed

lemma bb_squares_filter:
  assumes "bb_ok b"
  shows "bb_squares b = filter (bb_Test b) [0..<81]"
proof -
  have lo: "filter (bit (p0 b)) [0..<64] = filter (bb_Test b) [0..<63]"
  proof -
    have "[0..<64] = [0..<63] @ [63::nat]" by (simp add: upt_conv_Cons)
    moreover have "\<not> bit (p0 b) 63" using assms by (auto simp: bb_ok_bits)
    moreover have "filter (bit (p0 b)) [0..<63] = filter (bb_Test b) [0..<63]"
      by (rule filter_cong [OF refl]) (simp only: bb_Test_bit set_upt atLeastLessThan_iff, simp)
    ultimately show ?thesis by (simp only: filter_append) simp
  qed
  have hi: "map (\<lambda>i. i + 63) (filter (bit (p1 b)) [0..<64]) = filter (bb_Test b) [63..<81]"
  proof -
    have "filter (bit (p1 b)) [18..<64] = []"
      using assms by (auto simp: filter_empty_conv bb_ok_bits)
    moreover have "[0..<64] = [0..<18] @ [18..<64::nat]"
      using upt_split [of 0 18 64] by simp
    ultimately have "filter (bit (p1 b)) [0..<64] = filter (bit (p1 b)) [0..<18]"
      by (simp only: filter_append append_Nil2)
    then have "map (\<lambda>i. i + 63) (filter (bit (p1 b)) [0..<64]) = filter (\<lambda>i. bit (p1 b) (i - 63)) [63..<81]"
      using filter_map_add [of 63 "bit (p1 b)" 0 18] by simp
    also have "\<dots> = filter (bb_Test b) [63..<81]"
      by (rule filter_cong [OF refl]) (simp only: bb_Test_bit set_upt atLeastLessThan_iff, simp)
    finally show ?thesis .
  qed
  have "filter (bb_Test b) [0..<81] = filter (bb_Test b) [0..<63] @ filter (bb_Test b) [63..<81]"
    using upt_split [of 0 63 81] filter_append [of "bb_Test b" "[0..<63]" "[63..<81]"] by simp
  then show ?thesis
    using lo hi by (simp only: bb_squares_ForEach bb_ForEach_squares_def word_bits_filter kBBSplit_def)
qed

lemma set_bb_squares [bb_simps]: "bb_ok b \<Longrightarrow> set (bb_squares b) = {s. s < 81 \<and> bb_Test b s}"
  by (auto simp: bb_squares_filter)

lemma sorted_bb_squares: "bb_ok b \<Longrightarrow> sorted (bb_squares b) \<and> distinct (bb_squares b)"
  by (simp add: bb_squares_filter sorted_wrt_filter)

lemma bb_squares_Nil_iff: "bb_squares b = [] \<longleftrightarrow> \<not> bb_Any b"
  by (subst bb_squares.simps) simp

lemma bb_PopCount_length: "bb_ok b \<Longrightarrow> bb_PopCount b = length (bb_squares b)"
  unfolding bb_squares_ForEach bb_ForEach_squares_def
  by (simp add: bb_PopCount_def popcount_def word_bits_filter)

lemma bb_MoreThanOne_iff: "bb_ok b \<Longrightarrow> bb_MoreThanOne b \<longleftrightarrow> 2 \<le> length (bb_squares b)"
proof -
  have w: "w AND (w - 1) \<noteq> 0 \<longleftrightarrow> 2 \<le> length (word_bits w)" for w :: u64
    by (cases "w = 0"; cases "w AND (w - 1) = 0") (simp_all add: word_bits_Cons)
  have n: "w \<noteq> 0 \<longleftrightarrow> 1 \<le> length (word_bits w)" for w :: u64
    by (cases "w = 0") (simp_all add: word_bits_Cons)
  show ?thesis
    unfolding bb_MoreThanOne_def bb_squares_ForEach bb_ForEach_squares_def
    using w [of "p0 b"] w [of "p1 b"] n [of "p0 b"] n [of "p1 b"] by auto
qed

lemma bb_Peek_hd: "bb_Any b \<Longrightarrow> bb_Peek b = hd (bb_squares b)"
  by (subst bb_squares.simps) (simp add: bb_Peek_def bb_Pop_def)

lemma bb_Pop_eq: "bb_Any b \<Longrightarrow> bb_squares b = fst (bb_Pop b) # bb_squares (snd (bb_Pop b))"
  by (subst bb_squares.simps) simp

text \<open>Popping the lowest square until the board is empty visits exactly the squares of the
  board, each once and in increasing order, and so does the word-wise loop of \<open>ForEach\<close>.\<close>

theorem bb_iteration_correct:
  assumes "bb_ok b"
  shows "bb_squares b = filter (bb_Test b) [0..<81] \<and>
    bb_ForEach_squares b = bb_squares b \<and> bb_PopCount b = card {s. s < 81 \<and> bb_Test b s}"
proof -
  have "bb_PopCount b = card (set (bb_squares b))"
    using assms sorted_bb_squares by (simp add: bb_PopCount_length distinct_card)
  then show ?thesis using assms by (simp add: bb_squares_filter bb_squares_ForEach [symmetric] set_bb_squares)
qed

theorem bb_iteration_correct_witness:
  "bb_ok (bb_Set (bb_Set bb_Zero 80) 5) \<and>
   bb_squares (bb_Set (bb_Set bb_Zero 80) 5) =
     filter (bb_Test (bb_Set (bb_Set bb_Zero 80) 5)) [0..<81]"
proof -
  have ok: "bb_ok (bb_Set (bb_Set bb_Zero 80) 5)" by (simp add: bb_intros)
  show ?thesis using ok bb_iteration_correct [OF ok] by blast
qed

end
