(* ===== verification/Tables.thy ===== *)
theory Tables
  imports Bitboards
begin

text \<open>
  The precomputed tables of shogi/bitboard.cc that need no attack computation: single
  squares, files, ranks and promotion zones, the step attacks, the lance masks, the rays,
  and the between and line tables.  The start-up code fills each array index by index;
  here a table is the function from the index to the value the code stores there.
  A ray is also kept as the list of its squares in walking order, which is the reference
  the sliding attacks are compared with later.
\<close>

subsection \<open>Squares, files, ranks, zones\<close>

definition SquareBB :: "square \<Rightarrow> bitboard" where
  "SquareBB sq = bb_FromSquare sq"

definition FileBB :: "nat \<Rightarrow> bitboard" where
  "FileBB f = fold (\<lambda>r b. bb_Set b (mk_square f r)) [0..<9] bb_Zero"

definition RankBB :: "nat \<Rightarrow> bitboard" where
  "RankBB r = fold (\<lambda>f b. bb_Set b (mk_square f r)) [0..<9] bb_Zero"

definition PromotionZoneBB :: "color \<Rightarrow> bitboard" where
  "PromotionZoneBB c =
     (if c = BLACK then bb_Or (bb_Or (RankBB 0) (RankBB 1)) (RankBB 2)
      else bb_Or (bb_Or (RankBB 6) (RankBB 7)) (RankBB 8))"

lemma Test_fold_Set:
  assumes "\<And>x. x \<in> set xs \<Longrightarrow> g x < 81" "t < 81"
  shows "bb_Test (fold (\<lambda>x b. bb_Set b (g x)) xs b) t \<longleftrightarrow> bb_Test b t \<or> (\<exists>x\<in>set xs. g x = t)"
  using assms by (induction xs arbitrary: b) (auto simp: bb_simps)

lemma bb_ok_fold_Set:
  assumes "\<And>x. x \<in> set xs \<Longrightarrow> g x < 81" "bb_ok b"
  shows "bb_ok (fold (\<lambda>x b. bb_Set b (g x)) xs b)"
  using assms by (induction xs arbitrary: b) (auto simp: bb_intros)

lemma Test_SquareBB [bb_simps]: "s < 81 \<Longrightarrow> t < 81 \<Longrightarrow> bb_Test (SquareBB s) t \<longleftrightarrow> s = t"
  by (simp add: SquareBB_def bb_simps)

lemma Test_FileBB [bb_simps]: "f < 9 \<Longrightarrow> t < 81 \<Longrightarrow> bb_Test (FileBB f) t \<longleftrightarrow> sq_file t = f"
  unfolding FileBB_def
  by (subst Test_fold_Set) (auto intro: bexI [of _ "sq_rank t"])

lemma Test_RankBB [bb_simps]: "r < 9 \<Longrightarrow> t < 81 \<Longrightarrow> bb_Test (RankBB r) t \<longleftrightarrow> sq_rank t = r"
  unfolding RankBB_def
  by (subst Test_fold_Set) (auto intro: bexI [of _ "sq_file t"])

lemma bb_ok_tables [bb_intros, simp]:
  "s < 81 \<Longrightarrow> bb_ok (SquareBB s)" "f < 9 \<Longrightarrow> bb_ok (FileBB f)" "f < 9 \<Longrightarrow> bb_ok (RankBB f)"
  unfolding SquareBB_def FileBB_def RankBB_def
  by (auto intro!: bb_ok_fold_Set bb_intros)

lemma bb_ok_PromotionZoneBB [bb_intros, simp]: "bb_ok (PromotionZoneBB c)"
  by (simp add: PromotionZoneBB_def bb_intros)

lemma Test_PromotionZoneBB [bb_simps]:
  "t < 81 \<Longrightarrow> bb_Test (PromotionZoneBB c) t \<longleftrightarrow> sq_InPromotionZone t c"
  using sq_rank_less [of t]
  by (auto simp: PromotionZoneBB_def bb_simps sq_InPromotionZone_def rank_InPromotionZone_def
      simp del: sq_rank_less)

subsection \<open>Step attacks\<close>

definition on_board :: "int \<Rightarrow> int \<Rightarrow> bool" where
  "on_board f r \<longleftrightarrow> f \<ge> 0 \<and> f < 9 \<and> r \<ge> 0 \<and> r < 9"

definition MakeStepBB :: "int \<Rightarrow> int \<Rightarrow> (int \<times> int) list \<Rightarrow> bitboard" where
  "MakeStepBB f r deltas =
     fold (\<lambda>(df, dr) bb. let nf = f + df; nr = r + dr in
             if on_board nf nr then bb_Set bb (mk_square (nat nf) (nat nr)) else bb)
       deltas bb_Zero"

abbreviation file_of :: "square \<Rightarrow> int" where "file_of s \<equiv> int (sq_file s)"
abbreviation rank_of :: "square \<Rightarrow> int" where "rank_of s \<equiv> int (sq_rank s)"

definition pawn_deltas :: "color \<Rightarrow> (int \<times> int) list" where
  "pawn_deltas c = (if c = BLACK then [(0, -1)] else [(0, 1)])"

definition knight_deltas :: "color \<Rightarrow> (int \<times> int) list" where
  "knight_deltas c = (if c = BLACK then [(-1, -2), (1, -2)] else [(-1, 2), (1, 2)])"

definition silver_deltas :: "color \<Rightarrow> (int \<times> int) list" where
  "silver_deltas c =
     (if c = BLACK then [(0, -1), (-1, -1), (1, -1), (-1, 1), (1, 1)]
      else [(0, 1), (-1, 1), (1, 1), (-1, -1), (1, -1)])"

definition gold_deltas :: "color \<Rightarrow> (int \<times> int) list" where
  "gold_deltas c =
     (if c = BLACK then [(0, -1), (-1, -1), (1, -1), (-1, 0), (1, 0), (0, 1)]
      else [(0, 1), (-1, 1), (1, 1), (-1, 0), (1, 0), (0, -1)])"

definition king_deltas :: "(int \<times> int) list" where
  "king_deltas = [(-1, -1), (-1, 0), (-1, 1), (0, -1), (0, 1), (1, -1), (1, 0), (1, 1)]"

definition horse_deltas :: "(int \<times> int) list" where
  "horse_deltas = [(0, -1), (0, 1), (-1, 0), (1, 0)]"

definition dragon_deltas :: "(int \<times> int) list" where
  "dragon_deltas = [(-1, -1), (-1, 1), (1, -1), (1, 1)]"

definition PawnEffectBB :: "square \<Rightarrow> color \<Rightarrow> bitboard" where
  "PawnEffectBB sq c = MakeStepBB (file_of sq) (rank_of sq) (pawn_deltas c)"

definition KnightEffectBB :: "square \<Rightarrow> color \<Rightarrow> bitboard" where
  "KnightEffectBB sq c = MakeStepBB (file_of sq) (rank_of sq) (knight_deltas c)"

definition SilverEffectBB :: "square \<Rightarrow> color \<Rightarrow> bitboard" where
  "SilverEffectBB sq c = MakeStepBB (file_of sq) (rank_of sq) (silver_deltas c)"

definition GoldEffectBB :: "square \<Rightarrow> color \<Rightarrow> bitboard" where
  "GoldEffectBB sq c = MakeStepBB (file_of sq) (rank_of sq) (gold_deltas c)"

definition KingEffectBB :: "square \<Rightarrow> bitboard" where
  "KingEffectBB sq = MakeStepBB (file_of sq) (rank_of sq) king_deltas"

definition HorseStepBB :: "square \<Rightarrow> bitboard" where
  "HorseStepBB sq = MakeStepBB (file_of sq) (rank_of sq) horse_deltas"

definition DragonStepBB :: "square \<Rightarrow> bitboard" where
  "DragonStepBB sq = MakeStepBB (file_of sq) (rank_of sq) dragon_deltas"

definition LanceMaskBB :: "square \<Rightarrow> color \<Rightarrow> bitboard" where
  "LanceMaskBB sq c =
     (if c = BLACK then fold (\<lambda>rr b. bb_Set b (mk_square (sq_file sq) rr)) [0..<sq_rank sq] bb_Zero
      else fold (\<lambda>rr b. bb_Set b (mk_square (sq_file sq) rr)) [sq_rank sq + 1..<9] bb_Zero)"

lemma on_board_coords [simp]: "s < 81 \<Longrightarrow> on_board (file_of s) (rank_of s)"
  using sq_file_less [of s] sq_rank_less [of s] by (simp add: on_board_def)

lemma mk_square_eq_iff:
  assumes "on_board f r" "s < 81"
  shows "mk_square (nat f) (nat r) = s \<longleftrightarrow> f = file_of s \<and> r = rank_of s"
  using assms by (auto simp: on_board_def)

lemma mk_square_on_board [simp]: "on_board f r \<Longrightarrow> mk_square (nat f) (nat r) < 81"
  using mk_square_less [of "nat f" "nat r"] by (auto simp: on_board_def simp del: mk_square_less)

lemma Test_MakeStepBB_fold:
  assumes "t < 81"
  shows "bb_Test (fold (\<lambda>(df, dr) bb. if on_board (f + df) (r + dr)
             then bb_Set bb (mk_square (nat (f + df)) (nat (r + dr))) else bb) ds b) t
     \<longleftrightarrow> bb_Test b t \<or> (file_of t - f, rank_of t - r) \<in> set ds"
proof (induction ds arbitrary: b)
  case (Cons d ds)
  obtain df dr where d: "d = (df, dr)" by (cases d)
  have "bb_Test (if on_board (f + df) (r + dr) then bb_Set b (mk_square (nat (f + df)) (nat (r + dr))) else b) t
      \<longleftrightarrow> bb_Test b t \<or> (df = file_of t - f \<and> dr = rank_of t - r)"
  proof (cases "on_board (f + df) (r + dr)")
    case True
    then show ?thesis using assms mk_square_eq_iff [OF True assms] by (auto simp: bb_simps)
  next
    case False
    then have "\<not> (df = file_of t - f \<and> dr = rank_of t - r)"
      using on_board_coords [OF assms] by auto
    with False show ?thesis by auto
  qed
  then show ?case by (simp only: d fold.simps o_apply prod.case Cons.IH list.set) auto
qed simp

lemma Test_MakeStepBB:
  "t < 81 \<Longrightarrow> bb_Test (MakeStepBB f r ds) t \<longleftrightarrow> (file_of t - f, rank_of t - r) \<in> set ds"
  unfolding MakeStepBB_def Let_def using Test_MakeStepBB_fold [of t f r ds bb_Zero] by simp

lemma bb_ok_MakeStepBB [bb_intros]: "bb_ok (MakeStepBB f r ds)"
proof -
  have "bb_ok b \<Longrightarrow> bb_ok (fold (\<lambda>(df, dr) bb. let nf = f + df; nr = r + dr in
             if on_board nf nr then bb_Set bb (mk_square (nat nf) (nat nr)) else bb) ds b)" for b
    by (induction ds arbitrary: b) (auto simp: Let_def bb_intros)
  then show ?thesis by (simp add: MakeStepBB_def)
qed

lemma bb_ok_steps [bb_intros, simp]:
  "bb_ok (PawnEffectBB s c)" "bb_ok (KnightEffectBB s c)" "bb_ok (SilverEffectBB s c)"
  "bb_ok (GoldEffectBB s c)" "bb_ok (KingEffectBB s)" "bb_ok (HorseStepBB s)"
  "bb_ok (DragonStepBB s)"
  by (simp_all add: PawnEffectBB_def KnightEffectBB_def SilverEffectBB_def GoldEffectBB_def
      KingEffectBB_def HorseStepBB_def DragonStepBB_def bb_intros)

lemmas step_defs = PawnEffectBB_def KnightEffectBB_def SilverEffectBB_def GoldEffectBB_def
  KingEffectBB_def HorseStepBB_def DragonStepBB_def

lemmas delta_defs = pawn_deltas_def knight_deltas_def silver_deltas_def gold_deltas_def
  king_deltas_def horse_deltas_def dragon_deltas_def

text \<open>Looking from the target with the colours exchanged finds the same relation.\<close>

lemma MakeStepBB_symmetric:
  assumes "s < 81" "t < 81" "\<And>a b. (a, b) \<in> set ds \<longleftrightarrow> (- a, - b) \<in> set ds'"
  shows "bb_Test (MakeStepBB (file_of s) (rank_of s) ds) t \<longleftrightarrow>
    bb_Test (MakeStepBB (file_of t) (rank_of t) ds') s"
  using assms(3) [of "file_of t - file_of s" "rank_of t - rank_of s"] assms(1,2)
  by (simp add: Test_MakeStepBB)

lemma neg_eq_numeral_iff: "- a = (1::int) \<longleftrightarrow> a = - 1" "- a = -1 \<longleftrightarrow> a = (1::int)"
  "- a = (2::int) \<longleftrightarrow> a = - 2" "- a = -2 \<longleftrightarrow> a = (2::int)"
  by auto

lemma deltas_opposite:
  "(a, b) \<in> set (pawn_deltas c) \<longleftrightarrow> (- a, - b) \<in> set (pawn_deltas (opp c))"
  "(a, b) \<in> set (knight_deltas c) \<longleftrightarrow> (- a, - b) \<in> set (knight_deltas (opp c))"
  "(a, b) \<in> set (silver_deltas c) \<longleftrightarrow> (- a, - b) \<in> set (silver_deltas (opp c))"
  "(a, b) \<in> set (gold_deltas c) \<longleftrightarrow> (- a, - b) \<in> set (gold_deltas (opp c))"
  "(a, b) \<in> set king_deltas \<longleftrightarrow> (- a, - b) \<in> set king_deltas"
  "(a, b) \<in> set horse_deltas \<longleftrightarrow> (- a, - b) \<in> set horse_deltas"
  "(a, b) \<in> set dragon_deltas \<longleftrightarrow> (- a, - b) \<in> set dragon_deltas"
  by (cases c; simp add: delta_defs neg_eq_numeral_iff; blast)+

lemma step_symmetric:
  assumes "s < 81" "t < 81"
  shows "bb_Test (PawnEffectBB s c) t \<longleftrightarrow> bb_Test (PawnEffectBB t (opp c)) s"
    and "bb_Test (KnightEffectBB s c) t \<longleftrightarrow> bb_Test (KnightEffectBB t (opp c)) s"
    and "bb_Test (SilverEffectBB s c) t \<longleftrightarrow> bb_Test (SilverEffectBB t (opp c)) s"
    and "bb_Test (GoldEffectBB s c) t \<longleftrightarrow> bb_Test (GoldEffectBB t (opp c)) s"
    and "bb_Test (KingEffectBB s) t \<longleftrightarrow> bb_Test (KingEffectBB t) s"
    and "bb_Test (HorseStepBB s) t \<longleftrightarrow> bb_Test (HorseStepBB t) s"
    and "bb_Test (DragonStepBB s) t \<longleftrightarrow> bb_Test (DragonStepBB t) s"
  unfolding step_defs by (intro MakeStepBB_symmetric assms deltas_opposite)+

lemma Test_LanceMaskBB [bb_simps]:
  assumes "s < 81" "t < 81"
  shows "bb_Test (LanceMaskBB s c) t \<longleftrightarrow> sq_file t = sq_file s \<and>
     (if c = BLACK then sq_rank t < sq_rank s else sq_rank s < sq_rank t)"
proof -
  have r: "x < sq_rank s \<Longrightarrow> x < 9" for x by (rule less_trans [OF _ sq_rank_less])
  have f: "bb_Test (fold (\<lambda>rr b. bb_Set b (mk_square (sq_file s) rr)) xs bb_Zero) t \<longleftrightarrow>
      sq_file t = sq_file s \<and> sq_rank t \<in> set xs" if "\<And>x. x \<in> set xs \<Longrightarrow> x < 9" for xs
    using that assms by (subst Test_fold_Set) (auto, metis mk_square_file_rank)
  have u: "x \<in> set [0..<sq_rank s] \<Longrightarrow> x < 9" "x \<in> set [sq_rank s + 1..<9] \<Longrightarrow> x < 9" for x
    using r by auto
  show ?thesis
    unfolding LanceMaskBB_def
    using f [of "[0..<sq_rank s]", OF u(1)] f [of "[sq_rank s + 1..<9]", OF u(2)] by (auto simp: Suc_le_eq)
qed

lemma bb_ok_LanceMaskBB [bb_intros, simp]: "s < 81 \<Longrightarrow> bb_ok (LanceMaskBB s c)"
proof -
  assume s: "s < 81"
  have r: "x < sq_rank s \<Longrightarrow> x < 9" for x by (rule less_trans [OF _ sq_rank_less])
  show ?thesis unfolding LanceMaskBB_def using s r by (auto intro!: bb_ok_fold_Set)
qed

subsection \<open>Rays\<close>

text \<open>The walk of \<open>MakeRayBB\<close>: the squares met from \<open>(f, r)\<close> on, stepping by \<open>(df, dr)\<close>,
  until the edge.  The fuel bounds the walk; nine squares are enough for a unit step
  (\<open>set_ray_from\<close>).\<close>

fun ray_squares :: "nat \<Rightarrow> int \<Rightarrow> int \<Rightarrow> int \<Rightarrow> int \<Rightarrow> square list" where
  "ray_squares 0 f r df dr = []"
| "ray_squares (Suc n) f r df dr =
     (if on_board f r then mk_square (nat f) (nat r) # ray_squares n (f + df) (r + dr) df dr
      else [])"

definition ray_from :: "square \<Rightarrow> int \<times> int \<Rightarrow> square list" where
  "ray_from s d = ray_squares 9 (file_of s + fst d) (rank_of s + snd d) (fst d) (snd d)"

definition MakeRayBB :: "square \<Rightarrow> int \<times> int \<Rightarrow> bitboard" where
  "MakeRayBB s d = fold (\<lambda>q bb. bb_Set bb q) (ray_from s d) bb_Zero"

definition unit_dir :: "int \<times> int \<Rightarrow> bool" where
  "unit_dir d \<longleftrightarrow> d \<in> {(0,-1), (0,1), (-1,0), (1,0), (-1,-1), (-1,1), (1,-1), (1,1)}"

definition dirs :: "(int \<times> int) list" where
  "dirs = [(0,-1), (0,1), (-1,0), (1,0), (-1,-1), (-1,1), (1,-1), (1,1)]"

lemma set_dirs: "set dirs = {d. unit_dir d}"
  by (auto simp: dirs_def unit_dir_def)

lemma unit_dir_bounds:
  "unit_dir (df, dr) \<Longrightarrow> df \<in> {-1, 0, 1} \<and> dr \<in> {-1, 0, 1} \<and> (df \<noteq> 0 \<or> dr \<noteq> 0)"
  by (auto simp: unit_dir_def)

lemma on_board_between:
  assumes "on_board f r" "on_board (f + int k * df) (r + int k * dr)" "j \<le> k"
  shows "on_board (f + int j * df) (r + int j * dr)"
proof -
  have mid: "0 \<le> a + int j * d \<and> a + int j * d < 9"
    if a: "0 \<le> a" "a < 9" and k: "0 \<le> a + int k * d" "a + int k * d < 9" for a d :: int
  proof (cases "d \<ge> 0")
    case True
    then have "0 \<le> int j * d" "int j * d \<le> int k * d" using assms(3) by (auto intro: mult_right_mono)
    with a k show ?thesis by linarith
  next
    case False
    then have "int j * d \<le> 0" "int k * d \<le> int j * d" using assms(3)
      by (auto intro: mult_right_mono_neg mult_nonneg_nonpos)
    with a k show ?thesis by linarith
  qed
  from assms mid [of f df] mid [of r dr] show ?thesis by (simp add: on_board_def)
qed

lemma nth_ray_squares:
  assumes "on_board f r"
  shows "q \<in> set (ray_squares n f r df dr) \<longleftrightarrow>
    (\<exists>k<n. on_board (f + int k * df) (r + int k * dr) \<and>
       q = mk_square (nat (f + int k * df)) (nat (r + int k * dr)))"
  using assms
proof (induction n arbitrary: f r)
  case (Suc n)
  let ?P = "\<lambda>f r k. on_board (f + int k * df) (r + int k * dr) \<and>
     q = mk_square (nat (f + int k * df)) (nat (r + int k * dr))"
  have shift: "?P (f + df) (r + dr) k \<longleftrightarrow> ?P f r (Suc k)" for k
    by (simp add: algebra_simps)
  have "q \<in> set (ray_squares n (f + df) (r + dr) df dr) \<longleftrightarrow> (\<exists>k<n. ?P f r (Suc k))"
  proof (cases "on_board (f + df) (r + dr)")
    case True
    show ?thesis using Suc.IH [OF True] shift by simp
  next
    case False
    have n: "\<not> ?P f r (Suc k)" for k
      using on_board_between [OF Suc.prems, of "Suc k" df dr 1] False by auto
    have "set (ray_squares n (f + df) (r + dr) df dr) = {}"
      using False by (cases n) simp_all
    then show ?thesis by (simp only: n) simp
  qed
  moreover have "(\<exists>k<Suc n. ?P f r k) \<longleftrightarrow> ?P f r 0 \<or> (\<exists>k<n. ?P f r (Suc k))"
    by (auto simp: less_Suc_eq_0_disj)
  ultimately show ?case using Suc.prems by simp
qed simp

text \<open>\<open>steps_to s d k t\<close>: the square \<open>t\<close> lies \<open>k\<close> steps of \<open>d\<close> away from \<open>s\<close>.\<close>

definition steps_to :: "square \<Rightarrow> int \<times> int \<Rightarrow> nat \<Rightarrow> square \<Rightarrow> bool" where
  "steps_to s d k t \<longleftrightarrow> file_of t = file_of s + int k * fst d \<and> rank_of t = rank_of s + int k * snd d"

lemma steps_to_bound:
  assumes "s < 81" "t < 81" "unit_dir d" "steps_to s d k t"
  shows "k \<le> 8"
proof -
  obtain df dr where d: "d = (df, dr)" by (cases d)
  have b: "sq_file s < 9" "sq_file t < 9" "sq_rank s < 9" "sq_rank t < 9" using assms by simp_all
  have e: "file_of t = file_of s + int k * df" "rank_of t = rank_of s + int k * dr"
    using assms(4) by (simp_all add: steps_to_def d)
  consider "df = 1" | "df = -1" | "dr = 1" | "dr = -1"
    using unit_dir_bounds [of df dr] assms(3) d by auto
  then show ?thesis
  proof cases
    case 1
    then have "file_of t = file_of s + int k" using e by simp
    with b show ?thesis by linarith
  next
    case 2
    then have "file_of t = file_of s - int k" using e by simp
    with b show ?thesis by linarith
  next
    case 3
    then have "rank_of t = rank_of s + int k" using e by simp
    with b show ?thesis by linarith
  next
    case 4
    then have "rank_of t = rank_of s - int k" using e by simp
    with b show ?thesis by linarith
  qed
qed

lemma set_ray_from:
  assumes s: "s < 81" and d: "unit_dir d"
  shows "t \<in> set (ray_from s d) \<longleftrightarrow> t < 81 \<and> (\<exists>k\<ge>1. steps_to s d k t)"
proof -
  obtain df dr where dd: "d = (df, dr)" by (cases d)
  let ?f = "file_of s + df" let ?r = "rank_of s + dr"
  have eq: "on_board (?f + int k * df) (?r + int k * dr) \<and>
      t = mk_square (nat (?f + int k * df)) (nat (?r + int k * dr)) \<longleftrightarrow>
      t < 81 \<and> steps_to s d (Suc k) t" for k
  proof
    assume a: "on_board (?f + int k * df) (?r + int k * dr) \<and>
      t = mk_square (nat (?f + int k * df)) (nat (?r + int k * dr))"
    then have "t < 81" by simp
    with a mk_square_eq_iff [of "?f + int k * df" "?r + int k * dr" t]
    show "t < 81 \<and> steps_to s d (Suc k) t" by (auto simp: steps_to_def dd algebra_simps)
  next
    assume a: "t < 81 \<and> steps_to s d (Suc k) t"
    then have e: "?f + int k * df = file_of t" "?r + int k * dr = rank_of t"
      by (auto simp: steps_to_def dd algebra_simps)
    show "on_board (?f + int k * df) (?r + int k * dr) \<and>
      t = mk_square (nat (?f + int k * df)) (nat (?r + int k * dr))"
      unfolding e using a by simp
  qed
  have range: "(\<exists>k\<ge>1. steps_to s d k t) \<longleftrightarrow> (\<exists>k<9. steps_to s d (Suc k) t)" if "t < 81"
  proof
    assume "\<exists>k\<ge>1. steps_to s d k t"
    then obtain k where k: "k \<ge> 1" "steps_to s d k t" by blast
    with steps_to_bound [OF s that d k(2)] show "\<exists>k<9. steps_to s d (Suc k) t"
      by (intro exI [of _ "k - 1"]) auto
  qed auto
  show ?thesis
  proof (cases "on_board ?f ?r")
    case True
    have "t \<in> set (ray_from s d) \<longleftrightarrow> (\<exists>k<9. t < 81 \<and> steps_to s d (Suc k) t)"
      unfolding ray_from_def dd fst_conv snd_conv nth_ray_squares [OF True] eq [unfolded dd] ..
    with range show ?thesis by blast
  next
    case False
    have "\<not> (t < 81 \<and> steps_to s d k t)" if "k \<ge> 1" for k
    proof
      assume "t < 81 \<and> steps_to s d k t"
      then have "on_board (file_of s + int k * df) (rank_of s + int k * dr)"
        using on_board_coords [of t] unfolding steps_to_def dd fst_conv snd_conv by metis
      from on_board_between [OF on_board_coords [OF s] this that] show False using False by simp
    qed
    moreover have "ray_from s d = []"
      using False by (simp add: ray_from_def dd numeral_eq_Suc)
    ultimately show ?thesis by auto
  qed
qed

lemma nth_ray_squares_at:
  "i < length (ray_squares n f r df dr) \<Longrightarrow>
    on_board (f + int i * df) (r + int i * dr) \<and>
    ray_squares n f r df dr ! i = mk_square (nat (f + int i * df)) (nat (r + int i * dr))"
proof (induction n arbitrary: f r i)
  case (Suc n)
  then show ?case
    using Suc.IH [of "i - 1" "f + df" "r + dr"]
    by (cases i) (auto simp: algebra_simps split: if_splits)
qed simp

lemma ray_from_nth:
  assumes "i < length (ray_from s d)"
  shows "ray_from s d ! i < 81" and "steps_to s d (Suc i) (ray_from s d ! i)"
proof -
  obtain df dr where d: "d = (df, dr)" by (cases d)
  let ?f = "file_of s + df + int i * df" let ?r = "rank_of s + dr + int i * dr"
  have a: "on_board ?f ?r" and e: "ray_from s d ! i = mk_square (nat ?f) (nat ?r)"
    using nth_ray_squares_at [of i 9 "file_of s + df" "rank_of s + dr" df dr] assms
    by (simp_all add: ray_from_def d)
  show lt: "ray_from s d ! i < 81" unfolding e using a by simp
  show "steps_to s d (Suc i) (ray_from s d ! i)"
    using mk_square_eq_iff [OF a lt] e by (auto simp: steps_to_def d algebra_simps)
qed

lemma ray_from_less [simp]: "t \<in> set (ray_from s d) \<Longrightarrow> t < 81"
  by (auto simp: in_set_conv_nth ray_from_nth)

lemma steps_to_unique: "steps_to s d k t \<Longrightarrow> steps_to s d k u \<Longrightarrow> t < 81 \<Longrightarrow> u < 81 \<Longrightarrow> t = u"
  by (simp add: steps_to_def square_eq_iff)

lemma steps_to_inj:
  assumes "unit_dir d" "steps_to s d j t" "steps_to s d k t"
  shows "j = k"
proof -
  have "int j * fst d = int k * fst d" "int j * snd d = int k * snd d"
    using assms(2,3) by (simp_all add: steps_to_def)
  moreover have "fst d \<noteq> 0 \<or> snd d \<noteq> 0" using assms(1) by (auto simp: unit_dir_def)
  ultimately show ?thesis by auto
qed

lemma Test_MakeRayBB [bb_simps]: "t < 81 \<Longrightarrow> bb_Test (MakeRayBB s d) t \<longleftrightarrow> t \<in> set (ray_from s d)"
  unfolding MakeRayBB_def by (subst Test_fold_Set [where g = "\<lambda>x. x"]) auto

lemma bb_ok_MakeRayBB [bb_intros, simp]: "bb_ok (MakeRayBB s d)"
  unfolding MakeRayBB_def by (rule bb_ok_fold_Set [where g = "\<lambda>x. x"]) auto

subsection \<open>The reference for sliding attacks\<close>

text \<open>\<open>ray_reach occ R\<close>: the squares of the ray up to and including the first occupied one.\<close>

fun ray_reach :: "(square \<Rightarrow> bool) \<Rightarrow> square list \<Rightarrow> square list" where
  "ray_reach occ [] = []"
| "ray_reach occ (s # ss) = s # (if occ s then [] else ray_reach occ ss)"

lemma set_ray_reach:
  "t \<in> set (ray_reach occ R) \<longleftrightarrow> (\<exists>i<length R. R ! i = t \<and> (\<forall>j<i. \<not> occ (R ! j)))"
proof (induction R)
  case (Cons s R)
  have suc: "(\<forall>j<Suc i. \<not> occ ((s # R) ! j)) \<longleftrightarrow> \<not> occ s \<and> (\<forall>j<i. \<not> occ (R ! j))" for i
    by (subst All_less_Suc2) simp
  have "(\<exists>i<length (s # R). (s # R) ! i = t \<and> (\<forall>j<i. \<not> occ ((s # R) ! j))) \<longleftrightarrow>
    s = t \<or> (\<exists>i<length R. R ! i = t \<and> (\<forall>j<Suc i. \<not> occ ((s # R) ! j)))"
    unfolding length_Cons by (subst Ex_less_Suc2) simp
  also have "\<dots> \<longleftrightarrow> s = t \<or> (\<not> occ s \<and> (\<exists>i<length R. R ! i = t \<and> (\<forall>j<i. \<not> occ (R ! j))))"
    unfolding suc by blast
  finally show ?case using Cons.IH by auto
qed simp

lemma ray_reach_subset: "t \<in> set (ray_reach occ R) \<Longrightarrow> t \<in> set R"
  by (auto simp: set_ray_reach)

text \<open>The same in coordinates: reachable in some direction with nothing strictly between.\<close>

definition clear_between :: "(square \<Rightarrow> bool) \<Rightarrow> square \<Rightarrow> int \<times> int \<Rightarrow> nat \<Rightarrow> bool" where
  "clear_between occ s d k \<longleftrightarrow> (\<forall>u<81. \<forall>j. 1 \<le> j \<and> j < k \<and> steps_to s d j u \<longrightarrow> \<not> occ u)"

lemma ray_from_index:
  assumes "s < 81" "unit_dir d" "t < 81" "steps_to s d (Suc k) t"
  shows "k < length (ray_from s d) \<and> ray_from s d ! k = t"
proof -
  have "t \<in> set (ray_from s d)" using assms set_ray_from [OF assms(1,2)] by force
  then obtain i where i: "i < length (ray_from s d)" "ray_from s d ! i = t"
    by (auto simp: in_set_conv_nth)
  then have "steps_to s d (Suc i) t" using ray_from_nth(2) by blast
  with assms have "i = k" using steps_to_inj by blast
  with i show ?thesis by simp
qed

lemma set_ray_reach_from:
  assumes "s < 81" "unit_dir d"
  shows "t \<in> set (ray_reach occ (ray_from s d)) \<longleftrightarrow>
    t < 81 \<and> (\<exists>k\<ge>1. steps_to s d k t \<and> clear_between occ s d k)"
proof
  assume "t \<in> set (ray_reach occ (ray_from s d))"
  then obtain i where i: "i < length (ray_from s d)" "ray_from s d ! i = t"
    and free: "\<forall>j<i. \<not> occ (ray_from s d ! j)" by (auto simp: set_ray_reach)
  have "\<not> occ u" if "u < 81" "1 \<le> j" "j < Suc i" "steps_to s d j u" for u j
    using ray_from_index [OF assms that(1), of "j - 1"] that free by auto
  then have "clear_between occ s d (Suc i)" by (auto simp: clear_between_def)
  then show "t < 81 \<and> (\<exists>k\<ge>1. steps_to s d k t \<and> clear_between occ s d k)"
    using i ray_from_nth [OF i(1)] by auto
next
  assume "t < 81 \<and> (\<exists>k\<ge>1. steps_to s d k t \<and> clear_between occ s d k)"
  then obtain k where t: "t < 81" and k: "1 \<le> k" "steps_to s d k t" "clear_between occ s d k" by blast
  have i: "k - 1 < length (ray_from s d)" "ray_from s d ! (k - 1) = t"
    using ray_from_index [OF assms t, of "k - 1"] k by simp_all
  have "\<not> occ (ray_from s d ! j)" if "j < k - 1" for j
    using ray_from_nth [of j s d] that i(1) k(3) by (auto simp: clear_between_def)
  with i show "t \<in> set (ray_reach occ (ray_from s d))" by (auto simp: set_ray_reach)
qed

definition neg_dir :: "int \<times> int \<Rightarrow> int \<times> int" where
  "neg_dir d = (- fst d, - snd d)"

lemma unit_dir_neg [simp]: "unit_dir (neg_dir d) \<longleftrightarrow> unit_dir d"
  by (cases d) (auto simp: unit_dir_def neg_dir_def)

lemma steps_to_neg: "steps_to s d k t \<longleftrightarrow> steps_to t (neg_dir d) k s"
  by (auto simp: steps_to_def neg_dir_def)

lemma clear_between_neg:
  assumes "steps_to s d k t" "clear_between occ s d k"
  shows "clear_between occ t (neg_dir d) k"
  unfolding clear_between_def
proof (intro allI impI, elim conjE)
  fix u j
  assume u: "u < 81" "1 \<le> j" "j < k" "steps_to t (neg_dir d) j u"
  then have "steps_to s d (k - j) u"
    using assms(1) by (auto simp: steps_to_def neg_dir_def algebra_simps of_nat_diff)
  with u assms(2) show "\<not> occ u" by (auto simp: clear_between_def)
qed

lemma ray_reach_symmetric:
  assumes "s < 81" "t < 81" "unit_dir d"
  shows "t \<in> set (ray_reach occ (ray_from s d)) \<longleftrightarrow> s \<in> set (ray_reach occ (ray_from t (neg_dir d)))"
proof -
  have nn: "neg_dir (neg_dir d) = d" by (simp add: neg_dir_def)
  show ?thesis
    using assms set_ray_reach_from [of s d t occ] set_ray_reach_from [of t "neg_dir d" s occ]
      clear_between_neg steps_to_neg nn by (metis unit_dir_neg)
qed

end
