(* ===== verification/Sliding.thy ===== *)
theory Sliding
  imports Tables
begin

text \<open>
  The branch-free sliding attacks of shogi/bitboard.h (lance, rook and bishop): a
  subtraction on the masked occupancy finds the first blocker of an increasing ray, and
  byte reversal turns the decreasing rays into increasing ones.  The theory proves each
  of them equal to the walk along the ray up to the first occupied square.
\<close>

subsection \<open>The mask tables\<close>

definition QugiyRookMask :: "square \<Rightarrow> bitboard \<times> bitboard" where
  "QugiyRookMask sq =
     (let left = MakeRayBB sq (1, 0); right = MakeRayBB sq (-1, 0);
          right_rev = bb_byte_reverse right;
          (hi, lo) = bb_Unpack right_rev left
      in (lo, hi))"

definition QugiyBishopMask :: "square \<Rightarrow> bitboard256 \<times> bitboard256" where
  "QugiyBishopMask sq =
     (let lu = MakeRayBB sq (1, -1); ld = MakeRayBB sq (1, 1);
          ru = MakeRayBB sq (-1, -1); rd = MakeRayBB sq (-1, 1);
          ru_rev = bb_byte_reverse ru; rd_rev = bb_byte_reverse rd
      in (\<lparr>lane0 = bb_FromRaw (p0 lu) (p0 ru_rev), lane1 = bb_FromRaw (p0 ld) (p0 rd_rev)\<rparr>,
          \<lparr>lane0 = bb_FromRaw (p1 lu) (p1 ru_rev), lane1 = bb_FromRaw (p1 ld) (p1 rd_rev)\<rparr>))"

subsection \<open>The effects\<close>

definition RookRankEffect :: "square \<Rightarrow> bitboard \<Rightarrow> bitboard" where
  "RookRankEffect sq occ =
     (let rocc = bb_byte_reverse occ;
          (mlo, mhi) = QugiyRookMask sq;
          (hi, lo) = bb_Unpack rocc occ;
          hi = bb_And hi mhi; lo = bb_And lo mlo;
          (t1, t0) = bb_Decrement hi lo;
          t1 = bb_And (bb_Xor t1 hi) mhi;
          t0 = bb_And (bb_Xor t0 lo) mlo;
          (hi2, lo2) = bb_Unpack t1 t0
      in bb_Or (bb_byte_reverse hi2) lo2)"

definition BishopEffect :: "square \<Rightarrow> bitboard \<Rightarrow> bitboard" where
  "BishopEffect sq occ =
     (let occ2 = bb256_dup occ; rocc2 = bb256_dup (bb_byte_reverse occ);
          (mlo, mhi) = QugiyBishopMask sq;
          (hi, lo) = bb256_Unpack rocc2 occ2;
          hi = bb256_And hi mhi; lo = bb256_And lo mlo;
          (t1, t0) = bb256_Decrement hi lo;
          t1 = bb256_And (bb256_Xor t1 hi) mhi;
          t0 = bb256_And (bb256_Xor t0 lo) mlo;
          (hi2, lo2) = bb256_Unpack t1 t0;
          result = bb256_Or (bb256_byte_reverse hi2) lo2
      in bb256_Merge result)"

text \<open>The four lance formulas, on one word.\<close>

definition white_lance_word :: "u64 \<Rightarrow> u64 \<Rightarrow> u64" where
  "white_lance_word occ msk = (let mocc = occ AND msk in (mocc XOR (mocc - 1)) AND msk)"

definition black_lance_word :: "u64 \<Rightarrow> u64 \<Rightarrow> u64" where
  "black_lance_word occ msk =
     (let mocc = occ AND msk; msb = 63 - countl_zero (mocc OR 1)
      in push_bit msb (0xFFFFFFFFFFFFFFFF) AND msk)"

definition LanceEffect :: "color \<Rightarrow> square \<Rightarrow> bitboard \<Rightarrow> bitboard" where
  "LanceEffect c sq occ =
     (if c = WHITE then
        (if bb_Part sq = 0
         then bb_FromRaw (white_lance_word (p0 occ) (p0 (LanceMaskBB sq WHITE))) 0
         else bb_FromRaw 0 (white_lance_word (p1 occ) (p1 (LanceMaskBB sq WHITE))))
      else
        (if bb_Part sq = 0
         then bb_FromRaw (black_lance_word (p0 occ) (p0 (LanceMaskBB sq BLACK))) 0
         else bb_FromRaw 0 (black_lance_word (p1 occ) (p1 (LanceMaskBB sq BLACK)))))"

definition RookFileEffect :: "square \<Rightarrow> bitboard \<Rightarrow> bitboard" where
  "RookFileEffect sq occ =
     (if bb_Part sq = 0
      then let white = white_lance_word (p0 occ) (p0 (LanceMaskBB sq WHITE));
               black = black_lance_word (p0 occ) (p0 (LanceMaskBB sq BLACK))
           in bb_FromRaw (white OR black) 0
      else let white = white_lance_word (p1 occ) (p1 (LanceMaskBB sq WHITE));
               black = black_lance_word (p1 occ) (p1 (LanceMaskBB sq BLACK))
           in bb_FromRaw 0 (white OR black))"

definition RookEffect :: "square \<Rightarrow> bitboard \<Rightarrow> bitboard" where
  "RookEffect sq occ = bb_Or (RookFileEffect sq occ) (RookRankEffect sq occ)"

subsection \<open>Rays as increasing position sequences\<close>

lemma ray_reach_increasing:
  assumes "sorted_wrt (\<lambda>s t. p s < (p t :: nat)) R"
  shows "t \<in> set (ray_reach occ R) \<longleftrightarrow> t \<in> set R \<and> (\<forall>u\<in>set R. p u < p t \<longrightarrow> \<not> occ u)"
  using assms
proof (induction R)
  case (Cons s R)
  then have s: "\<forall>u\<in>set R. p s < p u" by simp
  show ?case
  proof (cases "t = s")
    case True
    with s show ?thesis by (auto dest: less_asym)
  next
    case False
    with s Cons show ?thesis by auto
  qed
qed simp

lemma ray_from_sorted:
  assumes "\<And>i t u. steps_to s d i t \<Longrightarrow> steps_to s d (Suc i) u \<Longrightarrow> t < 81 \<Longrightarrow> u < 81 \<Longrightarrow> p t < (p u :: nat)"
  shows "sorted_wrt (\<lambda>s t. p s < p t) (ray_from s d)"
proof -
  have "p (ray_from s d ! i) < p (ray_from s d ! Suc i)" if "Suc i < length (ray_from s d)" for i
    using that ray_from_nth [of i s d] ray_from_nth [of "Suc i" s d] by (auto intro: assms)
  then have "i < j \<Longrightarrow> j < length (ray_from s d) \<Longrightarrow> p (ray_from s d ! i) < p (ray_from s d ! j)" for i j
    by (induction j) (auto simp: less_Suc_eq intro: less_trans)
  then show ?thesis by (simp add: sorted_wrt_iff_nth_less)
qed

lemma steps_to_Suc:
  assumes "steps_to s d i t" "steps_to s d (Suc i) u"
  shows "file_of u = file_of t + fst d" "rank_of u = rank_of t + snd d"
  using assms by (simp_all add: steps_to_def algebra_simps)

lemma square_coords_int: "s < 81 \<Longrightarrow> int s = 9 * file_of s + rank_of s"
  by (simp add: sq_file_def sq_rank_def zdiv_int zmod_int)

lemma step_square_int:
  assumes "steps_to s d i t" "steps_to s d (Suc i) u" "t < 81" "u < 81"
  shows "int u = int t + 9 * fst d + snd d"
  using steps_to_Suc [OF assms(1,2)] square_coords_int [OF assms(3)] square_coords_int [OF assms(4)]
  by simp

lemma ray_reach_up:
  assumes "d \<in> {(0, 1), (1, 0), (1, -1), (1, 1)}"
  shows "t \<in> set (ray_reach occ (ray_from s d)) \<longleftrightarrow>
    t \<in> set (ray_from s d) \<and> (\<forall>u\<in>set (ray_from s d). u < t \<longrightarrow> \<not> occ u)"
proof (rule ray_reach_increasing [where p = "\<lambda>u. u", simplified], rule ray_from_sorted)
  fix i t u
  assume "steps_to s d i t" "steps_to s d (Suc i) u" "t < 81" "u < 81"
  from step_square_int [OF this] show "t < u" using assms by auto
qed

lemma ray_reach_down:
  assumes "d \<in> {(0, -1), (-1, 0), (-1, -1), (-1, 1)}"
  shows "t \<in> set (ray_reach occ (ray_from s d)) \<longleftrightarrow>
    t \<in> set (ray_from s d) \<and> (\<forall>u\<in>set (ray_from s d). t < u \<longrightarrow> \<not> occ u)"
proof -
  have *: "sorted_wrt (\<lambda>s t. 80 - s < (80 - t :: nat)) (ray_from s d)"
  proof (rule ray_from_sorted)
    fix i t u
    assume a: "steps_to s d i t" "steps_to s d (Suc i) u" "t < 81" "u < 81"
    from step_square_int [OF this] show "80 - t < 80 - u" using assms a(3) by auto
  qed
  show ?thesis
  proof (cases "t < 81")
    case True
    have "(80 - u < 80 - t) \<longleftrightarrow> t < u" if "u \<in> set (ray_from s d)" for u
      using ray_from_less [OF that] True by auto
    with ray_reach_increasing [OF *, of t occ] show ?thesis by simp
  next
    case False
    then show ?thesis using ray_reach_subset ray_from_less by blast
  qed
qed

subsection \<open>Lances\<close>

lemma bit_white_lance_word:
  "bit (white_lance_word occ msk) n \<longleftrightarrow> bit msk n \<and> (\<forall>j<n. \<not> (bit occ j \<and> bit msk j))"
  by (auto simp: white_lance_word_def Let_def bit_and_iff bit_word_xor_minus_one
      dest: bit_imp_le_length)

lemma takeWhile_rev_upt:
  "length (takeWhile (\<lambda>i. \<not> P i) (rev [0..<m])) = m - (if \<exists>j<m. P j then Suc (GREATEST j. j < m \<and> P j) else 0)"
proof (induction m)
  case (Suc m)
  show ?case
  proof (cases "P m")
    case True
    then have "(GREATEST j. j < Suc m \<and> P j) = m" by (intro Greatest_equality) auto
    with True show ?thesis by auto
  next
    case False
    then have e: "(j < Suc m \<and> P j) \<longleftrightarrow> (j < m \<and> P j)" for j by (auto simp: less_Suc_eq)
    have ex: "(\<exists>j<Suc m. P j) \<longleftrightarrow> (\<exists>j<m. P j)" using e by blast
    have "(GREATEST j. j < m \<and> P j) < m" if "\<exists>j<m. P j"
    proof -
      from that obtain j where "j < m \<and> P j" by blast
      then have "(GREATEST j. j < m \<and> P j) < m \<and> P (GREATEST j. j < m \<and> P j)"
        by (rule GreatestI_nat [where b = m]) auto
      then show ?thesis ..
    qed
    with False Suc.IH show ?thesis unfolding e ex by (auto simp: Suc_diff_Suc)
  qed
qed simp

lemma highest_bit_le_iff:
  assumes "(w :: u64) \<noteq> 0"
  shows "63 - countl_zero w \<le> n \<longleftrightarrow> (\<forall>j>n. \<not> bit w j)"
proof -
  obtain k where k: "k < 64" "bit w k" using assms by (auto simp: word_nonzero_iff_bit)
  let ?g = "GREATEST j. j < 64 \<and> bit w j"
  have g: "?g < 64 \<and> bit w ?g" by (rule GreatestI_nat [where b = 64 and k = k]) (use k in auto)
  have le: "j \<le> ?g" if "bit w j" for j
    using that bit_u64_less [OF that] by (intro Greatest_le_nat [where b = 64]) auto
  have ex: "\<exists>j<64. bit w j" using k by blast
  have L64: "LENGTH(64) = 64" by simp
  have "countl_zero w = 64 - Suc ?g"
    using takeWhile_rev_upt [of "bit w" 64] unfolding countl_zero_def L64 if_P [OF ex] .
  then have "countl_zero w = 63 - ?g" by simp
  then have eq: "63 - countl_zero w = ?g" using g by simp
  obtain m where m: "63 - countl_zero w = m" "bit w m" "\<And>j. bit w j \<Longrightarrow> j \<le> m"
    using eq g le by blast
  show ?thesis unfolding m(1)
  proof
    assume "m \<le> n"
    then show "\<forall>j>n. \<not> bit w j" using m(3) by (auto dest!: m(3))
  next
    assume "\<forall>j>n. \<not> bit w j"
    then show "m \<le> n" using m(2) by (auto intro: leI)
  qed
qed

lemma bit_all_ones: "bit (0xFFFFFFFFFFFFFFFF :: u64) n \<longleftrightarrow> n < 64"
proof -
  have "(0xFFFFFFFFFFFFFFFF :: u64) = mask 64" by (simp add: mask_eq_exp_minus_1)
  then show ?thesis by (simp only: bit_mask_iff) auto
qed

lemma bit_black_lance_word:
  "bit (black_lance_word occ msk) n \<longleftrightarrow> bit msk n \<and> (\<forall>j>n. \<not> (bit occ j \<and> bit msk j))"
proof -
  let ?m = "(occ AND msk) OR 1"
  have nz: "?m \<noteq> 0" by (auto simp: or_eq_0_iff)
  have "bit (black_lance_word occ msk) n \<longleftrightarrow> 63 - countl_zero ?m \<le> n \<and> bit msk n"
    unfolding black_lance_word_def Let_def bit_and_iff bit_push_bit_iff bit_all_ones
    by (auto dest: bit_u64_less)
  also have "63 - countl_zero ?m \<le> n \<longleftrightarrow> (\<forall>j>n. \<not> (bit occ j \<and> bit msk j))"
    unfolding highest_bit_le_iff [OF nz] by (auto simp: bit_simps)
  finally show ?thesis by blast
qed

text \<open>The word a square lives in, and its index there.\<close>

definition part_word :: "bitboard \<Rightarrow> nat \<Rightarrow> u64" where
  "part_word b k = (if k = 0 then p0 b else p1 b)"

lemma bb_Part_file: "bb_Part s = (if sq_file s < 7 then 0 else 1)"
  by (simp add: bb_Part_def kBBSplit_def sq_file_def) linarith

lemma bb_Part_le: "63 * bb_Part s \<le> s"
  by (simp add: bb_Part_def kBBSplit_def)

lemma Test_part: "bb_Test b u \<longleftrightarrow> bit (part_word b (bb_Part u)) (u - 63 * bb_Part u)"
  by (simp add: bb_Test_bit part_word_def bb_Part_def kBBSplit_def)

lemma bit_part_word:
  "bb_ok b \<Longrightarrow> k \<le> 1 \<Longrightarrow> bit (part_word b k) j \<Longrightarrow>
    j + 63 * k < 81 \<and> bb_Part (j + 63 * k) = k \<and> bb_Test b (j + 63 * k)"
  by (cases "k = 0") (auto simp: part_word_def bb_ok_bits bb_Test_bit bb_Part_def kBBSplit_def
      not_less_eq_eq le_Suc_eq less_Suc_eq_le dest: spec)

lemma LanceMask_part:
  "s < 81 \<Longrightarrow> t < 81 \<Longrightarrow> bb_Test (LanceMaskBB s c) t \<Longrightarrow> bb_Part t = bb_Part s"
  by (simp add: Test_LanceMaskBB bb_Part_file)

lemma all_part_index:
  assumes s: "s < 81" and M: "M = LanceMaskBB s c" and k: "k = bb_Part s" and t: "bb_Part t = k"
    and R: "\<And>i j. R (i + 63 * k) (j + 63 * k) = R i (j :: nat)"
  shows "(\<forall>j. R j (t - 63 * k) \<longrightarrow> \<not> (bit (part_word occ k) j \<and> bit (part_word M k) j)) \<longleftrightarrow>
    (\<forall>u<81. R u t \<longrightarrow> \<not> (bb_Test M u \<and> bb_Test occ u))" (is "?L \<longleftrightarrow> ?R")
proof -
  have ok: "bb_ok M" and k1: "k \<le> 1" using s by (simp_all add: M k bb_Part_def)
  have tk: "t - 63 * k + 63 * k = t" using bb_Part_le [of t] t by simp
  show ?thesis
  proof
    assume L: ?L
    show ?R
    proof (intro allI impI notI)
      fix u assume u: "u < 81" "R u t" "bb_Test M u \<and> bb_Test occ u"
      then have pu: "bb_Part u = k" using LanceMask_part s M k by blast
      then have uk: "u - 63 * k + 63 * k = u" using bb_Part_le [of u] by simp
      have "R (u - 63 * k) (t - 63 * k)" using R [of "u - 63 * k" "t - 63 * k"] u(2) by (simp only: uk tk)
      with L u(3) show False unfolding Test_part pu by blast
    qed
  next
    assume r: ?R
    show ?L
    proof (intro allI impI notI)
      fix j assume j: "R j (t - 63 * k)" "bit (part_word occ k) j \<and> bit (part_word M k) j"
      from bit_part_word [OF ok k1, of j] j(2)
      have m: "j + 63 * k < 81" "bb_Part (j + 63 * k) = k" "bb_Test M (j + 63 * k)" by blast+
      have "bb_Test occ (j + 63 * k)" using j(2) unfolding Test_part m(2) by simp
      moreover have "R (j + 63 * k) t" using R [of j "t - 63 * k"] j(1) by (simp only: tk)
      ultimately show False using r m by blast
    qed
  qed
qed

lemma Test_LanceEffect_part:
  "bb_Test (LanceEffect c s occ) t \<longleftrightarrow> bb_Part t = bb_Part s \<and>
    bit ((if c = WHITE then white_lance_word else black_lance_word)
      (part_word occ (bb_Part s)) (part_word (LanceMaskBB s c) (bb_Part s))) (t - 63 * bb_Part s)"
  by (cases c) (auto simp: LanceEffect_def bb_Test_bit part_word_def bb_Part_def kBBSplit_def)

lemma Test_LanceEffect:
  assumes s: "s < 81" and t: "t < 81"
  shows "bb_Test (LanceEffect c s occ) t \<longleftrightarrow>
    bb_Test (LanceMaskBB s c) t \<and>
    (\<forall>u<81. (if c = WHITE then u < t else t < u) \<longrightarrow>
       \<not> (bb_Test (LanceMaskBB s c) u \<and> bb_Test occ u))"
proof (cases "bb_Part t = bb_Part s")
  case True
  let ?k = "bb_Part s"
  have m: "bit (part_word (LanceMaskBB s c) ?k) (t - 63 * ?k) \<longleftrightarrow> bb_Test (LanceMaskBB s c) t"
    using True by (simp add: Test_part)
  show ?thesis
  proof (cases c)
    case WHITE
    have "(\<forall>j<t - 63 * ?k. \<not> (bit (part_word occ ?k) j \<and> bit (part_word (LanceMaskBB s c) ?k) j)) \<longleftrightarrow>
      (\<forall>u<81. u < t \<longrightarrow> \<not> (bb_Test (LanceMaskBB s c) u \<and> bb_Test occ u))"
      by (rule all_part_index [OF s refl refl True, of "(<)"]) simp
    then show ?thesis
      using True m by (simp add: Test_LanceEffect_part bit_white_lance_word WHITE)
  next
    case BLACK
    have "(\<forall>j>t - 63 * ?k. \<not> (bit (part_word occ ?k) j \<and> bit (part_word (LanceMaskBB s c) ?k) j)) \<longleftrightarrow>
      (\<forall>u<81. t < u \<longrightarrow> \<not> (bb_Test (LanceMaskBB s c) u \<and> bb_Test occ u))"
      by (rule all_part_index [OF s refl refl True, of "(>)"]) simp
    then show ?thesis
      using True m by (simp add: Test_LanceEffect_part bit_black_lance_word BLACK)
  qed
next
  case False
  then have "\<not> bb_Test (LanceMaskBB s c) t" using LanceMask_part s t by blast
  with False show ?thesis by (simp add: Test_LanceEffect_part)
qed

text \<open>A lance sees along its file up to the first piece.\<close>

abbreviation occ_of :: "bitboard \<Rightarrow> square \<Rightarrow> bool" where "occ_of occ \<equiv> bb_Test occ"

definition forward :: "color \<Rightarrow> int \<times> int" where
  "forward c = (if c = BLACK then (0, -1) else (0, 1))"

lemma unit_dir_forward [simp]: "unit_dir (forward c)"
  by (simp add: forward_def unit_dir_def)

lemma LanceMask_ray:
  assumes "s < 81" "t < 81"
  shows "bb_Test (LanceMaskBB s c) t \<longleftrightarrow> t \<in> set (ray_from s (forward c))"
proof -
  have "t \<in> set (ray_from s (forward c)) \<longleftrightarrow> (\<exists>k\<ge>1. steps_to s (forward c) k t)"
    using set_ray_from [OF assms(1) unit_dir_forward] assms(2) by simp
  also have "\<dots> \<longleftrightarrow> sq_file t = sq_file s \<and> (if c = BLACK then sq_rank t < sq_rank s else sq_rank s < sq_rank t)"
  proof (cases c)
    case BLACK
    show ?thesis unfolding steps_to_def forward_def BLACK
      by (auto intro!: exI [of _ "sq_rank s - sq_rank t"])
  next
    case WHITE
    show ?thesis unfolding steps_to_def forward_def WHITE
      by (auto intro!: exI [of _ "sq_rank t - sq_rank s"])
  qed
  finally show ?thesis using assms by (simp add: Test_LanceMaskBB)
qed

lemma LanceEffect_ray [bb_simps]:
  assumes "s < 81" "t < 81"
  shows "bb_Test (LanceEffect c s occ) t \<longleftrightarrow> t \<in> set (ray_reach (occ_of occ) (ray_from s (forward c)))"
proof -
  have m: "u < 81 \<Longrightarrow> bb_Test (LanceMaskBB s c) u \<longleftrightarrow> u \<in> set (ray_from s (forward c))" for u
    using LanceMask_ray assms(1) by blast
  show ?thesis
  proof (cases c)
    case BLACK
    show ?thesis
      unfolding Test_LanceEffect [OF assms] m [OF assms(2)]
      using m ray_reach_down [of "forward BLACK" t "occ_of occ" s] ray_from_less
      by (auto simp: BLACK forward_def)
  next
    case WHITE
    show ?thesis
      unfolding Test_LanceEffect [OF assms] m [OF assms(2)]
      using m ray_reach_up [of "forward WHITE" t "occ_of occ" s] ray_from_less
      by (auto simp: WHITE forward_def)
  qed
qed

lemma bb_ok_LanceEffect [bb_intros, simp]:
  assumes s: "s < 81"
  shows "bb_ok (LanceEffect c s occ)"
proof -
  have "bb_ok (LanceMaskBB s c)" using s by simp
  then show ?thesis
    by (cases c) (auto simp: LanceEffect_def bb_ok_bits bit_white_lance_word bit_black_lance_word)
qed

lemma RookFileEffect_lances:
  "RookFileEffect s occ = bb_Or (LanceEffect WHITE s occ) (LanceEffect BLACK s occ)"
  by (simp add: RookFileEffect_def LanceEffect_def bb_Or_def Let_def)

subsection \<open>Horizontal and diagonal rays\<close>

text \<open>The two words of a bitboard read as one 128-bit number.\<close>

definition pbit :: "bitboard \<Rightarrow> nat \<Rightarrow> bool" where
  "pbit b n = (if n < 64 then bit (p0 b) n else bit (p1 b) (n - 64))"

definition bbpos :: "square \<Rightarrow> nat" where
  "bbpos s = (if s < 63 then s else s + 1)"

definition revpos :: "nat \<Rightarrow> nat" where
  "revpos n = 8 * (15 - n div 8) + n mod 8"

definition bb_scan :: "bitboard \<Rightarrow> bitboard \<Rightarrow> bitboard" where
  "bb_scan M occ =
     (let m = bb_And occ M;
          d = bb_FromRaw (p0 m - 1) (p1 m - (if p0 m = 0 then 1 else 0))
      in bb_And (bb_Xor d m) M)"

lemma RookRankEffect_scan:
  "RookRankEffect s occ = bb_Or
     (bb_byte_reverse (bb_scan (bb_byte_reverse (MakeRayBB s (-1, 0))) (bb_byte_reverse occ)))
     (bb_scan (MakeRayBB s (1, 0)) occ)"
  by (simp add: RookRankEffect_def QugiyRookMask_def bb_Unpack_def bb_Decrement_def bb_scan_def
      Let_def bb_And_def bb_Xor_def bb_Or_def)

lemma BishopEffect_scan:
  "BishopEffect s occ = bb_Or
     (bb_Or (bb_byte_reverse (bb_scan (bb_byte_reverse (MakeRayBB s (-1, -1))) (bb_byte_reverse occ)))
            (bb_scan (MakeRayBB s (1, -1)) occ))
     (bb_Or (bb_byte_reverse (bb_scan (bb_byte_reverse (MakeRayBB s (-1, 1))) (bb_byte_reverse occ)))
            (bb_scan (MakeRayBB s (1, 1)) occ))"
  by (simp add: BishopEffect_def QugiyBishopMask_def bb256_Unpack_def bb256_map2_def bb256_dup_def
      bb256_And_def bb256_Xor_def bb256_Or_def bb256_byte_reverse_def bb256_Decrement_def
      bb256_Merge_def bb_Unpack_def bb_Decrement_def bb_scan_def Let_def bb_And_def bb_Xor_def
      bb_Or_def)

lemma pbit_pos: "bb_Test b s \<longleftrightarrow> pbit b (bbpos s)"
  by (auto simp: bb_Test_bit pbit_def bbpos_def)

lemma pbit_less: "pbit b n \<Longrightarrow> n < 128"
  by (auto simp: pbit_def split: if_splits dest!: bit_u64_less)

lemma pbit_ok: "bb_ok b \<Longrightarrow> pbit b n \<Longrightarrow> \<exists>u<81. n = bbpos u"
  by (cases "n < 64")
    (auto simp: bb_ok_bits pbit_def bbpos_def dest!: spec intro: exI [of _ n] exI [of _ "n - 1"])

lemma pbit_dec:
  "pbit (bb_FromRaw (p0 m - 1) (p1 m - (if p0 m = 0 then 1 else 0))) n \<longleftrightarrow>
     n < 128 \<and> (pbit m n \<longleftrightarrow> (\<exists>j<n. pbit m j))"
proof (cases "n < 64")
  case True
  then have ex: "(\<exists>j<n. pbit m j) \<longleftrightarrow> (\<exists>j<n. bit (p0 m) j)"
    by (intro ex_cong1) (auto simp: pbit_def)
  have "pbit (bb_FromRaw (p0 m - 1) k) n \<longleftrightarrow> bit (p0 m - 1) n" for k
    using True by (simp add: pbit_def)
  then show ?thesis using True unfolding ex by (simp add: bit_word_minus_one pbit_def)
next
  case False
  have ex: "(\<exists>j<n. pbit m j) \<longleftrightarrow> p0 m \<noteq> 0 \<or> (\<exists>j<n - 64. bit (p1 m) j)"
  proof
    assume "\<exists>j<n. pbit m j"
    then obtain j where j: "j < n" "pbit m j" by blast
    show "p0 m \<noteq> 0 \<or> (\<exists>j<n - 64. bit (p1 m) j)"
      using j by (cases "j < 64") (auto simp: pbit_def intro: exI [of _ "j - 64"])
  next
    assume "p0 m \<noteq> 0 \<or> (\<exists>j<n - 64. bit (p1 m) j)"
    then show "\<exists>j<n. pbit m j"
    proof
      assume "p0 m \<noteq> 0"
      then obtain j where "j < 64" "bit (p0 m) j" by (auto simp: word_nonzero_iff_bit)
      with False show ?thesis by (auto simp: pbit_def intro!: exI [of _ j])
    next
      assume "\<exists>j<n - 64. bit (p1 m) j"
      then obtain j where "j < n - 64" "bit (p1 m) j" by blast
      then show ?thesis by (auto simp: pbit_def intro!: exI [of _ "j + 64"])
    qed
  qed
  show ?thesis
  proof (cases "p0 m = 0")
    case True
    then show ?thesis using False ex by (auto simp: pbit_def bit_word_minus_one)
  next
    case nz: False
    then show ?thesis using False ex by (auto simp: pbit_def dest: bit_u64_less)
  qed
qed

lemma pbit_And: "pbit (bb_And a b) n \<longleftrightarrow> pbit a n \<and> pbit b n"
  by (simp add: pbit_def bb_And_def bit_and_iff)

lemma pbit_Xor: "pbit (bb_Xor a b) n \<longleftrightarrow> pbit a n \<noteq> pbit b n"
  by (simp add: pbit_def bb_Xor_def bit_xor_iff)

lemma pbit_scan:
  "pbit (bb_scan M occ) n \<longleftrightarrow> pbit M n \<and> (\<forall>j<n. \<not> (pbit M j \<and> pbit occ j))"
  unfolding bb_scan_def Let_def pbit_And pbit_Xor pbit_dec by (auto dest: pbit_less)

lemma revpos_less: "n < 128 \<Longrightarrow> revpos n < 128"
  unfolding revpos_def by linarith

lemma revpos_revpos: "n < 128 \<Longrightarrow> revpos (revpos n) = n"
proof -
  assume "n < 128"
  then have "n div 8 \<le> 15" by linarith
  then show ?thesis by (simp add: revpos_def)
qed

lemma revpos_mono: "u + 8 \<le> t \<Longrightarrow> t < 128 \<Longrightarrow> revpos t < revpos u"
proof -
  assume a: "u + 8 \<le> t" "t < 128"
  define tq tr uq ur where "tq = t div 8" "tr = t mod 8" "uq = u div 8" "ur = u mod 8"
  then have "t = 8 * tq + tr" "u = 8 * uq + ur" "tr < 8" "ur < 8" by simp_all
  with a have "uq < tq" "tq < 16" "tr < 8" by linarith+
  then have "8 * (15 - tq) + tr < 8 * (15 - uq) + ur" by linarith
  then show ?thesis by (simp add: revpos_def tq_tr_uq_ur_def)
qed

lemma bit_bswap64: "bit (bswap64 w) n \<longleftrightarrow> n < 64 \<and> bit w (8 * (7 - n div 8) + n mod 8)"
proof -
  have step: "bit (foldr (\<lambda>k acc. acc OR push_bit (8 * (7 - k)) (take_bit 8 (drop_bit (8 * k) w))) ks 0) n
     \<longleftrightarrow> (\<exists>k\<in>set ks. bit (push_bit (8 * (7 - k)) (take_bit 8 (drop_bit (8 * k) w))) n)" for ks :: "nat list"
    by (induction ks) (auto simp: bit_or_iff)
  have one: "bit (push_bit (8 * (7 - k)) (take_bit 8 (drop_bit (8 * k) w))) n \<longleftrightarrow>
      n < 64 \<and> n div 8 = 7 - k \<and> bit w (8 * (7 - n div 8) + n mod 8)" if "k < 8" for k
  proof -
    have "bit (push_bit (8 * (7 - k)) (take_bit 8 (drop_bit (8 * k) w))) n \<longleftrightarrow>
      n < 64 \<and> 8 * (7 - k) \<le> n \<and> n - 8 * (7 - k) < 8 \<and> bit w (8 * k + (n - 8 * (7 - k)))"
      by (simp add: bit_push_bit_iff bit_take_bit_iff bit_drop_bit_eq) (auto dest: bit_u64_less)
    also have "\<dots> \<longleftrightarrow> n < 64 \<and> n div 8 = 7 - k \<and> bit w (8 * k + (n - 8 * (7 - k)))"
    proof -
      have "8 * (7 - k) \<le> n \<and> n - 8 * (7 - k) < 8 \<longleftrightarrow> n div 8 = 7 - k" by linarith
      then show ?thesis by blast
    qed
    also have "\<dots> \<longleftrightarrow> n < 64 \<and> n div 8 = 7 - k \<and> bit w (8 * (7 - n div 8) + n mod 8)"
    proof -
      have "8 * k + (n - 8 * (7 - k)) = 8 * (7 - n div 8) + n mod 8" if "n div 8 = 7 - k"
      proof -
        have "7 - n div 8 = k" using \<open>k < 8\<close> that by simp
        moreover have "n - 8 * (7 - k) = n mod 8" by (simp only: that [symmetric] minus_mult_div_eq_mod)
        ultimately show ?thesis by simp
      qed
      then show ?thesis by metis
    qed
    finally show ?thesis .
  qed
  have "(\<exists>k\<in>set [0..<8]. bit (push_bit (8 * (7 - k)) (take_bit 8 (drop_bit (8 * k) w))) n) \<longleftrightarrow>
      n < 64 \<and> bit w (8 * (7 - n div 8) + n mod 8)" (is "?L \<longleftrightarrow> ?R")
  proof
    assume ?L
    then obtain k where "k < 8" "bit (push_bit (8 * (7 - k)) (take_bit 8 (drop_bit (8 * k) w))) n"
      by (simp only: set_upt atLeastLessThan_iff bex_simps Bex_def) blast
    then show ?R using one by blast
  next
    assume r: ?R
    then have "n div 8 \<le> 7" by linarith
    then have k: "7 - n div 8 < 8" "n div 8 = 7 - (7 - n div 8)" by linarith+
    from one [OF k(1)] r k(2) have "bit (push_bit (8 * (7 - (7 - n div 8))) (take_bit 8 (drop_bit (8 * (7 - n div 8)) w))) n"
      by blast
    moreover have "7 - n div 8 \<in> set [0..<8]" using k(1) by (simp only: set_upt atLeastLessThan_iff) simp
    ultimately show ?L by (intro bexI)
  qed
  with step [of "[0..<8]"] show ?thesis unfolding bswap64_def by blast
qed

lemma pbit_byte_reverse: "pbit (bb_byte_reverse b) n \<longleftrightarrow> n < 128 \<and> pbit b (revpos n)"
proof (cases "n < 64")
  case True
  then have "n div 8 \<le> 7" by linarith
  then have "revpos n = 8 * (7 - n div 8) + n mod 8 + 64" by (simp add: revpos_def)
  with True show ?thesis by (simp add: pbit_def bb_byte_reverse_def bit_bswap64)
next
  case False
  show ?thesis
  proof (cases "n < 128")
    case True
    have d: "(n - 64) div 8 = n div 8 - 8" "(n - 64) mod 8 = n mod 8" "8 \<le> n div 8" "n div 8 < 16"
      using True False by (auto simp: div_if mod_if) 
    have lt: "revpos n < 64" unfolding revpos_def using d(3) by linarith
    have "8 * (7 - (n - 64) div 8) + (n - 64) mod 8 = revpos n" unfolding revpos_def d(1,2) using d(3,4) by simp
    moreover have "n - 64 < 64" using True False by simp
    ultimately show ?thesis using True False lt
      by (simp only: pbit_def bb_byte_reverse_def bit_bswap64 bb_FromRaw_sel if_True if_False)
  next
    case f: False
    then show ?thesis using pbit_less by blast
  qed
qed

subsection \<open>The rays found by the masks\<close>

lemma Test_scan_up:
  assumes d: "d \<in> {(1, 0), (1, -1), (1, 1)}" and t: "t < 81"
  shows "bb_Test (bb_scan (MakeRayBB s d) occ) t \<longleftrightarrow> t \<in> set (ray_reach (occ_of occ) (ray_from s d))"
proof -
  let ?M = "MakeRayBB s d"
  have m: "pbit ?M (bbpos u) \<longleftrightarrow> u \<in> set (ray_from s d)" if "u < 81" for u
    using that by (simp add: pbit_pos [symmetric] bb_simps)
  have "(\<forall>j<bbpos t. \<not> (pbit ?M j \<and> pbit occ j)) \<longleftrightarrow> (\<forall>u\<in>set (ray_from s d). u < t \<longrightarrow> \<not> bb_Test occ u)"
  proof
    assume L: "\<forall>j<bbpos t. \<not> (pbit ?M j \<and> pbit occ j)"
    show "\<forall>u\<in>set (ray_from s d). u < t \<longrightarrow> \<not> bb_Test occ u"
    proof (intro ballI impI)
      fix u assume u: "u \<in> set (ray_from s d)" "u < t"
      then have "bbpos u < bbpos t" by (simp add: bbpos_def)
      with L u m [of u] ray_from_less [OF u(1)] show "\<not> bb_Test occ u" by (auto simp: pbit_pos)
    qed
  next
    assume R: "\<forall>u\<in>set (ray_from s d). u < t \<longrightarrow> \<not> bb_Test occ u"
    show "\<forall>j<bbpos t. \<not> (pbit ?M j \<and> pbit occ j)"
    proof (intro allI impI notI)
      fix j assume j: "j < bbpos t" "pbit ?M j \<and> pbit occ j"
      then obtain u where u: "u < 81" "j = bbpos u" using pbit_ok [of ?M j] by auto
      then have "u < t" using j(1) by (auto simp: bbpos_def split: if_splits)
      with R u m j(2) show False by (auto simp: pbit_pos)
    qed
  qed
  moreover have "d \<in> {(0, 1), (1, 0), (1, -1), (1, 1)}" using d by auto
  ultimately show ?thesis
    unfolding pbit_pos pbit_scan m [OF t] by (subst ray_reach_up) blast+
qed

lemma ray_down_steps:
  assumes d: "d \<in> {(-1, 0), (-1, -1), (-1, 1)}" and "u \<in> set (ray_from s d)" "t \<in> set (ray_from s d)"
    and "u < t"
  shows "bbpos u + 8 \<le> bbpos t"
proof -
  have idx: "\<exists>k. steps_to s d k v" if "v \<in> set (ray_from s d)" for v
    using that ray_from_nth(2) [of _ s d] unfolding in_set_conv_nth by blast
  obtain i j where u: "file_of u = file_of s + int i * fst d" "rank_of u = rank_of s + int i * snd d"
    and t: "file_of t = file_of s + int j * fst d" "rank_of t = rank_of s + int j * snd d"
    using idx [OF assms(2)] idx [OF assms(3)] by (auto simp: steps_to_def)
  have lt: "u < 81" "t < 81" using assms(2,3) by simp_all
  have f: "fst d = -1" "snd d \<in> {-1, 0, 1}" using d by auto
  have "int u - int t = 9 * (file_of u - file_of t) + (rank_of u - rank_of t)"
    using square_coords_int [OF lt(1)] square_coords_int [OF lt(2)] by simp
  also have "\<dots> = (int i - int j) * (9 * fst d + snd d)"
    by (simp add: u t algebra_simps)
  finally have e: "int t - int u = (int i - int j) * (9 - snd d)" using f(1) by (simp add: algebra_simps)
  have "int i - int j \<ge> 1"
  proof (rule ccontr)
    assume "\<not> int i - int j \<ge> 1"
    then have "(int i - int j) * (9 - snd d) \<le> 0" using f(2) by (auto simp: mult_le_0_iff)
    with e \<open>u < t\<close> show False by simp
  qed
  then have "(int i - int j) * (9 - snd d) \<ge> 1 * 8" using f(2) by (intro mult_mono) auto
  then have "t \<ge> u + 8" using e by simp
  then show ?thesis by (auto simp: bbpos_def)
qed

lemma Test_scan_down:
  assumes d: "d \<in> {(-1, 0), (-1, -1), (-1, 1)}" and t: "t < 81"
  shows "bb_Test (bb_byte_reverse (bb_scan (bb_byte_reverse (MakeRayBB s d)) (bb_byte_reverse occ))) t \<longleftrightarrow>
    t \<in> set (ray_reach (occ_of occ) (ray_from s d))"
proof -
  let ?M = "MakeRayBB s d"
  have pl: "bbpos u < 128" if "u < 81" for u using that by (simp add: bbpos_def)
  have m: "pbit ?M (bbpos u) \<longleftrightarrow> u \<in> set (ray_from s d)" if "u < 81" for u
    using that by (simp add: pbit_pos [symmetric] bb_simps)
  have rev: "pbit (bb_byte_reverse b) (revpos n) \<longleftrightarrow> pbit b n" if "n < 128" for b n
    using that by (simp add: pbit_byte_reverse revpos_less revpos_revpos)
  have "bb_Test (bb_byte_reverse (bb_scan (bb_byte_reverse ?M) (bb_byte_reverse occ))) t \<longleftrightarrow>
     t \<in> set (ray_from s d) \<and>
     (\<forall>j<revpos (bbpos t). \<not> (pbit (bb_byte_reverse ?M) j \<and> pbit (bb_byte_reverse occ) j))"
    unfolding pbit_pos pbit_byte_reverse [of "bb_scan M occ" for M occ] pbit_scan
    using pl [OF t] rev m [OF t] by simp
  also have "\<dots> \<longleftrightarrow> t \<in> set (ray_from s d) \<and> (\<forall>u\<in>set (ray_from s d). t < u \<longrightarrow> \<not> bb_Test occ u)"
  proof (rule conj_cong [OF refl])
    assume tin: "t \<in> set (ray_from s d)"
    show "(\<forall>j<revpos (bbpos t). \<not> (pbit (bb_byte_reverse ?M) j \<and> pbit (bb_byte_reverse occ) j)) \<longleftrightarrow>
      (\<forall>u\<in>set (ray_from s d). t < u \<longrightarrow> \<not> bb_Test occ u)"
    proof
      assume L: "\<forall>j<revpos (bbpos t). \<not> (pbit (bb_byte_reverse ?M) j \<and> pbit (bb_byte_reverse occ) j)"
      show "\<forall>u\<in>set (ray_from s d). t < u \<longrightarrow> \<not> bb_Test occ u"
      proof (intro ballI impI)
        fix u assume u: "u \<in> set (ray_from s d)" "t < u"
        then have ul: "u < 81" by simp
        have "revpos (bbpos u) < revpos (bbpos t)"
          by (rule revpos_mono [OF ray_down_steps [OF d tin u] pl [OF ul]])
        with L have "\<not> (pbit ?M (bbpos u) \<and> pbit occ (bbpos u))" using rev [OF pl [OF ul]] by blast
        with u m [OF ul] show "\<not> bb_Test occ u" by (simp add: pbit_pos)
      qed
    next
      assume R: "\<forall>u\<in>set (ray_from s d). t < u \<longrightarrow> \<not> bb_Test occ u"
      show "\<forall>j<revpos (bbpos t). \<not> (pbit (bb_byte_reverse ?M) j \<and> pbit (bb_byte_reverse occ) j)"
      proof (intro allI impI notI)
        fix j assume j: "j < revpos (bbpos t)" "pbit (bb_byte_reverse ?M) j \<and> pbit (bb_byte_reverse occ) j"
        then have jp: "pbit ?M (revpos j)" "pbit occ (revpos j)" "j < 128" by (auto simp: pbit_byte_reverse)
        then obtain u where u: "u < 81" "revpos j = bbpos u" using pbit_ok [of ?M "revpos j"] by auto
        have uin: "u \<in> set (ray_from s d)" using jp(1) m u by simp
        have "\<not> u \<le> t"
        proof
          assume "u \<le> t"
          then consider "u = t" | "u < t" by linarith
          then have "revpos (bbpos t) \<le> revpos (bbpos u)"
          proof cases
            case 2
            show ?thesis using revpos_mono [OF ray_down_steps [OF d uin tin 2] pl [OF t]] by simp
          qed simp
          moreover have "revpos (bbpos u) = j" using u(2) revpos_revpos [OF jp(3)] by metis
          ultimately show False using j(1) by simp
        qed
        with R uin jp(2) u(2) show False by (auto simp: pbit_pos)
      qed
    qed
  qed
  also have "\<dots> \<longleftrightarrow> t \<in> set (ray_reach (occ_of occ) (ray_from s d))"
  proof -
    have "d \<in> {(0, -1), (-1, 0), (-1, -1), (-1, 1)}" using d by auto
    from ray_reach_down [OF this] show ?thesis by blast
  qed
  finally show ?thesis .
qed

lemma bb_ok_pbit: "bb_ok b \<longleftrightarrow> (\<forall>n. pbit b n \<longrightarrow> (\<exists>u<81. n = bbpos u))"
proof
  assume "bb_ok b"
  then show "\<forall>n. pbit b n \<longrightarrow> (\<exists>u<81. n = bbpos u)" using pbit_ok by blast
next
  assume r: "\<forall>n. pbit b n \<longrightarrow> (\<exists>u<81. n = bbpos u)"
  show "bb_ok b" unfolding bb_ok_bits
  proof (intro conjI allI impI)
    fix i assume "bit (p0 b) i"
    then have "pbit b i" "i < 64" by (auto simp: pbit_def dest: bit_u64_less)
    with r obtain u where "u < 81" "i = bbpos u" "i < 64" by blast
    then show "i < 63" by (auto simp: bbpos_def split: if_splits)
  next
    fix i assume "bit (p1 b) i"
    then have "pbit b (i + 64)" by (simp add: pbit_def)
    with r obtain u where "u < 81" "i + 64 = bbpos u" by blast
    then show "i < 18" by (auto simp: bbpos_def split: if_splits)
  qed
qed

lemma bb_ok_scan: "bb_ok M \<Longrightarrow> bb_ok (bb_scan M occ)"
  by (simp add: bb_ok_pbit pbit_scan)

lemma bb_ok_scan_reverse:
  "bb_ok M \<Longrightarrow> bb_ok (bb_byte_reverse (bb_scan (bb_byte_reverse M) occ))"
  by (auto simp: bb_ok_pbit pbit_scan pbit_byte_reverse revpos_revpos)

definition rook_dirs :: "(int \<times> int) list" where
  "rook_dirs = [(0, -1), (0, 1), (-1, 0), (1, 0)]"

definition bishop_dirs :: "(int \<times> int) list" where
  "bishop_dirs = [(-1, -1), (-1, 1), (1, -1), (1, 1)]"

lemma RookEffect_rays [bb_simps]:
  assumes "s < 81" "t < 81"
  shows "bb_Test (RookEffect s occ) t \<longleftrightarrow>
    (\<exists>d\<in>set rook_dirs. t \<in> set (ray_reach (occ_of occ) (ray_from s d)))"
  using assms
  by (simp add: RookEffect_def RookFileEffect_lances RookRankEffect_scan Test_Or LanceEffect_ray
      Test_scan_up Test_scan_down rook_dirs_def forward_def) blast

lemma BishopEffect_rays [bb_simps]:
  assumes "s < 81" "t < 81"
  shows "bb_Test (BishopEffect s occ) t \<longleftrightarrow>
    (\<exists>d\<in>set bishop_dirs. t \<in> set (ray_reach (occ_of occ) (ray_from s d)))"
  using assms
  by (simp add: BishopEffect_scan Test_Or Test_scan_up Test_scan_down bishop_dirs_def) blast

lemma bb_ok_RookEffect [bb_intros, simp]: "s < 81 \<Longrightarrow> bb_ok (RookEffect s occ)"
  unfolding RookEffect_def RookFileEffect_lances RookRankEffect_scan
  by (intro bb_ok_Or bb_ok_LanceEffect bb_ok_scan bb_ok_scan_reverse bb_ok_MakeRayBB)

lemma bb_ok_BishopEffect [bb_intros, simp]: "bb_ok (BishopEffect s occ)"
  unfolding BishopEffect_scan
  by (intro bb_ok_Or bb_ok_scan bb_ok_scan_reverse bb_ok_MakeRayBB)

subsection \<open>Correctness\<close>

text \<open>C15: the branch-free lance, rook and bishop attacks (bit subtraction, byte reversal, the
  paired 128-bit decrement) contain exactly the squares met when walking along the lance's,
  rook's and bishop's rays up to and including the first occupied square, for every square and
  every occupancy.\<close>

theorem sliding_effects_correct:
  assumes "s < 81" "t < 81"
  shows "(bb_Test (LanceEffect c s occ) t \<longleftrightarrow>
      t \<in> set (ray_reach (bb_Test occ) (ray_from s (forward c)))) \<and>
    (bb_Test (RookEffect s occ) t \<longleftrightarrow>
      (\<exists>d\<in>set rook_dirs. t \<in> set (ray_reach (bb_Test occ) (ray_from s d)))) \<and>
    (bb_Test (BishopEffect s occ) t \<longleftrightarrow>
      (\<exists>d\<in>set bishop_dirs. t \<in> set (ray_reach (bb_Test occ) (ray_from s d))))"
  using assms by (simp only: LanceEffect_ray RookEffect_rays BishopEffect_rays simp_thms)

theorem sliding_effects_correct_witness:
  "bb_Test (RookEffect 40 (bb_FromSquare 31)) 31 \<and> \<not> bb_Test (RookEffect 40 (bb_FromSquare 31)) 22"
proof -
  have "ray_from 40 (-1, 0) = [31, 22, 13, 4]" "ray_from 40 (1, 0) = [49, 58, 67, 76]"
    "ray_from 40 (0, -1) = [39, 38, 37, 36]" "ray_from 40 (0, 1) = [41, 42, 43, 44]"
    by code_simp+
  then show ?thesis
    using sliding_effects_correct [of 40 31 BLACK "bb_FromSquare 31"]
      sliding_effects_correct [of 40 22 BLACK "bb_FromSquare 31"]
    by (simp add: rook_dirs_def Test_FromSquare)
qed

end
