(* ===== verification/CheckTables.thy ===== *)
theory CheckTables
  imports Sliding
begin

text \<open>
  The remaining start-up tables of shogi/bitboard.cc, those computed from the attack tables:
  the empty-board slider effects, the squares between two squares and the line through
  them, the direct-attack tables used to classify drops, and the promotion-aware move-check
  tables used to filter the candidates of the checking-move generator.
\<close>

subsection \<open>Empty-board effects\<close>

definition RookEffectBB :: "square \<Rightarrow> bitboard" where
  "RookEffectBB sq = bb_And (bb_Or (FileBB (sq div 9)) (RankBB (sq mod 9))) (bb_Not (SquareBB sq))"

definition BishopEffectBB :: "square \<Rightarrow> bitboard" where
  "BishopEffectBB sq = BishopEffect sq bb_Zero"

subsection \<open>Between and line\<close>

definition between_walk :: "square list \<Rightarrow> (square \<Rightarrow> bitboard) \<Rightarrow> (square \<Rightarrow> bitboard)" where
  "between_walk ray tab =
     snd (fold (\<lambda>s2 (acc, tab). (bb_Set acc s2, tab(s2 := acc))) ray (bb_Zero, tab))"

definition BetweenBB :: "square \<Rightarrow> square \<Rightarrow> bitboard" where
  "BetweenBB s1 = fold (\<lambda>d tab. between_walk (ray_from s1 d) tab) dirs (\<lambda>_. bb_Zero)"

definition full_line :: "square \<Rightarrow> int \<times> int \<Rightarrow> bitboard" where
  "full_line s1 d = bb_Set (bb_Or (MakeRayBB s1 d) (MakeRayBB s1 (- fst d, - snd d))) s1"

definition LineBB :: "square \<Rightarrow> square \<Rightarrow> bitboard" where
  "LineBB s1 = fold (\<lambda>d tab. fold (\<lambda>s2 tab. tab(s2 := full_line s1 d)) (ray_from s1 d) tab)
     dirs (\<lambda>_. bb_Zero)"

subsection \<open>Direct-attack tables\<close>

definition direct_table :: "(square \<Rightarrow> bitboard) \<Rightarrow> square \<Rightarrow> bitboard" where
  "direct_table eff ksq = fold (\<lambda>s b. if bb_Test (eff s) ksq then bb_Set b s else b) [0..<81] bb_Zero"

definition PawnCheckBB :: "square \<Rightarrow> color \<Rightarrow> bitboard" where
  "PawnCheckBB ksq c = direct_table (\<lambda>s. PawnEffectBB s c) ksq"

definition KnightCheckBB :: "square \<Rightarrow> color \<Rightarrow> bitboard" where
  "KnightCheckBB ksq c = direct_table (\<lambda>s. KnightEffectBB s c) ksq"

definition SilverCheckBB :: "square \<Rightarrow> color \<Rightarrow> bitboard" where
  "SilverCheckBB ksq c = direct_table (\<lambda>s. SilverEffectBB s c) ksq"

definition GoldCheckBB :: "square \<Rightarrow> color \<Rightarrow> bitboard" where
  "GoldCheckBB ksq c = direct_table (\<lambda>s. GoldEffectBB s c) ksq"

definition LanceCheckBB :: "square \<Rightarrow> color \<Rightarrow> bitboard" where
  "LanceCheckBB ksq c = direct_table (\<lambda>s. LanceMaskBB s c) ksq"

definition BishopCheckBB :: "square \<Rightarrow> bitboard" where
  "BishopCheckBB ksq = direct_table BishopEffectBB ksq"

definition HorseCheckBB :: "square \<Rightarrow> bitboard" where
  "HorseCheckBB ksq = bb_Or (BishopCheckBB ksq) (HorseStepBB ksq)"

subsection \<open>Move-check tables\<close>

text \<open>\<open>while (candidates.Any()) tbl |= eff[candidates.Pop()]\<close>\<close>

definition union_over :: "bitboard \<Rightarrow> (square \<Rightarrow> bitboard) \<Rightarrow> bitboard \<Rightarrow> bitboard" where
  "union_over candidates eff tbl = fold (\<lambda>s t. bb_Or t (eff s)) (bb_squares candidates) tbl"

definition rank4BB :: "color \<Rightarrow> bitboard" where
  "rank4BB c = (if c = BLACK then RankBB 3 else RankBB 5)"

definition GoldMoveCheckBB :: "square \<Rightarrow> color \<Rightarrow> bitboard" where
  "GoldMoveCheckBB ksq c =
     (let o' = opp c;
          tbl = union_over (GoldEffectBB ksq o') (\<lambda>s. GoldEffectBB s o') bb_Zero
      in bb_And (bb_And tbl (bb_Not (bb_FromSquare ksq))) (bb_Not (GoldEffectBB ksq o')))"

definition SilverMoveCheckBB :: "square \<Rightarrow> color \<Rightarrow> bitboard" where
  "SilverMoveCheckBB ksq c =
     (let o' = opp c; zone = PromotionZoneBB c;
          tbl = union_over (SilverEffectBB ksq o') (\<lambda>s. SilverEffectBB s o') bb_Zero;
          tbl = union_over (GoldEffectBB ksq o') (\<lambda>s. bb_And (SilverEffectBB s o') zone) tbl;
          tbl = union_over (bb_And (GoldEffectBB ksq o') zone)
                  (\<lambda>s. bb_And (SilverEffectBB s o') (rank4BB c)) tbl
      in bb_And (bb_And tbl (bb_Not (bb_FromSquare ksq))) (bb_Not (SilverEffectBB ksq o')))"

definition KnightMoveCheckBB :: "square \<Rightarrow> color \<Rightarrow> bitboard" where
  "KnightMoveCheckBB ksq c =
     (let o' = opp c; zone = PromotionZoneBB c;
          tbl = union_over (KnightEffectBB ksq o') (\<lambda>s. KnightEffectBB s o') bb_Zero
      in union_over (bb_And (GoldEffectBB ksq o') zone) (\<lambda>s. KnightEffectBB s o') tbl)"

definition LanceMoveCheckBB :: "square \<Rightarrow> color \<Rightarrow> bitboard" where
  "LanceMoveCheckBB ksq c =
     (let o' = opp c; zone = PromotionZoneBB c;
          tbl = union_over (bb_And (GoldEffectBB ksq o') zone) (\<lambda>s. LanceMaskBB s o')
                  (LanceMaskBB ksq o')
      in bb_And (bb_And tbl (bb_Not (bb_FromSquare ksq))) (bb_Not (PawnEffectBB ksq o')))"

definition PawnMoveCheckBB :: "square \<Rightarrow> color \<Rightarrow> bitboard" where
  "PawnMoveCheckBB ksq c =
     (let o' = opp c; zone = PromotionZoneBB c;
          tbl = union_over (PawnEffectBB ksq o') (\<lambda>s. PawnEffectBB s o') bb_Zero;
          tbl = union_over (bb_And (GoldEffectBB ksq o') zone) (\<lambda>s. PawnEffectBB s o') tbl
      in bb_And tbl (bb_Not (bb_FromSquare ksq)))"

definition BishopMoveCheckBB :: "square \<Rightarrow> color \<Rightarrow> bitboard" where
  "BishopMoveCheckBB ksq c =
     (let zone = PromotionZoneBB c;
          tbl = union_over (BishopEffectBB ksq) BishopEffectBB bb_Zero;
          tbl = union_over (bb_And (KingEffectBB ksq) zone) BishopEffectBB tbl;
          tbl = union_over (KingEffectBB ksq) (\<lambda>s. bb_And (BishopEffectBB s) zone) tbl
      in bb_And tbl (bb_Not (bb_FromSquare ksq)))"

definition HorseMoveCheckBB :: "square \<Rightarrow> bitboard" where
  "HorseMoveCheckBB ksq =
     (let tbl = union_over (bb_Or (BishopEffectBB ksq) (HorseStepBB ksq))
                  (\<lambda>s. bb_Or (BishopEffectBB s) (HorseStepBB s)) bb_Zero
      in bb_And tbl (bb_Not (bb_FromSquare ksq)))"

subsection \<open>Membership\<close>

lemma Test_union_over [bb_simps]:
  assumes "bb_ok candidates"
  shows "bb_Test (union_over candidates eff tbl) t \<longleftrightarrow>
    bb_Test tbl t \<or> (\<exists>s<81. bb_Test candidates s \<and> bb_Test (eff s) t)"
proof -
  have "bb_Test (fold (\<lambda>s t. bb_Or t (eff s)) ss b) t \<longleftrightarrow> bb_Test b t \<or> (\<exists>s\<in>set ss. bb_Test (eff s) t)" for ss b
    by (induction ss arbitrary: b) (auto simp: Test_Or)
  with assms show ?thesis by (auto simp: union_over_def set_bb_squares)
qed

lemma bb_ok_union_over [bb_intros]:
  assumes "bb_ok candidates" "bb_ok tbl" "\<And>s. s < 81 \<Longrightarrow> bb_ok (eff s)"
  shows "bb_ok (union_over candidates eff tbl)"
proof -
  have "\<forall>s\<in>set ss. s < 81 \<Longrightarrow> bb_ok b \<Longrightarrow> bb_ok (fold (\<lambda>s t. bb_Or t (eff s)) ss b)" for ss b
    using assms(3) by (induction ss arbitrary: b) (auto intro: bb_ok_Or)
  with assms show ?thesis by (auto simp: union_over_def set_bb_squares)
qed

lemma Test_direct_table [bb_simps]:
  assumes "t < 81"
  shows "bb_Test (direct_table eff ksq) t \<longleftrightarrow> bb_Test (eff t) ksq"
proof -
  have "\<forall>s\<in>set ss. s < 81 \<Longrightarrow>
    bb_Test (fold (\<lambda>s b. if bb_Test (eff s) ksq then bb_Set b s else b) ss b) t \<longleftrightarrow>
      bb_Test b t \<or> (t \<in> set ss \<and> bb_Test (eff t) ksq)" for ss b
    using assms by (induction ss arbitrary: b) (auto simp: Test_Set)
  with assms show ?thesis by (simp add: direct_table_def)
qed

lemma bb_ok_direct_table [bb_intros, simp]: "bb_ok (direct_table eff ksq)"
proof -
  have "\<forall>s\<in>set ss. s < 81 \<Longrightarrow> bb_ok b \<Longrightarrow>
    bb_ok (fold (\<lambda>s b. if bb_Test (eff s) ksq then bb_Set b s else b) ss b)" for ss b
    by (induction ss arbitrary: b) (auto intro: bb_ok_Set)
  then show ?thesis by (simp add: direct_table_def)
qed

lemma Test_RookEffectBB [bb_simps]:
  assumes "s < 81" "t < 81"
  shows "bb_Test (RookEffectBB s) t \<longleftrightarrow> (sq_file t = sq_file s \<or> sq_rank t = sq_rank s) \<and> s \<noteq> t"
proof -
  have "s div 9 < 9" "s mod 9 < 9" using assms(1) by simp_all
  then show ?thesis using assms
    by (simp add: RookEffectBB_def Test_And Test_Or Test_Not Test_SquareBB Test_FileBB Test_RankBB)
      (simp add: sq_file_def sq_rank_def)
qed

lemma ray_reach_Zero [simp]: "ray_reach (bb_Test bb_Zero) R = R"
  by (induction R) simp_all

lemma unit_dir_rook_bishop: "unit_dir d \<longleftrightarrow> d \<in> set rook_dirs \<or> d \<in> set bishop_dirs"
  by (auto simp: unit_dir_def rook_dirs_def bishop_dirs_def)

lemma Test_BishopEffectBB [bb_simps]:
  "s < 81 \<Longrightarrow> t < 81 \<Longrightarrow>
    bb_Test (BishopEffectBB s) t \<longleftrightarrow> (\<exists>d\<in>set bishop_dirs. t \<in> set (ray_from s d))"
  by (simp add: BishopEffectBB_def BishopEffect_rays)

lemma bb_ok_slider_tables [bb_intros, simp]:
  "s < 81 \<Longrightarrow> bb_ok (RookEffectBB s)" "bb_ok (BishopEffectBB s)"
  by (simp_all add: RookEffectBB_def BishopEffectBB_def bb_intros bb_ok_And2)

lemma ray_from_symmetric:
  assumes "s < 81" "t < 81" "unit_dir d"
  shows "t \<in> set (ray_from s d) \<longleftrightarrow> s \<in> set (ray_from t (neg_dir d))"
  using assms steps_to_neg [of s d _ t] by (auto simp: set_ray_from)

lemma neg_dir_rook_bishop [simp]:
  "neg_dir d \<in> set rook_dirs \<longleftrightarrow> d \<in> set rook_dirs"
  "neg_dir d \<in> set bishop_dirs \<longleftrightarrow> d \<in> set bishop_dirs"
  by (cases d, auto simp: rook_dirs_def bishop_dirs_def neg_dir_def)+

lemma neg_dir_neg [simp]: "neg_dir (neg_dir d) = d"
  by (simp add: neg_dir_def)

lemma bex_neg_dir:
  "(\<exists>d\<in>set bishop_dirs. P (neg_dir d)) \<longleftrightarrow> (\<exists>d\<in>set bishop_dirs. P d)"
  "(\<exists>d\<in>set rook_dirs. P (neg_dir d)) \<longleftrightarrow> (\<exists>d\<in>set rook_dirs. P d)"
  by (metis neg_dir_neg neg_dir_rook_bishop)+

lemma BishopEffectBB_symmetric:
  assumes "s < 81" "t < 81"
  shows "bb_Test (BishopEffectBB s) t \<longleftrightarrow> bb_Test (BishopEffectBB t) s"
proof -
  have "(\<exists>d\<in>set bishop_dirs. t \<in> set (ray_from s d)) \<longleftrightarrow> (\<exists>d\<in>set bishop_dirs. s \<in> set (ray_from t (neg_dir d)))"
    using assms ray_from_symmetric unit_dir_rook_bishop by blast
  then show ?thesis using assms bex_neg_dir(1) [of "\<lambda>d. s \<in> set (ray_from t d)"]
    by (simp add: Test_BishopEffectBB)
qed

lemma LanceMask_symmetric:
  "s < 81 \<Longrightarrow> t < 81 \<Longrightarrow> bb_Test (LanceMaskBB s c) t \<longleftrightarrow> bb_Test (LanceMaskBB t (opp c)) s"
  by (cases c) (auto simp: Test_LanceMaskBB)

subsection \<open>The move-check tables lose no check\<close>

text \<open>What a piece attacks from a square on an otherwise empty board.\<close>

definition pattern :: "piece_type \<Rightarrow> color \<Rightarrow> square \<Rightarrow> bitboard" where
  "pattern pt c s =
     (if pt = kPawn then PawnEffectBB s c else if pt = kLance then LanceMaskBB s c
      else if pt = kKnight then KnightEffectBB s c else if pt = kSilver then SilverEffectBB s c
      else if pt = kBishop then BishopEffectBB s
      else if pt = kHorse then bb_Or (BishopEffectBB s) (HorseStepBB s)
      else GoldEffectBB s c)"

definition move_check_table :: "piece_type \<Rightarrow> square \<Rightarrow> color \<Rightarrow> bitboard" where
  "move_check_table pt ksq c =
     (if pt = kPawn then PawnMoveCheckBB ksq c else if pt = kLance then LanceMoveCheckBB ksq c
      else if pt = kKnight then KnightMoveCheckBB ksq c else if pt = kSilver then SilverMoveCheckBB ksq c
      else if pt = kBishop then BishopMoveCheckBB ksq c
      else if pt = kHorse then HorseMoveCheckBB ksq
      else GoldMoveCheckBB ksq c)"

lemma forward_into_zone:
  assumes "s < 81" "t < 81" "pt \<in> {kPawn, kLance, kKnight}" "bb_Test (pattern pt c s) t"
    "sq_InPromotionZone s c"
  shows "sq_InPromotionZone t c"
  using assms
  by (cases c) (auto simp: pattern_def piece_type_defs step_defs delta_defs Test_MakeStepBB
      Test_LanceMaskBB sq_InPromotionZone_def rank_InPromotionZone_def)

lemma silver_enters_zone:
  assumes "s < 81" "t < 81" "bb_Test (SilverEffectBB s c) t" "sq_InPromotionZone t c"
    "\<not> sq_InPromotionZone s c"
  shows "bb_Test (rank4BB c) s"
proof -
  have d: "rank_of t - rank_of s \<in> {-1, 1}"
    using assms(1-3) by (cases c) (auto simp: step_defs delta_defs Test_MakeStepBB)
  show ?thesis
  proof (cases c)
    case BLACK
    then have "sq_rank t \<le> 2" "\<not> sq_rank s \<le> 2"
      using assms(4,5) by (simp_all add: sq_InPromotionZone_def rank_InPromotionZone_def)
    then have "sq_rank s = 3" using d by auto
    then show ?thesis using assms(1) BLACK by (simp add: rank4BB_def Test_RankBB)
  next
    case WHITE
    then have "6 \<le> sq_rank t" "\<not> 6 \<le> sq_rank s"
      using assms(4,5) by (simp_all add: sq_InPromotionZone_def rank_InPromotionZone_def)
    then have "sq_rank s = 5" using d by auto
    then show ?thesis using assms(1) WHITE by (simp add: rank4BB_def Test_RankBB)
  qed
qed

lemma HorseStep_King: "s < 81 \<Longrightarrow> t < 81 \<Longrightarrow> bb_Test (HorseStepBB s) t \<Longrightarrow> bb_Test (KingEffectBB s) t"
  by (auto simp: step_defs delta_defs Test_MakeStepBB)

lemma PawnEffect_LanceMask:
  "s < 81 \<Longrightarrow> t < 81 \<Longrightarrow> bb_Test (PawnEffectBB s c) t \<Longrightarrow> bb_Test (LanceMaskBB s c) t"
  by (cases c) (auto simp: step_defs delta_defs Test_MakeStepBB Test_LanceMaskBB)

lemma pattern_promoted:
  "pt \<in> {kPawn, kLance, kKnight, kSilver} \<Longrightarrow> pattern (pt_Promote pt) c s = GoldEffectBB s c"
  "pattern (pt_Promote kBishop) c s = bb_Or (BishopEffectBB s) (HorseStepBB s)"
  by (auto simp: pattern_def piece_type_defs pt_Promote_def)

lemmas move_check_defs = GoldMoveCheckBB_def SilverMoveCheckBB_def KnightMoveCheckBB_def
  LanceMoveCheckBB_def PawnMoveCheckBB_def BishopMoveCheckBB_def HorseMoveCheckBB_def

lemma Test_move_check_tables:
  assumes "k < 81" "s < 81"
  shows "bb_Test (GoldMoveCheckBB k c) s \<longleftrightarrow> s \<noteq> k \<and> \<not> bb_Test (GoldEffectBB s c) k \<and>
      (\<exists>t<81. bb_Test (GoldEffectBB s c) t \<and> bb_Test (GoldEffectBB t c) k)"
    and "bb_Test (SilverMoveCheckBB k c) s \<longleftrightarrow> s \<noteq> k \<and> \<not> bb_Test (SilverEffectBB s c) k \<and>
      (\<exists>t<81. bb_Test (SilverEffectBB s c) t \<and> (bb_Test (SilverEffectBB t c) k \<or>
         (bb_Test (GoldEffectBB t c) k \<and> (sq_InPromotionZone s c \<or>
            (sq_InPromotionZone t c \<and> bb_Test (rank4BB c) s)))))"
    and "bb_Test (KnightMoveCheckBB k c) s \<longleftrightarrow>
      (\<exists>t<81. bb_Test (KnightEffectBB s c) t \<and> (bb_Test (KnightEffectBB t c) k \<or>
         (bb_Test (GoldEffectBB t c) k \<and> sq_InPromotionZone t c)))"
    and "bb_Test (LanceMoveCheckBB k c) s \<longleftrightarrow> s \<noteq> k \<and> \<not> bb_Test (PawnEffectBB s c) k \<and>
      (bb_Test (LanceMaskBB s c) k \<or> (\<exists>t<81. bb_Test (LanceMaskBB s c) t \<and>
         bb_Test (GoldEffectBB t c) k \<and> sq_InPromotionZone t c))"
    and "bb_Test (PawnMoveCheckBB k c) s \<longleftrightarrow> s \<noteq> k \<and>
      (\<exists>t<81. bb_Test (PawnEffectBB s c) t \<and> (bb_Test (PawnEffectBB t c) k \<or>
         (bb_Test (GoldEffectBB t c) k \<and> sq_InPromotionZone t c)))"
    and "bb_Test (BishopMoveCheckBB k c) s \<longleftrightarrow> s \<noteq> k \<and>
      (\<exists>t<81. bb_Test (BishopEffectBB s) t \<and> (bb_Test (BishopEffectBB t) k \<or>
         (bb_Test (KingEffectBB t) k \<and> (sq_InPromotionZone t c \<or> sq_InPromotionZone s c))))"
    and "bb_Test (HorseMoveCheckBB k) s \<longleftrightarrow> s \<noteq> k \<and>
      (\<exists>t<81. (bb_Test (BishopEffectBB s) t \<or> bb_Test (HorseStepBB s) t) \<and>
         (bb_Test (BishopEffectBB t) k \<or> bb_Test (HorseStepBB t) k))"
proof -
  have step: "t < 81 \<Longrightarrow> bb_Test (PawnEffectBB k (opp c)) t \<longleftrightarrow> bb_Test (PawnEffectBB t c) k"
    "t < 81 \<Longrightarrow> bb_Test (PawnEffectBB t (opp c)) s \<longleftrightarrow> bb_Test (PawnEffectBB s c) t"
    "t < 81 \<Longrightarrow> bb_Test (KnightEffectBB k (opp c)) t \<longleftrightarrow> bb_Test (KnightEffectBB t c) k"
    "t < 81 \<Longrightarrow> bb_Test (KnightEffectBB t (opp c)) s \<longleftrightarrow> bb_Test (KnightEffectBB s c) t"
    "t < 81 \<Longrightarrow> bb_Test (SilverEffectBB k (opp c)) t \<longleftrightarrow> bb_Test (SilverEffectBB t c) k"
    "t < 81 \<Longrightarrow> bb_Test (SilverEffectBB t (opp c)) s \<longleftrightarrow> bb_Test (SilverEffectBB s c) t"
    "t < 81 \<Longrightarrow> bb_Test (GoldEffectBB k (opp c)) t \<longleftrightarrow> bb_Test (GoldEffectBB t c) k"
    "t < 81 \<Longrightarrow> bb_Test (GoldEffectBB t (opp c)) s \<longleftrightarrow> bb_Test (GoldEffectBB s c) t"
    "t < 81 \<Longrightarrow> bb_Test (LanceMaskBB k (opp c)) t \<longleftrightarrow> bb_Test (LanceMaskBB t c) k"
    "t < 81 \<Longrightarrow> bb_Test (LanceMaskBB t (opp c)) s \<longleftrightarrow> bb_Test (LanceMaskBB s c) t" for t
    using step_symmetric(1-4) [OF assms(1), of t "opp c"] step_symmetric(1-4) [OF _ assms(2), of t "opp c"]
      LanceMask_symmetric [OF assms(1), of t "opp c"] LanceMask_symmetric [OF _ assms(2), of t "opp c"]
    by simp_all
  have sym2: "t < 81 \<Longrightarrow> bb_Test (BishopEffectBB k) t \<longleftrightarrow> bb_Test (BishopEffectBB t) k"
    "t < 81 \<Longrightarrow> bb_Test (HorseStepBB k) t \<longleftrightarrow> bb_Test (HorseStepBB t) k"
    "t < 81 \<Longrightarrow> bb_Test (KingEffectBB k) t \<longleftrightarrow> bb_Test (KingEffectBB t) k"
    "t < 81 \<Longrightarrow> bb_Test (BishopEffectBB t) s \<longleftrightarrow> bb_Test (BishopEffectBB s) t"
    "t < 81 \<Longrightarrow> bb_Test (HorseStepBB t) s \<longleftrightarrow> bb_Test (HorseStepBB s) t" for t
    using BishopEffectBB_symmetric [OF assms(1), of t] step_symmetric(5,6) [OF assms(1), of t]
      BishopEffectBB_symmetric [OF _ assms(2), of t] step_symmetric(6) [OF _ assms(2), of t]
    by blast+
  note [simp] = assms bb_ok_Or bb_ok_And1 Test_union_over Test_And Test_Or Test_Not Test_FromSquare
    Test_PromotionZoneBB Let_def
  show "bb_Test (GoldMoveCheckBB k c) s \<longleftrightarrow> s \<noteq> k \<and> \<not> bb_Test (GoldEffectBB s c) k \<and>
      (\<exists>t<81. bb_Test (GoldEffectBB s c) t \<and> bb_Test (GoldEffectBB t c) k)"
    by (simp add: move_check_defs step cong: conj_cong) blast
  show "bb_Test (SilverMoveCheckBB k c) s \<longleftrightarrow> s \<noteq> k \<and> \<not> bb_Test (SilverEffectBB s c) k \<and>
      (\<exists>t<81. bb_Test (SilverEffectBB s c) t \<and> (bb_Test (SilverEffectBB t c) k \<or>
         (bb_Test (GoldEffectBB t c) k \<and> (sq_InPromotionZone s c \<or>
            (sq_InPromotionZone t c \<and> bb_Test (rank4BB c) s)))))"
    by (simp add: move_check_defs step cong: conj_cong) blast
  show "bb_Test (KnightMoveCheckBB k c) s \<longleftrightarrow>
      (\<exists>t<81. bb_Test (KnightEffectBB s c) t \<and> (bb_Test (KnightEffectBB t c) k \<or>
         (bb_Test (GoldEffectBB t c) k \<and> sq_InPromotionZone t c)))"
    by (simp add: move_check_defs step cong: conj_cong) blast
  show "bb_Test (LanceMoveCheckBB k c) s \<longleftrightarrow> s \<noteq> k \<and> \<not> bb_Test (PawnEffectBB s c) k \<and>
      (bb_Test (LanceMaskBB s c) k \<or> (\<exists>t<81. bb_Test (LanceMaskBB s c) t \<and>
         bb_Test (GoldEffectBB t c) k \<and> sq_InPromotionZone t c))"
    by (simp add: move_check_defs step cong: conj_cong) blast
  show "bb_Test (PawnMoveCheckBB k c) s \<longleftrightarrow> s \<noteq> k \<and>
      (\<exists>t<81. bb_Test (PawnEffectBB s c) t \<and> (bb_Test (PawnEffectBB t c) k \<or>
         (bb_Test (GoldEffectBB t c) k \<and> sq_InPromotionZone t c)))"
    by (simp add: move_check_defs step cong: conj_cong) blast
  show "bb_Test (BishopMoveCheckBB k c) s \<longleftrightarrow> s \<noteq> k \<and>
      (\<exists>t<81. bb_Test (BishopEffectBB s) t \<and> (bb_Test (BishopEffectBB t) k \<or>
         (bb_Test (KingEffectBB t) k \<and> (sq_InPromotionZone t c \<or> sq_InPromotionZone s c))))"
    by (simp add: move_check_defs sym2 cong: conj_cong) blast
  show "bb_Test (HorseMoveCheckBB k) s \<longleftrightarrow> s \<noteq> k \<and>
      (\<exists>t<81. (bb_Test (BishopEffectBB s) t \<or> bb_Test (HorseStepBB s) t) \<and>
         (bb_Test (BishopEffectBB t) k \<or> bb_Test (HorseStepBB t) k))"
    by (simp add: move_check_defs sym2 cong: conj_cong) blast
qed

lemma move_check_table_covers:
  assumes "s < 81" "t < 81" "k < 81" "s \<noteq> k"
    and "pt \<in> {kPawn, kLance, kKnight, kSilver, kBishop, kGold, kHorse}"
    and "bb_Test (pattern pt c s) t"
    and "prom \<Longrightarrow> pt_CanPromote pt \<and> (sq_InPromotionZone s c \<or> sq_InPromotionZone t c)"
    and "bb_Test (pattern (if prom then pt_Promote pt else pt) c t) k"
    and "pt \<in> {kSilver, kGold} \<Longrightarrow> \<not> bb_Test (pattern pt c s) k"
    and "pt = kLance \<Longrightarrow> \<not> bb_Test (PawnEffectBB s c) k"
  shows "bb_Test (move_check_table pt k c) s"
proof -
  note tab = Test_move_check_tables [OF assms(3,1)]
  have zone: "prom \<Longrightarrow> pt \<in> {kPawn, kLance, kKnight} \<Longrightarrow> sq_InPromotionZone t c"
    using assms forward_into_zone [OF assms(1,2)] by blast
  have step: "bb_Test (HorseStepBB t) k \<Longrightarrow> bb_Test (KingEffectBB t) k"
    using HorseStep_King assms(2,3) by blast
  consider "pt = kPawn" | "pt = kLance" | "pt = kKnight" | "pt = kSilver" | "pt = kBishop"
    | "pt = kGold" | "pt = kHorse" using assms(5) by blast
  then show ?thesis
  proof cases
    case 1
    then show ?thesis using assms zone
      by (cases prom)
        (auto simp: move_check_table_def tab pattern_promoted pattern_def piece_type_defs pt_Promote_def)
  next
    case 2
    then have "\<not> bb_Test (PawnEffectBB s c) k" using assms(10) by blast
    moreover have "prom" if "\<not> bb_Test (LanceMaskBB s c) k"
    proof (rule ccontr)
      assume "\<not> prom"
      with 2 assms(6,8) have "bb_Test (LanceMaskBB s c) t" "bb_Test (LanceMaskBB t c) k"
        by (simp_all add: pattern_def piece_type_defs)
      with that assms(1-3) show False by (auto simp: Test_LanceMaskBB split: if_splits)
    qed
    ultimately show ?thesis using 2 assms zone
      by (cases "bb_Test (LanceMaskBB s c) k")
        (auto simp: move_check_table_def tab pattern_promoted pattern_def piece_type_defs pt_Promote_def)
  next
    case 3
    then show ?thesis using assms zone
      by (cases prom)
        (auto simp: move_check_table_def tab pattern_promoted pattern_def piece_type_defs pt_Promote_def)
  next
    case 4
    then show ?thesis using assms silver_enters_zone [OF assms(1,2)]
      by (cases prom)
        (auto simp: move_check_table_def tab pattern_promoted pattern_def piece_type_defs pt_Promote_def)
  next
    case 5
    then show ?thesis using assms step
      by (cases prom)
        (auto simp: move_check_table_def tab pattern_promoted pattern_def piece_type_defs pt_Promote_def Test_Or)
  next
    case 6
    then have "\<not> prom" using assms(7) by (auto simp: pt_CanPromote_def piece_type_defs)
    with 6 show ?thesis using assms
      by (auto simp: move_check_table_def tab pattern_def piece_type_defs)
  next
    case 7
    then have "\<not> prom" using assms(7) by (auto simp: pt_CanPromote_def piece_type_defs)
    with 7 show ?thesis using assms
      by (auto simp: move_check_table_def tab pattern_def piece_type_defs Test_Or)
  qed
qed

text \<open>The promotion-aware candidate filter loses no checking move: whenever a piece on \<open>s\<close>
  reaches \<open>t\<close> and from there, promoted or not, attacks the king square, the square \<open>s\<close> is in the
  move-check table of its type, unless the piece already attacks the king from \<open>s\<close>.\<close>

theorem move_check_table_complete:
  assumes "s < 81" "t < 81" "k < 81" "s \<noteq> k"
    and "pt \<in> {kPawn, kLance, kKnight, kSilver, kBishop, kGold, kHorse}"
    and "bb_Test (pattern pt c s) t"
    and "prom \<Longrightarrow> pt_CanPromote pt \<and> (sq_InPromotionZone s c \<or> sq_InPromotionZone t c)"
    and "bb_Test (pattern (if prom then pt_Promote pt else pt) c t) k"
    and "\<not> bb_Test (pattern pt c s) k"
  shows "bb_Test (move_check_table pt k c) s"
  by (rule move_check_table_covers [OF assms(1-8)])
    (use assms(1,3,9) PawnEffect_LanceMask in \<open>auto simp: pattern_def piece_type_defs\<close>)

text \<open>A silver on 5b promotes while moving back to 4c, beside a king on 3c, which it could not attack unpromoted.\<close>

theorem move_check_table_complete_witness:
  "bb_Test (move_check_table kSilver 20 BLACK) 37"
proof (rule move_check_table_complete [where t = 29 and prom = True])
  show "bb_Test (pattern kSilver BLACK 37) 29"
    by (simp add: pattern_def piece_type_defs step_defs delta_defs Test_MakeStepBB sq_file_def sq_rank_def)
  show "bb_Test (pattern (if True then pt_Promote kSilver else kSilver) BLACK 29) 20"
    by (simp add: pattern_promoted step_defs delta_defs Test_MakeStepBB sq_file_def sq_rank_def)
  show "\<not> bb_Test (pattern kSilver BLACK 37) 20"
    by (simp add: pattern_def piece_type_defs step_defs delta_defs Test_MakeStepBB sq_file_def sq_rank_def)
qed (simp_all add: pt_CanPromote_def piece_type_defs sq_InPromotionZone_def rank_InPromotionZone_def sq_rank_def)

subsection \<open>Squares between and lines\<close>

lemma between_walk_eval:
  "distinct R \<Longrightarrow> between_walk R tab t =
    (if t \<in> set R then fold (\<lambda>q b. bb_Set b q) (takeWhile (\<lambda>x. x \<noteq> t) R) bb_Zero else tab t)"
proof -
  have "distinct R \<Longrightarrow> snd (fold (\<lambda>s2 (acc, tab). (bb_Set acc s2, tab(s2 := acc))) R (acc, tab)) t =
    (if t \<in> set R then fold (\<lambda>q b. bb_Set b q) (takeWhile (\<lambda>x. x \<noteq> t) R) acc else tab t)" for acc tab
    by (induction R arbitrary: acc tab) auto
  then show "distinct R \<Longrightarrow> ?thesis" by (simp add: between_walk_def)
qed

lemma unit_dir_unique:
  assumes "unit_dir d" "unit_dir e" "steps_to s d j t" "steps_to s e k t" "1 \<le> j" "1 \<le> k"
  shows "d = e"
proof -
  have e: "int j * fst d = int k * fst e" "int j * snd d = int k * snd e"
    using assms(3,4) by (simp_all add: steps_to_def)
  have r: "int j * x = int k * y \<Longrightarrow> x \<in> {-1,0,1} \<Longrightarrow> y \<in> {-1,0,1} \<Longrightarrow> x = y" for x y :: int
    using assms(5,6) by auto
  have "fst d = fst e" "snd d = snd e"
    using r e unit_dir_bounds [of "fst d" "snd d"] unit_dir_bounds [of "fst e" "snd e"] assms(1,2) by auto
  then show ?thesis by (rule prod_eqI)
qed

lemma ray_from_unique:
  assumes "s < 81" "unit_dir d" "unit_dir e" "t \<in> set (ray_from s d)" "t \<in> set (ray_from s e)"
  shows "d = e"
  using assms set_ray_from [OF assms(1,2)] set_ray_from [OF assms(1,3)] unit_dir_unique by blast

lemma distinct_ray_from: "s < 81 \<Longrightarrow> unit_dir d \<Longrightarrow> distinct (ray_from s d)"
proof -
  assume s: "s < 81" and d: "unit_dir d"
  show ?thesis
    unfolding distinct_conv_nth using ray_from_nth(2) steps_to_inj [OF d] by fastforce
qed

lemma fold_unchanged:
  "(\<And>d tab. d \<in> set ds \<Longrightarrow> g d tab t = tab t) \<Longrightarrow> fold g ds tab t = tab t"
  by (induction ds arbitrary: tab) simp_all

lemma fold_ray_tables:
  assumes s: "s < 81" "unit_dir d" "t \<in> set (ray_from s d)"
    and other: "\<And>d tab. d \<in> set dirs \<Longrightarrow> t \<notin> set (ray_from s d) \<Longrightarrow> g d tab t = tab t"
    and own: "\<And>tab. g d tab t = h"
  shows "fold g dirs tab t = h"
proof -
  have "d \<in> set dirs" using s(2) by (simp add: set_dirs)
  then obtain xs ys where split: "dirs = xs @ d # ys" by (blast dest: split_list)
  have "distinct dirs" by (simp add: dirs_def)
  then have "d \<notin> set ys" by (simp add: split)
  then have "e \<noteq> d \<and> unit_dir e" if "e \<in> set ys" for e
    using that set_dirs by (auto simp: split)
  then have "t \<notin> set (ray_from s e)" if "e \<in> set ys" for e
    using ray_from_unique [OF s(1) _ s(2) _ s(3)] that by blast
  moreover have "e \<in> set dirs" if "e \<in> set ys" for e using that by (simp add: split)
  ultimately have "fold g ys tab' t = tab' t" for tab' by (intro fold_unchanged other) blast+
  then show ?thesis by (simp add: split own)
qed

lemma steps_to_ray_from:
  assumes "s < 81" "unit_dir d" "t < 81" "1 \<le> k" "steps_to s d k t"
  shows "t \<in> set (ray_from s d)"
  using assms by (auto simp: set_ray_from)

lemma takeWhile_nth_distinct:
  "distinct R \<Longrightarrow> i < length R \<Longrightarrow> takeWhile (\<lambda>x. x \<noteq> R ! i) R = take i R"
  by (rule takeWhile_eq_take_P_nth) (auto simp: nth_eq_iff_index_eq)

lemma BetweenBB_on_ray:
  assumes "s < 81" "unit_dir d" "t < 81" "u < 81" "1 \<le> k" "steps_to s d k t"
  shows "bb_Test (BetweenBB s t) u \<longleftrightarrow> (\<exists>j. 1 \<le> j \<and> j < k \<and> steps_to s d j u)"
proof -
  let ?R = "ray_from s d"
  have idx: "k - 1 < length ?R" "?R ! (k - 1) = t"
    using ray_from_index [OF assms(1-3), of "k - 1"] assms(5,6) by simp_all
  then have tin: "t \<in> set ?R" using nth_mem by blast
  have eval: "e \<in> set dirs \<Longrightarrow> between_walk (ray_from s e) tab t =
    (if t \<in> set (ray_from s e) then fold (\<lambda>q b. bb_Set b q) (takeWhile (\<lambda>x. x \<noteq> t) (ray_from s e)) bb_Zero
     else tab t)" for e tab
    by (intro between_walk_eval distinct_ray_from assms(1)) (simp add: set_dirs)
  have "BetweenBB s t = fold (\<lambda>q b. bb_Set b q) (takeWhile (\<lambda>x. x \<noteq> t) ?R) bb_Zero"
    unfolding BetweenBB_def
  proof (rule fold_ray_tables [OF assms(1,2) tin])
    fix e tab assume e: "e \<in> set dirs" "t \<notin> set (ray_from s e)"
    then show "between_walk (ray_from s e) tab t = tab t" using eval by simp
  next
    fix tab
    show "between_walk ?R tab t = fold (\<lambda>q b. bb_Set b q) (takeWhile (\<lambda>x. x \<noteq> t) ?R) bb_Zero"
      using eval [of d tab] tin assms(2) by (simp add: set_dirs)
  qed
  moreover have "takeWhile (\<lambda>x. x \<noteq> t) ?R = take (k - 1) ?R"
    using takeWhile_nth_distinct [OF distinct_ray_from [OF assms(1,2)] idx(1)] idx(2) by simp
  moreover have "x < 81" if "x \<in> set (take (k - 1) ?R)" for x
    using in_set_takeD [OF that] by simp
  ultimately have "bb_Test (BetweenBB s t) u \<longleftrightarrow> u \<in> set (take (k - 1) ?R)"
    using Test_fold_Set [of "take (k - 1) ?R" "\<lambda>x. x" u bb_Zero] assms(4) by simp
  also have "\<dots> \<longleftrightarrow> (\<exists>i<k - 1. ?R ! i = u)" using idx(1) by (auto simp: in_set_conv_nth)
  also have "\<dots> \<longleftrightarrow> (\<exists>j. 1 \<le> j \<and> j < k \<and> steps_to s d j u)"
  proof
    assume "\<exists>i<k - 1. ?R ! i = u"
    then obtain i where i: "i < k - 1" "?R ! i = u" by blast
    then have "steps_to s d (Suc i) u" using ray_from_nth(2) [of i s d] idx(1) by simp
    with i show "\<exists>j. 1 \<le> j \<and> j < k \<and> steps_to s d j u" by (intro exI [of _ "Suc i"]) simp
  next
    assume "\<exists>j. 1 \<le> j \<and> j < k \<and> steps_to s d j u"
    then obtain j where j: "1 \<le> j" "j < k" "steps_to s d j u" by blast
    then show "\<exists>i<k - 1. ?R ! i = u"
      using ray_from_index [OF assms(1,2,4), of "j - 1"] by (intro exI [of _ "j - 1"]) simp
  qed
  finally show ?thesis .
qed

lemma BetweenBB_off_ray:
  assumes "s < 81" "\<And>d. unit_dir d \<Longrightarrow> t \<notin> set (ray_from s d)"
  shows "BetweenBB s t = bb_Zero"
proof -
  have "between_walk (ray_from s d) tab t = tab t" if "d \<in> set dirs" for d tab
    using that assms by (simp add: between_walk_eval distinct_ray_from set_dirs)
  then show ?thesis unfolding BetweenBB_def by (subst fold_unchanged) auto
qed

lemma LineBB_on_ray:
  assumes "s < 81" "unit_dir d" "t \<in> set (ray_from s d)"
  shows "LineBB s t = full_line s d"
proof -
  have eval: "fold (\<lambda>s2 tab. tab(s2 := b)) R tab t = (if t \<in> set R then b else tab t)" for R tab and b :: bitboard
    by (induction R arbitrary: tab) auto
  show ?thesis
    unfolding LineBB_def by (rule fold_ray_tables [OF assms]) (simp_all add: eval assms(3))
qed

lemma LineBB_off_ray:
  assumes "s < 81" "\<And>d. unit_dir d \<Longrightarrow> t \<notin> set (ray_from s d)"
  shows "LineBB s t = bb_Zero"
proof -
  have eval: "fold (\<lambda>s2 tab. tab(s2 := b)) R tab t = (if t \<in> set R then b else tab t)" for R tab and b :: bitboard
    by (induction R arbitrary: tab) auto
  show ?thesis unfolding LineBB_def using assms by (subst fold_unchanged) (auto simp: eval set_dirs)
qed

lemma Test_full_line:
  assumes "s < 81" "unit_dir d" "u < 81"
  shows "bb_Test (full_line s d) u \<longleftrightarrow> u = s \<or> u \<in> set (ray_from s d) \<or> u \<in> set (ray_from s (neg_dir d))"
  using assms by (auto simp: full_line_def Test_Set Test_Or Test_MakeRayBB neg_dir_def)

text \<open>\<open>BetweenBB\<close> holds exactly the squares strictly between two aligned squares and is empty
  for squares not aligned, and \<open>LineBB\<close> holds the whole line through them.\<close>

theorem between_line_correct:
  assumes "s < 81" "t < 81" "u < 81" "unit_dir d" "1 \<le> k" "steps_to s d k t"
  shows "(bb_Test (BetweenBB s t) u \<longleftrightarrow> (\<exists>j. 1 \<le> j \<and> j < k \<and> steps_to s d j u)) \<and>
    (bb_Test (LineBB s t) u \<longleftrightarrow>
       (\<exists>j. steps_to s d j u \<or> steps_to s (neg_dir d) j u))"
proof -
  have zero: "steps_to s e 0 u \<longleftrightarrow> u = s" for e using assms(1,3) by (auto simp: steps_to_def square_eq_iff)
  have split: "(\<exists>j. steps_to s e j u) \<longleftrightarrow> u = s \<or> u \<in> set (ray_from s e)" if "unit_dir e" for e
    using set_ray_from [OF assms(1) that, of u] assms(3) zero [of e]
    by (metis One_nat_def Suc_leI bot_nat_0.not_eq_extremum)
  show ?thesis
    using BetweenBB_on_ray [OF assms(1,4,2,3,5,6)] LineBB_on_ray [OF assms(1,4)]
      steps_to_ray_from [OF assms(1,4,2,5,6)] Test_full_line [OF assms(1,4,3)] split [of d] split [of "neg_dir d"]
      assms(4) by auto
qed

theorem between_line_correct_witness:
  "bb_Test (BetweenBB 40 44) 42 \<and> \<not> bb_Test (BetweenBB 40 44) 44 \<and> bb_Test (LineBB 40 44) 36"
proof -
  have st: "steps_to 40 (0, 1) 4 44" "unit_dir (0, 1)" "steps_to 40 (0, 1) 2 42" "steps_to 40 (neg_dir (0, 1)) 4 36"
    by (simp_all add: steps_to_def unit_dir_def sq_file_def sq_rank_def neg_dir_def)
  have "\<not> (\<exists>j. 1 \<le> j \<and> j < 4 \<and> steps_to 40 (0, 1) j 44)"
    by (auto simp: steps_to_def sq_rank_def)
  moreover have "\<exists>j. 1 \<le> j \<and> j < 4 \<and> steps_to 40 (0, 1) j 42"
    using st(3) by (intro exI [of _ 2]) simp
  ultimately show ?thesis
    using between_line_correct [of 40 44 42 "(0, 1)" 4] between_line_correct [of 40 44 44 "(0, 1)" 4]
      between_line_correct [of 40 44 36 "(0, 1)" 4] st by auto
qed

end
