(* ===== verification/Moves.thy ===== *)
theory Moves
  imports ShogiTypes
begin

text \<open>
  The 16-bit move of shogi/types.h: bits 0-6 the target square, bits 7-13 the source
  square or the dropped piece type, bit 14 the drop flag, bit 15 the promotion flag.
  The lemmas show that the accessors invert the constructors, that the perspective
  flip is an involution on board moves and drops, and that the USI text form parses
  back to the move it was printed from.
\<close>

type_synonym move = u16

definition kDropFlag :: u16 where "kDropFlag = push_bit 14 1"
definition kPromoteFlag :: u16 where "kPromoteFlag = push_bit 15 1"
definition kFlagMask :: u16 where "kFlagMask = kDropFlag OR kPromoteFlag"

definition move_Null :: move where
  "move_Null = 0"

definition move_Normal :: "square \<Rightarrow> square \<Rightarrow> move" where
  "move_Normal f t = of_nat (t OR push_bit 7 f)"

definition move_Promotion :: "square \<Rightarrow> square \<Rightarrow> move" where
  "move_Promotion f t = of_nat (t OR push_bit 7 f) OR kPromoteFlag"

definition move_Drop :: "piece_type \<Rightarrow> square \<Rightarrow> move" where
  "move_Drop pt t = of_nat (t OR push_bit 7 pt) OR kDropFlag"

definition move_to :: "move \<Rightarrow> square" where
  "move_to m = unat (m AND 0x7F)"

definition move_from :: "move \<Rightarrow> square" where
  "move_from m = unat (drop_bit 7 m AND 0x7F)"

definition move_is_drop :: "move \<Rightarrow> bool" where
  "move_is_drop m \<longleftrightarrow> m AND kDropFlag \<noteq> 0"

definition move_is_promotion :: "move \<Rightarrow> bool" where
  "move_is_promotion m \<longleftrightarrow> m AND kPromoteFlag \<noteq> 0"

definition move_is_null :: "move \<Rightarrow> bool" where
  "move_is_null m \<longleftrightarrow> m = 0"

definition move_drop_piece :: "move \<Rightarrow> piece_type" where
  "move_drop_piece m = unat (drop_bit 7 m AND 0x7F)"

definition move_Flip :: "move \<Rightarrow> move" where
  "move_Flip m =
     (if \<not> move_is_drop m then
        let f = nat ((80 - int (unat (drop_bit 7 m AND 0x7F))) mod 256);
            t = nat ((80 - int (unat (m AND 0x7F))) mod 256)
        in (m AND kFlagMask) OR of_nat t OR of_nat (push_bit 7 f)
      else
        let t = nat ((80 - int (unat (m AND 0x7F))) mod 256)
        in (m AND NOT 0x7F) OR of_nat t)"

definition move_ToString :: "move \<Rightarrow> string" where
  "move_ToString m =
     (if move_is_null m then ''0000''
      else if move_is_drop m then
        [pt_ToChar (move_drop_piece m)] @ ''*'' @ sq_ToString (move_to m)
      else sq_ToString (move_from m) @ sq_ToString (move_to m) @
           (if move_is_promotion m then ''+'' else ''''))"

definition move_Parse :: "string \<Rightarrow> move" where
  "move_Parse usi =
     (if length usi < 4 then move_Null
      else if usi ! 1 = CHR ''*'' then
        move_Drop (pt_Parse (usi ! 0)) (sq_Parse (usi ! 2) (usi ! 3))
      else
        let f = sq_Parse (usi ! 0) (usi ! 1); t = sq_Parse (usi ! 2) (usi ! 3)
        in if length usi \<ge> 5 \<and> usi ! 4 = CHR ''+'' then move_Promotion f t
           else move_Normal f t)"

subsection \<open>Accessors invert constructors\<close>

lemma nat_or_push7: "t < 128 \<Longrightarrow> (t::nat) OR push_bit 7 f = t + 128 * f"
proof -
  assume "t < 128"
  then have "take_bit 7 t = t" by (simp add: take_bit_nat_eq_self_iff)
  then have nb: "\<not> bit t n" if "n \<ge> 7" for n
    using that by (metis bit_take_bit_iff not_le)
  have "t AND push_bit 7 f = 0"
    by (rule bit_eqI) (use nb in \<open>auto simp: bit_and_iff bit_push_bit_iff\<close>)
  then have "t OR push_bit 7 f = t + push_bit 7 f" by (simp add: disjunctive_add_eq_or)
  then show ?thesis by (simp add: push_bit_eq_mult)
qed

lemma unat_move_body:
  assumes "f < 128" "t < 128"
  shows "unat (of_nat (t OR push_bit 7 f) :: u16) = t + 128 * f"
  unfolding nat_or_push7 [OF assms(2)] unsigned_of_nat
  using assms by (simp add: take_bit_nat_eq_self_iff del: of_nat_add)

lemma bit_u16_unat: "bit (m :: u16) n \<longleftrightarrow> odd (unat m div 2 ^ n)"
proof -
  have "bit (unat m) n = bit m n" by (simp add: bit_unsigned_iff)
  then show ?thesis by (simp add: bit_iff_odd)
qed

lemma unat_or_flag:
  fixes m :: u16
  assumes "n < 16" "\<not> bit m n"
  shows "unat (m OR push_bit n 1) = unat m + 2 ^ n"
proof -
  have "m AND push_bit n 1 = 0"
    using assms(2) by (auto simp: and_single_bit_nonzero [symmetric])
  then have "unat (m OR push_bit n 1) = unat m OR unat (push_bit n 1 :: u16)"
    by (simp add: unsigned_or_eq)
  moreover have "unat (push_bit n 1 :: u16) = push_bit n 1"
    by (rule bit_eqI) (use assms(1) in \<open>auto simp: bit_unsigned_iff bit_exp_iff\<close>)
  moreover have "unat m AND push_bit n 1 = 0"
    using assms by (intro bit_eqI) (auto simp: bit_simps)
  ultimately show ?thesis by (simp add: disjunctive_add_eq_or [symmetric] push_bit_eq_mult)
qed

lemma unat_move_Normal: "f < 128 \<Longrightarrow> t < 128 \<Longrightarrow> unat (move_Normal f t) = t + 128 * f"
  by (simp only: move_Normal_def unat_move_body)

lemma not_bit_body:
  assumes "f < 128" "t < 128" "n \<ge> 14"
  shows "\<not> bit (of_nat (t OR push_bit 7 f) :: u16) n"
proof -
  have "t + 128 * f < 2 ^ 14" using assms by simp
  also have "(2::nat) ^ 14 \<le> 2 ^ n" using assms(3) by (intro power_increasing) simp_all
  finally show ?thesis by (simp only: bit_u16_unat unat_move_body assms) simp
qed

lemma unat_move_Promotion:
  "f < 128 \<Longrightarrow> t < 128 \<Longrightarrow> unat (move_Promotion f t) = t + 128 * f + 2 ^ 15"
  unfolding move_Promotion_def kPromoteFlag_def
  by (subst unat_or_flag) (simp_all only: not_bit_body unat_move_body, simp_all)

lemma unat_move_Drop:
  "p < 128 \<Longrightarrow> t < 128 \<Longrightarrow> unat (move_Drop p t) = t + 128 * p + 2 ^ 14"
  unfolding move_Drop_def kDropFlag_def
  by (subst unat_or_flag) (simp_all only: not_bit_body unat_move_body, simp_all)

lemma move_field_arith:
  "move_to m = unat m mod 128" "move_from m = unat m div 128 mod 128"
  "move_drop_piece m = unat m div 128 mod 128"
  "move_is_drop m \<longleftrightarrow> odd (unat m div 2 ^ 14)"
  "move_is_promotion m \<longleftrightarrow> odd (unat m div 2 ^ 15)"
proof -
  have mask7: "(0x7F :: u16) = mask 7" by (simp add: mask_eq_exp_minus_1)
  have fld: "unat (w AND 0x7F) = unat w mod 128" for w :: u16
    unfolding mask7 take_bit_eq_mask [symmetric] unsigned_take_bit_eq
    by (simp only: take_bit_eq_mod) simp
  have d: "unat (drop_bit 7 w) = unat w div 128" for w :: u16
    unfolding unat_drop_bit_eq by (simp only: drop_bit_eq_div) simp
  show "move_to m = unat m mod 128" "move_from m = unat m div 128 mod 128"
    "move_drop_piece m = unat m div 128 mod 128"
    unfolding move_to_def move_from_def move_drop_piece_def fld d by (rule refl)+
  show "move_is_drop m \<longleftrightarrow> odd (unat m div 2 ^ 14)"
    "move_is_promotion m \<longleftrightarrow> odd (unat m div 2 ^ 15)"
    unfolding move_is_drop_def move_is_promotion_def kDropFlag_def kPromoteFlag_def
      and_single_bit_nonzero by (rule bit_u16_unat)+
qed

lemma mod_add_multiples: "f < 128 \<Longrightarrow> (f + 256) mod 128 = (f::nat)" "f < 128 \<Longrightarrow> (f + 128) mod 128 = (f::nat)"
  using mod_mult_self2 [of f 128 2] by simp_all

lemma body_less: "p < 128 \<Longrightarrow> t < 128 \<Longrightarrow> (t::nat) + 128 * p < 16384"
  by simp

lemma flag_div:
  fixes x :: nat
  assumes "x < 16384"
  shows "(x + 16384) div 16384 = 1" "(x + 32768) div 16384 = 2" "(x + 32768) div 32768 = 1"
  using assms by (auto intro!: div_nat_eqI)

lemma div_mod_body: "t < 128 \<Longrightarrow> (t + 128 * f) mod 128 = (t::nat) \<and> (t + 128 * f) div 128 = f"
  by simp

lemma move_Normal_fields [simp]:
  assumes "f < 128" "t < 128"
  shows "move_to (move_Normal f t) = t" "move_from (move_Normal f t) = f"
    "\<not> move_is_drop (move_Normal f t)" "\<not> move_is_promotion (move_Normal f t)"
  using assms by (simp_all add: move_field_arith unat_move_Normal)

lemma move_Promotion_fields [simp]:
  assumes "f < 128" "t < 128"
  shows "move_to (move_Promotion f t) = t" "move_from (move_Promotion f t) = f"
    "\<not> move_is_drop (move_Promotion f t)" "move_is_promotion (move_Promotion f t)"
proof -
  have e: "t + 128 * f + 2 ^ 15 = t + 128 * (f + 256)" by simp
  show "move_to (move_Promotion f t) = t" "move_from (move_Promotion f t) = f"
    using assms by (simp_all only: move_field_arith unat_move_Promotion e div_mod_body
        mod_add_multiples)
  show "\<not> move_is_drop (move_Promotion f t)" "move_is_promotion (move_Promotion f t)"
    using assms flag_div [OF body_less [of f t]] by (simp_all add: move_field_arith unat_move_Promotion)
qed

lemma move_Drop_fields [simp]:
  assumes "p < 128" "t < 128"
  shows "move_to (move_Drop p t) = t" "move_drop_piece (move_Drop p t) = p"
    "move_is_drop (move_Drop p t)" "\<not> move_is_promotion (move_Drop p t)"
proof -
  have e: "t + 128 * p + 2 ^ 14 = t + 128 * (p + 128)" by simp
  show "move_to (move_Drop p t) = t" "move_drop_piece (move_Drop p t) = p"
    using assms by (simp_all only: move_field_arith unat_move_Drop e div_mod_body
        mod_add_multiples)
  show "move_is_drop (move_Drop p t)" "\<not> move_is_promotion (move_Drop p t)"
    using assms flag_div [OF body_less [of p t]] by (simp_all add: move_field_arith unat_move_Drop)
qed

lemma move_eqI_unat: "unat m = unat n \<Longrightarrow> m = (n :: move)"
  by (simp add: word_unat_eq_iff)

subsection \<open>Perspective flip\<close>

lemma bit_u16_less: "bit (m :: u16) n \<Longrightarrow> n < 16"
  using bit_imp_le_length [of m n] by simp

lemma and_flags_Normal: "f < 128 \<Longrightarrow> t < 128 \<Longrightarrow> move_Normal f t AND kFlagMask = 0"
  using move_Normal_fields(3,4) [of f t]
  by (simp add: kFlagMask_def bit.conj_disj_distrib move_is_drop_def move_is_promotion_def)

lemma and_flags_Promotion:
  assumes "f < 128" "t < 128"
  shows "move_Promotion f t AND kFlagMask = kPromoteFlag"
proof -
  let ?b = "of_nat (t OR push_bit 7 f) :: u16"
  have "?b AND kFlagMask = 0"
    using and_flags_Normal [OF assms] by (simp add: move_Normal_def)
  moreover have "kPromoteFlag AND kFlagMask = kPromoteFlag"
    by (simp add: kFlagMask_def kPromoteFlag_def kDropFlag_def)
  ultimately show ?thesis
    by (simp add: move_Promotion_def bit.conj_disj_distrib2)
qed

lemma move_Flip_Normal:
  assumes "f < 81" "t < 81"
  shows "move_Flip (move_Normal f t) = move_Normal (80 - f) (80 - t)"
proof -
  have f: "unat (drop_bit 7 (move_Normal f t) AND 0x7F) = f"
    using move_Normal_fields(2) [of f t] assms by (simp add: move_from_def)
  have t: "unat (move_Normal f t AND 0x7F) = t"
    using move_Normal_fields(1) [of f t] assms by (simp add: move_to_def)
  have "of_nat (80 - t) OR of_nat (push_bit 7 (80 - f)) = (of_nat ((80 - t) OR push_bit 7 (80 - f)) :: u16)"
    by (rule word_eq_bits_less) (simp add: bit_simps)
  moreover have "nat ((80 - int f) mod 256) = 80 - f" "nat ((80 - int t) mod 256) = 80 - t"
    using assms by simp_all
  ultimately show ?thesis
    using assms unfolding move_Flip_def f t
    by (simp add: and_flags_Normal move_Normal_def [of "80 - f" "80 - t"])
qed

lemma bit_kDropFlag: "bit kDropFlag n \<longleftrightarrow> n = 14"
  unfolding kDropFlag_def bit_single_word by auto

lemma of_nat_or_u16: "(of_nat a :: u16) OR of_nat b = of_nat (a OR b)"
  by (rule word_eq_bits_less) (simp add: bit_simps)

lemma move_Flip_Promotion:
  assumes "f < 81" "t < 81"
  shows "move_Flip (move_Promotion f t) = move_Promotion (80 - f) (80 - t)"
proof -
  have f: "unat (drop_bit 7 (move_Promotion f t) AND 0x7F) = f"
    using move_Promotion_fields(2) [of f t] assms by (simp add: move_from_def)
  have t: "unat (move_Promotion f t AND 0x7F) = t"
    using move_Promotion_fields(1) [of f t] assms by (simp add: move_to_def)
  have c: "nat ((80 - int f) mod 256) = 80 - f" "nat ((80 - int t) mod 256) = 80 - t"
    using assms by simp_all
  have nd: "\<not> move_is_drop (move_Promotion f t)" using assms by simp
  have mf: "move_Promotion f t AND kFlagMask = kPromoteFlag"
    using assms by (simp add: and_flags_Promotion)
  show ?thesis
    unfolding move_Flip_def Let_def f t c mf if_P [OF nd] or.assoc of_nat_or_u16
    by (simp only: move_Promotion_def or.commute)
qed

lemma move_Flip_Drop:
  assumes "p < 128" "t < 81"
  shows "move_Flip (move_Drop p t) = move_Drop p (80 - t)"
proof -
  have t: "unat (move_Drop p t AND 0x7F) = t"
    using move_Drop_fields(1) [of p t] assms by (simp add: move_to_def)
  have c: "nat ((80 - int t) mod 256) = 80 - t"
    using assms by simp
  have d: "move_is_drop (move_Drop p t)" using assms by simp
  have mask7: "(0x7F :: u16) = mask 7" by (simp add: mask_eq_exp_minus_1)
  have tb: "\<not> bit t n" if "n \<ge> 7" for n
    using assms(2) that by (intro nat_bit_bound [of t 7]) simp_all
  have body: "move_Drop p t AND NOT 0x7F = of_nat (push_bit 7 p) OR kDropFlag"
    unfolding move_Drop_def mask7
    by (rule word_eq_bits_less) (use tb in \<open>auto simp: bit_simps bit_kDropFlag\<close>)
  show ?thesis
    unfolding move_Flip_def Let_def t c body move_Drop_def [of p "80 - t"]
    using d by (simp add: or.assoc or.commute or.left_commute flip: of_nat_or_u16)
qed

subsection \<open>Well-formed moves\<close>

text \<open>The moves the generators build: both squares on the board, a dropped piece that
  can be held in hand, never both flags, and not the null move.\<close>

definition move_wf :: "move \<Rightarrow> bool" where
  "move_wf m \<longleftrightarrow> m \<noteq> 0 \<and> move_to m < 81 \<and>
     (if move_is_drop m then pt_IsHandPiece (move_drop_piece m) \<and> \<not> move_is_promotion m
      else move_from m < 81)"

lemma unat_move_split:
  "unat (m :: move) = unat m mod 128 + 128 * (unat m div 128 mod 128)
     + 16384 * (unat m div 16384 mod 2) + 32768 * (unat m div 32768 mod 2)"
proof -
  have lt: "unat m < 65536" using unsigned_less [of m] by simp
  have "unat m div 32768 < 2" using lt by simp
  then have a: "unat m div 32768 mod 2 = unat m div 32768" by simp
  have b: "unat m div 16384 = unat m div 16384 mod 2 + 2 * (unat m div 32768)"
    using div_mult_mod_eq [of "unat m div 16384" 2] div_mult2_eq [of "unat m" 16384 2] by simp
  have c: "unat m div 128 = unat m div 128 mod 128 + 128 * (unat m div 16384)"
    using div_mult_mod_eq [of "unat m div 128" 128] div_mult2_eq [of "unat m" 128 128] by simp
  have d: "unat m = unat m mod 128 + 128 * (unat m div 128)" by simp
  from a b c d show ?thesis by linarith
qed

lemma move_wf_cases:
  assumes "move_wf m"
  obtains (Normal) "move_from m < 81" "move_to m < 81" "m = move_Normal (move_from m) (move_to m)"
      "\<not> move_is_drop m" "\<not> move_is_promotion m"
  | (Promotion) "move_from m < 81" "move_to m < 81"
      "m = move_Promotion (move_from m) (move_to m)" "\<not> move_is_drop m" "move_is_promotion m"
  | (Drop) "1 \<le> move_drop_piece m" "move_drop_piece m \<le> 7" "move_to m < 81"
      "m = move_Drop (move_drop_piece m) (move_to m)" "move_is_drop m" "\<not> move_is_promotion m"
proof (cases "move_is_drop m")
  case True
  then have "m = move_Drop (move_drop_piece m) (move_to m)"
    using assms unat_move_split [of m]
    by (intro move_eqI_unat, subst unat_move_Drop)
      (simp_all add: move_wf_def pt_IsHandPiece_def move_field_arith odd_iff_mod_2_eq_one)
  then show thesis using True assms Drop by (simp add: move_wf_def pt_IsHandPiece_def)
next
  case False
  show thesis
  proof (cases "move_is_promotion m")
    case True
    then have "m = move_Promotion (move_from m) (move_to m)"
      using assms False unat_move_split [of m]
      by (intro move_eqI_unat, subst unat_move_Promotion)
        (simp_all add: move_wf_def move_field_arith odd_iff_mod_2_eq_one)
    then show thesis using True False assms Promotion by (simp add: move_wf_def)
  next
    case nopromo: False
    then have "m = move_Normal (move_from m) (move_to m)"
      using assms False unat_move_split [of m]
      by (intro move_eqI_unat, subst unat_move_Normal)
        (simp_all add: move_wf_def move_field_arith odd_iff_mod_2_eq_one)
    then show thesis using nopromo False assms Normal by (simp add: move_wf_def)
  qed
qed

lemma move_wf_intros [intro, simp]:
  "f < 81 \<Longrightarrow> t < 81 \<Longrightarrow> 0 < t + f \<Longrightarrow> move_wf (move_Normal f t)"
  "f < 81 \<Longrightarrow> t < 81 \<Longrightarrow> move_wf (move_Promotion f t)"
  "pt_IsHandPiece p \<Longrightarrow> t < 81 \<Longrightarrow> move_wf (move_Drop p t)"
proof -
  show "move_wf (move_Normal f t)" if "f < 81" "t < 81" "0 < t + f"
    using that unat_move_Normal [of f t] by (auto simp: move_wf_def)
  show "move_wf (move_Promotion f t)" if "f < 81" "t < 81"
    using that unat_move_Promotion [of f t] by (auto simp: move_wf_def)
  show "move_wf (move_Drop p t)" if "pt_IsHandPiece p" "t < 81"
    using that unat_move_Drop [of p t] by (auto simp: move_wf_def pt_IsHandPiece_def)
qed

text \<open>Rotating the perspective twice gives a well-formed move back, whichever of the
  three forms (plain move, promotion, drop) it has.\<close>

theorem move_Flip_involutive:
  assumes "move_wf m"
  shows "move_Flip (move_Flip m) = m"
  using assms
proof (cases rule: move_wf_cases)
  case Normal
  then show ?thesis
    using move_Flip_Normal [of "move_from m" "move_to m"]
      move_Flip_Normal [of "80 - move_from m" "80 - move_to m"] by simp
next
  case Promotion
  then show ?thesis
    using move_Flip_Promotion [of "move_from m" "move_to m"]
      move_Flip_Promotion [of "80 - move_from m" "80 - move_to m"] by simp
next
  case Drop
  then show ?thesis
    using move_Flip_Drop [of "move_drop_piece m" "move_to m"]
      move_Flip_Drop [of "move_drop_piece m" "80 - move_to m"] by simp
qed

theorem move_Flip_involutive_witness:
  "move_wf (move_Promotion 70 16) \<and>
   move_Flip (move_Flip (move_Promotion 70 16)) = move_Promotion 70 16"
proof -
  have wf: "move_wf (move_Promotion 70 16)" by simp
  show ?thesis by (intro conjI wf move_Flip_involutive)
qed

subsection \<open>USI text form\<close>

lemma file_char_not_star:
  fixes f :: nat
  assumes "f < 9"
  shows "char_of ((97 + f) mod 256) \<noteq> CHR ''*''"
proof
  assume "char_of ((97 + f) mod 256) = CHR ''*''"
  then have "of_char (char_of ((97 + f) mod 256)) = (of_char (CHR ''*'') :: nat)" by simp
  then show False using assms by simp
qed

lemma sq_ToString_list: "sq_ToString s = [sq_ToString s ! 0, sq_ToString s ! 1]"
  by (simp add: sq_ToString_def file_ToString_def rank_ToString_def)

lemma sq_ToString_snd_not_star: "sq_ToString s ! Suc 0 \<noteq> CHR ''*''"
  using file_char_not_star [OF sq_rank_less, of s]
  by (simp add: sq_ToString_def file_ToString_def rank_ToString_def)

lemma move_Parse_board:
  assumes "f < 81" "t < 81"
  shows "move_Parse (sq_ToString f @ sq_ToString t) = move_Normal f t"
    and "move_Parse (sq_ToString f @ sq_ToString t @ ''+'') = move_Promotion f t"
proof -
  note p = sq_Parse_ToString [OF assms(1)] sq_Parse_ToString [OF assms(2)]
  show "move_Parse (sq_ToString f @ sq_ToString t) = move_Normal f t"
    using p sq_ToString_snd_not_star [of f]
    by (subst (1 2) sq_ToString_list) (simp add: move_Parse_def Let_def)
  show "move_Parse (sq_ToString f @ sq_ToString t @ ''+'') = move_Promotion f t"
    using p sq_ToString_snd_not_star [of f]
    by (subst (1 2) sq_ToString_list) (simp add: move_Parse_def Let_def)
qed

lemma move_Parse_drop:
  assumes "pt \<le> 8" "t < 81"
  shows "move_Parse ([pt_ToChar pt] @ ''*'' @ sq_ToString t) = move_Drop pt t"
  using sq_Parse_ToString [OF assms(2)] pt_Parse_ToChar [OF assms(1)]
  by (subst sq_ToString_list) (simp add: move_Parse_def)

text \<open>The USI text of a well-formed move parses back to the same move.\<close>

theorem move_Parse_ToString:
  assumes "move_wf m"
  shows "move_Parse (move_ToString m) = m"
proof -
  have nn: "\<not> move_is_null m" using assms by (simp add: move_wf_def move_is_null_def)
  from assms show ?thesis
  proof (cases rule: move_wf_cases)
    case Normal
    then have "move_ToString m = sq_ToString (move_from m) @ sq_ToString (move_to m)"
      using nn by (simp add: move_ToString_def)
    with Normal show ?thesis using move_Parse_board(1) by simp
  next
    case Promotion
    then have "move_ToString m = sq_ToString (move_from m) @ sq_ToString (move_to m) @ ''+''"
      using nn by (simp add: move_ToString_def)
    with Promotion show ?thesis using move_Parse_board(2) by simp
  next
    case Drop
    then have "move_ToString m = [pt_ToChar (move_drop_piece m)] @ ''*'' @ sq_ToString (move_to m)"
      using nn by (simp add: move_ToString_def)
    with Drop show ?thesis using move_Parse_drop [of "move_drop_piece m" "move_to m"] by simp
  qed
qed

theorem move_Parse_ToString_witness:
  "move_wf (move_Drop 1 40) \<and> move_Parse (move_ToString (move_Drop 1 40)) = move_Drop 1 40"
proof -
  have wf: "move_wf (move_Drop 1 40)" by (simp add: pt_IsHandPiece_def)
  show ?thesis by (intro conjI wf move_Parse_ToString)
qed

end
