(* ===== verification/Hands.thy ===== *)
theory Hands
  imports ShogiTypes
begin

text \<open>
  The packed hand of shogi/types.h: one 32-bit word with a field of two to five bits per
  droppable piece type and at least one gap bit above each field.  A hand is described
  by its seven counts (\<open>hand_of\<close>); the lemmas give the effect of every operation on the
  counts, and the comparison \<open>Dominates\<close>, one subtraction and one mask in the code, is
  shown to be the pointwise comparison of the counts.
\<close>

type_synonym hand = u32

definition hand_kBits :: "nat list" where
  "hand_kBits = [0, 0, 8, 12, 16, 20, 24, 28, 0, 0, 0, 0, 0, 0, 0]"

definition hand_kMask :: "u32 list" where
  "hand_kMask = [0, 31, 7, 7, 7, 3, 3, 7, 0, 0, 0, 0, 0, 0, 0]"

definition hand_kMask2 :: "u32 list" where
  "hand_kMask2 =
     [0, push_bit 0 31, push_bit 8 7, push_bit 12 7, push_bit 16 7, push_bit 20 3,
      push_bit 24 3, push_bit 28 7, 0, 0, 0, 0, 0, 0, 0]"

definition hand_kOne :: "u32 list" where
  "hand_kOne =
     [0, push_bit 0 1, push_bit 8 1, push_bit 12 1, push_bit 16 1, push_bit 20 1,
      push_bit 24 1, push_bit 28 1, 0, 0, 0, 0, 0, 0, 0]"

definition hand_Empty :: hand where
  "hand_Empty = 0"

definition hand_Count :: "hand \<Rightarrow> piece_type \<Rightarrow> nat" where
  "hand_Count h pt = unat (drop_bit (hand_kBits ! pt) h AND hand_kMask ! pt)"

definition hand_Has :: "hand \<Rightarrow> piece_type \<Rightarrow> bool" where
  "hand_Has h pt \<longleftrightarrow> h AND hand_kMask2 ! pt \<noteq> 0"

definition hand_IsEmpty :: "hand \<Rightarrow> bool" where
  "hand_IsEmpty h \<longleftrightarrow> h = 0"

definition hand_Add :: "hand \<Rightarrow> piece_type \<Rightarrow> hand" where
  "hand_Add h pt = h + hand_kOne ! pt"

definition hand_Sub :: "hand \<Rightarrow> piece_type \<Rightarrow> hand" where
  "hand_Sub h pt = h - hand_kOne ! pt"

definition hand_kBorrowMask :: u32 where
  "hand_kBorrowMask = push_bit 5 1 OR push_bit 11 1 OR push_bit 15 1 OR push_bit 19 1 OR
     push_bit 22 1 OR push_bit 26 1 OR push_bit 31 1"

definition hand_Dominates :: "hand \<Rightarrow> hand \<Rightarrow> bool" where
  "hand_Dominates h other \<longleftrightarrow> (h - other) AND hand_kBorrowMask = 0"

subsection \<open>Hands as counts\<close>

text \<open>The largest count each field holds, and the word a family of counts is packed into.\<close>

definition hand_max :: "piece_type \<Rightarrow> nat" where
  "hand_max pt = [0, 31, 7, 7, 7, 3, 3, 7] ! pt"

definition counts_ok :: "(piece_type \<Rightarrow> nat) \<Rightarrow> bool" where
  "counts_ok c \<longleftrightarrow> c 1 \<le> 31 \<and> c 2 \<le> 7 \<and> c 3 \<le> 7 \<and> c 4 \<le> 7 \<and> c 5 \<le> 3 \<and> c 6 \<le> 3 \<and> c 7 \<le> 7"

definition counts_sum :: "(piece_type \<Rightarrow> nat) \<Rightarrow> nat" where
  "counts_sum c = c 1 + 256 * c 2 + 4096 * c 3 + 65536 * c 4 + 1048576 * c 5
     + 16777216 * c 6 + 268435456 * c 7"

definition hand_of :: "(piece_type \<Rightarrow> nat) \<Rightarrow> hand" where
  "hand_of c = of_nat (counts_sum c)"

definition hand_ok :: "hand \<Rightarrow> bool" where
  "hand_ok h \<longleftrightarrow> h = hand_of (hand_Count h)"

lemma hand_piece_cases:
  assumes "pt_IsHandPiece pt"
  obtains "pt = 1" | "pt = 2" | "pt = 3" | "pt = 4" | "pt = 5" | "pt = 6" | "pt = 7"
  using assms unfolding pt_IsHandPiece_def by (metis le_antisym le_SucE eval_nat_numeral numeral_nat One_nat_def)

lemma counts_sum_less: "counts_ok c \<Longrightarrow> counts_sum c < 2 ^ 32"
  by (simp add: counts_ok_def counts_sum_def)

lemma unat_hand_of: "counts_ok c \<Longrightarrow> unat (hand_of c) = counts_sum c"
  unfolding hand_of_def using counts_sum_less [of c]
  by (simp add: unsigned_of_nat take_bit_nat_eq_self_iff)

lemma unat_and_mask: "unat (drop_bit k (h::u32) AND mask w) = unat h div 2 ^ k mod 2 ^ w"
  unfolding take_bit_eq_mask [symmetric] unsigned_take_bit_eq unat_drop_bit_eq
  by (simp only: take_bit_eq_mod drop_bit_eq_div)

lemma hand_Count_arith:
  "hand_Count h 1 = unat h mod 32"
  "hand_Count h 2 = unat h div 256 mod 8"
  "hand_Count h 3 = unat h div 4096 mod 8"
  "hand_Count h 4 = unat h div 65536 mod 8"
  "hand_Count h 5 = unat h div 1048576 mod 4"
  "hand_Count h 6 = unat h div 16777216 mod 4"
  "hand_Count h 7 = unat h div 268435456 mod 8"
proof -
  have m: "(31::u32) = mask 5" "(7::u32) = mask 3" "(3::u32) = mask 2"
    by (simp_all add: mask_eq_exp_minus_1)
  show "hand_Count h 1 = unat h mod 32"
    using unat_and_mask [of 0 h 5] by (simp add: hand_Count_def hand_kBits_def hand_kMask_def m)
  show "hand_Count h 2 = unat h div 256 mod 8"
    using unat_and_mask [of 8 h 3] by (simp add: hand_Count_def hand_kBits_def hand_kMask_def m)
  show "hand_Count h 3 = unat h div 4096 mod 8"
    using unat_and_mask [of 12 h 3] by (simp add: hand_Count_def hand_kBits_def hand_kMask_def m)
  show "hand_Count h 4 = unat h div 65536 mod 8"
    using unat_and_mask [of 16 h 3] by (simp add: hand_Count_def hand_kBits_def hand_kMask_def m)
  show "hand_Count h 5 = unat h div 1048576 mod 4"
    using unat_and_mask [of 20 h 2] by (simp add: hand_Count_def hand_kBits_def hand_kMask_def m)
  show "hand_Count h 6 = unat h div 16777216 mod 4"
    using unat_and_mask [of 24 h 2] by (simp add: hand_Count_def hand_kBits_def hand_kMask_def m)
  show "hand_Count h 7 = unat h div 268435456 mod 8"
    using unat_and_mask [of 28 h 3] by (simp add: hand_Count_def hand_kBits_def hand_kMask_def m)
qed

lemma counts_ok_Count: "counts_ok (hand_Count h)"
  unfolding counts_ok_def hand_Count_arith
  by (intro conjI) (simp_all add: le_less_Suc_eq [symmetric] less_Suc_eq_le [symmetric])

lemma hand_Count_hand_of:
  assumes "counts_ok c" "pt_IsHandPiece pt"
  shows "hand_Count (hand_of c) pt = c pt"
proof -
  have div_low: "(a + k * b) div k = b \<and> (a + k * b) mod k = a" if "a < k" for a b k :: nat
    using that by simp
  define q6 q5 q4 q3 q2 where "q6 = c 6 + 16 * c 7" and "q5 = c 5 + 16 * q6"
    and "q4 = c 4 + 16 * q5" and "q3 = c 3 + 16 * q4" and "q2 = c 2 + 16 * q3"
  note q = q2_def q3_def q4_def q5_def q6_def
  let ?n = "counts_sum c"
  have e2: "?n = c 1 + 256 * q2" by (simp add: counts_sum_def q algebra_simps)
  have lt: "c 1 < 256" "c 2 < 16" "c 3 < 16" "c 4 < 16" "c 5 < 16" "c 6 < 16"
    using assms(1) by (simp_all add: counts_ok_def)
  have d2: "?n div 256 = q2" unfolding e2 using lt(1) by (rule div_low [THEN conjunct1])
  have d3: "?n div 4096 = q3"
    unfolding div_mult2_eq [of ?n 256 16, simplified] d2 q2_def
    using lt(2) by (rule div_low [THEN conjunct1])
  have d4: "?n div 65536 = q4"
    unfolding div_mult2_eq [of ?n 4096 16, simplified] d3 q3_def
    using lt(3) by (rule div_low [THEN conjunct1])
  have d5: "?n div 1048576 = q5"
    unfolding div_mult2_eq [of ?n 65536 16, simplified] d4 q4_def
    using lt(4) by (rule div_low [THEN conjunct1])
  have d6: "?n div 16777216 = q6"
    unfolding div_mult2_eq [of ?n 1048576 16, simplified] d5 q5_def
    using lt(5) by (rule div_low [THEN conjunct1])
  have d7: "?n div 268435456 = c 7"
    unfolding div_mult2_eq [of ?n 16777216 16, simplified] d6 q6_def
    using lt(6) by (rule div_low [THEN conjunct1])
  have m16: "(a + 16 * b) mod 8 = a mod 8" "(a + 16 * b) mod 4 = a mod 4" for a b :: nat
    using mod_mult_self2 [of a 8 "2 * b"] mod_mult_self2 [of a 4 "4 * b"] by simp_all
  have m1: "?n mod 32 = c 1 mod 32"
    unfolding e2 using mod_mult_self2 [of "c 1" 32 "8 * q2"] by simp
  have m: "q2 mod 8 = c 2" "q3 mod 8 = c 3" "q4 mod 8 = c 4" "q5 mod 4 = c 5" "q6 mod 4 = c 6"
    unfolding q m16 using assms(1) by (simp_all add: counts_ok_def)
  note n = hand_Count_arith [of "hand_of c", unfolded unat_hand_of [OF assms(1)] d2 d3 d4 d5 d6 d7]
  show ?thesis
    using assms(2)
    by (cases rule: hand_piece_cases; use assms(1) in
      \<open>simp add: n [unfolded m1 m One_nat_def] counts_ok_def\<close>)
qed

lemma hand_ok_hand_of: "counts_ok c \<Longrightarrow> hand_ok (hand_of c)"
  using hand_Count_hand_of [of c]
  by (simp add: hand_ok_def hand_of_def counts_sum_def pt_IsHandPiece_def)

lemma hand_ok_cases:
  assumes "hand_ok h"
  obtains c where "counts_ok c" "h = hand_of c" "c = hand_Count h"
  using assms counts_ok_Count that unfolding hand_ok_def by blast

lemma hand_ok_Empty [simp]: "hand_ok hand_Empty"
  by (simp add: hand_ok_def hand_Empty_def hand_of_def counts_sum_def hand_Count_arith
      del: One_nat_def)

lemma hand_Count_Empty [simp]: "hand_Count hand_Empty pt = 0"
  by (simp add: hand_Count_def hand_Empty_def)

text \<open>The effect of adding and removing one piece, as long as the field has room for it.\<close>

lemma hand_Add_hand_of:
  assumes "pt_IsHandPiece pt"
  shows "hand_Add (hand_of c) pt = hand_of (c(pt := Suc (c pt)))"
  using assms
  by (cases rule: hand_piece_cases;
      simp add: hand_Add_def hand_of_def counts_sum_def hand_kOne_def algebra_simps)

lemma hand_Sub_hand_of:
  assumes "pt_IsHandPiece pt" "0 < c pt"
  shows "hand_Sub (hand_of c) pt = hand_of (c(pt := c pt - 1))"
proof -
  have "hand_Add (hand_of (c(pt := c pt - 1))) pt = hand_of c"
    using assms by (simp add: hand_Add_hand_of)
  then show ?thesis by (simp add: hand_Sub_def hand_Add_def flip: add_diff_eq)
    (metis add_diff_cancel_right')
qed

lemma hand_max_le: "pt_IsHandPiece pt \<Longrightarrow> counts_ok c \<Longrightarrow> c pt \<le> hand_max pt"
  by (erule hand_piece_cases) (simp_all add: counts_ok_def hand_max_def)

lemma counts_ok_upd:
  assumes "counts_ok c" "pt_IsHandPiece pt" "n \<le> hand_max pt"
  shows "counts_ok (c(pt := n))"
  using assms(2,1,3) by (cases rule: hand_piece_cases) (simp_all add: counts_ok_def hand_max_def)

lemma hand_Add_correct:
  assumes "hand_ok h" "pt_IsHandPiece pt" "hand_Count h pt < hand_max pt"
  shows "hand_ok (hand_Add h pt)"
    and "pt_IsHandPiece q \<Longrightarrow>
      hand_Count (hand_Add h pt) q = (if q = pt then Suc (hand_Count h pt) else hand_Count h q)"
proof -
  obtain c where c: "counts_ok c" "h = hand_of c" "c = hand_Count h"
    using assms(1) by (rule hand_ok_cases)
  let ?d = "c(pt := Suc (c pt))"
  have "Suc (c pt) \<le> hand_max pt" using assms(3) by (simp add: c(3))
  with c(1) assms(2) have ok: "counts_ok ?d" by (rule counts_ok_upd)
  have eq: "hand_Add h pt = hand_of ?d" using assms(2) c(2) by (simp add: hand_Add_hand_of)
  show "hand_ok (hand_Add h pt)" unfolding eq by (rule hand_ok_hand_of [OF ok])
  show "hand_Count (hand_Add h pt) q = (if q = pt then Suc (hand_Count h pt) else hand_Count h q)"
    if "pt_IsHandPiece q"
    unfolding eq hand_Count_hand_of [OF ok that] by (simp add: c(3))
qed

lemma hand_Sub_correct:
  assumes "hand_ok h" "pt_IsHandPiece pt" "0 < hand_Count h pt"
  shows "hand_ok (hand_Sub h pt)"
    and "pt_IsHandPiece q \<Longrightarrow>
      hand_Count (hand_Sub h pt) q = (if q = pt then hand_Count h pt - 1 else hand_Count h q)"
proof -
  obtain c where c: "counts_ok c" "h = hand_of c" "c = hand_Count h"
    using assms(1) by (rule hand_ok_cases)
  let ?d = "c(pt := c pt - 1)"
  have "c pt - 1 \<le> hand_max pt" using hand_max_le [OF assms(2) c(1)] by simp
  with c(1) assms(2) have ok: "counts_ok ?d" by (rule counts_ok_upd)
  have "0 < c pt" using assms(3) c(3) by simp
  then have eq: "hand_Sub h pt = hand_of ?d" using assms(2) c(2) by (simp add: hand_Sub_hand_of)
  show "hand_ok (hand_Sub h pt)" unfolding eq by (rule hand_ok_hand_of [OF ok])
  show "hand_Count (hand_Sub h pt) q = (if q = pt then hand_Count h pt - 1 else hand_Count h q)"
    if "pt_IsHandPiece q"
    unfolding eq hand_Count_hand_of [OF ok that] by (simp add: c(3))
qed

lemma hand_Has_iff: "pt_IsHandPiece pt \<Longrightarrow> hand_Has h pt \<longleftrightarrow> 0 < hand_Count h pt"
proof -
  have push_and: "h AND push_bit k (mask w) \<noteq> 0 \<longleftrightarrow> 0 < unat (drop_bit k h AND mask w)"
    if "k + w \<le> 32" for k w
  proof -
    have "h AND push_bit k (mask w) \<noteq> 0 \<longleftrightarrow> drop_bit k h AND mask w \<noteq> 0" (is "?l \<noteq> 0 \<longleftrightarrow> ?r \<noteq> 0")
    proof -
      have "bit ?l n \<longleftrightarrow> k \<le> n \<and> bit ?r (n - k)" for n
        by (auto simp: bit_simps dest: bit_imp_le_length)
      moreover have "bit ?r n \<longleftrightarrow> bit ?l (n + k)" for n
        using that by (auto simp: bit_simps ac_simps dest: bit_imp_le_length)
      ultimately show ?thesis unfolding word_nonzero_iff_bit
        by (metis bit_imp_le_length)
    qed
    then show ?thesis by (simp add: unat_gt_0)
  qed
  have m: "(31::u32) = mask 5" "(7::u32) = mask 3" "(3::u32) = mask 2"
    by (simp_all add: mask_eq_exp_minus_1)
  assume "pt_IsHandPiece pt"
  then show ?thesis
    by (cases rule: hand_piece_cases;
        simp only: hand_Has_def hand_Count_def hand_kMask2_def hand_kBits_def hand_kMask_def m;
        use push_and [of 0 5] in \<open>simp add: push_and unat_gt_0\<close>)
qed

subsection \<open>Comparison of hands by one subtraction\<close>

text \<open>\<open>gap_bit\<close>: after subtracting the packed words, the gap bit at position \<open>n\<close> is set exactly
  when the part \<open>L\<close> of the difference below it is negative, whatever lies above.\<close>

lemma gap_bit:
  fixes L H :: int
  assumes "- (2 ^ n) \<le> L" "L < 2 ^ n"
  shows "odd ((L + 2 ^ Suc n * H) div 2 ^ n) \<longleftrightarrow> L < 0"
proof -
  have "(L + 2 ^ Suc n * H) div 2 ^ n = L div 2 ^ n + 2 * H"
    using div_mult_self2 [of "2 ^ n" L "2 * H"] by (simp add: mult.assoc mult.left_commute)
  moreover have "L div 2 ^ n = (if L < 0 then - 1 else 0)"
  proof (cases "L < 0")
    case True
    have "(L + 2 ^ n) div 2 ^ n = 0" using assms True by (intro div_pos_pos_trivial) auto
    then show ?thesis using True div_add_self2 [of "2 ^ n" L] by simp
  next
    case False
    then show ?thesis using assms by (simp add: div_pos_pos_trivial)
  qed
  ultimately show ?thesis by simp
qed

lemma and_or_eq_0: "(w :: u32) AND (a OR b) = 0 \<longleftrightarrow> w AND a = 0 \<and> w AND b = 0"
  by (simp add: bit.conj_disj_distrib or_eq_0_iff)

lemma and_single_bit_zero: "(w :: u32) AND push_bit n 1 = 0 \<longleftrightarrow> \<not> bit w n"
  using and_single_bit_nonzero [of w n] by blast

lemma hand_Dominates_bits:
  "hand_Dominates h g \<longleftrightarrow> (\<forall>n\<in>{5, 11, 15, 19, 22, 26, 31}. \<not> bit (h - g) n)"
  unfolding hand_Dominates_def hand_kBorrowMask_def and_or_eq_0 and_single_bit_zero by blast

lemma bit_hand_diff:
  assumes "counts_ok a" "counts_ok b" "n < 32"
  shows "bit (hand_of a - hand_of b) n \<longleftrightarrow> odd ((int (counts_sum a) - int (counts_sum b)) div 2 ^ n)"
proof -
  have eq: "hand_of a - hand_of b = word_of_int (int (counts_sum a) - int (counts_sum b))"
    by (simp add: hand_of_def)
  show ?thesis
    unfolding eq bit_word_of_int_iff using assms(3) by (simp add: bit_iff_odd)
qed

definition diff_low :: "(nat \<Rightarrow> int) \<Rightarrow> nat \<Rightarrow> int" where
  "diff_low d n = (if n \<ge> 31 then 268435456 * d 7 else 0) + (if n \<ge> 26 then 16777216 * d 6 else 0)
     + (if n \<ge> 22 then 1048576 * d 5 else 0) + (if n \<ge> 19 then 65536 * d 4 else 0)
     + (if n \<ge> 15 then 4096 * d 3 else 0) + (if n \<ge> 11 then 256 * d 2 else 0) + d 1"

lemma counts_diff_gaps:
  assumes "counts_ok a" "counts_ok b" and d_def: "\<And>i. d i = int (a i) - int (b i)"
    and n: "n \<in> {5, 11, 15, 19, 22, 26, 31}"
  shows "bit (hand_of a - hand_of b) n \<longleftrightarrow> diff_low d n < 0"
proof -
  let ?D = "int (counts_sum a) - int (counts_sum b)"
  have D: "?D = d 1 + 256 * d 2 + 4096 * d 3 + 65536 * d 4 + 1048576 * d 5
     + 16777216 * d 6 + 268435456 * d 7"
    by (simp add: counts_sum_def d_def)
  have bd: "-31 \<le> d 1" "d 1 \<le> 31" "-7 \<le> d 2" "d 2 \<le> 7" "-7 \<le> d 3" "d 3 \<le> 7"
    "-7 \<le> d 4" "d 4 \<le> 7" "-3 \<le> d 5" "d 5 \<le> 3" "-3 \<le> d 6" "d 6 \<le> 3" "-7 \<le> d 7" "d 7 \<le> 7"
    using assms(1,2) unfolding d_def counts_ok_def by linarith+
  define H where "H = (\<lambda>n::nat. if n = 5 then 4 * d 2 + 64 * d 3 + 1024 * d 4 + 16384 * d 5 + 262144 * d 6 + 4194304 * d 7
    else if n = 11 then d 3 + 16 * d 4 + 256 * d 5 + 4096 * d 6 + 65536 * d 7
    else if n = 15 then d 4 + 16 * d 5 + 256 * d 6 + 4096 * d 7
    else if n = 19 then d 5 + 16 * d 6 + 256 * d 7
    else if n = 22 then 2 * d 6 + 32 * d 7
    else if n = 26 then 2 * d 7 else 0)"
  have "?D = diff_low d n + 2 ^ Suc n * H n"
    using n by (elim insertE emptyE) (simp_all add: D diff_low_def H_def)
  moreover have "- (2 ^ n) \<le> diff_low d n \<and> diff_low d n < 2 ^ n"
    using n
    by (elim insertE emptyE; intro conjI; use bd in \<open>simp add: diff_low_def\<close>)
  moreover have "n < 32" using n by auto
  ultimately show ?thesis using assms(1,2) by (simp only: bit_hand_diff gap_bit)
qed

lemma all_hand_pieces:
  "(\<forall>pt. pt_IsHandPiece pt \<longrightarrow> P pt) \<longleftrightarrow> P 1 \<and> P 2 \<and> P 3 \<and> P 4 \<and> P 5 \<and> P 6 \<and> P 7"
  by (auto elim!: hand_piece_cases) (simp_all add: pt_IsHandPiece_def)

text \<open>The single subtraction and mask of \<open>Hand::Dominates\<close> decides whether one hand holds at
  least as many of every piece type as the other.\<close>

theorem hand_Dominates_iff:
  assumes "hand_ok h" "hand_ok g"
  shows "hand_Dominates h g \<longleftrightarrow> (\<forall>pt. pt_IsHandPiece pt \<longrightarrow> hand_Count g pt \<le> hand_Count h pt)"
proof -
  obtain a b where a: "counts_ok a" "h = hand_of a" "a = hand_Count h"
    and b: "counts_ok b" "g = hand_of b" "b = hand_Count g"
    using assms by (metis hand_ok_cases)
  define d where "d = (\<lambda>i. int (a i) - int (b i))"
  have bd: "-31 \<le> d 1" "d 1 \<le> 31" "-7 \<le> d 2" "d 2 \<le> 7" "-7 \<le> d 3" "d 3 \<le> 7"
    "-7 \<le> d 4" "d 4 \<le> 7" "-3 \<le> d 5" "d 5 \<le> 3" "-3 \<le> d 6" "d 6 \<le> 3" "-7 \<le> d 7" "d 7 \<le> 7"
    using a(1) b(1) unfolding d_def counts_ok_def by linarith+
  have g: "bit (h - g) n \<longleftrightarrow> diff_low d n < 0" if "n \<in> {5, 11, 15, 19, 22, 26, 31}" for n
    unfolding a(2) b(2) using that by (intro counts_diff_gaps a(1) b(1)) (simp_all add: d_def)
  have "hand_Dominates h g \<longleftrightarrow> (\<forall>n\<in>{5, 11, 15, 19, 22, 26, 31}. 0 \<le> diff_low d n)"
    unfolding hand_Dominates_bits using g by (auto simp: not_less)
  also have "\<dots> \<longleftrightarrow> 0 \<le> d 1 \<and> 0 \<le> 256 * d 2 + d 1 \<and> 0 \<le> 4096 * d 3 + 256 * d 2 + d 1
      \<and> 0 \<le> 65536 * d 4 + 4096 * d 3 + 256 * d 2 + d 1
      \<and> 0 \<le> 1048576 * d 5 + 65536 * d 4 + 4096 * d 3 + 256 * d 2 + d 1
      \<and> 0 \<le> 16777216 * d 6 + 1048576 * d 5 + 65536 * d 4 + 4096 * d 3 + 256 * d 2 + d 1
      \<and> 0 \<le> 268435456 * d 7 + 16777216 * d 6 + 1048576 * d 5 + 65536 * d 4 + 4096 * d 3
          + 256 * d 2 + d 1"
    by (simp add: diff_low_def)
  also have "\<dots> \<longleftrightarrow> 0 \<le> d 1 \<and> 0 \<le> d 2 \<and> 0 \<le> d 3 \<and> 0 \<le> d 4 \<and> 0 \<le> d 5 \<and> 0 \<le> d 6 \<and> 0 \<le> d 7"
    using bd by linarith
  also have "\<dots> \<longleftrightarrow> (\<forall>pt. pt_IsHandPiece pt \<longrightarrow> hand_Count g pt \<le> hand_Count h pt)"
    unfolding all_hand_pieces d_def a(3) b(3) by linarith
  finally show ?thesis .
qed

theorem hand_Dominates_iff_witness:
  "hand_ok (hand_Add (hand_Add hand_Empty 1) 7) \<and> hand_ok (hand_Add hand_Empty 1) \<and>
   hand_Dominates (hand_Add (hand_Add hand_Empty 1) 7) (hand_Add hand_Empty 1)"
proof -
  have e: "hand_Empty = hand_of (\<lambda>_. 0)"
    by (simp add: hand_Empty_def hand_of_def counts_sum_def)
  have p: "pt_IsHandPiece 1" "pt_IsHandPiece 7" by (simp_all add: pt_IsHandPiece_def)
  have 1: "hand_Count hand_Empty 1 < hand_max 1" by (simp add: hand_max_def)
  note ok1 = hand_Add_correct [OF hand_ok_Empty p(1) 1]
  have 7: "hand_Count (hand_Add hand_Empty 1) 7 < hand_max 7"
    using ok1(2) [OF p(2)] by (simp add: hand_max_def)
  note ok2 = hand_Add_correct [OF ok1(1) p(2) 7]
  have "hand_Count (hand_Add hand_Empty 1) pt \<le> hand_Count (hand_Add (hand_Add hand_Empty 1) 7) pt"
    if "pt_IsHandPiece pt" for pt using ok2(2) [OF that] by auto
  then show ?thesis using ok1(1) ok2(1) hand_Dominates_iff [OF ok2(1) ok1(1)] by blast
qed

end
