(* ===== verification/Board.thy ===== *)
theory Board
  imports CheckTables Moves Hands
begin

text \<open>
  The position of shogi/board.h: \<open>Piece\<close>, the redundant representation of the placement
  (piece array, one bitboard per colour, one per piece type, cached king squares), the
  hands, the side to move, the hash, the check counters and the history.  The arrays are
  functions of their index; \<open>board_ok\<close> is the invariant that ties the redundant parts
  together.  The C++ \<open>assert\<close>s of \<open>PutPiece\<close> and \<open>RemovePiece\<close> are premises of the lemmas.
\<close>

subsection \<open>Piece\<close>

type_synonym piece = nat

definition piece_None :: piece where "piece_None = 0"

definition piece_Make :: "color \<Rightarrow> piece_type \<Rightarrow> piece" where
  "piece_Make c pt = ((if c = WHITE then 16 else 0) + pt) mod 256"

definition piece_IsNone :: "piece \<Rightarrow> bool" where
  "piece_IsNone v \<longleftrightarrow> v = 0"

definition piece_GetColor :: "piece \<Rightarrow> color" where
  "piece_GetColor v = (if v div 16 = 0 then BLACK else WHITE)"

definition piece_GetType :: "piece \<Rightarrow> piece_type" where
  "piece_GetType v = v AND 15"

definition piece_Promote :: "piece \<Rightarrow> piece" where
  "piece_Promote v = v OR 8"

definition piece_Unpromote :: "piece \<Rightarrow> piece" where
  "piece_Unpromote v = v AND 247"

text \<open>The encodings in use: empty, 1 to 14 for Black, 17 to 30 for White.\<close>

definition piece_ok :: "piece \<Rightarrow> bool" where
  "piece_ok v \<longleftrightarrow> v = 0 \<or> (1 \<le> v \<and> v \<le> 14) \<or> (17 \<le> v \<and> v \<le> 30)"

lemma piece_GetType_mod: "piece_GetType v = v mod 16"
  by (simp add: piece_GetType_def nat_and_15)

lemma piece_GetType_less [simp]: "piece_GetType v < 16"
  by (simp add: piece_GetType_mod)

lemma piece_Make_sel [simp]:
  "pt < 16 \<Longrightarrow> piece_GetType (piece_Make c pt) = pt"
  "pt < 16 \<Longrightarrow> piece_GetColor (piece_Make c pt) = c"
  "1 \<le> pt \<Longrightarrow> pt \<le> 14 \<Longrightarrow> piece_ok (piece_Make c pt)"
  "1 \<le> pt \<Longrightarrow> pt < 16 \<Longrightarrow> piece_Make c pt \<noteq> 0"
  by (cases c; simp add: piece_Make_def piece_GetType_mod piece_GetColor_def piece_ok_def)+

lemma piece_Make_inject [simp]:
  "p < 16 \<Longrightarrow> q < 16 \<Longrightarrow> piece_Make c p = piece_Make d q \<longleftrightarrow> c = d \<and> p = q"
  using piece_Make_sel(1,2) by metis

lemma piece_ok_cases:
  assumes "piece_ok v" "v \<noteq> 0"
  obtains (black) "v \<le> 14" "1 \<le> v" "piece_GetColor v = BLACK" "piece_GetType v = v"
    | (white) k where "v = k + 16" "1 \<le> k" "k \<le> 14" "piece_GetColor v = WHITE" "piece_GetType v = k"
proof (cases "v \<le> 14")
  case True
  with assms show ?thesis by (intro black) (simp_all add: piece_GetColor_def piece_GetType_mod)
next
  case False
  then have "17 \<le> v" "v \<le> 30" using assms by (auto simp: piece_ok_def)
  then have "v = (v - 16) + 16" "1 \<le> v - 16" "v - 16 \<le> 14" by simp_all
  then obtain k where k: "v = k + 16" "1 \<le> k" "k \<le> 14" by blast
  then show ?thesis by (intro white) (simp_all add: piece_GetColor_def piece_GetType_mod)
qed

lemma piece_eq_Make:
  "piece_ok v \<Longrightarrow> v \<noteq> 0 \<Longrightarrow> v = piece_Make (piece_GetColor v) (piece_GetType v)"
  by (erule (1) piece_ok_cases) (simp_all add: piece_Make_def)

lemma piece_ok_type:
  "piece_ok v \<Longrightarrow> v \<noteq> 0 \<Longrightarrow> 1 \<le> piece_GetType v \<and> piece_GetType v \<le> 14"
  by (erule (1) piece_ok_cases) simp_all

lemma piece_ok_less: "piece_ok v \<Longrightarrow> v < 32"
  by (auto simp: piece_ok_def)

lemma piece_eq_iff:
  "piece_ok v \<Longrightarrow> piece_ok w \<Longrightarrow> v \<noteq> 0 \<Longrightarrow> w \<noteq> 0 \<Longrightarrow>
    v = w \<longleftrightarrow> piece_GetColor v = piece_GetColor w \<and> piece_GetType v = piece_GetType w"
  using piece_eq_Make by metis

text \<open>Promotion touches only bit 3, so it keeps the colour and can be undone.\<close>

lemma promotable_cases:
  assumes "piece_ok v" "pt_CanPromote (piece_GetType v)"
  shows "v \<in> {1, 2, 3, 4, 5, 6, 17, 18, 19, 20, 21, 22}"
proof -
  have "v < 32" using assms(1) by (rule piece_ok_less)
  moreover have "1 \<le> v mod 16 \<and> v mod 16 \<le> 6" using assms(2) by (simp add: pt_CanPromote_def piece_GetType_mod)
  ultimately have "1 \<le> v \<and> v \<le> 6 \<or> 17 \<le> v \<and> v \<le> 22"
    by (cases "v < 16") (auto simp: mod_if split: if_splits)
  then show ?thesis by auto
qed

lemma piece_Promote_props:
  assumes "piece_ok v" "pt_CanPromote (piece_GetType v)"
  shows "piece_ok (piece_Promote v)" "piece_Promote v \<noteq> 0"
    "piece_GetColor (piece_Promote v) = piece_GetColor v"
    "piece_GetType (piece_Promote v) = pt_Promote (piece_GetType v)"
    "piece_Unpromote (piece_Promote v) = v"
    "pt_Unpromote (piece_GetType (piece_Promote v)) = piece_GetType v"
    "piece_GetType (piece_Promote v) \<noteq> kKing"
  using promotable_cases [OF assms]
  by (auto simp: piece_Promote_def piece_Unpromote_def piece_ok_def piece_GetColor_def
      piece_GetType_mod pt_Promote_def pt_Unpromote_def kKing_def)

subsection \<open>The position\<close>

record history_entry =
  he_hash :: u64
  hand_black :: u32
  hand_white :: u32

record shogi_board =
  board_arr :: "nat \<Rightarrow> piece"
  by_type :: "piece_type \<Rightarrow> bitboard"
  by_color :: "color \<Rightarrow> bitboard"
  hands :: "color \<Rightarrow> hand"
  king_sq :: "color \<Rightarrow> square"
  side_to_move :: color
  ply :: int
  hash :: u64
  continuous_check :: "color \<Rightarrow> int"
  history :: "history_entry list"

definition empty_board :: shogi_board where
  "empty_board =
     \<lparr>board_arr = (\<lambda>_. piece_None), by_type = (\<lambda>_. bb_Zero), by_color = (\<lambda>_. bb_Zero),
      hands = (\<lambda>_. hand_Empty), king_sq = (\<lambda>_. kSquareNone), side_to_move = BLACK,
      ply = 0, hash = 0, continuous_check = (\<lambda>_. 0), history = []\<rparr>"

definition piece_on :: "shogi_board \<Rightarrow> square \<Rightarrow> piece" where
  "piece_on b s = board_arr b s"

definition is_empty :: "shogi_board \<Rightarrow> square \<Rightarrow> bool" where
  "is_empty b s \<longleftrightarrow> piece_IsNone (board_arr b s)"

definition pieces :: "shogi_board \<Rightarrow> bitboard" where
  "pieces b = bb_Or (by_color b BLACK) (by_color b WHITE)"

definition pieces_t :: "shogi_board \<Rightarrow> piece_type \<Rightarrow> bitboard" where
  "pieces_t b pt = by_type b pt"

definition pieces_ct :: "shogi_board \<Rightarrow> color \<Rightarrow> piece_type \<Rightarrow> bitboard" where
  "pieces_ct b c pt = bb_And (by_color b c) (by_type b pt)"

definition occupied :: "shogi_board \<Rightarrow> bitboard" where
  "occupied b = pieces b"

subsection \<open>Placing and removing pieces\<close>

definition PutPiece :: "shogi_board \<Rightarrow> square \<Rightarrow> piece \<Rightarrow> shogi_board" where
  "PutPiece b sq pc =
     (let c = piece_GetColor pc; t = piece_GetType pc;
          b = b\<lparr>board_arr := (board_arr b)(sq := pc),
                by_color := (by_color b)(c := bb_Set (by_color b c) sq),
                by_type := (by_type b)(t := bb_Set (by_type b t) sq)\<rparr>
      in if t = kKing then b\<lparr>king_sq := (king_sq b)(c := sq)\<rparr> else b)"

definition RemovePiece :: "shogi_board \<Rightarrow> square \<Rightarrow> piece \<times> shogi_board" where
  "RemovePiece b sq =
     (let pc = board_arr b sq; c = piece_GetColor pc; t = piece_GetType pc
      in (pc, b\<lparr>board_arr := (board_arr b)(sq := piece_None),
                by_color := (by_color b)(c := bb_Clear (by_color b c) sq),
                by_type := (by_type b)(t := bb_Clear (by_type b t) sq)\<rparr>))"

definition MovePiece :: "shogi_board \<Rightarrow> square \<Rightarrow> square \<Rightarrow> shogi_board" where
  "MovePiece b from to = (let (pc, b) = RemovePiece b from in PutPiece b to pc)"

subsection \<open>The invariant\<close>

definition board_ok :: "shogi_board \<Rightarrow> bool" where
  "board_ok b \<longleftrightarrow>
     (\<forall>s<81. piece_ok (board_arr b s)) \<and>
     (\<forall>c. bb_ok (by_color b c)) \<and> (\<forall>t<16. bb_ok (by_type b t)) \<and>
     (\<forall>c. \<forall>s<81. bb_Test (by_color b c) s \<longleftrightarrow> board_arr b s \<noteq> 0 \<and> piece_GetColor (board_arr b s) = c) \<and>
     (\<forall>t<16. \<forall>s<81. bb_Test (by_type b t) s \<longleftrightarrow> board_arr b s \<noteq> 0 \<and> piece_GetType (board_arr b s) = t) \<and>
     (\<forall>c. \<forall>s<81. board_arr b s = piece_Make c kKing \<longrightarrow> king_sq b c = s)"

text \<open>Both kings are on the board.\<close>

definition kings_ok :: "shogi_board \<Rightarrow> bool" where
  "kings_ok b \<longleftrightarrow> (\<forall>c. king_sq b c < 81 \<and> board_arr b (king_sq b c) = piece_Make c kKing)"

lemma board_okD:
  assumes "board_ok b"
  shows "s < 81 \<Longrightarrow> piece_ok (board_arr b s)"
    and "bb_ok (by_color b c)" and "t < 16 \<Longrightarrow> bb_ok (by_type b t)"
    and "s < 81 \<Longrightarrow> bb_Test (by_color b c) s \<longleftrightarrow> board_arr b s \<noteq> 0 \<and> piece_GetColor (board_arr b s) = c"
    and "t < 16 \<Longrightarrow> s < 81 \<Longrightarrow> bb_Test (by_type b t) s \<longleftrightarrow> board_arr b s \<noteq> 0 \<and> piece_GetType (board_arr b s) = t"
    and "s < 81 \<Longrightarrow> board_arr b s = piece_Make c kKing \<Longrightarrow> king_sq b c = s"
  using assms unfolding board_ok_def by blast+

lemma board_okI:
  assumes "\<And>s. s < 81 \<Longrightarrow> piece_ok (board_arr b s)"
    and "\<And>c. bb_ok (by_color b c)" and "\<And>t. t < 16 \<Longrightarrow> bb_ok (by_type b t)"
    and "\<And>c s. s < 81 \<Longrightarrow> bb_Test (by_color b c) s \<longleftrightarrow> board_arr b s \<noteq> 0 \<and> piece_GetColor (board_arr b s) = c"
    and "\<And>t s. t < 16 \<Longrightarrow> s < 81 \<Longrightarrow> bb_Test (by_type b t) s \<longleftrightarrow> board_arr b s \<noteq> 0 \<and> piece_GetType (board_arr b s) = t"
    and "\<And>c s. s < 81 \<Longrightarrow> board_arr b s = piece_Make c kKing \<Longrightarrow> king_sq b c = s"
  shows "board_ok b"
  using assms unfolding board_ok_def by blast

text \<open>The invariant constrains only the placement fields.\<close>

lemma board_ok_cong:
  assumes "board_arr a = board_arr b" "by_type a = by_type b" "by_color a = by_color b"
    "king_sq a = king_sq b"
  shows "board_ok a \<longleftrightarrow> board_ok b"
  using assms by (simp add: board_ok_def)

lemma board_ok_updates [board_simps]:
  "board_ok (b\<lparr>hands := h\<rparr>) \<longleftrightarrow> board_ok b" "board_ok (b\<lparr>side_to_move := c\<rparr>) \<longleftrightarrow> board_ok b"
  "board_ok (b\<lparr>ply := p\<rparr>) \<longleftrightarrow> board_ok b" "board_ok (b\<lparr>hash := z\<rparr>) \<longleftrightarrow> board_ok b"
  "board_ok (b\<lparr>continuous_check := k\<rparr>) \<longleftrightarrow> board_ok b" "board_ok (b\<lparr>history := hs\<rparr>) \<longleftrightarrow> board_ok b"
  by (rule board_ok_cong; simp)+

lemma king_piece_iff:
  "piece_ok v \<Longrightarrow> v \<noteq> 0 \<Longrightarrow> v = piece_Make c kKing \<longleftrightarrow> piece_GetColor v = c \<and> piece_GetType v = kKing"
  using piece_eq_Make [of v] by (auto simp: kKing_def)

lemma PutPiece_sel:
  "board_arr (PutPiece b s pc) = (board_arr b)(s := pc)"
  "by_color (PutPiece b s pc) = (by_color b)(piece_GetColor pc := bb_Set (by_color b (piece_GetColor pc)) s)"
  "by_type (PutPiece b s pc) = (by_type b)(piece_GetType pc := bb_Set (by_type b (piece_GetType pc)) s)"
  "king_sq (PutPiece b s pc) = (if piece_GetType pc = kKing then (king_sq b)(piece_GetColor pc := s) else king_sq b)"
  "hands (PutPiece b s pc) = hands b" "side_to_move (PutPiece b s pc) = side_to_move b"
  "ply (PutPiece b s pc) = ply b" "hash (PutPiece b s pc) = hash b"
  "continuous_check (PutPiece b s pc) = continuous_check b" "history (PutPiece b s pc) = history b"
  by (simp_all add: PutPiece_def Let_def)

lemma RemovePiece_sel:
  "fst (RemovePiece b s) = board_arr b s"
  "board_arr (snd (RemovePiece b s)) = (board_arr b)(s := 0)"
  "by_color (snd (RemovePiece b s)) =
    (by_color b)(piece_GetColor (board_arr b s) := bb_Clear (by_color b (piece_GetColor (board_arr b s))) s)"
  "by_type (snd (RemovePiece b s)) =
    (by_type b)(piece_GetType (board_arr b s) := bb_Clear (by_type b (piece_GetType (board_arr b s))) s)"
  "king_sq (snd (RemovePiece b s)) = king_sq b"
  "hands (snd (RemovePiece b s)) = hands b" "side_to_move (snd (RemovePiece b s)) = side_to_move b"
  "ply (snd (RemovePiece b s)) = ply b" "hash (snd (RemovePiece b s)) = hash b"
  "continuous_check (snd (RemovePiece b s)) = continuous_check b"
  "history (snd (RemovePiece b s)) = history b"
  by (simp_all add: RemovePiece_def Let_def piece_None_def)

lemmas placement_sel [board_simps] = PutPiece_sel RemovePiece_sel

lemma board_ok_PutPiece:
  assumes b: "board_ok b" and s: "s < 81" and e: "board_arr b s = 0" and pc: "piece_ok pc" "pc \<noteq> 0"
    and k: "piece_GetType pc = kKing \<Longrightarrow> (\<forall>t<81. board_arr b t \<noteq> pc)"
  shows "board_ok (PutPiece b s pc)"
proof (rule board_okI)
  fix c t u
  note ok = board_okD [OF b]
  show "u < 81 \<Longrightarrow> piece_ok (board_arr (PutPiece b s pc) u)"
    using ok(1) pc by (simp add: PutPiece_sel)
  show "bb_ok (by_color (PutPiece b s pc) c)"
    using ok(2) s by (simp add: PutPiece_sel bb_intros)
  show "t < 16 \<Longrightarrow> bb_ok (by_type (PutPiece b s pc) t)"
    using ok(3) s by (simp add: PutPiece_sel bb_intros)
  show "u < 81 \<Longrightarrow> bb_Test (by_color (PutPiece b s pc) c) u \<longleftrightarrow>
      board_arr (PutPiece b s pc) u \<noteq> 0 \<and> piece_GetColor (board_arr (PutPiece b s pc) u) = c"
    using ok(4) s e pc by (auto simp: PutPiece_sel Test_Set)
  show "t < 16 \<Longrightarrow> u < 81 \<Longrightarrow> bb_Test (by_type (PutPiece b s pc) t) u \<longleftrightarrow>
      board_arr (PutPiece b s pc) u \<noteq> 0 \<and> piece_GetType (board_arr (PutPiece b s pc) u) = t"
    using ok(5) s e pc by (auto simp: PutPiece_sel Test_Set)
  show "king_sq (PutPiece b s pc) c = u"
    if u: "u < 81" "board_arr (PutPiece b s pc) u = piece_Make c kKing"
  proof (cases "u = s")
    case True
    then have "pc = piece_Make c kKing" using u by (simp add: PutPiece_sel)
    then have "piece_GetType pc = kKing" "piece_GetColor pc = c" by (simp_all add: kKing_def)
    then show ?thesis using True by (simp add: PutPiece_sel)
  next
    case False
    then have bu: "board_arr b u = piece_Make c kKing" using u by (simp add: PutPiece_sel)
    have "\<not> (piece_GetType pc = kKing \<and> piece_GetColor pc = c)"
      using k u(1) bu king_piece_iff [OF pc, of c] by auto
    then show ?thesis using ok(6) [OF u(1) bu] by (auto simp: PutPiece_sel)
  qed
qed

lemma board_ok_RemovePiece:
  assumes b: "board_ok b" and s: "s < 81"
  shows "board_ok (snd (RemovePiece b s))"
proof (rule board_okI)
  fix c t u
  note ok = board_okD [OF b]
  show "u < 81 \<Longrightarrow> piece_ok (board_arr (snd (RemovePiece b s)) u)"
    using ok(1) by (simp add: RemovePiece_sel piece_ok_def)
  show "bb_ok (by_color (snd (RemovePiece b s)) c)"
    using ok(2) by (simp add: RemovePiece_sel bb_intros)
  show "t < 16 \<Longrightarrow> bb_ok (by_type (snd (RemovePiece b s)) t)"
    using ok(3) by (simp add: RemovePiece_sel bb_intros)
  show "u < 81 \<Longrightarrow> bb_Test (by_color (snd (RemovePiece b s)) c) u \<longleftrightarrow>
      board_arr (snd (RemovePiece b s)) u \<noteq> 0 \<and> piece_GetColor (board_arr (snd (RemovePiece b s)) u) = c"
    using ok(4) s by (auto simp: RemovePiece_sel Test_Clear)
  show "t < 16 \<Longrightarrow> u < 81 \<Longrightarrow> bb_Test (by_type (snd (RemovePiece b s)) t) u \<longleftrightarrow>
      board_arr (snd (RemovePiece b s)) u \<noteq> 0 \<and> piece_GetType (board_arr (snd (RemovePiece b s)) u) = t"
    using ok(5) s by (auto simp: RemovePiece_sel Test_Clear)
  show "king_sq (snd (RemovePiece b s)) c = u"
    if "u < 81" "board_arr (snd (RemovePiece b s)) u = piece_Make c kKing"
    using ok(6) that by (auto simp: RemovePiece_sel kKing_def split: if_splits)
qed

text \<open>Removing what was put, and putting back what was removed.\<close>

lemma bb_Clear_Set: "s < 81 \<Longrightarrow> bb_ok w \<Longrightarrow> \<not> bb_Test w s \<Longrightarrow> bb_Clear (bb_Set w s) s = w"
  by (rule bb_eqI) (auto simp: bb_simps bb_intros)

lemma bb_Set_Clear: "s < 81 \<Longrightarrow> bb_ok w \<Longrightarrow> bb_Test w s \<Longrightarrow> bb_Set (bb_Clear w s) s = w"
  by (rule bb_eqI) (auto simp: bb_simps bb_intros)

lemma RemovePiece_PutPiece:
  assumes "board_ok b" "s < 81" "board_arr b s = 0"
  shows "RemovePiece (PutPiece b s pc) s =
    (pc, if piece_GetType pc = kKing then b\<lparr>king_sq := (king_sq b)(piece_GetColor pc := s)\<rparr> else b)"
proof -
  note ok = board_okD [OF assms(1)]
  have 1: "bb_Clear (bb_Set (by_color b c) s) s = by_color b c" for c
    using assms ok by (intro bb_Clear_Set) auto
  have 2: "bb_Clear (bb_Set (by_type b (piece_GetType pc)) s) s = by_type b (piece_GetType pc)"
    using assms ok by (intro bb_Clear_Set) auto
  show ?thesis
    using assms(3) 1 2
    by (cases "piece_GetType pc = kKing")
      (simp_all add: RemovePiece_def PutPiece_def Let_def piece_None_def fun_upd_idem)
qed

lemma PutPiece_RemovePiece:
  assumes "board_ok b" "s < 81" "board_arr b s \<noteq> 0"
  shows "PutPiece (snd (RemovePiece b s)) s (board_arr b s) = b"
proof -
  note ok = board_okD [OF assms(1)]
  let ?pc = "board_arr b s"
  have 1: "bb_Set (bb_Clear (by_color b (piece_GetColor ?pc)) s) s = by_color b (piece_GetColor ?pc)"
    using assms ok by (intro bb_Set_Clear) auto
  have 2: "bb_Set (bb_Clear (by_type b (piece_GetType ?pc)) s) s = by_type b (piece_GetType ?pc)"
    using assms ok by (intro bb_Set_Clear) auto
  have 3: "piece_GetType ?pc = kKing \<Longrightarrow> king_sq b (piece_GetColor ?pc) = s"
    using ok(6) [OF assms(2)] king_piece_iff [OF ok(1) [OF assms(2)] assms(3)] by blast
  show ?thesis
    using 1 2 3
    by (cases "piece_GetType ?pc = kKing") (simp_all add: RemovePiece_def PutPiece_def Let_def fun_upd_idem)
qed

lemma board_ok_empty: "board_ok empty_board"
  by (rule board_okI) (simp_all add: empty_board_def piece_None_def piece_ok_def kKing_def)

text \<open>What the queries see.\<close>

lemma Test_occupied [board_simps]:
  "board_ok b \<Longrightarrow> s < 81 \<Longrightarrow> bb_Test (occupied b) s \<longleftrightarrow> board_arr b s \<noteq> 0"
  using board_okD(4) [of b s] by (cases "piece_GetColor (board_arr b s)") (auto simp: occupied_def pieces_def Test_Or)

lemma Test_pieces_ct [board_simps]:
  assumes "board_ok b" "s < 81" "1 \<le> t" "t < 16"
  shows "bb_Test (pieces_ct b c t) s \<longleftrightarrow> board_arr b s = piece_Make c t"
proof -
  have "board_arr b s = piece_Make c t \<longleftrightarrow> board_arr b s \<noteq> 0 \<and> piece_GetColor (board_arr b s) = c \<and> piece_GetType (board_arr b s) = t"
    using piece_eq_Make [of "board_arr b s"] board_okD(1) [OF assms(1,2)] piece_Make_sel(1,2) [OF assms(4)] piece_Make_sel(4) [OF assms(3,4)]
    by metis
  then show ?thesis
    using assms board_okD(4) [OF assms(1,2)] board_okD(5) [OF assms(1,4,2)] by (auto simp: pieces_ct_def Test_And)
qed

lemma bb_ok_pieces [bb_intros]:
  assumes "board_ok b"
  shows "bb_ok (occupied b)" "bb_ok (pieces_ct b c t)" "t < 16 \<Longrightarrow> bb_ok (pieces_t b t)"
  using assms by (simp_all add: occupied_def pieces_def pieces_ct_def pieces_t_def bb_intros board_okD)

subsection \<open>A small position for examples\<close>

text \<open>Kings on 5i and 5a and a black rook on 2h.\<close>

definition sample_board :: shogi_board where
  "sample_board =
     PutPiece (PutPiece (PutPiece empty_board 44 (piece_Make BLACK kKing)) 36 (piece_Make WHITE kKing))
       16 (piece_Make BLACK kRook)"

lemma sample_board_arr:
  "board_arr sample_board = (\<lambda>_. 0)(44 := 8, 36 := 24, 16 := 6)"
  by (simp add: sample_board_def PutPiece_sel empty_board_def piece_None_def piece_Make_def piece_type_defs)

lemma sample_board_sel:
  "king_sq sample_board BLACK = 44" "king_sq sample_board WHITE = 36"
  "side_to_move sample_board = BLACK" "hands sample_board c = hand_Empty"
  by (simp_all add: sample_board_def PutPiece_sel empty_board_def piece_Make_def piece_type_defs
      piece_GetColor_def piece_GetType_mod)

lemma sample_board_ok: "board_ok sample_board" "kings_ok sample_board"
proof -
  have "board_ok (PutPiece empty_board 44 (piece_Make BLACK kKing))" (is "board_ok ?a")
    using board_ok_empty by (rule board_ok_PutPiece)
      (simp_all add: empty_board_def piece_None_def piece_type_defs piece_Make_def piece_ok_def)
  then have "board_ok (PutPiece ?a 36 (piece_Make WHITE kKing))" (is "board_ok ?b")
    by (rule board_ok_PutPiece)
      (simp_all add: PutPiece_sel empty_board_def piece_None_def piece_type_defs piece_Make_def piece_ok_def)
  then show "board_ok sample_board" unfolding sample_board_def
    by (rule board_ok_PutPiece)
      (simp_all add: PutPiece_sel empty_board_def piece_None_def piece_type_defs piece_Make_def piece_ok_def
        piece_GetType_mod)
  show "kings_ok sample_board" unfolding kings_ok_def
  proof
    fix c
    show "king_sq sample_board c < 81 \<and> board_arr sample_board (king_sq sample_board c) = piece_Make c kKing"
      by (cases c) (simp_all add: sample_board_sel sample_board_arr piece_Make_def kKing_def)
  qed
qed

end
