(* ===== verification/Attacks.thy ===== *)
theory Attacks
  imports Board
begin

text \<open>
  Attack queries of shogi/board.cc: what a piece attacks, which pieces attack a square
  (seen from the square, with the step tables of the opposite colour), and the fast
  yes/no query that tests an empty-board mask before it computes a slider.  All of them
  are shown to agree with the forward attack sets of the pieces on the board.
\<close>

subsection \<open>Attack sets of a piece\<close>

definition StepAttacks :: "piece_type \<Rightarrow> color \<Rightarrow> square \<Rightarrow> bitboard" where
  "StepAttacks pt c sq =
     (if pt = kPawn then PawnEffectBB sq c
      else if pt = kKnight then KnightEffectBB sq c
      else if pt = kSilver then SilverEffectBB sq c
      else if pt = kGold \<or> pt = kProPawn \<or> pt = kProLance \<or> pt = kProKnight \<or> pt = kProSilver
        then GoldEffectBB sq c
      else if pt = kKing then KingEffectBB sq
      else if pt = kHorse then HorseStepBB sq
      else if pt = kDragon then DragonStepBB sq
      else bb_Zero)"

definition SlidingAttacks :: "piece_type \<Rightarrow> color \<Rightarrow> square \<Rightarrow> bitboard \<Rightarrow> bitboard" where
  "SlidingAttacks pt c sq occ =
     (if pt = kLance then LanceEffect c sq occ
      else if pt = kBishop \<or> pt = kHorse then BishopEffect sq occ
      else if pt = kRook \<or> pt = kDragon then RookEffect sq occ
      else bb_Zero)"

definition PieceAttacks :: "piece_type \<Rightarrow> color \<Rightarrow> square \<Rightarrow> bitboard \<Rightarrow> bitboard" where
  "PieceAttacks pt c sq occ =
     (if pt = kPawn then PawnEffectBB sq c
      else if pt = kLance then LanceEffect c sq occ
      else if pt = kKnight then KnightEffectBB sq c
      else if pt = kSilver then SilverEffectBB sq c
      else if pt = kBishop then BishopEffect sq occ
      else if pt = kRook then RookEffect sq occ
      else if pt = kGold \<or> pt = kProPawn \<or> pt = kProLance \<or> pt = kProKnight \<or> pt = kProSilver
        then GoldEffectBB sq c
      else if pt = kKing then KingEffectBB sq
      else if pt = kHorse then bb_Or (BishopEffect sq occ) (HorseStepBB sq)
      else if pt = kDragon then bb_Or (RookEffect sq occ) (DragonStepBB sq)
      else bb_Zero)"

subsection \<open>Attackers of a square\<close>

definition golds_of :: "shogi_board \<Rightarrow> color \<Rightarrow> bitboard" where
  "golds_of b c =
     bb_Or (bb_Or (bb_Or (bb_Or (pieces_ct b c kGold) (pieces_ct b c kProPawn)) (pieces_ct b c kProLance))
       (pieces_ct b c kProKnight)) (pieces_ct b c kProSilver)"

definition AttackersTo :: "shogi_board \<Rightarrow> square \<Rightarrow> bitboard \<Rightarrow> bitboard" where
  "AttackersTo b sq occ =
     (let a = fold (\<lambda>c a.
            let a = bb_Or a (bb_And (PawnEffectBB sq (opp c)) (pieces_ct b c kPawn));
                a = bb_Or a (bb_And (KnightEffectBB sq (opp c)) (pieces_ct b c kKnight));
                a = bb_Or a (bb_And (SilverEffectBB sq (opp c)) (pieces_ct b c kSilver));
                a = bb_Or a (bb_And (GoldEffectBB sq (opp c)) (golds_of b c))
            in bb_Or a (bb_And (LanceEffect (opp c) sq occ) (pieces_ct b c kLance)))
            [BLACK, WHITE] bb_Zero;
          a = bb_Or a (bb_And (KingEffectBB sq) (by_type b kKing));
          straight = RookEffect sq occ;
          a = bb_Or a (bb_And straight (bb_Or (by_type b kRook) (by_type b kDragon)));
          diag = BishopEffect sq occ;
          a = bb_Or a (bb_And diag (bb_Or (by_type b kBishop) (by_type b kHorse)));
          a = bb_Or a (bb_And (HorseStepBB sq) (by_type b kHorse))
      in bb_Or a (bb_And (DragonStepBB sq) (by_type b kDragon)))"

definition rook_like :: "shogi_board \<Rightarrow> color \<Rightarrow> bitboard" where
  "rook_like b c = bb_Or (pieces_ct b c kRook) (pieces_ct b c kDragon)"

definition bishop_like :: "shogi_board \<Rightarrow> color \<Rightarrow> bitboard" where
  "bishop_like b c = bb_Or (pieces_ct b c kBishop) (pieces_ct b c kHorse)"

definition AttackersTo_c :: "shogi_board \<Rightarrow> square \<Rightarrow> bitboard \<Rightarrow> color \<Rightarrow> bitboard" where
  "AttackersTo_c b sq occ c =
     (let a = bb_Or (bb_Or (bb_Or (bb_Or (bb_Or
            (bb_And (PawnEffectBB sq (opp c)) (pieces_ct b c kPawn))
            (bb_And (KnightEffectBB sq (opp c)) (pieces_ct b c kKnight)))
            (bb_And (SilverEffectBB sq (opp c)) (pieces_ct b c kSilver)))
            (bb_And (GoldEffectBB sq (opp c)) (golds_of b c)))
            (bb_And (LanceEffect (opp c) sq occ) (pieces_ct b c kLance)))
            (bb_And (KingEffectBB sq) (pieces_ct b c kKing));
          a = bb_Or a (bb_And (RookEffect sq occ) (rook_like b c));
          a = bb_Or a (bb_And (BishopEffect sq occ) (bishop_like b c));
          a = bb_Or a (bb_And (HorseStepBB sq) (pieces_ct b c kHorse))
      in bb_Or a (bb_And (DragonStepBB sq) (pieces_ct b c kDragon)))"

definition IsSquareAttacked :: "shogi_board \<Rightarrow> square \<Rightarrow> bitboard \<Rightarrow> color \<Rightarrow> bool" where
  "IsSquareAttacked b sq occ c =
     (if bb_Any (bb_And (PawnEffectBB sq (opp c)) (pieces_ct b c kPawn)) then True
      else if bb_Any (bb_And (KnightEffectBB sq (opp c)) (pieces_ct b c kKnight)) then True
      else if bb_Any (bb_And (SilverEffectBB sq (opp c)) (pieces_ct b c kSilver)) then True
      else if bb_Any (bb_And (GoldEffectBB sq (opp c)) (golds_of b c)) then True
      else if bb_Any (bb_And (KingEffectBB sq) (pieces_ct b c kKing)) then True
      else if bb_Any (bb_And (HorseStepBB sq) (pieces_ct b c kHorse)) then True
      else if bb_Any (bb_And (DragonStepBB sq) (pieces_ct b c kDragon)) then True
      else if bb_Any (bb_And (LanceMaskBB sq (opp c)) (pieces_ct b c kLance)) \<and>
              bb_Any (bb_And (LanceEffect (opp c) sq occ) (pieces_ct b c kLance)) then True
      else if bb_Any (bb_And (RookEffectBB sq) (rook_like b c)) \<and>
              bb_Any (bb_And (RookEffect sq occ) (rook_like b c)) then True
      else if bb_Any (bb_And (BishopEffectBB sq) (bishop_like b c)) \<and>
              bb_Any (bb_And (BishopEffect sq occ) (bishop_like b c)) then True
      else False)"

definition InCheck :: "shogi_board \<Rightarrow> color \<Rightarrow> bool" where
  "InCheck b c = IsSquareAttacked b (king_sq b c) (occupied b) (opp c)"

subsection \<open>Looking from the target\<close>

lemma RookEffect_symmetric:
  assumes "s < 81" "t < 81"
  shows "bb_Test (RookEffect s occ) t \<longleftrightarrow> bb_Test (RookEffect t occ) s"
proof -
  have "(\<exists>d\<in>set rook_dirs. t \<in> set (ray_reach (bb_Test occ) (ray_from s d))) \<longleftrightarrow>
    (\<exists>d\<in>set rook_dirs. s \<in> set (ray_reach (bb_Test occ) (ray_from t (neg_dir d))))"
    using ray_reach_symmetric [OF assms] unit_dir_rook_bishop by blast
  with assms show ?thesis
    using bex_neg_dir(2) [of "\<lambda>d. s \<in> set (ray_reach (bb_Test occ) (ray_from t d))"]
    by (simp add: RookEffect_rays)
qed

lemma BishopEffect_symmetric:
  assumes "s < 81" "t < 81"
  shows "bb_Test (BishopEffect s occ) t \<longleftrightarrow> bb_Test (BishopEffect t occ) s"
proof -
  have "(\<exists>d\<in>set bishop_dirs. t \<in> set (ray_reach (bb_Test occ) (ray_from s d))) \<longleftrightarrow>
    (\<exists>d\<in>set bishop_dirs. s \<in> set (ray_reach (bb_Test occ) (ray_from t (neg_dir d))))"
    using ray_reach_symmetric [OF assms] unit_dir_rook_bishop by blast
  with assms show ?thesis
    using bex_neg_dir(1) [of "\<lambda>d. s \<in> set (ray_reach (bb_Test occ) (ray_from t d))"]
    by (simp add: BishopEffect_rays)
qed

lemma neg_dir_forward: "neg_dir (forward c) = forward (opp c)"
  by (cases c) (simp_all add: forward_def neg_dir_def)

lemma LanceEffect_symmetric:
  assumes "s < 81" "t < 81"
  shows "bb_Test (LanceEffect c s occ) t \<longleftrightarrow> bb_Test (LanceEffect (opp c) t occ) s"
  using assms ray_reach_symmetric [OF assms unit_dir_forward, of "bb_Test occ" c]
  by (simp add: LanceEffect_ray neg_dir_forward)

lemma bb_ok_PieceAttacks [bb_intros, simp]: "s < 81 \<Longrightarrow> bb_ok (PieceAttacks pt c s occ)"
  unfolding PieceAttacks_def by (simp add: bb_ok_Or)

lemma bb_ok_pieces_like [bb_intros]:
  assumes "board_ok b"
  shows "bb_ok (golds_of b c)" "bb_ok (rook_like b c)" "bb_ok (bishop_like b c)"
  using assms by (simp_all add: golds_of_def rook_like_def bishop_like_def bb_ok_Or bb_ok_pieces)

text \<open>The forward attack relation of the position: \<open>t\<close> holds a piece of colour \<open>c\<close> that
  attacks \<open>s\<close>.\<close>

definition attacks :: "shogi_board \<Rightarrow> color \<Rightarrow> bitboard \<Rightarrow> square \<Rightarrow> square \<Rightarrow> bool" where
  "attacks b c occ t s \<longleftrightarrow>
     board_arr b t \<noteq> 0 \<and> piece_GetColor (board_arr b t) = c \<and>
     bb_Test (PieceAttacks (piece_GetType (board_arr b t)) c t occ) s"

lemma attacks_cases:
  assumes b: "board_ok b" and s: "s < 81" and t: "t < 81"
  shows "attacks b c occ t s \<longleftrightarrow>
    (board_arr b t = piece_Make c kPawn \<and> bb_Test (PawnEffectBB s (opp c)) t) \<or>
    (board_arr b t = piece_Make c kLance \<and> bb_Test (LanceEffect (opp c) s occ) t) \<or>
    (board_arr b t = piece_Make c kKnight \<and> bb_Test (KnightEffectBB s (opp c)) t) \<or>
    (board_arr b t = piece_Make c kSilver \<and> bb_Test (SilverEffectBB s (opp c)) t) \<or>
    (board_arr b t \<in> piece_Make c ` {kGold, kProPawn, kProLance, kProKnight, kProSilver} \<and>
       bb_Test (GoldEffectBB s (opp c)) t) \<or>
    (board_arr b t \<in> piece_Make c ` {kBishop, kHorse} \<and> bb_Test (BishopEffect s occ) t) \<or>
    (board_arr b t \<in> piece_Make c ` {kRook, kDragon} \<and> bb_Test (RookEffect s occ) t) \<or>
    (board_arr b t = piece_Make c kKing \<and> bb_Test (KingEffectBB s) t) \<or>
    (board_arr b t = piece_Make c kHorse \<and> bb_Test (HorseStepBB s) t) \<or>
    (board_arr b t = piece_Make c kDragon \<and> bb_Test (DragonStepBB s) t)"
proof -
  define pt where "pt = piece_GetType (board_arr b t)"
  note sym = step_symmetric(1-4) [OF t s, of c] step_symmetric(5-7) [OF t s] LanceEffect_symmetric [OF t s, of c occ]
    RookEffect_symmetric [OF t s, of occ] BishopEffect_symmetric [OF t s, of occ]
  show ?thesis
  proof (cases "board_arr b t \<noteq> 0 \<and> piece_GetColor (board_arr b t) = c")
    case True
    have ok: "piece_ok (board_arr b t)" using board_okD(1) [OF b t] .
    have pt: "1 \<le> pt" "pt \<le> 14" using piece_ok_type [OF ok] True by (simp_all add: pt_def)
    have v: "board_arr b t = piece_Make c pt"
      using piece_eq_Make [OF ok] True by (simp add: pt_def)
    have "attacks b c occ t s \<longleftrightarrow> bb_Test (PieceAttacks pt c t occ) s"
      using True by (simp add: attacks_def pt_def)
    moreover have "pt \<in> {1, 2, 3, 4, 5, 6, 7, 8, 9, 10, 11, 12, 13, 14}"
      using pt by (simp only: insert_iff empty_iff) presburger
    ultimately show ?thesis
      unfolding v using sym
      by (elim insertE emptyE) (simp_all add: PieceAttacks_def piece_type_defs Test_Or disj_commute)
  next
    case False
    then have "board_arr b t \<noteq> piece_Make c u" if "1 \<le> u" "u < 16" for u
      using piece_Make_sel(2,4) that by metis
    then show ?thesis using False by (auto simp: attacks_def piece_type_defs)
  qed
qed

lemma Test_golds_of:
  assumes "board_ok b" "t < 81"
  shows "bb_Test (golds_of b c) t \<longleftrightarrow>
    board_arr b t \<in> piece_Make c ` {kGold, kProPawn, kProLance, kProKnight, kProSilver}"
  using assms by (simp add: golds_of_def Test_Or Test_pieces_ct piece_type_defs)

lemma Test_like:
  assumes "board_ok b" "t < 81"
  shows "bb_Test (rook_like b c) t \<longleftrightarrow> board_arr b t \<in> piece_Make c ` {kRook, kDragon}"
    and "bb_Test (bishop_like b c) t \<longleftrightarrow> board_arr b t \<in> piece_Make c ` {kBishop, kHorse}"
  using assms by (simp_all add: rook_like_def bishop_like_def Test_Or Test_pieces_ct piece_type_defs)

lemma Test_AttackersTo_c [board_simps]:
  assumes "board_ok b" "s < 81" "t < 81"
  shows "bb_Test (AttackersTo_c b s occ c) t \<longleftrightarrow> attacks b c occ t s"
proof -
  note p = Test_pieces_ct [OF assms(1,3)] Test_golds_of [OF assms(1,3)] Test_like [OF assms(1,3)]
  show ?thesis
    unfolding attacks_cases [OF assms] AttackersTo_c_def Let_def Test_Or Test_And p(2-)
    by (simp only: p(1) piece_type_defs) (simp add: p(1), blast)
qed

lemma bb_ok_AttackersTo_c [bb_intros]:
  "board_ok b \<Longrightarrow> s < 81 \<Longrightarrow> bb_ok (AttackersTo_c b s occ c)"
  by (simp add: AttackersTo_c_def Let_def bb_ok_Or bb_ok_And1)

lemma Test_by_type:
  assumes "board_ok b" "t < 81" "1 \<le> pt" "pt < 16"
  shows "bb_Test (by_type b pt) t \<longleftrightarrow> (\<exists>c. board_arr b t = piece_Make c pt)"
proof -
  have "board_arr b t \<noteq> 0 \<and> piece_GetType (board_arr b t) = pt \<longleftrightarrow> (\<exists>c. board_arr b t = piece_Make c pt)"
    using piece_eq_Make [of "board_arr b t"] board_okD(1) [OF assms(1,2)] piece_Make_sel(1) [OF assms(4)]
      piece_Make_sel(4) [OF assms(3,4)] by metis
  then show ?thesis using board_okD(5) [OF assms(1,4,2)] by simp
qed

lemma ex_color: "(\<exists>c. P c) \<longleftrightarrow> P BLACK \<or> P WHITE"
  by (metis color.exhaust)

lemma Test_AttackersTo [board_simps]:
  assumes "board_ok b" "s < 81" "t < 81"
  shows "bb_Test (AttackersTo b s occ) t \<longleftrightarrow> (\<exists>c. attacks b c occ t s)"
proof -
  have q: "bb_Test (by_type b pt) t \<longleftrightarrow> bb_Test (pieces_ct b BLACK pt) t \<or> bb_Test (pieces_ct b WHITE pt) t"
    if "1 \<le> pt" "pt < 16" for pt
    using Test_by_type [OF assms(1,3) that] Test_pieces_ct [OF assms(1,3) that] by (simp add: ex_color)
  have q: "bb_Test (by_type b kKing) t \<longleftrightarrow> bb_Test (pieces_ct b BLACK kKing) t \<or> bb_Test (pieces_ct b WHITE kKing) t"
    "bb_Test (by_type b kRook) t \<longleftrightarrow> bb_Test (pieces_ct b BLACK kRook) t \<or> bb_Test (pieces_ct b WHITE kRook) t"
    "bb_Test (by_type b kBishop) t \<longleftrightarrow> bb_Test (pieces_ct b BLACK kBishop) t \<or> bb_Test (pieces_ct b WHITE kBishop) t"
    "bb_Test (by_type b kHorse) t \<longleftrightarrow> bb_Test (pieces_ct b BLACK kHorse) t \<or> bb_Test (pieces_ct b WHITE kHorse) t"
    "bb_Test (by_type b kDragon) t \<longleftrightarrow> bb_Test (pieces_ct b BLACK kDragon) t \<or> bb_Test (pieces_ct b WHITE kDragon) t"
    by (rule q; simp add: piece_type_defs)+
  have "bb_Test (AttackersTo b s occ) t \<longleftrightarrow>
    bb_Test (AttackersTo_c b s occ BLACK) t \<or> bb_Test (AttackersTo_c b s occ WHITE) t"
    unfolding AttackersTo_def AttackersTo_c_def Let_def fold.simps o_apply id_apply Test_Or Test_And q
      rook_like_def bishop_like_def opp.simps
    by (rule iffI; elim disjE conjE; simp)
  then show ?thesis using assms by (simp add: Test_AttackersTo_c ex_color)
qed

lemma Any_and_iff:
  "bb_ok x \<Longrightarrow> bb_Any (bb_And x y) \<longleftrightarrow> (\<exists>t<81. bb_Test x t \<and> bb_Test y t)"
  by (simp add: bb_Any_iff_Test bb_ok_And1 Test_And)

text \<open>The empty-board masks of the fast query contain the sliding attacks.\<close>

lemma rook_dirs_aligned:
  "d \<in> set rook_dirs \<Longrightarrow> steps_to s d k t \<Longrightarrow> sq_file t = sq_file s \<or> sq_rank t = sq_rank s"
  by (auto simp: rook_dirs_def steps_to_def)

lemma slider_in_mask:
  assumes "s < 81" "t < 81"
  shows "bb_Test (RookEffect s occ) t \<Longrightarrow> bb_Test (RookEffectBB s) t"
    and "bb_Test (BishopEffect s occ) t \<Longrightarrow> bb_Test (BishopEffectBB s) t"
    and "bb_Test (LanceEffect c s occ) t \<Longrightarrow> bb_Test (LanceMaskBB s c) t"
proof -
  assume "bb_Test (RookEffect s occ) t"
  then obtain d where d: "d \<in> set rook_dirs" "t \<in> set (ray_from s d)"
    using assms ray_reach_subset by (auto simp: RookEffect_rays)
  have u: "unit_dir d" using d unit_dir_rook_bishop by blast
  then obtain k where k: "1 \<le> k" "steps_to s d k t" using d set_ray_from [OF assms(1)] by blast
  have "s \<noteq> t"
  proof
    assume "s = t"
    then have "steps_to s d 0 t" by (simp add: steps_to_def)
    with k steps_to_inj [OF u] show False by (metis not_one_le_zero)
  qed
  with rook_dirs_aligned [OF d(1) k(2)] assms show "bb_Test (RookEffectBB s) t"
    by (simp add: Test_RookEffectBB)
next
  show "bb_Test (BishopEffect s occ) t \<Longrightarrow> bb_Test (BishopEffectBB s) t"
    using assms ray_reach_subset by (auto simp: BishopEffect_rays Test_BishopEffectBB)
  show "bb_Test (LanceEffect c s occ) t \<Longrightarrow> bb_Test (LanceMaskBB s c) t"
    using assms ray_reach_subset by (auto simp: LanceEffect_ray LanceMask_ray)
qed

lemma IsSquareAttacked_iff [board_simps]:
  assumes b: "board_ok b" and s: "s < 81"
  shows "IsSquareAttacked b s occ c \<longleftrightarrow> (\<exists>t<81. attacks b c occ t s)"
proof -
  let ?A = "\<lambda>x y. bb_Any (bb_And x y)"
  have mask: "?A (LanceMaskBB s (opp c)) (pieces_ct b c kLance) \<and> ?A (LanceEffect (opp c) s occ) (pieces_ct b c kLance)
      \<longleftrightarrow> ?A (LanceEffect (opp c) s occ) (pieces_ct b c kLance)"
    "?A (RookEffectBB s) (rook_like b c) \<and> ?A (RookEffect s occ) (rook_like b c) \<longleftrightarrow> ?A (RookEffect s occ) (rook_like b c)"
    "?A (BishopEffectBB s) (bishop_like b c) \<and> ?A (BishopEffect s occ) (bishop_like b c) \<longleftrightarrow> ?A (BishopEffect s occ) (bishop_like b c)"
    using s slider_in_mask [OF s] by (auto simp: Any_and_iff)
  have "IsSquareAttacked b s occ c \<longleftrightarrow> bb_Any (AttackersTo_c b s occ c)"
    unfolding IsSquareAttacked_def mask AttackersTo_c_def Let_def
    by (auto simp: bb_Any_iff bb_Or_def or_eq_0_iff)
  also have "\<dots> \<longleftrightarrow> (\<exists>t<81. attacks b c occ t s)"
    using b s by (auto simp: bb_Any_iff_Test bb_ok_AttackersTo_c Test_AttackersTo_c)
  finally show ?thesis .
qed

lemma IsSquareAttacked_Any:
  "board_ok b \<Longrightarrow> s < 81 \<Longrightarrow> IsSquareAttacked b s occ c \<longleftrightarrow> bb_Any (AttackersTo_c b s occ c)"
  by (auto simp: bb_Any_iff_Test bb_ok_AttackersTo_c Test_AttackersTo_c IsSquareAttacked_iff)

lemma InCheck_iff:
  "board_ok b \<Longrightarrow> king_sq b c < 81 \<Longrightarrow>
    InCheck b c \<longleftrightarrow> (\<exists>t<81. attacks b (opp c) (occupied b) t (king_sq b c))"
  by (simp add: InCheck_def IsSquareAttacked_iff)

lemma PieceAttacks_Step_Sliding:
  assumes "pt < 15" "s < 81" "t < 81"
  shows "bb_Test (PieceAttacks pt c s occ) t \<longleftrightarrow>
    bb_Test (StepAttacks pt c s) t \<or> bb_Test (SlidingAttacks pt c s occ) t"
  by (auto simp: PieceAttacks_def StepAttacks_def SlidingAttacks_def piece_type_defs Test_Or)

text \<open>C16: the reverse lookup of attackers and the fast attacked-or-not query agree with the
  forward attack sets: a square is reported attacked by a colour exactly when some piece of that
  colour on the board has the square in its attack set for the given occupancy, and the attacker
  boards hold exactly these pieces.\<close>

theorem attack_queries_agree:
  assumes "board_ok b" "s < 81"
  shows "(\<forall>t. t < 81 \<longrightarrow> bb_Test (AttackersTo_c b s occ c) t =
      (board_arr b t \<noteq> 0 \<and> piece_GetColor (board_arr b t) = c \<and>
       bb_Test (PieceAttacks (piece_GetType (board_arr b t)) c t occ) s)) \<and>
    (\<forall>t. t < 81 \<longrightarrow> bb_Test (AttackersTo b s occ) t =
      (\<exists>c'. bb_Test (AttackersTo_c b s occ c') t)) \<and>
    IsSquareAttacked b s occ c = bb_Any (AttackersTo_c b s occ c)"
  using assms
  by (simp add: Test_AttackersTo_c Test_AttackersTo IsSquareAttacked_Any) (simp add: attacks_def)

theorem attack_queries_agree_witness:
  "board_ok sample_board \<and>
   IsSquareAttacked sample_board 45 (occupied sample_board) BLACK =
     bb_Any (AttackersTo_c sample_board 45 (occupied sample_board) BLACK) \<and>
   bb_Test (AttackersTo_c sample_board 45 (occupied sample_board) BLACK) 44 =
     bb_Test (PieceAttacks 8 BLACK 44 (occupied sample_board)) 45"
  using attack_queries_agree [OF sample_board_ok(1), of 45 "occupied sample_board" BLACK] sample_board_ok(1)
  by (simp add: sample_board_arr piece_GetColor_def piece_GetType_mod)

end
