(* ===== verification/Hashing.thy ===== *)
theory Hashing
  imports Board
begin

text \<open>
  Zobrist hashing of shogi/board.cc: the splitmix64 generator, the key tables it fills at
  start-up in index order, the hash of a hand and the hash of a position from scratch.
  The tables are functions of their index: the entry is the output of the generator at the
  position of that entry in the filling order.
\<close>

subsection \<open>The key tables\<close>

definition zobrist_seed :: u64 where
  "zobrist_seed = 0x70736575646F7267"

definition Rand64 :: "u64 \<Rightarrow> u64 \<times> u64" where
  "Rand64 s =
     (let s = s + 0x9E3779B97F4A7C15; z = s;
          z = (z XOR drop_bit 30 z) * 0xBF58476D1CE4E5B9;
          z = (z XOR drop_bit 27 z) * 0x94D049BB133111EB
      in (z XOR drop_bit 31 z, s))"

primrec rand_state :: "nat \<Rightarrow> u64" where
  "rand_state 0 = zobrist_seed"
| "rand_state (Suc n) = snd (Rand64 (rand_state n))"

definition rand_nth :: "nat \<Rightarrow> u64" where
  "rand_nth n = fst (Rand64 (rand_state n))"

definition zPsq :: "piece \<Rightarrow> square \<Rightarrow> u64" where
  "zPsq pc sq = rand_nth (pc * 81 + sq)"

definition zHandPiece :: "color \<Rightarrow> piece_type \<Rightarrow> nat \<Rightarrow> u64" where
  "zHandPiece c pt n = rand_nth (32 * 81 + (color_idx c * 8 + pt) * 20 + n)"

definition zSide :: u64 where
  "zSide = rand_nth (32 * 81 + 2 * 8 * 20)"

lemma rand_state_eq: "rand_state n = zobrist_seed + of_nat n * 0x9E3779B97F4A7C15"
  by (induction n) (simp_all add: Rand64_def Let_def algebra_simps)

subsection \<open>Hashing a hand and a position\<close>

definition HashHand :: "color \<Rightarrow> hand \<Rightarrow> u64" where
  "HashHand c h =
     fold (\<lambda>pt z. let n = hand_Count h pt in if n > 0 then z XOR zHandPiece c pt n else z)
       [1..<8] 0"

definition piece_key :: "shogi_board \<Rightarrow> square \<Rightarrow> u64" where
  "piece_key b sq = (if piece_IsNone (board_arr b sq) then 0 else zPsq (board_arr b sq) sq)"

definition full_hash :: "shogi_board \<Rightarrow> u64" where
  "full_hash b =
     (let h = fold (\<lambda>sq h. if \<not> piece_IsNone (board_arr b sq) then h XOR zPsq (board_arr b sq) sq else h)
            [0..<81] 0;
          h = h XOR HashHand BLACK (hands b BLACK);
          h = h XOR HashHand WHITE (hands b WHITE)
      in if side_to_move b = WHITE then h XOR zSide else h)"

definition ComputeHash :: "shogi_board \<Rightarrow> shogi_board" where
  "ComputeHash b = b\<lparr>hash := full_hash b\<rparr>"

subsection \<open>Sums of keys\<close>

definition xor_sum :: "('a \<Rightarrow> u64) \<Rightarrow> 'a list \<Rightarrow> u64" where
  "xor_sum f xs = fold (\<lambda>s h. h XOR f s) xs 0"

lemma xor_fold_start: "fold (\<lambda>s h. h XOR f s) xs z = z XOR xor_sum f xs"
proof -
  have "fold (\<lambda>s h. h XOR f s) xs (z XOR w) = z XOR fold (\<lambda>s h. h XOR f s) xs w" for w :: u64
    by (induction xs arbitrary: w) (simp_all add: xor.assoc)
  from this [of 0] show ?thesis by (simp add: xor_sum_def)
qed

lemma xor_sum_Nil [simp]: "xor_sum f [] = 0"
  by (simp add: xor_sum_def)

lemma xor_sum_Cons [simp]: "xor_sum f (x # xs) = f x XOR xor_sum f xs"
proof -
  have "xor_sum f (x # xs) = fold (\<lambda>s h. h XOR f s) xs (f x)" by (simp add: xor_sum_def)
  then show ?thesis by (simp only: xor_fold_start)
qed

lemma xor_sum_cong: "(\<And>x. x \<in> set xs \<Longrightarrow> f x = g x) \<Longrightarrow> xor_sum f xs = xor_sum g xs"
  by (induction xs) simp_all

lemma xor_cancel [simp]: "a XOR (a XOR b) = (b :: u64)"
  by (simp add: xor.assoc [symmetric])

lemma xor_sum_upd:
  "distinct xs \<Longrightarrow> s \<in> set xs \<Longrightarrow> xor_sum (f(s := v)) xs = xor_sum f xs XOR f s XOR v"
proof (induction xs)
  case (Cons x xs)
  show ?case
  proof (cases "x = s")
    case True
    then have "xor_sum (f(s := v)) xs = xor_sum f xs"
      using Cons.prems by (intro xor_sum_cong) auto
    with True show ?thesis by (simp add: ac_simps fun_upd_def)
  next
    case False
    with Cons show ?thesis by (simp add: ac_simps)
  qed
qed simp

lemma full_hash_sum:
  "full_hash b = xor_sum (piece_key b) [0..<81] XOR HashHand BLACK (hands b BLACK)
     XOR HashHand WHITE (hands b WHITE) XOR (if side_to_move b = WHITE then zSide else 0)"
proof -
  have "fold (\<lambda>sq h. if \<not> piece_IsNone (board_arr b sq) then h XOR zPsq (board_arr b sq) sq else h) xs h
      = fold (\<lambda>s h. h XOR piece_key b s) xs h" for xs h
    by (induction xs arbitrary: h) (simp_all add: piece_key_def)
  then show ?thesis by (simp add: full_hash_def Let_def xor_sum_def ac_simps)
qed

lemma piece_key_Put:
  "board_arr b s = 0 \<Longrightarrow> pc \<noteq> 0 \<Longrightarrow>
    piece_key (PutPiece b s pc) = (piece_key b)(s := zPsq pc s)"
  by (auto simp: piece_key_def PutPiece_sel piece_IsNone_def)

lemma piece_key_Remove: "piece_key (snd (RemovePiece b s)) = (piece_key b)(s := 0)"
  by (auto simp: piece_key_def RemovePiece_sel piece_IsNone_def)

lemma piece_key_cong: "board_arr a = board_arr b \<Longrightarrow> piece_key a = piece_key b"
  by (simp add: piece_key_def fun_eq_iff)

lemma HashHand_sum:
  "HashHand c h = xor_sum (\<lambda>pt. if 0 < hand_Count h pt then zHandPiece c pt (hand_Count h pt) else 0) [1..<8]"
proof -
  have "fold (\<lambda>pt z. let n = hand_Count h pt in if n > 0 then z XOR zHandPiece c pt n else z) xs z =
    fold (\<lambda>pt z. z XOR (if 0 < hand_Count h pt then zHandPiece c pt (hand_Count h pt) else 0)) xs z" for xs z
    by (induction xs arbitrary: z) (simp_all add: Let_def)
  then show ?thesis by (simp add: HashHand_def xor_sum_def)
qed

end
