(* ===== verification/MoveApply.thy ===== *)
theory MoveApply
  imports Attacks Hashing
begin

text \<open>
  Making and taking back moves (\<open>DoMoveInternal\<close>, \<open>UndoMove\<close>) and the predicted keys
  (\<open>HashAfter\<close>, \<open>BoardKey\<close>, \<open>BoardKeyAfter\<close>) of shogi/board.cc, with the order of the
  updates the code has.  The lemmas separate a move into the change of placement and hands
  (\<open>place\<close>) and the changes of the other fields.
\<close>

record undo_info =
  captured :: piece
  prev_hand :: hand
  prev_hash :: u64
  prev_continuous_check :: int
  gave_check :: bool
  updated_auxiliary :: bool

subsection \<open>Making a move\<close>

definition xor_hash :: "bool \<Rightarrow> u64 \<Rightarrow> shogi_board \<Rightarrow> shogi_board" where
  "xor_hash upd z b = (if upd then b\<lparr>hash := hash b XOR z\<rparr> else b)"

definition push_history :: "shogi_board \<Rightarrow> shogi_board" where
  "push_history b =
     b\<lparr>history := history b @ [\<lparr>he_hash = hash b, hand_black = hands b BLACK, hand_white = hands b WHITE\<rparr>]\<rparr>"

definition set_hand :: "shogi_board \<Rightarrow> color \<Rightarrow> hand \<Rightarrow> shogi_board" where
  "set_hand b c h = b\<lparr>hands := (hands b)(c := h)\<rparr>"

definition do_drop :: "shogi_board \<Rightarrow> move \<Rightarrow> bool \<Rightarrow> shogi_board" where
  "do_drop b m upd =
     (let us = side_to_move b; pt = move_drop_piece m;
          b = xor_hash upd (HashHand us (hands b us)) b;
          b = set_hand b us (hand_Sub (hands b us) pt);
          b = xor_hash upd (HashHand us (hands b us)) b;
          pc = piece_Make us pt;
          b = PutPiece b (move_to m) pc
      in xor_hash upd (zPsq pc (move_to m)) b)"

definition do_capture :: "shogi_board \<Rightarrow> square \<Rightarrow> bool \<Rightarrow> piece \<times> shogi_board" where
  "do_capture b to upd =
     (let us = side_to_move b in
      if \<not> is_empty b to then
        let cap = piece_on b to;
            b = xor_hash upd (zPsq cap to) b;
            b = snd (RemovePiece b to);
            base = pt_Unpromote (piece_GetType cap);
            b = xor_hash upd (HashHand us (hands b us)) b;
            b = set_hand b us (hand_Add (hands b us) base);
            b = xor_hash upd (HashHand us (hands b us)) b
        in (cap, b)
      else (piece_None, b))"

definition do_board_move :: "shogi_board \<Rightarrow> move \<Rightarrow> bool \<Rightarrow> piece \<times> shogi_board" where
  "do_board_move b m upd =
     (let to = move_to m; from = move_from m;
          (cap, b) = do_capture b to upd;
          moved = piece_on b from;
          b = xor_hash upd (zPsq moved from) b;
          b = snd (RemovePiece b from);
          moved = (if move_is_promotion m then piece_Promote moved else moved);
          b = PutPiece b to moved
      in (cap, xor_hash upd (zPsq moved to) b))"

text \<open>The parameter \<open>gc\<close> is \<open>gives_check\<close>: negative when it must be computed.\<close>

definition DoMoveInternal :: "shogi_board \<Rightarrow> move \<Rightarrow> bool \<Rightarrow> int \<Rightarrow> undo_info \<times> shogi_board" where
  "DoMoveInternal b m upd gc =
     (let us = side_to_move b;
          undo = \<lparr>captured = piece_None, prev_hand = hands b us, prev_hash = hash b,
                  prev_continuous_check = continuous_check b us, gave_check = False,
                  updated_auxiliary = upd\<rparr>;
          b = (if upd then push_history b else b);
          (cap, b) = (if move_is_drop m then (piece_None, do_drop b m upd) else do_board_move b m upd);
          undo = undo\<lparr>captured := cap\<rparr>;
          b = xor_hash upd zSide b;
          b = b\<lparr>side_to_move := opp us, ply := ply b + 1\<rparr>
      in if upd then
           let chk = (if gc \<ge> 0 then gc \<noteq> 0 else InCheck b (opp us));
               n = (if chk then continuous_check b us + 2 else 0)
           in (undo\<lparr>gave_check := chk\<rparr>, b\<lparr>continuous_check := (continuous_check b)(us := n)\<rparr>)
         else (undo, b))"

definition DoMove :: "shogi_board \<Rightarrow> move \<Rightarrow> undo_info \<times> shogi_board" where
  "DoMove b m = DoMoveInternal b m True (-1)"

definition DoMove_gc :: "shogi_board \<Rightarrow> move \<Rightarrow> bool \<Rightarrow> undo_info \<times> shogi_board" where
  "DoMove_gc b m gives_check = DoMoveInternal b m True (if gives_check then 1 else 0)"

definition DoMoveForMovegen :: "shogi_board \<Rightarrow> move \<Rightarrow> undo_info \<times> shogi_board" where
  "DoMoveForMovegen b m = DoMoveInternal b m False (-1)"

subsection \<open>Taking a move back\<close>

definition UndoMove :: "shogi_board \<Rightarrow> move \<Rightarrow> undo_info \<Rightarrow> shogi_board" where
  "UndoMove b m undo =
     (let b = b\<lparr>side_to_move := opp (side_to_move b), ply := ply b - 1\<rparr>;
          us = side_to_move b;
          b = (if move_is_drop m then
                 set_hand (snd (RemovePiece b (move_to m))) us (prev_hand undo)
               else
                 let to = move_to m; from = move_from m;
                     (moved, b) = RemovePiece b to;
                     moved = (if move_is_promotion m then piece_Unpromote moved else moved);
                     b = PutPiece b from moved
                 in if \<not> piece_IsNone (captured undo)
                    then set_hand (PutPiece b to (captured undo)) us (prev_hand undo)
                    else b);
          b = (if updated_auxiliary undo
               then b\<lparr>hash := prev_hash undo,
                      continuous_check := (continuous_check b)(us := prev_continuous_check undo)\<rparr>
               else b)
      in if updated_auxiliary undo \<and> history b \<noteq> [] then b\<lparr>history := butlast (history b)\<rparr> else b)"

subsection \<open>Predicted keys\<close>

definition HashAfter :: "shogi_board \<Rightarrow> move \<Rightarrow> u64" where
  "HashAfter b m =
     (let h = hash b; us = side_to_move b;
          h = (if move_is_drop m then
                 let pt = move_drop_piece m; hd = hands b us;
                     h = h XOR HashHand us hd;
                     hd = hand_Sub hd pt;
                     h = h XOR HashHand us hd;
                     pc = piece_Make us pt
                 in h XOR zPsq pc (move_to m)
               else
                 let to = move_to m; from = move_from m; cap = piece_on b to;
                     h = (if \<not> piece_IsNone cap then
                            let h = h XOR zPsq cap to;
                                base = pt_Unpromote (piece_GetType cap);
                                hd = hands b us;
                                h = h XOR HashHand us hd;
                                hd = hand_Add hd base
                            in h XOR HashHand us hd
                          else h);
                     moved = piece_on b from;
                     h = h XOR zPsq moved from;
                     moved = (if move_is_promotion m then piece_Promote moved else moved)
                 in h XOR zPsq moved to)
      in h XOR zSide)"

definition BoardKey :: "shogi_board \<Rightarrow> u64" where
  "BoardKey b = hash b XOR HashHand BLACK (hands b BLACK) XOR HashHand WHITE (hands b WHITE)"

definition BoardKeyAfter :: "shogi_board \<Rightarrow> move \<Rightarrow> u64" where
  "BoardKeyAfter b m =
     (let h = BoardKey b; us = side_to_move b;
          h = (if move_is_drop m then
                 h XOR zPsq (piece_Make us (move_drop_piece m)) (move_to m)
               else
                 let to = move_to m; from = move_from m; cap = piece_on b to;
                     h = (if \<not> piece_IsNone cap then h XOR zPsq cap to else h);
                     moved = piece_on b from;
                     h = h XOR zPsq moved from;
                     moved = (if move_is_promotion m then piece_Promote moved else moved)
                 in h XOR zPsq moved to)
      in h XOR zSide)"

subsection \<open>What a move needs\<close>

text \<open>The conditions the callers guarantee: squares on the board, a drop of a hand piece on
  an empty square, a board move of an existing piece to another square that does not hold a king,
  and promotion only of the types that can promote.\<close>

definition move_pre :: "shogi_board \<Rightarrow> move \<Rightarrow> bool" where
  "move_pre b m \<longleftrightarrow> move_to m < 81 \<and>
     (if move_is_drop m then board_arr b (move_to m) = 0 \<and> pt_IsHandPiece (move_drop_piece m)
      else move_from m < 81 \<and> move_from m \<noteq> move_to m \<and> board_arr b (move_from m) \<noteq> 0 \<and>
        (move_is_promotion m \<longrightarrow> pt_CanPromote (piece_GetType (board_arr b (move_from m)))))"

subsection \<open>Placement and the other fields\<close>

text \<open>Changes of the non-placement fields commute with moving pieces.\<close>

lemma PutPiece_commute [board_simps]:
  "PutPiece (b\<lparr>hash := z\<rparr>) s pc = (PutPiece b s pc)\<lparr>hash := z\<rparr>"
  "PutPiece (b\<lparr>hands := h\<rparr>) s pc = (PutPiece b s pc)\<lparr>hands := h\<rparr>"
  "PutPiece (b\<lparr>history := hs\<rparr>) s pc = (PutPiece b s pc)\<lparr>history := hs\<rparr>"
  "PutPiece (b\<lparr>side_to_move := c\<rparr>) s pc = (PutPiece b s pc)\<lparr>side_to_move := c\<rparr>"
  "PutPiece (b\<lparr>ply := p\<rparr>) s pc = (PutPiece b s pc)\<lparr>ply := p\<rparr>"
  "PutPiece (b\<lparr>continuous_check := k\<rparr>) s pc = (PutPiece b s pc)\<lparr>continuous_check := k\<rparr>"
  by (simp_all add: PutPiece_def Let_def)

lemma RemovePiece_commute [board_simps]:
  "RemovePiece (b\<lparr>hash := z\<rparr>) s = (board_arr b s, (snd (RemovePiece b s))\<lparr>hash := z\<rparr>)"
  "RemovePiece (b\<lparr>hands := h\<rparr>) s = (board_arr b s, (snd (RemovePiece b s))\<lparr>hands := h\<rparr>)"
  "RemovePiece (b\<lparr>history := hs\<rparr>) s = (board_arr b s, (snd (RemovePiece b s))\<lparr>history := hs\<rparr>)"
  "RemovePiece (b\<lparr>side_to_move := c\<rparr>) s = (board_arr b s, (snd (RemovePiece b s))\<lparr>side_to_move := c\<rparr>)"
  "RemovePiece (b\<lparr>ply := p\<rparr>) s = (board_arr b s, (snd (RemovePiece b s))\<lparr>ply := p\<rparr>)"
  "RemovePiece (b\<lparr>continuous_check := k\<rparr>) s = (board_arr b s, (snd (RemovePiece b s))\<lparr>continuous_check := k\<rparr>)"
  by (simp_all add: RemovePiece_def Let_def)

text \<open>The placement and hand part of a move.\<close>

definition place_moved :: "shogi_board \<Rightarrow> move \<Rightarrow> piece" where
  "place_moved b m =
     (if move_is_promotion m then piece_Promote (board_arr b (move_from m)) else board_arr b (move_from m))"

definition place_pieces :: "shogi_board \<Rightarrow> move \<Rightarrow> shogi_board" where
  "place_pieces b m =
     (if move_is_drop m then PutPiece b (move_to m) (piece_Make (side_to_move b) (move_drop_piece m))
      else PutPiece
        (snd (RemovePiece (if board_arr b (move_to m) = 0 then b else snd (RemovePiece b (move_to m))) (move_from m)))
        (move_to m) (place_moved b m))"

definition place_hand :: "shogi_board \<Rightarrow> move \<Rightarrow> hand" where
  "place_hand b m =
     (let h = hands b (side_to_move b) in
      if move_is_drop m then hand_Sub h (move_drop_piece m)
      else if board_arr b (move_to m) = 0 then h
      else hand_Add h (pt_Unpromote (piece_GetType (board_arr b (move_to m)))))"

definition move_captured :: "shogi_board \<Rightarrow> move \<Rightarrow> piece" where
  "move_captured b m = (if move_is_drop m then 0 else board_arr b (move_to m))"

lemma InCheck_updates [board_simps]:
  "InCheck (b\<lparr>hash := z\<rparr>) c = InCheck b c" "InCheck (b\<lparr>hands := h\<rparr>) c = InCheck b c"
  "InCheck (b\<lparr>history := hs\<rparr>) c = InCheck b c" "InCheck (b\<lparr>side_to_move := d\<rparr>) c = InCheck b c"
  "InCheck (b\<lparr>ply := p\<rparr>) c = InCheck b c" "InCheck (b\<lparr>continuous_check := k\<rparr>) c = InCheck b c"
  by (simp_all add: InCheck_def IsSquareAttacked_def occupied_def pieces_def pieces_ct_def golds_of_def
      rook_like_def bishop_like_def)

definition move_gives_check :: "shogi_board \<Rightarrow> move \<Rightarrow> int \<Rightarrow> bool" where
  "move_gives_check b m gc =
     (if gc \<ge> 0 then gc \<noteq> 0 else InCheck (place_pieces b m) (opp (side_to_move b)))"

definition history_entry_of :: "shogi_board \<Rightarrow> history_entry" where
  "history_entry_of b = \<lparr>he_hash = hash b, hand_black = hands b BLACK, hand_white = hands b WHITE\<rparr>"

lemma do_drop_eq:
  "do_drop b m upd = (PutPiece b (move_to m) (piece_Make (side_to_move b) (move_drop_piece m)))
     \<lparr>hands := (hands b)(side_to_move b := hand_Sub (hands b (side_to_move b)) (move_drop_piece m)),
      hash := (if upd then hash b XOR HashHand (side_to_move b) (hands b (side_to_move b))
         XOR HashHand (side_to_move b) (hand_Sub (hands b (side_to_move b)) (move_drop_piece m))
         XOR zPsq (piece_Make (side_to_move b) (move_drop_piece m)) (move_to m) else hash b)\<rparr>"
  by (cases upd)
    (simp_all add: do_drop_def Let_def xor_hash_def set_hand_def board_simps xor.assoc)

lemma do_board_move_eq:
  assumes "\<not> move_is_drop m" "move_from m \<noteq> move_to m"
  shows "do_board_move b m upd =
    (board_arr b (move_to m), (place_pieces b m)
      \<lparr>hands := (hands b)(side_to_move b := place_hand b m),
       hash := (if upd then HashAfter b m XOR zSide else hash b)\<rparr>)"
proof (cases "board_arr b (move_to m) = 0")
  case True
  then show ?thesis using assms
    by (cases upd; cases "move_is_promotion m")
      (simp_all add: do_board_move_def do_capture_def Let_def xor_hash_def is_empty_def piece_IsNone_def
        piece_on_def board_simps place_pieces_def place_hand_def place_moved_def HashAfter_def piece_None_def
        fun_upd_idem ac_simps)
next
  case False
  then show ?thesis using assms
    by (cases upd; cases "move_is_promotion m")
      (simp_all add: do_board_move_def do_capture_def Let_def xor_hash_def set_hand_def is_empty_def piece_IsNone_def
        piece_on_def board_simps place_pieces_def place_hand_def place_moved_def HashAfter_def piece_None_def
        ac_simps)
qed

lemma do_drop_place:
  assumes "move_is_drop m"
  shows "do_drop b m upd = (place_pieces b m)
      \<lparr>hands := (hands b)(side_to_move b := place_hand b m),
       hash := (if upd then HashAfter b m XOR zSide else hash b)\<rparr>"
  using assms
  by (simp add: do_drop_eq place_pieces_def place_hand_def HashAfter_def Let_def ac_simps)

lemma place_push [simp]:
  "place_pieces (push_history b) m = (place_pieces b m)\<lparr>history := history b @ [history_entry_of b]\<rparr>"
  "place_hand (push_history b) m = place_hand b m" "HashAfter (push_history b) m = HashAfter b m"
  "side_to_move (push_history b) = side_to_move b" "hash (push_history b) = hash b"
  "hands (push_history b) = hands b" "board_arr (push_history b) = board_arr b"
  "continuous_check (push_history b) = continuous_check b" "ply (push_history b) = ply b"
  by (simp_all add: push_history_def place_pieces_def place_hand_def place_moved_def HashAfter_def
      board_simps piece_on_def history_entry_of_def Let_def)

lemma place_pieces_sel [simp]:
  "hands (place_pieces b m) = hands b" "side_to_move (place_pieces b m) = side_to_move b"
  "ply (place_pieces b m) = ply b" "hash (place_pieces b m) = hash b"
  "continuous_check (place_pieces b m) = continuous_check b" "history (place_pieces b m) = history b"
  by (simp_all add: place_pieces_def board_simps)

lemma DoMoveInternal_eq:
  fixes b :: shogi_board and m :: move and upd :: bool and gc :: int
  assumes "move_is_drop m \<or> move_from m \<noteq> move_to m"
  defines "us \<equiv> side_to_move b" and "chk \<equiv> upd \<and> move_gives_check b m gc"
  shows "DoMoveInternal b m upd gc =
    (\<lparr>captured = move_captured b m, prev_hand = hands b us, prev_hash = hash b,
      prev_continuous_check = continuous_check b us, gave_check = chk, updated_auxiliary = upd\<rparr>,
     (place_pieces b m)
      \<lparr>hands := (hands b)(us := place_hand b m), side_to_move := opp us, ply := ply b + 1,
       hash := (if upd then HashAfter b m else hash b),
       continuous_check := (if upd then (continuous_check b)(us := if chk then continuous_check b us + 2 else 0)
                            else continuous_check b),
       history := (if upd then history b @ [history_entry_of b] else history b)\<rparr>)"
proof (cases "move_is_drop m")
  case True
  then show ?thesis
    by (cases upd)
      (simp_all add: DoMoveInternal_def Let_def do_drop_place move_captured_def us_def chk_def xor_hash_def
        move_gives_check_def board_simps ac_simps piece_None_def)
next
  case False
  with assms(1) have "move_from m \<noteq> move_to m" by simp
  with False show ?thesis
    by (cases upd)
      (simp_all add: DoMoveInternal_def Let_def do_board_move_eq move_captured_def us_def chk_def xor_hash_def
        move_gives_check_def board_simps ac_simps piece_None_def)
qed

subsection \<open>Taking back restores the position\<close>

lemma hand_piece_not_king: "pt_IsHandPiece pt \<Longrightarrow> 1 \<le> pt \<and> pt < 16 \<and> pt \<noteq> kKing"
  by (auto simp: pt_IsHandPiece_def kKing_def)

lemma unplace_drop:
  assumes "board_ok b" "move_pre b m" "move_is_drop m"
  shows "RemovePiece (place_pieces b m) (move_to m) =
    (piece_Make (side_to_move b) (move_drop_piece m), b)"
  using assms hand_piece_not_king [of "move_drop_piece m"]
  by (simp add: place_pieces_def move_pre_def RemovePiece_PutPiece)

definition without_captured :: "shogi_board \<Rightarrow> move \<Rightarrow> shogi_board" where
  "without_captured b m = (if board_arr b (move_to m) = 0 then b else snd (RemovePiece b (move_to m)))"

lemma without_captured_props:
  assumes "board_ok b" "move_pre b m" "\<not> move_is_drop m"
  shows "board_ok (without_captured b m)" "board_arr (without_captured b m) (move_to m) = 0"
    "board_arr (without_captured b m) (move_from m) = board_arr b (move_from m)"
    "king_sq (without_captured b m) = king_sq b"
  using assms by (auto simp: without_captured_def move_pre_def board_ok_RemovePiece RemovePiece_sel)

lemma place_moved_props:
  assumes "board_ok b" "move_pre b m" "\<not> move_is_drop m"
  shows "piece_ok (place_moved b m)" "place_moved b m \<noteq> 0"
    "piece_GetColor (place_moved b m) = piece_GetColor (board_arr b (move_from m))"
    "(if move_is_promotion m then piece_Unpromote (place_moved b m) else place_moved b m) = board_arr b (move_from m)"
    "piece_GetType (place_moved b m) = kKing \<Longrightarrow>
       \<not> move_is_promotion m \<and> place_moved b m = board_arr b (move_from m)"
    "pt_Unpromote (piece_GetType (place_moved b m)) = pt_Unpromote (piece_GetType (board_arr b (move_from m)))"
proof -
  let ?v = "board_arr b (move_from m)"
  have v: "piece_ok ?v" "?v \<noteq> 0" using assms board_okD(1) [OF assms(1)] by (simp_all add: move_pre_def)
  have p: "move_is_promotion m \<Longrightarrow> pt_CanPromote (piece_GetType ?v)"
    using assms by (simp add: move_pre_def)
  note pr = piece_Promote_props [OF v(1) p]
  have idem: "pt_CanPromote (piece_GetType ?v) \<Longrightarrow> pt_Unpromote (piece_GetType ?v) = piece_GetType ?v"
    by (auto simp: pt_CanPromote_def pt_Unpromote_def nat_and_7)
  show "piece_ok (place_moved b m)" "place_moved b m \<noteq> 0"
    "piece_GetColor (place_moved b m) = piece_GetColor ?v"
    "(if move_is_promotion m then piece_Unpromote (place_moved b m) else place_moved b m) = ?v"
    "piece_GetType (place_moved b m) = kKing \<Longrightarrow> \<not> move_is_promotion m \<and> place_moved b m = ?v"
    "pt_Unpromote (piece_GetType (place_moved b m)) = pt_Unpromote (piece_GetType ?v)"
    using v pr p idem by (auto simp: place_moved_def)
qed

lemma PutPiece_king_sq:
  "piece_GetType pc = kKing \<Longrightarrow>
    PutPiece (b\<lparr>king_sq := (king_sq b)(piece_GetColor pc := x)\<rparr>) s pc = PutPiece b s pc"
  by (simp add: PutPiece_def Let_def)

lemma unplace_board:
  assumes b: "board_ok b" and m: "move_pre b m" and d: "\<not> move_is_drop m"
  defines "q \<equiv> snd (RemovePiece (place_pieces b m) (move_to m))"
  shows "fst (RemovePiece (place_pieces b m) (move_to m)) = place_moved b m"
    and "PutPiece q (move_from m) (board_arr b (move_from m)) = without_captured b m"
    and "board_arr b (move_to m) \<noteq> 0 \<Longrightarrow>
      PutPiece (without_captured b m) (move_to m) (board_arr b (move_to m)) = b"
proof -
  let ?w = "without_captured b m" let ?r = "snd (RemovePiece ?w (move_from m))"
  let ?v = "board_arr b (move_from m)" let ?pc = "place_moved b m"
  note w = without_captured_props [OF b m d]
  note pm = place_moved_props [OF b m d]
  have lt: "move_to m < 81" "move_from m < 81" "move_from m \<noteq> move_to m" "?v \<noteq> 0"
    using m d by (simp_all add: move_pre_def)
  have pl: "place_pieces b m = PutPiece ?r (move_to m) ?pc"
    using d by (simp add: place_pieces_def without_captured_def)
  have r: "board_ok ?r" "board_arr ?r (move_to m) = 0"
    using board_ok_RemovePiece [OF w(1) lt(2)] w(2) lt(3) by (simp_all add: RemovePiece_sel)
  note rp = RemovePiece_PutPiece [OF r(1) lt(1) r(2), of ?pc]
  show "fst (RemovePiece (place_pieces b m) (move_to m)) = ?pc" by (simp add: pl rp)
  have restored: "PutPiece ?r (move_from m) ?v = ?w"
    using PutPiece_RemovePiece [OF w(1) lt(2)] lt(4) by (simp add: w(3))
  show "PutPiece q (move_from m) ?v = ?w"
  proof (cases "piece_GetType ?pc = kKing")
    case True
    with pm(5) have "?pc = ?v" by simp
    with True show ?thesis unfolding q_def pl rp using restored by (simp add: PutPiece_king_sq)
  next
    case False
    then show ?thesis using restored by (simp add: q_def pl rp)
  qed
  show "PutPiece ?w (move_to m) (board_arr b (move_to m)) = b" if "board_arr b (move_to m) \<noteq> 0"
    using PutPiece_RemovePiece [OF b lt(1) that] that by (simp add: without_captured_def)
qed

lemma UndoMove_DoMoveInternal:
  assumes b: "board_ok b" and m: "move_pre b m"
  shows "UndoMove (snd (DoMoveInternal b m upd gc)) m (fst (DoMoveInternal b m upd gc)) = b"
proof -
  have ne: "move_is_drop m \<or> move_from m \<noteq> move_to m" using m by (auto simp: move_pre_def)
  note eq = DoMoveInternal_eq [OF ne, of b upd gc]
  show ?thesis
  proof (cases "move_is_drop m")
    case True
    note un = unplace_drop [OF b m True]
    show ?thesis
      by (simp add: eq UndoMove_def Let_def True set_hand_def board_simps un)
  next
    case False
    note un = unplace_board [OF b m False]
    note pm = place_moved_props(4) [OF b m False]
    obtain q where q: "RemovePiece (place_pieces b m) (move_to m) = (place_moved b m, q)"
      using un(1) by (metis prod.collapse)
    have arr: "board_arr (place_pieces b m) (move_to m) = place_moved b m"
      using False by (simp add: place_pieces_def PutPiece_sel)
    have restored: "PutPiece q (move_from m) (board_arr b (move_from m)) = without_captured b m"
      using un(2) q by simp
    have wsel: "hands (without_captured b m) = hands b" "side_to_move (without_captured b m) = side_to_move b"
      "ply (without_captured b m) = ply b" "hash (without_captured b m) = hash b"
      "continuous_check (without_captured b m) = continuous_check b" "history (without_captured b m) = history b"
      by (simp_all add: without_captured_def RemovePiece_sel)
    show ?thesis
    proof (cases "board_arr b (move_to m) = 0")
      case True
      then have w: "without_captured b m = b" "move_captured b m = 0" "place_hand b m = hands b (side_to_move b)"
        using False by (simp_all add: without_captured_def move_captured_def place_hand_def Let_def)
      show ?thesis
        by (simp add: eq UndoMove_def Let_def False board_simps q arr pm restored w piece_IsNone_def)
    next
      case cap: False
      then have w: "move_captured b m = board_arr b (move_to m)"
        using False by (simp add: move_captured_def)
      show ?thesis
        by (simp add: eq UndoMove_def Let_def False set_hand_def board_simps q arr pm restored w piece_IsNone_def cap
            un(3) [OF cap])
    qed
  qed
qed

subsection \<open>The invariant is preserved\<close>

lemma board_ok_place_pieces:
  assumes b: "board_ok b" and m: "move_pre b m"
  shows "board_ok (place_pieces b m)"
proof (cases "move_is_drop m")
  case True
  let ?pc = "piece_Make (side_to_move b) (move_drop_piece m)"
  have d: "1 \<le> move_drop_piece m" "move_drop_piece m \<le> 14" "move_drop_piece m < 16"
    "move_drop_piece m \<noteq> kKing" and to: "move_to m < 81" "board_arr b (move_to m) = 0"
    using True m by (auto simp: move_pre_def pt_IsHandPiece_def kKing_def)
  have "board_ok (PutPiece b (move_to m) ?pc)"
    using d(4) piece_Make_sel(1) [OF d(3)]
    by (intro board_ok_PutPiece b to piece_Make_sel(3) [OF d(1,2)] piece_Make_sel(4) [OF d(1,3)]) simp
  then show ?thesis using True by (simp add: place_pieces_def)
next
  case False
  let ?w = "without_captured b m" let ?r = "snd (RemovePiece ?w (move_from m))"
  note w = without_captured_props [OF b m False]
  note pm = place_moved_props [OF b m False]
  have lt: "move_to m < 81" "move_from m < 81" "move_from m \<noteq> move_to m"
    using m False by (simp_all add: move_pre_def)
  have r: "board_ok ?r" "board_arr ?r (move_to m) = 0"
    using board_ok_RemovePiece [OF w(1) lt(2)] w(2) lt(3) by (simp_all add: RemovePiece_sel)
  have "board_arr ?r t \<noteq> place_moved b m" if king: "piece_GetType (place_moved b m) = kKing" and t: "t < 81" for t
  proof
    assume e: "board_arr ?r t = place_moved b m"
    let ?v = "board_arr b (move_from m)"
    have "t \<noteq> move_from m" using e pm(2) by (auto simp: RemovePiece_sel)
    then have "board_arr ?w t = ?v" using e pm(5) [OF king] by (simp add: RemovePiece_sel)
    moreover have k: "?v = piece_Make (piece_GetColor ?v) kKing"
      using pm(5) [OF king] king king_piece_iff [of ?v] pm(1,2) by simp
    ultimately have "king_sq ?w (piece_GetColor ?v) = t" "king_sq ?w (piece_GetColor ?v) = move_from m"
      using board_okD(6) [OF w(1) t] board_okD(6) [OF w(1) lt(2)] w(3) by simp_all
    with \<open>t \<noteq> move_from m\<close> show False by simp
  qed
  then have "board_ok (PutPiece ?r (move_to m) (place_moved b m))"
    by (intro board_ok_PutPiece r lt(1) pm(1,2)) blast
  then show ?thesis using False by (simp add: place_pieces_def without_captured_def)
qed

lemma board_arr_place_pieces:
  "\<not> move_is_drop m \<Longrightarrow> move_from m \<noteq> move_to m \<Longrightarrow>
    board_arr (place_pieces b m) = (board_arr b)(move_from m := 0, move_to m := place_moved b m)"
  "move_is_drop m \<Longrightarrow>
    board_arr (place_pieces b m) = (board_arr b)(move_to m := piece_Make (side_to_move b) (move_drop_piece m))"
  by (auto simp: place_pieces_def PutPiece_sel RemovePiece_sel)

lemma move_pre_neq: "move_pre b m \<Longrightarrow> move_is_drop m \<or> move_from m \<noteq> move_to m"
  by (auto simp: move_pre_def)

lemma board_ok_DoMoveInternal:
  assumes "board_ok b" "move_pre b m"
  shows "board_ok (snd (DoMoveInternal b m upd gc))"
  using board_ok_place_pieces [OF assms] by (simp add: DoMoveInternal_eq [OF move_pre_neq [OF assms(2)]] board_simps)

text \<open>No move of the game captures a king.\<close>

lemma kings_ok_DoMoveInternal:
  assumes b: "board_ok b" "kings_ok b" and m: "move_pre b m"
    and nk: "piece_GetType (move_captured b m) \<noteq> kKing"
  shows "kings_ok (snd (DoMoveInternal b m upd gc))"
proof -
  let ?p = "place_pieces b m"
  have ok: "board_ok ?p" by (rule board_ok_place_pieces [OF b(1) m])
  have "\<exists>s<81. board_arr ?p s = piece_Make c kKing" for c
  proof -
    have k: "king_sq b c < 81" "board_arr b (king_sq b c) = piece_Make c kKing"
      using b(2) by (simp_all add: kings_ok_def)
    show ?thesis
    proof (cases "move_is_drop m")
      case True
      then have "king_sq b c \<noteq> move_to m" using m k by (auto simp: move_pre_def kKing_def)
      with True k show ?thesis by (intro exI [of _ "king_sq b c"]) (simp add: board_arr_place_pieces)
    next
      case False
      have to: "king_sq b c \<noteq> move_to m"
        using nk k False by (auto simp: move_captured_def kKing_def)
      show ?thesis
      proof (cases "king_sq b c = move_from m")
        case True
        then have "\<not> move_is_promotion m" using m False k
          by (auto simp: move_pre_def pt_CanPromote_def kKing_def)
        then show ?thesis using True k False to m
          by (intro exI [of _ "move_to m"]) (auto simp: board_arr_place_pieces place_moved_def move_pre_def)
      next
        case f: False
        with k to False m show ?thesis
          by (intro exI [of _ "king_sq b c"]) (auto simp: board_arr_place_pieces move_pre_def)
      qed
    qed
  qed
  then have "kings_ok ?p" using board_okD(6) [OF ok] unfolding kings_ok_def by metis
  then show ?thesis
    by (simp add: DoMoveInternal_eq [OF move_pre_neq [OF m]] kings_ok_def)
qed

subsection \<open>The hash is the hash of the position\<close>

lemma xor_sum_place:
  assumes b: "board_ok b" and m: "move_pre b m"
  shows "xor_sum (piece_key (place_pieces b m)) [0..<81] = xor_sum (piece_key b) [0..<81] XOR
    (if move_is_drop m then zPsq (piece_Make (side_to_move b) (move_drop_piece m)) (move_to m)
     else (if board_arr b (move_to m) = 0 then 0 else zPsq (board_arr b (move_to m)) (move_to m)) XOR
       zPsq (board_arr b (move_from m)) (move_from m) XOR zPsq (place_moved b m) (move_to m))"
proof (cases "move_is_drop m")
  case True
  have nz: "piece_Make (side_to_move b) (move_drop_piece m) \<noteq> 0"
    using m True by (intro piece_Make_sel(4)) (simp_all add: move_pre_def pt_IsHandPiece_def)
  have "piece_key (place_pieces b m) =
    (piece_key b)(move_to m := zPsq (piece_Make (side_to_move b) (move_drop_piece m)) (move_to m))"
    using True m nz unfolding place_pieces_def move_pre_def by (simp add: piece_key_Put)
  moreover have "piece_key b (move_to m) = 0"
    using True m by (simp add: piece_key_def piece_IsNone_def move_pre_def)
  ultimately show ?thesis
    using True m xor_sum_upd [of "[0..<81]" "move_to m" "piece_key b"]
    by (simp add: move_pre_def del: upt_conv_Cons_Cons)
next
  case False
  have lt: "move_to m < 81" "move_from m < 81" "move_from m \<noteq> move_to m" "board_arr b (move_from m) \<noteq> 0"
    using m False by (simp_all add: move_pre_def)
  have key: "piece_key (place_pieces b m) =
    (piece_key b)(move_from m := 0, move_to m := zPsq (place_moved b m) (move_to m))"
    using board_arr_place_pieces(1) [OF False lt(3), of b] place_moved_props(2) [OF b m False]
    by (auto simp: piece_key_def piece_IsNone_def fun_eq_iff)
  have in_range: "move_to m \<in> set [0..<81]" "move_from m \<in> set [0..<81]" using lt by simp_all
  show ?thesis unfolding key
    using False lt xor_sum_upd [OF distinct_upt in_range(1), of "(piece_key b)(move_from m := 0)"]
      xor_sum_upd [OF distinct_upt in_range(2), of "piece_key b" 0]
    by (simp add: piece_key_def piece_IsNone_def ac_simps)
qed

lemma full_hash_DoMoveInternal:
  assumes b: "board_ok b" and m: "move_pre b m" and h: "hash b = full_hash b"
  shows "HashAfter b m = full_hash (snd (DoMoveInternal b m upd gc))"
proof -
  let ?b' = "snd (DoMoveInternal b m upd gc)"
  note eq = DoMoveInternal_eq [OF move_pre_neq [OF m], of b upd gc]
  have key: "piece_key ?b' = piece_key (place_pieces b m)" by (rule piece_key_cong) (simp add: eq)
  have sel: "hands ?b' = (hands b)(side_to_move b := place_hand b m)" "side_to_move ?b' = opp (side_to_move b)"
    by (simp_all add: eq)
  show ?thesis
    unfolding full_hash_sum [of ?b'] key xor_sum_place [OF b m] sel HashAfter_def Let_def h full_hash_sum [of b]
    by (cases "side_to_move b"; cases "move_is_drop m"; cases "board_arr b (move_to m) = 0")
      (simp_all add: place_hand_def place_moved_def piece_on_def piece_IsNone_def Let_def ac_simps)
qed

subsection \<open>Conservation of material\<close>

definition is_base :: "piece_type \<Rightarrow> piece \<Rightarrow> nat" where
  "is_base pt v = (if v \<noteq> 0 \<and> pt_Unpromote (piece_GetType v) = pt then 1 else 0)"

definition board_count :: "(nat \<Rightarrow> piece) \<Rightarrow> piece_type \<Rightarrow> nat" where
  "board_count f pt = (\<Sum>s<81. is_base pt (f s))"

text \<open>Pieces of a base type on the board, promoted or not, and in both hands.\<close>

definition material :: "shogi_board \<Rightarrow> piece_type \<Rightarrow> nat" where
  "material b pt = board_count (board_arr b) pt + hand_Count (hands b BLACK) pt + hand_Count (hands b WHITE) pt"

definition piece_supply :: "piece_type \<Rightarrow> nat" where
  "piece_supply pt = [0, 18, 4, 4, 4, 2, 2, 4] ! pt"

definition material_ok :: "shogi_board \<Rightarrow> bool" where
  "material_ok b \<longleftrightarrow> (\<forall>c. hand_ok (hands b c)) \<and>
     (\<forall>pt. pt_IsHandPiece pt \<longrightarrow> material b pt \<le> piece_supply pt)"

lemma board_count_upd:
  assumes "s < 81"
  shows "board_count (f(s := v)) pt + is_base pt (f s) = board_count f pt + is_base pt v"
proof -
  have split: "(\<Sum>u<81. g u) = g s + (\<Sum>u\<in>{..<81} - {s}. g u)" for g :: "nat \<Rightarrow> nat"
    using assms by (intro sum.remove) auto
  have "(\<Sum>u\<in>{..<81} - {s}. is_base pt ((f(s := v)) u)) = (\<Sum>u\<in>{..<81} - {s}. is_base pt (f u))"
    by (rule sum.cong) auto
  then show ?thesis
    unfolding board_count_def using split [of "\<lambda>u. is_base pt ((f(s := v)) u)"] split [of "\<lambda>u. is_base pt (f u)"]
    by simp
qed

lemma is_base_0 [simp]: "is_base pt 0 = 0"
  by (simp add: is_base_def)

lemma board_count_place:
  assumes b: "board_ok b" and m: "move_pre b m"
  shows "board_count (board_arr (place_pieces b m)) pt + is_base pt (move_captured b m) =
    board_count (board_arr b) pt + (if move_is_drop m \<and> pt = move_drop_piece m then 1 else 0)"
proof (cases "move_is_drop m")
  case True
  then have d: "move_drop_piece m < 16" "1 \<le> move_drop_piece m" "pt_Unpromote (move_drop_piece m) = move_drop_piece m"
    and to: "move_to m < 81" "board_arr b (move_to m) = 0"
    using m by (auto simp: move_pre_def pt_IsHandPiece_def pt_Unpromote_def nat_and_7)
  have "is_base pt (piece_Make (side_to_move b) (move_drop_piece m)) = (if pt = move_drop_piece m then 1 else 0)"
    using d piece_Make_sel(4) [OF d(2,1)] by (simp add: is_base_def)
  then show ?thesis
    using True to board_count_upd [OF to(1), of "board_arr b" "piece_Make (side_to_move b) (move_drop_piece m)" pt]
    by (simp add: board_arr_place_pieces move_captured_def)
next
  case False
  have lt: "move_to m < 81" "move_from m < 81" "move_from m \<noteq> move_to m" "board_arr b (move_from m) \<noteq> 0"
    using m False by (simp_all add: move_pre_def)
  have same: "is_base pt (place_moved b m) = is_base pt (board_arr b (move_from m))"
    using place_moved_props [OF b m False] lt(4) by (simp add: is_base_def)
  show ?thesis
    using board_count_upd [OF lt(1), of "(board_arr b)(move_from m := 0)" "place_moved b m" pt]
      board_count_upd [OF lt(2), of "board_arr b" 0 pt] lt same False
    by (simp add: board_arr_place_pieces move_captured_def)
qed

lemma hand_Add_0 [simp]: "hand_Add h 0 = h"
  by (simp add: hand_Add_def hand_kOne_def)

lemma supply_less_max: "pt_IsHandPiece pt \<Longrightarrow> piece_supply pt < hand_max pt"
  by (erule hand_piece_cases) (simp_all add: piece_supply_def hand_max_def)

lemma captured_base:
  assumes "board_ok b" "s < 81" "board_arr b s \<noteq> 0"
  shows "pt_IsHandPiece (pt_Unpromote (piece_GetType (board_arr b s))) \<or>
    piece_GetType (board_arr b s) = kKing"
proof -
  have "1 \<le> piece_GetType (board_arr b s)" "piece_GetType (board_arr b s) \<le> 14"
    using piece_ok_type [OF board_okD(1) [OF assms(1,2)] assms(3)] by simp_all
  then have "piece_GetType (board_arr b s) mod 8 \<noteq> 0 \<or> piece_GetType (board_arr b s) = 8"
    by (cases "piece_GetType (board_arr b s) < 8") (auto simp: mod_if)
  then show ?thesis by (auto simp: pt_Unpromote_def nat_and_7 pt_IsHandPiece_def kKing_def)
qed

lemma hand_Count_other:
  "material b pt = board_count (board_arr b) pt + hand_Count (hands b c) pt + hand_Count (hands b (opp c)) pt"
  by (cases c) (simp_all add: material_def)

lemma place_hand_correct:
  assumes b: "board_ok b" "material_ok b" and m: "move_pre b m" and pt: "pt_IsHandPiece pt"
    and has: "move_is_drop m \<longrightarrow> hand_Has (hands b (side_to_move b)) (move_drop_piece m)"
  shows "hand_ok (place_hand b m)"
    and "hand_Count (place_hand b m) pt + (if move_is_drop m \<and> pt = move_drop_piece m then 1 else 0) =
      hand_Count (hands b (side_to_move b)) pt + is_base pt (move_captured b m)"
proof -
  let ?h = "hands b (side_to_move b)"
  have h: "hand_ok ?h" using b(2) by (simp add: material_ok_def)
  have "hand_ok (place_hand b m) \<and>
    hand_Count (place_hand b m) pt + (if move_is_drop m \<and> pt = move_drop_piece m then 1 else 0) =
      hand_Count ?h pt + is_base pt (move_captured b m)"
  proof (cases "move_is_drop m")
    case True
    then have d: "pt_IsHandPiece (move_drop_piece m)" using m by (simp add: move_pre_def)
    then have pos: "0 < hand_Count ?h (move_drop_piece m)" using has True by (simp add: hand_Has_iff)
    show ?thesis
      using True hand_Sub_correct [OF h d pos] pt pos by (auto simp: place_hand_def Let_def move_captured_def)
  next
    case False
    show ?thesis
    proof (cases "board_arr b (move_to m) = 0")
      case True
      with False show ?thesis using h by (simp add: place_hand_def move_captured_def Let_def)
    next
      case cap: False
      let ?q = "pt_Unpromote (piece_GetType (board_arr b (move_to m)))"
      have lt: "move_to m < 81" using m by (simp add: move_pre_def)
      show ?thesis
      proof (cases "pt_IsHandPiece ?q")
        case True
        have "1 \<le> board_count (board_arr b) ?q"
          using board_count_upd [OF lt, of "board_arr b" 0 ?q] cap by (simp add: is_base_def)
        moreover have "material b ?q \<le> piece_supply ?q" using b(2) True by (simp add: material_ok_def)
        ultimately have room: "hand_Count ?h ?q < hand_max ?q"
          using supply_less_max [OF True] hand_Count_other [of b ?q "side_to_move b"] by linarith
        show ?thesis
          using False cap hand_Add_correct [OF h True room] pt
          by (auto simp: place_hand_def Let_def move_captured_def is_base_def)
      next
        case king: False
        then have "?q = 0" using captured_base [OF b(1) lt cap] by (auto simp: kKing_def pt_Unpromote_def)
        then show ?thesis using False cap h pt
          by (auto simp: place_hand_def Let_def move_captured_def is_base_def pt_IsHandPiece_def)
      qed
    qed
  qed
  then show "hand_ok (place_hand b m)"
    "hand_Count (place_hand b m) pt + (if move_is_drop m \<and> pt = move_drop_piece m then 1 else 0) =
      hand_Count ?h pt + is_base pt (move_captured b m)" by blast+
qed

lemma material_DoMoveInternal:
  assumes b: "board_ok b" "material_ok b" and m: "move_pre b m"
    and has: "move_is_drop m \<longrightarrow> hand_Has (hands b (side_to_move b)) (move_drop_piece m)"
  shows "pt_IsHandPiece pt \<Longrightarrow> material (snd (DoMoveInternal b m upd gc)) pt = material b pt"
    and "material_ok (snd (DoMoveInternal b m upd gc))"
proof -
  let ?b' = "snd (DoMoveInternal b m upd gc)" let ?us = "side_to_move b"
  note eq = DoMoveInternal_eq [OF move_pre_neq [OF m], of b upd gc]
  have sel: "board_arr ?b' = board_arr (place_pieces b m)" "hands ?b' ?us = place_hand b m"
    "hands ?b' (opp ?us) = hands b (opp ?us)" by (simp_all add: eq)
  have mat: "material ?b' pt = material b pt" if pt: "pt_IsHandPiece pt" for pt
    using place_hand_correct(2) [OF b m pt has] board_count_place [OF b(1) m, of pt]
      hand_Count_other [of ?b' pt ?us] hand_Count_other [of b pt ?us] unfolding sel by linarith
  then show "pt_IsHandPiece pt \<Longrightarrow> material ?b' pt = material b pt" .
  have "hand_ok (hands ?b' c)" for c
  proof (cases "c = ?us")
    case True
    then show ?thesis using place_hand_correct(1) [OF b m _ has, of 1] sel(2) by (simp add: pt_IsHandPiece_def)
  next
    case False
    then have "c = opp ?us" using neq_opp by metis
    then show ?thesis using sel(3) b(2) by (simp add: material_ok_def)
  qed
  with mat b(2) show "material_ok ?b'" by (simp add: material_ok_def)
qed

subsection \<open>The interface the searches use\<close>

text \<open>A search walks down a line by making moves and comes back by taking them back with the
  saved records; it relies only on two laws.\<close>

locale reversible =
  fixes play :: "'s \<Rightarrow> 'm \<Rightarrow> 'u \<times> 's"
    and take_back :: "'s \<Rightarrow> 'm \<Rightarrow> 'u \<Rightarrow> 's"
    and allowed :: "'s \<Rightarrow> 'm \<Rightarrow> bool"
    and inv :: "'s \<Rightarrow> bool"
  assumes inv_play: "inv s \<Longrightarrow> allowed s m \<Longrightarrow> inv (snd (play s m))"
    and take_back_play: "inv s \<Longrightarrow> allowed s m \<Longrightarrow> take_back (snd (play s m)) m (fst (play s m)) = s"

text \<open>The stack of saved records and the position at the end of a line.\<close>

primrec play_line :: "('s \<Rightarrow> 'm \<Rightarrow> 'u \<times> 's) \<Rightarrow> 'm list \<Rightarrow> ('m \<times> 'u) list \<Rightarrow> 's \<Rightarrow> ('m \<times> 'u) list \<times> 's" where
  "play_line play [] st s = (st, s)"
| "play_line play (m # ms) st s = (let (u, s') = play s m in play_line play ms ((m, u) # st) s')"

primrec unwind :: "('s \<Rightarrow> 'm \<Rightarrow> 'u \<Rightarrow> 's) \<Rightarrow> ('m \<times> 'u) list \<Rightarrow> 's \<Rightarrow> 's" where
  "unwind take_back [] s = s"
| "unwind take_back (x # xs) s = unwind take_back xs (take_back s (fst x) (snd x))"

primrec line_allowed :: "('s \<Rightarrow> 'm \<Rightarrow> 'u \<times> 's) \<Rightarrow> ('s \<Rightarrow> 'm \<Rightarrow> bool) \<Rightarrow> 'm list \<Rightarrow> 's \<Rightarrow> bool" where
  "line_allowed play allowed [] s = True"
| "line_allowed play allowed (m # ms) s \<longleftrightarrow> allowed s m \<and> line_allowed play allowed ms (snd (play s m))"

context reversible begin

lemma inv_line: "inv s \<Longrightarrow> line_allowed play allowed ms s \<Longrightarrow> inv (snd (play_line play ms st s))"
  by (induction ms arbitrary: s st) (auto simp: Let_def inv_play split: prod.split dest: inv_play)

lemma unwind_line:
  "inv s \<Longrightarrow> line_allowed play allowed ms s \<Longrightarrow>
    unwind take_back (fst (play_line play ms st s)) (snd (play_line play ms st s)) = unwind take_back st s"
proof (induction ms arbitrary: s st)
  case (Cons m ms)
  obtain u s' where m: "play s m = (u, s')" by (cases "play s m")
  have "inv s'" "take_back s' m u = s"
    using inv_play [of s m] take_back_play [of s m] Cons.prems m by simp_all
  with Cons.IH [of s' "(m, u) # st"] Cons.prems m show ?case by simp
qed simp

lemma unwind_play: "inv s \<Longrightarrow> line_allowed play allowed ms s \<Longrightarrow>
    unwind take_back (fst (play_line play ms [] s)) (snd (play_line play ms [] s)) = s"
  by (simp add: unwind_line)

end

interpretation game: reversible DoMove UndoMove move_pre board_ok
  by unfold_locales (simp_all add: DoMove_def board_ok_DoMoveInternal UndoMove_DoMoveInternal)

interpretation movegen: reversible DoMoveForMovegen UndoMove move_pre board_ok
  by unfold_locales (simp_all add: DoMoveForMovegen_def board_ok_DoMoveInternal UndoMove_DoMoveInternal)

subsection \<open>The properties\<close>

lemma sample_moves:
  "move_pre sample_board (move_Normal 16 52)" "move_to (move_Normal 16 52) = 52"
  "move_from (move_Normal 16 52) = 16" "\<not> move_is_drop (move_Normal 16 52)"
  "\<not> move_is_promotion (move_Normal 16 52)"
  by (simp_all add: move_pre_def sample_board_arr)

text \<open>C10: taking a move back with the record \<open>DoMove\<close> returned restores the position exactly:
  piece array, every bitboard, hands, king squares, side to move, ply, hash, check counters and
  history, for drops, captures and promotions, in each of the three modes of making a move.\<close>

theorem UndoMove_restores:
  assumes "board_ok b" "move_pre b m"
  shows "UndoMove (snd (DoMove b m)) m (fst (DoMove b m)) = b \<and>
    UndoMove (snd (DoMove_gc b m g)) m (fst (DoMove_gc b m g)) = b \<and>
    UndoMove (snd (DoMoveForMovegen b m)) m (fst (DoMoveForMovegen b m)) = b"
  using UndoMove_DoMoveInternal [OF assms]
  unfolding DoMove_def DoMove_gc_def DoMoveForMovegen_def by blast

theorem UndoMove_restores_witness:
  "UndoMove (snd (DoMove sample_board (move_Normal 16 52))) (move_Normal 16 52)
     (fst (DoMove sample_board (move_Normal 16 52))) = sample_board"
  using UndoMove_restores [OF sample_board_ok(1) sample_moves(1)] by blast

text \<open>C11: making a move keeps the position consistent: the bitboards agree with the piece array,
  the cached king squares are right and both kings stay on the board, the number of pieces of each
  kind on board and in hand is unchanged, and no hand counter overflows its bit field.\<close>

theorem DoMove_preserves:
  assumes "board_ok b" "kings_ok b" "material_ok b" "move_pre b m"
    and "move_is_drop m \<longrightarrow> hand_Has (hands b (side_to_move b)) (move_drop_piece m)"
    and "piece_GetType (move_captured b m) \<noteq> kKing"
  shows "board_ok (snd (DoMove b m)) \<and> kings_ok (snd (DoMove b m)) \<and> material_ok (snd (DoMove b m)) \<and>
    (\<forall>pt. pt_IsHandPiece pt \<longrightarrow> material (snd (DoMove b m)) pt = material b pt)"
  using assms board_ok_DoMoveInternal kings_ok_DoMoveInternal material_DoMoveInternal
  unfolding DoMove_def by blast

lemma sample_board_material: "material_ok sample_board"
proof -
  have "board_count (board_arr sample_board) pt = (if pt = 6 then 1 else 0)" if "pt_IsHandPiece pt" for pt
  proof -
    have e: "board_count (\<lambda>_. 0) pt = 0" by (simp add: board_count_def)
    have "board_count (board_arr sample_board) pt = is_base pt 8 + is_base pt 24 + is_base pt 6"
      using board_count_upd [of 44 "\<lambda>_. 0" 8 pt] board_count_upd [of 36 "(\<lambda>_. 0)(44 := 8)" 24 pt]
        board_count_upd [of 16 "(\<lambda>_. 0)(44 := 8, 36 := 24)" 6 pt] e
      by (simp add: sample_board_arr)
    then show ?thesis using that
      by (auto simp: is_base_def pt_Unpromote_def piece_GetType_mod nat_and_7 pt_IsHandPiece_def)
  qed
  then show ?thesis
    by (auto simp: material_ok_def material_def sample_board_sel piece_supply_def elim!: hand_piece_cases)
qed

theorem DoMove_preserves_witness:
  "board_ok (snd (DoMove sample_board (move_Normal 16 52))) \<and>
   material_ok (snd (DoMove sample_board (move_Normal 16 52)))"
proof -
  have "piece_GetType (move_captured sample_board (move_Normal 16 52)) \<noteq> kKing"
    using sample_moves by (simp add: move_captured_def sample_board_arr piece_GetType_mod kKing_def)
  then show ?thesis
    using DoMove_preserves [OF sample_board_ok sample_board_material sample_moves(1)] sample_moves(4) by blast
qed

lemma BoardKeyAfter_correct:
  assumes "move_pre b m"
  shows "BoardKeyAfter b m = BoardKey (snd (DoMoveInternal b m True gc))"
proof -
  note eq = DoMoveInternal_eq [OF move_pre_neq [OF assms], of b True gc]
  show ?thesis
    by (cases "side_to_move b"; cases "move_is_drop m"; cases "board_arr b (move_to m) = 0")
      (simp_all add: eq BoardKeyAfter_def BoardKey_def HashAfter_def place_hand_def piece_on_def piece_IsNone_def
        Let_def ac_simps)
qed

text \<open>C12: the incrementally updated hash stays equal to the hash computed from scratch, and the
  keys predicted without making the move are the ones the move produces.\<close>

theorem incremental_hash_correct:
  assumes "board_ok b" "move_pre b m" "hash b = full_hash b"
  shows "hash (snd (DoMove b m)) = full_hash (snd (DoMove b m)) \<and>
    HashAfter b m = hash (snd (DoMove b m)) \<and> BoardKeyAfter b m = BoardKey (snd (DoMove b m)) \<and>
    ComputeHash (snd (DoMove b m)) = snd (DoMove b m)"
proof -
  let ?b' = "snd (DoMove b m)"
  have h: "hash ?b' = HashAfter b m"
    by (simp add: DoMove_def DoMoveInternal_eq [OF move_pre_neq [OF assms(2)]])
  have f: "HashAfter b m = full_hash ?b'"
    using full_hash_DoMoveInternal [OF assms, of True "-1"] by (simp only: DoMove_def)
  have "full_hash ?b' = hash ?b'" using h f by simp
  then have "ComputeHash ?b' = ?b'\<lparr>hash := hash ?b'\<rparr>" by (simp add: ComputeHash_def)
  then show ?thesis using h f BoardKeyAfter_correct [OF assms(2), of "-1"] by (simp add: DoMove_def)
qed

theorem incremental_hash_correct_witness:
  "HashAfter (ComputeHash sample_board) (move_Normal 16 52) =
     full_hash (snd (DoMove (ComputeHash sample_board) (move_Normal 16 52)))"
proof -
  let ?b = "ComputeHash sample_board"
  have fh: "full_hash ?b = full_hash sample_board"
    by (simp add: ComputeHash_def full_hash_sum piece_key_cong [of "sample_board\<lparr>hash := z\<rparr>" sample_board for z])
  have "hash ?b = full_hash ?b" unfolding fh by (simp add: ComputeHash_def)
  moreover have "board_ok ?b" "move_pre ?b (move_Normal 16 52)"
    using sample_board_ok sample_moves(1) by (simp_all add: ComputeHash_def board_simps move_pre_def)
  ultimately show ?thesis using incremental_hash_correct [of ?b "move_Normal 16 52"] by simp
qed

text \<open>A search that plays any line of moves and takes them back in reverse order with the saved
  records is back at the position it started from.\<close>

theorem line_unwinds:
  assumes "board_ok b" "line_allowed DoMove move_pre ms b"
  shows "unwind UndoMove (fst (play_line DoMove ms [] b)) (snd (play_line DoMove ms [] b)) = b"
  using assms by (rule game.unwind_play)

theorem line_unwinds_witness:
  "line_allowed DoMove move_pre [move_Normal 16 52] sample_board \<and>
   unwind UndoMove (fst (play_line DoMove [move_Normal 16 52] [] sample_board))
     (snd (play_line DoMove [move_Normal 16 52] [] sample_board)) = sample_board"
proof -
  have l: "line_allowed DoMove move_pre [move_Normal 16 52] sample_board" using sample_moves(1) by simp
  show ?thesis by (intro conjI l line_unwinds sample_board_ok(1))
qed

end
