(* ===== verification/MoveGen.thy ===== *)
theory MoveGen
  imports MoveApply
begin

text \<open>
  The move generators of shogi/board.cc: pseudo-legal moves, legal moves, evasions, the
  pin computation, the pawn-drop-mate test and the checking-move generators.  A generator
  that pushes into a list returns the list in the order of the pushes.

  The tests that make a move on the board itself, look for an evasion and take the move
  back are evaluated on the position after the move; by \<open>UndoMove_restores\<close> the position
  continues unchanged.  Testing a pawn drop for mate looks for an evasion, which may itself
  test a blocking pawn drop, and so on: \<open>has_evasion\<close> takes the depth of this nesting as
  fuel.  Each level fills an empty square, so 82 levels are never exceeded
  (\<open>has_evasion_fuel\<close> in the theory \<open>Evasions\<close>).
\<close>

subsection \<open>Promotion helpers\<close>

definition RelativeRank :: "nat \<Rightarrow> color \<Rightarrow> nat" where
  "RelativeRank r c = (if c = BLACK then r else (8 - r) mod 256)"

definition CanPromote :: "piece_type \<Rightarrow> color \<Rightarrow> square \<Rightarrow> square \<Rightarrow> bool" where
  "CanPromote pt us from to \<longleftrightarrow>
     pt_CanPromote pt \<and> (sq_InPromotionZone from us \<or> sq_InPromotionZone to us)"

definition MustPromote :: "piece_type \<Rightarrow> color \<Rightarrow> square \<Rightarrow> bool" where
  "MustPromote pt us to =
     (if pt \<noteq> kPawn \<and> pt \<noteq> kLance \<and> pt \<noteq> kKnight then False
      else let rel = RelativeRank (sq_rank to) us
           in if pt = kKnight then rel \<le> 1 else rel = 0)"

text \<open>The two pushes shared by the generators.\<close>

definition board_variants :: "piece_type \<Rightarrow> color \<Rightarrow> square \<Rightarrow> square \<Rightarrow> move list" where
  "board_variants pt us from to =
     (if CanPromote pt us from to then [move_Promotion from to] else []) @
     (if \<not> MustPromote pt us to then [move_Normal from to] else [])"

subsection \<open>Board moves\<close>

definition own :: "shogi_board \<Rightarrow> bitboard" where
  "own b = by_color b (side_to_move b)"

definition GenerateBoardMoves :: "shogi_board \<Rightarrow> move list" where
  "GenerateBoardMoves b =
     (let us = side_to_move b; our = own b; occ = occupied b in
      concat (map (\<lambda>from.
        let pt = piece_GetType (piece_on b from);
            targets = bb_And (PieceAttacks pt us from occ) (bb_Not our)
        in concat (map (board_variants pt us from) (bb_ForEach_squares targets)))
        (bb_squares our)))"

definition king_safe_targets :: "shogi_board \<Rightarrow> bitboard \<Rightarrow> bitboard \<Rightarrow> bitboard" where
  "king_safe_targets b occ_without_king targets =
     fold (\<lambda>to acc. if \<not> IsSquareAttacked b to occ_without_king (opp (side_to_move b))
                    then bb_Set acc to else acc) (bb_squares targets) bb_Zero"

definition GenerateBoardMovesNonCheck :: "shogi_board \<Rightarrow> bitboard \<Rightarrow> move list" where
  "GenerateBoardMovesNonCheck b pinned =
     (let us = side_to_move b; ksq = king_sq b us; our = own b; occ = occupied b;
          occ_without_king = bb_Xor occ (SquareBB ksq) in
      concat (map (\<lambda>from.
        let pt = piece_GetType (piece_on b from);
            targets = bb_And (PieceAttacks pt us from occ) (bb_Not our);
            targets = (if from = ksq then king_safe_targets b occ_without_king targets
                       else if bb_Test pinned from then bb_And targets (LineBB from ksq)
                       else targets)
        in concat (map (board_variants pt us from) (bb_ForEach_squares targets)))
        (bb_squares our)))"

subsection \<open>Drops\<close>

definition without_rank :: "nat \<Rightarrow> bitboard \<Rightarrow> bitboard" where
  "without_rank r targets = bb_And targets (bb_Not (RankBB r))"

definition drop_ranks :: "piece_type \<Rightarrow> color \<Rightarrow> bitboard \<Rightarrow> bitboard" where
  "drop_ranks pt us targets =
     (let targets = (if pt = kPawn \<or> pt = kLance
                     then without_rank (if us = BLACK then 0 else 8) targets else targets)
      in if pt = kKnight then
           (if us = BLACK then without_rank 1 (without_rank 0 targets)
            else without_rank 8 (without_rank 7 targets))
         else targets)"

definition nifu_files :: "bitboard \<Rightarrow> bitboard \<Rightarrow> bitboard" where
  "nifu_files our_pawns targets =
     fold (\<lambda>f targets. if bb_Any (bb_And our_pawns (FileBB f))
                       then bb_And targets (bb_Not (FileBB f)) else targets) [0..<9] targets"

definition drop_squares :: "shogi_board \<Rightarrow> piece_type \<Rightarrow> bitboard \<Rightarrow> bitboard" where
  "drop_squares b pt targets =
     (let us = side_to_move b; targets = drop_ranks pt us targets
      in if pt = kPawn then nifu_files (pieces_ct b us kPawn) targets else targets)"

definition GenerateDropMoves :: "shogi_board \<Rightarrow> move list" where
  "GenerateDropMoves b =
     (let us = side_to_move b; empty_sq = bb_And (bb_Not (occupied b)) bb_All in
      concat (map (\<lambda>pt. if \<not> hand_Has (hands b us) pt then []
                        else map (move_Drop pt) (bb_ForEach_squares (drop_squares b pt empty_sq)))
        [1..<8]))"

subsection \<open>Pins\<close>

definition pin_pieces :: "shogi_board \<Rightarrow> square \<Rightarrow> bitboard \<Rightarrow> bitboard \<Rightarrow> bitboard" where
  "pin_pieces b ksq candidates blockers =
     fold (\<lambda>pinner blockers.
             let between = bb_And (BetweenBB ksq pinner) (occupied b)
             in if bb_Any between \<and> \<not> bb_MoreThanOne between then bb_Or blockers between else blockers)
       (bb_squares candidates) blockers"

definition ComputeBlockersForKing :: "shogi_board \<Rightarrow> color \<Rightarrow> bitboard" where
  "ComputeBlockersForKing b king_color =
     (let ksq = king_sq b king_color; enemy = opp king_color;
          blockers = pin_pieces b ksq (bb_And (RookEffectBB ksq) (rook_like b enemy)) bb_Zero;
          blockers = pin_pieces b ksq (bb_And (BishopEffectBB ksq) (bishop_like b enemy)) blockers
      in pin_pieces b ksq (bb_And (LanceMaskBB ksq king_color) (pieces_ct b enemy kLance)) blockers)"

subsection \<open>Legality and evasions\<close>

text \<open>\<open>IsLegal\<close>, with the test whether the side to move has an evasion as a parameter.\<close>

definition pawn_drop_mate :: "(shogi_board \<Rightarrow> bool) \<Rightarrow> shogi_board \<Rightarrow> move \<Rightarrow> bool" where
  "pawn_drop_mate he b m \<longleftrightarrow>
     (let us = side_to_move b in
      move_drop_piece m = kPawn \<and> bb_Test (PawnEffectBB (move_to m) us) (king_sq b (opp us)) \<and>
      \<not> he (snd (DoMoveForMovegen b m)))"

definition IsLegal_with :: "(shogi_board \<Rightarrow> bool) \<Rightarrow> shogi_board \<Rightarrow> move \<Rightarrow> bitboard \<Rightarrow> bool" where
  "IsLegal_with he b m pinned =
     (let us = side_to_move b; ksq = king_sq b us in
      if move_is_drop m then \<not> pawn_drop_mate he b m
      else
        let from = move_from m; to = move_to m in
        if from = ksq then
          bb_Empty (AttackersTo_c b to (bb_Xor (occupied b) (SquareBB ksq)) (opp us))
        else if bb_Empty pinned then True
        else if \<not> bb_Test pinned from then True
        else bb_Test (LineBB from ksq) to)"

definition king_evasions :: "shogi_board \<Rightarrow> move list" where
  "king_evasions b =
     (let us = side_to_move b; ksq = king_sq b us; occ_without_king = bb_Clear (occupied b) ksq in
      concat (map (\<lambda>to. if \<not> IsSquareAttacked b to occ_without_king (opp us) then [move_Normal ksq to] else [])
        (bb_squares (bb_And (KingEffectBB ksq) (bb_Not (own b))))))"

definition blocking_moves :: "shogi_board \<Rightarrow> bitboard \<Rightarrow> bitboard \<Rightarrow> move list" where
  "blocking_moves b pinned evasion_targets =
     (let us = side_to_move b; ksq = king_sq b us in
      concat (map (\<lambda>to.
        concat (map (\<lambda>from.
          if bb_Test pinned from \<and> \<not> bb_Test (LineBB from ksq) to then []
          else board_variants (piece_GetType (piece_on b from)) us from to)
          (bb_squares (bb_Clear (AttackersTo_c b to (occupied b) us) ksq))))
        (bb_squares evasion_targets)))"

definition blocking_drops ::
    "(shogi_board \<Rightarrow> bool) \<Rightarrow> shogi_board \<Rightarrow> bitboard \<Rightarrow> bitboard \<Rightarrow> move list" where
  "blocking_drops he b pinned between =
     (let us = side_to_move b; empty_between = bb_And between (bb_Not (occupied b)) in
      concat (map (\<lambda>pt. if \<not> hand_Has (hands b us) pt then []
        else concat (map (\<lambda>to. let m = move_Drop pt to in
               if pt \<noteq> kPawn \<or> IsLegal_with he b m pinned then [m] else [])
          (bb_squares (drop_squares b pt empty_between)))) [1..<8]))"

definition evasions_with :: "(shogi_board \<Rightarrow> bool) \<Rightarrow> shogi_board \<Rightarrow> move list" where
  "evasions_with he b =
     (let us = side_to_move b; ksq = king_sq b us;
          checkers = AttackersTo_c b ksq (occupied b) (opp us);
          legal = king_evasions b
      in if bb_MoreThanOne checkers then legal
         else
           let checker = fst (bb_Pop checkers);
               between = BetweenBB ksq checker;
               evasion_targets = bb_Set between checker;
               pinned = bb_And (ComputeBlockersForKing b us) (own b)
           in legal @ blocking_moves b pinned evasion_targets @ blocking_drops he b pinned between)"

primrec has_evasion :: "nat \<Rightarrow> shogi_board \<Rightarrow> bool" where
  "has_evasion 0 b = True"
| "has_evasion (Suc n) b = (evasions_with (has_evasion n) b \<noteq> [])"

definition HasLegalEvasion :: "shogi_board \<Rightarrow> bool" where
  "HasLegalEvasion b = has_evasion 82 b"

text \<open>With \<open>stop_after_one\<close> the code returns after the first push.\<close>

definition GenerateEvasionMovesImpl :: "shogi_board \<Rightarrow> bool \<Rightarrow> move list" where
  "GenerateEvasionMovesImpl b stop_after_one =
     (let legal = evasions_with HasLegalEvasion b in if stop_after_one then take 1 legal else legal)"

definition GenerateEvasionMoves :: "shogi_board \<Rightarrow> move list" where
  "GenerateEvasionMoves b = GenerateEvasionMovesImpl b False"

definition IsLegal :: "shogi_board \<Rightarrow> move \<Rightarrow> bitboard \<Rightarrow> bool" where
  "IsLegal b m pinned = IsLegal_with HasLegalEvasion b m pinned"

definition GenerateLegalMoves :: "shogi_board \<Rightarrow> move list" where
  "GenerateLegalMoves b =
     (let us = side_to_move b in
      if \<not> InCheck b us then
        let pinned = bb_And (ComputeBlockersForKing b us) (own b)
        in GenerateBoardMovesNonCheck b pinned @
           filter (\<lambda>m. \<not> pawn_drop_mate HasLegalEvasion b m) (GenerateDropMoves b)
      else GenerateEvasionMoves b)"

end
