(* ===== verification/CheckGeometry.thy ===== *)
theory CheckGeometry
  imports MoveGen
begin

text \<open>
  Checks and pins on a bare placement (a function from squares to pieces): which pieces
  attack a square, when a move exposes or shields a king, and how a pinned piece may move.
  These are the rules the move generator's shortcuts are measured against; nothing here
  mentions bitboards except the occupancy-free step tables.
\<close>

subsection \<open>Attacks on a placement\<close>

text \<open>The directions, seen from the attacked square, in which a piece slides.\<close>

definition slides :: "piece \<Rightarrow> int \<times> int \<Rightarrow> bool" where
  "slides v d \<longleftrightarrow>
     (piece_GetType v \<in> {kRook, kDragon} \<and> d \<in> set rook_dirs) \<or>
     (piece_GetType v \<in> {kBishop, kHorse} \<and> d \<in> set bishop_dirs) \<or>
     (piece_GetType v = kLance \<and> d = forward (opp (piece_GetColor v)))"

definition steps_at :: "piece \<Rightarrow> square \<Rightarrow> square \<Rightarrow> bool" where
  "steps_at v t s \<longleftrightarrow> bb_Test (StepAttacks (piece_GetType v) (piece_GetColor v) t) s"

definition reaches :: "piece \<Rightarrow> (square \<Rightarrow> bool) \<Rightarrow> square \<Rightarrow> square \<Rightarrow> bool" where
  "reaches v occ t s \<longleftrightarrow> steps_at v t s \<or>
     (\<exists>d k. unit_dir d \<and> slides v d \<and> 1 \<le> k \<and> steps_to s d k t \<and> clear_between occ s d k)"

definition att :: "(square \<Rightarrow> piece) \<Rightarrow> (square \<Rightarrow> bool) \<Rightarrow> color \<Rightarrow> square \<Rightarrow> square \<Rightarrow> bool" where
  "att f occ c t s \<longleftrightarrow> f t \<noteq> 0 \<and> piece_GetColor (f t) = c \<and> reaches (f t) occ t s"

abbreviation occf :: "(square \<Rightarrow> piece) \<Rightarrow> square \<Rightarrow> bool" where
  "occf f u \<equiv> f u \<noteq> 0"

definition in_check :: "(square \<Rightarrow> piece) \<Rightarrow> color \<Rightarrow> square \<Rightarrow> bool" where
  "in_check f c s \<longleftrightarrow> (\<exists>t<81. att f (occf f) (opp c) t s)"

lemma slides_rook_bishop: "slides v d \<Longrightarrow> unit_dir d"
  unfolding slides_def using unit_dir_rook_bishop unit_dir_forward by blast

lemma ray_reach_exists:
  assumes "s < 81" "t < 81" "D \<subseteq> {d. unit_dir d}"
  shows "(\<exists>d\<in>D. t \<in> set (ray_reach occ (ray_from s d))) \<longleftrightarrow>
    (\<exists>d k. unit_dir d \<and> d \<in> D \<and> 1 \<le> k \<and> steps_to s d k t \<and> clear_between occ s d k)"
  using assms set_ray_reach_from [OF assms(1)] by blast

lemma reaches_PieceAttacks:
  assumes v: "piece_ok v" "v \<noteq> 0" and s: "s < 81" and t: "t < 81"
  shows "bb_Test (PieceAttacks (piece_GetType v) (piece_GetColor v) t occ) s \<longleftrightarrow> reaches v (bb_Test occ) t s"
proof -
  let ?p = "piece_GetType v" let ?c = "piece_GetColor v"
  have "bb_Test (SlidingAttacks ?p ?c t occ) s \<longleftrightarrow>
    (?p = kLance \<and> bb_Test (LanceEffect (opp ?c) s occ) t) \<or>
    (?p \<in> {kBishop, kHorse} \<and> bb_Test (BishopEffect s occ) t) \<or>
    (?p \<in> {kRook, kDragon} \<and> bb_Test (RookEffect s occ) t)"
    using LanceEffect_symmetric [OF t s, of ?c occ] BishopEffect_symmetric [OF t s, of occ]
      RookEffect_symmetric [OF t s, of occ]
    by (simp add: SlidingAttacks_def piece_type_defs)
  also have "\<dots> \<longleftrightarrow> (\<exists>d k. unit_dir d \<and> slides v d \<and> 1 \<le> k \<and> steps_to s d k t \<and> clear_between (bb_Test occ) s d k)"
  proof -
    have r: "bb_Test (RookEffect s occ) t \<longleftrightarrow>
      (\<exists>d k. unit_dir d \<and> d \<in> set rook_dirs \<and> 1 \<le> k \<and> steps_to s d k t \<and> clear_between (bb_Test occ) s d k)"
      unfolding RookEffect_rays [OF s t] using unit_dir_rook_bishop by (intro ray_reach_exists s t) blast
    have b: "bb_Test (BishopEffect s occ) t \<longleftrightarrow>
      (\<exists>d k. unit_dir d \<and> d \<in> set bishop_dirs \<and> 1 \<le> k \<and> steps_to s d k t \<and> clear_between (bb_Test occ) s d k)"
      unfolding BishopEffect_rays [OF s t] using unit_dir_rook_bishop by (intro ray_reach_exists s t) blast
    have l: "bb_Test (LanceEffect (opp ?c) s occ) t \<longleftrightarrow>
      (\<exists>d k. unit_dir d \<and> d = forward (opp ?c) \<and> 1 \<le> k \<and> steps_to s d k t \<and> clear_between (bb_Test occ) s d k)"
      unfolding LanceEffect_ray [OF s t] using set_ray_reach_from [OF s unit_dir_forward] t unit_dir_forward by blast
    show ?thesis unfolding r b l slides_def by blast
  qed
  finally show ?thesis
    using piece_ok_type [OF v] PieceAttacks_Step_Sliding [OF _ t s, of ?p ?c occ]
    unfolding reaches_def steps_at_def by simp
qed

lemma attacks_att:
  assumes "board_ok b" "s < 81" "t < 81"
  shows "attacks b c occ t s \<longleftrightarrow> att (board_arr b) (bb_Test occ) c t s"
  using reaches_PieceAttacks [OF board_okD(1) [OF assms(1,3)] _ assms(2,3)]
  by (auto simp: attacks_def att_def)

lemma clear_between_cong:
  "(\<And>u. u < 81 \<Longrightarrow> occ u \<longleftrightarrow> occ' u) \<Longrightarrow> clear_between occ s d k \<longleftrightarrow> clear_between occ' s d k"
  by (auto simp: clear_between_def)

lemma reaches_cong:
  "(\<And>u. u < 81 \<Longrightarrow> occ u \<longleftrightarrow> occ' u) \<Longrightarrow> reaches v occ t s \<longleftrightarrow> reaches v occ' t s"
  unfolding reaches_def using clear_between_cong [of occ occ'] by metis

lemma att_cong:
  "f t = g t \<Longrightarrow> (\<And>u. u < 81 \<Longrightarrow> occ u \<longleftrightarrow> occ' u) \<Longrightarrow> att f occ c t s \<longleftrightarrow> att g occ' c t s"
  using reaches_cong [of occ occ'] by (auto simp: att_def)

lemma IsSquareAttacked_att:
  assumes "board_ok b" "s < 81" "\<And>u. u < 81 \<Longrightarrow> bb_Test occ u \<longleftrightarrow> P u"
  shows "IsSquareAttacked b s occ c \<longleftrightarrow> (\<exists>t<81. att (board_arr b) P c t s)"
  unfolding IsSquareAttacked_iff [OF assms(1,2)]
  using attacks_att [OF assms(1,2), of _ c occ] att_cong [of "board_arr b" _ "board_arr b" "bb_Test occ" P, OF refl assms(3)]
  by blast

lemma InCheck_in_check:
  assumes "board_ok b" "king_sq b c < 81"
  shows "InCheck b c \<longleftrightarrow> in_check (board_arr b) c (king_sq b c)"
  unfolding InCheck_def in_check_def
  by (rule IsSquareAttacked_att [OF assms]) (simp add: Test_occupied assms(1))

subsection \<open>Step attacks never jump along a line\<close>

lemma step_deltas_small:
  assumes "s < 81" "t < 81" "steps_at v t s" "unit_dir d" "steps_to t d k s"
  shows "k \<le> 1"
proof -
  obtain a c where d: "d = (a, c)" by (cases d)
  have e: "file_of s - file_of t = int k * a" "rank_of s - rank_of t = int k * c"
    using assms(5) by (simp_all add: steps_to_def d)
  have delta: "(file_of s - file_of t, rank_of s - rank_of t) \<in>
     {-1, 0, 1} \<times> {-1, 0, 1} \<union> {-1, 1} \<times> {-2, 2}"
    using assms(3) unfolding steps_at_def StepAttacks_def step_defs
    by (cases "piece_GetColor v")
      (auto simp: Test_MakeStepBB [OF assms(1)] delta_defs split: if_splits)
  have u: "a \<in> {-1, 0, 1}" "c \<in> {-1, 0, 1}" "a \<noteq> 0 \<or> c \<noteq> 0"
    using assms(4) unit_dir_bounds d by auto
  show ?thesis
  proof (rule ccontr)
    assume "\<not> k \<le> 1"
    then have k: "int k \<ge> 2" by simp
    from u(1,2) consider "a = 1" | "a = -1" | "a = 0" "c = 1" | "a = 0" "c = -1" using u(3) by blast
    then show False using delta k unfolding e by cases auto
  qed
qed

lemma reaches_blocked:
  assumes s: "s < 81" and t: "t < 81" and u: "u < 81" and d: "unit_dir d"
    and ts: "steps_to t d k s" and tu: "steps_to t d j u" and jk: "1 \<le> j" "j < k" and occ: "occ u"
  shows "\<not> reaches v occ t s"
proof
  assume "reaches v occ t s"
  then consider "steps_at v t s"
    | e n where "unit_dir e" "1 \<le> n" "steps_to s e n t" "clear_between occ s e n"
    by (auto simp: reaches_def)
  then show False
  proof cases
    case 1
    with step_deltas_small [OF s t 1 d ts] jk show False by simp
  next
    case 2
    have "steps_to t (neg_dir e) n s" using 2(3) steps_to_neg by blast
    then have ed: "neg_dir e = d" using unit_dir_unique [of "neg_dir e" d t n s k] 2 d ts jk by simp
    then have "n = k" using steps_to_inj [OF d, of t n s k] \<open>steps_to t (neg_dir e) n s\<close> ts by simp
    have "e = neg_dir d" using ed by (auto simp: neg_dir_def)
    have "steps_to s e (k - j) u"
      using ts tu jk \<open>e = neg_dir d\<close> by (auto simp: steps_to_def neg_dir_def of_nat_diff algebra_simps)
    moreover have "1 \<le> k - j" "k - j < n" using jk \<open>n = k\<close> by simp_all
    ultimately show False using 2(4) u occ by (auto simp: clear_between_def)
  qed
qed

subsection \<open>Pins\<close>

definition between_sq :: "square \<Rightarrow> int \<times> int \<Rightarrow> nat \<Rightarrow> square \<Rightarrow> bool" where
  "between_sq k d n u \<longleftrightarrow> (\<exists>j. 1 \<le> j \<and> j < n \<and> steps_to k d j u)"

text \<open>\<open>u\<close> is the only piece between the king square \<open>k\<close> and the enemy slider on \<open>t\<close>.\<close>

definition pins :: "(square \<Rightarrow> piece) \<Rightarrow> color \<Rightarrow> square \<Rightarrow> square \<Rightarrow> square \<Rightarrow> int \<times> int \<Rightarrow> nat \<Rightarrow> bool" where
  "pins f c k u t d n \<longleftrightarrow> t < 81 \<and> u < 81 \<and> f t \<noteq> 0 \<and> piece_GetColor (f t) = opp c \<and> slides (f t) d \<and>
     1 \<le> n \<and> steps_to k d n t \<and> between_sq k d n u \<and> f u \<noteq> 0 \<and>
     (\<forall>w<81. between_sq k d n w \<and> f w \<noteq> 0 \<longrightarrow> w = u)"

lemma clear_between_sq: "clear_between occ k d n \<longleftrightarrow> (\<forall>u<81. between_sq k d n u \<longrightarrow> \<not> occ u)"
  by (auto simp: clear_between_def between_sq_def)

lemma unveiled:
  assumes f: "f frm \<noteq> 0" "v \<noteq> 0" "frm < 81" "to < 81" "frm \<noteq> to"
    and t: "t < 81" "t \<noteq> to"
    and a: "att (f(frm := 0, to := v)) (occf (f(frm := 0, to := v))) (opp c) t k"
  shows "att f (occf f) (opp c) t k \<or> (\<exists>d n. pins f c k frm t d n \<and> \<not> between_sq k d n to)"
proof -
  let ?f' = "f(frm := 0, to := v)"
  have ft: "?f' t = f t" "f t \<noteq> 0" "piece_GetColor (f t) = opp c" "t \<noteq> frm"
    using a t by (auto simp: att_def split: if_splits)
  from a ft consider "steps_at (f t) t k"
    | d n where "unit_dir d" "slides (f t) d" "1 \<le> n" "steps_to k d n t" "clear_between (occf ?f') k d n"
    unfolding att_def reaches_def by auto
  then show ?thesis
  proof cases
    case 1
    then show ?thesis using ft by (simp add: att_def reaches_def)
  next
    case 2
    show ?thesis
    proof (cases "clear_between (occf f) k d n")
      case True
      with 2 ft show ?thesis unfolding att_def reaches_def by blast
    next
      case False
      then obtain u where u: "u < 81" "between_sq k d n u" "f u \<noteq> 0" by (auto simp: clear_between_sq)
      have nb: "\<forall>w<81. between_sq k d n w \<longrightarrow> ?f' w = 0" using 2(5) by (auto simp: clear_between_sq)
      have only: "w = frm" if "w < 81" "between_sq k d n w" "f w \<noteq> 0" for w
        using nb that f(2) by (metis fun_upd_other fun_upd_same)
      have "u = frm" using only u by blast
      moreover have "\<not> between_sq k d n to" using nb f(2,4) by auto
      ultimately have "pins f c k frm t d n \<and> \<not> between_sq k d n to"
        using 2 t ft u only f unfolding pins_def by blast
      then show ?thesis by blast
    qed
  qed
qed

lemma pin_exposes:
  assumes "pins f c k frm t d n" "to < 81" "t \<noteq> to" "\<not> between_sq k d n to" "unit_dir d"
  shows "att (f(frm := 0, to := v)) (occf (f(frm := 0, to := v))) (opp c) t k"
proof -
  have "t \<noteq> frm" using assms(1) steps_to_inj [OF assms(5), of k n t] by (auto simp: pins_def between_sq_def)
  moreover have "clear_between (occf (f(frm := 0, to := v))) k d n"
    unfolding clear_between_sq
  proof (intro allI impI notI)
    fix u assume u: "u < 81" "between_sq k d n u" "(f(frm := 0, to := v)) u \<noteq> 0"
    then have "u \<noteq> to" using assms(4) by blast
    then have "u \<noteq> frm" using u(3) by (simp split: if_splits)
    with \<open>u \<noteq> to\<close> have "f u \<noteq> 0" using u(3) by simp
    with assms(1) u(1,2) \<open>u \<noteq> frm\<close> show False unfolding pins_def by blast
  qed
  moreover have "f t \<noteq> 0" "piece_GetColor (f t) = opp c" "slides (f t) d" "1 \<le> n" "steps_to k d n t"
    using assms(1) by (simp_all add: pins_def)
  moreover have "(f(frm := 0, to := v)) t = f t" using assms(3) \<open>t \<noteq> frm\<close> by simp
  ultimately show ?thesis using assms(5) unfolding att_def reaches_def by metis
qed

text \<open>A pinned piece that stays on the line through its king ends between king and pinner or
  captures the pinner.\<close>

definition on_line :: "square \<Rightarrow> square \<Rightarrow> square \<Rightarrow> bool" where
  "on_line u k q \<longleftrightarrow> (\<exists>d m i. unit_dir d \<and> 1 \<le> m \<and> steps_to u d m k \<and>
     (steps_to u d i q \<or> steps_to u (neg_dir d) i q))"

lemma steps_to_trans: "steps_to s d i t \<Longrightarrow> steps_to t d j u \<Longrightarrow> steps_to s d (i + j) u"
  by (auto simp: steps_to_def algebra_simps)

lemma steps_to_back: "steps_to s d i t \<Longrightarrow> steps_to t (neg_dir d) j u \<Longrightarrow> j \<le> i \<Longrightarrow> steps_to s d (i - j) u"
  by (auto simp: steps_to_def neg_dir_def algebra_simps of_nat_diff)

lemma steps_to_back_over:
  "steps_to s d i t \<Longrightarrow> steps_to t (neg_dir d) j u \<Longrightarrow> i \<le> j \<Longrightarrow> steps_to s (neg_dir d) (j - i) u"
  by (auto simp: steps_to_def neg_dir_def algebra_simps of_nat_diff)

lemma steps_to_0: "steps_to s d 0 u \<Longrightarrow> s < 81 \<Longrightarrow> u < 81 \<Longrightarrow> u = s"
  by (auto simp: steps_to_def square_eq_iff)

lemma between_on_line:
  assumes p: "pins f c k frm t d n" and k: "k < 81" and d: "unit_dir d"
    and q: "q = t \<or> between_sq k d n q"
  shows "on_line frm k q"
proof -
  obtain j where j: "1 \<le> j" "j < n" "steps_to k d j frm"
    using p by (auto simp: pins_def between_sq_def)
  have kn: "steps_to k d n t" using p by (simp add: pins_def)
  obtain i where i: "steps_to k d i q" using q kn by (auto simp: between_sq_def)
  have bk: "steps_to frm (neg_dir d) j k" using j(3) steps_to_neg by blast
  have nd: "neg_dir (neg_dir d) = d" by simp
  have "steps_to frm (neg_dir d) (j - i) q \<or> steps_to frm d (i - j) q"
  proof (cases "i \<le> j")
    case True
    then have "steps_to frm (neg_dir d) (j - i) q"
      using i j(3) by (auto simp: steps_to_def neg_dir_def of_nat_diff algebra_simps)
    then show ?thesis ..
  next
    case False
    then have "steps_to frm d (i - j) q"
      using i j(3) by (auto simp: steps_to_def of_nat_diff algebra_simps)
    then show ?thesis ..
  qed
  then show ?thesis unfolding on_line_def using bk j(1) d nd
    by (metis unit_dir_neg)
qed

lemma on_line_between:
  assumes p: "pins f c k frm t d n" and k: "k < 81" and d: "unit_dir d"
    and kf: "f k \<noteq> 0" and l: "on_line frm k to"
    and r: "reaches v (occf f) frm to" and to: "to < 81" "to \<noteq> frm" "to \<noteq> k"
  shows "to = t \<or> between_sq k d n to"
proof -
  obtain j where j: "1 \<le> j" "j < n" "steps_to k d j frm"
    using p by (auto simp: pins_def between_sq_def)
  have t: "t < 81" "steps_to k d n t" "f t \<noteq> 0" and fr: "frm < 81" using p by (auto simp: pins_def)
  have bk: "steps_to frm (neg_dir d) j k" using j(3) steps_to_neg by blast
  obtain e m i where e: "unit_dir e" "1 \<le> m" "steps_to frm e m k"
    and ei: "steps_to frm e i to \<or> steps_to frm (neg_dir e) i to"
    using l by (auto simp: on_line_def)
  have "e = neg_dir d" using unit_dir_unique [OF e(1) _ e(3) bk e(2) j(1)] d by simp
  then have i: "steps_to frm (neg_dir d) i to \<or> steps_to frm d i to" using ei by simp
  have i1: "1 \<le> i" using i steps_to_0 [OF _ fr to(1)] to(2) by (metis not_less_eq_eq One_nat_def le_0_eq nat_le_linear)
  from i show ?thesis
  proof
    assume a: "steps_to frm (neg_dir d) i to"
    show ?thesis
    proof (cases "i < j")
      case True
      then have "steps_to k d (j - i) to" using steps_to_back [OF j(3) a] by simp
      with True i1 j show ?thesis by (auto simp: between_sq_def intro!: exI [of _ "j - i"])
    next
      case False
      show ?thesis
      proof (cases "i = j")
        case True
        then have "to = k" using steps_to_unique [OF a _ to(1) k] bk by simp
        with to(3) show ?thesis by simp
      next
        case gt: False
        with False have "j < i" by simp
        have "\<not> reaches v (occf f) frm to"
          using d by (intro reaches_blocked [where occ = "occf f" and u = k, OF to(1) fr k _ a bk j(1) \<open>j < i\<close> kf]) simp
        with r show ?thesis by simp
      qed
    qed
  next
    assume a: "steps_to frm d i to"
    have kto: "steps_to k d (j + i) to" using steps_to_trans [OF j(3) a] .
    have ft: "steps_to frm d (n - j) t"
      using t(2) j(2,3) by (auto simp: steps_to_def of_nat_diff algebra_simps)
    show ?thesis
    proof (cases "j + i < n")
      case True
      with kto j show ?thesis by (auto simp: between_sq_def intro!: exI [of _ "j + i"])
    next
      case False
      show ?thesis
      proof (cases "j + i = n")
        case True
        then have "to = t" using steps_to_unique [OF kto _ to(1) t(1)] t(2) by simp
        then show ?thesis ..
      next
        case gt: False
        with False j(2) have lt: "n - j < i" by linarith
        have "\<not> reaches v (occf f) frm to"
          using j(2) by (intro reaches_blocked [where occ = "occf f" and u = t, OF to(1) fr t(1) d a ft _ lt t(3)]) simp
        with r show ?thesis by simp
      qed
    qed
  qed
qed

end
