(* ===== verification/MoveRules.thy ===== *)
theory MoveRules
  imports CheckGeometry
begin

text \<open>
  What the bitboard shortcuts of the move generator compute, in terms of \<open>CheckGeometry\<close>: the
  blockers of \<open>ComputeBlockersForKing\<close> are the pinned pieces, and the line table holds the squares
  a pinned piece may stay on.
\<close>

subsection \<open>What the bitboard shortcuts compute\<close>

lemma bb_single_iff:
  assumes "bb_ok w"
  shows "bb_Any w \<and> \<not> bb_MoreThanOne w \<and> bb_Test w u \<and> u < 81 \<longleftrightarrow>
    u < 81 \<and> bb_Test w u \<and> (\<forall>x<81. bb_Test w x \<longrightarrow> x = u)"
proof -
  have set: "set (bb_squares w) = {s. s < 81 \<and> bb_Test w s}" and d: "distinct (bb_squares w)"
    using set_bb_squares [OF assms] sorted_bb_squares [OF assms] by simp_all
  have more: "bb_MoreThanOne w \<longleftrightarrow> 2 \<le> card {s. s < 81 \<and> bb_Test w s}"
    using bb_MoreThanOne_iff [OF assms] distinct_card [OF d] by (simp add: set)
  have fin: "finite {s. s < 81 \<and> bb_Test w s}" by simp
  show ?thesis
  proof
    assume a: "bb_Any w \<and> \<not> bb_MoreThanOne w \<and> bb_Test w u \<and> u < 81"
    have "x = u" if "x < 81" "bb_Test w x" for x
    proof (rule ccontr)
      assume "x \<noteq> u"
      then have "card {x, u} = 2" by simp
      moreover have "card {x, u} \<le> card {s. s < 81 \<and> bb_Test w s}"
        using a that by (intro card_mono fin) auto
      ultimately show False using a more by simp
    qed
    with a show "u < 81 \<and> bb_Test w u \<and> (\<forall>x<81. bb_Test w x \<longrightarrow> x = u)" by blast
  next
    assume a: "u < 81 \<and> bb_Test w u \<and> (\<forall>x<81. bb_Test w x \<longrightarrow> x = u)"
    then have "{s. s < 81 \<and> bb_Test w s} = {u}" by auto
    with a more bb_Any_iff_Test [OF assms] show "bb_Any w \<and> \<not> bb_MoreThanOne w \<and> bb_Test w u \<and> u < 81"
      by auto
  qed
qed

lemma bb_ok_BetweenBB [bb_intros]: "s < 81 \<Longrightarrow> bb_ok (BetweenBB s t)"
proof -
  assume s: "s < 81"
  have fs: "bb_ok acc \<Longrightarrow> (\<forall>x\<in>set xs. x < 81) \<Longrightarrow> bb_ok (fold (\<lambda>q b. bb_Set b q) xs acc)" for xs acc
    by (induction xs arbitrary: acc) (auto intro: bb_ok_Set)
  have walk: "bb_ok (tab t) \<Longrightarrow> d \<in> set dirs \<Longrightarrow> bb_ok (between_walk (ray_from s d) tab t)" for d tab
    using distinct_ray_from [OF s, of d]
    by (auto simp: between_walk_eval set_dirs intro!: fs dest!: set_takeWhileD)
  have "bb_ok (fold (\<lambda>d tab. between_walk (ray_from s d) tab) ds tab t)"
    if "set ds \<subseteq> set dirs" "bb_ok (tab t)" for ds tab
    using that by (induction ds arbitrary: tab) (auto intro: walk)
  then show ?thesis by (simp add: BetweenBB_def)
qed

lemma Test_pin_pieces:
  assumes b: "board_ok b" and k: "k < 81" and c: "bb_ok cand" and u: "u < 81"
  shows "bb_Test (pin_pieces b k cand bl) u \<longleftrightarrow> bb_Test bl u \<or>
    (\<exists>p<81. bb_Test cand p \<and> bb_Test (BetweenBB k p) u \<and> board_arr b u \<noteq> 0 \<and>
       (\<forall>w<81. bb_Test (BetweenBB k p) w \<and> board_arr b w \<noteq> 0 \<longrightarrow> w = u))"
proof -
  let ?w = "\<lambda>p. bb_And (BetweenBB k p) (occupied b)"
  have ok: "bb_ok (?w p)" for p using k by (simp add: bb_ok_And1 bb_ok_BetweenBB)
  have one: "(bb_Any (?w p) \<and> \<not> bb_MoreThanOne (?w p)) \<and> bb_Test (?w p) u \<longleftrightarrow>
    bb_Test (BetweenBB k p) u \<and> board_arr b u \<noteq> 0 \<and>
    (\<forall>w<81. bb_Test (BetweenBB k p) w \<and> board_arr b w \<noteq> 0 \<longrightarrow> w = u)" for p
    using bb_single_iff [OF ok, of p u] u b by (auto simp: Test_And Test_occupied)
  have "bb_Test (fold (\<lambda>pinner blockers. let between = ?w pinner
          in if bb_Any between \<and> \<not> bb_MoreThanOne between then bb_Or blockers between else blockers) ps bl) u
      \<longleftrightarrow> bb_Test bl u \<or> (\<exists>p\<in>set ps. (bb_Any (?w p) \<and> \<not> bb_MoreThanOne (?w p)) \<and> bb_Test (?w p) u)" for ps
    by (induction ps arbitrary: bl) (auto simp: Let_def Test_Or)
  then show ?thesis unfolding pin_pieces_def one using set_bb_squares [OF c] by auto
qed

lemma RookEffectBB_ray:
  assumes "s < 81" "t < 81"
  shows "bb_Test (RookEffectBB s) t \<longleftrightarrow> (\<exists>d\<in>set rook_dirs. t \<in> set (ray_from s d))"
proof
  assume "bb_Test (RookEffectBB s) t"
  then have a: "sq_file t = sq_file s \<or> sq_rank t = sq_rank s" "s \<noteq> t"
    using Test_RookEffectBB [OF assms] by simp_all
  have neq: "\<not> (sq_file t = sq_file s \<and> sq_rank t = sq_rank s)" using a(2) assms square_eq_iff by metis
  have r: "t \<in> set (ray_from s d)" if "d \<in> set rook_dirs" "steps_to s d k t" "1 \<le> k" for d k
    using that steps_to_ray_from [OF assms(1) _ assms(2)] unit_dir_rook_bishop by blast
  consider "sq_file t = sq_file s" "sq_rank t < sq_rank s" | "sq_file t = sq_file s" "sq_rank s < sq_rank t"
    | "sq_rank t = sq_rank s" "sq_file t < sq_file s" | "sq_rank t = sq_rank s" "sq_file s < sq_file t"
    using a(1) neq by linarith
  then show "\<exists>d\<in>set rook_dirs. t \<in> set (ray_from s d)"
  proof cases
    case 1
    then show ?thesis by (intro bexI [of _ "(0, -1)"] r [of _ "sq_rank s - sq_rank t"])
      (auto simp: rook_dirs_def steps_to_def of_nat_diff)
  next
    case 2
    then show ?thesis by (intro bexI [of _ "(0, 1)"] r [of _ "sq_rank t - sq_rank s"])
      (auto simp: rook_dirs_def steps_to_def of_nat_diff)
  next
    case 3
    then show ?thesis by (intro bexI [of _ "(-1, 0)"] r [of _ "sq_file s - sq_file t"])
      (auto simp: rook_dirs_def steps_to_def of_nat_diff)
  next
    case 4
    then show ?thesis by (intro bexI [of _ "(1, 0)"] r [of _ "sq_file t - sq_file s"])
      (auto simp: rook_dirs_def steps_to_def of_nat_diff)
  qed
next
  assume "\<exists>d\<in>set rook_dirs. t \<in> set (ray_from s d)"
  then obtain d where d: "d \<in> set rook_dirs" "t \<in> set (ray_from s d)" by blast
  then have u: "unit_dir d" using unit_dir_rook_bishop by blast
  obtain k where k: "1 \<le> k" "steps_to s d k t" using d(2) set_ray_from [OF assms(1) u] by blast
  have "s \<noteq> t" using k steps_to_inj [OF u, of s 0 t k] by (auto simp: steps_to_def)
  with rook_dirs_aligned [OF d(1) k(2)] show "bb_Test (RookEffectBB s) t"
    using Test_RookEffectBB [OF assms] by simp
qed

lemma ex_disj3:
  "(\<exists>d n. (A \<and> P d \<or> B \<and> Q d \<or> C \<and> d = e) \<and> S n \<and> R d n) \<longleftrightarrow>
   (A \<and> (\<exists>d n. P d \<and> S n \<and> R d n)) \<or> (B \<and> (\<exists>d n. Q d \<and> S n \<and> R d n)) \<or>
   (C \<and> (\<exists>d n. d = e \<and> S n \<and> R d n))"
  by blast

lemma ex_sq_cong:
  "(\<And>p. p < 81 \<Longrightarrow> A p \<longleftrightarrow> (\<exists>d n. B p \<and> C p \<and> D p d \<and> E n \<and> F p d n)) \<Longrightarrow>
   (\<exists>p<(81::nat). A p \<and> X p) \<longleftrightarrow> (\<exists>p<81. \<exists>d n. B p \<and> C p \<and> D p d \<and> E n \<and> F p d n \<and> X p)"
  by fast

lemma Test_ComputeBlockers:
  assumes b: "board_ok b" and k: "king_sq b c = k" "k < 81" and u: "u < 81"
  shows "bb_Test (ComputeBlockersForKing b c) u \<longleftrightarrow> (\<exists>t d n. pins (board_arr b) c k u t d n)"
proof -
  let ?f = "board_arr b"
  let ?only = "\<lambda>p. bb_Test (BetweenBB k p) u \<and> ?f u \<noteq> 0 \<and>
       (\<forall>w<81. bb_Test (BetweenBB k p) w \<and> ?f w \<noteq> 0 \<longrightarrow> w = u)"
  have only: "?only p \<longleftrightarrow> between_sq k d n u \<and> ?f u \<noteq> 0 \<and> (\<forall>w<81. between_sq k d n w \<and> ?f w \<noteq> 0 \<longrightarrow> w = u)"
    if "unit_dir d" "p < 81" "1 \<le> n" "steps_to k d n p" for p d n
    using BetweenBB_on_ray [OF k(2) that(1,2) _ that(3,4)] u by (auto simp: between_sq_def)
  have ray: "p \<in> set (ray_from k d) \<longleftrightarrow> p < 81 \<and> (\<exists>n\<ge>1. steps_to k d n p)" if "unit_dir d" for p d
    by (rule set_ray_from [OF k(2) that])
  have pos: "0 < piece_Make (opp c) z" if "Suc 0 \<le> z" "z < 16" for z
    using piece_Make_sel(4) [of z "opp c"] that by (metis One_nat_def gr0I)
  have mk: "?f p \<in> piece_Make (opp c) ` {x, y} \<longleftrightarrow>
      ?f p \<noteq> 0 \<and> piece_GetColor (?f p) = opp c \<and> piece_GetType (?f p) \<in> {x, y}"
    if "p < 81" "1 \<le> x" "x < 16" "1 \<le> y" "y < 16" for p x y
    using piece_eq_Make [OF board_okD(1) [OF b that(1)]] that pos by (auto simp: image_iff)
  have any: "bb_ok (bb_And (RookEffectBB k) x)" "bb_ok (bb_And (BishopEffectBB k) x)"
    "bb_ok (bb_And (LanceMaskBB k c) x)" for x using k(2) by (simp_all add: bb_ok_And1)
  have "bb_Test (ComputeBlockersForKing b c) u \<longleftrightarrow>
    (\<exists>p<81. ((?f p \<in> piece_Make (opp c) ` {kRook, kDragon} \<and> (\<exists>d\<in>set rook_dirs. p \<in> set (ray_from k d))) \<or>
       (?f p \<in> piece_Make (opp c) ` {kBishop, kHorse} \<and> (\<exists>d\<in>set bishop_dirs. p \<in> set (ray_from k d))) \<or>
       (?f p \<in> piece_Make (opp c) ` {kLance, kLance} \<and> p \<in> set (ray_from k (forward c)))) \<and> ?only p)"
    (is "_ \<longleftrightarrow> (\<exists>p<81. (?R p \<or> ?B p \<or> ?L p) \<and> _)")
  proof -
    have "bb_Test (bb_And (RookEffectBB k) (rook_like b (opp c))) p \<longleftrightarrow> ?R p"
      "bb_Test (bb_And (BishopEffectBB k) (bishop_like b (opp c))) p \<longleftrightarrow> ?B p"
      "bb_Test (bb_And (LanceMaskBB k c) (pieces_ct b (opp c) kLance)) p \<longleftrightarrow> ?L p" if "p < 81" for p
      unfolding Test_And Test_like [OF b that] RookEffectBB_ray [OF k(2) that]
        Test_BishopEffectBB [OF k(2) that] LanceMask_ray [OF k(2) that] image_insert image_empty insert_absorb2
      using Test_pieces_ct [OF b that, of kLance "opp c"] by (simp_all add: kLance_def conj_commute)
    then have "bb_Test (ComputeBlockersForKing b c) u \<longleftrightarrow>
      (\<exists>p<81. ?R p \<and> ?only p) \<or> (\<exists>p<81. ?B p \<and> ?only p) \<or> (\<exists>p<81. ?L p \<and> ?only p)"
      unfolding ComputeBlockersForKing_def Let_def k(1) Test_pin_pieces [OF b k(2) any(1) u]
        Test_pin_pieces [OF b k(2) any(2) u] Test_pin_pieces [OF b k(2) any(3) u]
      by (simp add: disj_assoc cong: conj_cong)
    then show ?thesis by blast
  qed
  also have "\<dots> \<longleftrightarrow> (\<exists>p<81. \<exists>d n. ?f p \<noteq> 0 \<and> piece_GetColor (?f p) = opp c \<and> slides (?f p) d \<and>
      1 \<le> n \<and> steps_to k d n p \<and> ?only p)"
  proof -
    have t: "?f p \<in> piece_Make (opp c) ` {kRook, kDragon} \<longleftrightarrow> ?f p \<noteq> 0 \<and> piece_GetColor (?f p) = opp c \<and> piece_GetType (?f p) \<in> {kRook, kDragon}"
      "?f p \<in> piece_Make (opp c) ` {kBishop, kHorse} \<longleftrightarrow> ?f p \<noteq> 0 \<and> piece_GetColor (?f p) = opp c \<and> piece_GetType (?f p) \<in> {kBishop, kHorse}"
      "?f p \<in> piece_Make (opp c) ` {kLance, kLance} \<longleftrightarrow> ?f p \<noteq> 0 \<and> piece_GetColor (?f p) = opp c \<and> piece_GetType (?f p) \<in> {kLance, kLance}"
      if "p < 81" for p by (intro mk that; simp add: piece_type_defs)+
    have "(?R p \<or> ?B p \<or> ?L p) \<longleftrightarrow> (\<exists>d n. ?f p \<noteq> 0 \<and> piece_GetColor (?f p) = opp c \<and> slides (?f p) d \<and>
        1 \<le> n \<and> steps_to k d n p)" if p: "p < 81" for p
    proof -
      have r: "(\<exists>d\<in>set rook_dirs. p \<in> set (ray_from k d)) \<longleftrightarrow> (\<exists>d n. d \<in> set rook_dirs \<and> 1 \<le> n \<and> steps_to k d n p)"
        "(\<exists>d\<in>set bishop_dirs. p \<in> set (ray_from k d)) \<longleftrightarrow> (\<exists>d n. d \<in> set bishop_dirs \<and> 1 \<le> n \<and> steps_to k d n p)"
        "p \<in> set (ray_from k (forward c)) \<longleftrightarrow> (\<exists>d n. d = forward c \<and> 1 \<le> n \<and> steps_to k d n p)"
        using ray [OF unit_dir_forward, of p c] ray [of _ p] unit_dir_rook_bishop p by blast+
      show ?thesis
      proof (cases "?f p \<noteq> 0 \<and> piece_GetColor (?f p) = opp c")
        case True
        then have sl: "slides (?f p) d \<longleftrightarrow> (piece_GetType (?f p) \<in> {kRook, kDragon} \<and> d \<in> set rook_dirs) \<or>
           (piece_GetType (?f p) \<in> {kBishop, kHorse} \<and> d \<in> set bishop_dirs) \<or>
           (piece_GetType (?f p) \<in> {kLance, kLance} \<and> d = forward c)" for d
          by (simp add: slides_def)
        show ?thesis unfolding t [OF p] r sl using True by (simp only: ex_disj3 simp_thms)
      next
        case False
        then show ?thesis unfolding t [OF p] by blast
      qed
    qed
    then show ?thesis by (rule ex_sq_cong)
  qed
  also have "\<dots> \<longleftrightarrow> (\<exists>t d n. pins ?f c k u t d n)"
    unfolding pins_def using only slides_rook_bishop u by blast
  finally show ?thesis .
qed

lemma Test_LineBB:
  assumes "u < 81" "k < 81" "q < 81"
  shows "bb_Test (LineBB u k) q \<longleftrightarrow> on_line u k q"
proof (cases "\<exists>d. unit_dir d \<and> k \<in> set (ray_from u d)")
  case True
  then obtain d where d: "unit_dir d" "k \<in> set (ray_from u d)" by blast
  then obtain m where m: "1 \<le> m" "steps_to u d m k" using set_ray_from [OF assms(1) d(1)] by blast
  have ray: "q \<in> set (ray_from u e) \<longleftrightarrow> (\<exists>i\<ge>1. steps_to u e i q)" if "unit_dir e" for e
    using set_ray_from [OF assms(1) that] assms(3) by simp
  have zero: "steps_to u e 0 q \<longleftrightarrow> q = u" for e using assms by (auto simp: steps_to_def square_eq_iff)
  have ex: "(\<exists>i. steps_to u e i q) \<longleftrightarrow> q = u \<or> q \<in> set (ray_from u e)" if "unit_dir e" for e
    using ray [OF that] zero [of e] by (metis One_nat_def Suc_leI bot_nat_0.not_eq_extremum)
  have "on_line u k q \<longleftrightarrow> (\<exists>i. steps_to u d i q \<or> steps_to u (neg_dir d) i q)"
    unfolding on_line_def using unit_dir_unique [OF d(1) _ m(2) _ m(1)] d(1) m by blast
  then show ?thesis
    unfolding LineBB_on_ray [OF assms(1) d] Test_full_line [OF assms(1) d(1) assms(3)]
    using ex [OF d(1)] ex [of "neg_dir d"] d(1) by auto
next
  case False
  then have "LineBB u k = bb_Zero" by (intro LineBB_off_ray assms(1)) blast
  moreover have "\<not> on_line u k q"
    using False set_ray_from [OF assms(1)] assms(2) unfolding on_line_def by blast
  ultimately show ?thesis by simp
qed

end
