(* ===== verification/KingSafety.thy ===== *)
theory KingSafety
  imports MoveRules
begin

text \<open>
  How a move changes the attackers of the mover's king, on bare placements: which checks
  remain, which are blocked or removed, and which are discovered.  From these follow the
  criteria the generator uses instead of making a move and looking: a piece that is not
  pinned, or stays on the line of its pin, discovers nothing; a check is answered by
  capturing the checking piece or by stepping between.
\<close>

subsection \<open>The squares between king and attacker\<close>

definition betw :: "square \<Rightarrow> square \<Rightarrow> square \<Rightarrow> bool" where
  "betw k t u \<longleftrightarrow> (\<exists>d n. unit_dir d \<and> 1 \<le> n \<and> steps_to k d n t \<and> between_sq k d n u)"

lemma betw_on_ray:
  assumes "unit_dir d" "1 \<le> n" "steps_to k d n t"
  shows "betw k t u \<longleftrightarrow> between_sq k d n u"
  using assms unit_dir_unique [OF assms(1) _ assms(3) _ assms(2)] steps_to_inj [OF assms(1,3)]
  unfolding betw_def by blast

lemma Test_BetweenBB_betw:
  assumes "k < 81" "t < 81" "u < 81"
  shows "bb_Test (BetweenBB k t) u \<longleftrightarrow> betw k t u"
proof (cases "\<exists>d. unit_dir d \<and> t \<in> set (ray_from k d)")
  case True
  then obtain d n where d: "unit_dir d" "1 \<le> n" "steps_to k d n t" using set_ray_from [OF assms(1)] by blast
  show ?thesis
    unfolding betw_on_ray [OF d] BetweenBB_on_ray [OF assms(1) d(1) assms(2,3) d(2,3)] between_sq_def ..
next
  case False
  then have "BetweenBB k t = bb_Zero" by (intro BetweenBB_off_ray assms(1)) blast
  moreover have "\<not> betw k t u" using False set_ray_from [OF assms(1)] assms(2) unfolding betw_def by blast
  ultimately show ?thesis by simp
qed

lemma steps_at_neq: "s < 81 \<Longrightarrow> steps_at v s s \<Longrightarrow> False"
  unfolding steps_at_def StepAttacks_def step_defs
  by (cases "piece_GetColor v") (auto simp: Test_MakeStepBB delta_defs split: if_splits)

lemma reaches_neq: "s < 81 \<Longrightarrow> t < 81 \<Longrightarrow> reaches v occ t s \<Longrightarrow> s \<noteq> t"
proof
  assume s: "s < 81" and r: "reaches v occ t s" and e: "s = t"
  from r consider "steps_at v t s" | d k where "unit_dir d" "1 \<le> k" "steps_to s d k t"
    by (auto simp: reaches_def)
  then show False
  proof cases
    case 1
    then show ?thesis using steps_at_neq s e by simp
  next
    case 2
    have "steps_to s d 0 s" by (simp add: steps_to_def)
    then show ?thesis using 2 e steps_to_inj [of d s 0 s k] by simp
  qed
qed

text \<open>An attack over a ray is a slide, not a step.\<close>

lemma reaches_betw:
  assumes "reaches v occ t k" "betw k t u" "k < 81" "t < 81"
  obtains d n where "unit_dir d" "slides v d" "1 \<le> n" "steps_to k d n t" "clear_between occ k d n"
    "between_sq k d n u"
proof -
  obtain e m where e: "unit_dir e" "1 \<le> m" "steps_to k e m t" "between_sq k e m u"
    using assms(2) by (auto simp: betw_def)
  have m: "2 \<le> m" using e(4) by (auto simp: between_sq_def)
  have ns: "\<not> steps_at v t k"
  proof
    assume st: "steps_at v t k"
    have n: "steps_to t (neg_dir e) m k" using e(3) steps_to_neg by blast
    have u: "unit_dir (neg_dir e)" using e(1) by simp
    show False using step_deltas_small [OF assms(3,4) st u n] m by simp
  qed
  from assms(1) ns obtain d n where d: "unit_dir d" "slides v d" "1 \<le> n" "steps_to k d n t"
    "clear_between occ k d n" by (auto simp: reaches_def)
  have "between_sq k d n u" using assms(2) betw_on_ray [OF d(1,3,4)] by blast
  then show thesis using that d by blast
qed

lemma att_betw_empty:
  "att f (occf f) c t k \<Longrightarrow> betw k t u \<Longrightarrow> k < 81 \<Longrightarrow> t < 81 \<Longrightarrow> u < 81 \<Longrightarrow> f u = 0"
proof -
  assume a: "att f (occf f) c t k" and h: "betw k t u" "k < 81" "t < 81" "u < 81"
  then have "reaches (f t) (occf f) t k" by (simp add: att_def)
  from reaches_betw [OF this h(1-3)] obtain d n where "clear_between (occf f) k d n" "between_sq k d n u" by blast
  then show "f u = 0" using h(4) unfolding clear_between_sq by blast
qed

text \<open>More empty squares do not stop an attack unless the attacker's line is entered.\<close>

lemma reaches_mono:
  assumes "reaches v occ t k" "k < 81" "t < 81"
    and "\<And>u. u < 81 \<Longrightarrow> betw k t u \<Longrightarrow> \<not> occ u \<Longrightarrow> \<not> occ' u"
  shows "reaches v occ' t k"
proof (cases "steps_at v t k")
  case False
  then obtain d n where d: "unit_dir d" "slides v d" "1 \<le> n" "steps_to k d n t" "clear_between occ k d n"
    using assms(1) by (auto simp: reaches_def)
  have "clear_between occ' k d n"
    using d(5) assms(4) betw_on_ray [OF d(1,3,4)] unfolding clear_between_sq by blast
  then show ?thesis using d unfolding reaches_def by blast
qed (simp add: reaches_def)

subsection \<open>A move of another piece\<close>

lemma pins_dir: "pins f c k u t d n \<Longrightarrow> unit_dir d"
  unfolding pins_def by (elim conjE) (rule slides_rook_bishop)

lemma pins_sq: "pins f c k u t d n \<Longrightarrow> t < 81"
  unfolding pins_def by (elim conjE)

lemma att_after_move:
  assumes f: "f frm \<noteq> 0" "piece_GetColor (f frm) = c" "v \<noteq> 0" "piece_GetColor v = c" "frm < 81" "to < 81" "frm \<noteq> to"
    and k: "k < 81" and t: "t < 81"
  shows "att (f(frm := 0, to := v)) (occf (f(frm := 0, to := v))) (opp c) t k \<longleftrightarrow>
    t \<noteq> to \<and> ((att f (occf f) (opp c) t k \<and> \<not> betw k t to) \<or>
      (\<exists>d n. pins f c k frm t d n \<and> \<not> between_sq k d n to))" (is "?L \<longleftrightarrow> ?R")
proof
  assume L: ?L
  have to: "t \<noteq> to" using L f(4) by (auto simp: att_def)
  from unveiled [OF f(1,3,5-7) t to L] show ?R
  proof
    assume a: "att f (occf f) (opp c) t k"
    have "\<not> betw k t to" using att_betw_empty [OF L _ k t f(6)] f(3) by auto
    then show ?R using a to by blast
  qed (use to in blast)
next
  assume R: ?R
  then consider "t \<noteq> to" "att f (occf f) (opp c) t k" "\<not> betw k t to"
    | d n where "t \<noteq> to" "pins f c k frm t d n" "\<not> between_sq k d n to" by blast
  then show ?L
  proof cases
    case 1
    have tf: "t \<noteq> frm" using 1(2) f(2) by (auto simp: att_def)
    have r: "reaches (f t) (occf f) t k" using 1(2) by (simp add: att_def)
    have "reaches (f t) (occf (f(frm := 0, to := v))) t k"
      by (rule reaches_mono [OF r k t]) (use 1(3) in auto)
    then show ?L using 1 tf by (simp add: att_def)
  next
    case 2
    show ?L by (rule pin_exposes [OF 2(2) f(6) 2(1,3) pins_dir [OF 2(2)]])
  qed
qed

lemma att_after_drop:
  assumes "f to = 0" "v \<noteq> 0" "piece_GetColor v = c" "to < 81" "k < 81" "t < 81"
  shows "att (f(to := v)) (occf (f(to := v))) (opp c) t k \<longleftrightarrow> att f (occf f) (opp c) t k \<and> \<not> betw k t to"
    (is "?L \<longleftrightarrow> ?R")
proof
  assume L: ?L
  have to: "t \<noteq> to" using L assms(3) by (auto simp: att_def)
  have "\<not> betw k t to" using att_betw_empty [OF L _ assms(5,6,4)] assms(2) by auto
  moreover have "reaches (f t) (occf f) t k"
  proof (rule reaches_mono [OF _ assms(5,6)])
    show "reaches (f t) (occf (f(to := v))) t k" using L to by (simp add: att_def)
  qed (use assms(1) in \<open>auto split: if_splits\<close>)
  ultimately show ?R using L to by (simp add: att_def)
next
  assume R: ?R
  have to: "t \<noteq> to" using R assms(1) by (auto simp: att_def)
  have r: "reaches (f t) (occf f) t k" using R by (simp add: att_def)
  have "reaches (f t) (occf (f(to := v))) t k"
    by (rule reaches_mono [OF r assms(5,6)]) (use R in auto)
  then show ?L using R to by (simp add: att_def)
qed

text \<open>The king is safe after the move of another piece exactly if the move answers every check
  and a pinned piece stays on its line.\<close>

lemma in_check_after_move:
  assumes f: "f frm \<noteq> 0" "piece_GetColor (f frm) = c" "v \<noteq> 0" "piece_GetColor v = c" "frm < 81" "to < 81" "frm \<noteq> to"
    and k: "k < 81" "f k \<noteq> 0" "to \<noteq> k" and r: "reaches (f frm) (occf f) frm to"
  shows "in_check (f(frm := 0, to := v)) c k \<longleftrightarrow>
    (\<exists>t<81. att f (occf f) (opp c) t k \<and> t \<noteq> to \<and> \<not> betw k t to) \<or>
    ((\<exists>t d n. pins f c k frm t d n) \<and> \<not> on_line frm k to)"
proof -
  have pin: "(t \<noteq> to \<and> \<not> between_sq k d n to) \<longleftrightarrow> \<not> on_line frm k to" if p: "pins f c k frm t d n" for t d n
  proof -
    note d = pins_dir [OF p]
    show ?thesis
      using on_line_between [OF p k(1) d k(2) _ r f(6)] between_on_line [OF p k(1) d, of to] f(7) k(3) by metis
  qed
  have "in_check (f(frm := 0, to := v)) c k \<longleftrightarrow>
    (\<exists>t<81. t \<noteq> to \<and> att f (occf f) (opp c) t k \<and> \<not> betw k t to) \<or>
    (\<exists>t<81. \<exists>d n. pins f c k frm t d n \<and> t \<noteq> to \<and> \<not> between_sq k d n to)"
    unfolding in_check_def using att_after_move [where f = f, OF f k(1)] by blast
  moreover have "(\<exists>t<81. \<exists>d n. pins f c k frm t d n \<and> t \<noteq> to \<and> \<not> between_sq k d n to) \<longleftrightarrow>
    (\<exists>t d n. pins f c k frm t d n) \<and> \<not> on_line frm k to"
    using pin pins_sq by meson
  ultimately show ?thesis by blast
qed

lemma in_check_after_drop:
  assumes "f to = 0" "v \<noteq> 0" "piece_GetColor v = c" "to < 81" "k < 81"
  shows "in_check (f(to := v)) c k \<longleftrightarrow> (\<exists>t<81. att f (occf f) (opp c) t k \<and> \<not> betw k t to)"
  unfolding in_check_def using att_after_drop [where f = f, OF assms] by blast

subsection \<open>A king move\<close>

lemma in_check_after_king_move:
  assumes "piece_GetColor v = c" "k < 81" "to < 81" "k \<noteq> to"
  shows "in_check (f(k := 0, to := v)) c to \<longleftrightarrow>
    (\<exists>t<81. t \<noteq> k \<and> att f (\<lambda>u. f u \<noteq> 0 \<and> u \<noteq> k) (opp c) t to)"
proof -
  have "att (f(k := 0, to := v)) (occf (f(k := 0, to := v))) (opp c) t to \<longleftrightarrow>
      t \<noteq> k \<and> att f (\<lambda>u. f u \<noteq> 0 \<and> u \<noteq> k) (opp c) t to" if t: "t < 81" for t
  proof (cases "t = to")
    case True
    then show ?thesis using reaches_neq [OF t t] assms(1) by (auto simp: att_def)
  next
    case False
    have nb: "\<not> betw to t to"
    proof
      assume "betw to t to"
      then obtain d j where "unit_dir d" "1 \<le> j" "steps_to to d j to" by (auto simp: betw_def between_sq_def)
      moreover have "steps_to to d 0 to" by (simp add: steps_to_def)
      ultimately show False using steps_to_inj [of d to 0 to j] by simp
    qed
    have "reaches p (occf (f(k := 0, to := v))) t to \<longleftrightarrow> reaches p (\<lambda>u. f u \<noteq> 0 \<and> u \<noteq> k) t to" for p
      by (intro iffI; erule reaches_mono [OF _ assms(3) t]) (use nb in \<open>auto split: if_splits\<close>)
    then show ?thesis using False by (auto simp: att_def)
  qed
  then show ?thesis unfolding in_check_def by blast
qed

subsection \<open>Two checks at once\<close>

lemma two_checks:
  assumes a: "att f (occf f) c t k" "att f (occf f) c u k" "t \<noteq> u"
    and "t < 81" "u < 81" "k < 81" "to < 81"
    and b: "t = to \<or> betw k t to" "u = to \<or> betw k u to"
  shows False
proof -
  have ft: "f t \<noteq> 0" "f u \<noteq> 0" using a by (auto simp: att_def)
  have half: False if h: "att f (occf f) c u k" "betw k u t" "f t \<noteq> 0" "t < 81" "u < 81" for t u
    using att_betw_empty [OF h(1,2) assms(6) h(5,4)] h(3) by simp
  consider "t = to" "u = to" | "t = to" "betw k u to" | "betw k t to" "u = to" | "betw k t to" "betw k u to"
    using b by blast
  then show False
  proof cases
    case 1
    then show False using a(3) by simp
  next
    case 2
    then show False using half [OF a(2) _ ft(1) assms(4,5)] by simp
  next
    case 3
    then show False using half [OF a(1) _ ft(2) assms(5,4)] by simp
  next
    case 4
    then obtain d n j where d: "unit_dir d" "1 \<le> n" "steps_to k d n t" "1 \<le> j" "j < n" "steps_to k d j to"
      by (auto simp: betw_def between_sq_def)
    obtain e m i where e: "unit_dir e" "1 \<le> m" "steps_to k e m u" "1 \<le> i" "i < m" "steps_to k e i to"
      using 4 by (auto simp: betw_def between_sq_def)
    have ed: "e = d" using unit_dir_unique [OF e(1) d(1) e(6) d(6) e(4) d(4)] .
    have "n \<noteq> m" using steps_to_unique [OF d(3) _ assms(4,5)] e(3) a(3) ed by blast
    then consider "n < m" | "m < n" by linarith
    then show False
    proof cases
      case 1
      have "betw k u t" unfolding betw_def between_sq_def using e d 1 ed by blast
      then show False using half [OF a(2) _ ft(1) assms(4,5)] by simp
    next
      case 2
      have "betw k t u" unfolding betw_def between_sq_def using e d 2 ed by blast
      then show False using half [OF a(1) _ ft(2) assms(5,4)] by simp
    qed
  qed
qed

end
