(* ===== verification/LegalMoves.thy ===== *)
theory LegalMoves
  imports KingSafety
begin

text \<open>
  The rules of shogi as a specification of the move generator, and the proof that
  \<open>GenerateLegalMoves\<close> lists exactly the moves the rules allow: the moves a piece or a
  hand can make that do not leave the mover's king attacked and do not mate with a pawn
  drop.  The generator never makes a board move to find this out; its shortcuts (pins, the
  occupancy without the king, blocking squares) are justified by \<open>KingSafety\<close>.
\<close>

subsection \<open>The rules\<close>

text \<open>Ranks between a square and the far edge of the board.\<close>

definition rank_ahead :: "color \<Rightarrow> square \<Rightarrow> nat" where
  "rank_ahead c s = (if c = BLACK then sq_rank s else 8 - sq_rank s)"

text \<open>An unpromoted piece may not stand where it could never move again.\<close>

definition dead_end :: "color \<Rightarrow> piece_type \<Rightarrow> square \<Rightarrow> bool" where
  "dead_end c pt s \<longleftrightarrow> (pt \<in> {kPawn, kLance} \<and> rank_ahead c s = 0) \<or> (pt = kKnight \<and> rank_ahead c s \<le> 1)"

definition may_promote :: "color \<Rightarrow> piece_type \<Rightarrow> square \<Rightarrow> square \<Rightarrow> bool" where
  "may_promote c pt frm to \<longleftrightarrow> pt_CanPromote pt \<and> (rank_ahead c frm \<le> 2 \<or> rank_ahead c to \<le> 2)"

definition piece_move :: "shogi_board \<Rightarrow> square \<Rightarrow> square \<Rightarrow> bool" where
  "piece_move b frm to \<longleftrightarrow> frm < 81 \<and> to < 81 \<and>
     att (board_arr b) (occf (board_arr b)) (side_to_move b) frm to \<and>
     \<not> (board_arr b to \<noteq> 0 \<and> piece_GetColor (board_arr b to) = side_to_move b)"

definition move_variant :: "shogi_board \<Rightarrow> square \<Rightarrow> square \<Rightarrow> move \<Rightarrow> bool" where
  "move_variant b frm to m \<longleftrightarrow>
     (m = move_Normal frm to \<and> \<not> dead_end (side_to_move b) (piece_GetType (board_arr b frm)) to) \<or>
     (m = move_Promotion frm to \<and> may_promote (side_to_move b) (piece_GetType (board_arr b frm)) frm to)"

definition rule_drop :: "shogi_board \<Rightarrow> piece_type \<Rightarrow> square \<Rightarrow> bool" where
  "rule_drop b pt to \<longleftrightarrow> pt_IsHandPiece pt \<and> 0 < hand_Count (hands b (side_to_move b)) pt \<and> to < 81 \<and>
     board_arr b to = 0 \<and> \<not> dead_end (side_to_move b) pt to \<and>
     (pt = kPawn \<longrightarrow> (\<forall>s<81. board_arr b s = piece_Make (side_to_move b) kPawn \<longrightarrow> sq_file s \<noteq> sq_file to))"

definition rule_move :: "shogi_board \<Rightarrow> move \<Rightarrow> bool" where
  "rule_move b m \<longleftrightarrow> (\<exists>frm to. piece_move b frm to \<and> move_variant b frm to m) \<or>
     (\<exists>pt to. m = move_Drop pt to \<and> rule_drop b pt to)"

abbreviation after_move :: "shogi_board \<Rightarrow> move \<Rightarrow> shogi_board" where
  "after_move b m \<equiv> snd (DoMoveForMovegen b m)"

abbreviation mover_king :: "shogi_board \<Rightarrow> square" where
  "mover_king b \<equiv> king_sq b (side_to_move b)"

text \<open>The dropped pawn stands right before the enemy king.\<close>

definition pawn_drop_check :: "shogi_board \<Rightarrow> move \<Rightarrow> bool" where
  "pawn_drop_check b m \<longleftrightarrow> move_is_drop m \<and> move_drop_piece m = kPawn \<and>
     steps_to (move_to m) (forward (side_to_move b)) 1 (king_sq b (opp (side_to_move b)))"

subsection \<open>The code's helpers\<close>

lemma sq_rank_le: "s < 81 \<Longrightarrow> sq_rank s \<le> 8"
  by (simp add: sq_rank_def)

lemma InPromotionZone_ahead: "s < 81 \<Longrightarrow> sq_InPromotionZone s c \<longleftrightarrow> rank_ahead c s \<le> 2"
  using sq_rank_le [of s] by (auto simp: sq_InPromotionZone_def rank_InPromotionZone_def rank_ahead_def)

lemma RelativeRank_ahead: "s < 81 \<Longrightarrow> RelativeRank (sq_rank s) c = rank_ahead c s"
  using sq_rank_le [of s] by (auto simp: RelativeRank_def rank_ahead_def)

lemma MustPromote_dead_end: "s < 81 \<Longrightarrow> MustPromote pt c s \<longleftrightarrow> dead_end c pt s"
  by (auto simp: MustPromote_def dead_end_def RelativeRank_ahead Let_def piece_type_defs)

lemma CanPromote_may: "s < 81 \<Longrightarrow> t < 81 \<Longrightarrow> CanPromote pt c s t \<longleftrightarrow> may_promote c pt s t"
  by (simp add: CanPromote_def may_promote_def InPromotionZone_ahead)

lemma set_board_variants:
  assumes "frm < 81" "to < 81"
  shows "m \<in> set (board_variants (piece_GetType (board_arr b frm)) (side_to_move b) frm to) \<longleftrightarrow> move_variant b frm to m"
  unfolding board_variants_def move_variant_def MustPromote_dead_end [OF assms(2)] CanPromote_may [OF assms] by auto

lemma without_rank_Test: "t < 81 \<Longrightarrow> r < 9 \<Longrightarrow> bb_Test (without_rank r w) t \<longleftrightarrow> bb_Test w t \<and> sq_rank t \<noteq> r"
  by (simp add: without_rank_def bb_simps)

lemma Test_drop_ranks:
  assumes "t < 81" "pt_IsHandPiece pt"
  shows "bb_Test (drop_ranks pt c w) t \<longleftrightarrow> bb_Test w t \<and> \<not> dead_end c pt t"
proof -
  have r: "sq_rank t \<le> 8" using assms(1) by (rule sq_rank_le)
  have "rank_ahead c t = 0 \<longleftrightarrow> sq_rank t = (if c = BLACK then 0 else 8)"
    "rank_ahead c t \<le> 1 \<longleftrightarrow> sq_rank t = (if c = BLACK then 0 else 8) \<or> sq_rank t = (if c = BLACK then 1 else 7)"
    using r by (auto simp: rank_ahead_def)
  then show ?thesis using assms(1)
    by (cases c) (auto simp: drop_ranks_def Let_def dead_end_def without_rank_Test piece_type_defs)
qed

lemma Test_nifu_files:
  assumes "t < 81" "bb_ok pawns"
  shows "bb_Test (nifu_files pawns w) t \<longleftrightarrow> bb_Test w t \<and> \<not> (\<exists>s<81. bb_Test pawns s \<and> sq_file s = sq_file t)"
proof -
  have one: "bb_Any (bb_And pawns (FileBB f)) \<longleftrightarrow> (\<exists>s<81. bb_Test pawns s \<and> sq_file s = f)" if "f < 9" for f
    using Any_and_iff [OF assms(2)] that by (auto simp: Test_FileBB)
  have "bb_Test (fold (\<lambda>f w. if bb_Any (bb_And pawns (FileBB f)) then bb_And w (bb_Not (FileBB f)) else w) fs w) t
    \<longleftrightarrow> bb_Test w t \<and> \<not> (\<exists>f\<in>set fs. sq_file t = f \<and> (\<exists>s<81. bb_Test pawns s \<and> sq_file s = f))"
    if "\<forall>f\<in>set fs. f < 9" for fs
    using that by (induction fs arbitrary: w) (use one in \<open>auto simp: bb_simps assms(1)\<close>)
  from this [of "[0..<9]"] show ?thesis
    unfolding nifu_files_def using assms(1) by (auto simp: sq_file_def)
qed

lemma Test_drop_squares:
  assumes "board_ok b" "t < 81" "pt_IsHandPiece pt"
  shows "bb_Test (drop_squares b pt w) t \<longleftrightarrow> bb_Test w t \<and> \<not> dead_end (side_to_move b) pt t \<and>
    (pt = kPawn \<longrightarrow> (\<forall>s<81. board_arr b s = piece_Make (side_to_move b) kPawn \<longrightarrow> sq_file s \<noteq> sq_file t))"
proof -
  have "bb_ok (pieces_ct b (side_to_move b) kPawn)" using assms(1) by (simp add: bb_ok_pieces kPawn_def)
  then show ?thesis
    using Test_pieces_ct [OF assms(1), of _ kPawn "side_to_move b"] assms(2,3)
    by (auto simp: drop_squares_def Let_def Test_drop_ranks Test_nifu_files kPawn_def)
qed

lemma bb_ok_drop_squares:
  assumes "bb_ok w"
  shows "bb_ok (drop_squares b pt w)"
proof -
  have n: "bb_ok w \<Longrightarrow> bb_ok (fold (\<lambda>f w. if bb_Any (bb_And pawns (FileBB f)) then bb_And w (bb_Not (FileBB f)) else w) fs w)"
    for fs pawns w by (induction fs arbitrary: w) (auto intro: bb_ok_And1)
  show ?thesis using assms
    by (auto simp: drop_squares_def Let_def nifu_files_def drop_ranks_def without_rank_def intro!: n bb_ok_And1)
qed

subsection \<open>The position after a move of the rules\<close>

lemma opp_color: "c \<noteq> d \<longleftrightarrow> c = opp d"
  by (cases c; cases d) auto

lemma variant_fields:
  assumes "frm < 81" "to < 81" "move_variant b frm to m"
  shows "move_from m = frm" "move_to m = to" "\<not> move_is_drop m"
    "move_is_promotion m \<Longrightarrow> may_promote (side_to_move b) (piece_GetType (board_arr b frm)) frm to"
  using assms by (auto simp: move_variant_def)

lemma piece_move_neq: "piece_move b frm to \<Longrightarrow> frm \<noteq> to"
  unfolding piece_move_def att_def using reaches_neq by blast

lemma variant_pre: "piece_move b frm to \<Longrightarrow> move_variant b frm to m \<Longrightarrow> move_pre b m"
  using piece_move_neq [of b frm to] variant_fields [of frm to b m]
  by (auto simp: move_pre_def piece_move_def att_def may_promote_def)

lemma drop_fields:
  assumes "rule_drop b pt to"
  shows "move_to (move_Drop pt to) = to" "move_drop_piece (move_Drop pt to) = pt" "move_is_drop (move_Drop pt to)"
    "move_pre b (move_Drop pt to)"
  using assms by (auto simp: rule_drop_def move_pre_def pt_IsHandPiece_def)

lemma after_eq:
  assumes "move_pre b m"
  shows "board_arr (after_move b m) = board_arr (place_pieces b m)" "king_sq (after_move b m) = king_sq (place_pieces b m)"
    "side_to_move (after_move b m) = opp (side_to_move b)"
    "InCheck (after_move b m) c = InCheck (place_pieces b m) c"
  unfolding DoMoveForMovegen_def DoMoveInternal_eq [OF move_pre_neq [OF assms]] by (simp_all add: board_simps)

lemma after_ok: "board_ok b \<Longrightarrow> move_pre b m \<Longrightarrow> board_ok (after_move b m)"
  by (simp add: DoMoveForMovegen_def board_ok_DoMoveInternal)

lemma king_facts:
  assumes "kings_ok b"
  shows "king_sq b c < 81" "board_arr b (king_sq b c) = piece_Make c kKing" "board_arr b (king_sq b c) \<noteq> 0"
    "piece_GetColor (board_arr b (king_sq b c)) = c" "piece_GetType (board_arr b (king_sq b c)) = kKing"
  using assms by (simp_all add: kings_ok_def kKing_def)

lemma piece_move_facts:
  assumes ok: "board_ok b" and kings: "kings_ok b" and pm: "piece_move b frm to"
  shows "frm < 81" "to < 81" "board_arr b frm \<noteq> 0" "piece_GetColor (board_arr b frm) = side_to_move b"
    "reaches (board_arr b frm) (occf (board_arr b)) frm to"
    "frm \<noteq> to" "to \<noteq> mover_king b"
  using pm piece_move_neq [OF pm] king_facts [OF kings, of "side_to_move b"] by (auto simp: piece_move_def att_def)

text \<open>The king's safety after a move of another piece, after a king move and after a drop.\<close>

lemma safe_after_piece_move:
  assumes ok: "board_ok b" and kings: "kings_ok b" and pm: "piece_move b frm to" and mv: "move_variant b frm to m"
    and nk: "frm \<noteq> mover_king b"
  shows "InCheck (after_move b m) (side_to_move b) \<longleftrightarrow>
    (\<exists>t<81. att (board_arr b) (occf (board_arr b)) (opp (side_to_move b)) t (mover_king b) \<and> t \<noteq> to \<and> \<not> betw (mover_king b) t to) \<or>
    ((\<exists>t d n. pins (board_arr b) (side_to_move b) (mover_king b) frm t d n) \<and> \<not> on_line frm (mover_king b) to)"
proof -
  let ?f = "board_arr b" let ?us = "side_to_move b" let ?k = "mover_king b"
  note king = king_facts [OF kings, of "side_to_move b"]
  note p = piece_move_facts [OF ok kings pm] and v = variant_fields [OF p(1,2) mv]
  note pre = variant_pre [OF pm mv]
  let ?v = "place_moved b m"
  have arr: "board_arr (after_move b m) = ?f(frm := 0, to := ?v)"
    unfolding after_eq [OF pre] using board_arr_place_pieces(1) [of m b] v p(6) by simp
  have pv: "?v \<noteq> 0" "piece_GetColor ?v = ?us"
    using place_moved_props [OF ok pre v(3)] v p(4) by simp_all
  have "board_arr (after_move b m) ?k = piece_Make ?us kKing" using nk p(7) king(2) by (simp add: arr)
  then have ksq: "king_sq (after_move b m) ?us = ?k" using board_okD(6) [OF after_ok [OF ok pre] king(1)] by blast
  have "InCheck (after_move b m) ?us \<longleftrightarrow> in_check (?f(frm := 0, to := ?v)) ?us ?k"
    using InCheck_in_check [OF after_ok [OF ok pre], of ?us] king(1) by (simp add: ksq arr)
  also have "\<dots> \<longleftrightarrow> (\<exists>t<81. att ?f (occf ?f) (opp ?us) t ?k \<and> t \<noteq> to \<and> \<not> betw ?k t to) \<or>
    ((\<exists>t d n. pins ?f ?us ?k frm t d n) \<and> \<not> on_line frm ?k to)"
    by (rule in_check_after_move) (use p pv king in simp_all)
  finally show ?thesis .
qed

lemma king_variant:
  assumes ok: "board_ok b" and kings: "kings_ok b" and pm: "piece_move b (mover_king b) to"
  shows "move_variant b (mover_king b) to m \<longleftrightarrow> m = move_Normal (mover_king b) to"
  using king_facts [OF kings, of "side_to_move b"] by (auto simp: move_variant_def may_promote_def dead_end_def piece_type_defs pt_CanPromote_def)

lemma safe_after_king_move:
  assumes ok: "board_ok b" and kings: "kings_ok b" and pm: "piece_move b (mover_king b) to"
  shows "InCheck (after_move b (move_Normal (mover_king b) to)) (side_to_move b) \<longleftrightarrow>
    (\<exists>t<81. att (board_arr b) (\<lambda>u. board_arr b u \<noteq> 0 \<and> u \<noteq> mover_king b) (opp (side_to_move b)) t to)"
proof -
  let ?f = "board_arr b" let ?us = "side_to_move b" let ?k = "mover_king b"
  note king = king_facts [OF kings, of "side_to_move b"]
  let ?m = "move_Normal ?k to"
  note p = piece_move_facts [OF ok kings pm]
  have var: "move_variant b ?k to ?m" using king_variant [OF ok kings pm] by simp
  note v = variant_fields [OF p(1,2) var] and pre = variant_pre [OF pm var]
  have pm: "place_moved b ?m = ?f ?k" using p(1,2) by (simp add: place_moved_def)
  have arr: "board_arr (after_move b ?m) = ?f(?k := 0, to := ?f ?k)"
    unfolding after_eq [OF pre] using board_arr_place_pieces(1) [of ?m b] v p(6) pm by simp
  have "board_arr (after_move b ?m) to = piece_Make ?us kKing" using king(2) by (simp add: arr)
  then have ksq: "king_sq (after_move b ?m) ?us = to" using board_okD(6) [OF after_ok [OF ok pre] p(2)] by blast
  have "InCheck (after_move b ?m) ?us \<longleftrightarrow> in_check (?f(?k := 0, to := ?f ?k)) ?us to"
    using InCheck_in_check [OF after_ok [OF ok pre], of ?us] p(2) by (simp add: ksq arr)
  also have "\<dots> \<longleftrightarrow> (\<exists>t<81. t \<noteq> ?k \<and> att ?f (\<lambda>u. ?f u \<noteq> 0 \<and> u \<noteq> ?k) (opp ?us) t to)"
    by (rule in_check_after_king_move) (use p king in simp_all)
  also have "\<dots> \<longleftrightarrow> (\<exists>t<81. att ?f (\<lambda>u. ?f u \<noteq> 0 \<and> u \<noteq> ?k) (opp ?us) t to)"
    using king(4) opp_neq by (metis att_def)
  finally show ?thesis .
qed

lemma safe_after_drop:
  assumes ok: "board_ok b" and kings: "kings_ok b" and rd: "rule_drop b pt to"
  shows "InCheck (after_move b (move_Drop pt to)) (side_to_move b) \<longleftrightarrow>
    (\<exists>t<81. att (board_arr b) (occf (board_arr b)) (opp (side_to_move b)) t (mover_king b) \<and> \<not> betw (mover_king b) t to)"
proof -
  let ?f = "board_arr b" let ?us = "side_to_move b" let ?k = "mover_king b"
  note king = king_facts [OF kings, of "side_to_move b"]
  note d = drop_fields [OF rd]
  have r: "to < 81" "?f to = 0" "1 \<le> pt" "pt < 16" using rd by (auto simp: rule_drop_def pt_IsHandPiece_def)
  have arr: "board_arr (after_move b (move_Drop pt to)) = ?f(to := piece_Make ?us pt)"
    unfolding after_eq [OF d(4)] using board_arr_place_pieces(2) [of "move_Drop pt to" b] d by simp
  have "to \<noteq> ?k" using r king by auto
  then have "board_arr (after_move b (move_Drop pt to)) ?k = piece_Make ?us kKing" using king(2) by (simp add: arr)
  then have ksq: "king_sq (after_move b (move_Drop pt to)) ?us = ?k"
    using board_okD(6) [OF after_ok [OF ok d(4)] king(1)] by blast
  have "InCheck (after_move b (move_Drop pt to)) ?us \<longleftrightarrow> in_check (?f(to := piece_Make ?us pt)) ?us ?k"
    using InCheck_in_check [OF after_ok [OF ok d(4)], of ?us] king(1) by (simp add: ksq arr)
  also have "\<dots> \<longleftrightarrow> (\<exists>t<81. att ?f (occf ?f) (opp ?us) t ?k \<and> \<not> betw ?k t to)"
    by (rule in_check_after_drop) (use r king in simp_all)
  finally show ?thesis .
qed

subsection \<open>The moves without a check\<close>

lemma Test_king_safe_targets:
  assumes "bb_ok w" "to < 81"
  shows "bb_Test (king_safe_targets b occ w) to \<longleftrightarrow> bb_Test w to \<and> \<not> IsSquareAttacked b to occ (opp (side_to_move b))"
proof -
  have "bb_Test (fold (\<lambda>to acc. if \<not> IsSquareAttacked b to occ (opp (side_to_move b)) then bb_Set acc to else acc) ts acc) to
    \<longleftrightarrow> bb_Test acc to \<or> (to \<in> set ts \<and> \<not> IsSquareAttacked b to occ (opp (side_to_move b)))"
    if "\<forall>t\<in>set ts. t < 81" for ts acc
    using that assms(2) by (induction ts arbitrary: acc) (auto simp: bb_simps)
  from this [of "bb_squares w"] show ?thesis
    using assms by (auto simp: king_safe_targets_def set_bb_squares)
qed

lemma bb_ok_king_safe_targets:
  assumes "bb_ok w"
  shows "bb_ok (king_safe_targets b occ w)"
proof -
  have "\<forall>t\<in>set ts. t < 81 \<Longrightarrow> bb_ok acc \<Longrightarrow>
    bb_ok (fold (\<lambda>to acc. if \<not> IsSquareAttacked b to occ (opp (side_to_move b)) then bb_Set acc to else acc) ts acc)" for ts acc
    by (induction ts arbitrary: acc) (auto intro: bb_ok_Set)
  from this [of "bb_squares w" bb_Zero] show ?thesis
    using assms by (simp add: king_safe_targets_def set_bb_squares)
qed

lemma set_concat_map: "x \<in> set (concat (map g xs)) \<longleftrightarrow> (\<exists>y\<in>set xs. x \<in> set (g y))"
  by auto

lemma set_own_squares:
  assumes "board_ok b"
  shows "frm \<in> set (bb_squares (own b)) \<longleftrightarrow>
    frm < 81 \<and> board_arr b frm \<noteq> 0 \<and> piece_GetColor (board_arr b frm) = side_to_move b"
  using assms by (auto simp: own_def set_bb_squares board_okD)

lemma target_iff:
  assumes b: "board_ok b" and frm: "frm < 81" "board_arr b frm \<noteq> 0" "piece_GetColor (board_arr b frm) = side_to_move b"
    and to: "to < 81"
  shows "bb_Test (bb_And (PieceAttacks (piece_GetType (board_arr b frm)) (side_to_move b) frm (occupied b)) (bb_Not (own b))) to
    \<longleftrightarrow> piece_move b frm to"
proof -
  have "reaches (board_arr b frm) (bb_Test (occupied b)) frm to = reaches (board_arr b frm) (occf (board_arr b)) frm to"
    by (rule reaches_cong) (simp add: Test_occupied b)
  then have "bb_Test (PieceAttacks (piece_GetType (board_arr b frm)) (side_to_move b) frm (occupied b)) to \<longleftrightarrow>
      reaches (board_arr b frm) (occf (board_arr b)) frm to"
    using reaches_PieceAttacks [OF board_okD(1) [OF b frm(1)] frm(2) to frm(1), of "occupied b"] frm(3) by simp
  then show ?thesis
    using frm to board_okD(4) [OF b to, of "side_to_move b"]
    by (auto simp: piece_move_def att_def Test_And Test_Not own_def)
qed

lemma Test_pinned:
  assumes "board_ok b" "kings_ok b" "frm < 81" "board_arr b frm \<noteq> 0" "piece_GetColor (board_arr b frm) = side_to_move b"
  shows "bb_Test (bb_And (ComputeBlockersForKing b (side_to_move b)) (own b)) frm \<longleftrightarrow>
    (\<exists>t d n. pins (board_arr b) (side_to_move b) (mover_king b) frm t d n)"
  using assms Test_ComputeBlockers [OF assms(1) refl king_facts(1) [OF assms(2)] assms(3)] board_okD(4) [OF assms(1,3)]
  by (simp add: Test_And own_def)

lemma king_attacked:
  assumes "board_ok b" "to < 81" "\<And>u. u < 81 \<Longrightarrow> bb_Test occ u \<longleftrightarrow> board_arr b u \<noteq> 0 \<and> u \<noteq> mover_king b"
  shows "IsSquareAttacked b to occ (opp (side_to_move b)) \<longleftrightarrow>
    (\<exists>t<81. att (board_arr b) (\<lambda>u. board_arr b u \<noteq> 0 \<and> u \<noteq> mover_king b) (opp (side_to_move b)) t to)"
  by (rule IsSquareAttacked_att [OF assms(1,2)]) (rule assms(3))

lemma ex_guard:
  "(\<And>x y. A x \<Longrightarrow> B x \<Longrightarrow> D x \<Longrightarrow> (C y \<and> T x y) = Q x y) \<Longrightarrow> (\<And>x y. Q x y \<Longrightarrow> A x \<and> B x \<and> D x) \<Longrightarrow>
   (\<exists>x. (A x \<and> B x \<and> D x) \<and> (\<exists>y. C y \<and> T x y \<and> V x y)) = (\<exists>x y. Q x y \<and> V x y)"
  by blast

lemma set_board_moves:
  assumes ok: "board_ok b" and kings: "kings_ok b"
  shows "m \<in> set (GenerateBoardMovesNonCheck b (bb_And (ComputeBlockersForKing b (side_to_move b)) (own b))) \<longleftrightarrow>
    (\<exists>frm to. piece_move b frm to \<and> move_variant b frm to m \<and>
       (frm = mover_king b \<longrightarrow> \<not> (\<exists>t<81. att (board_arr b) (\<lambda>u. board_arr b u \<noteq> 0 \<and> u \<noteq> mover_king b)
          (opp (side_to_move b)) t to)) \<and>
       (frm \<noteq> mover_king b \<and> (\<exists>t d n. pins (board_arr b) (side_to_move b) (mover_king b) frm t d n) \<longrightarrow>
          on_line frm (mover_king b) to))"
proof -
  let ?k = "mover_king b" let ?us = "side_to_move b"
  let ?pinned = "bb_And (ComputeBlockersForKing b ?us) (own b)"
  let ?occ = "bb_Xor (occupied b) (SquareBB ?k)"
  let ?w = "\<lambda>frm. bb_And (PieceAttacks (piece_GetType (board_arr b frm)) ?us frm (occupied b)) (bb_Not (own b))"
  let ?t = "\<lambda>frm. if frm = ?k then king_safe_targets b ?occ (?w frm)
    else if bb_Test ?pinned frm then bb_And (?w frm) (LineBB frm ?k) else ?w frm"
  have k: "?k < 81" "board_arr b ?k \<noteq> 0" using king_facts [OF kings] by simp_all
  have occ: "bb_Test ?occ u \<longleftrightarrow> board_arr b u \<noteq> 0 \<and> u \<noteq> ?k" if "u < 81" for u
    using that k by (auto simp: bb_simps Test_occupied ok)
  have w: "bb_ok (?w frm)" if "frm < 81" for frm using that by (simp add: bb_ok_And1)
  have "bb_ok (?t frm)" if "frm < 81" for frm using w [OF that] by (auto intro: bb_ok_king_safe_targets bb_ok_And1)
  then have sq: "to \<in> set (bb_ForEach_squares (?t frm)) \<longleftrightarrow> to < 81 \<and> bb_Test (?t frm) to" if "frm < 81" for frm to
    using that by (simp add: set_bb_squares flip: bb_squares_ForEach)
  have t: "to < 81 \<and> bb_Test (?t frm) to \<longleftrightarrow> piece_move b frm to \<and>
      (frm = ?k \<longrightarrow> \<not> (\<exists>t<81. att (board_arr b) (\<lambda>u. board_arr b u \<noteq> 0 \<and> u \<noteq> ?k) (opp ?us) t to)) \<and>
      (frm \<noteq> ?k \<and> (\<exists>t d n. pins (board_arr b) ?us ?k frm t d n) \<longrightarrow> on_line frm ?k to)"
    if frm: "frm < 81" "board_arr b frm \<noteq> 0" "piece_GetColor (board_arr b frm) = ?us" for frm to
  proof (cases "to < 81")
    case True
    have ka: "IsSquareAttacked b to ?occ (opp ?us) \<longleftrightarrow>
        (\<exists>t<81. att (board_arr b) (\<lambda>u. board_arr b u \<noteq> 0 \<and> u \<noteq> ?k) (opp ?us) t to)"
      by (rule king_attacked [OF ok True]) (rule occ)
    note ti = target_iff [OF ok frm True]
      and ks = Test_king_safe_targets [OF w [OF frm(1)] True, of b ?occ]
      and pn = Test_pinned [OF ok kings frm] and ln = Test_LineBB [OF frm(1) k(1) True]
    have eq: "bb_Test (?t frm) to \<longleftrightarrow>
      (if frm = ?k then piece_move b frm to \<and> \<not> IsSquareAttacked b to ?occ (opp ?us)
       else if bb_Test ?pinned frm then piece_move b frm to \<and> on_line frm ?k to else piece_move b frm to)"
    proof (cases "frm = ?k")
      case True
      show ?thesis unfolding if_P [OF True] ks ti ..
    next
      case nk: False
      show ?thesis
      proof (cases "bb_Test ?pinned frm")
        case True
        show ?thesis unfolding if_not_P [OF nk] if_P [OF True] by (subst Test_And) (simp only: ti ln)
      next
        case False
        show ?thesis unfolding if_not_P [OF nk] if_not_P [OF False] ti ..
      qed
    qed
    show ?thesis unfolding eq unfolding ka pn using True by (simp split: if_split) blast
  qed (simp add: piece_move_def)
  have "m \<in> set (GenerateBoardMovesNonCheck b ?pinned) \<longleftrightarrow>
    (\<exists>frm. (frm < 81 \<and> board_arr b frm \<noteq> 0 \<and> piece_GetColor (board_arr b frm) = ?us) \<and>
      (\<exists>to. to < 81 \<and> bb_Test (?t frm) to \<and> move_variant b frm to m))"
    unfolding GenerateBoardMovesNonCheck_def Let_def set_concat_map piece_on_def
    using set_own_squares [OF ok] sq set_board_variants by blast
  also have "\<dots> \<longleftrightarrow> (\<exists>frm to. (piece_move b frm to \<and>
       (frm = ?k \<longrightarrow> \<not> (\<exists>t<81. att (board_arr b) (\<lambda>u. board_arr b u \<noteq> 0 \<and> u \<noteq> ?k) (opp ?us) t to)) \<and>
       (frm \<noteq> ?k \<and> (\<exists>t d n. pins (board_arr b) ?us ?k frm t d n) \<longrightarrow> on_line frm ?k to)) \<and> move_variant b frm to m)"
    by (rule ex_guard [OF t]) (use piece_move_facts(1,3,4) [OF ok kings] in blast)+
  finally show ?thesis by blast
qed

subsection \<open>Drops and the pawn-drop mate\<close>

lemma PawnEffect_forward:
  "s < 81 \<Longrightarrow> t < 81 \<Longrightarrow> bb_Test (PawnEffectBB s c) t \<longleftrightarrow> steps_to s (forward c) 1 t"
  by (cases c) (auto simp: step_defs delta_defs Test_MakeStepBB steps_to_def forward_def)

lemma set_drop_moves:
  assumes ok: "board_ok b"
  shows "m \<in> set (GenerateDropMoves b) \<longleftrightarrow> (\<exists>pt to. m = move_Drop pt to \<and> rule_drop b pt to)"
proof -
  let ?e = "bb_And (bb_Not (occupied b)) bb_All"
  have e: "bb_ok ?e" by (simp add: bb_ok_And1 bb_ok_Not)
  have t: "to < 81 \<and> bb_Test (drop_squares b pt ?e) to \<and> hand_Has (hands b (side_to_move b)) pt \<longleftrightarrow> rule_drop b pt to"
    if "pt_IsHandPiece pt" for pt to
    using that by (auto simp: Test_drop_squares ok bb_simps Test_occupied rule_drop_def hand_Has_iff)
  have g: "m \<in> set (if \<not> hand_Has (hands b (side_to_move b)) pt then []
        else map (move_Drop pt) (bb_ForEach_squares (drop_squares b pt ?e))) \<longleftrightarrow>
      (\<exists>to. m = move_Drop pt to \<and> to < 81 \<and> bb_Test (drop_squares b pt ?e) to \<and> hand_Has (hands b (side_to_move b)) pt)" for pt
    using set_bb_squares [OF bb_ok_drop_squares [OF e]] by (auto simp flip: bb_squares_ForEach)
  have hp: "rule_drop b pt to \<Longrightarrow> pt_IsHandPiece pt" for pt to by (simp add: rule_drop_def)
  have "pt \<in> set [1..<8] \<longleftrightarrow> pt_IsHandPiece pt" for pt by (auto simp: pt_IsHandPiece_def)
  then have "m \<in> set (GenerateDropMoves b) \<longleftrightarrow> (\<exists>pt. pt_IsHandPiece pt \<and> (\<exists>to. m = move_Drop pt to \<and>
      to < 81 \<and> bb_Test (drop_squares b pt ?e) to \<and> hand_Has (hands b (side_to_move b)) pt))"
    unfolding GenerateDropMoves_def Let_def set_concat_map g by blast
  also have "\<dots> \<longleftrightarrow> (\<exists>pt to. m = move_Drop pt to \<and> rule_drop b pt to)"
    using t hp by blast
  finally show ?thesis .
qed

lemma pawn_drop_mate_iff:
  assumes "kings_ok b" "rule_drop b pt to"
  shows "pawn_drop_mate he b (move_Drop pt to) \<longleftrightarrow>
    pawn_drop_check b (move_Drop pt to) \<and> \<not> he (after_move b (move_Drop pt to))"
  using drop_fields [OF assms(2)] PawnEffect_forward [of to "king_sq b (opp (side_to_move b))"] king_facts(1) [OF assms(1)]
    assms(2)
  by (auto simp: pawn_drop_mate_def pawn_drop_check_def Let_def rule_drop_def)

text \<open>The position after a pawn drop that gives check.\<close>

lemma after_pawn_drop:
  assumes ok: "board_ok b" and kings: "kings_ok b" and rd: "rule_drop b pt to"
    and chk: "pawn_drop_check b (move_Drop pt to)"
  defines "a \<equiv> after_move b (move_Drop pt to)"
  shows "board_ok a" "kings_ok a" "InCheck a (side_to_move a)"
    "card {s. s < 81 \<and> board_arr a s = 0} < card {s. s < 81 \<and> board_arr b s = 0}"
proof -
  let ?us = "side_to_move b" let ?e = "king_sq b (opp ?us)"
  note d = drop_fields [OF rd] and e = king_facts [OF kings, of "opp ?us"]
  have pt: "pt = kPawn" using chk d by (simp add: pawn_drop_check_def)
  have r: "to < 81" "board_arr b to = 0" using rd by (simp_all add: rule_drop_def)
  have arr: "board_arr a = (board_arr b)(to := piece_Make ?us kPawn)"
    unfolding a_def after_eq [OF d(4)] using board_arr_place_pieces(2) [of "move_Drop pt to" b] d pt by simp
  show ok': "board_ok a" unfolding a_def by (rule after_ok [OF ok d(4)])
  have "piece_GetType (move_captured b (move_Drop pt to)) \<noteq> kKing"
    using d by (simp add: move_captured_def piece_GetType_mod kKing_def)
  then show kings': "kings_ok a"
    unfolding a_def DoMoveForMovegen_def by (rule kings_ok_DoMoveInternal [OF ok kings d(4)])
  have "board_arr a ?e = piece_Make (opp ?us) kKing" using e r by (auto simp: arr)
  then have ksq: "king_sq a (opp ?us) = ?e" using board_okD(6) [OF ok' e(1)] by blast
  have stm: "side_to_move a = opp ?us" unfolding a_def after_eq [OF d(4)] ..
  have "bb_Test (PawnEffectBB to ?us) ?e"
    using chk d PawnEffect_forward [OF r(1) e(1)] by (simp add: pawn_drop_check_def)
  then have "att (board_arr a) (occf (board_arr a)) (opp (opp ?us)) to ?e"
    by (simp add: att_def arr reaches_def steps_at_def StepAttacks_def kPawn_def piece_type_defs)
  then have "in_check (board_arr a) (opp ?us) ?e" unfolding in_check_def using r(1) by blast
  then show "InCheck a (side_to_move a)" using InCheck_in_check [OF ok', of "opp ?us"] e(1) ksq stm by simp
  have "{s. s < 81 \<and> board_arr a s = 0} = {s. s < 81 \<and> board_arr b s = 0} - {to}" by (auto simp: arr kPawn_def)
  moreover have "to \<in> {s. s < 81 \<and> board_arr b s = 0}" using r by simp
  ultimately show "card {s. s < 81 \<and> board_arr a s = 0} < card {s. s < 81 \<and> board_arr b s = 0}"
    using card_Diff1_less [of "{s. s < 81 \<and> board_arr b s = 0}" to] by simp
qed

end
