(* ===== verification/Evasions.thy ===== *)
theory Evasions
  imports LegalMoves
begin

text \<open>
  The evasion generator and the legality theorem.  A king in check is saved by a king move, by
  capturing a lone checking piece or by a move or drop between it and the king; the nested
  search for an answer to a checking pawn drop ends because every drop fills a square.
\<close>

subsection \<open>The checking pieces\<close>

lemma Test_checkers:
  assumes ok: "board_ok b" and kings: "kings_ok b" and t: "t < 81"
  shows "bb_Test (AttackersTo_c b (mover_king b) (occupied b) (opp (side_to_move b))) t \<longleftrightarrow>
    att (board_arr b) (occf (board_arr b)) (opp (side_to_move b)) t (mover_king b)"
proof -
  have k: "mover_king b < 81" using king_facts(1) [OF kings] .
  show ?thesis
    unfolding Test_AttackersTo_c [OF ok k t] attacks_att [OF ok k t]
    by (rule att_cong [OF refl]) (simp add: Test_occupied ok)
qed

lemma in_check_iff:
  assumes "board_ok b" "kings_ok b"
  shows "InCheck b (side_to_move b) \<longleftrightarrow>
    (\<exists>t<81. att (board_arr b) (occf (board_arr b)) (opp (side_to_move b)) t (mover_king b))"
  using InCheck_in_check [OF assms(1) king_facts(1) [OF assms(2)]] by (simp add: in_check_def)

text \<open>One checking piece, the one \<open>Pop\<close> finds, or at least two.\<close>

lemma checkers_cases:
  assumes "bb_ok w" "\<exists>t<81. bb_Test w t"
  obtains (one) "\<not> bb_MoreThanOne w" "fst (bb_Pop w) < 81" "\<And>t. t < 81 \<Longrightarrow> bb_Test w t \<longleftrightarrow> t = fst (bb_Pop w)"
    | (two) t u where "bb_MoreThanOne w" "t < 81" "u < 81" "t \<noteq> u" "bb_Test w t" "bb_Test w u"
proof -
  have any: "bb_Any w" using assms by (simp add: bb_Any_iff_Test)
  note sq = set_bb_squares [OF assms(1)] and d = sorted_bb_squares [OF assms(1)] and m = bb_MoreThanOne_iff [OF assms(1)]
  obtain q qs where q: "bb_squares w = q # qs" "q = fst (bb_Pop w)" using bb_Pop_eq [OF any] by blast
  show thesis
  proof (cases qs)
    case Nil
    then have "\<not> bb_MoreThanOne w" "{s. s < 81 \<and> bb_Test w s} = {q}" using m q sq by auto
    then show thesis using one q(2) by blast
  next
    case (Cons u us)
    then have "bb_MoreThanOne w" "q \<noteq> u" "q \<in> set (bb_squares w)" "u \<in> set (bb_squares w)" using m q d by auto
    then show thesis using two [of q u] sq by blast
  qed
qed

subsection \<open>What the evasion generator lists\<close>

lemma king_step_iff:
  assumes ok: "board_ok b" and kings: "kings_ok b" and to: "to < 81"
  shows "bb_Test (bb_And (KingEffectBB (mover_king b)) (bb_Not (own b))) to \<longleftrightarrow> piece_move b (mover_king b) to"
proof -
  note k = king_facts [OF kings, of "side_to_move b"]
  have "PieceAttacks kKing c s occ = KingEffectBB s" for c s occ by (simp add: PieceAttacks_def piece_type_defs)
  then show ?thesis using target_iff [OF ok k(1,3,4) to] k(5) by simp
qed

lemma set_king_evasions:
  assumes ok: "board_ok b" and kings: "kings_ok b"
  shows "m \<in> set (king_evasions b) \<longleftrightarrow> (\<exists>to. piece_move b (mover_king b) to \<and>
    move_variant b (mover_king b) to m \<and> \<not> InCheck (after_move b m) (side_to_move b))"
proof -
  let ?k = "mover_king b" let ?us = "side_to_move b" let ?occ = "bb_Clear (occupied b) ?k"
  note k = king_facts [OF kings, of ?us]
  have "bb_ok (bb_And (KingEffectBB ?k) (bb_Not (own b)))"
    using bb_ok_PieceAttacks [OF k(1), of kKing] by (simp add: PieceAttacks_def piece_type_defs bb_ok_And1)
  then have t: "to \<in> set (bb_squares (bb_And (KingEffectBB ?k) (bb_Not (own b)))) \<longleftrightarrow> piece_move b ?k to" for to
    using king_step_iff [OF ok kings] piece_move_facts(2) [OF ok kings] by (auto simp: set_bb_squares)
  have occ: "bb_Test ?occ u \<longleftrightarrow> board_arr b u \<noteq> 0 \<and> u \<noteq> ?k" if "u < 81" for u
    using that k by (auto simp: bb_simps Test_occupied ok)
  have a: "IsSquareAttacked b to ?occ (opp ?us) \<longleftrightarrow> InCheck (after_move b (move_Normal ?k to)) ?us"
    if p: "piece_move b ?k to" for to
    unfolding safe_after_king_move [OF ok kings p]
    by (rule king_attacked [OF ok piece_move_facts(2) [OF ok kings p]]) (rule occ)
  have "m \<in> set (king_evasions b) \<longleftrightarrow> (\<exists>to. piece_move b ?k to \<and> m = move_Normal ?k to \<and> \<not> IsSquareAttacked b to ?occ (opp ?us))"
    unfolding king_evasions_def Let_def set_concat_map using t by (simp add: Bex_def conj_commute cong: conj_cong) 
  also have "\<dots> \<longleftrightarrow> (\<exists>to. piece_move b ?k to \<and> move_variant b ?k to m \<and> \<not> InCheck (after_move b m) ?us)"
    by (intro ex_cong1) (auto simp: a king_variant [OF ok kings])
  finally show ?thesis .
qed

lemma Test_own_attackers:
  assumes ok: "board_ok b" and "frm < 81" "to < 81"
  shows "bb_Test (AttackersTo_c b to (occupied b) (side_to_move b)) frm \<longleftrightarrow>
    att (board_arr b) (occf (board_arr b)) (side_to_move b) frm to"
  unfolding Test_AttackersTo_c [OF assms(1,3,2)] attacks_att [OF assms(1,3,2)]
  by (rule att_cong [OF refl]) (simp add: Test_occupied ok)

text \<open>The squares that answer the check of \<open>q\<close>.\<close>

lemma set_blocking_moves:
  assumes ok: "board_ok b" and kings: "kings_ok b" and q: "q < 81"
    and aq: "att (board_arr b) (occf (board_arr b)) (opp (side_to_move b)) q (mover_king b)"
  shows "m \<in> set (blocking_moves b (bb_And (ComputeBlockersForKing b (side_to_move b)) (own b))
      (bb_Set (BetweenBB (mover_king b) q) q)) \<longleftrightarrow>
    (\<exists>frm to. piece_move b frm to \<and> move_variant b frm to m \<and> frm \<noteq> mover_king b \<and> (to = q \<or> betw (mover_king b) q to) \<and>
       ((\<exists>t d n. pins (board_arr b) (side_to_move b) (mover_king b) frm t d n) \<longrightarrow> on_line frm (mover_king b) to))"
proof -
  let ?k = "mover_king b" let ?us = "side_to_move b" let ?f = "board_arr b"
  let ?pinned = "bb_And (ComputeBlockersForKing b ?us) (own b)"
  let ?T = "bb_Set (BetweenBB ?k q) q" let ?A = "\<lambda>to. bb_Clear (AttackersTo_c b to (occupied b) ?us) ?k"
  note k = king_facts [OF kings, of ?us]
  have T: "to \<in> set (bb_squares ?T) \<longleftrightarrow> to < 81 \<and> (to = q \<or> betw ?k q to)" for to
    using k(1) q by (auto simp: set_bb_squares bb_ok_BetweenBB bb_ok_Set bb_simps Test_BetweenBB_betw)
  have A: "frm \<in> set (bb_squares (?A to)) \<longleftrightarrow> frm < 81 \<and> frm \<noteq> ?k \<and> att ?f (occf ?f) ?us frm to" if "to < 81" for frm to
    using that k(1) by (auto simp: set_bb_squares bb_ok_Clear bb_ok_AttackersTo_c ok Test_Clear Test_own_attackers)
  have free: "\<not> (?f to \<noteq> 0 \<and> piece_GetColor (?f to) = ?us)" if "to < 81" "to = q \<or> betw ?k q to" for to
    using that(2)
  proof
    assume "to = q"
    then show ?thesis using aq opp_neq by (auto simp: att_def)
  next
    assume "betw ?k q to"
    then show ?thesis using att_betw_empty [OF aq _ k(1) q that(1)] by simp
  qed
  have mv: "frm < 81 \<and> att ?f (occf ?f) ?us frm to \<longleftrightarrow> piece_move b frm to" if "to < 81" "to = q \<or> betw ?k q to" for frm to
    using free [OF that] that(1) by (auto simp: piece_move_def)
  have var: "m \<in> set (if bb_Test ?pinned frm \<and> \<not> bb_Test (LineBB frm ?k) to then []
        else board_variants (piece_GetType (?f frm)) ?us frm to) \<longleftrightarrow>
      move_variant b frm to m \<and> ((\<exists>t d n. pins ?f ?us ?k frm t d n) \<longrightarrow> on_line frm ?k to)"
    if p: "piece_move b frm to" for frm to
  proof -
    note pf = piece_move_facts [OF ok kings p]
    show ?thesis
      using set_board_variants [OF pf(1,2), of m b] Test_pinned [OF ok kings pf(1,3,4)] Test_LineBB [OF pf(1) k(1) pf(2)]
      by (simp only: if_split set_empty) auto
  qed
  have "m \<in> set (blocking_moves b ?pinned ?T) \<longleftrightarrow> (\<exists>to. (to < 81 \<and> (to = q \<or> betw ?k q to)) \<and>
    (\<exists>frm. (frm < 81 \<and> frm \<noteq> ?k \<and> att ?f (occf ?f) ?us frm to) \<and>
      m \<in> set (if bb_Test ?pinned frm \<and> \<not> bb_Test (LineBB frm ?k) to then []
        else board_variants (piece_GetType (?f frm)) ?us frm to)))"
    unfolding blocking_moves_def Let_def set_concat_map piece_on_def Bex_def T using A by blast
  also have "\<dots> \<longleftrightarrow> (\<exists>to. (to < 81 \<and> (to = q \<or> betw ?k q to)) \<and> (\<exists>frm. frm \<noteq> ?k \<and> piece_move b frm to \<and>
      move_variant b frm to m \<and> ((\<exists>t d n. pins ?f ?us ?k frm t d n) \<longrightarrow> on_line frm ?k to)))"
    using mv var by blast
  also have "\<dots> \<longleftrightarrow> (\<exists>frm to. piece_move b frm to \<and> move_variant b frm to m \<and> frm \<noteq> ?k \<and> (to = q \<or> betw ?k q to) \<and>
       ((\<exists>t d n. pins ?f ?us ?k frm t d n) \<longrightarrow> on_line frm ?k to))"
    using piece_move_facts(2) [OF ok kings] by blast
  finally show ?thesis .
qed

lemma set_blocking_drops:
  assumes ok: "board_ok b" and kings: "kings_ok b" and q: "q < 81"
  shows "m \<in> set (blocking_drops he b pinned (BetweenBB (mover_king b) q)) \<longleftrightarrow>
    (\<exists>pt to. m = move_Drop pt to \<and> rule_drop b pt to \<and> betw (mover_king b) q to \<and> \<not> pawn_drop_mate he b m)"
proof -
  let ?k = "mover_king b" let ?e = "bb_And (BetweenBB ?k q) (bb_Not (occupied b))"
  have k: "?k < 81" using king_facts(1) [OF kings] .
  have e: "bb_ok ?e" using k by (simp add: bb_ok_And1 bb_ok_BetweenBB)
  have t: "to \<in> set (bb_squares (drop_squares b pt ?e)) \<and> hand_Has (hands b (side_to_move b)) pt \<longleftrightarrow>
      rule_drop b pt to \<and> betw ?k q to" if "pt_IsHandPiece pt" for pt to
    using that k q by (auto simp: set_bb_squares bb_ok_drop_squares e Test_drop_squares ok bb_simps Test_occupied
        rule_drop_def hand_Has_iff Test_BetweenBB_betw)
  have g: "m \<in> set (if \<not> hand_Has (hands b (side_to_move b)) pt then []
        else concat (map (\<lambda>to. let m = move_Drop pt to in
               if pt \<noteq> kPawn \<or> IsLegal_with he b m pinned then [m] else []) (bb_squares (drop_squares b pt ?e)))) \<longleftrightarrow>
      (\<exists>to. m = move_Drop pt to \<and> rule_drop b pt to \<and> betw ?k q to \<and> \<not> pawn_drop_mate he b m)"
    if pt: "pt_IsHandPiece pt" for pt
  proof -
    have l: "pt \<noteq> kPawn \<or> IsLegal_with he b (move_Drop pt to) pinned \<longleftrightarrow> \<not> pawn_drop_mate he b (move_Drop pt to)"
      if "rule_drop b pt to" for to
      using drop_fields [OF that] by (auto simp: IsLegal_with_def pawn_drop_mate_def Let_def)
    show ?thesis using t [OF pt] l by (auto simp: Let_def split: if_splits)
  qed
  have hp: "rule_drop b pt to \<Longrightarrow> pt_IsHandPiece pt" for pt to by (simp add: rule_drop_def)
  have "pt \<in> set [1..<8] \<longleftrightarrow> pt_IsHandPiece pt" for pt by (auto simp: pt_IsHandPiece_def)
  then show ?thesis
    unfolding blocking_drops_def Let_def [of "side_to_move b"] Let_def [of ?e] set_concat_map
    using g hp by blast
qed

lemma set_evasions:
  assumes ok: "board_ok b" and kings: "kings_ok b" and chk: "InCheck b (side_to_move b)"
  shows "m \<in> set (evasions_with he b) \<longleftrightarrow> rule_move b m \<and> \<not> InCheck (after_move b m) (side_to_move b) \<and>
    (move_is_drop m \<longrightarrow> \<not> pawn_drop_mate he b m)"
proof -
  let ?k = "mover_king b" let ?us = "side_to_move b" let ?f = "board_arr b"
  let ?chk = "AttackersTo_c b ?k (occupied b) (opp ?us)"
  let ?safe = "\<lambda>m. \<not> InCheck (after_move b m) ?us"
  have k: "?k < 81" using king_facts(1) [OF kings] .
  note chks = Test_checkers [OF ok kings]
  have w: "bb_ok ?chk" by (rule bb_ok_AttackersTo_c [OF ok k])
  have ex: "\<exists>t<81. bb_Test ?chk t" using chk chks unfolding in_check_iff [OF ok kings] by blast
  have rule: "rule_move b m \<and> ?safe m \<and> (move_is_drop m \<longrightarrow> \<not> pawn_drop_mate he b m) \<longleftrightarrow>
    (\<exists>to. piece_move b ?k to \<and> move_variant b ?k to m \<and> ?safe m) \<or>
    (\<exists>frm to. piece_move b frm to \<and> move_variant b frm to m \<and> frm \<noteq> ?k \<and> ?safe m) \<or>
    (\<exists>pt to. m = move_Drop pt to \<and> rule_drop b pt to \<and> ?safe m \<and> \<not> pawn_drop_mate he b m)" (is "?rule \<longleftrightarrow> _")
  proof -
    have "\<not> move_is_drop m" if "piece_move b frm to" "move_variant b frm to m" for frm to
      using variant_fields(3) piece_move_facts(1,2) [OF ok kings that(1)] that(2) by blast
    moreover have "move_is_drop m" if "m = move_Drop pt to" "rule_drop b pt to" for pt to
      using drop_fields(3) that by blast
    ultimately show ?thesis unfolding rule_move_def by blast
  qed
  from w ex show ?thesis
  proof (cases rule: checkers_cases)
    case one
    define q where "q = fst (bb_Pop ?chk)"
    have q: "q < 81" "\<And>t. t < 81 \<Longrightarrow> att ?f (occf ?f) (opp ?us) t ?k \<longleftrightarrow> t = q"
      using one(2,3) chks by (simp_all add: q_def)
    have ev: "evasions_with he b = king_evasions b @
        blocking_moves b (bb_And (ComputeBlockersForKing b ?us) (own b)) (bb_Set (BetweenBB ?k q) q) @
        blocking_drops he b (bb_And (ComputeBlockersForKing b ?us) (own b)) (BetweenBB ?k q)"
      using one(1) by (simp add: evasions_with_def Let_def q_def)
    have eqv: "?safe m \<longleftrightarrow> (to = q \<or> betw ?k q to) \<and> ((\<exists>t d n. pins ?f ?us ?k frm t d n) \<longrightarrow> on_line frm ?k to)"
      if "piece_move b frm to" "move_variant b frm to m" "frm \<noteq> ?k" for frm to
      unfolding safe_after_piece_move [OF ok kings that] using q by blast
    have mv: "(\<exists>frm to. piece_move b frm to \<and> move_variant b frm to m \<and> frm \<noteq> ?k \<and> ?safe m) \<longleftrightarrow>
      (\<exists>frm to. piece_move b frm to \<and> move_variant b frm to m \<and> frm \<noteq> ?k \<and> (to = q \<or> betw ?k q to) \<and>
       ((\<exists>t d n. pins ?f ?us ?k frm t d n) \<longrightarrow> on_line frm ?k to))"
      by (intro ex_cong1 conj_cong refl) (rule eqv)
    have "?safe (move_Drop pt to) \<longleftrightarrow> betw ?k q to" if "rule_drop b pt to" for pt to
      unfolding safe_after_drop [OF ok kings that] using q by blast
    then have dr: "(\<exists>pt to. m = move_Drop pt to \<and> rule_drop b pt to \<and> ?safe m \<and> \<not> pawn_drop_mate he b m) \<longleftrightarrow>
      (\<exists>pt to. m = move_Drop pt to \<and> rule_drop b pt to \<and> betw ?k q to \<and> \<not> pawn_drop_mate he b m)" by metis
    have aq: "att ?f (occf ?f) (opp ?us) q ?k" using q by blast
    show ?thesis
      unfolding rule mv dr ev set_append Un_iff set_king_evasions [OF ok kings]
        set_blocking_moves [OF ok kings q(1) aq] set_blocking_drops [OF ok kings q(1)] ..
  next
    case (two t u)
    have two': "att ?f (occf ?f) (opp ?us) t ?k" "att ?f (occf ?f) (opp ?us) u ?k" using two chks by blast+
    have left: "\<exists>v<81. att ?f (occf ?f) (opp ?us) v ?k \<and> v \<noteq> to \<and> \<not> betw ?k v to" if "to < 81" for to
      using two_checks [OF two' two(4,2,3) k that] two(2,3) two' by blast
    have "\<not> ?safe m" if "piece_move b frm to" "move_variant b frm to m" "frm \<noteq> ?k" for frm to
      unfolding safe_after_piece_move [OF ok kings that] using left piece_move_facts(2) [OF ok kings that(1)] by blast
    moreover have "\<not> ?safe (move_Drop pt to)" if "rule_drop b pt to" for pt to
      unfolding safe_after_drop [OF ok kings that] using left that by (auto simp: rule_drop_def)
    moreover have "evasions_with he b = king_evasions b" using two(1) by (simp add: evasions_with_def Let_def)
    ultimately show ?thesis unfolding rule by (simp only: set_king_evasions [OF ok kings]) blast
  qed
qed

subsection \<open>The nested search for an answer to a pawn drop ends\<close>

lemma has_evasion_fuel:
  assumes "board_ok b" "kings_ok b" "InCheck b (side_to_move b)"
    and "card {s. s < 81 \<and> board_arr b s = 0} < n" "card {s. s < 81 \<and> board_arr b s = 0} < n'"
  shows "has_evasion n b = has_evasion n' b"
  using assms
proof (induction n arbitrary: n' b)
  case (Suc n)
  note ok = Suc.prems(1-3)
  obtain l where l: "n' = Suc l" using Suc.prems(5) by (cases n') auto
  have "pawn_drop_mate (has_evasion n) b m = pawn_drop_mate (has_evasion l) b m" if r: "rule_move b m" "move_is_drop m" for m
  proof -
    obtain pt to where m: "m = move_Drop pt to" "rule_drop b pt to"
      using r variant_fields(3) unfolding rule_move_def piece_move_def by blast
    show ?thesis
    proof (cases "pawn_drop_check b m")
      case True
      note a = after_pawn_drop [OF ok(1,2) m(2) True [unfolded m(1)]]
      have "has_evasion n (after_move b m) = has_evasion l (after_move b m)"
        unfolding m(1) by (rule Suc.IH [OF a(1-3)]) (use a(4) Suc.prems(4,5) l in linarith)+
      then show ?thesis using pawn_drop_mate_iff [OF ok(2) m(2)] by (simp add: m(1))
    next
      case False
      then show ?thesis using pawn_drop_mate_iff [OF ok(2) m(2)] by (simp add: m(1))
    qed
  qed
  then have "set (evasions_with (has_evasion n) b) = set (evasions_with (has_evasion l) b)"
    using set_evasions [OF ok] by blast
  then show ?case by (simp add: l) (metis set_empty)
qed simp

lemma empty_squares_le:
  assumes "kings_ok b"
  shows "card {s. s < 81 \<and> board_arr b s = 0} < 81"
proof -
  let ?k = "king_sq b BLACK"
  have k: "?k \<in> {..<81}" "?k \<notin> {s. s < 81 \<and> board_arr b s = 0}" using king_facts(1,3) [OF assms, of BLACK] by simp_all
  then have "{s. s < 81 \<and> board_arr b s = 0} \<subseteq> {..<81} - {?k}" by auto
  then have "card {s. s < 81 \<and> board_arr b s = 0} \<le> card ({..<81::nat} - {?k})" by (intro card_mono) simp_all
  then show ?thesis using k(1) by simp
qed

lemma HasLegalEvasion_iff:
  assumes "board_ok b" "kings_ok b" "InCheck b (side_to_move b)"
  shows "HasLegalEvasion b \<longleftrightarrow> GenerateLegalMoves b \<noteq> []"
proof -
  have "HasLegalEvasion b = has_evasion (Suc 82) b"
    unfolding HasLegalEvasion_def
    by (rule has_evasion_fuel [OF assms]) (use empty_squares_le [OF assms(2)] in simp_all)
  then have "HasLegalEvasion b \<longleftrightarrow> evasions_with (has_evasion 82) b \<noteq> []" unfolding has_evasion.simps(2) .
  moreover have "HasLegalEvasion = has_evasion 82" by (rule ext) (simp add: HasLegalEvasion_def)
  ultimately show ?thesis
    using assms(3) by (simp add: GenerateLegalMoves_def GenerateEvasionMoves_def GenerateEvasionMovesImpl_def Let_def)
qed

subsection \<open>Legal moves\<close>

lemma set_legal_moves:
  assumes ok: "board_ok b" and kings: "kings_ok b"
  shows "m \<in> set (GenerateLegalMoves b) \<longleftrightarrow> rule_move b m \<and> \<not> InCheck (after_move b m) (side_to_move b) \<and>
    (move_is_drop m \<longrightarrow> \<not> pawn_drop_mate HasLegalEvasion b m)"
proof (cases "InCheck b (side_to_move b)")
  case True
  then show ?thesis
    using set_evasions [OF ok kings True]
    by (simp add: GenerateLegalMoves_def GenerateEvasionMoves_def GenerateEvasionMovesImpl_def Let_def)
next
  case False
  let ?k = "mover_king b" let ?us = "side_to_move b" let ?f = "board_arr b"
  have none: "\<not> att ?f (occf ?f) (opp ?us) t ?k" if "t < 81" for t
    using False that unfolding in_check_iff [OF ok kings] by blast
  have king: "\<not> InCheck (after_move b m) ?us \<longleftrightarrow>
      \<not> (\<exists>t<81. att ?f (\<lambda>u. ?f u \<noteq> 0 \<and> u \<noteq> ?k) (opp ?us) t to)"
    if "piece_move b ?k to" "move_variant b ?k to m" for to
    using that safe_after_king_move [OF ok kings that(1)] king_variant [OF ok kings that(1)] by metis
  have other: "\<not> InCheck (after_move b m) ?us \<longleftrightarrow> ((\<exists>t d n. pins ?f ?us ?k frm t d n) \<longrightarrow> on_line frm ?k to)"
    if "piece_move b frm to" "move_variant b frm to m" "frm \<noteq> ?k" for frm to
    unfolding safe_after_piece_move [OF ok kings that] using none by blast
  have piece: "((frm = ?k \<longrightarrow> \<not> (\<exists>t<81. att ?f (\<lambda>u. ?f u \<noteq> 0 \<and> u \<noteq> ?k) (opp ?us) t to)) \<and>
       (frm \<noteq> ?k \<and> (\<exists>t d n. pins ?f ?us ?k frm t d n) \<longrightarrow> on_line frm ?k to)) \<longleftrightarrow>
      \<not> InCheck (after_move b m) ?us" if "piece_move b frm to" "move_variant b frm to m" for frm to
    using king other that by (cases "frm = ?k") blast+
  have drop: "\<not> InCheck (after_move b (move_Drop pt to)) ?us" if "rule_drop b pt to" for pt to
    unfolding safe_after_drop [OF ok kings that] using none by blast
  have kind: "\<not> move_is_drop m" if "piece_move b frm to" "move_variant b frm to m" for frm to
    using variant_fields(3) piece_move_facts(1,2) [OF ok kings that(1)] that(2) by blast
  have kind': "move_is_drop m" if "m = move_Drop pt to" "rule_drop b pt to" for pt to
    using drop_fields(3) that by blast
  have gen: "GenerateLegalMoves b = GenerateBoardMovesNonCheck b (bb_And (ComputeBlockersForKing b ?us) (own b)) @
      filter (\<lambda>m. \<not> pawn_drop_mate HasLegalEvasion b m) (GenerateDropMoves b)"
    using False by (simp add: GenerateLegalMoves_def Let_def)
  have "m \<in> set (GenerateLegalMoves b) \<longleftrightarrow>
    (\<exists>frm to. piece_move b frm to \<and> move_variant b frm to m \<and> \<not> InCheck (after_move b m) ?us) \<or>
    ((\<exists>pt to. m = move_Drop pt to \<and> rule_drop b pt to) \<and> \<not> pawn_drop_mate HasLegalEvasion b m)"
  proof -
    have e: "(\<exists>frm to. piece_move b frm to \<and> move_variant b frm to m \<and>
       (frm = ?k \<longrightarrow> \<not> (\<exists>t<81. att ?f (\<lambda>u. ?f u \<noteq> 0 \<and> u \<noteq> ?k) (opp ?us) t to)) \<and>
       (frm \<noteq> ?k \<and> (\<exists>t d n. pins ?f ?us ?k frm t d n) \<longrightarrow> on_line frm ?k to)) \<longleftrightarrow>
      (\<exists>frm to. piece_move b frm to \<and> move_variant b frm to m \<and> \<not> InCheck (after_move b m) ?us)"
      by (intro ex_cong1 conj_cong refl) (rule piece)
    show ?thesis
      unfolding gen set_append Un_iff set_board_moves [OF ok kings] e set_filter mem_Collect_eq set_drop_moves [OF ok] ..
  qed
  then show ?thesis unfolding rule_move_def using kind kind' drop by blast
qed

end
