(* ===== verification/CheckingMoves.thy ===== *)
theory CheckingMoves
  imports Evasions
begin

text \<open>
  The generators of checking moves of shogi/board.cc: the reference version, which filters the
  legal moves, and the production version, which picks candidate pieces by the move-check
  tables and emits direct checks, discovered checks and checking drops separately.
\<close>

subsection \<open>The reference generator\<close>

definition our_blockers :: "shogi_board \<Rightarrow> bitboard" where
  "our_blockers b = bb_And (ComputeBlockersForKing b (opp (side_to_move b))) (own b)"

definition filter_gives_check :: "shogi_board \<Rightarrow> move \<Rightarrow> bool" where
  "filter_gives_check b m =
     (let us = side_to_move b; king_sq' = king_sq b (opp us); occ = occupied b in
      if move_is_drop m then
        let dst = move_to m; occ_after = bb_Set occ dst
        in bb_Test (PieceAttacks (move_drop_piece m) us dst occ_after) king_sq'
      else
        let src = move_from m; dst = move_to m;
            pt = piece_GetType (piece_on b src);
            pt = (if move_is_promotion m then pt_Promote pt else pt);
            occ_after = bb_Set (bb_Clear occ src) dst
        in if bb_Test (PieceAttacks pt us dst occ_after) king_sq' then True
           else if bb_Test (our_blockers b) src then
             let b' = snd (DoMoveForMovegen b m) in InCheck b' (side_to_move b')
           else False)"

definition GenerateCheckingMovesViaFilter :: "shogi_board \<Rightarrow> move list" where
  "GenerateCheckingMovesViaFilter b = filter (filter_gives_check b) (GenerateLegalMoves b)"

subsection \<open>The production generator\<close>

text \<open>The pieces that can give a direct check with some move.\<close>

definition direct_candidates :: "shogi_board \<Rightarrow> bitboard" where
  "direct_candidates b =
     (let us = side_to_move b; ksq = king_sq b (opp us);
          golds = bb_Or (bb_Or (bb_Or (bb_Or (pieces_ct b us kGold) (pieces_ct b us kProPawn))
                    (pieces_ct b us kProLance)) (pieces_ct b us kProKnight)) (pieces_ct b us kProSilver)
      in bb_Or (bb_Or (bb_Or (bb_Or (bb_Or (bb_Or (bb_Or (bb_Or
           (bb_And (pieces_ct b us kPawn) (PawnMoveCheckBB ksq us))
           (bb_And (pieces_ct b us kLance) (LanceMoveCheckBB ksq us)))
           (bb_And (pieces_ct b us kKnight) (KnightMoveCheckBB ksq us)))
           (bb_And (pieces_ct b us kSilver) (SilverMoveCheckBB ksq us)))
           (bb_And golds (GoldMoveCheckBB ksq us)))
           (bb_And (pieces_ct b us kBishop) (BishopMoveCheckBB ksq us)))
           (bb_And (pieces_ct b us kHorse) (HorseMoveCheckBB ksq)))
           (pieces_ct b us kRook)) (pieces_ct b us kDragon))"

definition zone_of :: "color \<Rightarrow> square \<Rightarrow> piece_type \<Rightarrow> bitboard" where
  "zone_of us ksq pt =
     (if pt = kPawn then PawnCheckBB ksq us
      else if pt = kLance then LanceCheckBB ksq us
      else if pt = kKnight then KnightCheckBB ksq us
      else if pt = kSilver then SilverCheckBB ksq us
      else if pt = kGold \<or> pt = kProPawn \<or> pt = kProLance \<or> pt = kProKnight \<or> pt = kProSilver
        then GoldCheckBB ksq us
      else if pt = kBishop then BishopCheckBB ksq
      else if pt = kRook then RookEffectBB ksq
      else if pt = kKing then KingEffectBB ksq
      else if pt = kHorse then HorseCheckBB ksq
      else if pt = kDragon then bb_Or (RookEffectBB ksq) (DragonStepBB ksq)
      else bb_Zero)"

text \<open>The squares from which the piece, unpromoted and promoted, attacks the king once its
  source square is empty.\<close>

definition exact_direct_sets :: "color \<Rightarrow> square \<Rightarrow> bitboard \<Rightarrow> piece_type \<Rightarrow> square \<Rightarrow> bitboard \<times> bitboard" where
  "exact_direct_sets us ksq occ pt from =
     (let occ_wo = bb_Clear occ from in
      if pt = kRook then
        let now = RookEffect ksq occ_wo in (now, bb_Or now (KingEffectBB ksq))
      else if pt = kBishop then
        let now = BishopEffect ksq occ_wo in (now, bb_Or now (KingEffectBB ksq))
      else if pt = kLance then (LanceEffect (opp us) ksq occ_wo, GoldCheckBB ksq us)
      else if pt = kDragon then (bb_Or (RookEffect ksq occ_wo) (KingEffectBB ksq), bb_Zero)
      else if pt = kHorse then (bb_Or (BishopEffect ksq occ_wo) (KingEffectBB ksq), bb_Zero)
      else (zone_of us ksq pt, if pt_CanPromote pt then zone_of us ksq (pt_Promote pt) else bb_Zero))"

text \<open>\<open>add_if_legal\<close>, as the condition under which it pushes.  The pins of the side to move are
  computed when it is first called; drops never read them.\<close>

definition add_if_legal :: "shogi_board \<Rightarrow> move \<Rightarrow> bool" where
  "add_if_legal b m \<longleftrightarrow>
     (let us = side_to_move b; our_ksq = king_sq b us;
          pinned = bb_And (ComputeBlockersForKing b us) (own b); from = move_from m in
      if from \<noteq> our_ksq then \<not> (bb_Test pinned from \<and> \<not> bb_Test (LineBB from our_ksq) (move_to m))
      else IsLegal b m pinned)"

definition add_discovered_variants :: "shogi_board \<Rightarrow> square \<Rightarrow> piece_type \<Rightarrow> square \<Rightarrow> move list" where
  "add_discovered_variants b from pt to = filter (add_if_legal b) (board_variants pt (side_to_move b) from to)"

definition emit_direct :: "shogi_board \<Rightarrow> square \<Rightarrow> piece_type \<Rightarrow> bitboard \<Rightarrow> move list" where
  "emit_direct b from pt targets =
     (let us = side_to_move b; ksq = king_sq b (opp us);
          (now, promo) = exact_direct_sets us ksq (occupied b) pt from;
          promo = (if pt_CanPromote pt \<and> \<not> sq_InPromotionZone from us
                   then bb_And promo (PromotionZoneBB us) else promo)
      in concat (map (\<lambda>to.
           (if bb_Test promo to \<and> CanPromote pt us from to
            then filter (add_if_legal b) [move_Promotion from to] else []) @
           (if bb_Test now to \<and> \<not> MustPromote pt us to
            then filter (add_if_legal b) [move_Normal from to] else []))
         (bb_squares (bb_And targets (bb_Or now promo)))))"

definition discovered_checks :: "shogi_board \<Rightarrow> move list" where
  "discovered_checks b =
     (let us = side_to_move b; ksq = king_sq b (opp us); our = own b in
      concat (map (\<lambda>from.
        let pt = piece_GetType (piece_on b from);
            targets = bb_And (PieceAttacks pt us from (occupied b)) (bb_Not our);
            line = LineBB ksq from
        in concat (map (add_discovered_variants b from pt) (bb_squares (bb_And targets (bb_Not line)))) @
           (if bb_Test (direct_candidates b) from then emit_direct b from pt (bb_And targets line) else []))
        (bb_squares (our_blockers b))))"

definition direct_checks :: "shogi_board \<Rightarrow> move list" where
  "direct_checks b =
     (let us = side_to_move b; our = own b in
      concat (map (\<lambda>from.
        let pt = piece_GetType (piece_on b from);
            targets = bb_And (PieceAttacks pt us from (occupied b)) (bb_Not our)
        in emit_direct b from pt targets)
        (bb_squares (bb_And (direct_candidates b) (bb_Not (our_blockers b))))))"

definition last_rank :: "color \<Rightarrow> bitboard" where
  "last_rank us = (if us = BLACK then RankBB 0 else RankBB 8)"

definition last_two :: "color \<Rightarrow> bitboard" where
  "last_two us = bb_Or (last_rank us) (if us = BLACK then RankBB 1 else RankBB 7)"

definition pawn_files :: "shogi_board \<Rightarrow> bitboard" where
  "pawn_files b = fold (\<lambda>s acc. bb_Or acc (FileBB (sq_file s)))
     (bb_squares (pieces_ct b (side_to_move b) kPawn)) bb_Zero"

definition drop_targets :: "shogi_board \<Rightarrow> piece_type \<Rightarrow> bitboard" where
  "drop_targets b pt =
     (let us = side_to_move b; targets = bb_Not (occupied b) in
      if pt = kPawn then bb_AndNot (bb_Or (last_rank us) (pawn_files b)) targets
      else if pt = kLance then bb_AndNot (last_rank us) targets
      else if pt = kKnight then bb_AndNot (last_two us) targets
      else targets)"

definition add_drop_checks :: "shogi_board \<Rightarrow> piece_type \<Rightarrow> bitboard \<Rightarrow> move list" where
  "add_drop_checks b pt check_zone =
     (let us = side_to_move b; pinned = bb_And (ComputeBlockersForKing b us) (own b) in
      if \<not> hand_Has (hands b us) pt then []
      else filter (\<lambda>m. IsLegal b m pinned) (map (move_Drop pt) (bb_squares (bb_And (drop_targets b pt) check_zone))))"

definition drop_checks :: "shogi_board \<Rightarrow> move list" where
  "drop_checks b =
     (let us = side_to_move b; them = opp us; ksq = king_sq b them; occ = occupied b; h = hands b us in
      (if hand_Has h kPawn then add_drop_checks b kPawn (PawnCheckBB ksq us) else []) @
      (if hand_Has h kLance then add_drop_checks b kLance (LanceEffect them ksq occ) else []) @
      (if hand_Has h kKnight then add_drop_checks b kKnight (KnightCheckBB ksq us) else []) @
      (if hand_Has h kSilver then add_drop_checks b kSilver (SilverCheckBB ksq us) else []) @
      (if hand_Has h kGold then add_drop_checks b kGold (GoldCheckBB ksq us) else []) @
      (if hand_Has h kBishop then add_drop_checks b kBishop (BishopEffect ksq occ) else []) @
      (if hand_Has h kRook then add_drop_checks b kRook (RookEffect ksq occ) else []))"

definition GenerateCheckingMovesNonCheck :: "shogi_board \<Rightarrow> move list" where
  "GenerateCheckingMovesNonCheck b = discovered_checks b @ direct_checks b @ drop_checks b"

definition GenerateCheckingMoves :: "shogi_board \<Rightarrow> move list" where
  "GenerateCheckingMoves b =
     (if InCheck b (side_to_move b) then GenerateCheckingMovesViaFilter b
      else GenerateCheckingMovesNonCheck b)"

subsection \<open>Direct and discovered checks on a placement\<close>

lemma on_line_swap: "on_line u k q \<Longrightarrow> on_line k u q"
proof -
  assume "on_line u k q"
  then obtain d m i where d: "unit_dir d" "1 \<le> m" "steps_to u d m k"
    "steps_to u d i q \<or> steps_to u (neg_dir d) i q" by (auto simp: on_line_def)
  have b: "steps_to k (neg_dir d) m u" using d(3) steps_to_neg [of k "neg_dir d" m u] by simp
  from d(4) have "(\<exists>j. steps_to k (neg_dir d) j q) \<or> (\<exists>j. steps_to k d j q)"
  proof
    assume a: "steps_to u d i q"
    show ?thesis
    proof (cases "i \<le> m")
      case True
      then show ?thesis using steps_to_back [OF b, of i q] a by auto
    next
      case False
      then show ?thesis using steps_to_back_over [OF b, of i q] a by auto
    qed
  next
    assume "steps_to u (neg_dir d) i q"
    then show ?thesis using steps_to_trans [OF b] by blast
  qed
  then have "\<exists>j. steps_to k (neg_dir d) j q \<or> steps_to k (neg_dir (neg_dir d)) j q" by auto
  then show "on_line k u q" unfolding on_line_def using d(1,2) b by (metis unit_dir_neg)
qed

lemma on_line_sym: "on_line u k q \<longleftrightarrow> on_line k u q"
  using on_line_swap by blast

lemma pins_opp_frm: "pins f c k u t d n \<Longrightarrow> t \<noteq> u"
  using steps_to_inj [of d k n t] pins_dir [of f c k u t d n] by (auto simp: pins_def between_sq_def)

text \<open>The attacker's own square does not matter.\<close>

lemma reaches_end_cong:
  assumes "\<And>u. u < 81 \<Longrightarrow> u \<noteq> to \<Longrightarrow> occ u \<longleftrightarrow> occ' u" "to < 81" "k < 81"
  shows "reaches v occ to k \<longleftrightarrow> reaches v occ' to k"
proof -
  have nb: "\<not> betw k to to"
  proof
    assume "betw k to to"
    then obtain d n j where "unit_dir d" "steps_to k d n to" "j < n" "steps_to k d j to"
      by (auto simp: betw_def between_sq_def)
    then show False using steps_to_inj [of d k n to j] by simp
  qed
  show ?thesis by (intro iffI; erule reaches_mono [OF _ assms(3,2)]) (use nb assms(1) in auto)
qed

text \<open>A move gives check with the moved piece, or by leaving the line of a piece behind it.\<close>

lemma att_to_after_move:
  assumes "v \<noteq> 0" "piece_GetColor v = c" "to < 81" "k < 81" "to \<noteq> k"
  shows "att (f(frm := 0, to := v)) (occf (f(frm := 0, to := v))) c to k \<longleftrightarrow> reaches v (\<lambda>u. f u \<noteq> 0 \<and> u \<noteq> frm) to k"
proof -
  have "reaches v (occf (f(frm := 0, to := v))) to k \<longleftrightarrow> reaches v (\<lambda>u. f u \<noteq> 0 \<and> u \<noteq> frm) to k"
    by (rule reaches_end_cong [OF _ assms(3,4)]) auto
  then show ?thesis using assms by (simp add: att_def)
qed

lemma in_check_after_attack:
  assumes f: "f frm \<noteq> 0" "piece_GetColor (f frm) = c" "v \<noteq> 0" "piece_GetColor v = c" "frm < 81" "to < 81" "frm \<noteq> to"
    and k: "k < 81" "f k \<noteq> 0" "to \<noteq> k" and r: "reaches (f frm) (occf f) frm to"
    and own: "\<not> (f to \<noteq> 0 \<and> piece_GetColor (f to) = c)" and safe: "\<not> in_check f (opp c) k"
  shows "in_check (f(frm := 0, to := v)) (opp c) k \<longleftrightarrow>
    reaches v (\<lambda>u. f u \<noteq> 0 \<and> u \<noteq> frm) to k \<or> ((\<exists>t d n. pins f (opp c) k frm t d n) \<and> \<not> on_line k frm to)"
proof -
  let ?f' = "f(frm := 0, to := v)"
  have none: "\<not> att f (occf f) (opp (opp c)) t k" if "t < 81" for t using safe that by (auto simp: in_check_def)
  have other: "att ?f' (occf ?f') (opp (opp c)) t k \<longleftrightarrow> (\<exists>d n. pins f (opp c) k frm t d n \<and> \<not> between_sq k d n to)"
    if t: "t < 81" "t \<noteq> to" for t
  proof
    assume "att ?f' (occf ?f') (opp (opp c)) t k"
    from unveiled [OF f(1,3,5-7) t this] none [OF t(1)]
    show "\<exists>d n. pins f (opp c) k frm t d n \<and> \<not> between_sq k d n to" by blast
  next
    assume "\<exists>d n. pins f (opp c) k frm t d n \<and> \<not> between_sq k d n to"
    then obtain d n where p: "pins f (opp c) k frm t d n" "\<not> between_sq k d n to" by blast
    show "att ?f' (occf ?f') (opp (opp c)) t k" by (rule pin_exposes [OF p(1) f(6) t(2) p(2) pins_dir [OF p(1)]])
  qed
  have pin: "t \<noteq> to \<and> \<not> between_sq k d n to \<longleftrightarrow> \<not> on_line k frm to" if p: "pins f (opp c) k frm t d n" for t d n
  proof -
    note d = pins_dir [OF p]
    have "f t \<noteq> 0 \<and> piece_GetColor (f t) = c" using p by (simp add: pins_def)
    then have "t \<noteq> to" using own by blast
    then show ?thesis
      using on_line_between [OF p k(1) d k(2) _ r f(6)] between_on_line [OF p k(1) d, of to] f(7) k(3) on_line_sym by metis
  qed
  have "in_check ?f' (opp c) k \<longleftrightarrow> att ?f' (occf ?f') c to k \<or>
      (\<exists>t<81. t \<noteq> to \<and> att ?f' (occf ?f') (opp (opp c)) t k)"
    unfolding in_check_def opp_opp using f(6) by blast
  also have "(\<exists>t<81. t \<noteq> to \<and> att ?f' (occf ?f') (opp (opp c)) t k) \<longleftrightarrow>
      (\<exists>t<81. \<exists>d n. pins f (opp c) k frm t d n \<and> t \<noteq> to \<and> \<not> between_sq k d n to)"
    using other by blast
  also have "\<dots> \<longleftrightarrow> (\<exists>t d n. pins f (opp c) k frm t d n) \<and> \<not> on_line k frm to"
    using pin pins_sq by meson
  finally show ?thesis unfolding att_to_after_move [OF f(3,4,6) k(1,3)] .
qed

lemma in_check_after_drop_attack:
  assumes "f to = 0" "v \<noteq> 0" "piece_GetColor v = c" "to < 81" "k < 81" "to \<noteq> k" and safe: "\<not> in_check f (opp c) k"
  shows "in_check (f(to := v)) (opp c) k \<longleftrightarrow> reaches v (occf f) to k"
proof -
  let ?f' = "f(to := v)"
  have "\<not> att ?f' (occf ?f') c t k" if t: "t < 81" "t \<noteq> to" for t
  proof
    assume a: "att ?f' (occf ?f') c t k"
    then have "reaches (f t) (occf ?f') t k" using t(2) by (simp add: att_def)
    then have "reaches (f t) (occf f) t k"
      by (rule reaches_mono [OF _ assms(5) t(1)]) (use assms(1) in \<open>auto split: if_splits\<close>)
    then show False using a t safe by (auto simp: att_def in_check_def)
  qed
  moreover have "att ?f' (occf ?f') c to k \<longleftrightarrow> reaches v (occf f) to k"
  proof -
    have eq: "?f' = f(to := 0, to := v)" by simp
    have "att ?f' (occf ?f') c to k \<longleftrightarrow> reaches v (\<lambda>u. f u \<noteq> 0 \<and> u \<noteq> to) to k"
      unfolding eq by (rule att_to_after_move) (use assms in simp_all)
    also have "\<dots> \<longleftrightarrow> reaches v (occf f) to k" by (rule reaches_cong) (use assms(1) in auto)
    finally show ?thesis .
  qed
  ultimately show ?thesis unfolding in_check_def opp_opp using assms(4) by blast
qed

subsection \<open>The moves of the rules that give check\<close>

abbreviation enemy_king :: "shogi_board \<Rightarrow> square" where
  "enemy_king b \<equiv> king_sq b (opp (side_to_move b))"

lemma to_not_enemy_king:
  assumes ok: "board_ok b" and kings: "kings_ok b" and nc: "\<not> InCheck b (opp (side_to_move b))" and pm: "piece_move b frm to"
  shows "to \<noteq> enemy_king b"
proof
  assume to: "to = enemy_king b"
  have "att (board_arr b) (occf (board_arr b)) (opp (opp (side_to_move b))) frm (enemy_king b)"
    using pm by (simp add: piece_move_def to)
  then have "in_check (board_arr b) (opp (side_to_move b)) (enemy_king b)"
    unfolding in_check_def using piece_move_facts(1) [OF ok kings pm] by blast
  then show False using nc InCheck_in_check [OF ok king_facts(1) [OF kings]] by simp
qed

lemma check_by_piece_move:
  assumes ok: "board_ok b" and kings: "kings_ok b" and nc: "\<not> InCheck b (opp (side_to_move b))"
    and pm: "piece_move b frm to" and mv: "move_variant b frm to m"
  shows "InCheck (after_move b m) (opp (side_to_move b)) \<longleftrightarrow>
    reaches (place_moved b m) (\<lambda>u. board_arr b u \<noteq> 0 \<and> u \<noteq> frm) to (enemy_king b) \<or>
    ((\<exists>t d n. pins (board_arr b) (opp (side_to_move b)) (enemy_king b) frm t d n) \<and> \<not> on_line (enemy_king b) frm to)"
proof -
  let ?f = "board_arr b" let ?us = "side_to_move b" let ?k = "enemy_king b" let ?v = "place_moved b m"
  note king = king_facts [OF kings, of "opp ?us"]
  note p = piece_move_facts [OF ok kings pm] and v = variant_fields [OF p(1,2) mv] and pre = variant_pre [OF pm mv]
  have tk: "to \<noteq> ?k" using to_not_enemy_king [OF ok kings nc pm] .
  have arr: "board_arr (after_move b m) = ?f(frm := 0, to := ?v)"
    unfolding after_eq [OF pre] using board_arr_place_pieces(1) [of m b] v p(6) by simp
  have pv: "?v \<noteq> 0" "piece_GetColor ?v = ?us" using place_moved_props [OF ok pre v(3)] v p(4) by simp_all
  have "frm \<noteq> ?k" using p(4) king(4) by auto
  then have "board_arr (after_move b m) ?k = piece_Make (opp ?us) kKing" using tk king(2) by (simp add: arr)
  then have ksq: "king_sq (after_move b m) (opp ?us) = ?k" using board_okD(6) [OF after_ok [OF ok pre] king(1)] by blast
  have safe: "\<not> in_check ?f (opp ?us) ?k" using nc InCheck_in_check [OF ok king(1)] by simp
  have own: "\<not> (?f to \<noteq> 0 \<and> piece_GetColor (?f to) = ?us)" using pm by (simp add: piece_move_def)
  have "InCheck (after_move b m) (opp ?us) \<longleftrightarrow> in_check (?f(frm := 0, to := ?v)) (opp ?us) ?k"
    using InCheck_in_check [OF after_ok [OF ok pre], of "opp ?us"] king(1) by (simp add: ksq arr)
  also have "\<dots> \<longleftrightarrow> reaches ?v (\<lambda>u. ?f u \<noteq> 0 \<and> u \<noteq> frm) to ?k \<or>
    ((\<exists>t d n. pins ?f (opp ?us) ?k frm t d n) \<and> \<not> on_line ?k frm to)"
    by (rule in_check_after_attack [where f = ?f, OF p(3,4) pv p(1,2,6) king(1,3) tk p(5) own safe])
  finally show ?thesis .
qed

lemma check_by_drop:
  assumes ok: "board_ok b" and kings: "kings_ok b" and nc: "\<not> InCheck b (opp (side_to_move b))" and rd: "rule_drop b pt to"
  shows "InCheck (after_move b (move_Drop pt to)) (opp (side_to_move b)) \<longleftrightarrow>
    reaches (piece_Make (side_to_move b) pt) (occf (board_arr b)) to (enemy_king b)"
proof -
  let ?f = "board_arr b" let ?us = "side_to_move b" let ?k = "enemy_king b" let ?m = "move_Drop pt to"
  note king = king_facts [OF kings, of "opp ?us"] and d = drop_fields [OF rd]
  have r: "to < 81" "?f to = 0" "1 \<le> pt" "pt < 16" using rd by (auto simp: rule_drop_def pt_IsHandPiece_def)
  have arr: "board_arr (after_move b ?m) = ?f(to := piece_Make ?us pt)"
    unfolding after_eq [OF d(4)] using board_arr_place_pieces(2) [of ?m b] d by simp
  have tk: "to \<noteq> ?k" using r king by auto
  then have "board_arr (after_move b ?m) ?k = piece_Make (opp ?us) kKing" using king(2) by (simp add: arr)
  then have ksq: "king_sq (after_move b ?m) (opp ?us) = ?k" using board_okD(6) [OF after_ok [OF ok d(4)] king(1)] by blast
  have safe: "\<not> in_check ?f (opp ?us) ?k" using nc InCheck_in_check [OF ok king(1)] by simp
  have "InCheck (after_move b ?m) (opp ?us) \<longleftrightarrow> in_check (?f(to := piece_Make ?us pt)) (opp ?us) ?k"
    using InCheck_in_check [OF after_ok [OF ok d(4)], of "opp ?us"] king(1) by (simp add: ksq arr)
  also have "\<dots> \<longleftrightarrow> reaches (piece_Make ?us pt) (occf ?f) to ?k"
    by (rule in_check_after_drop_attack) (use r king tk safe in simp_all)
  finally show ?thesis .
qed

lemma Test_our_blockers:
  assumes "board_ok b" "kings_ok b" "s < 81"
  shows "bb_Test (our_blockers b) s \<longleftrightarrow> piece_GetColor (board_arr b s) = side_to_move b \<and>
    (\<exists>t d n. pins (board_arr b) (opp (side_to_move b)) (enemy_king b) s t d n)"
  using Test_ComputeBlockers [OF assms(1) refl king_facts(1) [OF assms(2)] assms(3)] board_okD(4) [OF assms(1,3)]
  by (auto simp: our_blockers_def own_def Test_And pins_def)

lemma place_moved_variant:
  assumes "frm < 81" "to < 81" "move_variant b frm to m" "board_ok b" "board_arr b frm \<noteq> 0"
  shows "piece_GetType (place_moved b m) =
    (if move_is_promotion m then pt_Promote (piece_GetType (board_arr b frm)) else piece_GetType (board_arr b frm))"
proof -
  note v = variant_fields [OF assms(1-3)]
  show ?thesis
    using v piece_Promote_props(4) [OF board_okD(1) [OF assms(4,1)]] by (auto simp: place_moved_def may_promote_def)
qed

lemma reaches_after_iff:
  assumes ok: "board_ok b" and kings: "kings_ok b" and nc: "\<not> InCheck b (opp (side_to_move b))"
    and pm: "piece_move b frm to" and mv: "move_variant b frm to m"
    and occ: "\<And>u. u < 81 \<Longrightarrow> u \<noteq> to \<Longrightarrow> bb_Test w u \<longleftrightarrow> board_arr b u \<noteq> 0 \<and> u \<noteq> frm"
  shows "bb_Test (PieceAttacks (piece_GetType (place_moved b m)) (side_to_move b) to w) (enemy_king b) \<longleftrightarrow>
    reaches (place_moved b m) (\<lambda>u. board_arr b u \<noteq> 0 \<and> u \<noteq> frm) to (enemy_king b)"
proof -
  let ?us = "side_to_move b" let ?k = "enemy_king b" let ?v = "place_moved b m"
  note king = king_facts [OF kings, of "opp ?us"]
  note p = piece_move_facts [OF ok kings pm] and v = variant_fields [OF p(1,2) mv] and pre = variant_pre [OF pm mv]
  have pv: "piece_ok ?v" "?v \<noteq> 0" "piece_GetColor ?v = ?us" using place_moved_props [OF ok pre v(3)] v p(4) by simp_all
  have tk: "to \<noteq> ?k" using to_not_enemy_king [OF ok kings nc pm] .
  have "reaches ?v (bb_Test w) to ?k \<longleftrightarrow> reaches ?v (\<lambda>u. board_arr b u \<noteq> 0 \<and> u \<noteq> frm) to ?k"
    by (rule reaches_end_cong [OF _ p(2) king(1)]) (rule occ)
  then show ?thesis using reaches_PieceAttacks [OF pv(1,2) king(1) p(2), of w] pv(3) by simp
qed

lemma filter_gives_check_iff:
  assumes ok: "board_ok b" and kings: "kings_ok b" and nc: "\<not> InCheck b (opp (side_to_move b))" and m: "rule_move b m"
  shows "filter_gives_check b m \<longleftrightarrow> InCheck (after_move b m) (opp (side_to_move b))"
proof -
  let ?us = "side_to_move b" let ?k = "enemy_king b"
  from m consider frm to where "piece_move b frm to" "move_variant b frm to m"
    | pt to where "m = move_Drop pt to" "rule_drop b pt to" unfolding rule_move_def by blast
  then show ?thesis
  proof cases
    case 1
    note p = piece_move_facts [OF ok kings 1(1)] and v = variant_fields [OF piece_move_facts(1,2) [OF ok kings 1(1)] 1(2)]
    let ?w = "bb_Set (bb_Clear (occupied b) frm) to"
    have w: "bb_Test ?w u \<longleftrightarrow> board_arr b u \<noteq> 0 \<and> u \<noteq> frm" if "u < 81" "u \<noteq> to" for u
      using that p(1,2) by (auto simp: bb_simps Test_occupied ok)
    have dir: "bb_Test (PieceAttacks (piece_GetType (place_moved b m)) ?us to ?w) ?k \<longleftrightarrow>
        reaches (place_moved b m) (\<lambda>u. board_arr b u \<noteq> 0 \<and> u \<noteq> frm) to ?k"
      by (rule reaches_after_iff [OF ok kings nc 1]) (rule w)
    have bl: "bb_Test (our_blockers b) frm \<longleftrightarrow> (\<exists>t d n. pins (board_arr b) (opp ?us) ?k frm t d n)"
      using Test_our_blockers [OF ok kings p(1)] p(4) by simp
    have f: "filter_gives_check b m \<longleftrightarrow> bb_Test (PieceAttacks (piece_GetType (place_moved b m)) ?us to ?w) ?k \<or>
        (bb_Test (our_blockers b) frm \<and> InCheck (after_move b m) (side_to_move (after_move b m)))"
      using v place_moved_variant [OF p(1,2) 1(2) ok p(3)]
      by (simp add: filter_gives_check_def Let_def piece_on_def)
    show ?thesis
      unfolding f bl dir after_eq(3) [OF variant_pre [OF 1]]
      using check_by_piece_move [OF ok kings nc 1] by blast
  next
    case 2
    note d = drop_fields [OF 2(2)] and king = king_facts [OF kings, of "opp ?us"]
    have r: "to < 81" "board_arr b to = 0" "1 \<le> pt" "pt \<le> 14" using 2(2) by (auto simp: rule_drop_def pt_IsHandPiece_def)
    let ?v = "piece_Make ?us pt" let ?w = "bb_Set (occupied b) to"
    have "bb_Test (PieceAttacks pt ?us to ?w) ?k \<longleftrightarrow> reaches ?v (bb_Test ?w) to ?k"
      using reaches_PieceAttacks [of ?v ?k to ?w] r king(1) by simp
    also have "\<dots> \<longleftrightarrow> reaches ?v (occf (board_arr b)) to ?k"
      by (rule reaches_end_cong) (use r king(1) in \<open>auto simp: bb_simps Test_occupied ok\<close>)
    finally show ?thesis
      using check_by_drop [OF ok kings nc 2(2)] d 2(1) by (simp add: filter_gives_check_def Let_def)
  qed
qed

subsection \<open>The destination zones\<close>

lemma dir_deltas:
  "set king_deltas = set rook_dirs \<union> set bishop_dirs" "set dragon_deltas = set bishop_dirs"
  "set horse_deltas = set rook_dirs"
  by (auto simp: delta_defs rook_dirs_def bishop_dirs_def)

lemma one_step: "(\<exists>d\<in>D. steps_to s d 1 t) \<longleftrightarrow> (file_of t - file_of s, rank_of t - rank_of s) \<in> D"
proof -
  have "steps_to s d 1 t \<longleftrightarrow> d = (file_of t - file_of s, rank_of t - rank_of s)" for d
    by (cases d) (auto simp: steps_to_def)
  then show ?thesis by simp
qed

lemma adjacent_slides:
  assumes "s < 81" "t < 81"
  shows "bb_Test (RookEffect s occ) t \<or> bb_Test (KingEffectBB s) t \<longleftrightarrow> bb_Test (RookEffect s occ) t \<or> bb_Test (DragonStepBB s) t"
    "bb_Test (BishopEffect s occ) t \<or> bb_Test (KingEffectBB s) t \<longleftrightarrow> bb_Test (BishopEffect s occ) t \<or> bb_Test (HorseStepBB s) t"
proof -
  have one: "bb_Test (RookEffect s occ) t" if "d \<in> set rook_dirs" "steps_to s d 1 t" for d
    unfolding RookEffect_rays [OF assms]
    using that set_ray_reach_from [OF assms(1), of d] assms(2) unit_dir_rook_bishop
    by (intro bexI [OF _ that(1)]) (auto simp: clear_between_def)
  have two: "bb_Test (BishopEffect s occ) t" if "d \<in> set bishop_dirs" "steps_to s d 1 t" for d
    unfolding BishopEffect_rays [OF assms]
    using that set_ray_reach_from [OF assms(1), of d] assms(2) unit_dir_rook_bishop
    by (intro bexI [OF _ that(1)]) (auto simp: clear_between_def)
  have k: "bb_Test (KingEffectBB s) t \<longleftrightarrow> (\<exists>d\<in>set rook_dirs. steps_to s d 1 t) \<or> (\<exists>d\<in>set bishop_dirs. steps_to s d 1 t)"
    "bb_Test (DragonStepBB s) t \<longleftrightarrow> (\<exists>d\<in>set bishop_dirs. steps_to s d 1 t)"
    "bb_Test (HorseStepBB s) t \<longleftrightarrow> (\<exists>d\<in>set rook_dirs. steps_to s d 1 t)"
    unfolding one_step step_defs Test_MakeStepBB [OF assms(2)] dir_deltas by simp_all
  show "bb_Test (RookEffect s occ) t \<or> bb_Test (KingEffectBB s) t \<longleftrightarrow> bb_Test (RookEffect s occ) t \<or> bb_Test (DragonStepBB s) t"
    "bb_Test (BishopEffect s occ) t \<or> bb_Test (KingEffectBB s) t \<longleftrightarrow> bb_Test (BishopEffect s occ) t \<or> bb_Test (HorseStepBB s) t"
    unfolding k using one two by blast+
qed

lemma Test_exact_direct_sets:
  assumes "exact_direct_sets us k occ pt from = (now, promo)" "s < 81" "k < 81" "1 \<le> pt" "pt \<le> 14"
  shows "bb_Test now s \<longleftrightarrow> bb_Test (PieceAttacks pt us s (bb_Clear occ from)) k"
    "pt_CanPromote pt \<Longrightarrow> bb_Test promo s \<longleftrightarrow> bb_Test (PieceAttacks (pt_Promote pt) us s (bb_Clear occ from)) k"
proof -
  let ?w = "bb_Clear occ from"
  have sym: "bb_Test (RookEffect k ?w) s \<longleftrightarrow> bb_Test (RookEffect s ?w) k"
    "bb_Test (BishopEffect k ?w) s \<longleftrightarrow> bb_Test (BishopEffect s ?w) k"
    "bb_Test (LanceEffect (opp us) k ?w) s \<longleftrightarrow> bb_Test (LanceEffect us s ?w) k"
    "bb_Test (KingEffectBB k) s \<longleftrightarrow> bb_Test (KingEffectBB s) k"
    using RookEffect_symmetric [OF assms(2,3)] BishopEffect_symmetric [OF assms(2,3)]
      LanceEffect_symmetric [OF assms(2,3)] step_symmetric(5) [OF assms(2,3)] by simp_all
  note adj = adjacent_slides [OF assms(2,3), of ?w]
  have dt: "bb_Test (direct_table eff k) s \<longleftrightarrow> bb_Test (eff s) k" for eff by (rule Test_direct_table [OF assms(2)])
  note tabs = PawnCheckBB_def KnightCheckBB_def SilverCheckBB_def GoldCheckBB_def
  have pt: "pt \<in> {1,2,3,4,5,6,7,8,9,10,11,12,13,14}" using assms(4,5) unfolding insert_iff empty_iff by presburger
  have now: "now = fst (exact_direct_sets us k occ pt from)" and promo: "promo = snd (exact_direct_sets us k occ pt from)"
    using assms(1) by simp_all
  show "bb_Test now s \<longleftrightarrow> bb_Test (PieceAttacks pt us s ?w) k"
    using pt unfolding now
    by (elim insertE emptyE)
      (simp_all add: exact_direct_sets_def zone_of_def PieceAttacks_def piece_type_defs Let_def tabs dt sym adj Test_Or)
  show "bb_Test promo s \<longleftrightarrow> bb_Test (PieceAttacks (pt_Promote pt) us s ?w) k" if c: "pt_CanPromote pt"
  proof -
    have "pt \<in> {1,2,3,4,5,6}" using c by (auto simp: pt_CanPromote_def)
    then show ?thesis using c unfolding promo
      by (elim insertE emptyE)
        (simp_all add: exact_direct_sets_def zone_of_def PieceAttacks_def piece_type_defs Let_def tabs dt sym adj Test_Or pt_Promote_def)
  qed
qed

subsection \<open>The candidates\<close>

lemma Test_direct_candidates:
  assumes ok: "board_ok b" and s: "s < 81"
  shows "bb_Test (direct_candidates b) s \<longleftrightarrow>
    (\<exists>pt. board_arr b s = piece_Make (side_to_move b) pt \<and>
       ((pt \<in> {kPawn, kLance, kKnight, kSilver, kGold, kProPawn, kProLance, kProKnight, kProSilver, kBishop, kHorse} \<and>
         bb_Test (move_check_table pt (enemy_king b) (side_to_move b)) s) \<or> pt = kRook \<or> pt = kDragon))"
proof -
  have p: "bb_Test (pieces_ct b c pt) s \<longleftrightarrow> board_arr b s = piece_Make c pt" if "1 \<le> pt" "pt < 16" for c pt
    using Test_pieces_ct [OF ok s that] .
  have split: "(\<exists>pt. A pt \<and> ((pt \<in> L \<and> B pt) \<or> pt = x \<or> pt = y)) \<longleftrightarrow> (\<exists>pt\<in>L. A pt \<and> B pt) \<or> A x \<or> A y"
    for A B :: "piece_type \<Rightarrow> bool" and L x y by blast
  show ?thesis
    unfolding direct_candidates_def Let_def Test_Or Test_And split
    by (simp add: p move_check_table_def piece_type_defs) blast
qed

lemma candidate_own:
  assumes "board_ok b" "s < 81" "bb_Test (direct_candidates b) s"
  shows "board_arr b s \<noteq> 0" "piece_GetColor (board_arr b s) = side_to_move b"
proof -
  obtain pt where pt: "board_arr b s = piece_Make (side_to_move b) pt" "1 \<le> pt" "pt < 16"
    using assms(3) unfolding Test_direct_candidates [OF assms(1,2)] by (auto simp: piece_type_defs)
  show "board_arr b s \<noteq> 0" "piece_GetColor (board_arr b s) = side_to_move b"
    unfolding pt(1) using piece_Make_sel(2,4) pt(2,3) by blast+
qed

lemma PieceAttacks_pattern:
  assumes "s < 81" "t < 81" "bb_Test (PieceAttacks pt c s occ) t"
    "pt \<in> {kPawn, kLance, kKnight, kSilver, kGold, kProPawn, kProLance, kProKnight, kProSilver, kBishop, kHorse}"
  shows "bb_Test (pattern pt c s) t"
  using assms(3,4) slider_in_mask [OF assms(1,2)]
  by (auto simp: pattern_def PieceAttacks_def piece_type_defs Test_Or)

lemma PieceAttacks_promoted_pattern:
  assumes "s < 81" "t < 81" "bb_Test (PieceAttacks (pt_Promote pt) c s occ) t"
    "pt \<in> {kPawn, kLance, kKnight, kSilver, kBishop}"
  shows "bb_Test (pattern (pt_Promote pt) c s) t"
  by (rule PieceAttacks_pattern [OF assms(1-3)]) (use assms(4) in \<open>auto simp: pt_Promote_def piece_type_defs\<close>)

text \<open>A piece that gives a direct check with one of its moves is a candidate.\<close>

lemma direct_candidate_complete:
  assumes ok: "board_ok b" and kings: "kings_ok b" and nc: "\<not> InCheck b (opp (side_to_move b))"
    and pm: "piece_move b frm to" and mv: "move_variant b frm to m"
    and nk: "piece_GetType (board_arr b frm) \<noteq> kKing"
    and r: "reaches (place_moved b m) (\<lambda>u. board_arr b u \<noteq> 0 \<and> u \<noteq> frm) to (enemy_king b)"
  shows "bb_Test (direct_candidates b) frm"
proof -
  let ?us = "side_to_move b" let ?k = "enemy_king b" let ?v = "board_arr b frm" let ?pt = "piece_GetType ?v"
  note king = king_facts [OF kings, of "opp ?us"]
  note p = piece_move_facts [OF ok kings pm] and v = variant_fields [OF piece_move_facts(1,2) [OF ok kings pm] mv]
  have vok: "piece_ok ?v" using board_okD(1) [OF ok p(1)] .
  have mk: "?v = piece_Make ?us ?pt" using piece_eq_Make [OF vok p(3)] p(4) by simp
  have pt: "1 \<le> ?pt" "?pt \<le> 14" using piece_ok_type [OF vok p(3)] by simp_all
  let ?L = "{kPawn, kLance, kKnight, kSilver, kGold, kProPawn, kProLance, kProKnight, kProSilver, kBishop, kHorse}"
  show ?thesis
  proof (cases "?pt = kRook \<or> ?pt = kDragon")
    case True
    then show ?thesis unfolding Test_direct_candidates [OF ok p(1)] using mk by blast
  next
    case False
    have L: "?pt \<in> ?L" using False nk pt unfolding piece_type_defs insert_iff empty_iff by presburger
    define g where "g = (if ?pt \<in> {kPawn, kLance, kKnight, kSilver, kBishop, kHorse} then ?pt else kGold)"
    have tab: "move_check_table ?pt ?k ?us = move_check_table g ?k ?us" "pattern ?pt ?us s = pattern g ?us s" for s
      by (auto simp: move_check_table_def pattern_def g_def piece_type_defs)
    let ?w = "bb_Clear (occupied b) frm"
    have "reaches ?v (bb_Test (occupied b)) frm to"
      using p(5) reaches_cong [of "bb_Test (occupied b)" "occf (board_arr b)"] by (simp add: Test_occupied ok)
    then have "bb_Test (PieceAttacks ?pt ?us frm (occupied b)) to"
      using reaches_PieceAttacks [OF vok p(3,2,1)] p(4) by simp
    then have h6: "bb_Test (pattern ?pt ?us frm) to" by (rule PieceAttacks_pattern [OF p(1,2) _ L])
    have w: "bb_Test ?w u \<longleftrightarrow> board_arr b u \<noteq> 0 \<and> u \<noteq> frm" if "u < 81" for u
      using that p(1) by (auto simp: bb_simps Test_occupied ok)
    have "bb_Test (PieceAttacks (piece_GetType (place_moved b m)) ?us to ?w) ?k"
      using r reaches_after_iff [OF ok kings nc pm mv w] by blast
    then have at: "bb_Test (PieceAttacks (if move_is_promotion m then pt_Promote ?pt else ?pt) ?us to ?w) ?k"
      unfolding place_moved_variant [OF p(1,2) mv ok p(3)] .
    have prom: "pt_CanPromote ?pt \<and> (sq_InPromotionZone frm ?us \<or> sq_InPromotionZone to ?us)" if "move_is_promotion m"
      using v(4) [OF that] p(1,2) by (simp add: may_promote_def InPromotionZone_ahead)
    have h8: "bb_Test (pattern (if move_is_promotion m then pt_Promote ?pt else ?pt) ?us to) ?k"
    proof (cases "move_is_promotion m")
      case True
      have "?pt \<in> {kPawn, kLance, kKnight, kSilver, kBishop}"
        using conjunct1 [OF prom [OF True]] False unfolding pt_CanPromote_def piece_type_defs insert_iff empty_iff
        by presburger
      with True at PieceAttacks_promoted_pattern [OF p(2) king(1)] show ?thesis by auto
    next
      case False
      with at PieceAttacks_pattern [OF p(2) king(1) _ L] show ?thesis by auto
    qed
    have gprom: "move_is_promotion m \<Longrightarrow> g = ?pt"
      using prom False pt unfolding g_def pt_CanPromote_def piece_type_defs by (auto split: if_splits)
    have safe: "\<not> reaches ?v (bb_Test (occupied b)) frm ?k"
    proof
      assume "reaches ?v (bb_Test (occupied b)) frm ?k"
      then have "att (board_arr b) (occf (board_arr b)) (opp (opp ?us)) frm ?k"
        using p(3,4) reaches_cong [of "bb_Test (occupied b)" "occf (board_arr b)"] by (simp add: Test_occupied ok att_def)
      then show False using nc InCheck_in_check [OF ok king(1)] p(1) by (auto simp: in_check_def)
    qed
    then have np: "\<not> bb_Test (PieceAttacks ?pt ?us frm (occupied b)) ?k"
      using reaches_PieceAttacks [OF vok p(3) king(1) p(1)] p(4) by simp
    have ne: "frm \<noteq> ?k" using p(4) king(4) by auto
    have "bb_Test (move_check_table g ?k ?us) frm"
    proof (rule move_check_table_covers [where prom = "move_is_promotion m", OF p(1,2) king(1) ne])
      show "g \<in> {kPawn, kLance, kKnight, kSilver, kBishop, kGold, kHorse}" by (auto simp: g_def)
      show "bb_Test (pattern g ?us frm) to" using h6 by (simp add: tab)
      show "pt_CanPromote g \<and> (sq_InPromotionZone frm ?us \<or> sq_InPromotionZone to ?us)" if "move_is_promotion m"
        using prom gprom that by simp
      show "bb_Test (pattern (if move_is_promotion m then pt_Promote g else g) ?us to) ?k"
        using h8 gprom by (cases "move_is_promotion m") (simp_all add: tab)
      show "\<not> bb_Test (pattern g ?us frm) ?k" if "g \<in> {kSilver, kGold}"
        using that np L by (auto simp: g_def pattern_def PieceAttacks_def piece_type_defs split: if_splits)
      show "\<not> bb_Test (PawnEffectBB frm ?us) ?k" if "g = kLance"
      proof
        assume "bb_Test (PawnEffectBB frm ?us) ?k"
        then have "steps_to frm (forward ?us) 1 ?k" using PawnEffect_forward [OF p(1) king(1)] by simp
        then have "bb_Test (LanceEffect ?us frm (occupied b)) ?k"
          unfolding LanceEffect_ray [OF p(1) king(1)] set_ray_reach_from [OF p(1) unit_dir_forward]
          using king(1) by (auto simp: clear_between_def)
        moreover have "?pt = kLance" using that L by (auto simp: g_def piece_type_defs split: if_splits)
        ultimately show False using np by (simp add: PieceAttacks_def piece_type_defs)
      qed
    qed
    then show ?thesis
      unfolding Test_direct_candidates [OF ok p(1)] using mk L by (intro exI [of _ ?pt]) (simp add: tab(1))
  qed
qed

end
