(* ===== verification/GamePlay.thy ===== *)
theory GamePlay
  imports Evasions
begin

text \<open>
  The legality theorem of the move generator and what it gives for games: positions reached by
  legal moves stay lawful.
\<close>

subsection \<open>Lawful positions\<close>

text \<open>A position of a game: consistent, with both kings and no piece too many, the hash in step,
  and the side that just moved not in check.\<close>

definition lawful :: "shogi_board \<Rightarrow> bool" where
  "lawful b \<longleftrightarrow> board_ok b \<and> kings_ok b \<and> material_ok b \<and> hash b = full_hash b \<and>
     \<not> InCheck b (opp (side_to_move b))"

definition legal_step :: "shogi_board \<Rightarrow> shogi_board \<Rightarrow> bool" where
  "legal_step b b' \<longleftrightarrow> (\<exists>m \<in> set (GenerateLegalMoves b). b' = snd (DoMove b m))"

lemma rule_move_pre:
  assumes "rule_move b m"
  shows "move_pre b m" "move_is_drop m \<longrightarrow> hand_Has (hands b (side_to_move b)) (move_drop_piece m)"
proof -
  from assms consider frm to where "piece_move b frm to" "move_variant b frm to m"
    | pt to where "m = move_Drop pt to" "rule_drop b pt to" unfolding rule_move_def by blast
  then have "move_pre b m \<and> (move_is_drop m \<longrightarrow> hand_Has (hands b (side_to_move b)) (move_drop_piece m))"
  proof cases
    case 1
    then show ?thesis using variant_pre variant_fields(3) unfolding piece_move_def by blast
  next
    case 2
    then show ?thesis using drop_fields [OF 2(2)] by (simp add: rule_drop_def hand_Has_iff)
  qed
  then show "move_pre b m" "move_is_drop m \<longrightarrow> hand_Has (hands b (side_to_move b)) (move_drop_piece m)" by simp_all
qed

text \<open>No move of the rules captures a king that is not attacked.\<close>

lemma no_king_capture:
  assumes ok: "board_ok b" "kings_ok b" "\<not> InCheck b (opp (side_to_move b))" and m: "rule_move b m"
  shows "piece_GetType (move_captured b m) \<noteq> kKing"
proof
  assume c: "piece_GetType (move_captured b m) = kKing"
  let ?us = "side_to_move b"
  from m consider frm to where "piece_move b frm to" "move_variant b frm to m"
    | pt to where "m = move_Drop pt to" "rule_drop b pt to" unfolding rule_move_def by blast
  then show False
  proof cases
    case 1
    note p = piece_move_facts [OF ok(1,2) 1(1)]
    have cap: "move_captured b m = board_arr b to" using variant_fields [OF p(1,2) 1(2)] by (simp add: move_captured_def)
    have nz: "board_arr b to \<noteq> 0" using c by (auto simp: cap piece_GetType_mod kKing_def)
    have "piece_GetColor (board_arr b to) = opp ?us" using 1(1) nz opp_color by (auto simp: piece_move_def)
    then have "board_arr b to = piece_Make (opp ?us) kKing"
      using king_piece_iff [OF board_okD(1) [OF ok(1) p(2)] nz] c cap by simp
    then have to: "to = king_sq b (opp ?us)" using board_okD(6) [OF ok(1) p(2)] by simp
    have "att (board_arr b) (occf (board_arr b)) (opp (opp ?us)) frm to" using 1(1) by (simp add: piece_move_def)
    then have "in_check (board_arr b) (opp ?us) to" unfolding in_check_def using p(1) by blast
    then show False
      using ok(3) InCheck_in_check [OF ok(1), of "opp ?us"] king_facts(1) [OF ok(2)] by (simp add: to)
  next
    case 2
    then show False using c drop_fields [OF 2(2)] by (simp add: move_captured_def piece_GetType_mod kKing_def)
  qed
qed

lemma lawful_step:
  assumes l: "lawful b" and m: "m \<in> set (GenerateLegalMoves b)"
  shows "lawful (snd (DoMove b m)) \<and> side_to_move (snd (DoMove b m)) = opp (side_to_move b) \<and>
    UndoMove (snd (DoMove b m)) m (fst (DoMove b m)) = b"
proof -
  note ok = l [unfolded lawful_def]
  have ok': "board_ok b" "kings_ok b" "material_ok b" "hash b = full_hash b" "\<not> InCheck b (opp (side_to_move b))"
    using ok by blast+
  have r: "rule_move b m" "\<not> InCheck (after_move b m) (side_to_move b)"
    using m set_legal_moves [OF ok'(1,2)] by blast+
  note pre = rule_move_pre [OF r(1)] and nk = no_king_capture [OF ok'(1,2,5) r(1)]
  note eq = DoMoveInternal_eq [OF move_pre_neq [OF pre(1)], of b True "-1"]
  have "InCheck (snd (DoMove b m)) (side_to_move b) = InCheck (after_move b m) (side_to_move b)"
    unfolding after_eq(4) [OF pre(1)] by (simp add: DoMove_def eq board_simps)
  moreover have stm: "side_to_move (snd (DoMove b m)) = opp (side_to_move b)" by (simp add: DoMove_def eq)
  moreover have "hash (snd (DoMove b m)) = full_hash (snd (DoMove b m))"
    using full_hash_DoMoveInternal [OF ok'(1) pre(1) ok'(4), of True "-1"] by (simp add: DoMove_def eq)
  ultimately have "lawful (snd (DoMove b m))"
    using r(2) board_ok_DoMoveInternal [OF ok'(1) pre(1)] kings_ok_DoMoveInternal [OF ok'(1,2) pre(1) nk]
      material_DoMoveInternal(2) [OF ok'(1,3) pre]
    by (simp add: lawful_def DoMove_def)
  then show ?thesis using stm UndoMove_DoMoveInternal [OF ok'(1) pre(1), of True "-1"] by (simp add: DoMove_def)
qed

lemma pawn_mate_iff:
  assumes ok: "board_ok b" "kings_ok b" and m: "rule_move b m"
  shows "(move_is_drop m \<longrightarrow> \<not> pawn_drop_mate HasLegalEvasion b m) \<longleftrightarrow>
    \<not> (pawn_drop_check b m \<and> GenerateLegalMoves (after_move b m) = [])"
proof (cases "pawn_drop_check b m")
  case True
  then have d: "move_is_drop m" by (simp add: pawn_drop_check_def)
  then obtain pt to where p: "m = move_Drop pt to" "rule_drop b pt to"
    using m variant_fields(3) unfolding rule_move_def piece_move_def by blast
  note a = after_pawn_drop [OF ok p(2) True [unfolded p(1)]]
  show ?thesis
    using d True pawn_drop_mate_iff [OF ok(2) p(2)] HasLegalEvasion_iff [OF a(1-3)] by (simp add: p(1))
next
  case False
  have "\<not> pawn_drop_mate HasLegalEvasion b m" if d: "move_is_drop m"
  proof -
    obtain pt to where p: "m = move_Drop pt to" "rule_drop b pt to"
      using m d variant_fields(3) unfolding rule_move_def piece_move_def by blast
    then show ?thesis using False pawn_drop_mate_iff [OF ok(2) p(2)] by simp
  qed
  with False show ?thesis by blast
qed

text \<open>C1: \<open>GenerateLegalMoves\<close> lists exactly the legal moves: the moves a piece can make and the
  drops a hand allows, with their promotions, that do not leave the mover's own king attacked,
  except a pawn drop that checks the enemy king and leaves it no legal move.\<close>

theorem legal_moves_correct:
  assumes "board_ok b" "kings_ok b"
  shows "m \<in> set (GenerateLegalMoves b) \<longleftrightarrow>
    rule_move b m \<and> \<not> InCheck (after_move b m) (side_to_move b) \<and>
    \<not> (pawn_drop_check b m \<and> GenerateLegalMoves (after_move b m) = [])"
  using set_legal_moves [OF assms] pawn_mate_iff [OF assms] by blast

lemma sample_att_white:
  "t < 81 \<Longrightarrow> att (board_arr sample_board) (occf (board_arr sample_board)) WHITE t s \<longleftrightarrow> t = 36 \<and> bb_Test (KingEffectBB 36) s"
  by (auto simp: att_def sample_board_arr reaches_def steps_at_def slides_def StepAttacks_def piece_GetColor_def
      piece_GetType_mod piece_type_defs split: if_splits)

lemma sample_rook_move:
  assumes "n \<in> {3, 4}"
  shows "piece_move sample_board 16 (16 + 9 * n)"
proof -
  have t: "sq_file (16 + 9 * n) = 1 + n" "sq_rank (16 + 9 * n) = 7" using assms by (auto simp: sq_file_def sq_rank_def)
  have "reaches 6 (occf (board_arr sample_board)) 16 (16 + 9 * n)"
    unfolding reaches_def
  proof (intro disjI2 exI conjI)
    show "unit_dir (-1, 0)" by (simp add: unit_dir_def)
    show "slides 6 (-1, 0)" by (simp add: slides_def piece_GetType_mod piece_type_defs rook_dirs_def)
    show "1 \<le> n" using assms by auto
    show "steps_to (16 + 9 * n) (-1, 0) n 16" by (simp add: steps_to_def t) (simp add: sq_file_def sq_rank_def)
    show "clear_between (occf (board_arr sample_board)) (16 + 9 * n) (-1, 0) n"
      using assms by (auto simp: clear_between_def steps_to_def t sq_file_def sq_rank_def sample_board_arr)
  qed
  then show ?thesis
    using assms by (auto simp: piece_move_def att_def sample_board_arr sample_board_sel piece_GetColor_def)
qed

lemma sample_rook_legal:
  assumes "n \<in> {3, 4}"
  shows "rule_move sample_board (move_Normal 16 (16 + 9 * n))"
    "\<not> InCheck (after_move sample_board (move_Normal 16 (16 + 9 * n))) BLACK"
    "\<not> pawn_drop_check sample_board (move_Normal 16 (16 + 9 * n))"
proof -
  let ?t = "16 + 9 * n"
  have v: "move_variant sample_board 16 ?t (move_Normal 16 ?t)"
    by (simp add: move_variant_def dead_end_def sample_board_arr piece_GetType_mod piece_type_defs)
  show "rule_move sample_board (move_Normal 16 ?t)" unfolding rule_move_def using sample_rook_move [OF assms] v by blast
  have np: "\<not> pins (board_arr sample_board) BLACK 44 16 t d n" for t d n
    using slides_rook_bishop [of 24 d]
    by (auto simp: pins_def sample_board_arr piece_GetColor_def slides_def piece_GetType_mod piece_type_defs split: if_splits)
  have "\<not> bb_Test (KingEffectBB 36) 44"
    by (simp add: step_defs delta_defs Test_MakeStepBB sq_file_def sq_rank_def)
  then have "\<not> (\<exists>t<81. att (board_arr sample_board) (occf (board_arr sample_board)) WHITE t 44 \<and> t \<noteq> ?t \<and> \<not> betw 44 t ?t)"
    using sample_att_white by blast
  then show "\<not> InCheck (after_move sample_board (move_Normal 16 ?t)) BLACK"
    using safe_after_piece_move [OF sample_board_ok sample_rook_move [OF assms] v] np by (simp add: sample_board_sel)
  show "\<not> pawn_drop_check sample_board (move_Normal 16 ?t)"
    using assms by (auto simp: pawn_drop_check_def)
qed

lemmas sample_rook_52 = sample_rook_legal [where n = 4, simplified]

theorem legal_moves_correct_witness:
  "move_Normal 16 52 \<in> set (GenerateLegalMoves sample_board)"
  using legal_moves_correct [OF sample_board_ok, of "move_Normal 16 52"] sample_rook_52
  by (simp add: sample_board_sel)

text \<open>C2: positions reached by legal play are lawful: consistent boards with both kings, no piece
  gained, the hash equal to the hash from scratch and the side that just moved not in check; and
  every legal move can be taken back.\<close>

theorem legal_play_lawful:
  assumes "lawful b" "legal_step\<^sup>*\<^sup>* b b'"
  shows "lawful b' \<and> (\<forall>m \<in> set (GenerateLegalMoves b').
    UndoMove (snd (DoMove b' m)) m (fst (DoMove b' m)) = b' \<and> side_to_move (snd (DoMove b' m)) = opp (side_to_move b'))"
  using assms(2,1)
proof (induction rule: rtranclp_induct)
  case base
  then show ?case using lawful_step by blast
next
  case (step b' b'')
  then have "lawful b''" using lawful_step unfolding legal_step_def by blast
  then show ?case using lawful_step by blast
qed

definition sample_position :: shogi_board where
  "sample_position = ComputeHash sample_board"

lemma sample_position_lawful: "lawful sample_position"
proof -
  have sel: "board_ok sample_position" "kings_ok sample_position" "material_ok sample_position"
    "king_sq sample_position WHITE = 36" "side_to_move sample_position = BLACK" "board_arr sample_position = board_arr sample_board"
    using sample_board_ok sample_board_material
    by (simp_all add: sample_position_def ComputeHash_def board_simps kings_ok_def material_ok_def material_def sample_board_sel)
  have h: "hash sample_position = full_hash sample_position"
    by (simp add: sample_position_def ComputeHash_def full_hash_sum
        piece_key_cong [of "sample_board\<lparr>hash := z\<rparr>" sample_board for z])
  have "\<not> att (board_arr sample_board) (occf (board_arr sample_board)) BLACK t 36" if t: "t < 81" for t
  proof
    assume a: "att (board_arr sample_board) (occf (board_arr sample_board)) BLACK t 36"
    then consider "t = 44" | "t = 16" by (auto simp: att_def sample_board_arr piece_GetColor_def split: if_splits)
    then show False
    proof cases
      case 1
      then show False using a
        by (auto simp: att_def sample_board_arr reaches_def slides_def steps_at_def StepAttacks_def piece_GetColor_def
            piece_GetType_mod piece_type_defs step_defs delta_defs Test_MakeStepBB sq_file_def sq_rank_def)
    next
      case 2
      then show False using a
        by (auto simp: att_def sample_board_arr reaches_def slides_def steps_at_def StepAttacks_def piece_GetColor_def
            piece_GetType_mod piece_type_defs steps_to_def rook_dirs_def sq_file_def sq_rank_def)
    qed
  qed
  then have "\<not> InCheck sample_position WHITE"
    using InCheck_in_check [OF sel(1), of WHITE] by (auto simp: in_check_def sel)
  then show ?thesis using sel h by (simp add: lawful_def)
qed

lemma InCheck_place_hash: "InCheck (place_pieces (b\<lparr>hash := z\<rparr>) m) c = InCheck (place_pieces b m) c"
proof -
  have "place_pieces (b\<lparr>hash := z\<rparr>) m = (place_pieces b m)\<lparr>hash := z\<rparr>"
    by (cases "board_arr b (move_to m) = 0") (simp_all add: place_pieces_def place_moved_def board_simps)
  then show ?thesis by (simp add: board_simps)
qed

lemma rule_move_hash: "rule_move (b\<lparr>hash := z\<rparr>) m = rule_move b m"
  by (simp add: rule_move_def piece_move_def move_variant_def rule_drop_def)

lemma sample_position_legal:
  assumes "n \<in> {3, 4}"
  shows "move_Normal 16 (16 + 9 * n) \<in> set (GenerateLegalMoves sample_position)" "piece_move sample_position 16 (16 + 9 * n)"
proof -
  let ?m = "move_Normal 16 (16 + 9 * n)"
  note l = sample_rook_legal [OF assms]
  have "16 + 9 * n < 81" using assms by auto
  then have nd: "\<not> move_is_drop ?m" by simp
  have ok: "board_ok sample_position" "kings_ok sample_position" using sample_position_lawful by (simp_all add: lawful_def)
  have r: "rule_move sample_position ?m"
    using l(1) unfolding sample_position_def ComputeHash_def rule_move_hash .
  have "InCheck (place_pieces sample_position ?m) c = InCheck (place_pieces sample_board ?m) c" for c
    unfolding sample_position_def ComputeHash_def by (rule InCheck_place_hash)
  then have "\<not> InCheck (after_move sample_position ?m) BLACK"
    using l(2) unfolding after_eq(4) [OF rule_move_pre(1) [OF r]] after_eq(4) [OF rule_move_pre(1) [OF l(1)]]
    by simp
  then show "?m \<in> set (GenerateLegalMoves sample_position)"
    unfolding set_legal_moves [OF ok] using r nd by (simp add: sample_position_def ComputeHash_def sample_board_sel)
  show "piece_move sample_position 16 (16 + 9 * n)"
    using sample_rook_move [OF assms] by (simp add: sample_position_def ComputeHash_def piece_move_def)
qed

lemma sample_position_step: "legal_step sample_position (snd (DoMove sample_position (move_Normal 16 52)))"
  using sample_position_legal(1) [of 4] unfolding legal_step_def by auto

theorem legal_play_lawful_witness: "lawful (snd (DoMove sample_position (move_Normal 16 52)))"
  using legal_play_lawful [OF sample_position_lawful] sample_position_step by blast

end
