(* ===== verification/CheckGen.thy ===== *)
theory CheckGen
  imports CheckingMoves GamePlay
begin

text \<open>
  The production generator of checking moves lists exactly the legal moves that give check,
  like the reference generator.
\<close>

subsection \<open>What is pushed\<close>

lemma add_if_legal_iff:
  assumes ok: "board_ok b" and kings: "kings_ok b" and nc: "\<not> InCheck b (side_to_move b)"
    and pm: "piece_move b frm to" and mv: "move_variant b frm to m"
  shows "add_if_legal b m \<longleftrightarrow> \<not> InCheck (after_move b m) (side_to_move b)"
proof -
  let ?us = "side_to_move b" let ?k = "mover_king b"
  note p = piece_move_facts [OF ok kings pm] and v = variant_fields [OF piece_move_facts(1,2) [OF ok kings pm] mv]
  note king = king_facts [OF kings, of ?us]
  show ?thesis
  proof (cases "frm = ?k")
    case True
    let ?occ = "bb_Xor (occupied b) (SquareBB ?k)"
    have occ: "bb_Test ?occ u \<longleftrightarrow> board_arr b u \<noteq> 0 \<and> u \<noteq> ?k" if "u < 81" for u
      using that king(1,3) by (auto simp: bb_simps Test_occupied ok)
    have "add_if_legal b m \<longleftrightarrow> \<not> IsSquareAttacked b to ?occ (opp ?us)"
      using v True by (simp add: add_if_legal_def Let_def IsLegal_def IsLegal_with_def IsSquareAttacked_Any [OF ok p(2)] bb_Empty_def)
    also have "\<dots> \<longleftrightarrow> \<not> (\<exists>t<81. att (board_arr b) (\<lambda>u. board_arr b u \<noteq> 0 \<and> u \<noteq> ?k) (opp ?us) t to)"
      using king_attacked [OF ok p(2) occ] by blast
    finally show ?thesis
      using safe_after_king_move [OF ok kings pm [unfolded True]] king_variant [OF ok kings pm [unfolded True]] mv True by metis
  next
    case False
    have none: "\<not> att (board_arr b) (occf (board_arr b)) (opp ?us) t ?k" if "t < 81" for t
      using nc that unfolding in_check_iff [OF ok kings] by blast
    have "add_if_legal b m \<longleftrightarrow> ((\<exists>t d n. pins (board_arr b) ?us ?k frm t d n) \<longrightarrow> on_line frm ?k to)"
      unfolding add_if_legal_def Let_def v(1,2) if_P [OF False] Test_pinned [OF ok kings p(1,3,4)] Test_LineBB [OF p(1) king(1) p(2)]
      by blast
    then show ?thesis using safe_after_piece_move [OF ok kings pm mv False] none by blast
  qed
qed

lemma set_two_pushes:
  "x \<in> set ((if P then filter q [y] else []) @ (if R then filter q [z] else [])) \<longleftrightarrow> ((P \<and> x = y) \<or> (R \<and> x = z)) \<and> q x"
  by auto

lemma set_emit_direct:
  assumes ok: "board_ok b" and kings: "kings_ok b" and nc: "\<not> InCheck b (opp (side_to_move b))"
    and w: "bb_ok targets" and t: "\<And>to. to < 81 \<Longrightarrow> bb_Test targets to \<Longrightarrow> piece_move b frm to"
  shows "m \<in> set (emit_direct b frm (piece_GetType (board_arr b frm)) targets) \<longleftrightarrow>
    (\<exists>to<81. bb_Test targets to \<and> move_variant b frm to m \<and> add_if_legal b m \<and>
       reaches (place_moved b m) (\<lambda>u. board_arr b u \<noteq> 0 \<and> u \<noteq> frm) to (enemy_king b))"
proof -
  let ?us = "side_to_move b" let ?k = "enemy_king b" let ?pt = "piece_GetType (board_arr b frm)"
  obtain now promo where s: "exact_direct_sets ?us ?k (occupied b) ?pt frm = (now, promo)" by fastforce
  let ?promo = "if pt_CanPromote ?pt \<and> \<not> sq_InPromotionZone frm ?us then bb_And promo (PromotionZoneBB ?us) else promo"
  let ?w = "bb_Clear (occupied b) frm"
  have k: "?k < 81" using king_facts [OF kings] by simp
  have one: "((bb_Test ?promo to \<and> CanPromote ?pt ?us frm to \<and> m = move_Promotion frm to) \<or>
       (bb_Test now to \<and> \<not> MustPromote ?pt ?us to \<and> m = move_Normal frm to)) \<longleftrightarrow>
     move_variant b frm to m \<and> reaches (place_moved b m) (\<lambda>u. board_arr b u \<noteq> 0 \<and> u \<noteq> frm) to ?k"
    if to: "to < 81" "bb_Test targets to" for to
  proof -
    note pm = t [OF to] and p = piece_move_facts [OF ok kings t [OF to]]
    have pt: "1 \<le> ?pt" "?pt \<le> 14" using piece_ok_type [OF board_okD(1) [OF ok p(1)] p(3)] by simp_all
    note ex = Test_exact_direct_sets [OF s to(1) k pt]
    have wt: "bb_Test ?w u \<longleftrightarrow> board_arr b u \<noteq> 0 \<and> u \<noteq> frm" if "u < 81" for u
      using that p(1) by (auto simp: bb_simps Test_occupied ok)
    have r: "bb_Test (PieceAttacks (piece_GetType (place_moved b m)) ?us to ?w) ?k \<longleftrightarrow>
        reaches (place_moved b m) (\<lambda>u. board_arr b u \<noteq> 0 \<and> u \<noteq> frm) to ?k" if "move_variant b frm to m"
      by (rule reaches_after_iff [OF ok kings nc pm that]) (rule wt)
    have cp: "CanPromote ?pt ?us frm to \<longleftrightarrow> may_promote ?us ?pt frm to" by (rule CanPromote_may [OF p(1,2)])
    have mp: "MustPromote ?pt ?us to \<longleftrightarrow> dead_end ?us ?pt to" by (rule MustPromote_dead_end [OF p(2)])
    have zone: "bb_Test ?promo to \<longleftrightarrow> bb_Test promo to" if "CanPromote ?pt ?us frm to"
      using that to(1) by (auto simp: CanPromote_def Test_And Test_PromotionZoneBB)
    have np: "may_promote ?us ?pt frm to \<Longrightarrow> pt_CanPromote ?pt" by (simp add: may_promote_def)
    show ?thesis
    proof (cases "m = move_Promotion frm to")
      case True
      have n: "\<not> move_is_promotion (move_Normal frm to)" "move_is_promotion (move_Promotion frm to)" using p(1,2) by simp_all
      then have pr: "move_is_promotion m" "m \<noteq> move_Normal frm to" using True by metis+
      have ty: "piece_GetType (place_moved b m) = pt_Promote ?pt" if "move_variant b frm to m"
        using place_moved_variant [OF p(1,2) that ok p(3)] pr(1) by simp
      have mv: "move_variant b frm to m \<longleftrightarrow> may_promote ?us ?pt frm to" using pr True by (simp add: move_variant_def)
      show ?thesis using zone ex(2) np r ty pr True unfolding mv cp by metis
    next
      case False
      show ?thesis
      proof (cases "m = move_Normal frm to")
        case True
        then have pr: "\<not> move_is_promotion m" using p(1,2) by simp
        have ty: "piece_GetType (place_moved b m) = ?pt" if "move_variant b frm to m"
          using place_moved_variant [OF p(1,2) that ok p(3)] pr(1) by simp
        have mv: "move_variant b frm to m \<longleftrightarrow> \<not> dead_end ?us ?pt to" using False True by (simp add: move_variant_def)
        show ?thesis using ex(1) r ty False True unfolding mv mp by metis
      next
        case nn: False
        then show ?thesis using False by (simp add: move_variant_def)
      qed
    qed
  qed
  have nz: "bb_Test (bb_Or now ?promo) to" if "bb_Test ?promo to \<or> bb_Test now to" for to
    using that by (auto simp: Test_Or)
  have "m \<in> set (emit_direct b frm ?pt targets) \<longleftrightarrow>
    (\<exists>to<81. bb_Test targets to \<and> bb_Test (bb_Or now ?promo) to \<and>
      ((((bb_Test ?promo to \<and> CanPromote ?pt ?us frm to) \<and> m = move_Promotion frm to) \<or>
       ((bb_Test now to \<and> \<not> MustPromote ?pt ?us to) \<and> m = move_Normal frm to)) \<and> add_if_legal b m))"
    unfolding emit_direct_def Let_def s prod.case set_concat_map set_bb_squares [OF bb_ok_And1 [OF w]] set_two_pushes
      Test_And mem_Collect_eq bex_simps by blast
  then show ?thesis using one nz by blast
qed

text \<open>A king never gives a direct check: next to the other king it would stand in check itself.\<close>

lemma no_king_direct:
  assumes ok: "board_ok b" and kings: "kings_ok b" and nc: "\<not> InCheck b (side_to_move b)"
    and pm: "piece_move b frm to" and mv: "move_variant b frm to m"
    and ty: "piece_GetType (board_arr b frm) = kKing"
    and r: "reaches (place_moved b m) (\<lambda>u. board_arr b u \<noteq> 0 \<and> u \<noteq> frm) to (enemy_king b)"
  shows "\<not> add_if_legal b m"
proof -
  let ?us = "side_to_move b" let ?k = "enemy_king b"
  note p = piece_move_facts [OF ok kings pm] and king = king_facts [OF kings, of "opp ?us"]
  have "board_arr b frm = piece_Make ?us kKing" using king_piece_iff [OF board_okD(1) [OF ok p(1)] p(3)] p(4) ty by simp
  then have frm: "frm = mover_king b" using board_okD(6) [OF ok p(1)] by blast
  have m: "m = move_Normal frm to" using king_variant [OF ok kings] pm mv frm by blast
  have "place_moved b m = board_arr b frm" using p(1,2) by (simp add: m place_moved_def)
  then have "bb_Test (KingEffectBB to) ?k"
    using r ty by (auto simp: reaches_def slides_def steps_at_def StepAttacks_def piece_type_defs)
  then have "bb_Test (KingEffectBB ?k) to" using step_symmetric(5) [OF king(1) p(2)] by simp
  then have "att (board_arr b) (\<lambda>u. board_arr b u \<noteq> 0 \<and> u \<noteq> mover_king b) (opp ?us) ?k to"
    using king by (simp add: att_def reaches_def steps_at_def StepAttacks_def piece_type_defs)
  then have "InCheck (after_move b m) ?us"
    using safe_after_king_move [OF ok kings pm [unfolded frm]] king(1) m frm by blast
  then show ?thesis using add_if_legal_iff [OF ok kings nc pm mv] by simp
qed

lemma set_discovered_checks:
  assumes ok: "board_ok b" and kings: "kings_ok b" and nc: "\<not> InCheck b (opp (side_to_move b))"
  shows "m \<in> set (discovered_checks b) \<longleftrightarrow>
    (\<exists>frm to. bb_Test (our_blockers b) frm \<and> piece_move b frm to \<and> move_variant b frm to m \<and> add_if_legal b m \<and>
      (\<not> on_line (enemy_king b) frm to \<or> (bb_Test (direct_candidates b) frm \<and>
         reaches (place_moved b m) (\<lambda>u. board_arr b u \<noteq> 0 \<and> u \<noteq> frm) to (enemy_king b) \<and> on_line (enemy_king b) frm to)))"
proof -
  let ?us = "side_to_move b" let ?k = "enemy_king b"
  let ?t = "\<lambda>frm. bb_And (PieceAttacks (piece_GetType (board_arr b frm)) ?us frm (occupied b)) (bb_Not (own b))"
  let ?R = "\<lambda>frm to. reaches (place_moved b m) (\<lambda>u. board_arr b u \<noteq> 0 \<and> u \<noteq> frm) to ?k"
  have k: "?k < 81" using king_facts [OF kings] by simp
  have wf: "bb_ok (our_blockers b)"
    using board_okD(2) [OF ok] by (simp add: our_blockers_def own_def bb_ok_And2)
  have t: "bb_ok (?t frm)" if "frm < 81" for frm using that by (simp add: bb_ok_And1)
  have own: "board_arr b frm \<noteq> 0" "piece_GetColor (board_arr b frm) = ?us" if "bb_Test (our_blockers b) frm" "frm < 81" for frm
    using that Test_our_blockers [OF ok kings that(2)] by (auto simp: pins_def)
  have off: "m \<in> set (concat (map (add_discovered_variants b frm (piece_GetType (board_arr b frm)))
        (bb_squares (bb_And (?t frm) (bb_Not (LineBB ?k frm)))))) \<longleftrightarrow>
      (\<exists>to. piece_move b frm to \<and> \<not> on_line ?k frm to \<and> move_variant b frm to m \<and> add_if_legal b m)"
    if f: "bb_Test (our_blockers b) frm" "frm < 81" for frm
  proof -
    have ti: "bb_Test (?t frm) to \<longleftrightarrow> piece_move b frm to" if "to < 81" for to by (rule target_iff [OF ok f(2) own [OF f] that])
    have "to < 81 \<and> bb_Test (bb_And (?t frm) (bb_Not (LineBB ?k frm))) to \<longleftrightarrow> piece_move b frm to \<and> \<not> on_line ?k frm to" for to
      using ti Test_LineBB [OF k f(2), of to] Test_Not [of to] unfolding Test_And [of "?t frm"] piece_move_def by blast
    moreover have "m \<in> set (add_discovered_variants b frm (piece_GetType (board_arr b frm)) to) \<longleftrightarrow>
        move_variant b frm to m \<and> add_if_legal b m" if "to < 81" for to
      using set_board_variants [OF f(2) that] by (auto simp: add_discovered_variants_def)
    ultimately show ?thesis
      unfolding set_concat_map set_bb_squares [OF bb_ok_And1 [OF t [OF f(2)]]] by blast
  qed
  have on: "m \<in> set (emit_direct b frm (piece_GetType (board_arr b frm)) (bb_And (?t frm) (LineBB ?k frm))) \<longleftrightarrow>
      (\<exists>to. piece_move b frm to \<and> on_line ?k frm to \<and> move_variant b frm to m \<and> add_if_legal b m \<and> ?R frm to)"
    if f: "bb_Test (our_blockers b) frm" "frm < 81" for frm
  proof -
    have ti: "bb_Test (?t frm) to \<longleftrightarrow> piece_move b frm to" if "to < 81" for to by (rule target_iff [OF ok f(2) own [OF f] that])
    have tl: "to < 81 \<and> bb_Test (bb_And (?t frm) (LineBB ?k frm)) to \<longleftrightarrow> piece_move b frm to \<and> on_line ?k frm to" for to
      using ti Test_LineBB [OF k f(2), of to] unfolding Test_And [of "?t frm"] piece_move_def by blast
    show ?thesis
      using tl by (subst set_emit_direct [OF ok kings nc bb_ok_And1 [OF t [OF f(2)]]]) blast+
  qed
  have "m \<in> set (discovered_checks b) \<longleftrightarrow> (\<exists>frm. (frm < 81 \<and> bb_Test (our_blockers b) frm) \<and>
      ((\<exists>to. piece_move b frm to \<and> \<not> on_line ?k frm to \<and> move_variant b frm to m \<and> add_if_legal b m) \<or>
       (bb_Test (direct_candidates b) frm \<and>
        (\<exists>to. piece_move b frm to \<and> on_line ?k frm to \<and> move_variant b frm to m \<and> add_if_legal b m \<and> ?R frm to))))"
  proof -
    have *: "m \<in> set (xs @ (if c then ys else [])) \<longleftrightarrow> m \<in> set xs \<or> (c \<and> m \<in> set ys)" for xs ys c by simp
    show ?thesis
      unfolding discovered_checks_def Let_def set_concat_map [of m] set_bb_squares [OF wf] piece_on_def *
      using off on unfolding set_concat_map by blast
  qed
  then show ?thesis unfolding piece_move_def by blast
qed

lemma set_direct_checks:
  assumes ok: "board_ok b" and kings: "kings_ok b" and nc: "\<not> InCheck b (opp (side_to_move b))"
  shows "m \<in> set (direct_checks b) \<longleftrightarrow>
    (\<exists>frm to. bb_Test (direct_candidates b) frm \<and> \<not> bb_Test (our_blockers b) frm \<and> piece_move b frm to \<and>
       move_variant b frm to m \<and> add_if_legal b m \<and>
       reaches (place_moved b m) (\<lambda>u. board_arr b u \<noteq> 0 \<and> u \<noteq> frm) to (enemy_king b))"
proof -
  let ?us = "side_to_move b" let ?k = "enemy_king b"
  let ?t = "\<lambda>frm. bb_And (PieceAttacks (piece_GetType (board_arr b frm)) ?us frm (occupied b)) (bb_Not (own b))"
  have wf: "bb_ok (bb_And (direct_candidates b) (bb_Not (our_blockers b)))" by (simp add: bb_ok_And2 bb_ok_Not)
  have em: "m \<in> set (emit_direct b frm (piece_GetType (board_arr b frm)) (?t frm)) \<longleftrightarrow>
      (\<exists>to. piece_move b frm to \<and> move_variant b frm to m \<and> add_if_legal b m \<and>
         reaches (place_moved b m) (\<lambda>u. board_arr b u \<noteq> 0 \<and> u \<noteq> frm) to ?k)"
    if f: "bb_Test (direct_candidates b) frm" "frm < 81" for frm
  proof -
    have t: "bb_ok (?t frm)" using f(2) by (simp add: bb_ok_And1)
    have ti: "bb_Test (?t frm) to \<longleftrightarrow> piece_move b frm to" if "to < 81" for to
      by (rule target_iff [OF ok f(2) candidate_own [OF ok f(2,1)] that])
    have lt: "piece_move b frm to \<Longrightarrow> to < 81" for to by (simp add: piece_move_def)
    show ?thesis using ti lt by (subst set_emit_direct [OF ok kings nc t]) blast+
  qed
  have cand: "frm < 81 \<and> bb_Test (bb_And (direct_candidates b) (bb_Not (our_blockers b))) frm \<longleftrightarrow>
      frm < 81 \<and> bb_Test (direct_candidates b) frm \<and> \<not> bb_Test (our_blockers b) frm" for frm
    by (auto simp: bb_simps)
  have "m \<in> set (direct_checks b) \<longleftrightarrow> (\<exists>frm. (frm < 81 \<and> bb_Test (direct_candidates b) frm \<and> \<not> bb_Test (our_blockers b) frm) \<and>
      m \<in> set (emit_direct b frm (piece_GetType (board_arr b frm)) (?t frm)))"
    unfolding direct_checks_def Let_def set_concat_map set_bb_squares [OF wf] piece_on_def mem_Collect_eq bex_simps
    using cand by blast
  then show ?thesis using em unfolding piece_move_def by blast
qed

subsection \<open>Checking drops\<close>

lemma Test_last_ranks:
  "t < 81 \<Longrightarrow> bb_Test (last_rank c) t \<longleftrightarrow> rank_ahead c t = 0"
  "t < 81 \<Longrightarrow> bb_Test (last_two c) t \<longleftrightarrow> rank_ahead c t \<le> 1"
  using sq_rank_le [of t] by (auto simp: last_rank_def last_two_def rank_ahead_def Test_Or Test_RankBB)

lemma Test_pawn_files:
  assumes "board_ok b" "t < 81"
  shows "bb_Test (pawn_files b) t \<longleftrightarrow>
    (\<exists>s<81. board_arr b s = piece_Make (side_to_move b) kPawn \<and> sq_file s = sq_file t)"
proof -
  have "bb_Test (fold (\<lambda>s acc. bb_Or acc (FileBB (sq_file s))) ss acc) t \<longleftrightarrow>
      bb_Test acc t \<or> (\<exists>s\<in>set ss. sq_file s = sq_file t)" if "\<forall>s\<in>set ss. s < 81" for ss acc
    using that assms(2) by (induction ss arbitrary: acc) (auto simp: Test_Or Test_FileBB sq_file_def)
  from this [of "bb_squares (pieces_ct b (side_to_move b) kPawn)" bb_Zero] show ?thesis
    using assms(1) by (auto simp: pawn_files_def set_bb_squares bb_ok_pieces Test_pieces_ct kPawn_def)
qed

lemma Test_drop_targets:
  assumes "board_ok b" "to < 81" "pt_IsHandPiece pt"
  shows "bb_Test (drop_targets b pt) to \<and> hand_Has (hands b (side_to_move b)) pt \<longleftrightarrow> rule_drop b pt to"
  using assms
  by (auto simp: drop_targets_def Let_def rule_drop_def dead_end_def Test_AndNot Test_Not Test_Or Test_occupied
      Test_last_ranks Test_pawn_files hand_Has_iff piece_type_defs)

text \<open>The zone given for each piece kind holds the squares from which it attacks the king.\<close>

lemma set_add_drop_checks:
  assumes ok: "board_ok b" and pt: "pt_IsHandPiece pt" and z: "bb_ok zone"
    and zone: "\<And>s. s < 81 \<Longrightarrow> bb_Test zone s \<longleftrightarrow> bb_Test (PieceAttacks pt (side_to_move b) s (occupied b)) (enemy_king b)"
  shows "m \<in> set (if hand_Has (hands b (side_to_move b)) pt then add_drop_checks b pt zone else []) \<longleftrightarrow>
    (\<exists>to. m = move_Drop pt to \<and> rule_drop b pt to \<and> \<not> pawn_drop_mate HasLegalEvasion b m \<and>
       bb_Test (PieceAttacks pt (side_to_move b) to (occupied b)) (enemy_king b))"
proof -
  let ?us = "side_to_move b"
  have lt: "rule_drop b pt to \<Longrightarrow> to < 81" for to by (simp add: rule_drop_def)
  have il: "IsLegal b (move_Drop pt to) pinned \<longleftrightarrow> \<not> pawn_drop_mate HasLegalEvasion b (move_Drop pt to)"
    if "rule_drop b pt to" for to pinned
    using drop_fields(3) [OF that] by (simp add: IsLegal_def IsLegal_with_def Let_def)
  have "m \<in> set (if hand_Has (hands b ?us) pt then add_drop_checks b pt zone else []) \<longleftrightarrow>
    (\<exists>to<81. (bb_Test (drop_targets b pt) to \<and> hand_Has (hands b ?us) pt) \<and> bb_Test zone to \<and> m = move_Drop pt to \<and>
       IsLegal b m (bb_And (ComputeBlockersForKing b ?us) (own b)))"
    by (auto simp: add_drop_checks_def Let_def set_bb_squares [OF bb_ok_And2 [OF z]] Test_And)
  then show ?thesis using Test_drop_targets [OF ok _ pt] zone il lt by blast
qed

lemma PieceAttacks_hand:
  "PieceAttacks kPawn c s occ = PawnEffectBB s c" "PieceAttacks kLance c s occ = LanceEffect c s occ"
  "PieceAttacks kKnight c s occ = KnightEffectBB s c" "PieceAttacks kSilver c s occ = SilverEffectBB s c"
  "PieceAttacks kGold c s occ = GoldEffectBB s c" "PieceAttacks kBishop c s occ = BishopEffect s occ"
  "PieceAttacks kRook c s occ = RookEffect s occ"
  by (simp_all add: PieceAttacks_def piece_type_defs)

lemma set_drop_checks:
  assumes ok: "board_ok b" and kings: "kings_ok b"
  shows "m \<in> set (drop_checks b) \<longleftrightarrow>
    (\<exists>pt to. m = move_Drop pt to \<and> rule_drop b pt to \<and> \<not> pawn_drop_mate HasLegalEvasion b m \<and>
       bb_Test (PieceAttacks pt (side_to_move b) to (occupied b)) (enemy_king b))"
proof -
  let ?us = "side_to_move b" let ?k = "enemy_king b"
  have k: "?k < 81" using king_facts [OF kings] by simp
  note tabs = PawnCheckBB_def KnightCheckBB_def SilverCheckBB_def GoldCheckBB_def
  note sym = LanceEffect_symmetric [OF _ k] BishopEffect_symmetric [OF _ k] RookEffect_symmetric [OF _ k]
  let ?P = "\<lambda>pt. \<exists>to. m = move_Drop pt to \<and> rule_drop b pt to \<and> \<not> pawn_drop_mate HasLegalEvasion b m \<and>
       bb_Test (PieceAttacks pt ?us to (occupied b)) ?k"
  have hp: "pt_IsHandPiece kPawn" "pt_IsHandPiece kLance" "pt_IsHandPiece kKnight" "pt_IsHandPiece kSilver"
    "pt_IsHandPiece kGold" "pt_IsHandPiece kBishop" "pt_IsHandPiece kRook"
    by (simp_all add: pt_IsHandPiece_def piece_type_defs)
  note s = set_add_drop_checks [OF ok]
  have z1: "m \<in> set (if hand_Has (hands b ?us) kPawn then add_drop_checks b kPawn (PawnCheckBB ?k ?us) else []) \<longleftrightarrow> ?P kPawn"
    by (rule s [OF hp(1)], simp add: tabs, simp only: tabs Test_direct_table PieceAttacks_hand)
  have z2: "m \<in> set (if hand_Has (hands b ?us) kLance then add_drop_checks b kLance (LanceEffect (opp ?us) ?k (occupied b)) else []) \<longleftrightarrow> ?P kLance"
    by (rule s [OF hp(2)], simp add: k, simp only: PieceAttacks_hand sym(1))
  have z3: "m \<in> set (if hand_Has (hands b ?us) kKnight then add_drop_checks b kKnight (KnightCheckBB ?k ?us) else []) \<longleftrightarrow> ?P kKnight"
    by (rule s [OF hp(3)], simp add: tabs, simp only: tabs Test_direct_table PieceAttacks_hand)
  have z4: "m \<in> set (if hand_Has (hands b ?us) kSilver then add_drop_checks b kSilver (SilverCheckBB ?k ?us) else []) \<longleftrightarrow> ?P kSilver"
    by (rule s [OF hp(4)], simp add: tabs, simp only: tabs Test_direct_table PieceAttacks_hand)
  have z5: "m \<in> set (if hand_Has (hands b ?us) kGold then add_drop_checks b kGold (GoldCheckBB ?k ?us) else []) \<longleftrightarrow> ?P kGold"
    by (rule s [OF hp(5)], simp add: tabs, simp only: tabs Test_direct_table PieceAttacks_hand)
  have z6: "m \<in> set (if hand_Has (hands b ?us) kBishop then add_drop_checks b kBishop (BishopEffect ?k (occupied b)) else []) \<longleftrightarrow> ?P kBishop"
    by (rule s [OF hp(6)], simp add: k, simp only: PieceAttacks_hand sym(2))
  have z7: "m \<in> set (if hand_Has (hands b ?us) kRook then add_drop_checks b kRook (RookEffect ?k (occupied b)) else []) \<longleftrightarrow> ?P kRook"
    by (rule s [OF hp(7)], simp add: k, simp only: PieceAttacks_hand sym(3))
  have "pt_IsHandPiece pt \<longleftrightarrow> pt \<in> {kPawn, kLance, kKnight, kSilver, kGold, kBishop, kRook}" for pt
    unfolding pt_IsHandPiece_def piece_type_defs insert_iff empty_iff by presburger
  then have "?P pt \<Longrightarrow> pt \<in> {kPawn, kLance, kKnight, kSilver, kGold, kBishop, kRook}" for pt
    unfolding rule_drop_def by blast
  then have "(\<exists>pt. ?P pt) \<longleftrightarrow> ?P kPawn \<or> ?P kLance \<or> ?P kKnight \<or> ?P kSilver \<or> ?P kGold \<or> ?P kBishop \<or> ?P kRook"
    by blast
  then show ?thesis unfolding drop_checks_def Let_def set_append Un_iff z1 z2 z3 z4 z5 z6 z7 by blast
qed

subsection \<open>The generators agree\<close>

lemma set_checking_moves_noncheck:
  assumes ok: "board_ok b" and kings: "kings_ok b" and nc: "\<not> InCheck b (opp (side_to_move b))"
    and us: "\<not> InCheck b (side_to_move b)"
  shows "m \<in> set (GenerateCheckingMovesNonCheck b) \<longleftrightarrow>
    m \<in> set (GenerateLegalMoves b) \<and> InCheck (after_move b m) (opp (side_to_move b))"
proof -
  let ?k = "enemy_king b"
  let ?D = "\<lambda>frm to. reaches (place_moved b m) (\<lambda>u. board_arr b u \<noteq> 0 \<and> u \<noteq> frm) to ?k"
  let ?P = "\<lambda>frm. bb_Test (our_blockers b) frm" and ?C = "\<lambda>frm. bb_Test (direct_candidates b) frm"
  have chk: "InCheck (after_move b m) (opp (side_to_move b)) \<longleftrightarrow> ?D frm to \<or> (?P frm \<and> \<not> on_line ?k frm to)"
    if "piece_move b frm to" "move_variant b frm to m" for frm to
    using check_by_piece_move [OF ok kings nc that] Test_our_blockers [OF ok kings] piece_move_facts(1,4) [OF ok kings that(1)] by blast
  have cand: "?C frm" if "piece_move b frm to" "move_variant b frm to m" "add_if_legal b m" "?D frm to" for frm to
    using direct_candidate_complete [OF ok kings nc that(1,2) _ that(4)] no_king_direct [OF ok kings us that(1,2) _ that(4)] that(3)
    by blast
  have "m \<in> set (discovered_checks b @ direct_checks b) \<longleftrightarrow>
    (\<exists>frm to. piece_move b frm to \<and> move_variant b frm to m \<and> add_if_legal b m \<and> (?D frm to \<or> (?P frm \<and> \<not> on_line ?k frm to)))"
    unfolding set_append Un_iff set_discovered_checks [OF ok kings nc] set_direct_checks [OF ok kings nc] using cand by blast
  also have "\<dots> \<longleftrightarrow> (\<exists>frm to. piece_move b frm to \<and> move_variant b frm to m) \<and>
      \<not> InCheck (after_move b m) (side_to_move b) \<and> InCheck (after_move b m) (opp (side_to_move b))"
    using chk add_if_legal_iff [OF ok kings us] by blast
  finally have boards: "m \<in> set (discovered_checks b @ direct_checks b) \<longleftrightarrow> \<dots>" .
  have mate: "\<not> pawn_drop_mate HasLegalEvasion b m \<or> \<not> move_is_drop m \<longleftrightarrow> (move_is_drop m \<longrightarrow> \<not> pawn_drop_mate HasLegalEvasion b m)"
    by blast
  have kind: "\<not> move_is_drop m" if "piece_move b frm to" "move_variant b frm to m" for frm to
    using variant_fields(3) piece_move_facts(1,2) [OF ok kings that(1)] that(2) by blast
  have none: "\<not> att (board_arr b) (occf (board_arr b)) (opp (side_to_move b)) t (mover_king b)" if "t < 81" for t
    using us that unfolding in_check_iff [OF ok kings] by blast
  have dr: "\<not> InCheck (after_move b m) (side_to_move b)" "move_is_drop m"
    "InCheck (after_move b m) (opp (side_to_move b)) \<longleftrightarrow> bb_Test (PieceAttacks pt (side_to_move b) to (occupied b)) ?k"
    if m: "m = move_Drop pt to" and rd: "rule_drop b pt to" for pt to
  proof -
    have r: "1 \<le> pt" "pt \<le> 14" "to < 81" using rd by (auto simp: rule_drop_def pt_IsHandPiece_def)
    show "\<not> InCheck (after_move b m) (side_to_move b)" unfolding m safe_after_drop [OF ok kings rd] using none by blast
    show "move_is_drop m" unfolding m by (rule drop_fields(3) [OF rd])
    have "reaches (piece_Make (side_to_move b) pt) (bb_Test (occupied b)) to ?k \<longleftrightarrow>
        reaches (piece_Make (side_to_move b) pt) (occf (board_arr b)) to ?k"
      by (rule reaches_cong) (simp add: Test_occupied ok)
    then show "InCheck (after_move b m) (opp (side_to_move b)) \<longleftrightarrow> bb_Test (PieceAttacks pt (side_to_move b) to (occupied b)) ?k"
      unfolding m check_by_drop [OF ok kings nc rd]
      using reaches_PieceAttacks [of "piece_Make (side_to_move b) pt" ?k to "occupied b"] r king_facts(1) [OF kings] by simp
  qed
  have drops: "m \<in> set (drop_checks b) \<longleftrightarrow> (\<exists>pt to. m = move_Drop pt to \<and> rule_drop b pt to) \<and>
      \<not> InCheck (after_move b m) (side_to_move b) \<and> (move_is_drop m \<longrightarrow> \<not> pawn_drop_mate HasLegalEvasion b m) \<and>
      InCheck (after_move b m) (opp (side_to_move b))"
    unfolding set_drop_checks [OF ok kings] using dr by blast
  show ?thesis
    unfolding GenerateCheckingMovesNonCheck_def append_assoc [symmetric] set_append [of "_ @ _"] Un_iff boards drops
      set_legal_moves [OF ok kings] rule_move_def
    using kind by blast
qed

lemma set_checking_moves_filter:
  assumes "board_ok b" "kings_ok b" "\<not> InCheck b (opp (side_to_move b))"
  shows "m \<in> set (GenerateCheckingMovesViaFilter b) \<longleftrightarrow>
    m \<in> set (GenerateLegalMoves b) \<and> InCheck (after_move b m) (opp (side_to_move b))"
  using filter_gives_check_iff [OF assms] set_legal_moves [OF assms(1,2)]
  by (auto simp: GenerateCheckingMovesViaFilter_def)

text \<open>C3: the checking-move generator, built on candidate tables, destination zones and discovered
  checks, lists exactly the legal moves after which the opponent is in check, and so agrees with
  the reference generator that filters all legal moves.\<close>

theorem checking_moves_correct:
  assumes "lawful b"
  shows "(m \<in> set (GenerateCheckingMoves b) \<longleftrightarrow>
      m \<in> set (GenerateLegalMoves b) \<and> InCheck (after_move b m) (opp (side_to_move b))) \<and>
    set (GenerateCheckingMoves b) = set (GenerateCheckingMovesViaFilter b)"
proof -
  have ok: "board_ok b" "kings_ok b" "\<not> InCheck b (opp (side_to_move b))" using assms by (simp_all add: lawful_def)
  note f = set_checking_moves_filter [OF ok] and n = set_checking_moves_noncheck [OF ok]
  show ?thesis
  proof (cases "InCheck b (side_to_move b)")
    case True
    then show ?thesis using f by (simp add: GenerateCheckingMoves_def)
  next
    case False
    then have "GenerateCheckingMoves b = GenerateCheckingMovesNonCheck b" by (simp add: GenerateCheckingMoves_def)
    then show ?thesis using n [OF False] f by (metis set_eqI)
  qed
qed

text \<open>The rook on 8b comes to 8e, facing the white king along its file.\<close>

theorem checking_moves_correct_witness:
  "move_Normal 16 43 \<in> set (GenerateCheckingMoves sample_position)"
proof -
  have ok: "board_ok sample_position" "kings_ok sample_position" "\<not> InCheck sample_position WHITE"
    and sel: "side_to_move sample_position = BLACK" "king_sq sample_position WHITE = 36"
      "board_arr sample_position = board_arr sample_board"
    using sample_position_lawful by (simp_all add: lawful_def sample_position_def ComputeHash_def sample_board_sel)
  have l: "move_Normal 16 43 \<in> set (GenerateLegalMoves sample_position)" "piece_move sample_position 16 43"
    using sample_position_legal [of 3] by simp_all
  have v: "move_variant sample_position 16 43 (move_Normal 16 43)"
    by (simp add: move_variant_def dead_end_def sel sample_board_arr piece_GetType_mod piece_type_defs)
  have "reaches 6 (\<lambda>u. board_arr sample_board u \<noteq> 0 \<and> u \<noteq> 16) 43 36"
    unfolding reaches_def
  proof (intro disjI2 exI conjI)
    show "unit_dir (0, 1)" by (simp add: unit_dir_def)
    show "slides 6 (0, 1)" by (simp add: slides_def piece_GetType_mod piece_type_defs rook_dirs_def)
    show "1 \<le> (7::nat)" by simp
    show "steps_to 36 (0, 1) 7 43" by (simp add: steps_to_def sq_file_def sq_rank_def)
    show "clear_between (\<lambda>u. board_arr sample_board u \<noteq> 0 \<and> u \<noteq> 16) 36 (0, 1) 7"
      by (auto simp: clear_between_def steps_to_def sq_file_def sq_rank_def sample_board_arr)
  qed
  then have "InCheck (after_move sample_position (move_Normal 16 43)) WHITE"
    using check_by_piece_move [OF ok(1,2) _ l(2) [unfolded sel] v] ok(3) sel
    by (simp add: place_moved_def sample_board_arr)
  then show ?thesis
    using conjunct1 [OF checking_moves_correct [OF sample_position_lawful, of "move_Normal 16 43"]] l(1) sel by simp
qed

end
