(* ===== verification/Ybb.thy ===== *)
theory Ybb
  imports Prelude "HOL-Library.Monad_Syntax"
begin

text \<open>
  The YaneuraOu binary book format of book/ybb_format.h: little-endian fields, the index and
  move records with their byte layout, the header, and the size of the index computed without
  wrap-around.  Bytes are lists of 8-bit words; a pointer into an array is the list from there.
\<close>

record ybb_index_entry =
  entry_sfen :: "u8 list"
  moves_offset :: u64
  entry_ply :: u16
  move_count :: u16

text \<open>The evaluation is an \<open>int16_t\<close>; its 16 bits are kept and read with \<open>sint\<close>.\<close>

record ybb_move_record =
  rec_move :: u16
  rec_eval :: u16
  rec_depth :: u16

definition kYbbMagic :: "u8 list" where
  "kYbbMagic = map (\<lambda>c. of_nat (of_char c)) ''YANE-BINBOOK-V1'' @ [0]"

definition kYbbHeaderSize :: u64 where "kYbbHeaderSize = 32"
definition kYbbIndexRecordSize :: u64 where "kYbbIndexRecordSize = 44"
definition kYbbFlagMoveDepth :: u64 where "kYbbFlagMoveDepth = 1"
definition kYbbKnownFlags :: u64 where "kYbbKnownFlags = kYbbFlagMoveDepth"

definition ReadLe16 :: "u8 list \<Rightarrow> u16" where
  "ReadLe16 bs = ucast (bs ! 0) OR push_bit 8 (ucast (bs ! 1))"

definition ReadLe64 :: "u8 list \<Rightarrow> u64" where
  "ReadLe64 bs = fold (\<lambda>i value. push_bit 8 value OR ucast (bs ! i)) (rev [0..<8]) 0"

definition StoreLe16 :: "u16 \<Rightarrow> u8 list" where
  "StoreLe16 value = [ucast (value AND 0xff), ucast (drop_bit 8 value AND 0xff)]"

fun store_bytes :: "nat \<Rightarrow> u64 \<Rightarrow> u8 list" where
  "store_bytes 0 value = []"
| "store_bytes (Suc n) value = ucast (value AND 0xff) # store_bytes n (drop_bit 8 value)"

definition StoreLe64 :: "u64 \<Rightarrow> u8 list" where
  "StoreLe64 value = store_bytes 8 value"

definition YbbMoveRecordSize :: "u64 \<Rightarrow> u64" where
  "YbbMoveRecordSize flags = (if flags AND kYbbFlagMoveDepth \<noteq> 0 then 6 else 4)"

definition YbbIndexSize :: "u64 \<Rightarrow> u64 option" where
  "YbbIndexSize record_count =
     (if record_count > (- 1 - kYbbHeaderSize) div kYbbIndexRecordSize then None
      else Some (kYbbHeaderSize + record_count * kYbbIndexRecordSize))"

definition DecodeYbbIndexEntry :: "u8 list \<Rightarrow> ybb_index_entry" where
  "DecodeYbbIndexEntry bs =
     \<lparr>entry_sfen = take 32 bs, moves_offset = ReadLe64 (drop 32 bs),
      entry_ply = ReadLe16 (drop 40 bs), move_count = ReadLe16 (drop 42 bs)\<rparr>"

definition EncodeYbbIndexEntry :: "ybb_index_entry \<Rightarrow> u8 list" where
  "EncodeYbbIndexEntry e =
     entry_sfen e @ StoreLe64 (moves_offset e) @ StoreLe16 (entry_ply e) @ StoreLe16 (move_count e)"

definition DecodeYbbMoveRecord :: "u8 list \<Rightarrow> u64 \<Rightarrow> ybb_move_record" where
  "DecodeYbbMoveRecord bs flags =
     \<lparr>rec_move = ReadLe16 bs, rec_eval = ReadLe16 (drop 2 bs),
      rec_depth = (if flags AND kYbbFlagMoveDepth \<noteq> 0 then ReadLe16 (drop 4 bs) else 0)\<rparr>"

definition EncodeYbbMoveRecord :: "ybb_move_record \<Rightarrow> u8 list" where
  "EncodeYbbMoveRecord m = StoreLe16 (rec_move m) @ StoreLe16 (rec_eval m) @ StoreLe16 (rec_depth m)"

text \<open>The 32 bytes written to the output stream.\<close>

definition YbbHeader :: "u64 \<Rightarrow> u64 \<Rightarrow> u8 list" where
  "YbbHeader record_count flags = kYbbMagic @ StoreLe64 record_count @ StoreLe64 flags"

subsection \<open>Round trips\<close>

lemma length_store [simp]:
  "length (StoreLe16 v) = 2" "length (store_bytes n w) = n" "length (StoreLe64 w) = 8"
proof -
  show "length (store_bytes n w) = n" for n by (induction n arbitrary: w) simp_all
  then show "length (StoreLe64 w) = 8" by (simp add: StoreLe64_def)
qed (simp add: StoreLe16_def)

lemma bit_255: "bit (0xff :: int) n \<longleftrightarrow> n < 8"
proof -
  have m: "(0xff :: int) = mask 8" by (simp add: mask_eq_exp_minus_1)
  show ?thesis unfolding m bit_mask_iff by (auto simp: possible_bit_def)
qed

lemma ReadLe16_StoreLe16 [simp]: "ReadLe16 (StoreLe16 v @ rest) = v" "ReadLe16 (StoreLe16 v) = v"
proof -
  have "ReadLe16 (a # b # rest) = ucast a OR push_bit 8 (ucast b)" for a b rest by (simp add: ReadLe16_def)
  moreover have "ucast (ucast (v AND 0xff) :: u8) OR push_bit 8 (ucast (ucast (drop_bit 8 v AND 0xff) :: u8)) = v"
    by (rule bit_word_eqI) (auto simp: bit_simps bit_255 not_less dest!: le_Suc_ex)
  ultimately show "ReadLe16 (StoreLe16 v @ rest) = v" "ReadLe16 (StoreLe16 v) = v" by (simp_all add: StoreLe16_def)
qed

lemma store_bytes_nth: "i < n \<Longrightarrow> store_bytes n v ! i = ucast (drop_bit (8 * i) v)"
proof (induction n arbitrary: v i)
  case (Suc n)
  have "(ucast (v AND 0xff) :: u8) = ucast v"
    by (rule bit_word_eqI) (auto simp: bit_simps bit_255)
  then show ?case using Suc by (cases i) (auto simp: drop_bit_drop_bit add_ac)
qed simp

lemma ReadLe64_StoreLe64 [simp]: "ReadLe64 (StoreLe64 v @ rest) = v" "ReadLe64 (StoreLe64 v) = v"
proof -
  have f: "fold (\<lambda>i value. push_bit 8 value OR ucast (bs ! i)) (rev [0..<k]) (drop_bit (8 * k) v) = v"
    if "\<And>i. i < k \<Longrightarrow> bs ! i = (ucast (drop_bit (8 * i) v) :: u8)" for k and bs :: "u8 list"
    using that
  proof (induction k)
    case (Suc k)
    have "push_bit 8 (drop_bit (8 * Suc k) v) OR ucast (ucast (drop_bit (8 * k) v) :: u8) = drop_bit (8 * k) v"
      by (rule bit_word_eqI) (auto simp: bit_simps not_less algebra_simps dest!: le_Suc_ex)
    then show ?case using Suc by simp
  qed simp
  have z: "drop_bit 64 v = 0" by (rule bit_word_eqI) (simp add: bit_simps)
  have "ReadLe64 bs = v" if "\<And>i. i < 8 \<Longrightarrow> bs ! i = (ucast (drop_bit (8 * i) v) :: u8)" for bs
    using f [of 8 bs] that z by (simp add: ReadLe64_def del: upt_Suc)
  then show "ReadLe64 (StoreLe64 v @ rest) = v" "ReadLe64 (StoreLe64 v) = v"
    by (simp_all add: StoreLe64_def store_bytes_nth nth_append)
qed

lemma EncodeYbbIndexEntry_length: "length (entry_sfen e) = 32 \<Longrightarrow> length (EncodeYbbIndexEntry e) = 44"
  by (simp add: EncodeYbbIndexEntry_def)

lemma DecodeYbbIndexEntry_Encode:
  "length (entry_sfen e) = 32 \<Longrightarrow> DecodeYbbIndexEntry (EncodeYbbIndexEntry e) = e"
  by (cases e) (simp add: DecodeYbbIndexEntry_def EncodeYbbIndexEntry_def drop_append)

lemma unat_record_size: "unat (YbbMoveRecordSize flags) = (if flags AND kYbbFlagMoveDepth \<noteq> 0 then 6 else 4)"
  by (simp add: YbbMoveRecordSize_def)

text \<open>An index record reads back from its 44 bytes, and a move record from its first six
  bytes or, without the depth flag, from its first four with the depth dropped.\<close>

theorem ybb_records_round_trip:
  "(length (entry_sfen e) = 32 \<longrightarrow> length (EncodeYbbIndexEntry e) = 44 \<and>
      DecodeYbbIndexEntry (EncodeYbbIndexEntry e) = e) \<and>
   DecodeYbbMoveRecord (take (unat (YbbMoveRecordSize flags)) (EncodeYbbMoveRecord m)) flags =
      (if flags AND kYbbFlagMoveDepth \<noteq> 0 then m else m\<lparr>rec_depth := 0\<rparr>)"
  by (cases m) (simp add: EncodeYbbIndexEntry_length DecodeYbbIndexEntry_Encode unat_record_size
      DecodeYbbMoveRecord_def EncodeYbbMoveRecord_def)

theorem ybb_records_round_trip_witness:
  "DecodeYbbIndexEntry (EncodeYbbIndexEntry
     \<lparr>entry_sfen = replicate 32 7, moves_offset = 12, entry_ply = 1, move_count = 3\<rparr>) =
     \<lparr>entry_sfen = replicate 32 7, moves_offset = 12, entry_ply = 1, move_count = 3\<rparr>"
  using ybb_records_round_trip [of "\<lparr>entry_sfen = replicate 32 7, moves_offset = 12, entry_ply = 1, move_count = 3\<rparr>" 1
      "\<lparr>rec_move = 0, rec_eval = 0, rec_depth = 0\<rparr>"] by simp

text \<open>The guard of \<open>YbbIndexSize\<close> is exactly the absence of wrap-around: it fails when the
  index does not fit 64 bits and otherwise gives its true size.\<close>

theorem YbbIndexSize_correct:
  "(case YbbIndexSize n of
      None \<Rightarrow> 2 ^ 64 \<le> 32 + 44 * unat n
    | Some sz \<Rightarrow> unat sz = 32 + 44 * unat n)"
proof -
  have lim: "unat ((- 1 - kYbbHeaderSize) div kYbbIndexRecordSize :: u64) = (2 ^ 64 - 33) div 44"
    by (simp add: kYbbHeaderSize_def kYbbIndexRecordSize_def unat_div)
  show ?thesis
  proof (cases "n > (- 1 - kYbbHeaderSize) div kYbbIndexRecordSize")
    case True
    then have "(2 ^ 64 - 33) div 44 < unat n" unfolding word_less_nat_alt lim .
    then show ?thesis using True by (simp add: YbbIndexSize_def)
  next
    case False
    then have "unat n \<le> (2 ^ 64 - 33) div 44" unfolding word_less_nat_alt lim by simp
    then have "unat n * 44 + 32 < 2 ^ 64" by simp
    then have "unat (kYbbHeaderSize + n * kYbbIndexRecordSize) = 32 + unat n * 44"
      unfolding kYbbHeaderSize_def kYbbIndexRecordSize_def unat_word_ariths by simp
    then show ?thesis using False by (simp add: YbbIndexSize_def)
  qed
qed

end
