(* ===== verification/Placement.thy ===== *)
theory Placement
  imports Board
begin

text \<open>
  Building a position by \<open>PutPiece\<close> alone, the way \<open>SetFromSfen\<close>, \<open>SetFromPackedSfen\<close> and
  \<open>Flipped\<close> do from an empty board: what the fields are afterwards, when the invariant holds,
  and when two positions built in different ways have the same placement.
\<close>

definition place_all :: "(square \<times> piece) list \<Rightarrow> shogi_board \<Rightarrow> shogi_board" where
  "place_all ps b = fold (\<lambda>(s, pc) b. PutPiece b s pc) ps b"

lemma place_all_simps [simp]:
  "place_all [] b = b" "place_all ((s, pc) # ps) b = place_all ps (PutPiece b s pc)"
  "place_all (ps @ qs) b = place_all qs (place_all ps b)"
  by (simp_all add: place_all_def)

lemma place_all_sel [board_simps]:
  "hands (place_all ps b) = hands b" "side_to_move (place_all ps b) = side_to_move b"
  "ply (place_all ps b) = ply b" "hash (place_all ps b) = hash b"
  "continuous_check (place_all ps b) = continuous_check b" "history (place_all ps b) = history b"
  by (induction ps arbitrary: b) (auto simp: board_simps)

lemma board_arr_place_all:
  "distinct (map fst ps) \<Longrightarrow>
    board_arr (place_all ps b) = (\<lambda>s. case map_of ps s of None \<Rightarrow> board_arr b s | Some pc \<Rightarrow> pc)"
proof (induction ps arbitrary: b)
  case (Cons p ps)
  obtain s pc where p: "p = (s, pc)" by force
  have "map_of ps s = None" using Cons.prems by (simp add: p map_of_eq_None_iff)
  then show ?case using Cons by (auto simp: p PutPiece_sel fun_eq_iff split: option.splits)
qed simp

text \<open>The pieces of a list are placed on distinct empty squares, with at most one king a side.\<close>

definition one_king :: "(square \<times> piece) list \<Rightarrow> bool" where
  "one_king ps \<longleftrightarrow> (\<forall>c. length (filter (\<lambda>x. snd x = piece_Make c kKing) ps) \<le> 1)"

definition placeable :: "(square \<times> piece) list \<Rightarrow> bool" where
  "placeable ps \<longleftrightarrow> distinct (map fst ps) \<and>
     (\<forall>(s, pc)\<in>set ps. s < 81 \<and> piece_ok pc \<and> pc \<noteq> 0) \<and>
     one_king ps"

lemma placeable_Cons:
  "placeable ((s, pc) # ps) \<longleftrightarrow> s \<notin> fst ` set ps \<and> s < 81 \<and> piece_ok pc \<and> pc \<noteq> 0 \<and>
     (piece_GetType pc = kKing \<longrightarrow> pc \<notin> snd ` set ps) \<and> placeable ps"
proof -
  have "one_king ((s, pc) # ps) \<longleftrightarrow> (piece_GetType pc = kKing \<longrightarrow> pc \<notin> snd ` set ps) \<and> one_king ps"
    if "piece_ok pc" "pc \<noteq> 0"
  proof (cases "piece_GetType pc = kKing")
    case True
    define d where "d = piece_GetColor pc"
    have pc: "pc = piece_Make d kKing" "pc \<noteq> piece_Make (opp d) kKing"
      using king_piece_iff [OF that] True by (auto simp: d_def)
    have all: "(\<forall>c. P c) \<longleftrightarrow> P d \<and> P (opp d)" for P by (metis neq_opp opp_opp)
    have e: "length (filter (\<lambda>x. snd x = pc) ps) = 0 \<longleftrightarrow> pc \<notin> snd ` set ps"
      by (auto simp: filter_empty_conv)
    show ?thesis unfolding one_king_def all using True pc e by (auto simp del: piece_Make_inject)
  next
    case False
    then show ?thesis using king_piece_iff [OF that] by (simp add: one_king_def)
  qed
  then show ?thesis unfolding placeable_def by auto
qed

lemma board_ok_place_all:
  assumes "placeable ps" "board_ok b" "\<forall>s\<in>fst ` set ps. board_arr b s = 0"
    "\<forall>pc\<in>snd ` set ps. piece_GetType pc = kKing \<longrightarrow> (\<forall>t<81. board_arr b t \<noteq> pc)"
  shows "board_ok (place_all ps b)"
  using assms
proof (induction ps arbitrary: b)
  case (Cons p ps)
  obtain s pc where p: "p = (s, pc)" by force
  have pl: "s \<notin> fst ` set ps" "s < 81" "piece_ok pc" "pc \<noteq> 0" "placeable ps"
    "piece_GetType pc = kKing \<Longrightarrow> pc \<notin> snd ` set ps"
    using Cons.prems(1) by (auto simp: p placeable_Cons)
  have "board_ok (PutPiece b s pc)"
    using Cons.prems pl by (intro board_ok_PutPiece) (auto simp: p)
  then have "board_ok (place_all ps (PutPiece b s pc))"
    using Cons.prems pl by (intro Cons.IH) (auto simp: p PutPiece_sel)
  then show ?case by (simp add: p)
qed simp

text \<open>The invariant determines the bitboards and the squares of the kings on the board.\<close>

definition same_placement :: "shogi_board \<Rightarrow> shogi_board \<Rightarrow> bool" where
  "same_placement a b \<longleftrightarrow> (\<forall>s<81. board_arr a s = board_arr b s) \<and>
     (\<forall>c. by_color a c = by_color b c) \<and> (\<forall>t<16. by_type a t = by_type b t) \<and>
     (\<forall>c. king_sq a c = king_sq b c)"

lemma same_placementI:
  assumes "board_ok a" "board_ok b" "\<And>s. s < 81 \<Longrightarrow> board_arr a s = board_arr b s"
    "\<And>c. king_sq a c = king_sq b c"
  shows "same_placement a b"
proof -
  have "by_color a c = by_color b c" for c
    using assms board_okD(2,4) by (intro bb_eqI) auto
  moreover have "by_type a t = by_type b t" if "t < 16" for t
    using assms that board_okD(3,5) by (intro bb_eqI) auto
  ultimately show ?thesis using assms by (auto simp: same_placement_def)
qed

lemma kings_on_board_sq:
  assumes "board_ok a" "kings_ok b" "\<And>s. s < 81 \<Longrightarrow> board_arr a s = board_arr b s"
  shows "king_sq a c = king_sq b c"
  using assms board_okD(6) [of a "king_sq b c" c] by (auto simp: kings_ok_def)

end
