(* ===== verification/GameRules.thy ===== *)
theory GameRules
  imports MoveGen Placement
begin

text \<open>
  The rules layer of shogi/board.cc above the move generator: the game result, the
  entering-king declaration, repetition (\<open>RepetitionCount\<close>, \<open>CheckRepetition\<close>, the search
  policy of mcts/search_repetition.h) and the perspective flip.  Repetition is specified on
  the play itself: \<open>played\<close> is the step relation of a game from a position with a cleared
  history, and the counters and history entries the board keeps are shown to describe it.
\<close>

subsection \<open>Entering king\<close>

record entering_king_info =
  points :: int
  pieces_in_camp :: int
  king_in_camp :: bool

definition majors :: "shogi_board \<Rightarrow> bitboard" where
  "majors b = bb_Or (bb_Or (bb_Or (by_type b kBishop) (by_type b kRook)) (by_type b kHorse)) (by_type b kDragon)"

definition ComputeEnteringKingInfo :: "shogi_board \<Rightarrow> color \<Rightarrow> entering_king_info" where
  "ComputeEnteringKingInfo b c =
     (let enemy_camp = PromotionZoneBB c;
          in_camp = bb_Test enemy_camp (king_sq b c);
          our_in_camp = bb_And (by_color b c) enemy_camp;
          total_in_camp = int (bb_PopCount our_in_camp);
          total_in_camp = (if in_camp then total_in_camp - 1 else total_in_camp);
          major_count = int (bb_PopCount (bb_And our_in_camp (majors b)));
          minor_count = total_in_camp - major_count;
          h = hands b c;
          pts = major_count * 5 + minor_count;
          pts = pts + int (hand_Count h kPawn + hand_Count h kLance + hand_Count h kKnight
                           + hand_Count h kSilver + hand_Count h kGold);
          pts = pts + int (hand_Count h kBishop + hand_Count h kRook) * 5
      in \<lparr>points = pts, pieces_in_camp = total_in_camp, king_in_camp = in_camp\<rparr>)"

definition CanDeclareWin :: "shogi_board \<Rightarrow> bool" where
  "CanDeclareWin b =
     (let us = side_to_move b in
      if InCheck b us then False
      else let info = ComputeEnteringKingInfo b us in
        if \<not> king_in_camp info then False
        else if pieces_in_camp info < 10 then False
        else let threshold = (if us = BLACK then 28 else 27) in
          if points info < threshold then False else True)"

subsection \<open>Game result\<close>

datatype GameResult = kUndecided | kCheckmate | kDeclarationWin

definition ComputeGameResult :: "shogi_board \<Rightarrow> GameResult" where
  "ComputeGameResult b =
     (if CanDeclareWin b then kDeclarationWin
      else if GenerateLegalMoves b = [] then kCheckmate else kUndecided)"

subsection \<open>Repetition\<close>

datatype RepetitionResult = RepNone | RepDraw | RepWin | RepLoss

definition ClearHistory :: "shogi_board \<Rightarrow> shogi_board" where
  "ClearHistory b = b\<lparr>history := [], continuous_check := (\<lambda>_. 0)\<rparr>"

definition entry_matches :: "shogi_board \<Rightarrow> history_entry \<Rightarrow> bool" where
  "entry_matches b e \<longleftrightarrow>
     he_hash e = hash b \<and> hand_black e = hands b BLACK \<and> hand_white e = hands b WHITE"

definition RepetitionCount :: "shogi_board \<Rightarrow> int" where
  "RepetitionCount b = fold (\<lambda>e count. if entry_matches b e then count + 1 else count) (history b) 0"

definition IsRepetition :: "shogi_board \<Rightarrow> bool" where
  "IsRepetition b \<longleftrightarrow> RepetitionCount b \<ge> 1"

definition adjudicate :: "shogi_board \<Rightarrow> int \<Rightarrow> RepetitionResult" where
  "adjudicate b dist =
     (let us = side_to_move b in
      if continuous_check b us \<ge> dist then RepLoss
      else if continuous_check b (opp us) \<ge> dist then RepWin
      else RepDraw)"

text \<open>The loop over the distances 4, 6, 8 up to \<open>max_distance\<close>; the second component is the
  value written to \<open>repetition_distance\<close>.\<close>

function repetition_scan :: "shogi_board \<Rightarrow> int \<Rightarrow> int \<Rightarrow> RepetitionResult \<times> int option" where
  "repetition_scan b max_distance dist =
     (if dist \<le> max_distance then
        if entry_matches b (history b ! nat (int (length (history b)) - dist))
        then (adjudicate b dist, Some dist)
        else repetition_scan b max_distance (dist + 2)
      else (RepNone, None))"
  by pat_completeness auto
termination by (relation "measure (\<lambda>(b, m, d). nat (m + 2 - d))") auto

declare repetition_scan.simps [simp del]

definition CheckRepetition :: "shogi_board \<Rightarrow> int \<Rightarrow> RepetitionResult \<times> int option" where
  "CheckRepetition b max_back_plies =
     (let history_size = int (length (history b));
          max_distance = (if max_back_plies > 0 then min history_size max_back_plies else history_size)
      in repetition_scan b max_distance 4)"

definition GetSearchRepetitionResult :: "shogi_board \<Rightarrow> bool \<Rightarrow> RepetitionResult" where
  "GetSearchRepetitionResult b at_root = (if at_root then RepNone else fst (CheckRepetition b 0))"

subsection \<open>Perspective flip\<close>

definition Flipped :: "shogi_board \<Rightarrow> shogi_board" where
  "Flipped b =
     (let f = empty_board\<lparr>side_to_move := opp (side_to_move b), ply := ply b\<rparr>;
          f = f\<lparr>hands := (hands f)(BLACK := hands b WHITE)\<rparr>;
          f = f\<lparr>hands := (hands f)(WHITE := hands b BLACK)\<rparr>
      in fold (\<lambda>sq f. let pc = board_arr b sq in
                if \<not> piece_IsNone pc
                then PutPiece f (80 - sq) (piece_Make (opp (piece_GetColor pc)) (piece_GetType pc))
                else f) [0..<81] f)"

subsection \<open>Repetition: what the loop finds\<close>

text \<open>The distances the loop may report.\<close>

definition rep_candidate :: "shogi_board \<Rightarrow> int \<Rightarrow> int \<Rightarrow> bool" where
  "rep_candidate b max_distance d \<longleftrightarrow> 4 \<le> d \<and> d \<le> max_distance \<and> even d \<and>
     entry_matches b (history b ! nat (int (length (history b)) - d))"

lemma repetition_scan_result:
  assumes "4 \<le> d" "even d" "\<And>e. e < d \<Longrightarrow> \<not> rep_candidate b m e"
  shows "(case repetition_scan b m d of
            (r, None) \<Rightarrow> r = RepNone \<and> (\<forall>e. \<not> rep_candidate b m e)
          | (r, Some e) \<Rightarrow> rep_candidate b m e \<and> (\<forall>e'<e. \<not> rep_candidate b m e') \<and> r = adjudicate b e)"
  using assms
proof (induction b m d rule: repetition_scan.induct)
  case (1 b m d)
  show ?case
  proof (cases "d \<le> m \<and> \<not> entry_matches b (history b ! nat (int (length (history b)) - d))")
    case True
    have "\<not> rep_candidate b m e" if "e < d + 2" for e
    proof (cases "e < d")
      case False
      then have "e = d \<or> e = d + 1" using that by linarith
      then show ?thesis using True 1(3) by (auto simp: rep_candidate_def)
    qed (use 1(4) in blast)
    then have "case repetition_scan b m (d + 2) of
            (r, None) \<Rightarrow> r = RepNone \<and> (\<forall>e. \<not> rep_candidate b m e)
          | (r, Some e) \<Rightarrow> rep_candidate b m e \<and> (\<forall>e'<e. \<not> rep_candidate b m e') \<and> r = adjudicate b e"
      using True 1(2,3) by (intro 1(1)) auto
    then show ?thesis using True by (subst repetition_scan.simps) simp
  next
    case False
    have "\<not> rep_candidate b m e" if "\<not> d \<le> m" for e
      using that 1(4) [of e] by (auto simp: rep_candidate_def)
    then show ?thesis using False 1(2-4)
      by (subst repetition_scan.simps) (auto simp: rep_candidate_def)
  qed
qed

subsection \<open>Repetition: the game behind the counters\<close>

text \<open>\<open>played b0 ps fl b\<close>: the game has gone from \<open>b0\<close>, where the history was cleared, to \<open>b\<close>;
  \<open>ps\<close> are the earlier positions and \<open>fl\<close> tells which moves gave check, the latest first.\<close>

inductive played :: "shogi_board \<Rightarrow> shogi_board list \<Rightarrow> bool list \<Rightarrow> shogi_board \<Rightarrow> bool" where
  start: "played (ClearHistory b) [] [] (ClearHistory b)"
| move: "played b0 ps fl b \<Longrightarrow> move_is_drop m \<or> move_from m \<noteq> move_to m \<Longrightarrow>
     played b0 (b # ps) (InCheck (snd (DoMove b m)) (opp (side_to_move b)) # fl) (snd (DoMove b m))"

fun every_other :: "'a list \<Rightarrow> 'a list" where
  "every_other [] = []"
| "every_other [x] = [x]"
| "every_other (x # y # zs) = x # every_other zs"

lemma every_other_Cons [simp]: "every_other (x # xs) = x # every_other (tl xs)"
  by (cases xs) auto

lemma length_every_other: "length (every_other xs) = (length xs + 1) div 2"
  by (induction xs rule: every_other.induct) auto

lemma nth_every_other: "2 * i < length xs \<Longrightarrow> every_other xs ! i = xs ! (2 * i)"
proof (induction xs arbitrary: i rule: every_other.induct)
  case (3 x y zs) then show ?case by (cases i) auto
qed auto

definition streak :: "bool list \<Rightarrow> int" where
  "streak xs = 2 * int (length (takeWhile id xs))"

lemma streak_Cons [simp]: "streak [] = 0" "streak (x # xs) = (if x then streak xs + 2 else 0)"
  by (simp_all add: streak_def)

lemma streak_ge_iff: "k \<le> length xs \<Longrightarrow> 2 * int k \<le> streak xs \<longleftrightarrow> (\<forall>i<k. xs ! i)"
proof (induction xs arbitrary: k)
  case (Cons x xs)
  then show ?case
    by (cases k) (auto simp: All_less_Suc2 streak_def)
qed simp

lemma DoMove_sel:
  assumes "move_is_drop m \<or> move_from m \<noteq> move_to m"
  shows "side_to_move (snd (DoMove b m)) = opp (side_to_move b)"
    and "history (snd (DoMove b m)) = history b @ [history_entry_of b]"
    and "continuous_check (snd (DoMove b m)) = (continuous_check b)(side_to_move b :=
      if InCheck (snd (DoMove b m)) (opp (side_to_move b)) then continuous_check b (side_to_move b) + 2 else 0)"
  using DoMoveInternal_eq [OF assms, of b True "-1"]
  by (simp_all add: DoMove_def move_gives_check_def board_simps)

lemma played_invariant:
  assumes "played b0 ps fl b"
  shows "history b = rev (map history_entry_of ps) \<and> length fl = length ps \<and>
    continuous_check b (opp (side_to_move b)) = streak (every_other fl) \<and>
    continuous_check b (side_to_move b) = streak (every_other (tl fl))"
  using assms
proof (induction rule: played.induct)
  case (start b)
  then show ?case by (simp add: ClearHistory_def)
next
  case (move b0 ps fl b m)
  have ne: "opp c \<noteq> c" "opp (opp c) = c" for c by (cases c; simp)+
  show ?case using move.IH by (simp add: DoMove_sel [OF move.hyps(2)] ne)
qed

text \<open>Two positions the repetition test identifies.\<close>

definition same_position :: "shogi_board \<Rightarrow> shogi_board \<Rightarrow> bool" where
  "same_position a b \<longleftrightarrow> hash a = hash b \<and> hands a BLACK = hands b BLACK \<and> hands a WHITE = hands b WHITE"

definition rep_at :: "shogi_board list \<Rightarrow> int \<Rightarrow> shogi_board \<Rightarrow> int \<Rightarrow> bool" where
  "rep_at ps max_back b d \<longleftrightarrow> 4 \<le> d \<and> even d \<and> d \<le> int (length ps) \<and> (0 < max_back \<longrightarrow> d \<le> max_back) \<and>
     same_position (ps ! nat (d - 1)) b"

lemma rep_candidate_at:
  assumes "played b0 ps fl b"
  shows "rep_candidate b (if max_back > 0 then min (int (length (history b))) max_back else int (length (history b))) d
    \<longleftrightarrow> rep_at ps max_back b d"
proof -
  have h: "history b = rev (map history_entry_of ps)" using played_invariant [OF assms] by simp
  have "history b ! nat (int (length (history b)) - d) = history_entry_of (ps ! nat (d - 1))"
    if "4 \<le> d" "d \<le> int (length ps)"
  proof -
    have "length ps - Suc (nat (int (length ps) - d)) = nat (d - 1)" using that by linarith
    then show ?thesis using that by (simp add: h rev_nth)
  qed
  then show ?thesis
    by (auto simp: rep_candidate_def rep_at_def same_position_def entry_matches_def history_entry_of_def h)
qed

lemma adjudicate_played:
  assumes p: "played b0 ps fl b" and d: "4 \<le> d" "even d" "d \<le> int (length ps)"
  shows "adjudicate b d =
    (if \<forall>i<nat d div 2. fl ! (2 * i + 1) then RepLoss
     else if \<forall>i<nat d div 2. fl ! (2 * i) then RepWin else RepDraw)"
proof -
  define k where "k = nat d div 2"
  have dk: "d = 2 * int k" using d by (auto simp: k_def)
  have len: "2 * k \<le> length fl" using played_invariant [OF p] d dk by linarith
  have "k \<le> length (every_other fl)" "k \<le> length (every_other (tl fl))"
    using len by (auto simp: length_every_other)
  moreover have "every_other fl ! i = fl ! (2 * i)" "every_other (tl fl) ! i = fl ! (2 * i + 1)" if "i < k" for i
    using that len by (auto simp: nth_every_other nth_tl)
  ultimately show ?thesis
    using played_invariant [OF p] unfolding adjudicate_def Let_def dk
    by (simp add: streak_ge_iff nat_mult_distrib)
qed

text \<open>C17: in any game from a position with a cleared history, \<open>CheckRepetition\<close> reports no
  repetition exactly when no earlier position an even number of at least four plies back (within the limit)
  has the same key and hands; otherwise it reports the nearest such position, a loss when every move of
  the side to move since then gave check, else a win when every move of the opponent did, else a draw.\<close>

theorem CheckRepetition_correct:
  assumes "played b0 ps fl b"
  shows "case CheckRepetition b max_back of
      (r, None) \<Rightarrow> r = RepNone \<and> (\<forall>d. \<not> rep_at ps max_back b d)
    | (r, Some d) \<Rightarrow> rep_at ps max_back b d \<and> (\<forall>e<d. \<not> rep_at ps max_back b e) \<and>
        r = (if \<forall>i<nat d div 2. fl ! (2 * i + 1) then RepLoss
             else if \<forall>i<nat d div 2. fl ! (2 * i) then RepWin else RepDraw)"
proof -
  let ?m = "if max_back > 0 then min (int (length (history b))) max_back else int (length (history b))"
  have "\<not> rep_candidate b ?m e" if "e < 4" for e using that by (auto simp: rep_candidate_def)
  note res = repetition_scan_result [of 4 b ?m, OF _ _ this, unfolded rep_candidate_at [OF assms]]
  show ?thesis
  proof (cases "snd (CheckRepetition b max_back)")
    case None
    then show ?thesis using res by (auto simp: CheckRepetition_def Let_def split: prod.splits)
  next
    case (Some d)
    then have "rep_at ps max_back b d \<and> (\<forall>e<d. \<not> rep_at ps max_back b e) \<and>
      fst (CheckRepetition b max_back) = adjudicate b d"
      using res by (auto simp: CheckRepetition_def Let_def split: prod.splits)
    moreover from this have "4 \<le> d" "even d" "d \<le> int (length ps)" by (auto simp: rep_at_def)
    ultimately show ?thesis using Some adjudicate_played [OF assms] by (auto split: prod.splits)
  qed
qed

text \<open>Both kings step out and back: the position after four plies is the start again.\<close>

definition king_shuffle :: "move list" where
  "king_shuffle = [move_Normal 44 43, move_Normal 36 37, move_Normal 43 44, move_Normal 37 36]"

lemma played_moves:
  "list_all (\<lambda>m. move_is_drop m \<or> move_from m \<noteq> move_to m) ms \<Longrightarrow> played b0 ps fl b \<Longrightarrow>
   \<exists>qs gs. played b0 (qs @ ps) (gs @ fl) (fold (\<lambda>m b. snd (DoMove b m)) ms b) \<and> length qs = length ms"
proof (induction ms arbitrary: ps fl b)
  case (Cons m ms)
  from Cons.IH [OF _ played.move [OF Cons.prems(2), of m]] Cons.prems(1)
  obtain qs gs where "played b0 (qs @ b # ps)
      (gs @ InCheck (snd (DoMove b m)) (opp (side_to_move b)) # fl)
      (fold (\<lambda>m b. snd (DoMove b m)) ms (snd (DoMove b m)))" "length qs = length ms"
    by auto
  then show ?case
    by (intro exI [of _ "qs @ [b]"] exI [of _ "gs @ [InCheck (snd (DoMove b m)) (opp (side_to_move b))]"]) simp
qed (auto intro: exI [of _ "[]"])

theorem CheckRepetition_correct_witness:
  "\<exists>ps fl. length ps = 4 \<and>
     (case CheckRepetition (fold (\<lambda>m b. snd (DoMove b m)) king_shuffle (ClearHistory sample_board)) 16 of
        (r, None) \<Rightarrow> r = RepNone \<and> (\<forall>d. \<not> rep_at ps 16 (fold (\<lambda>m b. snd (DoMove b m)) king_shuffle (ClearHistory sample_board)) d)
      | (r, Some d) \<Rightarrow> r = (if \<forall>i<nat d div 2. fl ! (2 * i + 1) then RepLoss
           else if \<forall>i<nat d div 2. fl ! (2 * i) then RepWin else RepDraw))"
proof -
  have "list_all (\<lambda>m. move_is_drop m \<or> move_from m \<noteq> move_to m) king_shuffle"
    by (simp add: king_shuffle_def move_Normal_def move_from_def move_to_def)
  from played_moves [OF this played.start [of sample_board]]
  obtain ps fl where p: "played (ClearHistory sample_board) ps fl
      (fold (\<lambda>m b. snd (DoMove b m)) king_shuffle (ClearHistory sample_board))" "length ps = 4"
    by (auto simp: king_shuffle_def)
  show ?thesis
    using CheckRepetition_correct [OF p(1), of 16] p(2)
    by (intro exI [of _ ps] exI [of _ fl]) (auto split: prod.splits option.splits)
qed

subsection \<open>Declaration: the count is the sum over the camp\<close>

lemma bb_PopCount_card: "bb_ok w \<Longrightarrow> bb_PopCount w = card {s. s < 81 \<and> bb_Test w s}"
  using distinct_card [of "bb_squares w"] by (simp add: bb_PopCount_length sorted_bb_squares set_bb_squares)

text \<open>The pieces of a colour in the enemy camp, the king apart, and their value.\<close>

definition camp_squares :: "shogi_board \<Rightarrow> color \<Rightarrow> nat set" where
  "camp_squares b c = {s. s < 81 \<and> sq_InPromotionZone s c \<and> board_arr b s \<noteq> 0 \<and>
     piece_GetColor (board_arr b s) = c \<and> piece_GetType (board_arr b s) \<noteq> kKing}"

definition point_value :: "piece_type \<Rightarrow> int" where
  "point_value pt = (if pt \<in> {kBishop, kRook, kHorse, kDragon} then 5 else 1)"

definition hand_points :: "hand \<Rightarrow> int" where
  "hand_points h = (\<Sum>pt\<in>{1..7}. point_value pt * int (hand_Count h pt))"

lemma majors_Test:
  assumes "board_ok b" "s < 81" "board_arr b s \<noteq> 0"
  shows "bb_Test (majors b) s \<longleftrightarrow> piece_GetType (board_arr b s) \<in> {kBishop, kRook, kHorse, kDragon}"
  using assms board_okD(5) [OF assms(1) _ assms(2)] by (auto simp: majors_def Test_Or piece_type_defs)

lemma sum_one_or_five:
  "finite S \<Longrightarrow> (\<Sum>s\<in>S. 1 + (if P s then 4 else 0)) = int (card S) + 4 * int (card {s \<in> S. P s})"
  by (simp add: sum.distrib sum.inter_filter [symmetric])

lemma ComputeEnteringKingInfo_eq:
  assumes b: "board_ok b" "kings_ok b"
  shows "ComputeEnteringKingInfo b c =
    \<lparr>points = (\<Sum>s\<in>camp_squares b c. point_value (piece_GetType (board_arr b s))) + hand_points (hands b c),
     pieces_in_camp = int (card (camp_squares b c)), king_in_camp = sq_InPromotionZone (king_sq b c) c\<rparr>"
proof -
  let ?S = "camp_squares b c" and ?k = "king_sq b c"
  let ?M = "{s \<in> ?S. piece_GetType (board_arr b s) \<in> {kBishop, kRook, kHorse, kDragon}}"
  have k: "?k < 81" "board_arr b ?k = piece_Make c kKing" using b(2) by (auto simp: kings_ok_def)
  have kt: "piece_GetType (board_arr b ?k) = kKing" "piece_GetColor (board_arr b ?k) = c" "board_arr b ?k \<noteq> 0"
    using k(2) by (simp_all add: kKing_def)
  have uniq: "s = ?k" if "s < 81" "board_arr b s \<noteq> 0" "piece_GetColor (board_arr b s) = c"
    "piece_GetType (board_arr b s) = kKing" for s
    using that king_piece_iff board_okD(1,6) [OF b(1)] by metis
  have ok: "bb_ok (bb_And (by_color b c) (PromotionZoneBB c))"
    "bb_ok (bb_And (bb_And (by_color b c) (PromotionZoneBB c)) (majors b))"
    using b(1) by (simp_all add: bb_intros board_okD)
  have fin: "finite ?S" by (simp add: camp_squares_def)
  have own: "{s. s < 81 \<and> bb_Test (bb_And (by_color b c) (PromotionZoneBB c)) s} =
      ?S \<union> (if sq_InPromotionZone ?k c then {?k} else {})"
  proof (intro set_eqI)
    fix s
    have c: "s < 81 \<and> bb_Test (bb_And (by_color b c) (PromotionZoneBB c)) s \<longleftrightarrow>
        s < 81 \<and> board_arr b s \<noteq> 0 \<and> piece_GetColor (board_arr b s) = c \<and> sq_InPromotionZone s c"
      using board_okD(4) [OF b(1), of s c] Test_PromotionZoneBB [of s c] by (auto simp: Test_And)
    have m: "s \<in> ?S \<longleftrightarrow> s < 81 \<and> board_arr b s \<noteq> 0 \<and> piece_GetColor (board_arr b s) = c \<and>
        sq_InPromotionZone s c \<and> piece_GetType (board_arr b s) \<noteq> kKing"
      by (auto simp: camp_squares_def)
    show "s \<in> {s. s < 81 \<and> bb_Test (bb_And (by_color b c) (PromotionZoneBB c)) s} \<longleftrightarrow>
        s \<in> ?S \<union> (if sq_InPromotionZone ?k c then {?k} else {})"
    proof (cases "s = ?k")
      case True
      then show ?thesis unfolding mem_Collect_eq c Un_iff m using k(1) kt by simp
    next
      case False
      then show ?thesis unfolding mem_Collect_eq c Un_iff m using uniq [of s] by (auto split: if_splits)
    qed
  qed
  have nk: "?k \<notin> ?S" using kt by (simp add: camp_squares_def)
  have total: "int (bb_PopCount (bb_And (by_color b c) (PromotionZoneBB c))) =
      int (card ?S) + (if sq_InPromotionZone ?k c then 1 else 0)"
    unfolding bb_PopCount_card [OF ok(1)] own using fin nk by simp
  have "{s. s < 81 \<and> bb_Test (bb_And (bb_And (by_color b c) (PromotionZoneBB c)) (majors b)) s} = ?M"
  proof (intro set_eqI)
    fix s
    have "bb_Test (bb_And (bb_And (by_color b c) (PromotionZoneBB c)) (majors b)) s \<longleftrightarrow>
        board_arr b s \<noteq> 0 \<and> piece_GetColor (board_arr b s) = c \<and> sq_InPromotionZone s c \<and>
        piece_GetType (board_arr b s) \<in> {kBishop, kRook, kHorse, kDragon}" if "s < 81"
      using board_okD(4) [OF b(1) that, of c] Test_PromotionZoneBB [OF that, of c] majors_Test [OF b(1) that]
      by (auto simp: Test_And)
    then show "s \<in> {s. s < 81 \<and> bb_Test (bb_And (bb_And (by_color b c) (PromotionZoneBB c)) (majors b)) s} \<longleftrightarrow>
        s \<in> ?M"
      unfolding mem_Collect_eq camp_squares_def by (auto simp: piece_type_defs)
  qed
  then have major: "bb_PopCount (bb_And (bb_And (by_color b c) (PromotionZoneBB c)) (majors b)) = card ?M"
    unfolding bb_PopCount_card [OF ok(2)] by simp
  have "(\<Sum>s\<in>?S. point_value (piece_GetType (board_arr b s))) =
      (\<Sum>s\<in>?S. 1 + (if piece_GetType (board_arr b s) \<in> {kBishop, kRook, kHorse, kDragon} then 4 else 0))"
    by (intro sum.cong) (auto simp: point_value_def)
  also have "\<dots> = int (card ?S) + 4 * int (card ?M)"
    by (rule sum_one_or_five [OF fin])
  finally have val: "(\<Sum>s\<in>?S. point_value (piece_GetType (board_arr b s))) = int (card ?S) + 4 * int (card ?M)" .
  have hand: "hand_points h = int (hand_Count h kPawn + hand_Count h kLance + hand_Count h kKnight
      + hand_Count h kSilver + hand_Count h kGold) + int (hand_Count h kBishop + hand_Count h kRook) * 5" for h
  proof -
    have e: "{1..7::nat} = {1, 2, 3, 4, 5, 6, 7}" by auto
    show ?thesis unfolding hand_points_def e by (simp add: point_value_def piece_type_defs)
  qed
  show ?thesis
    unfolding ComputeEnteringKingInfo_def Let_def total major
    using k(1) by (simp add: Test_PromotionZoneBB val hand)
qed

text \<open>C18: a side may declare exactly when it is not in check, its king stands in the enemy
  camp with at least ten of its other pieces, and the pieces there and in hand are worth 28 points
  (Black) or 27 points (White), rooks and bishops counting five, all others one.\<close>

theorem CanDeclareWin_correct:
  assumes "board_ok b" "kings_ok b"
  shows "CanDeclareWin b \<longleftrightarrow> (let us = side_to_move b in
     \<not> InCheck b us \<and> sq_InPromotionZone (king_sq b us) us \<and> card (camp_squares b us) \<ge> 10 \<and>
     (\<Sum>s\<in>camp_squares b us. point_value (piece_GetType (board_arr b s))) + hand_points (hands b us)
       \<ge> (if us = BLACK then 28 else 27))"
  by (auto simp: CanDeclareWin_def Let_def ComputeEnteringKingInfo_eq [OF assms])

theorem CanDeclareWin_correct_witness:
  "board_ok sample_board \<and> kings_ok sample_board \<and> \<not> CanDeclareWin sample_board"
proof -
  have "\<not> sq_InPromotionZone (king_sq sample_board (side_to_move sample_board)) (side_to_move sample_board)"
    by (simp add: sample_board_sel sq_InPromotionZone_def rank_InPromotionZone_def sq_rank_def)
  then show ?thesis
    using CanDeclareWin_correct [OF sample_board_ok] sample_board_ok unfolding Let_def by blast
qed

subsection \<open>The flipped position\<close>

definition flip_piece :: "piece \<Rightarrow> piece" where
  "flip_piece v = (if v = 0 then 0 else piece_Make (opp (piece_GetColor v)) (piece_GetType v))"

lemma flip_piece_props [simp]:
  "piece_ok v \<Longrightarrow> piece_ok (flip_piece v)" "piece_ok v \<Longrightarrow> flip_piece v = 0 \<longleftrightarrow> v = 0"
  "piece_ok v \<Longrightarrow> flip_piece (flip_piece v) = v" "v \<noteq> 0 \<Longrightarrow> piece_GetType (flip_piece v) = piece_GetType v"
  "v \<noteq> 0 \<Longrightarrow> piece_GetColor (flip_piece v) = opp (piece_GetColor v)" "flip_piece 0 = 0"
  using piece_ok_type [of v] piece_eq_Make [of v]
  by (auto simp: flip_piece_def piece_ok_def [of 0])

lemma flip_piece_pos [simp]: "piece_ok v \<Longrightarrow> 0 < flip_piece v \<longleftrightarrow> 0 < v"
  using flip_piece_props(2) [of v] by (metis neq0_conv)

definition flip_list :: "shogi_board \<Rightarrow> (square \<times> piece) list" where
  "flip_list b = map (\<lambda>s. (80 - s, flip_piece (board_arr b s))) (filter (\<lambda>s. board_arr b s \<noteq> 0) [0..<81])"

lemma Flipped_place_all:
  "Flipped b = place_all (flip_list b)
     (empty_board\<lparr>side_to_move := opp (side_to_move b), ply := ply b,
        hands := (hands empty_board)(BLACK := hands b WHITE, WHITE := hands b BLACK)\<rparr>)"
proof -
  have "fold (\<lambda>sq f. let pc = board_arr b sq in
            if \<not> piece_IsNone pc
            then PutPiece f (80 - sq) (piece_Make (opp (piece_GetColor pc)) (piece_GetType pc))
            else f) xs f =
      place_all (map (\<lambda>s. (80 - s, flip_piece (board_arr b s))) (filter (\<lambda>s. board_arr b s \<noteq> 0) xs)) f" for xs f
    by (induction xs arbitrary: f) (auto simp: Let_def piece_IsNone_def flip_piece_def)
  then show ?thesis by (simp add: Flipped_def flip_list_def Let_def)
qed

lemma one_kingI:
  assumes "\<And>x y c. x \<in> set ps \<Longrightarrow> y \<in> set ps \<Longrightarrow> snd x = piece_Make c kKing \<Longrightarrow> snd y = piece_Make c kKing \<Longrightarrow> fst x = fst y"
    and "distinct (map fst ps)"
  shows "one_king ps"
  unfolding one_king_def
proof
  fix c
  let ?l = "filter (\<lambda>x. snd x = piece_Make c kKing) ps"
  have d: "distinct (map fst ?l)" using assms(2) by (simp add: distinct_map_filter)
  show "length ?l \<le> 1"
  proof (cases ?l)
    case (Cons x r)
    have "r = []"
    proof (cases r)
      case (Cons y r')
      then have "x \<in> set ?l" "y \<in> set ?l" using \<open>?l = x # r\<close> by auto
      then have "fst x = fst y" using assms(1) by auto
      then show ?thesis using d \<open>?l = x # r\<close> Cons by auto
    qed simp
    then show ?thesis using Cons by simp
  qed simp
qed

lemma placeable_flip_list:
  assumes "board_ok b"
  shows "placeable (flip_list b)"
proof -
  have d: "distinct (map fst (flip_list b))"
    by (auto simp: flip_list_def distinct_map o_def inj_on_def)
  have "one_king (flip_list b)"
  proof (rule one_kingI [OF _ d])
    have k: "u = king_sq b (opp c)" if "u < 81" "board_arr b u \<noteq> 0" "flip_piece (board_arr b u) = piece_Make c kKing" for u c
    proof -
      have "flip_piece (flip_piece (board_arr b u)) = piece_Make (opp c) kKing"
        unfolding that(3) by (simp add: flip_piece_def kKing_def)
      then show ?thesis using board_okD(1,6) [OF assms that(1)] by simp
    qed
    have "fst x = 80 - king_sq b (opp c)" if "x \<in> set (flip_list b)" "snd x = piece_Make c kKing" for x c
      using that k [of _ c] by (auto simp: flip_list_def)
    then show "x \<in> set (flip_list b) \<Longrightarrow> y \<in> set (flip_list b) \<Longrightarrow> snd x = piece_Make c kKing \<Longrightarrow>
        snd y = piece_Make c kKing \<Longrightarrow> fst x = fst y" for x y c by metis
  qed
  moreover have "\<forall>(s, pc)\<in>set (flip_list b). s < 81 \<and> piece_ok pc \<and> pc \<noteq> 0"
    using board_okD(1) [OF assms] by (auto simp: flip_list_def)
  ultimately show ?thesis using d by (simp add: placeable_def)
qed

lemma board_arr_Flipped:
  assumes "board_ok b" "s < 81"
  shows "board_arr (Flipped b) s = flip_piece (board_arr b (80 - s))"
proof -
  have d: "distinct (map fst (flip_list b))" using placeable_flip_list [OF assms(1)] by (simp add: placeable_def)
  have eq: "map_of (flip_list b) s = (if board_arr b (80 - s) \<noteq> 0 then Some (flip_piece (board_arr b (80 - s))) else None)"
  proof (cases "board_arr b (80 - s) = 0")
    case True
    have "s \<notin> fst ` set (flip_list b)"
      using True assms(2) by (auto simp: flip_list_def)
    then show ?thesis using True by (simp add: map_of_eq_None_iff)
  next
    case False
    then have "(s, flip_piece (board_arr b (80 - s))) \<in> set (flip_list b)"
      using assms(2) by (auto simp: flip_list_def intro!: image_eqI [of _ _ "80 - s"])
    then show ?thesis using False map_of_is_SomeI [OF d] by simp
  qed
  show ?thesis
    unfolding Flipped_place_all board_arr_place_all [OF d] eq by (simp add: empty_board_def piece_None_def)
qed

lemma Flipped_sel:
  "hands (Flipped b) c = hands b (opp c)" "side_to_move (Flipped b) = opp (side_to_move b)"
  "ply (Flipped b) = ply b" "history (Flipped b) = []" "continuous_check (Flipped b) c = 0" "hash (Flipped b) = 0"
  unfolding Flipped_place_all by (cases c; simp add: board_simps empty_board_def)+

lemma board_ok_Flipped:
  assumes "board_ok b"
  shows "board_ok (Flipped b)"
proof -
  have nz: "pc \<noteq> 0" if "pc \<in> snd ` set (flip_list b)" for pc
    using that placeable_flip_list [OF assms] by (auto simp: placeable_def)
  show ?thesis
    unfolding Flipped_place_all
    by (intro board_ok_place_all [OF placeable_flip_list [OF assms]])
      (use nz in \<open>auto simp: board_simps board_ok_empty, auto simp: empty_board_def piece_None_def kKing_def piece_GetType_mod\<close>)
qed

lemma kings_ok_Flipped:
  assumes "board_ok b" "kings_ok b"
  shows "kings_ok (Flipped b)" "king_sq (Flipped b) c = 80 - king_sq b (opp c)"
proof -
  have k: "80 - king_sq b (opp c) < 81" "board_arr (Flipped b) (80 - king_sq b (opp c)) = piece_Make c kKing" for c
  proof -
    have s: "king_sq b (opp c) < 81" "board_arr b (king_sq b (opp c)) = piece_Make (opp c) kKing"
      using assms(2) by (auto simp: kings_ok_def)
    then have "80 - (80 - king_sq b (opp c)) = king_sq b (opp c)" by simp
    then show "board_arr (Flipped b) (80 - king_sq b (opp c)) = piece_Make c kKing"
      using board_arr_Flipped [OF assms(1), of "80 - king_sq b (opp c)"] s by (simp add: flip_piece_def kKing_def)
  qed simp
  have sq: "king_sq (Flipped b) c = 80 - king_sq b (opp c)" for c
    using board_okD(6) [OF board_ok_Flipped [OF assms(1)] k] by simp
  then show "king_sq (Flipped b) c = 80 - king_sq b (opp c)" "kings_ok (Flipped b)"
    using k by (simp_all add: kings_ok_def)
qed

text \<open>C19: the flipped position is consistent, has every piece on the rotated square with the
  other colour, the hands and the side to move exchanged, and flipping twice gives the placement,
  the hands and the side to move back.\<close>

theorem Flipped_correct:
  assumes "board_ok b" "kings_ok b"
  shows "board_ok (Flipped b) \<and> kings_ok (Flipped b) \<and>
    (\<forall>s<81. board_arr (Flipped b) s = flip_piece (board_arr b (80 - s))) \<and>
    (\<forall>c. hands (Flipped b) c = hands b (opp c)) \<and> side_to_move (Flipped b) = opp (side_to_move b) \<and>
    same_placement (Flipped (Flipped b)) b \<and> hands (Flipped (Flipped b)) = hands b \<and>
    side_to_move (Flipped (Flipped b)) = side_to_move b \<and> ply (Flipped (Flipped b)) = ply b"
proof -
  note ok = board_ok_Flipped [OF assms(1)]
  have "board_arr (Flipped (Flipped b)) s = board_arr b s" if "s < 81" for s
    using that board_okD(1) [OF assms(1) that] by (simp add: board_arr_Flipped ok assms)
  moreover have "king_sq (Flipped (Flipped b)) c = king_sq b c" for c
  proof -
    have "king_sq b c < 81" using assms(2) by (auto simp: kings_ok_def)
    then show ?thesis using kings_ok_Flipped(2) [OF ok kings_ok_Flipped(1) [OF assms], of c] kings_ok_Flipped(2) [OF assms, of "opp c"]
      by simp
  qed
  ultimately have "same_placement (Flipped (Flipped b)) b"
    by (intro same_placementI board_ok_Flipped ok assms)
  then show ?thesis
    using ok kings_ok_Flipped(1) [OF assms] by (auto simp: board_arr_Flipped assms Flipped_sel fun_eq_iff)
qed

theorem Flipped_correct_witness:
  "board_ok sample_board \<and> kings_ok sample_board \<and> board_arr (Flipped sample_board) 64 = 22 \<and>
   side_to_move (Flipped sample_board) = WHITE"
  using Flipped_correct [OF sample_board_ok] sample_board_ok
  by (auto simp: sample_board_arr sample_board_sel flip_piece_def piece_Make_def piece_GetColor_def piece_GetType_mod)

end
