(* ===== verification/Decimal.thy ===== *)
theory Decimal
  imports Prelude
begin

text \<open>
  The standard library's conversions between integers and decimal text as the sources use them:
  \<open>std::to_string\<close>, \<open>std::stoi\<close>, whitespace-separated extraction from a stream and
  \<open>std::tolower\<close> on ASCII letters.
\<close>

definition char_between :: "char \<Rightarrow> char \<Rightarrow> char \<Rightarrow> bool" where
  "char_between a b c \<longleftrightarrow> (of_char a :: nat) \<le> of_char c \<and> (of_char c :: nat) \<le> of_char b"

definition is_digit :: "char \<Rightarrow> bool" where
  "is_digit c = char_between (CHR ''0'') (CHR ''9'') c"

definition is_upper :: "char \<Rightarrow> bool" where
  "is_upper c = char_between (CHR ''A'') (CHR ''Z'') c"

definition digit_val :: "char \<Rightarrow> nat" where
  "digit_val c = of_char c - 48"

definition digit_char :: "nat \<Rightarrow> char" where
  "digit_char d = char_of (48 + d)"

definition to_lower :: "char \<Rightarrow> char" where
  "to_lower c = (if is_upper c then char_of (of_char c + 32 :: nat) else c)"

definition is_ws :: "char \<Rightarrow> bool" where
  "is_ws c \<longleftrightarrow> c = CHR '' '' \<or> char_between (CHR 0x09) (CHR 0x0D) c"

text \<open>\<open>stream >> token\<close>: the token and the rest; an exhausted stream leaves the token empty.\<close>

definition next_token :: "string \<Rightarrow> string \<times> string" where
  "next_token s = (let s = dropWhile is_ws s
     in (takeWhile (\<lambda>c. \<not> is_ws c) s, dropWhile (\<lambda>c. \<not> is_ws c) s))"

fun dec_nat :: "nat \<Rightarrow> string" where
  "dec_nat n = (if n < 10 then [digit_char n] else dec_nat (n div 10) @ [digit_char (n mod 10)])"

declare dec_nat.simps [simp del]

definition dec_int :: "int \<Rightarrow> string" where
  "dec_int i = (if i < 0 then CHR ''-'' # dec_nat (nat (- i)) else dec_nat (nat i))"

definition digits_val :: "string \<Rightarrow> nat" where
  "digits_val = foldl (\<lambda>v c. v * 10 + digit_val c) 0"

text \<open>\<open>std::stoi\<close>; \<open>None\<close> stands for the exceptions \<open>invalid_argument\<close> and \<open>out_of_range\<close>.\<close>

definition stoi :: "string \<Rightarrow> int option" where
  "stoi s = (let s = dropWhile is_ws s;
       neg = (s \<noteq> [] \<and> hd s = CHR ''-'');
       s = (if s \<noteq> [] \<and> (hd s = CHR ''-'' \<or> hd s = CHR ''+'') then tl s else s);
       ds = takeWhile is_digit s;
       v = (if neg then - int (digits_val ds) else int (digits_val ds))
     in if ds = [] \<or> v < - (2 ^ 31) \<or> v \<ge> 2 ^ 31 then None else Some v)"

subsection \<open>Round trips\<close>

lemma of_char_digit [simp]: "d < 10 \<Longrightarrow> (of_char (digit_char d) :: nat) = 48 + d"
  by (simp add: digit_char_def)

lemma digit_char_props [simp]:
  "d < 10 \<Longrightarrow> is_digit (digit_char d)" "d < 10 \<Longrightarrow> digit_val (digit_char d) = d"
  "d < 10 \<Longrightarrow> \<not> is_ws (digit_char d)"
  by (auto simp: is_digit_def char_between_def digit_val_def is_ws_def dest: arg_cong [where f = "of_char :: char \<Rightarrow> nat"])

lemma set_dec_nat: "set (dec_nat n) \<subseteq> digit_char ` {..<10}"
proof (induction n rule: dec_nat.induct)
  case (1 n)
  then show ?case by (subst dec_nat.simps) auto
qed

lemma dec_nat_chars:
  assumes "c \<in> set (dec_nat n)"
  shows "is_digit c" "\<not> is_ws c"
  using assms set_dec_nat [of n] by auto

lemma dec_nat_nonempty [simp]: "dec_nat n \<noteq> []"
  by (subst dec_nat.simps) simp

lemma digits_val_dec_nat [simp]: "digits_val (dec_nat n) = n"
proof (induction n rule: dec_nat.induct)
  case (1 n)
  show ?case
  proof (cases "n < 10")
    case True
    then show ?thesis by (subst dec_nat.simps) (simp add: digits_val_def)
  next
    case False
    then have "digits_val (dec_nat (n div 10)) = n div 10" by (rule 1)
    then show ?thesis using False by (subst dec_nat.simps) (simp add: digits_val_def)
  qed
qed

lemma dec_nat_single: "n < 10 \<Longrightarrow> dec_nat n = [digit_char n]"
  by (subst dec_nat.simps) simp

lemma digit_not_sign: "is_digit c \<Longrightarrow> c \<noteq> CHR ''-'' \<and> c \<noteq> CHR ''+''"
  by (auto simp: is_digit_def char_between_def)

lemma stoi_dec_int:
  assumes "- (2 ^ 31) \<le> i" "i < 2 ^ 31"
  shows "stoi (dec_int i) = Some i"
proof -
  have dw: "dropWhile is_ws (dec_nat n) = dec_nat n" "takeWhile is_digit (dec_nat n) = dec_nat n" for n
    using dec_nat_chars [of _ n] by (auto simp: dropWhile_eq_self_iff takeWhile_eq_all_conv)
  have hd: "hd (dec_nat n) \<noteq> CHR ''-'' \<and> hd (dec_nat n) \<noteq> CHR ''+''" for n
    using dec_nat_chars(1) [of "hd (dec_nat n)" n] digit_not_sign by simp
  have ws: "\<not> is_ws (CHR ''-'')" by (simp add: is_ws_def char_between_def)
  show ?thesis
    using assms by (cases "i < 0") (simp_all add: stoi_def dec_int_def Let_def dw hd ws)
qed

lemma dec_int_chars: "c \<in> set (dec_int i) \<Longrightarrow> \<not> is_ws c"
  using dec_nat_chars(2) by (auto simp: dec_int_def is_ws_def char_between_def split: if_splits)

lemma next_token_word:
  assumes "w \<noteq> []" "\<And>c. c \<in> set w \<Longrightarrow> \<not> is_ws c"
  shows "next_token (w @ CHR '' '' # s) = (w, CHR '' '' # s)" "next_token w = (w, [])"
    "next_token (CHR '' '' # w @ CHR '' '' # s) = (w, CHR '' '' # s)" "next_token (CHR '' '' # w) = (w, [])"
proof -
  have sp: "is_ws (CHR '' '')" by (simp add: is_ws_def)
  have dw: "dropWhile is_ws (w @ t) = w @ t" for t
    using assms by (cases w) auto
  note tw = takeWhile_append2 dropWhile_append2
  show "next_token (w @ CHR '' '' # s) = (w, CHR '' '' # s)" "next_token w = (w, [])"
    "next_token (CHR '' '' # w @ CHR '' '' # s) = (w, CHR '' '' # s)" "next_token (CHR '' '' # w) = (w, [])"
    using dw [of "CHR '' '' # s"] dw [of "[]"] assms(2) sp
    by (simp_all add: next_token_def Let_def takeWhile_append2 dropWhile_append2 takeWhile_eq_all_conv dropWhile_eq_Nil_conv)
qed

end
