(* ===== verification/Sfen.thy ===== *)
theory Sfen
  imports GameRules Decimal
begin

text \<open>
  Reading and printing positions as text: \<open>SetFromSfen\<close>, \<open>ToSfen\<close>, \<open>SetStartPos\<close> and
  \<open>DebugString\<close> of shogi/board.cc.  The parser is total: it keeps going on malformed
  placements as the code does (a piece beyond the board edge lands on the square index
  the 8-bit arithmetic gives), and stops only at a character that is no piece.
\<close>

subsection \<open>Printing\<close>

definition piece_char :: "color \<Rightarrow> piece_type \<Rightarrow> char" where
  "piece_char c pt = (if c = WHITE then to_lower (pt_ToChar pt) else pt_ToChar pt)"

definition sfen_piece :: "piece \<Rightarrow> string" where
  "sfen_piece pc =
     (let pt = piece_GetType pc; c = piece_GetColor pc in
      if pt_IsPromoted pt then CHR ''+'' # [piece_char c (pt_Unpromote pt)] else [piece_char c pt])"

fun sfen_rank :: "shogi_board \<Rightarrow> nat \<Rightarrow> nat list \<Rightarrow> nat \<Rightarrow> string" where
  "sfen_rank b r [] empty_count = (if empty_count > 0 then dec_nat empty_count else [])"
| "sfen_rank b r (f # fs) empty_count =
     (let pc = piece_on b (mk_square f r) in
      if piece_IsNone pc then sfen_rank b r fs (empty_count + 1)
      else (if empty_count > 0 then dec_nat empty_count else []) @ sfen_piece pc @ sfen_rank b r fs 0)"

definition hand_order :: "piece_type list" where
  "hand_order = [kRook, kBishop, kGold, kSilver, kKnight, kLance, kPawn]"

definition sfen_hand_item :: "shogi_board \<Rightarrow> color \<Rightarrow> piece_type \<Rightarrow> string" where
  "sfen_hand_item b c pt =
     (let cnt = hand_Count (hands b c) pt in
      if cnt = 0 then [] else (if cnt > 1 then dec_nat cnt else []) @ [piece_char c pt])"

definition sfen_hands :: "shogi_board \<Rightarrow> string" where
  "sfen_hands b = concat (map (\<lambda>c. concat (map (sfen_hand_item b c) hand_order)) [BLACK, WHITE])"

definition sfen_board :: "shogi_board \<Rightarrow> string" where
  "sfen_board b = concat (map (\<lambda>r. (if r > 0 then ''/'' else []) @ sfen_rank b r (rev [0..<9]) 0) [0..<9])"

definition ToSfen :: "shogi_board \<Rightarrow> string" where
  "ToSfen b = sfen_board b @ (if side_to_move b = BLACK then '' b '' else '' w '') @
     (if sfen_hands b = [] then ''-'' else sfen_hands b) @ '' '' @ dec_int (ply b)"

definition debug_piece :: "piece \<Rightarrow> string" where
  "debug_piece pc =
     (if piece_IsNone pc then '' .''
      else
        let pt = piece_GetType pc; c = piece_char (piece_GetColor pc) pt in
        if pt_IsPromoted pt then CHR ''+'' # [piece_char (piece_GetColor pc) (pt_Unpromote pt)]
        else CHR '' '' # [c])"

definition debug_hand :: "shogi_board \<Rightarrow> color \<Rightarrow> string" where
  "debug_hand b c =
     (let items = concat (map (\<lambda>pt. let cnt = hand_Count (hands b c) pt in
                if cnt > 0 then (if cnt > 1 then dec_nat cnt else []) @ [pt_ToChar pt] else []) hand_order)
      in (if c = BLACK then ''Black hand: '' else ''White hand: '') @ (if items = [] then ''-'' else items) @ ''\<newline>'')"

definition DebugString :: "shogi_board \<Rightarrow> string" where
  "DebugString b =
     ''  9 8 7 6 5 4 3 2 1\<newline>'' @ ''+-------------------+\<newline>'' @
     concat (map (\<lambda>r. ''|'' @ concat (map (\<lambda>f. debug_piece (piece_on b (mk_square f r))) (rev [0..<9])) @
                      ''| '' @ [char_of (97 + r)] @ ''\<newline>'') [0..<9]) @
     ''+-------------------+\<newline>'' @ concat (map (debug_hand b) [BLACK, WHITE]) @
     ''Side to move: '' @ (if side_to_move b = BLACK then ''BLACK'' else ''WHITE'') @ ''\<newline>''"

subsection \<open>Parsing\<close>

text \<open>The loop over the placement, with the file and rank counters and the promotion flag.\<close>

fun parse_board :: "string \<Rightarrow> int \<Rightarrow> int \<Rightarrow> bool \<Rightarrow> shogi_board \<Rightarrow> bool \<times> shogi_board" where
  "parse_board [] f r promoted b = (True, b)"
| "parse_board (ch # cs) f r promoted b =
     (if ch = CHR ''/'' then parse_board cs 8 (r + 1) promoted b
      else if ch = CHR ''+'' then parse_board cs f r True b
      else if char_between (CHR ''1'') (CHR ''9'') ch
      then parse_board cs (f - int (digit_val ch)) r promoted b
      else
        let c = (if is_upper ch then BLACK else WHITE); pt = pt_Parse ch in
        if \<not> pt_IsValid pt then (False, b)
        else let pt = (if promoted then pt_Promote pt else pt);
                 sq = mk_square (nat (f mod 256)) (nat (r mod 256))
             in parse_board cs (f - 1) r False (PutPiece b sq (piece_Make c pt)))"

fun parse_hands :: "string \<Rightarrow> int \<Rightarrow> (color \<Rightarrow> hand) \<Rightarrow> (color \<Rightarrow> hand)" where
  "parse_hands [] count hs = hs"
| "parse_hands (ch # cs) count hs =
     (if is_digit ch then parse_hands cs (count * 10 + int (digit_val ch)) hs
      else
        let count = (if count = 0 then 1 else count);
            c = (if is_upper ch then BLACK else WHITE); pt = pt_Parse ch
        in parse_hands cs 0 (hs(c := ((\<lambda>h. hand_Add h pt) ^^ nat count) (hs c))))"

text \<open>The result flag and the position; the old position is discarded (\<open>*this = ShogiBoard()\<close>).\<close>

definition SetFromSfen :: "string \<Rightarrow> bool \<times> shogi_board" where
  "SetFromSfen sfen =
     (let (board_str, s) = next_token sfen; (side_str, s) = next_token s;
          (hand_str, s) = next_token s; (ply_str, s) = next_token s;
          (ok, b) = parse_board board_str 8 0 False empty_board
      in if \<not> ok then (False, b)
         else
           let b = b\<lparr>side_to_move := (if side_str = ''w'' then WHITE else BLACK)\<rparr>;
               b = (if hand_str \<noteq> ''-'' then b\<lparr>hands := parse_hands hand_str 0 (hands b)\<rparr> else b);
               b = b\<lparr>ply := (if ply_str = [] then 1
                             else case stoi ply_str of Some n \<Rightarrow> n | None \<Rightarrow> 1)\<rparr>
           in (True, ClearHistory (ComputeHash b)))"

definition kStartingSfen :: string where
  "kStartingSfen = ''lnsgkgsnl/1r5b1/ppppppppp/9/9/9/PPPPPPPPP/1B5R1/LNSGKGSNL b - 1''"

definition SetStartPos :: shogi_board where
  "SetStartPos = snd (SetFromSfen kStartingSfen)"

subsection \<open>Reading back a printed placement\<close>

text \<open>The characters of the pieces.\<close>

lemma piece_char_props:
  assumes "1 \<le> pt" "pt \<le> 8"
  shows "pt_Parse (piece_char c pt) = pt" "is_upper (piece_char c pt) \<longleftrightarrow> c = BLACK"
    "\<not> is_digit (piece_char c pt)" "\<not> is_ws (piece_char c pt)"
    "piece_char c pt \<noteq> CHR ''/''" "piece_char c pt \<noteq> CHR ''+''" "piece_char c pt \<noteq> CHR ''-''"
    "\<not> char_between (CHR ''1'') (CHR ''9'') (piece_char c pt)"
proof -
  let ?ok = "\<lambda>pt c. pt_Parse (piece_char c pt) = pt \<and> (is_upper (piece_char c pt) \<longleftrightarrow> c = BLACK) \<and>
    \<not> is_digit (piece_char c pt) \<and> \<not> is_ws (piece_char c pt) \<and> piece_char c pt \<noteq> CHR ''/'' \<and>
    piece_char c pt \<noteq> CHR ''+'' \<and> piece_char c pt \<noteq> CHR ''-'' \<and>
    \<not> char_between (CHR ''1'') (CHR ''9'') (piece_char c pt)"
  have "list_all (\<lambda>c. list_all (\<lambda>pt. ?ok pt c) [1..<9]) [BLACK, WHITE]" by code_simp
  then have "?ok pt c" using assms by (cases c) (auto simp: list_all_iff simp del: upt_Suc)
  then show "pt_Parse (piece_char c pt) = pt" "is_upper (piece_char c pt) \<longleftrightarrow> c = BLACK"
    "\<not> is_digit (piece_char c pt)" "\<not> is_ws (piece_char c pt)"
    "piece_char c pt \<noteq> CHR ''/''" "piece_char c pt \<noteq> CHR ''+''" "piece_char c pt \<noteq> CHR ''-''"
    "\<not> char_between (CHR ''1'') (CHR ''9'') (piece_char c pt)"
    by blast+
qed

lemma promoted_type_cases:
  "piece_ok v \<Longrightarrow> v \<noteq> 0 \<Longrightarrow> pt_IsPromoted (piece_GetType v) \<Longrightarrow>
    1 \<le> pt_Unpromote (piece_GetType v) \<and> pt_Unpromote (piece_GetType v) \<le> 6 \<and>
    pt_Promote (pt_Unpromote (piece_GetType v)) = piece_GetType v"
proof -
  have "list_all (\<lambda>t. 1 \<le> pt_Unpromote t \<and> pt_Unpromote t \<le> 6 \<and> pt_Promote (pt_Unpromote t) = t) [9..<15]"
    by (simp add: pt_Unpromote_def nat_and_7 pt_Promote_def upt_rec)
  then have "\<forall>t\<in>{9..<15}. 1 \<le> pt_Unpromote t \<and> pt_Unpromote t \<le> 6 \<and> pt_Promote (pt_Unpromote t) = t"
    by (simp only: list_all_iff set_upt)
  moreover assume "piece_ok v" "v \<noteq> 0" "pt_IsPromoted (piece_GetType v)"
  then have "piece_GetType v \<in> {9..<15}" using piece_ok_type [of v] by (simp add: pt_IsPromoted_def)
  ultimately show ?thesis by blast
qed

lemma unpromoted_type:
  "piece_ok v \<Longrightarrow> v \<noteq> 0 \<Longrightarrow> \<not> pt_IsPromoted (piece_GetType v) \<Longrightarrow> 1 \<le> piece_GetType v \<and> piece_GetType v \<le> 8"
  using piece_ok_type [of v] by (auto simp: pt_IsPromoted_def)

lemma pt_IsValid_hand: "1 \<le> pt \<Longrightarrow> pt \<le> 8 \<Longrightarrow> pt_IsValid pt"
  by (auto simp: pt_IsValid_def)

lemma parse_board_piece:
  assumes "piece_ok v" "v \<noteq> 0" "f < 9" "r < 9"
  shows "parse_board (sfen_piece v @ rest) (int f) (int r) False b =
    parse_board rest (int f - 1) (int r) False (PutPiece b (mk_square f r) v)"
proof -
  have v: "piece_Make (piece_GetColor v) (piece_GetType v) = v" using piece_eq_Make [OF assms(1,2)] by simp
  have fr: "nat (int f mod 256) = f" "nat (int r mod 256) = r" using assms by simp_all
  have c: "(if is_upper (piece_char (piece_GetColor v) t) then BLACK else WHITE) = piece_GetColor v"
    if "1 \<le> t" "t \<le> 8" for t
    using piece_char_props(2) [OF that, of "piece_GetColor v"] by (cases "piece_GetColor v") auto
  show ?thesis
  proof (cases "pt_IsPromoted (piece_GetType v)")
    case True
    from promoted_type_cases [OF assms(1,2) True]
    have t: "1 \<le> pt_Unpromote (piece_GetType v)" "pt_Unpromote (piece_GetType v) \<le> 8"
      "pt_Promote (pt_Unpromote (piece_GetType v)) = piece_GetType v" by auto
    show ?thesis
      using True piece_char_props [OF t(1,2)] c [OF t(1,2)] pt_IsValid_hand [OF t(1,2)] t(3) v fr
      by (simp add: sfen_piece_def Let_def)
  next
    case False
    note t = unpromoted_type [OF assms(1,2) False, THEN conjunct1] unpromoted_type [OF assms(1,2) False, THEN conjunct2]
    show ?thesis
      using False piece_char_props [OF t] c [OF t] pt_IsValid_hand [OF t] v fr
      by (simp add: sfen_piece_def Let_def)
  qed
qed

lemma parse_board_digit:
  assumes "1 \<le> e" "e \<le> 9"
  shows "parse_board (dec_nat e @ rest) f r pr b = parse_board rest (f - int e) r pr b"
proof -
  have "digit_char e \<noteq> CHR ''/''" "digit_char e \<noteq> CHR ''+''" "char_between (CHR ''1'') (CHR ''9'') (digit_char e)"
    using assms of_char_digit [of e]
    by (auto simp: char_between_def dest: arg_cong [where f = "of_char :: char \<Rightarrow> nat"])
  then show ?thesis using assms by (simp add: dec_nat_single)
qed

definition rank_list :: "shogi_board \<Rightarrow> nat \<Rightarrow> nat \<Rightarrow> (square \<times> piece) list" where
  "rank_list b r k = map (\<lambda>f. (mk_square f r, board_arr b (mk_square f r)))
     (filter (\<lambda>f. board_arr b (mk_square f r) \<noteq> 0) (rev [0..<k]))"

lemma rank_list_Suc:
  "rank_list b r (Suc k) = (if board_arr b (mk_square k r) \<noteq> 0
     then (mk_square k r, board_arr b (mk_square k r)) # rank_list b r k else rank_list b r k)"
  by (simp add: rank_list_def)

lemma parse_board_rank:
  assumes b: "board_ok b" and r: "r < 9" and k: "k + e \<le> 9"
  shows "parse_board (sfen_rank b r (rev [0..<k]) e @ rest) (int (k + e) - 1) (int r) False a =
    parse_board rest (- 1) (int r) False (place_all (rank_list b r k) a)"
  using k
proof (induction k arbitrary: e a)
  case 0
  then show ?case by (cases "e = 0") (simp_all add: rank_list_def parse_board_digit)
next
  case (Suc k)
  let ?v = "board_arr b (mk_square k r)"
  show ?case
  proof (cases "?v = 0")
    case True
    then show ?thesis using Suc.IH [of "e + 1" a] Suc.prems
      by (simp add: piece_on_def piece_IsNone_def Let_def rank_list_Suc add_ac)
  next
    case False
    have ok: "piece_ok ?v" using board_okD(1) [OF b] r Suc.prems by simp
    have "parse_board (sfen_piece ?v @ sfen_rank b r (rev [0..<k]) 0 @ rest) (int k) (int r) False a =
        parse_board rest (- 1) (int r) False (place_all (rank_list b r (Suc k)) a)"
      using parse_board_piece [OF ok False _ r, of k] Suc.IH [of 0] Suc.prems False
      by (simp add: rank_list_Suc)
    moreover have "parse_board ((if e > 0 then dec_nat e else []) @ w) (int k + int e) (int r) False a =
        parse_board w (int k) (int r) False a" for w
      using Suc.prems by (auto simp: parse_board_digit)
    ultimately show ?thesis using False
      by (simp add: piece_on_def piece_IsNone_def Let_def add_ac)
  qed
qed

definition all_list :: "shogi_board \<Rightarrow> nat \<Rightarrow> nat \<Rightarrow> (square \<times> piece) list" where
  "all_list b r n = concat (map (\<lambda>r. rank_list b r 9) [r..<n])"

lemma parse_board_ranks:
  assumes b: "board_ok b" and "1 \<le> n" "n \<le> 9"
  shows "parse_board (concat (map (\<lambda>r. (if r > 0 then ''/'' else []) @ sfen_rank b r (rev [0..<9]) 0) [0..<n]) @ rest)
      8 0 False a = parse_board rest (- 1) (int n - 1) False (place_all (all_list b 0 n) a)"
  using assms(2,3)
proof (induction n arbitrary: rest)
  case (Suc n)
  show ?case
  proof (cases "n = 0")
    case True
    show ?thesis using parse_board_rank [OF b, of 0 9 0 rest a] by (simp add: True all_list_def)
  next
    case False
    then show ?thesis
      using parse_board_rank [OF b, of n 9 0 rest] Suc.prems
      by (simp add: all_list_def Suc.IH)
  qed
qed simp

text \<open>The squares in the order of the text: rank a first, file 9 first.\<close>

definition sfen_order :: "square list" where
  "sfen_order = concat (map (\<lambda>r. map (\<lambda>f. mk_square f r) (rev [0..<9])) [0..<9])"

lemma sfen_order_props: "distinct sfen_order" "s \<in> set sfen_order \<longleftrightarrow> s < 81"
proof -
  show "distinct sfen_order" unfolding sfen_order_def by code_simp
  show "s \<in> set sfen_order \<longleftrightarrow> s < 81"
    by (auto simp: sfen_order_def simp del: upt_Suc intro!: bexI [of _ "sq_rank s"] image_eqI [of _ _ "sq_file s"])
qed

text \<open>Placing the pieces of a consistent position in any order on an empty board rebuilds it.\<close>

definition placement_list :: "shogi_board \<Rightarrow> square list \<Rightarrow> (square \<times> piece) list" where
  "placement_list b ss = map (\<lambda>s. (s, board_arr b s)) (filter (\<lambda>s. board_arr b s \<noteq> 0) ss)"

lemma all_list_order: "all_list b 0 9 = placement_list b sfen_order"
proof -
  have "concat (map (\<lambda>r. rank_list b r 9) rs) =
      placement_list b (concat (map (\<lambda>r. map (\<lambda>f. mk_square f r) (rev [0..<9])) rs))" for rs
    by (induction rs) (simp_all add: rank_list_def placement_list_def filter_map o_def)
  then show ?thesis by (simp add: all_list_def sfen_order_def)
qed

lemma placement_list_rebuilds:
  assumes b: "board_ok b" and ss: "distinct ss" "\<And>s. s \<in> set ss \<longleftrightarrow> s < 81"
    and a: "board_ok a" "\<And>s. board_arr a s = 0"
  shows "board_ok (place_all (placement_list b ss) a)"
    and "s < 81 \<Longrightarrow> board_arr (place_all (placement_list b ss) a) s = board_arr b s"
proof -
  have fst: "map fst (placement_list b ss) = filter (\<lambda>s. board_arr b s \<noteq> 0) ss"
    by (simp add: placement_list_def o_def)
  then have d: "distinct (map fst (placement_list b ss))" using ss(1) by simp
  have "fst x = king_sq b c" if "x \<in> set (placement_list b ss)" "snd x = piece_Make c kKing" for x c
    using that ss(2) board_okD(6) [OF b] by (auto simp: placement_list_def)
  then have "one_king (placement_list b ss)" by (intro one_kingI [OF _ d]) metis
  then have "placeable (placement_list b ss)"
    using d ss(2) board_okD(1) [OF b] by (auto simp: placeable_def placement_list_def)
  then show "board_ok (place_all (placement_list b ss) a)"
    using a by (intro board_ok_place_all) (auto simp: placement_list_def)
  show "board_arr (place_all (placement_list b ss) a) s = board_arr b s" if "s < 81"
  proof (cases "board_arr b s = 0")
    case True
    then have "map_of (placement_list b ss) s = None"
      by (auto simp: map_of_eq_None_iff placement_list_def)
    then show ?thesis using True a(2) by (simp add: board_arr_place_all [OF d])
  next
    case False
    then have "(s, board_arr b s) \<in> set (placement_list b ss)" using that ss(2) by (auto simp: placement_list_def)
    then show ?thesis using map_of_is_SomeI [OF d] by (simp add: board_arr_place_all [OF d])
  qed
qed

subsection \<open>Reading back the hands\<close>

lemma parse_hands_digits:
  "(\<And>c. c \<in> set ds \<Longrightarrow> is_digit c) \<Longrightarrow>
    parse_hands (ds @ rest) (int k) hs = parse_hands rest (int (foldl (\<lambda>v c. v * 10 + digit_val c) k ds)) hs"
proof (induction ds arbitrary: k)
  case (Cons d ds)
  then show ?case using Cons.IH [of "k * 10 + digit_val d"] by simp
qed simp

lemma parse_hands_dec_nat: "parse_hands (dec_nat n @ rest) 0 hs = parse_hands rest (int n) hs"
  using parse_hands_digits [of "dec_nat n" rest 0 hs] dec_nat_chars(1)
  by (simp add: digits_val_def [symmetric, THEN fun_cong, simplified])

lemma parse_hand_item:
  assumes "pt_IsHandPiece pt"
  shows "parse_hands (sfen_hand_item b c pt @ rest) 0 hs =
    parse_hands rest 0 (hs(c := ((\<lambda>h. hand_Add h pt) ^^ hand_Count (hands b c) pt) (hs c)))"
proof -
  have pt: "1 \<le> pt" "pt \<le> 8" using assms by (auto simp: pt_IsHandPiece_def)
  have c: "(if is_upper (piece_char c pt) then BLACK else WHITE) = c"
    using piece_char_props(2) [OF pt, of c] by (cases c) auto
  consider "hand_Count (hands b c) pt = 0" | "hand_Count (hands b c) pt = 1" | "1 < hand_Count (hands b c) pt" by linarith
  then show ?thesis
    by cases (use piece_char_props [OF pt, of c] c in
      \<open>simp_all add: sfen_hand_item_def Let_def parse_hands_dec_nat\<close>)
qed

lemma hand_Add_power:
  "pt_IsHandPiece pt \<Longrightarrow> ((\<lambda>h. hand_Add h pt) ^^ n) (hand_of c) = hand_of (c(pt := c pt + n))"
  by (induction n) (simp_all add: hand_Add_hand_of)

lemma hand_Empty_of: "hand_Empty = hand_of (\<lambda>_. 0)"
  by (simp add: hand_Empty_def hand_of_def counts_sum_def)

lemma parse_hand_items:
  assumes "\<And>pt. pt \<in> set pts \<Longrightarrow> pt_IsHandPiece pt" "distinct pts" "hs c = hand_of k" "\<And>pt. pt \<in> set pts \<Longrightarrow> k pt = 0"
  shows "parse_hands (concat (map (sfen_hand_item b c) pts) @ rest) 0 hs =
    parse_hands rest 0 (hs(c := hand_of (\<lambda>pt. if pt \<in> set pts then hand_Count (hands b c) pt else k pt)))"
  using assms
proof (induction pts arbitrary: hs k)
  case Nil
  then show ?case by (simp add: fun_upd_idem)
next
  case (Cons p pts)
  have eq: "(\<lambda>pt. if pt \<in> set pts then hand_Count (hands b c) pt else (k(p := hand_Count (hands b c) p)) pt) =
      (\<lambda>pt. if pt \<in> set (p # pts) then hand_Count (hands b c) pt else k pt)" by auto
  let ?hs = "hs(c := hand_of (k(p := hand_Count (hands b c) p)))"
  have "parse_hands (concat (map (sfen_hand_item b c) (p # pts)) @ rest) 0 hs =
      parse_hands (concat (map (sfen_hand_item b c) pts) @ rest) 0 ?hs"
    using Cons.prems by (simp add: parse_hand_item hand_Add_power)
  also have "\<dots> = parse_hands rest 0 (?hs(c := hand_of (\<lambda>pt. if pt \<in> set pts then hand_Count (hands b c) pt
      else (k(p := hand_Count (hands b c) p)) pt)))"
    by (rule Cons.IH [where hs = ?hs and k = "k(p := hand_Count (hands b c) p)"])
      (use Cons.prems in \<open>auto simp: fun_upd_def\<close>)
  finally show ?case unfolding fun_upd_upd eq .
qed

lemma parse_hands_sfen:
  assumes "\<And>c. hand_ok (hands b c)"
  shows "parse_hands (sfen_hands b) 0 (\<lambda>_. hand_Empty) = hands b"
proof -
  have ho: "set hand_order = {1..7}" "distinct hand_order"
    by (auto simp: hand_order_def piece_type_defs)
  have hp: "pt \<in> set hand_order \<Longrightarrow> pt_IsHandPiece pt" for pt by (auto simp: ho(1) pt_IsHandPiece_def)
  have "hand_of (\<lambda>pt. if pt \<in> set hand_order then hand_Count (hands b c) pt else 0) = hands b c" for c
    using assms [of c] unfolding hand_ok_def hand_of_def counts_sum_def ho by simp
  moreover have "parse_hands (sfen_hands b) 0 (\<lambda>_. hand_Empty) =
     (\<lambda>_. hand_Empty)(BLACK := hand_of (\<lambda>pt. if pt \<in> set hand_order then hand_Count (hands b BLACK) pt else 0),
       WHITE := hand_of (\<lambda>pt. if pt \<in> set hand_order then hand_Count (hands b WHITE) pt else 0))"
    using parse_hand_items [OF hp ho(2), where k = "\<lambda>_. 0" and b = b and c = BLACK]
      parse_hand_items [OF hp ho(2), where k = "\<lambda>_. 0" and b = b and c = WHITE and rest = "[]"]
    by (simp add: sfen_hands_def hand_Empty_of)
  ultimately show ?thesis by (auto simp: fun_eq_iff) (metis color.exhaust)
qed

subsection \<open>The round trip\<close>

lemma sfen_piece_chars: "piece_ok v \<Longrightarrow> v \<noteq> 0 \<Longrightarrow> ch \<in> set (sfen_piece v) \<Longrightarrow> \<not> is_ws ch"
  using promoted_type_cases [of v] unpromoted_type [of v] piece_char_props(4)
  by (auto simp: sfen_piece_def Let_def is_ws_def char_between_def split: if_splits)

lemma sfen_rank_chars:
  assumes "board_ok b" "r < 9" "\<And>f. f \<in> set fs \<Longrightarrow> f < 9" "ch \<in> set (sfen_rank b r fs e)"
  shows "\<not> is_ws ch"
  using assms(3,4)
proof (induction fs arbitrary: e)
  case Nil
  then show ?case using dec_nat_chars(2) by (auto split: if_splits)
next
  case (Cons f fs)
  have "piece_ok (board_arr b (mk_square f r))" using Cons.prems(1) assms(1,2) board_okD(1) by simp
  note sfen_piece_chars [OF this]
  then show ?case using Cons dec_nat_chars(2)
    by (fastforce simp: Let_def piece_on_def piece_IsNone_def split: if_splits)
qed

lemma sfen_board_chars: "board_ok b \<Longrightarrow> ch \<in> set (sfen_board b) \<Longrightarrow> \<not> is_ws ch"
  using sfen_rank_chars [of b _ "rev [0..<9]" ch 0]
  by (auto simp: sfen_board_def is_ws_def char_between_def simp del: upt_Suc split: if_splits)

lemma sfen_hands_chars:
  assumes "ch \<in> set (sfen_hands b)"
  shows "\<not> is_ws ch"
proof -
  have "1 \<le> pt \<and> pt \<le> 8" if "pt \<in> set hand_order" for pt
    using that by (auto simp: hand_order_def piece_type_defs)
  then have "\<not> is_ws ch" if "pt \<in> set hand_order" "ch \<in> set (sfen_hand_item b c pt)" for pt c
    using that piece_char_props(4) [of pt c] dec_nat_chars(2)
    by (auto simp: sfen_hand_item_def Let_def split: if_splits)
  then show ?thesis using assms by (auto simp: sfen_hands_def)
qed

lemma sfen_hands_not_dash: "sfen_hands b \<noteq> ''-''"
proof
  assume a: "sfen_hands b = ''-''"
  have "1 \<le> pt \<and> pt \<le> 8" if "pt \<in> set hand_order" for pt
    using that by (auto simp: hand_order_def piece_type_defs)
  then have "CHR ''-'' \<noteq> ch" if "pt \<in> set hand_order" "ch \<in> set (sfen_hand_item b c pt)" for pt c ch
    using that piece_char_props(7) [of pt c] dec_nat_chars(1) [of ch] digit_not_sign [of ch]
    by (auto simp: sfen_hand_item_def Let_def split: if_splits)
  then have "CHR ''-'' \<notin> set (sfen_hands b)" by (auto simp: sfen_hands_def)
  then show False using a by simp
qed

lemma next_token_sfen:
  assumes "board_ok b"
  shows "next_token (ToSfen b) = (sfen_board b, drop (length (sfen_board b)) (ToSfen b))"
    and "next_token (drop (length (sfen_board b)) (ToSfen b)) =
      (if side_to_move b = BLACK then ''b'' else ''w'',
       '' '' @ (if sfen_hands b = [] then ''-'' else sfen_hands b) @ '' '' @ dec_int (ply b))"
    and "next_token ('' '' @ (if sfen_hands b = [] then ''-'' else sfen_hands b) @ '' '' @ dec_int (ply b)) =
      (if sfen_hands b = [] then ''-'' else sfen_hands b, '' '' @ dec_int (ply b))"
    and "next_token ('' '' @ dec_int (ply b)) = (dec_int (ply b), [])"
proof -
  have ne: "sfen_board b \<noteq> []"
    by (auto simp: sfen_board_def simp del: upt_Suc intro!: bexI [of _ 1])
  show "next_token (ToSfen b) = (sfen_board b, drop (length (sfen_board b)) (ToSfen b))"
    using next_token_word(1) [OF ne, of "tl ((if side_to_move b = BLACK then '' b '' else '' w '') @
       (if sfen_hands b = [] then ''-'' else sfen_hands b) @ '' '' @ dec_int (ply b))"] sfen_board_chars [OF assms]
    by (auto simp: ToSfen_def)
  have w: "\<not> is_ws (CHR ''b'')" "\<not> is_ws (CHR ''w'')" "\<not> is_ws (CHR ''-'')" by (auto simp: is_ws_def char_between_def)
  show "next_token (drop (length (sfen_board b)) (ToSfen b)) =
      (if side_to_move b = BLACK then ''b'' else ''w'',
       '' '' @ (if sfen_hands b = [] then ''-'' else sfen_hands b) @ '' '' @ dec_int (ply b))"
    using next_token_word(3) [of "''b''"] next_token_word(3) [of "''w''"] w by (simp add: ToSfen_def)
  show "next_token ('' '' @ (if sfen_hands b = [] then ''-'' else sfen_hands b) @ '' '' @ dec_int (ply b)) =
      (if sfen_hands b = [] then ''-'' else sfen_hands b, '' '' @ dec_int (ply b))"
    using next_token_word(3) [of "''-''"] next_token_word(3) [of "sfen_hands b"] sfen_hands_chars w by auto
  show "next_token ('' '' @ dec_int (ply b)) = (dec_int (ply b), [])"
    using next_token_word(4) [of "dec_int (ply b)"] dec_int_chars by (simp add: dec_int_def)
qed

lemma full_hash_cong:
  assumes "\<And>s. s < 81 \<Longrightarrow> board_arr a s = board_arr b s" "hands a = hands b" "side_to_move a = side_to_move b"
  shows "full_hash a = full_hash b"
proof -
  have "fold (\<lambda>sq h. if \<not> piece_IsNone (board_arr a sq) then h XOR zPsq (board_arr a sq) sq else h) [0..<81] 0 =
    fold (\<lambda>sq h. if \<not> piece_IsNone (board_arr b sq) then h XOR zPsq (board_arr b sq) sq else h) [0..<81] 0"
    using assms(1) by (intro fold_cong) (auto simp del: upt_Suc)
  then show ?thesis using assms(2,3) by (simp only: full_hash_def Let_def)
qed

text \<open>C20: the text of a consistent position reads back, into any board, as the same placement,
  hands, side to move and move number, with the hash computed afresh and a cleared history.\<close>

theorem SetFromSfen_ToSfen:
  assumes "board_ok b" "kings_ok b" "\<forall>c. hand_ok (hands b c)" "- (2 ^ 31) \<le> ply b" "ply b < 2 ^ 31"
  shows "let (ok, a) = SetFromSfen (ToSfen b) in
    ok \<and> board_ok a \<and> same_placement a b \<and> hands a = hands b \<and> side_to_move a = side_to_move b \<and>
    ply a = ply b \<and> hash a = full_hash b \<and> history a = [] \<and> continuous_check a = (\<lambda>_. 0)"
proof -
  let ?p = "place_all (placement_list b sfen_order) empty_board"
  have e: "board_arr empty_board s = 0" for s by (simp add: empty_board_def piece_None_def)
  note rb = placement_list_rebuilds [OF assms(1) sfen_order_props board_ok_empty e]
  have parse: "parse_board (sfen_board b) 8 0 False empty_board = (True, ?p)"
    using parse_board_ranks [OF assms(1), of 9 "[]" empty_board] by (simp add: sfen_board_def all_list_order del: upt_Suc)
  have h: "hands ?p = (\<lambda>_. hand_Empty)" by (simp add: board_simps empty_board_def)
  have ply: "dec_int (ply b) \<noteq> []" "stoi (dec_int (ply b)) = Some (ply b)"
    using stoi_dec_int [OF assms(4,5)] by (auto simp: dec_int_def)
  define a where "a = ?p\<lparr>side_to_move := side_to_move b, hands := hands b, ply := ply b\<rparr>"
  have hu: "(if (if sfen_hands b = [] then ''-'' else sfen_hands b) \<noteq> ''-''
        then x\<lparr>hands := parse_hands (if sfen_hands b = [] then ''-'' else sfen_hands b) 0 (hands x)\<rparr> else x) =
      x\<lparr>hands := hands b\<rparr>" if "hands x = (\<lambda>_. hand_Empty)" for x :: shogi_board
    using that parse_hands_sfen [of b] assms(3) sfen_hands_not_dash [of b] by (cases "sfen_hands b = []"; cases x) auto
  have res: "SetFromSfen (ToSfen b) = (True, ClearHistory (ComputeHash a))"
    unfolding SetFromSfen_def next_token_sfen [OF assms(1)] Let_def prod.case parse
    using ply h by (subst hu; cases "side_to_move b") (simp_all add: a_def)
  have same: "same_placement ?p b"
    using rb kings_on_board_sq [OF rb(1) assms(2) rb(2)] assms(1) by (intro same_placementI) auto
  have "full_hash a = full_hash b" using rb(2) by (intro full_hash_cong) (auto simp: a_def)
  then show ?thesis
    using rb(1) same by (simp add: res a_def ClearHistory_def ComputeHash_def board_simps same_placement_def)
qed

theorem SetFromSfen_ToSfen_witness:
  "let (ok, a) = SetFromSfen (ToSfen sample_board) in ok \<and> same_placement a sample_board \<and> ply a = 0"
  using SetFromSfen_ToSfen [OF sample_board_ok]
  by (auto simp: sample_board_sel sample_board_def PutPiece_sel empty_board_def split: prod.splits)

end
