(* ===== verification/PackedSfens.thy ===== *)
theory PackedSfens
  imports Sfen "HOL-Library.Monad_Syntax"
begin

text \<open>
  The 32-byte position codec of shogi/packed_sfen.cc: the bit writer and reader over the byte
  array, the prefix codes of board, hand and box pieces, and \<open>ToPackedSfen\<close> and
  \<open>SetFromPackedSfen\<close>.  A routine that returns \<open>false\<close> gives \<open>None\<close>; what it has written by
  then is not part of the result.  The lemmas refine the byte-level writer and reader to lists
  of bits, on which the round trip is proved.
\<close>

type_synonym packed_sfen = "8 word list"

record bit_stream =
  bytes :: packed_sfen
  cursor :: nat

subsection \<open>Codes\<close>

definition kBoardCodes :: "(u32 \<times> nat) list" where
  "kBoardCodes = [(0x00, 1), (0x01, 2), (0x03, 4), (0x0b, 4), (0x07, 4), (0x1f, 6), (0x3f, 6), (0x0f, 5)]"

definition kPieceBoxCodes :: "(u32 \<times> nat) list" where
  "kPieceBoxCodes = [(0x00, 1), (0x02, 2), (0x09, 4), (0x0d, 4), (0x0b, 4), (0x2f, 6), (0x3f, 6), (0x1b, 5)]"

definition kPhysicalPieceCounts :: "piece_type \<Rightarrow> int" where
  "kPhysicalPieceCounts pt = [0, 18, 4, 4, 4, 2, 2, 4] ! pt"

definition kHandOrder :: "piece_type list" where
  "kHandOrder = [kPawn, kLance, kKnight, kSilver, kGold, kBishop, kRook]"

subsection \<open>Bits\<close>

definition new_writer :: bit_stream where
  "new_writer = \<lparr>bytes = replicate 32 0, cursor = 0\<rparr>"

definition write_bit :: "u32 \<Rightarrow> nat \<Rightarrow> bit_stream \<Rightarrow> bit_stream" where
  "write_bit value i w =
     (let k = cursor w div 8;
          w = (if bit value i
               then w\<lparr>bytes := (bytes w)[k := bytes w ! k OR push_bit (cursor w mod 8) 1]\<rparr> else w)
      in w\<lparr>cursor := cursor w + 1\<rparr>)"

definition bw_Write :: "bit_stream \<Rightarrow> u32 \<Rightarrow> nat \<Rightarrow> bit_stream option" where
  "bw_Write w value bits =
     (if cursor w + bits > 256 then None else Some (fold (write_bit value) [0..<bits] w))"

definition new_reader :: "packed_sfen \<Rightarrow> bit_stream" where
  "new_reader p = \<lparr>bytes = p, cursor = 0\<rparr>"

definition read_bit :: "nat \<Rightarrow> u32 \<times> bit_stream \<Rightarrow> u32 \<times> bit_stream" where
  "read_bit i = (\<lambda>(value, r).
     (value OR push_bit i (if bit (bytes r ! (cursor r div 8)) (cursor r mod 8) then 1 else 0),
      r\<lparr>cursor := cursor r + 1\<rparr>))"

definition br_Read :: "bit_stream \<Rightarrow> nat \<Rightarrow> (u32 \<times> bit_stream) option" where
  "br_Read r bits = (if cursor r + bits > 256 then None else Some (fold read_bit [0..<bits] (0, r)))"

definition br_ReadBit :: "bit_stream \<Rightarrow> (bool \<times> bit_stream) option" where
  "br_ReadBit r = do { (v, r) \<leftarrow> br_Read r 1; Some (v \<noteq> 0, r) }"

subsection \<open>Pieces\<close>

definition raw_type :: "piece_type \<Rightarrow> piece_type" where
  "raw_type t = (if pt_IsPromoted t then pt_Unpromote t else t)"

definition WriteBoardPiece :: "bit_stream \<Rightarrow> piece \<Rightarrow> bit_stream option" where
  "WriteBoardPiece w pc =
     (if piece_IsNone pc then bw_Write w (fst (kBoardCodes ! 0)) (snd (kBoardCodes ! 0))
      else
        let t = piece_GetType pc; promoted = pt_IsPromoted t; raw = raw_type t in
        if raw < 1 \<or> raw > 7 then None
        else do {
          w \<leftarrow> bw_Write w (fst (kBoardCodes ! raw)) (snd (kBoardCodes ! raw));
          w \<leftarrow> (if raw \<noteq> kGold then bw_Write w (if promoted then 1 else 0) 1 else Some w);
          bw_Write w (if piece_GetColor pc = WHITE then 1 else 0) 1 })"

definition WriteHandPiece :: "bit_stream \<Rightarrow> color \<Rightarrow> piece_type \<Rightarrow> bit_stream option" where
  "WriteHandPiece w c raw =
     (if \<not> pt_IsHandPiece raw then None
      else do {
        w \<leftarrow> bw_Write w (drop_bit 1 (fst (kBoardCodes ! raw))) (snd (kBoardCodes ! raw) - 1);
        w \<leftarrow> (if raw \<noteq> kGold then bw_Write w 0 1 else Some w);
        bw_Write w (if c = WHITE then 1 else 0) 1 })"

definition WritePieceBoxPiece :: "bit_stream \<Rightarrow> piece_type \<Rightarrow> bit_stream option" where
  "WritePieceBoxPiece w raw =
     (if \<not> pt_IsHandPiece raw then None
      else do {
        w \<leftarrow> bw_Write w (fst (kPieceBoxCodes ! raw)) (snd (kPieceBoxCodes ! raw));
        if raw = kGold then Some w else bw_Write w 0 1 })"

fun read_board_type :: "nat list \<Rightarrow> u32 \<Rightarrow> bit_stream \<Rightarrow> (piece_type \<times> bit_stream) option" where
  "read_board_type [] code r = None"
| "read_board_type (bits # bs) code r = do {
     (b, r) \<leftarrow> br_Read r 1;
     let code = code OR push_bit (bits - 1) b;
     (case find (\<lambda>raw. snd (kBoardCodes ! raw) = bits \<and> fst (kBoardCodes ! raw) = code) [0..<8] of
        Some raw \<Rightarrow> Some (raw, r)
      | None \<Rightarrow> read_board_type bs code r) }"

definition ReadBoardType :: "bit_stream \<Rightarrow> (piece_type \<times> bit_stream) option" where
  "ReadBoardType r = read_board_type [1..<7] 0 r"

definition ReadBoardPiece :: "bit_stream \<Rightarrow> (piece \<times> bit_stream) option" where
  "ReadBoardPiece r = do {
     (raw, r) \<leftarrow> ReadBoardType r;
     if raw = kNoPieceType then Some (piece_None, r)
     else do {
       (promoted, r) \<leftarrow> (if raw \<noteq> kGold then br_ReadBit r else Some (False, r));
       (white, r) \<leftarrow> br_ReadBit r;
       Some (piece_Make (if white then WHITE else BLACK) (if promoted then pt_Promote raw else raw), r) } }"

fun read_hand_type :: "nat list \<Rightarrow> u32 \<Rightarrow> bit_stream \<Rightarrow> (piece_type \<times> bit_stream) option" where
  "read_hand_type [] code r = None"
| "read_hand_type (bits # bs) code r = do {
     (b, r) \<leftarrow> br_Read r 1;
     let code = code OR push_bit (bits - 1) b;
     (case find (\<lambda>raw. snd (kBoardCodes ! raw) - 1 = bits \<and> drop_bit 1 (fst (kBoardCodes ! raw)) = code) [1..<8] of
        Some raw \<Rightarrow> Some (raw, r)
      | None \<Rightarrow> read_hand_type bs code r) }"

text \<open>The piece type, its owner and the piece-box flag.\<close>

definition ReadHandPiece :: "bit_stream \<Rightarrow> ((piece_type \<times> color \<times> bool) \<times> bit_stream) option" where
  "ReadHandPiece r = do {
     (decoded, r) \<leftarrow> read_hand_type [1..<6] 0 r;
     (promoted, r) \<leftarrow> (if decoded \<noteq> kGold then br_ReadBit r else Some (False, r));
     (white, r) \<leftarrow> br_ReadBit r;
     Some ((decoded, if white then WHITE else BLACK, promoted), r) }"

subsection \<open>Positions\<close>

text \<open>The loop over the squares, with the pieces not yet used up.\<close>

fun pack_squares :: "shogi_board \<Rightarrow> square list \<Rightarrow> bit_stream \<Rightarrow> (piece_type \<Rightarrow> int) \<Rightarrow>
    (bit_stream \<times> (piece_type \<Rightarrow> int)) option" where
  "pack_squares b [] w remaining = Some (w, remaining)"
| "pack_squares b (sq # sqs) w remaining =
     (let pc = board_arr b sq in
      if \<not> piece_IsNone pc \<and> piece_GetType pc = kKing then pack_squares b sqs w remaining
      else do {
        w \<leftarrow> WriteBoardPiece w pc;
        if \<not> piece_IsNone pc then
          let raw = raw_type (piece_GetType pc); remaining = remaining(raw := remaining raw - 1) in
          if raw < 1 \<or> raw > 7 \<or> remaining raw < 0 then None else pack_squares b sqs w remaining
        else pack_squares b sqs w remaining })"

primrec repeat_write :: "nat \<Rightarrow> (bit_stream \<Rightarrow> bit_stream option) \<Rightarrow> bit_stream \<Rightarrow> bit_stream option" where
  "repeat_write 0 f w = Some w"
| "repeat_write (Suc n) f w = do { w \<leftarrow> f w; repeat_write n f w }"

fun pack_hands :: "shogi_board \<Rightarrow> (color \<times> piece_type) list \<Rightarrow> bit_stream \<Rightarrow> (piece_type \<Rightarrow> int) \<Rightarrow>
    (bit_stream \<times> (piece_type \<Rightarrow> int)) option" where
  "pack_hands b [] w remaining = Some (w, remaining)"
| "pack_hands b ((c, raw) # xs) w remaining =
     (let count = hand_Count (hands b c) raw; remaining = remaining(raw := remaining raw - int count) in
      if remaining raw < 0 then None
      else do {
        w \<leftarrow> repeat_write count (\<lambda>w. WriteHandPiece w c raw) w;
        pack_hands b xs w remaining })"

fun pack_box :: "piece_type list \<Rightarrow> bit_stream \<Rightarrow> (piece_type \<Rightarrow> int) \<Rightarrow> bit_stream option" where
  "pack_box [] w remaining = Some w"
| "pack_box (raw # xs) w remaining = do {
     w \<leftarrow> repeat_write (nat (remaining raw)) (\<lambda>w. WritePieceBoxPiece w raw) w;
     pack_box xs w remaining }"

definition ToPackedSfen :: "shogi_board \<Rightarrow> packed_sfen option" where
  "ToPackedSfen b = do {
     w \<leftarrow> bw_Write new_writer (if side_to_move b = WHITE then 1 else 0) 1;
     w \<leftarrow> bw_Write w (of_nat (king_sq b BLACK)) 7;
     w \<leftarrow> bw_Write w (of_nat (king_sq b WHITE)) 7;
     (w, remaining) \<leftarrow> pack_squares b [0..<81] w kPhysicalPieceCounts;
     (w, remaining) \<leftarrow> pack_hands b (List.product [BLACK, WHITE] kHandOrder) w remaining;
     w \<leftarrow> pack_box kHandOrder w remaining;
     if cursor w = 256 then Some (bytes w) else None }"

fun unpack_squares :: "nat \<Rightarrow> nat \<Rightarrow> square list \<Rightarrow> bit_stream \<Rightarrow> shogi_board \<Rightarrow> (shogi_board \<times> bit_stream) option" where
  "unpack_squares bk wk [] r b = Some (b, r)"
| "unpack_squares bk wk (sq # sqs) r b =
     (if sq = bk \<or> sq = wk then unpack_squares bk wk sqs r b
      else do {
        (pc, r) \<leftarrow> ReadBoardPiece r;
        unpack_squares bk wk sqs r (if \<not> piece_IsNone pc then PutPiece b sq pc else b) })"

text \<open>Reading moves the cursor forward, so the loop over the hand pieces ends.\<close>

lemma fold_read_cursor: "cursor (snd (fold read_bit is x)) = cursor (snd x) + length is"
  by (induction "is" arbitrary: x) (auto simp: read_bit_def split: prod.splits)

lemma br_Read_cursor: "br_Read r n = Some (v, r') \<Longrightarrow> cursor r' = cursor r + n \<and> cursor r + n \<le> 256"
  using fold_read_cursor [of "[0..<n]" "(0, r)"] by (auto simp: br_Read_def split: if_splits)

lemma br_ReadBit_cursor: "br_ReadBit r = Some (v, r') \<Longrightarrow> cursor r' = cursor r + 1"
  by (auto simp: br_ReadBit_def bind_eq_Some_conv dest: br_Read_cursor)

lemma read_hand_type_cursor: "read_hand_type bs code r = Some (raw, r') \<Longrightarrow> cursor r < cursor r'"
proof (induction bs code r rule: read_hand_type.induct)
  case (2 bits bs code r)
  obtain v r1 where rd: "br_Read r 1 = Some (v, r1)" using 2(2) by (cases "br_Read r 1") auto
  then have c: "cursor r1 = cursor r + 1" by (auto dest: br_Read_cursor)
  show ?case
  proof (cases "find (\<lambda>raw. snd (kBoardCodes ! raw) - 1 = bits \<and>
      drop_bit 1 (fst (kBoardCodes ! raw)) = code OR push_bit (bits - 1) v) [1..<8]")
    case None
    then have "read_hand_type bs (code OR push_bit (bits - 1) v) r1 = Some (raw, r')"
      using 2(2) rd by (simp add: Let_def)
    then show ?thesis using 2(1) [OF rd refl refl None] c by simp
  next
    case (Some x)
    then show ?thesis using 2(2) rd c by (simp add: Let_def)
  qed
qed simp

lemma ReadHandPiece_cursor: "ReadHandPiece r = Some (x, r') \<Longrightarrow> cursor r < cursor r'"
  by (auto simp: ReadHandPiece_def bind_eq_Some_conv split: if_splits
      dest!: read_hand_type_cursor br_ReadBit_cursor)

function unpack_hands :: "bit_stream \<Rightarrow> shogi_board \<Rightarrow> (shogi_board \<times> bit_stream) option" where
  "unpack_hands r b =
     (if cursor r < 256 then
        (case ReadHandPiece r of
           None \<Rightarrow> None
         | Some ((raw, c, piece_box), r') \<Rightarrow>
             unpack_hands r' (if \<not> piece_box then b\<lparr>hands := (hands b)(c := hand_Add (hands b c) raw)\<rparr> else b))
      else Some (b, r))"
  by pat_completeness auto
termination
  by (relation "measure (\<lambda>(r, b). 256 - cursor r)") (auto dest: ReadHandPiece_cursor)

declare unpack_hands.simps [simp del]

definition SetFromPackedSfen :: "packed_sfen \<Rightarrow> int \<Rightarrow> shogi_board option" where
  "SetFromPackedSfen p game_ply = do {
     (turn, r) \<leftarrow> br_Read (new_reader p) 1;
     (black_king, r) \<leftarrow> br_Read r 7;
     (white_king, r) \<leftarrow> br_Read r 7;
     let bk = unat black_king;
     let wk = unat white_king;
     if unat turn > 1 \<or> bk > 81 \<or> wk > 81 \<or> (bk < 81 \<and> bk = wk) then None
     else do {
       let b = empty_board\<lparr>side_to_move := (if turn = 0 then BLACK else WHITE), ply := max 1 game_ply\<rparr>;
       let b = (if bk < 81 then PutPiece b bk (piece_Make BLACK kKing) else b);
       let b = (if wk < 81 then PutPiece b wk (piece_Make WHITE kKing) else b);
       (b, r) \<leftarrow> unpack_squares bk wk [0..<81] r b;
       (b, r) \<leftarrow> unpack_hands r b;
       if cursor r \<noteq> 256 then None else Some (ClearHistory (ComputeHash b)) } }"

subsection \<open>The byte array as a list of bits\<close>

definition pbit :: "packed_sfen \<Rightarrow> nat \<Rightarrow> bool" where
  "pbit p i = bit (p ! (i div 8)) (i mod 8)"

text \<open>What has been written: the bits so far, zeros after them.\<close>

definition written :: "bit_stream \<Rightarrow> bool list \<Rightarrow> bool" where
  "written w bs \<longleftrightarrow> length (bytes w) = 32 \<and> cursor w = length bs \<and>
     (\<forall>i<256. pbit (bytes w) i \<longleftrightarrow> i < length bs \<and> bs ! i)"

text \<open>What lies ahead of the reader.\<close>

definition ahead :: "bit_stream \<Rightarrow> bool list \<Rightarrow> bool" where
  "ahead r bs \<longleftrightarrow> cursor r + length bs \<le> 256 \<and> (\<forall>i<length bs. pbit (bytes r) (cursor r + i) = bs ! i)"

lemma written_new: "written new_writer []"
  by (simp add: written_def new_writer_def pbit_def)

lemma byte_index: "i div 8 = j div 8 \<Longrightarrow> i mod 8 = j mod 8 \<Longrightarrow> i = (j::nat)"
  by (metis div_mult_mod_eq)

lemma written_write_bit:
  assumes w: "written w bs" and l: "length bs < 256"
  shows "written (write_bit v i w) (bs @ [bit v i])"
proof -
  let ?c = "length bs"
  have c: "cursor w = ?c" "length (bytes w) = 32" "?c div 8 < 32" using w l by (auto simp: written_def)
  have old: "pbit (bytes w) j \<longleftrightarrow> j < ?c \<and> bs ! j" if "j < 256" for j using w that by (auto simp: written_def)
  have new: "pbit ((bytes w)[?c div 8 := bytes w ! (?c div 8) OR push_bit (?c mod 8) 1]) j \<longleftrightarrow>
      pbit (bytes w) j \<or> j = ?c" if "j < 256" for j
  proof (cases "j div 8 = ?c div 8")
    case True
    then have "bit (push_bit (?c mod 8) (1 :: 8 word)) (j mod 8) \<longleftrightarrow> j = ?c"
      using byte_index [of j ?c] by (auto simp: bit_simps)
    then show ?thesis using True c by (simp add: pbit_def bit_or_iff)
  next
    case False
    then show ?thesis using c by (auto simp: pbit_def nth_list_update)
  qed
  show ?thesis
    using old new c by (auto simp: written_def write_bit_def Let_def nth_append less_Suc_eq)
qed

lemma written_fold:
  "written w bs \<Longrightarrow> length bs + length is \<le> 256 \<Longrightarrow> written (fold (write_bit v) is w) (bs @ map (bit v) is)"
proof (induction "is" arbitrary: w bs)
  case (Cons i "is")
  then show ?case using Cons.IH [OF written_write_bit] by simp
qed simp

lemma bw_Write_written:
  "written w bs \<Longrightarrow> length bs + n \<le> 256 \<Longrightarrow>
    \<exists>w'. bw_Write w v n = Some w' \<and> written w' (bs @ map (bit v) [0..<n])"
  using written_fold [of w bs "[0..<n]" v] by (auto simp: bw_Write_def written_def)

lemma ahead_written: "written w bs \<Longrightarrow> length bs = 256 \<Longrightarrow> ahead (new_reader (bytes w)) bs"
  by (auto simp: ahead_def written_def new_reader_def)

lemma read_bit_ahead:
  assumes "ahead r (x # bs)"
  shows "br_Read r 1 = Some (if x then 1 else 0, r\<lparr>cursor := cursor r + 1\<rparr>)"
    and "br_ReadBit r = Some (x, r\<lparr>cursor := cursor r + 1\<rparr>)" and "ahead (r\<lparr>cursor := cursor r + 1\<rparr>) bs"
proof -
  have h: "pbit (bytes r) (cursor r) = x" "cursor r + 1 \<le> 256" using assms by (auto simp: ahead_def)
  then show rd: "br_Read r 1 = Some (if x then 1 else 0, r\<lparr>cursor := cursor r + 1\<rparr>)"
    by (simp add: br_Read_def read_bit_def pbit_def)
  then show "br_ReadBit r = Some (x, r\<lparr>cursor := cursor r + 1\<rparr>)" by (simp add: br_ReadBit_def)
  have "pbit (bytes r) (cursor r + Suc i) = (x # bs) ! Suc i" if "i < length bs" for i
    using assms that unfolding ahead_def by (metis Suc_less_eq length_Cons)
  then show "ahead (r\<lparr>cursor := cursor r + 1\<rparr>) bs" using assms by (auto simp: ahead_def)
qed

lemma br_Read_ahead:
  assumes "ahead r (map (bit v) [0..<n] @ bs)"
  shows "br_Read r n = Some (take_bit n v, r\<lparr>cursor := cursor r + n\<rparr>)" "ahead (r\<lparr>cursor := cursor r + n\<rparr>) bs"
proof -
  have b: "pbit (bytes r) (cursor r + i) = bit v i" if "i < n" for i
  proof -
    have "pbit (bytes r) (cursor r + i) = (map (bit v) [0..<n] @ bs) ! i" using assms that by (auto simp: ahead_def)
    then show ?thesis using that by (simp add: nth_append)
  qed
  have "fold read_bit [0..<k] (0, r) = (take_bit k v, r\<lparr>cursor := cursor r + k\<rparr>)" if "k \<le> n" for k
    using that
  proof (induction k)
    case (Suc k)
    have "take_bit (Suc k) v = take_bit k v OR push_bit k (if bit v k then 1 else 0)"
      by (rule bit_word_eqI) (auto simp: bit_simps less_Suc_eq)
    then show ?case using Suc b [of k] by (simp add: read_bit_def pbit_def)
  qed simp
  then show "br_Read r n = Some (take_bit n v, r\<lparr>cursor := cursor r + n\<rparr>)"
    using assms by (simp add: br_Read_def ahead_def)
  have "pbit (bytes r) (cursor r + (n + i)) = (map (bit v) [0..<n] @ bs) ! (n + i)" if "i < length bs" for i
    using assms that unfolding ahead_def by auto
  then show "ahead (r\<lparr>cursor := cursor r + n\<rparr>) bs" using assms by (auto simp: ahead_def nth_append add_ac)
qed

subsection \<open>The codes as lists of bits\<close>

definition type_bits :: "piece_type \<Rightarrow> bool list" where
  "type_bits raw = map (bit (fst (kBoardCodes ! raw))) [0..<snd (kBoardCodes ! raw)]"

definition flag_bits :: "piece_type \<Rightarrow> bool \<Rightarrow> color \<Rightarrow> bool list" where
  "flag_bits raw f c = (if raw = kGold then [c = WHITE] else [f, c = WHITE])"

definition piece_bits :: "piece \<Rightarrow> bool list" where
  "piece_bits pc = (if pc = 0 then [False]
     else type_bits (raw_type (piece_GetType pc)) @
       flag_bits (raw_type (piece_GetType pc)) (pt_IsPromoted (piece_GetType pc)) (piece_GetColor pc))"

definition hand_bits :: "color \<Rightarrow> piece_type \<Rightarrow> bool list" where
  "hand_bits c raw = tl (type_bits raw) @ flag_bits raw False c"

definition box_bits :: "piece_type \<Rightarrow> bool list" where
  "box_bits raw = map (bit (fst (kPieceBoxCodes ! raw))) [0..<snd (kPieceBoxCodes ! raw)] @
     (if raw = kGold then [] else [False])"

lemma type_bits_eq:
  "type_bits 0 = [False]" "type_bits 1 = [True, False]" "type_bits 2 = [True, True, False, False]"
  "type_bits 3 = [True, True, False, True]" "type_bits 4 = [True, True, True, False]"
  "type_bits 5 = [True, True, True, True, True, False]" "type_bits 6 = [True, True, True, True, True, True]"
  "type_bits 7 = [True, True, True, True, False]" "type_bits (Suc 0) = [True, False]"
  by (simp_all add: type_bits_def kBoardCodes_def upt_rec)

lemma box_bits_eq:
  "box_bits 1 = [False, True, False]" "box_bits 2 = [True, False, False, True, False]"
  "box_bits 3 = [True, False, True, True, False]" "box_bits 4 = [True, True, False, True, False]"
  "box_bits 5 = [True, True, True, True, False, True, False]"
  "box_bits 6 = [True, True, True, True, True, True, False]"
  "box_bits 7 = [True, True, False, True, True]"
  by (simp_all add: box_bits_def kPieceBoxCodes_def upt_rec kGold_def)

subsection \<open>Decoding the prefix codes on lists of bits\<close>

fun dec_type :: "(nat \<Rightarrow> u32 \<Rightarrow> piece_type option) \<Rightarrow> nat list \<Rightarrow> u32 \<Rightarrow> bool list \<Rightarrow> (piece_type \<times> bool list) option" where
  "dec_type look (k # ks) code (x # bs) =
     (let code = code OR push_bit (k - 1) (if x then 1 else 0) in
      case look k code of Some raw \<Rightarrow> Some (raw, bs) | None \<Rightarrow> dec_type look ks code bs)"
| "dec_type look _ _ _ = None"

definition look_board :: "nat \<Rightarrow> u32 \<Rightarrow> piece_type option" where
  "look_board bits code =
     find (\<lambda>raw. snd (kBoardCodes ! raw) = bits \<and> fst (kBoardCodes ! raw) = code) [0..<8]"

definition look_hand :: "nat \<Rightarrow> u32 \<Rightarrow> piece_type option" where
  "look_hand bits code =
     find (\<lambda>raw. snd (kBoardCodes ! raw) - 1 = bits \<and> drop_bit 1 (fst (kBoardCodes ! raw)) = code) [1..<8]"

text \<open>The reader moved over the bits a list parser consumes.\<close>

definition skip :: "bit_stream \<Rightarrow> nat \<Rightarrow> bit_stream" where
  "skip r n = r\<lparr>cursor := cursor r + n\<rparr>"

lemma skip_simps [simp]: "skip r 0 = r" "skip (skip r m) n = skip r (m + n)" "cursor (skip r n) = cursor r + n"
  by (simp_all add: skip_def add_ac)

lemmas read_bit_skip = read_bit_ahead [folded One_nat_def skip_def]

lemma dec_type_length: "dec_type look ks code bs = Some (raw, rest) \<Longrightarrow> length rest < length bs"
  by (induction look ks code bs rule: dec_type.induct) (fastforce simp: Let_def split: option.splits)+

lemma read_type_dec:
  assumes "ahead r bs" "dec_type look ks code bs = Some (raw, rest)"
  shows "look = look_board \<Longrightarrow> read_board_type ks code r = Some (raw, skip r (length bs - length rest))"
    and "look = look_hand \<Longrightarrow> read_hand_type ks code r = Some (raw, skip r (length bs - length rest))"
    and "ahead (skip r (length bs - length rest)) rest"
proof -
  have "(look = look_board \<longrightarrow> read_board_type ks code r = Some (raw, skip r (length bs - length rest))) \<and>
    (look = look_hand \<longrightarrow> read_hand_type ks code r = Some (raw, skip r (length bs - length rest))) \<and>
    ahead (skip r (length bs - length rest)) rest"
    using assms
  proof (induction look ks code bs arbitrary: r rule: dec_type.induct)
    case (1 look k ks code x bs)
    note rd = read_bit_ahead [OF 1(2)]
    let ?c = "code OR push_bit (k - 1) (if x then 1 else 0)"
    show ?case
    proof (cases "look k ?c")
      case None
      then have d: "dec_type look ks ?c bs = Some (raw, rest)" using 1(3) by (simp add: Let_def)
      have l: "Suc (length bs) - length rest = Suc (length bs - length rest)"
        using dec_type_length [OF d] by simp
      show ?thesis
        using 1(1) [OF refl None rd(3) d] None rd(1)
        by (auto simp: look_board_def look_hand_def Let_def skip_def l cong: if_cong)
    next
      case (Some y)
      then have "y = raw" "rest = bs" using 1(3) by (auto simp: Let_def)
      then show ?thesis using Some rd(1,3)
        by (auto simp: look_board_def look_hand_def Let_def skip_def cong: if_cong)
    qed
  qed simp_all
  then show "look = look_board \<Longrightarrow> read_board_type ks code r = Some (raw, skip r (length bs - length rest))"
    and "look = look_hand \<Longrightarrow> read_hand_type ks code r = Some (raw, skip r (length bs - length rest))"
    and "ahead (skip r (length bs - length rest)) rest" by blast+
qed

lemma raw_cases: "(raw::nat) \<le> 7 \<Longrightarrow> raw \<in> {0, 1, 2, 3, 4, 5, 6, 7}"
  by auto

lemma dec_board_type:
  assumes "raw \<le> 7"
  shows "dec_type look_board [1..<7] 0 (type_bits raw @ rest) = Some (raw, rest)"
proof -
  have u: "[Suc 0..<7] = [1, 2, 3, 4, 5, 6 :: nat]" "[0..<8] = [0, 1, 2, 3, 4, 5, 6, 7 :: nat]" by (simp_all add: upt_rec)
  show ?thesis
    using raw_cases [OF assms] by (elim insertE emptyE) (simp_all add: u type_bits_eq look_board_def kBoardCodes_def)
qed

lemma dec_hand_type:
  assumes "1 \<le> raw" "raw \<le> 7"
  shows "dec_type look_hand [1..<6] 0 (tl (type_bits raw) @ rest) = Some (raw, rest)"
proof -
  have u: "[Suc 0..<6] = [1, 2, 3, 4, 5 :: nat]" "[Suc 0..<8] = [1, 2, 3, 4, 5, 6, 7 :: nat]" by (simp_all add: upt_rec)
  show ?thesis
    using raw_cases [OF assms(2)] assms(1)
    by (elim insertE emptyE) (simp_all add: u type_bits_eq look_hand_def kBoardCodes_def)
qed

subsection \<open>One piece\<close>

lemma raw_type_props:
  assumes "piece_ok v" "v \<noteq> 0" "piece_GetType v \<noteq> kKing"
  shows "1 \<le> raw_type (piece_GetType v)" "raw_type (piece_GetType v) \<le> 7"
    "raw_type (piece_GetType v) = kGold \<Longrightarrow> \<not> pt_IsPromoted (piece_GetType v)"
    "(if pt_IsPromoted (piece_GetType v) then pt_Promote (raw_type (piece_GetType v))
      else raw_type (piece_GetType v)) = piece_GetType v"
    "raw_type (piece_GetType v) = pt_Unpromote (piece_GetType v)"
proof -
  have t: "pt_Unpromote t = t" if "1 \<le> t" "t \<le> 7" for t using that by (simp add: pt_Unpromote_def nat_and_7)
  show "1 \<le> raw_type (piece_GetType v)" "raw_type (piece_GetType v) \<le> 7"
    "raw_type (piece_GetType v) = kGold \<Longrightarrow> \<not> pt_IsPromoted (piece_GetType v)"
    "(if pt_IsPromoted (piece_GetType v) then pt_Promote (raw_type (piece_GetType v))
      else raw_type (piece_GetType v)) = piece_GetType v"
    "raw_type (piece_GetType v) = pt_Unpromote (piece_GetType v)"
    using promoted_type_cases [OF assms(1,2)] unpromoted_type [OF assms(1,2)] assms(3) t [of "piece_GetType v"]
    by (auto simp: raw_type_def kGold_def kKing_def split: if_splits)
qed

lemma bw_Write_bit:
  assumes "written w bs" "length bs + 1 \<le> 256"
  shows "\<exists>w'. bw_Write w (if p then 1 else 0) 1 = Some w' \<and> written w' (bs @ [p])"
  using bw_Write_written [OF assms, of "if p then 1 else 0"] by (cases p) auto

lemma write_flags:
  assumes "written w bs" "length (bs @ flag_bits raw f c) \<le> 256"
  shows "\<exists>w'. (if raw \<noteq> kGold then bw_Write w (if f then 1 else 0) 1 else Some w) \<bind>
      (\<lambda>w. bw_Write w (if c = WHITE then 1 else 0) 1) = Some w' \<and> written w' (bs @ flag_bits raw f c)"
proof (cases "raw = kGold")
  case True
  then show ?thesis using assms bw_Write_bit [OF assms(1), of "c = WHITE"] by (simp add: flag_bits_def)
next
  case False
  then have l: "length bs + 2 \<le> 256" using assms by (simp add: flag_bits_def)
  obtain w1 where w1: "bw_Write w (if f then 1 else 0) 1 = Some w1" "written w1 (bs @ [f])"
    using bw_Write_bit [OF assms(1), of f] l by auto
  obtain w2 where "bw_Write w1 (if c = WHITE then 1 else 0) 1 = Some w2" "written w2 ((bs @ [f]) @ [c = WHITE])"
    using bw_Write_bit [OF w1(2), of "c = WHITE"] l by auto
  then show ?thesis using False w1 by (simp add: flag_bits_def)
qed

lemma WriteBoardPiece_written:
  assumes w: "written w bs" "length (bs @ piece_bits v) \<le> 256"
    and v: "piece_ok v" "v \<noteq> 0 \<Longrightarrow> piece_GetType v \<noteq> kKing"
  shows "\<exists>w'. WriteBoardPiece w v = Some w' \<and> written w' (bs @ piece_bits v)"
proof (cases "v = 0")
  case True
  then show ?thesis using bw_Write_bit [OF w(1), of False] w(2)
    by (simp add: WriteBoardPiece_def piece_IsNone_def piece_bits_def kBoardCodes_def)
next
  case False
  note rt = raw_type_props [OF v(1) False v(2) [OF False]]
  let ?r = "raw_type (piece_GetType v)"
  have l: "length bs + snd (kBoardCodes ! ?r) \<le> 256" using w(2) False by (simp add: piece_bits_def type_bits_def)
  obtain w1 where w1: "bw_Write w (fst (kBoardCodes ! ?r)) (snd (kBoardCodes ! ?r)) = Some w1"
      "written w1 (bs @ type_bits ?r)"
    using bw_Write_written [OF w(1) l] by (auto simp: type_bits_def)
  obtain w2 where "(if ?r \<noteq> kGold then bw_Write w1 (if pt_IsPromoted (piece_GetType v) then 1 else 0) 1 else Some w1) \<bind>
      (\<lambda>w. bw_Write w (if piece_GetColor v = WHITE then 1 else 0) 1) = Some w2"
    "written w2 ((bs @ type_bits ?r) @ flag_bits ?r (pt_IsPromoted (piece_GetType v)) (piece_GetColor v))"
    using write_flags [OF w1(2)] w(2) False by (force simp: piece_bits_def)
  then show ?thesis using False rt w1(1)
    by (simp add: WriteBoardPiece_def piece_IsNone_def piece_bits_def Let_def not_less)
qed

lemma tl_type_bits:
  assumes "1 \<le> raw" "raw \<le> 7"
  shows "tl (type_bits raw) = map (bit (drop_bit 1 (fst (kBoardCodes ! raw)))) [0..<snd (kBoardCodes ! raw) - 1]"
  using raw_cases [OF assms(2)] assms(1)
  by (elim insertE emptyE) (simp_all add: type_bits_eq kBoardCodes_def upt_rec bit_drop_bit_eq)

lemma WriteHandPiece_written:
  assumes w: "written w bs" "length (bs @ hand_bits c raw) \<le> 256" and r: "pt_IsHandPiece raw"
  shows "\<exists>w'. WriteHandPiece w c raw = Some w' \<and> written w' (bs @ hand_bits c raw)"
proof -
  have raw: "1 \<le> raw" "raw \<le> 7" using r by (auto simp: pt_IsHandPiece_def)
  have l: "length bs + (snd (kBoardCodes ! raw) - 1) \<le> 256"
    using w(2) by (simp add: hand_bits_def tl_type_bits [OF raw])
  obtain w1 where w1: "bw_Write w (drop_bit 1 (fst (kBoardCodes ! raw))) (snd (kBoardCodes ! raw) - 1) = Some w1"
      "written w1 (bs @ tl (type_bits raw))"
    using bw_Write_written [OF w(1) l] by (auto simp: tl_type_bits [OF raw])
  obtain w2 where "(if raw \<noteq> kGold then bw_Write w1 (if False then 1 else 0) 1 else Some w1) \<bind>
      (\<lambda>w. bw_Write w (if c = WHITE then 1 else 0) 1) = Some w2"
    "written w2 ((bs @ tl (type_bits raw)) @ flag_bits raw False c)"
    using write_flags [OF w1(2)] w(2) by (force simp: hand_bits_def)
  then show ?thesis using r w1(1)
    by (cases "raw = kGold"; cases c) (auto simp: WriteHandPiece_def hand_bits_def)
qed

lemma WritePieceBoxPiece_written:
  assumes w: "written w bs" "length (bs @ box_bits raw) \<le> 256" and r: "pt_IsHandPiece raw"
  shows "\<exists>w'. WritePieceBoxPiece w raw = Some w' \<and> written w' (bs @ box_bits raw)"
proof -
  have l: "length bs + snd (kPieceBoxCodes ! raw) \<le> 256" using w(2) by (simp add: box_bits_def)
  obtain w1 where w1: "bw_Write w (fst (kPieceBoxCodes ! raw)) (snd (kPieceBoxCodes ! raw)) = Some w1"
      "written w1 (bs @ map (bit (fst (kPieceBoxCodes ! raw))) [0..<snd (kPieceBoxCodes ! raw)])"
    using bw_Write_written [OF w(1) l] by auto
  then show ?thesis
    using r bw_Write_bit [OF w1(2), of False] w(2)
    by (cases "raw = kGold") (auto simp: WritePieceBoxPiece_def box_bits_def)
qed

lemma read_flags:
  assumes "ahead r (flag_bits raw f c @ rest)" "raw = kGold \<longrightarrow> \<not> f"
  shows "(if raw \<noteq> kGold then br_ReadBit r else Some (False, r)) \<bind>
      (\<lambda>(f, r). br_ReadBit r \<bind> (\<lambda>(white, r). g f (if white then WHITE else BLACK) r)) =
      g f c (skip r (length (flag_bits raw f c)))"
    and "ahead (skip r (length (flag_bits raw f c))) rest"
proof -
  have c: "(if c = WHITE then WHITE else BLACK) = c" by (cases c) auto
  show "(if raw \<noteq> kGold then br_ReadBit r else Some (False, r)) \<bind>
      (\<lambda>(f, r). br_ReadBit r \<bind> (\<lambda>(white, r). g f (if white then WHITE else BLACK) r)) =
      g f c (skip r (length (flag_bits raw f c)))"
    and "ahead (skip r (length (flag_bits raw f c))) rest"
  proof (atomize (full), cases "raw = kGold", goal_cases)
    case 1
    then have a: "ahead r ((c = WHITE) # rest)" using assms(1) by (simp add: flag_bits_def)
    show ?case using 1 assms(2) read_bit_ahead(2,3) [OF a] c by (simp add: flag_bits_def skip_def)
  next
    case 2
    then have a: "ahead r (f # (c = WHITE) # rest)" using assms(1) by (simp add: flag_bits_def)
    note b = read_bit_ahead(2,3) [OF read_bit_ahead(3) [OF a]]
    show ?case using 2 read_bit_ahead(2) [OF a] b c by (simp add: flag_bits_def skip_def)
  qed
qed

lemma ReadBoardPiece_ahead:
  assumes r: "ahead r (piece_bits v @ rest)" and v: "piece_ok v" "v \<noteq> 0 \<Longrightarrow> piece_GetType v \<noteq> kKing"
  shows "ReadBoardPiece r = Some (v, skip r (length (piece_bits v)))" "ahead (skip r (length (piece_bits v))) rest"
proof (atomize (full), cases "v = 0", goal_cases)
  case 1
  then have a: "ahead r (type_bits 0 @ rest)" using r by (simp add: piece_bits_def type_bits_eq)
  have d: "dec_type look_board [1..<7] 0 (type_bits 0 @ rest) = Some (0, rest)" by (rule dec_board_type) simp
  show ?case
    using read_type_dec(1) [OF a d refl] read_type_dec(3) [OF a d] 1
    by (simp add: ReadBoardPiece_def ReadBoardType_def piece_bits_def type_bits_eq kNoPieceType_def piece_None_def)
next
  case 2
  let ?t = "piece_GetType v"
  let ?fl = "flag_bits (raw_type ?t) (pt_IsPromoted ?t) (piece_GetColor v)"
  note rt = raw_type_props [OF v(1) 2 v(2) [OF 2]]
  have a: "ahead r (type_bits (raw_type ?t) @ ?fl @ rest)" using r 2 by (simp add: piece_bits_def)
  note d = dec_board_type [OF rt(2), of "?fl @ rest"]
  have l: "length (type_bits (raw_type ?t) @ ?fl @ rest) - length (?fl @ rest) = length (type_bits (raw_type ?t))" by simp
  note rd = read_type_dec(1) [OF a d refl, unfolded l] and a2 = read_type_dec(3) [OF a d, unfolded l]
  have g: "raw_type ?t = kGold \<longrightarrow> \<not> pt_IsPromoted ?t" using rt(3) by blast
  have v': "piece_Make (piece_GetColor v) ?t = v" using piece_eq_Make [OF v(1) 2] by simp
  show ?case
    using rd rt(1,4) read_flags(2) [OF a2 g] 2 v'
      read_flags(1) [OF a2 g, of "\<lambda>f c r. Some (piece_Make c (if f then pt_Promote (raw_type ?t) else raw_type ?t), r)"]
    by (simp add: ReadBoardPiece_def ReadBoardType_def piece_bits_def kNoPieceType_def)
qed

lemma ReadHandPiece_hand:
  assumes r: "ahead r (hand_bits c raw @ rest)" and raw: "1 \<le> raw" "raw \<le> 7"
  shows "ReadHandPiece r = Some ((raw, c, False), skip r (length (hand_bits c raw)))"
    "ahead (skip r (length (hand_bits c raw))) rest"
proof -
  let ?fl = "flag_bits raw False c"
  have a: "ahead r (tl (type_bits raw) @ ?fl @ rest)" using r by (simp add: hand_bits_def)
  note d = dec_hand_type [OF raw, of "?fl @ rest"]
  have l: "length (tl (type_bits raw) @ ?fl @ rest) - length (?fl @ rest) = length (tl (type_bits raw))" by simp
  note rd = read_type_dec(2) [OF a d refl, unfolded l] and a2 = read_type_dec(3) [OF a d, unfolded l]
  show "ReadHandPiece r = Some ((raw, c, False), skip r (length (hand_bits c raw)))"
    "ahead (skip r (length (hand_bits c raw))) rest"
    using read_flags(2) [OF a2] read_flags(1) [OF a2, of "\<lambda>f c r. Some ((raw, c, f), r)"]
    unfolding ReadHandPiece_def rd hand_bits_def Option.bind_lunit prod.case skip_simps length_append by blast+
qed

text \<open>A box piece reads as some promoted hand piece; gold reads as a promoted silver.\<close>

definition box_type :: "piece_type \<Rightarrow> piece_type" where
  "box_type raw = (if raw = kGold then kSilver else raw)"

lemma box_bits_as_hand:
  assumes "1 \<le> raw" "raw \<le> 7"
  shows "box_bits raw = tl (type_bits (box_type raw)) @ [True, raw = kGold]" "1 \<le> box_type raw" "box_type raw \<le> 7"
    "box_type raw \<noteq> kGold"
  using raw_cases [OF assms(2)] assms(1)
  by (atomize (full), elim insertE emptyE)
    (simp_all add: box_bits_eq [unfolded One_nat_def] type_bits_eq box_type_def piece_type_defs)

lemma ReadHandPiece_box:
  assumes r: "ahead r (box_bits raw @ rest)" and raw: "1 \<le> raw" "raw \<le> 7"
  shows "\<exists>x c. ReadHandPiece r = Some ((x, c, True), skip r (length (box_bits raw)))"
    "ahead (skip r (length (box_bits raw))) rest"
proof -
  note bb = box_bits_as_hand [OF raw]
  let ?c = "if raw = kGold then WHITE else BLACK"
  let ?fl = "flag_bits (box_type raw) True ?c"
  have fl: "?fl = [True, raw = kGold]" using bb(4) by (simp add: flag_bits_def)
  have a: "ahead r (tl (type_bits (box_type raw)) @ ?fl @ rest)" using r by (simp add: bb(1) fl)
  note d = dec_hand_type [OF bb(2,3), of "?fl @ rest"]
  have l: "length (tl (type_bits (box_type raw)) @ ?fl @ rest) - length (?fl @ rest) =
    length (tl (type_bits (box_type raw)))" by simp
  note rd = read_type_dec(2) [OF a d refl, unfolded l] and a2 = read_type_dec(3) [OF a d, unfolded l]
  have n: "length (tl (type_bits (box_type raw))) + length ?fl = length (box_bits raw)" by (simp add: bb(1) fl)
  have g: "box_type raw = kGold \<longrightarrow> \<not> True" using bb(4) by simp
  have rd2: "ReadHandPiece r = Some ((box_type raw, ?c, True), skip r (length (box_bits raw)))"
    using read_flags(1) [OF a2 g, of "\<lambda>f c r. Some ((box_type raw, c, f), r)"]
    unfolding ReadHandPiece_def rd n [symmetric] Option.bind_lunit prod.case skip_simps .
  then show "\<exists>x c. ReadHandPiece r = Some ((x, c, True), skip r (length (box_bits raw)))" by blast
  show "ahead (skip r (length (box_bits raw))) rest" using read_flags(2) [OF a2 g] by (simp add: n [symmetric])
qed

subsection \<open>The loops of the writer\<close>

definition square_bits :: "shogi_board \<Rightarrow> square \<Rightarrow> bool list" where
  "square_bits b sq = (if board_arr b sq \<noteq> 0 \<and> piece_GetType (board_arr b sq) = kKing then []
     else piece_bits (board_arr b sq))"

definition count_base :: "shogi_board \<Rightarrow> square list \<Rightarrow> piece_type \<Rightarrow> nat" where
  "count_base b sqs pt = (\<Sum>s\<leftarrow>sqs. is_base pt (board_arr b s))"

lemma is_base_king: "piece_GetType v = kKing \<Longrightarrow> 1 \<le> pt \<Longrightarrow> is_base pt v = 0"
  by (simp add: is_base_def kKing_def pt_Unpromote_def nat_and_7)

lemma pack_squares_written:
  assumes "\<forall>s\<in>set sqs. piece_ok (board_arr b s)" "written w bs"
    "length bs + length (concat (map (square_bits b) sqs)) \<le> 256"
    "\<forall>pt\<in>{1..7}. int (count_base b sqs pt) \<le> remaining pt"
  shows "\<exists>w' remaining'. pack_squares b sqs w remaining = Some (w', remaining') \<and>
    written w' (bs @ concat (map (square_bits b) sqs)) \<and>
    (\<forall>pt\<in>{1..7}. remaining' pt = remaining pt - int (count_base b sqs pt))"
  using assms
proof (induction sqs arbitrary: w bs remaining)
  case Nil
  then show ?case by (simp add: count_base_def)
next
  case (Cons s sqs)
  let ?v = "board_arr b s"
  show ?case
  proof (cases "?v \<noteq> 0 \<and> piece_GetType ?v = kKing")
    case True
    then have c: "count_base b (s # sqs) pt = count_base b sqs pt" if "pt \<in> {1..7}" for pt
      using that by (simp add: count_base_def is_base_king)
    have "square_bits b s = []" using True by (simp add: square_bits_def)
    then show ?thesis using Cons.IH [of w bs remaining] Cons.prems True c by (auto simp: piece_IsNone_def Let_def)
  next
    case False
    then have sb: "square_bits b s = piece_bits ?v" by (auto simp: square_bits_def)
    have ok: "piece_ok ?v" "?v \<noteq> 0 \<Longrightarrow> piece_GetType ?v \<noteq> kKing" using Cons.prems(1) False by auto
    have l: "length (bs @ piece_bits ?v) \<le> 256" using Cons.prems(3) sb by simp
    obtain w1 where w1: "WriteBoardPiece w ?v = Some w1" "written w1 (bs @ piece_bits ?v)"
      using WriteBoardPiece_written [OF Cons.prems(2) l ok] by blast
    have l1: "length (bs @ piece_bits ?v) + length (concat (map (square_bits b) sqs)) \<le> 256"
      using Cons.prems(3) sb by simp
    show ?thesis
    proof (cases "?v = 0")
      case True
      then have c: "count_base b (s # sqs) pt = count_base b sqs pt" for pt
        by (simp add: count_base_def is_base_def)
      show ?thesis using Cons.IH [OF _ w1(2) l1, of remaining] Cons.prems w1 True c sb
        by (auto simp: piece_IsNone_def Let_def)
    next
      case nz: False
      let ?raw = "raw_type (piece_GetType ?v)"
      let ?rem = "remaining(?raw := remaining ?raw - 1)"
      note rt = raw_type_props [OF ok(1) nz ok(2) [OF nz]]
      have c: "count_base b (s # sqs) pt = count_base b sqs pt + (if pt = ?raw then 1 else 0)" for pt
        using nz rt(5) by (simp add: count_base_def is_base_def)
      have rem: "\<forall>pt\<in>{1..7}. int (count_base b sqs pt) \<le> ?rem pt"
        using Cons.prems(4) by (auto simp: c)
      have "\<forall>s\<in>set sqs. piece_ok (board_arr b s)" using Cons.prems(1) by simp
      from Cons.IH [OF this w1(2) l1 rem] obtain w' rem' where
        *: "pack_squares b sqs w1 ?rem = Some (w', rem')"
          "written w' ((bs @ piece_bits ?v) @ concat (map (square_bits b) sqs))"
          "\<forall>pt\<in>{1..7}. rem' pt = ?rem pt - int (count_base b sqs pt)" by blast
      have "?raw \<in> {1..7}" using rt(1,2) by simp
      then have "\<not> remaining ?raw - 1 < 0" using bspec [OF Cons.prems(4), of ?raw] c [of ?raw] by simp
      then have "pack_squares b (s # sqs) w remaining = Some (w', rem')"
        using *(1) w1(1) nz ok(2) rt(1,2) by (simp add: piece_IsNone_def Let_def not_less)
      then show ?thesis using *(2,3) sb by (auto simp: c)
    qed
  qed
qed

lemma repeat_write_written:
  assumes "\<And>w bs. written w bs \<Longrightarrow> length (bs @ e) \<le> 256 \<Longrightarrow> \<exists>w'. f w = Some w' \<and> written w' (bs @ e)"
    and "written w bs" "length bs + n * length e \<le> 256"
  shows "\<exists>w'. repeat_write n f w = Some w' \<and> written w' (bs @ concat (replicate n e))"
  using assms(2,3)
proof (induction n arbitrary: w bs)
  case (Suc n)
  obtain w1 where w1: "f w = Some w1" "written w1 (bs @ e)" using assms(1) [OF Suc.prems(1)] Suc.prems(2) by auto
  then show ?case using Suc.IH [OF w1(2)] Suc.prems(2) by auto
qed simp

lemma pack_hands_written:
  assumes "\<forall>(c, raw)\<in>set xs. pt_IsHandPiece raw" "written w bs"
    "length bs + length (concat (map (\<lambda>(c, raw). concat (replicate (hand_Count (hands b c) raw) (hand_bits c raw))) xs)) \<le> 256"
    "\<forall>pt\<in>{1..7}. int (\<Sum>(c, raw)\<leftarrow>xs. if raw = pt then hand_Count (hands b c) raw else 0) \<le> remaining pt"
  shows "\<exists>w' remaining'. pack_hands b xs w remaining = Some (w', remaining') \<and>
    written w' (bs @ concat (map (\<lambda>(c, raw). concat (replicate (hand_Count (hands b c) raw) (hand_bits c raw))) xs)) \<and>
    (\<forall>pt\<in>{1..7}. remaining' pt = remaining pt -
       int (\<Sum>(c, raw)\<leftarrow>xs. if raw = pt then hand_Count (hands b c) raw else 0))"
  using assms
proof (induction xs arbitrary: w bs remaining)
  case (Cons x xs)
  obtain c raw where x: "x = (c, raw)" by force
  let ?n = "hand_Count (hands b c) raw"
  let ?rem = "remaining(raw := remaining raw - int ?n)"
  let ?bits = "\<lambda>xs. concat (map (\<lambda>(c, raw). concat (replicate (hand_Count (hands b c) raw) (hand_bits c raw))) xs)"
  let ?cnt = "\<lambda>xs pt. \<Sum>(c, raw)\<leftarrow>xs. if raw = pt then hand_Count (hands b c) raw else 0"
  have raw: "pt_IsHandPiece raw" "raw \<in> {1..7}" using Cons.prems(1) x by (auto simp: pt_IsHandPiece_def)
  have l: "length bs + ?n * length (hand_bits c raw) \<le> 256"
    using Cons.prems(3) by (simp add: x length_concat sum_list_replicate)
  obtain w1 where w1: "repeat_write ?n (\<lambda>w. WriteHandPiece w c raw) w = Some w1"
      "written w1 (bs @ concat (replicate ?n (hand_bits c raw)))"
    using repeat_write_written [OF _ Cons.prems(2) l, of "\<lambda>w. WriteHandPiece w c raw"]
      WriteHandPiece_written raw(1) by blast
  have rem: "\<forall>pt\<in>{1..7}. int (?cnt xs pt) \<le> ?rem pt" using Cons.prems(4) by (auto simp: x)
  have l1: "length (bs @ concat (replicate ?n (hand_bits c raw))) + length (?bits xs) \<le> 256"
    using Cons.prems(3) by (simp add: x)
  have "\<forall>(c, raw)\<in>set xs. pt_IsHandPiece raw" using Cons.prems(1) by auto
  from Cons.IH [OF this w1(2) l1 rem] obtain w' rem' where
    *: "pack_hands b xs w1 ?rem = Some (w', rem')"
      "written w' ((bs @ concat (replicate ?n (hand_bits c raw))) @ ?bits xs)"
      "\<forall>pt\<in>{1..7}. rem' pt = ?rem pt - int (?cnt xs pt)" by blast
  have "\<not> remaining raw - int ?n < 0" using bspec [OF Cons.prems(4) raw(2)] by (simp add: x)
  then have "pack_hands b (x # xs) w remaining = Some (w', rem')" using *(1) w1(1) by (simp add: x Let_def)
  then show ?case using *(2,3) by (auto simp: x)
qed simp

lemma pack_box_written:
  assumes "\<forall>raw\<in>set xs. pt_IsHandPiece raw" "written w bs"
    "length bs + length (concat (map (\<lambda>raw. concat (replicate (nat (remaining raw)) (box_bits raw))) xs)) \<le> 256"
  shows "\<exists>w'. pack_box xs w remaining = Some w' \<and>
    written w' (bs @ concat (map (\<lambda>raw. concat (replicate (nat (remaining raw)) (box_bits raw))) xs))"
  using assms
proof (induction xs arbitrary: w bs)
  case (Cons raw xs)
  let ?n = "nat (remaining raw)"
  have raw: "pt_IsHandPiece raw" using Cons.prems(1) by simp
  have l: "length bs + ?n * length (box_bits raw) \<le> 256"
    using Cons.prems(3) by (simp add: length_concat sum_list_replicate)
  obtain w1 where w1: "repeat_write ?n (\<lambda>w. WritePieceBoxPiece w raw) w = Some w1"
      "written w1 (bs @ concat (replicate ?n (box_bits raw)))"
    using repeat_write_written [OF _ Cons.prems(2) l, of "\<lambda>w. WritePieceBoxPiece w raw"]
      WritePieceBoxPiece_written raw(1) by blast
  then show ?case using Cons.IH [OF _ w1(2)] Cons.prems by auto
qed simp

subsection \<open>The whole stream\<close>

definition king_bits :: "square \<Rightarrow> bool list" where
  "king_bits k = map (bit (of_nat k :: u32)) [0..<7]"

definition hands_bits :: "shogi_board \<Rightarrow> bool list" where
  "hands_bits b = concat (map (\<lambda>(c, raw). concat (replicate (hand_Count (hands b c) raw) (hand_bits c raw)))
     (List.product [BLACK, WHITE] kHandOrder))"

definition box_count :: "shogi_board \<Rightarrow> piece_type \<Rightarrow> nat" where
  "box_count b pt = piece_supply pt - material b pt"

definition boxes_bits :: "shogi_board \<Rightarrow> bool list" where
  "boxes_bits b = concat (map (\<lambda>raw. concat (replicate (box_count b raw) (box_bits raw))) kHandOrder)"

definition packed_bits :: "shogi_board \<Rightarrow> bool list" where
  "packed_bits b = (side_to_move b = WHITE) # king_bits (king_sq b BLACK) @ king_bits (king_sq b WHITE) @
     concat (map (square_bits b) [0..<81]) @ hands_bits b @ boxes_bits b"

text \<open>The bits a piece adds: to an empty square on the board, in hand or in the box.\<close>

definition piece_width :: "piece_type \<Rightarrow> nat" where
  "piece_width pt = [0, 3, 5, 5, 5, 7, 7, 5] ! pt"

lemma width_bits:
  assumes "1 \<le> raw" "raw \<le> 7"
  shows "length (type_bits raw @ flag_bits raw f c) = Suc (piece_width raw)"
    "length (hand_bits c raw) = piece_width raw" "length (box_bits raw) = piece_width raw"
  using raw_cases [OF assms(2)] assms(1)
  by (atomize (full), elim insertE emptyE)
    (simp_all add: type_bits_eq box_bits_eq [unfolded One_nat_def] hand_bits_def flag_bits_def piece_width_def kGold_def)

lemma sum_is_base:
  assumes "1 \<le> raw" "raw \<le> 7" "v \<noteq> 0" "pt_Unpromote (piece_GetType v) = raw"
  shows "(\<Sum>pt\<in>{1..7}. piece_width pt * is_base pt v) = piece_width raw"
proof -
  have "(\<Sum>pt\<in>{1..7}. piece_width pt * is_base pt v) = (\<Sum>pt\<in>{1..7}. if pt = raw then piece_width pt else 0)"
    using assms(3,4) by (intro sum.cong) (auto simp: is_base_def)
  then show ?thesis using assms by simp
qed

lemma length_square_bits:
  assumes "piece_ok (board_arr b s)"
  shows "length (square_bits b s) =
    (if board_arr b s \<noteq> 0 \<and> piece_GetType (board_arr b s) = kKing then 0 else 1) +
    (\<Sum>pt\<in>{1..7}. piece_width pt * is_base pt (board_arr b s))"
proof (cases "board_arr b s = 0")
  case True
  then show ?thesis by (simp add: square_bits_def piece_bits_def is_base_def)
next
  case nz: False
  show ?thesis
  proof (cases "piece_GetType (board_arr b s) = kKing")
    case True
    then have "(\<Sum>pt\<in>{1..7}. piece_width pt * is_base pt (board_arr b s)) = 0"
      by (intro sum.neutral) (auto simp: is_base_king)
    then show ?thesis using True nz by (simp add: square_bits_def)
  next
    case False
    note rt = raw_type_props [OF assms nz False]
    show ?thesis
      using sum_is_base [OF rt(1,2) nz rt(5) [symmetric]] width_bits(1) [OF rt(1,2)] nz False
      by (simp add: square_bits_def piece_bits_def)
  qed
qed

lemma length_squares_bits:
  assumes "\<forall>s\<in>set sqs. piece_ok (board_arr b s)"
  shows "length (concat (map (square_bits b) sqs)) =
    (\<Sum>s\<leftarrow>sqs. if board_arr b s \<noteq> 0 \<and> piece_GetType (board_arr b s) = kKing then 0 else 1) +
    (\<Sum>pt\<in>{1..7}. piece_width pt * count_base b sqs pt)"
  using assms
proof (induction sqs)
  case (Cons s sqs)
  then show ?case
    using length_square_bits [of b s] by (simp add: count_base_def algebra_simps sum.distrib)
qed (simp add: count_base_def)

lemma kings_on_squares:
  assumes "kings_ok b"
  shows "board_arr b (king_sq b c) \<noteq> 0 \<and> piece_GetType (board_arr b (king_sq b c)) = kKing"
proof -
  have "board_arr b (king_sq b c) = piece_Make c kKing" using assms by (auto simp: kings_ok_def)
  then show ?thesis by (cases c) (simp_all add: kKing_def piece_Make_def piece_GetType_mod)
qed

lemma king_squares:
  assumes "board_ok b" "kings_ok b" "s < 81"
  shows "board_arr b s \<noteq> 0 \<and> piece_GetType (board_arr b s) = kKing \<longleftrightarrow> s = king_sq b BLACK \<or> s = king_sq b WHITE"
proof
  assume "board_arr b s \<noteq> 0 \<and> piece_GetType (board_arr b s) = kKing"
  then have "s = king_sq b (piece_GetColor (board_arr b s))"
    using king_piece_iff board_okD(1,6) [OF assms(1,3)] by metis
  then show "s = king_sq b BLACK \<or> s = king_sq b WHITE" by (metis color.exhaust)
next
  assume "s = king_sq b BLACK \<or> s = king_sq b WHITE"
  then show "board_arr b s \<noteq> 0 \<and> piece_GetType (board_arr b s) = kKing"
    using kings_on_squares [OF assms(2)] by blast
qed

lemma king_squares_neq:
  assumes "kings_ok b"
  shows "king_sq b BLACK \<noteq> king_sq b WHITE"
proof
  assume "king_sq b BLACK = king_sq b WHITE"
  then have "piece_Make BLACK kKing = piece_Make WHITE kKing" using assms by (metis kings_ok_def)
  then show False by (simp add: kKing_def)
qed

lemma count_base_all: "count_base b [0..<81] pt = board_count (board_arr b) pt"
  by (simp add: count_base_def board_count_def interv_sum_list_conv_sum_set_nat atLeast0LessThan del: upt_Suc)

lemma sum_not_in: "finite A \<Longrightarrow> (\<Sum>s\<in>A. if s \<in> K then 0 else (1::nat)) = card (A - K)"
  by (simp add: sum.If_cases Diff_eq)

lemma non_king_squares:
  assumes "board_ok b" "kings_ok b"
  shows "(\<Sum>s\<leftarrow>[0..<81]. if board_arr b s \<noteq> 0 \<and> piece_GetType (board_arr b s) = kKing then 0 else 1) = (79::nat)"
proof -
  let ?K = "{king_sq b BLACK, king_sq b WHITE}"
  have "(\<Sum>s\<leftarrow>[0..<81]. if board_arr b s \<noteq> 0 \<and> piece_GetType (board_arr b s) = kKing then 0 else 1) =
      (\<Sum>s\<in>{0..<81}. if s \<in> ?K then 0 else (1::nat))"
    unfolding interv_sum_list_conv_sum_set_nat
  proof (intro sum.cong refl)
    fix x :: nat assume "x \<in> {0..<81}"
    then have "board_arr b x \<noteq> 0 \<and> piece_GetType (board_arr b x) = kKing \<longleftrightarrow> x \<in> ?K"
      using king_squares [OF assms, of x] by (simp only: atLeastLessThan_iff insert_iff empty_iff simp_thms)
    then show "(if board_arr b x \<noteq> 0 \<and> piece_GetType (board_arr b x) = kKing then 0 else 1) =
        (if x \<in> ?K then 0 else (1::nat))" by (simp only:)
  qed (simp del: upt_Suc)
  also have "\<dots> = card ({0..<81} - ?K)"
    by (rule sum_not_in) simp
  also have "\<dots> = 79"
    using assms(2) king_squares_neq [OF assms(2)] by (subst card_Diff_subset) (auto simp: kings_ok_def)
  finally show ?thesis .
qed

lemma kHandOrder_eq: "kHandOrder = [1, 2, 3, 4, 7, 5, 6]"
  by (simp add: kHandOrder_def piece_type_defs)

lemma hand_piece_range: "pt_IsHandPiece pt \<longleftrightarrow> pt \<in> {1..7}"
  by (auto simp: pt_IsHandPiece_def)

lemma box_count_sum:
  assumes "material_ok b" "pt \<in> {1..7}"
  shows "box_count b pt + count_base b [0..<81] pt + hand_Count (hands b BLACK) pt + hand_Count (hands b WHITE) pt =
    piece_supply pt"
  using assms by (auto simp: material_ok_def box_count_def material_def count_base_all hand_piece_range)

lemma length_hand_bits_list:
  "(\<And>c raw. (c, raw) \<in> set xs \<Longrightarrow> raw \<in> {1..7}) \<Longrightarrow>
    length (concat (map (\<lambda>(c, raw). concat (replicate (g c raw) (hand_bits c raw))) xs)) =
    (\<Sum>(c, raw)\<leftarrow>xs. g c raw * piece_width raw)"
proof (induction xs)
  case (Cons x xs)
  obtain c raw where x: "x = (c, raw)" by force
  then have "1 \<le> raw" "raw \<le> 7" using Cons.prems by auto
  moreover have "\<And>c raw. (c, raw) \<in> set xs \<Longrightarrow> raw \<in> {1..7}" using Cons.prems by auto
  note Cons.IH [OF this]
  ultimately show ?case by (simp add: x length_concat [of "replicate _ _"] sum_list_replicate width_bits(2))
qed simp

lemma length_box_bits_list:
  "(\<And>raw. raw \<in> set xs \<Longrightarrow> raw \<in> {1..7}) \<Longrightarrow>
    length (concat (map (\<lambda>raw. concat (replicate (g raw) (box_bits raw))) xs)) = (\<Sum>raw\<leftarrow>xs. g raw * piece_width raw)"
proof (induction xs)
  case (Cons x xs)
  then have "1 \<le> x" "x \<le> 7" by auto
  then show ?case using Cons by (simp add: length_concat [of "replicate _ _"] sum_list_replicate width_bits(3))
qed simp

lemma sum_1_7: "(\<Sum>pt\<in>{1..7::nat}. f pt) = f 1 + f 2 + f 3 + f 4 + f 5 + f 6 + (f 7 :: nat)"
proof -
  have "{1..7::nat} = {1, 2, 3, 4, 5, 6, 7}" by auto
  then show ?thesis by simp
qed

lemma length_packed_bits:
  assumes "board_ok b" "kings_ok b" "material_ok b"
  shows "length (packed_bits b) = 256"
proof -
  let ?B = "hand_Count (hands b BLACK)" and ?W = "hand_Count (hands b WHITE)" and ?n = "count_base b [0..<81]"
  have hd: "length (hands_bits b) = (\<Sum>pt\<in>{1..7}. piece_width pt * (?B pt + ?W pt))"
    unfolding hands_bits_def
    by (subst length_hand_bits_list) (auto simp: kHandOrder_eq sum_1_7 sum_1_7 [unfolded One_nat_def] algebra_simps)
  have bx: "length (boxes_bits b) = (\<Sum>pt\<in>{1..7}. piece_width pt * box_count b pt)"
    unfolding boxes_bits_def
    by (subst length_box_bits_list) (auto simp: kHandOrder_eq sum_1_7 sum_1_7 [unfolded One_nat_def] algebra_simps)
  have sq: "length (concat (map (square_bits b) [0..<81])) = 79 + (\<Sum>pt\<in>{1..7}. piece_width pt * ?n pt)"
    using length_squares_bits [of "[0..<81]" b] board_okD(1) [OF assms(1)] non_king_squares [OF assms(1,2)]
    by (simp del: upt_Suc)
  have "length (packed_bits b) = 94 + ((\<Sum>pt\<in>{1..7}. piece_width pt * ?n pt) +
      (\<Sum>pt\<in>{1..7}. piece_width pt * (?B pt + ?W pt)) + (\<Sum>pt\<in>{1..7}. piece_width pt * box_count b pt))"
    unfolding packed_bits_def length_append list.size(4) hd bx sq by (simp add: king_bits_def)
  also have "\<dots> = 94 + (\<Sum>pt\<in>{1..7}. piece_width pt * (box_count b pt + ?n pt + ?B pt + ?W pt))"
    by (simp add: sum.distrib [symmetric] algebra_simps)
  also have "\<dots> = 94 + (\<Sum>pt\<in>{1..7}. piece_width pt * piece_supply pt)"
    using box_count_sum [OF assms(3)] by (intro arg_cong2 [where f = "(+)"] sum.cong) auto
  also have "\<dots> = 256" by (simp only: sum_1_7) (simp add: piece_width_def piece_supply_def)
  finally show ?thesis .
qed

lemma sum_hand_list:
  assumes "pt \<in> {1..7}"
  shows "(\<Sum>(c, raw)\<leftarrow>List.product [BLACK, WHITE] kHandOrder. if raw = pt then hand_Count (hands b c) raw else 0) =
    hand_Count (hands b BLACK) pt + hand_Count (hands b WHITE) pt"
proof -
  have "pt \<in> {1, 2, 3, 4, 5, 6, 7}" using assms by auto
  then show ?thesis by (elim insertE emptyE) (simp_all add: kHandOrder_eq)
qed

lemma ToPackedSfen_bits:
  assumes "board_ok b" "kings_ok b" "material_ok b"
  shows "\<exists>p. ToPackedSfen b = Some p \<and> length p = 32 \<and> (\<forall>i<256. pbit p i = packed_bits b ! i)"
proof -
  let ?sq = "concat (map (square_bits b) [0..<81])"
  have len: "length (packed_bits b) = 256" by (rule length_packed_bits [OF assms])
  have l15: "15 + length ?sq + length (hands_bits b) + length (boxes_bits b) = 256"
    using len by (simp add: packed_bits_def king_bits_def del: upt_Suc)
  obtain w1 where w1: "bw_Write new_writer (if side_to_move b = WHITE then 1 else 0) 1 = Some w1"
      "written w1 ([] @ [side_to_move b = WHITE])"
    using bw_Write_bit [OF written_new] by auto
  obtain w2 where w2: "bw_Write w1 (of_nat (king_sq b BLACK)) 7 = Some w2"
      "written w2 (([] @ [side_to_move b = WHITE]) @ king_bits (king_sq b BLACK))"
    using bw_Write_written [OF w1(2), of 7] by (auto simp: king_bits_def)
  obtain w3 where w3: "bw_Write w2 (of_nat (king_sq b WHITE)) 7 = Some w3"
      "written w3 ((([] @ [side_to_move b = WHITE]) @ king_bits (king_sq b BLACK)) @ king_bits (king_sq b WHITE))"
    using bw_Write_written [OF w2(2), of 7] by (auto simp: king_bits_def)
  let ?p3 = "[side_to_move b = WHITE] @ king_bits (king_sq b BLACK) @ king_bits (king_sq b WHITE)"
  have w3': "written w3 ?p3" using w3(2) by simp
  have l3: "length ?p3 = 15" by (simp add: king_bits_def)
  have sup: "int (piece_supply pt) = kPhysicalPieceCounts pt" if "pt \<in> {1..7}" for pt
  proof -
    have "pt \<in> {1, 2, 3, 4, 5, 6, 7}" using that by auto
    then show ?thesis by (elim insertE emptyE) (simp_all add: piece_supply_def kPhysicalPieceCounts_def)
  qed
  have m: "int (box_count b pt) + int (count_base b [0..<81] pt) + int (hand_Count (hands b BLACK) pt) +
      int (hand_Count (hands b WHITE) pt) = kPhysicalPieceCounts pt" if "pt \<in> {1..7}" for pt
    using box_count_sum [OF assms(3) that] sup [OF that] by linarith
  have "\<forall>pt\<in>{1..7}. int (count_base b [0..<81] pt) \<le> kPhysicalPieceCounts pt" using m by fastforce
  then obtain w4 rem4 where w4: "pack_squares b [0..<81] w3 kPhysicalPieceCounts = Some (w4, rem4)"
      "written w4 (?p3 @ ?sq)" "\<forall>pt\<in>{1..7}. rem4 pt = kPhysicalPieceCounts pt - int (count_base b [0..<81] pt)"
    using pack_squares_written [OF _ w3', of "[0..<81]" b kPhysicalPieceCounts] board_okD(1) [OF assms(1)] l15 l3
    by (auto simp del: upt_Suc)
  have r4: "\<forall>pt\<in>{1..7}. int (\<Sum>(c, raw)\<leftarrow>List.product [BLACK, WHITE] kHandOrder.
      if raw = pt then hand_Count (hands b c) raw else 0) \<le> rem4 pt"
  proof
    fix pt :: nat assume pt: "pt \<in> {1..7}"
    show "int (\<Sum>(c, raw)\<leftarrow>List.product [BLACK, WHITE] kHandOrder. if raw = pt then hand_Count (hands b c) raw else 0) \<le> rem4 pt"
      unfolding sum_hand_list [OF pt] using m [OF pt] bspec [OF w4(3) pt] by linarith
  qed
  have hp: "\<forall>(c, raw)\<in>set (List.product [BLACK, WHITE] kHandOrder). pt_IsHandPiece raw"
    by (auto simp: kHandOrder_eq pt_IsHandPiece_def)
  have l4: "length (?p3 @ ?sq) + length (concat (map (\<lambda>(c, raw).
      concat (replicate (hand_Count (hands b c) raw) (hand_bits c raw))) (List.product [BLACK, WHITE] kHandOrder))) \<le> 256"
    using l15 l3 by (simp only: hands_bits_def [symmetric] length_append)
  obtain w5 rem5 where w5: "pack_hands b (List.product [BLACK, WHITE] kHandOrder) w4 rem4 = Some (w5, rem5)"
      "written w5 ((?p3 @ ?sq) @ hands_bits b)"
      "\<forall>pt\<in>{1..7}. rem5 pt = rem4 pt - int (\<Sum>(c, raw)\<leftarrow>List.product [BLACK, WHITE] kHandOrder.
        if raw = pt then hand_Count (hands b c) raw else 0)"
    using pack_hands_written [OF hp w4(2) l4 r4] unfolding hands_bits_def by blast
  have rem5: "nat (rem5 pt) = box_count b pt" if "pt \<in> {1..7}" for pt
    using bspec [OF w5(3) that] bspec [OF w4(3) that] m [OF that] unfolding sum_hand_list [OF that] by linarith
  have "map (\<lambda>raw. concat (replicate (nat (rem5 raw)) (box_bits raw))) kHandOrder =
      map (\<lambda>raw. concat (replicate (box_count b raw) (box_bits raw))) kHandOrder"
    by (intro map_cong refl) (auto simp: kHandOrder_eq rem5)
  then have bx: "concat (map (\<lambda>raw. concat (replicate (nat (rem5 raw)) (box_bits raw))) kHandOrder) = boxes_bits b"
    by (simp only: boxes_bits_def)
  have hk: "\<forall>raw\<in>set kHandOrder. pt_IsHandPiece raw" by (auto simp: kHandOrder_eq pt_IsHandPiece_def)
  have l5: "length ((?p3 @ ?sq) @ hands_bits b) + length (boxes_bits b) \<le> 256"
    using l15 l3 by (simp only: length_append)
  obtain w6 where w6: "pack_box kHandOrder w5 rem5 = Some w6" "written w6 (((?p3 @ ?sq) @ hands_bits b) @ boxes_bits b)"
    using pack_box_written [OF hk w5(2), of rem5] l5 unfolding bx by blast
  have w6': "written w6 (packed_bits b)" using w6(2) by (simp add: packed_bits_def del: upt_Suc)
  then have "cursor w6 = 256" "length (bytes w6) = 32" "\<forall>i<256. pbit (bytes w6) i = packed_bits b ! i"
    using len by (auto simp: written_def)
  then show ?thesis
    using w1(1) w2(1) w3(1) w4(1) w5(1) w6(1) by (simp add: ToPackedSfen_def del: upt_Suc)
qed

end
