(* ===== verification/PackedRound.thy ===== *)
theory PackedRound
  imports PackedSfens
begin

text \<open>
  The reading side of the 32-byte position codec: the loops of \<open>SetFromPackedSfen\<close> on the bits
  \<open>ToPackedSfen\<close> wrote, and the round trip.
\<close>

lemma skip_sel [simp]: "cursor (skip r n) = cursor r + n" "bytes (skip r n) = bytes r"
  by (simp_all add: skip_def)

lemma unpack_squares_ahead:
  assumes "ahead r (concat (map (square_bits b) sqs) @ rest)" "\<forall>s\<in>set sqs. piece_ok (board_arr b s)"
    "\<forall>s\<in>set sqs. (board_arr b s \<noteq> 0 \<and> piece_GetType (board_arr b s) = kKing) \<longleftrightarrow> s = bk \<or> s = wk"
  shows "unpack_squares bk wk sqs r a =
      Some (place_all (placement_list b (filter (\<lambda>s. \<not> (s = bk \<or> s = wk)) sqs)) a,
        skip r (length (concat (map (square_bits b) sqs)))) \<and>
    ahead (skip r (length (concat (map (square_bits b) sqs)))) rest"
  using assms
proof (induction sqs arbitrary: r a)
  case Nil
  then show ?case by (simp add: placement_list_def)
next
  case (Cons s sqs)
  let ?v = "board_arr b s"
  show ?case
  proof (cases "s = bk \<or> s = wk")
    case True
    then have "square_bits b s = []" using Cons.prems(3) by (simp add: square_bits_def)
    then show ?thesis using Cons.IH [of r a] Cons.prems True by auto
  next
    case False
    then have nk: "\<not> (?v \<noteq> 0 \<and> piece_GetType ?v = kKing)" using Cons.prems(3) by simp
    then have sb: "square_bits b s = piece_bits ?v" by (auto simp: square_bits_def)
    have ah: "ahead r (piece_bits ?v @ (concat (map (square_bits b) sqs) @ rest))" using Cons.prems(1) sb by simp
    have ok: "piece_ok ?v" "?v \<noteq> 0 \<Longrightarrow> piece_GetType ?v \<noteq> kKing" using Cons.prems(2) nk by auto
    note rd = ReadBoardPiece_ahead [OF ah ok]
    let ?a = "if \<not> piece_IsNone ?v then PutPiece a s ?v else a"
    have "unpack_squares bk wk sqs (skip r (length (piece_bits ?v))) ?a =
        Some (place_all (placement_list b (filter (\<lambda>s. \<not> (s = bk \<or> s = wk)) sqs)) ?a,
          skip (skip r (length (piece_bits ?v))) (length (concat (map (square_bits b) sqs)))) \<and>
      ahead (skip (skip r (length (piece_bits ?v))) (length (concat (map (square_bits b) sqs)))) rest"
      using Cons.prems(2,3) by (intro Cons.IH rd(2)) auto
    moreover have "unpack_squares bk wk (s # sqs) r a = unpack_squares bk wk sqs (skip r (length (piece_bits ?v))) ?a"
      using False rd(1) by simp
    moreover have "place_all (placement_list b (filter (\<lambda>s. \<not> (s = bk \<or> s = wk)) sqs)) ?a =
        place_all (placement_list b (filter (\<lambda>s. \<not> (s = bk \<or> s = wk)) (s # sqs))) a"
      using False by (simp add: placement_list_def piece_IsNone_def)
    ultimately show ?thesis by (simp add: sb)
  qed
qed

lemma ahead_room: "ahead r (x # bs) \<Longrightarrow> cursor r < 256"
  by (simp add: ahead_def)

lemma hand_bits_nonempty: "1 \<le> raw \<Longrightarrow> raw \<le> 7 \<Longrightarrow> hand_bits c raw \<noteq> []"
  by (simp add: hand_bits_def flag_bits_def)

lemma box_bits_nonempty: "1 \<le> raw \<Longrightarrow> raw \<le> 7 \<Longrightarrow> box_bits raw \<noteq> []"
  using box_bits_as_hand(1) [of raw] by simp

lemma unpack_hand_step:
  assumes "ahead r (hand_bits c raw @ rest)" "1 \<le> raw" "raw \<le> 7"
  shows "unpack_hands r b = unpack_hands (skip r (length (hand_bits c raw)))
      (b\<lparr>hands := (hands b)(c := hand_Add (hands b c) raw)\<rparr>)"
proof -
  have "cursor r < 256" using hand_bits_nonempty [OF assms(2,3), of c] assms(1)
    by (cases "hand_bits c raw") (auto dest: ahead_room)
  then show ?thesis using ReadHandPiece_hand(1) [OF assms] by (subst unpack_hands.simps) simp
qed

lemma unpack_box_step:
  assumes "ahead r (box_bits raw @ rest)" "1 \<le> raw" "raw \<le> 7"
  shows "unpack_hands r b = unpack_hands (skip r (length (box_bits raw))) b"
proof -
  have "cursor r < 256" using box_bits_nonempty [OF assms(2,3)] assms(1)
    by (cases "box_bits raw") (auto dest: ahead_room)
  then show ?thesis using ReadHandPiece_box(1) [OF assms] by (subst unpack_hands.simps) auto
qed

lemma unpack_hand_repeat:
  assumes "ahead r (concat (replicate n (hand_bits c raw)) @ rest)" "1 \<le> raw" "raw \<le> 7"
  shows "unpack_hands r b = unpack_hands (skip r (length (concat (replicate n (hand_bits c raw)))))
      (b\<lparr>hands := (hands b)(c := ((\<lambda>h. hand_Add h raw) ^^ n) (hands b c))\<rparr>) \<and>
    ahead (skip r (length (concat (replicate n (hand_bits c raw))))) rest"
  using assms(1)
proof (induction n arbitrary: r b)
  case 0
  then show ?case by (cases b) simp
next
  case (Suc n)
  let ?tail = "concat (replicate n (hand_bits c raw)) @ rest"
  have a: "ahead r (hand_bits c raw @ ?tail)" using Suc.prems by simp
  note st = unpack_hand_step [OF a assms(2,3), of b]
  note ih = Suc.IH [OF ReadHandPiece_hand(2) [OF a assms(2,3)],
      of "b\<lparr>hands := (hands b)(c := hand_Add (hands b c) raw)\<rparr>"]
  show ?case using st ih by (simp add: funpow_swap1 [of "\<lambda>h. hand_Add h raw"] fun_upd_def cong: if_cong)
qed

lemma unpack_box_repeat:
  assumes "ahead r (concat (replicate n (box_bits raw)) @ rest)" "1 \<le> raw" "raw \<le> 7"
  shows "unpack_hands r b = unpack_hands (skip r (length (concat (replicate n (box_bits raw))))) b \<and>
    ahead (skip r (length (concat (replicate n (box_bits raw))))) rest"
  using assms(1)
proof (induction n arbitrary: r)
  case (Suc n)
  have a: "ahead r (box_bits raw @ (concat (replicate n (box_bits raw)) @ rest))" using Suc.prems by simp
  show ?case
    using unpack_box_step [OF a assms(2,3), of b] Suc.IH [OF ReadHandPiece_box(2) [OF a assms(2,3)]] by simp
qed simp

definition add_hands :: "shogi_board \<Rightarrow> (color \<times> piece_type) list \<Rightarrow> (color \<Rightarrow> hand) \<Rightarrow> color \<Rightarrow> hand" where
  "add_hands b xs hs = fold (\<lambda>(c, raw) hs. hs(c := ((\<lambda>h. hand_Add h raw) ^^ hand_Count (hands b c) raw) (hs c))) xs hs"

lemma unpack_hands_list:
  assumes "ahead r (concat (map (\<lambda>(c, raw). concat (replicate (hand_Count (hands b c) raw) (hand_bits c raw))) xs) @ rest)"
    "\<forall>(c, raw)\<in>set xs. 1 \<le> raw \<and> raw \<le> 7"
  shows "unpack_hands r a = unpack_hands
      (skip r (length (concat (map (\<lambda>(c, raw). concat (replicate (hand_Count (hands b c) raw) (hand_bits c raw))) xs))))
      (a\<lparr>hands := add_hands b xs (hands a)\<rparr>) \<and>
    ahead (skip r (length (concat (map (\<lambda>(c, raw). concat (replicate (hand_Count (hands b c) raw) (hand_bits c raw))) xs)))) rest"
  using assms
proof (induction xs arbitrary: r a)
  case Nil
  then show ?case by (cases a) (simp add: add_hands_def)
next
  case (Cons x xs)
  obtain c raw where x: "x = (c, raw)" by force
  let ?h = "concat (replicate (hand_Count (hands b c) raw) (hand_bits c raw))"
  let ?t = "concat (map (\<lambda>(c, raw). concat (replicate (hand_Count (hands b c) raw) (hand_bits c raw))) xs)"
  have raw: "1 \<le> raw" "raw \<le> 7" using Cons.prems(2) x by auto
  have a: "ahead r (?h @ (?t @ rest))" using Cons.prems(1) x by simp
  note st = unpack_hand_repeat [OF a raw, of a]
  let ?a = "a\<lparr>hands := (hands a)(c := ((\<lambda>h. hand_Add h raw) ^^ hand_Count (hands b c) raw) (hands a c))\<rparr>"
  have "\<forall>(c, raw)\<in>set xs. 1 \<le> raw \<and> raw \<le> 7" using Cons.prems(2) by auto
  note ih = Cons.IH [OF st [THEN conjunct2] this, of ?a]
  show ?case using st ih by (simp add: x add_hands_def del: fun_upd_apply)
qed

lemma unpack_box_list:
  assumes "ahead r (concat (map (\<lambda>raw. concat (replicate (g raw) (box_bits raw))) xs) @ rest)"
    "\<forall>raw\<in>set xs. 1 \<le> raw \<and> raw \<le> 7"
  shows "unpack_hands r a = unpack_hands
      (skip r (length (concat (map (\<lambda>raw. concat (replicate (g raw) (box_bits raw))) xs)))) a \<and>
    ahead (skip r (length (concat (map (\<lambda>raw. concat (replicate (g raw) (box_bits raw))) xs)))) rest"
  using assms
proof (induction xs arbitrary: r)
  case (Cons x xs)
  let ?t = "concat (map (\<lambda>raw. concat (replicate (g raw) (box_bits raw))) xs)"
  have a: "ahead r (concat (replicate (g x) (box_bits x)) @ (?t @ rest))" using Cons.prems(1) by simp
  note st = unpack_box_repeat [OF a, of a]
  show ?case using st Cons.IH [of "skip r (length (concat (replicate (g x) (box_bits x))))"] Cons.prems(2) by simp
qed simp

lemma add_hands_all:
  assumes "\<forall>c. hand_ok (hands b c)"
  shows "add_hands b (List.product [BLACK, WHITE] kHandOrder) (\<lambda>_. hand_Empty) = hands b"
proof -
  have p: "pt_IsHandPiece 1" "pt_IsHandPiece 2" "pt_IsHandPiece 3" "pt_IsHandPiece 4" "pt_IsHandPiece 5"
    "pt_IsHandPiece 6" "pt_IsHandPiece 7" "pt_IsHandPiece (Suc 0)" by (simp_all add: pt_IsHandPiece_def)
  have "hand_of (hand_Count (hands b c)) = hands b c" for c using assms by (simp add: hand_ok_def)
  then have "hand_of ((\<lambda>_. 0)(1 := hand_Count (hands b c) 1, 2 := hand_Count (hands b c) 2, 3 := hand_Count (hands b c) 3,
      4 := hand_Count (hands b c) 4, 7 := hand_Count (hands b c) 7, 5 := hand_Count (hands b c) 5,
      6 := hand_Count (hands b c) 6)) = hands b c" for c
    by (simp add: hand_of_def counts_sum_def)
  then show ?thesis
    by (simp add: add_hands_def kHandOrder_eq hand_Empty_of hand_Add_power p fun_eq_iff all_color)
qed

subsection \<open>The round trip\<close>

definition unpack_order :: "shogi_board \<Rightarrow> square list" where
  "unpack_order b = king_sq b BLACK # king_sq b WHITE #
     filter (\<lambda>s. \<not> (s = king_sq b BLACK \<or> s = king_sq b WHITE)) [0..<81]"

lemma unpack_order_props:
  assumes "kings_ok b"
  shows "distinct (unpack_order b)" "s \<in> set (unpack_order b) \<longleftrightarrow> s < 81"
  using assms king_squares_neq [OF assms] by (auto simp: unpack_order_def kings_ok_def)

lemma PutPiece_kings:
  assumes "kings_ok b"
  shows "PutPiece (PutPiece a (king_sq b BLACK) (piece_Make BLACK kKing)) (king_sq b WHITE) (piece_Make WHITE kKing) =
    place_all (placement_list b [king_sq b BLACK, king_sq b WHITE]) a"
proof -
  have "board_arr b (king_sq b c) = piece_Make c kKing" for c using assms by (simp add: kings_ok_def)
  then show ?thesis using kings_on_squares [OF assms] by (simp add: placement_list_def)
qed

lemma place_unpack_order:
  "place_all (placement_list b (filter (\<lambda>s. \<not> (s = king_sq b BLACK \<or> s = king_sq b WHITE)) [0..<81]))
     (place_all (placement_list b [king_sq b BLACK, king_sq b WHITE]) a) = place_all (placement_list b (unpack_order b)) a"
  by (simp add: unpack_order_def placement_list_def del: upt_Suc)

lemma unat_king_bits:
  assumes "k < 81"
  shows "unat (take_bit 7 (of_nat k :: u32)) = k"
proof -
  have "k < 2 ^ 7" using assms by simp
  then show ?thesis by (simp add: unsigned_take_bit_eq unsigned_of_nat take_bit_nat_eq_self_iff)
qed

text \<open>C21: every consistent position with both kings on the board and no more pieces than a
  set holds can be packed, and unpacking the 32 bytes gives the same placement, hands and side to
  move, with the given move number, a fresh hash and a cleared history.\<close>

theorem SetFromPackedSfen_ToPackedSfen:
  assumes b: "board_ok b" "kings_ok b" "material_ok b"
  shows "\<exists>p a. ToPackedSfen b = Some p \<and> length p = 32 \<and> SetFromPackedSfen p game_ply = Some a \<and>
    same_placement a b \<and> hands a = hands b \<and> side_to_move a = side_to_move b \<and>
    ply a = max 1 game_ply \<and> hash a = full_hash b \<and> history a = []"
proof -
  obtain p where p: "ToPackedSfen b = Some p" "length p = 32" "\<forall>i<256. pbit p i = packed_bits b ! i"
    using ToPackedSfen_bits [OF b] by blast
  let ?k = "king_sq b"
  let ?sq = "concat (map (square_bits b) [0..<81])"
  have len: "length (packed_bits b) = 256" by (rule length_packed_bits [OF b])
  have "ahead (new_reader p) (packed_bits b)" using p(3) len by (simp add: ahead_def new_reader_def)
  then have a0: "ahead (new_reader p) ((side_to_move b = WHITE) # (king_bits (?k BLACK) @
      (king_bits (?k WHITE) @ (?sq @ (hands_bits b @ (boxes_bits b @ []))))))" by (simp add: packed_bits_def del: upt_Suc)
  note r1 = read_bit_ahead(1,3) [OF a0, folded One_nat_def skip_def]
  note r2 = br_Read_ahead [OF r1(2) [unfolded king_bits_def [of "?k BLACK"]], folded skip_def]
  note r3 = br_Read_ahead [OF r2(2) [unfolded king_bits_def [of "?k WHITE"]], folded skip_def]
  have k81: "?k c < 81" for c using b(2) by (simp add: kings_ok_def)
  have kne: "?k BLACK \<noteq> ?k WHITE" by (rule king_squares_neq [OF b(2)])
  have ks: "\<forall>s\<in>set [0..<81]. (board_arr b s \<noteq> 0 \<and> piece_GetType (board_arr b s) = kKing) \<longleftrightarrow>
      s = ?k BLACK \<or> s = ?k WHITE" using king_squares [OF b(1,2)] by simp
  have pk: "\<forall>s\<in>set [0..<81]. piece_ok (board_arr b s)" using board_okD(1) [OF b(1)] by simp
  define e where "e = empty_board\<lparr>side_to_move := side_to_move b, ply := max 1 game_ply\<rparr>"
  define a1 where "a1 = place_all (placement_list b (unpack_order b)) e"
  note us = unpack_squares_ahead [OF r3(2) pk ks, of "place_all (placement_list b [?k BLACK, ?k WHITE]) e",
      unfolded place_unpack_order, folded a1_def]
  let ?r4 = "skip (skip (skip (skip (new_reader p) 1) 7) 7) (length ?sq)"
  have hr: "\<forall>(c, raw)\<in>set (List.product [BLACK, WHITE] kHandOrder). 1 \<le> raw \<and> raw \<le> 7"
    "\<forall>raw\<in>set kHandOrder. 1 \<le> raw \<and> raw \<le> 7" by (auto simp: kHandOrder_eq)
  note uh = unpack_hands_list [OF us [THEN conjunct2, unfolded hands_bits_def] hr(1), of a1, folded hands_bits_def]
  have h1: "hands a1 = (\<lambda>_. hand_Empty)" by (simp add: a1_def e_def board_simps empty_board_def)
  have oks: "\<forall>c. hand_ok (hands b c)" using b(3) by (simp add: material_ok_def)
  let ?a2 = "a1\<lparr>hands := hands b\<rparr>"
  note ub = unpack_box_list [OF uh [THEN conjunct2, unfolded boxes_bits_def] hr(2), of ?a2, folded boxes_bits_def]
  have c256: "cursor (skip (skip ?r4 (length (hands_bits b))) (length (boxes_bits b))) = 256"
    using len by (simp add: packed_bits_def king_bits_def new_reader_def del: upt_Suc)
  then have "unpack_hands (skip (skip ?r4 (length (hands_bits b))) (length (boxes_bits b))) ?a2 =
      Some (?a2, skip (skip ?r4 (length (hands_bits b))) (length (boxes_bits b)))"
    by (subst unpack_hands.simps) simp
  then have un: "unpack_hands ?r4 a1 = Some (?a2, skip (skip ?r4 (length (hands_bits b))) (length (boxes_bits b)))"
    using uh ub h1 add_hands_all [OF oks] by simp
  have turn: "(if (if side_to_move b = WHITE then 1 else 0 :: u32) = 0 then BLACK else WHITE) = side_to_move b"
    by (cases "side_to_move b") simp_all
  have res: "SetFromPackedSfen p game_ply = Some (ClearHistory (ComputeHash ?a2))"
    unfolding SetFromPackedSfen_def r1(1) r2(1) r3(1) Option.bind_lunit prod.case unat_king_bits [OF k81]
    using c256 us [THEN conjunct1] un PutPiece_kings [OF b(2), of e] kne k81 [of BLACK] k81 [of WHITE]
    by (simp add: Let_def turn e_def [symmetric] del: upt_Suc fun_upd_apply)
  have "board_ok e" by (simp add: e_def board_simps board_ok_empty)
  moreover have "board_arr e s = 0" for s by (simp add: e_def empty_board_def piece_None_def)
  ultimately have eb: "board_ok e" "board_arr e s = 0" for s by auto
  note rb = placement_list_rebuilds [OF b(1) unpack_order_props [OF b(2)] eb, folded a1_def]
  have same: "same_placement a1 b"
    using rb kings_on_board_sq [OF rb(1) b(2) rb(2)] b(1) by (intro same_placementI) auto
  have "full_hash ?a2 = full_hash b"
    using rb(2) by (intro full_hash_cong) (simp_all add: a1_def e_def board_simps)
  then have "same_placement (ClearHistory (ComputeHash ?a2)) b \<and> hands (ClearHistory (ComputeHash ?a2)) = hands b \<and>
      side_to_move (ClearHistory (ComputeHash ?a2)) = side_to_move b \<and>
      ply (ClearHistory (ComputeHash ?a2)) = max 1 game_ply \<and>
      hash (ClearHistory (ComputeHash ?a2)) = full_hash b \<and> history (ClearHistory (ComputeHash ?a2)) = []"
    using same by (simp add: ClearHistory_def ComputeHash_def same_placement_def)
      (simp add: a1_def e_def board_simps)
  then show ?thesis using p(1,2) res by blast
qed

theorem SetFromPackedSfen_ToPackedSfen_witness:
  "\<exists>p a. ToPackedSfen sample_board = Some p \<and> SetFromPackedSfen p 7 = Some a \<and>
     same_placement a sample_board \<and> ply a = 7"
  using SetFromPackedSfen_ToPackedSfen [OF sample_board_ok sample_board_material, of 7] by auto

end
