(* ===== verification/OpeningBooks.thy ===== *)
theory OpeningBooks
  imports Ybb PackedRound
begin

text \<open>
  The opening book of book/opening_book.cc: loading and validating a file, reading index and
  move records at computed 64-bit offsets, and probing by binary search over the packed
  positions; and the choice between the two books of book/book_selection.h.  The file system
  is a parameter: the bytes of the file at a path, if it can be opened.
\<close>

record book_entry =
  be_move :: u16
  be_eval :: int
  be_depth :: int

record opening_book =
  file_bytes :: "u8 list"
  book_path :: string
  last_error :: string
  record_count :: u64
  book_flags :: u64
  moves_base :: u64
  file_size :: u64
  loaded :: bool
  book_result :: book_entry

subsection \<open>Choosing a book\<close>

datatype OpeningBookChoice = ChooseNone | ChooseNormal | ChooseGoteExit

definition ChooseOpeningBook :: "color \<Rightarrow> bool \<Rightarrow> bool \<Rightarrow> bool \<Rightarrow> OpeningBookChoice" where
  "ChooseOpeningBook side use_gote_exit_book normal_book_loaded gote_exit_book_loaded =
     (if side = WHITE \<and> use_gote_exit_book then
        (if gote_exit_book_loaded then ChooseGoteExit else ChooseNone)
      else if normal_book_loaded then ChooseNormal else ChooseNone)"

subsection \<open>Reading records\<close>

definition read_at :: "u8 list \<Rightarrow> u64 \<Rightarrow> nat \<Rightarrow> u8 list option" where
  "read_at bs off n = (if unat off + n \<le> length bs then Some (take n (drop (unat off) bs)) else None)"

definition Close :: "opening_book \<Rightarrow> opening_book" where
  "Close bk = bk\<lparr>file_bytes := [], book_path := [], record_count := 0, book_flags := 0, moves_base := 0,
     file_size := 0, loaded := False\<rparr>"

definition Fail :: "string \<Rightarrow> opening_book \<Rightarrow> opening_book" where
  "Fail err bk = (Close bk)\<lparr>last_error := err\<rparr>"

definition ReadIndexEntry :: "opening_book \<Rightarrow> u64 \<Rightarrow> ybb_index_entry option" where
  "ReadIndexEntry bk index =
     (if index \<ge> record_count bk then None
      else map_option DecodeYbbIndexEntry
        (read_at (file_bytes bk) (kYbbHeaderSize + index * kYbbIndexRecordSize) 44))"

definition ReadMove :: "opening_book \<Rightarrow> ybb_index_entry \<Rightarrow> u16 \<Rightarrow> ybb_move_record option" where
  "ReadMove bk e move_index =
     (if move_index \<ge> move_count e then None
      else
        let record_size = YbbMoveRecordSize (book_flags bk);
            relative = moves_offset e + ucast move_index * record_size
        in if relative > file_size bk - moves_base bk \<or>
              record_size > file_size bk - moves_base bk - relative then None
           else map_option (\<lambda>bs. DecodeYbbMoveRecord (bs @ replicate (6 - unat record_size) 0) (book_flags bk))
             (read_at (file_bytes bk) (moves_base bk + relative) (unat record_size)))"

definition ValidateFile :: "opening_book \<Rightarrow> u64 \<Rightarrow> bool \<times> opening_book" where
  "ValidateFile bk sz =
     (let move_record_size = YbbMoveRecordSize (book_flags bk) in
      if record_count bk = 0 then
        (if moves_base bk \<noteq> sz then (False, Fail ''empty YBB has trailing data'' bk) else (True, bk))
      else case (ReadIndexEntry bk 0, ReadIndexEntry bk (record_count bk - 1)) of
        (Some first_e, Some last_e) \<Rightarrow>
          (if moves_offset first_e \<noteq> 0 \<or> moves_offset last_e > sz - moves_base bk \<or>
              ucast (move_count last_e) > (sz - moves_base bk - moves_offset last_e) div move_record_size
           then (False, Fail ''invalid YBB moves area'' bk) else (True, bk))
      | _ \<Rightarrow> (False, Fail ''cannot read YBB index'' bk))"

definition Load :: "(string \<Rightarrow> u8 list option) \<Rightarrow> string \<Rightarrow> opening_book \<Rightarrow> u64 \<times> opening_book" where
  "Load open_file path bk =
     (let bk = (Close bk)\<lparr>last_error := []\<rparr> in
      case open_file path of
        None \<Rightarrow> (0, Fail (''cannot open YBB file: '' @ path) bk)
      | Some bs \<Rightarrow>
          let bk = bk\<lparr>file_bytes := bs, file_size := of_nat (length bs)\<rparr>;
              header = read_at bs 0 32
          in if header = None \<or> take 16 (the header) \<noteq> kYbbMagic
             then (0, Fail (''invalid YBB V1 header: '' @ path) bk)
             else
               let bk = bk\<lparr>record_count := ReadLe64 (drop 16 (the header)),
                           book_flags := ReadLe64 (drop 24 (the header))\<rparr>
               in if book_flags bk AND NOT kYbbKnownFlags \<noteq> 0
                  then (0, Fail (''unsupported YBB flags: '' @ dec_nat (unat (book_flags bk))) bk)
                  else case YbbIndexSize (record_count bk) of
                    None \<Rightarrow> (0, Fail ''invalid YBB index size'' bk)
                  | Some base \<Rightarrow>
                      let bk = bk\<lparr>moves_base := base\<rparr> in
                      if base > file_size bk then (0, Fail ''invalid YBB index size'' bk)
                      else
                        let (ok, bk) = ValidateFile bk (file_size bk) in
                        if \<not> ok then (0, bk)
                        else (record_count bk, bk\<lparr>book_path := path, loaded := True\<rparr>))"

subsection \<open>Probing\<close>

fun memcmp :: "u8 list \<Rightarrow> u8 list \<Rightarrow> int" where
  "memcmp (a # as) (b # bs) = (if a < b then -1 else if b < a then 1 else memcmp as bs)"
| "memcmp _ _ = 0"

definition ComparePackedSfen :: "packed_sfen \<Rightarrow> packed_sfen \<Rightarrow> int" where
  "ComparePackedSfen lhs rhs = memcmp lhs rhs"

lemma unat_less_64: "unat (w :: u64) < 2 ^ 64"
  using unsigned_less [of w] by simp

lemma unat_middle:
  fixes left right :: u64
  assumes "left < right"
  shows "unat (left + (right - left) div 2) = unat left + (unat right - unat left) div 2"
proof -
  have d: "unat (right - left) = unat right - unat left" using assms by (simp add: unat_sub_if' less_imp_le word_less_nat_alt)
  have "unat left + (unat right - unat left) div 2 < 2 ^ 64"
    using assms unat_less_64 [of right] by (simp add: word_less_nat_alt)
  then show ?thesis by (simp add: unat_word_ariths unat_div d)
qed

text \<open>The outer option is the failure of a read, the inner one whether the key was found.\<close>

function index_search :: "(u64 \<Rightarrow> ybb_index_entry option) \<Rightarrow> packed_sfen \<Rightarrow> u64 \<Rightarrow> u64 \<Rightarrow> ybb_index_entry option option" where
  "index_search read target left right =
     (if left < right then
        let middle = left + (right - left) div 2 in
        case read middle of
          None \<Rightarrow> None
        | Some e \<Rightarrow>
            let compare = ComparePackedSfen target (entry_sfen e) in
            if compare < 0 then index_search read target left middle
            else if compare > 0 then index_search read target (middle + 1) right
            else Some (Some e)
      else Some None)"
  by pat_completeness auto

lemma middle_succ:
  fixes left right :: u64
  assumes "left < right"
  shows "unat (left + (right - left) div 2 + 1) = unat left + (unat right - unat left) div 2 + 1"
proof -
  have "unat left + (unat right - unat left) div 2 < unat right" using assms by (simp add: word_less_nat_alt)
  then have "unat left + (unat right - unat left) div 2 + 1 < 2 ^ 64"
    using unat_less_64 [of right] by simp
  then show ?thesis unfolding unat_word_ariths(1) [of _ 1] unat_middle [OF assms] by simp
qed

termination index_search
  by (relation "measure (\<lambda>(read, target, left, right). unat right - unat left)")
    (auto simp: unat_middle middle_succ word_less_nat_alt)

declare index_search.simps [simp del]

fun best_book_move :: "opening_book \<Rightarrow> ybb_index_entry \<Rightarrow> move list \<Rightarrow> nat list \<Rightarrow> ybb_move_record option \<Rightarrow>
    ybb_move_record option option" where
  "best_book_move bk e legal [] best = Some best"
| "best_book_move bk e legal (i # is) best =
     (case ReadMove bk e (of_nat i) of
        None \<Rightarrow> None
      | Some candidate \<Rightarrow>
          if rec_move candidate \<notin> set legal then best_book_move bk e legal is best
          else best_book_move bk e legal is
            (case best of
               None \<Rightarrow> Some candidate
             | Some r \<Rightarrow> if sint (rec_eval candidate) > sint (rec_eval r) then Some candidate else Some r))"

definition Probe :: "opening_book \<Rightarrow> shogi_board \<Rightarrow> book_entry option \<times> opening_book" where
  "Probe bk b =
     (if \<not> loaded bk then (None, bk)
      else case ToPackedSfen b of
        None \<Rightarrow> (None, bk)
      | Some target \<Rightarrow>
          (case index_search (ReadIndexEntry bk) target 0 (record_count bk) of
             None \<Rightarrow> (None, bk)
           | Some None \<Rightarrow> (None, bk)
           | Some (Some e) \<Rightarrow>
               if move_count e = 0 then (None, bk)
               else case best_book_move bk e (GenerateLegalMoves b) [0..<unat (move_count e)] None of
                 None \<Rightarrow> (None, bk)
               | Some None \<Rightarrow> (None, bk)
               | Some (Some best) \<Rightarrow>
                   let r = \<lparr>be_move = rec_move best, be_eval = sint (rec_eval best), be_depth = uint (rec_depth best)\<rparr>
                   in (Some r, bk\<lparr>book_result := r\<rparr>)))"

subsection \<open>The order of the index\<close>

lemma memcmp_refl [simp]: "memcmp a a = 0"
  by (induction a) auto

lemma memcmp_eq_0: "length a = length b \<Longrightarrow> memcmp a b = 0 \<longleftrightarrow> a = b"
  by (induction a b rule: list_induct2) auto

lemma memcmp_swap: "memcmp b a = - memcmp a b"
  by (induction a b rule: memcmp.induct) (auto simp: neq_iff)

lemma memcmp_less_trans:
  "length a = length b \<Longrightarrow> length b = length c \<Longrightarrow> memcmp a b < 0 \<Longrightarrow> memcmp b c < 0 \<Longrightarrow> memcmp a c < 0"
proof (induction a b c rule: list_induct3)
  case (Cons x xs y ys z zs)
  then show ?case by (auto split: if_splits)
qed simp

text \<open>What the search relies on: a reader that gives the entries of a strictly ordered list.
  The parameter of the reader is the book it reads from.\<close>

locale ordered_index =
  fixes read :: "'b \<Rightarrow> u64 \<Rightarrow> ybb_index_entry option"
    and count :: "'b \<Rightarrow> u64"
    and contents :: "'b \<Rightarrow> ybb_index_entry list \<Rightarrow> bool"
  assumes count_contents: "contents bk es \<Longrightarrow> unat (count bk) = length es"
    and read_contents: "contents bk es \<Longrightarrow> i < length es \<Longrightarrow> read bk (of_nat i) = Some (es ! i)"
    and keys: "contents bk es \<Longrightarrow> e \<in> set es \<Longrightarrow> length (entry_sfen e) = 32"
    and ordered: "contents bk es \<Longrightarrow> i < j \<Longrightarrow> j < length es \<Longrightarrow>
      memcmp (entry_sfen (es ! i)) (entry_sfen (es ! j)) < 0"
begin

lemma search_range:
  assumes bk: "contents bk es"
  shows "length target = 32 \<Longrightarrow> unat left \<le> unat right \<Longrightarrow> unat right \<le> length es \<Longrightarrow>
    (\<forall>i < unat left. memcmp (entry_sfen (es ! i)) target < 0) \<Longrightarrow>
    (\<forall>i. unat right \<le> i \<and> i < length es \<longrightarrow> memcmp target (entry_sfen (es ! i)) < 0) \<Longrightarrow>
    \<exists>r. index_search (read bk) target left right = Some r \<and>
      (case r of None \<Rightarrow> \<forall>e\<in>set es. entry_sfen e \<noteq> target | Some e \<Rightarrow> e \<in> set es \<and> entry_sfen e = target)"
proof (induction "read bk" target left right rule: index_search.induct)
  case (1 target left right)
  note t = 1(3)
  define m where "m = left + (right - left) div 2"
  show ?case
  proof (cases "left < right")
    case False
    then have "unat left = unat right" using 1(4) by (simp add: word_less_nat_alt)
    then have "entry_sfen (es ! i) \<noteq> target" if "i < length es" for i
      using 1(6,7) that memcmp_refl [of target] by (metis less_irrefl not_less)
    then have "\<forall>e\<in>set es. entry_sfen e \<noteq> target" by (metis in_set_conv_nth)
    then show ?thesis using False by (subst index_search.simps) simp
  next
    case True
    have um: "unat m = unat left + (unat right - unat left) div 2" unfolding m_def by (rule unat_middle [OF True])
    then have mr: "unat left \<le> unat m" "unat m < unat right" using True by (auto simp: word_less_nat_alt)
    then have ml: "unat m < length es" using 1(5) by simp
    have rd: "read bk m = Some (es ! unat m)" using read_contents [OF bk ml] by simp
    have len: "length (entry_sfen (es ! i)) = 32" if "i < length es" for i using keys [OF bk] that by simp
    let ?c = "ComparePackedSfen target (entry_sfen (es ! unat m))"
    have us: "unat (m + 1) = unat m + 1" using middle_succ [OF True] um by (simp add: m_def)
    consider (lt) "?c < 0" | (gt) "?c > 0" | (eq) "?c = 0" by linarith
    then show ?thesis
    proof cases
      case lt
      have "memcmp target (entry_sfen (es ! i)) < 0" if "unat m \<le> i" "i < length es" for i
      proof (cases "i = unat m")
        case False
        then have "memcmp (entry_sfen (es ! unat m)) (entry_sfen (es ! i)) < 0" using ordered [OF bk] that by simp
        then show ?thesis using lt memcmp_less_trans [of target "entry_sfen (es ! unat m)" "entry_sfen (es ! i)"]
            t len that ml by (simp add: ComparePackedSfen_def)
      qed (use lt in \<open>simp add: ComparePackedSfen_def\<close>)
      then have "\<exists>r. index_search (read bk) target left m = Some r \<and>
        (case r of None \<Rightarrow> \<forall>e\<in>set es. entry_sfen e \<noteq> target | Some e \<Rightarrow> e \<in> set es \<and> entry_sfen e = target)"
        using lt "1.hyps"(1) [OF True m_def rd refl lt t] mr ml 1(6) by auto
      then show ?thesis using True rd lt by (subst index_search.simps) (simp add: m_def [symmetric] Let_def)
    next
      case gt
      have "memcmp (entry_sfen (es ! i)) target < 0" if "i < unat (m + 1)" for i
      proof (cases "i = unat m")
        case False
        then have "i < unat m" using that us by simp
        then have "memcmp (entry_sfen (es ! i)) (entry_sfen (es ! unat m)) < 0" using ordered [OF bk] ml by simp
        moreover have "memcmp (entry_sfen (es ! unat m)) target < 0"
          using gt memcmp_swap [of target "entry_sfen (es ! unat m)"] by (simp add: ComparePackedSfen_def)
        ultimately show ?thesis
          using memcmp_less_trans [of "entry_sfen (es ! i)" "entry_sfen (es ! unat m)" target] t len ml \<open>i < unat m\<close>
          by simp
      qed (use gt memcmp_swap [of target "entry_sfen (es ! unat m)"] in \<open>simp add: ComparePackedSfen_def\<close>)
      then have "\<exists>r. index_search (read bk) target (m + 1) right = Some r \<and>
        (case r of None \<Rightarrow> \<forall>e\<in>set es. entry_sfen e \<noteq> target | Some e \<Rightarrow> e \<in> set es \<and> entry_sfen e = target)"
        using gt "1.hyps"(2) [OF True m_def rd refl _ gt t] mr us gt 1(5,7) by auto
      then show ?thesis using True rd gt by (subst index_search.simps) (simp add: m_def [symmetric] Let_def)
    next
      case eq
      from eq have "target = entry_sfen (es ! unat m)"
        using memcmp_eq_0 [of target "entry_sfen (es ! unat m)"] t len ml by (simp add: ComparePackedSfen_def)
      then show ?thesis using True rd eq ml by (subst index_search.simps) (simp add: m_def [symmetric] Let_def)
    qed
  qed
qed

lemma search_finds:
  assumes "contents bk es" "length target = 32"
  shows "\<exists>r. index_search (read bk) target 0 (count bk) = Some r \<and>
    (case r of None \<Rightarrow> \<forall>e\<in>set es. entry_sfen e \<noteq> target | Some e \<Rightarrow> e \<in> set es \<and> entry_sfen e = target)"
  using search_range [OF assms(1,2), of 0 "count bk"] count_contents [OF assms(1)] by simp

end

text \<open>The index of a book as a list, in the strict order the search needs.\<close>

definition book_contents :: "opening_book \<Rightarrow> ybb_index_entry list \<Rightarrow> bool" where
  "book_contents bk es \<longleftrightarrow> unat (record_count bk) = length es \<and>
     (\<forall>i<length es. ReadIndexEntry bk (of_nat i) = Some (es ! i)) \<and>
     (\<forall>e\<in>set es. length (entry_sfen e) = 32) \<and>
     (\<forall>i j. i < j \<and> j < length es \<longrightarrow> memcmp (entry_sfen (es ! i)) (entry_sfen (es ! j)) < 0)"

interpretation book: ordered_index ReadIndexEntry record_count book_contents
  by unfold_locales (auto simp: book_contents_def)

subsection \<open>The move that is chosen\<close>

definition better :: "ybb_move_record \<Rightarrow> ybb_move_record \<Rightarrow> bool" where
  "better m r \<longleftrightarrow> sint (rec_eval m) > sint (rec_eval r)"

text \<open>The first record of the highest evaluation.\<close>

definition first_best :: "ybb_move_record list \<Rightarrow> ybb_move_record \<Rightarrow> bool" where
  "first_best xs r \<longleftrightarrow> (\<exists>ys zs. xs = ys @ r # zs \<and> (\<forall>y\<in>set ys. better r y) \<and> (\<forall>z\<in>set zs. \<not> better z r))"

lemma first_best_append:
  assumes "first_best xs r"
  shows "first_best (xs @ [m]) (if better m r then m else r)"
proof -
  obtain ys zs where x: "xs = ys @ r # zs" "\<forall>y\<in>set ys. better r y" "\<forall>z\<in>set zs. \<not> better z r"
    using assms by (auto simp: first_best_def)
  show ?thesis
  proof (cases "better m r")
    case True
    then have "\<forall>y\<in>set xs. better m y" using x by (auto simp: better_def)
    then have "first_best (xs @ [m]) m" unfolding first_best_def by (intro exI [of _ xs] exI [of _ "[]"]) simp
    then show ?thesis using True by simp
  next
    case False
    then have "first_best (xs @ [m]) r" using x unfolding first_best_def
      by (intro exI [of _ ys] exI [of _ "zs @ [m]"]) simp
    then show ?thesis using False by simp
  qed
qed

definition book_records :: "opening_book \<Rightarrow> ybb_index_entry \<Rightarrow> ybb_move_record list" where
  "book_records bk e = map (\<lambda>i. the (ReadMove bk e (of_nat i))) [0..<unat (move_count e)]"

lemma best_book_move_result:
  assumes "\<forall>i\<in>set is. \<exists>m. ReadMove bk e (of_nat i) = Some m"
    and "case best of None \<Rightarrow> xs = [] | Some r \<Rightarrow> first_best xs r"
  shows "\<exists>best'. best_book_move bk e legal is best = Some best' \<and>
    (let ys = xs @ filter (\<lambda>m. rec_move m \<in> set legal) (map (\<lambda>i. the (ReadMove bk e (of_nat i))) is) in
     case best' of None \<Rightarrow> ys = [] | Some r \<Rightarrow> first_best ys r)"
  using assms
proof (induction "is" arbitrary: best xs)
  case (Cons i "is")
  obtain m where m: "ReadMove bk e (of_nat i) = Some m" using Cons.prems(1) by auto
  have rest: "\<forall>i\<in>set is. \<exists>m. ReadMove bk e (of_nat i) = Some m" using Cons.prems(1) by simp
  show ?case
  proof (cases "rec_move m \<in> set legal")
    case False
    then show ?thesis using Cons.IH [OF rest Cons.prems(2)] m by simp
  next
    case True
    let ?b = "case best of None \<Rightarrow> Some m | Some r \<Rightarrow> if sint (rec_eval m) > sint (rec_eval r) then Some m else Some r"
    have "case ?b of None \<Rightarrow> xs @ [m] = [] | Some r \<Rightarrow> first_best (xs @ [m]) r"
    proof (cases best)
      case None
      then have "xs = []" using Cons.prems(2) by simp
      then show ?thesis using None by (auto simp: first_best_def intro: exI [of _ "[]"])
    next
      case (Some r)
      then show ?thesis using first_best_append [of xs r m] Cons.prems(2) by (auto simp: better_def)
    qed
    from Cons.IH [OF rest this] show ?thesis using m True by (simp cong: option.case_cong)
  qed
qed simp

text \<open>C22: probing a well-formed book with a consistent position returns a move exactly when the
  book has an entry for its packed form with a legal move; the move is the first of the legal ones
  with the highest evaluation.\<close>

theorem Probe_correct:
  assumes bk: "loaded bk" "book_contents bk es"
    and rd: "\<forall>e\<in>set es. \<forall>i<unat (move_count e). \<exists>m. ReadMove bk e (of_nat i) = Some m"
    and b: "board_ok b" "kings_ok b" "material_ok b"
  shows "case fst (Probe bk b) of
      None \<Rightarrow> \<forall>e\<in>set es. Some (entry_sfen e) = ToPackedSfen b \<longrightarrow>
        (\<forall>m\<in>set (book_records bk e). rec_move m \<notin> set (GenerateLegalMoves b))
    | Some r \<Rightarrow> \<exists>e\<in>set es. \<exists>m. Some (entry_sfen e) = ToPackedSfen b \<and>
        first_best (filter (\<lambda>m. rec_move m \<in> set (GenerateLegalMoves b)) (book_records bk e)) m \<and>
        r = \<lparr>be_move = rec_move m, be_eval = sint (rec_eval m), be_depth = uint (rec_depth m)\<rparr>"
proof -
  obtain p where p: "ToPackedSfen b = Some p" "length p = 32" using ToPackedSfen_bits [OF b] by blast
  obtain r where r: "index_search (ReadIndexEntry bk) p 0 (record_count bk) = Some r"
    "case r of None \<Rightarrow> \<forall>e\<in>set es. entry_sfen e \<noteq> p | Some e \<Rightarrow> e \<in> set es \<and> entry_sfen e = p"
    using book.search_finds [OF bk(2) p(2)] by blast
  show ?thesis
  proof (cases r)
    case None
    then show ?thesis using r p bk(1) by (auto simp: Probe_def)
  next
    case (Some e)
    then have e: "e \<in> set es" "entry_sfen e = p" using r(2) by auto
    have uniq: "e' = e" if e': "e' \<in> set es" "entry_sfen e' = p" for e'
    proof -
      obtain i where i: "i < length es" "es ! i = e" using e(1) by (auto simp: in_set_conv_nth)
      obtain j where j: "j < length es" "es ! j = e'" using e'(1) by (auto simp: in_set_conv_nth)
      note ij = i j
      have "memcmp p p < 0" if "i < j \<or> j < i"
        using book.ordered [OF bk(2), of i j] book.ordered [OF bk(2), of j i] ij e(2) e'(2) that by auto
      then show ?thesis using ij by (metis less_irrefl linorder_neqE_nat memcmp_refl)
    qed
    have "\<forall>i\<in>set [0..<unat (move_count e)]. \<exists>m. ReadMove bk e (of_nat i) = Some m" using rd e(1) by simp
    from best_book_move_result [OF this, where best = None and xs = "[]" and legal = "GenerateLegalMoves b"] obtain best where
      best: "best_book_move bk e (GenerateLegalMoves b) [0..<unat (move_count e)] None = Some best"
        "case best of None \<Rightarrow> filter (\<lambda>m. rec_move m \<in> set (GenerateLegalMoves b)) (book_records bk e) = []
         | Some r \<Rightarrow> first_best (filter (\<lambda>m. rec_move m \<in> set (GenerateLegalMoves b)) (book_records bk e)) r"
      unfolding book_records_def Let_def append_Nil option.case by blast
    show ?thesis
    proof (cases "move_count e = 0")
      case True
      then have "book_records bk e = []" by (simp add: book_records_def)
      then show ?thesis using True r(1) Some p bk(1) uniq by (auto simp: Probe_def)
    next
      case False
      show ?thesis
      proof (cases best)
        case None
        then have "fst (Probe bk b) = None" using best(1) False r(1) Some p bk(1) by (simp add: Probe_def)
        moreover have "\<forall>m\<in>set (book_records bk e). rec_move m \<notin> set (GenerateLegalMoves b)"
          using best(2) None by (simp add: filter_empty_conv)
        ultimately show ?thesis using p uniq by auto
      next
        case (Some m)
        then have "fst (Probe bk b) = Some \<lparr>be_move = rec_move m, be_eval = sint (rec_eval m), be_depth = uint (rec_depth m)\<rparr>"
          using best(1) False r(1) \<open>r = Some e\<close> p bk(1) by (simp add: Probe_def Let_def)
        then show ?thesis using best(2) Some e p by auto
      qed
    qed
  qed
qed

subsection \<open>Loading a written book\<close>

definition book_bytes :: "u64 \<Rightarrow> ybb_index_entry list \<Rightarrow> u8 list \<Rightarrow> u8 list" where
  "book_bytes flags es moves =
     YbbHeader (of_nat (length es)) flags @ concat (map EncodeYbbIndexEntry es) @ moves"

lemma length_concat_records:
  "\<forall>e\<in>set es. length (entry_sfen e) = 32 \<Longrightarrow> length (concat (map EncodeYbbIndexEntry es)) = 44 * length es"
  by (induction es) (simp_all add: EncodeYbbIndexEntry_length)

lemma nth_record:
  "\<forall>e\<in>set es. length (entry_sfen e) = 32 \<Longrightarrow> i < length es \<Longrightarrow>
    take 44 (drop (44 * i) (concat (map EncodeYbbIndexEntry es) @ rest)) = EncodeYbbIndexEntry (es ! i)"
proof (induction es arbitrary: i)
  case (Cons e es)
  then show ?case by (cases i) (simp_all add: EncodeYbbIndexEntry_length drop_append)
qed simp

lemma length_YbbHeader [simp]: "length (YbbHeader n flags) = 32" "length kYbbMagic = 16"
  by (simp_all add: YbbHeader_def kYbbMagic_def)

lemma header_fields:
  "take 16 (YbbHeader n flags) = kYbbMagic" "ReadLe64 (drop 16 (YbbHeader n flags)) = n"
  "ReadLe64 (drop 24 (YbbHeader n flags)) = flags"
  by (simp_all add: YbbHeader_def)

lemma unat_of_nat_64: "n < 2 ^ 64 \<Longrightarrow> unat (of_nat n :: u64) = n"
  by (simp add: unat_of_nat)

lemma unat_ucast_16_64: "unat (ucast (w :: u16) :: u64) = unat w"
proof -
  have "unat w < 2 ^ 16" using unsigned_less [of w] by simp
  then show ?thesis by (simp add: unsigned_ucast_eq take_bit_nat_eq_self_iff)
qed

lemma unat_add_64: "unat a + unat b < 2 ^ 64 \<Longrightarrow> unat (a + b :: u64) = unat a + unat b"
  by (simp add: unat_word_ariths)

lemma unat_mult_64: "unat a * unat b < 2 ^ 64 \<Longrightarrow> unat (a * b :: u64) = unat a * unat b"
  by (simp add: unat_word_ariths)

lemma read_at_entry:
  assumes "\<forall>e\<in>set es. length (entry_sfen e) = 32" "i < length es" "32 + 44 * length es < 2 ^ 64"
  shows "map_option DecodeYbbIndexEntry
      (read_at (book_bytes flags es moves) (kYbbHeaderSize + of_nat i * kYbbIndexRecordSize) 44) = Some (es ! i)"
proof -
  have "unat (kYbbHeaderSize + of_nat i * kYbbIndexRecordSize) = 32 + 44 * i"
    using assms(2,3) by (simp add: kYbbHeaderSize_def kYbbIndexRecordSize_def unat_word_ariths unat_of_nat)
  then have "read_at (book_bytes flags es moves) (kYbbHeaderSize + of_nat i * kYbbIndexRecordSize) 44 =
      Some (EncodeYbbIndexEntry (es ! i))"
    using nth_record [OF assms(1,2), of moves] assms(2) length_concat_records [OF assms(1)]
    by (simp add: read_at_def book_bytes_def drop_append)
  then show ?thesis using assms(1,2) by (simp add: DecodeYbbIndexEntry_Encode)
qed

lemma read_at_moves:
  assumes "\<forall>e\<in>set es. length (entry_sfen e) = 32" "unat off = 32 + 44 * length es + k" "k + n \<le> length moves"
  shows "read_at (book_bytes flags es moves) off n = Some (take n (drop k moves))"
proof -
  have "drop (32 + 44 * length es + k) (book_bytes flags es moves) = drop k moves"
    using length_concat_records [OF assms(1)] by (simp add: book_bytes_def drop_append)
  then show ?thesis using assms length_concat_records [OF assms(1)] by (simp add: read_at_def book_bytes_def)
qed

text \<open>C23: a file made of a header, the records of an index and a moves area loads: the record
  count is returned, every record is read back, and every move record inside the area is read from
  its own bytes.\<close>

theorem Load_book_bytes:
  fixes flags :: u64 and es :: "ybb_index_entry list" and moves :: "u8 list"
  defines "rs \<equiv> unat (YbbMoveRecordSize flags)"
  assumes f: "open_file path = Some (book_bytes flags es moves)" "flags AND NOT kYbbKnownFlags = 0"
    and es: "\<forall>e\<in>set es. length (entry_sfen e) = 32" "32 + 44 * length es + length moves < 2 ^ 63"
    and m: "es = [] \<Longrightarrow> moves = []" "es \<noteq> [] \<Longrightarrow> moves_offset (hd es) = 0"
      "es \<noteq> [] \<Longrightarrow> unat (moves_offset (last es)) + unat (move_count (last es)) * rs \<le> length moves"
  shows "unat (fst (Load open_file path bk)) = length es \<and> loaded (snd (Load open_file path bk)) \<and>
    (\<forall>i<length es. ReadIndexEntry (snd (Load open_file path bk)) (of_nat i) = Some (es ! i)) \<and>
    (\<forall>e\<in>set es. \<forall>i<unat (move_count e). unat (moves_offset e) + (i + 1) * rs \<le> length moves \<longrightarrow>
       ReadMove (snd (Load open_file path bk)) e (of_nat i) =
       Some (DecodeYbbMoveRecord (take rs (drop (unat (moves_offset e) + i * rs) moves) @ replicate (6 - rs) 0) flags))"
proof -
  let ?n = "of_nat (length es) :: u64"
  let ?bs = "book_bytes flags es moves"
  define bk0 where "bk0 = (Close bk)\<lparr>last_error := [], file_bytes := ?bs, file_size := of_nat (length ?bs),
      record_count := ?n, book_flags := flags, moves_base := kYbbHeaderSize + ?n * kYbbIndexRecordSize\<rparr>"
  have len: "length ?bs = 32 + 44 * length es + length moves"
    using length_concat_records [OF es(1)] by (simp add: book_bytes_def)
  have un: "unat ?n = length es" using es(2) by (simp add: unat_of_nat)
  have hd: "read_at ?bs 0 32 = Some (take 32 ?bs)" using len by (simp add: read_at_def)
  have fields: "take 16 (take 32 ?bs) = kYbbMagic" "ReadLe64 (drop 16 (take 32 ?bs)) = ?n"
    "ReadLe64 (drop 24 (take 32 ?bs)) = flags" by (simp_all add: book_bytes_def header_fields)
  have base: "YbbIndexSize ?n = Some (kYbbHeaderSize + ?n * kYbbIndexRecordSize)"
    using es(2) un by (simp add: YbbIndexSize_def kYbbHeaderSize_def kYbbIndexRecordSize_def word_less_nat_alt unat_div)
  have ub: "unat (kYbbHeaderSize + ?n * kYbbIndexRecordSize) = 32 + 44 * length es"
    using es(2) by (simp add: kYbbHeaderSize_def kYbbIndexRecordSize_def unat_word_ariths unat_of_nat)
  have us: "unat (of_nat (length ?bs) :: u64) = 32 + 44 * length es + length moves"
    unfolding len using es(2) by (intro unat_of_nat_64) simp
  have fit: "\<not> kYbbHeaderSize + ?n * kYbbIndexRecordSize > of_nat (length ?bs)"
    unfolding word_less_nat_alt ub us by simp
  have area: "unat (file_size bk0 - moves_base bk0) = length moves"
    unfolding bk0_def using fit ub us by (simp add: unat_sub_if' word_less_nat_alt not_less)
  have rd: "ReadIndexEntry bk0 (of_nat i) = Some (es ! i)" if "i < length es" for i
  proof -
    have "unat (of_nat i :: u64) = i" using that es(2) by (simp add: unat_of_nat)
    then have "\<not> of_nat i \<ge> ?n" using that un by (simp add: word_le_nat_alt)
    then show ?thesis using read_at_entry [OF es(1) that] es(2)
      by (simp add: ReadIndexEntry_def bk0_def)
  qed
  have rs: "rs = (if flags AND kYbbFlagMoveDepth \<noteq> 0 then 6 else 4)" unfolding rs_def by (rule unat_record_size)
  have val: "ValidateFile bk0 (file_size bk0) = (True, bk0)"
  proof (cases "es = []")
    case True
    then show ?thesis using m(1) len by (simp add: ValidateFile_def bk0_def kYbbHeaderSize_def)
  next
    case False
    then have l1: "length es - 1 < length es" by simp
    have nm: "?n - 1 = of_nat (length es - 1)" using False by (simp add: of_nat_diff Suc_le_eq)
    have n0: "record_count bk0 \<noteq> 0" using False un by (auto simp: bk0_def)
    have r0: "ReadIndexEntry bk0 0 = Some (hd es)" using rd [of 0] False by (simp add: hd_conv_nth)
    have r1: "ReadIndexEntry bk0 (record_count bk0 - 1) = Some (last es)"
      using rd [OF l1] nm False by (simp add: bk0_def last_conv_nth)
    have mo: "unat (moves_offset (last es)) \<le> length moves" using m(3) [OF False] by simp
    have sub: "unat (file_size bk0 - moves_base bk0 - moves_offset (last es)) = length moves - unat (moves_offset (last es))"
      using mo area by (simp add: unat_sub_if')
    have "unat (move_count (last es)) \<le> (length moves - unat (moves_offset (last es))) div rs"
      using m(3) [OF False] rs by (simp add: less_eq_div_iff_mult_less_eq split: if_splits)
    then have c: "\<not> ucast (move_count (last es)) > (file_size bk0 - moves_base bk0 - moves_offset (last es)) div YbbMoveRecordSize flags"
      by (simp add: word_less_nat_alt unat_div sub rs_def unat_ucast_16_64)
    have "\<not> moves_offset (last es) > file_size bk0 - moves_base bk0" using mo area by (simp add: word_less_nat_alt)
    moreover have "book_flags bk0 = flags" by (simp add: bk0_def)
    ultimately show ?thesis using n0 r0 r1 c m(2) [OF False] unfolding ValidateFile_def Let_def by simp
  qed
  have load: "Load open_file path bk = (?n, bk0\<lparr>book_path := path, loaded := True\<rparr>)"
    using f hd fields base fit val unfolding Load_def Let_def bk0_def by simp
  have mv: "ReadMove (bk0\<lparr>book_path := path, loaded := True\<rparr>) e (of_nat i) =
      Some (DecodeYbbMoveRecord (take rs (drop (unat (moves_offset e) + i * rs) moves) @ replicate (6 - rs) 0) flags)"
    if e: "e \<in> set es" "i < unat (move_count e)" "unat (moves_offset e) + (i + 1) * rs \<le> length moves" for e i
  proof -
    have "unat (move_count e) < 2 ^ 16" using unsigned_less [of "move_count e"] by simp
    then have i: "unat (of_nat i :: u16) = i" using e(2) by (simp add: unat_of_nat)
    then have c: "\<not> of_nat i \<ge> move_count e" using e(2) by (simp add: word_le_nat_alt)
    have urs: "unat (YbbMoveRecordSize flags) = rs" by (simp add: rs_def)
    let ?rel = "moves_offset e + ucast (of_nat i :: u16) * YbbMoveRecordSize flags"
    have b63: "unat (moves_offset e) + (i + 1) * rs < 2 ^ 63" using e(3) es(2) by linarith
    have ir: "i * rs < 2 ^ 63" "unat (moves_offset e) + i * rs < 2 ^ 63" "unat (moves_offset e) + i * rs + rs \<le> length moves"
      using b63 e(3) by simp_all
    have "unat (ucast (of_nat i :: u16) * YbbMoveRecordSize flags :: u64) = i * rs"
      using unat_mult_64 [of "ucast (of_nat i :: u16)" "YbbMoveRecordSize flags"] ir(1)
      unfolding unat_ucast_16_64 i urs by simp
    then have rel: "unat ?rel = unat (moves_offset e) + i * rs"
      using unat_add_64 [of "moves_offset e" "ucast (of_nat i :: u16) * YbbMoveRecordSize flags"] ir(2) by simp
    have s1: "\<not> ?rel > file_size bk0 - moves_base bk0"
      unfolding word_less_nat_alt rel area using ir(3) by simp
    then have "unat (file_size bk0 - moves_base bk0 - ?rel) = length moves - (unat (moves_offset e) + i * rs)"
      using rel area by (simp only: unat_sub_if' word_less_nat_alt not_less if_True)
    then have s2: "\<not> YbbMoveRecordSize flags > file_size bk0 - moves_base bk0 - ?rel"
      using ir(3) unfolding word_less_nat_alt urs by linarith
    have "unat (moves_base bk0) = 32 + 44 * length es" using ub by (simp add: bk0_def)
    then have off: "unat (moves_base bk0 + ?rel) = 32 + 44 * length es + (unat (moves_offset e) + i * rs)"
      using unat_add_64 [of "moves_base bk0" ?rel] rel ir(3) es(2) by simp
    have "read_at ?bs (moves_base bk0 + ?rel) rs = Some (take rs (drop (unat (moves_offset e) + i * rs) moves))"
      by (rule read_at_moves [OF es(1) off ir(3)])
    then show ?thesis using c s1 s2 unfolding ReadMove_def Let_def
      by (simp add: bk0_def urs)
  qed
  have rd2: "ReadIndexEntry (bk0\<lparr>book_path := path, loaded := True\<rparr>) (of_nat i) = Some (es ! i)"
    if "i < length es" for i
  proof -
    have "ReadIndexEntry (bk0\<lparr>book_path := path, loaded := True\<rparr>) x = ReadIndexEntry bk0 x" for x
      by (simp add: ReadIndexEntry_def)
    then show ?thesis using rd [OF that] by simp
  qed
  show ?thesis unfolding load using un rd2 mv by simp
qed

text \<open>A book with one position and one move.\<close>

definition sample_entry :: ybb_index_entry where
  "sample_entry = \<lparr>entry_sfen = replicate 32 5, moves_offset = 0, entry_ply = 1, move_count = 1\<rparr>"

definition sample_book :: opening_book where
  "sample_book = \<lparr>file_bytes = book_bytes 0 [sample_entry] [1, 2, 3, 4], book_path = ''b'', last_error = [],
     record_count = 1, book_flags = 0, moves_base = 76, file_size = 80, loaded = True,
     book_result = \<lparr>be_move = 0, be_eval = 0, be_depth = 0\<rparr>\<rparr>"

lemma sample_book_contents: "book_contents sample_book [sample_entry]"
  using read_at_entry [of "[sample_entry]" 0 0 "[1, 2, 3, 4]"]
  by (simp add: book_contents_def ReadIndexEntry_def sample_book_def) (simp add: sample_entry_def)

theorem Probe_correct_witness:
  "fst (Probe sample_book sample_board) = None \<or>
   (\<exists>m. first_best (filter (\<lambda>m. rec_move m \<in> set (GenerateLegalMoves sample_board)) (book_records sample_book sample_entry)) m)"
proof -
  have "\<exists>m. ReadMove sample_book sample_entry (of_nat i) = Some m" if "i < unat (move_count sample_entry)" for i
  proof -
    have "i = 0" using that by (simp add: sample_entry_def)
    moreover have "read_at (book_bytes 0 [sample_entry] [1, 2, 3, 4]) 76 4 = Some [1, 2, 3, 4]"
      using read_at_moves [of "[sample_entry]" 76 0 4 "[1, 2, 3, 4]" 0] by (simp add: sample_entry_def)
    ultimately show ?thesis
      by (simp add: ReadMove_def sample_book_def YbbMoveRecordSize_def) (simp add: sample_entry_def)
  qed
  then show ?thesis
    using Probe_correct [OF _ sample_book_contents _ sample_board_ok sample_board_material]
    by (auto simp: sample_book_def split: option.splits)
qed

theorem Load_book_bytes_witness:
  "unat (fst (Load (\<lambda>_. Some (book_bytes 0 [sample_entry] [1, 2, 3, 4])) ''b'' sample_book)) = 1"
  using Load_book_bytes [of "\<lambda>_. Some (book_bytes 0 [sample_entry] [1, 2, 3, 4])" "''b''" 0 "[sample_entry]" "[1, 2, 3, 4]" sample_book]
  by (simp add: YbbMoveRecordSize_def) (simp add: sample_entry_def)

text \<open>White with the early-exit book enabled never consults the normal book.\<close>

lemma ChooseOpeningBook_cases:
  "ChooseOpeningBook side use nb gb = ChooseGoteExit \<longleftrightarrow> side = WHITE \<and> use \<and> gb"
  "ChooseOpeningBook side use nb gb = ChooseNormal \<longleftrightarrow> nb \<and> \<not> (side = WHITE \<and> use)"
  by (auto simp: ChooseOpeningBook_def)

end
