(* ===== verification/GoteExit.thy ===== *)
theory GoteExit
  imports Prelude "HOL-Library.While_Combinator"
begin

text \<open>
  The retrograde solver of book/gote_exit_solver.h: White (Gote) minimises and Black (Sente)
  maximises the plies to a move that leaves the book.  The graph is the template parameter of
  the source, a record of its four queries; nodes and counters are natural numbers below
  \<open>2 ^ 32\<close>, and the code's overflow checks are branches of the model.  The main loop is a
  \<open>while_option\<close>, so that it ends is a theorem.  The specification is the attractor:
  the positions from which Gote forces an exit within \<open>k\<close> plies.
\<close>

record exit_graph =
  NodeCount :: nat
  IsGote :: "nat \<Rightarrow> bool"
  EdgeCount :: "nat \<Rightarrow> nat"
  EdgeChild :: "nat \<Rightarrow> nat \<Rightarrow> nat"

definition kU32Max :: nat where "kU32Max = 4294967295"
definition kExitLeaf :: nat where "kExitLeaf = kU32Max"
definition kExitDisallowed :: nat where "kExitDisallowed = kU32Max - 1"
definition kExitDistanceInfinite :: nat where "kExitDistanceInfinite = kU32Max"

datatype exit_error = TooManyNodes | ChildOutOfRange | ReverseDegreeOverflow | OutDegreeOverflow
  | ReverseSizeOverflow | UnresolvedUnderflow

record exit_solution =
  distance :: "nat \<Rightarrow> nat"
  allowed_internal_edges :: nat
  finite_nodes :: nat
  infinite_nodes :: nat

subsection \<open>Counting edges\<close>

record edge_scan =
  reverse_counts :: "nat \<Rightarrow> nat"
  unresolved :: "nat \<Rightarrow> nat"
  has_allowed_edge :: "nat \<Rightarrow> bool"
  has_exit_edge :: "nat \<Rightarrow> bool"
  internal_edges :: nat

definition scan_edge :: "exit_graph \<Rightarrow> nat \<Rightarrow> nat \<Rightarrow> edge_scan \<Rightarrow> exit_error + edge_scan" where
  "scan_edge g node child s =
     (if child = kExitDisallowed then Inr s
      else
        let s = s\<lparr>has_allowed_edge := (has_allowed_edge s)(node := True)\<rparr> in
        if child = kExitLeaf then Inr (s\<lparr>has_exit_edge := (has_exit_edge s)(node := True)\<rparr>)
        else if child \<ge> NodeCount g then Inl ChildOutOfRange
        else if reverse_counts s child = kU32Max then Inl ReverseDegreeOverflow
        else
          let s = s\<lparr>reverse_counts := (reverse_counts s)(child := reverse_counts s child + 1),
                    internal_edges := internal_edges s + 1\<rparr>
          in if \<not> IsGote g node then
               if unresolved s node = kU32Max then Inl OutDegreeOverflow
               else Inr (s\<lparr>unresolved := (unresolved s)(node := unresolved s node + 1)\<rparr>)
             else Inr s)"

definition edges_of :: "exit_graph \<Rightarrow> nat \<Rightarrow> nat list" where
  "edges_of g node = map (EdgeChild g node) [0..<EdgeCount g node]"

text \<open>All edges in the order of the two nested loops, as pairs of a node and a child.\<close>

definition all_edges :: "exit_graph \<Rightarrow> (nat \<times> nat) list" where
  "all_edges g = concat (map (\<lambda>node. map (Pair node) (edges_of g node)) [0..<NodeCount g])"

fun scan_edges :: "exit_graph \<Rightarrow> (nat \<times> nat) list \<Rightarrow> edge_scan \<Rightarrow> exit_error + edge_scan" where
  "scan_edges g [] s = Inr s"
| "scan_edges g ((node, child) # es) s =
     (case scan_edge g node child s of Inl e \<Rightarrow> Inl e | Inr s \<Rightarrow> scan_edges g es s)"

definition empty_scan :: edge_scan where
  "empty_scan = \<lparr>reverse_counts = (\<lambda>_. 0), unresolved = (\<lambda>_. 0), has_allowed_edge = (\<lambda>_. False),
     has_exit_edge = (\<lambda>_. False), internal_edges = 0\<rparr>"

subsection \<open>The reverse graph\<close>

definition reverse_offsets :: "nat \<Rightarrow> (nat \<Rightarrow> nat) \<Rightarrow> nat list" where
  "reverse_offsets n counts = fold (\<lambda>node offs. offs @ [offs ! node + counts node]) [0..<n] [0]"

definition fill_edge :: "nat list \<Rightarrow> nat \<times> nat \<Rightarrow> (nat \<Rightarrow> nat) \<times> (nat \<Rightarrow> nat) \<Rightarrow> (nat \<Rightarrow> nat) \<times> (nat \<Rightarrow> nat)" where
  "fill_edge offs = (\<lambda>(parent, child) (counts, parents).
     if child \<ge> kExitDisallowed then (counts, parents)
     else (counts(child := counts child + 1), parents(offs ! child + counts child := parent)))"

definition reverse_parents :: "exit_graph \<Rightarrow> nat list \<Rightarrow> nat \<Rightarrow> nat" where
  "reverse_parents g offs = snd (fold (fill_edge offs) (all_edges g) (\<lambda>_. 0, \<lambda>_. 0))"

subsection \<open>The breadth-first resolution\<close>

record solver =
  dist :: "nat \<Rightarrow> nat"
  max_child :: "nat \<Rightarrow> nat"
  pending :: "nat \<Rightarrow> nat"
  queue :: "nat list"
  head :: nat
  failed :: "exit_error option"

definition initial_node :: "exit_graph \<Rightarrow> edge_scan \<Rightarrow> nat \<Rightarrow> solver \<Rightarrow> solver" where
  "initial_node g s node st =
     (let immediately_finite =
            (if IsGote g node then has_exit_edge s node else has_allowed_edge s node \<and> unresolved s node = 0)
      in if immediately_finite then st\<lparr>dist := (dist st)(node := 1), queue := queue st @ [node]\<rparr> else st)"

definition relax :: "exit_graph \<Rightarrow> nat \<Rightarrow> nat \<Rightarrow> solver \<Rightarrow> solver" where
  "relax g child_distance parent st =
     (if failed st \<noteq> None then st
      else if dist st parent \<noteq> kExitDistanceInfinite then st
      else if IsGote g parent then
        st\<lparr>dist := (dist st)(parent := (if child_distance = kExitDistanceInfinite then kExitDistanceInfinite
                                       else child_distance + 1)),
           queue := queue st @ [parent]\<rparr>
      else
        let st = st\<lparr>max_child := (max_child st)(parent := max (max_child st parent) child_distance)\<rparr> in
        if pending st parent = 0 then st\<lparr>failed := Some UnresolvedUnderflow\<rparr>
        else
          let st = st\<lparr>pending := (pending st)(parent := pending st parent - 1)\<rparr> in
          if pending st parent = 0
          then st\<lparr>dist := (dist st)(parent := max_child st parent + 1), queue := queue st @ [parent]\<rparr>
          else st)"

definition resolve_next :: "exit_graph \<Rightarrow> nat list \<Rightarrow> (nat \<Rightarrow> nat) \<Rightarrow> solver \<Rightarrow> solver" where
  "resolve_next g offs parents st =
     (let child = queue st ! head st; st = st\<lparr>head := head st + 1\<rparr>; child_distance = dist st child
      in fold (\<lambda>i. relax g child_distance (parents i)) [offs ! child..<offs ! (child + 1)] st)"

definition SolveGoteExitGraph :: "exit_graph \<Rightarrow> (exit_error + exit_solution) option" where
  "SolveGoteExitGraph g =
     (if NodeCount g \<ge> kExitDisallowed then Some (Inl TooManyNodes)
      else case scan_edges g (all_edges g) empty_scan of
        Inl e \<Rightarrow> Some (Inl e)
      | Inr s \<Rightarrow>
          let n = NodeCount g; offs = reverse_offsets n (reverse_counts s) in
          if offs ! n \<noteq> internal_edges s \<or> internal_edges s > 2 ^ 64 - 1 then Some (Inl ReverseSizeOverflow)
          else
            let parents = reverse_parents g offs;
                st = \<lparr>dist = (\<lambda>_. kExitDistanceInfinite), max_child = (\<lambda>_. 0), pending = unresolved s,
                      queue = [], head = 0, failed = None\<rparr>;
                st = fold (initial_node g s) [0..<n] st
            in case while_option (\<lambda>st. failed st = None \<and> head st < length (queue st)) (resolve_next g offs parents) st of
                 None \<Rightarrow> None
               | Some st \<Rightarrow>
                   (case failed st of
                      Some e \<Rightarrow> Some (Inl e)
                    | None \<Rightarrow> Some (Inr \<lparr>distance = dist st, allowed_internal_edges = internal_edges s,
                        finite_nodes = length (queue st), infinite_nodes = n - length (queue st)\<rparr>)))"

end
