(* ===== verification/GoteSolver.thy ===== *)
theory GoteSolver
  imports GoteExit "HOL-Library.Multiset"
begin

text \<open>
  Correctness of the retrograde solver.  The counting pass and the compressed reverse graph are
  evaluated exactly; the breadth-first loop is handled by an invariant over the multiset of
  edges already processed, in the way of a worklist algorithm: nodes leave the queue in
  nondecreasing distance, a Gote node enters with its first processed child, a Sente node with
  its last.
\<close>

subsection \<open>The graph\<close>

definition exits :: "exit_graph \<Rightarrow> nat \<Rightarrow> bool" where
  "exits g x \<longleftrightarrow> kExitLeaf \<in> set (edges_of g x)"

definition allows :: "exit_graph \<Rightarrow> nat \<Rightarrow> bool" where
  "allows g x \<longleftrightarrow> (\<exists>c \<in> set (edges_of g x). c \<noteq> kExitDisallowed)"

definition inner :: "exit_graph \<Rightarrow> (nat \<times> nat) list" where
  "inner g = filter (\<lambda>e. snd e < NodeCount g) (all_edges g)"

definition graph_ok :: "exit_graph \<Rightarrow> bool" where
  "graph_ok g \<longleftrightarrow> NodeCount g < kExitDisallowed \<and>
     (\<forall>x < NodeCount g. EdgeCount g x \<le> kU32Max \<and>
        (\<forall>c \<in> set (edges_of g x). c < NodeCount g \<or> c = kExitLeaf \<or> c = kExitDisallowed)) \<and>
     (\<forall>c < NodeCount g. length (filter (\<lambda>e. snd e = c) (all_edges g)) \<le> kU32Max)"

lemma exit_consts: "kExitDisallowed < kExitLeaf" "kExitDisallowed \<noteq> kExitLeaf" "kExitLeaf = kU32Max"
  "kExitDistanceInfinite = kU32Max"
  by (simp_all add: kExitDisallowed_def kExitLeaf_def kU32Max_def kExitDistanceInfinite_def)

lemma all_edges_iff: "(x, c) \<in> set (all_edges g) \<longleftrightarrow> x < NodeCount g \<and> c \<in> set (edges_of g x)"
  by (auto simp: all_edges_def)

lemma filter_all_edges: "x < NodeCount g \<Longrightarrow> filter (\<lambda>e. fst e = x) (all_edges g) = map (Pair x) (edges_of g x)"
proof -
  have "filter (\<lambda>e. fst e = x) (concat (map (\<lambda>y. map (Pair y) (edges_of g y)) [0..<n])) =
      (if x < n then map (Pair x) (edges_of g x) else [])" for n
    by (induction n) (auto simp: filter_map o_def less_Suc_eq)
  then show "x < NodeCount g \<Longrightarrow> ?thesis" by (simp add: all_edges_def)
qed

subsection \<open>The counting pass\<close>

definition indeg :: "(nat \<times> nat) list \<Rightarrow> nat \<Rightarrow> nat" where
  "indeg es c = length (filter (\<lambda>e. snd e = c) es)"

definition outdeg :: "exit_graph \<Rightarrow> (nat \<times> nat) list \<Rightarrow> nat \<Rightarrow> nat" where
  "outdeg g es x = length (filter (\<lambda>e. fst e = x \<and> snd e < NodeCount g) es)"

lemma deg_simps [simp]:
  "indeg [] c = 0" "indeg (e # es) c = (if snd e = c then 1 else 0) + indeg es c"
  "outdeg g [] x = 0" "outdeg g (e # es) x = (if fst e = x \<and> snd e < NodeCount g then 1 else 0) + outdeg g es x"
  "indeg (es @ fs) c = indeg es c + indeg fs c"
  by (simp_all add: indeg_def outdeg_def)

lemma scan_edges_eq:
  assumes "NodeCount g < kExitDisallowed"
    and "\<forall>e \<in> set es. snd e < NodeCount g \<or> snd e = kExitLeaf \<or> snd e = kExitDisallowed"
    and "\<forall>c < NodeCount g. reverse_counts s c + indeg es c \<le> kU32Max"
    and "\<forall>x. unresolved s x + outdeg g es x \<le> kU32Max"
  shows "\<exists>s'. scan_edges g es s = Inr s' \<and>
    (\<forall>c. reverse_counts s' c = reverse_counts s c + (if c < NodeCount g then indeg es c else 0)) \<and>
    (\<forall>x. unresolved s' x = unresolved s x + (if IsGote g x then 0 else outdeg g es x)) \<and>
    (\<forall>x. has_allowed_edge s' x \<longleftrightarrow> has_allowed_edge s x \<or> (\<exists>c. (x, c) \<in> set es \<and> c \<noteq> kExitDisallowed)) \<and>
    (\<forall>x. has_exit_edge s' x \<longleftrightarrow> has_exit_edge s x \<or> (x, kExitLeaf) \<in> set es) \<and>
    internal_edges s' = internal_edges s + length (filter (\<lambda>e. snd e < NodeCount g) es)"
  using assms
proof (induction es arbitrary: s)
  case (Cons e es)
  obtain x c where e: "e = (x, c)" by (cases e)
  have k: "c < NodeCount g \<or> c = kExitLeaf \<or> c = kExitDisallowed" using Cons.prems(2) by (simp add: e)
  have n: "NodeCount g < kExitDisallowed" "\<not> kExitLeaf < NodeCount g" "\<not> kExitDisallowed < NodeCount g"
    using Cons.prems(1) exit_consts by simp_all
  from k consider "c = kExitDisallowed" | "c = kExitLeaf" | "c < NodeCount g" by blast
  then obtain t where t: "scan_edge g x c s = Inr t"
    "\<forall>d. reverse_counts t d = reverse_counts s d + (if d < NodeCount g then indeg [e] d else 0)"
    "\<forall>y. unresolved t y = unresolved s y + (if IsGote g y then 0 else outdeg g [e] y)"
    "\<forall>y. has_allowed_edge t y \<longleftrightarrow> has_allowed_edge s y \<or> (\<exists>c. (y, c) \<in> set [e] \<and> c \<noteq> kExitDisallowed)"
    "\<forall>y. has_exit_edge t y \<longleftrightarrow> has_exit_edge s y \<or> (y, kExitLeaf) \<in> set [e]"
    "internal_edges t = internal_edges s + length (filter (\<lambda>e. snd e < NodeCount g) [e])"
  proof cases
    case 1
    then show thesis using n exit_consts by (intro that [of s]) (auto simp: scan_edge_def e)
  next
    case 2
    then show thesis using n exit_consts
      by (intro that [of "s\<lparr>has_allowed_edge := (has_allowed_edge s)(x := True), has_exit_edge := (has_exit_edge s)(x := True)\<rparr>"])
        (auto simp: scan_edge_def e)
  next
    case 3
    have r: "reverse_counts s c \<noteq> kU32Max" using Cons.prems(3) 3 by (fastforce simp: e)
    have u: "unresolved s x \<noteq> kU32Max" using spec [OF Cons.prems(4), of x] 3 by (simp add: e)
    have c: "c \<noteq> kExitDisallowed" "c \<noteq> kExitLeaf" using 3 n by auto
    show thesis
    proof (cases "IsGote g x")
      case True
      then show thesis using 3 r c
        by (intro that [of "s\<lparr>has_allowed_edge := (has_allowed_edge s)(x := True),
            reverse_counts := (reverse_counts s)(c := reverse_counts s c + 1), internal_edges := internal_edges s + 1\<rparr>"])
          (auto simp: scan_edge_def e Let_def)
    next
      case False
      then show thesis using 3 r c u
        by (intro that [of "s\<lparr>has_allowed_edge := (has_allowed_edge s)(x := True),
            reverse_counts := (reverse_counts s)(c := reverse_counts s c + 1), internal_edges := internal_edges s + 1,
            unresolved := (unresolved s)(x := unresolved s x + 1)\<rparr>"])
          (auto simp: scan_edge_def e Let_def)
    qed
  qed
  have "\<exists>s'. scan_edges g es t = Inr s' \<and>
    (\<forall>c. reverse_counts s' c = reverse_counts t c + (if c < NodeCount g then indeg es c else 0)) \<and>
    (\<forall>x. unresolved s' x = unresolved t x + (if IsGote g x then 0 else outdeg g es x)) \<and>
    (\<forall>x. has_allowed_edge s' x \<longleftrightarrow> has_allowed_edge t x \<or> (\<exists>c. (x, c) \<in> set es \<and> c \<noteq> kExitDisallowed)) \<and>
    (\<forall>x. has_exit_edge s' x \<longleftrightarrow> has_exit_edge t x \<or> (x, kExitLeaf) \<in> set es) \<and>
    internal_edges s' = internal_edges t + length (filter (\<lambda>e. snd e < NodeCount g) es)"
  proof (rule Cons.IH [OF Cons.prems(1)])
    show "\<forall>c < NodeCount g. reverse_counts t c + indeg es c \<le> kU32Max"
      using Cons.prems(3) t(2) by (simp add: add.assoc)
    show "\<forall>x. unresolved t x + outdeg g es x \<le> kU32Max"
    proof
      fix x
      show "unresolved t x + outdeg g es x \<le> kU32Max" using spec [OF Cons.prems(4), of x] t(3) by (auto split: if_splits)
    qed
  qed (use Cons.prems(2) in auto)
  then show ?case using t by (auto simp: e)
qed auto

subsection \<open>The reverse graph\<close>

lemma reverse_offsets_eq:
  "length (reverse_offsets n cnt) = Suc n \<and> (\<forall>i \<le> n. reverse_offsets n cnt ! i = (\<Sum>j<i. cnt j))"
proof (induction n)
  case (Suc n)
  have "reverse_offsets (Suc n) cnt = reverse_offsets n cnt @ [reverse_offsets n cnt ! n + cnt n]"
    by (simp add: reverse_offsets_def)
  then show ?case using Suc by (auto simp: nth_append le_Suc_eq)
qed (simp add: reverse_offsets_def)

lemma sum_indeg: "(\<Sum>j<n. indeg es j) = length (filter (\<lambda>e. snd e < n) es)"
proof (induction es)
  case (Cons e es)
  have "(\<Sum>j<n. (if snd e = j then 1 else 0) + indeg es j) = (\<Sum>j<n. if snd e = j then 1 else 0) + (\<Sum>j<n. indeg es j)"
    by (simp only: sum.distrib)
  then show ?case using Cons by simp
qed (simp add: indeg_def)

lemma offsets_disjoint:
  assumes "c < n" "d < n" "c \<noteq> d" "i < cnt c" "j < cnt d"
  shows "(\<Sum>k<(c::nat). cnt k) + i \<noteq> (\<Sum>k<d. cnt k) + (j::nat)"
proof -
  have step: "(\<Sum>k<c. cnt k) + i < (\<Sum>k<d. cnt k)" if "c < d" "i < cnt c" for c d i :: nat
  proof -
    have "(\<Sum>k<c. cnt k) + i < (\<Sum>k<Suc c. cnt k)" using that(2) by simp
    also have "\<dots> \<le> (\<Sum>k<d. cnt k)" using that(1) by (intro sum_mono2) auto
    finally show ?thesis .
  qed
  consider "c < d" | "d < c" using assms(3) by linarith
  then show ?thesis using step [of c d i] step [of d c j] assms(4,5) by cases fastforce+
qed

definition parents :: "(nat \<times> nat) list \<Rightarrow> nat \<Rightarrow> nat list" where
  "parents es c = map fst (filter (\<lambda>e. snd e = c) es)"

lemma length_parents [simp]: "length (parents es c) = indeg es c"
  by (simp add: parents_def indeg_def)

lemma parents_snoc: "parents (es @ [(x, c)]) d = parents es d @ (if c = d then [x] else [])"
  by (simp add: parents_def)

lemma fill_edges_eq:
  assumes n: "n < kExitDisallowed" and offs: "\<forall>c<n. offs ! c = (\<Sum>k<c. cnt k)"
    and es: "\<forall>e \<in> set es. snd e < n \<or> kExitDisallowed \<le> snd e" and cnt: "\<forall>c<n. indeg es c \<le> cnt c"
  shows "\<exists>count ps. fold (fill_edge offs) es (\<lambda>_. 0, \<lambda>_. 0) = (count, ps) \<and>
    (\<forall>c<n. count c = indeg es c \<and> (\<forall>i < indeg es c. ps (offs ! c + i) = parents es c ! i))"
  using es cnt
proof (induction es rule: rev_induct)
  case (snoc e es)
  obtain x c where e: "e = (x, c)" by (cases e)
  have le: "\<forall>c<n. indeg es c \<le> cnt c" using snoc.prems(2) by (auto intro: add_leD1)
  then obtain count ps where h: "fold (fill_edge offs) es (\<lambda>_. 0, \<lambda>_. 0) = (count, ps)"
    "\<forall>c<n. count c = indeg es c \<and> (\<forall>i < indeg es c. ps (offs ! c + i) = parents es c ! i)"
    using snoc.IH snoc.prems(1) by auto
  show ?case
  proof (cases "c < n")
    case False
    then have "kExitDisallowed \<le> c" using snoc.prems(1) by (simp add: e)
    then show ?thesis using h n False by (auto simp: e fill_edge_def parents_snoc)
  next
    case True
    have f: "fold (fill_edge offs) (es @ [e]) (\<lambda>_. 0, \<lambda>_. 0) = (count(c := count c + 1), ps(offs ! c + count c := x))"
    proof -
      have "fill_edge offs (x, c) (count, ps) = (count(c := count c + 1), ps(offs ! c + count c := x))"
        using True n by (simp add: fill_edge_def)
      then show ?thesis by (simp add: h(1) e)
    qed
    have lt: "indeg es c < cnt c" using snoc.prems(2) [rule_format, OF True] by (simp add: e)
    have "ps' (offs ! d + i) = parents (es @ [e]) d ! i"
      if d: "d < n" "i < indeg (es @ [e]) d" and ps': "ps' = ps(offs ! c + count c := x)" for d i ps'
    proof (cases "d = c")
      case True
      then show ?thesis using d h(2) by (auto simp: ps' e parents_snoc nth_append less_Suc_eq)
    next
      case False
      have i: "i < indeg es d" using d False by (simp add: e)
      have "i < cnt d" using i le d(1) by (meson order_less_le_trans)
      then have "offs ! d + i \<noteq> offs ! c + count c"
        using offsets_disjoint [of d n c i cnt "indeg es c"] d(1) \<open>c < n\<close> False lt h(2) offs by simp
      then show ?thesis using i h(2) d(1) False by (simp add: ps' e parents_snoc)
    qed
    then show ?thesis using h(2) True unfolding f by (auto simp: e)
  qed
qed (simp add: indeg_def)

lemma map_shift: "map f [a..<a + n] = map (\<lambda>i. f (a + i)) [0..<n]"
  by (induction n) simp_all

lemma fold_map': "fold (\<lambda>i. h (f i)) xs s = fold h (map f xs) s"
  by (simp add: fold_map o_def)

lemma reverse_parents_eq:
  assumes g: "graph_ok g" and c: "c < NodeCount g"
  defines "offs \<equiv> reverse_offsets (NodeCount g) (indeg (all_edges g))"
  shows "map (reverse_parents g offs) [offs ! c..<offs ! (c + 1)] = parents (all_edges g) c"
proof -
  let ?es = "all_edges g" let ?n = "NodeCount g"
  have o: "offs ! i = (\<Sum>j<i. indeg ?es j)" if "i \<le> ?n" for i
    using reverse_offsets_eq [of ?n "indeg ?es"] that by (simp add: offs_def)
  have es: "\<forall>e \<in> set ?es. snd e < ?n \<or> kExitDisallowed \<le> snd e"
    using g exit_consts(1) by (fastforce simp: graph_ok_def all_edges_iff)
  obtain count ps where f: "fold (fill_edge offs) ?es (\<lambda>_. 0, \<lambda>_. 0) = (count, ps)"
    "\<forall>c<?n. count c = indeg ?es c \<and> (\<forall>i < indeg ?es c. ps (offs ! c + i) = parents ?es c ! i)"
    using fill_edges_eq [of ?n offs "indeg ?es" ?es] g es o by (auto simp: graph_ok_def)
  have "map ps [offs ! c..<offs ! c + indeg ?es c] = map (\<lambda>i. parents ?es c ! i) [0..<indeg ?es c]"
    unfolding map_shift using f(2) c by simp
  also have "\<dots> = parents ?es c" using map_nth [of "parents ?es c"] by simp
  moreover have "offs ! (c + 1) = offs ! c + indeg ?es c" using o c by simp
  ultimately show ?thesis by (simp add: reverse_parents_def f(1))
qed

end
