(* ===== verification/GoteBfs.thy ===== *)
theory GoteBfs
  imports GoteSolver
begin

text \<open>
  The breadth-first loop of the retrograde solver: its invariant over the multiset of edges
  processed so far, one relaxation, one node, the loop, and what the queue and the distances
  are when it ends.
\<close>

subsection \<open>The invariant\<close>

abbreviation edges_from :: "nat \<Rightarrow> (nat \<times> nat) multiset \<Rightarrow> (nat \<times> nat) multiset" where
  "edges_from x M \<equiv> filter_mset (\<lambda>e. fst e = x) M"

definition gote_inv :: "exit_graph \<Rightarrow> (nat \<times> nat) multiset \<Rightarrow> solver \<Rightarrow> nat \<Rightarrow> bool" where
  "gote_inv g pe st x \<longleftrightarrow>
     (x \<in> set (queue st) \<longleftrightarrow> exits g x \<or> (\<exists>y. (x, y) \<in># pe)) \<and>
     (exits g x \<longrightarrow> dist st x = 1) \<and>
     (\<not> exits g x \<longrightarrow> x \<in> set (queue st) \<longrightarrow>
        (\<exists>y. (x, y) \<in># pe \<and> dist st x = dist st y + 1) \<and> (\<forall>y. (x, y) \<in># pe \<longrightarrow> dist st x \<le> dist st y + 1))"

definition sente_inv :: "exit_graph \<Rightarrow> (nat \<times> nat) multiset \<Rightarrow> solver \<Rightarrow> nat \<Rightarrow> bool" where
  "sente_inv g pe st x \<longleftrightarrow>
     (if x \<in> set (queue st) then
        allows g x \<and> size (edges_from x pe) = size (edges_from x (mset (inner g))) \<and>
        (\<forall>y. (x, y) \<in># pe \<longrightarrow> dist st y < dist st x) \<and>
        (dist st x = 1 \<or> (\<exists>y. (x, y) \<in># pe \<and> dist st x = dist st y + 1))
      else
        pending st x + size (edges_from x pe) = size (edges_from x (mset (inner g))) \<and>
        (pending st x = 0 \<longrightarrow> \<not> allows g x) \<and>
        (\<forall>y. (x, y) \<in># pe \<longrightarrow> dist st y \<le> max_child st x) \<and>
        (max_child st x = 0 \<or> (\<exists>y. (x, y) \<in># pe \<and> max_child st x = dist st y)))"

definition solver_inv :: "exit_graph \<Rightarrow> nat \<Rightarrow> (nat \<times> nat) multiset \<Rightarrow> solver \<Rightarrow> bool" where
  "solver_inv g D pe st \<longleftrightarrow>
     failed st = None \<and> distinct (queue st) \<and> set (queue st) \<subseteq> {..<NodeCount g} \<and>
     (\<forall>x < NodeCount g. x \<notin> set (queue st) \<longrightarrow> dist st x = kExitDistanceInfinite) \<and>
     (\<forall>i < length (queue st). 1 \<le> dist st (queue st ! i) \<and> dist st (queue st ! i) \<le> i + 1) \<and>
     sorted (map (dist st) (queue st)) \<and> D \<le> length (queue st) \<and>
     (\<forall>x \<in> set (queue st). dist st x \<le> D + 1) \<and>
     pe \<subseteq># mset (inner g) \<and> (\<forall>e \<in># pe. snd e \<in> set (queue st) \<and> dist st (snd e) \<le> D) \<and>
     (\<forall>x < NodeCount g. if IsGote g x then gote_inv g pe st x else sente_inv g pe st x)"

lemma inner_iff: "(x, y) \<in> set (inner g) \<longleftrightarrow> x < NodeCount g \<and> y < NodeCount g \<and> y \<in> set (edges_of g x)"
  by (auto simp: inner_def all_edges_iff)

lemma inner_allows:
  assumes "NodeCount g < kExitDisallowed" "(x, y) \<in> set (inner g)"
  shows "allows g x"
proof -
  have "y \<in> set (edges_of g x)" "y \<noteq> kExitDisallowed" using assms by (auto simp: inner_iff)
  then show ?thesis unfolding allows_def by blast
qed

lemma queue_dist:
  assumes "solver_inv g D pe st" "x \<in> set (queue st)" "NodeCount g < kExitDisallowed"
  shows "1 \<le> dist st x" "dist st x \<noteq> kExitDistanceInfinite" "dist st x \<le> length (queue st)"
proof -
  note I = assms(1) [unfolded solver_inv_def]
  obtain i where i: "i < length (queue st)" "queue st ! i = x" using assms(2) by (auto simp: in_set_conv_nth)
  have len: "length (queue st) \<le> NodeCount g"
  proof -
    have "length (queue st) = card (set (queue st))" using I distinct_card by metis
    also have "\<dots> \<le> card {..<NodeCount g}" using I by (intro card_mono) auto
    finally show ?thesis by simp
  qed
  have d: "1 \<le> dist st x" "dist st x \<le> i + 1" using I i by blast+
  then show "1 \<le> dist st x" "dist st x \<le> length (queue st)" using i(1) by simp_all
  then show "dist st x \<noteq> kExitDistanceInfinite" using len assms(3) exit_consts by simp
qed

text \<open>A node other than the one touched keeps its part of the invariant.\<close>

lemma node_inv_cong:
  assumes "x \<noteq> p" "x \<in> set (queue st') \<longleftrightarrow> x \<in> set (queue st)"
    and "\<And>y. y \<in> set (queue st) \<Longrightarrow> dist st' y = dist st y" "x \<notin> set (queue st) \<Longrightarrow> dist st' x = dist st x"
    and "pending st' x = pending st x" "max_child st' x = max_child st x"
    and "\<forall>e \<in># pe. snd e \<in> set (queue st)"
  shows "gote_inv g (pe + {#(p, c)#}) st' x \<longleftrightarrow> gote_inv g pe st x"
    "sente_inv g (pe + {#(p, c)#}) st' x \<longleftrightarrow> sente_inv g pe st x"
proof -
  have e: "(x, y) \<in># pe + {#(p, c)#} \<longleftrightarrow> (x, y) \<in># pe" for y using assms(1) by auto
  have s: "edges_from x (pe + {#(p, c)#}) = edges_from x pe" using assms(1) by simp
  have d: "(x, y) \<in># pe \<Longrightarrow> dist st' y = dist st y" for y using assms(3,7) by force
  have dx: "dist st' x = dist st x" using assms(3,4) by blast
  show "gote_inv g (pe + {#(p, c)#}) st' x \<longleftrightarrow> gote_inv g pe st x"
    unfolding gote_inv_def e assms(2) dx by (simp add: d cong: conj_cong imp_cong)
  show "sente_inv g (pe + {#(p, c)#}) st' x \<longleftrightarrow> sente_inv g pe st x"
    unfolding sente_inv_def e s assms(2,5,6) dx by (simp add: d cong: conj_cong imp_cong)
qed

lemma enqueue_inv:
  assumes n: "NodeCount g < kExitDisallowed" and I: "solver_inv g D pe st"
    and sub: "pe + {#(p, c)#} \<subseteq># mset (inner g)" and c: "c \<in> set (queue st)" "dist st c = D" and p: "p \<notin> set (queue st)"
    and st': "queue st' = queue st @ [p]" "dist st' = (dist st)(p := D + 1)" "failed st' = None"
      "\<And>x. x \<noteq> p \<Longrightarrow> pending st' x = pending st x \<and> max_child st' x = max_child st x"
    and inv: "if IsGote g p then gote_inv g (pe + {#(p, c)#}) st' p else sente_inv g (pe + {#(p, c)#}) st' p"
  shows "solver_inv g D (pe + {#(p, c)#}) st'"
proof -
  have pn: "p < NodeCount g" using mset_subset_eqD [OF sub, of "(p, c)"] by (simp add: inner_iff)
  have D: "1 \<le> D" "D \<le> length (queue st)" using queue_dist [OF I c(1) n] c(2) by auto
  have same: "dist st' x = dist st x" if "x \<noteq> p" for x using that by (simp add: st')
  have keep: "dist st' x = dist st x" if "x \<in> set (queue st)" for x using that p same by metis
  have map_eq: "map (dist st') (queue st) = map (dist st) (queue st)" using keep by simp
  have q: "failed st = None" "distinct (queue st)" "set (queue st) \<subseteq> {..<NodeCount g}"
    "sorted (map (dist st) (queue st))" "\<forall>x \<in> set (queue st). dist st x \<le> D + 1"
    "\<forall>e \<in># pe. snd e \<in> set (queue st) \<and> dist st (snd e) \<le> D"
    "\<forall>x < NodeCount g. x \<notin> set (queue st) \<longrightarrow> dist st x = kExitDistanceInfinite"
    "\<forall>i < length (queue st). 1 \<le> dist st (queue st ! i) \<and> dist st (queue st ! i) \<le> i + 1"
    "\<forall>x < NodeCount g. if IsGote g x then gote_inv g pe st x else sente_inv g pe st x"
    using I unfolding solver_inv_def by blast+
  have nodes: "if IsGote g x then gote_inv g (pe + {#(p, c)#}) st' x else sente_inv g (pe + {#(p, c)#}) st' x"
    if x: "x < NodeCount g" for x
  proof (cases "x = p")
    case False
    have e: "\<forall>e \<in># pe. snd e \<in> set (queue st)" using q(6) by blast
    have "gote_inv g (pe + {#(p, c)#}) st' x \<longleftrightarrow> gote_inv g pe st x" "sente_inv g (pe + {#(p, c)#}) st' x \<longleftrightarrow> sente_inv g pe st x"
      by (rule node_inv_cong [OF False _ keep _ _ _ e]; use False st'(1,4) same in auto)+
    then show ?thesis using q(9) x by simp
  qed (use inv in blast)
  show ?thesis
    unfolding solver_inv_def
  proof (intro conjI)
    show "distinct (queue st')" using q(2) p by (simp add: st'(1))
    show "set (queue st') \<subseteq> {..<NodeCount g}" using q(3) pn by (simp add: st'(1))
    show "\<forall>x<NodeCount g. x \<notin> set (queue st') \<longrightarrow> dist st' x = kExitDistanceInfinite" using q(7) same by (simp add: st'(1))
    show "\<forall>i<length (queue st'). 1 \<le> dist st' (queue st' ! i) \<and> dist st' (queue st' ! i) \<le> i + 1"
    proof (intro allI impI)
      fix i assume "i < length (queue st')"
      then consider "i < length (queue st)" | "i = length (queue st)" by (auto simp: st'(1) less_Suc_eq)
      then show "1 \<le> dist st' (queue st' ! i) \<and> dist st' (queue st' ! i) \<le> i + 1"
      proof cases
        case 1
        then show ?thesis using q(8) keep by (simp add: st'(1) nth_append)
      next
        case 2
        then show ?thesis using D by (simp add: st'(1,2))
      qed
    qed
    show "sorted (map (dist st') (queue st'))"
      unfolding st'(1) map_append map_eq using q(4,5) by (simp add: st'(2) sorted_append)
    show "D \<le> length (queue st')" using D by (simp add: st'(1))
    show "\<forall>x\<in>set (queue st'). dist st' x \<le> D + 1" using q(5) keep by (auto simp: st'(1,2))
    show "\<forall>e\<in>#pe + {#(p, c)#}. snd e \<in> set (queue st') \<and> dist st' (snd e) \<le> D"
      using q(6) keep c by (auto simp: st'(1))
    show "\<forall>x<NodeCount g. if IsGote g x then gote_inv g (pe + {#(p, c)#}) st' x else sente_inv g (pe + {#(p, c)#}) st' x"
      using nodes by blast
  qed (use sub st'(3) in simp_all)
qed

text \<open>The update of a state whose queue and distances stay as they are.\<close>

lemma stay_inv:
  assumes n: "NodeCount g < kExitDisallowed" and I: "solver_inv g D pe st"
    and sub: "pe + {#(p, c)#} \<subseteq># mset (inner g)" and c: "c \<in> set (queue st)" "dist st c = D"
    and st': "queue st' = queue st" "dist st' = dist st" "failed st' = None"
      "\<And>x. x \<noteq> p \<Longrightarrow> pending st' x = pending st x \<and> max_child st' x = max_child st x"
    and inv: "if IsGote g p then gote_inv g (pe + {#(p, c)#}) st' p else sente_inv g (pe + {#(p, c)#}) st' p"
  shows "solver_inv g D (pe + {#(p, c)#}) st'"
proof -
  have q: "\<forall>e \<in># pe. snd e \<in> set (queue st) \<and> dist st (snd e) \<le> D"
    "\<forall>x < NodeCount g. if IsGote g x then gote_inv g pe st x else sente_inv g pe st x"
    using I unfolding solver_inv_def by blast+
  have nodes: "if IsGote g x then gote_inv g (pe + {#(p, c)#}) st' x else sente_inv g (pe + {#(p, c)#}) st' x"
    if x: "x < NodeCount g" for x
  proof (cases "x = p")
    case False
    have e: "\<forall>e \<in># pe. snd e \<in> set (queue st)" using q(1) by blast
    have "gote_inv g (pe + {#(p, c)#}) st' x \<longleftrightarrow> gote_inv g pe st x" "sente_inv g (pe + {#(p, c)#}) st' x \<longleftrightarrow> sente_inv g pe st x"
      by (rule node_inv_cong [OF False _ _ _ _ _ e]; use False st' in auto)+
    then show ?thesis using q(2) x by simp
  qed (use inv in blast)
  show ?thesis
    unfolding solver_inv_def st'(1-3)
  proof (intro conjI)
    show "\<forall>e\<in>#pe + {#(p, c)#}. snd e \<in> set (queue st) \<and> dist st (snd e) \<le> D" using q(1) c by auto
    show "\<forall>x<NodeCount g. if IsGote g x then gote_inv g (pe + {#(p, c)#}) st' x else sente_inv g (pe + {#(p, c)#}) st' x"
      using nodes by blast
  qed (use I sub in \<open>simp_all add: solver_inv_def\<close>)
qed

lemma relax_inv:
  assumes n: "NodeCount g < kExitDisallowed" and I: "solver_inv g D pe st"
    and sub: "pe + {#(p, c)#} \<subseteq># mset (inner g)" and c: "c \<in> set (queue st)" "dist st c = D"
  shows "solver_inv g D (pe + {#(p, c)#}) (relax g D p st) \<and> (\<exists>q. queue (relax g D p st) = queue st @ q) \<and>
    (\<forall>x \<in> set (queue st). dist (relax g D p st) x = dist st x) \<and> head (relax g D p st) = head st"
proof -
  let ?pe = "pe + {#(p, c)#}"
  have pc: "(p, c) \<in> set (inner g)" using mset_subset_eqD [OF sub, of "(p, c)"] by simp
  have pn: "p < NodeCount g" using pc by (simp add: inner_iff)
  have f: "failed st = None" and fin: "\<forall>e \<in># pe. snd e \<in> set (queue st) \<and> dist st (snd e) \<le> D"
    and out: "p \<notin> set (queue st) \<Longrightarrow> dist st p = kExitDistanceInfinite" and le: "\<forall>x \<in> set (queue st). dist st x \<le> D + 1"
    and node: "if IsGote g p then gote_inv g pe st p else sente_inv g pe st p"
    using I pn unfolding solver_inv_def by blast+
  have D: "1 \<le> D" "D \<noteq> kExitDistanceInfinite" using queue_dist [OF I c(1) n] c(2) by auto
  have size: "size (edges_from p pe) < size (edges_from p (mset (inner g)))"
  proof -
    have "edges_from p ?pe \<subseteq># edges_from p (mset (inner g))" using sub by (rule multiset_filter_mono)
    then have "size (edges_from p ?pe) \<le> size (edges_from p (mset (inner g)))" by (rule size_mset_mono)
    then show ?thesis by simp
  qed
  show ?thesis
  proof (cases "p \<in> set (queue st)")
    case True
    have gt: "IsGote g p"
    proof (rule ccontr)
      assume "\<not> IsGote g p"
      then show False using node True size by (simp add: sente_inv_def)
    qed
    have r: "relax g D p st = st" using queue_dist(2) [OF I True n] f by (simp add: relax_def)
    have "dist st p \<le> dist st c + 1" using le True c(2) by simp
    then have "gote_inv g ?pe st p" using node gt True unfolding gote_inv_def by auto
    then show ?thesis unfolding r using stay_inv [OF n I sub c refl refl f] gt by auto
  next
    case False
    have d: "dist st p = kExitDistanceInfinite" using out False .
    show ?thesis
    proof (cases "IsGote g p")
      case True
      define st' where "st' = st\<lparr>dist := (dist st)(p := D + 1), queue := queue st @ [p]\<rparr>"
      have r: "relax g D p st = st'" using True d f D by (simp add: relax_def st'_def)
      have no: "\<not> exits g p" "(p, y) \<notin># pe" for y using node True False by (auto simp: gote_inv_def)
      have "c \<noteq> p" using c(1) False by blast
      then have "gote_inv g ?pe st' p" using no c(2) by (auto simp: gote_inv_def st'_def)
      then have "solver_inv g D ?pe st'"
        using True f by (intro enqueue_inv [OF n I sub c False]) (simp_all add: st'_def)
      then show ?thesis unfolding r using False by (auto simp: st'_def)
    next
      case sente: False
      define m where "m = max (max_child st p) D"
      have si: "pending st p + size (edges_from p pe) = size (edges_from p (mset (inner g)))"
        "\<forall>y. (p, y) \<in># pe \<longrightarrow> dist st y \<le> max_child st p"
        "max_child st p = 0 \<or> (\<exists>y. (p, y) \<in># pe \<and> max_child st p = dist st y)"
        using node sente False by (simp_all add: sente_inv_def)
      have pos: "pending st p \<noteq> 0" using si(1) size by simp
      have m: "m = D" using si(3) fin D(1) by (auto simp: m_def)
      define st1 where "st1 = st\<lparr>max_child := (max_child st)(p := m), pending := (pending st)(p := pending st p - 1)\<rparr>"
      have all: "allows g p" by (rule inner_allows [OF n pc])
      have dm: "\<forall>y. (p, y) \<in># ?pe \<longrightarrow> dist st y \<le> D" using fin c(2) by auto
      show ?thesis
      proof (cases "pending st p = 1")
        case True
        define st' where "st' = st1\<lparr>dist := (dist st)(p := m + 1), queue := queue st @ [p]\<rparr>"
        have r: "relax g D p st = st'" using sente d f True by (simp add: relax_def st'_def st1_def m_def Let_def)
        have y: "y \<noteq> p" if "(p, y) \<in># ?pe" for y using that fin c(1) False by auto
        have "sente_inv g ?pe st' p"
        proof -
          have "size (edges_from p ?pe) = size (edges_from p (mset (inner g)))" using si(1) True by simp
          moreover have "dist st' y < dist st' p" if "(p, y) \<in># ?pe" for y
            using dm that y [OF that] by (auto simp: st'_def m)
          moreover have "\<exists>y. (p, y) \<in># ?pe \<and> dist st' p = dist st' y + 1"
            using c(1,2) False by (intro exI [of _ c]) (auto simp: st'_def m)
          ultimately show ?thesis using all by (simp add: sente_inv_def st'_def)
        qed
        then have "solver_inv g D ?pe st'"
          using sente f by (intro enqueue_inv [OF n I sub c False]) (simp_all add: st'_def st1_def m)
        then show ?thesis unfolding r using False by (auto simp: st'_def st1_def)
      next
        case more: False
        have r: "relax g D p st = st1" using sente d f pos more by (simp add: relax_def st1_def m_def Let_def)
        have "sente_inv g ?pe st1 p"
        proof -
          have "pending st1 p + size (edges_from p ?pe) = size (edges_from p (mset (inner g)))" "pending st1 p \<noteq> 0"
            using si(1) pos more by (simp_all add: st1_def)
          moreover have "\<exists>y. (p, y) \<in># ?pe \<and> max_child st1 p = dist st1 y"
            using c(2) by (intro exI [of _ c]) (simp add: st1_def m)
          ultimately show ?thesis using False dm by (simp add: sente_inv_def st1_def m)
        qed
        then have "solver_inv g D ?pe st1"
          using sente f by (intro stay_inv [OF n I sub c]) (simp_all add: st1_def)
        then show ?thesis unfolding r by (simp add: st1_def)
      qed
    qed
  qed
qed

subsection \<open>One node of the queue\<close>

lemma relax_fold_inv:
  assumes n: "NodeCount g < kExitDisallowed"
    and "solver_inv g D pe st" "pe + mset (map (\<lambda>p. (p, c)) ps) \<subseteq># mset (inner g)" "c \<in> set (queue st)" "dist st c = D"
  shows "solver_inv g D (pe + mset (map (\<lambda>p. (p, c)) ps)) (fold (relax g D) ps st) \<and>
    (\<exists>q. queue (fold (relax g D) ps st) = queue st @ q) \<and>
    (\<forall>x \<in> set (queue st). dist (fold (relax g D) ps st) x = dist st x) \<and> head (fold (relax g D) ps st) = head st"
  using assms(2-)
proof (induction ps arbitrary: pe st)
  case (Cons p ps)
  let ?st = "relax g D p st"
  have sub: "pe + {#(p, c)#} \<subseteq># mset (inner g)"
    using Cons.prems(2) by (rule subset_mset.order_trans [rotated]) simp
  note r = relax_inv [OF n Cons.prems(1) sub Cons.prems(3,4)]
  obtain q where q: "queue ?st = queue st @ q" using r by blast
  have c: "c \<in> set (queue ?st)" "dist ?st c = D" using r q Cons.prems(3,4) by auto
  have sub': "(pe + {#(p, c)#}) + mset (map (\<lambda>p. (p, c)) ps) \<subseteq># mset (inner g)" using Cons.prems(2) by simp
  note ih = Cons.IH [OF conjunct1 [OF r] sub' c]
  show ?case using ih r q by (auto simp: ac_simps)
qed simp

definition processed :: "exit_graph \<Rightarrow> nat set \<Rightarrow> (nat \<times> nat) multiset" where
  "processed g Q = filter_mset (\<lambda>e. snd e \<in> Q) (mset (inner g))"

lemma mset_parents: "c < NodeCount g \<Longrightarrow>
  mset (map (\<lambda>p. (p, c)) (parents (all_edges g) c)) = filter_mset (\<lambda>e. snd e = c) (mset (inner g))"
proof -
  assume c: "c < NodeCount g"
  have "map (\<lambda>p. (p, c)) (map fst (filter (\<lambda>e. snd e = c) es)) = filter (\<lambda>e. snd e = c) es" for es :: "(nat \<times> nat) list"
    by (induction es) auto
  moreover have "filter (\<lambda>e. snd e = c) (inner g) = filter (\<lambda>e. snd e = c) (all_edges g)"
    using c by (auto simp: inner_def intro!: filter_cong)
  ultimately show ?thesis by (simp add: parents_def flip: mset_filter)
qed

lemma processed_insert:
  assumes "c \<notin> Q" "c < NodeCount g"
  shows "processed g (insert c Q) = processed g Q + mset (map (\<lambda>p. (p, c)) (parents (all_edges g) c))"
proof -
  have "filter_mset (\<lambda>e. P e \<or> R e) M = filter_mset P M + filter_mset R M" if "\<And>e. \<not> (P e \<and> R e)" for P R :: "nat \<times> nat \<Rightarrow> bool" and M
    using that by (induction M) auto
  from this [of "\<lambda>e. snd e \<in> Q" "\<lambda>e. snd e = c"] show ?thesis
    unfolding mset_parents [OF assms(2)] processed_def using assms(1) by (simp add: disj_commute)
qed

text \<open>The invariant at the head of the loop.\<close>

definition loop_inv :: "exit_graph \<Rightarrow> solver \<Rightarrow> bool" where
  "loop_inv g st \<longleftrightarrow> head st \<le> length (queue st) \<and>
     (\<exists>D. solver_inv g D (processed g (set (take (head st) (queue st)))) st \<and>
        (\<forall>i. head st \<le> i \<longrightarrow> i < length (queue st) \<longrightarrow> D \<le> dist st (queue st ! i)))"

definition csr_ok :: "exit_graph \<Rightarrow> nat list \<Rightarrow> (nat \<Rightarrow> nat) \<Rightarrow> bool" where
  "csr_ok g offs ps \<longleftrightarrow> (\<forall>c < NodeCount g. map ps [offs ! c..<offs ! (c + 1)] = parents (all_edges g) c)"

lemma resolve_next_inv:
  assumes n: "NodeCount g < kExitDisallowed" and csr: "csr_ok g offs ps"
    and L: "loop_inv g st" and h: "head st < length (queue st)"
  shows "loop_inv g (resolve_next g offs ps st)" "head (resolve_next g offs ps st) = head st + 1"
proof -
  let ?c = "queue st ! head st" let ?Q = "set (take (head st) (queue st))"
  define st0 where "st0 = st\<lparr>head := head st + 1\<rparr>"
  define D where "D = dist st ?c"
  obtain D0 where D0: "solver_inv g D0 (processed g ?Q) st" "\<forall>i. head st \<le> i \<longrightarrow> i < length (queue st) \<longrightarrow> D0 \<le> dist st (queue st ! i)"
    using L by (auto simp: loop_inv_def)
  have I: "distinct (queue st)" "set (queue st) \<subseteq> {..<NodeCount g}" "sorted (map (dist st) (queue st))"
    "1 \<le> D \<and> D \<le> head st + 1"
    using D0(1) h unfolding solver_inv_def D_def by blast+
  have le: "D0 \<le> D" using D0(2) h by (simp add: D_def)
  have cin: "?c \<in> set (queue st)" "?c < NodeCount g" using h I(2) by (auto simp: subset_iff)
  have notin: "?c \<notin> ?Q" using I(1) h by (auto simp: in_set_conv_nth nth_eq_iff_index_eq)
  have "solver_inv g D (processed g ?Q) st0"
    using D0(1) le h I(4) unfolding solver_inv_def st0_def gote_inv_def sente_inv_def by (simp cong: if_cong) (force intro: le_trans)
  note start = this
  have sub: "processed g ?Q + mset (map (\<lambda>p. (p, ?c)) (parents (all_edges g) ?c)) \<subseteq># mset (inner g)"
    unfolding processed_insert [OF notin cin(2), symmetric] unfolding processed_def by (rule multiset_filter_subset)
  have r: "resolve_next g offs ps st = fold (relax g D) (parents (all_edges g) ?c) st0"
    using csr cin(2) by (simp add: resolve_next_def Let_def st0_def D_def fold_map' csr_ok_def)
  have c0: "?c \<in> set (queue st0)" "dist st0 ?c = D" using cin(1) by (simp_all add: st0_def D_def)
  note R = relax_fold_inv [OF n start sub c0, folded r processed_insert [OF notin cin(2)]]
  obtain q where q: "queue (resolve_next g offs ps st) = queue st @ q" using R by (auto simp: st0_def)
  show hd: "head (resolve_next g offs ps st) = head st + 1" using R by (simp add: st0_def)
  have take: "set (take (head st + 1) (queue st @ q)) = insert ?c ?Q" using h by (simp add: take_Suc_conv_app_nth)
  have sorted: "sorted (map (dist (resolve_next g offs ps st)) (queue st @ q))" using R q unfolding solver_inv_def by metis
  have Dc: "dist (resolve_next g offs ps st) ?c = D" using R cin(1) by (simp add: st0_def D_def)
  have "D \<le> dist (resolve_next g offs ps st) ((queue st @ q) ! i)" if "head st + 1 \<le> i" "i < length (queue st @ q)" for i
    using sorted_nth_mono [OF sorted, of "head st" i] that h Dc nth_append [of "queue st" q "head st"]
    by (simp del: map_append)
  then show "loop_inv g (resolve_next g offs ps st)"
    unfolding loop_inv_def hd q take using R h by auto
qed

subsection \<open>The whole loop\<close>

lemma initial_nodes:
  assumes "distinct xs"
  shows "let imm = (\<lambda>x. if IsGote g x then has_exit_edge s x else has_allowed_edge s x \<and> unresolved s x = 0);
    st' = fold (initial_node g s) xs st in
    queue st' = queue st @ filter imm xs \<and> dist st' = (\<lambda>x. if x \<in> set xs \<and> imm x then 1 else dist st x) \<and>
    max_child st' = max_child st \<and> pending st' = pending st \<and> head st' = head st \<and> failed st' = failed st"
  using assms
  by (induction xs arbitrary: st) (auto simp: Let_def initial_node_def fun_eq_iff)

lemma size_edges_from: "size (edges_from x (mset (inner g))) = outdeg g (all_edges g) x"
  by (simp add: inner_def outdeg_def conj_commute flip: mset_filter)

text \<open>The scan of a whole graph.\<close>

definition scanned :: "exit_graph \<Rightarrow> edge_scan \<Rightarrow> bool" where
  "scanned g s \<longleftrightarrow>
     (\<forall>c < NodeCount g. reverse_counts s c = indeg (all_edges g) c) \<and>
     (\<forall>x < NodeCount g. unresolved s x = (if IsGote g x then 0 else outdeg g (all_edges g) x) \<and>
        has_allowed_edge s x = allows g x \<and> has_exit_edge s x = exits g x) \<and>
     internal_edges s = length (inner g)"

lemma scan_graph:
  assumes "graph_ok g"
  shows "\<exists>s. scan_edges g (all_edges g) empty_scan = Inr s \<and> scanned g s"
proof -
  have n: "NodeCount g < kExitDisallowed" using assms by (simp add: graph_ok_def)
  have out: "outdeg g (all_edges g) x \<le> kU32Max" for x
  proof (cases "x < NodeCount g")
    case True
    have "outdeg g (all_edges g) x = length (filter (\<lambda>e. snd e < NodeCount g) (filter (\<lambda>e. fst e = x) (all_edges g)))"
      by (simp add: outdeg_def conj_commute)
    also have "\<dots> \<le> length (filter (\<lambda>e. fst e = x) (all_edges g))" by (rule length_filter_le)
    also have "\<dots> = EdgeCount g x" using filter_all_edges [OF True] by (simp add: edges_of_def)
    finally show ?thesis using assms True unfolding graph_ok_def by (meson order_trans)
  next
    case False
    then have "filter (\<lambda>e. fst e = x \<and> snd e < NodeCount g) (all_edges g) = []"
      by (auto simp: filter_empty_conv all_edges_iff)
    then show ?thesis by (simp add: outdeg_def)
  qed
  have "\<exists>s'. scan_edges g (all_edges g) empty_scan = Inr s' \<and>
    (\<forall>c. reverse_counts s' c = reverse_counts empty_scan c + (if c < NodeCount g then indeg (all_edges g) c else 0)) \<and>
    (\<forall>x. unresolved s' x = unresolved empty_scan x + (if IsGote g x then 0 else outdeg g (all_edges g) x)) \<and>
    (\<forall>x. has_allowed_edge s' x \<longleftrightarrow> has_allowed_edge empty_scan x \<or> (\<exists>c. (x, c) \<in> set (all_edges g) \<and> c \<noteq> kExitDisallowed)) \<and>
    (\<forall>x. has_exit_edge s' x \<longleftrightarrow> has_exit_edge empty_scan x \<or> (x, kExitLeaf) \<in> set (all_edges g)) \<and>
    internal_edges s' = internal_edges empty_scan + length (filter (\<lambda>e. snd e < NodeCount g) (all_edges g))"
  proof (rule scan_edges_eq [OF n])
    show "\<forall>e \<in> set (all_edges g). snd e < NodeCount g \<or> snd e = kExitLeaf \<or> snd e = kExitDisallowed"
      using assms by (fastforce simp: graph_ok_def all_edges_iff)
  qed (use assms out in \<open>simp_all add: graph_ok_def empty_scan_def indeg_def\<close>)
  then show ?thesis
    by (auto simp: scanned_def empty_scan_def all_edges_iff allows_def exits_def inner_def)
qed

lemma loop_inv_initial:
  assumes n: "NodeCount g < kExitDisallowed" and s: "scanned g s"
  defines "st \<equiv> fold (initial_node g s) [0..<NodeCount g]
     \<lparr>dist = (\<lambda>_. kExitDistanceInfinite), max_child = (\<lambda>_. 0), pending = unresolved s, queue = [], head = 0, failed = None\<rparr>"
  shows "loop_inv g st"
proof -
  define imm where "imm x = (if IsGote g x then exits g x else allows g x \<and> outdeg g (all_edges g) x = 0)" for x
  define code_imm where "code_imm x = (if IsGote g x then has_exit_edge s x else has_allowed_edge s x \<and> unresolved s x = 0)" for x
  have code: "code_imm x = imm x" if "x < NodeCount g" for x using s that by (simp add: imm_def code_imm_def scanned_def)
  have filt: "filter code_imm [0..<NodeCount g] = filter imm [0..<NodeCount g]" using code by (intro filter_cong) auto
  have st: "queue st = filter imm [0..<NodeCount g]" "dist st x = (if x < NodeCount g \<and> imm x then 1 else kExitDistanceInfinite)"
    "max_child st = (\<lambda>_. 0)" "pending st = unresolved s" "head st = 0" "failed st = None" for x
    using initial_nodes [of "[0..<NodeCount g]" g s "\<lparr>dist = (\<lambda>_. kExitDistanceInfinite), max_child = (\<lambda>_. 0),
        pending = unresolved s, queue = [], head = 0, failed = None\<rparr>", folded st_def code_imm_def [abs_def]] filt code
    by (auto simp: Let_def)
  have in_queue: "x \<in> set (queue st) \<longleftrightarrow> x < NodeCount g \<and> imm x" for x by (auto simp: st(1))
  have one: "dist st x = 1" if "x \<in> set (queue st)" for x using that in_queue by (simp add: st(2))
  have map_one: "map (dist st) (queue st) = map (\<lambda>_. 1) (queue st)" using one by (intro map_cong) auto
  have nodes: "if IsGote g x then gote_inv g {#} st x else sente_inv g {#} st x" if x: "x < NodeCount g" for x
    using x in_queue [of x] one [of x] s
    by (auto simp: gote_inv_def sente_inv_def imm_def st size_edges_from scanned_def)
  have "solver_inv g 0 {#} st"
    unfolding solver_inv_def
  proof (intro conjI)
    show "distinct (queue st)" by (simp add: st(1))
    show "set (queue st) \<subseteq> {..<NodeCount g}" by (auto simp: st(1))
    show "\<forall>x<NodeCount g. x \<notin> set (queue st) \<longrightarrow> dist st x = kExitDistanceInfinite" using in_queue by (simp add: st(2))
    show "\<forall>i<length (queue st). 1 \<le> dist st (queue st ! i) \<and> dist st (queue st ! i) \<le> i + 1" using one nth_mem by force
    show "sorted (map (dist st) (queue st))" unfolding map_one by (simp add: map_replicate_const)
    show "\<forall>x\<in>set (queue st). dist st x \<le> 0 + 1" using one by simp
    show "\<forall>x<NodeCount g. if IsGote g x then gote_inv g {#} st x else sente_inv g {#} st x" using nodes by blast
  qed (simp_all add: st(6))
  then show ?thesis unfolding loop_inv_def by (intro conjI exI [of _ 0]) (simp_all add: st(5) processed_def)
qed

lemma loop_ends:
  assumes n: "NodeCount g < kExitDisallowed" and csr: "csr_ok g offs ps" and L: "loop_inv g st"
  shows "\<exists>st' D. while_option (\<lambda>st. failed st = None \<and> head st < length (queue st)) (resolve_next g offs ps) st = Some st' \<and>
    solver_inv g D (processed g (set (queue st'))) st'"
proof -
  let ?b = "\<lambda>st. failed st = None \<and> head st < length (queue st)" let ?c = "resolve_next g offs ps"
  have len: "length (queue st) \<le> NodeCount g" if "loop_inv g st" for st
  proof -
    have "distinct (queue st)" "set (queue st) \<subseteq> {..<NodeCount g}" using that by (auto simp: loop_inv_def solver_inv_def)
    then show ?thesis using card_mono [of "{..<NodeCount g}" "set (queue st)"] distinct_card [of "queue st"] by simp
  qed
  have step: "loop_inv g (?c s) \<and> NodeCount g - head (?c s) < NodeCount g - head s" if "loop_inv g s" "?b s" for s
    using resolve_next_inv [OF n csr that(1)] that(2) len [OF that(1)] by (simp add: diff_less_mono2)
  obtain st' where w: "while_option ?b ?c st = Some st'"
    using measure_while_option_Some [of "loop_inv g" ?b ?c "\<lambda>s. NodeCount g - head s" st] step L by blast
  have L': "loop_inv g st'" using while_option_rule [of "loop_inv g" ?b ?c st st'] step w L by blast
  have "failed st' = None" using L' by (auto simp: loop_inv_def solver_inv_def)
  then have "head st' = length (queue st')" using while_option_stop [OF w] L' by (simp add: loop_inv_def)
  then show ?thesis using w L' unfolding loop_inv_def by auto
qed

subsection \<open>What the solver returns\<close>

text \<open>Gote to move forces an exit within \<open>k\<close> plies from \<open>x\<close>; Sente cannot avoid one.\<close>

fun forced :: "exit_graph \<Rightarrow> nat \<Rightarrow> nat \<Rightarrow> bool" where
  "forced g 0 x \<longleftrightarrow> False"
| "forced g (Suc k) x \<longleftrightarrow>
     (if IsGote g x then kExitLeaf \<in> set (edges_of g x) \<or> (\<exists>y \<in> set (edges_of g x). y < NodeCount g \<and> forced g k y)
      else (\<exists>y \<in> set (edges_of g x). y \<noteq> kExitDisallowed) \<and>
        (\<forall>y \<in> set (edges_of g x). y < NodeCount g \<longrightarrow> forced g k y))"

lemma forced_iff:
  assumes n: "NodeCount g < kExitDisallowed" and I: "solver_inv g D (processed g (set (queue st))) st"
    and x: "x < NodeCount g"
  shows "forced g k x \<longleftrightarrow> x \<in> set (queue st) \<and> dist st x \<le> k"
  using x
proof (induction k arbitrary: x)
  case 0
  then show ?case using queue_dist(1) [OF I _ n, of x] by auto
next
  case (Suc k)
  let ?Q = "set (queue st)" let ?pe = "processed g ?Q"
  have pe: "(x, y) \<in># ?pe \<longleftrightarrow> y \<in> ?Q \<and> y < NodeCount g \<and> y \<in> set (edges_of g x)" for y
    using Suc.prems by (auto simp: processed_def inner_iff)
  have node: "if IsGote g x then gote_inv g ?pe st x else sente_inv g ?pe st x"
    using I Suc.prems unfolding solver_inv_def by blast
  have Q: "y < NodeCount g" if "y \<in> ?Q" for y using I that unfolding solver_inv_def by blast
  have pos: "1 \<le> dist st x" if "x \<in> ?Q" using queue_dist(1) [OF I that n] .
  show ?case
  proof (cases "IsGote g x")
    case True
    note G = node [unfolded if_P [OF True] gote_inv_def pe]
    have "forced g (Suc k) x \<longleftrightarrow> exits g x \<or> (\<exists>y. (y \<in> ?Q \<and> y < NodeCount g \<and> y \<in> set (edges_of g x)) \<and> dist st y \<le> k)"
      using True Suc.IH by (auto simp: exits_def)
    also have "\<dots> \<longleftrightarrow> x \<in> ?Q \<and> dist st x \<le> Suc k"
    proof (cases "exits g x")
      case False
      show ?thesis
      proof
        assume "exits g x \<or> (\<exists>y. (y \<in> ?Q \<and> y < NodeCount g \<and> y \<in> set (edges_of g x)) \<and> dist st y \<le> k)"
        then obtain y where y: "y \<in> ?Q \<and> y < NodeCount g \<and> y \<in> set (edges_of g x)" "dist st y \<le> k" using False by blast
        then have "x \<in> ?Q" using G by blast
        moreover from this have "dist st x \<le> dist st y + 1" using G False y(1) by blast
        ultimately show "x \<in> ?Q \<and> dist st x \<le> Suc k" using y(2) by simp
      next
        assume a: "x \<in> ?Q \<and> dist st x \<le> Suc k"
        then obtain y where "y \<in> ?Q \<and> y < NodeCount g \<and> y \<in> set (edges_of g x)" "dist st x = dist st y + 1"
          using G False by blast
        then show "exits g x \<or> (\<exists>y. (y \<in> ?Q \<and> y < NodeCount g \<and> y \<in> set (edges_of g x)) \<and> dist st y \<le> k)" using a by auto
      qed
    qed (use G in simp)
    finally show ?thesis .
  next
    case False
    have all: "x \<in> ?Q \<Longrightarrow> (\<forall>y. y < NodeCount g \<and> y \<in> set (edges_of g x) \<longrightarrow> y \<in> ?Q)"
    proof (intro allI impI)
      fix y assume xq: "x \<in> ?Q" and y: "y < NodeCount g \<and> y \<in> set (edges_of g x)"
      have sz: "size (edges_from x ?pe) = size (edges_from x (mset (inner g)))" using node False xq by (simp add: sente_inv_def)
      have sub: "edges_from x ?pe \<subseteq># edges_from x (mset (inner g))" by (simp add: processed_def multiset_filter_mono)
      have eq: "edges_from x ?pe = edges_from x (mset (inner g))"
        using sub sz by (metis mset_subset_size order_less_irrefl subset_mset.le_imp_less_or_eq)
      have "(x, y) \<in># edges_from x (mset (inner g))" using y Suc.prems by (simp add: inner_iff)
      then show "y \<in> ?Q" unfolding eq [symmetric] by (simp add: processed_def)
    qed
    have rec: "forced g (Suc k) x \<longleftrightarrow> allows g x \<and> (\<forall>y. y < NodeCount g \<and> y \<in> set (edges_of g x) \<longrightarrow> y \<in> ?Q \<and> dist st y \<le> k)"
      using False Suc.IH by (auto simp: allows_def)
    show ?thesis
    proof (cases "x \<in> ?Q")
      case True
      have S: "allows g x" "\<forall>y. y \<in> ?Q \<and> y < NodeCount g \<and> y \<in> set (edges_of g x) \<longrightarrow> dist st y < dist st x"
        "dist st x = 1 \<or> (\<exists>y. (y \<in> ?Q \<and> y < NodeCount g \<and> y \<in> set (edges_of g x)) \<and> dist st x = dist st y + 1)"
        using node False True unfolding sente_inv_def pe by simp_all
      show ?thesis
      proof
        assume "forced g (Suc k) x"
        then show "x \<in> ?Q \<and> dist st x \<le> Suc k" using S(3) True unfolding rec by auto
      next
        assume "x \<in> ?Q \<and> dist st x \<le> Suc k"
        then show "forced g (Suc k) x" unfolding rec using S(1,2) all [OF True] by fastforce
      qed
    next
      case out: False
      have S: "pending st x + size (edges_from x ?pe) = size (edges_from x (mset (inner g)))" "pending st x = 0 \<longrightarrow> \<not> allows g x"
        using node False out unfolding sente_inv_def by simp_all
      have "\<not> forced g (Suc k) x"
      proof
        assume f: "forced g (Suc k) x"
        have "edges_from x ?pe = edges_from x (mset (inner g))"
        proof -
          have "filter_mset (\<lambda>e. fst e = x \<and> snd e \<in> ?Q) (mset (inner g)) = filter_mset (\<lambda>e. fst e = x) (mset (inner g))"
            using f Q unfolding rec by (intro filter_mset_cong refl) (auto simp: inner_iff)
          then show ?thesis by (simp add: processed_def filter_filter_mset conj_commute)
        qed
        then show False using S f unfolding rec by simp
      qed
      then show ?thesis using out by simp
    qed
  qed
qed

lemma reverse_offsets_cong:
  assumes "\<And>c. c < n \<Longrightarrow> cnt c = cnt' c"
  shows "reverse_offsets n cnt = reverse_offsets n cnt'"
  unfolding reverse_offsets_def using assms by (intro fold_cong) auto

lemma SolveGoteExitGraph_ok:
  assumes g: "graph_ok g"
  shows "\<exists>sol st D. SolveGoteExitGraph g = Some (Inr sol) \<and> solver_inv g D (processed g (set (queue st))) st \<and>
    distance sol = dist st \<and> allowed_internal_edges sol = length (inner g) \<and>
    finite_nodes sol = length (queue st) \<and> infinite_nodes sol = NodeCount g - length (queue st)"
proof -
  have n: "NodeCount g < kExitDisallowed" using g by (simp add: graph_ok_def)
  obtain s where s: "scan_edges g (all_edges g) empty_scan = Inr s" "scanned g s" using scan_graph [OF g] by blast
  let ?offs = "reverse_offsets (NodeCount g) (reverse_counts s)"
  have offs: "?offs = reverse_offsets (NodeCount g) (indeg (all_edges g))"
    using s(2) by (intro reverse_offsets_cong) (simp add: scanned_def)
  have csr: "csr_ok g ?offs (reverse_parents g ?offs)"
    unfolding csr_ok_def offs using reverse_parents_eq [OF g] by blast
  have total: "?offs ! NodeCount g = internal_edges s"
    using s(2) reverse_offsets_eq [of "NodeCount g" "indeg (all_edges g)"]
    by (simp add: offs scanned_def inner_def sum_indeg)
  have "internal_edges s = (\<Sum>c<NodeCount g. indeg (all_edges g) c)"
    using s(2) by (simp add: scanned_def inner_def sum_indeg)
  also have "\<dots> \<le> (\<Sum>c<NodeCount g. kU32Max)" using g by (intro sum_mono) (simp add: graph_ok_def indeg_def)
  also have "\<dots> \<le> 2 ^ 64 - 1"
  proof -
    have "NodeCount g * kU32Max \<le> kU32Max * kU32Max" using n by (intro mult_le_mono1) (simp add: kExitDisallowed_def)
    then show ?thesis by (simp add: kU32Max_def)
  qed
  finally have small: "internal_edges s \<le> 2 ^ 64 - 1" .
  define st0 where "st0 = fold (initial_node g s) [0..<NodeCount g]
     \<lparr>dist = (\<lambda>_. kExitDistanceInfinite), max_child = (\<lambda>_. 0), pending = unresolved s, queue = [], head = 0, failed = None\<rparr>"
  obtain st D where st: "while_option (\<lambda>st. failed st = None \<and> head st < length (queue st))
      (resolve_next g ?offs (reverse_parents g ?offs)) st0 = Some st" "solver_inv g D (processed g (set (queue st))) st"
    using loop_ends [OF n csr loop_inv_initial [OF n s(2), folded st0_def]] by blast
  have f: "failed st = None" using st(2) by (simp add: solver_inv_def)
  have "SolveGoteExitGraph g = Some (Inr \<lparr>distance = dist st, allowed_internal_edges = internal_edges s,
      finite_nodes = length (queue st), infinite_nodes = NodeCount g - length (queue st)\<rparr>)"
    using n s(1) total small st(1) f by (simp add: SolveGoteExitGraph_def Let_def flip: st0_def)
  then show ?thesis using st(2) s(2) by (intro exI conjI) (auto simp: scanned_def)
qed

text \<open>A scan that succeeds has checked the graph.\<close>

lemma scan_edges_Inr:
  assumes "scan_edges g es s = Inr s'" "\<forall>c. reverse_counts s c \<le> kU32Max"
  shows "(\<forall>e \<in> set es. snd e < NodeCount g \<or> snd e = kExitLeaf \<or> snd e = kExitDisallowed) \<and>
    (\<forall>c < NodeCount g. c < kExitDisallowed \<longrightarrow> reverse_counts s c + indeg es c \<le> kU32Max)"
  using assms
proof (induction es arbitrary: s)
  case (Cons e es)
  obtain x c where e: "e = (x, c)" by (cases e)
  obtain t where t: "scan_edge g x c s = Inr t" "scan_edges g es t = Inr s'"
    using Cons.prems(1) by (auto simp: e split: sum.splits)
  have c: "c < NodeCount g \<or> c = kExitLeaf \<or> c = kExitDisallowed"
    using t(1) by (auto simp: scan_edge_def Let_def split: if_splits)
  have cnt: "reverse_counts t = (if c \<noteq> kExitDisallowed \<and> c \<noteq> kExitLeaf then (reverse_counts s)(c := reverse_counts s c + 1) else reverse_counts s)"
    "c \<noteq> kExitDisallowed \<and> c \<noteq> kExitLeaf \<longrightarrow> reverse_counts s c \<noteq> kU32Max"
    using t(1) by (auto simp: scan_edge_def Let_def split: if_splits)
  have le: "\<forall>c. reverse_counts t c \<le> kU32Max"
  proof
    fix d
    show "reverse_counts t d \<le> kU32Max"
      using cnt(2) spec [OF Cons.prems(2), of d] unfolding cnt(1) by (auto simp: less_Suc_eq_le simp flip: Suc_le_eq)
  qed
  note ih = Cons.IH [OF t(2) le]
  have "reverse_counts s d + indeg (e # es) d \<le> kU32Max" if d: "d < NodeCount g" "d < kExitDisallowed" for d
  proof -
    have "reverse_counts t d + indeg es d \<le> kU32Max" using ih d by blast
    then show ?thesis using d(2) exit_consts(1) unfolding cnt(1) by (auto simp: e split: if_splits)
  qed
  then show ?case using ih c by (simp add: e)
qed simp

lemma scan_checks:
  assumes n: "NodeCount g < kExitDisallowed" and ec: "\<forall>x < NodeCount g. EdgeCount g x \<le> kU32Max"
    and h: "(\<forall>e \<in> set (all_edges g). snd e < NodeCount g \<or> snd e = kExitLeaf \<or> snd e = kExitDisallowed) \<and>
      (\<forall>c < NodeCount g. c < kExitDisallowed \<longrightarrow> 0 + indeg (all_edges g) c \<le> kU32Max)"
  shows "graph_ok g"
  unfolding graph_ok_def
proof (intro conjI allI impI ballI)
  fix x c assume "x < NodeCount g" "c \<in> set (edges_of g x)"
  then have "(x, c) \<in> set (all_edges g)" by (simp add: all_edges_iff)
  then show "c < NodeCount g \<or> c = kExitLeaf \<or> c = kExitDisallowed" using h by fastforce
next
  fix c assume c: "c < NodeCount g"
  then have "c < kExitDisallowed" using n by simp
  then show "length (filter (\<lambda>e. snd e = c) (all_edges g)) \<le> kU32Max" using h c by (simp add: indeg_def)
qed (use n ec in simp_all)

lemma SolveGoteExitGraph_scan_error:
  assumes "\<not> graph_ok g" "\<forall>x < NodeCount g. EdgeCount g x \<le> kU32Max"
  shows "\<exists>e. SolveGoteExitGraph g = Some (Inl e)"
proof (cases "NodeCount g < kExitDisallowed")
  case True
  have "\<not> (\<exists>s. scan_edges g (all_edges g) empty_scan = Inr s)"
  proof
    assume "\<exists>s. scan_edges g (all_edges g) empty_scan = Inr s"
    then obtain s where s: "scan_edges g (all_edges g) empty_scan = Inr s" ..
    have "reverse_counts empty_scan c = 0" for c by (simp add: empty_scan_def)
    with scan_edges_Inr [OF s] have "graph_ok g" by (intro scan_checks True assms(2)) simp
    then show False using assms(1) by simp
  qed
  then obtain e where "scan_edges g (all_edges g) empty_scan = Inl e" by (metis sum.exhaust)
  then show ?thesis using True by (simp add: SolveGoteExitGraph_def)
qed (simp add: SolveGoteExitGraph_def)

text \<open>C14: The solver ends on every graph, and ends without an error exactly when the graph is
  valid: few enough nodes, every child a node or one of the two markers, and in-degrees of 32
  bits.  The queue never underflows a counter.\<close>

theorem SolveGoteExitGraph_terminates:
  assumes "\<forall>x < NodeCount g. EdgeCount g x \<le> kU32Max"
  shows "\<exists>r. SolveGoteExitGraph g = Some r \<and> ((\<exists>sol. r = Inr sol) \<longleftrightarrow> graph_ok g)"
proof (cases "graph_ok g")
  case True
  then show ?thesis using SolveGoteExitGraph_ok by blast
next
  case False
  then show ?thesis using SolveGoteExitGraph_scan_error [OF False assms] by auto
qed

text \<open>C13: On a valid graph the distance of a node is the least number of plies within which Gote
  forces a move out of the book, infinite where it cannot, and the counters agree with it.\<close>

theorem SolveGoteExitGraph_correct:
  assumes "graph_ok g"
  shows "\<exists>sol. SolveGoteExitGraph g = Some (Inr sol) \<and>
    (\<forall>x < NodeCount g. \<forall>k. forced g k x \<longleftrightarrow> distance sol x \<noteq> kExitDistanceInfinite \<and> distance sol x \<le> k) \<and>
    finite_nodes sol = card {x. x < NodeCount g \<and> (\<exists>k. forced g k x)} \<and>
    infinite_nodes sol = card {x. x < NodeCount g \<and> \<not> (\<exists>k. forced g k x)} \<and>
    allowed_internal_edges sol = length (inner g)"
proof -
  have n: "NodeCount g < kExitDisallowed" using assms by (simp add: graph_ok_def)
  obtain sol st D where s: "SolveGoteExitGraph g = Some (Inr sol)" "solver_inv g D (processed g (set (queue st))) st"
    "distance sol = dist st" "allowed_internal_edges sol = length (inner g)"
    "finite_nodes sol = length (queue st)" "infinite_nodes sol = NodeCount g - length (queue st)"
    using SolveGoteExitGraph_ok [OF assms] by blast
  have q: "x \<in> set (queue st) \<longleftrightarrow> dist st x \<noteq> kExitDistanceInfinite" if "x < NodeCount g" for x
    using queue_dist(2) [OF s(2) _ n] s(2) that unfolding solver_inv_def by blast
  note f = forced_iff [OF n s(2)]
  have sub: "set (queue st) \<subseteq> {..<NodeCount g}" "distinct (queue st)" using s(2) by (simp_all add: solver_inv_def)
  have fin: "{x. x < NodeCount g \<and> (\<exists>k. forced g k x)} = set (queue st)" using f sub(1) by auto
  have inf: "{x. x < NodeCount g \<and> \<not> (\<exists>k. forced g k x)} = {..<NodeCount g} - set (queue st)" using f by auto
  have "card ({..<NodeCount g} - set (queue st)) = NodeCount g - length (queue st)"
    using sub by (simp add: card_Diff_subset distinct_card)
  then show ?thesis using s f q fin inf distinct_card [OF sub(2)] by (intro exI [of _ sol]) simp
qed

definition sample_graph :: exit_graph where
  "sample_graph = \<lparr>NodeCount = 2, IsGote = (\<lambda>x. x = 0), EdgeCount = (\<lambda>_. 1),
     EdgeChild = (\<lambda>x e. if x = 0 then 1 else kExitLeaf)\<rparr>"

lemma sample_graph_ok: "graph_ok sample_graph"
  by (simp add: graph_ok_def sample_graph_def edges_of_def all_edges_def kExitDisallowed_def kExitLeaf_def kU32Max_def
      less_2_cases_iff upt_rec [of 0 2] upt_rec [of 1 2])

theorem SolveGoteExitGraph_terminates_witness:
  "\<exists>r. SolveGoteExitGraph sample_graph = Some r \<and> ((\<exists>sol. r = Inr sol) \<longleftrightarrow> graph_ok sample_graph)"
  by (rule SolveGoteExitGraph_terminates) (simp add: sample_graph_def kU32Max_def)

theorem SolveGoteExitGraph_correct_witness:
  "\<exists>sol. SolveGoteExitGraph sample_graph = Some (Inr sol) \<and> distance sol 0 = 2"
proof -
  obtain sol where s: "SolveGoteExitGraph sample_graph = Some (Inr sol)"
    "\<forall>x < NodeCount sample_graph. \<forall>k. forced sample_graph k x \<longleftrightarrow> distance sol x \<noteq> kExitDistanceInfinite \<and> distance sol x \<le> k"
    using SolveGoteExitGraph_correct [OF sample_graph_ok] by blast
  have "forced sample_graph 2 0" "\<not> forced sample_graph 1 0"
    by (simp_all add: numeral_2_eq_2 sample_graph_def edges_of_def kExitLeaf_def kExitDisallowed_def kU32Max_def)
  moreover have "0 < NodeCount sample_graph" by (simp add: sample_graph_def)
  ultimately have "distance sol 0 \<le> 2" "\<not> distance sol 0 \<le> 1" using s(2) by blast+
  then show ?thesis using s(1) by (intro exI [of _ sol]) simp
qed

end
