(* ===== verification/Floats.thy ===== *)
theory Floats
  imports Prelude Complex_Main "HOL-Library.Log_Nat"
begin

text \<open>
  The binary floating-point numbers of the C++ sources.  A finite value is the rational it
  stands for; every operation of the code is the exact operation followed by one rounding to
  nearest, ties to even, in the format of its type: 24 significant bits for \<open>float\<close>, 53 for
  \<open>double\<close>, with gradual underflow.  The two zeros are identified, and operations are taken
  not to be contracted.  Where a value may be an infinity or not-a-number it has the type
  \<open>ieee\<close>, with the arithmetic and comparisons of the standard.
\<close>

subsection \<open>Powers of two and the binary logarithm\<close>

definition pow2 :: "int \<Rightarrow> rat" where
  "pow2 k = (if k \<ge> 0 then 2 ^ nat k else 1 / 2 ^ nat (- k))"

lemma pow2_pos [simp]: "0 < pow2 k"
  by (simp add: pow2_def)

lemma pow2_nonneg [simp]: "0 \<le> pow2 k"
  by (simp add: pow2_def)

lemma pow2_neq0 [simp]: "pow2 k \<noteq> 0"
  by (simp add: pow2_def)

lemma pow2_powi: "pow2 k = 2 powi k"
  by (simp add: pow2_def power_int_def inverse_eq_divide power_divide)

lemma pow2_add: "pow2 (a + b) = pow2 a * pow2 b"
  by (simp add: pow2_powi power_int_add)

lemma pow2_mono: "a \<le> b \<Longrightarrow> pow2 a \<le> pow2 b"
  by (simp add: pow2_powi power_int_increasing)

lemma pow2_less_iff: "pow2 a < pow2 b \<longleftrightarrow> a < b"
  by (metis linorder_not_less order_le_less pow2_mono pow2_powi power_int_strict_increasing one_less_numeral_iff semiring_norm(76))

lemma pow2_nat: "0 \<le> k \<Longrightarrow> pow2 k = of_int (2 ^ nat k)"
  by (simp add: pow2_def)

text \<open>The exponent of the binade of a positive rational.\<close>

definition ilog2 :: "rat \<Rightarrow> int" where
  "ilog2 x =
     (let (n, d) = quotient_of x; k = bitlen n - bitlen d
      in if pow2 k \<le> x then k else k - 1)"

lemma ilog2_bounds:
  assumes "0 < x"
  shows "pow2 (ilog2 x) \<le> x \<and> x < pow2 (ilog2 x + 1)"
proof -
  obtain n d where q: "quotient_of x = (n, d)" by fastforce
  have d: "0 < d" by (rule quotient_of_denom_pos [OF q])
  have x: "x = of_int n / of_int d" by (rule quotient_of_div [OF q])
  have n: "0 < n" using assms d by (simp add: x zero_less_divide_iff)
  have bn: "2 ^ nat (bitlen n - 1) \<le> n \<and> n < 2 ^ nat (bitlen n)" by (rule bitlen_bounds [OF n])
  have bd: "2 ^ nat (bitlen d - 1) \<le> d \<and> d < 2 ^ nat (bitlen d)" by (rule bitlen_bounds [OF d])
  have l: "1 \<le> bitlen k" if "0 < k" for k :: int
    using that bitlen_bounds [of k] by (cases "bitlen k \<le> 0") simp_all
  have ln: "1 \<le> bitlen n" and ld: "1 \<le> bitlen d" using l n d by simp_all
  have p: "pow2 (bitlen n - 1) \<le> of_int n" "of_int n < pow2 (bitlen n)"
    using bn ln by (simp_all only: pow2_nat of_int_le_iff of_int_less_iff)
  have r: "pow2 (bitlen d - 1) \<le> of_int d" "of_int d < pow2 (bitlen d)"
    using bd ld by (simp_all only: pow2_nat of_int_le_iff of_int_less_iff)
  have up: "x < pow2 (bitlen n - bitlen d + 1)"
  proof -
    have "pow2 (bitlen n) = pow2 (bitlen n - bitlen d + 1) * pow2 (bitlen d - 1)"
      by (simp flip: pow2_add)
    moreover have "pow2 (bitlen n - bitlen d + 1) * pow2 (bitlen d - 1) \<le> pow2 (bitlen n - bitlen d + 1) * of_int d"
      using r(1) by (intro mult_left_mono) (simp_all add: less_imp_le)
    ultimately have "of_int n < pow2 (bitlen n - bitlen d + 1) * (of_int d :: rat)" using p(2) by linarith
    then show ?thesis using d by (simp add: x pos_divide_less_eq)
  qed
  have lo: "pow2 (bitlen n - bitlen d - 1) \<le> x"
  proof -
    have "pow2 (bitlen n - 1) = pow2 (bitlen n - bitlen d - 1) * pow2 (bitlen d)"
      by (simp flip: pow2_add)
    moreover have "pow2 (bitlen n - bitlen d - 1) * of_int d \<le> pow2 (bitlen n - bitlen d - 1) * pow2 (bitlen d)"
      using r(2) by (intro mult_left_mono) (simp_all add: less_imp_le)
    ultimately have "pow2 (bitlen n - bitlen d - 1) * of_int d \<le> (of_int n :: rat)" using p(1) by linarith
    then show ?thesis using d by (simp add: x pos_le_divide_eq)
  qed
  show ?thesis using up lo by (auto simp: ilog2_def q Let_def)
qed

lemma ilog2_unique:
  assumes "0 < x" "pow2 k \<le> x" "x < pow2 (k + 1)"
  shows "ilog2 x = k"
proof -
  have a: "pow2 (ilog2 x) < pow2 (k + 1)" using ilog2_bounds [OF assms(1)] assms by linarith
  have b: "pow2 k < pow2 (ilog2 x + 1)" using ilog2_bounds [OF assms(1)] assms by linarith
  show ?thesis using a b by (simp add: pow2_less_iff)
qed

lemma ilog2_mono:
  assumes "0 < x" "x \<le> y"
  shows "ilog2 x \<le> ilog2 y"
proof -
  have "pow2 (ilog2 x) < pow2 (ilog2 y + 1)"
    using ilog2_bounds [of x] ilog2_bounds [of y] assms by linarith
  then show ?thesis by (simp add: pow2_less_iff)
qed

subsection \<open>Rounding\<close>

definition round_even :: "rat \<Rightarrow> int" where
  "round_even q =
     (let f = \<lfloor>q\<rfloor>; r = q - of_int f
      in if r < 1/2 then f else if r > 1/2 then f + 1 else if even f then f else f + 1)"

definition rnd :: "int \<Rightarrow> int \<Rightarrow> rat \<Rightarrow> rat" where
  "rnd p emin x =
     (if x = 0 then 0
      else let e = max (ilog2 \<bar>x\<bar> - (p - 1)) emin in of_int (round_even (x / pow2 e)) * pow2 e)"

definition f32 :: "rat \<Rightarrow> rat" where "f32 = rnd 24 (-149)"
definition f64 :: "rat \<Rightarrow> rat" where "f64 = rnd 53 (-1074)"

lemma round_even_int [simp]: "round_even (of_int n) = n"
  by (simp add: round_even_def)

lemma round_even_near: "\<lfloor>q\<rfloor> \<le> round_even q \<and> round_even q \<le> \<lfloor>q\<rfloor> + 1"
  by (simp add: round_even_def Let_def)

lemma round_even_mono:
  assumes "x \<le> y"
  shows "round_even x \<le> round_even y"
proof (cases "\<lfloor>x\<rfloor> = \<lfloor>y\<rfloor>")
  case True
  then show ?thesis using assms by (simp add: round_even_def Let_def)
next
  case False
  then have "\<lfloor>x\<rfloor> + 1 \<le> \<lfloor>y\<rfloor>" using floor_mono [OF assms] by linarith
  then show ?thesis using round_even_near [of x] round_even_near [of y] by linarith
qed

lemma round_even_ge: "of_int n \<le> q \<Longrightarrow> n \<le> round_even q"
  using round_even_mono [of "of_int n" q] by simp

lemma round_even_le: "q \<le> of_int n \<Longrightarrow> round_even q \<le> n"
  using round_even_mono [of q "of_int n"] by simp

lemma round_even_minus: "round_even (- q) = - round_even q"
proof (cases "q = of_int \<lfloor>q\<rfloor>")
  case True
  then have "round_even (- q) = round_even (of_int (- \<lfloor>q\<rfloor>))" by simp
  also have "\<dots> = - round_even (of_int \<lfloor>q\<rfloor>)" by (simp only: round_even_int)
  finally show ?thesis using True by simp
next
  case False
  define f where "f = \<lfloor>q\<rfloor>"
  have b: "of_int f < q" "q < of_int f + 1"
    using False of_int_floor_le [of q] floor_correct [of q] unfolding f_def by linarith+
  have "\<lfloor>- q\<rfloor> = - f - 1" using b by (simp add: floor_eq_iff)
  then show ?thesis using b by (auto simp: round_even_def Let_def f_def [symmetric])
qed

lemma rnd_0 [simp]: "rnd p emin 0 = 0"
  by (simp add: rnd_def)

lemma rnd_minus: "rnd p emin (- x) = - rnd p emin x"
  by (simp add: rnd_def Let_def round_even_minus)

lemma rnd_nonneg:
  assumes "0 \<le> x"
  shows "0 \<le> rnd p emin x"
proof (cases "x = 0")
  case False
  define e where "e = max (ilog2 \<bar>x\<bar> - (p - 1)) emin"
  have "0 \<le> x / pow2 e" using assms by (simp add: less_imp_le)
  then have "0 \<le> round_even (x / pow2 e)" using round_even_ge [of 0] by simp
  then show ?thesis using False by (simp add: rnd_def e_def [symmetric] less_imp_le)
qed simp

lemma rnd_mono_pos:
  assumes "0 < x" "x \<le> y" "0 < p"
  shows "rnd p emin x \<le> rnd p emin y"
proof -
  define ex ey where "ex = max (ilog2 x - (p - 1)) emin" and "ey = max (ilog2 y - (p - 1)) emin"
  have y: "0 < y" using assms by simp
  have rx: "rnd p emin x = of_int (round_even (x / pow2 ex)) * pow2 ex" using assms by (simp add: rnd_def ex_def Let_def)
  have ry: "rnd p emin y = of_int (round_even (y / pow2 ey)) * pow2 ey" using y by (simp add: rnd_def ey_def Let_def)
  have le: "ex \<le> ey" using ilog2_mono [OF assms(1,2)] by (simp add: ex_def ey_def)
  show ?thesis
  proof (cases "ex = ey")
    case True
    have "round_even (x / pow2 ex) \<le> round_even (y / pow2 ex)"
      using assms by (intro round_even_mono divide_right_mono) (simp_all add: less_imp_le)
    then show ?thesis by (simp add: rx ry True mult_right_mono)
  next
    case False
    then have lt: "ex < ey" using le by simp
    have ey: "ey = ilog2 y - (p - 1)"
    proof -
      have "emin \<le> ex" by (simp add: ex_def)
      then show ?thesis using lt by (simp add: ey_def max_def split: if_splits)
    qed
    have p1: "0 \<le> p - 1" and p0: "0 \<le> p" using assms(3) by simp_all
    have "pow2 (ey + (p - 1)) \<le> y" using ilog2_bounds [OF y] by (simp add: ey)
    then have "pow2 (p - 1) \<le> y / pow2 ey" by (simp add: pow2_add pos_le_divide_eq mult.commute)
    then have "2 ^ nat (p - 1) \<le> round_even (y / pow2 ey)" using p1 by (intro round_even_ge) (simp add: pow2_nat)
    then have "of_int (2 ^ nat (p - 1)) \<le> (of_int (round_even (y / pow2 ey)) :: rat)" by (simp only: of_int_le_iff)
    then have "pow2 (p - 1) \<le> of_int (round_even (y / pow2 ey))" using p1 by (simp add: pow2_nat)
    then have "pow2 (p - 1) * pow2 ey \<le> rnd p emin y" unfolding ry by (rule mult_right_mono) (simp add: less_imp_le)
    then have yy: "pow2 (p - 1 + ey) \<le> rnd p emin y" by (simp add: pow2_add)
    have "x < pow2 (ilog2 x + 1)" using ilog2_bounds [OF assms(1)] by simp
    also have "\<dots> \<le> pow2 (ex + p)" by (rule pow2_mono) (simp add: ex_def)
    finally have "x / pow2 ex \<le> pow2 p" by (simp add: pow2_add pos_divide_le_eq mult.commute less_imp_le)
    then have "round_even (x / pow2 ex) \<le> 2 ^ nat p" using p0 by (intro round_even_le) (simp add: pow2_nat)
    then have "(of_int (round_even (x / pow2 ex)) :: rat) \<le> of_int (2 ^ nat p)" by (simp only: of_int_le_iff)
    then have "of_int (round_even (x / pow2 ex)) \<le> pow2 p" using p0 by (simp add: pow2_nat)
    then have "rnd p emin x \<le> pow2 p * pow2 ex" unfolding rx by (rule mult_right_mono) (simp add: less_imp_le)
    also have "\<dots> = pow2 (p + ex)" by (simp add: pow2_add)
    also have "\<dots> \<le> pow2 (p - 1 + ey)" using lt by (intro pow2_mono) simp
    finally show ?thesis using yy by linarith
  qed
qed

lemma rnd_mono:
  assumes "x \<le> y" "0 < p"
  shows "rnd p emin x \<le> rnd p emin y"
proof -
  consider "0 < x" | "x \<le> 0" "0 \<le> y" | "y < 0" by linarith
  then show ?thesis
  proof cases
    case 1 then show ?thesis using assms by (rule rnd_mono_pos)
  next
    case 2
    have "0 \<le> rnd p emin (- x)" using 2 by (intro rnd_nonneg) simp
    then show ?thesis using rnd_nonneg [OF 2(2)] by (simp add: rnd_minus order_trans)
  next
    case 3
    have "rnd p emin (- y) \<le> rnd p emin (- x)" using assms 3 by (intro rnd_mono_pos) simp_all
    then show ?thesis by (simp add: rnd_minus)
  qed
qed

text \<open>Integers of at most \<open>p\<close> bits are represented exactly.\<close>

lemma rnd_int:
  assumes n: "\<bar>n\<bar> < 2 ^ nat p" and e: "emin \<le> 0" and p: "0 < p"
  shows "rnd p emin (of_int n) = of_int n"
proof (cases "n = 0")
  case False
  define x :: rat where "x = \<bar>of_int n\<bar>"
  define e where "e = max (ilog2 x - (p - 1)) emin"
  have x: "0 < x" using False by (simp add: x_def)
  have "x = of_int \<bar>n\<bar>" by (simp add: x_def)
  also have "\<dots> < of_int (2 ^ nat p)" using n by (simp only: of_int_less_iff)
  also have "\<dots> = pow2 p" using p by (simp add: pow2_nat)
  finally have "x < pow2 p" .
  then have "pow2 (ilog2 x) < pow2 p" using ilog2_bounds [OF x] by linarith
  then have "e \<le> 0" using assms(2) by (simp add: e_def pow2_less_iff)
  then have "of_int n / pow2 e = (of_int (n * 2 ^ nat (- e)) :: rat)" by (simp add: pow2_def)
  then have "round_even (of_int n / pow2 e) = n * 2 ^ nat (- e)" by (metis round_even_int)
  moreover have "(of_int (n * 2 ^ nat (- e)) :: rat) * pow2 e = of_int n"
    using \<open>e \<le> 0\<close> by (simp add: pow2_def)
  ultimately show ?thesis using False by (simp add: rnd_def e_def [symmetric] x_def [symmetric])
qed simp

lemma rnd_pow2:
  assumes "emin \<le> k" "0 < p"
  shows "rnd p emin (pow2 k) = pow2 k"
proof -
  have l: "ilog2 (pow2 k) = k" by (rule ilog2_unique) (simp_all add: pow2_mono pow2_less_iff)
  define e where "e = max (k - (p - 1)) emin"
  have e: "e \<le> k" using assms by (simp add: e_def)
  then have d: "pow2 k / pow2 e = of_int (2 ^ nat (k - e))"
    using pow2_add [of "k - e" e] by (simp add: pow2_nat)
  have "round_even (pow2 k / pow2 e) = 2 ^ nat (k - e)" unfolding d by (rule round_even_int)
  moreover have "of_int (2 ^ nat (k - e)) * pow2 e = pow2 k" using pow2_add [of "k - e" e] e by (simp add: pow2_nat)
  ultimately show ?thesis
    by (simp add: rnd_def l e_def [symmetric] abs_of_pos)
qed

lemma round_even_error: "\<bar>of_int (round_even q) - q\<bar> \<le> 1/2"
proof -
  have "of_int \<lfloor>q\<rfloor> \<le> q" "q < of_int \<lfloor>q\<rfloor> + 1" by linarith+
  then show ?thesis by (auto simp: round_even_def Let_def abs_le_iff)
qed

text \<open>The error is at most half a unit in the last place.\<close>

lemma rnd_error:
  assumes "\<bar>x\<bar> \<le> pow2 k" "emin + p \<le> k" "0 < p"
  shows "\<bar>rnd p emin x - x\<bar> \<le> pow2 (k - p)"
proof (cases "x = 0")
  case False
  define e where "e = max (ilog2 \<bar>x\<bar> - (p - 1)) emin"
  have x: "0 < \<bar>x\<bar>" using False by simp
  have "pow2 (ilog2 \<bar>x\<bar>) \<le> pow2 k" using ilog2_bounds [OF x] assms by linarith
  then have "ilog2 \<bar>x\<bar> \<le> k" using pow2_less_iff [of k "ilog2 \<bar>x\<bar>"] by linarith
  then have e: "e \<le> k - p + 1" using assms by (simp add: e_def)
  define q where "q = x / pow2 e"
  have q: "x = q * pow2 e" by (simp add: q_def)
  have "rnd p emin x = of_int (round_even q) * pow2 e" using False by (simp add: rnd_def Let_def e_def q_def)
  then have "rnd p emin x - x = (of_int (round_even q) - q) * pow2 e" using q by (metis left_diff_distrib)
  then have "\<bar>rnd p emin x - x\<bar> = \<bar>of_int (round_even q) - q\<bar> * pow2 e" by (simp add: abs_mult abs_of_pos)
  also have "\<dots> \<le> 1/2 * pow2 (k - p + 1)" using round_even_error e by (intro mult_mono pow2_mono) simp_all
  also have "\<dots> = pow2 (k - p)" by (simp add: pow2_add pow2_nat)
  finally show ?thesis .
qed simp

lemma f32_error: "\<bar>x\<bar> \<le> pow2 k \<Longrightarrow> -125 \<le> k \<Longrightarrow> \<bar>f32 x - x\<bar> \<le> pow2 (k - 24)"
  unfolding f32_def by (rule rnd_error) simp_all

lemma f64_mono: "x \<le> y \<Longrightarrow> f64 x \<le> f64 y"
  by (simp add: f64_def rnd_mono)

lemma f32_mono: "x \<le> y \<Longrightarrow> f32 x \<le> f32 y"
  by (simp add: f32_def rnd_mono)

lemma f64_int: "\<bar>n\<bar> < 2 ^ 53 \<Longrightarrow> f64 (of_int n) = of_int n"
  unfolding f64_def by (rule rnd_int) simp_all

lemma f32_int: "\<bar>n\<bar> < 2 ^ 24 \<Longrightarrow> f32 (of_int n) = of_int n"
  unfolding f32_def by (rule rnd_int) simp_all

lemma f64_nonneg: "0 \<le> x \<Longrightarrow> 0 \<le> f64 x"
  by (simp add: f64_def rnd_nonneg)

lemma f32_nonneg: "0 \<le> x \<Longrightarrow> 0 \<le> f32 x"
  by (simp add: f32_def rnd_nonneg)

lemma f64_le_int: "x \<le> of_int n \<Longrightarrow> \<bar>n\<bar> < 2 ^ 53 \<Longrightarrow> f64 x \<le> of_int n"
  using f64_mono [of x "of_int n"] by (simp only: f64_int)

lemma f64_ge_int: "of_int n \<le> x \<Longrightarrow> \<bar>n\<bar> < 2 ^ 53 \<Longrightarrow> of_int n \<le> f64 x"
  using f64_mono [of "of_int n" x] by (simp only: f64_int)

lemma f32_le_pow2: "x \<le> pow2 k \<Longrightarrow> -149 \<le> k \<Longrightarrow> f32 x \<le> pow2 k"
  using rnd_mono [of x "pow2 k" 24 "-149"] rnd_pow2 [of "-149" k 24] by (simp add: f32_def)

lemma f32_le_int: "x \<le> of_int n \<Longrightarrow> \<bar>n\<bar> < 2 ^ 24 \<Longrightarrow> f32 x \<le> of_int n"
  using f32_mono [of x "of_int n"] by (simp only: f32_int)

subsection \<open>Conversions to integers\<close>

text \<open>Conversion truncates towards zero, \<open>std::lround\<close> rounds half away from zero.\<close>

definition trunc :: "rat \<Rightarrow> int" where
  "trunc x = (if x \<ge> 0 then \<lfloor>x\<rfloor> else \<lceil>x\<rceil>)"

definition lround :: "rat \<Rightarrow> int" where
  "lround x = (if x \<ge> 0 then \<lfloor>x + 1/2\<rfloor> else \<lceil>x - 1/2\<rceil>)"

lemma lround_bounds: "of_int a \<le> x \<Longrightarrow> x \<le> of_int b \<Longrightarrow> a \<le> lround x \<and> lround x \<le> b"
  by (auto simp: lround_def le_floor_iff floor_le_iff ceiling_le_iff le_ceiling_iff)

lemma trunc_bounds: "0 \<le> x \<Longrightarrow> x \<le> of_int b \<Longrightarrow> 0 \<le> trunc x \<and> trunc x \<le> b"
  by (auto simp: trunc_def floor_le_iff)

subsection \<open>Single precision with infinities and not-a-number\<close>

datatype ieee = Fin rat | Inf bool | NaN

text \<open>The flag of an infinity is its sign, true when negative.\<close>

definition isfinite :: "ieee \<Rightarrow> bool" where
  "isfinite x \<longleftrightarrow> (case x of Fin _ \<Rightarrow> True | _ \<Rightarrow> False)"

lemma isfinite_simps [simp]: "isfinite (Fin x)" "\<not> isfinite (Inf s)" "\<not> isfinite NaN"
  by (simp_all add: isfinite_def)

text \<open>Rounding overflows to an infinity from the first power of two beyond the format.\<close>

definition fin32 :: "rat \<Rightarrow> ieee" where
  "fin32 x = (let r = f32 x in if \<bar>r\<bar> \<ge> 2 ^ 128 then Inf (r < 0) else Fin r)"

fun fneg :: "ieee \<Rightarrow> ieee" where
  "fneg (Fin x) = Fin (- x)"
| "fneg (Inf s) = Inf (\<not> s)"
| "fneg NaN = NaN"

fun fadd :: "ieee \<Rightarrow> ieee \<Rightarrow> ieee" where
  "fadd (Fin x) (Fin y) = fin32 (x + y)"
| "fadd (Inf s) (Inf t) = (if s = t then Inf s else NaN)"
| "fadd (Inf s) (Fin _) = Inf s"
| "fadd (Fin _) (Inf s) = Inf s"
| "fadd NaN _ = NaN"
| "fadd _ NaN = NaN"

definition fsub :: "ieee \<Rightarrow> ieee \<Rightarrow> ieee" where
  "fsub x y = fadd x (fneg y)"

fun fmul :: "ieee \<Rightarrow> ieee \<Rightarrow> ieee" where
  "fmul (Fin x) (Fin y) = fin32 (x * y)"
| "fmul (Inf s) (Inf t) = Inf (s \<noteq> t)"
| "fmul (Inf s) (Fin y) = (if y = 0 then NaN else Inf (s \<noteq> (y < 0)))"
| "fmul (Fin x) (Inf t) = (if x = 0 then NaN else Inf (t \<noteq> (x < 0)))"
| "fmul NaN _ = NaN"
| "fmul _ NaN = NaN"

fun fdiv :: "ieee \<Rightarrow> ieee \<Rightarrow> ieee" where
  "fdiv (Fin x) (Fin y) = (if y = 0 then (if x = 0 then NaN else Inf (x < 0)) else fin32 (x / y))"
| "fdiv (Inf s) (Inf t) = NaN"
| "fdiv (Inf s) (Fin y) = Inf (s \<noteq> (y < 0))"
| "fdiv (Fin x) (Inf t) = Fin 0"
| "fdiv NaN _ = NaN"
| "fdiv _ NaN = NaN"

fun fless :: "ieee \<Rightarrow> ieee \<Rightarrow> bool" where
  "fless (Fin x) (Fin y) \<longleftrightarrow> x < y"
| "fless (Inf s) (Inf t) \<longleftrightarrow> s \<and> \<not> t"
| "fless (Inf s) (Fin _) \<longleftrightarrow> s"
| "fless (Fin _) (Inf t) \<longleftrightarrow> \<not> t"
| "fless NaN _ \<longleftrightarrow> False"
| "fless _ NaN \<longleftrightarrow> False"

text \<open>\<open>std::max\<close> returns its first argument unless that is less.\<close>

definition fmax :: "ieee \<Rightarrow> ieee \<Rightarrow> ieee" where
  "fmax x y = (if fless x y then y else x)"

text \<open>The correctly rounded square root: an integer root of the scaled value with more bits than
  the format has, and one sticky bit for a remainder.\<close>

fun isqrt_bits :: "nat \<Rightarrow> nat \<Rightarrow> nat \<Rightarrow> nat" where
  "isqrt_bits 0 n r = r"
| "isqrt_bits (Suc k) n r = isqrt_bits k n (if (r + 2 ^ k) * (r + 2 ^ k) \<le> n then r + 2 ^ k else r)"

definition sqrt_rat :: "rat \<Rightarrow> rat" where
  "sqrt_rat x =
     (let k = nat (32 - ilog2 x div 2); n = nat \<lfloor>x * 4 ^ k\<rfloor>; r = isqrt_bits 96 n 0;
          sticky = (if of_nat (r * r) = x * 4 ^ k then 0 else 1/2)
      in (of_nat r + sticky) / 2 ^ k)"

fun fsqrt :: "ieee \<Rightarrow> ieee" where
  "fsqrt (Fin x) = (if x < 0 then NaN else if x = 0 then Fin 0 else fin32 (sqrt_rat x))"
| "fsqrt (Inf s) = (if s then NaN else Inf False)"
| "fsqrt NaN = NaN"

text \<open>Integers converted to \<open>float\<close>.\<close>

definition ffloat :: "int \<Rightarrow> ieee" where
  "ffloat n = fin32 (of_int n)"

lemma fless_irrefl: "\<not> fless x x"
  by (cases x) simp_all

lemma fless_trans: "fless x y \<Longrightarrow> fless y z \<Longrightarrow> fless x z"
  by (cases x; cases y; cases z) auto

lemma fless_not_less: "x \<noteq> NaN \<Longrightarrow> y \<noteq> NaN \<Longrightarrow> \<not> fless x y \<Longrightarrow> fless y x \<or> x = y"
  by (cases x; cases y) auto

end
