(* ===== verification/TimeManagement.thy ===== *)
theory TimeManagement
  imports Floats "HOL-Library.Signed_Division"
begin

text \<open>
  The clock policy of usi/time\_manager.h and usi/time\_manager.cc: the budget computed from the
  \<open>go\<close> command and the options, and the controller that decides during the search whether to
  stop.  The C++ \<open>int\<close> fields are integers, with the one narrowing cast of the source written
  out; the \<open>float\<close> and \<open>double\<close> expressions round after every operation (theory Floats).
\<close>

subsection \<open>Control, options and budget\<close>

datatype time_mode = kOff | kShadow | kOn

datatype stop_reason = kNone | kProven | kEarlyDominant | kTargetStable | kExtensionStable | kLatest
  | kLegacyLimit | kNodeLimit | kExternal | kTreeFull

record time_control =
  main_time_ms :: int
  increment_ms :: int
  byoyomi_ms :: int
  move_time_ms :: int
  game_ply :: int
  has_main_time :: bool
  has_explicit_nodes :: bool
  infinite_search :: bool
  ponder :: bool

record time_options =
  max_move_time_ms :: int
  max_move_time_1m_ms :: int
  move_overhead_ms :: int
  max_extension_percent :: int
  option_mode :: time_mode

record time_budget =
  mode :: time_mode
  mcts_time_seconds :: rat
  active_move_cap_ms :: int
  hard_deadline_ms :: int
  earliest_stop_ms :: int
  target_stop_ms :: int
  latest_search_ms :: int
  root_guard_deadline_ms :: int
  response_deadline_ms :: int
  allow_early_stop :: bool
  allow_extension :: bool

definition empty_budget :: time_budget where
  "empty_budget = \<lparr>mode = kOff, mcts_time_seconds = 0, active_move_cap_ms = 0, hard_deadline_ms = 0,
     earliest_stop_ms = 0, target_stop_ms = 0, latest_search_ms = 0, root_guard_deadline_ms = 0,
     response_deadline_ms = 0, allow_early_stop = False, allow_extension = False\<rparr>"

definition HasAdaptiveDeadline :: "time_budget \<Rightarrow> bool" where
  "HasAdaptiveDeadline b \<longleftrightarrow> target_stop_ms b > 0 \<and> latest_search_ms b > 0"

fun TimeManagementModeName :: "time_mode \<Rightarrow> string" where
  "TimeManagementModeName kOff = ''off''"
| "TimeManagementModeName kShadow = ''shadow''"
| "TimeManagementModeName kOn = ''on''"

fun TimeStopReasonName :: "stop_reason \<Rightarrow> string" where
  "TimeStopReasonName kNone = ''none''"
| "TimeStopReasonName kProven = ''proven''"
| "TimeStopReasonName kEarlyDominant = ''early_dominant''"
| "TimeStopReasonName kTargetStable = ''target_stable''"
| "TimeStopReasonName kExtensionStable = ''extension_stable''"
| "TimeStopReasonName kLatest = ''latest''"
| "TimeStopReasonName kLegacyLimit = ''legacy_limit''"
| "TimeStopReasonName kNodeLimit = ''node_limit''"
| "TimeStopReasonName kExternal = ''external''"
| "TimeStopReasonName kTreeFull = ''tree_full''"

subsection \<open>The budget\<close>

definition clamp :: "'a::linorder \<Rightarrow> 'a \<Rightarrow> 'a \<Rightarrow> 'a" where
  "clamp x lo hi = (if x < lo then lo else if hi < x then hi else x)"

definition ActiveMoveCap :: "time_control \<Rightarrow> time_options \<Rightarrow> int" where
  "ActiveMoveCap control options =
     (if max_move_time_1m_ms options > 0 \<and> main_time_ms control > 0 \<and> main_time_ms control < 60000
      then max_move_time_1m_ms options else max_move_time_ms options)"

text \<open>The nominal search duration before the cap, and the budget without adaptive deadlines.\<close>

definition legacy_seconds :: "time_control \<Rightarrow> time_options \<Rightarrow> rat" where
  "legacy_seconds control options =
     (if move_time_ms control > 0 then
        f32 (f32 (of_int (max (move_time_ms control - move_overhead_ms options) 1)) / 1000)
      else if byoyomi_ms control > 0 then
        f32 (f32 (f32 (of_int (byoyomi_ms control)) / 1000) * f32 (9/10))
      else if has_main_time control then
        max (f32 (f32 (f32 (f32 (of_int (main_time_ms control)) * f32 (5/100)) +
                       f32 (f32 (of_int (increment_ms control)) * f32 (8/10))) / 1000))
            (f32 (1/10))
      else 0)"

definition ComputeLegacy :: "time_control \<Rightarrow> time_options \<Rightarrow> time_budget" where
  "ComputeLegacy control options =
     (let secs = legacy_seconds control options;
          cap = ActiveMoveCap control options;
          secs = (if move_time_ms control > 0 then secs
                  else if cap > 0 then
                    let cap_seconds = max (f32 (f32 (f32 (of_int cap) / 1000) - f32 (1/2))) (f32 (1/2))
                    in if secs \<le> 0 \<or> cap_seconds < secs then cap_seconds else secs
                  else secs);
          hard = (if move_time_ms control > 0 then move_time_ms control
                  else if cap > 0 then cap
                  else if secs > 0 then trunc (f32 (secs * 1000)) + 2000
                  else 0)
      in empty_budget\<lparr>mcts_time_seconds := secs, active_move_cap_ms := cap, hard_deadline_ms := hard\<rparr>)"

definition PhaseDivisor :: "int \<Rightarrow> rat" where
  "PhaseDivisor ply =
     (let opening = clamp (f64 (f64 (40 - of_int (max ply 0)) / 40)) 0 1
      in f64 (14 + f64 (26 * opening)))"

definition response_time :: "time_control \<Rightarrow> int \<Rightarrow> int \<Rightarrow> int" where
  "response_time control overhead cap =
     (let r = (if move_time_ms control > 0 then max (move_time_ms control - overhead) 1
               else if main_time_ms control > 0 \<or> byoyomi_ms control > 0 then
                 max (main_time_ms control + byoyomi_ms control - overhead) 1
               else if has_main_time control then 1
               else 0)
      in if cap > 0 then
           let capped = max (cap - overhead) 1 in if r > 0 then min r capped else capped
         else r)"

definition allocated_time :: "time_control \<Rightarrow> int \<Rightarrow> int" where
  "allocated_time control overhead =
     (let main_budget = f64 (f64 (of_int (main_time_ms control) / PhaseDivisor (game_ply control)) +
                             f64 (f64 (8/10) * of_int (increment_ms control)));
          byoyomi_floor = max (byoyomi_ms control - overhead) 0
      in lround (max main_budget (of_int byoyomi_floor)))"

definition target_time :: "time_control \<Rightarrow> int \<Rightarrow> bool \<Rightarrow> bool \<Rightarrow> int \<Rightarrow> int" where
  "target_time control overhead pure_byoyomi cap_only response =
     (if move_time_ms control > 0 then response
      else if pure_byoyomi \<or> cap_only then response
      else min (max (allocated_time control overhead) 100) response)"

definition to_int32 :: "int \<Rightarrow> int" where
  "to_int32 x = signed_take_bit 31 x"

definition latest_time :: "time_control \<Rightarrow> time_options \<Rightarrow> bool \<Rightarrow> int \<Rightarrow> int \<Rightarrow> int" where
  "latest_time control options may_extend target response =
     (let percent = clamp (max_extension_percent options) 100 300;
          percent = (if main_time_ms control < 60000 then min percent 125 else percent);
          percent = (if \<not> may_extend then 100 else percent)
      in clamp (to_int32 ((target * percent) sdiv 100)) target response)"

definition Compute :: "time_control \<Rightarrow> time_options \<Rightarrow> time_budget" where
  "Compute control options =
     (let budget = (ComputeLegacy control options)\<lparr>mode := option_mode options\<rparr> in
      if infinite_search control then budget\<lparr>mcts_time_seconds := 0, hard_deadline_ms := 0\<rparr>
      else if option_mode options = kOff \<or> ponder control then budget
      else
        let overhead = clamp (move_overhead_ms options) 0 5000;
            cap = ActiveMoveCap control options;
            pure_byoyomi = (byoyomi_ms control > 0 \<and> \<not> has_main_time control \<and> increment_ms control \<le> 0);
            response = response_time control overhead cap
        in if response \<le> 0 then budget
           else
             let cap_only = (cap > 0 \<and> move_time_ms control \<le> 0 \<and> \<not> has_main_time control \<and>
                             main_time_ms control \<le> 0 \<and> byoyomi_ms control \<le> 0);
                 target = target_time control overhead pure_byoyomi cap_only response;
                 byoyomi_floor = max (byoyomi_ms control - overhead) 0;
                 earliest = min (max 100 (max (target sdiv 10) byoyomi_floor)) target;
                 may_extend = (move_time_ms control \<le> 0 \<and> \<not> pure_byoyomi \<and> has_main_time control \<and>
                           main_time_ms control \<ge> 10000 \<and> \<not> has_explicit_nodes control);
                 latest = latest_time control options may_extend target response;
                 budget = budget\<lparr>earliest_stop_ms := (if pure_byoyomi then target else earliest),
                   target_stop_ms := target, latest_search_ms := latest,
                   response_deadline_ms := response, root_guard_deadline_ms := response,
                   allow_early_stop := (\<not> pure_byoyomi \<and> \<not> cap_only \<and> move_time_ms control \<le> 0 \<and>
                     main_time_ms control > 0 \<and> \<not> has_explicit_nodes control),
                   allow_extension := (may_extend \<and> latest > target)\<rparr>
             in if option_mode options = kOn
                then budget\<lparr>mcts_time_seconds := f32 (f32 (of_int latest) / 1000), hard_deadline_ms := response\<rparr>
                else budget)"

subsection \<open>The controller\<close>

record root_snapshot =
  elapsed_ms :: int
  new_playouts :: int
  best_index :: int
  second_index :: int
  best_visits :: int
  second_visits :: int
  best_q :: rat
  second_q :: rat
  best_proven :: bool

record time_decision =
  should_stop :: bool
  extension_active :: bool
  reason :: stop_reason
  effective_deadline_ms :: int
  best_changes :: int
  stable_ms :: int
  projected_remaining :: int
  snapshot :: root_snapshot

record time_controller =
  budget :: time_budget
  in_flight_playouts :: int
  last_best_index :: int
  last_best_change_ms :: int
  last_sample_ms :: int
  last_sample_playouts :: int
  ema_nps :: rat
  extension_deadline_ms :: int
  decision :: time_decision

definition empty_snapshot :: root_snapshot where
  "empty_snapshot = \<lparr>elapsed_ms = 0, new_playouts = 0, best_index = -1, second_index = -1,
     best_visits = 0, second_visits = 0, best_q = 1/2, second_q = 1/2, best_proven = False\<rparr>"

definition empty_decision :: time_decision where
  "empty_decision = \<lparr>should_stop = False, extension_active = False, reason = kNone,
     effective_deadline_ms = 0, best_changes = 0, stable_ms = 0, projected_remaining = 0,
     snapshot = empty_snapshot\<rparr>"

definition Reset :: "time_budget \<Rightarrow> int \<Rightarrow> time_controller" where
  "Reset b in_flight = \<lparr>budget = b, in_flight_playouts = max in_flight 0, last_best_index = -1,
     last_best_change_ms = 0, last_sample_ms = 0, last_sample_playouts = 0, ema_nps = 0,
     extension_deadline_ms = 0, decision = empty_decision\<lparr>effective_deadline_ms := target_stop_ms b\<rparr>\<rparr>"

definition ProjectRemaining :: "root_snapshot \<Rightarrow> int \<Rightarrow> time_controller \<Rightarrow> int \<times> time_controller" where
  "ProjectRemaining s deadline c =
     (let elapsed = max (elapsed_ms s) 1;
          whole_nps = f64 (f64 (f64 (of_int (new_playouts s)) * 1000) / of_int elapsed);
          recent_nps =
            (if last_sample_ms c > 0 \<and> elapsed_ms s > last_sample_ms c \<and> new_playouts s \<ge> last_sample_playouts c
             then f64 (f64 (f64 (of_int (new_playouts s - last_sample_playouts c)) * 1000) /
                       of_int (elapsed_ms s - last_sample_ms c))
             else whole_nps);
          ema = (if ema_nps c \<le> 0 then recent_nps
                 else f64 (f64 (3/4 * ema_nps c) + f64 (1/4 * recent_nps)));
          c = c\<lparr>ema_nps := ema, last_sample_ms := elapsed_ms s, last_sample_playouts := new_playouts s\<rparr>;
          upper_nps = max whole_nps (max recent_nps (max ema 0));
          remaining_ms = max (deadline - elapsed_ms s) 0
      in (\<lceil>f64 (f64 (f64 (f64 (12/10) * upper_nps) * of_int remaining_ms) / 1000)\<rceil> + in_flight_playouts c, c))"

definition q_margin :: rat where "q_margin = f32 (2/100)"

definition StableAndDominant :: "root_snapshot \<Rightarrow> int \<Rightarrow> int \<Rightarrow> rat \<Rightarrow> time_controller \<Rightarrow> bool \<times> time_controller" where
  "StableAndDominant s deadline required q_tolerance c =
     (let (projected, c) = ProjectRemaining s deadline c;
          stable = max (elapsed_ms s - last_best_change_ms c) 0;
          c = c\<lparr>decision := (decision c)\<lparr>projected_remaining := projected, stable_ms := stable\<rparr>\<rparr>;
          gap = best_visits s - second_visits s
      in (best_index s \<ge> 0 \<and> stable \<ge> required \<and> gap > projected \<and>
          best_q s \<ge> f32 (second_q s - q_tolerance), c))"

text \<open>A stop with its reason and deadline.\<close>

definition stop_with :: "stop_reason \<Rightarrow> int \<Rightarrow> time_controller \<Rightarrow> time_controller" where
  "stop_with r deadline c =
     c\<lparr>decision := (decision c)\<lparr>should_stop := True, reason := r, effective_deadline_ms := deadline\<rparr>\<rparr>"

text \<open>The bookkeeping at the head of an update: the snapshot and the best move's stability.\<close>

definition track_best :: "root_snapshot \<Rightarrow> time_controller \<Rightarrow> time_controller" where
  "track_best s c =
     (let c = (if best_index s \<noteq> last_best_index c then
                 c\<lparr>decision := (decision c)\<lparr>best_changes := best_changes (decision c) +
                     (if last_best_index c \<ge> 0 then 1 else 0)\<rparr>,
                   last_best_index := best_index s, last_best_change_ms := elapsed_ms s\<rparr>
               else c)
      in c\<lparr>decision := (decision c)\<lparr>stable_ms := max (elapsed_ms s - last_best_change_ms c) 0\<rparr>\<rparr>)"

text \<open>After the target: the extension is opened once, with a stop instead when nothing is at stake.\<close>

definition open_extension :: "root_snapshot \<Rightarrow> int \<Rightarrow> time_controller \<Rightarrow> time_controller" where
  "open_extension s stable_required c =
     (if extension_deadline_ms c = 0 then
        let q_inversion = f32 (best_q s + q_margin) < second_q s;
            recent_change = stable_ms (decision c) < stable_required;
            ratio = f64 (f64 (of_int (best_visits s)) / f64 (of_int (max (second_visits s) 1)));
            (projected_latest, c) = ProjectRemaining s (latest_search_ms (budget c)) c;
            catchable = best_visits s - second_visits s \<le> projected_latest;
            visit_pressure = ratio < 3/2 \<or> catchable
        in if \<not> q_inversion \<and> \<not> recent_change \<and> \<not> visit_pressure
           then stop_with kTargetStable (target_stop_ms (budget c)) c
           else
             let ext = (if q_inversion \<or> recent_change then latest_search_ms (budget c)
                        else target_stop_ms (budget c) +
                             (latest_search_ms (budget c) - target_stop_ms (budget c)) sdiv 2)
             in c\<lparr>extension_deadline_ms := ext,
                  decision := (decision c)\<lparr>extension_active := True, effective_deadline_ms := ext\<rparr>\<rparr>
      else c)"

definition within_extension :: "root_snapshot \<Rightarrow> int \<Rightarrow> time_controller \<Rightarrow> time_controller" where
  "within_extension s stable_required c =
     (if elapsed_ms s \<ge> extension_deadline_ms c
      then c\<lparr>decision := (decision c)\<lparr>should_stop := True, reason := kLatest\<rparr>\<rparr>
      else
        let (stop, c) = StableAndDominant s (extension_deadline_ms c) stable_required q_margin c
        in if stop then stop_with kExtensionStable (elapsed_ms s) c else c)"

definition after_early :: "root_snapshot \<Rightarrow> int \<Rightarrow> time_controller \<Rightarrow> time_controller" where
  "after_early s stable_required c =
     (if elapsed_ms s < target_stop_ms (budget c) then c
      else if \<not> allow_extension (budget c) \<or> latest_search_ms (budget c) \<le> target_stop_ms (budget c)
      then stop_with kTargetStable (target_stop_ms (budget c)) c
      else
        let c = open_extension s stable_required c
        in if should_stop (decision c) then c else within_extension s stable_required c)"

definition Update :: "root_snapshot \<Rightarrow> time_controller \<Rightarrow> time_controller" where
  "Update s c =
     (let c = c\<lparr>decision := (decision c)\<lparr>snapshot := s\<rparr>\<rparr> in
      if \<not> HasAdaptiveDeadline (budget c) \<or> should_stop (decision c) then c
      else
        let c = track_best s c in
        if best_proven s then stop_with kProven (elapsed_ms s) c
        else
          let stable_required = max 200 (target_stop_ms (budget c) sdiv 10) in
          if allow_early_stop (budget c) \<and> elapsed_ms s \<ge> earliest_stop_ms (budget c) \<and>
             elapsed_ms s < target_stop_ms (budget c)
          then
            let (stop, c) = StableAndDominant s (target_stop_ms (budget c)) stable_required q_margin c
            in if stop then stop_with kEarlyDominant (elapsed_ms s) c
               else after_early s stable_required c
          else after_early s stable_required c)"

subsection \<open>The budget keeps within the clock\<close>

text \<open>What the clock leaves for the move: the fixed time, else main time and byoyomi.\<close>

definition clock_left :: "time_control \<Rightarrow> int" where
  "clock_left control =
     (if move_time_ms control > 0 then move_time_ms control
      else max (main_time_ms control + byoyomi_ms control) 0)"

definition overhead_of :: "time_options \<Rightarrow> int" where
  "overhead_of options = clamp (move_overhead_ms options) 0 5000"

lemma clamp_bounds: "lo \<le> hi \<Longrightarrow> lo \<le> clamp x lo hi \<and> clamp x lo hi \<le> hi"
  by (auto simp: clamp_def)

lemma response_time_bounds:
  assumes "0 \<le> overhead"
  shows "response_time control overhead cap \<ge> 0"
    and "move_time_ms control > 0 \<or> main_time_ms control > 0 \<or> byoyomi_ms control > 0 \<or> has_main_time control \<Longrightarrow>
         response_time control overhead cap \<le> max (clock_left control - overhead) 1"
    and "cap > 0 \<Longrightarrow> response_time control overhead cap \<le> max (cap - overhead) 1"
  using assms by (auto simp: response_time_def clock_left_def Let_def)

lemma target_time_bounds:
  "0 < response \<Longrightarrow> 0 < target_time control overhead pb co response \<and>
     target_time control overhead pb co response \<le> response"
  by (auto simp: target_time_def Let_def)

lemma latest_time_bounds:
  "target \<le> response \<Longrightarrow> target \<le> latest_time control options e target response \<and>
     latest_time control options e target response \<le> response"
  unfolding latest_time_def Let_def by (rule clamp_bounds)

lemma ComputeLegacy_sel:
  "target_stop_ms (ComputeLegacy control options) = 0"
  "latest_search_ms (ComputeLegacy control options) = 0"
  "response_deadline_ms (ComputeLegacy control options) = 0"
  by (simp_all add: ComputeLegacy_def empty_budget_def Let_def)

text \<open>The adaptive part of the budget, once there is a response time.\<close>

lemma Compute_plan:
  assumes "target_stop_ms (Compute control options) > 0"
  obtains overhead cap pb co e response target latest where
    "overhead = overhead_of options" "cap = ActiveMoveCap control options"
    "response = response_time control overhead cap" "response > 0"
    "target = target_time control overhead pb co response"
    "latest = latest_time control options e target response"
    "target_stop_ms (Compute control options) = target"
    "latest_search_ms (Compute control options) = latest"
    "response_deadline_ms (Compute control options) = response"
    "0 < earliest_stop_ms (Compute control options) \<and> earliest_stop_ms (Compute control options) \<le> target"
    "option_mode options = kOn \<longrightarrow> hard_deadline_ms (Compute control options) = response \<and>
       mcts_time_seconds (Compute control options) = f32 (f32 (of_int latest) / 1000)"
    "allow_extension (Compute control options) \<longrightarrow> target < latest"
proof -
  define overhead where "overhead = clamp (move_overhead_ms options) 0 5000"
  define cap where "cap = ActiveMoveCap control options"
  define response where "response = response_time control overhead cap"
  define pb where "pb \<longleftrightarrow> byoyomi_ms control > 0 \<and> \<not> has_main_time control \<and> increment_ms control \<le> 0"
  define co where "co \<longleftrightarrow> cap > 0 \<and> move_time_ms control \<le> 0 \<and> \<not> has_main_time control \<and>
    main_time_ms control \<le> 0 \<and> byoyomi_ms control \<le> 0"
  define e where "e \<longleftrightarrow> move_time_ms control \<le> 0 \<and> \<not> pb \<and> has_main_time control \<and>
    main_time_ms control \<ge> 10000 \<and> \<not> has_explicit_nodes control"
  define target where "target = target_time control overhead pb co response"
  define latest where "latest = latest_time control options e target response"
  define early where "early = (if pb then target
    else min (max 100 (max (target sdiv 10) (max (byoyomi_ms control - overhead) 0))) target)"
  define plan where "plan = (ComputeLegacy control options)\<lparr>mode := option_mode options,
     earliest_stop_ms := early, target_stop_ms := target, latest_search_ms := latest,
     response_deadline_ms := response, root_guard_deadline_ms := response,
     allow_early_stop := (\<not> pb \<and> \<not> co \<and> move_time_ms control \<le> 0 \<and>
       main_time_ms control > 0 \<and> \<not> has_explicit_nodes control),
     allow_extension := (e \<and> latest > target)\<rparr>"
  have c: "\<not> infinite_search control" "\<not> (option_mode options = kOff \<or> ponder control)" "\<not> response \<le> 0"
    using assms by (auto simp: Compute_def ComputeLegacy_sel Let_def overhead_def cap_def response_def split: if_splits)
  have eq: "Compute control options = (if option_mode options = kOn
      then plan\<lparr>mcts_time_seconds := f32 (f32 (of_int latest) / 1000), hard_deadline_ms := response\<rparr> else plan)"
    unfolding Compute_def Let_def
    by (simp only: c if_False simp_thms plan_def early_def latest_def target_def e_def co_def pb_def
        flip: overhead_def cap_def response_def)
  have r: "0 < response" using c by simp
  have t: "0 < target" "target \<le> response" unfolding target_def using target_time_bounds [OF r] by blast+
  have early: "0 < early \<and> early \<le> target" using t by (auto simp: early_def)
  show thesis
    by (rule that [of overhead cap response target pb co latest e])
      (use r early in \<open>auto simp: eq plan_def overhead_of_def overhead_def cap_def response_def target_def latest_def\<close>)
qed

text \<open>C24: In every adaptive budget the four deadlines are ordered, positive, and within what the
  clock and the option cap leave after the communication overhead; in mode \<open>on\<close> the watchdog is
  the response deadline itself, and an extension is only allowed when it lies beyond the target.\<close>

theorem Compute_deadlines:
  assumes "target_stop_ms (Compute control options) > 0"
  shows "0 < earliest_stop_ms (Compute control options) \<and>
    earliest_stop_ms (Compute control options) \<le> target_stop_ms (Compute control options) \<and>
    target_stop_ms (Compute control options) \<le> latest_search_ms (Compute control options) \<and>
    latest_search_ms (Compute control options) \<le> response_deadline_ms (Compute control options) \<and>
    (move_time_ms control > 0 \<or> main_time_ms control > 0 \<or> byoyomi_ms control > 0 \<or> has_main_time control \<longrightarrow>
       response_deadline_ms (Compute control options) \<le> max (clock_left control - overhead_of options) 1) \<and>
    (ActiveMoveCap control options > 0 \<longrightarrow>
       response_deadline_ms (Compute control options) \<le> max (ActiveMoveCap control options - overhead_of options) 1) \<and>
    (option_mode options = kOn \<longrightarrow>
       hard_deadline_ms (Compute control options) = response_deadline_ms (Compute control options)) \<and>
    (allow_extension (Compute control options) \<longrightarrow>
       target_stop_ms (Compute control options) < latest_search_ms (Compute control options))"
proof -
  obtain overhead cap pb co e response target latest where p:
    "overhead = overhead_of options" "cap = ActiveMoveCap control options"
    "response = response_time control overhead cap" "response > 0"
    "target = target_time control overhead pb co response"
    "latest = latest_time control options e target response"
    "target_stop_ms (Compute control options) = target"
    "latest_search_ms (Compute control options) = latest"
    "response_deadline_ms (Compute control options) = response"
    "0 < earliest_stop_ms (Compute control options) \<and> earliest_stop_ms (Compute control options) \<le> target"
    "option_mode options = kOn \<longrightarrow> hard_deadline_ms (Compute control options) = response \<and>
       mcts_time_seconds (Compute control options) = f32 (f32 (of_int latest) / 1000)"
    "allow_extension (Compute control options) \<longrightarrow> target < latest"
    by (rule Compute_plan [OF assms])
  have o: "0 \<le> overhead" using clamp_bounds [of 0 5000 "move_overhead_ms options"] by (simp add: p(1) overhead_of_def)
  have t: "target \<le> response" using target_time_bounds [OF p(4), of control overhead pb co] by (simp add: p(5))
  show ?thesis
    using p(7-12) response_time_bounds [OF o, where control = control and cap = cap]
      latest_time_bounds [OF t, where control = control and options = options and e = e]
    by (simp add: p(1-3,6))
qed

text \<open>Five minutes and ten seconds of byoyomi at move 60: the plan is the one the code computes.\<close>

definition sample_control :: time_control where
  "sample_control = \<lparr>main_time_ms = 300000, increment_ms = 0, byoyomi_ms = 10000, move_time_ms = 0,
     game_ply = 60, has_main_time = True, has_explicit_nodes = False, infinite_search = False, ponder = False\<rparr>"

definition sample_options :: time_options where
  "sample_options = \<lparr>max_move_time_ms = 20000, max_move_time_1m_ms = 0, move_overhead_ms = 100,
     max_extension_percent = 175, option_mode = kOn\<rparr>"

lemma sample_plan:
  "target_stop_ms (Compute sample_control sample_options) = 19900 \<and>
   earliest_stop_ms (Compute sample_control sample_options) = 9900 \<and>
   latest_search_ms (Compute sample_control sample_options) = 19900"
  by code_simp

theorem Compute_deadlines_witness:
  "latest_search_ms (Compute sample_control sample_options) \<le> response_deadline_ms (Compute sample_control sample_options) \<and>
   response_deadline_ms (Compute sample_control sample_options) \<le> 19900"
  using Compute_deadlines [of sample_control sample_options] sample_plan
  by (simp add: ActiveMoveCap_def overhead_of_def clamp_def sample_control_def sample_options_def)

subsection \<open>No overflow\<close>

definition clock_in_range :: "time_control \<Rightarrow> time_options \<Rightarrow> bool" where
  "clock_in_range control options \<longleftrightarrow>
     main_time_ms control \<in> {0..2 ^ 28} \<and> increment_ms control \<in> {0..2 ^ 28} \<and>
     byoyomi_ms control \<in> {0..2 ^ 28} \<and> move_time_ms control \<in> {0..2 ^ 28} \<and>
     max_move_time_ms options \<in> {0..2 ^ 28} \<and> max_move_time_1m_ms options \<in> {0..2 ^ 28} \<and>
     move_overhead_ms options \<in> {0..2 ^ 28}"

lemma PhaseDivisor_ge: "14 \<le> PhaseDivisor ply"
proof -
  have "0 \<le> clamp (f64 (f64 (40 - of_int (max ply 0)) / 40)) 0 (1::rat)" by (auto simp: clamp_def)
  then have "0 \<le> f64 (26 * clamp (f64 (f64 (40 - of_int (max ply 0)) / 40)) 0 1)" by (intro f64_nonneg) simp
  then show ?thesis unfolding PhaseDivisor_def Let_def using f64_ge_int [of 14] by simp
qed

lemma allocated_time_bounds:
  assumes "clock_in_range control options" "0 \<le> overhead"
  shows "0 \<le> allocated_time control overhead \<and> allocated_time control overhead \<le> 2 ^ 29"
proof -
  define m where "m = main_time_ms control"
  define i where "i = increment_ms control"
  define pd where "pd = PhaseDivisor (game_ply control)"
  have m: "0 \<le> m" "m \<le> 2 ^ 28" and i: "0 \<le> i" "i \<le> 2 ^ 28" and b: "byoyomi_ms control \<le> 2 ^ 28"
    using assms by (simp_all add: clock_in_range_def m_def i_def)
  have "of_int m / pd \<le> of_int m / 14"
    using m PhaseDivisor_ge [of "game_ply control"] by (intro divide_left_mono) (simp_all add: pd_def)
  also have "\<dots> \<le> of_int (2 ^ 25)" using m by simp
  finally have a: "f64 (of_int m / pd) \<le> of_int (2 ^ 25)" by (rule f64_le_int) simp
  have a0: "0 \<le> f64 (of_int m / pd)"
    using m PhaseDivisor_ge [of "game_ply control"] by (intro f64_nonneg divide_nonneg_nonneg) (simp_all add: pd_def)
  have c: "f64 (8/10) \<le> 1" using f64_le_int [of "8/10" 1] by simp
  have "f64 (8/10) * of_int i \<le> of_int i" using c i by (simp add: mult_left_le_one_le f64_nonneg)
  also have "\<dots> \<le> of_int (2 ^ 28)" using i by (simp only: of_int_le_iff)
  finally have d: "f64 (f64 (8/10) * of_int i) \<le> of_int (2 ^ 28)" by (rule f64_le_int) simp
  have d0: "0 \<le> f64 (f64 (8/10) * of_int i)" using i by (intro f64_nonneg mult_nonneg_nonneg) simp_all
  have s: "f64 (f64 (of_int m / pd) + f64 (f64 (8/10) * of_int i)) \<le> of_int (2 ^ 29)"
    using a d by (intro f64_le_int) simp_all
  show ?thesis unfolding allocated_time_def Let_def
    using b assms(2) s by (intro lround_bounds) (simp_all add: max_def flip: m_def i_def pd_def)
qed

text \<open>A duration in milliseconds, converted to seconds in single precision.\<close>

lemma seconds_bounds:
  assumes "0 \<le> x" "x \<le> pow2 29"
  shows "0 \<le> f32 (f32 x / 1000) \<and> f32 (f32 x / 1000) \<le> 536871"
proof -
  have "f32 x \<le> pow2 29" using assms by (intro f32_le_pow2) simp_all
  then have "f32 x / 1000 \<le> of_int 536871" by (simp add: pow2_def)
  from f32_le_int [OF this] show ?thesis using assms by (simp add: f32_nonneg)
qed

lemma f32_scale_bounds:
  assumes "0 \<le> c" "c \<le> 1" "0 \<le> x" "x \<le> y" "f32 y = y"
  shows "0 \<le> f32 (x * f32 c) \<and> f32 (x * f32 c) \<le> y"
proof -
  have c: "0 \<le> f32 c" "f32 c \<le> 1" using assms f32_le_int [of c 1] by (simp_all add: f32_nonneg)
  have "x * f32 c \<le> x" using c assms by (simp add: mult_left_le)
  then have "x * f32 c \<le> y" using assms by simp
  then show ?thesis using f32_mono [of "x * f32 c" y] assms c by (simp add: f32_nonneg)
qed

lemma pow2_28: "pow2 28 = of_int (2 ^ 28)" "pow2 29 = 2 * of_int (2 ^ 28)"
  by (simp_all add: pow2_def)

lemma f32_fixed: "f32 (pow2 28) = pow2 28" "f32 536871 = 536871"
  using rnd_pow2 [of "-149" 28 24] f32_int [of 536871] by (simp_all add: f32_def)

lemma legacy_seconds_bounds:
  assumes "clock_in_range control options"
  shows "0 \<le> legacy_seconds control options \<and> legacy_seconds control options \<le> 536871"
proof -
  have r: "0 \<le> f32 (of_int n) \<and> f32 (of_int n) \<le> pow2 28" if "0 \<le> n" "n \<le> 2 ^ 28" for n
  proof -
    have "of_int n \<le> pow2 28" using that(2) unfolding pow2_28 by (simp only: of_int_le_iff)
    then show ?thesis using that by (simp add: f32_nonneg f32_le_pow2)
  qed
  have s: "0 \<le> f32 (f32 (of_int n) / 1000) \<and> f32 (f32 (of_int n) / 1000) \<le> 536871" if "0 \<le> n" "n \<le> 2 ^ 28" for n
  proof -
    have "of_int n \<le> pow2 28" using that(2) unfolding pow2_28 by (simp only: of_int_le_iff)
    then have "of_int n \<le> pow2 29" using pow2_mono [of 28 29] by linarith
    then show ?thesis using that(1) by (intro seconds_bounds) simp_all
  qed
  have t: "f32 (1/10) \<le> 1" "0 \<le> f32 (1/10)" using f32_le_int [of "1/10" 1] by (simp_all add: f32_nonneg)
  show ?thesis
  proof (cases "move_time_ms control > 0 \<or> byoyomi_ms control > 0")
    case True
    then show ?thesis
      using assms s [of "max (move_time_ms control - move_overhead_ms options) 1"] s [of "byoyomi_ms control"]
        f32_scale_bounds [of "9/10" "f32 (f32 (of_int (byoyomi_ms control)) / 1000)" 536871]
      by (auto simp: legacy_seconds_def clock_in_range_def f32_fixed)
  next
    case False
    define a where "a = f32 (f32 (of_int (main_time_ms control)) * f32 (5/100))"
    define b where "b = f32 (f32 (of_int (increment_ms control)) * f32 (8/10))"
    have a: "0 \<le> a" "a \<le> pow2 28" unfolding a_def
      using f32_scale_bounds [of "5/100" "f32 (of_int (main_time_ms control))" "pow2 28"] assms r
      by (simp_all add: clock_in_range_def f32_fixed)
    have b: "0 \<le> b" "b \<le> pow2 28" unfolding b_def
      using f32_scale_bounds [of "8/10" "f32 (of_int (increment_ms control))" "pow2 28"] assms r
      by (simp_all add: clock_in_range_def f32_fixed)
    have "0 \<le> f32 (f32 (a + b) / 1000) \<and> f32 (f32 (a + b) / 1000) \<le> 536871"
      using a b by (intro seconds_bounds) (simp_all add: pow2_28)
    then show ?thesis using False t unfolding legacy_seconds_def a_def b_def by (auto simp: le_max_iff_disj)
  qed
qed

lemma ComputeLegacy_bounds:
  assumes "clock_in_range control options"
  shows "0 \<le> mcts_time_seconds (ComputeLegacy control options) \<and>
    mcts_time_seconds (ComputeLegacy control options) \<le> 536871 \<and>
    0 \<le> hard_deadline_ms (ComputeLegacy control options) \<and>
    hard_deadline_ms (ComputeLegacy control options) < 2 ^ 31"
proof -
  define secs where "secs = legacy_seconds control options"
  define cap where "cap = ActiveMoveCap control options"
  define caps where "caps = max (f32 (f32 (f32 (of_int cap) / 1000) - f32 (1/2))) (f32 (1/2))"
  have secs: "0 \<le> secs" "secs \<le> 536871" unfolding secs_def using legacy_seconds_bounds [OF assms] by blast+
  have cap: "0 \<le> cap" "cap \<le> 2 ^ 28" using assms by (auto simp: cap_def ActiveMoveCap_def clock_in_range_def)
  have h: "0 \<le> f32 (1/2)" "f32 (1/2) \<le> 1" using f32_le_int [of "1/2" 1] by (simp_all add: f32_nonneg)
  have caps: "0 \<le> caps" "caps \<le> 536871"
  proof -
    show "0 \<le> caps" using h by (simp add: caps_def le_max_iff_disj)
    have "of_int cap \<le> pow2 28" using cap(2) unfolding pow2_28 by (simp only: of_int_le_iff)
    then have "of_int cap \<le> pow2 29" using pow2_mono [of 28 29] by linarith
    then have "f32 (f32 (of_int cap) / 1000) \<le> 536871" using cap by (simp add: seconds_bounds)
    then have "f32 (f32 (f32 (of_int cap) / 1000) - f32 (1/2)) \<le> 536871"
      using f32_le_int [of "f32 (f32 (of_int cap) / 1000) - f32 (1/2)" 536871] h by simp
    then show "caps \<le> 536871" using h by (simp add: caps_def)
  qed
  have t: "0 \<le> trunc (f32 (x * 1000)) \<and> trunc (f32 (x * 1000)) \<le> 2 ^ 30" if "0 \<le> x" "x \<le> 536871" for x
  proof -
    have "f32 (x * 1000) \<le> pow2 30" using that by (intro f32_le_pow2) (simp_all add: pow2_def)
    then show ?thesis using that by (intro trunc_bounds) (simp_all add: f32_nonneg pow2_def)
  qed
  show ?thesis
    using secs caps cap t [OF secs] t [OF caps] assms
    by (simp add: ComputeLegacy_def empty_budget_def Let_def clock_in_range_def
        flip: secs_def cap_def caps_def)
qed

lemma clamp_percent: "100 \<le> clamp x 100 (300::int) \<and> clamp x 100 300 \<le> 300"
  by (rule clamp_bounds) simp

text \<open>C25: For clocks, caps and overheads up to about three days no conversion of the budget leaves
  the 32-bit range: the watchdog of the nominal budget, the rounded allocation, and the product
  that scales the target, whose cast to \<open>int\<close> is then the identity.\<close>

theorem Compute_no_overflow:
  assumes "clock_in_range control options"
  shows "0 \<le> hard_deadline_ms (ComputeLegacy control options) \<and>
    hard_deadline_ms (ComputeLegacy control options) < 2 ^ 31 \<and>
    0 \<le> allocated_time control (overhead_of options) \<and>
    allocated_time control (overhead_of options) < 2 ^ 31 \<and>
    0 \<le> response_time control (overhead_of options) (ActiveMoveCap control options) \<and>
    response_time control (overhead_of options) (ActiveMoveCap control options) < 2 ^ 30 \<and>
    (\<forall>percent \<in> {100..300}. \<forall>target \<in> {0..2 ^ 29}. to_int32 ((target * percent) sdiv 100) = target * percent div 100)"
proof -
  have o: "0 \<le> overhead_of options" using clamp_bounds [of 0 5000 "move_overhead_ms options"] by (simp add: overhead_of_def)
  have s: "to_int32 ((target * percent) sdiv 100) = target * percent div 100"
    if "percent \<in> {100..300}" "target \<in> {0..2 ^ 29}" for percent target
  proof -
    have "target * percent \<le> 2 ^ 29 * 300" using that by (intro mult_mono) simp_all
    moreover have "0 \<le> target * percent" using that by simp
    moreover have "(target * percent) sdiv 100 = target * percent div 100"
      using \<open>0 \<le> target * percent\<close> by (simp add: signed_divide_int_def sgn_if)
    ultimately show ?thesis unfolding to_int32_def by (subst signed_take_bit_int_eq_self) simp_all
  qed
  have m: "main_time_ms control \<le> 2 ^ 28" "byoyomi_ms control \<le> 2 ^ 28" "move_time_ms control \<le> 2 ^ 28"
    "ActiveMoveCap control options \<le> 2 ^ 28"
    using assms by (auto simp: clock_in_range_def ActiveMoveCap_def)
  then have "response_time control (overhead_of options) (ActiveMoveCap control options) < 2 ^ 30"
    using o by (auto simp: response_time_def Let_def)
  then show ?thesis
    using ComputeLegacy_bounds [OF assms] allocated_time_bounds [OF assms o] response_time_bounds(1) [OF o] s
    by (auto dest: order_le_less_trans)
qed

theorem Compute_no_overflow_witness:
  "hard_deadline_ms (ComputeLegacy sample_control sample_options) < 2 ^ 31 \<and>
   to_int32 ((19900 * 175) sdiv 100) = 34825"
proof -
  have "clock_in_range sample_control sample_options"
    by (simp add: clock_in_range_def sample_control_def sample_options_def)
  note c = Compute_no_overflow [OF this]
  have "\<forall>target \<in> {0..2 ^ 29}. to_int32 ((target * 175) sdiv 100) = target * 175 div 100"
    using c by (elim conjE) (erule bspec, simp)
  then have "to_int32 ((19900 * 175) sdiv 100) = 19900 * 175 div 100" by (rule bspec) simp
  then show ?thesis using c by simp
qed

subsection \<open>The controller stops in time, and only with a reason\<close>

definition controller_run :: "time_budget \<Rightarrow> int \<Rightarrow> root_snapshot list \<Rightarrow> time_controller" where
  "controller_run b in_flight ss = fold Update ss (Reset b in_flight)"

definition stable_required :: "time_budget \<Rightarrow> int" where
  "stable_required b = max 200 (target_stop_ms b sdiv 10)"

text \<open>When the best move of the last snapshot became the best: at the first snapshot of the run of
  snapshots up to the last one that show it. A controller that has never seen a best move counts
  from the start of the search.\<close>

definition best_change :: "root_snapshot list \<Rightarrow> int" where
  "best_change hist =
     (let shows = (\<lambda>p. best_index p = best_index (last hist)); run = takeWhile shows (rev hist)
      in if best_index (last hist) = -1 \<and> length run = length hist then 0 else elapsed_ms (last run))"

definition stable_time :: "root_snapshot list \<Rightarrow> int" where
  "stable_time hist = max (elapsed_ms (last hist) - best_change hist) 0"

text \<open>A lead the runner-up cannot make up before the deadline, even at 1.2 times the average rate of
  the search so far and with every playout in flight.\<close>

definition catch_up :: "int \<Rightarrow> int \<Rightarrow> root_snapshot \<Rightarrow> int" where
  "catch_up in_flight deadline s =
     \<lceil>f64 (f64 (f64 (f64 (12/10) * max (f64 (f64 (f64 (of_int (new_playouts s)) * 1000) / of_int (max (elapsed_ms s) 1))) 0) *
       of_int (max (deadline - elapsed_ms s) 0)) / 1000)\<rceil> + max in_flight 0"

definition lead_safe :: "int \<Rightarrow> int \<Rightarrow> root_snapshot \<Rightarrow> bool" where
  "lead_safe in_flight deadline s \<longleftrightarrow> catch_up in_flight deadline s < best_visits s - second_visits s"

text \<open>A best move that has been stable for long enough and is not worse than the runner-up, and the
  two signs of trouble that grant the whole extension.\<close>

definition settled :: "time_budget \<Rightarrow> int \<Rightarrow> root_snapshot \<Rightarrow> bool" where
  "settled b calm s \<longleftrightarrow> 0 \<le> best_index s \<and> stable_required b \<le> calm \<and> f32 (second_q s - q_margin) \<le> best_q s"

definition uneasy :: "time_budget \<Rightarrow> int \<Rightarrow> root_snapshot \<Rightarrow> bool" where
  "uneasy b calm s \<longleftrightarrow> f32 (best_q s + q_margin) < second_q s \<or> calm < stable_required b"

text \<open>The extended deadline, fixed by the first snapshot that reaches the target.\<close>

definition granted :: "time_budget \<Rightarrow> root_snapshot list \<Rightarrow> int" where
  "granted b hist =
     (let k = length (takeWhile (\<lambda>p. elapsed_ms p < target_stop_ms b) hist)
      in if uneasy b (stable_time (take (Suc k) hist)) (hist ! k) then latest_search_ms b
         else target_stop_ms b + (latest_search_ms b - target_stop_ms b) div 2)"

definition extendable :: "time_budget \<Rightarrow> bool" where
  "extendable b \<longleftrightarrow> allow_extension b \<and> target_stop_ms b < latest_search_ms b"

text \<open>Snapshots that leave no choice: a proven best move, the target of a budget that cannot be
  extended, the deadline of one that can.\<close>

definition stop_due :: "time_budget \<Rightarrow> root_snapshot list \<Rightarrow> root_snapshot \<Rightarrow> bool" where
  "stop_due b hist s \<longleftrightarrow> best_proven s \<or>
     target_stop_ms b \<le> elapsed_ms s \<and> (\<not> extendable b \<or> granted b (hist @ [s]) \<le> elapsed_ms s)"

text \<open>Why a search was stopped at a snapshot, after the snapshots seen before it.\<close>

definition stop_justified :: "time_budget \<Rightarrow> int \<Rightarrow> stop_reason \<Rightarrow> root_snapshot list \<Rightarrow> root_snapshot \<Rightarrow> bool" where
  "stop_justified b in_flight r hist s \<longleftrightarrow>
     (let calm = stable_time (hist @ [s]); deadline = granted b (hist @ [s]);
          extends = extendable b
      in case r of
        kProven \<Rightarrow> best_proven s
      | kEarlyDominant \<Rightarrow> \<not> best_proven s \<and> allow_early_stop b \<and> earliest_stop_ms b \<le> elapsed_ms s \<and>
          elapsed_ms s < target_stop_ms b \<and> settled b calm s \<and> lead_safe in_flight (target_stop_ms b) s
      | kTargetStable \<Rightarrow> \<not> best_proven s \<and> target_stop_ms b \<le> elapsed_ms s \<and>
          (\<not> extends \<or> (\<forall>p \<in> set hist. elapsed_ms p < target_stop_ms b) \<and> \<not> uneasy b calm s \<and>
             3/2 \<le> f64 (f64 (of_int (best_visits s)) / f64 (of_int (max (second_visits s) 1))) \<and>
             lead_safe in_flight (latest_search_ms b) s)
      | kExtensionStable \<Rightarrow> \<not> best_proven s \<and> extends \<and> target_stop_ms b \<le> elapsed_ms s \<and>
          elapsed_ms s < deadline \<and> settled b calm s \<and> lead_safe in_flight deadline s
      | kLatest \<Rightarrow> \<not> best_proven s \<and> extends \<and> target_stop_ms b \<le> elapsed_ms s \<and> deadline \<le> elapsed_ms s
      | _ \<Rightarrow> False)"

subsubsection \<open>The history\<close>

lemma best_change_snoc:
  "best_change (hist @ [s]) = (if hist \<noteq> [] \<and> best_index s = best_index (last hist) then best_change hist
     else if hist = [] \<and> best_index s = -1 then 0 else elapsed_ms s)"
proof (cases hist rule: rev_cases)
  case (snoc ys q)
  then show ?thesis by (cases "best_index s = best_index q") (auto simp: best_change_def Let_def)
qed (simp add: best_change_def)

lemma granted_snoc:
  assumes "\<not> (\<forall>p \<in> set hist. elapsed_ms p < target_stop_ms b)"
  shows "granted b (hist @ [s]) = granted b hist"
proof -
  let ?P = "\<lambda>p. elapsed_ms p < target_stop_ms b"
  have tw: "takeWhile ?P (hist @ [s]) = takeWhile ?P hist" using assms by (auto intro: takeWhile_append1)
  have "length (takeWhile ?P hist) < length hist"
    using assms by (metis length_takeWhile_le le_neq_implies_less takeWhile_eq_all_conv takeWhile_eq_take take_all_iff order_refl)
  then show ?thesis by (simp add: granted_def tw nth_append)
qed

lemma granted_first:
  assumes "\<forall>p \<in> set hist. elapsed_ms p < target_stop_ms b" and "target_stop_ms b \<le> elapsed_ms s"
  shows "granted b (hist @ [s]) = (if uneasy b (stable_time (hist @ [s])) s then latest_search_ms b
     else target_stop_ms b + (latest_search_ms b - target_stop_ms b) div 2)"
proof -
  have "takeWhile (\<lambda>p. elapsed_ms p < target_stop_ms b) (hist @ [s]) = hist"
    using assms by (subst takeWhile_append2) auto
  then show ?thesis by (simp add: granted_def)
qed

lemma granted_bounds:
  "target_stop_ms b \<le> latest_search_ms b \<Longrightarrow> target_stop_ms b \<le> granted b hist \<and> granted b hist \<le> latest_search_ms b"
  by (auto simp: granted_def Let_def)

subsubsection \<open>The steps of an update\<close>

text \<open>The parts of the controller the projection leaves alone.\<close>

definition same_state :: "time_controller \<Rightarrow> time_controller \<Rightarrow> bool" where
  "same_state c c' \<longleftrightarrow> budget c' = budget c \<and> in_flight_playouts c' = in_flight_playouts c \<and>
     last_best_index c' = last_best_index c \<and> last_best_change_ms c' = last_best_change_ms c \<and>
     extension_deadline_ms c' = extension_deadline_ms c \<and>
     should_stop (decision c') = should_stop (decision c) \<and> reason (decision c') = reason (decision c)"

lemma ProjectRemaining_snd: "same_state c (snd (ProjectRemaining s d c)) \<and> decision (snd (ProjectRemaining s d c)) = decision c"
  unfolding ProjectRemaining_def Let_def snd_conv same_state_def by simp

lemma projection_mono:
  assumes "u \<le> v" "0 \<le> r"
  shows "\<lceil>f64 (f64 (f64 (f64 (12/10) * u) * of_int r) / 1000)\<rceil> \<le> \<lceil>f64 (f64 (f64 (f64 (12/10) * v) * of_int r) / 1000)\<rceil>"
  using assms by (intro ceiling_mono f64_mono divide_right_mono mult_right_mono mult_left_mono f64_nonneg) simp_all

lemma ProjectRemaining_fst:
  "in_flight_playouts c = max n 0 \<Longrightarrow> catch_up n d s \<le> fst (ProjectRemaining s d c)"
proof -
  assume n: "in_flight_playouts c = max n 0"
  have m: "max w 0 \<le> max w (max r (max e 0))" for w r e :: rat by simp
  have z: "0 \<le> max (d - elapsed_ms s) 0" by simp
  show ?thesis
    unfolding ProjectRemaining_def Let_def fst_conv catch_up_def n [symmetric]
    by (rule add_mono [OF projection_mono [OF m z]]) simp
qed

lemma StableAndDominant_facts:
  fixes s :: root_snapshot and d r :: int
  assumes "in_flight_playouts c = max n 0"
  defines "x \<equiv> StableAndDominant s d r q_margin c"
  shows "same_state c (snd x)" "stable_ms (decision (snd x)) = max (elapsed_ms s - last_best_change_ms c) 0"
    "fst x \<Longrightarrow> 0 \<le> best_index s \<and> r \<le> max (elapsed_ms s - last_best_change_ms c) 0 \<and>
       f32 (second_q s - q_margin) \<le> best_q s \<and> lead_safe n d s"
proof -
  obtain p c' where pr: "ProjectRemaining s d c = (p, c')" by (rule prod.exhaust)
  have same: "same_state c c'" using ProjectRemaining_snd [of c s d] pr by simp
  have p: "catch_up n d s \<le> p" using ProjectRemaining_fst [OF assms(1), of d s] pr by simp
  show "same_state c (snd x)" "stable_ms (decision (snd x)) = max (elapsed_ms s - last_best_change_ms c) 0"
    using same by (simp_all add: x_def StableAndDominant_def pr Let_def same_state_def)
  show "fst x \<Longrightarrow> 0 \<le> best_index s \<and> r \<le> max (elapsed_ms s - last_best_change_ms c) 0 \<and>
       f32 (second_q s - q_margin) \<le> best_q s \<and> lead_safe n d s"
    using same p by (simp add: x_def StableAndDominant_def pr Let_def same_state_def lead_safe_def)
qed

lemma stop_with_sel [simp]:
  "budget (stop_with r d c) = budget c" "in_flight_playouts (stop_with r d c) = in_flight_playouts c"
  "extension_deadline_ms (stop_with r d c) = extension_deadline_ms c"
  "should_stop (decision (stop_with r d c))" "reason (decision (stop_with r d c)) = r"
  by (simp_all add: stop_with_def)

lemma half_extension: "t \<le> (l::int) \<Longrightarrow> (l - t) sdiv 2 = (l - t) div 2"
  by (simp add: signed_divide_int_def sgn_if)

text \<open>The controller after the snapshots \<open>hist\<close>, none of which stopped it.\<close>

definition running :: "time_budget \<Rightarrow> int \<Rightarrow> root_snapshot list \<Rightarrow> time_controller \<Rightarrow> bool" where
  "running b n hist c \<longleftrightarrow> budget c = b \<and> in_flight_playouts c = max n 0 \<and>
     \<not> should_stop (decision c) \<and> reason (decision c) = kNone \<and>
     last_best_index c = (if hist = [] then -1 else best_index (last hist)) \<and>
     last_best_change_ms c = (if hist = [] then 0 else best_change hist) \<and>
     extension_deadline_ms c = (if \<forall>p \<in> set hist. elapsed_ms p < target_stop_ms b then 0 else granted b hist)"

text \<open>The controller inside the update for \<open>s\<close>, once the best move is tracked.\<close>

definition updating :: "time_budget \<Rightarrow> int \<Rightarrow> root_snapshot list \<Rightarrow> root_snapshot \<Rightarrow> time_controller \<Rightarrow> bool" where
  "updating b n hist s c \<longleftrightarrow> budget c = b \<and> in_flight_playouts c = max n 0 \<and>
     \<not> should_stop (decision c) \<and> reason (decision c) = kNone \<and>
     last_best_index c = best_index s \<and> last_best_change_ms c = best_change (hist @ [s]) \<and>
     stable_ms (decision c) = stable_time (hist @ [s]) \<and>
     extension_deadline_ms c = (if \<forall>p \<in> set hist. elapsed_ms p < target_stop_ms b then 0 else granted b hist)"

definition outcome :: "time_budget \<Rightarrow> int \<Rightarrow> root_snapshot list \<Rightarrow> root_snapshot \<Rightarrow> time_controller \<Rightarrow> bool" where
  "outcome b n hist s c \<longleftrightarrow>
     (if should_stop (decision c) then stop_justified b n (reason (decision c)) hist s else running b n (hist @ [s]) c \<and> \<not> stop_due b hist s) \<and>
     (latest_search_ms b \<le> elapsed_ms s \<longrightarrow> should_stop (decision c))"

lemma updating_same: "updating b n hist s c \<Longrightarrow> same_state c d \<Longrightarrow> stable_ms (decision d) = stable_ms (decision c) \<Longrightarrow> updating b n hist s d"
  by (simp add: updating_def same_state_def)

lemma updating_dominant:
  assumes "updating b n hist s c"
  shows "updating b n hist s (snd (StableAndDominant s d r q_margin c))"
    "fst (StableAndDominant s d (stable_required b) q_margin c) \<Longrightarrow> settled b (stable_time (hist @ [s])) s \<and> lead_safe n d s"
proof -
  have n: "in_flight_playouts c = max n 0" and st: "max (elapsed_ms s - last_best_change_ms c) 0 = stable_time (hist @ [s])"
    using assms by (simp_all add: updating_def stable_time_def)
  note f = StableAndDominant_facts [OF n, of s d, unfolded st]
  show "updating b n hist s (snd (StableAndDominant s d r q_margin c))"
    by (rule updating_same [OF assms f(1)]) (use f(2) assms in \<open>simp add: updating_def\<close>)
  show "fst (StableAndDominant s d (stable_required b) q_margin c) \<Longrightarrow> settled b (stable_time (hist @ [s])) s \<and> lead_safe n d s"
    using f(3) [of "stable_required b"] by (simp add: settled_def)
qed

lemma within_extension_outcome:
  assumes c: "updating b n hist s c" and np: "\<not> best_proven s"
    and s: "allow_extension b" "target_stop_ms b \<le> elapsed_ms s" "target_stop_ms b < latest_search_ms b"
    and e: "e = granted b (hist @ [s])"
  shows "outcome b n hist s (within_extension s (stable_required b) (c\<lparr>extension_deadline_ms := e\<rparr>))"
proof (cases "e \<le> elapsed_ms s")
  case True
  then show ?thesis using s np e by (simp add: outcome_def within_extension_def stop_justified_def stop_due_def extendable_def)
next
  case False
  define c1 where "c1 = c\<lparr>extension_deadline_ms := e\<rparr>"
  obtain x d where sd: "StableAndDominant s e (stable_required b) q_margin c1 = (x, d)" by (rule prod.exhaust)
  have c1: "in_flight_playouts c1 = max n 0" "last_best_change_ms c1 = best_change (hist @ [s])" using c by (simp_all add: c1_def updating_def)
  note f = StableAndDominant_facts [OF c1(1), of s e "stable_required b", unfolded sd fst_conv snd_conv]
  have run: "within_extension s (stable_required b) c1 = (if x then stop_with kExtensionStable (elapsed_ms s) d else d)"
    using False sd by (simp add: within_extension_def c1_def)
  have reached: "\<not> (\<forall>p \<in> set (hist @ [s]). elapsed_ms p < target_stop_ms b)" using s(2) by auto
  show ?thesis
  proof (cases x)
    case True
    then have "settled b (stable_time (hist @ [s])) s" "lead_safe n e s"
      using f(3) c1(2) by (simp_all add: settled_def stable_time_def)
    moreover have "e \<le> latest_search_ms b" using granted_bounds [of b "hist @ [s]"] s(3) e by simp
    ultimately show ?thesis using True False s np e unfolding c1_def [symmetric] run by (simp add: outcome_def stop_justified_def stop_due_def extendable_def)
  next
    case x: False
    have "running b n (hist @ [s]) d"
      using f(1) c reached e by (auto simp: running_def same_state_def updating_def c1_def)
    moreover have "e \<le> latest_search_ms b" using granted_bounds [of b "hist @ [s]"] s(3) e by simp
    moreover have "\<not> should_stop (decision d)" using f(1) c by (simp add: same_state_def updating_def c1_def)
    ultimately show ?thesis using x False unfolding c1_def [symmetric] run using np e s by (simp add: outcome_def stop_due_def extendable_def)
  qed
qed

lemma open_extension_outcome:
  fixes c :: time_controller
  assumes c: "updating b n hist s c" and np: "\<not> best_proven s" and t: "0 < target_stop_ms b"
    and s: "extendable b" "target_stop_ms b \<le> elapsed_ms s"
  defines "d \<equiv> open_extension s (stable_required b) c"
  shows "if should_stop (decision d) then stop_justified b n (reason (decision d)) hist s
    else \<exists>d'. updating b n hist s d' \<and> d = d'\<lparr>extension_deadline_ms := granted b (hist @ [s])\<rparr>"
proof (cases "\<forall>p \<in> set hist. elapsed_ms p < target_stop_ms b")
  case False
  have "0 < granted b hist" using granted_bounds [of b hist] s t by (simp add: extendable_def)
  then have d: "d = c" using c False by (auto simp: d_def open_extension_def updating_def)
  have "c = c\<lparr>extension_deadline_ms := granted b (hist @ [s])\<rparr>" using c granted_snoc [OF False] False by (simp add: updating_def)
  moreover have "\<not> should_stop (decision c)" using c by (simp add: updating_def)
  ultimately show ?thesis using c d by (metis (full_types))
next
  case True
  obtain p e where pr: "ProjectRemaining s (latest_search_ms b) c = (p, e)" by (rule prod.exhaust)
  have same: "same_state c e" "decision e = decision c" using ProjectRemaining_snd [of c s "latest_search_ms b"] pr by simp_all
  have p: "catch_up n (latest_search_ms b) s \<le> p"
    using ProjectRemaining_fst [of c n "latest_search_ms b" s] pr c by (simp add: updating_def)
  have e: "updating b n hist s e" by (rule updating_same [OF c same(1)]) (simp add: same(2))
  have b: "budget e = b" "budget c = b" "extension_deadline_ms c = 0" "stable_ms (decision c) = stable_time (hist @ [s])"
    "\<not> should_stop (decision c)" using c e True by (simp_all add: updating_def)
  have half: "(latest_search_ms b - target_stop_ms b) sdiv 2 = (latest_search_ms b - target_stop_ms b) div 2"
    using s by (intro half_extension) (simp add: extendable_def)
  define g where "g = granted b (hist @ [s])"
  have g: "g = (if uneasy b (stable_time (hist @ [s])) s then latest_search_ms b
     else target_stop_ms b + (latest_search_ms b - target_stop_ms b) div 2)"
    unfolding g_def by (rule granted_first [OF True s(2)])
  define calm where "calm \<longleftrightarrow> \<not> uneasy b (stable_time (hist @ [s])) s \<and>
     \<not> (f64 (f64 (of_int (best_visits s)) / f64 (of_int (max (second_visits s) 1))) < 3/2 \<or> best_visits s - second_visits s \<le> p)"
  have d: "d = (if calm then stop_with kTargetStable (target_stop_ms b) e
     else e\<lparr>extension_deadline_ms := g, decision := (decision e)\<lparr>extension_active := True, effective_deadline_ms := g\<rparr>\<rparr>)"
    unfolding d_def open_extension_def b pr by (auto simp: Let_def b half g calm_def uneasy_def)
  show ?thesis
  proof (cases calm)
    case True
    then show ?thesis using s np p \<open>\<forall>p \<in> set hist. elapsed_ms p < target_stop_ms b\<close>
      by (simp add: d stop_justified_def calm_def lead_safe_def)
  next
    case False
    have "updating b n hist s (e\<lparr>decision := (decision e)\<lparr>extension_active := True, effective_deadline_ms := g\<rparr>\<rparr>)"
      using e by (simp add: updating_def)
    moreover have "\<not> should_stop (decision d)" using False e by (simp add: d updating_def)
    ultimately show ?thesis using False by (auto simp: d g_def)
  qed
qed

lemma after_early_outcome:
  assumes c: "updating b n hist s c" and np: "\<not> best_proven s"
    and t: "0 < target_stop_ms b" "target_stop_ms b \<le> latest_search_ms b"
  shows "outcome b n hist s (after_early s (stable_required b) c)"
proof -
  have b: "budget c = b" "\<not> should_stop (decision c)" using c by (simp_all add: updating_def)
  consider (before) "elapsed_ms s < target_stop_ms b" | (at) "target_stop_ms b \<le> elapsed_ms s" "\<not> extendable b"
    | (beyond) "target_stop_ms b \<le> elapsed_ms s" "extendable b" by linarith
  then show ?thesis
  proof cases
    case before
    have "after_early s (stable_required b) c = c" using before by (simp add: after_early_def b)
    moreover have "running b n (hist @ [s]) c" using c before granted_snoc [of hist b s] by (auto simp: running_def updating_def)
    ultimately show ?thesis using before b(2) np t by (auto simp: outcome_def stop_due_def)
  next
    case at
    then have "after_early s (stable_required b) c = stop_with kTargetStable (target_stop_ms b) c"
      by (auto simp: after_early_def b extendable_def)
    then show ?thesis using at np by (simp add: outcome_def stop_justified_def)
  next
    case beyond
    define d where "d = open_extension s (stable_required b) c"
    have e: "after_early s (stable_required b) c = (if should_stop (decision d) then d else within_extension s (stable_required b) d)"
      using beyond by (auto simp: after_early_def b extendable_def d_def Let_def)
    note o = open_extension_outcome [OF c np t(1) beyond(2,1), folded d_def]
    show ?thesis
    proof (cases "should_stop (decision d)")
      case True
      then show ?thesis using o e by (simp add: outcome_def)
    next
      case False
      then obtain d' where d': "updating b n hist s d'" "d = d'\<lparr>extension_deadline_ms := granted b (hist @ [s])\<rparr>" using o by auto
      show ?thesis using within_extension_outcome [OF d'(1) np _ beyond(1) _ refl] beyond False e d'(2) by (simp add: extendable_def)
    qed
  qed
qed

lemma track_best_updating:
  assumes "running b n hist c"
  shows "updating b n hist s (track_best s (c\<lparr>decision := (decision c)\<lparr>snapshot := s\<rparr>\<rparr>))"
proof -
  have bc: "best_change (hist @ [s]) = (if best_index s \<noteq> last_best_index c then elapsed_ms s else last_best_change_ms c)"
    using assms by (auto simp: best_change_snoc running_def)
  then show ?thesis using assms
    by (cases "hist = []") (auto simp: running_def updating_def track_best_def Let_def stable_time_def)
qed

lemma Update_outcome:
  assumes c: "running b n hist c" and t: "0 < target_stop_ms b" "target_stop_ms b \<le> latest_search_ms b"
  shows "outcome b n hist s (Update s c)"
proof -
  define c2 where "c2 = track_best s (c\<lparr>decision := (decision c)\<lparr>snapshot := s\<rparr>\<rparr>)"
  have c2: "updating b n hist s c2" unfolding c2_def by (rule track_best_updating [OF c])
  have b: "budget c2 = b" using c2 by (simp add: updating_def)
  have u: "Update s c = (if best_proven s then stop_with kProven (elapsed_ms s) c2
     else if allow_early_stop b \<and> earliest_stop_ms b \<le> elapsed_ms s \<and> elapsed_ms s < target_stop_ms b
     then let (stop, d) = StableAndDominant s (target_stop_ms b) (stable_required b) q_margin c2
       in if stop then stop_with kEarlyDominant (elapsed_ms s) d else after_early s (stable_required b) d
     else after_early s (stable_required b) c2)"
    unfolding Update_def Let_def c2_def [symmetric] b stable_required_def [symmetric]
    using c t by (simp add: running_def HasAdaptiveDeadline_def)
  obtain x d where sd: "StableAndDominant s (target_stop_ms b) (stable_required b) q_margin c2 = (x, d)" by (rule prod.exhaust)
  have d: "updating b n hist s d" "x \<Longrightarrow> settled b (stable_time (hist @ [s])) s \<and> lead_safe n (target_stop_ms b) s"
    using updating_dominant [OF c2, of "target_stop_ms b"] sd by (metis fst_conv snd_conv)+
  show ?thesis
  proof (cases "best_proven s")
    case True
    then show ?thesis by (simp add: u outcome_def stop_justified_def)
  next
    case np: False
    consider (early) "x" "allow_early_stop b" "earliest_stop_ms b \<le> elapsed_ms s" "elapsed_ms s < target_stop_ms b"
      | (late) e where "updating b n hist s e" "Update s c = after_early s (stable_required b) e"
      using np c2 d(1) sd u by (auto split: if_splits)
    then show ?thesis
    proof cases
      case early
      then show ?thesis using np d(2) t sd by (simp add: u outcome_def stop_justified_def)
    next
      case late
      then show ?thesis using after_early_outcome [OF late(1) np t] by simp
    qed
  qed
qed

lemma Update_stopped: "should_stop (decision c) \<Longrightarrow> Update s c = c\<lparr>decision := (decision c)\<lparr>snapshot := s\<rparr>\<rparr>"
  by (simp add: Update_def)

lemma controller_run_snoc: "controller_run b n (ss @ [s]) = Update s (controller_run b n ss)"
  by (simp add: controller_run_def)

text \<open>A run is either still going, or was stopped for good at one of its snapshots.\<close>

definition stopped_at :: "time_budget \<Rightarrow> int \<Rightarrow> root_snapshot list \<Rightarrow> time_controller \<Rightarrow> bool" where
  "stopped_at b n ss c \<longleftrightarrow> should_stop (decision c) \<and>
     (\<exists>pre s post. ss = pre @ s # post \<and> \<not> should_stop (decision (controller_run b n pre)) \<and>
        stop_justified b n (reason (decision c)) pre s)"

lemma controller_run_cases:
  assumes t: "0 < target_stop_ms b" "target_stop_ms b \<le> latest_search_ms b"
  shows "running b n ss (controller_run b n ss) \<and> (\<forall>pre s post. ss = pre @ s # post \<longrightarrow> \<not> stop_due b pre s) \<or>
    stopped_at b n ss (controller_run b n ss)"
proof (induction ss rule: rev_induct)
  case Nil
  then show ?case by (simp add: running_def controller_run_def Reset_def empty_decision_def)
next
  case (snoc s ss)
  define c where "c = controller_run b n ss"
  show ?case
  proof (cases "should_stop (decision c)")
    case True
    then have "stopped_at b n ss c" using snoc by (auto simp: running_def simp flip: c_def)
    then obtain pre q post where "ss = pre @ q # post" "\<not> should_stop (decision (controller_run b n pre))"
      "stop_justified b n (reason (decision c)) pre q" by (auto simp: stopped_at_def)
    then have "stopped_at b n (ss @ [s]) (Update s c)"
      using True unfolding stopped_at_def Update_stopped [OF True]
      by (intro conjI exI [of _ pre] exI [of _ q] exI [of _ "post @ [s]"]) simp_all
    then show ?thesis by (simp add: controller_run_snoc c_def)
  next
    case False
    then have c: "running b n ss c" "\<forall>pre s post. ss = pre @ s # post \<longrightarrow> \<not> stop_due b pre s"
      using snoc by (auto simp: stopped_at_def simp flip: c_def)
    note o = Update_outcome [OF c(1) t, of s]
    show ?thesis
    proof (cases "should_stop (decision (Update s c))")
      case True
      then have "stopped_at b n (ss @ [s]) (Update s c)"
        using o False unfolding stopped_at_def outcome_def c_def by (intro conjI exI [of _ ss] exI [of _ s] exI [of _ "[]"]) simp_all
      then show ?thesis by (simp add: controller_run_snoc c_def)
    next
      case f: False
      then have "running b n (ss @ [s]) (Update s c)" "\<not> stop_due b ss s" using o by (simp_all add: outcome_def)
      moreover have "\<not> stop_due b pre q" if "ss @ [s] = pre @ q # post" for pre q post
        using that c(2) \<open>\<not> stop_due b ss s\<close> by (cases post rule: rev_cases) auto
      ultimately show ?thesis by (simp add: controller_run_snoc c_def)
    qed
  qed
qed

text \<open>C26: Once the search has run to the latest time of the budget the controller has stopped it,
  whatever snapshots it was shown on the way.\<close>

theorem controller_stops:
  assumes "0 < target_stop_ms b" "target_stop_ms b \<le> latest_search_ms b"
    and "latest_search_ms b \<le> elapsed_ms s"
  shows "should_stop (decision (controller_run b n (ss @ [s])))"
proof -
  have "\<not> stop_due b ss s \<Longrightarrow> False"
    using assms granted_bounds [OF assms(2), of "ss @ [s]"] by (auto simp: stop_due_def)
  then show ?thesis using controller_run_cases [OF assms(1,2), of n "ss @ [s]"] by (auto simp: stopped_at_def)
qed

text \<open>C27: A stop is always for a reason that held at the snapshot it was decided at, given the
  snapshots before it. Proven: the best move is proven. Early: between the earliest and the target
  time, with a best move that is stable, within the tolerance of the runner-up's value, and with a
  lead the runner-up cannot make up by the target at 1.2 times the average rate. Target: the target
  is reached, and either the budget cannot be extended or this is the first snapshot there, with no
  inversion of the values, a stable best move, at least one and a half times the visits of the
  runner-up and a lead that is safe to the latest time. Extension: between the target and the
  deadline of the extension, stable and with a safe lead. Latest: that deadline is reached, which is
  the latest time when the extension was opened on an unstable or inverted best move, and half way
  there otherwise. No other reason occurs, a run that was not stopped has seen no snapshot at which
  a stop is due, and no later snapshot changes a decision.\<close>

theorem controller_justified:
  assumes "0 < target_stop_ms b" "target_stop_ms b \<le> latest_search_ms b"
  shows "(if should_stop (decision (controller_run b n ss))
     then \<exists>pre s post. ss = pre @ s # post \<and> \<not> should_stop (decision (controller_run b n pre)) \<and>
       stop_justified b n (reason (decision (controller_run b n ss))) pre s
     else reason (decision (controller_run b n ss)) = kNone \<and>
       (\<forall>pre s post. ss = pre @ s # post \<longrightarrow> \<not> stop_due b pre s)) \<and>
    (should_stop (decision (controller_run b n ss)) \<longrightarrow>
       decision (controller_run b n (ss @ [s])) = (decision (controller_run b n ss))\<lparr>snapshot := s\<rparr>)"
  using controller_run_cases [OF assms, of n ss]
  by (auto simp: stopped_at_def running_def controller_run_snoc Update_stopped)

definition sample_snapshot :: "int \<Rightarrow> int \<Rightarrow> root_snapshot" where
  "sample_snapshot t v = empty_snapshot\<lparr>elapsed_ms := t, new_playouts := 2 * v, best_index := 0,
     second_index := 1, best_visits := v, second_visits := v div 2\<rparr>"

definition sample_budget :: time_budget where
  "sample_budget = empty_budget\<lparr>target_stop_ms := 1000, latest_search_ms := 1500, earliest_stop_ms := 500,
     allow_early_stop := True, allow_extension := True\<rparr>"

theorem controller_stops_witness:
  "should_stop (decision (controller_run sample_budget 8
     ([sample_snapshot 400 1000, sample_snapshot 1100 2500] @ [sample_snapshot 1600 4000])))"
  by (rule controller_stops) (simp_all add: sample_budget_def sample_snapshot_def empty_budget_def)

lemma sample_run:
  "should_stop (decision (controller_run sample_budget 8 [sample_snapshot 400 1000, sample_snapshot 990 100000]))"
  by code_simp

theorem controller_justified_witness:
  "\<exists>pre s post. [sample_snapshot 400 1000, sample_snapshot 990 100000] = pre @ s # post \<and>
     \<not> should_stop (decision (controller_run sample_budget 8 pre)) \<and>
     stop_justified sample_budget 8
       (reason (decision (controller_run sample_budget 8 [sample_snapshot 400 1000, sample_snapshot 990 100000]))) pre s"
  using controller_justified [of sample_budget 8 "[sample_snapshot 400 1000, sample_snapshot 990 100000]" empty_snapshot]
    sample_run by (simp add: sample_budget_def empty_budget_def)

end
