(* ===== verification/See.thy ===== *)
theory See
  imports Attacks
begin

text \<open>
  Static exchange evaluation, nnue/see.cc: whether the exchange a move starts on its target
  square wins at least a threshold.  The swap-list loop is compared with the minimax value of
  the exchange, in which either side may stop and captures with its least valuable piece.
\<close>

definition kSeeValue :: "int list" where
  "kSeeValue = [0, 90, 315, 405, 495, 855, 990, 540, 15000, 540, 540, 540, 540, 945, 1395, 0]"

definition see_value :: "piece_type \<Rightarrow> int" where
  "see_value pt = kSeeValue ! pt"

definition kAttackerOrder :: "piece_type list" where
  "kAttackerOrder = [kPawn, kLance, kKnight, kSilver, kGold, kProPawn, kProLance,
     kProKnight, kProSilver, kBishop, kRook, kHorse, kDragon, kKing]"

text \<open>The first attacking type in the order with its pieces; the loop variable stays at the king
  when none matches.\<close>

definition choose_attacker :: "shogi_board \<Rightarrow> color \<Rightarrow> bitboard \<Rightarrow> piece_type \<times> bitboard" where
  "choose_attacker b stm attackers =
     (case find (\<lambda>pt. bb_Any (bb_And attackers (pieces_ct b stm pt))) kAttackerOrder of
        None \<Rightarrow> (kKing, bb_And attackers (pieces_ct b stm kKing))
      | Some pt \<Rightarrow> (pt, bb_And attackers (pieces_ct b stm pt)))"

partial_function (option) see_loop ::
  "shogi_board \<Rightarrow> square \<Rightarrow> bitboard \<Rightarrow> color \<Rightarrow> int \<Rightarrow> int \<Rightarrow> bool option" where
  "see_loop b to occ stm swap res =
     (let stm = opp stm; attackers = bb_And (AttackersTo_c b to occ stm) occ in
      if bb_Empty attackers then Some (res \<noteq> 0)
      else
        let res = res XOR 1; (chosen, bb) = choose_attacker b stm attackers in
        if chosen = kKing then
          let opponents = bb_And (AttackersTo_c b to occ (opp stm)) occ
          in Some ((if bb_Any opponents then res XOR 1 else res) \<noteq> 0)
        else
          let swap = see_value chosen - swap in
          if swap < res then Some (res \<noteq> 0)
          else see_loop b to (bb_Clear occ (bb_Peek bb)) stm swap res)"

text \<open>The first capture: what it wins, the piece it puts at risk, and the occupancy after it.\<close>

definition see_gain :: "shogi_board \<Rightarrow> move \<Rightarrow> int" where
  "see_gain b m =
     (if move_is_drop m then 0
      else
        let moved = piece_GetType (piece_on b (move_from m));
            g = see_value (piece_GetType (piece_on b (move_to m)))
        in if move_is_promotion m then g + (see_value (pt_Promote moved) - see_value moved) else g)"

definition see_landing :: "shogi_board \<Rightarrow> move \<Rightarrow> piece_type" where
  "see_landing b m =
     (if move_is_drop m then move_drop_piece m
      else
        let moved = piece_GetType (piece_on b (move_from m))
        in if move_is_promotion m then pt_Promote moved else moved)"

definition see_occupied :: "shogi_board \<Rightarrow> move \<Rightarrow> bitboard" where
  "see_occupied b m =
     (let occ = (if move_is_drop m then occupied b else bb_Clear (occupied b) (move_from m))
      in bb_Clear occ (move_to m))"

definition SeeGe :: "shogi_board \<Rightarrow> move \<Rightarrow> int \<Rightarrow> bool option" where
  "SeeGe b m threshold =
     (let swap = see_gain b m - threshold in
      if swap < 0 then Some False
      else
        let swap = see_value (see_landing b m) - swap in
        if swap \<le> 0 then Some True
        else see_loop b (move_to m) (see_occupied b m) (side_to_move b) swap 1)"

subsection \<open>The minimax value of the exchange\<close>

text \<open>What the side to move gains when the piece on the square is worth \<open>v\<close>: nothing without an
  attacker, else the better of stopping and of capturing with the least attacker, against the
  best reply.  A king captures only what is not recaptured.  The first argument bounds the
  number of captures; the occupied squares are as many as there can be.\<close>

fun exchange :: "nat \<Rightarrow> shogi_board \<Rightarrow> square \<Rightarrow> bitboard \<Rightarrow> color \<Rightarrow> int \<Rightarrow> int" where
  "exchange 0 b to occ stm v = 0"
| "exchange (Suc n) b to occ stm v =
     (let attackers = bb_And (AttackersTo_c b to occ stm) occ in
      if bb_Empty attackers then 0
      else
        let (pt, bb) = choose_attacker b stm attackers in
        if pt = kKing then (if bb_Any (bb_And (AttackersTo_c b to occ (opp stm)) occ) then 0 else v)
        else max 0 (v - exchange n b to (bb_Clear occ (bb_Peek bb)) (opp stm) (see_value pt)))"

definition see_exchange :: "shogi_board \<Rightarrow> move \<Rightarrow> int" where
  "see_exchange b m =
     see_gain b m - exchange (bb_PopCount (see_occupied b m)) b (move_to m) (see_occupied b m)
       (opp (side_to_move b)) (see_value (see_landing b m))"

lemma see_value_nonneg: "pt < 16 \<Longrightarrow> 0 \<le> see_value pt"
proof -
  assume "pt < 16"
  then have "kSeeValue ! pt \<in> set kSeeValue" by (intro nth_mem) (simp add: kSeeValue_def)
  then show ?thesis unfolding see_value_def by (auto simp: kSeeValue_def)
qed

lemma choose_attacker_props:
  assumes "choose_attacker b stm a = (pt, bb)"
  shows "1 \<le> pt \<and> pt < 16" "bb = bb_And a (pieces_ct b stm pt)" "pt \<noteq> kKing \<Longrightarrow> bb_Any bb"
proof -
  define P where "P = (\<lambda>pt. bb_Any (bb_And a (pieces_ct b stm pt)))"
  have in_order: "p \<in> set kAttackerOrder \<Longrightarrow> 1 \<le> p \<and> p < 16" for p
    by (auto simp: kAttackerOrder_def kPawn_def kLance_def kKnight_def kSilver_def kGold_def kProPawn_def
        kProLance_def kProKnight_def kProSilver_def kBishop_def kRook_def kHorse_def kDragon_def kKing_def)
  have f: "find P kAttackerOrder = Some p \<Longrightarrow> p \<in> set kAttackerOrder \<and> P p" for p
    by (auto simp: find_Some_iff)
  have k: "kKing \<in> set kAttackerOrder" by (simp add: kAttackerOrder_def)
  show "1 \<le> pt \<and> pt < 16" "bb = bb_And a (pieces_ct b stm pt)" "pt \<noteq> kKing \<Longrightarrow> bb_Any bb"
    using assms f in_order k
    by (auto simp: choose_attacker_def P_def [symmetric] split: option.splits) (simp add: P_def)+
qed

lemma exchange_bounds: "0 \<le> v \<Longrightarrow> 0 \<le> exchange n b to occ stm v \<and> exchange n b to occ stm v \<le> v"
proof (induction n arbitrary: occ stm v)
  case (Suc n)
  have "0 \<le> see_value pt" if "choose_attacker b stm a = (pt, bb)" for a pt bb
    using choose_attacker_props(1) [OF that] by (simp add: see_value_nonneg)
  then show ?case using Suc by (auto simp: Let_def split: prod.splits)
qed simp

lemma peek_in:
  assumes "bb_ok w" "bb_Any w"
  shows "bb_Peek w < 81 \<and> bb_Test w (bb_Peek w)"
proof -
  have "bb_squares w \<noteq> []" using assms by (simp add: bb_squares_Nil_iff)
  then have "hd (bb_squares w) \<in> set (bb_squares w)" by (rule hd_in_set)
  then show ?thesis using assms by (simp add: bb_Peek_hd set_bb_squares)
qed

lemma PopCount_Clear:
  assumes "bb_ok w" "s < 81" "bb_Test w s"
  shows "bb_PopCount (bb_Clear w s) < bb_PopCount w"
proof -
  have "bb_squares (bb_Clear w s) = filter (\<lambda>t. t \<noteq> s) (bb_squares w)"
    using assms by (auto simp: bb_squares_filter bb_ok_Clear Test_Clear intro!: filter_cong)
  moreover have "length (filter (\<lambda>t. t \<noteq> s) (bb_squares w)) < length (bb_squares w)"
    by (rule length_filter_less [where x = s]) (use assms in \<open>simp_all add: set_bb_squares\<close>)
  ultimately show ?thesis using assms(1) by (simp add: bb_PopCount_length bb_ok_Clear)
qed

subsection \<open>The loop computes the comparison\<close>

text \<open>Between two captures the swap value compares the exchange with the bound, from the side that
  has just moved when the result is one, from its opponent when it is zero.\<close>

lemma see_loop_correct:
  assumes b: "board_ok b" "to < 81"
  shows "bb_ok occ \<Longrightarrow> bb_PopCount occ \<le> n \<Longrightarrow>
    (0 < swap \<and> swap \<le> v \<longrightarrow>
       see_loop b to occ stm swap 1 = Some (swap \<le> v - exchange n b to occ (opp stm) v)) \<and>
    (0 \<le> swap \<and> swap < v \<longrightarrow>
       see_loop b to occ stm swap 0 = Some (v - exchange n b to occ (opp stm) v \<le> swap))"
proof (induction n arbitrary: occ stm swap v)
  case 0
  then have "\<not> bb_Any occ" by (simp add: bb_PopCount_length flip: bb_squares_Nil_iff)
  then have "bb_Empty (bb_And (AttackersTo_c b to occ (opp stm)) occ)"
    using 0 by (auto simp: bb_Empty_def bb_Any_iff_Test bb_ok_And2 Test_And)
  then show ?case by (auto simp: see_loop.simps [of b to occ stm])
next
  case (Suc n)
  define attackers where "attackers = bb_And (AttackersTo_c b to occ (opp stm)) occ"
  have ok: "bb_ok attackers" using Suc.prems by (simp add: attackers_def bb_ok_And2)
  obtain pt bb where c: "choose_attacker b (opp stm) attackers = (pt, bb)" by fastforce
  note p = choose_attacker_props [OF c]
  have x: "(1::int) XOR 1 = 0" "(0::int) XOR 1 = 1" by simp_all
  show ?case
  proof (cases "bb_Empty attackers \<or> pt = kKing")
    case True
    then show ?thesis
      using c by (auto simp: see_loop.simps [of b to occ stm] Let_def simp flip: attackers_def)
  next
    case False
    define occ' where "occ' = bb_Clear occ (bb_Peek bb)"
    have okb: "bb_ok bb" using ok p(2) by (simp add: bb_ok_And1)
    have any: "bb_Any bb" using p(3) False by simp
    have t: "bb_Test occ (bb_Peek bb)" "bb_Peek bb < 81"
      using peek_in [OF okb any] by (simp_all add: p(2) attackers_def Test_And)
    have ok': "bb_ok occ'" "bb_PopCount occ' \<le> n"
      using Suc.prems PopCount_Clear [OF Suc.prems(1) t(2,1)] by (simp_all add: occ'_def bb_ok_Clear)
    have w: "0 \<le> see_value pt" using p(1) by (simp add: see_value_nonneg)
    define e where "e = exchange n b to occ' stm (see_value pt)"
    have e: "0 \<le> e" "e \<le> see_value pt" using exchange_bounds [OF w, of n b to occ' stm] by (simp_all add: e_def)
    have ex: "exchange (Suc n) b to occ (opp stm) v = max 0 (v - e)"
      using False c by (simp add: Let_def e_def occ'_def flip: attackers_def)
    have step: "see_loop b to occ stm swap res =
        (if see_value pt - swap < res XOR 1 then Some (res XOR 1 \<noteq> 0)
         else see_loop b to occ' (opp stm) (see_value pt - swap) (res XOR 1))" for res
      using False c by (simp add: see_loop.simps [of b to occ stm] Let_def occ'_def flip: attackers_def)
    note ih = Suc.IH [OF ok', of "see_value pt - swap" "see_value pt" "opp stm", simplified, folded e_def]
    show ?thesis
    proof (intro conjI impI)
      assume s: "0 < swap \<and> swap \<le> v"
      show "see_loop b to occ stm swap 1 = Some (swap \<le> v - exchange (Suc n) b to occ (opp stm) v)"
        unfolding step x ex using s e ih by auto
    next
      assume s: "0 \<le> swap \<and> swap < v"
      show "see_loop b to occ stm swap 0 = Some (v - exchange (Suc n) b to occ (opp stm) v \<le> swap)"
        unfolding step x ex using s e ih by auto
    qed
  qed
qed

lemma SeeGe_value:
  assumes "board_ok b" "move_to m < 81" "pt_IsValid (see_landing b m)"
  shows "SeeGe b m threshold = Some (threshold \<le> see_exchange b m)"
proof -
  have ok: "bb_ok (see_occupied b m)"
    using assms(1) by (simp add: see_occupied_def Let_def bb_intros)
  define v where "v = see_value (see_landing b m)"
  define e where "e = exchange (bb_PopCount (see_occupied b m)) b (move_to m) (see_occupied b m) (opp (side_to_move b)) v"
  have v: "0 \<le> v" unfolding v_def by (rule see_value_nonneg) (use assms(3) in \<open>simp add: pt_IsValid_def\<close>)
  have e: "0 \<le> e" "e \<le> v" using exchange_bounds [OF v] by (simp_all add: e_def)
  have x: "see_exchange b m = see_gain b m - e" by (simp add: see_exchange_def e_def v_def)
  note l = see_loop_correct [OF assms(1,2) ok order_refl, of "v - (see_gain b m - threshold)" v "side_to_move b", folded e_def]
  show ?thesis using e l unfolding x by (auto simp: SeeGe_def Let_def simp flip: v_def)
qed

text \<open>C32: \<open>SeeGe\<close> always answers, and it answers whether the minimax value of the exchange
  started by the move reaches the threshold.\<close>

theorem SeeGe_correct:
  assumes "board_ok b" "move_to m < 81" "pt_IsValid (see_landing b m)"
  shows "SeeGe b m threshold = Some (threshold \<le> see_exchange b m)"
  by (rule SeeGe_value [OF assms])

theorem SeeGe_correct_witness:
  "SeeGe sample_board (move_Drop kPawn 40) 0 = Some (0 \<le> see_exchange sample_board (move_Drop kPawn 40))"
  by (rule SeeGe_correct [OF sample_board_ok(1)])
    (simp_all add: move_Drop_fields see_landing_def pt_IsValid_def kPawn_def)

end
