(* ===== verification/Butterfly.thy ===== *)
theory Butterfly
  imports Moves Floats "HOL-Library.Signed_Division"
begin

text \<open>
  The butterfly history table of mcts/butterfly.h: one \<open>int16_t\<close> per side, origin and target of
  a move, moved towards the search result by a gravity rule.  The \<open>compare\_exchange\<close> loop is the
  update of one thread.  The logarithm of the C library is the parameter \<open>log_double\<close>: it is not
  correctly rounded, and nothing is assumed of it.
\<close>

type_synonym i16 = "16 word"

definition kFromIds :: nat where "kFromIds = 81 + 7"

definition table_size :: nat where "table_size = 2 * kFromIds * 81"

definition Clear_table :: "nat \<Rightarrow> i16" where
  "Clear_table = (\<lambda>_. 0)"

definition Index :: "color \<Rightarrow> move \<Rightarrow> nat" where
  "Index side m =
     (let from = (if move_is_drop m then 81 + (move_drop_piece m - 1) else move_from m)
      in (color_idx side * kFromIds + from) * 81 + move_to m)"

definition Bonus :: "(nat \<Rightarrow> i16) \<Rightarrow> color \<Rightarrow> move \<Rightarrow> int \<Rightarrow> rat" where
  "Bonus data side m divisor =
     f32 (f32 (of_int (sint (data (Index side m)))) / f32 (of_int (if divisor < 1 then 1 else divisor)))"

text \<open>The centipawn value of an expected score, and its clamp.\<close>

definition limit :: "int \<Rightarrow> int" where
  "limit x = (if x < -32767 then -32767 else if x > 32767 then 32767 else x)"

definition score_cp :: "(rat \<Rightarrow> rat) \<Rightarrow> rat \<Rightarrow> int" where
  "score_cp log_double score =
     (let score = (if score < f32 (1/1000) then f32 (1/1000)
                   else if score > f32 (999/1000) then f32 (999/1000) else score)
      in limit (lround (f64 (-400 * log_double (f64 (f64 (1 / score) - 1))))))"

definition gravity :: "int \<Rightarrow> int \<Rightarrow> int \<Rightarrow> int" where
  "gravity cp cur rf =
     (let adjusted = cp - (cur * \<bar>cp\<bar>) sdiv rf in limit (cur + limit adjusted))"

definition Update_table :: "(rat \<Rightarrow> rat) \<Rightarrow> color \<Rightarrow> move \<Rightarrow> ieee \<Rightarrow> int \<Rightarrow> (nat \<Rightarrow> i16) \<Rightarrow> nat \<Rightarrow> i16" where
  "Update_table log_double side m value reduction_factor data =
     (case value of
        Inf _ \<Rightarrow> data | NaN \<Rightarrow> data
      | Fin score \<Rightarrow>
          let cp = score_cp log_double score;
              rf = (if reduction_factor < 1 then 1 else reduction_factor);
              i = Index side m
          in data(i := of_int (gravity cp (sint (data i)) rf)))"

subsection \<open>Range of the cells\<close>

lemma limit_bounds: "-32767 \<le> limit x \<and> limit x \<le> 32767"
  by (simp add: limit_def)

lemma limit_id: "-32767 \<le> x \<Longrightarrow> x \<le> 32767 \<Longrightarrow> limit x = x"
  by (simp add: limit_def)

lemma sint_of_limit: "sint (of_int (limit x) :: i16) = limit x"
  using limit_bounds [of x] by (simp add: signed_of_int signed_take_bit_int_eq_self)

definition cells_ok :: "(nat \<Rightarrow> i16) \<Rightarrow> bool" where
  "cells_ok data \<longleftrightarrow> (\<forall>i. \<bar>sint (data i)\<bar> \<le> 32767)"

lemma gravity_product: "\<bar>cur :: int\<bar> \<le> 32767 \<Longrightarrow> \<bar>cp\<bar> \<le> 32767 \<Longrightarrow> \<bar>cur * \<bar>cp\<bar>\<bar> < 2 ^ 31"
  using mult_mono [of "\<bar>cur\<bar>" 32767 "\<bar>cp\<bar>" 32767] by (simp add: abs_mult)

text \<open>Gravity keeps a cell within the reduction factor when the scores are.\<close>

lemma gravity_pull:
  assumes "0 < r" "0 \<le> c" "c \<le> r" "x \<le> (r::int)"
  shows "x + c - x * c div r \<le> r"
proof -
  have "0 \<le> (r - x) * (r - c)" using assms by simp
  then have "(x + c - r) * r \<le> x * c" by (simp add: algebra_simps)
  then have "(x + c - r) * r div r \<le> x * c div r" using assms(1) by (rule zdiv_mono1)
  then show ?thesis using assms(1) by simp
qed

lemma sdiv_cases: "0 < r \<Longrightarrow> (x::int) sdiv r = (if 0 \<le> x then x div r else - (- x div r))"
  by (simp add: signed_divide_int_def sgn_if zdiv_zminus1_eq_if)

lemma gravity_bounded:
  assumes r: "0 < r" "r \<le> 32767" and cp: "\<bar>cp\<bar> \<le> r" and x: "\<bar>x\<bar> \<le> r"
  shows "\<bar>gravity cp x r\<bar> \<le> r"
proof -
  define c where "c = \<bar>cp\<bar>"
  have c: "0 \<le> c" "c \<le> r" using cp by (simp_all add: c_def)
  have up: "y + c - y * c div r \<le> r" "y * c div r \<le> y" if "0 \<le> y" "y \<le> r" for y
  proof -
    show "y + c - y * c div r \<le> r" using gravity_pull [OF r(1) c that(2)] .
    have "y * c div r \<le> y * r div r" using c that r by (intro zdiv_mono1 mult_left_mono) simp_all
    then show "y * c div r \<le> y" using r by simp
  qed
  have z: "0 \<le> y * c div r" if "0 \<le> y" for y using that c r by (simp add: pos_imp_zdiv_nonneg_iff)
  have "\<bar>x + (cp - (x * c) sdiv r)\<bar> \<le> r"
  proof (cases "0 \<le> x")
    case True
    then have "0 \<le> x * c" using c by simp
    then show ?thesis using up [of x] z [of x] True x cp r c by (auto simp: sdiv_cases c_def abs_le_iff split: abs_split)
  next
    case False
    define y where "y = - x"
    have y: "0 \<le> y" "y \<le> r" using False x by (simp_all add: y_def)
    have s: "(x * c) sdiv r = - (y * c div r)"
    proof -
      have "x * c = - (y * c)" by (simp add: y_def)
      moreover have "0 \<le> y * c" using y c by simp
      ultimately show ?thesis using r by (cases "y * c = 0") (simp_all only: sdiv_cases, simp_all)
    qed
    show ?thesis unfolding s using up [OF y] z [OF y(1)] y cp r c
      by (auto simp: y_def c_def abs_le_iff split: abs_split)
  qed
  moreover have "limit (cp - (x * c) sdiv r) = cp - (x * c) sdiv r \<or> True" by simp
  ultimately show ?thesis
    using r cp x by (auto simp: gravity_def Let_def limit_def c_def abs_le_iff split: if_splits)
qed

subsection \<open>The table over a search\<close>

text \<open>One update: side, move, score and reduction factor.\<close>

type_synonym update = "color \<times> move \<times> ieee \<times> int"

definition run_updates :: "(rat \<Rightarrow> rat) \<Rightarrow> update list \<Rightarrow> nat \<Rightarrow> i16" where
  "run_updates log_double ops = fold (\<lambda>(side, m, score, rf). Update_table log_double side m score rf) ops Clear_table"

lemma Index_less: "move_wf m \<Longrightarrow> Index side m < table_size"
  by (cases side) (auto simp: move_wf_def Index_def table_size_def kFromIds_def pt_IsHandPiece_def Let_def split: if_splits)

lemma Index_inject:
  assumes "move_wf m" "move_wf m'"
  shows "Index side m = Index side' m' \<longleftrightarrow> side = side' \<and> move_to m = move_to m' \<and>
    (move_is_drop m \<longleftrightarrow> move_is_drop m') \<and>
    (if move_is_drop m then move_drop_piece m = move_drop_piece m' else move_from m = move_from m')"
proof -
  define f where "f = (\<lambda>m. if move_is_drop m then 81 + (move_drop_piece m - 1) else move_from m)"
  have r: "f m < 88" "f m' < 88" "move_to m < 81" "move_to m' < 81"
    using assms by (auto simp: f_def move_wf_def pt_IsHandPiece_def)
  have i: "Index s n = color_idx s * 7128 + f n * 81 + move_to n" for s n
    by (simp add: Index_def f_def kFromIds_def Let_def algebra_simps)
  have c: "color_idx side < 2" "color_idx side' < 2" by (cases side; simp) (cases side'; simp)
  have d: "a * 7128 + x * 81 + t = b * 7128 + y * 81 + u \<longleftrightarrow> a = b \<and> x = y \<and> t = u"
    if "x < 88" "y < 88" "t < 81" "u < 81" "a < 2" "b < 2" for a b x y t u :: nat
  proof
    assume e: "a * 7128 + x * 81 + t = b * 7128 + y * 81 + u"
    have e: "(a * 88 + x) * 81 + t = (b * 88 + y) * 81 + u" using e by simp
    have mm: "(k * 81 + i) mod 81 = i" if "i < 81" for k i :: nat using that by simp
    have tu: "t = u" by (metis e mm that(3,4))
    have "a * 88 + x = b * 88 + y" using e tu by simp
    from arg_cong [OF this, of "\<lambda>n. n mod 88"] arg_cong [OF this, of "\<lambda>n. n div 88"] that
    show "a = b \<and> x = y \<and> t = u" using tu by simp
  qed simp
  have s: "color_idx side = color_idx side' \<longleftrightarrow> side = side'" by (cases side; cases side'; simp)
  have ff: "f m = f m' \<longleftrightarrow> (move_is_drop m \<longleftrightarrow> move_is_drop m') \<and>
      (if move_is_drop m then move_drop_piece m = move_drop_piece m' else move_from m = move_from m')"
    using assms by (auto simp: f_def move_wf_def pt_IsHandPiece_def)
  show ?thesis unfolding i using d [OF r c] s ff by blast
qed

lemma cells_ok_Update: "cells_ok data \<Longrightarrow> cells_ok (Update_table log_double side m score rf data)"
proof -
  assume a: "cells_ok data"
  have "\<bar>sint (of_int (gravity cp x r) :: i16)\<bar> \<le> 32767" for cp x r
    unfolding gravity_def Let_def sint_of_limit using limit_bounds by (simp add: abs_le_iff) (metis minus_le_iff)
  then show ?thesis using a by (simp add: cells_ok_def Update_table_def Let_def split: ieee.split)
qed

lemma cells_ok_Clear: "cells_ok Clear_table"
  by (simp add: cells_ok_def Clear_table_def)

lemma run_updates_ok: "cells_ok (run_updates log_double ops)"
  by (induction ops rule: rev_induct) (auto simp: run_updates_def cells_ok_Update cells_ok_Clear)

text \<open>Whatever the logarithm returns, no update of the history table overflows: the cells stay
  in the symmetric 16-bit range, the product of the gravity term fits an \<open>int\<close>, and the cell
  addressed lies in the table.  Two moves share a cell only if they have the same side, kind,
  origin and target.  With a common reduction factor above every score, cells stay within it.\<close>

theorem butterfly_in_range:
  assumes "move_wf m" "move_wf m'"
  shows "\<bar>sint (run_updates log_double ops i)\<bar> \<le> 32767 \<and>
    \<bar>sint (run_updates log_double ops (Index side m)) * \<bar>score_cp log_double score\<bar>\<bar> < 2 ^ 31 \<and>
    Index side m < table_size \<and>
    (Index side m = Index side' m' \<longleftrightarrow> side = side' \<and> move_to m = move_to m' \<and>
       (move_is_drop m \<longleftrightarrow> move_is_drop m') \<and>
       (if move_is_drop m then move_drop_piece m = move_drop_piece m' else move_from m = move_from m')) \<and>
    (0 < r \<and> r \<le> 32767 \<and> (\<forall>(s, n, score, rf) \<in> set ops. rf = r \<and>
         (\<forall>x. score = Fin x \<longrightarrow> \<bar>score_cp log_double x\<bar> \<le> r)) \<longrightarrow>
       \<bar>sint (run_updates log_double ops i)\<bar> \<le> r)"
proof -
  note ok = run_updates_ok [of log_double ops, unfolded cells_ok_def]
  have cp: "\<bar>score_cp log_double score\<bar> \<le> 32767"
    unfolding score_cp_def Let_def using limit_bounds by (simp add: abs_le_iff) (metis minus_le_iff)
  have pull: "\<forall>i. \<bar>sint (run_updates log_double ops i)\<bar> \<le> r"
    if r: "0 < r" "r \<le> 32767" and o: "\<forall>(s, n, score, rf) \<in> set ops. rf = r \<and>
      (\<forall>x. score = Fin x \<longrightarrow> \<bar>score_cp log_double x\<bar> \<le> r)"
    using o
  proof (induction ops rule: rev_induct)
    case Nil
    then show ?case using r by (simp add: run_updates_def Clear_table_def)
  next
    case (snoc op ops)
    obtain s n v where op: "op = (s, n, v, r)" "\<forall>x. v = Fin x \<longrightarrow> \<bar>score_cp log_double x\<bar> \<le> r"
      using snoc.prems by (cases op) auto
    define d where "d = run_updates log_double ops"
    have d: "\<forall>i. \<bar>sint (d i)\<bar> \<le> r" using snoc by (simp add: d_def)
    have run: "run_updates log_double (ops @ [op]) = Update_table log_double s n v r d"
      by (simp add: run_updates_def op(1) d_def)
    show ?case
    proof (cases v)
      case (Fin sc)
      define g where "g = gravity (score_cp log_double sc) (sint (d (Index s n))) r"
      have "\<bar>g\<bar> \<le> r" using d op(2) Fin r unfolding g_def by (intro gravity_bounded) simp_all
      moreover have "sint (of_int g :: i16) = g" by (simp add: g_def gravity_def Let_def sint_of_limit)
      ultimately show ?thesis using d r Fin by (simp add: run Update_table_def Let_def flip: g_def)
    qed (use d in \<open>simp_all add: run Update_table_def\<close>)
  qed
  show ?thesis
    using ok gravity_product [OF _ cp, of "sint (run_updates log_double ops (Index side m))"] Index_less [OF assms(1), of side]
      Index_inject [OF assms, of side side'] pull by blast
qed

theorem butterfly_in_range_witness:
  "Index BLACK (move_Drop kPawn 40) < table_size \<and>
   \<bar>sint (run_updates (\<lambda>x. x) [(BLACK, move_Drop kPawn 40, Fin (1/2), 8192)] 3)\<bar> \<le> 32767"
proof -
  have "move_wf (move_Drop kPawn 40)" by (simp add: kPawn_def pt_IsHandPiece_def)
  from butterfly_in_range [OF this this] show ?thesis by blast
qed

end
