(* ===== verification/SearchInfo.thy ===== *)
theory SearchInfo
  imports Decimal Moves
begin

text \<open>
  The search report of usi/search\_info.h and usi/search\_info.cc, a line of text in canonical
  field order.
\<close>

record search_info =
  depth :: int
  seldepth :: int
  multipv :: int
  score_centipawns :: int
  nodes :: nat
  nps :: nat
  info_hashfull :: int
  time_ms :: nat
  pv :: "move list"

definition FormatUSISearchInfo :: "search_info \<Rightarrow> string" where
  "FormatUSISearchInfo i =
     ''info depth '' @ dec_int (max (depth i) 0) @
     (if seldepth i > 0 then '' seldepth '' @ dec_int (seldepth i) else '''') @
     '' multipv '' @ dec_int (max (multipv i) 1) @
     '' score cp '' @ dec_int (score_centipawns i) @
     '' nodes '' @ dec_nat (nodes i) @
     '' nps '' @ dec_nat (nps i) @
     '' hashfull '' @ dec_int (if info_hashfull i < 0 then 0 else if info_hashfull i > 1000 then 1000 else info_hashfull i) @
     '' time '' @ dec_nat (time_ms i) @
     (if pv i \<noteq> [] then '' pv'' @ concat (map (\<lambda>m. '' '' @ move_ToString m) (pv i)) else '''')"

end
