(* ===== verification/EvalCaches.thy ===== *)
theory EvalCaches
  imports Floats
begin

text \<open>
  The value cache of nnue/eval\_cache.h: a direct-mapped table of 64-bit entries, each a 32-bit
  tag of the position key and the win and draw probabilities quantised to 16 bits.  The atomic
  operations are the plain reads and writes of one thread; the counters are \<open>uint64_t\<close>.
\<close>

record eval_cache =
  cache_table :: "u64 list"
  capacity :: u64
  lookups :: u64
  hits :: u64
  occupied_slots :: u64

definition Clear :: "eval_cache \<Rightarrow> eval_cache" where
  "Clear c = c\<lparr>cache_table := replicate (unat (capacity c)) 0, lookups := 0, hits := 0, occupied_slots := 0\<rparr>"

text \<open>The loop that doubles the capacity; it starts at one.\<close>

function grow_capacity :: "nat \<Rightarrow> nat \<Rightarrow> nat" where
  "grow_capacity n cap = (if 0 < cap \<and> cap * 2 \<le> n then grow_capacity n (cap * 2) else cap)"
  by pat_completeness auto
termination grow_capacity
  by (relation "measure (\<lambda>(n, cap). n - cap)") auto

declare grow_capacity.simps [simp del]

definition Resize :: "u64 \<Rightarrow> eval_cache \<Rightarrow> eval_cache" where
  "Resize mb c =
     (let n = unat (mb * 1024 * 1024 div 8);
          cap = (if n = 0 then 0 else grow_capacity n 1)
      in Clear (c\<lparr>capacity := of_nat cap\<rparr>))"

definition new_cache :: eval_cache where
  "new_cache = \<lparr>cache_table = [], capacity = 0, lookups = 0, hits = 0, occupied_slots = 0\<rparr>"

definition Enabled :: "eval_cache \<Rightarrow> bool" where
  "Enabled c \<longleftrightarrow> capacity c \<noteq> 0"

definition Tag :: "u64 \<Rightarrow> u32" where
  "Tag key = (let t = ucast (drop_bit 32 key) in if t = 0 then 1 else t)"

definition slot_of :: "eval_cache \<Rightarrow> u64 \<Rightarrow> nat" where
  "slot_of c key = unat (key AND (capacity c - 1))"

text \<open>The quantisation of \<open>Store\<close> and its inverse in \<open>Probe\<close>.\<close>

definition quantise :: "rat \<Rightarrow> u64" where
  "quantise x =
     (let x = (if x < 0 then 0 else if x > 1 then 1 else x)
      in of_int (trunc (f32 (f32 (x * 65535) + 1/2))))"

definition dequantise :: "u64 \<Rightarrow> rat" where
  "dequantise v = f32 (f32 (of_nat (unat v)) / 65535)"

definition pack_entry :: "u32 \<Rightarrow> u64 \<Rightarrow> u64 \<Rightarrow> u64" where
  "pack_entry tag w d = push_bit 32 (ucast tag) OR push_bit 16 w OR d"

definition Probe_cache :: "u64 \<Rightarrow> eval_cache \<Rightarrow> (rat \<times> rat) option \<times> eval_cache" where
  "Probe_cache key c =
     (if capacity c = 0 then (None, c)
      else
        let c = c\<lparr>lookups := lookups c + 1\<rparr>; v = cache_table c ! slot_of c key in
        if (ucast (drop_bit 32 v) :: u32) \<noteq> Tag key then (None, c)
        else (Some (dequantise (drop_bit 16 v AND 0xFFFF), dequantise (v AND 0xFFFF)), c\<lparr>hits := hits c + 1\<rparr>))"

definition Store :: "u64 \<Rightarrow> rat \<Rightarrow> rat \<Rightarrow> eval_cache \<Rightarrow> eval_cache" where
  "Store key win draw c =
     (if capacity c = 0 then c
      else
        let v = pack_entry (Tag key) (quantise win) (quantise draw);
            i = slot_of c key;
            c = (if cache_table c ! i = 0 then c\<lparr>occupied_slots := occupied_slots c + 1\<rparr> else c)
        in c\<lparr>cache_table := (cache_table c)[i := v]\<rparr>)"

definition hashfull :: "eval_cache \<Rightarrow> nat" where
  "hashfull c = (if capacity c \<noteq> 0 then unat (occupied_slots c * 1000 div capacity c) else 0)"

definition ResetStats :: "eval_cache \<Rightarrow> eval_cache" where
  "ResetStats c = c\<lparr>lookups := 0, hits := 0\<rparr>"

subsection \<open>Packing\<close>

lemma bit_small_u64: "unat (w :: u64) < 2 ^ k \<Longrightarrow> k \<le> n \<Longrightarrow> \<not> bit w n"
  using nat_bit_bound [of "unat w" k n] by (simp add: bit_unsigned_iff)

lemma bit_FFFF: "bit (0xFFFF :: int) n \<longleftrightarrow> n < 16"
proof -
  have m: "(0xFFFF :: int) = mask 16" by (simp add: mask_eq_exp_minus_1)
  show ?thesis unfolding m bit_mask_iff by (auto simp: possible_bit_def)
qed

lemma pack_entry_fields:
  assumes w: "unat w < 2 ^ 16" and d: "unat d < 2 ^ 16"
  shows "(ucast (drop_bit 32 (pack_entry tag w d)) :: u32) = tag"
    and "drop_bit 16 (pack_entry tag w d) AND 0xFFFF = w"
    and "pack_entry tag w d AND 0xFFFF = d"
proof -
  note s = bit_small_u64 [OF w] bit_small_u64 [OF d]
  show "(ucast (drop_bit 32 (pack_entry tag w d)) :: u32) = tag"
    by (rule bit_word_eqI) (auto simp: pack_entry_def bit_simps s)
  show "drop_bit 16 (pack_entry tag w d) AND 0xFFFF = w"
    by (rule bit_word_eqI) (auto simp: pack_entry_def bit_simps bit_FFFF s intro: ccontr)
  show "pack_entry tag w d AND 0xFFFF = d"
    by (rule bit_word_eqI) (auto simp: pack_entry_def bit_simps bit_FFFF s intro: ccontr)
qed

lemma Tag_neq0: "Tag key \<noteq> 0"
  by (simp add: Tag_def Let_def)

lemma pack_entry_neq0: "unat w < 2 ^ 16 \<Longrightarrow> unat d < 2 ^ 16 \<Longrightarrow> pack_entry (Tag key) w d \<noteq> 0"
  using pack_entry_fields(1) [of w d "Tag key"] Tag_neq0 [of key] by auto

subsection \<open>Quantisation\<close>

text \<open>The value as the code clamps it.\<close>

definition unit_clamp :: "rat \<Rightarrow> rat" where
  "unit_clamp x = (if x < 0 then 0 else if x > 1 then 1 else x)"

lemma quantise_value:
  obtains q :: nat where "unat (quantise x) = q" "q \<le> 65535"
    "\<bar>of_nat q - unit_clamp x * 65535\<bar> \<le> 1/2 + 2 * pow2 (-8)"
proof -
  define y where "y = unit_clamp x * 65535"
  define a where "a = f32 y"
  define b where "b = f32 (a + 1/2)"
  have y: "0 \<le> y" "y \<le> 65535" by (simp_all add: y_def unit_clamp_def)
  have a: "0 \<le> a" "a \<le> 65535" using y f32_le_int [of y 65535] by (simp_all add: a_def f32_nonneg)
  have ea: "\<bar>a - y\<bar> \<le> pow2 (-8)"
    using f32_error [of y 16] y by (simp add: a_def pow2_nat)
  have e2: "f32 (131071/2) = 131071/2" by code_simp
  have b: "0 \<le> b" "b \<le> 65535 + 1/2"
    using a f32_mono [of "a + 1/2" "131071/2"] by (simp_all add: b_def f32_nonneg e2)
  have eb: "\<bar>b - (a + 1/2)\<bar> \<le> pow2 (-8)"
    using f32_error [of "a + 1/2" 16] a by (simp add: b_def pow2_nat)
  define q where "q = nat \<lfloor>b\<rfloor>"
  have f: "0 \<le> \<lfloor>b\<rfloor>" "\<lfloor>b\<rfloor> \<le> 65535" using b by (simp_all add: floor_le_iff)
  have "quantise x = of_int \<lfloor>b\<rfloor>" using b by (simp add: quantise_def unit_clamp_def Let_def trunc_def b_def a_def y_def)
  then have "unat (quantise x) = q" using f by (simp add: q_def unsigned_of_int take_bit_int_eq_self)
  moreover have "q \<le> 65535" using f unfolding q_def by linarith
  moreover have "\<bar>of_nat q - y\<bar> \<le> 1/2 + 2 * pow2 (-8)"
  proof -
    have "(of_nat q :: rat) = of_int \<lfloor>b\<rfloor>" using f by (simp add: q_def)
    moreover have "of_int \<lfloor>b\<rfloor> \<le> b" "b < of_int \<lfloor>b\<rfloor> + 1" by linarith+
    ultimately show ?thesis using ea eb unfolding abs_le_iff by linarith
  qed
  ultimately show thesis using that y_def by blast
qed

lemma quantise_less: "unat (quantise x) < 65536"
proof -
  obtain q where "unat (quantise x) = q" "q \<le> 65535" using quantise_value [of x] by metis
  then show ?thesis by simp
qed

text \<open>C28: A probability that goes through the cache comes back within one quantisation step of
  the value stored, clamped to the unit interval, and is itself a probability.\<close>

theorem cache_precision:
  "\<bar>dequantise (quantise x) - unit_clamp x\<bar> \<le> 1 / 65535 \<and>
   0 \<le> dequantise (quantise x) \<and> dequantise (quantise x) \<le> 1"
proof -
  obtain q where q: "unat (quantise x) = q" "q \<le> 65535"
    "\<bar>of_nat q - unit_clamp x * 65535\<bar> \<le> 1/2 + 2 * pow2 (-8)" using quantise_value [of x] by metis
  have i: "f32 (of_nat q) = of_nat q" using f32_int [of "int q"] q(2) by simp
  have d: "dequantise (quantise x) = f32 (of_nat q / 65535)" by (simp add: dequantise_def q(1) i)
  have r: "0 \<le> of_nat q / (65535::rat)" "of_nat q / (65535::rat) \<le> 1" using q(2) by simp_all
  have e: "\<bar>f32 (of_nat q / 65535) - of_nat q / 65535\<bar> \<le> pow2 (-24)"
    using f32_error [of "of_nat q / 65535" 0] r by (simp add: pow2_nat)
  have p: "pow2 (-8) = 1/256" "pow2 (-24) = 1/16777216" by (simp_all add: pow2_def)
  have "\<bar>f32 (of_nat q / 65535) - unit_clamp x\<bar> \<le> 1 / 65535"
    using e q(3) unfolding abs_le_iff p by linarith
  then show ?thesis using r f32_le_int [of "of_nat q / 65535" 1] by (simp add: d f32_nonneg)
qed

subsection \<open>What a probe finds\<close>

definition run_stores :: "(u64 \<times> rat \<times> rat) list \<Rightarrow> eval_cache \<Rightarrow> eval_cache" where
  "run_stores ops c = fold (\<lambda>(k, w, d). Store k w d) ops c"

text \<open>The latest of the stores that went to a slot.\<close>

definition last_store :: "eval_cache \<Rightarrow> (u64 \<times> rat \<times> rat) list \<Rightarrow> nat \<Rightarrow> (u64 \<times> rat \<times> rat) option" where
  "last_store c ops i = find (\<lambda>(k, w, d). slot_of c k = i) (rev ops)"

definition stored_slots :: "eval_cache \<Rightarrow> (u64 \<times> rat \<times> rat) list \<Rightarrow> nat set" where
  "stored_slots c ops = (\<lambda>(k, w, d). slot_of c k) ` set ops"

definition entry_word :: "u64 \<times> rat \<times> rat \<Rightarrow> u64" where
  "entry_word = (\<lambda>(k, w, d). pack_entry (Tag k) (quantise w) (quantise d))"

lemma slot_of_less: "capacity c \<noteq> 0 \<Longrightarrow> slot_of c key < unat (capacity c)"
proof -
  assume c: "capacity c \<noteq> 0"
  have "unat (key AND (capacity c - 1)) \<le> unat (capacity c - 1)"
    using word_and_le1 [of key "capacity c - 1"] by (simp add: word_le_nat_alt)
  also have "\<dots> < unat (capacity c)" using c by (simp add: unat_minus_one unat_gt_0)
  finally show ?thesis by (simp add: slot_of_def)
qed

lemma run_stores_invariant:
  fixes c :: eval_cache
  assumes c: "capacity c \<noteq> 0"
  defines "c0 \<equiv> Clear c"
  shows "capacity (run_stores ops c0) = capacity c \<and> length (cache_table (run_stores ops c0)) = unat (capacity c) \<and>
    (\<forall>i < unat (capacity c). cache_table (run_stores ops c0) ! i =
       (case last_store c ops i of None \<Rightarrow> 0 | Some e \<Rightarrow> entry_word e)) \<and>
    occupied_slots (run_stores ops c0) = of_nat (card (stored_slots c ops))"
proof (induction ops rule: rev_induct)
  case Nil
  then show ?case by (simp add: run_stores_def c0_def Clear_def last_store_def stored_slots_def)
next
  case (snoc op ops)
  obtain k w d where op: "op = (k, w, d)" by (cases op)
  define s where "s = run_stores ops c0"
  have run: "run_stores (ops @ [op]) c0 = Store k w d s" by (simp add: run_stores_def op s_def)
  have slot: "slot_of s k = slot_of c k" using snoc by (simp add: slot_of_def s_def)
  note less = slot_of_less [OF c, of k]
  have z: "cache_table s ! slot_of c k = 0 \<longleftrightarrow> slot_of c k \<notin> stored_slots c ops"
  proof -
    have "cache_table s ! slot_of c k = (case last_store c ops (slot_of c k) of None \<Rightarrow> 0 | Some e \<Rightarrow> entry_word e)"
      using snoc less by (simp add: s_def)
    moreover have "last_store c ops (slot_of c k) = None \<longleftrightarrow> slot_of c k \<notin> stored_slots c ops"
      unfolding last_store_def find_None_iff stored_slots_def by force
    ultimately show ?thesis
      by (auto simp: entry_word_def pack_entry_neq0 quantise_less split: option.split)
  qed
  have last: "last_store c (ops @ [op]) i = (if slot_of c k = i then Some op else last_store c ops i)" for i
    by (simp add: last_store_def op)
  have slots: "stored_slots c (ops @ [op]) = insert (slot_of c k) (stored_slots c ops)"
    by (simp add: stored_slots_def op)
  have fin: "finite (stored_slots c ops)" by (simp add: stored_slots_def)
  show ?case
    using snoc c less z fin unfolding run slots last s_def [symmetric]
    by (auto simp: Store_def Let_def slot nth_list_update entry_word_def op card_insert_if insert_absorb)
qed

text \<open>C29: A probe hits exactly when the last value stored in the key's slot carries the key's tag,
  and then returns that store's two probabilities after quantisation; the counter of occupied
  entries is the number of slots written since the table was sized.\<close>

theorem cache_hits:
  assumes "Enabled (Resize mb new_cache)"
  shows "fst (Probe_cache key (run_stores ops (Resize mb new_cache))) =
      (case last_store (Resize mb new_cache) ops (slot_of (Resize mb new_cache) key) of
         None \<Rightarrow> None
       | Some (k, w, d) \<Rightarrow>
           if Tag k = Tag key then Some (dequantise (quantise w), dequantise (quantise d)) else None) \<and>
    occupied_slots (run_stores ops (Resize mb new_cache)) =
      of_nat (card (stored_slots (Resize mb new_cache) ops))"
proof -
  define c where "c = Resize mb new_cache"
  have c: "capacity c \<noteq> 0" using assms by (simp add: Enabled_def c_def)
  have clear: "Clear c = c" by (simp add: c_def Resize_def Clear_def Let_def)
  note i = run_stores_invariant [OF c, of ops, unfolded clear]
  define s where "s = run_stores ops c"
  have slot: "slot_of s key = slot_of c key" using i by (simp add: slot_of_def s_def)
  have t: "cache_table s ! slot_of c key =
      (case last_store c ops (slot_of c key) of None \<Rightarrow> 0 | Some e \<Rightarrow> entry_word e)"
    using i slot_of_less [OF c, of key] by (simp add: s_def)
  have z: "(ucast (drop_bit 32 (0 :: u64)) :: u32) = 0" by simp
  have cap: "capacity s \<noteq> 0" using i c by (simp add: s_def)
  show ?thesis
    using i t cap Tag_neq0 [of key] z unfolding c_def [symmetric] s_def [symmetric]
    by (auto simp: Probe_cache_def Let_def slot entry_word_def pack_entry_fields quantise_less slot_of_def
        split: option.splits prod.splits)
qed

lemma sample_cache: "capacity (Resize 1 new_cache) = 131072"
proof -
  have u: "unat (1 * 1024 * 1024 div 8 :: u64) = 131072" by simp
  have "grow_capacity 131072 1 = 131072" by (simp add: grow_capacity.simps)
  then show ?thesis unfolding Resize_def Let_def u by (simp add: Clear_def)
qed

theorem cache_hits_witness:
  "fst (Probe_cache 5 (run_stores [(5, 1, 0), (6, 0, 1)] (Resize 1 new_cache))) =
     Some (dequantise (quantise 1), dequantise (quantise 0))"
proof -
  have e: "Enabled (Resize 1 new_cache)" by (simp add: Enabled_def sample_cache)
  have l: "last_store (Resize 1 new_cache) [(5, 1, 0), (6, 0, 1)] (slot_of (Resize 1 new_cache) 5) = Some (5, 1, 0)"
    by (simp add: last_store_def slot_of_def sample_cache)
  show ?thesis using cache_hits [OF e, of 5 "[(5, 1, 0), (6, 0, 1)]"] l by simp
qed

end
