(* ===== verification/Records.thy ===== *)
theory Records
  imports Ybb
begin

text \<open>
  The training record files of nnue/record.h and nnue/record.cc.  The packed structs are the
  little-endian byte sequences the code writes.  A file open for writing is a C stream: bytes on the
  device, bytes in the library's buffer, and the room the device has left.  When the library hands
  buffered bytes to the device is its own affair and a parameter of every write, so that an
  \<open>fwrite\<close> may succeed on bytes a full device never takes, and the flush of \<open>fclose\<close> may fail.  A
  file open for reading is its remaining bytes.
\<close>

record file_header =
  magic :: "u8 list"
  version :: u32
  fh_reserved :: u32

record record_head =
  rh_sfen :: "u8 list"
  rh_score :: u16
  rh_move :: u16
  game_ply16 :: u16
  rh_result :: u8
  rh_flags :: u8
  n_dist :: u16
  rh_reserved :: u16

record dist_entry =
  dist_move :: u16
  visits :: u16

record training_record =
  rec_head :: record_head
  rec_dist :: "dist_entry list"

definition kRecordMagic :: "u8 list" where
  "kRecordMagic = map (\<lambda>c. of_nat (of_char c)) ''JHBR5RC'' @ [0]"

definition kRecordVersion :: u32 where "kRecordVersion = 1"
definition kHasDist :: u8 where "kHasDist = 1"

subsection \<open>The bytes of the structs\<close>

definition StoreLe32 :: "u32 \<Rightarrow> u8 list" where
  "StoreLe32 v = StoreLe16 (ucast v) @ StoreLe16 (ucast (drop_bit 16 v))"

definition ReadLe32 :: "u8 list \<Rightarrow> u32" where
  "ReadLe32 bs = ucast (ReadLe16 bs) OR push_bit 16 (ucast (ReadLe16 (drop 2 bs)))"

definition header_bytes :: "file_header \<Rightarrow> u8 list" where
  "header_bytes h = magic h @ StoreLe32 (version h) @ StoreLe32 (fh_reserved h)"

definition head_bytes :: "record_head \<Rightarrow> u8 list" where
  "head_bytes h = rh_sfen h @ StoreLe16 (rh_score h) @ StoreLe16 (rh_move h) @ StoreLe16 (game_ply16 h) @
     [rh_result h, rh_flags h] @ StoreLe16 (n_dist h) @ StoreLe16 (rh_reserved h)"

definition head_of_bytes :: "u8 list \<Rightarrow> record_head" where
  "head_of_bytes bs = \<lparr>rh_sfen = take 32 bs, rh_score = ReadLe16 (drop 32 bs), rh_move = ReadLe16 (drop 34 bs),
     game_ply16 = ReadLe16 (drop 36 bs), rh_result = bs ! 38, rh_flags = bs ! 39,
     n_dist = ReadLe16 (drop 40 bs), rh_reserved = ReadLe16 (drop 42 bs)\<rparr>"

definition dist_bytes :: "dist_entry \<Rightarrow> u8 list" where
  "dist_bytes d = StoreLe16 (dist_move d) @ StoreLe16 (visits d)"

definition dist_of_bytes :: "u8 list \<Rightarrow> dist_entry" where
  "dist_of_bytes bs = \<lparr>dist_move = ReadLe16 bs, visits = ReadLe16 (drop 2 bs)\<rparr>"

subsection \<open>Writing\<close>

text \<open>A stream: the bytes the device has taken, the room it has left, and the bytes still in the
  buffer. A device that has refused bytes takes none afterwards.\<close>

record out_file =
  contents :: "u8 list"
  room :: nat
  pending :: "u8 list"

text \<open>The buffering of the C library: how many of the pending bytes a call hands to the device, given
  the stream and the new bytes.\<close>

type_synonym stdio = "out_file \<Rightarrow> u8 list \<Rightarrow> nat"

definition to_device :: "nat \<Rightarrow> out_file \<Rightarrow> bool \<times> out_file" where
  "to_device n f =
     (let bs = take n (pending f)
      in (length bs \<le> room f,
          f\<lparr>contents := contents f @ take (room f) bs, room := room f - length bs,
            pending := drop (min (room f) n) (pending f)\<rparr>))"

definition fwrite :: "stdio \<Rightarrow> u8 list \<Rightarrow> out_file \<Rightarrow> bool \<times> out_file" where
  "fwrite lib bs f = to_device (lib f bs) (f\<lparr>pending := pending f @ bs\<rparr>)"

definition fclose :: "out_file \<Rightarrow> bool \<times> out_file" where
  "fclose f = to_device (length (pending f)) f"

record writer =
  out :: "out_file option"
  written :: u64

datatype open_error = CannotCreate | CannotWriteHeader | CannotOpen | NotARecordFile | UnsupportedVersion

text \<open>\<open>Close\<close> ignores what \<open>fclose\<close> answers. The closed file is returned beside the writer, as it
  outlives it.\<close>

definition Close_writer :: "writer \<Rightarrow> out_file option \<times> writer" where
  "Close_writer w = (map_option (\<lambda>f. snd (fclose f)) (out w), w\<lparr>out := None\<rparr>)"

text \<open>\<open>created\<close> is what \<open>fopen\<close> returns: nothing, or an empty file with its room.\<close>

definition Open_writer :: "stdio \<Rightarrow> out_file option \<Rightarrow> writer \<Rightarrow> open_error option \<times> writer" where
  "Open_writer lib created w =
     (let w = snd (Close_writer w) in
      case created of
        None \<Rightarrow> (Some CannotCreate, w)
      | Some f \<Rightarrow>
          let (ok, f) = fwrite lib (header_bytes \<lparr>magic = kRecordMagic, version = kRecordVersion, fh_reserved = 0\<rparr>) f
          in if \<not> ok then (Some CannotWriteHeader, snd (Close_writer (w\<lparr>out := Some f\<rparr>)))
             else (None, w\<lparr>out := Some f, written := 0\<rparr>))"

definition Write :: "stdio \<Rightarrow> training_record \<Rightarrow> writer \<Rightarrow> bool \<times> writer" where
  "Write lib r w =
     (case out w of
        None \<Rightarrow> (False, w)
      | Some f \<Rightarrow>
          let head = (rec_head r)\<lparr>n_dist := of_nat (length (rec_dist r))\<rparr>;
              head = (if rec_dist r \<noteq> [] then head\<lparr>rh_flags := rh_flags head OR kHasDist\<rparr> else head);
              (ok, f) = fwrite lib (head_bytes head) f
          in if \<not> ok then (False, w\<lparr>out := Some f\<rparr>)
             else if rec_dist r \<noteq> [] then
               let (ok, f) = fwrite lib (concat (map dist_bytes (rec_dist r))) f
               in if \<not> ok then (False, w\<lparr>out := Some f\<rparr>) else (True, w\<lparr>out := Some f, written := written w + 1\<rparr>)
             else (True, w\<lparr>out := Some f, written := written w + 1\<rparr>))"

subsection \<open>Reading\<close>

record reader =
  inp :: "u8 list option"
  read_count :: u64

definition Close_reader :: "reader \<Rightarrow> reader" where
  "Close_reader r = r\<lparr>inp := None\<rparr>"

definition Open_reader :: "u8 list option \<Rightarrow> reader \<Rightarrow> open_error option \<times> reader" where
  "Open_reader opened r =
     (let r = Close_reader r in
      case opened of
        None \<Rightarrow> (Some CannotOpen, r)
      | Some bs \<Rightarrow>
          if length bs < 16 \<or> take 8 bs \<noteq> kRecordMagic then (Some NotARecordFile, Close_reader r)
          else if ReadLe32 (drop 8 bs) \<noteq> kRecordVersion then (Some UnsupportedVersion, Close_reader r)
          else (None, r\<lparr>inp := Some (drop 16 bs), read_count := 0\<rparr>))"

text \<open>Entry \<open>i\<close> of the array \<open>fread\<close> filled.\<close>

definition dist_array :: "nat \<Rightarrow> u8 list \<Rightarrow> dist_entry list" where
  "dist_array n bs = map (\<lambda>i. dist_of_bytes (drop (4 * i) bs)) [0..<n]"

definition Next :: "reader \<Rightarrow> training_record option \<times> reader" where
  "Next r =
     (case inp r of
        None \<Rightarrow> (None, r)
      | Some bs \<Rightarrow>
          if length bs < 44 then (None, r\<lparr>inp := Some []\<rparr>)
          else
            let head = head_of_bytes (take 44 bs); bs = drop 44 bs; n = unat (n_dist head) in
            if n \<noteq> 0 \<and> length bs < 4 * n then (None, r\<lparr>inp := Some []\<rparr>)
            else (Some \<lparr>rec_head = head, rec_dist = dist_array n bs\<rparr>,
                  r\<lparr>inp := Some (drop (4 * n) bs), read_count := read_count r + 1\<rparr>))"

text \<open>The loop of every reader of these files: records until \<open>Next\<close> fails.\<close>

function read_all :: "reader \<Rightarrow> training_record list" where
  "read_all r = (case Next r of (None, _) \<Rightarrow> [] | (Some x, r) \<Rightarrow> x # read_all r)"
  by pat_completeness auto
termination read_all
  by (relation "measure (\<lambda>r. case inp r of None \<Rightarrow> 0 | Some bs \<Rightarrow> length bs)")
    (auto simp: Next_def Let_def split: option.splits if_splits)

declare read_all.simps [simp del]

subsection \<open>The layout round trips\<close>

lemma length_bytes [simp]:
  "length (StoreLe32 v) = 4" "length (dist_bytes d) = 4"
  "length (rh_sfen h) = 32 \<Longrightarrow> length (head_bytes h) = 44"
  "length (header_bytes \<lparr>magic = kRecordMagic, version = v, fh_reserved = z\<rparr>) = 16"
  by (simp_all add: StoreLe32_def dist_bytes_def head_bytes_def header_bytes_def kRecordMagic_def)

lemma StoreLe16_two: obtains a b where "StoreLe16 v = [a, b]"
  by (simp add: StoreLe16_def)

lemma drop_sfen: "length xs = 32 \<Longrightarrow> drop (32 + n) (xs @ ys) = drop n ys"
  by simp

lemma head_of_bytes_inverse:
  assumes "length (rh_sfen h) = 32"
  shows "head_of_bytes (head_bytes h @ rest) = h"
proof -
  have d: "drop n (rh_sfen h @ ys) = drop (n - 32) ys" if "32 \<le> n" for n and ys :: "u8 list"
    using that assms by simp
  have i: "(rh_sfen h @ ys) ! n = ys ! (n - 32)" if "32 \<le> n" for n and ys :: "u8 list"
    using that assms by (simp add: nth_append)
  have e: "drop 2 (StoreLe16 v @ ys) = ys" "drop 4 (StoreLe16 v @ StoreLe16 u @ ys) = ys"
    "drop 8 (StoreLe16 v @ StoreLe16 u @ StoreLe16 x @ b # c # ys) = ys"
    "drop 10 (StoreLe16 v @ StoreLe16 u @ StoreLe16 x @ b # c # StoreLe16 y @ ys) = ys"
    "(StoreLe16 v @ StoreLe16 u @ StoreLe16 x @ b # ys) ! 6 = b"
    "(StoreLe16 v @ StoreLe16 u @ StoreLe16 x @ b # c # ys) ! 7 = c" for v u x y b c and ys :: "u8 list"
    by (simp_all add: StoreLe16_def numeral_eq_Suc)
  show ?thesis using assms by (simp add: head_of_bytes_def head_bytes_def d i e)
qed

lemma dist_of_bytes_inverse: "dist_of_bytes (dist_bytes d @ rest) = d"
proof -
  have "drop 2 (StoreLe16 v @ ys) = ys" for v and ys :: "u8 list" by (simp add: StoreLe16_def numeral_eq_Suc)
  then show ?thesis by (simp add: dist_of_bytes_def dist_bytes_def)
qed

lemma length_dists: "length (concat (map dist_bytes ds)) = 4 * length ds"
  by (induction ds) simp_all

lemma dist_array_Cons: "dist_array (Suc n) (dist_bytes d @ ys) = d # dist_array n ys"
proof -
  have "drop (4 * Suc i) (dist_bytes d @ ys) = drop (4 * i) ys" for i by simp
  then have "map (\<lambda>i. dist_of_bytes (drop (4 * i) (dist_bytes d @ ys))) (map Suc [0..<n]) = dist_array n ys"
    by (simp only: map_map o_def dist_array_def)
  then show ?thesis
    by (simp add: dist_array_def upt_conv_Cons map_Suc_upt dist_of_bytes_inverse del: upt_Suc)
qed

lemma dist_array_inverse: "dist_array (length ds) (concat (map dist_bytes ds) @ rest) = ds"
  by (induction ds) (simp_all add: dist_array_Cons, simp add: dist_array_def)

subsection \<open>The stream of a list of records\<close>

definition normalised :: "training_record \<Rightarrow> training_record" where
  "normalised r =
     (let h = (rec_head r)\<lparr>n_dist := of_nat (length (rec_dist r))\<rparr>
      in r\<lparr>rec_head := (if rec_dist r \<noteq> [] then h\<lparr>rh_flags := rh_flags h OR kHasDist\<rparr> else h)\<rparr>)"

definition record_bytes :: "training_record \<Rightarrow> u8 list" where
  "record_bytes r = head_bytes (rec_head (normalised r)) @ concat (map dist_bytes (rec_dist r))"

definition record_ok :: "training_record \<Rightarrow> bool" where
  "record_ok r \<longleftrightarrow> length (rh_sfen (rec_head r)) = 32 \<and> length (rec_dist r) < 2 ^ 16"

text \<open>How many whole records fit.\<close>

fun fitting :: "nat \<Rightarrow> training_record list \<Rightarrow> nat" where
  "fitting k [] = 0"
| "fitting k (r # rs) =
     (if length (record_bytes r) \<le> k then Suc (fitting (k - length (record_bytes r)) rs) else 0)"

lemma normalised_sel [simp]:
  "rec_dist (normalised r) = rec_dist r" "rh_sfen (rec_head (normalised r)) = rh_sfen (rec_head r)"
  "n_dist (rec_head (normalised r)) = of_nat (length (rec_dist r))"
  by (simp_all add: normalised_def Let_def)

lemma length_record_bytes: "record_ok r \<Longrightarrow> length (record_bytes r) = 44 + 4 * length (rec_dist r)"
  by (simp add: record_bytes_def record_ok_def length_dists)

lemma no_room: "record_ok r \<Longrightarrow> fitting 0 (r # rs) = 0"
  by (simp add: length_record_bytes)

lemma fitting_0: "\<forall>r \<in> set rs. record_ok r \<Longrightarrow> fitting 0 rs = 0"
  by (cases rs) (simp_all add: length_record_bytes)

text \<open>The stream holds the bytes \<open>s\<close>, on a device with room for \<open>k\<close>: nothing lost so far, or the
  device full with the first \<open>k\<close> of them.\<close>

definition sound :: "nat \<Rightarrow> u8 list \<Rightarrow> out_file \<Rightarrow> bool" where
  "sound k s f \<longleftrightarrow> contents f @ pending f = s \<and> length (contents f) + room f = k"

definition full :: "nat \<Rightarrow> u8 list \<Rightarrow> out_file \<Rightarrow> bool" where
  "full k s f \<longleftrightarrow> contents f = take k s \<and> room f = 0 \<and> k \<le> length s"

lemma to_device_sound:
  assumes "sound k s f"
  shows "if fst (to_device n f) then sound k s (snd (to_device n f)) else full k s (snd (to_device n f))"
    "length s \<le> k \<Longrightarrow> fst (to_device n f)"
    "length (pending f) \<le> n \<Longrightarrow> fst (to_device n f) \<longleftrightarrow> length s \<le> k"
  using assms by (auto simp: to_device_def Let_def sound_def full_def min_def)

lemma to_device_full: "full k s f \<Longrightarrow> full k s (snd (to_device n f))"
  by (auto simp: to_device_def Let_def full_def)

lemma full_more: "full k s f \<Longrightarrow> full k (s @ bs) f"
  by (simp add: full_def)

lemma fwrite_sound:
  assumes "sound k s f"
  shows "if fst (fwrite lib bs f) then sound k (s @ bs) (snd (fwrite lib bs f)) else full k (s @ bs) (snd (fwrite lib bs f))"
    "length (s @ bs) \<le> k \<Longrightarrow> fst (fwrite lib bs f)"
    "length (pending f @ bs) \<le> lib f bs \<Longrightarrow> fst (fwrite lib bs f) \<longleftrightarrow> length (s @ bs) \<le> k"
proof -
  have f: "sound k (s @ bs) (f\<lparr>pending := pending f @ bs\<rparr>)" using assms by (simp add: sound_def)
  note d = to_device_sound [OF f, of "lib f bs", folded fwrite_def]
  show "if fst (fwrite lib bs f) then sound k (s @ bs) (snd (fwrite lib bs f)) else full k (s @ bs) (snd (fwrite lib bs f))"
    by (rule d(1))
  show "length (s @ bs) \<le> k \<Longrightarrow> fst (fwrite lib bs f)" by (rule d(2))
  show "length (pending f @ bs) \<le> lib f bs \<Longrightarrow> fst (fwrite lib bs f) \<longleftrightarrow> length (s @ bs) \<le> k"
    using d(3) by simp
qed

lemma fwrite_full:
  assumes "full k s f"
  shows "full k (s @ bs) (snd (fwrite lib bs f))"
    "bs \<noteq> [] \<Longrightarrow> length (pending f @ bs) \<le> lib f bs \<Longrightarrow> \<not> fst (fwrite lib bs f)"
proof -
  have f: "full k s (f\<lparr>pending := pending f @ bs\<rparr>)" using assms by (simp add: full_def)
  show "full k (s @ bs) (snd (fwrite lib bs f))"
    unfolding fwrite_def by (rule full_more [OF to_device_full [OF f]])
  show "bs \<noteq> [] \<Longrightarrow> length (pending f @ bs) \<le> lib f bs \<Longrightarrow> \<not> fst (fwrite lib bs f)"
    using assms by (auto simp: fwrite_def to_device_def Let_def full_def)
qed

lemma fclose_contents: "sound k s f \<or> full k s f \<Longrightarrow> contents (snd (fclose f)) = take k s"
  by (auto simp: fclose_def to_device_def Let_def sound_def full_def)

text \<open>A library without a buffer, and one whose buffer is never handed over before the close.\<close>

definition unbuffered :: "stdio \<Rightarrow> bool" where
  "unbuffered lib \<longleftrightarrow> (\<forall>f bs. length (pending f @ bs) \<le> lib f bs)"

definition keeps_all :: "stdio \<Rightarrow> bool" where
  "keeps_all lib \<longleftrightarrow> (\<forall>f bs. lib f bs = 0)"

lemma keeps_all_fwrite: "keeps_all lib \<Longrightarrow> fst (fwrite lib bs f)"
  by (simp add: keeps_all_def fwrite_def to_device_def)

lemma Write_two:
  "out w = Some f \<Longrightarrow> Write lib r w =
    (let (ok, g) = fwrite lib (head_bytes (rec_head (normalised r))) f;
         (ok', g') = (if ok \<and> rec_dist r \<noteq> [] then fwrite lib (concat (map dist_bytes (rec_dist r))) g else (ok, g))
     in (ok', w\<lparr>out := Some g', written := written w + (if ok' then 1 else 0)\<rparr>))"
  by (cases w; cases "rec_dist r = []") (simp_all add: Write_def normalised_def Let_def case_prod_beta)

lemma Write_sound:
  assumes r: "record_ok r" and w: "out w = Some f" and f: "sound k s f"
  obtains ok g where "Write lib r w = (ok, w\<lparr>out := Some g, written := written w + (if ok then 1 else 0)\<rparr>)"
    "if ok then sound k (s @ record_bytes r) g else full k (s @ record_bytes r) g"
    "length (s @ record_bytes r) \<le> k \<Longrightarrow> ok" "unbuffered lib \<Longrightarrow> ok \<longleftrightarrow> length (s @ record_bytes r) \<le> k"
    "keeps_all lib \<Longrightarrow> ok"
proof -
  define h where "h = head_bytes (rec_head (normalised r))"
  define ds where "ds = concat (map dist_bytes (rec_dist r))"
  have b: "record_bytes r = h @ ds" by (simp add: record_bytes_def h_def ds_def)
  have sb: "s @ record_bytes r = (s @ h) @ ds" by (simp add: b)
  obtain ok g where hd: "fwrite lib h f = (ok, g)" by (rule prod.exhaust)
  note f1 = fwrite_sound [OF f, where lib = lib and bs = h, unfolded hd fst_conv snd_conv]
  show thesis
  proof (cases "ok \<and> rec_dist r \<noteq> []")
    case True
    obtain ok' g' where tl: "fwrite lib ds g = (ok', g')" by (rule prod.exhaust)
    have g: "sound k (s @ h) g" using True f1(1) by simp
    note f2 = fwrite_sound [OF g, where lib = lib and bs = ds, unfolded tl fst_conv snd_conv]
    show thesis
    proof (rule that [of ok' g'])
      show "Write lib r w = (ok', w\<lparr>out := Some g', written := written w + (if ok' then 1 else 0)\<rparr>)"
        using True by (simp add: Write_two [OF w] hd [unfolded h_def] tl [unfolded ds_def])
    qed (use f2 keeps_all_fwrite [of lib ds g] tl in \<open>simp_all add: sb unbuffered_def del: append_assoc\<close>)
  next
    case False
    have d: "ok \<Longrightarrow> ds = []" using False by (simp add: ds_def)
    show thesis
    proof (rule that [of ok g])
      show "Write lib r w = (ok, w\<lparr>out := Some g, written := written w + (if ok then 1 else 0)\<rparr>)"
        using False by (auto simp: Write_two [OF w] hd [unfolded h_def])
      show "if ok then sound k (s @ record_bytes r) g else full k (s @ record_bytes r) g"
        using f1(1) d full_more [of k "s @ h" g ds] by (auto simp: b)
      show "length (s @ record_bytes r) \<le> k \<Longrightarrow> ok" using f1(2) by (simp add: b)
      show "unbuffered lib \<Longrightarrow> ok \<longleftrightarrow> length (s @ record_bytes r) \<le> k"
        using f1(2,3) d by (auto simp: b unbuffered_def)
      show "keeps_all lib \<Longrightarrow> ok" using keeps_all_fwrite [of lib h f] hd by simp
    qed
  qed
qed

lemma Write_full:
  assumes r: "record_ok r" and w: "out w = Some f" and f: "full k s f"
  obtains ok g where "Write lib r w = (ok, w\<lparr>out := Some g, written := written w + (if ok then 1 else 0)\<rparr>)"
    "full k (s @ record_bytes r) g" "unbuffered lib \<Longrightarrow> \<not> ok" "keeps_all lib \<Longrightarrow> ok"
proof -
  define h where "h = head_bytes (rec_head (normalised r))"
  define ds where "ds = concat (map dist_bytes (rec_dist r))"
  have b: "record_bytes r = h @ ds" by (simp add: record_bytes_def h_def ds_def)
  have "length h = 44" using r by (simp add: h_def record_ok_def)
  then have ne: "h \<noteq> []" by auto
  obtain ok g where hd: "fwrite lib h f = (ok, g)" by (rule prod.exhaust)
  obtain ok' g' where tl: "(if ok \<and> rec_dist r \<noteq> [] then fwrite lib ds g else (ok, g)) = (ok', g')" by (rule prod.exhaust)
  note f1 = fwrite_full [OF f, where bs = h and lib = lib, unfolded hd fst_conv snd_conv]
  show thesis
  proof (rule that [of ok' g'])
    show "Write lib r w = (ok', w\<lparr>out := Some g', written := written w + (if ok' then 1 else 0)\<rparr>)"
      by (simp add: Write_two [OF w] hd [unfolded h_def] tl [unfolded ds_def])
    show "full k (s @ record_bytes r) g'"
      using fwrite_full(1) [OF f1(1), where bs = ds and lib = lib] full_more [OF f1(1), of ds] tl by (auto simp: b split: if_splits)
    show "unbuffered lib \<Longrightarrow> \<not> ok'" using f1(2) [OF ne] tl by (auto simp: unbuffered_def split: if_splits)
    show "keeps_all lib \<Longrightarrow> ok'"
      using keeps_all_fwrite [of lib h f] keeps_all_fwrite [of lib ds g] hd tl by (auto split: if_splits)
  qed
qed

definition write_all :: "stdio \<Rightarrow> training_record list \<Rightarrow> writer \<Rightarrow> writer" where
  "write_all lib rs w = fold (\<lambda>r w. snd (Write lib r w)) rs w"

lemma write_all_Cons: "write_all lib (r # rs) w = write_all lib rs (snd (Write lib r w))"
  by (simp add: write_all_def)

lemma write_all_full:
  assumes "\<forall>r \<in> set rs. record_ok r" "out w = Some f" "full k s f"
  shows "\<exists>f' c. out (write_all lib rs w) = Some f' \<and> full k (s @ concat (map record_bytes rs)) f' \<and>
    written (write_all lib rs w) = written w + of_nat c \<and> c \<le> length rs \<and>
    (unbuffered lib \<longrightarrow> c = 0) \<and> (keeps_all lib \<longrightarrow> c = length rs)"
  using assms
proof (induction rs arbitrary: w f s)
  case Nil
  then show ?case by (auto simp: write_all_def)
next
  case (Cons r rs)
  from Cons.prems have r: "record_ok r" by simp
  obtain ok g where g: "Write lib r w = (ok, w\<lparr>out := Some g, written := written w + (if ok then 1 else 0)\<rparr>)"
    "full k (s @ record_bytes r) g" "unbuffered lib \<Longrightarrow> \<not> ok" "keeps_all lib \<Longrightarrow> ok"
    by (rule Write_full [OF r Cons.prems(2,3), where lib = lib]) (rule that)
  define w' where "w' = w\<lparr>out := Some g, written := written w + (if ok then 1 else 0)\<rparr>"
  have w': "out w' = Some g" "written w' = written w + (if ok then 1 else 0)" by (simp_all add: w'_def)
  obtain f' c where i: "out (write_all lib rs w') = Some f'" "full k ((s @ record_bytes r) @ concat (map record_bytes rs)) f'"
    "written (write_all lib rs w') = written w' + of_nat c" "c \<le> length rs"
    "unbuffered lib \<longrightarrow> c = 0" "keeps_all lib \<longrightarrow> c = length rs"
    using Cons.IH [OF _ w'(1) g(2)] Cons.prems(1) by auto
  have "write_all lib (r # rs) w = write_all lib rs w'" by (simp add: write_all_Cons g(1) w'_def)
  then show ?case using i g(3,4) w'(2)
    by (intro exI [of _ f'] exI [of _ "(if ok then Suc c else c)"]) (auto simp: ac_simps)
qed

lemma write_all_sound:
  assumes "\<forall>r \<in> set rs. record_ok r" "out w = Some f" "sound k s f"
  shows "\<exists>f' c. out (write_all lib rs w) = Some f' \<and>
    (sound k (s @ concat (map record_bytes rs)) f' \<or> full k (s @ concat (map record_bytes rs)) f') \<and>
    written (write_all lib rs w) = written w + of_nat c \<and> fitting (k - length s) rs \<le> c \<and> c \<le> length rs \<and>
    (unbuffered lib \<longrightarrow> c = fitting (k - length s) rs) \<and> (keeps_all lib \<longrightarrow> c = length rs)"
  using assms
proof (induction rs arbitrary: w f s)
  case Nil
  then show ?case by (auto simp: write_all_def)
next
  case (Cons r rs)
  from Cons.prems have r: "record_ok r" by simp
  obtain ok g where g: "Write lib r w = (ok, w\<lparr>out := Some g, written := written w + (if ok then 1 else 0)\<rparr>)"
    "if ok then sound k (s @ record_bytes r) g else full k (s @ record_bytes r) g"
    "length (s @ record_bytes r) \<le> k \<Longrightarrow> ok" "unbuffered lib \<Longrightarrow> ok \<longleftrightarrow> length (s @ record_bytes r) \<le> k"
    "keeps_all lib \<Longrightarrow> ok"
    by (rule Write_sound [OF r Cons.prems(2,3), where lib = lib]) (rule that)
  define w' where "w' = w\<lparr>out := Some g, written := written w + (if ok then 1 else 0)\<rparr>"
  have w': "out w' = Some g" "written w' = written w + (if ok then 1 else 0)" by (simp_all add: w'_def)
  have run: "write_all lib (r # rs) w = write_all lib rs w'" by (simp add: write_all_Cons g(1) w'_def)
  have pos: "0 < length (record_bytes r)" using length_record_bytes [OF r] by simp
  have fits: "length (record_bytes r) \<le> k - length s \<longleftrightarrow> length (s @ record_bytes r) \<le> k"
    using pos unfolding length_append by linarith
  show ?case
  proof (cases ok)
    case True
    then have "sound k (s @ record_bytes r) g" using g(2) by simp
    from Cons.IH [OF _ w'(1) this] Cons.prems(1) obtain f' c where i: "out (write_all lib rs w') = Some f'"
      "sound k ((s @ record_bytes r) @ concat (map record_bytes rs)) f' \<or>
       full k ((s @ record_bytes r) @ concat (map record_bytes rs)) f'"
      "written (write_all lib rs w') = written w' + of_nat c"
      "fitting (k - length (s @ record_bytes r)) rs \<le> c" "c \<le> length rs"
      "unbuffered lib \<longrightarrow> c = fitting (k - length (s @ record_bytes r)) rs" "keeps_all lib \<longrightarrow> c = length rs"
      by auto
    show ?thesis using i w'(2) True g(4) fits
      by (intro exI [of _ f'] exI [of _ "Suc c"]) (auto simp: run ac_simps)
  next
    case False
    then have g2: "full k (s @ record_bytes r) g" using g(2) by simp
    have rs: "\<forall>r \<in> set rs. record_ok r" using Cons.prems(1) by simp
    obtain f' c where i: "out (write_all lib rs w') = Some f'" "full k ((s @ record_bytes r) @ concat (map record_bytes rs)) f'"
      "written (write_all lib rs w') = written w' + of_nat c" "c \<le> length rs"
      "unbuffered lib \<longrightarrow> c = 0" "keeps_all lib \<longrightarrow> c = length rs"
      using write_all_full [OF rs w'(1) g2] by blast
    have "\<not> length (s @ record_bytes r) \<le> k" using False g(3) by blast
    then show ?thesis using i w'(2) False g(5) fits
      by (intro exI [of _ f'] exI [of _ c]) (auto simp: run)
  qed
qed

lemma Next_stream:
  assumes r: "record_ok r" and i: "inp rd = Some (take k (record_bytes r @ rest))" and len: "k \<le> length (record_bytes r @ rest)"
  shows "if length (record_bytes r) \<le> k
    then Next rd = (Some (normalised r), rd\<lparr>inp := Some (take (k - length (record_bytes r)) rest), read_count := read_count rd + 1\<rparr>)
    else fst (Next rd) = None"
proof -
  define bs where "bs = take k (record_bytes r @ rest)"
  define h where "h = rec_head (normalised r)"
  define n where "n = length (rec_dist r)"
  have b: "record_bytes r = head_bytes h @ concat (map dist_bytes (rec_dist r))" by (simp add: record_bytes_def h_def)
  have sf: "length (rh_sfen h) = 32" using r by (simp add: h_def record_ok_def)
  have l: "length (head_bytes h) = 44" using sf by simp
  have lb: "length bs = k" using len by (simp add: bs_def)
  have lr: "length (record_bytes r) = 44 + 4 * n" using length_record_bytes [OF r] by (simp add: n_def)
  define tail where "tail = concat (map dist_bytes (rec_dist r)) @ rest"
  have head: "head_of_bytes (take 44 bs) = h" "drop 44 bs = take (k - 44) tail" if "44 \<le> k"
    using that l head_of_bytes_inverse [OF sf, of "[]"] by (simp_all add: bs_def b min_def tail_def)
  have lt: "length (take (k - 44) tail) = k - 44" if "44 \<le> k"
    using head(2) [OF that] lb by (metis length_drop)
  have n: "unat (n_dist h) = n" using r by (simp add: h_def n_def record_ok_def unat_of_nat)
  show ?thesis
  proof (cases "44 + 4 * n \<le> k")
    case True
    have "dist_array n (take (k - 44) tail) = rec_dist r"
      using True dist_array_inverse [of "rec_dist r" "take (k - 44 - 4 * n) rest"]
      by (simp add: n_def length_dists tail_def)
    moreover have "drop (4 * n) (take (k - 44) tail) = take (k - (44 + 4 * n)) rest"
      using True by (simp add: drop_take length_dists n_def tail_def)
    moreover have "\<lparr>rec_head = h, rec_dist = rec_dist r\<rparr> = normalised r" by (simp add: h_def)
    moreover have "\<not> k - 44 < 4 * n" using True by linarith
    ultimately show ?thesis
      using True head n lb lr lt i [folded bs_def] by (simp add: Next_def Let_def del: length_take)
  next
    case False
    have "fst (Next rd) = None"
    proof (cases "44 \<le> k")
      case t: True
      have "length (drop 44 bs) = k - 44" using lb by simp
      then show ?thesis using t False head(1) [OF t] n lb i [folded bs_def] by (simp add: Next_def Let_def)
    next
      case f: False
      then show ?thesis using lb i [folded bs_def] by (simp add: Next_def)
    qed
    then show ?thesis using False lr by simp
  qed
qed

lemma read_all_stream:
  assumes "\<forall>r \<in> set rs. record_ok r" "inp rd = Some (take k (concat (map record_bytes rs)))"
  shows "read_all rd = map normalised (take (fitting k rs) rs)"
  using assms
proof (induction rs arbitrary: k rd)
  case Nil
  then show ?case by (subst read_all.simps) (simp add: Next_def)
next
  case (Cons r rs)
  define stream where "stream = record_bytes r @ concat (map record_bytes rs)"
  define j where "j = min k (length stream)"
  have r: "record_ok r" using Cons.prems by simp
  have i: "inp rd = Some (take j stream)" using Cons.prems(2)
    by (cases "k \<le> length stream") (simp_all add: j_def min_def stream_def del: take_append)
  note n = Next_stream [OF r, of rd j "concat (map record_bytes rs)", folded stream_def, OF i]
  have j: "j \<le> length stream" by (simp add: j_def)
  have le: "length (record_bytes r) \<le> j \<longleftrightarrow> length (record_bytes r) \<le> k" by (auto simp: j_def stream_def)
  show ?case
  proof (cases "length (record_bytes r) \<le> k")
    case True
    have t: "take (j - length (record_bytes r)) (concat (map record_bytes rs)) =
        take (k - length (record_bytes r)) (concat (map record_bytes rs))"
      by (simp add: j_def stream_def min_def)
    show ?thesis
      using n [OF j] True le t Cons.prems(1)
      by (subst read_all.simps) (simp add: Cons.IH)
  next
    case False
    then have "fst (Next rd) = None" using n [OF j] le by simp
    then show ?thesis using False by (subst read_all.simps) (simp add: case_prod_beta)
  qed
qed

lemma fitting_le: "fitting k rs \<le> length rs"
  by (induction k rs rule: fitting.induct) simp_all

lemma fitting_all: "length (concat (map record_bytes rs)) \<le> k \<Longrightarrow> fitting k rs = length rs"
  by (induction k rs rule: fitting.induct) auto

lemma ReadLe32_header:
  "ReadLe32 (drop 8 (header_bytes \<lparr>magic = kRecordMagic, version = v, fh_reserved = z\<rparr> @ rest)) = v"
proof -
  have m: "length kRecordMagic = 8" by (simp add: kRecordMagic_def)
  have d: "drop 2 (StoreLe16 u @ ys) = ys" for u and ys :: "u8 list" by (simp add: StoreLe16_def numeral_eq_Suc)
  have "ucast (ucast v :: u16) OR push_bit 16 (ucast (ucast (drop_bit 16 v) :: u16)) = v"
    by (rule bit_word_eqI) (auto simp: bit_simps not_less dest!: le_Suc_ex)
  then show ?thesis by (simp add: header_bytes_def ReadLe32_def StoreLe32_def m d)
qed

lemma Open_reader_header:
  "Open_reader (Some (header_bytes \<lparr>magic = kRecordMagic, version = kRecordVersion, fh_reserved = 0\<rparr> @ bs)) rd =
     (None, rd\<lparr>inp := Some bs, read_count := 0\<rparr>)"
proof -
  define data where "data = header_bytes \<lparr>magic = kRecordMagic, version = kRecordVersion, fh_reserved = 0\<rparr> @ bs"
  have "take 8 data = kRecordMagic" by (simp add: data_def header_bytes_def kRecordMagic_def)
  moreover have "ReadLe32 (drop 8 data) = kRecordVersion" unfolding data_def by (rule ReadLe32_header)
  moreover have "16 \<le> length data" "drop 16 data = bs" by (simp_all add: data_def)
  ultimately show ?thesis unfolding data_def [symmetric]
    by (simp add: Open_reader_def Close_reader_def Let_def)
qed

text \<open>What a reader finds when the first \<open>k\<close> bytes of the stream reached the device.\<close>

lemma read_prefix:
  assumes "\<forall>r \<in> set rs. record_ok r"
  shows "read_all (snd (Open_reader (Some (take k (header_bytes \<lparr>magic = kRecordMagic, version = kRecordVersion, fh_reserved = 0\<rparr> @
      concat (map record_bytes rs)))) rd)) = map normalised (take (fitting (k - 16) rs) rs)"
proof (cases "16 \<le> k")
  case True
  then show ?thesis by (simp add: Open_reader_header) (rule read_all_stream [OF assms], simp)
next
  case False
  define bs where "bs = take k (header_bytes \<lparr>magic = kRecordMagic, version = kRecordVersion, fh_reserved = 0\<rparr> @ concat (map record_bytes rs))"
  have "length bs < 16" using False by (simp add: bs_def)
  then have "read_all (snd (Open_reader (Some bs) rd)) = []"
    by (subst read_all.simps) (simp add: Open_reader_def Close_reader_def Let_def Next_def)
  then show ?thesis using False fitting_0 [OF assms] by (simp add: bs_def)
qed

lemma fitting_maximal:
  "fitting k rs < length rs \<Longrightarrow> k < length (concat (map record_bytes (take (Suc (fitting k rs)) rs)))"
proof (induction k rs rule: fitting.induct)
  case (2 k r rs)
  then show ?case by (cases "length (record_bytes r) \<le> k") auto
qed simp

lemma fitting_fits: "length (concat (map record_bytes (take (fitting k rs) rs))) \<le> k"
  by (induction k rs rule: fitting.induct) auto

lemma fitting_mono: "j \<le> k \<Longrightarrow> fitting j rs \<le> fitting k rs"
proof (induction k rs arbitrary: j rule: fitting.induct)
  case (2 k r rs)
  then show ?case by (cases "length (record_bytes r) \<le> j") auto
qed simp

text \<open>C30: Whatever the C library buffers, a closed record file reads back as the records the device
  had room for: the longest run of whole records from the first one that fits, each with its count
  of entries and its flag filled in, never a torn one. Before the close the device holds a file
  that reads back as a part of them, again of whole records from the first one. The writer's count
  is at least the number of records that are read back, and equal to it when the device had room
  for all or the library does not buffer. With a buffer that is handed over only at the close it
  counts every record, however few the device took: \<open>Close\<close> drops the status of the flush.\<close>

theorem record_file_reads_back:
  assumes "\<forall>r \<in> set rs. record_ok r" "Open_writer lib (Some \<lparr>contents = [], room = k, pending = []\<rparr>) w0 = (None, w)"
  shows "\<exists>f g m n j. out (write_all lib rs w) = Some f \<and> fst (Close_writer (write_all lib rs w)) = Some g \<and>
    read_all (snd (Open_reader (Some (contents g)) rd)) = map normalised (take m rs) \<and>
    read_all (snd (Open_reader (Some (contents f)) rd)) = map normalised (take j rs) \<and>
    written (write_all lib rs w) = of_nat n \<and> j \<le> m \<and> m \<le> n \<and> n \<le> length rs \<and>
    (16 + length (concat (map record_bytes rs)) \<le> k \<longrightarrow> m = length rs) \<and>
    (m < length rs \<longrightarrow> k < 16 + length (concat (map record_bytes (take (Suc m) rs)))) \<and>
    (0 < m \<longrightarrow> 16 + length (concat (map record_bytes (take m rs))) \<le> k) \<and>
    (unbuffered lib \<longrightarrow> n = m) \<and> (keeps_all lib \<longrightarrow> n = length rs)"
proof -
  define hdr where "hdr = header_bytes \<lparr>magic = kRecordMagic, version = kRecordVersion, fh_reserved = 0\<rparr>"
  define stream where "stream = hdr @ concat (map record_bytes rs)"
  have lh: "length hdr = 16" by (simp add: hdr_def)
  obtain ok f0 where fw: "fwrite lib hdr \<lparr>contents = [], room = k, pending = []\<rparr> = (ok, f0)" by (rule prod.exhaust)
  have w: "out w = Some f0" "written w = 0" ok
    using assms(2) fw by (auto simp: Open_writer_def Let_def simp flip: hdr_def split: if_splits)
  have "sound k [] \<lparr>contents = [], room = k, pending = []\<rparr>" by (simp add: sound_def)
  then have f0: "sound k hdr f0" using fwrite_sound(1) [of k "[]", where lib = lib and bs = hdr] fw w(3) by fastforce
  define m where "m = fitting (k - 16) rs"
  obtain f n where f: "out (write_all lib rs w) = Some f" "sound k stream f \<or> full k stream f"
    "written (write_all lib rs w) = of_nat n" "m \<le> n" "n \<le> length rs" "unbuffered lib \<longrightarrow> n = m" "keeps_all lib \<longrightarrow> n = length rs"
    using write_all_sound [OF assms(1) w(1) f0, of lib] w(2) unfolding lh m_def [symmetric] stream_def by auto
  obtain i where i: "i \<le> k" "contents f = take i stream"
  proof (rule that [of "length (contents f)"])
    show "length (contents f) \<le> k" using f(2) by (auto simp: sound_def full_def)
    show "contents f = take (length (contents f)) stream"
      using f(2) by (auto simp: sound_def full_def)
  qed
  note rd = read_prefix [OF assms(1), where rd = rd, folded hdr_def, folded stream_def]
  have "fst (Close_writer (write_all lib rs w)) = Some (snd (fclose f))" by (simp add: Close_writer_def f(1))
  moreover have "read_all (snd (Open_reader (Some (contents (snd (fclose f)))) rd)) = map normalised (take m rs)"
    using rd [of k] by (simp add: fclose_contents [OF f(2)] m_def)
  moreover have "read_all (snd (Open_reader (Some (contents f)) rd)) = map normalised (take (fitting (i - 16) rs) rs)"
    using rd [of i] by (simp add: i)
  moreover have "fitting (i - 16) rs \<le> m" unfolding m_def using i by (intro fitting_mono) simp
  moreover have "16 + length (concat (map record_bytes rs)) \<le> k \<longrightarrow> m = length rs"
    using fitting_all [of rs "k - 16"] by (auto simp: m_def)
  moreover have "m < length rs \<longrightarrow> k < 16 + length (concat (map record_bytes (take (Suc m) rs)))"
    using fitting_maximal [of "k - 16" rs] unfolding m_def by auto
  moreover have "16 + length (concat (map record_bytes (take m rs))) \<le> k" if "0 < m"
  proof -
    have "16 \<le> k" using that fitting_0 [OF assms(1)] unfolding m_def by (cases "16 \<le> k") simp_all
    then show ?thesis using fitting_fits [of "k - 16" rs] unfolding m_def by linarith
  qed
  ultimately show ?thesis using f
    by (intro exI [of _ f] exI [of _ "snd (fclose f)"] exI [of _ m] exI [of _ n] exI [of _ "fitting (i - 16) rs"]) simp
qed

definition sample_record :: "dist_entry list \<Rightarrow> training_record" where
  "sample_record ds = \<lparr>rec_head = \<lparr>rh_sfen = replicate 32 7, rh_score = 5, rh_move = 9, game_ply16 = 1, rh_result = 1,
     rh_flags = 4, n_dist = 0, rh_reserved = 0\<rparr>, rec_dist = ds\<rparr>"

definition new_writer :: writer where "new_writer = \<lparr>out = None, written = 0\<rparr>"
definition new_reader :: reader where "new_reader = \<lparr>inp = None, read_count = 0\<rparr>"

text \<open>Two records written through a buffer to a device with room for the first: both are counted, one
  is read back.\<close>

theorem record_file_reads_back_witness:
  "\<exists>w g. w = write_all (\<lambda>_ _. 0) [sample_record [], sample_record [\<lparr>dist_move = 3, visits = 8\<rparr>]]
      (snd (Open_writer (\<lambda>_ _. 0) (Some \<lparr>contents = [], room = 100, pending = []\<rparr>) new_writer)) \<and>
    fst (Close_writer w) = Some g \<and> written w = 2 \<and> length (read_all (snd (Open_reader (Some (contents g)) new_reader))) = 1"
proof -
  define rs where "rs = [sample_record [], sample_record [\<lparr>dist_move = 3, visits = 8\<rparr>]]"
  define lib :: stdio where "lib = (\<lambda>_ _. 0)"
  define w where "w = snd (Open_writer lib (Some \<lparr>contents = [], room = 100, pending = []\<rparr>) new_writer)"
  have ok: "\<forall>r \<in> set rs. record_ok r" by (simp add: rs_def record_ok_def sample_record_def)
  have o: "Open_writer lib (Some \<lparr>contents = [], room = 100, pending = []\<rparr>) new_writer = (None, w)"
    by (simp add: w_def lib_def Open_writer_def Close_writer_def fwrite_def to_device_def Let_def)
  have "length (record_bytes (sample_record [])) = 44" "length (record_bytes (sample_record [\<lparr>dist_move = 3, visits = 8\<rparr>])) = 48"
    using ok by (simp_all add: rs_def length_record_bytes) (simp_all add: sample_record_def)
  then have l: "length (concat (map record_bytes (take (Suc 0) rs))) = 44" "length (concat (map record_bytes rs)) = 92"
    by (simp_all add: rs_def)
  have keep: "keeps_all lib" by (simp add: keeps_all_def lib_def)
  have n: "length rs = 2" by (simp add: rs_def)
  from record_file_reads_back [OF ok o, of new_reader] obtain f g m c j where g:
    "fst (Close_writer (write_all lib rs w)) = Some g"
    "read_all (snd (Open_reader (Some (contents g)) new_reader)) = map normalised (take m rs)"
    "written (write_all lib rs w) = of_nat c" "keeps_all lib \<longrightarrow> c = length rs" "m \<le> c" "c \<le> length rs"
    "m < length rs \<longrightarrow> 100 < 16 + length (concat (map record_bytes (take (Suc m) rs)))"
    "0 < m \<longrightarrow> 16 + length (concat (map record_bytes (take m rs))) \<le> 100"
    by (elim exE conjE) (rule that)
  have "m \<noteq> 0" using g(7) l n by (intro notI) simp
  moreover have "m \<noteq> 2" using g(8) l n by (intro notI) simp
  ultimately have "m = 1" using g(5,6) n by linarith
  then have "length (read_all (snd (Open_reader (Some (contents g)) new_reader))) = 1" using g(2) n by simp
  then show ?thesis using g(1,3,4) keep n unfolding rs_def lib_def w_def by auto
qed

end
