(* ===== verification/ChildSlots.thy ===== *)
theory ChildSlots
  imports Main
begin

text \<open>
  The race to create a child node: \<open>child\_node\_slot\_t::GetOrCreate\<close> of mcts/uct\_node.cc run by
  any number of threads, with one step for each atomic access.  A thread that finds the slot
  empty allocates a candidate and tries to publish it by a compare-and-exchange; the loser's
  candidate is freed and the winner's node is returned.  Addresses are allocation numbers.
\<close>

datatype thread_pc = Start | Missed | Holding nat | Returned nat

record slot_state =
  published :: "nat option"
  pc :: "nat \<Rightarrow> thread_pc"
  allocated :: nat
  freed :: "nat set"

definition slot_init :: slot_state where
  "slot_init = \<lparr>published = None, pc = (\<lambda>_. Start), allocated = 0, freed = {}\<rparr>"

inductive slot_step :: "slot_state \<Rightarrow> slot_state \<Rightarrow> bool" where
  load_hit: "pc s t = Start \<Longrightarrow> published s = Some p \<Longrightarrow> slot_step s (s\<lparr>pc := (pc s)(t := Returned p)\<rparr>)"
| load_miss: "pc s t = Start \<Longrightarrow> published s = None \<Longrightarrow> slot_step s (s\<lparr>pc := (pc s)(t := Missed)\<rparr>)"
| allocate: "pc s t = Missed \<Longrightarrow>
    slot_step s (s\<lparr>pc := (pc s)(t := Holding (allocated s)), allocated := allocated s + 1\<rparr>)"
| exchange_ok: "pc s t = Holding c \<Longrightarrow> published s = None \<Longrightarrow>
    slot_step s (s\<lparr>published := Some c, pc := (pc s)(t := Returned c)\<rparr>)"
| exchange_lost: "pc s t = Holding c \<Longrightarrow> published s = Some p \<Longrightarrow>
    slot_step s (s\<lparr>pc := (pc s)(t := Returned p), freed := insert c (freed s)\<rparr>)"

text \<open>Every allocation is published, held by one thread, or freed.\<close>

definition slot_inv :: "slot_state \<Rightarrow> bool" where
  "slot_inv s \<longleftrightarrow>
     (\<forall>t p. pc s t = Returned p \<longrightarrow> published s = Some p) \<and>
     (\<forall>p. published s = Some p \<longrightarrow> p < allocated s \<and> p \<notin> freed s) \<and>
     (\<forall>t c. pc s t = Holding c \<longrightarrow> c < allocated s \<and> c \<notin> freed s \<and> published s \<noteq> Some c) \<and>
     (\<forall>t u c. pc s t = Holding c \<longrightarrow> pc s u = Holding c \<longrightarrow> t = u) \<and>
     (\<forall>a < allocated s. published s = Some a \<or> (\<exists>t. pc s t = Holding a) \<or> a \<in> freed s) \<and>
     (\<forall>a \<in> freed s. a < allocated s)"

lemma slot_invD:
  assumes "slot_inv s"
  shows "pc s t = Returned p \<Longrightarrow> published s = Some p"
    and "published s = Some p \<Longrightarrow> p < allocated s \<and> p \<notin> freed s"
    and "pc s t = Holding c \<Longrightarrow> c < allocated s \<and> c \<notin> freed s \<and> published s \<noteq> Some c"
    and "pc s t = Holding c \<Longrightarrow> pc s u = Holding c \<Longrightarrow> t = u"
    and "a < allocated s \<Longrightarrow> published s = Some a \<or> (\<exists>t. pc s t = Holding a) \<or> a \<in> freed s"
    and "a \<in> freed s \<Longrightarrow> a < allocated s"
  using assms unfolding slot_inv_def by blast+

lemma slot_invI:
  assumes "\<And>t p. pc s t = Returned p \<Longrightarrow> published s = Some p"
    and "\<And>p. published s = Some p \<Longrightarrow> p < allocated s \<and> p \<notin> freed s"
    and "\<And>t c. pc s t = Holding c \<Longrightarrow> c < allocated s \<and> c \<notin> freed s \<and> published s \<noteq> Some c"
    and "\<And>t u c. pc s t = Holding c \<Longrightarrow> pc s u = Holding c \<Longrightarrow> t = u"
    and "\<And>a. a < allocated s \<Longrightarrow> published s = Some a \<or> (\<exists>t. pc s t = Holding a) \<or> a \<in> freed s"
    and "\<And>a. a \<in> freed s \<Longrightarrow> a < allocated s"
  shows "slot_inv s"
  using assms unfolding slot_inv_def by blast

lemma slot_inv_init: "slot_inv slot_init"
  by (rule slot_invI) (simp_all add: slot_init_def)

lemma slot_inv_step: "slot_step s s' \<Longrightarrow> slot_inv s \<Longrightarrow> slot_inv s'"
proof (induction rule: slot_step.induct)
  case (load_hit s t p)
  note i = slot_invD [OF load_hit(3)]
  show ?case
    by (rule slot_invI) (use i load_hit(1,2) in \<open>(auto split: if_splits)[4], simp, metis thread_pc.distinct, simp\<close>)
next
  case (load_miss s t)
  note i = slot_invD [OF load_miss(3)]
  show ?case
    by (rule slot_invI) (use i load_miss(1,2) in \<open>(auto split: if_splits)[4], simp, metis thread_pc.distinct, simp\<close>)
next
  case (allocate s t)
  note i = slot_invD [OF allocate(2)]
  show ?case
  proof (rule slot_invI)
    fix a assume "a < allocated (s\<lparr>pc := (pc s)(t := Holding (allocated s)), allocated := allocated s + 1\<rparr>)"
    then show "published (s\<lparr>pc := (pc s)(t := Holding (allocated s)), allocated := allocated s + 1\<rparr>) = Some a \<or>
        (\<exists>u. pc (s\<lparr>pc := (pc s)(t := Holding (allocated s)), allocated := allocated s + 1\<rparr>) u = Holding a) \<or>
        a \<in> freed (s\<lparr>pc := (pc s)(t := Holding (allocated s)), allocated := allocated s + 1\<rparr>)"
      using i(5) [of a] allocate(1) by (simp add: less_Suc_eq) (metis thread_pc.distinct)
  qed (use i allocate(1) in \<open>auto split: if_splits dest: i(2,3,6) simp: less_Suc_eq\<close>)
next
  case (exchange_ok s t c)
  note i = slot_invD [OF exchange_ok(3)]
  show ?case
    by (rule slot_invI) (use i exchange_ok(1,2) in \<open>(auto split: if_splits)[4], simp, metis thread_pc.inject(1), force\<close>)
next
  case (exchange_lost s t c p)
  note i = slot_invD [OF exchange_lost(3)]
  show ?case
    by (rule slot_invI) (use i exchange_lost(1,2) in \<open>(auto split: if_splits)[4], simp, metis thread_pc.inject(1), force\<close>)
qed

text \<open>C38: However the threads interleave, all calls of \<open>GetOrCreate\<close> that have returned have
  returned the same node, the one in the slot, which is never freed; every other node allocated
  is freed or still held by exactly one thread, so no candidate leaks.\<close>

theorem GetOrCreate_race:
  assumes "slot_step\<^sup>*\<^sup>* slot_init s"
  shows "(pc s t = Returned p \<longrightarrow> published s = Some p \<and> p \<notin> freed s) \<and>
    (a < allocated s \<longrightarrow> published s = Some a \<or> (\<exists>!u. pc s u = Holding a) \<or> a \<in> freed s)"
proof -
  have "slot_inv s" using assms by induction (auto intro: slot_inv_init slot_inv_step)
  note i = slot_invD [OF this]
  show ?thesis using i(1) [of t p] i(2) [of p] i(4) i(5) [of a] by blast
qed

text \<open>Two threads miss, both allocate, and the second publishes first.\<close>

definition raced :: slot_state where
  "raced = \<lparr>published = Some 1, pc = (\<lambda>_. Start)(0 := Returned 1, 1 := Returned 1), allocated = 2, freed = {0}\<rparr>"

lemma raced_reachable: "slot_step\<^sup>*\<^sup>* slot_init raced"
proof -
  define f where "f = (\<lambda>a b. (\<lambda>_. Start)(0 := a, 1 := b) :: nat \<Rightarrow> thread_pc)"
  define S where "S = (\<lambda>p a b n F. \<lparr>published = p, pc = f a b, allocated = n, freed = F\<rparr>)"
  have f: "f a b 0 = a" "f a b (Suc 0) = b" "(f a b)(0 := c) = f c b" "(f a b)(Suc 0 := c) = f a c" for a b c
    by (auto simp: f_def)
  have "slot_init = S None Start Start 0 {}" by (auto simp: slot_init_def S_def f_def)
  also have "slot_step\<^sup>*\<^sup>* \<dots> (S None Missed Start 0 {})"
    using slot_step.load_miss [of "S None Start Start 0 {}" 0] by (simp add: S_def f r_into_rtranclp)
  also have "slot_step\<^sup>*\<^sup>* \<dots> (S None Missed Missed 0 {})"
    using slot_step.load_miss [of "S None Missed Start 0 {}" 1] by (simp add: S_def f r_into_rtranclp)
  also have "slot_step\<^sup>*\<^sup>* \<dots> (S None (Holding 0) Missed (Suc 0) {})"
    using slot_step.allocate [of "S None Missed Missed 0 {}" 0] by (simp add: S_def f r_into_rtranclp)
  also have "slot_step\<^sup>*\<^sup>* \<dots> (S None (Holding 0) (Holding 1) (Suc (Suc 0)) {})"
    using slot_step.allocate [of "S None (Holding 0) Missed (Suc 0) {}" 1] by (simp add: S_def f r_into_rtranclp)
  also have "slot_step\<^sup>*\<^sup>* \<dots> (S (Some 1) (Holding 0) (Returned 1) (Suc (Suc 0)) {})"
    using slot_step.exchange_ok [of "S None (Holding 0) (Holding 1) (Suc (Suc 0)) {}" 1 1] by (simp add: S_def f r_into_rtranclp)
  also have "slot_step\<^sup>*\<^sup>* \<dots> (S (Some 1) (Returned 1) (Returned 1) (Suc (Suc 0)) {0})"
    using slot_step.exchange_lost [of "S (Some 1) (Holding 0) (Returned 1) (Suc (Suc 0)) {}" 0 0 1] by (simp add: S_def f r_into_rtranclp)
  also have "\<dots> = raced" by (simp add: raced_def S_def f_def numeral_2_eq_2)
  finally show ?thesis .
qed

theorem GetOrCreate_race_witness:
  "pc raced 0 = Returned 1 \<and> published raced = Some 1 \<and> 1 \<notin> freed raced"
proof -
  have "pc raced 0 = Returned 1" by (simp add: raced_def)
  then show ?thesis using GetOrCreate_race [OF raced_reachable, of 0 1] by blast
qed

end
