(* ===== verification/UctTree.thy ===== *)
theory UctTree
  imports MoveGen Floats
begin

text \<open>
  The search tree of mcts/uct\_node.h and mcts/uct\_node.cc.  A node owns the array of its edges
  and an edge owns its child node, so the tree is a value; a pointer to a node is the path of
  edge indices from the root.  Discarded subtrees go to the garbage collector's queue, and the
  byte counter changes when a node is created, expanded or destroyed.  The atomic fields are
  read and written by one thread here; the race of several threads to create a child is the
  theory ChildSlots.
\<close>

subsection \<open>Nodes and edges\<close>

datatype uct_node =
    UctNode (node_state: u8) (node_visits: int) (node_win: ieee) (visited_nnrate: ieee) (child: "child_node list")
  and child_node =
    ChildNode (slot: "uct_node option") (edge_move: move) (edge_flags: u8) (nnrate: ieee) (edge_visits: int) (edge_win: ieee)

definition kFresh :: u8 where "kFresh = 0"
definition kEvaluated :: u8 where "kEvaluated = 1"
definition kExpanded :: u8 where "kExpanded = 2"

definition new_node :: uct_node where
  "new_node = UctNode kFresh 0 (Fin 0) (Fin 0) []"

definition new_edge :: "move \<Rightarrow> child_node" where
  "new_edge m = ChildNode None m 0 (Fin 0) 0 (Fin 0)"

definition child_num :: "uct_node \<Rightarrow> nat" where
  "child_num n = length (child n)"

definition IsEvaled :: "uct_node \<Rightarrow> bool" where
  "IsEvaled n \<longleftrightarrow> node_state n \<noteq> kFresh"

definition IsExpanded :: "uct_node \<Rightarrow> bool" where
  "IsExpanded n \<longleftrightarrow> node_state n = kExpanded"

fun with_state :: "u8 \<Rightarrow> uct_node \<Rightarrow> uct_node" where
  "with_state s (UctNode _ v w r cs) = UctNode s v w r cs"

fun with_children :: "child_node list \<Rightarrow> uct_node \<Rightarrow> uct_node" where
  "with_children cs (UctNode s v w r _) = UctNode s v w r cs"

definition SetEvaled :: "uct_node \<Rightarrow> uct_node" where
  "SetEvaled = with_state kEvaluated"

definition SetExpanded :: "uct_node \<Rightarrow> uct_node" where
  "SetExpanded = with_state kExpanded"

text \<open>The flags of an edge are results of the opponent: \<open>kWin\<close> is a loss of the edge's mover.\<close>

definition kWin :: u8 where "kWin = 1"
definition kLose :: u8 where "kLose = 2"
definition kDraw :: u8 where "kDraw = 4"

fun with_flags :: "u8 \<Rightarrow> child_node \<Rightarrow> child_node" where
  "with_flags f (ChildNode s m g p v w) = ChildNode s m f p v w"

fun with_slot :: "uct_node option \<Rightarrow> child_node \<Rightarrow> child_node" where
  "with_slot s (ChildNode _ m g p v w) = ChildNode s m g p v w"

definition IsWin :: "child_node \<Rightarrow> bool" where "IsWin c \<longleftrightarrow> edge_flags c AND kWin \<noteq> 0"
definition IsLose :: "child_node \<Rightarrow> bool" where "IsLose c \<longleftrightarrow> edge_flags c AND kLose \<noteq> 0"
definition IsDraw :: "child_node \<Rightarrow> bool" where "IsDraw c \<longleftrightarrow> edge_flags c AND kDraw \<noteq> 0"
definition SetWin :: "child_node \<Rightarrow> child_node" where "SetWin c = with_flags (edge_flags c OR kWin) c"
definition SetLose :: "child_node \<Rightarrow> child_node" where "SetLose c = with_flags (edge_flags c OR kLose) c"
definition SetDraw :: "child_node \<Rightarrow> child_node" where "SetDraw c = with_flags (edge_flags c OR kDraw) c"

subsection \<open>Memory\<close>

text \<open>The sizes of the two structs on the 64-bit target; the second is asserted in the source.\<close>

definition kNodeBytes :: int where "kNodeBytes = 32"
definition kChildBytes :: int where "kChildBytes = 24"

record tree_memory =
  bytes :: int
  pending_garbage :: "uct_node list"

text \<open>What the destructor of a node gives back: itself, its array, and the nodes its edges own.\<close>

fun node_bytes :: "uct_node \<Rightarrow> int" and edge_bytes :: "child_node \<Rightarrow> int" where
  "node_bytes (UctNode _ _ _ _ cs) = kNodeBytes + int (length cs) * kChildBytes + sum_list (map edge_bytes cs)"
| "edge_bytes (ChildNode None _ _ _ _ _) = 0"
| "edge_bytes (ChildNode (Some n) _ _ _ _ _) = node_bytes n"

definition create_node :: "tree_memory \<Rightarrow> uct_node \<times> tree_memory" where
  "create_node M = (new_node, M\<lparr>bytes := bytes M + kNodeBytes\<rparr>)"

definition destroy_edges :: "child_node list \<Rightarrow> tree_memory \<Rightarrow> tree_memory" where
  "destroy_edges cs M = M\<lparr>bytes := bytes M - sum_list (map edge_bytes cs)\<rparr>"

definition DeleteSubtreeLater :: "uct_node option \<Rightarrow> tree_memory \<Rightarrow> tree_memory" where
  "DeleteSubtreeLater n M =
     (case n of None \<Rightarrow> M | Some n \<Rightarrow> M\<lparr>pending_garbage := pending_garbage M @ [n]\<rparr>)"

text \<open>One turn of the collector's worker.\<close>

definition collect :: "tree_memory \<Rightarrow> tree_memory" where
  "collect M = (case pending_garbage M of
       [] \<Rightarrow> M
     | n # ns \<Rightarrow> M\<lparr>bytes := bytes M - node_bytes n, pending_garbage := ns\<rparr>)"

subsection \<open>Edges\<close>

definition GetOrCreate :: "child_node \<Rightarrow> tree_memory \<Rightarrow> child_node \<times> tree_memory" where
  "GetOrCreate c M =
     (case slot c of
        Some _ \<Rightarrow> (c, M)
      | None \<Rightarrow> let (n, M) = create_node M in (with_slot (Some n) c, M))"

definition ExpandNode :: "move list \<Rightarrow> uct_node \<Rightarrow> tree_memory \<Rightarrow> uct_node \<times> tree_memory" where
  "ExpandNode moves n M =
     (let M = destroy_edges (child n) M
      in (with_children (map new_edge moves) n, M\<lparr>bytes := bytes M + int (length moves) * kChildBytes\<rparr>))"

definition ExpandNode_board :: "shogi_board \<Rightarrow> uct_node \<Rightarrow> tree_memory \<Rightarrow> uct_node \<times> tree_memory" where
  "ExpandNode_board b = ExpandNode (GenerateLegalMoves b)"

definition CreateSingleChildNode :: "move \<Rightarrow> uct_node \<Rightarrow> tree_memory \<Rightarrow> uct_node \<times> tree_memory" where
  "CreateSingleChildNode m n M =
     (let k = child_num n;
          M = (if k > 1 then M\<lparr>bytes := bytes M - int (k - 1) * kChildBytes\<rparr>
               else if k = 0 then M\<lparr>bytes := bytes M + kChildBytes\<rparr>
               else M);
          M = destroy_edges (child n) M
      in (with_children [new_edge m] n, M))"

text \<open>The first child is created when missing; the result's only edge leads to it.\<close>

definition get_first :: "uct_node \<Rightarrow> tree_memory \<Rightarrow> uct_node \<times> tree_memory" where
  "get_first n M =
     (case child n of
        [] \<Rightarrow> (n, M)
      | c # cs \<Rightarrow> let (c, M) = GetOrCreate c M in (with_children (c # cs) n, M))"

text \<open>The index of the edge with the move.\<close>

fun edge_index :: "move \<Rightarrow> child_node list \<Rightarrow> nat option" where
  "edge_index m [] = None"
| "edge_index m (c # cs) = (if edge_move c = m then Some 0 else map_option Suc (edge_index m cs))"

definition discard_slots :: "child_node list \<Rightarrow> tree_memory \<Rightarrow> tree_memory" where
  "discard_slots cs M = fold (\<lambda>c. DeleteSubtreeLater (slot c)) cs M"

definition ReleaseChildrenExceptOne :: "move \<Rightarrow> uct_node \<Rightarrow> tree_memory \<Rightarrow> uct_node \<times> tree_memory" where
  "ReleaseChildrenExceptOne m n M =
     (if child_num n = 0 then
        let (n, M) = CreateSingleChildNode m n M in get_first n M
      else if child_num n = 1 \<and> edge_move (child n ! 0) = m then get_first n M
      else
        case edge_index m (child n) of
          Some i \<Rightarrow>
            let (selected, M) = GetOrCreate (child n ! i) M;
                M = discard_slots (take i (child n) @ drop (Suc i) (child n)) M
            in (with_children [selected] n, M\<lparr>bytes := bytes M - int (child_num n - 1) * kChildBytes\<rparr>)
        | None \<Rightarrow>
            let M = discard_slots (child n) M;
                n = with_children (map (with_slot None) (child n)) n;
                (n, M) = CreateSingleChildNode m n M
            in get_first n M)"

definition CreateChildNode :: "nat \<Rightarrow> uct_node \<Rightarrow> tree_memory \<Rightarrow> uct_node \<times> tree_memory" where
  "CreateChildNode i n M =
     (let (c, M) = GetOrCreate (child n ! i) M in (with_children ((child n)[i := c]) n, M))"

text \<open>An operation on the node a pointer refers to.\<close>

fun at_node :: "nat list \<Rightarrow> (uct_node \<Rightarrow> tree_memory \<Rightarrow> uct_node \<times> tree_memory) \<Rightarrow>
    uct_node \<Rightarrow> tree_memory \<Rightarrow> uct_node \<times> tree_memory" where
  "at_node [] f n M = f n M"
| "at_node (i # is) f n M =
     (if i < child_num n then
        case slot (child n ! i) of
          None \<Rightarrow> (n, M)
        | Some h \<Rightarrow>
            let (h, M) = at_node is f h M
            in (with_children ((child n)[i := with_slot (Some h) (child n ! i)]) n, M)
      else (n, M))"

subsection \<open>The tree of the game\<close>

record node_tree =
  gamebegin_node :: uct_node
  current_head :: "nat list"
  history_starting_pos_key :: u64
  current_position_moves :: "move list"
  has_position :: bool

fun node_at :: "nat list \<Rightarrow> uct_node \<Rightarrow> uct_node option" where
  "node_at [] n = Some n"
| "node_at (i # is) n = (if i < child_num n then Option.bind (slot (child n ! i)) (node_at is) else None)"

definition DeallocateTree :: "node_tree \<Rightarrow> tree_memory \<Rightarrow> node_tree \<times> tree_memory" where
  "DeallocateTree t M =
     (let M = DeleteSubtreeLater (Some (gamebegin_node t)) M;
          (n, M) = create_node M
      in (\<lparr>gamebegin_node = n, current_head = [], history_starting_pos_key = 0,
           current_position_moves = [], has_position = False\<rparr>, M))"

text \<open>The walk along the moves, each step leaving one edge at its node.  Its result is the tree
  below the node it starts from; the head is at the end of the first edges.\<close>

fun advance :: "move list \<Rightarrow> uct_node \<Rightarrow> tree_memory \<Rightarrow> uct_node \<times> tree_memory" where
  "advance [] n M = (n, M)"
| "advance (m # ms) n M =
     (let (n, M) = ReleaseChildrenExceptOne m n M
      in case child n of
           [] \<Rightarrow> (n, M)
         | c # cs \<Rightarrow>
             (case slot c of
                None \<Rightarrow> (n, M)
              | Some head \<Rightarrow>
                  let (head, M) = advance ms head M in (with_children (with_slot (Some head) c # cs) n, M)))"

text \<open>The last edge of the walk gets a fresh node, the old one is discarded.\<close>

fun restart_head :: "nat \<Rightarrow> uct_node \<Rightarrow> tree_memory \<Rightarrow> uct_node \<times> tree_memory" where
  "restart_head 0 n M =
     (case child n of
        [] \<Rightarrow> (n, M)
      | c # cs \<Rightarrow>
          let M = DeleteSubtreeLater (slot c) M; (fresh, M) = create_node M
          in (with_children (with_slot (Some fresh) c # cs) n, M))"
| "restart_head (Suc k) n M =
     (case child n of
        [] \<Rightarrow> (n, M)
      | c # cs \<Rightarrow>
          (case slot c of
             None \<Rightarrow> (n, M)
           | Some head \<Rightarrow>
               let (head, M) = restart_head k head M in (with_children (with_slot (Some head) c # cs) n, M)))"

definition ResetToPosition :: "u64 \<Rightarrow> move list \<Rightarrow> node_tree \<Rightarrow> tree_memory \<Rightarrow> bool \<times> node_tree \<times> tree_memory" where
  "ResetToPosition key moves t M =
     (let same_game = (has_position t \<and> history_starting_pos_key t = key);
          can_reuse = (same_game \<and> length (current_position_moves t) \<le> length moves \<and>
                       current_position_moves t = take (length (current_position_moves t)) moves);
          (t, M) = (if \<not> same_game then DeallocateTree t M else (t, M));
          (root, M) = advance moves (gamebegin_node t) M;
          t = t\<lparr>gamebegin_node := root, current_head := replicate (length moves) 0\<rparr>;
          (t, M) = (if same_game \<and> \<not> can_reuse then
                      if moves \<noteq> [] then
                        let (root, M) = restart_head (length moves - 1) (gamebegin_node t) M
                        in (t\<lparr>gamebegin_node := root\<rparr>, M)
                      else DeallocateTree t M
                    else (t, M))
      in (can_reuse, t\<lparr>history_starting_pos_key := key, current_position_moves := moves, has_position := True\<rparr>, M))"

subsection \<open>The byte counter\<close>

text \<open>The counter without what waits for the collector.\<close>

definition net_bytes :: "tree_memory \<Rightarrow> int" where
  "net_bytes M = bytes M - sum_list (map node_bytes (pending_garbage M))"

lemma node_parts [simp]:
  "child (with_children cs n) = cs" "node_visits (with_children cs n) = node_visits n"
  "node_win (with_children cs n) = node_win n" "node_state (with_children cs n) = node_state n"
  "visited_nnrate (with_children cs n) = visited_nnrate n"
  "with_children cs (with_children ds n) = with_children cs n" "with_children (child n) n = n"
  by (cases n; simp)+

lemma edge_parts [simp]:
  "slot (with_slot s c) = s" "edge_move (with_slot s c) = edge_move c" "with_slot s (with_slot r c) = with_slot s c"
  "slot (new_edge m) = None" "edge_move (new_edge m) = m" "with_slot (slot c) c = c"
  by (cases c; simp add: new_edge_def)+

lemma node_bytes_eq: "node_bytes n = kNodeBytes + int (length (child n)) * kChildBytes + sum_list (map edge_bytes (child n))"
  by (cases n) simp

lemma edge_bytes_eq: "edge_bytes c = (case slot c of None \<Rightarrow> 0 | Some n \<Rightarrow> node_bytes n)"
  by (cases c) (auto split: option.split)

lemma new_node_sel [simp]: "child new_node = []" "node_bytes new_node = kNodeBytes"
  by (simp_all add: new_node_def)

lemma net_create [simp]: "create_node M = (n, M') \<Longrightarrow> net_bytes M' = net_bytes M + node_bytes n \<and> n = new_node"
  by (auto simp: create_node_def net_bytes_def)

lemma net_Delete [simp]:
  "net_bytes (DeleteSubtreeLater n M) = net_bytes M - (case n of None \<Rightarrow> 0 | Some n \<Rightarrow> node_bytes n)"
  by (auto simp: DeleteSubtreeLater_def net_bytes_def split: option.split)

lemma net_destroy [simp]: "net_bytes (destroy_edges cs M) = net_bytes M - sum_list (map edge_bytes cs)"
  by (simp add: destroy_edges_def net_bytes_def)

lemma net_bytes_upd [simp]: "net_bytes (M\<lparr>bytes := k\<rparr>) = net_bytes M + k - bytes M"
  by (simp add: net_bytes_def)

lemma net_discard [simp]: "net_bytes (discard_slots cs M) = net_bytes M - sum_list (map edge_bytes cs)"
  unfolding discard_slots_def
  by (induction cs arbitrary: M) (simp_all add: edge_bytes_eq)

lemma net_GetOrCreate:
  "GetOrCreate c M = (c', M') \<Longrightarrow> net_bytes M' - edge_bytes c' = net_bytes M - edge_bytes c"
  by (auto simp: GetOrCreate_def edge_bytes_eq split: option.splits prod.splits)

lemma net_CreateSingle:
  assumes "CreateSingleChildNode m n M = (n', M')"
  shows "net_bytes M' - node_bytes n' = net_bytes M - node_bytes n"
proof -
  consider "length (child n) = 0" | "length (child n) = 1" | "1 < length (child n)" by linarith
  then show ?thesis
    using assms by cases (auto simp: CreateSingleChildNode_def Let_def node_bytes_eq child_num_def edge_bytes_eq
        of_nat_diff algebra_simps)
qed

text \<open>Exchanging what the first edge owns.\<close>

lemma node_bytes_first:
  "child n = c # cs \<Longrightarrow> node_bytes (with_children (with_slot s c # cs) n) =
    node_bytes n - edge_bytes c + (case s of None \<Rightarrow> 0 | Some h \<Rightarrow> node_bytes h)"
  by (simp add: node_bytes_eq [of n] node_bytes_eq [of "with_children xs n" for xs] edge_bytes_eq)

lemma net_get_first:
  "get_first n M = (n', M') \<Longrightarrow> net_bytes M' - node_bytes n' = net_bytes M - node_bytes n"
  by (auto simp: get_first_def node_bytes_eq split: list.splits prod.splits dest!: net_GetOrCreate)

lemma edge_index_Some: "edge_index m cs = Some i \<Longrightarrow> i < length cs \<and> edge_move (cs ! i) = m"
  by (induction cs arbitrary: i) (auto split: if_splits simp: nth_Cons')

lemma edge_index_None: "edge_index m cs = None \<longleftrightarrow> (\<forall>c \<in> set cs. edge_move c \<noteq> m)"
  by (induction cs) auto

lemma sum_list_split: "i < length xs \<Longrightarrow> sum_list (map f xs) = f (xs ! i) + sum_list (map f (take i xs @ drop (Suc i) xs))"
  for f :: "'a \<Rightarrow> int"
  by (subst id_take_nth_drop [of i xs]) (simp_all add: min_def)

lemma net_Release:
  assumes "ReleaseChildrenExceptOne m n M = (n', M')"
  shows "net_bytes M' - node_bytes n' = net_bytes M - node_bytes n"
proof (cases "child_num n = 0 \<or> child_num n = 1 \<and> edge_move (child n ! 0) = m")
  case True
  then show ?thesis
    using assms by (auto simp: ReleaseChildrenExceptOne_def dest!: net_CreateSingle net_get_first split: prod.splits if_splits)
next
  case False
  show ?thesis
  proof (cases "edge_index m (child n)")
    case None
    define M1 where "M1 = discard_slots (child n) M"
    define n1 where "n1 = with_children (map (with_slot None) (child n)) n"
    have "net_bytes M1 - node_bytes n1 = net_bytes M - node_bytes n"
      by (simp add: M1_def n1_def node_bytes_eq edge_bytes_eq [of "with_slot None c" for c] o_def)
    then show ?thesis using assms False None
      by (auto simp: ReleaseChildrenExceptOne_def Let_def simp flip: M1_def n1_def
          dest!: net_CreateSingle net_get_first split: prod.splits)
  next
    case (Some i)
    note i = edge_index_Some [OF Some]
    obtain c M1 where g: "GetOrCreate (child n ! i) M = (c, M1)" by fastforce
    show ?thesis using assms False Some g net_GetOrCreate [OF g] sum_list_split [of i "child n" edge_bytes] i
      by (auto simp: ReleaseChildrenExceptOne_def Let_def node_bytes_eq child_num_def of_nat_diff algebra_simps)
  qed
qed

lemma net_advance:
  "advance ms n M = (n', M') \<Longrightarrow> net_bytes M' - node_bytes n' = net_bytes M - node_bytes n"
proof (induction ms arbitrary: n M n' M')
  case (Cons m ms)
  obtain n1 M1 where r: "ReleaseChildrenExceptOne m n M = (n1, M1)" by fastforce
  note net_Release [OF r]
  moreover have "net_bytes M' - node_bytes n' = net_bytes M1 - node_bytes n1"
  proof (cases "child n1")
    case Nil
    then show ?thesis using Cons.prems r by simp
  next
    case (Cons c cs)
    show ?thesis
    proof (cases "slot c")
      case None
      then show ?thesis using Cons.prems r Cons by simp
    next
      case (Some h)
      obtain h' M2 where a: "advance ms h M1 = (h', M2)" by fastforce
      show ?thesis using \<open>advance (m # ms) n M = (n', M')\<close> r \<open>child n1 = c # cs\<close> Some a Cons.IH [OF a]
        by (auto simp: node_bytes_first edge_bytes_eq)
    qed
  qed
  ultimately show ?case by simp
qed simp

lemma net_restart:
  "restart_head k n M = (n', M') \<Longrightarrow> net_bytes M' - node_bytes n' = net_bytes M - node_bytes n"
proof (induction k arbitrary: n M n' M')
  case 0
  then show ?case by (auto simp: node_bytes_first edge_bytes_eq split: list.splits prod.splits option.splits)
next
  case (Suc k)
  show ?case
  proof (cases "child n = [] \<or> slot (hd (child n)) = None")
    case True
    then show ?thesis using Suc.prems by (auto split: list.splits)
  next
    case False
    then obtain c cs h where c: "child n = c # cs" "slot c = Some h" by (cases "child n") auto
    obtain h' M1 where r: "restart_head k h M = (h', M1)" by fastforce
    show ?thesis using Suc.prems c r Suc.IH [OF r] by (auto simp: node_bytes_first edge_bytes_eq)
  qed
qed

definition accounted :: "node_tree \<Rightarrow> tree_memory \<Rightarrow> bool" where
  "accounted t M \<longleftrightarrow> net_bytes M = node_bytes (gamebegin_node t)"

lemma accounted_Deallocate: "accounted t M \<Longrightarrow> DeallocateTree t M = (t', M') \<Longrightarrow> accounted t' M'"
  by (auto simp: accounted_def DeallocateTree_def Let_def split: prod.splits)

lemma accounted_Reset:
  assumes "accounted t M" "ResetToPosition key moves t M = (r, t', M')"
  shows "accounted t' M'"
proof -
  define same where "same \<longleftrightarrow> has_position t \<and> history_starting_pos_key t = key"
  obtain t1 M1 where 1: "(if \<not> same then DeallocateTree t M else (t, M)) = (t1, M1)" by fastforce
  obtain tr M2 where 2: "advance moves (gamebegin_node t1) M1 = (tr, M2)" by fastforce
  define t2 where "t2 = t1\<lparr>gamebegin_node := tr, current_head := replicate (length moves) 0\<rparr>"
  have a1: "accounted t1 M1" using 1 assms(1) accounted_Deallocate by (auto split: if_splits)
  have a2: "accounted t2 M2" using net_advance [OF 2] a1 by (simp add: accounted_def t2_def)
  have a3: "accounted (t\<lparr>history_starting_pos_key := k, current_position_moves := ms, has_position := b\<rparr>) N"
    if "accounted t N" for t N k ms b
    using that by (simp add: accounted_def)
  have a4: "accounted t3 M3" if "restart_head k (gamebegin_node t2) M2 = (n, M3)" "t3 = t2\<lparr>gamebegin_node := n\<rparr>" for k n M3 t3
    using net_restart [OF that(1)] a2 that(2) by (simp add: accounted_def)
  define can where "can \<longleftrightarrow> same \<and> length (current_position_moves t) \<le> length moves \<and>
    current_position_moves t = take (length (current_position_moves t)) moves"
  obtain t3 M3 where 3: "(if same \<and> \<not> can then
      if moves \<noteq> [] then
        case restart_head (length moves - 1) (gamebegin_node t2) M2 of (tr, M) \<Rightarrow> (t2\<lparr>gamebegin_node := tr\<rparr>, M)
      else DeallocateTree t2 M2
    else (t2, M2)) = (t3, M3)" by fastforce
  have a5: "accounted t3 M3" using 3 a2 a4 accounted_Deallocate [OF a2] by (auto split: if_splits prod.splits)
  have "ResetToPosition key moves t M =
      (can, t3\<lparr>history_starting_pos_key := key, current_position_moves := moves, has_position := True\<rparr>, M3)"
    unfolding ResetToPosition_def Let_def same_def [symmetric] can_def [symmetric] 1 split 2 t2_def [symmetric] 3
    by (rule refl)
  then show ?thesis using assms(2) a3 [OF a5] by auto
qed

lemma net_ExpandNode:
  "child n = [] \<Longrightarrow> ExpandNode ms n M = (n', M') \<Longrightarrow> net_bytes M' - node_bytes n' = net_bytes M - node_bytes n"
proof -
  have z: "sum_list (map (edge_bytes \<circ> new_edge) ms) = 0"
    by (induction ms) (simp_all add: edge_bytes_eq)
  then show "child n = [] \<Longrightarrow> ExpandNode ms n M = (n', M') \<Longrightarrow> ?thesis"
    by (auto simp: ExpandNode_def Let_def node_bytes_eq o_def)
qed

lemma sum_list_upd: "i < length xs \<Longrightarrow> sum_list (map f (xs[i := y])) = sum_list (map f xs) - f (xs ! i) + f y"
  for f :: "'a \<Rightarrow> int"
  by (induction xs arbitrary: i) (auto simp: nth_Cons split: nat.splits)

lemma net_CreateChildNode:
  "i < child_num n \<Longrightarrow> CreateChildNode i n M = (n', M') \<Longrightarrow> net_bytes M' - node_bytes n' = net_bytes M - node_bytes n"
  by (auto simp: CreateChildNode_def node_bytes_eq child_num_def sum_list_upd split: prod.splits dest!: net_GetOrCreate)

lemma net_at_node:
  assumes "\<And>n M n' M'. node_at p tr = Some n \<Longrightarrow> f n M = (n', M') \<Longrightarrow> net_bytes M' - node_bytes n' = net_bytes M - node_bytes n"
    and "at_node p f tr M = (tr', M')"
  shows "net_bytes M' - node_bytes tr' = net_bytes M - node_bytes tr"
  using assms
proof (induction p arbitrary: tr M tr' M')
  case (Cons i p)
  show ?case
  proof (cases "i < child_num tr \<and> slot (child tr ! i) \<noteq> None")
    case True
    then obtain h where h: "slot (child tr ! i) = Some h" "i < child_num tr" by auto
    obtain h' M1 where a: "at_node p f h M = (h', M1)" by fastforce
    have "net_bytes M1 - node_bytes h' = net_bytes M - node_bytes h"
      using Cons.prems(1) h by (intro Cons.IH [OF _ a]) simp
    then show ?thesis using Cons.prems(2) h a
      by (auto simp: node_bytes_eq [of tr] node_bytes_eq [of "with_children xs tr" for xs] child_num_def
          sum_list_upd edge_bytes_eq)
  qed (use Cons.prems(2) in \<open>auto split: option.splits\<close>)
qed simp

text \<open>What happens to the tree: new positions, deallocation, expansion of a node without
  children, creation of a child, and the collector.\<close>

inductive tree_step :: "node_tree \<times> tree_memory \<Rightarrow> node_tree \<times> tree_memory \<Rightarrow> bool" where
  reset: "ResetToPosition key moves t M = (r, t', M') \<Longrightarrow> tree_step (t, M) (t', M')"
| deallocate: "DeallocateTree t M = (t', M') \<Longrightarrow> tree_step (t, M) (t', M')"
| expand: "node_at p (gamebegin_node t) = Some n \<Longrightarrow> child n = [] \<Longrightarrow>
    at_node p (ExpandNode moves) (gamebegin_node t) M = (tr, M') \<Longrightarrow>
    tree_step (t, M) (t\<lparr>gamebegin_node := tr\<rparr>, M')"
| create: "node_at p (gamebegin_node t) = Some n \<Longrightarrow> i < child_num n \<Longrightarrow>
    at_node p (CreateChildNode i) (gamebegin_node t) M = (tr, M') \<Longrightarrow>
    tree_step (t, M) (t\<lparr>gamebegin_node := tr\<rparr>, M')"
| gc: "tree_step (t, M) (t, collect M)"

inductive_cases tree_stepE: "tree_step (t, M) s"

definition initial_tree :: "node_tree \<times> tree_memory" where
  "initial_tree =
     (\<lparr>gamebegin_node = new_node, current_head = [], history_starting_pos_key = 0,
       current_position_moves = [], has_position = False\<rparr>, \<lparr>bytes = kNodeBytes, pending_garbage = []\<rparr>)"

lemma accounted_step: "tree_step s s' \<Longrightarrow> accounted (fst s) (snd s) \<Longrightarrow> accounted (fst s') (snd s')"
proof (induction rule: tree_step.induct)
  case (reset key moves t M r t' M')
  then show ?case using accounted_Reset by simp
next
  case (deallocate t M t' M')
  then show ?case using accounted_Deallocate by simp
next
  case (expand p t n moves M tr M')
  have "net_bytes M' - node_bytes tr = net_bytes M - node_bytes (gamebegin_node t)"
    by (rule net_at_node [OF _ expand(3)]) (use expand net_ExpandNode in auto)
  then show ?case using expand by (simp add: accounted_def)
next
  case (create p t n i M tr M')
  have "net_bytes M' - node_bytes tr = net_bytes M - node_bytes (gamebegin_node t)"
    by (rule net_at_node [OF _ create(3)]) (use create net_CreateChildNode in auto)
  then show ?case using create by (simp add: accounted_def)
next
  case (gc t M)
  then show ?case by (auto simp: accounted_def collect_def net_bytes_def split: list.split)
qed

text \<open>C37: In every history of the tree the byte counter is the size of the live tree and of the
  subtrees waiting for the collector, so that it is the size of the tree whenever the collector
  has caught up.\<close>

theorem tree_bytes_exact:
  assumes "tree_step\<^sup>*\<^sup>* initial_tree (t, M)"
  shows "bytes M = node_bytes (gamebegin_node t) + sum_list (map node_bytes (pending_garbage M)) \<and>
    (pending_garbage M = [] \<longrightarrow> bytes M = node_bytes (gamebegin_node t))"
proof -
  have "accounted (fst s) (snd s)" if "tree_step\<^sup>*\<^sup>* initial_tree s" for s
    using that
  proof induction
    case base
    then show ?case by (simp add: initial_tree_def accounted_def net_bytes_def)
  next
    case (step s s')
    then show ?case by (blast intro: accounted_step)
  qed
  from this [OF assms] show ?thesis by (auto simp: accounted_def net_bytes_def)
qed

definition sample_node :: uct_node where
  "sample_node = UctNode kExpanded 10 (Fin 5) (Fin 0)
     [ChildNode (Some (UctNode kEvaluated 3 (Fin 1) (Fin 0) [])) (move_Normal 60 59) 0 (Fin 0) 3 (Fin 1),
      ChildNode None (move_Normal 6 14) 0 (Fin 0) 0 (Fin 0)]"

text \<open>A tree expanded, then advanced by a move: one node of the discarded edge is pending.\<close>

definition sample_advanced :: "node_tree \<times> tree_memory" where
  "sample_advanced = snd (ResetToPosition 5 [move_Normal 60 59] (fst initial_tree) (snd initial_tree))"

theorem tree_bytes_exact_witness:
  "bytes (snd sample_advanced) = node_bytes (gamebegin_node (fst sample_advanced)) +
     sum_list (map node_bytes (pending_garbage (snd sample_advanced)))"
proof -
  obtain r t M where r: "ResetToPosition 5 [move_Normal 60 59] (fst initial_tree) (snd initial_tree) = (r, t, M)"
    by (metis prod_cases3)
  have "tree_step (fst initial_tree, snd initial_tree) (t, M)" by (rule tree_step.reset [OF r])
  then have "tree_step\<^sup>*\<^sup>* initial_tree (t, M)" by (simp add: r_into_rtranclp)
  from tree_bytes_exact [OF this] show ?thesis by (simp add: sample_advanced_def r)
qed

subsection \<open>What is kept when a game goes on\<close>

text \<open>The subtree the tree has along a line of moves, fresh where it was not explored.\<close>

fun descend :: "move list \<Rightarrow> uct_node \<Rightarrow> uct_node" where
  "descend [] n = n"
| "descend (m # ms) n =
     (case edge_index m (child n) of
        None \<Rightarrow> new_node
      | Some i \<Rightarrow> (case slot (child n ! i) of None \<Rightarrow> new_node | Some h \<Rightarrow> descend ms h))"

text \<open>The tree is a line of the moves down to its head.\<close>

fun line_tree :: "move list \<Rightarrow> uct_node \<Rightarrow> bool" where
  "line_tree [] n \<longleftrightarrow> True"
| "line_tree (m # ms) n \<longleftrightarrow> (case child n of [c] \<Rightarrow> edge_move c = m \<and>
     (case slot c of None \<Rightarrow> False | Some h \<Rightarrow> line_tree ms h) | _ \<Rightarrow> False)"

lemma descend_new [simp]: "descend ms new_node = new_node"
  by (cases ms) simp_all

lemma first_GetOrCreate:
  "fst (GetOrCreate c M) = with_slot (Some (case slot c of None \<Rightarrow> new_node | Some h \<Rightarrow> h)) c"
proof (cases "slot c")
  case (Some h)
  then have "with_slot (Some h) c = c" by (cases c) simp
  then show ?thesis using Some by (simp add: GetOrCreate_def)
qed (simp add: GetOrCreate_def create_node_def)

lemma Release_single:
  "child (fst (ReleaseChildrenExceptOne m n M)) =
     [with_slot (Some (descend [m] n)) (case edge_index m (child n) of None \<Rightarrow> new_edge m | Some i \<Rightarrow> child n ! i)]"
proof -
  have get: "child (fst (get_first n' M')) = [with_slot (Some (case slot c of None \<Rightarrow> new_node | Some h \<Rightarrow> h)) c]"
    if "child n' = [c]" for n' M' c
    using that first_GetOrCreate [of c M'] by (simp add: get_first_def case_prod_beta)
  have create: "child (fst (CreateSingleChildNode m n' M')) = [new_edge m]" for n' M'
    by (simp add: CreateSingleChildNode_def Let_def)
  consider "child n = []" | c where "child n = [c]" "edge_move c = m"
    | "child n \<noteq> []" "\<not> (child_num n = 1 \<and> edge_move (child n ! 0) = m)" "edge_index m (child n) = None"
    | i where "child n \<noteq> []" "\<not> (child_num n = 1 \<and> edge_move (child n ! 0) = m)" "edge_index m (child n) = Some i"
    by (cases "child n"; cases "edge_index m (child n)") (auto simp: child_num_def)
  then show ?thesis
  proof cases
    case 1
    then show ?thesis using get [OF create, of n M] by (simp add: ReleaseChildrenExceptOne_def child_num_def case_prod_beta)
  next
    case 2
    then show ?thesis using get [of n c M]
      by (auto simp: ReleaseChildrenExceptOne_def child_num_def split: option.splits)
  next
    case 3
    then show ?thesis by (auto simp: ReleaseChildrenExceptOne_def child_num_def Let_def case_prod_beta get [OF create])
  next
    case 4
    then show ?thesis
      by (auto simp: ReleaseChildrenExceptOne_def child_num_def Let_def case_prod_beta first_GetOrCreate split: option.splits)
  qed
qed

lemma advance_head:
  "advance ms n M = (n', M') \<Longrightarrow> node_at (replicate (length ms) 0) n' = Some (descend ms n) \<and> line_tree ms n'"
proof (induction ms arbitrary: n M n' M')
  case (Cons m ms)
  obtain n1 M1 where r: "ReleaseChildrenExceptOne m n M = (n1, M1)" by fastforce
  define e where "e = (case edge_index m (child n) of None \<Rightarrow> new_edge m | Some i \<Rightarrow> child n ! i)"
  have c: "child n1 = [with_slot (Some (descend [m] n)) e]" using Release_single [of m n M] by (simp add: r e_def)
  have m: "edge_move e = m" by (auto simp: e_def dest: edge_index_Some split: option.split)
  obtain h M2 where a: "advance ms (descend [m] n) M1 = (h, M2)" by fastforce
  have d: "descend (m # ms) n = descend ms (descend [m] n)" by (auto split: option.splits)
  have "n' = with_children [with_slot (Some h) e] n1" using Cons.prems r c a by simp
  then show ?case using Cons.IH [OF a] m unfolding d by (simp add: child_num_def)
qed simp

lemma restart_line:
  "line_tree ms n \<Longrightarrow> length ms = Suc k \<Longrightarrow> restart_head k n M = (n', M') \<Longrightarrow>
    node_at (replicate (length ms) 0) n' = Some new_node \<and> line_tree ms n'"
proof (induction k arbitrary: ms n M n' M')
  case 0
  then obtain m where "ms = [m]" by (cases ms) auto
  then show ?case using 0 by (auto simp: child_num_def create_node_def Let_def split: list.splits)
next
  case (Suc k)
  then obtain m ms' where ms: "ms = m # ms'" "length ms' = Suc k" by (cases ms) auto
  obtain c h where c: "child n = [c]" "edge_move c = m" "slot c = Some h" "line_tree ms' h"
    using Suc.prems(1) ms by (auto split: list.splits option.splits)
  obtain h' M1 where r: "restart_head k h M = (h', M1)" by fastforce
  show ?case using Suc.IH [OF c(4) ms(2) r] Suc.prems(3) c r ms by (auto simp: child_num_def)
qed

text \<open>C36: A new position reuses the tree exactly when it continues the game of the last one.
  The head is then the subtree explored for its line, unchanged; otherwise it is a fresh node.
  In both cases the tree above the head is the line of the moves, with one edge at each node.\<close>

theorem ResetToPosition_head:
  assumes "ResetToPosition key moves t M = (r, t', M')"
  shows "(r \<longleftrightarrow> has_position t \<and> history_starting_pos_key t = key \<and> (\<exists>rest. moves = current_position_moves t @ rest)) \<and>
    node_at (current_head t') (gamebegin_node t') = Some (if r then descend moves (gamebegin_node t) else new_node) \<and>
    current_head t' = replicate (length moves) 0 \<and> line_tree moves (gamebegin_node t') \<and>
    has_position t' \<and> history_starting_pos_key t' = key \<and> current_position_moves t' = moves"
proof -
  define same where "same \<longleftrightarrow> has_position t \<and> history_starting_pos_key t = key"
  define can where "can \<longleftrightarrow> same \<and> length (current_position_moves t) \<le> length moves \<and>
    current_position_moves t = take (length (current_position_moves t)) moves"
  obtain t1 M1 where 1: "(if \<not> same then DeallocateTree t M else (t, M)) = (t1, M1)" by fastforce
  obtain tr M2 where 2: "advance moves (gamebegin_node t1) M1 = (tr, M2)" by fastforce
  define t2 where "t2 = t1\<lparr>gamebegin_node := tr, current_head := replicate (length moves) 0\<rparr>"
  obtain t3 M3 where 3: "(if same \<and> \<not> can then
      if moves \<noteq> [] then
        case restart_head (length moves - 1) (gamebegin_node t2) M2 of (tr, M) \<Rightarrow> (t2\<lparr>gamebegin_node := tr\<rparr>, M)
      else DeallocateTree t2 M2
    else (t2, M2)) = (t3, M3)" by fastforce
  have R: "ResetToPosition key moves t M =
      (can, t3\<lparr>history_starting_pos_key := key, current_position_moves := moves, has_position := True\<rparr>, M3)"
    unfolding ResetToPosition_def Let_def same_def [symmetric] can_def [symmetric] 1 split 2 t2_def [symmetric] 3
    by (rule refl)
  have t1: "gamebegin_node t1 = (if same then gamebegin_node t else new_node)"
    using 1 by (auto simp: DeallocateTree_def create_node_def Let_def split: if_splits)
  have a: "node_at (replicate (length moves) 0) tr = Some (descend moves (gamebegin_node t1))" "line_tree moves tr"
    using advance_head [OF 2] by blast+
  have h: "current_head t3 = replicate (length moves) 0 \<and> line_tree moves (gamebegin_node t3) \<and>
      node_at (replicate (length moves) 0) (gamebegin_node t3) = Some (if can then descend moves (gamebegin_node t) else new_node)"
  proof (cases "same \<and> \<not> can")
    case False
    then show ?thesis using 3 a t1 by (auto simp: t2_def can_def)
  next
    case True
    show ?thesis
    proof (cases "moves = []")
      case True
      then show ?thesis using 3 \<open>same \<and> \<not> can\<close> by (auto simp: DeallocateTree_def create_node_def Let_def)
    next
      case False
      obtain n M4 where r: "restart_head (length moves - 1) tr M2 = (n, M4)" by fastforce
      have "t3 = t2\<lparr>gamebegin_node := n\<rparr>" using 3 True False r by (auto simp: t2_def)
      then show ?thesis using restart_line [OF a(2) _ r] True False by (simp add: t2_def)
    qed
  qed
  have c: "can \<longleftrightarrow> same \<and> (\<exists>rest. moves = current_position_moves t @ rest)"
    by (auto simp: can_def) (metis append_take_drop_id)
  show ?thesis using assms R h c by (auto simp: same_def)
qed

theorem ResetToPosition_head_witness:
  "node_at [0] (gamebegin_node (fst sample_advanced)) = Some new_node"
proof -
  obtain r t M where r: "ResetToPosition 5 [move_Normal 60 59] (fst initial_tree) (snd initial_tree) = (r, t, M)"
    by (metis prod_cases3)
  have s: "fst sample_advanced = t" by (simp add: sample_advanced_def r)
  have n: "gamebegin_node (fst initial_tree) = new_node" by (simp add: initial_tree_def)
  have h: "current_head t = [0]" using ResetToPosition_head [OF r] by simp
  have "node_at (current_head t) (gamebegin_node t) = Some new_node"
    using ResetToPosition_head [OF r, unfolded n descend_new if_cancel] by blast
  then show ?thesis unfolding s h .
qed

end
