(* ===== verification/SearchSteps.thy ===== *)
theory SearchSteps
  imports UctTree
begin

text \<open>
  The steps of a playout, mcts/search\_primitives.h and mcts/search\_primitives.cc: proven edge
  values, the choice of a child by the PUCT rule with the propagation of proven results, and the
  backup of a value along the trajectory.  The logarithm of the C library is a parameter.
\<close>

subsection \<open>Proven edges\<close>

datatype edge_outcome = EdgeWin | EdgeLoss | EdgeDraw

fun ResolveTerminalEdge :: "child_node option \<Rightarrow> edge_outcome \<Rightarrow> ieee \<Rightarrow> ieee \<times> child_node option" where
  "ResolveTerminalEdge edge EdgeWin draw_value = (Fin 1, map_option SetLose edge)"
| "ResolveTerminalEdge edge EdgeLoss draw_value = (Fin 0, map_option SetWin edge)"
| "ResolveTerminalEdge edge EdgeDraw draw_value = (draw_value, map_option SetDraw edge)"

definition TryGetProvenEdgeValue :: "child_node option \<Rightarrow> ieee \<Rightarrow> ieee option" where
  "TryGetProvenEdgeValue edge draw_value =
     (case edge of
        None \<Rightarrow> None
      | Some c \<Rightarrow>
          if IsWin c then Some (Fin 0)
          else if IsLose c then Some (Fin 1)
          else if IsDraw c then Some draw_value
          else None)"

subsection \<open>Selection\<close>

record puct_parameters =
  c_init :: ieee
  c_base :: ieee
  fpu_reduction :: ieee

record puct_terms =
  sqrt_sum :: ieee
  c_term :: ieee
  parent_q :: ieee
  init_u :: ieee

definition node_terms :: "(ieee \<Rightarrow> ieee) \<Rightarrow> uct_node \<Rightarrow> puct_parameters \<Rightarrow> puct_terms" where
  "node_terms logf current params =
     (let sum = max 0 (node_visits current);
          sum_win = node_win current;
          sqrt_s = fsqrt (ffloat sum);
          c = fadd (c_init params)
                (logf (fdiv (fadd (fadd (ffloat sum) (c_base params)) (Fin 1)) (c_base params)));
          visited = visited_nnrate current;
          fpu = fmul (fpu_reduction params) (fsqrt (fmax visited (Fin 0)))
      in \<lparr>sqrt_sum = sqrt_s, c_term = c,
          parent_q = (if sum > 0 \<and> fless (Fin 0) sum_win
                      then fmax (Fin 0) (fsub (fdiv sum_win (ffloat sum)) fpu) else Fin 0),
          init_u = (if sum = 0 then Fin 1 else sqrt_s)\<rparr>)"

definition edge_score :: "puct_terms \<Rightarrow> child_node \<Rightarrow> ieee" where
  "edge_score T c =
     (let q = (if edge_visits c = 0 then parent_q T else fdiv (edge_win c) (ffloat (edge_visits c)));
          u = (if edge_visits c = 0 then init_u T else fdiv (sqrt_sum T) (ffloat (1 + edge_visits c)))
      in fadd q (fmul (fmul (c_term T) u) (nnrate c)))"

record selection =
  best_score :: ieee
  best :: nat
  all_children_win :: bool
  all_children_win_or_draw :: bool
  has_draw :: bool

text \<open>The loop over the children from index \<open>i\<close>; a left result is the early return.\<close>

fun select_loop :: "(child_node \<Rightarrow> ieee) \<Rightarrow> nat \<Rightarrow> child_node list \<Rightarrow> selection \<Rightarrow> nat + selection" where
  "select_loop score i [] s = Inr s"
| "select_loop score i (c # cs) s =
     (if IsLose c then Inl i
      else if IsWin c then select_loop score (Suc i) cs s
      else
        let s = s\<lparr>all_children_win := False\<rparr>;
            s = (if IsDraw c then s\<lparr>has_draw := True\<rparr> else s\<lparr>all_children_win_or_draw := False\<rparr>);
            s = (if fless (best_score s) (score c) then s\<lparr>best_score := score c, best := i\<rparr> else s)
        in select_loop score (Suc i) cs s)"

fun add_visited :: "ieee \<Rightarrow> uct_node \<Rightarrow> uct_node" where
  "add_visited x (UctNode s v w r cs) = UctNode s v w (fadd r x) cs"

text \<open>The chosen index, the edge leading to the node, and the node.\<close>

definition SelectPuctChild :: "(ieee \<Rightarrow> ieee) \<Rightarrow> child_node option \<Rightarrow> uct_node \<Rightarrow> puct_parameters \<Rightarrow>
    nat \<times> child_node option \<times> uct_node" where
  "SelectPuctChild logf parent current params =
     (case select_loop (edge_score (node_terms logf current params)) 0 (child current)
        \<lparr>best_score = Inf True, best = 0, all_children_win = True, all_children_win_or_draw = True, has_draw = False\<rparr>
      of Inl i \<Rightarrow> (i, map_option SetWin parent, current)
       | Inr s \<Rightarrow>
           if all_children_win s then (best s, map_option SetLose parent, current)
           else if all_children_win_or_draw s \<and> has_draw s then (best s, map_option SetDraw parent, current)
           else (best s, parent, add_visited (nnrate (child current ! best s)) current))"

subsection \<open>Backup\<close>

text \<open>An edge of the trajectory: the path of its parent and the index of the child.\<close>

type_synonym trajectory = "(nat list \<times> nat) list"

fun add_node_win :: "ieee \<Rightarrow> uct_node \<Rightarrow> uct_node" where
  "add_node_win x (UctNode s v w r cs) = UctNode s v (fadd w x) r cs"

fun add_edge_win :: "ieee \<Rightarrow> child_node \<Rightarrow> child_node" where
  "add_edge_win x (ChildNode s m f p v w) = ChildNode s m f p v (fadd w x)"

definition UpdateResult :: "nat \<Rightarrow> ieee \<Rightarrow> uct_node \<Rightarrow> uct_node" where
  "UpdateResult i result current =
     (let current = add_node_win result current
      in with_children ((child current)[i := add_edge_win result (child current ! i)]) current)"

fun update_at :: "nat list \<Rightarrow> (uct_node \<Rightarrow> uct_node) \<Rightarrow> uct_node \<Rightarrow> uct_node" where
  "update_at [] f n = f n"
| "update_at (i # is) f n =
     (if i < child_num n then
        case slot (child n ! i) of
          None \<Rightarrow> n
        | Some h \<Rightarrow> with_children ((child n)[i := with_slot (Some (update_at is f h)) (child n ! i)]) n
      else n)"

text \<open>Whether the accumulators of a step are finite; \<open>None\<close> is a pointer to no node or edge.\<close>

definition step_finite :: "uct_node \<Rightarrow> nat list \<times> nat \<Rightarrow> bool option" where
  "step_finite tree = (\<lambda>(p, i). case node_at p tree of
       None \<Rightarrow> None
     | Some n \<Rightarrow> if i < child_num n
                 then Some (isfinite (node_win n) \<and> isfinite (edge_win (child n ! i)) \<and> isfinite (nnrate (child n ! i)))
                 else None)"

fun validate :: "uct_node \<Rightarrow> trajectory \<Rightarrow> bool option" where
  "validate tree [] = Some True"
| "validate tree (e # es) =
     (case step_finite tree e of
        None \<Rightarrow> None
      | Some ok \<Rightarrow> if \<not> ok then Some False else validate tree es)"

fun backup_loop :: "trajectory \<Rightarrow> ieee \<Rightarrow> uct_node \<Rightarrow> uct_node" where
  "backup_loop [] value tree = tree"
| "backup_loop ((p, i) # es) value tree =
     backup_loop es (fsub (Fin 1) value) (update_at p (UpdateResult i value) tree)"

definition BackupTrajectory :: "trajectory \<Rightarrow> ieee \<Rightarrow> uct_node \<Rightarrow> (bool \<times> uct_node) option" where
  "BackupTrajectory trajectory leaf_parent_value tree =
     (if \<not> isfinite leaf_parent_value then Some (False, tree)
      else case validate tree trajectory of
        None \<Rightarrow> None
      | Some ok \<Rightarrow> if \<not> ok then Some (False, tree)
                  else Some (True, backup_loop (rev trajectory) leaf_parent_value tree))"

subsection \<open>What is selected\<close>

text \<open>Index \<open>j\<close> of the children is the first with the best score among those not lost.\<close>

definition first_best :: "(child_node \<Rightarrow> ieee) \<Rightarrow> child_node list \<Rightarrow> nat \<Rightarrow> bool" where
  "first_best score cs j \<longleftrightarrow> j < length cs \<and> \<not> IsWin (cs ! j) \<and>
     (\<forall>c \<in> set cs. \<not> IsWin c \<longrightarrow> \<not> fless (score (cs ! j)) (score c)) \<and>
     (\<forall>k < j. \<not> IsWin (cs ! k) \<longrightarrow> score (cs ! k) \<noteq> score (cs ! j))"

lemma select_loop_Inl:
  "select_loop score i cs s = Inl k \<Longrightarrow> i \<le> k \<and> k - i < length cs \<and> IsLose (cs ! (k - i)) \<and> (\<forall>j < k - i. \<not> IsLose (cs ! j))"
proof (induction cs arbitrary: i s)
  case (Cons c cs)
  show ?case
  proof (cases "IsLose c")
    case False
    then obtain s' where l: "select_loop score (Suc i) cs s' = Inl k" using Cons.prems by (auto simp: Let_def split: if_splits)
    note h = Cons.IH [OF l]
    have k: "k - i = Suc (k - Suc i)" using conjunct1 [OF h] by arith
    show ?thesis using h False unfolding k by (auto simp: less_Suc_eq_0_disj)
  qed (use Cons.prems in auto)
qed simp

lemma select_loop_flags:
  "select_loop score i cs s = Inr s' \<Longrightarrow> (\<forall>c \<in> set cs. \<not> IsLose c) \<and>
    (all_children_win s' \<longleftrightarrow> all_children_win s \<and> (\<forall>c \<in> set cs. IsWin c)) \<and>
    (all_children_win_or_draw s' \<longleftrightarrow> all_children_win_or_draw s \<and> (\<forall>c \<in> set cs. IsWin c \<or> IsDraw c)) \<and>
    (has_draw s' \<longleftrightarrow> has_draw s \<or> (\<exists>c \<in> set cs. \<not> IsWin c \<and> IsDraw c)) \<and>
    ((\<forall>c \<in> set cs. IsWin c) \<longrightarrow> best s' = best s)"
  by (induction cs arbitrary: i s) (auto simp: Let_def split: if_splits)

lemma select_loop_best:
  "select_loop score i cs s = Inr s' \<Longrightarrow>
    (best s' = best s \<and> best_score s' = best_score s \<and> (\<forall>c \<in> set cs. \<not> IsWin c \<longrightarrow> \<not> fless (best_score s) (score c))) \<or>
    (\<exists>j. best s' = i + j \<and> first_best score cs j \<and> best_score s' = score (cs ! j) \<and> fless (best_score s) (score (cs ! j)))"
proof (induction cs arbitrary: i s)
  case (Cons c cs)
  show ?case
  proof (cases "IsWin c")
    case True
    then have l: "select_loop score (Suc i) cs s = Inr s'" using Cons.prems by (auto split: if_splits)
    have shift: "first_best score (c # cs) (Suc j)" if "first_best score cs j" for j
      using that True unfolding first_best_def by (auto simp: less_Suc_eq_0_disj)
    from Cons.IH [OF l] show ?thesis
    proof
      assume "\<exists>j. best s' = Suc i + j \<and> first_best score cs j \<and> best_score s' = score (cs ! j) \<and>
        fless (best_score s) (score (cs ! j))"
      then obtain j where "best s' = i + Suc j" "first_best score cs j" "best_score s' = score ((c # cs) ! Suc j)"
        "fless (best_score s) (score ((c # cs) ! Suc j))" by auto
      then show ?thesis using shift by blast
    qed (use True in auto)
  next
    case False
    define s1 where "s1 = (let s = s\<lparr>all_children_win := False\<rparr>;
      s = (if IsDraw c then s\<lparr>has_draw := True\<rparr> else s\<lparr>all_children_win_or_draw := False\<rparr>)
      in if fless (best_score s) (score c) then s\<lparr>best_score := score c, best := i\<rparr> else s)"
    have l: "select_loop score (Suc i) cs s1 = Inr s'"
      using Cons.prems False by (auto simp: s1_def Let_def split: if_splits)
    have b: "best_score s1 = (if fless (best_score s) (score c) then score c else best_score s)"
      "best s1 = (if fless (best_score s) (score c) then i else best s)"
      by (simp_all add: s1_def Let_def)
    from Cons.IH [OF l] show ?thesis
    proof
      assume h: "best s' = best s1 \<and> best_score s' = best_score s1 \<and>
        (\<forall>c \<in> set cs. \<not> IsWin c \<longrightarrow> \<not> fless (best_score s1) (score c))"
      show ?thesis
      proof (cases "fless (best_score s) (score c)")
        case True
        then have "first_best score (c # cs) 0" using h False b by (auto simp: first_best_def fless_irrefl)
        then show ?thesis using h True b by (intro disjI2 exI [of _ 0]) simp
      next
        case f: False
        then show ?thesis using h b by auto
      qed
    next
      assume "\<exists>j. best s' = Suc i + j \<and> first_best score cs j \<and> best_score s' = score (cs ! j) \<and>
        fless (best_score s1) (score (cs ! j))"
      then obtain j where h: "best s' = Suc i + j" "first_best score cs j" "best_score s' = score (cs ! j)"
        "fless (best_score s1) (score (cs ! j))" by blast
      have lt: "fless (best_score s) (score (cs ! j))"
        using h(4) fless_trans [of "best_score s" "score c" "score (cs ! j)"] by (auto simp: b split: if_splits)
      have c1: "\<not> fless (score (cs ! j)) (score c)"
      proof
        assume a: "fless (score (cs ! j)) (score c)"
        then have "fless (best_score s1) (score c)" using h(4) fless_trans by blast
        moreover have "fless (best_score s) (score c)" using lt a fless_trans by blast
        ultimately show False by (simp add: b fless_irrefl)
      qed
      have c2: "score c \<noteq> score (cs ! j)" using h(4) by (auto simp: b fless_irrefl split: if_splits)
      have "first_best score (c # cs) (Suc j)"
        using h(2) c1 c2 unfolding first_best_def by (auto simp: less_Suc_eq_0_disj)
      then show ?thesis using h lt by (intro disjI2 exI [of _ "Suc j"]) simp
    qed
  qed
qed simp

lemma selection_result:
  assumes "(case select_loop sc 0 (child current)
        \<lparr>best_score = Inf True, best = 0, all_children_win = True, all_children_win_or_draw = True, has_draw = False\<rparr>
      of Inl i \<Rightarrow> (i, map_option SetWin parent, current)
       | Inr s \<Rightarrow>
           if all_children_win s then (best s, map_option SetLose parent, current)
           else if all_children_win_or_draw s \<and> has_draw s then (best s, map_option SetDraw parent, current)
           else (best s, parent, add_visited (nnrate (child current ! best s)) current)) = (i, parent', current')"
  shows "if \<exists>c \<in> set (child current). IsLose c then
      i < child_num current \<and> IsLose (child current ! i) \<and> (\<forall>j < i. \<not> IsLose (child current ! j)) \<and>
      parent' = map_option SetWin parent \<and> current' = current
    else if \<forall>c \<in> set (child current). IsWin c then
      i = 0 \<and> parent' = map_option SetLose parent \<and> current' = current
    else
      (if \<forall>c \<in> set (child current). IsWin c \<or> IsDraw c
       then parent' = map_option SetDraw parent \<and> current' = current
       else parent' = parent \<and> current' = add_visited (nnrate (child current ! i)) current) \<and>
      ((\<exists>c \<in> set (child current). \<not> IsWin c \<and> fless (Inf True) (sc c)) \<longrightarrow>
         first_best sc (child current) i)"
proof -
  define s0 where "s0 = \<lparr>best_score = Inf True, best = 0, all_children_win = True,
    all_children_win_or_draw = True, has_draw = False\<rparr>"
  note S = assms [folded s0_def]
  show ?thesis
  proof (cases "select_loop sc 0 (child current) s0")
    case (Inl k)
    note l = select_loop_Inl [OF Inl]
    then have "\<exists>c \<in> set (child current). IsLose c" by (metis diff_zero nth_mem)
    then show ?thesis using S l Inl by (simp add: child_num_def)
  next
    case (Inr s)
    note f = select_loop_flags [OF Inr] and b = select_loop_best [OF Inr]
    have s0: "all_children_win s0" "all_children_win_or_draw s0" "\<not> has_draw s0" "best s0 = 0" "best_score s0 = Inf True"
      by (simp_all add: s0_def)
    have none: "\<not> (\<exists>c \<in> set (child current). IsLose c)" using f by blast
    show ?thesis
    proof (cases "\<forall>c \<in> set (child current). IsWin c")
      case True
      then show ?thesis using S f s0 none Inr by auto
    next
      case False
      have i: "i = best s" using S Inr by (auto split: if_splits)
      have best: "first_best sc (child current) i"
        if "\<exists>c \<in> set (child current). \<not> IsWin c \<and> fless (Inf True) (sc c)"
        using b that s0 i by auto
      have d: "has_draw s" if "\<forall>c \<in> set (child current). IsWin c \<or> IsDraw c" using f False that by blast
      have w: "\<not> all_children_win s" "all_children_win_or_draw s \<longleftrightarrow> (\<forall>c \<in> set (child current). IsWin c \<or> IsDraw c)"
        using f False s0 by blast+
      show ?thesis
      proof (cases "\<forall>c \<in> set (child current). IsWin c \<or> IsDraw c")
        case True
        then show ?thesis using S False none best d [OF True] w Inr by (auto split: if_splits)
      next
        case False
        then show ?thesis using S \<open>\<not> (\<forall>c \<in> set (child current). IsWin c)\<close> none best w Inr by (auto split: if_splits)
      qed
    qed
  qed
qed


text \<open>C39: Selection returns the first child with a proven win and reports the win upwards; with
  every child proven lost it reports the loss; with every other child a draw it reports the draw.
  Otherwise it reports nothing and adds the chosen prior.  When some child that is not proven lost
  has a score above minus infinity, the child chosen is not proven lost and is the first with the
  best score among those.\<close>

theorem SelectPuctChild_correct:
  assumes "SelectPuctChild logf parent current params = (i, parent', current')"
  shows "if \<exists>c \<in> set (child current). IsLose c then
      i < child_num current \<and> IsLose (child current ! i) \<and> (\<forall>j < i. \<not> IsLose (child current ! j)) \<and>
      parent' = map_option SetWin parent \<and> current' = current
    else if \<forall>c \<in> set (child current). IsWin c then
      i = 0 \<and> parent' = map_option SetLose parent \<and> current' = current
    else
      (if \<forall>c \<in> set (child current). IsWin c \<or> IsDraw c
       then parent' = map_option SetDraw parent \<and> current' = current
       else parent' = parent \<and> current' = add_visited (nnrate (child current ! i)) current) \<and>
      ((\<exists>c \<in> set (child current). \<not> IsWin c \<and> fless (Inf True) (edge_score (node_terms logf current params) c)) \<longrightarrow>
         first_best (edge_score (node_terms logf current params)) (child current) i)"
  using assms unfolding SelectPuctChild_def by (rule selection_result)

definition sample_params :: puct_parameters where
  "sample_params = \<lparr>c_init = Fin (5/4), c_base = Fin 19652, fpu_reduction = Fin 0\<rparr>"

definition won_node :: uct_node where
  "won_node = UctNode kExpanded 2 (Fin 1) (Fin 0)
     [ChildNode None (move_Normal 60 59) 0 (Fin (1/2)) 1 (Fin 1), ChildNode None (move_Normal 6 14) kLose (Fin (1/2)) 1 (Fin 1)]"

theorem SelectPuctChild_correct_witness:
  "fst (SelectPuctChild (\<lambda>x. x) None won_node sample_params) = 1"
proof -
  obtain i p n where s: "SelectPuctChild (\<lambda>x. x) None won_node sample_params = (i, p, n)" by (metis prod_cases3)
  have l: "child won_node = [ChildNode None (move_Normal 60 59) 0 (Fin (1/2)) 1 (Fin 1),
      ChildNode None (move_Normal 6 14) kLose (Fin (1/2)) 1 (Fin 1)]" by (simp add: won_node_def)
  have f: "IsLose (ChildNode None (move_Normal 6 14) kLose (Fin (1/2)) 1 (Fin 1))"
    "\<not> IsLose (ChildNode None (move_Normal 60 59) 0 (Fin (1/2)) 1 (Fin 1))"
    by (simp_all add: IsLose_def kLose_def)
  have "i < 2 \<and> IsLose (child won_node ! i)"
    using SelectPuctChild_correct [OF s] f by (simp add: l child_num_def)
  then have "i = 1" using f by (auto simp: l less_2_cases_iff)
  then show ?thesis by (simp add: s)
qed

subsection \<open>What a backup does\<close>

text \<open>A node's own fields, without its subtrees.\<close>

definition edge_own :: "child_node \<Rightarrow> bool \<times> move \<times> u8 \<times> ieee \<times> int \<times> ieee" where
  "edge_own c = (slot c \<noteq> None, edge_move c, edge_flags c, nnrate c, edge_visits c, edge_win c)"

definition node_own :: "uct_node \<Rightarrow> u8 \<times> int \<times> ieee \<times> ieee \<times> (bool \<times> move \<times> u8 \<times> ieee \<times> int \<times> ieee) list" where
  "node_own n = (node_state n, node_visits n, node_win n, visited_nnrate n, map edge_own (child n))"

definition own_at :: "nat list \<Rightarrow> uct_node \<Rightarrow>
    (u8 \<times> int \<times> ieee \<times> ieee \<times> (bool \<times> move \<times> u8 \<times> ieee \<times> int \<times> ieee) list) option" where
  "own_at p tree = map_option node_own (node_at p tree)"

definition keeps_slots :: "(uct_node \<Rightarrow> uct_node) \<Rightarrow> bool" where
  "keeps_slots f \<longleftrightarrow> (\<forall>n. map slot (child (f n)) = map slot (child n))"

lemma edge_own_with_slot: "slot c \<noteq> None \<Longrightarrow> edge_own (with_slot (Some h) c) = edge_own c"
  by (cases c) (simp add: edge_own_def)

lemma node_own_upd:
  "i < child_num n \<Longrightarrow> slot (child n ! i) = Some h \<Longrightarrow>
    node_own (with_children ((child n)[i := with_slot (Some h') (child n ! i)]) n) = node_own n"
  by (simp add: node_own_def child_num_def map_update edge_own_with_slot)
    (metis list_update_id map_update nth_map)

lemma node_at_slots:
  assumes "map slot (child n) = map slot (child m)" "q \<noteq> []"
  shows "node_at q n = node_at q m"
proof (cases q)
  case (Cons i ix)
  have "length (child n) = length (child m)" using map_eq_imp_length_eq [OF assms(1)] .
  moreover have "slot (child n ! i) = slot (child m ! i)" if "i < length (child n)"
    using assms(1) that calculation by (metis nth_map)
  ultimately show ?thesis using Cons by (simp add: child_num_def)
qed (use assms in simp)

lemma own_at_update:
  assumes "keeps_slots f"
  shows "own_at q (update_at p f tree) = (if q = p then map_option (\<lambda>n. node_own (f n)) (node_at p tree) else own_at q tree)"
proof (induction p arbitrary: tree q)
  case Nil
  have "node_at q (f tree) = node_at q tree" if "q \<noteq> []"
    using assms that by (intro node_at_slots) (simp_all add: keeps_slots_def)
  then show ?case by (auto simp: own_at_def)
next
  case (Cons i p)
  show ?case
  proof (cases "i < child_num tree \<and> slot (child tree ! i) \<noteq> None")
    case False
    then have "update_at (i # p) f tree = tree" "node_at (i # p) tree = None" by (auto split: option.split)
    then show ?thesis by (cases "q = i # p") (simp_all only: own_at_def option.map if_True if_False refl)
  next
    case True
    then obtain h where h: "i < child_num tree" "slot (child tree ! i) = Some h" by auto
    define t' where "t' = with_children ((child tree)[i := with_slot (Some (update_at p f h)) (child tree ! i)]) tree"
    have u: "update_at (i # p) f tree = t'" using h by (simp add: t'_def)
    show ?thesis
    proof (cases q)
      case Nil
      then show ?thesis unfolding u using node_own_upd [OF h] by (simp add: own_at_def t'_def)
    next
      case q: (Cons j r)
      show ?thesis
      proof (cases "j = i")
        case True
        then have "own_at q t' = own_at r (update_at p f h)" "own_at q tree = own_at r h"
          "node_at (i # p) tree = node_at p h"
          using h q by (simp_all add: own_at_def t'_def child_num_def)
        then show ?thesis unfolding u using Cons.IH [of r h] q True by simp
      next
        case False
        then have "own_at q t' = own_at q tree" using q by (simp add: own_at_def t'_def child_num_def)
        then show ?thesis unfolding u using False q by simp
      qed
    qed
  qed
qed

lemma update_sel [simp]:
  "child (add_node_win x n) = child n" "node_win (add_node_win x n) = fadd (node_win n) x"
  "node_state (add_node_win x n) = node_state n" "node_visits (add_node_win x n) = node_visits n"
  "visited_nnrate (add_node_win x n) = visited_nnrate n"
  "slot (add_edge_win x c) = slot c"
  by (cases n; simp)+ (cases c; simp)

text \<open>The same update on the own fields.\<close>

fun own_update :: "nat \<Rightarrow> ieee \<Rightarrow> u8 \<times> int \<times> ieee \<times> ieee \<times> (bool \<times> move \<times> u8 \<times> ieee \<times> int \<times> ieee) list \<Rightarrow>
    u8 \<times> int \<times> ieee \<times> ieee \<times> (bool \<times> move \<times> u8 \<times> ieee \<times> int \<times> ieee) list" where
  "own_update i x (s, v, w, r, es) =
     (s, v, fadd w x, r, es[i := (case es ! i of (b, m, f, p, k, w) \<Rightarrow> (b, m, f, p, k, fadd w x))])"

lemma keeps_UpdateResult: "keeps_slots (UpdateResult i x)"
  unfolding keeps_slots_def UpdateResult_def Let_def
  by (simp add: map_update) (metis list_update_id map_update nth_map list_update_beyond not_le length_map)

lemma own_UpdateResult: "i < child_num n \<Longrightarrow> node_own (UpdateResult i x n) = own_update i x (node_own n)"
proof -
  have "edge_own (add_edge_win x c) = (case edge_own c of (b, m, f, p, k, w) \<Rightarrow> (b, m, f, p, k, fadd w x))" for c
    by (cases c) (simp add: edge_own_def)
  then show "i < child_num n \<Longrightarrow> ?thesis"
    by (simp add: node_own_def UpdateResult_def Let_def map_update child_num_def)
qed

text \<open>The trajectory of a playout: the edges of one path from the root.\<close>

definition path_edges :: "nat list \<Rightarrow> trajectory" where
  "path_edges ix = map (\<lambda>k. (take k ix, ix ! k)) [0..<length ix]"

fun alternate :: "nat \<Rightarrow> ieee \<Rightarrow> ieee" where
  "alternate 0 v = v"
| "alternate (Suc n) v = alternate n (fsub (Fin 1) v)"

text \<open>The pointers of the trajectory are valid.\<close>

definition path_valid :: "nat list \<Rightarrow> uct_node \<Rightarrow> bool" where
  "path_valid ix tree \<longleftrightarrow> (\<forall>k < length ix. \<exists>n. node_at (take k ix) tree = Some n \<and> ix ! k < child_num n)"

lemma own_at_child_num: "own_at p t = own_at p u \<Longrightarrow> node_at p t = Some n \<Longrightarrow> \<exists>m. node_at p u = Some m \<and> child_num m = child_num n"
  by (cases "node_at p u") (auto simp: own_at_def node_own_def child_num_def dest: map_eq_imp_length_eq)

lemma backup_loop_path:
  assumes "m \<le> length ix" "\<forall>k < m. \<exists>n. node_at (take k ix) tree = Some n \<and> ix ! k < child_num n"
  shows "own_at q (backup_loop (rev (map (\<lambda>k. (take k ix, ix ! k)) [0..<m])) v tree) =
    (if \<exists>k < m. q = take k ix
     then map_option (own_update (ix ! length q) (alternate (m - 1 - length q) v)) (own_at q tree)
     else own_at q tree)"
  using assms
proof (induction m arbitrary: v tree)
  case (Suc m)
  define t1 where "t1 = update_at (take m ix) (UpdateResult (ix ! m) v) tree"
  have own: "own_at q t1 = (if q = take m ix then map_option (own_update (ix ! m) v) (own_at q tree) else own_at q tree)" for q
  proof -
    obtain n where n: "node_at (take m ix) tree = Some n" "ix ! m < child_num n" using Suc.prems by blast
    then show ?thesis
      unfolding t1_def own_at_update [OF keeps_UpdateResult] by (simp add: own_at_def own_UpdateResult)
  qed
  have lt: "length (take k ix) = k" if "k \<le> m" for k using that Suc.prems(1) by simp
  have pre: "\<forall>k < m. \<exists>n. node_at (take k ix) t1 = Some n \<and> ix ! k < child_num n"
  proof (intro allI impI)
    fix k assume k: "k < m"
    then obtain n where n: "node_at (take k ix) tree = Some n" "ix ! k < child_num n" using Suc.prems by (meson less_SucI)
    have "take k ix \<noteq> take m ix" using lt [of k] lt [of m] k by (metis less_imp_le less_irrefl order_refl)
    then have "own_at (take k ix) tree = own_at (take k ix) t1" using own by simp
    from own_at_child_num [OF this n(1)] n(2) show "\<exists>n. node_at (take k ix) t1 = Some n \<and> ix ! k < child_num n" by auto
  qed
  have step: "backup_loop (rev (map (\<lambda>k. (take k ix, ix ! k)) [0..<Suc m])) v tree =
      backup_loop (rev (map (\<lambda>k. (take k ix, ix ! k)) [0..<m])) (fsub (Fin 1) v) t1"
    by (simp add: t1_def)
  have ih: "own_at q (backup_loop (rev (map (\<lambda>k. (take k ix, ix ! k)) [0..<m])) (fsub (Fin 1) v) t1) =
    (if \<exists>k < m. q = take k ix
     then map_option (own_update (ix ! length q) (alternate (m - 1 - length q) (fsub (Fin 1) v))) (own_at q t1)
     else own_at q t1)"
    by (rule Suc.IH [OF _ pre]) (use Suc.prems in simp)
  show ?case
  proof (cases "\<exists>k < m. q = take k ix")
    case True
    then obtain k where k: "k < m" "q = take k ix" by blast
    have "q \<noteq> take m ix" using lt [of k] lt [of m] k by (metis less_imp_le less_irrefl order_refl)
    moreover have "Suc m - 1 - length q = Suc (m - 1 - length q)" using k lt [of k] by simp
    moreover have "\<exists>k < Suc m. q = take k ix" using k less_SucI by blast
    ultimately show ?thesis using True unfolding step ih own by simp
  next
    case False
    then show ?thesis unfolding step ih own using lt [of m] by (auto simp: less_Suc_eq)
  qed
qed simp

definition path_finite :: "nat list \<Rightarrow> uct_node \<Rightarrow> bool" where
  "path_finite ix tree \<longleftrightarrow> (\<forall>k < length ix. step_finite tree (take k ix, ix ! k) = Some True)"

lemma validate_iff:
  "\<forall>e \<in> set es. step_finite tree e \<noteq> None \<Longrightarrow>
    validate tree es = Some (\<forall>e \<in> set es. step_finite tree e = Some True)"
  by (induction es) (auto split: option.split)

text \<open>C40: A backup along a playout's path either changes nothing, exactly when the value or, on the
  path, a node's accumulator, an edge's accumulator or an edge's prior is not finite, or adds to
  each node of the path and to its edge the value seen from that depth, alternating once per edge
  from the leaf up; every other field of the tree is left alone.\<close>

theorem BackupTrajectory_path:
  assumes "path_valid ix tree"
  shows "\<exists>tree'. BackupTrajectory (path_edges ix) v tree = Some (isfinite v \<and> path_finite ix tree, tree') \<and>
    (\<not> (isfinite v \<and> path_finite ix tree) \<longrightarrow> tree' = tree) \<and>
    (isfinite v \<and> path_finite ix tree \<longrightarrow>
       (\<forall>q. own_at q tree' =
          (if \<exists>k < length ix. q = take k ix
           then map_option (own_update (ix ! length q) (alternate (length ix - 1 - length q) v)) (own_at q tree)
           else own_at q tree)))"
proof -
  have some: "step_finite tree e \<noteq> None" if "e \<in> set (path_edges ix)" for e
    using that assms by (fastforce simp: path_edges_def path_valid_def step_finite_def)
  have "(\<forall>e \<in> set (path_edges ix). step_finite tree e = Some True) \<longleftrightarrow> path_finite ix tree"
    by (auto simp: path_edges_def path_finite_def)
  then have val: "validate tree (path_edges ix) = Some (path_finite ix tree)"
    using validate_iff [of "path_edges ix" tree] some by simp
  define t where "t = (if isfinite v \<and> path_finite ix tree then backup_loop (rev (path_edges ix)) v tree else tree)"
  have "BackupTrajectory (path_edges ix) v tree = Some (isfinite v \<and> path_finite ix tree, t)"
    by (simp add: BackupTrajectory_def val t_def)
  moreover have "own_at q t = (if \<exists>k < length ix. q = take k ix
      then map_option (own_update (ix ! length q) (alternate (length ix - 1 - length q) v)) (own_at q tree)
      else own_at q tree)" if "isfinite v \<and> path_finite ix tree" for q
    using backup_loop_path [of "length ix" ix tree q v] assms that
    by (simp add: t_def path_edges_def path_valid_def)
  ultimately show ?thesis by (intro exI [of _ t]) (auto simp: t_def)
qed

theorem BackupTrajectory_path_witness:
  "\<exists>t. BackupTrajectory (path_edges [0]) (Fin (1/4)) sample_node = Some (True, t) \<and>
     map_option (\<lambda>(s, v, w, r, es). w) (own_at [] t) = Some (fadd (Fin 5) (Fin (1/4)))"
proof -
  have v: "path_valid [0] sample_node" by (simp add: path_valid_def sample_node_def child_num_def)
  have f: "path_finite [0] sample_node"
    by (simp add: path_finite_def step_finite_def sample_node_def child_num_def)
  obtain t where t: "BackupTrajectory (path_edges [0]) (Fin (1/4)) sample_node = Some (True, t)"
    "own_at [] t = map_option (own_update 0 (Fin (1/4))) (own_at [] sample_node)"
    using BackupTrajectory_path [OF v, of "Fin (1/4)"] f by auto
  then show ?thesis by (simp add: own_at_def node_own_def) (simp add: sample_node_def)
qed

end
