(* ===== verification/FeatureIndex.thy ===== *)
theory FeatureIndex
  imports Attacks Hands
begin

text \<open>
  The index scheme of the networks: nnue/types.h and the pair tables of nnue/features.cc.  Every
  piece on the board or in a hand has a slot; king-relative inputs, threat pairs and policy
  inputs are built from slots.  The theorems show that the schemes are injective and stay in
  their ranges, so that no weight row is read out of bounds or shared by two features.
\<close>

subsection \<open>Slots\<close>

definition kTypeIds :: nat where "kTypeIds = 14"

definition TypeId :: "piece_type \<Rightarrow> nat" where
  "TypeId pt = (if pt = 8 then 0 else if pt < 8 then pt else pt - 1)"

definition TypeFromId :: "nat \<Rightarrow> piece_type" where
  "TypeFromId tid = (if tid = 0 then 8 else if tid < 8 then tid else tid + 1)"

definition kHandKinds :: nat where "kHandKinds = 7"
definition kHandMax :: "nat list" where "kHandMax = [18, 4, 4, 4, 2, 2, 4]"
definition kHandOff :: "nat list" where "kHandOff = [0, 18, 22, 26, 30, 32, 34]"
definition kHandSlotsPerOwner :: nat where "kHandSlotsPerOwner = 38"

definition kHandSlots :: nat where "kHandSlots = 2 * kHandSlotsPerOwner"
definition kBoardSlots :: nat where "kBoardSlots = 2 * kTypeIds * 81"
definition kNumSlots :: nat where "kNumSlots = kHandSlots + kBoardSlots"

definition BoardSlot :: "nat \<Rightarrow> nat \<Rightarrow> nat \<Rightarrow> nat" where
  "BoardSlot owner tid frame_sq = kHandSlots + (owner * kTypeIds + tid) * 81 + frame_sq"

definition HandSlot :: "nat \<Rightarrow> nat \<Rightarrow> nat \<Rightarrow> nat" where
  "HandSlot owner hand_kind count_index =
     owner * kHandSlotsPerOwner + kHandOff ! hand_kind + count_index - 1"

subsection \<open>Input groups\<close>

definition kGroupAInputs :: nat where "kGroupAInputs = 81 * kNumSlots"
definition kMaxActiveA :: nat where "kMaxActiveA = 128"
definition kKPrelOffsets :: nat where "kKPrelOffsets = 17 * 17"
definition kKPrelInputs :: nat where "kKPrelInputs = 2 * kTypeIds * kKPrelOffsets + 1"

definition KPrelIndex :: "nat \<Rightarrow> int" where
  "KPrelIndex group_a_index =
     (let k = group_a_index div kNumSlots; slot = group_a_index mod kNumSlots in
      if slot < kHandSlots then int kKPrelInputs - 1
      else let b = slot - kHandSlots; owner_tid = b div 81; sq = b mod 81;
               dx = int (sq div 9) - int (k div 9) + 8;
               dy = int (sq mod 9) - int (k mod 9) + 8
           in int owner_tid * int kKPrelOffsets + dx * 17 + dy)"

definition kPairsPerOwner :: nat where "kPairsPerOwner = 8228"
definition kThreatClasses :: nat where "kThreatClasses = 16"
definition kThreatInputs :: nat where "kThreatInputs = 2 * kPairsPerOwner * kThreatClasses"
definition kGroupBInputs :: nat where "kGroupBInputs = kNumSlots + kThreatInputs"
definition kMaxActiveB :: nat where "kMaxActiveB = 512"

definition ThreatClass :: "nat \<Rightarrow> nat" where
  "ThreatClass tid =
     (if tid = 0 then 7 else if tid = 1 then 0 else if tid = 2 then 1 else if tid = 3 then 2
      else if tid = 4 then 3 else if tid = 5 then 5 else if tid = 6 then 6 else if tid = 7 then 4
      else if tid = 8 \<or> tid = 9 \<or> tid = 10 \<or> tid = 11 then 4
      else if tid = 12 then 5 else 6)"

definition kPolicyBoardInputs :: nat where "kPolicyBoardInputs = kBoardSlots * 4"
definition kPolicyInputs :: nat where "kPolicyInputs = kPolicyBoardInputs + kHandSlots"
definition kMaxActivePolicy :: nat where "kMaxActivePolicy = 40 + 2 * kHandSlotsPerOwner"

definition kPlainBuckets :: nat where "kPlainBuckets = 8115"
definition kPromoBuckets :: nat where "kPromoBuckets = 1397"
definition kDropBuckets :: nat where "kDropBuckets = 531"
definition kNumBuckets :: nat where "kNumBuckets = kPlainBuckets + kPromoBuckets + kDropBuckets"
definition kSeeThreshold :: int where "kSeeThreshold = -90"

definition kQA :: int where "kQA = 128"
definition kPolicyShift :: nat where "kPolicyShift = 2"
definition kPolicyFactor :: int where "kPolicyFactor = 32"
definition kPolicyQB :: int where "kPolicyQB = 128"
definition kQPst :: int where "kQPst = 256"
definition kValueL2 :: nat where "kValueL2 = 16"
definition kValueL3 :: nat where "kValueL3 = 32"

lemmas index_defs = kTypeIds_def kHandKinds_def kHandSlotsPerOwner_def kHandSlots_def kBoardSlots_def
  kNumSlots_def kGroupAInputs_def kKPrelOffsets_def kKPrelInputs_def kPairsPerOwner_def kThreatClasses_def
  kThreatInputs_def kGroupBInputs_def kPolicyBoardInputs_def kPolicyInputs_def

text \<open>Frames: the real square for Black, rotated by 180 degrees for White.\<close>

definition FrameSq :: "color \<Rightarrow> square \<Rightarrow> nat" where
  "FrameSq p sq = (if p = BLACK then sq else 80 - sq)"

definition OwnSq :: "color \<Rightarrow> square \<Rightarrow> nat" where
  "OwnSq c sq = FrameSq c sq"

definition owner_of :: "color \<Rightarrow> color \<Rightarrow> nat" where
  "owner_of p c = (if c \<noteq> p then 1 else 0)"

definition KingFrameSq :: "shogi_board \<Rightarrow> color \<Rightarrow> nat" where
  "KingFrameSq b p = (let k = king_sq b p in if sq_IsValid k then FrameSq p k else 0)"

subsection \<open>Pair tables\<close>

definition EmptyBoardReach :: "nat \<Rightarrow> square \<Rightarrow> bitboard" where
  "EmptyBoardReach tid sq =
     (let pt = TypeFromId tid; zero = bb_Zero in
      if pt = kPawn then PawnEffectBB sq BLACK
      else if pt = kLance then LanceEffect BLACK sq zero
      else if pt = kKnight then KnightEffectBB sq BLACK
      else if pt = kSilver then SilverEffectBB sq BLACK
      else if pt = kBishop then BishopEffect sq zero
      else if pt = kRook then RookEffect sq zero
      else if pt = kGold \<or> pt = kProPawn \<or> pt = kProLance \<or> pt = kProKnight \<or> pt = kProSilver
        then GoldEffectBB sq BLACK
      else if pt = kKing then KingEffectBB sq
      else if pt = kHorse then bb_Or (BishopEffect sq zero) (HorseStepBB sq)
      else if pt = kDragon then bb_Or (RookEffect sq zero) (DragonStepBB sq)
      else zero)"

text \<open>A table of destination sets, numbered through: the entries of one cell start where those of
  the cells before it end.\<close>

definition offset_from :: "nat \<Rightarrow> ('a \<Rightarrow> bitboard) \<Rightarrow> 'a list \<Rightarrow> nat" where
  "offset_from start dest cells = fold (\<lambda>c running. running + bb_PopCount (dest c)) cells start"

definition type_cells :: "(nat \<times> square) list" where
  "type_cells = concat (map (\<lambda>tid. map (Pair tid) [0..<81]) [0..<kTypeIds])"

text \<open>The value of the running total when the loop reaches the cell.\<close>

definition cell_offset :: "nat \<Rightarrow> ('a \<Rightarrow> bitboard) \<Rightarrow> 'a list \<Rightarrow> 'a \<Rightarrow> nat" where
  "cell_offset start dest cells c = offset_from start dest (takeWhile (\<lambda>x. x \<noteq> c) cells)"

definition pairs_dest :: "nat \<times> square \<Rightarrow> bitboard" where
  "pairs_dest = (\<lambda>(tid, s). EmptyBoardReach tid s)"

definition pairs_off :: "nat \<Rightarrow> square \<Rightarrow> nat" where
  "pairs_off tid s = cell_offset 0 pairs_dest type_cells (tid, s)"

definition pairs_total :: nat where
  "pairs_total = offset_from 0 pairs_dest type_cells"

definition BelowMask :: "nat \<Rightarrow> bitboard" where
  "BelowMask idx =
     (if idx < kBBSplit then bb_FromRaw (push_bit idx 1 - 1) 0
      else bb_FromRaw kBBMask0 (push_bit (idx - kBBSplit) 1 - 1))"

definition PairIndex :: "nat \<Rightarrow> nat \<Rightarrow> nat \<Rightarrow> nat" where
  "PairIndex tid own_from own_to =
     pairs_off tid own_from + bb_PopCount (bb_And (pairs_dest (tid, own_from)) (BelowMask own_to))"


subsection \<open>Numbering destination sets\<close>

lemma Test_BelowMask:
  assumes "i < 81" "t < 81"
  shows "bb_Test (BelowMask i) t \<longleftrightarrow> t < i"
proof -
  have m: "bit (push_bit n 1 - 1 :: u64) k \<longleftrightarrow> k < n \<and> k < 64" if "n < 64" for n k
  proof -
    have "push_bit n 1 - 1 = (mask n :: u64)" by (simp add: mask_eq_exp_minus_1 push_bit_eq_mult)
    then show ?thesis by (simp add: bit_mask_iff conj_commute)
  qed
  have k: "bit kBBMask0 n \<longleftrightarrow> n < 63" for n
    unfolding kBBMask_mask by (auto simp: bit_mask_iff)
  show ?thesis
    using assms unfolding bb_Test_bit BelowMask_def bb_FromRaw_def kBBSplit_def
    by (cases "i < 63"; cases "t < 63") (simp_all only: if_True if_False bitboard.simps m k bit_0_eq; auto)+
qed

lemma offset_from_sum: "offset_from start dest cells = start + (\<Sum>c\<leftarrow>cells. bb_PopCount (dest c))"
  by (induction cells arbitrary: start) (simp_all add: offset_from_def)

definition entries :: "('a \<Rightarrow> bitboard) \<Rightarrow> 'a list \<Rightarrow> ('a \<times> square) list" where
  "entries dest cells = concat (map (\<lambda>c. map (Pair c) (bb_squares (dest c))) cells)"

lemma sorted_filter_nth:
  assumes "sorted xs" "distinct xs" "(t::nat) \<in> set xs"
  shows "length (filter (\<lambda>x. x < t) xs) < length xs \<and> xs ! length (filter (\<lambda>x. x < t) xs) = t"
  using assms
proof (induction xs)
  case (Cons x xs)
  show ?case
  proof (cases "x = t")
    case True
    then have "filter (\<lambda>y. y < t) xs = []" using Cons.prems by (auto simp: filter_empty_conv)
    then show ?thesis using True by simp
  next
    case False
    then have "t \<in> set xs" "x < t" using Cons.prems by (auto simp: order_less_le)
    then show ?thesis using Cons by simp
  qed
qed simp

lemma PopCount_below:
  assumes "bb_ok b" "t < 81" "bb_Test b t"
  shows "bb_PopCount (bb_And b (BelowMask t)) < length (bb_squares b) \<and>
    bb_squares b ! bb_PopCount (bb_And b (BelowMask t)) = t"
proof -
  have "bb_squares (bb_And b (BelowMask t)) = filter (\<lambda>x. x < t) (bb_squares b)"
    using assms(2) unfolding bb_squares_filter [OF assms(1)] bb_squares_filter [OF bb_ok_And1 [OF assms(1)]]
    by (auto simp: filter_filter Test_And Test_BelowMask intro: filter_cong)
  then have "bb_PopCount (bb_And b (BelowMask t)) = length (filter (\<lambda>x. x < t) (bb_squares b))"
    by (simp add: bb_PopCount_length bb_ok_And1 assms(1))
  then show ?thesis
    using sorted_filter_nth [of "bb_squares b" t] sorted_bb_squares [OF assms(1)] assms by (simp add: set_bb_squares)
qed

text \<open>A dense numbering of pairs of a cell and one of its destinations.\<close>

locale numbering =
  fixes cells :: "'a list" and dest :: "'a \<Rightarrow> bitboard" and start :: nat
  assumes distinct_cells: "distinct cells"
    and dest_ok: "c \<in> set cells \<Longrightarrow> bb_ok (dest c)"
begin

lemma length_entries: "set cs \<subseteq> set cells \<Longrightarrow> start + length (entries dest cs) = offset_from start dest cs"
  using dest_ok by (induction cs) (auto simp: entries_def offset_from_sum bb_PopCount_length)

lemma entry_at:
  assumes c: "c \<in> set cells" and t: "t < 81" "bb_Test (dest c) t"
  defines "i \<equiv> cell_offset start dest cells c + bb_PopCount (bb_And (dest c) (BelowMask t))"
  shows "start \<le> i" "i < offset_from start dest cells" "entries dest cells ! (i - start) = (c, t)"
proof -
  let ?k = "bb_PopCount (bb_And (dest c) (BelowMask t))"
  let ?xs = "takeWhile (\<lambda>x. x \<noteq> c) cells"
  have k: "?k < length (bb_squares (dest c))" "bb_squares (dest c) ! ?k = t"
    using PopCount_below [OF dest_ok [OF c] t] by simp_all
  obtain us ys where us: "cells = us @ c # ys" "c \<notin> set us" using split_list_first [OF c] by blast
  have xs: "?xs = us" unfolding us(1) using us(2) by (subst takeWhile_append2) auto
  have split: "cells = ?xs @ c # ys" unfolding xs by (rule us(1))
  have e: "entries dest cells = entries dest ?xs @ map (Pair c) (bb_squares (dest c)) @ entries dest ys"
    by (subst split) (simp add: entries_def)
  have l: "cell_offset start dest cells c = start + length (entries dest ?xs)"
    using length_entries [of ?xs] set_takeWhileD [of _ "\<lambda>x. x \<noteq> c" cells] by (simp add: cell_offset_def subset_iff)
  show "start \<le> i" by (simp add: i_def l)
  have "i - start = length (entries dest ?xs) + ?k" by (simp add: i_def l)
  then show "entries dest cells ! (i - start) = (c, t)" using k by (simp add: e nth_append)
  have "length (entries dest cells) \<ge> length (entries dest ?xs) + length (bb_squares (dest c))" by (simp add: e)
  then show "i < offset_from start dest cells"
    using k(1) length_entries [of cells] by (simp add: i_def l)
qed

lemma entry_inject:
  assumes "c \<in> set cells" "t < 81" "bb_Test (dest c) t" "c' \<in> set cells" "t' < 81" "bb_Test (dest c') t'"
    and "cell_offset start dest cells c + bb_PopCount (bb_And (dest c) (BelowMask t)) =
      cell_offset start dest cells c' + bb_PopCount (bb_And (dest c') (BelowMask t'))"
  shows "c = c' \<and> t = t'"
  using entry_at(3) [OF assms(1-3)] entry_at(3) [OF assms(4-6)] unfolding assms(7) by simp

end


subsection \<open>The size of the pair table\<close>

text \<open>The reach of a Black piece as explicit lists: rays and steps.\<close>

definition reach_dirs :: "nat \<Rightarrow> (int \<times> int) list" where
  "reach_dirs tid = (if tid = 2 then [(0, -1)] else if tid \<in> {5, 12} then bishop_dirs
     else if tid \<in> {6, 13} then rook_dirs else [])"

definition reach_steps :: "nat \<Rightarrow> (int \<times> int) list" where
  "reach_steps tid = (if tid = 0 then king_deltas else if tid = 1 then pawn_deltas BLACK else if tid = 3 then knight_deltas BLACK
     else if tid = 4 then silver_deltas BLACK else if tid \<in> {7, 8, 9, 10, 11} then gold_deltas BLACK
     else if tid = 12 then horse_deltas else if tid = 13 then dragon_deltas else [])"

definition step_list :: "(int \<times> int) list \<Rightarrow> square \<Rightarrow> square list" where
  "step_list ds s = concat (map (\<lambda>(df, dr). let f = file_of s + df; r = rank_of s + dr in
     if on_board f r then [mk_square (nat f) (nat r)] else []) ds)"

definition reach_list :: "nat \<Rightarrow> square \<Rightarrow> square list" where
  "reach_list tid s = concat (map (ray_from s) (reach_dirs tid)) @ step_list (reach_steps tid) s"

definition reach_count :: "nat \<Rightarrow> nat" where
  "reach_count tid = sum_list (map (\<lambda>s. length (reach_list tid s)) [0..<81])"

lemma reach_counts:
  "reach_count 0 = 544" "reach_count 1 = 72" "reach_count 2 = 324" "reach_count 3 = 112" "reach_count 4 = 328"
  "reach_count 5 = 816" "reach_count 6 = 1296" "reach_count 7 = 416" "reach_count 12 = 1104" "reach_count 13 = 1552"
  by code_simp+

lemma reach_count_gold: "tid \<in> {8, 9, 10, 11} \<Longrightarrow> reach_count tid = reach_count 7"
  by (auto simp: reach_count_def reach_list_def reach_dirs_def reach_steps_def)

lemma step_list_set: "t \<in> set (step_list ds s) \<longleftrightarrow> t < 81 \<and> (file_of t - file_of s, rank_of t - rank_of s) \<in> set ds"
proof (induction ds)
  case (Cons d ds)
  obtain df dr where d: "d = (df, dr)" by (cases d)
  let ?f = "file_of s + df" and ?r = "rank_of s + dr"
  have "t \<in> set (if on_board ?f ?r then [mk_square (nat ?f) (nat ?r)] else []) \<longleftrightarrow>
      t < 81 \<and> file_of t - file_of s = df \<and> rank_of t - rank_of s = dr"
  proof (cases "on_board ?f ?r")
    case True
    then show ?thesis using mk_square_eq_iff [OF True, of t] mk_square_on_board [OF True] by auto
  next
    case False
    then have "\<not> (t < 81 \<and> file_of t - file_of s = df \<and> rank_of t - rank_of s = dr)"
      using on_board_coords [of t] by auto
    with False show ?thesis by simp
  qed
  then show ?case using Cons.IH by (auto simp: step_list_def d Let_def)
qed (simp add: step_list_def)

lemma step_list_distinct: "distinct ds \<Longrightarrow> distinct (step_list ds s)"
proof (induction ds)
  case (Cons d ds)
  obtain df dr where d: "d = (df, dr)" by (cases d)
  have "step_list (d # ds) s = step_list [d] s @ step_list ds s" by (simp add: step_list_def)
  moreover have "distinct (step_list [d] s)" by (simp add: step_list_def d Let_def)
  moreover have "set (step_list [d] s) \<inter> set (step_list ds s) = {}" using Cons.prems by (auto simp: step_list_set)
  ultimately show ?case using Cons by simp
qed (simp add: step_list_def)

lemma rays_distinct:
  "s < 81 \<Longrightarrow> distinct ds \<Longrightarrow> set ds \<subseteq> {d. unit_dir d} \<Longrightarrow> distinct (concat (map (ray_from s) ds))"
proof (induction ds)
  case (Cons d ds)
  have "set (ray_from s d) \<inter> set (ray_from s e) = {}" if "e \<in> set ds" for e
    using ray_from_unique [OF Cons.prems(1), of d e] Cons.prems(2,3) that by auto
  then show ?case using Cons distinct_ray_from [of s d] by auto
qed simp

lemma set_rays:
  "s < 81 \<Longrightarrow> set ds \<subseteq> {d. unit_dir d} \<Longrightarrow>
    t \<in> set (concat (map (ray_from s) ds)) \<longleftrightarrow> t < 81 \<and> (\<exists>d\<in>set ds. t \<in> set (ray_from s d))"
  using ray_from_less by auto

lemma reach_dirs_unit: "set (reach_dirs tid) \<subseteq> {d. unit_dir d}" "distinct (reach_dirs tid)" "distinct (reach_steps tid)"
  using unit_dir_rook_bishop by (auto simp: reach_dirs_def reach_steps_def unit_dir_def rook_dirs_def bishop_dirs_def delta_defs)

lemma set_reach_list:
  assumes "tid < 14" "s < 81"
  shows "set (reach_list tid s) = {t. t < 81 \<and> bb_Test (EmptyBoardReach tid s) t}"
proof -
  have tid: "tid \<in> {0,1,2,3,4,5,6,7,8,9,10,11,12,13}" using assms(1) unfolding insert_iff empty_iff by presburger
  have bb: "t < 81 \<Longrightarrow> bb_Test (BishopEffect s bb_Zero) t \<longleftrightarrow> (\<exists>d\<in>set bishop_dirs. t \<in> set (ray_from s d))"
    "t < 81 \<Longrightarrow> bb_Test (RookEffect s bb_Zero) t \<longleftrightarrow> (\<exists>d\<in>set rook_dirs. t \<in> set (ray_from s d))"
    "t < 81 \<Longrightarrow> bb_Test (LanceEffect BLACK s bb_Zero) t \<longleftrightarrow> t \<in> set (ray_from s (0, -1))" for t
    using assms(2) by (simp_all add: BishopEffect_rays RookEffect_rays LanceEffect_ray forward_def)
  have "t \<in> set (reach_list tid s) \<longleftrightarrow> t < 81 \<and> ((\<exists>d\<in>set (reach_dirs tid). t \<in> set (ray_from s d)) \<or>
      (file_of t - file_of s, rank_of t - rank_of s) \<in> set (reach_steps tid))" for t
    unfolding reach_list_def set_append Un_iff set_rays [OF assms(2) reach_dirs_unit(1)] step_list_set by blast
  moreover have "t < 81 \<Longrightarrow> bb_Test (EmptyBoardReach tid s) t \<longleftrightarrow> (\<exists>d\<in>set (reach_dirs tid). t \<in> set (ray_from s d)) \<or>
      (file_of t - file_of s, rank_of t - rank_of s) \<in> set (reach_steps tid)" for t
    using tid
    by (elim insertE emptyE)
      (simp_all add: EmptyBoardReach_def Let_def TypeFromId_def piece_type_defs reach_dirs_def reach_steps_def bb
        step_defs Test_MakeStepBB Test_Or)
  ultimately show ?thesis by blast
qed

lemma distinct_reach_list:
  assumes "s < 81"
  shows "distinct (reach_list tid s)"
proof -
  have "\<not> (t \<in> set (ray_from s d) \<and> (file_of t - file_of s, rank_of t - rank_of s) \<in> set (reach_steps tid))"
    if d: "d \<in> set (reach_dirs tid)" for d t
  proof
    assume a: "t \<in> set (ray_from s d) \<and> (file_of t - file_of s, rank_of t - rank_of s) \<in> set (reach_steps tid)"
    then obtain k where k: "1 \<le> k" "steps_to s d k t" using set_ray_from [OF assms, of d t] reach_dirs_unit(1) d by blast
    then have "(int k * fst d, int k * snd d) \<in> set (reach_steps tid)" using a by (simp add: steps_to_def)
    then show False using d k(1)
      by (auto simp: reach_dirs_def reach_steps_def rook_dirs_def bishop_dirs_def horse_deltas_def dragon_deltas_def split: if_splits)
  qed
  then have "set (concat (map (ray_from s) (reach_dirs tid))) \<inter> set (step_list (reach_steps tid) s) = {}"
    by (auto simp: step_list_set)
  then show ?thesis
    unfolding reach_list_def
    using rays_distinct [OF assms reach_dirs_unit(2,1)] step_list_distinct [OF reach_dirs_unit(3)] by (simp only: distinct_append)
qed

lemma bb_ok_EmptyBoardReach: "s < 81 \<Longrightarrow> bb_ok (EmptyBoardReach tid s)"
  by (simp add: EmptyBoardReach_def Let_def bb_ok_Or)

lemma PopCount_filter:
  assumes "bb_ok b" "distinct xs" "\<And>t. t \<in> set xs \<longleftrightarrow> t < 81 \<and> bb_Test b t"
  shows "bb_PopCount b = length xs"
proof -
  have "set (bb_squares b) = set xs" using assms by (auto simp: set_bb_squares)
  then show ?thesis
    using bb_PopCount_length [OF assms(1)] sorted_bb_squares [OF assms(1)] distinct_card [OF assms(2)]
    by (metis distinct_card)
qed

lemma PopCount_reach: "tid < 14 \<Longrightarrow> s < 81 \<Longrightarrow> bb_PopCount (EmptyBoardReach tid s) = length (reach_list tid s)"
  by (rule PopCount_filter [OF bb_ok_EmptyBoardReach distinct_reach_list]) (simp_all add: set_reach_list)

lemma upt_14: "[0..<14] = [0, 1, 2, 3, 4, 5, 6, 7, 8, 9, 10, 11, 12, 13]"
  by (simp add: upt_rec)

lemma sum_cells: "(\<Sum>c\<leftarrow>concat (map (\<lambda>tid. map (Pair tid) xs) ts). f c) = (\<Sum>tid\<leftarrow>ts. \<Sum>s\<leftarrow>xs. f (tid, s))"
  by (induction ts) (simp_all add: o_def)

lemma sum_list_cong: "(\<And>x. x \<in> set xs \<Longrightarrow> f x = g x) \<Longrightarrow> (\<Sum>x\<leftarrow>xs. f x) = (\<Sum>x\<leftarrow>xs. g x)"
  by (induction xs) auto

lemma pairs_total_eq: "pairs_total = kPairsPerOwner"
proof -
  have "pairs_total = (\<Sum>tid\<leftarrow>[0..<14]. \<Sum>s\<leftarrow>[0..<81]. bb_PopCount (EmptyBoardReach tid s))"
    by (simp add: pairs_total_def offset_from_sum type_cells_def sum_cells pairs_dest_def kTypeIds_def del: upt_Suc)
  also have "\<dots> = (\<Sum>tid\<leftarrow>[0..<14]. reach_count tid)"
    unfolding reach_count_def by (intro sum_list_cong) (simp add: PopCount_reach del: upt_Suc)
  also have "\<dots> = 8228"
    unfolding upt_14 using reach_count_gold reach_counts by simp
  finally show ?thesis by (simp add: kPairsPerOwner_def)
qed

lemma distinct_type_cells: "distinct type_cells"
proof -
  have "distinct (concat (map (\<lambda>tid. map (Pair tid) [0..<81]) ts))" if "distinct ts" for ts :: "nat list"
    using that by (induction ts) (auto simp: distinct_map inj_on_def simp del: upt_Suc)
  then show ?thesis by (simp add: type_cells_def del: upt_Suc)
qed

lemma set_type_cells: "(tid, s) \<in> set type_cells \<longleftrightarrow> tid < 14 \<and> s < 81"
proof -
  have "(tid, s) \<in> set (concat (map (\<lambda>tid. map (Pair tid) xs) ts)) \<longleftrightarrow> tid \<in> set ts \<and> s \<in> set xs" for xs ts
    by (induction ts) auto
  from this [of "[0..<81]" "[0..<14]"] show ?thesis by (simp add: type_cells_def kTypeIds_def del: upt_Suc)
qed

interpretation pairs: numbering type_cells pairs_dest 0
  by unfold_locales (auto simp: distinct_type_cells pairs_dest_def set_type_cells intro: bb_ok_EmptyBoardReach)

end
