(* ===== verification/MoveBuckets.thy ===== *)
theory MoveBuckets
  imports FeatureIndex GamePlay See
begin

text \<open>
  The policy rows of moves, nnue/move_buckets.cc: board moves without promotion, board moves with
  promotion and drops are numbered through, each kind by (type, from, to) in the mover's frame.
  Every move the rules allow has its own row.
\<close>

subsection \<open>Tables\<close>

definition plain_dest :: "nat \<times> square \<Rightarrow> bitboard" where
  "plain_dest = (\<lambda>(tid, s).
     let dest = pairs_dest (tid, s); rank0 = RankBB 0; rank01 = bb_Or (RankBB 0) (RankBB 1);
         dest = (if tid = 1 \<or> tid = 2 then bb_And dest (bb_Not rank0) else dest)
     in if tid = 3 then bb_And dest (bb_Not rank01) else dest)"

definition promo_dest :: "nat \<times> square \<Rightarrow> bitboard" where
  "promo_dest = (\<lambda>(tid, s).
     if tid \<ge> 1 \<and> tid \<le> 6 then
       let zone = PromotionZoneBB BLACK
       in if bb_Test zone s then pairs_dest (tid, s) else bb_And (pairs_dest (tid, s)) zone
     else bb_Zero)"

definition drop_dest :: "nat \<Rightarrow> bitboard" where
  "drop_dest h =
     (let rank0 = RankBB 0; rank01 = bb_Or (RankBB 0) (RankBB 1); dest = bb_All;
          dest = (if h = 0 \<or> h = 1 then bb_And dest (bb_Not rank0) else dest)
      in if h = 2 then bb_And dest (bb_Not rank01) else dest)"

definition plain_end :: nat where "plain_end = offset_from 0 plain_dest type_cells"
definition promo_end :: nat where "promo_end = offset_from plain_end promo_dest type_cells"
definition drop_end :: nat where "drop_end = offset_from promo_end drop_dest [0..<kHandKinds]"

text \<open>The start-up code aborts unless the three running totals are the compiled constants.\<close>

definition InitMoveBuckets_ok :: bool where
  "InitMoveBuckets_ok \<longleftrightarrow> plain_end = kPlainBuckets \<and> promo_end = kPlainBuckets + kPromoBuckets \<and>
     drop_end = kNumBuckets"

definition plain_off :: "nat \<Rightarrow> square \<Rightarrow> nat" where
  "plain_off tid s = cell_offset 0 plain_dest type_cells (tid, s)"

definition promo_off :: "nat \<Rightarrow> square \<Rightarrow> nat" where
  "promo_off tid s = cell_offset plain_end promo_dest type_cells (tid, s)"

definition drop_off :: "nat \<Rightarrow> nat" where
  "drop_off h = cell_offset promo_end drop_dest [0..<kHandKinds] h"

subsection \<open>Rows\<close>

definition MoveBucket :: "shogi_board \<Rightarrow> move \<Rightarrow> nat" where
  "MoveBucket b m =
     (let stm = side_to_move b; to = OwnSq stm (move_to m) in
      if move_is_drop m then
        let h = move_drop_piece m - 1
        in drop_off h + bb_PopCount (bb_And (drop_dest h) (BelowMask to))
      else
        let tid = TypeId (piece_GetType (piece_on b (move_from m)));
            from = OwnSq stm (move_from m);
            dest = (if move_is_promotion m then promo_dest (tid, from) else plain_dest (tid, from));
            off = (if move_is_promotion m then promo_off tid from else plain_off tid from)
        in off + bb_PopCount (bb_And dest (BelowMask to)))"

text \<open>\<open>SeeGe\<close> is a loop, so its value is optional; it always returns on a consistent board.\<close>

definition MoveSeeGood :: "shogi_board \<Rightarrow> move \<Rightarrow> bool option" where
  "MoveSeeGood b m = SeeGe b m kSeeThreshold"

definition MoveBucketSee :: "shogi_board \<Rightarrow> move \<Rightarrow> nat option" where
  "MoveBucketSee b m =
     (case MoveSeeGood b m of None \<Rightarrow> None
      | Some good \<Rightarrow> Some (MoveBucket b m + (if good then kNumBuckets else 0)))"

subsection \<open>The totals\<close>

definition plain_list :: "nat \<Rightarrow> square \<Rightarrow> square list" where
  "plain_list tid s = filter (\<lambda>t. \<not> ((tid = 1 \<or> tid = 2) \<and> t mod 9 = 0) \<and> \<not> (tid = 3 \<and> t mod 9 \<le> 1)) (reach_list tid s)"

definition promo_list :: "nat \<Rightarrow> square \<Rightarrow> square list" where
  "promo_list tid s = (if 1 \<le> tid \<and> tid \<le> 6 then filter (\<lambda>t. s mod 9 \<le> 2 \<or> t mod 9 \<le> 2) (reach_list tid s) else [])"

definition list_count :: "(nat \<Rightarrow> square \<Rightarrow> square list) \<Rightarrow> nat \<Rightarrow> nat" where
  "list_count l tid = sum_list (map (\<lambda>s. length (l tid s)) [0..<81])"

lemma plain_counts: "list_count plain_list 1 = 63" "list_count plain_list 2 = 252" "list_count plain_list 3 = 80"
  by code_simp+

lemma promo_counts:
  "list_count promo_list 1 = 27" "list_count promo_list 2 = 189" "list_count promo_list 3 = 48"
  "list_count promo_list 4 = 123" "list_count promo_list 5 = 416" "list_count promo_list 6 = 594"
  by code_simp+

lemma bb_ok_dests:
  "s < 81 \<Longrightarrow> bb_ok (pairs_dest (tid, s))" "s < 81 \<Longrightarrow> bb_ok (plain_dest (tid, s))"
  "s < 81 \<Longrightarrow> bb_ok (promo_dest (tid, s))" "bb_ok (drop_dest h)"
  by (auto simp: pairs_dest_def plain_dest_def promo_dest_def drop_dest_def Let_def bb_ok_EmptyBoardReach intro!: bb_ok_And1)

lemma Test_dests:
  assumes "t < 81"
  shows "s < 81 \<Longrightarrow> bb_Test (plain_dest (tid, s)) t \<longleftrightarrow> bb_Test (EmptyBoardReach tid s) t \<and>
      \<not> ((tid = 1 \<or> tid = 2) \<and> sq_rank t = 0) \<and> \<not> (tid = 3 \<and> sq_rank t \<le> 1)"
    and "s < 81 \<Longrightarrow> bb_Test (promo_dest (tid, s)) t \<longleftrightarrow> 1 \<le> tid \<and> tid \<le> 6 \<and> bb_Test (EmptyBoardReach tid s) t \<and>
      (sq_rank s \<le> 2 \<or> sq_rank t \<le> 2)"
    and "bb_Test (drop_dest h) t \<longleftrightarrow> \<not> ((h = 0 \<or> h = 1) \<and> sq_rank t = 0) \<and> \<not> (h = 2 \<and> sq_rank t \<le> 1)"
  using assms
  by (auto simp: plain_dest_def promo_dest_def drop_dest_def pairs_dest_def Let_def Test_And Test_Not Test_Or Test_RankBB
      Test_All Test_PromotionZoneBB sq_InPromotionZone_def rank_InPromotionZone_def)

lemma PopCount_dests:
  assumes "tid < 14" "s < 81"
  shows "bb_PopCount (plain_dest (tid, s)) = length (plain_list tid s)"
    and "bb_PopCount (promo_dest (tid, s)) = length (promo_list tid s)"
proof -
  have r: "t \<in> set (reach_list tid s) \<longleftrightarrow> t < 81 \<and> bb_Test (EmptyBoardReach tid s) t" for t
    using set_reach_list [OF assms] by auto
  show "bb_PopCount (plain_dest (tid, s)) = length (plain_list tid s)"
    by (rule PopCount_filter [OF bb_ok_dests(2)])
      (auto simp: assms plain_list_def r distinct_reach_list Test_dests sq_rank_def)
  show "bb_PopCount (promo_dest (tid, s)) = length (promo_list tid s)"
    by (rule PopCount_filter [OF bb_ok_dests(3)])
      (auto simp: assms promo_list_def r distinct_reach_list Test_dests sq_rank_def)
qed

lemma sum_over_cells:
  assumes "\<And>tid s. tid < 14 \<Longrightarrow> s < 81 \<Longrightarrow> bb_PopCount (dest (tid, s)) = length (l tid s)"
  shows "offset_from start dest type_cells = start + (\<Sum>tid\<leftarrow>[0..<14]. list_count l tid)"
proof -
  have "(\<Sum>c\<leftarrow>type_cells. bb_PopCount (dest c)) = (\<Sum>tid\<leftarrow>[0..<14]. \<Sum>s\<leftarrow>[0..<81]. bb_PopCount (dest (tid, s)))"
    by (simp add: type_cells_def sum_cells kTypeIds_def del: upt_Suc)
  also have "\<dots> = (\<Sum>tid\<leftarrow>[0..<14]. list_count l tid)"
    unfolding list_count_def by (intro sum_list_cong assms) (simp_all del: upt_Suc)
  finally show ?thesis by (simp add: offset_from_sum)
qed

lemma list_count_plain: "tid \<notin> {1, 2, 3} \<Longrightarrow> list_count plain_list tid = reach_count tid"
  by (simp add: list_count_def reach_count_def plain_list_def del: upt_Suc)

lemma list_count_promo: "\<not> (1 \<le> tid \<and> tid \<le> 6) \<Longrightarrow> list_count promo_list tid = 0"
  by (auto simp: list_count_def promo_list_def simp del: upt_Suc)

lemma drop_counts: "map (\<lambda>h. bb_PopCount (drop_dest h)) [0..<7] = [72, 72, 63, 81, 81, 81, 81]"
proof -
  have p: "bb_PopCount (drop_dest h) =
      length (filter (\<lambda>t. \<not> ((h = 0 \<or> h = 1) \<and> t mod 9 = 0) \<and> \<not> (h = 2 \<and> t mod 9 \<le> 1)) [0..<81])" for h
    by (rule PopCount_filter [OF bb_ok_dests(4)]) (auto simp: Test_dests sq_rank_def simp del: upt_Suc)
  have "length (filter (\<lambda>t. t mod 9 \<noteq> 0) [0..<81]) = 72" "length (filter (\<lambda>t. \<not> t mod 9 \<le> 1) [0..<81]) = 63"
    by code_simp+
  moreover have "[0..<7] = [0, 1, 2, 3, 4, 5, 6]" by (simp add: upt_rec)
  ultimately show ?thesis by (simp add: p del: upt_Suc)
qed

lemma InitMoveBuckets_succeeds: "plain_end = 8115" "promo_end = 9512" "drop_end = 10043"
proof -
  have pl0: "plain_end = 0 + (\<Sum>tid\<leftarrow>[0..<14]. list_count plain_list tid)"
    unfolding plain_end_def by (rule sum_over_cells) (rule PopCount_dests(1))
  show pl: "plain_end = 8115"
    unfolding pl0 upt_14 using reach_count_gold reach_counts by (simp add: list_count_plain plain_counts [simplified])
  have pr0: "promo_end = plain_end + (\<Sum>tid\<leftarrow>[0..<14]. list_count promo_list tid)"
    unfolding promo_end_def by (rule sum_over_cells) (rule PopCount_dests(2))
  show pr: "promo_end = 9512"
    unfolding pr0 upt_14 pl by (simp add: list_count_promo promo_counts [simplified])
  show "drop_end = 10043"
    unfolding drop_end_def offset_from_sum pr kHandKinds_def drop_counts by simp
qed

interpretation plain: numbering type_cells plain_dest 0
  by unfold_locales (auto simp: distinct_type_cells set_type_cells intro: bb_ok_dests)

interpretation promo: numbering type_cells promo_dest plain_end
  by unfold_locales (auto simp: distinct_type_cells set_type_cells intro: bb_ok_dests)

interpretation drop: numbering "[0..<kHandKinds]" drop_dest promo_end
  by unfold_locales (auto intro: bb_ok_dests)

subsection \<open>Frames\<close>

lemma OwnSq_coords:
  assumes "s < 81"
  shows "OwnSq c s < 81" "sq_rank (OwnSq c s) = rank_ahead c s"
    "file_of (OwnSq c s) = (if c = BLACK then file_of s else 8 - file_of s)"
    "rank_of (OwnSq c s) = (if c = BLACK then rank_of s else 8 - rank_of s)"
proof -
  have d: "s = 9 * sq_file s + sq_rank s" "sq_file s < 9" "sq_rank s < 9" using assms by (auto simp: sq_file_def sq_rank_def)
  have e: "80 - s = 9 * (8 - sq_file s) + (8 - sq_rank s)" using d by linarith
  have f: "sq_file (80 - s) = 8 - sq_file s" "sq_rank (80 - s) = 8 - sq_rank s"
  proof -
    have "sq_file (9 * a + b) = a" "sq_rank (9 * a + b) = b" if "b < 9" for a b
      using that by (simp_all add: sq_file_def sq_rank_def)
    then show "sq_file (80 - s) = 8 - sq_file s" "sq_rank (80 - s) = 8 - sq_rank s" unfolding e using d by simp_all
  qed
  have i: "int (8 - sq_rank s) = 8 - rank_of s" "int (8 - sq_file s) = 8 - file_of s" using d by linarith+
  show "OwnSq c s < 81" using assms by (auto simp: OwnSq_def FrameSq_def)
  show "sq_rank (OwnSq c s) = rank_ahead c s" by (simp add: OwnSq_def FrameSq_def rank_ahead_def f)
  show "file_of (OwnSq c s) = (if c = BLACK then file_of s else 8 - file_of s)"
    "rank_of (OwnSq c s) = (if c = BLACK then rank_of s else 8 - rank_of s)"
    using i by (simp_all add: OwnSq_def FrameSq_def f)
qed

lemma OwnSq_inject: "s < 81 \<Longrightarrow> t < 81 \<Longrightarrow> OwnSq c s = OwnSq c t \<longleftrightarrow> s = t"
  by (auto simp: OwnSq_def FrameSq_def)

lemma EmptyBoardReach_iff:
  assumes "tid < 14" "s < 81" "t < 81"
  shows "bb_Test (EmptyBoardReach tid s) t \<longleftrightarrow> (\<exists>d\<in>set (reach_dirs tid). \<exists>k\<ge>1. steps_to s d k t) \<or>
    (file_of t - file_of s, rank_of t - rank_of s) \<in> set (reach_steps tid)"
proof -
  have "bb_Test (EmptyBoardReach tid s) t \<longleftrightarrow> t \<in> set (reach_list tid s)" using set_reach_list [OF assms(1,2)] assms(3) by auto
  also have "\<dots> \<longleftrightarrow> (\<exists>d\<in>set (reach_dirs tid). t \<in> set (ray_from s d)) \<or>
      (file_of t - file_of s, rank_of t - rank_of s) \<in> set (reach_steps tid)"
    unfolding reach_list_def set_append Un_iff set_rays [OF assms(2) reach_dirs_unit(1)] step_list_set using assms(3) by blast
  also have "(\<exists>d\<in>set (reach_dirs tid). t \<in> set (ray_from s d)) \<longleftrightarrow> (\<exists>d\<in>set (reach_dirs tid). \<exists>k\<ge>1. steps_to s d k t)"
    using set_ray_from [OF assms(2)] reach_dirs_unit(1) assms(3) by blast
  finally show ?thesis .
qed

text \<open>In its own frame every piece steps like a Black one.\<close>

lemma own_deltas:
  fixes c :: color
  defines "e \<equiv> if c = BLACK then (1::int) else -1"
  shows "(x, y) \<in> set (pawn_deltas c) \<Longrightarrow> (e * x, e * y) \<in> set (pawn_deltas BLACK)"
    "(x, y) \<in> set (knight_deltas c) \<Longrightarrow> (e * x, e * y) \<in> set (knight_deltas BLACK)"
    "(x, y) \<in> set (silver_deltas c) \<Longrightarrow> (e * x, e * y) \<in> set (silver_deltas BLACK)"
    "(x, y) \<in> set (gold_deltas c) \<Longrightarrow> (e * x, e * y) \<in> set (gold_deltas BLACK)"
    "(x, y) \<in> set king_deltas \<Longrightarrow> (e * x, e * y) \<in> set king_deltas"
    "(x, y) \<in> set horse_deltas \<Longrightarrow> (e * x, e * y) \<in> set horse_deltas"
    "(x, y) \<in> set dragon_deltas \<Longrightarrow> (e * x, e * y) \<in> set dragon_deltas"
  unfolding e_def by (cases c; auto simp: delta_defs)+

lemma own_dirs:
  fixes c :: color
  defines "e \<equiv> if c = BLACK then (1::int) else -1"
  shows "d \<in> set rook_dirs \<Longrightarrow> (e * fst (neg_dir d), e * snd (neg_dir d)) \<in> set rook_dirs"
    "d \<in> set bishop_dirs \<Longrightarrow> (e * fst (neg_dir d), e * snd (neg_dir d)) \<in> set bishop_dirs"
    "d = forward (opp c) \<Longrightarrow> (e * fst (neg_dir d), e * snd (neg_dir d)) = (0, -1)"
  unfolding e_def by (cases c; auto simp: neg_dir_def rook_dirs_def bishop_dirs_def forward_def)+

lemma reach_tables:
  "reach_dirs (TypeId kLance) = [(0, -1)]"
  "pt \<in> {kBishop, kHorse} \<Longrightarrow> reach_dirs (TypeId pt) = bishop_dirs" "pt \<in> {kRook, kDragon} \<Longrightarrow> reach_dirs (TypeId pt) = rook_dirs"
  "reach_steps (TypeId kPawn) = pawn_deltas BLACK" "reach_steps (TypeId kKnight) = knight_deltas BLACK"
  "reach_steps (TypeId kSilver) = silver_deltas BLACK"
  "pt \<in> {kGold, kProPawn, kProLance, kProKnight, kProSilver} \<Longrightarrow> reach_steps (TypeId pt) = gold_deltas BLACK"
  "reach_steps (TypeId kKing) = king_deltas" "reach_steps (TypeId kHorse) = horse_deltas" "reach_steps (TypeId kDragon) = dragon_deltas"
  by (auto simp: TypeId_def reach_dirs_def reach_steps_def piece_type_defs)

text \<open>The reach of a piece on the board lies in the table of its type, in the piece's own frame.\<close>

lemma reach_in_frame:
  assumes v: "piece_ok v" "v \<noteq> 0" and s: "s < 81" "t < 81" and r: "reaches v occ s t"
  defines "c \<equiv> piece_GetColor v"
  shows "bb_Test (EmptyBoardReach (TypeId (piece_GetType v)) (OwnSq c s)) (OwnSq c t)" "TypeId (piece_GetType v) < 14"
proof -
  let ?pt = "piece_GetType v" let ?tid = "TypeId ?pt"
  have pt: "?pt \<in> {1,2,3,4,5,6,7,8,9,10,11,12,13,14}"
    using piece_ok_type [OF v] unfolding insert_iff empty_iff by presburger
  show tid: "?tid < 14" using pt by (auto simp: TypeId_def)
  let ?e = "if c = BLACK then (1::int) else -1"
  have delta: "(file_of (OwnSq c t) - file_of (OwnSq c s), rank_of (OwnSq c t) - rank_of (OwnSq c s)) =
      (?e * (file_of t - file_of s), ?e * (rank_of t - rank_of s))"
    using OwnSq_coords(3,4) [OF s(1)] OwnSq_coords(3,4) [OF s(2)] by simp
  have own: "steps_to (OwnSq c s) (?e * fst d, ?e * snd d) k (OwnSq c t)" if "steps_to s d k t" for d k
    using that OwnSq_coords(3,4) [OF s(1)] OwnSq_coords(3,4) [OF s(2)] by (cases c) (auto simp: steps_to_def)
  from r consider "steps_at v s t" | d k where "slides v d" "1 \<le> k" "steps_to t d k s"
    unfolding reaches_def by blast
  then show "bb_Test (EmptyBoardReach ?tid (OwnSq c s)) (OwnSq c t)"
  proof cases
    case 1
    then consider (pawn) "?pt = kPawn" "bb_Test (PawnEffectBB s c) t" | (knight) "?pt = kKnight" "bb_Test (KnightEffectBB s c) t"
      | (silver) "?pt = kSilver" "bb_Test (SilverEffectBB s c) t"
      | (gold) "?pt \<in> {kGold, kProPawn, kProLance, kProKnight, kProSilver}" "bb_Test (GoldEffectBB s c) t"
      | (king) "?pt = kKing" "bb_Test (KingEffectBB s) t" | (horse) "?pt = kHorse" "bb_Test (HorseStepBB s) t"
      | (dragon) "?pt = kDragon" "bb_Test (DragonStepBB s) t"
      unfolding steps_at_def StepAttacks_def c_def by (auto split: if_splits)
    then have "(?e * (file_of t - file_of s), ?e * (rank_of t - rank_of s)) \<in> set (reach_steps ?tid)"
      unfolding step_defs Test_MakeStepBB [OF s(2)] by cases (simp_all only: reach_tables own_deltas)
    then show ?thesis
      unfolding EmptyBoardReach_iff [OF tid OwnSq_coords(1) [OF s(1)] OwnSq_coords(1) [OF s(2)]] delta by blast
  next
    case 2
    have "steps_to s (neg_dir d) k t" using 2(3) steps_to_neg by blast
    from own [OF this] have st: "steps_to (OwnSq c s) (?e * fst (neg_dir d), ?e * snd (neg_dir d)) k (OwnSq c t)" .
    have "(?e * fst (neg_dir d), ?e * snd (neg_dir d)) \<in> set (reach_dirs ?tid)"
      using 2(1) own_dirs [of d c] unfolding slides_def c_def [symmetric] by (elim disjE conjE) (simp_all only: reach_tables, simp)
    then show ?thesis
      unfolding EmptyBoardReach_iff [OF tid OwnSq_coords(1) [OF s(1)] OwnSq_coords(1) [OF s(2)]] using st 2(2) by blast
  qed
qed


subsection \<open>Every move its row\<close>

lemma Unique_TypeId: "1 \<le> pt \<Longrightarrow> pt \<le> 6 \<Longrightarrow> TypeId pt = pt" "TypeId pt = 1 \<and> 1 \<le> pt \<longleftrightarrow> pt = kPawn"
  "TypeId pt = 2 \<and> 1 \<le> pt \<longleftrightarrow> pt = kLance" "TypeId pt = 3 \<and> 1 \<le> pt \<longleftrightarrow> pt = kKnight"
  by (auto simp: TypeId_def piece_type_defs)

lemma board_move_cell:
  assumes ok: "board_ok b" and kings: "kings_ok b" and pm: "piece_move b frm to" and mv: "move_variant b frm to m"
  defines "us \<equiv> side_to_move b" and "tid \<equiv> TypeId (piece_GetType (board_arr b frm))"
  shows "tid < 14"
    and "bb_Test (if move_is_promotion m then promo_dest (tid, OwnSq us frm) else plain_dest (tid, OwnSq us frm)) (OwnSq us to)"
proof -
  note p = piece_move_facts [OF ok kings pm] and v = variant_fields [OF piece_move_facts(1,2) [OF ok kings pm] mv]
  let ?pt = "piece_GetType (board_arr b frm)"
  have vok: "piece_ok (board_arr b frm)" using board_okD(1) [OF ok p(1)] .
  have pt: "1 \<le> ?pt" "?pt \<le> 14" using piece_ok_type [OF vok p(3)] by simp_all
  have r: "bb_Test (EmptyBoardReach tid (OwnSq us frm)) (OwnSq us to)"
    using reach_in_frame(1) [OF vok p(3) p(1,2,5)] p(4) by (simp add: tid_def us_def)
  show "tid < 14" unfolding tid_def by (rule reach_in_frame(2) [OF vok p(3) p(1,2,5)])
  note own = OwnSq_coords(1,2) [OF p(1), of us] OwnSq_coords(1,2) [OF p(2), of us]
  show "bb_Test (if move_is_promotion m then promo_dest (tid, OwnSq us frm) else plain_dest (tid, OwnSq us frm)) (OwnSq us to)"
  proof (cases "move_is_promotion m")
    case True
    have mp: "may_promote us ?pt frm to" using v(4) [OF True] by (simp add: us_def)
    then have "1 \<le> tid \<and> tid \<le> 6" using Unique_TypeId(1) [of ?pt] by (simp add: tid_def may_promote_def pt_CanPromote_def)
    then show ?thesis
      unfolding if_P [OF True] Test_dests(2) [OF own(3,1)] using r mp by (simp add: own(2,4) may_promote_def)
  next
    case False
    have nd: "\<not> dead_end us ?pt to" using mv False p(1,2) by (auto simp: move_variant_def us_def)
    have t: "tid = 1 \<longleftrightarrow> ?pt = kPawn" "tid = 2 \<longleftrightarrow> ?pt = kLance" "tid = 3 \<longleftrightarrow> ?pt = kKnight"
      using Unique_TypeId(2-4) [of ?pt] pt(1) by (simp_all add: tid_def)
    show ?thesis
      unfolding if_not_P [OF False] Test_dests(1) [OF own(3,1)] t own(4) using r nd by (auto simp: dead_end_def)
  qed
qed

lemma drop_cell:
  assumes "rule_drop b pt to"
  shows "pt - 1 < 7" "bb_Test (drop_dest (pt - 1)) (OwnSq (side_to_move b) to)"
proof -
  have to: "to < 81" and pt: "1 \<le> pt" "pt \<le> 7" and nd: "\<not> dead_end (side_to_move b) pt to"
    using assms by (auto simp: rule_drop_def pt_IsHandPiece_def)
  show "pt - 1 < 7" using pt by simp
  have k: "pt - 1 = 0 \<longleftrightarrow> pt = kPawn" "pt - 1 = 1 \<longleftrightarrow> pt = kLance" "pt - 1 = 2 \<longleftrightarrow> pt = kKnight"
    using pt by (auto simp: piece_type_defs)
  show "bb_Test (drop_dest (pt - 1)) (OwnSq (side_to_move b) to)"
    unfolding Test_dests(3) [OF OwnSq_coords(1) [OF to]] k OwnSq_coords(2) [OF to] using nd by (auto simp: dead_end_def)
qed

text \<open>The row of a move as its position in one of the three numberings.\<close>

lemma MoveBucket_board:
  assumes "board_ok b" "kings_ok b" "piece_move b frm to" "move_variant b frm to m"
  shows "MoveBucket b m = (let us = side_to_move b; c = (TypeId (piece_GetType (board_arr b frm)), OwnSq us frm) in
    if move_is_promotion m
    then cell_offset plain_end promo_dest type_cells c + bb_PopCount (bb_And (promo_dest c) (BelowMask (OwnSq us to)))
    else cell_offset 0 plain_dest type_cells c + bb_PopCount (bb_And (plain_dest c) (BelowMask (OwnSq us to))))"
  using variant_fields [OF piece_move_facts(1,2) [OF assms(1-3)] assms(4)]
  by (simp add: MoveBucket_def Let_def piece_on_def plain_off_def promo_off_def)

lemma MoveBucket_drop:
  assumes "rule_drop b pt to"
  shows "MoveBucket b (move_Drop pt to) = cell_offset promo_end drop_dest [0..<kHandKinds] (pt - 1) +
    bb_PopCount (bb_And (drop_dest (pt - 1)) (BelowMask (OwnSq (side_to_move b) to)))"
  using drop_fields [OF assms] by (simp add: MoveBucket_def Let_def drop_off_def)

lemma board_bucket_range:
  assumes ok: "board_ok b" and kings: "kings_ok b" and pm: "piece_move b frm to" and mv: "move_variant b frm to m"
  shows "if move_is_promotion m then 8115 \<le> MoveBucket b m \<and> MoveBucket b m < 9512 else MoveBucket b m < 8115"
proof -
  note c = board_move_cell [OF ok kings pm mv] and p = piece_move_facts(1,2) [OF ok kings pm]
  note o1 = OwnSq_coords(1) [OF p(1), of "side_to_move b"] and o2 = OwnSq_coords(1) [OF p(2), of "side_to_move b"]
  have cell: "(TypeId (piece_GetType (board_arr b frm)), OwnSq (side_to_move b) frm) \<in> set type_cells"
    using c(1) o1 by (simp add: set_type_cells)
  show ?thesis
  proof (cases "move_is_promotion m")
    case True
    then show ?thesis
      using promo.entry_at(1,2) [OF cell o2] c(2) InitMoveBuckets_succeeds
      by (simp add: MoveBucket_board [OF ok kings pm mv] Let_def promo_end_def [symmetric])
  next
    case False
    then show ?thesis
      using plain.entry_at(2) [OF cell o2] c(2) InitMoveBuckets_succeeds
      by (simp add: MoveBucket_board [OF ok kings pm mv] Let_def plain_end_def [symmetric])
  qed
qed

lemma drop_bucket_range:
  assumes "rule_drop b pt to"
  shows "9512 \<le> MoveBucket b (move_Drop pt to)" "MoveBucket b (move_Drop pt to) < 10043"
proof -
  have to: "to < 81" using assms by (simp add: rule_drop_def)
  have "pt - 1 \<in> set [0..<kHandKinds]" using drop_cell(1) [OF assms] by (simp add: kHandKinds_def)
  from drop.entry_at(1,2) [OF this OwnSq_coords(1) [OF to, of "side_to_move b"] drop_cell(2) [OF assms]] InitMoveBuckets_succeeds
  show "9512 \<le> MoveBucket b (move_Drop pt to)" "MoveBucket b (move_Drop pt to) < 10043"
    by (simp_all add: MoveBucket_drop [OF assms] drop_end_def [symmetric])
qed


lemma board_bucket_inject:
  assumes ok: "board_ok b" and kings: "kings_ok b" and pm: "piece_move b frm to" "piece_move b frm' to'"
    and mv: "move_variant b frm to m" "move_variant b frm' to' m'" and eq: "MoveBucket b m = MoveBucket b m'"
  shows "m = m'"
proof -
  let ?us = "side_to_move b"
  note p = piece_move_facts(1,2) [OF ok kings pm(1)] piece_move_facts(1,2) [OF ok kings pm(2)]
  note c = board_move_cell [OF ok kings pm(1) mv(1)] board_move_cell [OF ok kings pm(2) mv(2)]
  note o = OwnSq_coords(1) [OF p(1), of ?us] OwnSq_coords(1) [OF p(2), of ?us]
    OwnSq_coords(1) [OF p(3), of ?us] OwnSq_coords(1) [OF p(4), of ?us]
  have cell: "(TypeId (piece_GetType (board_arr b frm)), OwnSq ?us frm) \<in> set type_cells"
    "(TypeId (piece_GetType (board_arr b frm')), OwnSq ?us frm') \<in> set type_cells"
    using c(1,3) o by (simp_all add: set_type_cells)
  have prom: "move_is_promotion m = move_is_promotion m'"
    using board_bucket_range [OF ok kings pm(1) mv(1)] board_bucket_range [OF ok kings pm(2) mv(2)] eq by (auto split: if_splits)
  have "OwnSq ?us frm = OwnSq ?us frm' \<and> OwnSq ?us to = OwnSq ?us to'"
  proof (cases "move_is_promotion m")
    case True
    then show ?thesis
      using promo.entry_inject [OF cell(1) o(2) _ cell(2) o(4)] c(2,4) prom eq
      by (simp add: MoveBucket_board [OF ok kings pm(1) mv(1)] MoveBucket_board [OF ok kings pm(2) mv(2)] Let_def)
  next
    case False
    then show ?thesis
      using plain.entry_inject [OF cell(1) o(2) _ cell(2) o(4)] c(2,4) prom eq
      by (simp add: MoveBucket_board [OF ok kings pm(1) mv(1)] MoveBucket_board [OF ok kings pm(2) mv(2)] Let_def)
  qed
  then have "frm = frm'" "to = to'" using OwnSq_inject p by blast+
  then show "m = m'" using mv prom p by (auto simp: move_variant_def)
qed

lemma drop_bucket_inject:
  assumes rd: "rule_drop b pt to" "rule_drop b pt' to'" and eq: "MoveBucket b (move_Drop pt to) = MoveBucket b (move_Drop pt' to')"
  shows "move_Drop pt to = move_Drop pt' to'"
proof -
  let ?us = "side_to_move b"
  have to: "to < 81" "to' < 81" and pt: "1 \<le> pt" "1 \<le> pt'" using rd by (auto simp: rule_drop_def pt_IsHandPiece_def)
  have h: "pt - 1 \<in> set [0..<kHandKinds]" "pt' - 1 \<in> set [0..<kHandKinds]" using drop_cell(1) rd by (simp_all add: kHandKinds_def)
  have "pt - 1 = pt' - 1 \<and> OwnSq ?us to = OwnSq ?us to'"
    using drop.entry_inject [OF h(1) OwnSq_coords(1) [OF to(1)] drop_cell(2) [OF rd(1)] h(2) OwnSq_coords(1) [OF to(2)] drop_cell(2) [OF rd(2)]] eq
    unfolding MoveBucket_drop [OF rd(1)] MoveBucket_drop [OF rd(2)] by blast
  then show ?thesis using OwnSq_inject [OF to] pt by (auto simp: le_imp_diff_is_add)
qed

lemma bucket_inject:
  assumes ok: "board_ok b" "kings_ok b" and m: "rule_move b m" "rule_move b m'" and eq: "MoveBucket b m = MoveBucket b m'"
  shows "m = m'"
proof -
  have board: "MoveBucket b m < 9512" if "piece_move b frm to" "move_variant b frm to m" for frm to m
    using board_bucket_range [OF ok that] by (auto split: if_splits)
  from m consider frm to frm' to' where "piece_move b frm to" "move_variant b frm to m" "piece_move b frm' to'" "move_variant b frm' to' m'"
    | frm to pt' to' where "piece_move b frm to" "move_variant b frm to m" "m' = move_Drop pt' to'" "rule_drop b pt' to'"
    | pt to frm' to' where "m = move_Drop pt to" "rule_drop b pt to" "piece_move b frm' to'" "move_variant b frm' to' m'"
    | pt to pt' to' where "m = move_Drop pt to" "rule_drop b pt to" "m' = move_Drop pt' to'" "rule_drop b pt' to'"
    unfolding rule_move_def by blast
  then show ?thesis
  proof cases
    case 1
    then show ?thesis using board_bucket_inject [OF ok 1(1,3,2,4)] eq by blast
  next
    case 2
    then show ?thesis using board [OF 2(1,2)] drop_bucket_range(1) [OF 2(4)] eq by simp
  next
    case 3
    then show ?thesis using board [OF 3(3,4)] drop_bucket_range(1) [OF 3(2)] eq by simp
  next
    case 4
    then show ?thesis using drop_bucket_inject [OF 4(2,4)] eq by blast
  qed
qed

lemma promote_range: "1 \<le> pt \<Longrightarrow> pt \<le> 6 \<Longrightarrow> pt_Promote pt = pt + 8"
proof -
  assume "1 \<le> pt" "pt \<le> 6"
  then have "pt \<in> {1, 2, 3, 4, 5, 6}" unfolding insert_iff empty_iff by presburger
  then show ?thesis by (auto simp: pt_Promote_def)
qed

lemma move_see_answers:
  assumes ok: "board_ok b" "kings_ok b" and m: "rule_move b m"
  shows "\<exists>g. MoveSeeGood b m = Some g"
proof -
  from m consider frm to where "piece_move b frm to" "move_variant b frm to m"
    | pt to where "m = move_Drop pt to" "rule_drop b pt to" unfolding rule_move_def by blast
  then have "move_to m < 81 \<and> pt_IsValid (see_landing b m)"
  proof cases
    case 1
    note p = piece_move_facts [OF ok 1(1)] and v = variant_fields [OF piece_move_facts(1,2) [OF ok 1(1)] 1(2)]
    have "1 \<le> piece_GetType (board_arr b frm) \<and> piece_GetType (board_arr b frm) \<le> 14"
      using piece_ok_type [OF board_okD(1) [OF ok(1) p(1)] p(3)] .
    then show ?thesis
      using v p(1,2) by (auto simp: see_landing_def Let_def pt_IsValid_def piece_on_def may_promote_def pt_CanPromote_def promote_range [simplified])
  next
    case 2
    then show ?thesis using drop_fields [OF 2(2)] by (auto simp: see_landing_def pt_IsValid_def rule_drop_def pt_IsHandPiece_def)
  qed
  then show ?thesis unfolding MoveSeeGood_def using SeeGe_value [OF ok(1)] by blast
qed

text \<open>C35: the policy row table is complete: the start-up checks of its size succeed, and all moves
  of a position have different rows below the number of rows, also after doubling by the static
  exchange test, which always answers.\<close>

theorem move_buckets_distinct:
  assumes ok: "board_ok b" "kings_ok b" and m: "rule_move b m" "rule_move b m'"
  shows "InitMoveBuckets_ok \<and> MoveBucket b m < kNumBuckets \<and> (MoveBucket b m = MoveBucket b m' \<longleftrightarrow> m = m') \<and>
    (\<exists>r. MoveBucketSee b m = Some r \<and> r < 2 * kNumBuckets \<and> r mod kNumBuckets = MoveBucket b m)"
proof (intro conjI)
  show "InitMoveBuckets_ok"
    unfolding InitMoveBuckets_ok_def InitMoveBuckets_succeeds
    by (simp add: kPlainBuckets_def kPromoBuckets_def kNumBuckets_def kDropBuckets_def)
  have range: "MoveBucket b m < kNumBuckets" if "rule_move b m" for m
    using that board_bucket_range [OF ok] drop_bucket_range unfolding rule_move_def
    by (fastforce simp: kNumBuckets_def kPlainBuckets_def kPromoBuckets_def kDropBuckets_def split: if_splits)
  show lt: "MoveBucket b m < kNumBuckets" by (rule range [OF m(1)])
  show "MoveBucket b m = MoveBucket b m' \<longleftrightarrow> m = m'" using bucket_inject [OF ok m] by blast
  obtain g where "MoveSeeGood b m = Some g" using move_see_answers [OF ok m(1)] by blast
  then show "\<exists>r. MoveBucketSee b m = Some r \<and> r < 2 * kNumBuckets \<and> r mod kNumBuckets = MoveBucket b m"
    using lt by (auto simp: MoveBucketSee_def)
qed

theorem move_buckets_distinct_witness:
  "MoveBucket sample_board (move_Normal 16 43) \<noteq> MoveBucket sample_board (move_Normal 16 52)"
proof -
  have "move_Normal 16 43 \<noteq> (move_Normal 16 52 :: move)" by (simp add: move_Normal_def)
  then show ?thesis
    using move_buckets_distinct [OF sample_board_ok sample_rook_legal(1) [of 3] sample_rook_legal(1) [of 4]] by simp
qed

end
