(* ===== verification/Features.thy ===== *)
theory Features
  imports MoveBuckets "HOL-Library.Multiset"
begin

text \<open>
  The sparse inputs of the networks, nnue/features.cc: king-relative slots (from scratch and as a
  difference to a remembered position), absolute slots with threat pairs, and the policy inputs.
  A feature list is the list of indices in the order in which they are pushed.
\<close>

subsection \<open>Group A\<close>

definition HandKindType :: "nat \<Rightarrow> piece_type" where
  "HandKindType h = h + 1"

definition colors :: "color list" where
  "colors = [BLACK, WHITE]"

text \<open>Slots of the pieces of one type and of one kind in hand, in the frame of \<open>p\<close>.\<close>

definition board_slots :: "nat \<Rightarrow> color \<Rightarrow> nat \<Rightarrow> nat \<Rightarrow> bitboard \<Rightarrow> nat list" where
  "board_slots base p owner tid bb = map (\<lambda>sq. base + BoardSlot owner tid (FrameSq p sq)) (bb_squares bb)"

definition hand_slots :: "nat \<Rightarrow> nat \<Rightarrow> nat \<Rightarrow> nat \<Rightarrow> nat \<Rightarrow> nat list" where
  "hand_slots base owner h first last_k = map (\<lambda>k. base + HandSlot owner h k) [first..<Suc last_k]"

definition GroupAFeatures :: "shogi_board \<Rightarrow> color \<Rightarrow> nat list" where
  "GroupAFeatures b p =
     (let base = KingFrameSq b p * kNumSlots in
      concat (map (\<lambda>c. let owner = owner_of p c in
        concat (map (\<lambda>tid. board_slots base p owner tid (pieces_ct b c (TypeFromId tid))) [1..<kTypeIds]) @
        concat (map (\<lambda>h. hand_slots base owner h 1 (hand_Count (hands b c) (HandKindType h))) [0..<kHandKinds]))
      colors))"

text \<open>The position a cached accumulator was built from.\<close>

record frame_state =
  fs_pieces :: "nat \<Rightarrow> nat \<Rightarrow> bitboard"
  fs_hand :: "nat \<Rightarrow> nat \<Rightarrow> nat"
  fs_initialized :: bool

definition no_frame :: frame_state where
  "no_frame = \<lparr>fs_pieces = (\<lambda>_ _. bb_Zero), fs_hand = (\<lambda>_ _. 0), fs_initialized = False\<rparr>"

text \<open>One cell of the two loops of \<open>GroupADiff\<close>: the slots added, the slots removed and the new
  entry of the frame state.\<close>

definition diff_pieces :: "nat \<Rightarrow> color \<Rightarrow> nat \<Rightarrow> nat \<Rightarrow> bitboard \<Rightarrow> bitboard \<Rightarrow> nat list \<times> nat list \<times> bitboard" where
  "diff_pieces base p owner tid cur old =
     (let diff = bb_Xor cur old in
      if bb_Empty diff then ([], [], old)
      else let removed = bb_And diff old; added = bb_And diff cur
           in (board_slots base p owner tid added, board_slots base p owner tid removed, cur))"

definition diff_hand :: "nat \<Rightarrow> nat \<Rightarrow> nat \<Rightarrow> nat \<Rightarrow> nat \<Rightarrow> nat list \<times> nat list \<times> nat" where
  "diff_hand base owner h nc oc =
     (hand_slots base owner h (oc + 1) nc, hand_slots base owner h (nc + 1) oc, nc mod 256)"

text \<open>Every cell of the frame state is read before it is written, and read once.\<close>

definition GroupADiff :: "shogi_board \<Rightarrow> color \<Rightarrow> frame_state \<Rightarrow> frame_state \<times> nat list \<times> nat list" where
  "GroupADiff b p st =
     (let base = KingFrameSq b p * kNumSlots;
          color_of = (\<lambda>owner. if owner = 0 then p else opp p);
          dp = (\<lambda>owner tid. diff_pieces base p owner tid (pieces_ct b (color_of owner) (TypeFromId tid)) (fs_pieces st owner tid));
          dh = (\<lambda>owner h. diff_hand base owner h (hand_Count (hands b (color_of owner)) (HandKindType h)) (fs_hand st owner h));
          adds = concat (map (\<lambda>c. let owner = owner_of p c in
            concat (map (\<lambda>tid. fst (dp owner tid)) [1..<kTypeIds]) @
            concat (map (\<lambda>h. fst (dh owner h)) [0..<kHandKinds])) colors);
          subs = concat (map (\<lambda>c. let owner = owner_of p c in
            concat (map (\<lambda>tid. fst (snd (dp owner tid))) [1..<kTypeIds]) @
            concat (map (\<lambda>h. fst (snd (dh owner h))) [0..<kHandKinds])) colors)
      in (\<lparr>fs_pieces = (\<lambda>owner tid. if owner < 2 \<and> 1 \<le> tid \<and> tid < kTypeIds then snd (snd (dp owner tid)) else fs_pieces st owner tid),
           fs_hand = (\<lambda>owner h. if owner < 2 \<and> h < kHandKinds then snd (snd (dh owner h)) else fs_hand st owner h),
           fs_initialized = True\<rparr>, adds, subs))"

subsection \<open>Group B\<close>

definition threat_index :: "shogi_board \<Rightarrow> color \<Rightarrow> nat \<Rightarrow> square \<Rightarrow> square \<Rightarrow> nat" where
  "threat_index b c tid from to =
     (let stm = side_to_move b; owner = owner_of stm c; target = piece_on b to;
          cls = (if piece_GetColor target \<noteq> stm then 8 else 0) + ThreatClass (TypeId (piece_GetType target));
          pair = PairIndex tid (OwnSq c from) (OwnSq c to)
      in kNumSlots + ((owner * kPairsPerOwner + pair) * kThreatClasses + cls))"

definition GroupBFeatures :: "shogi_board \<Rightarrow> nat list" where
  "GroupBFeatures b =
     (let stm = side_to_move b; occ = occupied b in
      concat (map (\<lambda>c. let owner = owner_of stm c in
        concat (map (\<lambda>tid. board_slots 0 stm owner tid (pieces_ct b c (TypeFromId tid))) [1..<kTypeIds]) @
        concat (map (\<lambda>h. hand_slots 0 owner h 1 (hand_Count (hands b c) (HandKindType h))) [0..<kHandKinds]) @
        concat (map (\<lambda>tid. let pt = TypeFromId tid in
          concat (map (\<lambda>from. map (threat_index b c tid from) (bb_squares (bb_And (PieceAttacks pt c from occ) occ)))
            (bb_squares (pieces_ct b c pt)))) [0..<kTypeIds]))
      colors))"

subsection \<open>Policy inputs\<close>

definition AttackedSquares :: "shogi_board \<Rightarrow> color \<Rightarrow> bitboard" where
  "AttackedSquares b c =
     (let occ = occupied b in
      fold (\<lambda>tid result. let pt = TypeFromId tid in
        fold (\<lambda>from result. bb_Or result (PieceAttacks pt c from occ)) (bb_squares (pieces_ct b c pt)) result)
      [0..<kTypeIds] bb_Zero)"

definition PolicyFeatures :: "shogi_board \<Rightarrow> nat list" where
  "PolicyFeatures b =
     (let stm = side_to_move b; attacked = AttackedSquares b (opp stm); defended = AttackedSquares b stm in
      concat (map (\<lambda>c. let owner = owner_of stm c in
        concat (map (\<lambda>tid. map (\<lambda>sq.
            let flags = (if bb_Test attacked sq then 1 else 0) + (if bb_Test defended sq then 2 else 0)
            in (owner * kTypeIds + tid) * 81 + FrameSq stm sq + kBoardSlots * flags)
          (bb_squares (pieces_ct b c (TypeFromId tid)))) [0..<kTypeIds]) @
        concat (map (\<lambda>h. map (\<lambda>k. kPolicyBoardInputs + HandSlot owner h k)
          [1..<Suc (hand_Count (hands b c) (HandKindType h))]) [0..<kHandKinds]))
      colors))"

subsection \<open>The difference to a remembered position\<close>

text \<open>The group A indices of the position a frame state stands for.\<close>

definition frame_features :: "color \<Rightarrow> nat \<Rightarrow> frame_state \<Rightarrow> nat list" where
  "frame_features p ksq st =
     (let base = ksq * kNumSlots in
      concat (map (\<lambda>c. let owner = owner_of p c in
        concat (map (\<lambda>tid. board_slots base p owner tid (fs_pieces st owner tid)) [1..<kTypeIds]) @
        concat (map (\<lambda>h. hand_slots base owner h 1 (fs_hand st owner h)) [0..<kHandKinds])) colors))"

definition frame_ok :: "frame_state \<Rightarrow> bool" where
  "frame_ok st \<longleftrightarrow> (\<forall>owner tid. bb_ok (fs_pieces st owner tid))"

lemma TypeFromId_range: "tid < 14 \<Longrightarrow> 1 \<le> TypeFromId tid \<and> TypeFromId tid < 15"
  by (auto simp: TypeFromId_def)

lemma hand_Count_less: "h < 7 \<Longrightarrow> hand_Count hh (HandKindType h) < 32"
proof -
  assume "h < 7"
  then have h: "h \<in> {0, 1, 2, 3, 4, 5, 6}" unfolding insert_iff empty_iff by presburger
  have "unat (x AND y :: u32) \<le> unat y" for x y using word_and_le1 [where ?'a = 32] word_and_le2 [where ?'a = 32] by (metis and.commute word_le_nat_alt)
  then have le: "hand_Count hh pt \<le> unat (hand_kMask ! pt)" for pt unfolding hand_Count_def by blast
  have "unat (hand_kMask ! HandKindType h) < 32" using h by (auto simp: HandKindType_def hand_kMask_def)
  then show ?thesis using le [of "HandKindType h"] by linarith
qed

lemma mset_squares: "bb_ok w \<Longrightarrow> mset (bb_squares w) = mset_set {s. s < 81 \<and> bb_Test w s}"
  using mset_set_set [of "bb_squares w"] sorted_bb_squares [of w] set_bb_squares [of w] by simp

lemma Xor_empty: "bb_Empty (bb_Xor v w) \<Longrightarrow> v = w"
proof -
  have x: "(x XOR y = 0) = (x = y)" for x y :: u64 by (auto simp: bit_eq_iff bit_xor_iff)
  show "bb_Empty (bb_Xor v w) \<Longrightarrow> v = w"
    by (cases v; cases w) (simp add: bb_Empty_def bb_Any_iff bb_Xor_def bb_FromRaw_def x)
qed

lemma diff_pieces_correct:
  assumes "bb_ok cur" "bb_ok old" "diff_pieces base p owner tid cur old = (a, r, new)"
  shows "mset (board_slots base p owner tid old) + mset a = mset (board_slots base p owner tid cur) + mset r" "new = cur"
proof -
  let ?d = "bb_Xor cur old"
  have "mset (bb_squares old) + mset (bb_squares (bb_And ?d cur)) = mset (bb_squares cur) + mset (bb_squares (bb_And ?d old))"
  proof (rule multiset_eqI)
    fix s
    have fin: "finite {s. s < 81 \<and> P s}" for P :: "nat \<Rightarrow> bool" by simp
    show "count (mset (bb_squares old) + mset (bb_squares (bb_And ?d cur))) s =
        count (mset (bb_squares cur) + mset (bb_squares (bb_And ?d old))) s"
      unfolding mset_squares [OF assms(1)] mset_squares [OF assms(2)] mset_squares [OF bb_ok_And2 [OF assms(1)]]
        mset_squares [OF bb_ok_And2 [OF assms(2)]]
      by (simp add: count_mset_set' Test_And Test_Xor)
  qed
  then have m: "image_mset g (mset (bb_squares old)) + image_mset g (mset (bb_squares (bb_And ?d cur))) =
      image_mset g (mset (bb_squares cur)) + image_mset g (mset (bb_squares (bb_And ?d old)))" for g :: "nat \<Rightarrow> nat"
    by (metis image_mset_union)
  show "mset (board_slots base p owner tid old) + mset a = mset (board_slots base p owner tid cur) + mset r" "new = cur"
    using assms(3) Xor_empty [of cur old] m
    by (auto simp: diff_pieces_def Let_def board_slots_def split: if_splits)
qed

lemma upt_split_mset: "mset [1..<Suc oc] + mset [oc + 1..<Suc nc] = mset [1..<Suc nc] + mset [nc + 1..<Suc oc]"
proof (cases "oc \<le> nc")
  case True
  then have "[1..<Suc nc] = [1..<Suc oc] @ [oc + 1..<Suc nc]" using upt_add_eq_append [of 1 "Suc oc" "nc - oc"] by simp
  then have "mset [1..<Suc nc] = mset [1..<Suc oc] + mset [oc + 1..<Suc nc]" by simp
  then show ?thesis using True by (simp del: upt_Suc)
next
  case False
  then have "[1..<Suc oc] = [1..<Suc nc] @ [nc + 1..<Suc oc]" using upt_add_eq_append [of 1 "Suc nc" "oc - nc"] by simp
  then have "mset [1..<Suc oc] = mset [1..<Suc nc] + mset [nc + 1..<Suc oc]" by simp
  then show ?thesis using False by (simp del: upt_Suc)
qed

lemma diff_hand_correct:
  assumes "nc < 256" "diff_hand base owner h nc oc = (a, r, new)"
  shows "mset (hand_slots base owner h 1 oc) + mset a = mset (hand_slots base owner h 1 nc) + mset r" "new = nc"
proof -
  have "image_mset g (mset [1..<Suc oc]) + image_mset g (mset [oc + 1..<Suc nc]) =
      image_mset g (mset [1..<Suc nc]) + image_mset g (mset [nc + 1..<Suc oc])" for g :: "nat \<Rightarrow> nat"
    using upt_split_mset by (metis image_mset_union)
  then show "mset (hand_slots base owner h 1 oc) + mset a = mset (hand_slots base owner h 1 nc) + mset r" "new = nc"
    using assms by (auto simp: diff_hand_def hand_slots_def simp del: upt_Suc)
qed

lemma mset_balance_append:
  assumes "mset a + mset b = mset c + mset d" "mset a' + mset b' = mset c' + mset d'"
  shows "mset (a @ a') + mset (b @ b') = mset (c @ c') + mset (d @ d')"
proof -
  have "mset (a @ a') + mset (b @ b') = (mset a + mset b) + (mset a' + mset b')" by (simp add: ac_simps)
  also have "\<dots> = (mset c + mset d) + (mset c' + mset d')" unfolding assms ..
  finally show ?thesis by (simp add: ac_simps)
qed

lemma mset_balance_concat:
  "(\<And>x. x \<in> set xs \<Longrightarrow> mset (A x) + mset (B x) = mset (C x) + mset (D x)) \<Longrightarrow>
    mset (concat (map A xs)) + mset (concat (map B xs)) = mset (concat (map C xs)) + mset (concat (map D xs))"
proof (induction xs)
  case (Cons x xs)
  show ?case unfolding list.map concat.simps
    by (rule mset_balance_append) (use Cons in simp_all)
qed simp

lemma owner_cases: "c = (if owner_of p c = 0 then p else opp p)" "owner_of p c < 2"
  by (cases p; cases c; simp add: owner_of_def)+

text \<open>The added and removed slots account exactly for the change of position.\<close>

lemma GroupADiff_correct:
  assumes b: "board_ok b" and st: "frame_ok st" and d: "GroupADiff b p st = (st', adds, subs)"
  shows "mset (frame_features p (KingFrameSq b p) st) + mset adds = mset (GroupAFeatures b p) + mset subs"
    and "frame_features p (KingFrameSq b p) st' = GroupAFeatures b p" and "frame_ok st'" and "fs_initialized st'"
proof -
  define base where "base = KingFrameSq b p * kNumSlots"
  define co where "co = (\<lambda>owner::nat. if owner = 0 then p else opp p)"
  define dp where "dp = (\<lambda>owner tid. diff_pieces base p owner tid (pieces_ct b (co owner) (TypeFromId tid)) (fs_pieces st owner tid))"
  define dh where "dh = (\<lambda>owner h. diff_hand base owner h (hand_Count (hands b (co owner)) (HandKindType h)) (fs_hand st owner h))"
  have co: "co (owner_of p c) = c" for c using owner_cases(1) [of c p] by (simp add: co_def)
  have ad: "adds = concat (map (\<lambda>c. concat (map (\<lambda>tid. fst (dp (owner_of p c) tid)) [1..<kTypeIds]) @
      concat (map (\<lambda>h. fst (dh (owner_of p c) h)) [0..<kHandKinds])) colors)"
    and su: "subs = concat (map (\<lambda>c. concat (map (\<lambda>tid. fst (snd (dp (owner_of p c) tid))) [1..<kTypeIds]) @
      concat (map (\<lambda>h. fst (snd (dh (owner_of p c) h))) [0..<kHandKinds])) colors)"
    and st': "st' = \<lparr>fs_pieces = (\<lambda>owner tid. if owner < 2 \<and> 1 \<le> tid \<and> tid < kTypeIds then snd (snd (dp owner tid)) else fs_pieces st owner tid),
           fs_hand = (\<lambda>owner h. if owner < 2 \<and> h < kHandKinds then snd (snd (dh owner h)) else fs_hand st owner h),
           fs_initialized = True\<rparr>"
    using d unfolding GroupADiff_def Let_def dp_def dh_def co_def base_def by simp_all
  have P: "mset (board_slots base p (owner_of p c) tid (fs_pieces st (owner_of p c) tid)) + mset (fst (dp (owner_of p c) tid)) =
      mset (board_slots base p (owner_of p c) tid (pieces_ct b c (TypeFromId tid))) + mset (fst (snd (dp (owner_of p c) tid)))"
    "snd (snd (dp (owner_of p c) tid)) = pieces_ct b c (TypeFromId tid)" for c tid
  proof -
    obtain a r n where e: "diff_pieces base p (owner_of p c) tid (pieces_ct b c (TypeFromId tid)) (fs_pieces st (owner_of p c) tid) = (a, r, n)"
      using prod_cases3 by blast
    have ok: "bb_ok (pieces_ct b c (TypeFromId tid))" "bb_ok (fs_pieces st (owner_of p c) tid)"
      using bb_ok_pieces(2) [OF b] st by (simp_all add: frame_ok_def)
    show "mset (board_slots base p (owner_of p c) tid (fs_pieces st (owner_of p c) tid)) + mset (fst (dp (owner_of p c) tid)) =
      mset (board_slots base p (owner_of p c) tid (pieces_ct b c (TypeFromId tid))) + mset (fst (snd (dp (owner_of p c) tid)))"
      "snd (snd (dp (owner_of p c) tid)) = pieces_ct b c (TypeFromId tid)"
      using diff_pieces_correct [OF ok e] by (simp_all add: dp_def co e)
  qed
  have H: "mset (hand_slots base (owner_of p c) h 1 (fs_hand st (owner_of p c) h)) + mset (fst (dh (owner_of p c) h)) =
      mset (hand_slots base (owner_of p c) h 1 (hand_Count (hands b c) (HandKindType h))) + mset (fst (snd (dh (owner_of p c) h)))"
    "snd (snd (dh (owner_of p c) h)) = hand_Count (hands b c) (HandKindType h)" if "h < 7" for c h
  proof -
    obtain a r n where e: "diff_hand base (owner_of p c) h (hand_Count (hands b c) (HandKindType h)) (fs_hand st (owner_of p c) h) = (a, r, n)"
      using prod_cases3 by blast
    have lt: "hand_Count (hands b c) (HandKindType h) < 256" using hand_Count_less [OF that, of "hands b c"] by simp
    show "mset (hand_slots base (owner_of p c) h 1 (fs_hand st (owner_of p c) h)) + mset (fst (dh (owner_of p c) h)) =
      mset (hand_slots base (owner_of p c) h 1 (hand_Count (hands b c) (HandKindType h))) + mset (fst (snd (dh (owner_of p c) h)))"
      "snd (snd (dh (owner_of p c) h)) = hand_Count (hands b c) (HandKindType h)"
      using diff_hand_correct [OF lt e] by (simp_all add: dh_def co e)
  qed
  show "mset (frame_features p (KingFrameSq b p) st) + mset adds = mset (GroupAFeatures b p) + mset subs"
    unfolding frame_features_def GroupAFeatures_def Let_def ad su base_def [symmetric]
    by (intro mset_balance_concat mset_balance_append P(1) H(1)) (simp add: kHandKinds_def)
  show "frame_features p (KingFrameSq b p) st' = GroupAFeatures b p"
  proof -
    have E: "map (\<lambda>tid. board_slots base p (owner_of p c) tid (fs_pieces st' (owner_of p c) tid)) [1..<kTypeIds] =
        map (\<lambda>tid. board_slots base p (owner_of p c) tid (pieces_ct b c (TypeFromId tid))) [1..<kTypeIds]"
      "map (\<lambda>h. hand_slots base (owner_of p c) h 1 (fs_hand st' (owner_of p c) h)) [0..<kHandKinds] =
        map (\<lambda>h. hand_slots base (owner_of p c) h 1 (hand_Count (hands b c) (HandKindType h))) [0..<kHandKinds]" for c
      using owner_cases(2) [of p c] P(2) H(2) by (auto simp: st' kHandKinds_def simp del: upt_Suc)
    show ?thesis unfolding frame_features_def GroupAFeatures_def Let_def base_def [symmetric] by (simp only: E)
  qed
  show "frame_ok st'"
    unfolding frame_ok_def
  proof (intro allI)
    fix owner tid
    have "bb_ok (snd (snd (dp owner tid)))" if "owner < 2"
    proof -
      have "owner_of p (co owner) = owner"
        using that by (cases p; cases "owner = 0") (simp_all add: owner_of_def co_def)
      then show ?thesis using P(2) [of "co owner"] bb_ok_pieces(2) [OF b] by simp
    qed
    then show "bb_ok (fs_pieces st' owner tid)" using st by (simp add: st' frame_ok_def)
  qed
  show "fs_initialized st'" by (simp add: st')
qed

end
