(* ===== verification/Networks.thy ===== *)
theory Networks
  imports Features Floats
begin

text \<open>
  The inference of the two networks: the scalar kernels of nnue/simd_scalar.h, the value network
  with its accumulator caches (nnue/value_net.cc) and the policy network (nnue/policy_net.cc).
  Arrays are functions from indices; 16 and 32 bit integers wrap; floats are rounded operation
  by operation.  The weights are parameters, and so is \<open>std::exp\<close>.
\<close>

subsection \<open>Kernels\<close>

type_synonym i8 = "8 word"
type_synonym i16 = "16 word"
type_synonym i32 = "32 word"

definition CopyBias :: "(nat \<Rightarrow> i16) \<Rightarrow> (nat \<Rightarrow> i16) \<Rightarrow> nat \<Rightarrow> (nat \<Rightarrow> i16)" where
  "CopyBias acc bias n = fold (\<lambda>i acc. acc(i := bias i)) [0..<n] acc"

definition add_row :: "nat \<Rightarrow> (nat \<Rightarrow> i8) \<Rightarrow> nat \<Rightarrow> (nat \<Rightarrow> i16) \<Rightarrow> (nat \<Rightarrow> i16)" where
  "add_row n base row acc = fold (\<lambda>i acc. acc(i := acc i + scast (base (row + i)))) [0..<n] acc"

definition sub_row :: "nat \<Rightarrow> (nat \<Rightarrow> i8) \<Rightarrow> nat \<Rightarrow> (nat \<Rightarrow> i16) \<Rightarrow> (nat \<Rightarrow> i16)" where
  "sub_row n base row acc = fold (\<lambda>i acc. acc(i := acc i - scast (base (row + i)))) [0..<n] acc"

definition UpdateRows ::
    "(nat \<Rightarrow> i16) \<Rightarrow> nat \<Rightarrow> (nat \<Rightarrow> i8) \<Rightarrow> nat \<Rightarrow> nat list \<Rightarrow> nat list \<Rightarrow> (nat \<Rightarrow> i16)" where
  "UpdateRows acc n base stride adds subs =
     fold (\<lambda>r. sub_row n base (r * stride)) subs (fold (\<lambda>r. add_row n base (r * stride)) adds acc)"

definition clamp_int :: "int \<Rightarrow> int \<Rightarrow> int \<Rightarrow> int" where
  "clamp_int x lo hi = (if x < lo then lo else if hi < x then hi else x)"

text \<open>\<open>off\<close> is the offset of the output pointer in its array.\<close>

definition PairwiseMul ::
    "(nat \<Rightarrow> i16) \<Rightarrow> nat \<Rightarrow> int \<Rightarrow> nat \<Rightarrow> nat \<Rightarrow> (nat \<Rightarrow> i16) \<Rightarrow> (nat \<Rightarrow> i16)" where
  "PairwiseMul acc n qa shift off out =
     (let half = n div 2 in
      fold (\<lambda>i out.
        let x = clamp_int (sint (acc i)) 0 qa; y = clamp_int (sint (acc (i + half))) 0 qa
        in out(off + i := word_of_int (drop_bit shift (x * y)))) [0..<half] out)"

definition DotI16I16 :: "(nat \<Rightarrow> i16) \<Rightarrow> (nat \<Rightarrow> i16) \<Rightarrow> nat \<Rightarrow> i32" where
  "DotI16I16 a b n = fold (\<lambda>i sum. sum + scast (a i) * scast (b i)) [0..<n] 0"

definition DotI16I8 :: "(nat \<Rightarrow> i16) \<Rightarrow> (nat \<Rightarrow> i8) \<Rightarrow> nat \<Rightarrow> i32" where
  "DotI16I8 a b n = fold (\<lambda>i sum. sum + scast (a i) * scast (b i)) [0..<n] 0"

subsection \<open>The value network\<close>

record value_net =
  vn_l1 :: nat
  vn_qb :: int
  a_w :: "nat \<Rightarrow> i8"
  a_b :: "nat \<Rightarrow> i16"
  b_w :: "nat \<Rightarrow> i8"
  b_b :: "nat \<Rightarrow> i16"
  l2_w :: "nat \<Rightarrow> i16"
  l2_b :: "nat \<Rightarrow> i16"
  l3_w :: "nat \<Rightarrow> ieee"
  l3_b :: "nat \<Rightarrow> ieee"
  l4_w :: "nat \<Rightarrow> ieee"
  l4_b :: "nat \<Rightarrow> ieee"
  pst_w :: "nat \<Rightarrow> i16"

record wdl =
  wdl_win :: ieee
  wdl_draw :: ieee
  wdl_loss :: ieee

record value_scratch =
  cache_acc :: "color \<Rightarrow> nat \<Rightarrow> nat \<Rightarrow> i16"
  frame_states :: "color \<Rightarrow> nat \<Rightarrow> frame_state"
  acc_b :: "nat \<Rightarrow> i16"
  act :: "nat \<Rightarrow> i16"
  rows_a :: u64
  rows_b :: u64
  evals :: u64

definition vs_Reset :: "value_scratch \<Rightarrow> value_scratch" where
  "vs_Reset vs = vs\<lparr>frame_states := (\<lambda>_ _. no_frame), rows_a := 0, rows_b := 0, evals := 0\<rparr>"

text \<open>The accumulator the function returns a pointer to is the cache entry of the frame's king
  square.\<close>

definition RefreshFrame :: "value_net \<Rightarrow> value_scratch \<Rightarrow> shogi_board \<Rightarrow> color \<Rightarrow> value_scratch" where
  "RefreshFrame net vs b p =
     (let k = KingFrameSq b p; l1 = vn_l1 net; acc = cache_acc vs p k; st = frame_states vs p k;
          (acc, st) = (if \<not> fs_initialized st
            then (CopyBias acc (a_b net) l1, st\<lparr>fs_pieces := (\<lambda>_ _. bb_Zero), fs_hand := (\<lambda>_ _. 0)\<rparr>)
            else (acc, st));
          (st, adds, subs) = GroupADiff b p st;
          acc = UpdateRows acc l1 (a_w net) l1 adds subs
      in vs\<lparr>cache_acc := (cache_acc vs)(p := (cache_acc vs p)(k := acc)),
            frame_states := (frame_states vs)(p := (frame_states vs p)(k := st)),
            rows_a := rows_a vs + of_nat (length adds + length subs)\<rparr>)"

definition SCReLU :: "ieee \<Rightarrow> ieee" where
  "SCReLU x = (let x = (if fless x (Fin 0) then Fin 0 else if fless (Fin 1) x then Fin 1 else x) in fmul x x)"

text \<open>The layers above the accumulators, from the activations and the active group B features.\<close>

definition l2_out :: "value_net \<Rightarrow> (nat \<Rightarrow> i16) \<Rightarrow> nat \<Rightarrow> ieee" where
  "l2_out net activ j =
     (let n2 = 3 * (vn_l1 net div 2); inv_qa2 = fdiv (Fin 1) (ffloat (kQA * kQA)); inv_qb = fdiv (Fin 1) (ffloat (vn_qb net));
          s = DotI16I16 (\<lambda>i. l2_w net (j * n2 + i)) activ n2
      in fmul (fadd (fmul (ffloat (sint s)) inv_qa2) (ffloat (sint (l2_b net j)))) inv_qb)"

definition l3_out :: "value_net \<Rightarrow> (nat \<Rightarrow> ieee) \<Rightarrow> nat \<Rightarrow> ieee" where
  "l3_out net x j = fold (\<lambda>i s. fadd s (fmul (l3_w net (j * kValueL2 + i)) (SCReLU (x i)))) [0..<kValueL2] (l3_b net j)"

definition l4_out :: "value_net \<Rightarrow> (nat \<Rightarrow> ieee) \<Rightarrow> nat \<Rightarrow> ieee" where
  "l4_out net y k = fold (\<lambda>j s. fadd s (fmul (l4_w net (k * kValueL3 + j)) (SCReLU (y j)))) [0..<kValueL3] (l4_b net k)"

definition pst_sum :: "value_net \<Rightarrow> nat list \<Rightarrow> nat \<Rightarrow> i32" where
  "pst_sum net feats k = fold (\<lambda>f s. s + scast (pst_w net (f * 3 + k))) feats 0"

definition value_out :: "(ieee \<Rightarrow> ieee) \<Rightarrow> value_net \<Rightarrow> (nat \<Rightarrow> i16) \<Rightarrow> nat list \<Rightarrow> wdl" where
  "value_out expf net activ feats_b =
     (let x = l2_out net activ; y = l3_out net x;
          inv_qpst = fdiv (Fin 1) (ffloat kQPst);
          z = (\<lambda>k. fadd (l4_out net y k) (fmul (ffloat (sint (pst_sum net feats_b k))) inv_qpst));
          m = fmax (z 0) (fmax (z 1) (z 2));
          e0 = expf (fsub (z 0) m); e1 = expf (fsub (z 1) m); e2 = expf (fsub (z 2) m);
          inv = fdiv (Fin 1) (fadd (fadd e0 e1) e2)
      in \<lparr>wdl_win = fmul e0 inv, wdl_draw = fmul e1 inv, wdl_loss = fmul e2 inv\<rparr>)"

definition vs_Evaluate :: "(ieee \<Rightarrow> ieee) \<Rightarrow> value_net \<Rightarrow> value_scratch \<Rightarrow> shogi_board \<Rightarrow> wdl \<times> value_scratch" where
  "vs_Evaluate expf net vs b =
     (let vs = vs\<lparr>evals := evals vs + 1\<rparr>; stm = side_to_move b; l1 = vn_l1 net;
          vs = RefreshFrame net vs b stm;
          vs = RefreshFrame net vs b (opp stm);
          acc_us = cache_acc vs stm (KingFrameSq b stm);
          acc_them = cache_acc vs (opp stm) (KingFrameSq b (opp stm));
          feats_b = GroupBFeatures b;
          vs = vs\<lparr>acc_b := UpdateRows (CopyBias (acc_b vs) (b_b net) l1) l1 (b_w net) l1 feats_b [],
                  rows_b := rows_b vs + of_nat (length feats_b)\<rparr>;
          half = l1 div 2;
          act' = PairwiseMul acc_us l1 kQA 0 0 (act vs);
          act' = PairwiseMul acc_them l1 kQA 0 half act';
          act' = PairwiseMul (acc_b vs) l1 kQA 0 (2 * half) act';
          vs = vs\<lparr>act := act'\<rparr>
      in (value_out expf net act' feats_b, vs))"

subsection \<open>The policy network\<close>

record policy_net =
  pn_l1 :: nat
  pn_see :: bool
  l1_w :: "nat \<Rightarrow> i8"
  l1_b :: "nat \<Rightarrow> i16"
  out_w :: "nat \<Rightarrow> i8"
  out_b :: "nat \<Rightarrow> i16"

record policy_scratch =
  ps_acc :: "nat \<Rightarrow> i16"
  ps_hl :: "nat \<Rightarrow> i16"
  ps_expansions :: u64
  ps_rows :: u64

definition ComputeHidden :: "policy_net \<Rightarrow> policy_scratch \<Rightarrow> shogi_board \<Rightarrow> policy_scratch" where
  "ComputeHidden net ps b =
     (let ps = ps\<lparr>ps_expansions := ps_expansions ps + 1\<rparr>; feats = PolicyFeatures b; l1 = pn_l1 net;
          ps = ps\<lparr>ps_acc := UpdateRows (CopyBias (ps_acc ps) (l1_b net) l1) l1 (l1_w net) l1 feats [],
                  ps_rows := ps_rows ps + of_nat (length feats)\<rparr>
      in ps\<lparr>ps_hl := PairwiseMul (ps_acc ps) l1 kQA kPolicyShift 0 (ps_hl ps)\<rparr>)"

definition pn_Bucket :: "policy_net \<Rightarrow> shogi_board \<Rightarrow> move \<Rightarrow> nat option" where
  "pn_Bucket net b m = (if pn_see net then MoveBucketSee b m else Some (MoveBucket b m))"

definition bucket_logit :: "policy_net \<Rightarrow> (nat \<Rightarrow> i16) \<Rightarrow> nat \<Rightarrow> ieee" where
  "bucket_logit net hl bucket =
     (let half = pn_l1 net div 2; dot = DotI16I8 hl (\<lambda>i. out_w net (bucket * half + i)) half;
          pre = fadd (fdiv (ffloat (sint dot)) (ffloat (kQA * kPolicyFactor))) (ffloat (sint (out_b net bucket)))
      in fdiv pre (ffloat kPolicyQB))"

definition pn_Logit :: "policy_net \<Rightarrow> policy_scratch \<Rightarrow> shogi_board \<Rightarrow> move \<Rightarrow> ieee option" where
  "pn_Logit net ps b m = map_option (bucket_logit net (ps_hl ps)) (pn_Bucket net b m)"

definition pn_Logits :: "policy_net \<Rightarrow> policy_scratch \<Rightarrow> shogi_board \<Rightarrow> move list \<Rightarrow> ieee option list \<times> policy_scratch" where
  "pn_Logits net ps b moves = (let ps = ComputeHidden net ps b in (map (pn_Logit net ps b) moves, ps))"

subsection \<open>What the kernels compute\<close>

lemma fold_array:
  "fold (\<lambda>i acc. acc(i := g i (acc i))) [0..<n] acc = (\<lambda>i. if i < n then g i (acc i) else acc i)"
  by (induction n) auto

lemma CopyBias_eq: "CopyBias acc bias n = (\<lambda>i. if i < n then bias i else acc i)"
  unfolding CopyBias_def by (rule fold_array [of "\<lambda>i _. bias i"])

lemma add_row_eq: "add_row n base row acc = (\<lambda>i. if i < n then acc i + scast (base (row + i)) else acc i)"
  unfolding add_row_def by (rule fold_array [of "\<lambda>i a. a + scast (base (row + i))"])

lemma sub_row_eq: "sub_row n base row acc = (\<lambda>i. if i < n then acc i - scast (base (row + i)) else acc i)"
  unfolding sub_row_def by (rule fold_array [of "\<lambda>i a. a - scast (base (row + i))"])

text \<open>The sum of the rows of a feature list, column \<open>i\<close>.\<close>

definition row_sum :: "(nat \<Rightarrow> i8) \<Rightarrow> nat \<Rightarrow> nat list \<Rightarrow> nat \<Rightarrow> i16" where
  "row_sum base stride feats i = (\<Sum>f\<leftarrow>feats. scast (base (f * stride + i)))"

lemma UpdateRows_eq:
  "i < n \<Longrightarrow> UpdateRows acc n base stride adds subs i = acc i + row_sum base stride adds i - row_sum base stride subs i"
proof -
  assume i: "i < n"
  have "fold (\<lambda>r. add_row n base (r * stride)) adds acc i = acc i + row_sum base stride adds i" for acc
    using i by (induction adds arbitrary: acc) (simp_all add: row_sum_def add_row_eq)
  moreover have "fold (\<lambda>r. sub_row n base (r * stride)) subs acc i = acc i - row_sum base stride subs i" for acc
    using i by (induction subs arbitrary: acc) (simp_all add: row_sum_def sub_row_eq)
  ultimately show ?thesis unfolding UpdateRows_def by simp
qed

lemma row_sum_mset: "mset xs = mset ys \<Longrightarrow> row_sum base stride xs i = row_sum base stride ys i"
proof -
  assume e: "mset xs = mset ys"
  have "row_sum base stride xs i = sum_mset (image_mset (\<lambda>f. scast (base (f * stride + i))) (mset xs))" for xs
    unfolding row_sum_def by (simp flip: sum_mset_sum_list)
  from this [of xs] this [of ys] show ?thesis by (simp add: e)
qed

lemma row_sum_balance:
  assumes "mset a + mset b = mset c + mset d"
  shows "row_sum base stride a i + row_sum base stride b i = row_sum base stride c i + row_sum base stride d i"
proof -
  have "mset (a @ b) = mset (c @ d)" using assms by simp
  from row_sum_mset [OF this] show ?thesis by (simp add: row_sum_def)
qed

text \<open>An accumulator from scratch.\<close>

definition accumulator :: "(nat \<Rightarrow> i16) \<Rightarrow> (nat \<Rightarrow> i8) \<Rightarrow> nat \<Rightarrow> nat list \<Rightarrow> nat \<Rightarrow> i16" where
  "accumulator bias w l1 feats i = bias i + row_sum w l1 feats i"

subsection \<open>The caches\<close>

text \<open>Every initialised cache entry is the accumulator of the position it remembers.\<close>

definition cache_ok :: "value_net \<Rightarrow> value_scratch \<Rightarrow> bool" where
  "cache_ok net vs \<longleftrightarrow> (\<forall>p k. frame_ok (frame_states vs p k) \<and>
     (fs_initialized (frame_states vs p k) \<longrightarrow> (\<forall>i<vn_l1 net.
       cache_acc vs p k i = accumulator (a_b net) (a_w net) (vn_l1 net) (frame_features p k (frame_states vs p k)) i)))"

lemma frame_features_empty:
  "frame_features p k (st\<lparr>fs_pieces := (\<lambda>_ _. bb_Zero), fs_hand := (\<lambda>_ _. 0)\<rparr>) = []"
  by (simp add: frame_features_def Let_def board_slots_def hand_slots_def bb_squares_filter)

lemma cache_ok_Reset: "cache_ok net (vs_Reset vs)"
  by (simp add: cache_ok_def vs_Reset_def no_frame_def frame_ok_def)

lemma RefreshFrame_correct:
  assumes b: "board_ok b" and c: "cache_ok net vs"
  shows "cache_ok net (RefreshFrame net vs b p)"
    and "i < vn_l1 net \<Longrightarrow> cache_acc (RefreshFrame net vs b p) p (KingFrameSq b p) i =
      accumulator (a_b net) (a_w net) (vn_l1 net) (GroupAFeatures b p) i"
    and "q \<noteq> p \<Longrightarrow> cache_acc (RefreshFrame net vs b p) q = cache_acc vs q"
proof -
  let ?k = "KingFrameSq b p" and ?l = "vn_l1 net"
  let ?st = "frame_states vs p ?k"
  define acc0 where "acc0 = (if \<not> fs_initialized ?st then CopyBias (cache_acc vs p ?k) (a_b net) ?l else cache_acc vs p ?k)"
  define st0 where "st0 = (if \<not> fs_initialized ?st then ?st\<lparr>fs_pieces := (\<lambda>_ _. bb_Zero), fs_hand := (\<lambda>_ _. 0)\<rparr> else ?st)"
  obtain st adds subs where d: "GroupADiff b p st0 = (st, adds, subs)" using prod_cases3 by blast
  have R: "RefreshFrame net vs b p = vs\<lparr>cache_acc := (cache_acc vs)(p := (cache_acc vs p)(?k := UpdateRows acc0 ?l (a_w net) ?l adds subs)),
      frame_states := (frame_states vs)(p := (frame_states vs p)(?k := st)), rows_a := rows_a vs + of_nat (length adds + length subs)\<rparr>"
    unfolding RefreshFrame_def Let_def using d by (simp add: acc0_def st0_def split: if_splits)
  have ok0: "frame_ok st0" using c by (auto simp: st0_def cache_ok_def frame_ok_def)
  have acc0: "acc0 i = accumulator (a_b net) (a_w net) ?l (frame_features p ?k st0) i" if "i < ?l" for i
  proof (cases "fs_initialized ?st")
    case True
    then show ?thesis using c that by (simp add: acc0_def st0_def cache_ok_def)
  next
    case False
    then show ?thesis using that
      by (simp add: acc0_def st0_def CopyBias_eq frame_features_empty accumulator_def row_sum_def)
  qed
  note g = GroupADiff_correct [OF b ok0 d]
  have new: "UpdateRows acc0 ?l (a_w net) ?l adds subs i = accumulator (a_b net) (a_w net) ?l (GroupAFeatures b p) i"
    if "i < ?l" for i
    using acc0 [OF that] row_sum_balance [OF g(1), of "a_w net" ?l i]
    by (simp add: UpdateRows_eq [OF that] accumulator_def algebra_simps)
  then show "i < ?l \<Longrightarrow> cache_acc (RefreshFrame net vs b p) p ?k i =
      accumulator (a_b net) (a_w net) ?l (GroupAFeatures b p) i" by (simp add: R)
  show "q \<noteq> p \<Longrightarrow> cache_acc (RefreshFrame net vs b p) q = cache_acc vs q" by (simp add: R)
  show "cache_ok net (RefreshFrame net vs b p)"
    using c new g(2,3) by (auto simp: cache_ok_def R)
qed

subsection \<open>The evaluation without caches\<close>

definition pair_mul :: "(nat \<Rightarrow> i16) \<Rightarrow> nat \<Rightarrow> int \<Rightarrow> nat \<Rightarrow> nat \<Rightarrow> i16" where
  "pair_mul acc half qa shift i =
     word_of_int (drop_bit shift (clamp_int (sint (acc i)) 0 qa * clamp_int (sint (acc (i + half))) 0 qa))"

lemma PairwiseMul_eq:
  "PairwiseMul acc n qa shift off out = (\<lambda>j. if off \<le> j \<and> j < off + n div 2 then pair_mul acc (n div 2) qa shift (j - off) else out j)"
proof -
  have "fold (\<lambda>i out. out(off + i := g i)) [0..<m] out = (\<lambda>j. if off \<le> j \<and> j < off + m then g (j - off) else out j)"
    for g :: "nat \<Rightarrow> i16" and m
    by (induction m) (auto simp: fun_eq_iff)
  from this [of "pair_mul acc (n div 2) qa shift" "n div 2"] show ?thesis
    by (simp add: PairwiseMul_def Let_def pair_mul_def)
qed

lemma pair_mul_cong:
  "(\<And>i. i < n \<Longrightarrow> acc i = acc' i) \<Longrightarrow> j < n div 2 \<Longrightarrow> pair_mul acc (n div 2) qa shift j = pair_mul acc' (n div 2) qa shift j"
  by (simp add: pair_mul_def)

text \<open>The value of a position, from accumulators that are built from scratch.\<close>

definition spec_activations :: "value_net \<Rightarrow> shogi_board \<Rightarrow> nat \<Rightarrow> i16" where
  "spec_activations net b i =
     (let l1 = vn_l1 net; half = l1 div 2; stm = side_to_move b;
          acc = (\<lambda>p. accumulator (a_b net) (a_w net) l1 (GroupAFeatures b p));
          accb = accumulator (b_b net) (b_w net) l1 (GroupBFeatures b)
      in if i < half then pair_mul (acc stm) half kQA 0 i
         else if i < 2 * half then pair_mul (acc (opp stm)) half kQA 0 (i - half)
         else pair_mul accb half kQA 0 (i - 2 * half))"

definition spec_value :: "(ieee \<Rightarrow> ieee) \<Rightarrow> value_net \<Rightarrow> shogi_board \<Rightarrow> wdl" where
  "spec_value expf net b = value_out expf net (spec_activations net b) (GroupBFeatures b)"

lemma Dot_cong: "(\<And>i. i < n \<Longrightarrow> y i = y' i) \<Longrightarrow> DotI16I16 x y n = DotI16I16 x y' n"
  unfolding DotI16I16_def by (intro fold_cong) auto

lemma pst_sum_mset: "mset xs = mset ys \<Longrightarrow> pst_sum net xs k = pst_sum net ys k"
proof -
  assume e: "mset xs = mset ys"
  have s: "fold (\<lambda>f s. s + g f) xs a = a + sum_list (map g xs)" for g :: "nat \<Rightarrow> i32" and xs a
    by (induction xs arbitrary: a) (simp_all add: add.assoc)
  have "sum_list (map g xs) = sum_mset (image_mset g (mset xs))" for g :: "nat \<Rightarrow> i32" and xs
    by (simp flip: sum_mset_sum_list)
  from this [of _ xs] this [of _ ys] show ?thesis unfolding pst_sum_def s by (simp add: e)
qed

lemma value_out_cong:
  assumes "\<And>i. i < 3 * (vn_l1 net div 2) \<Longrightarrow> u i = v i" "mset xs = mset ys"
  shows "value_out expf net u xs = value_out expf net v ys"
proof -
  have l: "l2_out net u = l2_out net v"
    unfolding l2_out_def fun_eq_iff Let_def using Dot_cong [of "3 * (vn_l1 net div 2)" u v] assms(1) by metis
  have p: "pst_sum net xs = pst_sum net ys" unfolding fun_eq_iff by (intro allI pst_sum_mset assms(2))
  show ?thesis unfolding value_out_def l p ..
qed

lemma vs_Evaluate_correct:
  assumes b: "board_ok b" and c: "cache_ok net vs"
  shows "fst (vs_Evaluate expf net vs b) = spec_value expf net b" "cache_ok net (snd (vs_Evaluate expf net vs b))"
proof -
  let ?stm = "side_to_move b" and ?l = "vn_l1 net" and ?h = "vn_l1 net div 2" and ?f = "GroupBFeatures b"
  define v0 where "v0 = vs\<lparr>evals := evals vs + 1\<rparr>"
  define v1 where "v1 = RefreshFrame net v0 b ?stm"
  define v2 where "v2 = RefreshFrame net v1 b (opp ?stm)"
  define ab where "ab = UpdateRows (CopyBias (acc_b v2) (b_b net) ?l) ?l (b_w net) ?l ?f []"
  define us where "us = cache_acc v2 ?stm (KingFrameSq b ?stm)"
  define them where "them = cache_acc v2 (opp ?stm) (KingFrameSq b (opp ?stm))"
  define a3 where "a3 = PairwiseMul ab ?l kQA 0 (2 * ?h) (PairwiseMul them ?l kQA 0 ?h (PairwiseMul us ?l kQA 0 0 (act v2)))"
  have E: "vs_Evaluate expf net vs b = (value_out expf net a3 ?f,
      v2\<lparr>acc_b := ab, rows_b := rows_b v2 + of_nat (length ?f), act := a3\<rparr>)"
    unfolding vs_Evaluate_def Let_def v0_def v1_def v2_def ab_def us_def them_def a3_def by simp
  have c0: "cache_ok net v0" using c by (simp add: v0_def cache_ok_def)
  have c1: "cache_ok net v1" unfolding v1_def by (rule RefreshFrame_correct(1) [OF b c0])
  have c2: "cache_ok net v2" unfolding v2_def by (rule RefreshFrame_correct(1) [OF b c1])
  have us: "us i = accumulator (a_b net) (a_w net) ?l (GroupAFeatures b ?stm) i" if "i < ?l" for i
    unfolding us_def v2_def RefreshFrame_correct(3) [OF b c1 opp_neq(2)]
    unfolding v1_def by (rule RefreshFrame_correct(2) [OF b c0 that])
  have them: "them i = accumulator (a_b net) (a_w net) ?l (GroupAFeatures b (opp ?stm)) i" if "i < ?l" for i
    unfolding them_def v2_def by (rule RefreshFrame_correct(2) [OF b c1 that])
  have ab: "ab i = accumulator (b_b net) (b_w net) ?l ?f i" if "i < ?l" for i
    using that by (simp add: ab_def UpdateRows_eq CopyBias_eq accumulator_def row_sum_def)
  have "a3 i = spec_activations net b i" if "i < 3 * ?h" for i
    using that pair_mul_cong [of ?l us "accumulator (a_b net) (a_w net) ?l (GroupAFeatures b ?stm)", OF us]
      pair_mul_cong [of ?l them "accumulator (a_b net) (a_w net) ?l (GroupAFeatures b (opp ?stm))", OF them]
      pair_mul_cong [of ?l ab "accumulator (b_b net) (b_w net) ?l ?f", OF ab]
    by (auto simp: a3_def PairwiseMul_eq spec_activations_def Let_def)
  then show "fst (vs_Evaluate expf net vs b) = spec_value expf net b"
    unfolding E spec_value_def fst_conv by (rule value_out_cong) simp_all
  show "cache_ok net (snd (vs_Evaluate expf net vs b))" using c2 by (simp add: E cache_ok_def)
qed

end
