(* ===== verification/Symmetry.thy ===== *)
theory Symmetry
  imports Networks GameRules
begin

text \<open>
  The networks see a position from the side to move: the features of a position and of its
  flipped form (rotated by 180 degrees with the colours exchanged) are the same, and so are the
  values computed from them, bit for bit.
\<close>

subsection \<open>Attacks in a piece's own frame\<close>

definition own_reach :: "nat \<Rightarrow> (square \<Rightarrow> bool) \<Rightarrow> square \<Rightarrow> square \<Rightarrow> bool" where
  "own_reach tid occ s t \<longleftrightarrow>
     (\<exists>d\<in>set (reach_dirs tid). \<exists>k\<ge>1. steps_to s d k t \<and> clear_between occ s d k) \<or>
     (file_of t - file_of s, rank_of t - rank_of s) \<in> set (reach_steps tid)"

abbreviation turn :: "color \<Rightarrow> int \<times> int \<Rightarrow> int \<times> int" where
  "turn c d \<equiv> (if c = BLACK then d else neg_dir d)"

lemma OwnSq_OwnSq [simp]: "s < 81 \<Longrightarrow> OwnSq c (OwnSq c s) = s"
  by (auto simp: OwnSq_def FrameSq_def)

lemma turn_turn [simp]: "turn c (turn c d) = d"
  by simp

lemma steps_to_own:
  assumes "s < 81" "t < 81"
  shows "steps_to (OwnSq c s) (turn c d) k (OwnSq c t) \<longleftrightarrow> steps_to s d k t"
proof -
  have "(8 - a = 8 - b' + (k::int) * - x) \<longleftrightarrow> (a = b' + k * x)" for a b' k x by auto
  then show ?thesis
    using OwnSq_coords(3,4) [OF assms(1)] OwnSq_coords(3,4) [OF assms(2)]
    by (cases c) (auto simp: steps_to_def neg_dir_def)
qed

lemma clear_between_own:
  assumes "s < 81"
  shows "clear_between (\<lambda>u. occ (OwnSq c u)) (OwnSq c s) (turn c d) k \<longleftrightarrow> clear_between occ s d k"
proof -
  have lt: "OwnSq c u < 81" if "u < 81" for u using OwnSq_coords(1) [OF that] .
  show ?thesis unfolding clear_between_def
  proof (intro iffI allI impI; elim conjE)
    fix u j assume a: "\<forall>u<81. \<forall>j. 1 \<le> j \<and> j < k \<and> steps_to (OwnSq c s) (turn c d) j u \<longrightarrow> \<not> occ (OwnSq c u)"
      and u: "u < 81" "1 \<le> j" "j < k" "steps_to s d j u"
    then show "\<not> occ u" using lt [OF u(1)] steps_to_own [OF assms u(1)] by fastforce
  next
    fix u j assume a: "\<forall>u<81. \<forall>j. 1 \<le> j \<and> j < k \<and> steps_to s d j u \<longrightarrow> \<not> occ u"
      and u: "u < 81" "1 \<le> j" "j < k" "steps_to (OwnSq c s) (turn c d) j u"
    have "steps_to s d j (OwnSq c u)" using steps_to_own [OF assms lt [OF u(1)], of c d j] u(1,4) by simp
    then show "\<not> occ (OwnSq c u)" using a lt [OF u(1)] u by blast
  qed
qed

lemma ray_reach_own:
  assumes "s < 81" "t < 81" "unit_dir d"
  shows "t \<in> set (ray_reach occ (ray_from s d)) \<longleftrightarrow>
    (\<exists>k\<ge>1. steps_to (OwnSq c s) (turn c d) k (OwnSq c t) \<and> clear_between (\<lambda>u. occ (OwnSq c u)) (OwnSq c s) (turn c d) k)"
  using set_ray_reach_from [OF assms(1,3)] steps_to_own [OF assms(1,2)] clear_between_own [OF assms(1)] assms(2) by metis

lemma bex_turn:
  "(\<exists>d\<in>set rook_dirs. P (turn c d)) \<longleftrightarrow> (\<exists>d\<in>set rook_dirs. P d)"
  "(\<exists>d\<in>set bishop_dirs. P (turn c d)) \<longleftrightarrow> (\<exists>d\<in>set bishop_dirs. P d)"
  using bex_neg_dir [of P] by (cases "c = BLACK"; simp)+

lemma own_deltas_iff:
  fixes c :: color
  defines "e \<equiv> if c = BLACK then (1::int) else -1"
  shows "(e * x, e * y) \<in> set (pawn_deltas BLACK) \<longleftrightarrow> (x, y) \<in> set (pawn_deltas c)"
    "(e * x, e * y) \<in> set (knight_deltas BLACK) \<longleftrightarrow> (x, y) \<in> set (knight_deltas c)"
    "(e * x, e * y) \<in> set (silver_deltas BLACK) \<longleftrightarrow> (x, y) \<in> set (silver_deltas c)"
    "(e * x, e * y) \<in> set (gold_deltas BLACK) \<longleftrightarrow> (x, y) \<in> set (gold_deltas c)"
    "(e * x, e * y) \<in> set king_deltas \<longleftrightarrow> (x, y) \<in> set king_deltas"
    "(e * x, e * y) \<in> set horse_deltas \<longleftrightarrow> (x, y) \<in> set horse_deltas"
    "(e * x, e * y) \<in> set dragon_deltas \<longleftrightarrow> (x, y) \<in> set dragon_deltas"
  unfolding e_def by (cases c; auto simp: delta_defs)+

lemma reach_table:
  "reach_dirs (TypeId kPawn) = []" "reach_dirs (TypeId kLance) = [(0, -1)]" "reach_dirs (TypeId kKnight) = []"
  "reach_dirs (TypeId kSilver) = []" "reach_dirs (TypeId kBishop) = bishop_dirs" "reach_dirs (TypeId kRook) = rook_dirs"
  "reach_dirs (TypeId kGold) = []" "reach_dirs (TypeId kProPawn) = []" "reach_dirs (TypeId kProLance) = []"
  "reach_dirs (TypeId kProKnight) = []" "reach_dirs (TypeId kProSilver) = []" "reach_dirs (TypeId kKing) = []"
  "reach_dirs (TypeId kHorse) = bishop_dirs" "reach_dirs (TypeId kDragon) = rook_dirs"
  "reach_steps (TypeId kPawn) = pawn_deltas BLACK" "reach_steps (TypeId kLance) = []" "reach_steps (TypeId kKnight) = knight_deltas BLACK"
  "reach_steps (TypeId kSilver) = silver_deltas BLACK" "reach_steps (TypeId kBishop) = []" "reach_steps (TypeId kRook) = []"
  "reach_steps (TypeId kGold) = gold_deltas BLACK" "reach_steps (TypeId kProPawn) = gold_deltas BLACK"
  "reach_steps (TypeId kProLance) = gold_deltas BLACK" "reach_steps (TypeId kProKnight) = gold_deltas BLACK"
  "reach_steps (TypeId kProSilver) = gold_deltas BLACK" "reach_steps (TypeId kKing) = king_deltas"
  "reach_steps (TypeId kHorse) = horse_deltas" "reach_steps (TypeId kDragon) = dragon_deltas"
  by (simp_all add: TypeId_def reach_dirs_def reach_steps_def piece_type_defs)

lemma PieceAttacks_types:
  "PieceAttacks kPawn c s occ = PawnEffectBB s c" "PieceAttacks kLance c s occ = LanceEffect c s occ"
  "PieceAttacks kKnight c s occ = KnightEffectBB s c" "PieceAttacks kSilver c s occ = SilverEffectBB s c"
  "PieceAttacks kBishop c s occ = BishopEffect s occ" "PieceAttacks kRook c s occ = RookEffect s occ"
  "PieceAttacks kGold c s occ = GoldEffectBB s c" "PieceAttacks kProPawn c s occ = GoldEffectBB s c"
  "PieceAttacks kProLance c s occ = GoldEffectBB s c" "PieceAttacks kProKnight c s occ = GoldEffectBB s c"
  "PieceAttacks kProSilver c s occ = GoldEffectBB s c"
  "PieceAttacks kKing c s occ = KingEffectBB s" "PieceAttacks kHorse c s occ = bb_Or (BishopEffect s occ) (HorseStepBB s)"
  "PieceAttacks kDragon c s occ = bb_Or (RookEffect s occ) (DragonStepBB s)"
  by (simp_all add: PieceAttacks_def piece_type_defs)

lemma piece_type_cases:
  assumes "1 \<le> pt" "pt \<le> 14"
  obtains "pt = kPawn" | "pt = kLance" | "pt = kKnight" | "pt = kSilver" | "pt = kBishop" | "pt = kRook" | "pt = kGold"
    | "pt = kProPawn" | "pt = kProLance" | "pt = kProKnight" | "pt = kProSilver" | "pt = kKing" | "pt = kHorse" | "pt = kDragon"
proof -
  have "pt \<in> {kPawn, kLance, kKnight, kSilver, kBishop, kRook, kGold, kProPawn, kProLance, kProKnight, kProSilver, kKing, kHorse, kDragon}"
    using assms unfolding piece_type_defs insert_iff empty_iff by presburger
  then show ?thesis using that by blast
qed

lemma own_attack:
  assumes s: "s < 81" "t < 81" and pt: "1 \<le> pt" "pt \<le> 14"
  shows "bb_Test (PieceAttacks pt c s occ) t \<longleftrightarrow> own_reach (TypeId pt) (\<lambda>u. bb_Test occ (OwnSq c u)) (OwnSq c s) (OwnSq c t)"
proof -
  let ?e = "if c = BLACK then (1::int) else -1"
  have delta: "(file_of (OwnSq c t) - file_of (OwnSq c s), rank_of (OwnSq c t) - rank_of (OwnSq c s)) =
      (?e * (file_of t - file_of s), ?e * (rank_of t - rank_of s))"
    using OwnSq_coords(3,4) [OF s(1)] OwnSq_coords(3,4) [OF s(2)] by simp
  let ?R = "\<lambda>D. \<exists>d\<in>D. \<exists>k\<ge>1. steps_to (OwnSq c s) d k (OwnSq c t) \<and> clear_between (\<lambda>u. bb_Test occ (OwnSq c u)) (OwnSq c s) d k"
  have tf: "turn c (forward c) = (0, -1)" by (cases c) (simp_all add: forward_def neg_dir_def)
  have ray: "bb_Test (RookEffect s occ) t \<longleftrightarrow> ?R (set rook_dirs)" "bb_Test (BishopEffect s occ) t \<longleftrightarrow> ?R (set bishop_dirs)"
    "bb_Test (LanceEffect c s occ) t \<longleftrightarrow> ?R {(0, -1)}"
  proof -
    have r: "t \<in> set (ray_reach (bb_Test occ) (ray_from s d)) \<longleftrightarrow>
      (\<exists>k\<ge>1. steps_to (OwnSq c s) (turn c d) k (OwnSq c t) \<and> clear_between (\<lambda>u. bb_Test occ (OwnSq c u)) (OwnSq c s) (turn c d) k)"
      if "unit_dir d" for d using ray_reach_own [OF s that] .
    show "bb_Test (RookEffect s occ) t \<longleftrightarrow> ?R (set rook_dirs)"
      unfolding RookEffect_rays [OF s]
      using r unit_dir_rook_bishop bex_turn(1) [of "\<lambda>d. \<exists>k\<ge>1. steps_to (OwnSq c s) d k (OwnSq c t) \<and> clear_between (\<lambda>u. bb_Test occ (OwnSq c u)) (OwnSq c s) d k" c]
      by blast
    show "bb_Test (BishopEffect s occ) t \<longleftrightarrow> ?R (set bishop_dirs)"
      unfolding BishopEffect_rays [OF s]
      using r unit_dir_rook_bishop bex_turn(2) [of "\<lambda>d. \<exists>k\<ge>1. steps_to (OwnSq c s) d k (OwnSq c t) \<and> clear_between (\<lambda>u. bb_Test occ (OwnSq c u)) (OwnSq c s) d k" c]
      by blast
    show "bb_Test (LanceEffect c s occ) t \<longleftrightarrow> ?R {(0, -1)}"
      unfolding LanceEffect_ray [OF s] r [OF unit_dir_forward] tf by simp
  qed
  have bex1: "(\<exists>d\<in>set [d0]. P d) \<longleftrightarrow> P d0" "(\<exists>d\<in>set []. P d) \<longleftrightarrow> False" for P and d0 :: "int \<times> int" by simp_all
  have ray3: "bb_Test (LanceEffect c s occ) t \<longleftrightarrow> ?R (set [(0, -1)])" using ray(3) by simp
  note d = own_deltas_iff [of c "file_of t - file_of s" "rank_of t - rank_of s"]
  note mem = list.set(1) empty_iff bex_empty simp_thms
  from piece_type_cases [OF pt] show ?thesis
    unfolding own_reach_def delta
    by cases (simp_all only: PieceAttacks_types reach_table d ray(1,2) ray3 Test_Or step_defs Test_MakeStepBB [OF s(2)] mem)
qed

text \<open>What a piece attacks from the rotated square on the rotated board is the rotated set.\<close>

lemma OwnSq_flip [simp]: "s < 81 \<Longrightarrow> OwnSq (opp c) (80 - s) = OwnSq c s" "s < 81 \<Longrightarrow> FrameSq (opp c) (80 - s) = FrameSq c s"
  by (cases c; simp add: OwnSq_def FrameSq_def)+

lemma own_reach_cong:
  assumes "\<And>u. u < 81 \<Longrightarrow> occ u \<longleftrightarrow> occ' u"
  shows "own_reach tid occ s t \<longleftrightarrow> own_reach tid occ' s t"
proof -
  have "clear_between occ s d k \<longleftrightarrow> clear_between occ' s d k" for d k
    unfolding clear_between_def using assms by blast
  then show ?thesis unfolding own_reach_def by simp
qed

lemma PieceAttacks_flip:
  assumes s: "s < 81" "t < 81" and pt: "1 \<le> pt" "pt \<le> 14"
    and occ: "\<And>u. u < 81 \<Longrightarrow> bb_Test occ' (80 - u) \<longleftrightarrow> bb_Test occ u"
  shows "bb_Test (PieceAttacks pt (opp c) (80 - s) occ') (80 - t) \<longleftrightarrow> bb_Test (PieceAttacks pt c s occ) t"
proof -
  have r: "80 - s < 81" "80 - t < 81" by simp_all
  have "bb_Test occ' (OwnSq (opp c) u) \<longleftrightarrow> bb_Test occ (OwnSq c u)" if u: "u < 81" for u
    using occ [OF OwnSq_coords(1) [OF u, of c]] u by (cases c) (simp_all add: OwnSq_def FrameSq_def)
  then have "own_reach (TypeId pt) (\<lambda>u. bb_Test occ' (OwnSq (opp c) u)) (OwnSq c s) (OwnSq c t) \<longleftrightarrow>
      own_reach (TypeId pt) (\<lambda>u. bb_Test occ (OwnSq c u)) (OwnSq c s) (OwnSq c t)" by (rule own_reach_cong)
  then show ?thesis unfolding own_attack [OF r pt] own_attack [OF s pt] OwnSq_flip(1) [OF s(1)] OwnSq_flip(1) [OF s(2)] .
qed

subsection \<open>The flipped position\<close>

lemma rotated_squares:
  assumes "bb_ok v" "bb_ok w" "\<And>s. s < 81 \<Longrightarrow> bb_Test w (80 - s) \<longleftrightarrow> bb_Test v s"
  shows "mset (bb_squares w) = image_mset (\<lambda>s. 80 - s) (mset (bb_squares v))"
proof -
  have inj: "inj_on (\<lambda>s::nat. 80 - s) {s. s < 81 \<and> bb_Test v s}" by (auto simp: inj_on_def)
  have "{s. s < 81 \<and> bb_Test w s} = (\<lambda>s. 80 - s) ` {s. s < 81 \<and> bb_Test v s}"
  proof (intro set_eqI iffI)
    fix s assume "s \<in> {s. s < 81 \<and> bb_Test w s}"
    then show "s \<in> (\<lambda>s. 80 - s) ` {s. s < 81 \<and> bb_Test v s}"
      using assms(3) [of "80 - s"] by (intro image_eqI [of _ _ "80 - s"]) auto
  qed (use assms(3) in auto)
  then show ?thesis unfolding mset_squares [OF assms(1)] mset_squares [OF assms(2)] by (simp add: image_mset_mset_set [OF inj])
qed

lemma flip_piece_Make: "1 \<le> t \<Longrightarrow> t < 16 \<Longrightarrow> flip_piece (piece_Make c t) = piece_Make (opp c) t"
  using piece_Make_sel [of t c] by (simp add: flip_piece_def)

lemma flip_piece_eq_Make:
  assumes "piece_ok v" "1 \<le> t" "t < 16"
  shows "flip_piece v = piece_Make (opp c) t \<longleftrightarrow> v = piece_Make c t"
  using flip_piece_Make [OF assms(2,3), of c] flip_piece_Make [OF assms(2,3), of "opp c"] flip_piece_props(3) [OF assms(1)]
  by auto

lemma pieces_flip:
  assumes "board_ok b" "s < 81"
  shows "1 \<le> t \<Longrightarrow> t < 16 \<Longrightarrow> bb_Test (pieces_ct (Flipped b) (opp c) t) (80 - s) \<longleftrightarrow> bb_Test (pieces_ct b c t) s"
    and "bb_Test (occupied (Flipped b)) (80 - s) \<longleftrightarrow> bb_Test (occupied b) s"
  using assms board_okD(1) [OF assms]
  by (auto simp: Test_pieces_ct Test_occupied board_ok_Flipped board_arr_Flipped flip_piece_eq_Make)

lemma board_slots_flip:
  assumes b: "board_ok b" and t: "tid < 14"
  shows "mset (board_slots base (opp p) owner tid (pieces_ct (Flipped b) (opp c) (TypeFromId tid))) =
    mset (board_slots base p owner tid (pieces_ct b c (TypeFromId tid)))"
proof -
  have r: "1 \<le> TypeFromId tid" "TypeFromId tid < 16" using TypeFromId_range [OF t] by simp_all
  have ok: "bb_ok (pieces_ct b c (TypeFromId tid))" "bb_ok (pieces_ct (Flipped b) (opp c) (TypeFromId tid))"
    using r b board_ok_Flipped [OF b] by (auto intro!: bb_intros)
  have sq: "mset (bb_squares (pieces_ct (Flipped b) (opp c) (TypeFromId tid))) =
      image_mset (\<lambda>s. 80 - s) (mset (bb_squares (pieces_ct b c (TypeFromId tid))))"
    by (rule rotated_squares [OF ok]) (rule pieces_flip(1) [OF b _ r])
  show ?thesis unfolding board_slots_def mset_map sq
    by (simp add: image_mset.compositionality comp_def)
      (intro image_mset_cong, use set_bb_squares [OF ok(1)] in auto)
qed

lemma KingFrameSq_flip:
  assumes "board_ok b" "kings_ok b"
  shows "KingFrameSq (Flipped b) (opp p) = KingFrameSq b p"
proof -
  have k: "king_sq b p < 81" "80 - king_sq b p < 81" using assms(2) by (auto simp: kings_ok_def)
  then show ?thesis using kings_ok_Flipped(2) [OF assms, of "opp p"]
    by (simp add: KingFrameSq_def sq_IsValid_def Let_def)
qed

lemma owner_flip [simp]: "owner_of (opp p) (opp c) = owner_of p c"
  by (cases p; cases c; simp add: owner_of_def)

text \<open>Lists built for both colours: exchanging the colours only permutes them.\<close>

lemma mset_colors_flip:
  assumes "\<And>c. mset (f (opp c)) = mset (g c)"
  shows "mset (concat (map f colors)) = mset (concat (map g colors))"
  using assms [of BLACK] assms [of WHITE] by (simp add: colors_def)

lemma mset_concat_cong:
  assumes "\<And>x. x \<in> set xs \<Longrightarrow> mset (f x) = mset (g x)"
  shows "mset (concat (map f xs)) = mset (concat (map g xs))"
  using assms by (induction xs) simp_all

lemma mset_concat_rotated:
  assumes "mset ys = image_mset (\<lambda>s. 80 - s) (mset xs)" "\<And>x. x \<in> set xs \<Longrightarrow> mset (f (80 - x)) = mset (g x)"
  shows "mset (concat (map f ys)) = mset (concat (map g (xs :: nat list)))"
proof -
  have c: "mset (concat (map h zs)) = (\<Sum>x\<in>#mset zs. mset (h x))" for h :: "nat \<Rightarrow> 'b list" and zs
    by (induction zs) simp_all
  show ?thesis unfolding c assms(1)
    by (simp add: image_mset.compositionality comp_def) (intro arg_cong [of _ _ sum_mset] image_mset_cong, use assms(2) in simp)
qed

lemma GroupA_flip:
  assumes "board_ok b" "kings_ok b"
  shows "mset (GroupAFeatures (Flipped b) (opp p)) = mset (GroupAFeatures b p)"
proof -
  have "mset (concat (map (\<lambda>tid. board_slots base (opp p) o' tid (pieces_ct (Flipped b) (opp c) (TypeFromId tid))) [1..<kTypeIds])) =
      mset (concat (map (\<lambda>tid. board_slots base p o' tid (pieces_ct b c (TypeFromId tid))) [1..<kTypeIds]))" for base o' c
    by (rule mset_concat_cong, rule board_slots_flip [OF assms(1)]) (simp add: kTypeIds_def)
  then show ?thesis
    unfolding GroupAFeatures_def Let_def KingFrameSq_flip [OF assms]
    by (intro mset_colors_flip) (simp only: owner_flip mset_append Flipped_sel opp_opp)
qed

lemma threat_index_flip:
  assumes "board_ok b" "bb_Test (occupied b) t" "s < 81" "t < 81"
  shows "threat_index (Flipped b) (opp c) tid (80 - s) (80 - t) = threat_index b c tid s t"
proof -
  have "board_arr b t \<noteq> 0" using assms by (simp add: Test_occupied)
  then show ?thesis using assms
    by (simp add: threat_index_def Flipped_sel piece_on_def board_arr_Flipped)
qed

lemma GroupB_flip:
  assumes b: "board_ok b"
  shows "mset (GroupBFeatures (Flipped b)) = mset (GroupBFeatures b)"
proof -
  let ?f = "Flipped b"
  have fb: "board_ok ?f" by (rule board_ok_Flipped [OF b])
  have A: "mset (concat (map (\<lambda>tid. board_slots base (opp p) o' tid (pieces_ct ?f (opp c) (TypeFromId tid))) [1..<kTypeIds])) =
      mset (concat (map (\<lambda>tid. board_slots base p o' tid (pieces_ct b c (TypeFromId tid))) [1..<kTypeIds]))" for base o' c p
    by (rule mset_concat_cong, rule board_slots_flip [OF b]) (simp add: kTypeIds_def)
  have T: "mset (map (threat_index ?f (opp c) tid (80 - s)) (bb_squares (bb_And (PieceAttacks (TypeFromId tid) (opp c) (80 - s) (occupied ?f)) (occupied ?f)))) =
      mset (map (threat_index b c tid s) (bb_squares (bb_And (PieceAttacks (TypeFromId tid) c s (occupied b)) (occupied b))))"
    if s: "s < 81" and tid: "tid < 14" for c tid s
  proof -
    have r: "1 \<le> TypeFromId tid" "TypeFromId tid \<le> 14" using TypeFromId_range [OF tid] by simp_all
    let ?v = "bb_And (PieceAttacks (TypeFromId tid) c s (occupied b)) (occupied b)"
    let ?w = "bb_And (PieceAttacks (TypeFromId tid) (opp c) (80 - s) (occupied ?f)) (occupied ?f)"
    have ok: "bb_ok ?v" "bb_ok ?w" using b fb by (auto intro!: bb_intros bb_ok_And2)
    have "mset (bb_squares ?w) = image_mset (\<lambda>s. 80 - s) (mset (bb_squares ?v))"
    proof (rule rotated_squares [OF ok])
      fix t :: nat assume t: "t < 81"
      show "bb_Test ?w (80 - t) \<longleftrightarrow> bb_Test ?v t"
        using PieceAttacks_flip [OF s t r, of "occupied ?f" "occupied b" c] pieces_flip(2) [OF b] t by (simp add: Test_And)
    qed
    then show ?thesis
      unfolding mset_map
      by (simp add: image_mset.compositionality comp_def)
        (intro image_mset_cong threat_index_flip [OF b _ s], use set_bb_squares [OF ok(1)] in \<open>auto simp: Test_And\<close>)
  qed
  have B: "mset (concat (map (\<lambda>tid. concat (map (\<lambda>from. map (threat_index ?f (opp c) tid from)
        (bb_squares (bb_And (PieceAttacks (TypeFromId tid) (opp c) from (occupied ?f)) (occupied ?f))))
        (bb_squares (pieces_ct ?f (opp c) (TypeFromId tid))))) [0..<kTypeIds])) =
      mset (concat (map (\<lambda>tid. concat (map (\<lambda>from. map (threat_index b c tid from)
        (bb_squares (bb_And (PieceAttacks (TypeFromId tid) c from (occupied b)) (occupied b))))
        (bb_squares (pieces_ct b c (TypeFromId tid))))) [0..<kTypeIds]))" for c
  proof (rule mset_concat_cong)
    fix tid assume "tid \<in> set [0..<kTypeIds]"
    then have tid: "tid < 14" by (simp add: kTypeIds_def)
    then have r: "1 \<le> TypeFromId tid" "TypeFromId tid < 16" using TypeFromId_range [OF tid] by simp_all
    have ok: "bb_ok (pieces_ct b c (TypeFromId tid))" "bb_ok (pieces_ct ?f (opp c) (TypeFromId tid))"
      using r b fb by (auto intro!: bb_intros)
    show "mset (concat (map (\<lambda>from. map (threat_index ?f (opp c) tid from)
        (bb_squares (bb_And (PieceAttacks (TypeFromId tid) (opp c) from (occupied ?f)) (occupied ?f))))
        (bb_squares (pieces_ct ?f (opp c) (TypeFromId tid))))) =
      mset (concat (map (\<lambda>from. map (threat_index b c tid from)
        (bb_squares (bb_And (PieceAttacks (TypeFromId tid) c from (occupied b)) (occupied b))))
        (bb_squares (pieces_ct b c (TypeFromId tid)))))"
      by (rule mset_concat_rotated [OF rotated_squares [OF ok]], rule pieces_flip(1) [OF b _ r], assumption)
        (rule T [OF _ tid], use set_bb_squares [OF ok(1)] in auto)
  qed
  show ?thesis
    unfolding GroupBFeatures_def Let_def
    by (intro mset_colors_flip) (simp only: owner_flip mset_append Flipped_sel opp_opp A B)
qed

subsection \<open>The values\<close>

lemma accumulator_mset: "mset xs = mset ys \<Longrightarrow> accumulator bias w l1 xs = accumulator bias w l1 ys"
  unfolding accumulator_def fun_eq_iff by (metis row_sum_mset)

lemma spec_activations_flip:
  assumes "board_ok b" "kings_ok b"
  shows "spec_activations net (Flipped b) = spec_activations net b"
proof -
  have A: "accumulator (a_b net) (a_w net) l (GroupAFeatures (Flipped b) (opp p)) =
      accumulator (a_b net) (a_w net) l (GroupAFeatures b p)" for l p by (rule accumulator_mset [OF GroupA_flip [OF assms]])
  have A': "accumulator (a_b net) (a_w net) l (GroupAFeatures (Flipped b) p) =
      accumulator (a_b net) (a_w net) l (GroupAFeatures b (opp p))" for l p using A [of l "opp p"] by simp
  have B: "accumulator (b_b net) (b_w net) l (GroupBFeatures (Flipped b)) =
      accumulator (b_b net) (b_w net) l (GroupBFeatures b)" for l by (rule accumulator_mset [OF GroupB_flip [OF assms(1)]])
  show ?thesis unfolding fun_eq_iff spec_activations_def Let_def Flipped_sel A' B by simp
qed

lemma spec_value_flip:
  assumes "board_ok b" "kings_ok b"
  shows "spec_value expf net (Flipped b) = spec_value expf net b"
  unfolding spec_value_def spec_activations_flip [OF assms]
  by (rule value_out_cong) (simp_all add: GroupB_flip [OF assms(1)])

lemma cache_ok_evaluations:
  assumes "\<forall>x\<in>set bs. board_ok x" "cache_ok net vs"
  shows "cache_ok net (fold (\<lambda>x vs. snd (vs_Evaluate expf net vs x)) bs vs)"
  using assms by (induction bs arbitrary: vs) (simp_all add: vs_Evaluate_correct)

text \<open>C33: the accumulator caches are invisible: whatever consistent positions were evaluated since
  the scratch space was reset, the value of a position is the one computed from accumulators that
  are built from scratch.\<close>

theorem evaluation_history_free:
  assumes "\<forall>x\<in>set bs. board_ok x" "board_ok b"
  shows "fst (vs_Evaluate expf net (fold (\<lambda>x vs. snd (vs_Evaluate expf net vs x)) bs (vs_Reset vs)) b) = spec_value expf net b"
  by (rule vs_Evaluate_correct(1) [OF assms(2) cache_ok_evaluations [OF assms(1) cache_ok_Reset]])

theorem evaluation_history_free_witness:
  "\<forall>expf net vs. fst (vs_Evaluate expf net (fold (\<lambda>x vs. snd (vs_Evaluate expf net vs x))
     [sample_board, Flipped sample_board] (vs_Reset vs)) sample_board) = spec_value expf net sample_board"
proof -
  have "\<forall>x\<in>set [sample_board, Flipped sample_board]. board_ok x" using sample_board_ok board_ok_Flipped by simp
  then show ?thesis using evaluation_history_free sample_board_ok(1) by blast
qed

text \<open>C34: The value network sees a position from the side to move: with any two sound cache states
  (\<open>cache_ok\<close>, which holds after a reset and after every evaluation) it gives a position and its
  flipped form the same win, draw and loss values.\<close>

theorem evaluation_of_Flipped:
  assumes "board_ok b" "kings_ok b" "cache_ok net vs" "cache_ok net vs'"
  shows "fst (vs_Evaluate expf net vs (Flipped b)) = fst (vs_Evaluate expf net vs' b)"
  unfolding vs_Evaluate_correct(1) [OF board_ok_Flipped [OF assms(1)] assms(3)] vs_Evaluate_correct(1) [OF assms(1,4)]
  by (rule spec_value_flip [OF assms(1,2)])

theorem evaluation_of_Flipped_witness:
  "\<forall>expf net vs. fst (vs_Evaluate expf net (vs_Reset vs) (Flipped sample_board)) =
     fst (vs_Evaluate expf net (vs_Reset vs) sample_board)"
  using evaluation_of_Flipped [OF sample_board_ok(1,2) cache_ok_Reset cache_ok_Reset] by blast

end
