(* ===== verification/MateInOne.thy ===== *)
theory MateInOne
  imports CheckGen
begin

text \<open>
  The one-ply mate search of shogi/board.cc.  \<open>FindMateInOneNonCheck\<close> probes drops and board moves
  without making them: the source piece and a captured piece are taken out of the colour and type
  bitboards (two scope guards whose destructors put them back, so that the probe is a function of
  the changed position), the piece array and the moved piece itself are left alone, and king moves,
  captures of the checking piece and interpositions are looked for on the occupancy after the move.
\<close>

subsection \<open>Taking pieces out of the bitboards\<close>

definition removed_bits :: "shogi_board \<Rightarrow> color \<Rightarrow> piece_type \<Rightarrow> square \<Rightarrow> shogi_board" where
  "removed_bits b c t s =
     b\<lparr>by_color := (by_color b)(c := bb_Clear (by_color b c) s), by_type := (by_type b)(t := bb_Clear (by_type b t) s)\<rparr>"

definition capture_removed :: "shogi_board \<Rightarrow> square \<Rightarrow> shogi_board" where
  "capture_removed b s =
     (let pc = piece_on b s in
      if piece_IsNone pc then b else removed_bits b (piece_GetColor pc) (piece_GetType pc) s)"

subsection \<open>The answers to a check\<close>

definition CanKingEscapeAfterMateProbe ::
    "shogi_board \<Rightarrow> color \<Rightarrow> square \<Rightarrow> bitboard \<Rightarrow> bitboard \<Rightarrow> bool" where
  "CanKingEscapeAfterMateProbe b attacker checker occupied_after moved_checker_attacks =
     (let defender = opp attacker; ksq = king_sq b defender;
          targets = bb_And (KingEffectBB ksq) (bb_Not (by_color b defender));
          targets = (if bb_Test (KingEffectBB ksq) checker then bb_Set targets checker else targets);
          occ = bb_Clear occupied_after ksq
      in list_ex (\<lambda>to.
           if to = checker then \<not> IsSquareAttacked b to (bb_Clear occ checker) attacker
           else if bb_Test moved_checker_attacks to then False
           else \<not> IsSquareAttacked b to occ attacker) (bb_squares targets))"

definition CanDefenderCaptureMateChecker :: "shogi_board \<Rightarrow> color \<Rightarrow> square \<Rightarrow> bitboard \<Rightarrow> bool" where
  "CanDefenderCaptureMateChecker b defender checker occupied_after =
     (let ksq = king_sq b defender;
          candidates = bb_Clear (AttackersTo_c b checker occupied_after defender) ksq in
      if bb_Empty candidates then False
      else
        let pinned = bb_And (ComputeBlockersForKing b defender) (by_color b defender)
        in list_ex (\<lambda>from. \<not> bb_Test pinned from \<or> bb_Test (LineBB from ksq) checker) (bb_squares candidates))"

text \<open>The squares on which the defender may drop a piece of a type it holds.\<close>

definition interpose_targets :: "shogi_board \<Rightarrow> color \<Rightarrow> piece_type \<Rightarrow> bitboard \<Rightarrow> bitboard" where
  "interpose_targets b defender pt empty_between =
     (let targets = drop_ranks pt defender empty_between
      in if pt = kPawn then nifu_files (pieces_ct b defender kPawn) targets else targets)"

definition piece_interposes ::
    "shogi_board \<Rightarrow> color \<Rightarrow> bitboard \<Rightarrow> bitboard \<Rightarrow> bitboard \<Rightarrow> piece_type \<Rightarrow> square \<Rightarrow> bool" where
  "piece_interposes b defender pinned between occupied_after pt from =
     (let targets = bb_And (PieceAttacks pt defender from occupied_after) between in
      if bb_Empty targets then False
      else if \<not> bb_Test pinned from then True
      else bb_Any (bb_And targets (LineBB from (king_sq b defender))))"

definition CanDefenderInterposeMateCheck :: "shogi_board \<Rightarrow> color \<Rightarrow> bitboard \<Rightarrow> bitboard \<Rightarrow> bool" where
  "CanDefenderInterposeMateCheck b defender between occupied_after =
     (if bb_Empty between then False
      else
        let defenders = by_color b defender; ksq = king_sq b defender;
            pinned = bb_And (ComputeBlockersForKing b defender) defenders
        in if list_ex (\<lambda>from. piece_interposes b defender pinned between occupied_after (piece_GetType (piece_on b from)) from)
                (bb_squares (bb_Clear defenders ksq)) then True
           else
             let empty_between = bb_And between (bb_Not occupied_after) in
             if bb_Empty empty_between then False
             else list_ex (\<lambda>pt. hand_Has (hands b defender) pt \<and> bb_Any (interpose_targets b defender pt empty_between))
                    [1..<8])"

subsection \<open>The probe\<close>

text \<open>The body of \<open>IsMateAfterMateProbe\<close> below the guard that takes out the captured piece.\<close>

definition mate_probe :: "shogi_board \<Rightarrow> color \<Rightarrow> piece_type \<Rightarrow> square \<Rightarrow> bool" where
  "mate_probe b us moved_type checker =
     (let them = opp us; ksq = king_sq b them;
          occupied_after = bb_Set (occupied b) checker;
          occupied_without_king = bb_Clear occupied_after ksq;
          moved_checker_attacks = PieceAttacks moved_type us checker occupied_without_king;
          direct_check = bb_Test moved_checker_attacks ksq;
          discovered = AttackersTo_c b ksq occupied_after us
      in if \<not> direct_check \<and> bb_Empty discovered then False
         else if CanKingEscapeAfterMateProbe b us checker occupied_after moved_checker_attacks then False
         else if bb_PopCount discovered + (if direct_check then 1 else 0) > 1 then True
         else
           let sole = (if direct_check then checker else bb_Peek discovered) in
           if CanDefenderCaptureMateChecker b them sole occupied_after then False
           else if CanDefenderInterposeMateCheck b them (BetweenBB ksq sole) occupied_after then False
           else True)"

definition IsMateAfterMateProbe :: "shogi_board \<Rightarrow> color \<Rightarrow> piece_type \<Rightarrow> square \<Rightarrow> bool" where
  "IsMateAfterMateProbe b us moved_type checker = mate_probe (capture_removed b checker) us moved_type checker"

subsection \<open>The search\<close>

text \<open>The loops that return the first move found; the null move is zero.\<close>

primrec first_move :: "('a \<Rightarrow> move) \<Rightarrow> 'a list \<Rightarrow> move" where
  "first_move f [] = 0"
| "first_move f (x # xs) = (let m = f x in if \<not> move_is_null m then m else first_move f xs)"

definition try_drops :: "shogi_board \<Rightarrow> color \<Rightarrow> piece_type \<times> bitboard \<Rightarrow> move" where
  "try_drops b us = (\<lambda>(pt, check_zone).
     if \<not> hand_Has (hands b us) pt then 0
     else first_move (\<lambda>to. if IsMateAfterMateProbe b us pt to then move_Drop pt to else 0)
            (bb_squares (bb_And check_zone (bb_Not (occupied b)))))"

definition drop_order :: "color \<Rightarrow> square \<Rightarrow> (piece_type \<times> bitboard) list" where
  "drop_order us king_idx =
     [(kRook, RookEffectBB king_idx), (kLance, LanceCheckBB king_idx us), (kBishop, BishopCheckBB king_idx),
      (kGold, GoldCheckBB king_idx us), (kSilver, SilverCheckBB king_idx us), (kKnight, KnightCheckBB king_idx us)]"

definition kPieceOrder :: "piece_type list" where
  "kPieceOrder = [kDragon, kRook, kHorse, kBishop, kGold, kProPawn, kProLance, kProKnight, kProSilver,
     kSilver, kKnight, kLance, kPawn, kKing]"

text \<open>The two variants of a move to one square, on the position without the source piece.\<close>

definition try_variant :: "shogi_board \<Rightarrow> color \<Rightarrow> bool \<Rightarrow> square \<Rightarrow> piece_type \<Rightarrow> move \<Rightarrow> move" where
  "try_variant b us discovered_check to moved_type m =
     (let ksq = king_sq b (opp us);
          occupied_without_king = bb_Clear (bb_Set (occupied b) to) ksq;
          direct_check = bb_Test (PieceAttacks moved_type us to occupied_without_king) ksq
      in if \<not> direct_check \<and> \<not> discovered_check then 0
         else if IsMateAfterMateProbe b us moved_type to then m else 0)"

definition try_target :: "shogi_board \<Rightarrow> color \<Rightarrow> bool \<Rightarrow> bitboard \<Rightarrow> piece_type \<Rightarrow> square \<Rightarrow> square \<Rightarrow> move" where
  "try_target b us source_discovers check_line pt from to =
     (let discovered_check = source_discovers \<and> \<not> bb_Test check_line to;
          mate = (if CanPromote pt us from to
                  then try_variant b us discovered_check to (pt_Promote pt) (move_Promotion from to) else 0)
      in if \<not> move_is_null mate then mate
         else if \<not> MustPromote pt us to then try_variant b us discovered_check to pt (move_Normal from to)
         else 0)"

definition source_targets :: "shogi_board \<Rightarrow> color \<Rightarrow> bitboard \<Rightarrow> piece_type \<Rightarrow> square \<Rightarrow> bitboard" where
  "source_targets b us pinned pt from =
     (let targets = bb_And (PieceAttacks pt us from (occupied b)) (bb_Not (by_color b us));
          targets = (if bb_Test pinned from then bb_And targets (LineBB from (king_sq b us)) else targets)
      in if pt = kKing then
           fold (\<lambda>to legal. if IsLegal b (move_Normal from to) pinned then bb_Set legal to else legal)
             (bb_squares targets) bb_Zero
         else targets)"

definition try_source :: "shogi_board \<Rightarrow> color \<Rightarrow> bitboard \<Rightarrow> bitboard \<Rightarrow> piece_type \<Rightarrow> square \<Rightarrow> move" where
  "try_source b us discovered pinned pt from =
     (let king_idx = king_sq b (opp us); targets = source_targets b us pinned pt from
      in first_move (try_target (removed_bits b us pt from) us (bb_Test discovered from) (LineBB from king_idx) pt from)
           (bb_squares targets))"

definition FindMateInOneNonCheckImpl :: "shogi_board \<Rightarrow> color \<Rightarrow> move" where
  "FindMateInOneNonCheckImpl b us =
     (let mate = first_move (try_drops b us) (drop_order us (king_sq b (opp us))) in
      if \<not> move_is_null mate then mate
      else
        let our_pieces = by_color b us;
            discovered = bb_And (ComputeBlockersForKing b (opp us)) our_pieces;
            pinned = bb_And (ComputeBlockersForKing b us) our_pieces;
            candidates = bb_Or (direct_candidates b) discovered
        in first_move (\<lambda>pt. first_move (try_source b us discovered pinned pt)
             (bb_squares (bb_And (pieces_ct b us pt) candidates))) kPieceOrder)"

definition FindMateInOneNonCheck :: "shogi_board \<Rightarrow> move" where
  "FindMateInOneNonCheck b =
     (if \<not> sq_IsValid (king_sq b BLACK) \<or> \<not> sq_IsValid (king_sq b WHITE) then 0
      else FindMateInOneNonCheckImpl b (side_to_move b))"

definition FindMateInOne :: "shogi_board \<Rightarrow> move" where
  "FindMateInOne b =
     (if \<not> sq_IsValid (king_sq b BLACK) \<or> \<not> sq_IsValid (king_sq b WHITE) then 0
      else if \<not> InCheck b (side_to_move b) then FindMateInOneNonCheck b
      else first_move (\<lambda>m. if \<not> HasLegalEvasion (snd (DoMove_gc b m True)) then m else 0) (GenerateCheckingMoves b))"

subsection \<open>What the probe reads\<close>

lemma probe_reads:
  "IsSquareAttacked (b\<lparr>board_arr := f\<rparr>) = IsSquareAttacked b" "AttackersTo_c (b\<lparr>board_arr := f\<rparr>) = AttackersTo_c b"
  "ComputeBlockersForKing (b\<lparr>board_arr := f\<rparr>) = ComputeBlockersForKing b" "occupied (b\<lparr>board_arr := f\<rparr>) = occupied b"
  "pieces_ct (b\<lparr>board_arr := f\<rparr>) = pieces_ct b"
  by (simp_all add: fun_eq_iff IsSquareAttacked_def AttackersTo_c_def ComputeBlockersForKing_def pin_pieces_def occupied_def pieces_def
      pieces_ct_def golds_of_def rook_like_def bishop_like_def)

lemma list_ex_cong: "(\<And>x. x \<in> set xs \<Longrightarrow> P x = Q x) \<Longrightarrow> list_ex P xs = list_ex Q xs"
  by (induction xs) auto

lemma mate_probe_array:
  assumes "bb_ok (by_color b (opp us))" "king_sq b (opp us) < 81"
    and "\<And>s. s < 81 \<Longrightarrow> bb_Test (by_color b (opp us)) s \<Longrightarrow> f s = board_arr b s"
  shows "mate_probe (b\<lparr>board_arr := f\<rparr>) us mt chk = mate_probe b us mt chk"
proof -
  have "s \<in> set (bb_squares (bb_Clear (by_color b (opp us)) (king_sq b (opp us)))) \<Longrightarrow> f s = board_arr b s" for s
    using set_bb_squares [OF bb_ok_Clear [OF assms(1)]] assms(2,3) by (auto simp: Test_Clear)
  then have ex: "list_ex (\<lambda>s. P (f s) s) (bb_squares (bb_Clear (by_color b (opp us)) (king_sq b (opp us)))) =
      list_ex (\<lambda>s. P (board_arr b s) s) (bb_squares (bb_Clear (by_color b (opp us)) (king_sq b (opp us))))" for P
    by (intro list_ex_cong) simp
  have pi: "piece_interposes (b\<lparr>board_arr := f\<rparr>) = piece_interposes b" by (simp add: fun_eq_iff piece_interposes_def)
  have it: "interpose_targets (b\<lparr>board_arr := f\<rparr>) = interpose_targets b"
    by (intro ext) (simp add: interpose_targets_def Let_def probe_reads(5))
  let ?pinned = "bb_And (ComputeBlockersForKing b (opp us)) (by_color b (opp us))"
  have "CanDefenderInterposeMateCheck (b\<lparr>board_arr := f\<rparr>) (opp us) between occ =
      CanDefenderInterposeMateCheck b (opp us) between occ" for between occ
    using ex [of "\<lambda>v. piece_interposes b (opp us) ?pinned between occ (piece_GetType v)"]
    unfolding CanDefenderInterposeMateCheck_def Let_def probe_reads pi it piece_on_def by simp
  moreover have "CanKingEscapeAfterMateProbe (b\<lparr>board_arr := f\<rparr>) = CanKingEscapeAfterMateProbe b"
    unfolding fun_eq_iff CanKingEscapeAfterMateProbe_def probe_reads by simp
  moreover have "CanDefenderCaptureMateChecker (b\<lparr>board_arr := f\<rparr>) = CanDefenderCaptureMateChecker b"
    unfolding fun_eq_iff CanDefenderCaptureMateChecker_def probe_reads by simp
  ultimately show ?thesis unfolding mate_probe_def probe_reads by simp
qed

lemma first_move_found:
  "first_move f xs \<noteq> 0 \<Longrightarrow> \<exists>x\<in>set xs. first_move f xs = f x \<and> f x \<noteq> 0"
  by (induction xs) (auto simp: Let_def move_is_null_def)

subsection \<open>Probed positions\<close>

text \<open>\<open>g\<close> is the position the probe works on, the piece array brought in line with the bitboards;
  \<open>b'\<close> is the position after the move, in which the moved piece stands on \<open>to\<close>.\<close>

definition probe_of :: "shogi_board \<Rightarrow> color \<Rightarrow> piece_type \<Rightarrow> square \<Rightarrow> shogi_board \<Rightarrow> bool" where
  "probe_of g us mt to b' \<longleftrightarrow>
     board_ok g \<and> king_sq g (opp us) < 81 \<and> board_arr g (king_sq g (opp us)) = piece_Make (opp us) kKing \<and>
     to < 81 \<and> board_arr g to = 0 \<and> 1 \<le> mt \<and> mt \<le> 14 \<and>
     board_ok b' \<and> kings_ok b' \<and> side_to_move b' = opp us \<and>
     board_arr b' = (board_arr g)(to := piece_Make us mt) \<and> hands b' (opp us) = hands g (opp us)"

lemma probe_ofD:
  assumes "probe_of g us mt to b'"
  shows "board_ok g" "king_sq g (opp us) < 81" "to < 81" "board_arr g to = 0" "1 \<le> mt" "mt \<le> 14" "board_ok b'" "kings_ok b'"
    "side_to_move b' = opp us" "board_arr b' = (board_arr g)(to := piece_Make us mt)" "hands b' (opp us) = hands g (opp us)"
    "mover_king b' = king_sq g (opp us)" "to \<noteq> king_sq g (opp us)"
    "piece_Make us mt \<noteq> 0" "piece_GetColor (piece_Make us mt) = us" "piece_ok (piece_Make us mt)"
proof -
  note d = assms [unfolded probe_of_def]
  show "board_ok g" "king_sq g (opp us) < 81" "to < 81" "board_arr g to = 0" "1 \<le> mt" "mt \<le> 14" "board_ok b'" "kings_ok b'"
    "side_to_move b' = opp us" "board_arr b' = (board_arr g)(to := piece_Make us mt)" "hands b' (opp us) = hands g (opp us)"
    using d by blast+
  show tk: "to \<noteq> king_sq g (opp us)" using d by (auto simp: kKing_def)
  then have "board_arr b' (king_sq g (opp us)) = piece_Make (opp us) kKing" using d by simp
  then show "mover_king b' = king_sq g (opp us)" using d board_okD(6) [of b'] by simp
  show "piece_Make us mt \<noteq> 0" "piece_GetColor (piece_Make us mt) = us" "piece_ok (piece_Make us mt)" using d by simp_all
qed

lemma probe_att:
  assumes "probe_of g us mt to b'"
  shows "att (board_arr g) P us t s \<longleftrightarrow> t \<noteq> to \<and> att (board_arr b') P us t s"
    "att (board_arr g) P (opp us) t s \<longleftrightarrow> att (board_arr b') P (opp us) t s"
    "att (board_arr b') P us to s \<longleftrightarrow> reaches (piece_Make us mt) P to s"
  using probe_ofD(4,10,14,15) [OF assms] by (auto simp: att_def)

lemma probe_occ:
  assumes "probe_of g us mt to b'" "u < 81"
  shows "bb_Test (bb_Set (occupied g) to) u \<longleftrightarrow> board_arr b' u \<noteq> 0"
  using probe_ofD(1,3,4,10,14) [OF assms(1)] assms(2) by (auto simp: bb_simps Test_occupied)

lemma probe_attacked:
  assumes P: "probe_of g us mt to b'" and s: "s < 81" and w: "\<And>u. u < 81 \<Longrightarrow> bb_Test w u \<longleftrightarrow> Q u"
  shows "IsSquareAttacked g s w us \<longleftrightarrow> (\<exists>t<81. t \<noteq> to \<and> att (board_arr b') Q us t s)"
proof -
  have "IsSquareAttacked g s w us \<longleftrightarrow> (\<exists>t<81. att (board_arr g) Q us t s)"
    by (rule IsSquareAttacked_att [OF probe_ofD(1) [OF P] s]) (rule w)
  then show ?thesis unfolding probe_att(1) [OF P] .
qed

lemma probe_moved:
  assumes P: "probe_of g us mt to b'" and s: "s < 81" and w: "\<And>u. u < 81 \<Longrightarrow> bb_Test w u \<longleftrightarrow> Q u"
  shows "bb_Test (PieceAttacks mt us to w) s \<longleftrightarrow> att (board_arr b') Q us to s"
proof -
  have "bb_Test (PieceAttacks mt us to w) s \<longleftrightarrow> reaches (piece_Make us mt) (bb_Test w) to s"
    using reaches_PieceAttacks [OF probe_ofD(16,14) [OF P] s probe_ofD(3) [OF P], of w] probe_ofD(6,15) [OF P] by simp
  also have "\<dots> \<longleftrightarrow> reaches (piece_Make us mt) Q to s" by (rule reaches_cong) (rule w)
  finally show ?thesis unfolding probe_att(3) [OF P] .
qed

text \<open>The occupancy of the attacked square does not matter.\<close>

lemma reaches_target_cong:
  assumes "\<And>u. u < 81 \<Longrightarrow> u \<noteq> s \<Longrightarrow> occ u \<longleftrightarrow> occ' u" "s < 81" "t < 81"
  shows "reaches v occ t s \<longleftrightarrow> reaches v occ' t s"
proof -
  have nb: "\<not> betw s t s"
  proof
    assume "betw s t s"
    then obtain d n j where "unit_dir d" "1 \<le> j" "steps_to s d j s" by (auto simp: betw_def between_sq_def)
    moreover have "steps_to s d 0 s" by (simp add: steps_to_def)
    ultimately show False using steps_to_inj [of d s 0 s j] by simp
  qed
  show ?thesis by (intro iffI; erule reaches_mono [OF _ assms(2,3)]) (use nb assms(1) in auto)
qed

lemma att_target_cong:
  assumes "\<And>u. u < 81 \<Longrightarrow> u \<noteq> s \<Longrightarrow> occ u \<longleftrightarrow> occ' u" "s < 81" "t < 81"
  shows "att f occ c t s \<longleftrightarrow> att f occ' c t s"
proof -
  have "reaches (f t) occ t s \<longleftrightarrow> reaches (f t) occ' t s"
    by (rule reaches_target_cong [OF _ assms(2,3)]) (rule assms(1))
  then show ?thesis unfolding att_def by blast
qed

subsection \<open>King moves\<close>

lemma no_escape_sound:
  assumes P: "probe_of g us mt to b'"
    and no: "\<not> CanKingEscapeAfterMateProbe g us to (bb_Set (occupied g) to)
      (PieceAttacks mt us to (bb_Clear (bb_Set (occupied g) to) (king_sq g (opp us))))"
    and pm: "piece_move b' (mover_king b') sq"
  shows "InCheck (after_move b' (move_Normal (mover_king b') sq)) (opp us)"
proof -
  let ?k = "king_sq g (opp us)" let ?f = "board_arr b'" let ?Q = "\<lambda>u. ?f u \<noteq> 0 \<and> u \<noteq> ?k"
  let ?occ = "bb_Clear (bb_Set (occupied g) to) ?k"
  note d = probe_ofD [OF P]
  have k: "mover_king b' = ?k" by (rule d(12))
  have k': "king_sq b' (opp us) = ?k" using k by (simp add: d(9))
  have sq: "sq < 81" using pm by (simp add: piece_move_def)
  have occ: "bb_Test ?occ u \<longleftrightarrow> ?Q u" if "u < 81" for u
    using probe_occ [OF P that] that d(2) by (auto simp: Test_Clear)
  have ke: "bb_Test (KingEffectBB ?k) sq" "\<not> bb_Test (by_color b' (opp us)) sq"
    using king_step_iff [OF d(7,8) sq] pm sq unfolding own_def d(9) k' by (simp_all add: Test_And Test_Not)
  have col: "\<not> bb_Test (by_color g (opp us)) sq"
    using ke(2) board_okD(4) [OF d(7) sq, of "opp us"] board_okD(4) [OF d(1) sq, of "opp us"] d(4) by (auto simp: d(10) split: if_splits)
  let ?T = "bb_And (KingEffectBB ?k) (bb_Not (by_color g (opp us)))"
  let ?T' = "if bb_Test (KingEffectBB ?k) to then bb_Set ?T to else ?T"
  have tok: "bb_ok ?T'"
    using bb_ok_PieceAttacks [OF d(2), of kKing] d(3) by (auto simp: PieceAttacks_def piece_type_defs intro!: bb_ok_And1 bb_ok_Set)
  have "sq \<in> set (bb_squares ?T')"
    unfolding set_bb_squares [OF tok] using ke(1) col sq d(3) by (auto simp: bb_simps)
  then have n: "\<not> (if sq = to then \<not> IsSquareAttacked g sq (bb_Clear ?occ to) us
      else if bb_Test (PieceAttacks mt us to ?occ) sq then False else \<not> IsSquareAttacked g sq ?occ us)"
    using no unfolding CanKingEscapeAfterMateProbe_def Let_def list_ex_iff by blast
  have "\<exists>t<81. att ?f ?Q us t sq"
  proof (cases "sq = to")
    case True
    have w: "bb_Test (bb_Clear ?occ to) u \<longleftrightarrow> ?Q u \<and> u \<noteq> to" if "u < 81" for u
      using occ [OF that] that d(3) by (auto simp: Test_Clear)
    have "IsSquareAttacked g to (bb_Clear ?occ to) us" using n True by simp
    then obtain t where t: "t < 81" "att ?f (\<lambda>u. ?Q u \<and> u \<noteq> to) us t to" using probe_attacked [where w = "bb_Clear ?occ to" and Q = "\<lambda>u. ?Q u \<and> u \<noteq> to", OF P d(3)] w by blast
    have "att ?f ?Q us t to \<longleftrightarrow> att ?f (\<lambda>u. ?Q u \<and> u \<noteq> to) us t to"
      by (rule att_target_cong) (use t(1) d(3) in simp_all)
    then have "att ?f ?Q us t to" using t(2) by blast
    then show ?thesis using t(1) True by blast
  next
    case False
    have a: "IsSquareAttacked g sq ?occ us \<longleftrightarrow> (\<exists>t<81. t \<noteq> to \<and> att ?f ?Q us t sq)"
      by (rule probe_attacked [OF P sq]) (rule occ)
    have m: "bb_Test (PieceAttacks mt us to ?occ) sq \<longleftrightarrow> att ?f ?Q us to sq"
      by (rule probe_moved [OF P sq]) (rule occ)
    show ?thesis using n False a m d(3) by (auto split: if_splits)
  qed
  then show ?thesis
    using safe_after_king_move [OF d(7,8) pm] unfolding d(9) k' opp_opp by blast
qed

subsection \<open>Checking pieces and pins\<close>

lemma probe_attackers:
  assumes P: "probe_of g us mt to b'" and s: "s < 81" "t < 81"
  shows "bb_Test (AttackersTo_c g s (bb_Set (occupied g) to) us) t \<longleftrightarrow> t \<noteq> to \<and> att (board_arr b') (occf (board_arr b')) us t s"
    "bb_Test (AttackersTo_c g s (bb_Set (occupied g) to) (opp us)) t \<longleftrightarrow> att (board_arr b') (occf (board_arr b')) (opp us) t s"
proof -
  note ok = probe_ofD(1) [OF P]
  have a: "att (board_arr g) (bb_Test (bb_Set (occupied g) to)) c t s \<longleftrightarrow> att (board_arr g) (occf (board_arr b')) c t s" for c
    by (rule att_cong [OF refl]) (rule probe_occ [OF P])
  show "bb_Test (AttackersTo_c g s (bb_Set (occupied g) to) us) t \<longleftrightarrow> t \<noteq> to \<and> att (board_arr b') (occf (board_arr b')) us t s"
    "bb_Test (AttackersTo_c g s (bb_Set (occupied g) to) (opp us)) t \<longleftrightarrow> att (board_arr b') (occf (board_arr b')) (opp us) t s"
    unfolding Test_AttackersTo_c [OF ok s] attacks_att [OF ok s] a
    unfolding probe_att(1,2) [OF P] by (rule refl)+
qed

lemma probe_direct:
  assumes P: "probe_of g us mt to b'"
  shows "bb_Test (PieceAttacks mt us to (bb_Clear (bb_Set (occupied g) to) (king_sq g (opp us)))) (king_sq g (opp us)) \<longleftrightarrow>
    att (board_arr b') (occf (board_arr b')) us to (king_sq g (opp us))"
proof -
  let ?k = "king_sq g (opp us)" let ?f = "board_arr b'"
  note d = probe_ofD [OF P]
  have "bb_Test (PieceAttacks mt us to (bb_Clear (bb_Set (occupied g) to) ?k)) ?k \<longleftrightarrow>
      att ?f (\<lambda>u. ?f u \<noteq> 0 \<and> u \<noteq> ?k) us to ?k"
    by (rule probe_moved [OF P d(2)]) (use probe_occ [OF P] d(2) in \<open>auto simp: Test_Clear\<close>)
  also have "\<dots> \<longleftrightarrow> att ?f (occf ?f) us to ?k" by (rule att_target_cong) (use d(2,3) in simp_all)
  finally show ?thesis .
qed

text \<open>The moved piece stands between the king and a piece that would pin \<open>frm\<close>.\<close>

definition screens :: "shogi_board \<Rightarrow> color \<Rightarrow> square \<Rightarrow> bool" where
  "screens g us to \<longleftrightarrow> (\<exists>frm t d n. pins (board_arr g) (opp us) (king_sq g (opp us)) frm t d n \<and> between_sq (king_sq g (opp us)) d n to)"

lemma pins_after:
  assumes P: "probe_of g us mt to b'" and p: "pins (board_arr g) c k frm t d n" and nb: "\<not> between_sq k d n to"
  shows "pins (board_arr b') c k frm t d n"
proof -
  note d = probe_ofD [OF P]
  have nt: "t \<noteq> to" "frm \<noteq> to" using p d(4) unfolding pins_def by blast+
  note q = p [unfolded pins_def]
  have e: "board_arr b' w = board_arr g w" if "w \<noteq> to" for w using that by (simp add: d(10))
  have "w = frm" if w: "w < 81" "between_sq k d n w" "board_arr b' w \<noteq> 0" for w
  proof -
    have "w \<noteq> to" using w(2) nb by blast
    then show ?thesis using q w e by metis
  qed
  then show ?thesis unfolding pins_def e [OF nt(1)] e [OF nt(2)] using q by blast
qed

lemma Test_probe_pinned:
  assumes P: "probe_of g us mt to b'" and u: "u < 81" "piece_GetColor (board_arr g u) = opp us"
  shows "bb_Test (bb_And (ComputeBlockersForKing g (opp us)) (by_color g (opp us))) u \<longleftrightarrow>
    (\<exists>t d n. pins (board_arr g) (opp us) (king_sq g (opp us)) u t d n)"
proof -
  note d = probe_ofD [OF P]
  have "pins (board_arr g) c k u t e n \<Longrightarrow> board_arr g u \<noteq> 0" for c k t e n by (simp add: pins_def)
  then show ?thesis
    using Test_ComputeBlockers [OF d(1) refl d(2) u(1)] board_okD(4) [OF d(1) u(1), of "opp us"] u(2) by (auto simp: Test_And)
qed

text \<open>A piece the probe takes for pinned is pinned after the move, unless the moved piece screens it;
  then a direct check still keeps it on its line.\<close>

lemma probe_pin:
  assumes P: "probe_of g us mt to b'" and p: "pins (board_arr g) (opp us) (king_sq g (opp us)) frm t d n"
    and q: "q = to \<or> \<not> screens g us to" and sq: "sq = q \<or> betw (king_sq g (opp us)) q sq"
    and off: "\<not> on_line frm (king_sq g (opp us)) sq"
  shows "pins (board_arr b') (opp us) (king_sq g (opp us)) frm t d n"
proof (rule pins_after [OF P p], rule notI)
  let ?k = "king_sq g (opp us)"
  assume b: "between_sq ?k d n to"
  note u = pins_dir [OF p] and k = probe_ofD(2) [OF P]
  have qt: "q = to" using q p b unfolding screens_def by blast
  obtain j where j: "1 \<le> j" "j < n" "steps_to ?k d j to" using b by (auto simp: between_sq_def)
  have "between_sq ?k d n sq"
    using sq qt b betw_on_ray [OF u j(1,3), of sq] j(2) by (auto simp: between_sq_def)
  then have "on_line frm ?k sq" using between_on_line [OF p k u] by blast
  with off show False ..
qed

subsection \<open>Captures, interpositions and drops\<close>

lemma no_capture_sound:
  assumes P: "probe_of g us mt to b'" and q: "q < 81" "q = to \<or> \<not> screens g us to"
    and no: "\<not> CanDefenderCaptureMateChecker g (opp us) q (bb_Set (occupied g) to)"
    and pm: "piece_move b' frm q" and nk: "frm \<noteq> king_sq g (opp us)"
  shows "(\<exists>t d n. pins (board_arr b') (opp us) (king_sq g (opp us)) frm t d n) \<and> \<not> on_line frm (king_sq g (opp us)) q"
proof -
  let ?k = "king_sq g (opp us)"
  note d = probe_ofD [OF P]
  have f: "frm < 81" "att (board_arr b') (occf (board_arr b')) (opp us) frm q" using pm by (simp_all add: piece_move_def d(9))
  have gf: "board_arr g frm = board_arr b' frm" "piece_GetColor (board_arr g frm) = opp us"
    using f(2) d(10,15) by (auto simp: att_def split: if_splits)
  let ?A = "bb_Clear (AttackersTo_c g q (bb_Set (occupied g) to) (opp us)) ?k"
  have ok: "bb_ok ?A" by (intro bb_ok_Clear bb_ok_AttackersTo_c d(1) q(1))
  have t: "bb_Test ?A frm" using probe_attackers(2) [OF P q(1) f(1)] f nk d(2) by (simp add: Test_Clear)
  then have "frm \<in> set (bb_squares ?A)" "\<not> bb_Empty ?A"
    using f(1) set_bb_squares [OF ok] bb_Any_iff_Test [OF ok] by (auto simp: bb_Empty_def)
  then have "bb_Test (bb_And (ComputeBlockersForKing g (opp us)) (by_color g (opp us))) frm" "\<not> bb_Test (LineBB frm ?k) q"
    using no unfolding CanDefenderCaptureMateChecker_def Let_def list_ex_iff by auto
  then obtain t e n where p: "pins (board_arr g) (opp us) ?k frm t e n" and off: "\<not> on_line frm ?k q"
    using Test_probe_pinned [OF P f(1) gf(2)] Test_LineBB [OF f(1) d(2) q(1)] by blast
  have "pins (board_arr b') (opp us) ?k frm t e n" by (rule probe_pin [OF P p q(2) _ off]) simp
  then show ?thesis using off by blast
qed

lemma no_interpose_sound:
  assumes P: "probe_of g us mt to b'" and q: "q < 81" "q = to \<or> \<not> screens g us to"
    and no: "\<not> CanDefenderInterposeMateCheck g (opp us) (BetweenBB (king_sq g (opp us)) q) (bb_Set (occupied g) to)"
    and pm: "piece_move b' frm sq" and nk: "frm \<noteq> king_sq g (opp us)" and b: "betw (king_sq g (opp us)) q sq"
  shows "(\<exists>t d n. pins (board_arr b') (opp us) (king_sq g (opp us)) frm t d n) \<and> \<not> on_line frm (king_sq g (opp us)) sq"
proof -
  let ?k = "king_sq g (opp us)" let ?occ = "bb_Set (occupied g) to" let ?B = "BetweenBB ?k q"
  let ?pinned = "bb_And (ComputeBlockersForKing g (opp us)) (by_color g (opp us))"
  note d = probe_ofD [OF P]
  have f: "frm < 81" "sq < 81" "att (board_arr b') (occf (board_arr b')) (opp us) frm sq" using pm by (simp_all add: piece_move_def d(9))
  have gf: "board_arr g frm = board_arr b' frm" "piece_GetColor (board_arr g frm) = opp us" "board_arr g frm \<noteq> 0"
    using f(3) d(10,15) by (auto simp: att_def split: if_splits)
  let ?w = "bb_And (PieceAttacks (piece_GetType (board_arr g frm)) (opp us) frm ?occ) ?B"
  have Bt: "bb_Test ?B sq" using Test_BetweenBB_betw [OF d(2) q(1) f(2)] b by simp
  have Bok: "bb_ok ?B" by (rule bb_ok_BetweenBB [OF d(2)])
  have wok: "bb_ok ?w" by (rule bb_ok_And2 [OF Bok])
  have "reaches (board_arr g frm) (bb_Test ?occ) frm sq \<longleftrightarrow> reaches (board_arr g frm) (occf (board_arr b')) frm sq"
    by (rule reaches_cong) (rule probe_occ [OF P])
  then have "bb_Test (PieceAttacks (piece_GetType (board_arr g frm)) (opp us) frm ?occ) sq"
    using reaches_PieceAttacks [OF board_okD(1) [OF d(1) f(1)] gf(3) f(2,1), of ?occ] gf(1,2) f(3) by (simp add: att_def)
  then have w: "bb_Test ?w sq" using Bt by (simp add: Test_And)
  have ne: "\<not> bb_Empty ?B" "\<not> bb_Empty ?w"
    using Bt w f(2) bb_Any_iff_Test [OF Bok] bb_Any_iff_Test [OF wok] by (auto simp: bb_Empty_def)
  have ok: "bb_ok (bb_Clear (by_color g (opp us)) ?k)" by (intro bb_ok_Clear board_okD(2) [OF d(1)])
  have "frm \<in> set (bb_squares (bb_Clear (by_color g (opp us)) ?k))"
    unfolding set_bb_squares [OF ok] using board_okD(4) [OF d(1) f(1), of "opp us"] gf nk f(1) d(2) by (simp add: Test_Clear)
  then have "\<not> piece_interposes g (opp us) ?pinned ?B ?occ (piece_GetType (board_arr g frm)) frm"
    using no ne(1) unfolding CanDefenderInterposeMateCheck_def Let_def list_ex_iff piece_on_def by (auto split: if_splits)
  then have "bb_Test ?pinned frm" "\<not> bb_Any (bb_And ?w (LineBB frm ?k))"
    using ne(2) unfolding piece_interposes_def Let_def by (auto split: if_splits)
  then obtain t e n where p: "pins (board_arr g) (opp us) ?k frm t e n" and off: "\<not> on_line frm ?k sq"
    using Test_probe_pinned [OF P f(1) gf(2)] Test_LineBB [OF f(1) d(2) f(2)] w f(2) unfolding Any_and_iff [OF wok] by blast
  have "pins (board_arr b') (opp us) ?k frm t e n" by (rule probe_pin [OF P p q(2) _ off]) (use b in simp)
  then show ?thesis using off by blast
qed

lemma no_drop_sound:
  assumes P: "probe_of g us mt to b'" and q: "q < 81"
    and no: "\<not> CanDefenderInterposeMateCheck g (opp us) (BetweenBB (king_sq g (opp us)) q) (bb_Set (occupied g) to)"
    and rd: "rule_drop b' pt sq"
  shows "\<not> betw (king_sq g (opp us)) q sq"
proof
  let ?k = "king_sq g (opp us)" let ?occ = "bb_Set (occupied g) to" let ?B = "BetweenBB ?k q"
  let ?e = "bb_And ?B (bb_Not ?occ)"
  assume b: "betw ?k q sq"
  note d = probe_ofD [OF P]
  have r: "sq < 81" "pt_IsHandPiece pt" "board_arr b' sq = 0" "hand_Has (hands g (opp us)) pt" "\<not> dead_end (opp us) pt sq"
    "pt = kPawn \<Longrightarrow> s < 81 \<Longrightarrow> board_arr b' s = piece_Make (opp us) kPawn \<Longrightarrow> sq_file s \<noteq> sq_file sq" for s
    using rd by (auto simp: rule_drop_def d(9,11) hand_Has_iff)
  have Bok: "bb_ok ?B" "bb_ok ?e" using bb_ok_BetweenBB [OF d(2)] by (simp_all add: bb_ok_And1)
  have Bt: "bb_Test ?B sq" "bb_Test ?e sq"
    using Test_BetweenBB_betw [OF d(2) q r(1)] b probe_occ [OF P r(1)] r(1,3) by (simp_all add: Test_And Test_Not)
  have ne: "\<not> bb_Empty ?B" "\<not> bb_Empty ?e"
    using Bt r(1) bb_Any_iff_Test [OF Bok(1)] bb_Any_iff_Test [OF Bok(2)] by (auto simp: bb_Empty_def)
  have pok: "bb_ok (pieces_ct g (opp us) kPawn)" using bb_ok_pieces d(1) by (simp add: kPawn_def)
  have pw: "bb_Test (pieces_ct g (opp us) kPawn) s \<Longrightarrow> s < 81 \<Longrightarrow> board_arr b' s = piece_Make (opp us) kPawn" for s
    using Test_pieces_ct [OF d(1), of s kPawn "opp us"] d(4) by (auto simp: d(10) kPawn_def)
  have "bb_Test (drop_ranks pt (opp us) ?e) sq" using Test_drop_ranks [OF r(1,2)] Bt(2) r(5) by simp
  then have t: "bb_Test (interpose_targets g (opp us) pt ?e) sq"
    using Test_nifu_files [OF r(1) pok] pw r(6) unfolding interpose_targets_def Let_def by auto
  have "bb_Any (interpose_targets g (opp us) pt ?e)"
  proof -
    have "interpose_targets g (opp us) pt ?e = drop_squares (g\<lparr>side_to_move := opp us\<rparr>) pt ?e"
      by (simp add: interpose_targets_def drop_squares_def Let_def pieces_ct_def)
    then have "bb_ok (interpose_targets g (opp us) pt ?e)" using bb_ok_drop_squares [OF Bok(2)] by simp
    then show ?thesis using bb_Any_iff_Test t r(1) by blast
  qed
  moreover have "pt \<in> set [1..<8]" using r(2) by (auto simp: pt_IsHandPiece_def)
  ultimately have "list_ex (\<lambda>pt. hand_Has (hands g (opp us)) pt \<and> bb_Any (interpose_targets g (opp us) pt ?e)) [1..<8]"
    unfolding list_ex_iff using r(4) by blast
  then show False using no ne unfolding CanDefenderInterposeMateCheck_def Let_def by (simp split: if_splits)
qed

subsection \<open>The probe is sound\<close>

lemma mate_probe_check:
  assumes P: "probe_of g us mt to b'" and mate: "mate_probe g us mt to"
  shows "InCheck b' (opp us)"
proof -
  let ?k = "king_sq g (opp us)" let ?A = "AttackersTo_c g ?k (bb_Set (occupied g) to) us"
  note d = probe_ofD [OF P]
  have ok: "bb_ok ?A" by (intro bb_ok_AttackersTo_c d(1,2))
  have "att (board_arr b') (occf (board_arr b')) us to ?k \<or> bb_Any ?A"
    using mate unfolding mate_probe_def Let_def probe_direct [OF P] bb_Empty_def by (auto split: if_splits)
  then have "\<exists>t<81. att (board_arr b') (occf (board_arr b')) us t ?k"
    unfolding bb_Any_iff_Test [OF ok] using probe_attackers(1) [OF P d(2)] d(3) by blast
  moreover have "king_sq b' (opp us) = ?k" using d(9,12) by simp
  ultimately show ?thesis
    using InCheck_in_check [OF d(7), of "opp us"] d(2) by (simp add: in_check_def)
qed

text \<open>Either two pieces give check, or one does and the probe has ruled out the answers to it.\<close>

lemma mate_probe_cases:
  assumes P: "probe_of g us mt to b'" and mate: "mate_probe g us mt to"
  obtains (two) t u where "t < 81" "u < 81" "t \<noteq> u" "att (board_arr b') (occf (board_arr b')) us t (king_sq g (opp us))"
      "att (board_arr b') (occf (board_arr b')) us u (king_sq g (opp us))"
    | (one) q where "q < 81" "\<And>t. t < 81 \<Longrightarrow> att (board_arr b') (occf (board_arr b')) us t (king_sq g (opp us)) \<longleftrightarrow> t = q"
      "\<not> CanDefenderCaptureMateChecker g (opp us) q (bb_Set (occupied g) to)"
      "\<not> CanDefenderInterposeMateCheck g (opp us) (BetweenBB (king_sq g (opp us)) q) (bb_Set (occupied g) to)"
proof -
  let ?k = "king_sq g (opp us)" let ?A = "AttackersTo_c g ?k (bb_Set (occupied g) to) us"
  let ?att = "\<lambda>t. att (board_arr b') (occf (board_arr b')) us t ?k"
  note d = probe_ofD [OF P]
  have ok: "bb_ok ?A" by (intro bb_ok_AttackersTo_c d(1,2))
  have L: "t \<in> set (bb_squares ?A) \<longleftrightarrow> t < 81 \<and> t \<noteq> to \<and> ?att t" for t
    unfolding set_bb_squares [OF ok] using probe_attackers(1) [OF P d(2)] by blast
  have dist: "distinct (bb_squares ?A)" using sorted_bb_squares [OF ok] by blast
  have count: "bb_PopCount ?A = length (bb_squares ?A)" using bb_PopCount_length [OF ok] by simp
  note m = mate [unfolded mate_probe_def Let_def probe_direct [OF P] count]
  show thesis
  proof (cases "bb_squares ?A")
    case Nil
    then have dir: "?att to" using m bb_Any_iff_Test [OF ok] set_bb_squares [OF ok] by (auto simp: bb_Empty_def split: if_splits)
    have "?att t \<longleftrightarrow> t = to" if "t < 81" for t using L [of t] Nil dir that by auto
    then show thesis using one [of to] m dir Nil d(3) by (auto split: if_splits)
  next
    case (Cons q r)
    have q: "q < 81" "q \<noteq> to" "?att q" using L [of q] Cons by auto
    have any: "bb_Any ?A" using q L [of q] Cons set_bb_squares [OF ok] bb_Any_iff_Test [OF ok] by auto
    have peek: "bb_Peek ?A = q" using bb_Peek_hd [OF any] Cons by simp
    show thesis
    proof (cases "?att to")
      case True
      then show thesis using two [of q to] q d(3) by blast
    next
      case ndir: False
      show thesis
      proof (cases r)
        case Nil
        have "?att t \<longleftrightarrow> t = q" if "t < 81" for t using L [of t] Nil Cons q ndir that by auto
        then show thesis using one [of q] m ndir Nil Cons q(1) peek by (auto split: if_splits)
      next
        case (Cons u r')
        then have "u < 81" "?att u" "u \<noteq> q" using L [of u] \<open>bb_squares ?A = q # r\<close> dist by auto
        then show thesis using two [of q u] q by blast
      qed
    qed
  qed
qed

lemma mate_probe_sound:
  assumes P: "probe_of g us mt to b'" and mate: "mate_probe g us mt to"
    and dir: "att (board_arr b') (occf (board_arr b')) us to (king_sq g (opp us)) \<or> \<not> screens g us to"
    and m: "rule_move b' m"
  shows "InCheck (after_move b' m) (opp us)"
proof -
  let ?k = "king_sq g (opp us)" let ?f = "board_arr b'"
  let ?att = "\<lambda>t. att ?f (occf ?f) us t ?k"
  note d = probe_ofD [OF P]
  have k': "king_sq b' (opp us) = ?k" using d(9,12) by simp
  have left: "\<exists>t<81. ?att t \<and> t \<noteq> sq \<and> \<not> betw ?k t sq"
    if "t < 81" "u < 81" "t \<noteq> u" "?att t" "?att u" "sq < 81" for t u sq
    using two_checks [where f = ?f and c = us, OF that(4,5,3,1,2) d(2) that(6)] that by blast
  from m consider frm sq where "piece_move b' frm sq" "move_variant b' frm sq m" "frm \<noteq> ?k"
    | sq where "piece_move b' ?k sq" "move_variant b' ?k sq m"
    | pt sq where "m = move_Drop pt sq" "rule_drop b' pt sq" unfolding rule_move_def by blast
  then show ?thesis
  proof cases
    case (1 frm sq)
    have sq: "sq < 81" using 1(1) by (simp add: piece_move_def)
    have "(\<exists>t<81. ?att t \<and> t \<noteq> sq \<and> \<not> betw ?k t sq) \<or>
        ((\<exists>t e n. pins ?f (opp us) ?k frm t e n) \<and> \<not> on_line frm ?k sq)"
      using P mate
    proof (cases rule: mate_probe_cases)
      case (two t u)
      then show ?thesis using left [of t u sq] sq by blast
    next
      case (one q)
      have qs: "q = to \<or> \<not> screens g us to" using dir one(2) [OF d(3)] by blast
      consider "sq = q" | "betw ?k q sq" | "sq \<noteq> q" "\<not> betw ?k q sq" by blast
      then show ?thesis
      proof cases
        case a: 1
        show ?thesis using no_capture_sound [OF P one(1) qs one(3) _ 1(3)] 1(1) a by blast
      next
        case b: 2
        show ?thesis using no_interpose_sound [OF P one(1) qs one(4) 1(1,3) b] by blast
      next
        case 3
        then show ?thesis using one(1,2) by blast
      qed
    qed
    then show ?thesis
      using safe_after_piece_move [OF d(7,8) 1(1,2)] 1(3) unfolding d(9) k' opp_opp by blast
  next
    case (2 sq)
    have "\<not> CanKingEscapeAfterMateProbe g us to (bb_Set (occupied g) to) (PieceAttacks mt us to (bb_Clear (bb_Set (occupied g) to) ?k))"
      using mate unfolding mate_probe_def Let_def by (simp split: if_splits)
    from no_escape_sound [OF P this, of sq] show ?thesis
      using 2 king_variant [OF d(7,8), of sq m] unfolding d(9) k' by blast
  next
    case (3 pt sq)
    have sq: "sq < 81" using 3(2) by (simp add: rule_drop_def)
    have "\<exists>t<81. ?att t \<and> \<not> betw ?k t sq"
      using P mate
    proof (cases rule: mate_probe_cases)
      case (two t u)
      then show ?thesis using left [of t u sq] sq by blast
    next
      case (one q)
      show ?thesis using one(1,2) no_drop_sound [OF P one(1,4) 3(2)] by blast
    qed
    then show ?thesis
      using safe_after_drop [OF d(7,8) 3(2)] unfolding d(9) k' opp_opp 3(1) by blast
  qed
qed

subsection \<open>The positions the search probes\<close>

lemma reaches_not_dead_end:
  assumes "reaches (piece_Make c pt) occ t s" "t < 81" "s < 81" "pt < 16"
  shows "\<not> dead_end c pt t"
proof -
  have f: "file_of s = int (sq_file s)" "rank_of s = int (sq_rank s)" "sq_rank s \<le> 8" "sq_rank t \<le> 8" using assms(2,3) sq_rank_le by simp_all
  have step: "steps_at (piece_Make c pt) t s \<longleftrightarrow> bb_Test (StepAttacks pt c t) s" using assms(4) by (simp add: steps_at_def)
  show ?thesis
    using assms(1) f unfolding reaches_def step dead_end_def
    by (cases c) (auto simp: StepAttacks_def slides_def piece_type_defs step_defs Test_MakeStepBB [OF assms(3)] delta_defs rank_ahead_def
        steps_to_def forward_def piece_GetType_mod piece_Make_def piece_GetColor_def)
qed

lemma after_hands:
  assumes "move_pre b m"
  shows "hands (after_move b m) (opp (side_to_move b)) = hands b (opp (side_to_move b))"
  unfolding DoMoveForMovegen_def DoMoveInternal_eq [OF move_pre_neq [OF assms]] by (simp add: opp_neq)

lemma after_kings:
  assumes "board_ok b" "kings_ok b" "\<not> InCheck b (opp (side_to_move b))" "rule_move b m"
  shows "board_ok (after_move b m)" "kings_ok (after_move b m)" "side_to_move (after_move b m) = opp (side_to_move b)"
proof -
  have pre: "move_pre b m" by (rule rule_move_pre(1) [OF assms(4)])
  show "board_ok (after_move b m)" "side_to_move (after_move b m) = opp (side_to_move b)"
    using after_ok [OF assms(1) pre] after_eq(3) [OF pre] by simp_all
  show "kings_ok (after_move b m)"
    using kings_ok_DoMoveInternal [OF assms(1,2) pre no_king_capture [OF assms]] by (simp add: DoMoveForMovegen_def)
qed

lemma drop_probe:
  assumes ok: "board_ok b" "kings_ok b" "\<not> InCheck b (opp (side_to_move b))" and rd: "rule_drop b pt to"
  shows "probe_of b (side_to_move b) pt to (after_move b (move_Drop pt to))"
    "IsMateAfterMateProbe b (side_to_move b) pt to = mate_probe b (side_to_move b) pt to"
proof -
  let ?us = "side_to_move b" let ?m = "move_Drop pt to"
  have m: "rule_move b ?m" using rd unfolding rule_move_def by blast
  note d = drop_fields [OF rd] and k = king_facts [OF ok(2), of "opp ?us"] and a = after_kings [OF ok m]
  have r: "to < 81" "board_arr b to = 0" "1 \<le> pt" "pt \<le> 14" using rd by (auto simp: rule_drop_def pt_IsHandPiece_def)
  have arr: "board_arr (after_move b ?m) = (board_arr b)(to := piece_Make ?us pt)"
    unfolding after_eq [OF d(4)] using board_arr_place_pieces(2) [of ?m b] d by simp
  show "probe_of b ?us pt to (after_move b ?m)"
    unfolding probe_of_def using ok(1) k r a arr after_hands [OF d(4)] by simp
  show "IsMateAfterMateProbe b ?us pt to = mate_probe b ?us pt to"
    by (simp add: IsMateAfterMateProbe_def capture_removed_def piece_on_def piece_IsNone_def r(2))
qed

lemma removed_bits_RemovePiece:
  assumes "piece_GetColor (board_arr b s) = c" "piece_GetType (board_arr b s) = t"
  shows "snd (RemovePiece b s) = (removed_bits b c t s)\<lparr>board_arr := (board_arr b)(s := 0)\<rparr>"
  using assms by (simp add: RemovePiece_def removed_bits_def Let_def piece_None_def)

lemma move_probe:
  assumes ok: "board_ok b" "kings_ok b" "\<not> InCheck b (opp (side_to_move b))"
    and pm: "piece_move b frm to" and mv: "move_variant b frm to m"
  obtains g where "probe_of g (side_to_move b) (piece_GetType (place_moved b m)) to (after_move b m)"
    "IsMateAfterMateProbe (removed_bits b (side_to_move b) (piece_GetType (board_arr b frm)) frm) (side_to_move b)
       (piece_GetType (place_moved b m)) to = mate_probe g (side_to_move b) (piece_GetType (place_moved b m)) to"
    "board_arr g = (board_arr b)(frm := 0, to := 0)" "king_sq g = king_sq b"
proof -
  let ?us = "side_to_move b" let ?v = "place_moved b m" let ?mt = "piece_GetType (place_moved b m)"
  have m: "rule_move b m" using pm mv unfolding rule_move_def by blast
  note p = piece_move_facts [OF ok(1,2) pm] and v = variant_fields [OF piece_move_facts(1,2) [OF ok(1,2) pm] mv]
  note pre = variant_pre [OF pm mv] and a = after_kings [OF ok m] and k = king_facts [OF ok(2), of "opp ?us"]
  define r where "r = removed_bits b ?us (piece_GetType (board_arr b frm)) frm"
  define g0 where "g0 = snd (RemovePiece b frm)"
  define g where "g = (if board_arr b to = 0 then g0 else snd (RemovePiece g0 to))"
  have g0: "g0 = r\<lparr>board_arr := (board_arr b)(frm := 0)\<rparr>"
    unfolding g0_def r_def by (rule removed_bits_RemovePiece [OF p(4) refl])
  have rarr: "board_arr r = board_arr b" by (simp add: r_def removed_bits_def)
  have garr: "board_arr g = (board_arr b)(frm := 0, to := 0)" using p(6) by (auto simp: g_def g0_def RemovePiece_sel)
  have gk: "king_sq g = king_sq b" "hands g = hands b" by (simp_all add: g_def g0_def RemovePiece_sel)
  have gok: "board_ok g" using board_ok_RemovePiece ok(1) p(1,2) by (simp add: g_def g0_def)
  have same: "(capture_removed r to)\<lparr>board_arr := board_arr g\<rparr> = g"
  proof (cases "board_arr b to = 0")
    case True
    then show ?thesis using p(6) by (simp add: capture_removed_def piece_on_def piece_IsNone_def rarr g_def g0 fun_upd_idem)
  next
    case False
    then show ?thesis using p(6)
      by (simp add: capture_removed_def piece_on_def piece_IsNone_def rarr g_def g0 RemovePiece_def removed_bits_def Let_def piece_None_def)
  qed
  have tk: "to \<noteq> king_sq b (opp ?us)" by (rule to_not_enemy_king [OF ok pm])
  have fk: "frm \<noteq> king_sq b (opp ?us)" using p(4) k(4) opp_neq by metis
  have pv: "piece_ok ?v" "?v \<noteq> 0" "piece_GetColor ?v = ?us"
    using place_moved_props [OF ok(1) pre v(3)] v p(4) by simp_all
  have mt: "1 \<le> ?mt" "?mt \<le> 14" "?v = piece_Make ?us ?mt" using piece_ok_type [OF pv(1,2)] piece_eq_Make [OF pv(1,2)] pv(3) by simp_all
  have arr: "board_arr (after_move b m) = (board_arr b)(frm := 0, to := ?v)"
    unfolding after_eq [OF pre] using board_arr_place_pieces(1) [of m b] v p(6) by simp
  have P: "probe_of g ?us ?mt to (after_move b m)"
    unfolding probe_of_def garr gk arr using gok k tk fk p(2) mt(1,2) a after_hands [OF pre] by (simp flip: mt(3))
  have probe: "mate_probe ((capture_removed r to)\<lparr>board_arr := board_arr g\<rparr>) ?us ?mt to = mate_probe (capture_removed r to) ?us ?mt to"
  proof (rule mate_probe_array)
    have e: "by_color (capture_removed r to) = by_color g" "king_sq (capture_removed r to) = king_sq g"
      using arg_cong [OF same, of by_color] arg_cong [OF same, of king_sq] by simp_all
    show "bb_ok (by_color (capture_removed r to) (opp ?us))" unfolding e by (rule board_okD(2) [OF gok])
    show "king_sq (capture_removed r to) (opp ?us) < 81" unfolding e gk by (rule k(1))
    fix s :: nat assume s: "s < 81" "bb_Test (by_color (capture_removed r to) (opp ?us)) s"
    have "board_arr g s \<noteq> 0" using s(2) board_okD(4) [OF gok s(1)] unfolding e by simp
    moreover have "board_arr (capture_removed r to) = board_arr b"
      by (simp add: capture_removed_def Let_def removed_bits_def rarr)
    ultimately show "board_arr g s = board_arr (capture_removed r to) s" unfolding garr by (auto split: if_splits)
  qed
  show thesis
    by (rule that [OF P _ garr gk(1)]) (simp add: IsMateAfterMateProbe_def same [unfolded r_def] probe [unfolded r_def, symmetric])
qed

subsection \<open>What the search finds\<close>

text \<open>The moved piece itself gives check, and the exception: without the moved piece on its target
  a defender's piece would be pinned over that square.\<close>

definition moved_piece_checks :: "shogi_board \<Rightarrow> move \<Rightarrow> bool" where
  "moved_piece_checks b m \<longleftrightarrow>
     (let b' = after_move b m in att (board_arr b') (occf (board_arr b')) (side_to_move b) (move_to m) (enemy_king b))"

definition screens_pin :: "shogi_board \<Rightarrow> move \<Rightarrow> bool" where
  "screens_pin b m \<longleftrightarrow> \<not> move_is_drop m \<and>
     (\<exists>frm t d n. pins ((board_arr b)(move_from m := 0, move_to m := 0)) (opp (side_to_move b)) (enemy_king b) frm t d n \<and>
        between_sq (enemy_king b) d n (move_to m))"

definition mate_found :: "shogi_board \<Rightarrow> move \<Rightarrow> bool" where
  "mate_found b m \<longleftrightarrow> m \<in> set (GenerateLegalMoves b) \<and> InCheck (after_move b m) (opp (side_to_move b)) \<and>
     (moved_piece_checks b m \<or> \<not> screens_pin b m \<longrightarrow> GenerateLegalMoves (after_move b m) = [])"

lemma no_moves_after:
  assumes P: "probe_of g us mt to b'" and mate: "mate_probe g us mt to"
    and dir: "att (board_arr b') (occf (board_arr b')) us to (king_sq g (opp us)) \<or> \<not> screens g us to"
  shows "GenerateLegalMoves b' = []"
proof -
  note d = probe_ofD [OF P]
  have no: "\<not> x \<in> set (GenerateLegalMoves b')" for x
    using set_legal_moves [OF d(7,8), of x] mate_probe_sound [OF P mate dir, of x] d(9) by auto
  show ?thesis using no [of "hd (GenerateLegalMoves b')"] hd_in_set by blast
qed

lemma legalI:
  assumes "board_ok b" "kings_ok b" "rule_move b m" "\<not> InCheck (after_move b m) (side_to_move b)" "\<not> pawn_drop_check b m"
  shows "m \<in> set (GenerateLegalMoves b)"
  using assms set_legal_moves [OF assms(1,2)] pawn_mate_iff [OF assms(1,2,3)] by blast

lemma drop_found:
  assumes ok: "board_ok b" "kings_ok b" "\<not> InCheck b (side_to_move b)" "\<not> InCheck b (opp (side_to_move b))"
    and pt: "pt_IsHandPiece pt" "pt \<noteq> kPawn" "hand_Has (hands b (side_to_move b)) pt"
    and to: "to < 81" "board_arr b to = 0" and mate: "IsMateAfterMateProbe b (side_to_move b) pt to"
  shows "mate_found b (move_Drop pt to)"
proof -
  let ?us = "side_to_move b" let ?k = "enemy_king b" let ?m = "move_Drop pt to"
  note k = king_facts [OF ok(2), of "opp ?us"]
  have p: "1 \<le> pt" "pt \<le> 14" using pt(1) by (simp_all add: pt_IsHandPiece_def)
  have probe: "mate_probe b ?us pt to"
    using mate by (simp add: IsMateAfterMateProbe_def capture_removed_def piece_on_def piece_IsNone_def to(2))
  let ?occ = "bb_Set (occupied b) to" let ?A = "AttackersTo_c b ?k ?occ ?us"
  have occ: "bb_Test ?occ u \<longleftrightarrow> board_arr b u \<noteq> 0 \<or> u = to" if "u < 81" for u
    using that to by (auto simp: bb_simps Test_occupied ok(1))
  have none: "\<not> bb_Test ?A t" if t: "t < 81" for t
  proof
    assume "bb_Test ?A t"
    then have a: "att (board_arr b) (bb_Test ?occ) ?us t ?k" by (simp add: Test_AttackersTo_c attacks_att ok(1) k(1) t)
    then have "reaches (board_arr b t) (bb_Test ?occ) t ?k" by (simp add: att_def)
    then have "reaches (board_arr b t) (occf (board_arr b)) t ?k" by (rule reaches_mono [OF _ k(1) t]) (use occ in blast)
    then have "in_check (board_arr b) (opp ?us) ?k" using a t by (auto simp: in_check_def att_def)
    then show False using ok(4) InCheck_in_check [OF ok(1) k(1)] by simp
  qed
  have "bb_ok ?A" by (intro bb_ok_AttackersTo_c ok(1) k(1))
  then have "bb_Empty ?A" using none bb_Any_iff_Test by (auto simp: bb_Empty_def)
  then have dir: "bb_Test (PieceAttacks pt ?us to (bb_Clear ?occ ?k)) ?k"
    using probe unfolding mate_probe_def Let_def by (auto split: if_splits)
  have "reaches (piece_Make ?us pt) (bb_Test (bb_Clear ?occ ?k)) to ?k"
    using dir reaches_PieceAttacks [of "piece_Make ?us pt" ?k to "bb_Clear ?occ ?k"] p to(1) k(1) by simp
  then have "\<not> dead_end ?us pt to" by (rule reaches_not_dead_end) (use to(1) k(1) p in simp_all)
  then have rd: "rule_drop b pt to" using pt to by (simp add: rule_drop_def hand_Has_iff)
  note P = drop_probe(1) [OF ok(1,2,4) rd] and d = drop_fields [OF rd]
  have m: "rule_move b ?m" using rd unfolding rule_move_def by blast
  have dirc: "att (board_arr (after_move b ?m)) (occf (board_arr (after_move b ?m))) ?us to ?k"
    using dir unfolding probe_direct [OF P] .
  have "\<not> InCheck (after_move b ?m) ?us"
    unfolding safe_after_drop [OF ok(1,2) rd] using ok(3) in_check_iff [OF ok(1,2)] by blast
  moreover have "\<not> pawn_drop_check b ?m" using d(2) pt(2) by (simp add: pawn_drop_check_def)
  ultimately have "?m \<in> set (GenerateLegalMoves b)" by (rule legalI [OF ok(1,2) m])
  moreover have "InCheck (after_move b ?m) (opp ?us)" by (rule mate_probe_check [OF P probe])
  moreover have "GenerateLegalMoves (after_move b ?m) = []" by (rule no_moves_after [OF P probe]) (use dirc in blast)
  ultimately show ?thesis unfolding mate_found_def by blast
qed

lemma move_found:
  assumes ok: "board_ok b" "kings_ok b" "\<not> InCheck b (opp (side_to_move b))"
    and pm: "piece_move b frm to" and mv: "move_variant b frm to m" and safe: "\<not> InCheck (after_move b m) (side_to_move b)"
    and mate: "IsMateAfterMateProbe (removed_bits b (side_to_move b) (piece_GetType (board_arr b frm)) frm) (side_to_move b)
       (piece_GetType (place_moved b m)) to"
  shows "mate_found b m"
proof -
  let ?us = "side_to_move b" let ?k = "enemy_king b"
  note v = variant_fields [OF piece_move_facts(1,2) [OF ok(1,2) pm] mv]
  obtain g where P: "probe_of g ?us (piece_GetType (place_moved b m)) to (after_move b m)"
    and probe: "mate_probe g ?us (piece_GetType (place_moved b m)) to"
    and g: "board_arr g = (board_arr b)(frm := 0, to := 0)" "king_sq g = king_sq b"
    using move_probe [OF ok pm mv] mate by metis
  have m: "rule_move b m" using pm mv unfolding rule_move_def by blast
  have "m \<in> set (GenerateLegalMoves b)" by (rule legalI [OF ok(1,2) m safe]) (simp add: pawn_drop_check_def v(3))
  moreover have "InCheck (after_move b m) (opp ?us)" by (rule mate_probe_check [OF P probe])
  moreover have "screens g ?us to \<longleftrightarrow> screens_pin b m" unfolding screens_def screens_pin_def g v(1,2) using v(3) by blast
  moreover have "att (board_arr (after_move b m)) (occf (board_arr (after_move b m))) ?us to (king_sq g (opp ?us)) \<longleftrightarrow> moved_piece_checks b m"
    unfolding moved_piece_checks_def Let_def g v(2) ..
  ultimately show ?thesis unfolding mate_found_def using no_moves_after [OF P probe] by blast
qed

text \<open>The targets the search tries are the safe moves of the piece.\<close>

lemma source_targets_safe:
  assumes ok: "board_ok b" "kings_ok b" "\<not> InCheck b (side_to_move b)"
    and frm: "frm < 81" "board_arr b frm = piece_Make (side_to_move b) pt" "1 \<le> pt" "pt \<le> 14"
    and to: "to \<in> set (bb_squares (source_targets b (side_to_move b)
      (bb_And (ComputeBlockersForKing b (side_to_move b)) (by_color b (side_to_move b))) pt frm))"
  shows "piece_move b frm to" "move_variant b frm to m \<Longrightarrow> \<not> InCheck (after_move b m) (side_to_move b)"
proof -
  let ?us = "side_to_move b" let ?k = "mover_king b"
  let ?pinned = "bb_And (ComputeBlockersForKing b ?us) (by_color b ?us)"
  let ?T = "bb_And (PieceAttacks pt ?us frm (occupied b)) (bb_Not (by_color b ?us))"
  let ?T' = "if bb_Test ?pinned frm then bb_And ?T (LineBB frm ?k) else ?T"
  note k = king_facts [OF ok(2), of ?us]
  have own: "by_color b ?us = own b" by (simp add: own_def)
  have f: "board_arr b frm \<noteq> 0" "piece_GetColor (board_arr b frm) = ?us" "piece_GetType (board_arr b frm) = pt"
    using frm by simp_all
  have Tok: "bb_ok ?T" "bb_ok ?T'" using frm(1) by (auto intro!: bb_ok_And1)
  let ?S = "\<lambda>xs acc. fold (\<lambda>to legal. if IsLegal b (move_Normal frm to) ?pinned then bb_Set legal to else legal) xs acc"
  have S: "bb_Test (?S xs acc) u \<longleftrightarrow> bb_Test acc u \<or> (u \<in> set xs \<and> IsLegal b (move_Normal frm u) ?pinned)"
    "bb_ok acc \<Longrightarrow> bb_ok (?S xs acc)" if "\<forall>x\<in>set xs. x < 81" "u < 81" for xs acc u
    using that by (induction xs arbitrary: acc) (auto simp: bb_simps intro: bb_ok_Set)
  have sq: "\<forall>x\<in>set (bb_squares ?T'). x < 81" using set_bb_squares [OF Tok(2)] by blast
  have T': "to \<in> set (bb_squares ?T')" "pt = kKing \<Longrightarrow> IsLegal b (move_Normal frm to) ?pinned"
  proof -
    have "to \<in> set (bb_squares ?T') \<and> (pt = kKing \<longrightarrow> IsLegal b (move_Normal frm to) ?pinned)"
    proof (cases "pt = kKing")
      case True
      have "bb_ok (?S (bb_squares ?T') bb_Zero)" using S(2) [OF sq, of 0 bb_Zero] by simp
      then have t: "to < 81" "bb_Test (?S (bb_squares ?T') bb_Zero) to"
        using to True set_bb_squares [of "?S (bb_squares ?T') bb_Zero"] unfolding source_targets_def Let_def if_P [OF True] by blast+
      show ?thesis using t(2) unfolding S(1) [OF sq t(1)] by simp
    next
      case False
      then show ?thesis using to unfolding source_targets_def Let_def by simp
    qed
    then show "to \<in> set (bb_squares ?T')" "pt = kKing \<Longrightarrow> IsLegal b (move_Normal frm to) ?pinned" by blast+
  qed
  have t: "to < 81" "bb_Test ?T' to" using T'(1) unfolding set_bb_squares [OF Tok(2)] by blast+
  have tt: "bb_Test ?T to" "bb_Test ?pinned frm \<Longrightarrow> bb_Test (LineBB frm ?k) to" using t(2) by (auto simp: Test_And split: if_splits)
  show pm: "piece_move b frm to" using target_iff [OF ok(1) frm(1) f(1,2) t(1)] tt(1) unfolding f(3) own by blast
  assume mv: "move_variant b frm to m"
  show "\<not> InCheck (after_move b m) ?us"
  proof (cases "frm = ?k")
    case True
    have kp: "pt = kKing" using f(3) k(5) True by simp
    have mm: "m = move_Normal frm to" using king_variant [OF ok(1,2)] pm mv True by blast
    have "add_if_legal b m" using T'(2) [OF kp] frm(1) t(1) True by (simp add: add_if_legal_def Let_def mm own_def)
    then show ?thesis using add_if_legal_iff [OF ok pm mv] by blast
  next
    case False
    have "bb_Test ?pinned frm \<longleftrightarrow> (\<exists>t d n. pins (board_arr b) ?us ?k frm t d n)"
      using Test_pinned [OF ok(1,2) frm(1) f(1,2)] unfolding own .
    then have "(\<exists>t d n. pins (board_arr b) ?us ?k frm t d n) \<longrightarrow> on_line frm ?k to"
      using tt(2) Test_LineBB [OF frm(1) k(1) t(1)] by blast
    then show ?thesis
      using safe_after_piece_move [OF ok(1,2) pm mv False] ok(3) in_check_iff [OF ok(1,2)] by blast
  qed
qed

lemma try_target_found:
  assumes ok: "board_ok b" "kings_ok b" "\<not> InCheck b (opp (side_to_move b))" and pm: "piece_move b frm to"
    and pt: "board_arr b frm = piece_Make (side_to_move b) pt" "1 \<le> pt" "pt \<le> 14"
    and safe: "\<And>m. move_variant b frm to m \<Longrightarrow> \<not> InCheck (after_move b m) (side_to_move b)"
    and m: "m = try_target (removed_bits b (side_to_move b) pt frm) (side_to_move b) disc line pt frm to" "m \<noteq> 0"
  shows "mate_found b m"
proof -
  let ?us = "side_to_move b" let ?r = "removed_bits b ?us pt frm"
  note p = piece_move_facts [OF ok(1,2) pm]
  have ty: "piece_GetType (board_arr b frm) = pt" using pt by simp
  have var: "x = 0 \<or> (x = y \<and> IsMateAfterMateProbe ?r ?us mt to)" if "x = try_variant ?r ?us dc to mt y" for x y dc mt
    using that by (auto simp: try_variant_def Let_def split: if_splits)
  have found: "mate_found b x" if mv: "move_variant b frm to x" and probe: "IsMateAfterMateProbe ?r ?us mt to"
    and mt: "mt = (if move_is_promotion x then pt_Promote pt else pt)" for x mt
    using move_found [OF ok pm mv safe [OF mv]] probe place_moved_variant [OF p(1,2) mv ok(1) p(3)] mt unfolding ty by simp
  let ?dc = "disc \<and> \<not> bb_Test line to"
  let ?pv = "try_variant ?r ?us ?dc to (pt_Promote pt) (move_Promotion frm to)"
  let ?nv = "try_variant ?r ?us ?dc to pt (move_Normal frm to)"
  have "(CanPromote pt ?us frm to \<and> m = ?pv \<and> ?pv \<noteq> 0) \<or> (\<not> MustPromote pt ?us to \<and> m = ?nv)"
    using m unfolding try_target_def Let_def move_is_null_def by (auto split: if_splits)
  then consider "CanPromote pt ?us frm to" "m = ?pv" | "\<not> MustPromote pt ?us to" "m = ?nv" by blast
  then show ?thesis
  proof cases
    case 1
    have v: "m = move_Promotion frm to" "IsMateAfterMateProbe ?r ?us (pt_Promote pt) to" using var [OF 1(2)] m(2) by simp_all
    have "may_promote ?us pt frm to" using 1(1) CanPromote_may [OF p(1,2)] by simp
    then have "move_variant b frm to m" unfolding move_variant_def ty v(1) by blast
    moreover have "move_is_promotion m" using v(1) p(1,2) by simp
    ultimately show ?thesis using found [OF _ v(2)] by simp
  next
    case 2
    have v: "m = move_Normal frm to" "IsMateAfterMateProbe ?r ?us pt to" using var [OF 2(2)] m(2) by simp_all
    have "\<not> dead_end ?us pt to" using 2(1) MustPromote_dead_end [OF p(2)] by simp
    then have "move_variant b frm to m" unfolding move_variant_def ty v(1) by blast
    moreover have "\<not> move_is_promotion m" using v(1) p(1,2) by simp
    ultimately show ?thesis using found [OF _ v(2)] by simp
  qed
qed

lemma kPieceOrder_types: "pt \<in> set kPieceOrder \<Longrightarrow> 1 \<le> pt \<and> pt \<le> 14"
  by (auto simp: kPieceOrder_def piece_type_defs)

lemma drop_order_types:
  assumes "(pt, zone) \<in> set (drop_order us k)"
  shows "pt_IsHandPiece pt" "pt \<noteq> kPawn"
  using assms by (auto simp: drop_order_def piece_type_defs pt_IsHandPiece_def)

lemma impl_found:
  assumes ok: "board_ok b" "kings_ok b" "\<not> InCheck b (side_to_move b)" "\<not> InCheck b (opp (side_to_move b))"
    and m: "m = FindMateInOneNonCheckImpl b (side_to_move b)" "m \<noteq> 0"
  shows "mate_found b m"
proof -
  let ?us = "side_to_move b" let ?k = "enemy_king b"
  note k = king_facts(1) [OF ok(2)]
  let ?drops = "first_move (try_drops b ?us) (drop_order ?us ?k)"
  show ?thesis
  proof (cases "?drops = 0")
    case False
    then have mm: "m = ?drops" using m(1) by (simp add: FindMateInOneNonCheckImpl_def Let_def move_is_null_def)
    obtain pt zone where x: "(pt, zone) \<in> set (drop_order ?us ?k)" "m = try_drops b ?us (pt, zone)"
      using first_move_found [OF False] mm by auto
    note t = drop_order_types [OF x(1)]
    have h: "hand_Has (hands b ?us) pt" using x(2) m(2) by (auto simp: try_drops_def split: if_splits)
    have f: "m = first_move (\<lambda>to. if IsMateAfterMateProbe b ?us pt to then move_Drop pt to else 0) (bb_squares (bb_And zone (bb_Not (occupied b))))"
      using x(2) h by (simp add: try_drops_def)
    obtain to where to: "to \<in> set (bb_squares (bb_And zone (bb_Not (occupied b))))"
      "m = (if IsMateAfterMateProbe b ?us pt to then move_Drop pt to else 0)"
      using first_move_found [OF m(2) [unfolded f]] f by auto
    have "to < 81" "board_arr b to = 0" using to(1) set_bb_squares [OF bb_ok_And2 [OF bb_ok_Not]] by (auto simp: Test_And Test_Not Test_occupied ok(1))
    moreover have "IsMateAfterMateProbe b ?us pt to" "m = move_Drop pt to" using to(2) m(2) by (auto split: if_splits)
    ultimately show ?thesis using drop_found [OF ok t(1,2) h] by simp
  next
    case True
    let ?disc = "bb_And (ComputeBlockersForKing b (opp ?us)) (by_color b ?us)"
    let ?pinned = "bb_And (ComputeBlockersForKing b ?us) (by_color b ?us)"
    let ?src = "\<lambda>pt. bb_squares (bb_And (pieces_ct b ?us pt) (bb_Or (direct_candidates b) ?disc))"
    have mm: "m = first_move (\<lambda>pt. first_move (try_source b ?us ?disc ?pinned pt) (?src pt)) kPieceOrder"
      using m(1) True by (simp add: FindMateInOneNonCheckImpl_def Let_def move_is_null_def)
    obtain pt where pt: "pt \<in> set kPieceOrder" "m = first_move (try_source b ?us ?disc ?pinned pt) (?src pt)"
      using first_move_found [OF m(2) [unfolded mm]] mm by auto
    note t = kPieceOrder_types [OF pt(1)]
    obtain frm where frm: "frm \<in> set (?src pt)" "m = try_source b ?us ?disc ?pinned pt frm"
      using first_move_found [OF m(2) [unfolded pt(2)]] pt(2) by auto
    have pok: "bb_ok (pieces_ct b ?us pt)" using bb_ok_pieces ok(1) t by simp
    have fr: "frm < 81" "board_arr b frm = piece_Make ?us pt"
      using frm(1) set_bb_squares [OF bb_ok_And1 [OF pok]] Test_pieces_ct [OF ok(1), of frm pt ?us] t by (auto simp: Test_And)
    let ?attempt = "try_target (removed_bits b ?us pt frm) ?us (bb_Test ?disc frm) (LineBB frm ?k) pt frm"
    have f: "m = first_move ?attempt (bb_squares (source_targets b ?us ?pinned pt frm))" using frm(2) by (simp add: try_source_def Let_def)
    obtain to where to: "to \<in> set (bb_squares (source_targets b ?us ?pinned pt frm))" "m = ?attempt to"
      using first_move_found [OF m(2) [unfolded f]] f by auto
    note st = source_targets_safe [OF ok(1,2,3) fr conjunct1 [OF t] conjunct2 [OF t] to(1)]
    show ?thesis
      by (rule try_target_found [OF ok(1,2,4) st(1) fr(2) conjunct1 [OF t] conjunct2 [OF t] _ to(2) m(2)]) (rule st(2))
  qed
qed

text \<open>C4: a move the one-ply search returns is legal and gives check, and it is mate whenever the
  moved piece itself gives the check or does not stand in the way of a pin of a defending piece:
  the defender then has no legal move.\<close>

theorem FindMateInOneNonCheck_sound:
  assumes "board_ok b" "kings_ok b" "\<not> InCheck b (side_to_move b)" "\<not> InCheck b (opp (side_to_move b))"
    and "m = FindMateInOneNonCheck b" "m \<noteq> 0"
  shows "m \<in> set (GenerateLegalMoves b) \<and> InCheck (after_move b m) (opp (side_to_move b)) \<and>
    (moved_piece_checks b m \<or> \<not> screens_pin b m \<longrightarrow> GenerateLegalMoves (after_move b m) = [])"
proof -
  have "m = FindMateInOneNonCheckImpl b (side_to_move b)"
    using assms(2,5) by (auto simp: FindMateInOneNonCheck_def kings_ok_def sq_IsValid_def)
  from impl_found [OF assms(1-4) this assms(6)] show ?thesis unfolding mate_found_def .
qed

end
