(* ===== verification/MateScreen.thy ===== *)
theory MateScreen
  imports MateInOne Placement
begin

text \<open>
  A position on which the one-ply mate search reports a check as mate although the defender has an
  answer: the moved piece stands between a defending piece and the piece that pinned it.
\<close>

subsection \<open>The position\<close>

text \<open>White: king 1a, silver 1b.  Black: lance 1f, bishop 3a, rook 4a, golds 5a and 4b, king 5i;
  Black to move.  The bishop leaves the rank of the rook, promoting on 1c, where it stops the lance.\<close>

definition screen_pieces :: "(square \<times> piece) list" where
  "screen_pieces = [(44, 8), (0, 24), (1, 20), (5, 2), (18, 5), (27, 6), (36, 7), (28, 7)]"

definition screen_board :: shogi_board where
  "screen_board = place_all screen_pieces empty_board"

lemma screen_arr: "board_arr screen_board = (\<lambda>_. 0)(44 := 8, 0 := 24, 1 := 20, 5 := 2, 18 := 5, 27 := 6, 36 := 7, 28 := 7)"
  by (simp add: screen_board_def screen_pieces_def PutPiece_sel empty_board_def piece_None_def fun_upd_twist)

lemma screen_sel:
  "king_sq screen_board BLACK = 44" "king_sq screen_board WHITE = 0" "side_to_move screen_board = BLACK"
  "hands screen_board c = hand_Empty"
  by (simp_all add: screen_board_def screen_pieces_def PutPiece_sel empty_board_def piece_Make_def piece_type_defs
      piece_GetColor_def piece_GetType_mod)

lemma screen_ok: "board_ok screen_board" "kings_ok screen_board"
proof -
  have "placeable screen_pieces"
    by (simp add: screen_pieces_def placeable_Cons piece_ok_def piece_GetType_mod kKing_def) (simp add: placeable_def one_king_def)
  then show "board_ok screen_board" unfolding screen_board_def
    by (rule board_ok_place_all [OF _ board_ok_empty]) (auto simp: empty_board_def piece_None_def screen_pieces_def)
  show "kings_ok screen_board" unfolding kings_ok_def
  proof
    fix c
    show "king_sq screen_board c < 81 \<and> board_arr screen_board (king_sq screen_board c) = piece_Make c kKing"
      by (cases c) (simp_all add: screen_sel screen_arr piece_Make_def kKing_def)
  qed
qed

lemmas reach_eval = reaches_def slides_def steps_at_def StepAttacks_def piece_GetColor_def piece_GetType_mod piece_type_defs
  step_defs delta_defs Test_MakeStepBB sq_file_def sq_rank_def steps_to_def

lemma screen_safe: "\<not> InCheck screen_board BLACK" "\<not> InCheck screen_board WHITE"
proof -
  have "\<not> att (board_arr screen_board) (occf (board_arr screen_board)) WHITE t 44" if "t < 81" for t
    using that by (auto simp: att_def screen_arr reach_eval split: if_splits)
  then show "\<not> InCheck screen_board BLACK"
    using InCheck_in_check [OF screen_ok(1), of BLACK] by (auto simp: in_check_def screen_sel)
  have "\<not> att (board_arr screen_board) (occf (board_arr screen_board)) BLACK t 0" if t: "t < 81" for t
  proof
    let ?occ = "occf (board_arr screen_board)"
    assume a: "att (board_arr screen_board) ?occ BLACK t 0"
    then consider "t = 44" | "t = 5" | "t = 18" | "t = 27" | "t = 36" | "t = 28"
      by (auto simp: att_def screen_arr piece_GetColor_def split: if_splits)
    then show False
    proof cases
      case 2
      have "\<not> reaches 2 ?occ 5 0"
        by (rule reaches_blocked [where d = "(0, -1)" and u = 1 and j = 4 and k = 5])
          (simp_all add: unit_dir_def steps_to_def sq_file_def sq_rank_def screen_arr)
      then show False using a 2 by (simp add: att_def screen_arr)
    next
      case 4
      have "\<not> reaches 6 ?occ 27 0"
        by (rule reaches_blocked [where d = "(-1, 0)" and u = 18 and j = 1 and k = 3])
          (simp_all add: unit_dir_def steps_to_def sq_file_def sq_rank_def screen_arr)
      then show False using a 4 by (simp add: att_def screen_arr)
    qed (use a in \<open>auto simp: att_def screen_arr reach_eval bishop_dirs_def split: if_splits\<close>)
  qed
  then show "\<not> InCheck screen_board WHITE"
    using InCheck_in_check [OF screen_ok(1), of WHITE] by (auto simp: in_check_def screen_sel)
qed

subsection \<open>The move\<close>

abbreviation screen_move :: move where
  "screen_move \<equiv> move_Promotion 18 2"

lemma screen_move_nonzero: "screen_move \<noteq> (0 :: move)"
  by (simp add: move_Promotion_def kPromoteFlag_def)

lemma screen_piece_move:
  "piece_move screen_board 18 2" "move_variant screen_board 18 2 screen_move"
  "place_moved screen_board screen_move = 13"
proof -
  have "reaches 5 (occf (board_arr screen_board)) 18 2" unfolding reaches_def
  proof (intro disjI2 exI conjI)
    show "unit_dir (1, -1)" by (simp add: unit_dir_def)
    show "slides 5 (1, -1)" by (simp add: slides_def piece_GetType_mod piece_type_defs bishop_dirs_def)
    show "1 \<le> (2::nat)" by simp
    show "steps_to 2 (1, -1) 2 18" by (simp add: steps_to_def sq_file_def sq_rank_def)
    show "clear_between (occf (board_arr screen_board)) 2 (1, -1) 2"
      by (auto simp: clear_between_def steps_to_def sq_file_def sq_rank_def screen_arr)
  qed
  then show "piece_move screen_board 18 2"
    by (simp add: piece_move_def att_def screen_arr screen_sel piece_GetColor_def)
  show "move_variant screen_board 18 2 screen_move"
    by (simp add: move_variant_def may_promote_def screen_arr screen_sel piece_GetType_mod pt_CanPromote_def rank_ahead_def sq_rank_def)
  show "place_moved screen_board screen_move = 13"
    by (simp add: place_moved_def screen_arr piece_Promote_def)
qed

lemma screen_pin: "pins (board_arr screen_board) WHITE 0 18 27 (1, 0) 3"
  unfolding pins_def
  by (auto simp: screen_arr slides_def piece_GetColor_def piece_GetType_mod piece_type_defs rook_dirs_def between_sq_def
      steps_to_def sq_file_def sq_rank_def intro!: exI [of _ "2::nat"])

lemma screen_after_arr:
  "board_arr (after_move screen_board screen_move) = (board_arr screen_board)(18 := 0, 2 := 13)"
  using after_eq(1) [OF variant_pre [OF screen_piece_move(1,2)]] board_arr_place_pieces(1) [of screen_move screen_board]
    screen_piece_move(3) by simp

subsection \<open>The probe takes it for mate\<close>

abbreviation screen_arr' :: "square \<Rightarrow> piece" where
  "screen_arr' \<equiv> (board_arr screen_board)(18 := 0, 2 := 13)"

lemma screen_checker: "t < 81 \<Longrightarrow> att screen_arr' (occf screen_arr') BLACK t 0 \<longleftrightarrow> t = 27"
proof
  assume t: "t < 81" and a: "att screen_arr' (occf screen_arr') BLACK t 0"
  then consider "t = 44" | "t = 5" | "t = 2" | "t = 27" | "t = 36" | "t = 28"
    by (auto simp: att_def screen_arr piece_GetColor_def split: if_splits)
  then show "t = 27"
  proof cases
    case 2
    have "\<not> reaches 2 (occf screen_arr') 5 0"
      by (rule reaches_blocked [where d = "(0, -1)" and u = 1 and j = 4 and k = 5])
        (simp_all add: unit_dir_def steps_to_def sq_file_def sq_rank_def screen_arr)
    then show ?thesis using a 2 by (simp add: att_def screen_arr)
  qed (use a in \<open>auto simp: att_def screen_arr reach_eval bishop_dirs_def split: if_splits\<close>)
next
  assume "t = 27"
  moreover have "reaches 6 (occf screen_arr') 27 0" unfolding reaches_def
  proof (intro disjI2 exI conjI)
    show "unit_dir (1, 0)" by (simp add: unit_dir_def)
    show "slides 6 (1, 0)" by (simp add: slides_def piece_GetType_mod piece_type_defs rook_dirs_def)
    show "1 \<le> (3::nat)" by simp
    show "steps_to 0 (1, 0) 3 27" by (simp add: steps_to_def sq_file_def sq_rank_def)
    show "clear_between (occf screen_arr') 0 (1, 0) 3"
      by (auto simp: clear_between_def steps_to_def sq_file_def sq_rank_def screen_arr)
  qed
  ultimately show "att screen_arr' (occf screen_arr') BLACK t 0" by (simp add: att_def screen_arr piece_GetColor_def)
qed

lemma screen_covered:
  "att screen_arr' (\<lambda>u. screen_arr' u \<noteq> 0 \<and> u \<noteq> 0) BLACK 27 9" "att screen_arr' (\<lambda>u. screen_arr' u \<noteq> 0 \<and> u \<noteq> 0) BLACK 2 10"
proof -
  have "reaches 6 (\<lambda>u. screen_arr' u \<noteq> 0 \<and> u \<noteq> 0) 27 9" unfolding reaches_def
  proof (intro disjI2 exI conjI)
    show "unit_dir (1, 0)" by (simp add: unit_dir_def)
    show "slides 6 (1, 0)" by (simp add: slides_def piece_GetType_mod piece_type_defs rook_dirs_def)
    show "1 \<le> (2::nat)" by simp
    show "steps_to 9 (1, 0) 2 27" by (simp add: steps_to_def sq_file_def sq_rank_def)
    show "clear_between (\<lambda>u. screen_arr' u \<noteq> 0 \<and> u \<noteq> 0) 9 (1, 0) 2"
      by (auto simp: clear_between_def steps_to_def sq_file_def sq_rank_def screen_arr)
  qed
  then show "att screen_arr' (\<lambda>u. screen_arr' u \<noteq> 0 \<and> u \<noteq> 0) BLACK 27 9" by (simp add: att_def screen_arr piece_GetColor_def)
  have "reaches 13 (\<lambda>u. screen_arr' u \<noteq> 0 \<and> u \<noteq> 0) 2 10" unfolding reaches_def
  proof (intro disjI2 exI conjI)
    show "unit_dir (-1, 1)" by (simp add: unit_dir_def)
    show "slides 13 (-1, 1)" by (simp add: slides_def piece_GetType_mod piece_type_defs bishop_dirs_def)
    show "1 \<le> (1::nat)" by simp
    show "steps_to 10 (-1, 1) 1 2" by (simp add: steps_to_def sq_file_def sq_rank_def)
    show "clear_between (\<lambda>u. screen_arr' u \<noteq> 0 \<and> u \<noteq> 0) 10 (-1, 1) 1" by (auto simp: clear_between_def)
  qed
  then show "att screen_arr' (\<lambda>u. screen_arr' u \<noteq> 0 \<and> u \<noteq> 0) BLACK 2 10" by (simp add: att_def screen_arr piece_GetColor_def)
qed

lemma screen_geometry:
  "betw 0 27 sq \<Longrightarrow> sq_rank sq = 0" "on_line 1 0 sq \<Longrightarrow> sq_file sq = 0" "\<not> on_line 1 0 27"
  "pins ((board_arr screen_board)(18 := 0, 2 := 0)) WHITE 0 1 5 (0, 1) 5"
proof -
  show "betw 0 27 sq \<Longrightarrow> sq_rank sq = 0"
    by (auto simp: betw_def between_sq_def steps_to_def unit_dir_def sq_file_def sq_rank_def)
  show l: "on_line 1 0 sq \<Longrightarrow> sq_file sq = 0" for sq
    by (auto simp: on_line_def steps_to_def unit_dir_def neg_dir_def sq_file_def sq_rank_def)
  show "\<not> on_line 1 0 27" using l [of 27] by (auto simp: sq_file_def)
  show "pins ((board_arr screen_board)(18 := 0, 2 := 0)) WHITE 0 1 5 (0, 1) 5"
    unfolding pins_def
    by (auto simp: screen_arr slides_def forward_def piece_GetColor_def piece_GetType_mod piece_type_defs between_sq_def
        steps_to_def sq_file_def sq_rank_def intro!: exI [of _ "1::nat"])
qed

lemma single_square: "bb_ok w \<Longrightarrow> (\<And>t. t < 81 \<Longrightarrow> bb_Test w t \<longleftrightarrow> t = q) \<Longrightarrow> q < 81 \<Longrightarrow> bb_squares w = [q]"
  using set_bb_squares [of w] sorted_bb_squares [of w]
  by (metis (mono_tags, lifting) distinct.simps(2) empty_iff insert_iff list.exhaust list.set(1) list.set(2) list.set_intros(1) mem_Collect_eq)

lemma screen_mate_probe:
  "IsMateAfterMateProbe (removed_bits screen_board BLACK 5 18) BLACK 13 2"
proof -
  let ?b = "screen_board" let ?b' = "after_move screen_board screen_move" let ?Q = "\<lambda>u. screen_arr' u \<noteq> 0 \<and> u \<noteq> 0"
  have ty: "piece_GetType (board_arr ?b 18) = 5" "piece_GetType (13::nat) = 13" by (simp_all add: screen_arr piece_GetType_mod)
  obtain g where P: "probe_of g BLACK 13 2 ?b'"
    and eq: "IsMateAfterMateProbe (removed_bits ?b BLACK 5 18) BLACK 13 2 = mate_probe g BLACK 13 2"
    and garr: "board_arr g = (board_arr ?b)(18 := 0, 2 := 0)" and gk: "king_sq g = king_sq ?b"
    using move_probe [OF screen_ok _ screen_piece_move(1,2)] screen_safe(2) unfolding screen_sel(3) screen_piece_move(3) ty opp.simps by blast
  note d = probe_ofD [OF P, unfolded opp.simps gk screen_sel(2) screen_after_arr]
  have k: "king_sq g WHITE = 0" by (simp add: gk screen_sel)
  let ?occ = "bb_Set (occupied g) 2" let ?A = "AttackersTo_c g 0 ?occ BLACK"
  have Aok: "bb_ok ?A" by (intro bb_ok_AttackersTo_c d(1)) simp
  have A: "bb_Test ?A t \<longleftrightarrow> t = 27" if "t < 81" for t
    using probe_attackers(1) [OF P, of 0 t] that screen_checker [OF that] unfolding screen_after_arr by auto
  have Asq: "bb_squares ?A = [27]" by (rule single_square [OF Aok A]) simp_all
  have any: "bb_Any ?A" unfolding bb_Any_iff_Test [OF Aok] using A [of 27] by (intro exI [of _ 27]) simp
  have peek: "bb_Peek ?A = 27" "bb_PopCount ?A = 1" using bb_Peek_hd [OF any] bb_PopCount_length [OF Aok] Asq by simp_all
  let ?w = "bb_Clear ?occ 0"
  have dir: "\<not> bb_Test (PieceAttacks 13 BLACK 2 ?w) 0"
    using probe_direct [OF P] screen_checker [of 2] unfolding opp.simps k screen_after_arr by simp
  have occ: "bb_Test ?w u \<longleftrightarrow> ?Q u" if "u < 81" for u
    using probe_occ [OF P that] that unfolding screen_after_arr by (auto simp: Test_Clear)
  have a9: "IsSquareAttacked g 9 ?w BLACK"
  proof -
    have "IsSquareAttacked g 9 ?w BLACK \<longleftrightarrow> (\<exists>t<81. t \<noteq> 2 \<and> att screen_arr' ?Q BLACK t 9)"
      unfolding screen_after_arr [symmetric] by (rule probe_attacked [OF P]) (use occ in \<open>simp_all add: screen_after_arr\<close>)
    moreover have "(27::nat) < 81 \<and> (27::nat) \<noteq> 2 \<and> att screen_arr' ?Q BLACK 27 9" using screen_covered(1) by (intro conjI) simp_all
    ultimately show ?thesis by blast
  qed
  have a10: "bb_Test (PieceAttacks 13 BLACK 2 ?w) 10"
  proof -
    have "bb_Test (PieceAttacks 13 BLACK 2 ?w) 10 \<longleftrightarrow> att screen_arr' ?Q BLACK 2 10"
      unfolding screen_after_arr [symmetric] by (rule probe_moved [OF P]) (use occ in \<open>simp_all add: screen_after_arr\<close>)
    then show ?thesis using screen_covered(2) by blast
  qed
  have white: "bb_Test (by_color g WHITE) u \<longleftrightarrow> u = 0 \<or> u = 1" if "u < 81" for u
    using board_okD(4) [OF d(1) that, of WHITE] by (auto simp: garr screen_arr piece_GetColor_def split: if_splits)
  have esc: "\<not> CanKingEscapeAfterMateProbe g BLACK 2 ?occ (PieceAttacks 13 BLACK 2 ?w)"
  proof -
    let ?T = "bb_And (KingEffectBB 0) (bb_Not (by_color g WHITE))"
    have Tok: "bb_ok ?T" using bb_ok_PieceAttacks [of 0 kKing] by (auto simp: PieceAttacks_def piece_type_defs intro!: bb_ok_And1)
    have "\<not> bb_Test (KingEffectBB 0) 2" by (simp add: step_defs Test_MakeStepBB delta_defs sq_file_def sq_rank_def)
    moreover have "u = 9 \<or> u = 10" if "u \<in> set (bb_squares ?T)" for u
    proof -
      have u: "u < 81" "bb_Test (KingEffectBB 0) u" "u \<noteq> 1" using that white unfolding set_bb_squares [OF Tok] by (auto simp: Test_And Test_Not)
      then have "(sq_file u, sq_rank u) \<in> {(0, 1), (1, 0), (1, 1)}"
        by (auto simp: step_defs Test_MakeStepBB delta_defs sq_file_def sq_rank_def)
      then show ?thesis using u(3) unfolding insert_iff empty_iff prod.inject sq_file_def sq_rank_def by presburger
    qed
    moreover have "2 \<notin> set (bb_squares ?T)" using calculation(1) unfolding set_bb_squares [OF Tok] by (auto simp: Test_And)
    ultimately show ?thesis
      using a9 a10 unfolding CanKingEscapeAfterMateProbe_def Let_def opp.simps k list_ex_iff by auto
  qed
  have silver: "\<not> att screen_arr' (occf screen_arr') WHITE t 27" if "t < 81" for t
    using that by (auto simp: att_def screen_arr reach_eval split: if_splits)
  have cap: "\<not> CanDefenderCaptureMateChecker g WHITE 27 ?occ"
  proof -
    let ?C = "bb_Clear (AttackersTo_c g 27 ?occ WHITE) 0"
    have Cok: "bb_ok ?C" by (intro bb_ok_Clear bb_ok_AttackersTo_c d(1)) simp
    have "\<not> bb_Test ?C t" if "t < 81" for t
      using probe_attackers(2) [OF P, of 27 t] silver [OF that] that unfolding screen_after_arr by (simp add: Test_Clear)
    then have "bb_Empty ?C" using bb_Any_iff_Test [OF Cok] by (simp add: bb_Empty_def)
    then show ?thesis by (simp add: CanDefenderCaptureMateChecker_def Let_def k)
  qed
  have inter: "\<not> CanDefenderInterposeMateCheck g WHITE (BetweenBB 0 27) ?occ"
  proof -
    let ?D = "bb_Clear (by_color g WHITE) 0" let ?B = "BetweenBB 0 27"
    have D: "bb_squares ?D = [1]"
      by (rule single_square) (use white board_okD(2) [OF d(1)] in \<open>auto simp: Test_Clear bb_ok_Clear\<close>)
    have pin: "bb_Test (bb_And (ComputeBlockersForKing g WHITE) (by_color g WHITE)) 1"
      using Test_probe_pinned [OF P, of 1] screen_geometry(4) unfolding opp.simps k garr
      by (auto simp: screen_arr piece_GetColor_def)
    have "bb_ok (bb_And X ?B)" for X by (intro bb_ok_And2 bb_ok_BetweenBB) simp
    moreover have "\<not> (bb_Test ?B t \<and> bb_Test (LineBB 1 0) t)" if t: "t < 81" for t
    proof
      assume "bb_Test ?B t \<and> bb_Test (LineBB 1 0) t"
      then have "betw 0 27 t" "on_line 1 0 t" using Test_BetweenBB_betw [of 0 27 t] Test_LineBB [of 1 0 t] t by simp_all
      then have "sq_rank t = 0" "sq_file t = 0" using screen_geometry(1,2) by blast+
      then have "t = 0" by (simp add: sq_file_def sq_rank_def)
      then have "betw 0 27 0" using \<open>betw 0 27 t\<close> by simp
      then show False by (auto simp: betw_def between_sq_def steps_to_def unit_dir_def)
    qed
    ultimately have "\<not> bb_Any (bb_And (bb_And X ?B) (LineBB 1 0))" for X
      using Any_and_iff by (auto simp: Test_And)
    then have p: "\<not> piece_interposes g WHITE (bb_And (ComputeBlockersForKing g WHITE) (by_color g WHITE)) ?B ?occ pt 1" for pt
      using pin by (simp add: piece_interposes_def Let_def k)
    have h: "\<not> hand_Has (hands g WHITE) pt" if "pt \<in> set [1..<8]" for pt
    proof -
      have "hands g WHITE = hand_Empty"
        using d(11) after_hands [OF variant_pre [OF screen_piece_move(1,2)]] by (simp add: screen_sel)
      then show ?thesis using that hand_Has_iff [of pt] by (simp add: pt_IsHandPiece_def hand_Count_Empty)
    qed
    show ?thesis
      unfolding CanDefenderInterposeMateCheck_def Let_def k D using p h by (auto simp: list_ex_iff)
  qed
  have "mate_probe g BLACK 13 2"
    unfolding mate_probe_def Let_def opp.simps k using any dir esc peek cap inter by (simp add: bb_Empty_def)
  then show ?thesis using eq by blast
qed

subsection \<open>The search returns it\<close>

lemma first_move_zero: "(\<And>x. x \<in> set xs \<Longrightarrow> f x = 0) \<Longrightarrow> first_move f xs = 0"
  by (induction xs) (simp_all add: Let_def move_is_null_def)

lemma first_move_least:
  assumes "bb_ok w" "q < 81" "bb_Test w q" "\<And>t. t < 81 \<Longrightarrow> bb_Test w t \<Longrightarrow> q \<le> t" "f q \<noteq> 0"
  shows "first_move f (bb_squares w) = f q"
proof -
  note s = set_bb_squares [OF assms(1)] sorted_bb_squares [OF assms(1)]
  have q: "q \<in> set (bb_squares w)" using s(1) assms(2,3) by blast
  then obtain x xs where x: "bb_squares w = x # xs" by (cases "bb_squares w") auto
  have "x \<le> q" using q s(2) x by auto
  moreover have "q \<le> x" using assms(4) [of x] s(1) x by auto
  ultimately show ?thesis using x assms(5) by (simp add: move_is_null_def)
qed

lemma screen_rook_stuck: "\<not> piece_move screen_board 27 to"
proof
  assume pm: "piece_move screen_board 27 to"
  then have to: "to < 81" and r: "reaches 6 (occf (board_arr screen_board)) 27 to"
    and own: "\<not> (board_arr screen_board to \<noteq> 0 \<and> piece_GetColor (board_arr screen_board to) = BLACK)"
    by (simp_all add: piece_move_def att_def screen_arr screen_sel)
  from r obtain d k where d: "d \<in> set rook_dirs" "1 \<le> k" "steps_to to d k 27"
    by (auto simp: reaches_def steps_at_def StepAttacks_def slides_def piece_GetType_mod piece_type_defs)
  have u: "unit_dir d" using d(1) unit_dir_rook_bishop by blast
  have bk: "steps_to 27 (neg_dir d) k to" using d(3) steps_to_neg by blast
  have "d \<noteq> (0, 1)" using d(3,2) by (auto simp: steps_to_def sq_rank_def)
  then consider "d = (0, -1)" | "d = (1, 0)" | "d = (-1, 0)" using d(1) by (auto simp: rook_dirs_def)
  then obtain v where v: "v \<in> {18, 28, 36}" "steps_to 27 (neg_dir d) 1 v"
  proof cases
    case 1
    then show thesis by (intro that [of 28]) (simp_all add: steps_to_def neg_dir_def sq_file_def sq_rank_def)
  next
    case 2
    then show thesis by (intro that [of 18]) (simp_all add: steps_to_def neg_dir_def sq_file_def sq_rank_def)
  next
    case 3
    then show thesis by (intro that [of 36]) (simp_all add: steps_to_def neg_dir_def sq_file_def sq_rank_def)
  qed
  have fv: "v < 81" "board_arr screen_board v \<noteq> 0" "piece_GetColor (board_arr screen_board v) = BLACK"
    using v(1) by (auto simp: screen_arr piece_GetColor_def)
  show False
  proof (cases "k = 1")
    case True
    then have "to = v" using steps_to_unique [OF bk _ to fv(1)] v(2) by simp
    then show False using own fv by simp
  next
    case False
    then have "\<not> reaches 6 (occf (board_arr screen_board)) 27 to"
      using d(2) u by (intro reaches_blocked [where occ = "occf (board_arr screen_board)" and u = v and j = 1 and k = k and d = "neg_dir d",
          OF to _ fv(1) _ bk v(2)]) (simp_all add: fv(2))
    then show False using r by simp
  qed
qed

lemma screen_search: "FindMateInOneNonCheck screen_board = screen_move"
proof -
  let ?b = screen_board
  note ok = screen_ok screen_safe
  let ?disc = "bb_And (ComputeBlockersForKing ?b WHITE) (by_color ?b BLACK)"
  let ?pinned = "bb_And (ComputeBlockersForKing ?b BLACK) (by_color ?b BLACK)"
  let ?src = "\<lambda>pt. bb_And (pieces_ct ?b BLACK pt) (bb_Or (direct_candidates ?b) ?disc)"
  let ?go = "\<lambda>pt. first_move (try_source ?b BLACK ?disc ?pinned pt) (bb_squares (?src pt))"
  have drops: "first_move (try_drops ?b BLACK) (drop_order BLACK 0) = 0"
  proof (rule first_move_zero)
    fix x assume x: "x \<in> set (drop_order BLACK 0)"
    obtain pt zone where e: "x = (pt, zone)" by (cases x)
    have "pt_IsHandPiece pt" using drop_order_types(1) x unfolding e by blast
    then have "\<not> hand_Has hand_Empty pt" using hand_Has_iff by simp
    then show "try_drops ?b BLACK x = 0" by (simp add: e try_drops_def screen_sel)
  qed
  have srcok: "bb_ok (?src pt)" if "1 \<le> pt" "pt < 16" for pt using bb_ok_pieces [OF ok(1)] that by (simp add: bb_ok_And1)
  have src: "bb_Test (?src pt) t \<Longrightarrow> board_arr ?b t = piece_Make BLACK pt" if "1 \<le> pt" "pt < 16" "t < 81" for pt t
    using Test_pieces_ct [OF ok(1) that(3,1,2), of BLACK] by (simp add: Test_And)
  have none: "?go pt = 0" if pt: "pt \<in> {kDragon, kHorse}" for pt
  proof (rule first_move_zero)
    fix t assume t: "t \<in> set (bb_squares (?src pt))"
    have p: "1 \<le> pt" "pt < 16" using pt by (auto simp: piece_type_defs)
    have "board_arr ?b t = piece_Make BLACK pt" using t src [OF p] set_bb_squares [OF srcok [OF p]] by blast
    then show "try_source ?b BLACK ?disc ?pinned pt t = 0" using pt by (auto simp: screen_arr piece_Make_def piece_type_defs split: if_splits)
  qed
  have rook: "?go kRook = 0"
  proof (rule first_move_zero)
    fix t assume t: "t \<in> set (bb_squares (?src kRook))"
    have a: "t < 81" "board_arr ?b t = piece_Make BLACK kRook"
      using t src [of kRook] set_bb_squares [OF srcok [of kRook]] by (auto simp: kRook_def)
    then have t27: "t = 27" by (auto simp: screen_arr piece_Make_def piece_type_defs split: if_splits)
    have "to \<notin> set (bb_squares (source_targets ?b BLACK ?pinned kRook 27))" for to
    proof
      assume "to \<in> set (bb_squares (source_targets ?b BLACK ?pinned kRook 27))"
      from source_targets_safe(1) [OF ok(1-3) [folded screen_sel(3)], of 27 kRook to, unfolded screen_sel(3), OF _ _ _ _ this]
      have "piece_move ?b 27 to" using a t27 by (simp add: kRook_def)
      then show False using screen_rook_stuck by blast
    qed
    then have "bb_squares (source_targets ?b BLACK ?pinned kRook 27) = []" by (metis list.set_intros(1) list.exhaust)
    then show "try_source ?b BLACK ?disc ?pinned kRook t = 0" by (simp add: try_source_def Let_def t27)
  qed
  have disc: "bb_Test ?disc 18"
    using Test_our_blockers [OF ok(1,2), of 18] screen_pin
    by (auto simp: our_blockers_def own_def screen_sel screen_arr piece_GetColor_def)
  let ?T = "source_targets ?b BLACK ?pinned kBishop 18"
  let ?attempt = "try_target (removed_bits ?b BLACK kBishop 18) BLACK True (LineBB 18 0) kBishop 18"
  have bish: "board_arr ?b 18 = piece_Make BLACK kBishop" by (simp add: screen_arr piece_Make_def piece_type_defs)
  have try2: "?attempt 2 = screen_move"
  proof -
    have "\<not> on_line 18 0 2"
      by (auto simp: on_line_def steps_to_def unit_dir_def neg_dir_def sq_file_def sq_rank_def)
    then have l: "\<not> bb_Test (LineBB 18 0) 2" using Test_LineBB [of 18 0 2] by simp
    have c: "CanPromote kBishop BLACK 18 2"
      using CanPromote_may [of 18 2] by (simp add: may_promote_def pt_CanPromote_def kBishop_def rank_ahead_def sq_rank_def)
    have p: "pt_Promote kBishop = 13" by (simp add: pt_Promote_def kBishop_def)
    note nz = screen_move_nonzero
    have "IsMateAfterMateProbe (removed_bits ?b BLACK kBishop 18) BLACK 13 2" using screen_mate_probe by (simp add: kBishop_def)
    then have "try_variant (removed_bits ?b BLACK kBishop 18) BLACK True 2 13 screen_move = screen_move"
      by (simp add: try_variant_def Let_def)
    then show ?thesis using l c p nz by (simp add: try_target_def Let_def move_is_null_def)
  qed
  have bishop: "?go kBishop = screen_move"
  proof -
    note nz = screen_move_nonzero
    have attk: "bb_Test (bb_And (PieceAttacks kBishop BLACK 18 (occupied ?b)) (bb_Not (by_color ?b BLACK))) 2"
      using target_iff [OF ok(1), of 18 2] screen_piece_move(1)
      by (simp add: screen_arr screen_sel own_def piece_GetColor_def piece_GetType_mod kBishop_def)
    have nopin: "\<not> bb_Test ?pinned 18"
    proof -
      have "\<not> pins (board_arr ?b) BLACK 44 18 t d n" for t d n
        by (auto simp: pins_def screen_arr slides_def piece_GetColor_def piece_GetType_mod piece_type_defs split: if_splits)
      then show ?thesis using Test_pinned [OF ok(1,2), of 18]
        by (simp add: screen_arr screen_sel own_def piece_GetColor_def)
    qed
    have Teq: "?T = bb_And (PieceAttacks kBishop BLACK 18 (occupied ?b)) (bb_Not (by_color ?b BLACK))"
      using nopin by (simp add: source_targets_def Let_def kBishop_def kKing_def)
    have Tok: "bb_ok ?T" unfolding Teq by (simp add: bb_ok_And1)
    have low: "2 \<le> t" if t: "t < 81" "bb_Test ?T t" for t
    proof -
      have "t \<in> set (bb_squares ?T)" using t set_bb_squares [OF Tok] by blast
      from source_targets_safe(1) [OF ok(1-3) [folded screen_sel(3)], of 18 kBishop t, unfolded screen_sel(3), OF _ bish _ _ this]
      have "piece_move ?b 18 t" by (simp add: kBishop_def)
      then have "reaches 5 (occf (board_arr ?b)) 18 t" by (simp add: piece_move_def att_def screen_arr)
      then have "t \<noteq> 0" "t \<noteq> 1"
        by (auto simp: reaches_def slides_def steps_at_def StepAttacks_def piece_GetType_mod piece_type_defs bishop_dirs_def
            steps_to_def sq_file_def sq_rank_def)
      then show ?thesis by linarith
    qed
    have one: "try_source ?b BLACK ?disc ?pinned kBishop 18 = screen_move"
      using first_move_least [OF Tok, of 2 ?attempt] attk try2 nz low disc
      by (simp add: try_source_def Let_def screen_sel Teq)
    have s18: "bb_squares (?src kBishop) = [18]"
    proof (rule single_square)
      show "bb_ok (?src kBishop)" by (rule srcok) (simp_all add: kBishop_def)
      fix t :: nat assume t: "t < 81"
      have "board_arr ?b t = piece_Make BLACK kBishop \<longleftrightarrow> t = 18"
        by (auto simp: screen_arr piece_Make_def piece_type_defs)
      then show "bb_Test (?src kBishop) t \<longleftrightarrow> t = 18"
        using Test_pieces_ct [OF ok(1) t, of kBishop BLACK] disc by (auto simp: Test_And Test_Or kBishop_def)
    qed simp
    show ?thesis using one nz by (simp add: s18 move_is_null_def)
  qed
  note nz = screen_move_nonzero
  have "first_move ?go kPieceOrder = screen_move"
    using none [of kDragon] none [of kHorse] rook bishop nz unfolding kPieceOrder_def by (simp add: Let_def move_is_null_def)
  then have "FindMateInOneNonCheckImpl ?b BLACK = screen_move"
    using drops unfolding FindMateInOneNonCheckImpl_def Let_def opp.simps screen_sel by (simp add: move_is_null_def)
  then show ?thesis by (simp add: FindMateInOneNonCheck_def screen_sel sq_IsValid_def)
qed

subsection \<open>The answer it overlooks\<close>

text \<open>The silver, freed by the horse on its own pinning line, steps between the rook and the king.\<close>

lemma screen_rule: "rule_move screen_board screen_move"
  unfolding rule_move_def using screen_piece_move(1,2) by blast

lemma screen_after:
  "board_ok (after_move screen_board screen_move)" "kings_ok (after_move screen_board screen_move)"
  "side_to_move (after_move screen_board screen_move) = WHITE"
  using after_kings [OF screen_ok _ screen_rule] screen_safe(2) by (simp_all add: screen_sel(3))

lemma screen_after_king: "king_sq (after_move screen_board screen_move) WHITE = 0"
  by (rule board_okD(6) [OF screen_after(1)]) (simp_all add: screen_after_arr screen_arr piece_Make_def kKing_def)

lemma screen_answer:
  "piece_move (after_move screen_board screen_move) 1 9"
  "move_variant (after_move screen_board screen_move) 1 9 (move_Normal 1 9)"
  "\<not> pins screen_arr' WHITE 0 1 t d n" "betw 0 27 9"
proof -
  have "reaches 20 occ 1 9" for occ by (simp add: reach_eval)
  then show "piece_move (after_move screen_board screen_move) 1 9"
    by (simp add: piece_move_def att_def screen_after_arr screen_after(3) screen_arr piece_GetColor_def)
  show "move_variant (after_move screen_board screen_move) 1 9 (move_Normal 1 9)"
    by (simp add: move_variant_def dead_end_def screen_after_arr screen_arr piece_GetType_mod piece_type_defs)
  show "\<not> pins screen_arr' WHITE 0 1 t d n"
  proof
    assume p: "pins screen_arr' WHITE 0 1 t d n"
    note q = p [unfolded pins_def]
    obtain j where j: "1 \<le> j" "steps_to 0 d j 1" using q unfolding between_sq_def by blast
    have "unit_dir d" using pins_dir [OF p] .
    then have d: "d = (0, 1)" using j by (auto simp: unit_dir_def steps_to_def sq_file_def sq_rank_def)
    have n: "steps_to 0 d n t" "1 \<le> n" "screen_arr' t \<noteq> 0" "piece_GetColor (screen_arr' t) = BLACK" using q by auto
    then have t: "sq_file t = 0" "sq_rank t = n" by (auto simp: d steps_to_def sq_file_def sq_rank_def)
    have "slides (screen_arr' t) (0, 1)" using q d by blast
    then have "t \<noteq> 2" by (auto simp: slides_def piece_GetType_mod piece_type_defs bishop_dirs_def)
    then have "t = 5" "n = 5" using n t by (auto simp: screen_arr sq_file_def sq_rank_def piece_GetColor_def split: if_splits)
    moreover have "steps_to 0 d 2 2" by (simp add: d steps_to_def sq_file_def sq_rank_def)
    ultimately have "between_sq 0 d n 2" unfolding between_sq_def by (intro exI [of _ "2::nat"]) simp
    moreover have "(2::nat) < 81" by simp
    moreover have "screen_arr' 2 \<noteq> 0" by simp
    moreover have "\<forall>w<81. between_sq 0 d n w \<and> screen_arr' w \<noteq> 0 \<longrightarrow> w = 1" using q by (elim conjE)
    ultimately have "(2::nat) = 1" by (metis (no_types))
    then show False by simp
  qed
  have "between_sq 0 (1, 0) 3 9" unfolding between_sq_def
    by (rule exI [of _ "1::nat"]) (simp add: steps_to_def sq_file_def sq_rank_def)
  then show "betw 0 27 9" using betw_on_ray [of "(1, 0)" 3 0 27 9]
    by (simp add: unit_dir_def steps_to_def sq_file_def sq_rank_def)
qed

text \<open>C31: On the position above the one-ply search returns the bishop move as mate in one. The move is
  legal and gives check, but the defender has a legal answer to it, the interposition of the silver.\<close>

theorem false_mate:
  "FindMateInOneNonCheck screen_board \<noteq> 0 \<and>
   FindMateInOneNonCheck screen_board \<in> set (GenerateLegalMoves screen_board) \<and>
   InCheck (after_move screen_board (FindMateInOneNonCheck screen_board)) WHITE \<and>
   GenerateLegalMoves (after_move screen_board (FindMateInOneNonCheck screen_board)) \<noteq> []"
proof -
  let ?b' = "after_move screen_board screen_move"
  note a = screen_answer(1,2)
  have "\<not> InCheck (after_move ?b' (move_Normal 1 9)) WHITE"
  proof -
    have "t = 27" if "t < 81" "att (board_arr ?b') (occf (board_arr ?b')) BLACK t 0" for t
      using that screen_checker [of t] unfolding screen_after_arr by blast
    then show ?thesis
      using safe_after_piece_move [OF screen_after(1,2) a] screen_answer(3,4)
      unfolding screen_after(3) screen_after_king screen_after_arr opp.simps by auto
  qed
  moreover have "rule_move ?b' (move_Normal 1 9)" unfolding rule_move_def using a by blast
  moreover have "\<not> pawn_drop_check ?b' (move_Normal 1 9)" by (simp add: pawn_drop_check_def)
  ultimately have "move_Normal 1 9 \<in> set (GenerateLegalMoves ?b')"
    by (intro legalI screen_after) (simp_all add: screen_after(3))
  moreover have "mate_found screen_board screen_move"
  proof (rule impl_found [OF screen_ok])
    show "screen_move = FindMateInOneNonCheckImpl screen_board (side_to_move screen_board)"
      using screen_search screen_move_nonzero by (auto simp: FindMateInOneNonCheck_def split: if_splits)
  qed (use screen_safe screen_move_nonzero in \<open>simp_all add: screen_sel(3)\<close>)
  ultimately show ?thesis using screen_search screen_move_nonzero by (auto simp: mate_found_def screen_sel(3))
qed

theorem FindMateInOneNonCheck_sound_witness:
  "screen_move \<in> set (GenerateLegalMoves screen_board) \<and> InCheck (after_move screen_board screen_move) WHITE"
  using FindMateInOneNonCheck_sound [OF screen_ok, of screen_move] screen_safe screen_search screen_move_nonzero
  by (simp add: screen_sel(3))

end
