(* ===== verification/ShallowMate.thy ===== *)
theory ShallowMate
  imports MateInOne GameRules
begin

text \<open>
  The depth-bounded mate search of mate/shallow_mate.h: the cancellation state, the hand-tuned
  three-ply search, the two alternating searches and the public probe.  The board is threaded
  through every \<open>DoMove\<close> and \<open>UndoMove\<close>.  The stop flag and the clock are readings of an
  environment, one per checkpoint.  What a search finds is stated on the game tree of the rules with
  the repetition verdicts (\<open>forced_win\<close>, \<open>forced_loss\<close>); the one-ply search that ends its lines may
  be wrong (\<open>one_ply_errs\<close>), so a claim is good unless that happens at a position of the tree.
\<close>

subsection \<open>Cancellation\<close>

datatype ProbeResult = kMate | kNoMate | kCancelled

text \<open>A deadline at the end of time is no deadline; \<open>has_stop\<close> says whether a stop flag was given,
  \<open>readings\<close> counts the checkpoints passed, which index the environment.\<close>

record search_limits =
  search_deadline :: "int option"
  has_stop :: bool
  was_cancelled :: bool
  clock_poll_counter :: "32 word"
  readings :: nat

type_synonym environment = "nat \<Rightarrow> bool \<times> int"

definition ShouldStop :: "environment \<Rightarrow> search_limits \<Rightarrow> bool \<times> search_limits" where
  "ShouldStop env l =
     (let (flag, now) = env (readings l);
          stop_requested = has_stop l \<and> flag;
          deadline_passed = (case search_deadline l of None \<Rightarrow> False
            | Some t \<Rightarrow> clock_poll_counter l AND 63 = 0 \<and> t \<le> now);
          l = (if search_deadline l \<noteq> None then l\<lparr>clock_poll_counter := clock_poll_counter l + 1\<rparr> else l);
          l = l\<lparr>readings := readings l + 1\<rparr>
      in if stop_requested \<or> deadline_passed then (True, l\<lparr>was_cancelled := True\<rparr>) else (False, l))"

type_synonym search_state = "shogi_board \<times> search_limits option"

text \<open>The test \<open>limits && limits->ShouldStop()\<close> at a checkpoint.\<close>

definition checkpoint :: "environment \<Rightarrow> search_state \<Rightarrow> bool \<times> search_state" where
  "checkpoint env s =
     (case snd s of None \<Rightarrow> (False, s)
      | Some l \<Rightarrow> let (stop, l) = ShouldStop env l in (stop, (fst s, Some l)))"

definition limits_cancelled :: "search_state \<Rightarrow> bool" where
  "limits_cancelled s = (case snd s of None \<Rightarrow> False | Some l \<Rightarrow> was_cancelled l)"

subsection \<open>Three plies\<close>

definition MoveGivesCheck :: "shogi_board \<Rightarrow> move \<Rightarrow> bool \<times> shogi_board" where
  "MoveGivesCheck b m =
     (let (undo, b) = DoMove b m; gives_check = InCheck b (side_to_move b) in (gives_check, UndoMove b m undo))"

definition kRepetitionLookbackPly :: int where
  "kRepetitionLookbackPly = 16"

text \<open>The loop over the evasions; the result is \<open>all_evasions_lose\<close>.\<close>

primrec reply_scan :: "environment \<Rightarrow> move list \<Rightarrow> search_state \<Rightarrow> bool \<times> search_state" where
  "reply_scan env [] s = (True, s)"
| "reply_scan env (m2 # ms) s =
     (let (stop, s) = checkpoint env s in
      if stop then (False, s)
      else
        let (undo2, b) = DoMove (fst s) m2 in
        if gave_check undo2 then (False, (UndoMove b m2 undo2, snd s))
        else
          let rep2 = fst (CheckRepetition b kRepetitionLookbackPly) in
          if rep2 = RepLoss \<or> rep2 = RepDraw then (False, (UndoMove b m2 undo2, snd s))
          else if rep2 = RepWin then reply_scan env ms (UndoMove b m2 undo2, snd s)
          else
            let found_mate1 = \<not> move_is_null (FindMateInOneNonCheck b);
                (stop, s) = checkpoint env (UndoMove b m2 undo2, snd s)
            in if stop then (False, s)
               else if \<not> found_mate1 then (False, s)
               else reply_scan env ms s)"

primrec check_scan :: "environment \<Rightarrow> move list \<Rightarrow> search_state \<Rightarrow> bool \<times> search_state" where
  "check_scan env [] s = (False, s)"
| "check_scan env (m1 # ms) s =
     (let (stop, s) = checkpoint env s in
      if stop then (False, s)
      else
        let (undo1, b) = DoMove_gc (fst s) m1 True;
            rep1 = fst (CheckRepetition b kRepetitionLookbackPly) in
        if rep1 = RepWin \<or> rep1 = RepDraw then check_scan env ms (UndoMove b m1 undo1, snd s)
        else if rep1 = RepLoss then (True, (UndoMove b m1 undo1, snd s))
        else
          let evasions = GenerateEvasionMoves b in
          if evasions = [] then (True, (UndoMove b m1 undo1, snd s))
          else
            let (all_evasions_lose, s) = reply_scan env evasions (b, snd s);
                s = (UndoMove (fst s) m1 undo1, snd s)
            in if limits_cancelled s then (False, s)
               else if all_evasions_lose then (True, s)
               else check_scan env ms s)"

definition checking_list :: "bool \<Rightarrow> shogi_board \<Rightarrow> move list" where
  "checking_list incheck b = (if incheck then GenerateCheckingMoves b else GenerateCheckingMovesNonCheck b)"

definition MateIn3Ply :: "environment \<Rightarrow> bool \<Rightarrow> search_state \<Rightarrow> bool \<times> search_state" where
  "MateIn3Ply env incheck s =
     (let (stop, s) = checkpoint env s in
      if stop then (False, s) else check_scan env (checking_list incheck (fst s)) s)"

subsection \<open>The alternating searches\<close>

primrec odd_scan ::
    "environment \<Rightarrow> (search_state \<Rightarrow> bool \<times> search_state) \<Rightarrow> move list \<Rightarrow> search_state \<Rightarrow> bool \<times> search_state" where
  "odd_scan env and_node [] s = (False, s)"
| "odd_scan env and_node (m # ms) s =
     (let (stop, s) = checkpoint env s in
      if stop then (False, s)
      else
        let (undo, b) = DoMove_gc (fst s) m True;
            rep = fst (CheckRepetition b kRepetitionLookbackPly) in
        if rep = RepLoss then (True, (UndoMove b m undo, snd s))
        else if rep = RepWin \<or> rep = RepDraw then odd_scan env and_node ms (UndoMove b m undo, snd s)
        else
          let (sub, s) = and_node (b, snd s);
              s = (UndoMove (fst s) m undo, snd s)
          in if limits_cancelled s then (False, s)
             else if sub then (True, s)
             else odd_scan env and_node ms s)"

primrec even_scan ::
    "environment \<Rightarrow> (bool \<Rightarrow> search_state \<Rightarrow> bool \<times> search_state) \<Rightarrow> move list \<Rightarrow> search_state \<Rightarrow> bool \<times> search_state" where
  "even_scan env or_node [] s = (True, s)"
| "even_scan env or_node (m # ms) s =
     (let (stop, s) = checkpoint env s in
      if stop then (False, s)
      else
        let (undo, b) = DoMove (fst s) m;
            rep = fst (CheckRepetition b kRepetitionLookbackPly) in
        if rep = RepWin then even_scan env or_node ms (UndoMove b m undo, snd s)
        else if rep = RepLoss \<or> rep = RepDraw then (False, (UndoMove b m undo, snd s))
        else
          let (sub, s) = or_node (gave_check undo) (b, snd s);
              s = (UndoMove (fst s) m undo, snd s)
          in if limits_cancelled s then (False, s)
             else if \<not> sub then (False, s)
             else even_scan env or_node ms s)"

text \<open>The template parameter is the first argument; depths 1 and 3 are the specialisations.\<close>

fun MateInOddPly :: "nat \<Rightarrow> environment \<Rightarrow> bool \<Rightarrow> search_state \<Rightarrow> bool \<times> search_state"
  and MateInEvenPly :: "nat \<Rightarrow> environment \<Rightarrow> search_state \<Rightarrow> bool \<times> search_state" where
  "MateInOddPly 0 env incheck s = (False, s)"
| "MateInOddPly (Suc d) env incheck s =
     (if d = 0 then
        let (stop, s) = checkpoint env s in
        if stop then (False, s)
        else (\<not> move_is_null (if incheck then FindMateInOne (fst s) else FindMateInOneNonCheck (fst s)), s)
      else if d = 2 then MateIn3Ply env incheck s
      else
        let (stop, s) = checkpoint env s in
        if stop then (False, s)
        else odd_scan env (\<lambda>s. MateInEvenPly d env s) (checking_list incheck (fst s)) s)"
| "MateInEvenPly 0 env s =
     (let (stop, s) = checkpoint env s in
      if stop then (False, s) else (\<not> HasLegalEvasion (fst s), s))"
| "MateInEvenPly (Suc d) env s =
     (let (stop, s) = checkpoint env s in
      if stop then (False, s)
      else
        let moves = GenerateEvasionMoves (fst s) in
        if moves = [] then (True, s)
        else even_scan env (\<lambda>c s. MateInOddPly d env c s) moves s)"

definition HasMateWithin :: "environment \<Rightarrow> nat \<Rightarrow> search_state \<Rightarrow> bool \<times> search_state" where
  "HasMateWithin env depth s =
     (let in_check = InCheck (fst s) (side_to_move (fst s)) in
      if depth = 1 \<or> depth = 3 \<or> depth = 5 \<or> depth = 7 then MateInOddPly depth env in_check s else (False, s))"

definition ProbeMateWithin :: "environment \<Rightarrow> nat \<Rightarrow> search_state \<Rightarrow> ProbeResult \<times> search_state" where
  "ProbeMateWithin env depth s =
     (let s = (fst s, map_option (\<lambda>l. l\<lparr>was_cancelled := False, clock_poll_counter := 0\<rparr>) (snd s));
          (mate, s) = HasMateWithin env depth s
      in if limits_cancelled s then (kCancelled, s) else (if mate then kMate else kNoMate, s))"

subsection \<open>The key, the counters and the history do not matter to the rules\<close>

definition relabel :: "u64 \<Rightarrow> (color \<Rightarrow> int) \<Rightarrow> history_entry list \<Rightarrow> shogi_board \<Rightarrow> shogi_board" where
  "relabel z cc hs b = b\<lparr>hash := z, continuous_check := cc, history := hs\<rparr>"

lemma relabel_sel:
  "board_arr (relabel z cc hs b) = board_arr b" "by_color (relabel z cc hs b) = by_color b" "by_type (relabel z cc hs b) = by_type b"
  "hands (relabel z cc hs b) = hands b" "king_sq (relabel z cc hs b) = king_sq b" "side_to_move (relabel z cc hs b) = side_to_move b"
  "piece_on (relabel z cc hs b) = piece_on b"
  by (simp_all add: relabel_def fun_eq_iff piece_on_def)

lemma relabel_reads:
  "occupied (relabel z cc hs b) = occupied b" "pieces_ct (relabel z cc hs b) = pieces_ct b" "own (relabel z cc hs b) = own b"
  "AttackersTo_c (relabel z cc hs b) = AttackersTo_c b" "IsSquareAttacked (relabel z cc hs b) = IsSquareAttacked b"
  "ComputeBlockersForKing (relabel z cc hs b) = ComputeBlockersForKing b" "InCheck (relabel z cc hs b) = InCheck b"
  "drop_squares (relabel z cc hs b) = drop_squares b"
  by (simp_all add: fun_eq_iff relabel_def occupied_def pieces_ct_def pieces_def own_def AttackersTo_c_def IsSquareAttacked_def
      golds_of_def rook_like_def bishop_like_def ComputeBlockersForKing_def pin_pieces_def InCheck_def drop_squares_def Let_def)

lemma relabel_ops:
  "set_hand (relabel z cc hs b) c h = relabel z cc hs (set_hand b c h)"
  "PutPiece (relabel z cc hs b) s v = relabel z cc hs (PutPiece b s v)"
  "RemovePiece (relabel z cc hs b) s = (fst (RemovePiece b s), relabel z cc hs (snd (RemovePiece b s)))"
  "(relabel z cc hs b)\<lparr>side_to_move := c, ply := n\<rparr> = relabel z cc hs (b\<lparr>side_to_move := c, ply := n\<rparr>)"
  "ply (relabel z cc hs b) = ply b"
  by (simp_all add: relabel_def set_hand_def PutPiece_def RemovePiece_def Let_def piece_on_def)

lemma relabel_movegen: "snd (DoMoveForMovegen (relabel z cc hs b) m) = relabel z cc hs (snd (DoMoveForMovegen b m))"
  by (simp add: DoMoveForMovegen_def DoMoveInternal_def do_drop_def do_board_move_def do_capture_def is_empty_def Let_def xor_hash_def relabel_sel relabel_ops
      split_def cong: if_cong)

lemma relabel_evasions:
  assumes "\<And>b. he (relabel z cc hs b) = he b"
  shows "evasions_with he (relabel z cc hs b) = evasions_with he b"
proof -
  have "pawn_drop_mate he (relabel z cc hs b) m = pawn_drop_mate he b m" for m
    by (simp add: pawn_drop_mate_def Let_def relabel_sel relabel_movegen assms)
  then have "IsLegal_with he (relabel z cc hs b) m p = IsLegal_with he b m p" for m p
    by (simp add: IsLegal_with_def Let_def relabel_sel relabel_reads)
  then have "blocking_drops he (relabel z cc hs b) = blocking_drops he b" "blocking_moves (relabel z cc hs b) = blocking_moves b"
    "king_evasions (relabel z cc hs b) = king_evasions b"
    by (simp_all add: fun_eq_iff blocking_drops_def blocking_moves_def king_evasions_def Let_def relabel_sel relabel_reads cong: if_cong)
  then show ?thesis by (simp add: evasions_with_def Let_def relabel_sel relabel_reads)
qed

lemma relabel_has_evasion: "has_evasion n (relabel z cc hs b) = has_evasion n b"
  by (induction n arbitrary: b) (simp_all add: relabel_evasions)

lemma relabel_legal_moves: "GenerateLegalMoves (relabel z cc hs b) = GenerateLegalMoves b"
proof -
  have he: "HasLegalEvasion (relabel z cc hs c) = HasLegalEvasion c" for c by (simp add: HasLegalEvasion_def relabel_has_evasion)
  then have "pawn_drop_mate HasLegalEvasion (relabel z cc hs b) = pawn_drop_mate HasLegalEvasion b"
    by (simp add: fun_eq_iff pawn_drop_mate_def Let_def relabel_sel relabel_movegen)
  moreover have "evasions_with HasLegalEvasion (relabel z cc hs b) = evasions_with HasLegalEvasion b"
    by (rule relabel_evasions) (rule he)
  moreover have "GenerateBoardMovesNonCheck (relabel z cc hs b) p = GenerateBoardMovesNonCheck b p" for p
    by (simp add: GenerateBoardMovesNonCheck_def king_safe_targets_def Let_def relabel_sel relabel_reads cong: if_cong)
  moreover have "GenerateDropMoves (relabel z cc hs b) = GenerateDropMoves b"
    by (simp add: GenerateDropMoves_def Let_def relabel_sel relabel_reads cong: if_cong)
  ultimately show ?thesis
    by (simp add: GenerateLegalMoves_def GenerateEvasionMoves_def GenerateEvasionMovesImpl_def Let_def relabel_sel relabel_reads)
qed

lemma DoMove_relabel:
  assumes "move_pre b m"
  obtains z cc hs where "snd (DoMove b m) = relabel z cc hs (after_move b m)"
  unfolding DoMove_def DoMoveForMovegen_def DoMoveInternal_eq [OF move_pre_neq [OF assms]] relabel_def by simp

subsection \<open>Forced wins\<close>

abbreviation next_pos :: "shogi_board \<Rightarrow> move \<Rightarrow> shogi_board" where
  "next_pos b m \<equiv> snd (DoMove b m)"

abbreviation verdict :: "shogi_board \<Rightarrow> RepetitionResult" where
  "verdict b \<equiv> fst (CheckRepetition b kRepetitionLookbackPly)"

definition checks :: "shogi_board \<Rightarrow> move \<Rightarrow> bool" where
  "checks b m \<longleftrightarrow> m \<in> set (GenerateLegalMoves b) \<and> InCheck (after_move b m) (opp (side_to_move b))"

text \<open>The positions at which the one-ply search is wrong: its answer is a check with a legal reply. The
  check is then a pure discovery whose mover screens a pin of the defender (see MateScreen).\<close>

definition one_ply_errs :: "shogi_board \<Rightarrow> bool" where
  "one_ply_errs b \<longleftrightarrow> (let m = FindMateInOneNonCheck b in \<not> InCheck b (side_to_move b) \<and> checks b m \<and>
     GenerateLegalMoves (next_pos b m) \<noteq> [] \<and> screens_pin b m \<and> \<not> moved_piece_checks b m)"

text \<open>A mate in one, or the answer of a one-ply search that is wrong.\<close>

definition claim_move :: "shogi_board \<Rightarrow> move \<Rightarrow> bool" where
  "claim_move b m \<longleftrightarrow> checks b m \<and>
     (GenerateLegalMoves (next_pos b m) = [] \<or> m = FindMateInOneNonCheck b \<and> one_ply_errs b)"

definition mate_claim :: "shogi_board \<Rightarrow> bool" where
  "mate_claim b \<longleftrightarrow> (\<exists>m. claim_move b m)"

text \<open>The attacker to move wins within the given number of plies by checks only; the defender to
  move loses.  The verdict of the repetition rule is from the side to move's point of view.\<close>

fun forced_win :: "nat \<Rightarrow> shogi_board \<Rightarrow> bool" and forced_loss :: "nat \<Rightarrow> shogi_board \<Rightarrow> bool" where
  "forced_win 0 b \<longleftrightarrow> False"
| "forced_win (Suc d) b \<longleftrightarrow> (\<exists>m. checks b m \<and> (GenerateLegalMoves (next_pos b m) = [] \<or>
     verdict (next_pos b m) = RepLoss \<or> verdict (next_pos b m) = RepNone \<and> forced_loss d (next_pos b m)))"
| "forced_loss 0 b \<longleftrightarrow> GenerateLegalMoves b = []"
| "forced_loss (Suc d) b \<longleftrightarrow> (\<forall>m \<in> set (GenerateLegalMoves b).
     verdict (next_pos b m) = RepWin \<or> verdict (next_pos b m) = RepNone \<and> forced_win d (next_pos b m))"

text \<open>The positions of the game: \<open>n\<close> plies on, with checks by the attacker and legal replies, each
  without a repetition verdict. The attacker is to move at the start when \<open>attacker\<close> holds.\<close>

inductive met :: "bool \<Rightarrow> shogi_board \<Rightarrow> nat \<Rightarrow> shogi_board \<Rightarrow> bool" where
  met_start: "met attacker b 0 b"
| met_check: "checks b m \<Longrightarrow> verdict (next_pos b m) = RepNone \<Longrightarrow> met False (next_pos b m) n c \<Longrightarrow> met True b (Suc n) c"
| met_reply: "m \<in> set (GenerateLegalMoves b) \<Longrightarrow> verdict (next_pos b m) = RepNone \<Longrightarrow> met True (next_pos b m) n c \<Longrightarrow> met False b (Suc n) c"

text \<open>Within the depth the attacker meets a position at which the one-ply search is wrong.\<close>

definition misled :: "bool \<Rightarrow> nat \<Rightarrow> shogi_board \<Rightarrow> bool" where
  "misled attacker d b \<longleftrightarrow> (\<exists>n c. met attacker b n c \<and> n < d \<and> (even n \<longleftrightarrow> attacker) \<and> one_ply_errs c)"

text \<open>The same game as the searches play it, with the claims of the one-ply search as wins.\<close>

fun attack_wins :: "nat \<Rightarrow> shogi_board \<Rightarrow> bool" and defence_loses :: "nat \<Rightarrow> shogi_board \<Rightarrow> bool" where
  "attack_wins 0 b \<longleftrightarrow> False"
| "attack_wins (Suc d) b \<longleftrightarrow> mate_claim b \<or>
     (\<exists>m. checks b m \<and> (verdict (next_pos b m) = RepLoss \<or> verdict (next_pos b m) = RepNone \<and> defence_loses d (next_pos b m)))"
| "defence_loses 0 b \<longleftrightarrow> GenerateLegalMoves b = []"
| "defence_loses (Suc d) b \<longleftrightarrow> (\<forall>m \<in> set (GenerateLegalMoves b).
     verdict (next_pos b m) = RepWin \<or> verdict (next_pos b m) = RepNone \<and> attack_wins d (next_pos b m))"

lemma misled_check: "checks b m \<Longrightarrow> verdict (next_pos b m) = RepNone \<Longrightarrow> misled False d (next_pos b m) \<Longrightarrow> misled True (Suc d) b"
  unfolding misled_def using met_check by fastforce

lemma misled_reply:
  "m \<in> set (GenerateLegalMoves b) \<Longrightarrow> verdict (next_pos b m) = RepNone \<Longrightarrow> misled True d (next_pos b m) \<Longrightarrow> misled False (Suc d) b"
  unfolding misled_def using met_reply by fastforce

text \<open>What the searches count as won is won, unless the one-ply search is wrong on the way.\<close>

lemma claims_forced:
  "(attack_wins d b \<longrightarrow> forced_win d b \<or> misled True d b) \<and> (defence_loses d b \<longrightarrow> forced_loss d b \<or> misled False d b)"
proof (induction d arbitrary: b)
  case (Suc d)
  have "misled True (Suc d) b" if "one_ply_errs b" using that met_start by (fastforce simp: misled_def)
  then have "forced_win (Suc d) b \<or> misled True (Suc d) b" if "attack_wins (Suc d) b"
    using that Suc.IH misled_check unfolding attack_wins.simps forced_win.simps mate_claim_def claim_move_def by meson
  moreover have "forced_loss (Suc d) b \<or> misled False (Suc d) b" if "defence_loses (Suc d) b"
    using that Suc.IH misled_reply unfolding defence_loses.simps forced_loss.simps by meson
  ultimately show ?case by blast
qed simp

subsection \<open>Checkpoints\<close>

definition asked :: "environment \<Rightarrow> search_limits \<Rightarrow> nat \<Rightarrow> bool" where
  "asked env l i \<longleftrightarrow> has_stop l \<and> fst (env i) \<or> (\<exists>t. search_deadline l = Some t \<and> t \<le> snd (env i))"

text \<open>The limits after some checkpoints: the same deadline and stop flag, cancelled only when one of
  the readings asked for it.\<close>

fun limits_later :: "environment \<Rightarrow> search_limits option \<Rightarrow> search_limits option \<Rightarrow> bool" where
  "limits_later env None x \<longleftrightarrow> x = None"
| "limits_later env (Some l) None \<longleftrightarrow> False"
| "limits_later env (Some l) (Some l') \<longleftrightarrow> search_deadline l' = search_deadline l \<and> has_stop l' = has_stop l \<and>
     readings l \<le> readings l' \<and> (was_cancelled l \<longrightarrow> was_cancelled l') \<and>
     (was_cancelled l' \<longrightarrow> was_cancelled l \<or> (\<exists>i. readings l \<le> i \<and> i < readings l' \<and> asked env l i))"

lemma limits_later_refl [simp]: "limits_later env x x"
  by (cases x) simp_all

lemma limits_later_trans: "limits_later env x y \<Longrightarrow> limits_later env y z \<Longrightarrow> limits_later env x z"
  by (cases x; cases y; cases z) (auto simp: asked_def intro: order_trans less_le_trans)

lemma checkpoint_later:
  assumes "checkpoint env s = (stop, s')"
  shows "fst s' = fst s" "limits_later env (snd s) (snd s')"
proof -
  show "fst s' = fst s" using assms by (auto simp: checkpoint_def split: option.splits prod.splits)
  show "limits_later env (snd s) (snd s')"
  proof (cases "snd s")
    case None
    then show ?thesis using assms by (auto simp: checkpoint_def)
  next
    case (Some l)
    then have s': "snd s' = Some (snd (ShouldStop env l))" using assms by (auto simp: checkpoint_def split: prod.splits)
    have "limits_later env (Some l) (Some (snd (ShouldStop env l)))"
      by (cases "env (readings l)"; cases "search_deadline l") (auto simp: ShouldStop_def Let_def asked_def)
    then show ?thesis using Some s' by simp
  qed
qed

text \<open>What a search started in state \<open>s\<close> may return: the board it was given, later limits, and
  \<open>True\<close> only when \<open>Q\<close> holds.\<close>

definition answers :: "environment \<Rightarrow> search_state \<Rightarrow> bool \<Rightarrow> bool \<times> search_state \<Rightarrow> bool" where
  "answers env s Q x \<longleftrightarrow> fst (snd x) = fst s \<and> limits_later env (snd s) (snd (snd x)) \<and> (fst x \<longrightarrow> Q)"

lemma answers_mono: "answers env s Q x \<Longrightarrow> (Q \<Longrightarrow> Q') \<Longrightarrow> answers env s Q' x"
  by (auto simp: answers_def)

lemma answers_same: "(r \<Longrightarrow> Q) \<Longrightarrow> answers env s Q (r, s)"
  by (simp add: answers_def)

lemma answers_later: "limits_later env l l' \<Longrightarrow> answers env (b, l') Q x \<Longrightarrow> answers env (b, l) Q x"
  by (auto simp: answers_def intro: limits_later_trans)

lemma checkpoint_cases:
  obtains (stop) l' where "checkpoint env (b, l) = (True, (b, l'))" "limits_later env l l'"
  | (go) l' where "checkpoint env (b, l) = (False, (b, l'))" "limits_later env l l'"
proof -
  obtain r s' where Pair: "checkpoint env (b, l) = (r, s')" by (rule prod.exhaust)
  note c = checkpoint_later [OF Pair]
  then have "s' = (b, snd s')" by (simp add: prod_eq_iff)
  then show thesis using Pair c(2) stop go by (cases r) simp_all
qed

text \<open>After a nested search has been taken back a cancelled search answers no.\<close>

lemma answers_nested:
  assumes "answers env (b', l) P (r, s)"
    and "r \<Longrightarrow> P \<Longrightarrow> answers env (b, snd s) Q yes" "\<not> r \<Longrightarrow> answers env (b, snd s) Q no"
  shows "answers env (b, l) Q (if limits_cancelled (b, snd s) then (False, (b, snd s)) else if r then yes else no)"
proof -
  have s: "limits_later env l (snd s)" "r \<longrightarrow> P" using assms(1) by (simp_all add: answers_def)
  show ?thesis by (rule answers_later [OF s(1)]) (use assms(2,3) s(2) in \<open>simp add: answers_same\<close>)
qed

subsection \<open>Steps of the game\<close>

lemma legal_step_facts:
  assumes "lawful b" "m \<in> set (GenerateLegalMoves b)"
  shows "lawful (next_pos b m)" "side_to_move (next_pos b m) = opp (side_to_move b)"
    "UndoMove (next_pos b m) m (fst (DoMove b m)) = b"
    "gave_check (fst (DoMove b m)) = InCheck (after_move b m) (opp (side_to_move b))"
    "InCheck (next_pos b m) c = InCheck (after_move b m) c"
    "GenerateLegalMoves (next_pos b m) = GenerateLegalMoves (after_move b m)"
proof -
  have ok: "board_ok b" "kings_ok b" using assms(1) by (simp_all add: lawful_def)
  show "lawful (next_pos b m)" "side_to_move (next_pos b m) = opp (side_to_move b)"
    "UndoMove (next_pos b m) m (fst (DoMove b m)) = b" using lawful_step [OF assms] by simp_all
  have pre: "move_pre b m" using rule_move_pre(1) set_legal_moves [OF ok] assms(2) by blast
  obtain z cc hs where r: "next_pos b m = relabel z cc hs (after_move b m)" by (rule DoMove_relabel [OF pre])
  show "InCheck (next_pos b m) c = InCheck (after_move b m) c"
    "GenerateLegalMoves (next_pos b m) = GenerateLegalMoves (after_move b m)"
    unfolding r by (simp_all add: relabel_reads relabel_legal_moves)
  show "gave_check (fst (DoMove b m)) = InCheck (after_move b m) (opp (side_to_move b))"
    unfolding after_eq(4) [OF pre] by (simp add: DoMove_def DoMoveInternal_eq [OF move_pre_neq [OF pre]] move_gives_check_def)
qed

lemma check_facts:
  assumes "lawful b" "checks b m"
  shows "DoMove_gc b m True = DoMove b m" "InCheck (next_pos b m) (side_to_move (next_pos b m))"
    "GenerateEvasionMoves (next_pos b m) = GenerateLegalMoves (next_pos b m)"
proof -
  have m: "m \<in> set (GenerateLegalMoves b)" "InCheck (after_move b m) (opp (side_to_move b))" using assms(2) by (simp_all add: checks_def)
  note l = legal_step_facts [OF assms(1) m(1)]
  have ok: "board_ok b" "kings_ok b" using assms(1) by (simp_all add: lawful_def)
  have pre: "move_pre b m" using rule_move_pre(1) set_legal_moves [OF ok] m(1) by blast
  have g: "move_gives_check b m (-1) = move_gives_check b m 1"
    using m(2) unfolding after_eq(4) [OF pre] by (simp add: move_gives_check_def)
  show "DoMove_gc b m True = DoMove b m"
    by (simp add: DoMove_gc_def DoMove_def DoMoveInternal_eq [OF move_pre_neq [OF pre]] g)
  show chk: "InCheck (next_pos b m) (side_to_move (next_pos b m))" using m(2) l(2,5) by simp
  then show "GenerateEvasionMoves (next_pos b m) = GenerateLegalMoves (next_pos b m)" by (simp add: GenerateLegalMoves_def)
qed

lemma checking_list_iff:
  assumes "lawful b"
  shows "m \<in> set (checking_list (InCheck b (side_to_move b)) b) \<longleftrightarrow> checks b m"
proof -
  have ok: "board_ok b" "kings_ok b" "\<not> InCheck b (opp (side_to_move b))" using assms by (simp_all add: lawful_def)
  show ?thesis using set_checking_moves_filter [OF ok] set_checking_moves_noncheck [OF ok]
    by (auto simp: checking_list_def GenerateCheckingMoves_def checks_def)
qed

subsection \<open>The scans\<close>

lemma answers_odd_scan:
  assumes b: "lawful b" and "\<And>m. m \<in> set ms \<Longrightarrow> checks b m"
    and "\<And>m l. m \<in> set ms \<Longrightarrow> verdict (next_pos b m) = RepNone \<Longrightarrow> answers env (next_pos b m, l) (P m) (and_node (next_pos b m, l))"
  shows "answers env (b, l) (\<exists>m\<in>set ms. verdict (next_pos b m) = RepLoss \<or> verdict (next_pos b m) = RepNone \<and> P m)
    (odd_scan env and_node ms (b, l))"
  using assms(2,3)
proof (induction ms arbitrary: l)
  case Nil
  then show ?case by (simp add: answers_same)
next
  case (Cons m ms)
  let ?Q = "\<exists>m\<in>set (m # ms). verdict (next_pos b m) = RepLoss \<or> verdict (next_pos b m) = RepNone \<and> P m"
  have chk: "checks b m" using Cons.prems(1) by simp
  note st = legal_step_facts(3) [OF b, of m] check_facts(1) [OF b chk]
  have undo: "UndoMove (next_pos b m) m (fst (DoMove b m)) = b" using st(1) chk by (simp add: checks_def)
  have rest: "answers env (b, l) ?Q (odd_scan env and_node ms (b, l))" for l
    by (rule answers_mono, rule Cons.IH) (use Cons.prems in auto)
  show ?case
  proof (cases rule: checkpoint_cases [of env b l])
    case (stop l')
    then show ?thesis by (intro answers_later [OF stop(2)]) (simp add: answers_same)
  next
    case (go l')
    show ?thesis
    proof (rule answers_later [OF go(2)], cases "verdict (next_pos b m)")
      case RepNone
      obtain r s where x: "and_node (next_pos b m, l') = (r, s)" by (rule prod.exhaust)
      have a: "answers env (next_pos b m, l') (P m) (r, s)" using Cons.prems(2) [of m l'] RepNone x by simp
      then have "fst s = next_pos b m" by (simp add: answers_def)
      then have "odd_scan env and_node (m # ms) (b, l) =
          (if limits_cancelled (b, snd s) then (False, (b, snd s)) else if r then (True, (b, snd s)) else odd_scan env and_node ms (b, snd s))"
        using RepNone by (simp add: go st(2) x undo case_prod_beta)
      moreover have "answers env (b, l') ?Q \<dots>" by (rule answers_nested [OF a]) (use RepNone rest in \<open>auto simp: answers_same\<close>)
      ultimately show "answers env (b, l') ?Q (odd_scan env and_node (m # ms) (b, l))" by simp
    qed (use rest in \<open>simp_all add: go st(2) undo case_prod_beta answers_same\<close>)
  qed
qed

text \<open>The reply of the defender at the even nodes.\<close>

definition reply_loses :: "(shogi_board \<Rightarrow> bool) \<Rightarrow> shogi_board \<Rightarrow> move \<Rightarrow> bool" where
  "reply_loses W b m \<longleftrightarrow> verdict (next_pos b m) = RepWin \<or> verdict (next_pos b m) = RepNone \<and> W (next_pos b m)"

lemma answers_even_scan:
  assumes b: "lawful b" and "\<And>m. m \<in> set ms \<Longrightarrow> m \<in> set (GenerateLegalMoves b)"
    and "\<And>m l. m \<in> set ms \<Longrightarrow> verdict (next_pos b m) = RepNone \<Longrightarrow>
      answers env (next_pos b m, l) (W (next_pos b m)) (or_node (gave_check (fst (DoMove b m))) (next_pos b m, l))"
  shows "answers env (b, l) (\<forall>m\<in>set ms. reply_loses W b m) (even_scan env or_node ms (b, l))"
  using assms(2,3)
proof (induction ms arbitrary: l)
  case Nil
  then show ?case by (simp add: answers_same)
next
  case (Cons m ms)
  let ?Q = "\<forall>m\<in>set (m # ms). reply_loses W b m"
  have undo: "UndoMove (next_pos b m) m (fst (DoMove b m)) = b" using legal_step_facts(3) [OF b] Cons.prems(1) by simp
  have rest: "reply_loses W b m \<Longrightarrow> answers env (b, l) ?Q (even_scan env or_node ms (b, l))" for l
    by (rule answers_mono, rule Cons.IH) (use Cons.prems in auto)
  show ?case
  proof (cases rule: checkpoint_cases [of env b l])
    case (stop l')
    then show ?thesis by (intro answers_later [OF stop(2)]) (simp add: answers_same)
  next
    case (go l')
    show ?thesis
    proof (rule answers_later [OF go(2)], cases "verdict (next_pos b m)")
      case RepNone
      obtain r s where x: "or_node (gave_check (fst (DoMove b m))) (next_pos b m, l') = (r, s)" by (rule prod.exhaust)
      have a: "answers env (next_pos b m, l') (W (next_pos b m)) (r, s)" using Cons.prems(2) [of m l'] RepNone x by simp
      then have "fst s = next_pos b m" by (simp add: answers_def)
      then have "even_scan env or_node (m # ms) (b, l) =
          (if limits_cancelled (b, snd s) then (False, (b, snd s)) else if r then even_scan env or_node ms (b, snd s) else (False, (b, snd s)))"
        using RepNone by (simp add: go x undo case_prod_beta)
      moreover have "answers env (b, l') ?Q \<dots>"
      proof (rule answers_nested [OF a])
        assume "W (next_pos b m)"
        then show "answers env (b, snd s) ?Q (even_scan env or_node ms (b, snd s))"
          using RepNone by (intro rest) (simp add: reply_loses_def)
      qed (simp add: answers_same)
      ultimately show "answers env (b, l') ?Q (even_scan env or_node (m # ms) (b, l))" by simp
    qed (use rest in \<open>simp_all add: go undo case_prod_beta answers_same reply_loses_def\<close>)
  qed
qed

subsection \<open>One and three plies\<close>

lemma one_ply_claim:
  assumes "lawful b" "\<not> InCheck b (side_to_move b)" "\<not> move_is_null (FindMateInOneNonCheck b)"
  shows "claim_move b (FindMateInOneNonCheck b)"
proof -
  have ok: "board_ok b" "kings_ok b" "\<not> InCheck b (opp (side_to_move b))" using assms(1) by (simp_all add: lawful_def)
  let ?m = "FindMateInOneNonCheck b"
  have nz: "?m \<noteq> 0" using assms(3) by (simp add: move_is_null_def)
  have "?m = FindMateInOneNonCheckImpl b (side_to_move b)"
    using nz by (auto simp: FindMateInOneNonCheck_def)
  from impl_found [OF ok(1,2) assms(2) ok(3) this nz] have m: "mate_found b ?m" .
  then have "checks b ?m" by (simp add: mate_found_def checks_def)
  moreover have "GenerateLegalMoves (next_pos b ?m) = [] \<or> screens_pin b ?m \<and> \<not> moved_piece_checks b ?m"
    using m legal_step_facts(6) [OF assms(1), of ?m] unfolding mate_found_def by metis
  ultimately show ?thesis using assms(2) unfolding claim_move_def one_ply_errs_def Let_def by blast
qed

lemma in_check_claim:
  assumes "lawful b" "\<not> move_is_null (FindMateInOne b)"
  shows "claim_move b (FindMateInOne b)"
proof (cases "InCheck b (side_to_move b)")
  case False
  then have "FindMateInOne b = FindMateInOneNonCheck b"
    using assms(2) by (auto simp: FindMateInOne_def move_is_null_def split: if_splits)
  then show ?thesis using one_ply_claim [OF assms(1) False] assms(2) by simp
next
  case True
  let ?f = "\<lambda>m. if \<not> HasLegalEvasion (snd (DoMove_gc b m True)) then m else 0"
  have f: "FindMateInOne b = first_move ?f (GenerateCheckingMoves b)" "first_move ?f (GenerateCheckingMoves b) \<noteq> 0"
    using True assms(2) by (auto simp: FindMateInOne_def move_is_null_def split: if_splits)
  then obtain m where m: "m \<in> set (GenerateCheckingMoves b)" "\<not> HasLegalEvasion (snd (DoMove_gc b m True))" "FindMateInOne b = m"
    using first_move_found [of ?f "GenerateCheckingMoves b"] by (auto split: if_splits)
  have c: "checks b m" using checking_list_iff [OF assms(1), of m] m(1) True by (simp add: checking_list_def)
  note k = check_facts [OF assms(1) c]
  have l: "lawful (next_pos b m)" using legal_step_facts(1) [OF assms(1)] c by (simp add: checks_def)
  have "GenerateLegalMoves (next_pos b m) = []"
    using HasLegalEvasion_iff [of "next_pos b m"] l m(2) k(1,2) by (simp add: lawful_def)
  then show ?thesis unfolding claim_move_def m(3) using c by blast
qed

lemma answers_reply_scan:
  assumes b: "lawful b" and "\<And>m. m \<in> set ms \<Longrightarrow> m \<in> set (GenerateLegalMoves b)"
  shows "answers env (b, l) (\<forall>m\<in>set ms. reply_loses mate_claim b m) (reply_scan env ms (b, l))"
  using assms(2)
proof (induction ms arbitrary: l)
  case Nil
  then show ?case by (simp add: answers_same)
next
  case (Cons m ms)
  let ?Q = "\<forall>m\<in>set (m # ms). reply_loses mate_claim b m"
  note f = legal_step_facts [OF b, of m]
  have m: "m \<in> set (GenerateLegalMoves b)" using Cons.prems by simp
  have undo: "UndoMove (next_pos b m) m (fst (DoMove b m)) = b" using f(3) m by simp
  have rest: "reply_loses mate_claim b m \<Longrightarrow> answers env (b, l) ?Q (reply_scan env ms (b, l))" for l
    by (rule answers_mono, rule Cons.IH) (use Cons.prems in auto)
  have claim: "mate_claim (next_pos b m)" if "\<not> gave_check (fst (DoMove b m))" "\<not> move_is_null (FindMateInOneNonCheck (next_pos b m))"
    unfolding mate_claim_def by (rule exI, rule one_ply_claim) (use that f m in simp_all)
  show ?case
  proof (cases rule: checkpoint_cases [of env b l])
    case (stop l')
    then show ?thesis by (intro answers_later [OF stop(2)]) (simp add: answers_same)
  next
    case (go l')
    have "answers env (b, l') ?Q (reply_scan env (m # ms) (b, l))"
    proof (cases "gave_check (fst (DoMove b m)) \<or> verdict (next_pos b m) \<noteq> RepNone")
      case True
      then show ?thesis
        by (cases "verdict (next_pos b m)") (use rest in \<open>auto simp: go(1) undo case_prod_beta answers_same reply_loses_def\<close>)
    next
      case False
      show ?thesis
      proof (cases rule: checkpoint_cases [of env b l'])
        case (stop l'')
        then show ?thesis
          by (intro answers_later [OF stop(2)]) (use False in \<open>simp add: go(1) stop(1) undo case_prod_beta answers_same\<close>)
      next
        case go2: (go l'')
        show ?thesis
        proof (rule answers_later [OF go2(2)], cases "move_is_null (FindMateInOneNonCheck (next_pos b m))")
          case null: False
          have "reply_loses mate_claim b m" using False null claim by (simp add: reply_loses_def)
          from rest [OF this, of l''] show "answers env (b, l'') ?Q (reply_scan env (m # ms) (b, l))"
            using False null by (simp add: go(1) go2(1) undo case_prod_beta)
        qed (use False in \<open>simp add: go(1) go2(1) undo case_prod_beta answers_same\<close>)
      qed
    qed
    then show ?thesis by (rule answers_later [OF go(2)])
  qed
qed

lemma answers_check_scan:
  assumes b: "lawful b" and "\<And>m. m \<in> set ms \<Longrightarrow> checks b m"
  shows "answers env (b, l) (attack_wins 3 b) (check_scan env ms (b, l))"
  using assms(2)
proof (induction ms arbitrary: l)
  case Nil
  then show ?case by (simp add: answers_same)
next
  case (Cons m ms)
  have chk: "checks b m" using Cons.prems by simp
  note f = legal_step_facts [OF b, of m] and k = check_facts [OF b chk]
  let ?b' = "next_pos b m"
  have l': "lawful ?b'" and undo: "UndoMove ?b' m (fst (DoMove b m)) = b" using f(1,3) chk by (simp_all add: checks_def)
  have rest: "answers env (b, l) (attack_wins 3 b) (check_scan env ms (b, l))" for l
    by (rule Cons.IH) (use Cons.prems in auto)
  have win: "attack_wins 3 b" if "verdict ?b' = RepLoss \<or> verdict ?b' = RepNone \<and> defence_loses 2 ?b'"
    using chk that by (auto simp: numeral_3_eq_3 numeral_2_eq_2)
  show ?case
  proof (cases rule: checkpoint_cases [of env b l])
    case (stop l')
    then show ?thesis by (intro answers_later [OF stop(2)]) (simp add: answers_same)
  next
    case (go l')
    show ?thesis
    proof (rule answers_later [OF go(2)], cases "verdict ?b'")
      case RepNone
      show "answers env (b, l') (attack_wins 3 b) (check_scan env (m # ms) (b, l))"
      proof (cases "GenerateLegalMoves ?b' = []")
        case True
        then have "defence_loses 2 ?b'" by (simp add: numeral_2_eq_2)
        then show ?thesis using win RepNone True by (simp add: go k undo case_prod_beta answers_same)
      next
        case False
        obtain r s where x: "reply_scan env (GenerateLegalMoves ?b') (?b', l') = (r, s)" by (rule prod.exhaust)
        have a: "answers env (?b', l') (\<forall>m\<in>set (GenerateLegalMoves ?b'). reply_loses mate_claim ?b' m) (r, s)"
          unfolding x [symmetric] by (rule answers_reply_scan [OF l'])
        then have "fst s = ?b'" by (simp add: answers_def)
        then have "check_scan env (m # ms) (b, l) =
            (if limits_cancelled (b, snd s) then (False, (b, snd s)) else if r then (True, (b, snd s)) else check_scan env ms (b, snd s))"
          using RepNone False by (simp add: go k x undo case_prod_beta)
        moreover have "answers env (b, l') (attack_wins 3 b) \<dots>"
        proof (rule answers_nested [OF a])
          assume "\<forall>m\<in>set (GenerateLegalMoves ?b'). reply_loses mate_claim ?b' m"
          then have "defence_loses 2 ?b'" by (auto simp: numeral_2_eq_2 reply_loses_def)
          then show "answers env (b, snd s) (attack_wins 3 b) (True, (b, snd s))" using win RepNone by (simp add: answers_same)
        qed (rule rest)
        ultimately show ?thesis by simp
      qed
    qed (use rest win in \<open>simp_all add: go k undo case_prod_beta answers_same\<close>)
  qed
qed

subsection \<open>The searches of every depth\<close>

lemma searches_sound:
  "(\<forall>b l. lawful b \<longrightarrow> answers env (b, l) (attack_wins d b) (MateInOddPly d env (InCheck b (side_to_move b)) (b, l))) \<and>
   (\<forall>b l. lawful b \<and> InCheck b (side_to_move b) \<longrightarrow> answers env (b, l) (defence_loses d b) (MateInEvenPly d env (b, l)))"
proof (induction d)
  case 0
  have "answers env (b, l) (defence_loses 0 b) (MateInEvenPly 0 env (b, l))" if "lawful b" "InCheck b (side_to_move b)" for b l
  proof (cases rule: checkpoint_cases [of env b l])
    case (stop l')
    then show ?thesis by (intro answers_later [OF stop(2)]) (simp add: answers_same)
  next
    case (go l')
    have "HasLegalEvasion b \<longleftrightarrow> GenerateLegalMoves b \<noteq> []" using that by (intro HasLegalEvasion_iff) (simp_all add: lawful_def)
    then show ?thesis by (intro answers_later [OF go(2)]) (simp add: go(1) answers_same)
  qed
  then show ?case by (simp add: answers_same)
next
  case (Suc d)
  have odd: "answers env (b, l) (attack_wins (Suc d) b) (MateInOddPly (Suc d) env (InCheck b (side_to_move b)) (b, l))"
    if l: "lawful b" for b l
  proof (cases rule: checkpoint_cases [of env b l])
    case (stop l')
    then show ?thesis by (intro answers_later [OF stop(2)]) (simp add: answers_same MateIn3Ply_def)
  next
    case (go l')
    let ?ms = "checking_list (InCheck b (side_to_move b)) b"
    note ms = checking_list_iff [OF l, THEN iffD1]
    consider "d = 0" | "d = 2" | "d \<noteq> 0" "d \<noteq> 2" by blast
    then have "answers env (b, l') (attack_wins (Suc d) b) (MateInOddPly (Suc d) env (InCheck b (side_to_move b)) (b, l))"
    proof cases
      case 1
      have "mate_claim b" if "\<not> move_is_null (if InCheck b (side_to_move b) then FindMateInOne b else FindMateInOneNonCheck b)"
        using that one_ply_claim [OF l] in_check_claim [OF l] unfolding mate_claim_def by (auto split: if_splits)
      then show ?thesis using 1 by (simp add: go(1) answers_same)
    next
      case 2
      then show ?thesis using answers_check_scan [OF l ms, of ?ms env l'] by (simp add: go(1) MateIn3Ply_def numeral_3_eq_3)
    next
      case 3
      have "answers env (b, l') (\<exists>m\<in>set ?ms. verdict (next_pos b m) = RepLoss \<or> verdict (next_pos b m) = RepNone \<and> defence_loses d (next_pos b m))
        (odd_scan env (\<lambda>s. MateInEvenPly d env s) ?ms (b, l'))"
      proof (rule answers_odd_scan [OF l ms])
        fix m l assume m: "m \<in> set ?ms"
        have c: "checks b m" by (rule ms [OF m])
        show "answers env (next_pos b m, l) (defence_loses d (next_pos b m)) (MateInEvenPly d env (next_pos b m, l))"
          using Suc.IH check_facts(2) [OF l c] legal_step_facts(1) [OF l] c by (simp add: checks_def)
      qed
      then have "answers env (b, l') (attack_wins (Suc d) b) (odd_scan env (\<lambda>s. MateInEvenPly d env s) ?ms (b, l'))"
        by (rule answers_mono) (use ms in auto)
      then show ?thesis using 3 by (simp add: go(1))
    qed
    then show ?thesis by (rule answers_later [OF go(2)])
  qed
  have even: "answers env (b, l) (defence_loses (Suc d) b) (MateInEvenPly (Suc d) env (b, l))"
    if l: "lawful b" and c: "InCheck b (side_to_move b)" for b l
  proof (cases rule: checkpoint_cases [of env b l])
    case (stop l')
    then show ?thesis by (intro answers_later [OF stop(2)]) (simp add: answers_same)
  next
    case (go l')
    have e: "GenerateEvasionMoves b = GenerateLegalMoves b" using c by (simp add: GenerateLegalMoves_def)
    have "answers env (b, l') (\<forall>m\<in>set (GenerateLegalMoves b). reply_loses (attack_wins d) b m)
        (even_scan env (\<lambda>c s. MateInOddPly d env c s) (GenerateLegalMoves b) (b, l'))"
    proof (rule answers_even_scan [OF l])
      fix m l' assume m: "m \<in> set (GenerateLegalMoves b)"
      note f = legal_step_facts [OF l m]
      have g: "gave_check (fst (DoMove b m)) = InCheck (next_pos b m) (side_to_move (next_pos b m))" using f(2,4,5) by simp
      show "answers env (next_pos b m, l') (attack_wins d (next_pos b m))
          (MateInOddPly d env (gave_check (fst (DoMove b m))) (next_pos b m, l'))"
        unfolding g using Suc.IH f(1) by blast
    qed
    then have "answers env (b, l') (defence_loses (Suc d) b)
        (even_scan env (\<lambda>c s. MateInOddPly d env c s) (GenerateLegalMoves b) (b, l'))"
      by (rule answers_mono) (simp add: reply_loses_def)
    then have "answers env (b, l') (defence_loses (Suc d) b) (MateInEvenPly (Suc d) env (b, l))"
      by (cases "GenerateLegalMoves b = []") (simp_all add: go(1) e answers_same)
    then show ?thesis by (rule answers_later [OF go(2)])
  qed
  show ?case using odd even by blast
qed

text \<open>C5: \<open>ProbeMateWithin\<close> leaves the position as it found it and reports a cancellation only when the
  stop flag or the clock asked for it at a checkpoint. When it reports a mate, the side to move wins
  by force with checks alone within the depth (by mate or by a repetition verdict), unless within
  the depth the game of checks and legal replies meets a position at which the one-ply search takes
  a check that has a legal reply for mate, as it does at the position of \<open>false_mate\<close>.\<close>

theorem ProbeMateWithin_sound:
  assumes "lawful b" "ProbeMateWithin env depth (b, lim) = (res, (b', lim'))"
  shows "b' = b \<and>
    (res = kMate \<longrightarrow> forced_win depth b \<or> (\<exists>n c. met True b n c \<and> n < depth \<and> even n \<and> one_ply_errs c)) \<and>
    (res = kCancelled \<longrightarrow> (\<exists>l i. lim = Some l \<and> readings l \<le> i \<and> asked env l i))"
proof -
  let ?lim = "map_option (\<lambda>l. l\<lparr>was_cancelled := False, clock_poll_counter := 0\<rparr>) lim"
  obtain r s where h: "HasMateWithin env depth (b, ?lim) = (r, s)" by (rule prod.exhaust)
  have "answers env (b, ?lim) (attack_wins depth b) (r, s)"
    unfolding h [symmetric] HasMateWithin_def using searches_sound assms(1) by (simp add: answers_same)
  then have a: "fst s = b" "limits_later env ?lim (snd s)" "r \<longrightarrow> attack_wins depth b" by (simp_all add: answers_def)
  have "limits_cancelled s \<Longrightarrow> \<exists>l i. lim = Some l \<and> readings l \<le> i \<and> asked env l i"
    using a(2) by (cases lim; cases "snd s") (auto simp: limits_cancelled_def asked_def)
  moreover have "(res, (b', lim')) = (if limits_cancelled s then (kCancelled, s) else (if r then kMate else kNoMate, s))"
    using assms(2) by (simp add: ProbeMateWithin_def h)
  moreover have "attack_wins depth b \<longrightarrow> forced_win depth b \<or> (\<exists>n c. met True b n c \<and> n < depth \<and> even n \<and> one_ply_errs c)"
    using claims_forced [of depth b] by (simp add: misled_def)
  ultimately show ?thesis using a(1,3) by (auto split: if_splits)
qed

subsection \<open>A gold dropped for mate\<close>

text \<open>White: king 1a.  Black: pawn 1c, king 5i, a gold in hand; Black to move.\<close>

definition gold_pieces :: "(square \<times> piece) list" where
  "gold_pieces = [(44, 8), (0, 24), (2, 1)]"

definition gold_board :: shogi_board where
  "gold_board = set_hand (place_all gold_pieces empty_board) BLACK (hand_Add hand_Empty kGold)"

definition gold_position :: shogi_board where
  "gold_position = ComputeHash gold_board"

lemma gold_arr: "board_arr gold_position = (\<lambda>_. 0)(44 := 8, 0 := 24, 2 := 1)"
  by (simp add: gold_position_def ComputeHash_def gold_board_def set_hand_def gold_pieces_def PutPiece_sel empty_board_def piece_None_def
      fun_upd_twist)

lemma gold_sel:
  "king_sq gold_position BLACK = 44" "king_sq gold_position WHITE = 0" "side_to_move gold_position = BLACK"
  "hands gold_position BLACK = hand_Add hand_Empty kGold" "hands gold_position WHITE = hand_Empty"
  by (simp_all add: gold_position_def ComputeHash_def gold_board_def set_hand_def gold_pieces_def PutPiece_sel empty_board_def
      piece_Make_def piece_type_defs piece_GetColor_def piece_GetType_mod)

lemma gold_hand: "pt_IsHandPiece pt \<Longrightarrow> hand_Count (hand_Add hand_Empty kGold) pt = (if pt = kGold then 1 else 0)"
  using hand_Add_correct(2) [OF hand_ok_Empty, of kGold pt] by (simp add: hand_Count_Empty hand_max_def kGold_def pt_IsHandPiece_def)

lemma gold_ok: "board_ok gold_position" "kings_ok gold_position"
proof -
  have "placeable gold_pieces"
    by (simp add: gold_pieces_def placeable_Cons piece_ok_def piece_GetType_mod kKing_def) (simp add: placeable_def one_king_def)
  then have "board_ok (place_all gold_pieces empty_board)"
    by (rule board_ok_place_all [OF _ board_ok_empty]) (auto simp: empty_board_def piece_None_def gold_pieces_def)
  then show "board_ok gold_position" by (simp add: gold_position_def ComputeHash_def gold_board_def set_hand_def board_simps)
  show "kings_ok gold_position" unfolding kings_ok_def
  proof
    fix c
    show "king_sq gold_position c < 81 \<and> board_arr gold_position (king_sq gold_position c) = piece_Make c kKing"
      by (cases c) (simp_all add: gold_sel gold_arr piece_Make_def kKing_def)
  qed
qed

lemmas gold_eval = reaches_def slides_def steps_at_def StepAttacks_def piece_GetColor_def piece_GetType_mod piece_type_defs
  step_defs delta_defs Test_MakeStepBB sq_file_def sq_rank_def steps_to_def

lemma gold_att:
  "t < 81 \<Longrightarrow> \<not> att (board_arr gold_position) P WHITE t 44" "t < 81 \<Longrightarrow> \<not> att (board_arr gold_position) P BLACK t 0"
  "att (board_arr gold_position) P BLACK 2 1" "t < 81 \<Longrightarrow> t \<noteq> 0 \<Longrightarrow> \<not> att (board_arr gold_position) P WHITE t 1"
  by (auto simp: att_def gold_arr gold_eval split: if_splits)

lemma gold_lawful: "lawful gold_position"
proof -
  have "board_count (board_arr gold_position) pt = (if pt = 1 then 1 else 0)" if "pt_IsHandPiece pt" for pt
  proof -
    have e: "board_count (\<lambda>_. 0) pt = 0" by (simp add: board_count_def)
    have "board_count (board_arr gold_position) pt = is_base pt 8 + is_base pt 24 + is_base pt 1"
      using board_count_upd [of 44 "\<lambda>_. 0" 8 pt] board_count_upd [of 0 "(\<lambda>_. 0)(44 := 8)" 24 pt]
        board_count_upd [of 2 "(\<lambda>_. 0)(44 := 8, 0 := 24)" 1 pt] e
      by (simp add: gold_arr)
    then show ?thesis using that
      by (auto simp: is_base_def pt_Unpromote_def piece_GetType_mod nat_and_7 pt_IsHandPiece_def)
  qed
  then have m: "material gold_position pt = (if pt = 1 then 1 else 0) + (if pt = kGold then 1 else 0)" if "pt_IsHandPiece pt" for pt
    using that gold_hand [OF that] by (simp add: material_def gold_sel hand_Count_Empty)
  have "material gold_position pt \<le> piece_supply pt" if "pt_IsHandPiece pt" for pt
    unfolding m [OF that] using that by (auto simp: piece_supply_def kGold_def elim!: hand_piece_cases)
  moreover have "hand_ok (hand_Add hand_Empty kGold)"
    using hand_Add_correct(1) [OF hand_ok_Empty, of kGold] by (simp add: hand_Count_Empty hand_max_def kGold_def pt_IsHandPiece_def)
  ultimately have "material_ok gold_position" by (auto simp: material_ok_def all_color gold_sel hand_ok_Empty)
  moreover have "hash gold_position = full_hash gold_position"
    by (simp add: gold_position_def ComputeHash_def full_hash_sum piece_key_cong [of "gold_board\<lparr>hash := z\<rparr>" gold_board for z])
  moreover have "\<not> InCheck gold_position WHITE"
    using InCheck_in_check [OF gold_ok(1), of WHITE] gold_att(2) by (auto simp: in_check_def gold_sel)
  ultimately show ?thesis using gold_ok by (simp add: lawful_def gold_sel)
qed

lemma gold_mate: "IsMateAfterMateProbe gold_position BLACK kGold 1"
proof -
  let ?b = gold_position let ?occ = "bb_Set (occupied ?b) 1"
  let ?w = "bb_Clear ?occ 0" let ?M = "PieceAttacks kGold BLACK 1 ?w"
  have M: "bb_Test ?M u" if "u \<in> {0, 9, 10}" for u
    using that by (auto simp: PieceAttacks_def piece_type_defs step_defs delta_defs Test_MakeStepBB sq_file_def sq_rank_def)
  let ?A = "AttackersTo_c ?b 0 ?occ BLACK"
  have att_iff: "attacks ?b c occ t s = att (board_arr ?b) (bb_Test occ) c t s" if "s < 81" "t < 81" for c occ t s
    using attacks_att [OF gold_ok(1)] that by blast
  have "\<not> bb_Test ?A t" if "t < 81" for t
    using that gold_att(2) Test_AttackersTo_c [OF gold_ok(1)] att_iff by simp
  then have A: "\<not> bb_Any ?A" using bb_Any_iff_Test [OF bb_ok_AttackersTo_c [OF gold_ok(1)]] by simp
  let ?T = "bb_And (KingEffectBB 0) (bb_Not (by_color ?b WHITE))"
  have Tok: "bb_ok (bb_Set ?T 1)" using bb_ok_PieceAttacks [of 0 kKing] by (auto simp: PieceAttacks_def piece_type_defs intro!: bb_ok_And1 bb_ok_Set)
  have t: "u = 1 \<or> u = 9 \<or> u = 10" if "u \<in> set (bb_squares (bb_Set ?T 1))" for u
  proof (cases "u = 1")
    case False
    have "u < 81" "bb_Test (KingEffectBB 0) u" using that False unfolding set_bb_squares [OF Tok] by (auto simp: Test_And Test_Set)
    then have "(sq_file u, sq_rank u) \<in> {(0, 1), (1, 0), (1, 1)}" by (auto simp: step_defs Test_MakeStepBB delta_defs sq_file_def sq_rank_def)
    then show ?thesis using False unfolding insert_iff empty_iff prod.inject sq_file_def sq_rank_def by presburger
  qed blast
  have "attacks ?b BLACK occ 2 1" for occ using att_iff [of 1 2] gold_att(3) by simp
  then have "\<exists>t<81. attacks ?b BLACK occ t 1" for occ by (intro exI [of _ 2]) simp
  then have "IsSquareAttacked ?b 1 occ BLACK" for occ using IsSquareAttacked_iff [OF gold_ok(1), of 1] by simp
  then have e: "\<not> (if u = 1 then \<not> IsSquareAttacked ?b u (bb_Clear ?w 1) BLACK
      else if bb_Test ?M u then False else \<not> IsSquareAttacked ?b u ?w BLACK)" if "u \<in> set (bb_squares (bb_Set ?T 1))" for u
    using t [OF that] M by (elim disjE) simp_all
  have k: "bb_Test (KingEffectBB 0) 1" by (simp add: step_defs Test_MakeStepBB delta_defs sq_file_def sq_rank_def)
  have esc: "\<not> CanKingEscapeAfterMateProbe ?b BLACK 1 ?occ ?M"
    unfolding CanKingEscapeAfterMateProbe_def Let_def opp.simps gold_sel(2) if_P [OF k] list_ex_iff using e by blast
  let ?C = "bb_Clear (AttackersTo_c ?b 1 ?occ WHITE) 0"
  have "\<not> bb_Test ?C t" if "t < 81" for t
    using that gold_att(4) Test_AttackersTo_c [OF gold_ok(1), of 1] att_iff [of 1] by (cases "t = 0") (simp_all add: Test_Clear)
  then have "\<not> bb_Any ?C" using bb_Any_iff_Test [OF bb_ok_Clear [OF bb_ok_AttackersTo_c [OF gold_ok(1)]]] by simp
  then have cap: "\<not> CanDefenderCaptureMateChecker ?b WHITE 1 ?occ"
    by (simp add: CanDefenderCaptureMateChecker_def Let_def gold_sel bb_Empty_def)
  have "\<not> bb_Test (BetweenBB 0 1) u" if "u < 81" for u
  proof -
    have "steps_to 0 (0, 1) 1 1" "unit_dir (0, 1)" by (simp_all add: steps_to_def unit_dir_def sq_file_def sq_rank_def)
    then have "betw 0 1 u \<longleftrightarrow> between_sq 0 (0, 1) 1 u" by (intro betw_on_ray) simp_all
    moreover have "\<not> between_sq 0 (0, 1) 1 u" unfolding between_sq_def by linarith
    ultimately show ?thesis using Test_BetweenBB_betw [of 0 1 u] that by simp
  qed
  then have "\<not> bb_Any (BetweenBB 0 1)" using bb_Any_iff_Test [OF bb_ok_BetweenBB] by simp
  then have inter: "\<not> CanDefenderInterposeMateCheck ?b WHITE (BetweenBB 0 1) ?occ"
    by (simp add: CanDefenderInterposeMateCheck_def bb_Empty_def)
  have "bb_PopCount ?A = 0" using A bb_PopCount_length [OF bb_ok_AttackersTo_c [OF gold_ok(1)]] bb_squares_Nil_iff by simp
  then have "mate_probe ?b BLACK kGold 1"
    using M [of 0] esc cap inter unfolding mate_probe_def Let_def opp.simps gold_sel(2) by simp
  then show ?thesis by (simp add: IsMateAfterMateProbe_def capture_removed_def piece_on_def piece_IsNone_def gold_arr)
qed

lemma first_move_nonzero: "x \<in> set xs \<Longrightarrow> f x \<noteq> 0 \<Longrightarrow> first_move f xs \<noteq> 0"
  by (induction xs) (auto simp: Let_def move_is_null_def)

lemma first_drop_is_drop:
  assumes "m = first_move (try_drops b us) (drop_order us k)" "m \<noteq> 0"
  shows "move_is_drop m"
proof -
  obtain pt T where pt: "(pt, T) \<in> set (drop_order us k)" "m = try_drops b us (pt, T)"
    using first_move_found [of "try_drops b us" "drop_order us k"] assms by auto
  let ?f = "\<lambda>to. if IsMateAfterMateProbe b us pt to then move_Drop pt to else 0"
  let ?T = "bb_And T (bb_Not (occupied b))"
  have m: "m = first_move ?f (bb_squares ?T)" using pt(2) assms(2) by (simp add: try_drops_def split: if_splits)
  obtain to where to: "to \<in> set (bb_squares ?T)" "m = ?f to" "?f to \<noteq> 0"
    using first_move_found [of ?f "bb_squares ?T"] m assms(2) by metis
  have "to < 81" using to(1) set_bb_squares [OF bb_ok_And2 [OF bb_ok_Not], of T "occupied b"] by simp
  moreover have "pt < 128" using pt(1) by (auto simp: drop_order_def piece_type_defs)
  ultimately show ?thesis using to(2,3) by (simp split: if_splits)
qed

lemma gold_search: "\<not> move_is_null (FindMateInOneNonCheck gold_position) \<and> move_is_drop (FindMateInOneNonCheck gold_position)"
proof -
  let ?b = gold_position
  have nz: "move_Drop kGold 1 \<noteq> (0 :: move)"
  proof
    assume "move_Drop kGold 1 = (0 :: move)"
    moreover have "move_is_drop (move_Drop kGold 1)" by (simp add: kGold_def)
    ultimately show False by (simp add: move_is_drop_def)
  qed
  have has: "hand_Has (hands ?b BLACK) kGold" using hand_Has_iff [of kGold] gold_hand by (simp add: gold_sel pt_IsHandPiece_def kGold_def)
  let ?T = "bb_And (GoldCheckBB 0 BLACK) (bb_Not (occupied ?b))"
  have "bb_Test ?T 1"
    using Test_occupied [OF gold_ok(1), of 1]
    by (simp add: Test_And Test_Not gold_arr GoldCheckBB_def Test_direct_table step_defs delta_defs Test_MakeStepBB sq_file_def sq_rank_def)
  then have mem: "1 \<in> set (bb_squares ?T)" using set_bb_squares [OF bb_ok_And2 [OF bb_ok_Not]] by simp
  let ?f = "\<lambda>to. if IsMateAfterMateProbe ?b BLACK kGold to then move_Drop kGold to else 0"
  have "?f 1 \<noteq> 0" using gold_mate nz by presburger
  then have "first_move ?f (bb_squares ?T) \<noteq> 0" by (rule first_move_nonzero [OF mem])
  then have "try_drops ?b BLACK (kGold, GoldCheckBB 0 BLACK) \<noteq> 0"
    by (simp only: try_drops_def case_prod_conv has simp_thms if_False)
  moreover have "(kGold, GoldCheckBB 0 BLACK) \<in> set (drop_order BLACK 0)" by (simp only: drop_order_def list.set insert_iff simp_thms)
  ultimately have d: "first_move (try_drops ?b BLACK) (drop_order BLACK 0) \<noteq> 0" by (intro first_move_nonzero)
  then have "FindMateInOneNonCheckImpl ?b BLACK = first_move (try_drops ?b BLACK) (drop_order BLACK 0)"
    unfolding FindMateInOneNonCheckImpl_def Let_def opp.simps gold_sel(2) move_is_null_def by (rule if_P)
  moreover have "FindMateInOneNonCheck ?b = FindMateInOneNonCheckImpl ?b BLACK"
    by (simp only: FindMateInOneNonCheck_def gold_sel) (simp add: sq_IsValid_def)
  ultimately show ?thesis using d first_drop_is_drop [OF refl d] by (simp only: move_is_null_def simp_thms)
qed

theorem ProbeMateWithin_sound_witness:
  "ProbeMateWithin (\<lambda>_. (False, 0)) 1 (gold_position, None) = (kMate, (gold_position, None)) \<and> forced_win 1 gold_position"
proof -
  have "\<not> InCheck gold_position BLACK"
    using InCheck_in_check [OF gold_ok(1), of BLACK] gold_att(1) by (auto simp: in_check_def gold_sel)
  then have p: "ProbeMateWithin (\<lambda>_. (False, 0)) 1 (gold_position, None) = (kMate, (gold_position, None))"
    using gold_search by (simp add: ProbeMateWithin_def HasMateWithin_def checkpoint_def limits_cancelled_def gold_sel)
  have "\<not> one_ply_errs gold_position" using gold_search by (auto simp: one_ply_errs_def screens_pin_def Let_def)
  moreover have "c = gold_position" if "met True gold_position 0 c" for c using that by (cases rule: met.cases) simp_all
  ultimately show ?thesis using ProbeMateWithin_sound [OF gold_lawful p] p by auto
qed

end
