(* ===== verification/Dfpn.thy ===== *)
theory Dfpn
  imports ShallowMate
begin

text \<open>
  The df-pn mate solver of mate/dfpn.h and mate/dfpn.cc.  A node is a tree value: every child array
  is allocated once from the pool and owned by its node, so the pool is its counters.  A null child
  array is the empty list, and reading through one is \<open>None\<close>; the theorem below shows that no run
  does so and that every run returns.  The stop flag is never cleared and the clock is steady: the
  configuration says from which reading of \<open>ShouldStop\<close> on, if any, the answer is yes.
\<close>

subsection \<open>Nodes\<close>

definition kInf :: nat where
  "kInf = 4294967280"

definition kMateBound :: nat where
  "kMateBound = kInf - 2000"

definition NOT_EXPANDED :: nat where
  "NOT_EXPANDED = 255"

text \<open>Proof and disproof numbers never exceed \<open>kInf\<close>, below \<open>2 ^ 32\<close>; the depth is below \<open>kInf\<close>.\<close>

datatype dfpn_node = DfpnNode
  (children: "dfpn_node list") (pn: nat) (dn: nat) (last_move: move) (child_num: nat) (repeated: bool) (mate_distance: nat)

definition default_node :: dfpn_node where
  "default_node = DfpnNode [] 1 1 0 NOT_EXPANDED False 0"

primrec is_expanded :: "dfpn_node \<Rightarrow> bool" where
  "is_expanded (DfpnNode cs p d m n r k) = (n \<noteq> NOT_EXPANDED)"

definition is_mate_or :: "dfpn_node \<Rightarrow> bool" where
  "is_mate_or n \<longleftrightarrow> pn n = 0 \<and> dn n \<ge> kMateBound"

definition is_nomate_or :: "dfpn_node \<Rightarrow> bool" where
  "is_nomate_or n \<longleftrightarrow> dn n = 0 \<and> pn n \<ge> kMateBound"

primrec set_mate :: "nat \<Rightarrow> dfpn_node \<Rightarrow> dfpn_node" where
  "set_mate depth (DfpnNode cs p d m n r k) = DfpnNode cs 0 (kInf - depth) m n r 0"

primrec set_nomate :: "nat \<Rightarrow> dfpn_node \<Rightarrow> dfpn_node" where
  "set_nomate depth (DfpnNode cs p d m n r k) = DfpnNode cs (kInf - depth) 0 m n r 0"

text \<open>Assignments to single fields.\<close>

primrec with_children :: "dfpn_node list \<Rightarrow> nat \<Rightarrow> dfpn_node \<Rightarrow> dfpn_node" where
  "with_children cs' n' (DfpnNode cs p d m n r k) = DfpnNode cs' p d m n' r k"

primrec with_move :: "move \<Rightarrow> dfpn_node \<Rightarrow> dfpn_node" where
  "with_move m' (DfpnNode cs p d m n r k) = DfpnNode cs p d m' n r k"

primrec with_repeated :: "bool \<Rightarrow> dfpn_node \<Rightarrow> dfpn_node" where
  "with_repeated r' (DfpnNode cs p d m n r k) = DfpnNode cs p d m n r' k"

primrec with_distance :: "nat \<Rightarrow> dfpn_node \<Rightarrow> dfpn_node" where
  "with_distance k' (DfpnNode cs p d m n r k) = DfpnNode cs p d m n r k'"

primrec with_numbers :: "nat \<Rightarrow> nat \<Rightarrow> dfpn_node \<Rightarrow> dfpn_node" where
  "with_numbers p' d' (DfpnNode cs p d m n r k) = DfpnNode cs p' d' m n r k"

definition with_child :: "dfpn_node \<Rightarrow> nat \<Rightarrow> dfpn_node \<Rightarrow> dfpn_node" where
  "with_child node i c = with_children ((children node)[i := c]) (child_num node) node"

definition SatAdd :: "nat \<Rightarrow> nat \<Rightarrow> nat" where
  "SatAdd a b = (if a + b \<ge> kInf then kInf else a + b)"

subsection \<open>Pool and solver state\<close>

record dfpn_config =
  nodes_limit :: nat
  stops_from :: "nat option"
  use_fast_check_movegen :: bool

record dfpn_state =
  st_board :: shogi_board
  path_hashes :: "u64 list"
  pool_used :: nat
  pool_capacity :: nat
  pool_exhausted :: bool
  nodes_searched :: nat
  stop_readings :: nat

definition NewNodes :: "nat \<Rightarrow> dfpn_state \<Rightarrow> bool \<times> dfpn_state" where
  "NewNodes count st =
     (if pool_used st + count > pool_capacity st then (False, st\<lparr>pool_exhausted := True\<rparr>)
      else (True, st\<lparr>pool_used := pool_used st + count\<rparr>))"

definition OutOfMemory :: "dfpn_state \<Rightarrow> bool" where
  "OutOfMemory st \<longleftrightarrow> pool_exhausted st \<or> pool_used st \<ge> pool_capacity st"

definition dfpn_ShouldStop :: "dfpn_config \<Rightarrow> dfpn_state \<Rightarrow> bool \<times> dfpn_state" where
  "dfpn_ShouldStop cfg st =
     ((case stops_from cfg of None \<Rightarrow> False | Some k \<Rightarrow> k \<le> stop_readings st), st\<lparr>stop_readings := stop_readings st + 1\<rparr>)"

definition dfpn_IsRepetition :: "dfpn_state \<Rightarrow> u64 \<Rightarrow> bool" where
  "dfpn_IsRepetition st h \<longleftrightarrow> list_ex (\<lambda>x. x = h) (path_hashes st)"

subsection \<open>Summaries\<close>

definition summary :: "bool \<Rightarrow> dfpn_node list \<Rightarrow> nat \<times> nat" where
  "summary or_node cs =
     fold (\<lambda>c (min_val, sum_val).
       if or_node then (min min_val (pn c), SatAdd sum_val (dn c)) else (min min_val (dn c), SatAdd sum_val (pn c)))
       cs (kInf, 0)"

definition best_distance :: "bool \<Rightarrow> dfpn_node list \<Rightarrow> nat" where
  "best_distance or_node cs =
     fold (\<lambda>c d. if pn c \<noteq> 0 then d else if or_node then min d (mate_distance c) else max d (mate_distance c))
       cs (if or_node then 65535 else 0)"

definition summarized :: "bool \<Rightarrow> dfpn_node \<Rightarrow> dfpn_node" where
  "summarized or_node node =
     (let cs = take (child_num node) (children node);
          (min_val, sum_val) = summary or_node cs;
          node = (if or_node then with_numbers min_val sum_val node else with_numbers sum_val min_val node);
          node = with_repeated (list_ex repeated cs) node
      in if pn node = 0 then
           let distance = best_distance or_node cs
           in with_distance (if distance = 65535 then 0 else distance + 1) node
         else node)"

definition SummarizeNode :: "bool \<Rightarrow> dfpn_node \<Rightarrow> dfpn_node option" where
  "SummarizeNode or_node node =
     (if child_num node = 0 \<or> child_num node = NOT_EXPANDED then Some node
      else if length (children node) < child_num node then None
      else Some (summarized or_node node))"

text \<open>The best child and the thresholds for it.\<close>

definition best_scan :: "bool \<Rightarrow> dfpn_node list \<Rightarrow> nat option \<times> nat \<times> nat" where
  "best_scan or_node cs =
     fold (\<lambda>i (best_idx, best_val, second_best_val).
       let val = (if or_node then pn (cs ! i) else dn (cs ! i)) in
       if val < best_val then (Some i, val, best_val)
       else if val < second_best_val then (best_idx, best_val, val)
       else (best_idx, best_val, second_best_val)) [0..<length cs] (None, kInf, kInf)"

definition SelectBestChild :: "bool \<Rightarrow> dfpn_node \<Rightarrow> nat \<Rightarrow> nat \<Rightarrow> (nat \<times> nat \<times> nat) option" where
  "SelectBestChild or_node node second_pn second_dn =
     (if child_num node = 0 then None
      else
        let (best_idx, best_val, second_best_val) = best_scan or_node (take (child_num node) (children node)) in
        case best_idx of None \<Rightarrow> None
        | Some i \<Rightarrow>
            if or_node then Some (i, min second_pn (SatAdd second_best_val 1), second_dn)
            else Some (i, second_pn, min second_dn (SatAdd second_best_val 1)))"

subsection \<open>Expansion\<close>

text \<open>The filter over all legal moves; a stop leaves the rest out.\<close>

primrec filter_checks :: "dfpn_config \<Rightarrow> move list \<Rightarrow> dfpn_state \<Rightarrow> move list \<times> dfpn_state" where
  "filter_checks cfg [] st = ([], st)"
| "filter_checks cfg (m # ms) st =
     (let (stop, st) = dfpn_ShouldStop cfg st in
      if stop then ([], st)
      else
        let (undo, b) = DoMove (st_board st) m;
            chk = InCheck b (side_to_move b);
            st = st\<lparr>st_board := UndoMove b m undo\<rparr>;
            (rest, st) = filter_checks cfg ms st
        in (if chk then m # rest else rest, st))"

definition GenerateChecks :: "dfpn_config \<Rightarrow> dfpn_state \<Rightarrow> move list \<times> dfpn_state" where
  "GenerateChecks cfg st =
     (if use_fast_check_movegen cfg then (GenerateCheckingMoves (st_board st), st)
      else filter_checks cfg (GenerateLegalMoves (st_board st)) st)"

definition fresh_child :: "move \<Rightarrow> dfpn_node" where
  "fresh_child m = with_move m default_node"

definition expand_moves :: "dfpn_config \<Rightarrow> bool \<Rightarrow> dfpn_node \<Rightarrow> nat \<Rightarrow> dfpn_state \<Rightarrow> (dfpn_node \<times> dfpn_state) option" where
  "expand_moves cfg or_node node depth st =
     (let (moves, st) = (if or_node then GenerateChecks cfg st else (GenerateLegalMoves (st_board st), st));
          (stop, st) = dfpn_ShouldStop cfg st
      in if stop then Some (node, st)
         else if moves = [] then
           Some (with_children (children node) 0 (if or_node then set_nomate depth node else set_mate depth node), st)
         else
           let (ok, st) = NewNodes (length moves) st in
           if \<not> ok then Some (node, st)
           else
             let cs = map fresh_child (take 254 moves) @ replicate (length moves - 254) default_node;
                 node = with_children cs (min (length moves) 254) node
             in map_option (\<lambda>node. (node, st)) (SummarizeNode or_node node))"

definition ExpandNode :: "dfpn_config \<Rightarrow> bool \<Rightarrow> dfpn_node \<Rightarrow> nat \<Rightarrow> dfpn_state \<Rightarrow> (dfpn_node \<times> dfpn_state) option" where
  "ExpandNode cfg or_node node depth st =
     (let (stop, st) = dfpn_ShouldStop cfg st in
      if stop then Some (node, st)
      else if \<not> or_node then expand_moves cfg or_node node depth st
      else
        let mate1 = FindMateInOne (st_board st);
            (stop, st) = dfpn_ShouldStop cfg st
        in if stop then Some (node, st)
           else if \<not> move_is_null mate1 then
             let node = with_distance 1 (set_mate depth node);
                 (ok, st) = NewNodes 1 st;
                 child = with_children [] 0 (set_mate (depth + 1) (with_move mate1 default_node))
             in Some (with_children (if ok then [child] else children node) 1 node, st)
           else expand_moves cfg or_node node depth st)"

subsection \<open>The search\<close>

text \<open>\<open>Search\<close> with its loop: the flag says whether the call enters the function or goes round the loop.\<close>

partial_function (option) search_run ::
    "dfpn_config \<Rightarrow> bool \<Rightarrow> bool \<Rightarrow> nat \<Rightarrow> nat \<Rightarrow> nat \<Rightarrow> dfpn_node \<Rightarrow> dfpn_state \<Rightarrow> (dfpn_node \<times> dfpn_state) option" where
  "search_run cfg looping or_node second_pn second_dn depth node st =
     (if \<not> looping then
        case dfpn_ShouldStop cfg st of (stop, st) \<Rightarrow>
        if stop then Some (node, st)
        else if \<not> is_expanded node then
          Option.bind (ExpandNode cfg or_node node depth st) (\<lambda>(node, st).
            case dfpn_ShouldStop cfg st of (stop, st) \<Rightarrow>
            if stop then Some (node, st)
            else map_option (\<lambda>node. (node, st\<lparr>nodes_searched := nodes_searched st + 1\<rparr>)) (SummarizeNode or_node node))
        else search_run cfg True or_node second_pn second_dn depth node st
      else if \<not> (pn node < second_pn \<and> dn node < second_dn \<and> pn node \<noteq> 0 \<and> dn node \<noteq> 0 \<and> \<not> OutOfMemory st) then Some (node, st)
      else case dfpn_ShouldStop cfg st of (stop, st) \<Rightarrow>
        if stop \<or> \<not> nodes_searched st < nodes_limit cfg then Some (node, st)
        else case SelectBestChild or_node node second_pn second_dn of None \<Rightarrow> Some (node, st)
        | Some (i, child_second_pn, child_second_dn) \<Rightarrow>
          (case DoMove (st_board st) (last_move (children node ! i)) of (undo, b) \<Rightarrow>
           if fst (CheckRepetition b kRepetitionLookbackPly) \<noteq> RepNone then
             Option.bind (SummarizeNode or_node (with_child node i
                 (with_repeated True
                   (if fst (CheckRepetition b kRepetitionLookbackPly) = (if or_node then RepLoss else RepWin)
                    then set_mate (depth + 1) (children node ! i) else set_nomate (depth + 1) (children node ! i)))))
               (\<lambda>node'. search_run cfg True or_node second_pn second_dn depth node'
                 (st\<lparr>st_board := UndoMove b (last_move (children node ! i)) undo\<rparr>))
           else if dfpn_IsRepetition st (hash b) then
             Option.bind (SummarizeNode or_node (with_child node i
                 (with_repeated True (set_nomate (depth + 1) (children node ! i)))))
               (\<lambda>node'. search_run cfg True or_node second_pn second_dn depth node'
                 (st\<lparr>st_board := UndoMove b (last_move (children node ! i)) undo\<rparr>))
           else
             Option.bind
               (search_run cfg False (\<not> or_node) child_second_pn child_second_dn (depth + 1) (children node ! i)
                 (st\<lparr>st_board := b, path_hashes := path_hashes st @ [hash b]\<rparr>))
               (\<lambda>(best, st).
                 case dfpn_ShouldStop cfg (st\<lparr>path_hashes := butlast (path_hashes st),
                     st_board := UndoMove (st_board st) (last_move best) undo\<rparr>) of (stop, st) \<Rightarrow>
                 if stop then Some (with_child node i best, st)
                 else Option.bind (SummarizeNode or_node (with_child node i best))
                   (\<lambda>node. search_run cfg True or_node second_pn second_dn depth node st))))"

text \<open>The loop over the root, the principal line and the entry point.\<close>

partial_function (option) root_loop :: "dfpn_config \<Rightarrow> dfpn_node \<Rightarrow> dfpn_state \<Rightarrow> (dfpn_node \<times> dfpn_state) option" where
  "root_loop cfg node st =
     (if \<not> (pn node \<noteq> 0 \<and> dn node \<noteq> 0 \<and> \<not> OutOfMemory st) then Some (node, st)
      else case dfpn_ShouldStop cfg st of (stop, st) \<Rightarrow>
        if stop \<or> \<not> nodes_searched st < nodes_limit cfg then Some (node, st)
        else Option.bind (search_run cfg False True kInf kInf 0 node st) (\<lambda>(node, st). root_loop cfg node st))"

definition pv_step :: "bool \<Rightarrow> dfpn_node \<Rightarrow> dfpn_node option \<times> nat \<Rightarrow> dfpn_node option \<times> nat" where
  "pv_step or_node c = (\<lambda>(best, best_distance).
     if pn c \<noteq> 0 then (best, best_distance)
     else if (if or_node then mate_distance c < best_distance else best = None \<or> mate_distance c > best_distance)
     then (Some c, mate_distance c) else (best, best_distance))"

definition pv_child :: "bool \<Rightarrow> dfpn_node list \<Rightarrow> dfpn_node option" where
  "pv_child or_node cs = fst (fold (pv_step or_node) cs (None, if or_node then 65535 else 0))"

lemma pv_child_in:
  assumes "pv_child or_node cs = Some c"
  shows "c \<in> set cs" "pn c = 0"
proof -
  have step: "fst (pv_step or_node a s) = fst s \<or> fst (pv_step or_node a s) = Some a \<and> pn a = 0" for a s
    by (auto simp: pv_step_def split: prod.splits)
  have "fst (fold (pv_step or_node) cs s) = Some c \<Longrightarrow> fst s = Some c \<or> c \<in> set cs \<and> pn c = 0" for s
  proof (induction cs arbitrary: s)
    case (Cons a cs)
    then show ?case using step [of a s] by fastforce
  qed simp
  from this [of "(None, if or_node then 65535 else 0)"] show "c \<in> set cs" "pn c = 0"
    using assms by (simp_all add: pv_child_def)
qed

lemma child_size: "c \<in> set (children node) \<Longrightarrow> size c < size node"
  by (cases node) (auto dest: size_list_estimation' [where f = size, OF _ order_refl] simp: less_Suc_eq_le)

function ExtractPV :: "bool \<Rightarrow> dfpn_node \<Rightarrow> move list" where
  "ExtractPV or_node node =
     (if child_num node > 0 \<and> children node \<noteq> [] then
        case pv_child or_node (take (child_num node) (children node)) of None \<Rightarrow> []
        | Some best \<Rightarrow> last_move best # ExtractPV (\<not> or_node) best
      else [])"
  by pat_completeness auto

termination
  by (relation "measure (\<lambda>(p, n). size n)") (auto dest!: pv_child_in(1) in_set_takeD child_size)

declare ExtractPV.simps [simp del]

definition NoMateMove :: move where
  "NoMateMove = move_Normal 127 127"

definition IsNoMate :: "move \<Rightarrow> bool" where
  "IsNoMate m \<longleftrightarrow> m = NoMateMove"

definition kMaxPoolNodes :: nat where
  "kMaxPoolNodes = 2000000"

definition pool_size :: "dfpn_config \<Rightarrow> nat" where
  "pool_size cfg =
     (let scaled_pool = (if nodes_limit cfg \<ge> kMaxPoolNodes div 8 then kMaxPoolNodes else nodes_limit cfg * 8)
      in max 1024 (min scaled_pool kMaxPoolNodes))"

text \<open>The result is the move returned with the principal line; the mating ply is its length.\<close>

definition dfpn_search :: "dfpn_config \<Rightarrow> shogi_board \<Rightarrow> (move \<times> move list) option" where
  "dfpn_search cfg b =
     (let st = \<lparr>st_board = b, path_hashes = [], pool_used = 0, pool_capacity = 0, pool_exhausted = False,
                nodes_searched = 0, stop_readings = 0\<rparr>;
          (stop, st) = dfpn_ShouldStop cfg st
      in if stop then Some (0, [])
         else Option.bind
           (root_loop cfg default_node (st\<lparr>pool_capacity := pool_size cfg, path_hashes := [hash b]\<rparr>))
           (\<lambda>(root, st).
             let (stop, st) = dfpn_ShouldStop cfg (st\<lparr>path_hashes := butlast (path_hashes st)\<rparr>) in
             if stop then Some (0, [])
             else if pn root = 0 then
               let line = ExtractPV True root; (stop, st) = dfpn_ShouldStop cfg st
               in if stop then Some (0, []) else if line \<noteq> [] then Some (hd line, line) else Some (0, line)
             else if dn root = 0 then Some (NoMateMove, [])
             else Some (0, [])))"

subsection \<open>What the summary computes\<close>

definition key :: "bool \<Rightarrow> dfpn_node \<Rightarrow> nat" where
  "key or_node c = (if or_node then pn c else dn c)"

definition other :: "bool \<Rightarrow> dfpn_node \<Rightarrow> nat" where
  "other or_node c = (if or_node then dn c else pn c)"

lemma key_not: "key (\<not> or_node) c = other or_node c" "other (\<not> or_node) c = key or_node c"
  by (simp_all add: key_def other_def)

lemma kInf_pos: "0 < kInf"
  by (simp add: kInf_def)

lemma SatAdd_props: "SatAdd a b = min kInf (a + b)"
  by (simp add: SatAdd_def)

lemma summary_fold:
  "summary or_node cs = (fold (\<lambda>c x. min x (key or_node c)) cs kInf, fold (\<lambda>c x. SatAdd x (other or_node c)) cs 0)"
proof -
  have "fold (\<lambda>c (min_val, sum_val).
       if or_node then (min min_val (pn c), SatAdd sum_val (dn c)) else (min min_val (dn c), SatAdd sum_val (pn c))) cs (x, y)
    = (fold (\<lambda>c x. min x (key or_node c)) cs x, fold (\<lambda>c x. SatAdd x (other or_node c)) cs y)" for x y
  proof (cases or_node)
    case True
    then show ?thesis by (induction cs arbitrary: x y) (simp_all add: key_def other_def)
  next
    case False
    then show ?thesis by (induction cs arbitrary: x y) (simp_all add: key_def other_def)
  qed
  then show ?thesis by (simp add: summary_def)
qed

lemma summary_min:
  "fst (summary or_node cs) \<le> kInf" "c \<in> set cs \<Longrightarrow> fst (summary or_node cs) \<le> key or_node c"
  "fst (summary or_node cs) = kInf \<or> (\<exists>c\<in>set cs. fst (summary or_node cs) = key or_node c)"
proof -
  have a: "fold (\<lambda>c x. min x (key or_node c)) cs x \<le> x" for x
    by (induction cs arbitrary: x) (simp, metis fold_simps(2) min.boundedE)
  have b: "c \<in> set cs \<Longrightarrow> fold (\<lambda>c x. min x (key or_node c)) cs x \<le> key or_node c" for x c
  proof (induction cs arbitrary: x)
    case (Cons e cs)
    have "fold (\<lambda>c x. min x (key or_node c)) cs y \<le> y" for y
      by (induction cs arbitrary: y) (simp, metis fold_simps(2) min.boundedE)
    from this [of "min x (key or_node e)"] show ?case using Cons by auto
  qed simp
  have d: "fold (\<lambda>c x. min x (key or_node c)) cs x = x \<or> (\<exists>c\<in>set cs. fold (\<lambda>c x. min x (key or_node c)) cs x = key or_node c)" for x
  proof (induction cs arbitrary: x)
    case (Cons e cs)
    show ?case using Cons.IH [of "min x (key or_node e)"] by (auto simp: min_def)
  qed simp
  show "fst (summary or_node cs) \<le> kInf" using a [of kInf] by (simp add: summary_fold)
  show "c \<in> set cs \<Longrightarrow> fst (summary or_node cs) \<le> key or_node c" using b by (simp add: summary_fold)
  show "fst (summary or_node cs) = kInf \<or> (\<exists>c\<in>set cs. fst (summary or_node cs) = key or_node c)"
    using d [of kInf] by (simp add: summary_fold)
qed

lemma summary_sum: "snd (summary or_node cs) = min kInf (sum_list (map (other or_node) cs))"
proof -
  have "fold (\<lambda>c x. SatAdd x (other or_node c)) cs y = min kInf (y + sum_list (map (other or_node) cs))" if "y \<le> kInf" for y
    using that
  proof (induction cs arbitrary: y)
    case (Cons e cs)
    show ?case using Cons.IH [of "SatAdd y (other or_node e)"] by (simp add: SatAdd_props)
  qed simp
  from this [of 0] show ?thesis by (simp add: summary_fold)
qed

text \<open>Sizes: the nodes allocated below a node, and the unsolved leaves.\<close>

fun below :: "dfpn_node \<Rightarrow> nat" where
  "below (DfpnNode cs p d m n r k) = sum_list (map (\<lambda>c. Suc (below c)) cs)"

definition cost :: "dfpn_node list \<Rightarrow> nat" where
  "cost cs = sum_list (map (\<lambda>c. Suc (below c)) cs)"

lemma below_children: "below node = cost (children node)"
  by (cases node) (simp add: cost_def)

definition unsolved :: "dfpn_node \<Rightarrow> bool" where
  "unsolved c \<longleftrightarrow> pn c \<noteq> 0 \<and> dn c \<noteq> 0"

function leaves :: "dfpn_node \<Rightarrow> nat" where
  "leaves node =
     (if \<not> unsolved node then 0 else if \<not> is_expanded node then 1
      else sum_list (map leaves (take (child_num node) (children node))))"
  by pat_completeness auto

termination
  by (relation "measure size") (auto dest!: in_set_takeD child_size)

declare leaves.simps [simp del]

text \<open>Solved numbers lie above \<open>kInf - kPlies\<close>, the others within the size of the tree.\<close>

definition kPlies :: nat where
  "kPlies = 2000001"

definition numbers_ok :: "nat \<Rightarrow> dfpn_node \<Rightarrow> bool" where
  "numbers_ok bound c \<longleftrightarrow> (dn c = 0 \<longrightarrow> kInf - kPlies \<le> pn c) \<and> (dn c \<noteq> 0 \<longrightarrow> pn c \<le> bound) \<and>
     (pn c = 0 \<longrightarrow> kInf - kPlies \<le> dn c) \<and> (pn c \<noteq> 0 \<longrightarrow> dn c \<le> bound)"

lemma numbers_ok_key:
  "numbers_ok bound c \<longleftrightarrow> (other p c = 0 \<longrightarrow> kInf - kPlies \<le> key p c) \<and> (other p c \<noteq> 0 \<longrightarrow> key p c \<le> bound) \<and>
     (key p c = 0 \<longrightarrow> kInf - kPlies \<le> other p c) \<and> (key p c \<noteq> 0 \<longrightarrow> other p c \<le> bound)"
  by (auto simp: numbers_ok_def key_def other_def)

definition numbered :: "bool \<Rightarrow> dfpn_node list \<Rightarrow> dfpn_node \<Rightarrow> bool" where
  "numbered or_node cs node \<longleftrightarrow> key or_node node = fst (summary or_node cs) \<and> other or_node node = snd (summary or_node cs)"

lemma sum_list_le_sublist: "sum_list (map f (take n cs)) \<le> sum_list (map (f :: 'a \<Rightarrow> nat) cs)"
proof -
  have "sum_list (map f cs) = sum_list (map f (take n cs)) + sum_list (map f (drop n cs))"
    by (metis append_take_drop_id map_append sum_list_append)
  then show ?thesis by simp
qed

lemma numbers_ok_summary:
  assumes n: "numbered p (take n cs) node" and c: "\<And>c. c \<in> set (take n cs) \<Longrightarrow> numbers_ok (Suc (below c)) c"
    and small: "cost cs < kInf - kPlies"
  shows "numbers_ok (cost cs) node"
proof -
  let ?cs = "take n cs"
  have k: "key p node = fst (summary p ?cs)" and o': "other p node = min kInf (sum_list (map (other p) ?cs))"
    using n by (simp_all add: numbered_def summary_sum)
  have in_cost: "Suc (below c) \<le> cost cs" if "c \<in> set ?cs" for c
    unfolding cost_def using that by (intro member_le_sum_list) (auto dest: in_set_takeD)
  have le_sum: "other p c \<le> sum_list (map (other p) ?cs)" if "c \<in> set ?cs" for c
    using that by (intro member_le_sum_list) auto
  show ?thesis unfolding numbers_ok_key [of _ _ p]
  proof (intro conjI impI)
    assume "other p node = 0"
    then have "\<forall>c\<in>set ?cs. other p c = 0" using kInf_pos le_sum unfolding o' by fastforce
    then have "\<forall>c\<in>set ?cs. kInf - kPlies \<le> key p c" using c unfolding numbers_ok_key [of _ _ p] by blast
    then show "kInf - kPlies \<le> key p node" using summary_min(3) [of p ?cs] unfolding k by fastforce
  next
    assume "other p node \<noteq> 0"
    then have nz: "sum_list (map (other p) ?cs) \<noteq> 0" unfolding o' by (intro notI) (simp only: min_0R)
    obtain e where e: "e \<in> set ?cs" "other p e \<noteq> 0"
    proof (rule ccontr)
      assume "\<not> thesis"
      then have "map (other p) ?cs = map (\<lambda>_. 0) ?cs" using that by (intro map_cong) auto
      then show False using nz by (simp add: sum_list_0)
    qed
    then have "key p e \<le> cost cs" using c [OF e(1)] in_cost [OF e(1)] unfolding numbers_ok_key [of _ _ p] by linarith
    then show "key p node \<le> cost cs" using summary_min(2) [OF e(1), of p] unfolding k by linarith
  next
    assume "key p node = 0"
    then obtain e where e: "e \<in> set ?cs" "key p e = 0" using summary_min(3) [of p ?cs] kInf_pos unfolding k by auto
    then have "kInf - kPlies \<le> other p e" using c [OF e(1)] unfolding numbers_ok_key [of _ _ p] by blast
    then show "kInf - kPlies \<le> other p node" using le_sum [OF e(1)] unfolding o' by linarith
  next
    assume "key p node \<noteq> 0"
    then have "\<forall>c\<in>set ?cs. key p c \<noteq> 0" using summary_min(2) [of _ ?cs p] unfolding k by fastforce
    then have "\<forall>c\<in>set ?cs. other p c \<le> Suc (below c)" using c unfolding numbers_ok_key [of _ _ p] by blast
    then have "sum_list (map (other p) ?cs) \<le> sum_list (map (\<lambda>c. Suc (below c)) ?cs)" by (intro sum_list_mono) blast
    also have "\<dots> \<le> cost cs" unfolding cost_def by (rule sum_list_le_sublist)
    finally show "other p node \<le> cost cs" unfolding o' by linarith
  qed
qed

subsection \<open>The choice of a child\<close>

definition scan_inv :: "(nat \<Rightarrow> nat) \<Rightarrow> nat \<Rightarrow> nat option \<times> nat \<times> nat \<Rightarrow> bool" where
  "scan_inv f n = (\<lambda>(bi, b, s). b \<le> s \<and> (\<forall>i<n. b \<le> f i) \<and>
     (\<forall>j. bi = Some j \<longrightarrow> j < n \<and> f j = b \<and> b < kInf) \<and> (bi = None \<longrightarrow> b = kInf))"

lemma scan_inv_step:
  assumes "scan_inv f n (bi, b, s)"
  shows "scan_inv f (Suc n) (if f n < b then (Some n, f n, b) else if f n < s then (bi, b, f n) else (bi, b, s))"
proof -
  have "b \<le> kInf" using assms by (cases bi) (auto simp: scan_inv_def)
  then show ?thesis using assms by (auto simp: scan_inv_def less_Suc_eq)
qed

lemma best_scan_result:
  assumes "best_scan p cs = (i, best, second)"
  shows "best \<le> second" "c \<in> set cs \<Longrightarrow> best \<le> key p c" "i = Some j \<Longrightarrow> j < length cs \<and> key p (cs ! j) = best \<and> best < kInf"
    "i = None \<Longrightarrow> best = kInf"
proof -
  let ?f = "\<lambda>i (best_idx, best_val, second_best_val).
       let val = (if p then pn (cs ! i) else dn (cs ! i)) in
       if val < best_val then (Some i, val, best_val)
       else if val < second_best_val then (best_idx, best_val, val)
       else (best_idx, best_val, second_best_val)"
  have "scan_inv (\<lambda>i. key p (cs ! i)) n (fold ?f [0..<n] (None, kInf, kInf))" for n
  proof (induction n)
    case (Suc n)
    obtain bi b s where e: "fold ?f [0..<n] (None, kInf, kInf) = (bi, b, s)" by (rule prod_cases3)
    have "fold ?f [0..<Suc n] (None, kInf, kInf) = ?f n (bi, b, s)" using e by simp
    also have "\<dots> = (if key p (cs ! n) < b then (Some n, key p (cs ! n), b)
      else if key p (cs ! n) < s then (bi, b, key p (cs ! n)) else (bi, b, s))" by (simp add: Let_def key_def)
    finally show ?case using scan_inv_step [OF Suc [unfolded e]] by (simp only:)
  qed (simp add: scan_inv_def)
  from this [of "length cs"] assms
  have r: "best \<le> second" "\<forall>i<length cs. best \<le> key p (cs ! i)"
    "\<forall>j. i = Some j \<longrightarrow> j < length cs \<and> key p (cs ! j) = best \<and> best < kInf" "i = None \<longrightarrow> best = kInf"
    by (simp_all add: best_scan_def scan_inv_def)
  show "best \<le> second" "i = Some j \<Longrightarrow> j < length cs \<and> key p (cs ! j) = best \<and> best < kInf" "i = None \<Longrightarrow> best = kInf"
    using r by blast+
  show "c \<in> set cs \<Longrightarrow> best \<le> key p c" using r(2) by (auto simp: in_set_conv_nth)
qed

lemma SelectBestChild_unsolved:
  fixes p node
  defines "cs \<equiv> take (child_num node) (children node)"
  assumes n: "0 < child_num node" and u: "unsolved node" and num: "numbered p cs node"
    and c: "\<And>c. c \<in> set cs \<Longrightarrow> numbers_ok (Suc (below c)) c" and small: "below node < kInf - kPlies"
    and t: "pn node < tp" "dn node < td"
  obtains i sp sd where "SelectBestChild p node tp td = Some (i, sp, sd)" "i < length cs" "unsolved (cs ! i)"
    "pn (cs ! i) < sp" "dn (cs ! i) < sd"
proof -
  obtain bi best second where s: "best_scan p cs = (bi, best, second)" by (cases "best_scan p cs")
  note r = best_scan_result [OF s]
  have k: "key p node = fst (summary p cs)" and o': "other p node = min kInf (sum_list (map (other p) cs))"
    using num by (simp_all add: numbered_def summary_sum)
  have ku: "key p node \<noteq> 0" "other p node \<noteq> 0" using u by (auto simp: unsolved_def key_def other_def)
  have in_cost: "Suc (below c) \<le> below node" if "c \<in> set cs" for c
    unfolding below_children [of node] cost_def using that by (intro member_le_sum_list) (auto simp: cs_def dest: in_set_takeD)
  have nz: "sum_list (map (other p) cs) \<noteq> 0" using ku(2) unfolding o' by (intro notI) (simp only: min_0R)
  obtain e where e: "e \<in> set cs" "other p e \<noteq> 0"
  proof (rule ccontr)
    assume "\<not> thesis"
    then have "map (other p) cs = map (\<lambda>_. 0) cs" using that by (intro map_cong) auto
    then show False using nz by (simp add: sum_list_0)
  qed
  have "key p e < kInf - kPlies" using c [OF e(1)] e(2) in_cost [OF e(1)] small unfolding numbers_ok_key [of _ _ p] by linarith
  then have b: "best < kInf - kPlies" using r(2) [OF e(1)] by linarith
  then obtain i where i: "bi = Some i" "i < length cs" "key p (cs ! i) = best" using r(3,4) by (cases bi) auto
  have ci: "cs ! i \<in> set cs" using i(2) by simp
  have o0: "other p (cs ! i) \<noteq> 0" using c [OF ci] b i(3) unfolding numbers_ok_key [of _ _ p] by linarith
  have k0: "key p (cs ! i) \<noteq> 0" using summary_min(2) [OF ci, of p] ku(1) k by simp
  have ui: "unsolved (cs ! i)" using o0 k0 by (auto simp: unsolved_def key_def other_def split: if_splits)
  have kl: "key p (cs ! i) \<le> key p node"
    using summary_min(3) [of p cs] r(2) i(3) b k by fastforce
  have kt: "key p (cs ! i) < SatAdd second 1" using r(1) i(3) b by (simp add: SatAdd_props kInf_def kPlies_def)
  have "other p (cs ! i) \<le> sum_list (map (other p) cs)" using ci by (intro member_le_sum_list) auto
  moreover have "other p node < (if p then td else tp)" using t by (simp add: other_def)
  moreover have "other p (cs ! i) < kInf - kPlies"
    using c [OF ci] k0 in_cost [OF ci] small unfolding numbers_ok_key [of _ _ p] by linarith
  ultimately have ot: "other p (cs ! i) < (if p then td else tp)" unfolding o' by linarith
  show thesis
  proof (cases p)
    case True
    show ?thesis
    proof (rule that)
      show "SelectBestChild p node tp td = Some (i, min tp (SatAdd second 1), td)"
        using n s True i(1) by (simp add: SelectBestChild_def cs_def)
      show "pn (cs ! i) < min tp (SatAdd second 1)" using kl kt t(1) True by (simp add: key_def)
      show "dn (cs ! i) < td" using ot True by (simp add: other_def)
    qed (use i ui in auto)
  next
    case False
    show ?thesis
    proof (rule that)
      show "SelectBestChild p node tp td = Some (i, tp, min td (SatAdd second 1))"
        using n s False i(1) by (simp add: SelectBestChild_def cs_def)
      show "dn (cs ! i) < min td (SatAdd second 1)" using kl kt t(2) False by (simp add: key_def)
      show "pn (cs ! i) < tp" using ot False by (simp add: other_def)
    qed (use i ui in auto)
  qed
qed

subsection \<open>The two games a proof and a disproof are about\<close>

text \<open>The attacker moves among \<open>om\<close>, the defender among \<open>am\<close>; a move the parameter \<open>cl\<close> accepts wins at
  once, and so does a favourable repetition verdict; every other repetition, of the game or of the
  line itself, saves the defender.\<close>

inductive wins :: "(shogi_board \<Rightarrow> move \<Rightarrow> bool) \<Rightarrow> (shogi_board \<Rightarrow> move set) \<Rightarrow> (shogi_board \<Rightarrow> move set) \<Rightarrow>
    u64 list \<Rightarrow> shogi_board \<Rightarrow> bool"
  and loses :: "(shogi_board \<Rightarrow> move \<Rightarrow> bool) \<Rightarrow> (shogi_board \<Rightarrow> move set) \<Rightarrow> (shogi_board \<Rightarrow> move set) \<Rightarrow>
    u64 list \<Rightarrow> shogi_board \<Rightarrow> bool"
  for cl om am where
  win_claim: "m \<in> om b \<Longrightarrow> cl b m \<Longrightarrow> wins cl om am P b"
| win_repetition: "m \<in> om b \<Longrightarrow> verdict (next_pos b m) = RepLoss \<Longrightarrow> wins cl om am P b"
| win_move: "m \<in> om b \<Longrightarrow> verdict (next_pos b m) = RepNone \<Longrightarrow> hash (next_pos b m) \<notin> set P \<Longrightarrow>
    loses cl om am (P @ [hash (next_pos b m)]) (next_pos b m) \<Longrightarrow> wins cl om am P b"
| lose_all: "(\<And>m. m \<in> am b \<Longrightarrow> verdict (next_pos b m) = RepWin \<or>
    verdict (next_pos b m) = RepNone \<and> hash (next_pos b m) \<notin> set P \<and>
    wins cl om am (P @ [hash (next_pos b m)]) (next_pos b m)) \<Longrightarrow> loses cl om am P b"

inductive_cases wins_cases: "wins cl om am P b"
inductive_cases loses_cases: "loses cl om am P b"

definition value_of where
  "value_of cl om am p P b = (if p then wins cl om am P b else loses cl om am P b)"

definition edge_of where
  "edge_of cl om am p P b m \<longleftrightarrow>
     p \<and> cl b m \<or> verdict (next_pos b m) = (if p then RepLoss else RepWin) \<or>
     verdict (next_pos b m) = RepNone \<and> hash (next_pos b m) \<notin> set P \<and>
     value_of cl om am (\<not> p) (P @ [hash (next_pos b m)]) (next_pos b m)"

lemma value_iff:
  "value_of cl om am True P b \<longleftrightarrow> (\<exists>m \<in> om b. edge_of cl om am True P b m)"
  "value_of cl om am False P b \<longleftrightarrow> (\<forall>m \<in> am b. edge_of cl om am False P b m)"
proof -
  show "value_of cl om am True P b \<longleftrightarrow> (\<exists>m \<in> om b. edge_of cl om am True P b m)"
    by (auto simp: value_of_def edge_of_def intro: win_claim win_repetition win_move elim!: wins_cases)
  show "value_of cl om am False P b \<longleftrightarrow> (\<forall>m \<in> am b. edge_of cl om am False P b m)"
    by (auto simp: value_of_def edge_of_def intro!: lose_all elim!: loses_cases)
qed

text \<open>A solver node has room for 254 children.  A proof of mate answers the first 254 evasions (all of
  them when there are no more); a disproof refutes the first 254 checks the solver generates.\<close>

definition attack_list :: "dfpn_config \<Rightarrow> shogi_board \<Rightarrow> move list" where
  "attack_list cfg b =
     (if use_fast_check_movegen cfg then GenerateCheckingMoves b
      else filter (\<lambda>m. InCheck (next_pos b m) (side_to_move (next_pos b m))) (GenerateLegalMoves b))"

definition upper where
  "upper = value_of claim_move (\<lambda>b. {m. checks b m}) (\<lambda>b. set (take 254 (GenerateLegalMoves b)))"

definition upper_edge where
  "upper_edge = edge_of claim_move (\<lambda>b. {m. checks b m}) (\<lambda>b. set (take 254 (GenerateLegalMoves b)))"

definition lower :: "dfpn_config \<Rightarrow> bool \<Rightarrow> u64 list \<Rightarrow> shogi_board \<Rightarrow> bool" where
  "lower cfg = value_of (\<lambda>_ _. False) (\<lambda>b. set (take 254 (attack_list cfg b))) (\<lambda>b. set (GenerateLegalMoves b))"

definition lower_edge :: "dfpn_config \<Rightarrow> bool \<Rightarrow> u64 list \<Rightarrow> shogi_board \<Rightarrow> move \<Rightarrow> bool" where
  "lower_edge cfg = edge_of (\<lambda>_ _. False) (\<lambda>b. set (take 254 (attack_list cfg b))) (\<lambda>b. set (GenerateLegalMoves b))"

definition node_moves :: "dfpn_config \<Rightarrow> bool \<Rightarrow> shogi_board \<Rightarrow> move list" where
  "node_moves cfg p b = take 254 (if p then attack_list cfg b else GenerateLegalMoves b)"

lemma attack_list_checks:
  assumes "lawful b"
  shows "m \<in> set (attack_list cfg b) \<longleftrightarrow> checks b m"
proof -
  have "m \<in> set (GenerateCheckingMoves b) \<longleftrightarrow> checks b m"
    using checking_list_iff [OF assms, of m] by (auto simp: checking_list_def GenerateCheckingMoves_def split: if_splits)
  moreover have "m \<in> set (GenerateLegalMoves b) \<Longrightarrow>
      InCheck (next_pos b m) (side_to_move (next_pos b m)) = InCheck (after_move b m) (opp (side_to_move b))"
    using legal_step_facts(2,5) [OF assms] by simp
  ultimately show ?thesis by (auto simp: attack_list_def checks_def)
qed

text \<open>Values from the edges of the considered moves.\<close>

lemma game_values:
  assumes "lawful b"
  shows "p \<Longrightarrow> m \<in> set (node_moves cfg p b) \<Longrightarrow> upper_edge p P b m \<Longrightarrow> upper p P b"
    "\<not> p \<Longrightarrow> \<forall>m\<in>set (node_moves cfg p b). upper_edge p P b m \<Longrightarrow> upper p P b"
    "p \<Longrightarrow> \<forall>m\<in>set (node_moves cfg p b). \<not> lower_edge cfg p P b m \<Longrightarrow> \<not> lower cfg p P b"
    "\<not> p \<Longrightarrow> m \<in> set (node_moves cfg p b) \<Longrightarrow> \<not> lower_edge cfg p P b m \<Longrightarrow> \<not> lower cfg p P b"
    "p \<Longrightarrow> checks b m \<Longrightarrow> upper_edge p P b m \<Longrightarrow> upper p P b"
  using attack_list_checks [OF assms, of _ cfg]
  by (auto simp: node_moves_def upper_def upper_edge_def lower_def lower_edge_def value_iff dest: in_set_takeD)

subsection \<open>The invariant of a node\<close>

abbreviation kids :: "dfpn_node \<Rightarrow> dfpn_node list" where
  "kids node \<equiv> take (child_num node) (children node)"

definition fresh :: "dfpn_node \<Rightarrow> bool" where
  "fresh node \<longleftrightarrow> children node = [] \<and> pn node = 1 \<and> dn node = 1 \<and> child_num node = NOT_EXPANDED"

definition considered :: "bool \<Rightarrow> shogi_board \<Rightarrow> move \<Rightarrow> bool" where
  "considered p b m \<longleftrightarrow> (if p then checks b m else m \<in> set (GenerateLegalMoves b))"

text \<open>A node on the line \<open>P\<close> at position \<open>b\<close>: its numbers tell the truth, and while it is unsolved its
  children are the considered moves, summarized, with the same for every child.\<close>

inductive node_inv :: "dfpn_config \<Rightarrow> bool \<Rightarrow> u64 list \<Rightarrow> shogi_board \<Rightarrow> dfpn_node \<Rightarrow> bool" for cfg where
  node_invI: "(pn node = 0 \<longrightarrow> upper p P b) \<Longrightarrow> (dn node = 0 \<longrightarrow> \<not> lower cfg p P b) \<Longrightarrow>
    numbers_ok (Suc (below node)) node \<Longrightarrow> (\<not> is_expanded node \<longrightarrow> fresh node) \<Longrightarrow>
    (is_expanded node \<longrightarrow> child_num node \<le> length (children node) \<and>
       (\<forall>c\<in>set (kids node). pn c = 0 \<longrightarrow> upper_edge p P b (last_move c) \<and> considered p b (last_move c))) \<Longrightarrow>
    (is_expanded node \<and> unsolved node \<longrightarrow> 0 < child_num node \<and> map last_move (kids node) = node_moves cfg p b \<and>
       numbered p (kids node) node \<and>
       (\<forall>c\<in>set (kids node). (dn c = 0 \<longrightarrow> \<not> lower_edge cfg p P b (last_move c)) \<and> numbers_ok (Suc (below c)) c \<and>
          (unsolved c \<longrightarrow> (\<not> is_expanded c \<longrightarrow> fresh c) \<and>
             (is_expanded c \<longrightarrow> verdict (next_pos b (last_move c)) = RepNone \<and> hash (next_pos b (last_move c)) \<notin> set P \<and>
                node_inv cfg (\<not> p) (P @ [hash (next_pos b (last_move c))]) (next_pos b (last_move c)) c)))) \<Longrightarrow>
    node_inv cfg p P b node"

definition kid_ok :: "dfpn_config \<Rightarrow> bool \<Rightarrow> u64 list \<Rightarrow> shogi_board \<Rightarrow> dfpn_node \<Rightarrow> bool" where
  "kid_ok cfg p P b c \<longleftrightarrow> (pn c = 0 \<longrightarrow> upper_edge p P b (last_move c)) \<and> (dn c = 0 \<longrightarrow> \<not> lower_edge cfg p P b (last_move c)) \<and>
     numbers_ok (Suc (below c)) c \<and>
     (unsolved c \<longrightarrow> (\<not> is_expanded c \<longrightarrow> fresh c) \<and>
       (is_expanded c \<longrightarrow> verdict (next_pos b (last_move c)) = RepNone \<and> hash (next_pos b (last_move c)) \<notin> set P \<and>
          node_inv cfg (\<not> p) (P @ [hash (next_pos b (last_move c))]) (next_pos b (last_move c)) c))"

lemma node_inv_iff:
  "node_inv cfg p P b node \<longleftrightarrow> (pn node = 0 \<longrightarrow> upper p P b) \<and> (dn node = 0 \<longrightarrow> \<not> lower cfg p P b) \<and>
    numbers_ok (Suc (below node)) node \<and> (\<not> is_expanded node \<longrightarrow> fresh node) \<and>
    (is_expanded node \<longrightarrow> child_num node \<le> length (children node) \<and>
       (\<forall>c\<in>set (kids node). pn c = 0 \<longrightarrow> upper_edge p P b (last_move c) \<and> considered p b (last_move c))) \<and>
    (is_expanded node \<and> unsolved node \<longrightarrow> 0 < child_num node \<and> map last_move (kids node) = node_moves cfg p b \<and>
       numbered p (kids node) node \<and> (\<forall>c\<in>set (kids node). kid_ok cfg p P b c))"
  by (subst node_inv.simps) (auto simp: kid_ok_def)

lemma node_fields [simp]:
  "children (set_mate k n) = children n" "pn (set_mate k n) = 0" "dn (set_mate k n) = kInf - k" "last_move (set_mate k n) = last_move n"
  "child_num (set_mate k n) = child_num n"
  "children (set_nomate k n) = children n" "pn (set_nomate k n) = kInf - k" "dn (set_nomate k n) = 0"
  "last_move (set_nomate k n) = last_move n" "child_num (set_nomate k n) = child_num n"
  "children (with_children cs j n) = cs" "pn (with_children cs j n) = pn n" "dn (with_children cs j n) = dn n"
  "last_move (with_children cs j n) = last_move n" "child_num (with_children cs j n) = j"
  "children (with_repeated r n) = children n" "pn (with_repeated r n) = pn n" "dn (with_repeated r n) = dn n"
  "last_move (with_repeated r n) = last_move n" "child_num (with_repeated r n) = child_num n"
  "children (with_distance k n) = children n" "pn (with_distance k n) = pn n" "dn (with_distance k n) = dn n"
  "last_move (with_distance k n) = last_move n" "child_num (with_distance k n) = child_num n"
  "children (with_numbers x y n) = children n" "pn (with_numbers x y n) = x" "dn (with_numbers x y n) = y"
  "last_move (with_numbers x y n) = last_move n" "child_num (with_numbers x y n) = child_num n"
  "children (with_move m n) = children n" "pn (with_move m n) = pn n" "dn (with_move m n) = dn n"
  "last_move (with_move m n) = m" "child_num (with_move m n) = child_num n"
  by (cases n; simp)+

lemma is_expanded_iff: "is_expanded n \<longleftrightarrow> child_num n \<noteq> NOT_EXPANDED"
  by (cases n) simp

lemma summarized_sel:
  "children (summarized p n) = children n" "child_num (summarized p n) = child_num n" "last_move (summarized p n) = last_move n"
  "numbered p (kids n) (summarized p n)"
  by (auto simp: summarized_def Let_def numbered_def key_def other_def split: prod.splits)

lemma numbers_ok_mono: "numbers_ok k c \<Longrightarrow> k \<le> l \<Longrightarrow> numbers_ok l c"
  by (auto simp: numbers_ok_def)

lemma summarize_inv:
  assumes l: "lawful b" and n: "0 < child_num node" "child_num node \<noteq> NOT_EXPANDED" "child_num node \<le> length (children node)"
    and m: "map last_move (kids node) = node_moves cfg p b" and c: "\<And>c. c \<in> set (kids node) \<Longrightarrow> kid_ok cfg p P b c"
    and small: "below node < kInf - kPlies"
  shows "SummarizeNode p node = Some (summarized p node)" "node_inv cfg p P b (summarized p node)"
proof -
  show "SummarizeNode p node = Some (summarized p node)" using n by (simp add: SummarizeNode_def)
  let ?n = "summarized p node"
  note sel = summarized_sel [of p node]
  have ks: "kids ?n = kids node" by (simp add: sel)
  have num: "numbers_ok (cost (children node)) ?n"
    by (rule numbers_ok_summary [OF sel(4)]) (use c small in \<open>auto simp: kid_ok_def below_children [of node]\<close>)
  have b: "below ?n = cost (children node)" using below_children [of ?n] by (simp add: sel)
  have key: "key p ?n = fst (summary p (kids node))" and oth: "other p ?n = min kInf (sum_list (map (other p) (kids node)))"
    using sel(4) by (simp_all add: numbered_def summary_sum)
  have k0: "\<exists>c\<in>set (kids node). key p c = 0" if "key p ?n = 0"
    using that summary_min(3) [of p "kids node"] kInf_pos unfolding key by fastforce
  have o0: "other p c = 0" if "other p ?n = 0" "c \<in> set (kids node)" for c
  proof -
    have "other p c \<le> sum_list (map (other p) (kids node))" using that(2) by (intro member_le_sum_list) auto
    then show ?thesis using that(1) kInf_pos unfolding oth by linarith
  qed
  have mv: "last_move c \<in> set (node_moves cfg p b)" if "c \<in> set (kids node)" for c
    unfolding m [symmetric] using that by simp
  have co: "considered p b (last_move c)" if "c \<in> set (kids node)" for c
    using mv [OF that] attack_list_checks [OF l, of _ cfg]
    by (auto simp: considered_def node_moves_def dest: in_set_takeD split: if_splits)
  have all: "\<exists>c\<in>set (kids node). last_move c = x" if "x \<in> set (node_moves cfg p b)" for x
    using that unfolding m [symmetric] by auto
  have up: "upper p P b" if z: "pn ?n = 0"
  proof (cases p)
    case True
    then obtain c' where c': "c' \<in> set (kids node)" "pn c' = 0" using k0 z by (auto simp: key_def)
    then show ?thesis using game_values(1) [OF l True mv [OF c'(1)]] c [OF c'(1)] by (simp add: kid_ok_def)
  next
    case False
    have "upper_edge p P b x" if x: "x \<in> set (node_moves cfg p b)" for x
    proof -
      obtain c' where c': "c' \<in> set (kids node)" "last_move c' = x" using all [OF x] by blast
      have "pn c' = 0" using o0 [OF _ c'(1)] z False by (simp add: other_def)
      then show ?thesis using c [OF c'(1)] c'(2) by (simp add: kid_ok_def)
    qed
    then show ?thesis using game_values(2) [OF l False] by blast
  qed
  have lo: "\<not> lower cfg p P b" if z: "dn ?n = 0"
  proof (cases p)
    case False
    then obtain c' where c': "c' \<in> set (kids node)" "dn c' = 0" using k0 z by (auto simp: key_def)
    then show ?thesis using game_values(4) [OF l False mv [OF c'(1)]] c [OF c'(1)] by (simp add: kid_ok_def)
  next
    case True
    have "\<not> lower_edge cfg p P b x" if x: "x \<in> set (node_moves cfg p b)" for x
    proof -
      obtain c' where c': "c' \<in> set (kids node)" "last_move c' = x" using all [OF x] by blast
      have "dn c' = 0" using o0 [OF _ c'(1)] z True by (simp add: other_def)
      then show ?thesis using c [OF c'(1)] c'(2) by (simp add: kid_ok_def)
    qed
    then show ?thesis using game_values(3) [OF l True] by blast
  qed
  have e: "is_expanded ?n" using n(2) by (simp add: is_expanded_iff sel)
  show "node_inv cfg p P b ?n"
    unfolding node_inv_iff ks using up lo num b n m c e co numbers_ok_mono [OF num, of "Suc (below ?n)"] sel
    by (simp add: kid_ok_def)
qed

subsection \<open>Expansion keeps the invariant\<close>

definition stopped :: "dfpn_config \<Rightarrow> dfpn_state \<Rightarrow> bool" where
  "stopped cfg st \<longleftrightarrow> (\<exists>k. stops_from cfg = Some k \<and> k \<le> stop_readings st)"

lemma stopped_update [simp]:
  "stopped cfg (st\<lparr>path_hashes := x\<rparr>) = stopped cfg st" "stopped cfg (st\<lparr>st_board := y\<rparr>) = stopped cfg st"
  "stopped cfg (st\<lparr>path_hashes := x, stop_readings := k\<rparr>) = stopped cfg (st\<lparr>stop_readings := k\<rparr>)"
  by (simp_all add: stopped_def)

lemma ShouldStop_eq: "dfpn_ShouldStop cfg st = (stopped cfg st, st\<lparr>stop_readings := stop_readings st + 1\<rparr>)"
  by (cases "stops_from cfg") (auto simp: dfpn_ShouldStop_def stopped_def)

lemma stopped_mono: "stopped cfg st \<Longrightarrow> stop_readings st \<le> stop_readings st' \<Longrightarrow> stopped cfg st'"
  by (auto simp: stopped_def)

text \<open>What a step of the search may do to the solver: the position and the line come back, the
  pool and the counters only grow.\<close>

definition step_ok :: "dfpn_state \<Rightarrow> dfpn_node \<Rightarrow> dfpn_state \<Rightarrow> dfpn_node \<Rightarrow> bool" where
  "step_ok st node st' node' \<longleftrightarrow> st_board st' = st_board st \<and> path_hashes st' = path_hashes st \<and>
     pool_capacity st' = pool_capacity st \<and> pool_used st' \<le> pool_capacity st' \<and> pool_used st \<le> pool_used st' \<and>
     nodes_searched st \<le> nodes_searched st' \<and> below node' + pool_used st \<le> below node + pool_used st' \<and>
     last_move node' = last_move node"

lemma filter_checks_result:
  assumes "lawful (st_board st)" "set ms \<subseteq> set (GenerateLegalMoves (st_board st))"
  obtains r k where "filter_checks cfg ms st = (r, st\<lparr>stop_readings := k\<rparr>)" "stop_readings st \<le> k"
    "stopped cfg (st\<lparr>stop_readings := k\<rparr>) \<or>
     r = filter (\<lambda>m. InCheck (next_pos (st_board st) m) (side_to_move (next_pos (st_board st) m))) ms"
proof -
  have "\<exists>r k. filter_checks cfg ms st = (r, st\<lparr>stop_readings := k\<rparr>) \<and> stop_readings st \<le> k \<and>
    (stopped cfg (st\<lparr>stop_readings := k\<rparr>) \<or>
     r = filter (\<lambda>m. InCheck (next_pos (st_board st) m) (side_to_move (next_pos (st_board st) m))) ms)"
    using assms
  proof (induction ms arbitrary: st)
    case Nil
    then show ?case by (intro exI [of _ "[]"] exI [of _ "stop_readings st"]) simp
  next
    case (Cons m ms)
    let ?st = "st\<lparr>stop_readings := stop_readings st + 1\<rparr>"
    show ?case
    proof (cases "stopped cfg st")
      case True
      then have "stopped cfg ?st" by (rule stopped_mono) simp
      then show ?thesis using True
        by (intro exI [of _ "[]"] exI [of _ "stop_readings st + 1"]) (simp add: ShouldStop_eq)
    next
      case False
      have undo: "UndoMove (next_pos (st_board st) m) m (fst (DoMove (st_board st) m)) = st_board st"
        using legal_step_facts(3) Cons.prems by simp
      have same: "?st\<lparr>st_board := st_board st\<rparr> = ?st" by simp
      obtain r k where r: "filter_checks cfg ms ?st = (r, ?st\<lparr>stop_readings := k\<rparr>)" "stop_readings ?st \<le> k"
        "stopped cfg (?st\<lparr>stop_readings := k\<rparr>) \<or>
         r = filter (\<lambda>m. InCheck (next_pos (st_board ?st) m) (side_to_move (next_pos (st_board ?st) m))) ms"
        using Cons.IH [of ?st] Cons.prems by auto
      then show ?thesis using False
        by (simp add: ShouldStop_eq case_prod_beta undo) (auto intro: exI [of _ k])
    qed
  qed
  then show thesis using that by blast
qed

lemma kid_ok_fresh:
  assumes "fresh c" "last_move c = m"
  shows "kid_ok cfg p P b c"
  using assms below_children [of c] by (simp add: kid_ok_def fresh_def numbers_ok_def is_expanded_iff cost_def kInf_def)

lemma fresh_child_props: "fresh (fresh_child m)" "last_move (fresh_child m) = m" "below (fresh_child m) = 0" "below default_node = 0"
  by (simp_all add: fresh_child_def default_node_def fresh_def)

lemma SummarizeNode_leaf: "child_num n = 0 \<or> child_num n = NOT_EXPANDED \<Longrightarrow> SummarizeNode p n = Some n"
  by (auto simp: SummarizeNode_def)

lemma node_inv_fresh: "fresh node \<Longrightarrow> node_inv cfg p P b node"
  unfolding node_inv_iff using below_children [of node] by (simp add: fresh_def numbers_ok_def is_expanded_iff cost_def)

definition expand_post :: "dfpn_config \<Rightarrow> bool \<Rightarrow> u64 list \<Rightarrow> shogi_board \<Rightarrow> dfpn_node \<Rightarrow> dfpn_state \<Rightarrow> (dfpn_node \<times> dfpn_state) option \<Rightarrow> bool" where
  "expand_post cfg p P b node st x \<longleftrightarrow> (\<exists>node' st'. x = Some (node', st') \<and> stop_readings st \<le> stop_readings st' \<and>
     (stopped cfg st' \<or> (\<exists>node''. SummarizeNode p node' = Some node'' \<and> node_inv cfg p P b node'' \<and> step_ok st node st' node'')))"

lemma expand_moves_post:
  assumes l: "lawful b" and st: "st_board st = b" "path_hashes st = P" and f: "fresh node"
    and u: "pool_used st < pool_capacity st" "pool_capacity st \<le> 2000000" "depth \<le> pool_used st"
  shows "expand_post cfg p P b node st (expand_moves cfg p node depth st)"
proof -
  let ?mv = "if p then attack_list cfg b else GenerateLegalMoves b"
  have fe: "below node = 0" "children node = []" using f below_children [of node] by (simp_all add: fresh_def cost_def)
  obtain moves k where mv: "(if p then GenerateChecks cfg st else (GenerateLegalMoves (st_board st), st)) = (moves, st\<lparr>stop_readings := k\<rparr>)"
    "stop_readings st \<le> k" "stopped cfg (st\<lparr>stop_readings := k\<rparr>) \<or> moves = ?mv"
  proof (cases "p \<and> \<not> use_fast_check_movegen cfg")
    case True
    obtain r k where "filter_checks cfg (GenerateLegalMoves b) st = (r, st\<lparr>stop_readings := k\<rparr>)" "stop_readings st \<le> k"
      "stopped cfg (st\<lparr>stop_readings := k\<rparr>) \<or>
       r = filter (\<lambda>m. InCheck (next_pos b m) (side_to_move (next_pos b m))) (GenerateLegalMoves b)"
      by (rule filter_checks_result [of st "GenerateLegalMoves b" cfg]) (use l st in auto)
    then show thesis using True st(1) by (intro that [of r k]) (auto simp: GenerateChecks_def attack_list_def)
  next
    case False
    have "st = st\<lparr>stop_readings := stop_readings st\<rparr>" by simp
    then show thesis using False st(1)
      by (intro that [of ?mv "stop_readings st"]) (auto simp: GenerateChecks_def attack_list_def)
  qed
  let ?s1 = "st\<lparr>stop_readings := k + 1\<rparr>"
  have em: "expand_moves cfg p node depth st =
      (if stopped cfg (st\<lparr>stop_readings := k\<rparr>) then Some (node, ?s1)
       else if moves = [] then Some (with_children (children node) 0 (if p then set_nomate depth node else set_mate depth node), ?s1)
       else case NewNodes (length moves) ?s1 of (ok, st) \<Rightarrow>
         if \<not> ok then Some (node, st)
         else map_option (\<lambda>node. (node, st)) (SummarizeNode p (with_children
           (map fresh_child (take 254 moves) @ replicate (length moves - 254) default_node) (min (length moves) 254) node)))"
    unfolding expand_moves_def mv(1) Let_def case_prod_conv ShouldStop_eq by simp
  show ?thesis
  proof (cases "stopped cfg (st\<lparr>stop_readings := k\<rparr>)")
    case True
    then have "stopped cfg ?s1" by (rule stopped_mono) simp
    then show ?thesis using True mv(2) by (simp add: em expand_post_def)
  next
    case go: False
    then have mve: "moves = ?mv" using mv(3) by blast
    consider (none) "moves = []" | (full) "moves \<noteq> []" "pool_used st + length moves > pool_capacity st"
      | (alloc) "moves \<noteq> []" "pool_used st + length moves \<le> pool_capacity st" by linarith
    then show ?thesis
    proof cases
      case none
      let ?n = "with_children (children node) 0 (if p then set_nomate depth node else set_mate depth node)"
      have nm: "node_moves cfg p b = []" using none mve by (simp add: node_moves_def)
      have "p \<Longrightarrow> \<not> lower cfg p P b" "\<not> p \<Longrightarrow> upper p P b" using game_values(2,3) [OF l, of p cfg] nm by simp_all
      moreover have "below ?n = 0" using below_children [of ?n] fe by (simp add: cost_def)
      ultimately have "node_inv cfg p P b ?n" unfolding node_inv_iff
        using u by (auto simp: numbers_ok_def is_expanded_iff NOT_EXPANDED_def kInf_def kPlies_def unsolved_def)
      moreover have "step_ok st node ?s1 ?n" using \<open>below ?n = 0\<close> u by (simp add: step_ok_def)
      ultimately show ?thesis using go none mv(2)
        by (simp add: em expand_post_def SummarizeNode_leaf)
    next
      case full
      then have "expand_moves cfg p node depth st = Some (node, ?s1\<lparr>pool_exhausted := True\<rparr>)"
        using go by (simp add: em NewNodes_def)
      moreover have "SummarizeNode p node = Some node" using f by (simp add: SummarizeNode_leaf fresh_def)
      moreover have "step_ok st node (?s1\<lparr>pool_exhausted := True\<rparr>) node" using u by (simp add: step_ok_def)
      ultimately show ?thesis using node_inv_fresh [OF f] mv(2) by (simp add: expand_post_def)
    next
      case alloc
      let ?cs = "map fresh_child (take 254 moves) @ replicate (length moves - 254) default_node"
      let ?n = "with_children ?cs (min (length moves) 254) node"
      have tk: "kids ?n = map fresh_child (take 254 moves)" by (simp add: min_def)
      have "cost ?cs = length moves"
        by (simp add: cost_def fresh_child_props o_def sum_list_replicate sum_list_triv)
      then have bn: "below ?n = length moves" using below_children [of ?n] by simp
      have ki: "kid_ok cfg p P b c" if "c \<in> set (kids ?n)" for c
        using that unfolding tk by (auto intro: kid_ok_fresh fresh_child_props)
      have mm: "map last_move (kids ?n) = node_moves cfg p b"
        unfolding tk by (simp add: o_def fresh_child_props node_moves_def mve)
      have small: "below ?n < kInf - kPlies" using bn alloc(2) u by (simp add: kInf_def kPlies_def)
      have n: "0 < child_num ?n" "child_num ?n \<noteq> NOT_EXPANDED" "child_num ?n \<le> length (children ?n)"
        using alloc(1) by (auto simp: NOT_EXPANDED_def)
      note once = summarize_inv [OF l n mm ki small]
      let ?m = "summarized p ?n"
      note sel = summarized_sel [of p ?n]
      have ks: "kids ?m = kids ?n" "below ?m = below ?n" using below_children [of ?m] below_children [of ?n] by (simp_all add: sel)
      have n2: "0 < child_num ?m" "child_num ?m \<noteq> NOT_EXPANDED" "child_num ?m \<le> length (children ?m)"
        "map last_move (kids ?m) = node_moves cfg p b" "below ?m < kInf - kPlies"
        "\<And>c. c \<in> set (kids ?m) \<Longrightarrow> kid_ok cfg p P b c"
        using n mm small ki unfolding ks by (simp_all add: sel)
      note twice = summarize_inv [OF l n2(1-4,6,5)]
      let ?s2 = "?s1\<lparr>pool_used := pool_used st + length moves\<rparr>"
      have "expand_moves cfg p node depth st = Some (?m, ?s2)"
        using go alloc once(1) by (simp add: em NewNodes_def)
      moreover have "step_ok st node ?s2 (summarized p ?m)"
        using alloc(2) bn ks(2) below_children [of "summarized p ?m"] below_children [of ?m] fe
        by (simp add: step_ok_def summarized_sel)
      ultimately show ?thesis using twice mv(2) by (simp add: expand_post_def)
    qed
  qed
qed

lemma expand_post_later:
  assumes "expand_post cfg p P b node (st\<lparr>stop_readings := k\<rparr>) x" "stop_readings st \<le> k"
  shows "expand_post cfg p P b node st x"
  using assms by (fastforce simp: expand_post_def step_ok_def)

lemma one_ply_node:
  assumes l: "lawful b" and p: "p" and m: "\<not> move_is_null m" "claim_move b m" and d: "depth < 2000000"
    and e: "is_expanded node" "child_num node = 1" "pn node = 0"
      "children node = [with_children [] 0 (set_mate (depth + 1) (with_move m default_node))]"
  shows "SummarizeNode p node = Some (summarized p node)" "node_inv cfg p P b (summarized p node)" "below node = 1"
    "below (summarized p node) = 1"
proof -
  let ?c = "with_children [] 0 (set_mate (depth + 1) (with_move m default_node))"
  note sel = summarized_sel [of p node]
  have bc: "below ?c = 0" using below_children [of ?c] by (simp add: cost_def)
  show bn: "below node = 1" "below (summarized p node) = 1"
    using below_children [of node] below_children [of "summarized p node"] e(4) bc by (simp_all add: cost_def sel)
  show "SummarizeNode p node = Some (summarized p node)"
    using e by (simp add: SummarizeNode_def is_expanded_iff)
  have ks: "kids (summarized p node) = [?c]" using e by (simp add: sel)
  have "summary p [?c] = (0, kInf - (depth + 1))" using p by (simp add: summary_def SatAdd_props)
  then have nd: "pn (summarized p node) = 0" "dn (summarized p node) = kInf - (depth + 1)"
    using sel(4) e p by (simp_all add: numbered_def key_def other_def)
  have ch: "checks b m" using m(2) by (simp add: claim_move_def)
  have ue: "upper_edge p P b m" using m(2) p by (simp add: upper_edge_def edge_of_def)
  have co: "considered p b m" using ch p by (simp add: considered_def)
  have "upper p P b" by (rule game_values(5) [OF l p ch ue])
  then show "node_inv cfg p P b (summarized p node)"
    unfolding node_inv_iff ks using nd d e ue co
    by (simp add: is_expanded_iff sel unsolved_def numbers_ok_def kInf_def kPlies_def)
qed

lemma ExpandNode_post:
  assumes l: "lawful b" and st: "st_board st = b" "path_hashes st = P" and f: "fresh node"
    and u: "pool_used st < pool_capacity st" "pool_capacity st \<le> 2000000" "depth \<le> pool_used st"
  shows "expand_post cfg p P b node st (ExpandNode cfg p node depth st)"
proof -
  let ?s1 = "st\<lparr>stop_readings := stop_readings st + 1\<rparr>" let ?s2 = "st\<lparr>stop_readings := stop_readings st + 2\<rparr>"
  let ?m = "FindMateInOne b"
  have s2: "?s1\<lparr>stop_readings := stop_readings ?s1 + 1\<rparr> = ?s2" by simp
  have later: "expand_post cfg p P b node st (expand_moves cfg p node depth (st\<lparr>stop_readings := k\<rparr>))" if "stop_readings st \<le> k" for k
    by (rule expand_post_later [OF expand_moves_post [OF l] that]) (use st f u in simp_all)
  have stop: "expand_post cfg p P b node st (Some (node, s))" if "stopped cfg s" "stop_readings st \<le> stop_readings s" for s
    using that by (simp add: expand_post_def)
  have s1: "stopped cfg st \<Longrightarrow> stopped cfg ?s1" "stopped cfg ?s1 \<Longrightarrow> stopped cfg ?s2" by (auto simp: stopped_def)
  consider "stopped cfg st" | "\<not> stopped cfg st" "\<not> p" | "\<not> stopped cfg st" "p" "stopped cfg ?s1"
    | "\<not> stopped cfg st" "p" "\<not> stopped cfg ?s1" "move_is_null ?m" | "\<not> stopped cfg st" "p" "\<not> stopped cfg ?s1" "\<not> move_is_null ?m"
    by blast
  then show ?thesis
  proof cases
    case 1
    then show ?thesis using stop [OF s1(1)] by (simp add: ExpandNode_def ShouldStop_eq)
  next
    case 2
    then show ?thesis using later [of "stop_readings st + 1"] by (simp add: ExpandNode_def ShouldStop_eq)
  next
    case 3
    then show ?thesis using stop [OF s1(2)] st by (simp add: ExpandNode_def ShouldStop_eq Let_def)
  next
    case 4
    then show ?thesis using later [of "stop_readings st + 2"] st by (simp add: ExpandNode_def ShouldStop_eq Let_def)
  next
    case 5
    let ?child = "with_children [] 0 (set_mate (depth + 1) (with_move ?m default_node))"
    let ?n = "with_children [?child] 1 (with_distance 1 (set_mate depth node))"
    let ?s3 = "?s2\<lparr>pool_used := pool_used st + 1\<rparr>"
    have x: "ExpandNode cfg p node depth st = Some (?n, ?s3)"
      using 5 st u by (simp add: ExpandNode_def ShouldStop_eq Let_def NewNodes_def)
    have d: "depth < 2000000" using u by simp
    note o = one_ply_node [OF l 5(2,4) in_check_claim [OF l 5(4)] d, where node = ?n]
    have e: "is_expanded ?n" by (simp add: is_expanded_iff NOT_EXPANDED_def)
    have b0: "below node = 0" using f below_children [of node] by (simp add: fresh_def cost_def)
    have "step_ok st node ?s3 (summarized p ?n)" using o(4) e u b0 by (simp add: step_ok_def summarized_sel)
    then show ?thesis using x o(1,2) e by (simp add: expand_post_def)
  qed
qed

subsection \<open>The search returns and keeps the invariant\<close>

definition run_post ::
    "dfpn_config \<Rightarrow> bool \<Rightarrow> u64 list \<Rightarrow> shogi_board \<Rightarrow> dfpn_node \<Rightarrow> dfpn_state \<Rightarrow> bool \<Rightarrow> (dfpn_node \<times> dfpn_state) option \<Rightarrow> bool" where
  "run_post cfg p P b node st active x \<longleftrightarrow> (\<exists>node' st'. x = Some (node', st') \<and>
     (stopped cfg st' \<or> node_inv cfg p P b node' \<and> step_ok st node st' node' \<and>
        (OutOfMemory st' \<or> nodes_searched st < nodes_searched st' \<or> leaves node' < leaves node \<or>
         \<not> active \<and> leaves node' \<le> leaves node)))"

definition ready :: "dfpn_config \<Rightarrow> bool \<Rightarrow> u64 list \<Rightarrow> shogi_board \<Rightarrow> nat \<Rightarrow> dfpn_node \<Rightarrow> dfpn_state \<Rightarrow> bool" where
  "ready cfg p P b depth node st \<longleftrightarrow> lawful b \<and> node_inv cfg p P b node \<and> st_board st = b \<and> path_hashes st = P \<and>
     depth + below node \<le> pool_used st \<and> pool_used st \<le> pool_capacity st \<and> pool_capacity st \<le> 2000000"

definition active :: "dfpn_config \<Rightarrow> nat \<Rightarrow> nat \<Rightarrow> dfpn_node \<Rightarrow> dfpn_state \<Rightarrow> bool" where
  "active cfg tp td node st \<longleftrightarrow> pn node < tp \<and> dn node < td \<and> unsolved node \<and> \<not> OutOfMemory st \<and> nodes_searched st < nodes_limit cfg"

text \<open>Entering the search of a node, given the loop for it.\<close>

lemma entry_post:
  assumes r: "ready cfg p P b depth node st" and oom: "\<not> OutOfMemory st"
    and rec: "\<And>k. is_expanded node \<Longrightarrow> run_post cfg p P b node (st\<lparr>stop_readings := k\<rparr>) (active cfg tp td node st)
      (search_run cfg True p tp td depth node (st\<lparr>stop_readings := k\<rparr>))"
  shows "run_post cfg p P b node st (active cfg tp td node st) (search_run cfg False p tp td depth node st)"
proof -
  let ?s1 = "st\<lparr>stop_readings := stop_readings st + 1\<rparr>"
  show ?thesis
  proof (cases "stopped cfg st")
    case True
    then have "stopped cfg ?s1" by (auto simp: stopped_def)
    then show ?thesis using True by (subst search_run.simps) (simp add: ShouldStop_eq run_post_def)
  next
    case go: False
    show ?thesis
    proof (cases "is_expanded node")
      case True
      then have "search_run cfg False p tp td depth node st = search_run cfg True p tp td depth node ?s1"
        using go by (subst search_run.simps) (simp add: ShouldStop_eq)
      then show ?thesis using rec [OF True, of "stop_readings st + 1"] by (simp add: run_post_def step_ok_def)
    next
      case False
      have f: "fresh node" using r False by (simp add: ready_def node_inv_iff)
      have "expand_post cfg p P b node ?s1 (ExpandNode cfg p node depth ?s1)"
        by (rule ExpandNode_post) (use r f oom in \<open>auto simp: ready_def OutOfMemory_def\<close>)
      then obtain node' st' where x: "ExpandNode cfg p node depth ?s1 = Some (node', st')" "stop_readings ?s1 \<le> stop_readings st'"
        "stopped cfg st' \<or> (\<exists>node''. SummarizeNode p node' = Some node'' \<and> node_inv cfg p P b node'' \<and> step_ok ?s1 node st' node'')"
        unfolding expand_post_def by blast
      let ?s3 = "st'\<lparr>stop_readings := stop_readings st' + 1\<rparr>"
      have run: "search_run cfg False p tp td depth node st =
          (if stopped cfg st' then Some (node', ?s3)
           else map_option (\<lambda>node. (node, ?s3\<lparr>nodes_searched := nodes_searched st' + 1\<rparr>)) (SummarizeNode p node'))"
        using go False x(1) by (subst search_run.simps) (simp add: ShouldStop_eq)
      show ?thesis
      proof (cases "stopped cfg st'")
        case True
        then have "stopped cfg ?s3" by (auto simp: stopped_def)
        then show ?thesis using True run by (simp add: run_post_def)
      next
        case False
        then show ?thesis using x(3) run by (auto simp: run_post_def step_ok_def)
      qed
    qed
  qed
qed

text \<open>Replacing one child of a node and summarizing again.\<close>

lemma child_replaced:
  assumes r: "ready cfg p P b depth node st" and e: "is_expanded node" "unsolved node"
    and i: "i < length (kids node)" and c: "kid_ok cfg p P b c" "last_move c = last_move (children node ! i)"
    and size: "below c + pool_used st \<le> below (children node ! i) + used" "used \<le> 2000000"
  shows "SummarizeNode p (with_child node i c) = Some (summarized p (with_child node i c))"
    "node_inv cfg p P b (summarized p (with_child node i c))"
    "below (summarized p (with_child node i c)) + pool_used st \<le> below node + used"
    "last_move (summarized p (with_child node i c)) = last_move node"
    "is_expanded (summarized p (with_child node i c))"
    "leaves c < leaves (children node ! i) \<Longrightarrow> leaves (summarized p (with_child node i c)) < leaves node"
proof -
  let ?n = "with_child node i c" let ?m = "summarized p ?n"
  have inv: "node_inv cfg p P b node" and l: "lawful b" and dep: "depth + below node \<le> pool_used st"
    using r by (simp_all add: ready_def)
  have cn: "0 < child_num node" "child_num node \<le> length (children node)" "map last_move (kids node) = node_moves cfg p b"
    "\<forall>c\<in>set (kids node). kid_ok cfg p P b c" using inv e by (simp_all add: node_inv_iff)
  have ich: "i < child_num node" "i < length (children node)" using i by simp_all
  have sel: "children ?n = (children node)[i := c]" "child_num ?n = child_num node" "last_move ?n = last_move node"
    by (simp_all add: with_child_def)
  have ks: "kids ?n = (kids node)[i := c]" by (simp add: sel take_update_swap)
  have nth: "kids node ! i = children node ! i" using ich by simp
  have bl: "below ?n + Suc (below (children node ! i)) = below node + Suc (below c)"
  proof -
    have len: "i < length (map (\<lambda>c. Suc (below c)) (children node))" using ich by simp
    have "Suc (below (children node ! i)) \<le> cost (children node)"
      unfolding cost_def using ich by (intro member_le_sum_list) auto
    moreover have "cost ((children node)[i := c]) = cost (children node) + Suc (below c) - Suc (below (children node ! i))"
      using sum_list_update [OF len, of "Suc (below c)"] ich by (simp add: cost_def map_update)
    ultimately show ?thesis using below_children [of ?n] below_children [of node] by (simp add: sel)
  qed
  have le_node: "Suc (below (children node ! i)) \<le> below node"
    unfolding below_children [of node] cost_def using ich by (intro member_le_sum_list) auto
  have small: "below ?n < kInf - kPlies" using bl size dep by (simp add: kInf_def kPlies_def)
  have n: "0 < child_num ?n" "child_num ?n \<noteq> NOT_EXPANDED" "child_num ?n \<le> length (children ?n)"
    using cn e by (simp_all add: sel is_expanded_iff)
  have mm: "map last_move (kids ?n) = node_moves cfg p b"
    unfolding ks map_update c(2) using cn(3) nth i by (metis length_map list_update_id nth_map)
  have ko: "kid_ok cfg p P b x" if "x \<in> set (kids ?n)" for x
    using that cn(4) c(1) unfolding ks by (auto dest: set_update_subset_insert [THEN subsetD])
  show "SummarizeNode p ?n = Some ?m" "node_inv cfg p P b ?m" using summarize_inv [OF l n mm ko small] by blast+
  note ss = summarized_sel [of p ?n]
  show "below ?m + pool_used st \<le> below node + used"
    using below_children [of ?m] below_children [of ?n] bl size by (simp add: ss)
  show "last_move ?m = last_move node" "is_expanded ?m" using n by (simp_all add: ss sel is_expanded_iff)
  assume less: "leaves c < leaves (children node ! i)"
  have ln: "leaves node = sum_list (map leaves (kids node))" using e by (subst leaves.simps) simp
  have lenk: "i < length (map leaves (kids node))" using i by simp
  have "leaves (children node ! i) \<in> set (map leaves (kids node))" using i nth by (metis imageI nth_mem set_map)
  then have "leaves (children node ! i) \<le> leaves node" unfolding ln by (rule member_le_sum_list) simp
  moreover have "sum_list (map leaves ((kids node)[i := c])) = leaves node + leaves c - leaves (children node ! i)"
    using sum_list_update [OF lenk, of "leaves c"] i by (simp add: ln map_update)
  moreover have "leaves ?m \<le> sum_list (map leaves ((kids node)[i := c]))"
    using ks n by (subst leaves.simps) (simp add: ss is_expanded_iff)
  ultimately show "leaves ?m < leaves node" using less by linarith
qed

text \<open>A child solved by a repetition verdict or by a repetition of the line.\<close>

lemma kid_ok_repetition:
  assumes "kid_ok cfg p P b c" "depth < 2000000"
    and "fst (CheckRepetition (next_pos b (last_move c)) kRepetitionLookbackPly) \<noteq> RepNone"
  shows "kid_ok cfg p P b (with_repeated True
    (if verdict (next_pos b (last_move c)) = (if p then RepLoss else RepWin) then set_mate (depth + 1) c else set_nomate (depth + 1) c))"
  using assms by (auto simp: kid_ok_def upper_edge_def lower_edge_def edge_of_def numbers_ok_def unsolved_def kInf_def kPlies_def)

lemma kid_ok_line:
  assumes "kid_ok cfg p P b c" "depth < 2000000" "verdict (next_pos b (last_move c)) = RepNone" "hash (next_pos b (last_move c)) \<in> set P"
  shows "kid_ok cfg p P b (with_repeated True (set_nomate (depth + 1) c))"
  using assms by (auto simp: kid_ok_def lower_edge_def edge_of_def numbers_ok_def unsolved_def kInf_def kPlies_def)

lemma solved_leaves: "\<not> unsolved c \<Longrightarrow> leaves c = 0"
  by (subst leaves.simps) simp

lemma kid_ok_search:
  assumes "verdict (next_pos b m) = RepNone" "hash (next_pos b m) \<notin> set P" "last_move c = m"
    and "node_inv cfg (\<not> p) (P @ [hash (next_pos b m)]) (next_pos b m) c"
  shows "kid_ok cfg p P b c"
  using assms unfolding kid_ok_def
  by (auto simp: node_inv_iff upper_def upper_edge_def lower_def lower_edge_def edge_of_def)

lemma run_post_trans:
  assumes "step_ok st node st2 node2" "nodes_searched st < nodes_searched st2 \<or> leaves node2 < leaves node"
    and "run_post cfg p P b node2 st2 a x"
  shows "run_post cfg p P b node st a' x"
  using assms by (auto simp: run_post_def step_ok_def)

lemma run_post_here: "node_inv cfg p P b node \<Longrightarrow> pool_used st \<le> pool_capacity st \<Longrightarrow> \<not> a \<Longrightarrow>
    run_post cfg p P b node st a (Some (node, st\<lparr>stop_readings := k\<rparr>))"
  by (simp add: run_post_def step_ok_def)

lemma run_post_stopped: "stopped cfg st' \<Longrightarrow> run_post cfg p P b node st a (Some (node', st'))"
  by (simp add: run_post_def)

lemma loop_post:
  assumes "ready cfg p P b depth node st" "is_expanded node"
  shows "run_post cfg p P b node st (active cfg tp td node st) (search_run cfg True p tp td depth node st)"
  using assms
proof (induction "(nodes_limit cfg - nodes_searched st, leaves node, below node)" arbitrary: p P b depth node st tp td
    rule: wf_induct_rule [OF wf_lex_prod [OF wf_less_than wf_lex_prod [OF wf_less_than wf_less_than]]])
  case less: 1
  note r = less.prems(1) and e = less.prems(2)
  have l: "lawful b" and inv: "node_inv cfg p P b node" and sb: "st_board st = b" "path_hashes st = P"
    and dep: "depth + below node \<le> pool_used st" "pool_used st \<le> pool_capacity st" "pool_capacity st \<le> 2000000"
    using r by (simp_all add: ready_def)
  let ?s1 = "st\<lparr>stop_readings := stop_readings st + 1\<rparr>"
  consider (off) "\<not> (pn node < tp \<and> dn node < td \<and> unsolved node \<and> \<not> OutOfMemory st)"
    | (stop) "pn node < tp" "dn node < td" "unsolved node" "\<not> OutOfMemory st" "stopped cfg st"
    | (limit) "pn node < tp" "dn node < td" "unsolved node" "\<not> OutOfMemory st" "\<not> stopped cfg st" "\<not> nodes_searched st < nodes_limit cfg"
    | (go) "pn node < tp" "dn node < td" "unsolved node" "\<not> OutOfMemory st" "\<not> stopped cfg st" "nodes_searched st < nodes_limit cfg"
    by blast
  then show ?case
  proof cases
    case off
    then have run: "search_run cfg True p tp td depth node st = Some (node, st\<lparr>stop_readings := stop_readings st\<rparr>)"
      by (subst search_run.simps) (auto simp: unsolved_def)
    have "\<not> active cfg tp td node st" using off by (auto simp: active_def)
    from run_post_here [OF inv dep(2) this] show ?thesis unfolding run .
  next
    case stop
    then have "search_run cfg True p tp td depth node st = Some (node, ?s1)"
      by (subst search_run.simps) (simp add: unsolved_def ShouldStop_eq)
    moreover have "stopped cfg ?s1" using stop(5) by (auto simp: stopped_def)
    ultimately show ?thesis by (simp add: run_post_stopped)
  next
    case limit
    then have "search_run cfg True p tp td depth node st = Some (node, ?s1)"
      by (subst search_run.simps) (simp add: unsolved_def ShouldStop_eq)
    then show ?thesis using limit run_post_here [OF inv dep(2)] by (simp add: active_def)
  next
    case go
    have k: "0 < child_num node" "map last_move (kids node) = node_moves cfg p b" "numbered p (kids node) node"
      "\<And>c. c \<in> set (kids node) \<Longrightarrow> kid_ok cfg p P b c" using inv e go(3) by (simp_all add: node_inv_iff)
    have small: "below node < kInf - kPlies" using dep by (simp add: kInf_def kPlies_def)
    obtain i sp sd where sel: "SelectBestChild p node tp td = Some (i, sp, sd)" "i < length (kids node)" "unsolved (kids node ! i)"
      "pn (kids node ! i) < sp" "dn (kids node ! i) < sd"
      by (rule SelectBestChild_unsolved [OF k(1) go(3) k(3) _ small go(1,2)]) (use k(4) in \<open>auto simp: kid_ok_def\<close>)
    define c where "c = children node ! i"
    have ck: "c \<in> set (kids node)" "kids node ! i = c" using sel(2) nth_mem [OF sel(2)] by (simp_all add: c_def)
    note kc = k(4) [OF ck(1)] and sc = sel(3-5) [unfolded ck(2)]
    define m where "m = last_move c"
    have mm: "m \<in> set (node_moves cfg p b)" unfolding k(2) [symmetric] m_def using ck(1) by simp
    have m: "m \<in> set (GenerateLegalMoves b)"
      using mm attack_list_checks [OF l] by (auto simp: node_moves_def checks_def dest: in_set_takeD split: if_splits)
    note f = legal_step_facts [OF l m]
    define undo where "undo = fst (DoMove b m)"
    define b' where "b' = next_pos b m"
    have dm: "DoMove b m = (undo, b')" and un: "UndoMove b' m undo = b" using f(3) by (simp_all add: undo_def b'_def)
    have le_node: "Suc (below c) \<le> below node"
      unfolding below_children [of node] cost_def c_def using sel(2) by (intro member_le_sum_list) auto
    have tail: "run_post cfg p P b node st (active cfg tp td node st) (search_run cfg True p tp td depth node2 st2)"
      if n2: "node_inv cfg p P b node2" "is_expanded node2" and so: "step_ok st node st2 node2"
        and prog: "OutOfMemory st2 \<or> nodes_searched st < nodes_searched st2 \<or> leaves node2 < leaves node" for node2 st2
    proof (cases "OutOfMemory st2")
      case True
      then have "search_run cfg True p tp td depth node2 st2 = Some (node2, st2)" by (subst search_run.simps) simp
      then show ?thesis using True n2 so by (simp add: run_post_def)
    next
      case False
      have "ready cfg p P b depth node2 st2" using r n2 so by (simp add: ready_def step_ok_def)
      moreover have "((nodes_limit cfg - nodes_searched st2, leaves node2, below node2), nodes_limit cfg - nodes_searched st, leaves node, below node)
          \<in> less_than <*lex*> less_than <*lex*> less_than"
        using prog False so go(6) by (auto simp: step_ok_def)
      ultimately have "run_post cfg p P b node2 st2 (active cfg tp td node2 st2) (search_run cfg True p tp td depth node2 st2)"
        using less.hyps n2(2) by blast
      then show ?thesis using run_post_trans [OF so] prog False by blast
    qed
    have solved: "run_post cfg p P b node st (active cfg tp td node st)
        (Option.bind (SummarizeNode p (with_child node i c2)) (\<lambda>node'. search_run cfg True p tp td depth node' ?s1))"
      if c2: "kid_ok cfg p P b c2" "\<not> unsolved c2" "children c2 = children c" "last_move c2 = m" and ex: "\<not> is_expanded c" for c2
    proof -
      have "leaves c = 1" using ex sc(1) by (subst leaves.simps) simp
      then have lv: "leaves c2 < leaves (children node ! i)" using solved_leaves [OF c2(2)] by (simp add: c_def)
      have bs: "below c2 + pool_used st \<le> below (children node ! i) + pool_used st"
        using below_children [of c2] below_children [of c] c2(3) by (simp add: c_def)
      note cr = child_replaced [OF r e go(3) sel(2) c2(1) _ bs]
      have cm: "last_move c2 = last_move (children node ! i)" using c2(4) by (simp add: m_def c_def)
      have "step_ok st node ?s1 (summarized p (with_child node i c2))"
        using cr(3,4) [OF cm] dep by (simp add: step_ok_def)
      then have "run_post cfg p P b node st (active cfg tp td node st) (search_run cfg True p tp td depth (summarized p (with_child node i c2)) ?s1)"
        using cr(2,5,6) [OF cm] lv dep by (intro tail) simp_all
      then show ?thesis using cr(1) [OF cm] dep by simp
    qed
    have d: "depth < 2000000" using dep le_node by linarith
    have s1u: "st\<lparr>stop_readings := k, st_board := b\<rparr> = st\<lparr>stop_readings := k\<rparr>" for k using sb by simp
    consider (rep) "verdict (b') \<noteq> RepNone" | (line) "verdict (b') = RepNone" "hash (b') \<in> set P"
      | (rec) "verdict (b') = RepNone" "hash (b') \<notin> set P" by blast
    then show ?thesis
    proof cases
      case rep
      let ?c2 = "with_repeated True (if verdict (b') = (if p then RepLoss else RepWin) then set_mate (depth + 1) c else set_nomate (depth + 1) c)"
      have ex: "\<not> is_expanded c" using kc sc(1) rep by (auto simp: kid_ok_def m_def b'_def)
      have "search_run cfg True p tp td depth node st =
          Option.bind (SummarizeNode p (with_child node i ?c2)) (\<lambda>node'. search_run cfg True p tp td depth node' ?s1)"
        using go sel(1) rep dm un sb
        by (subst search_run.simps) (simp add: unsolved_def ShouldStop_eq c_def [symmetric] m_def [symmetric] s1u)
      moreover have "kid_ok cfg p P b ?c2" using kid_ok_repetition [OF kc d] rep by (simp add: m_def b'_def)
      ultimately show ?thesis using solved [of ?c2] ex by (simp add: unsolved_def m_def)
    next
      case line
      let ?c2 = "with_repeated True (set_nomate (depth + 1) c)"
      have ex: "\<not> is_expanded c" using kc sc(1) line by (auto simp: kid_ok_def m_def b'_def)
      have "search_run cfg True p tp td depth node st =
          Option.bind (SummarizeNode p (with_child node i ?c2)) (\<lambda>node'. search_run cfg True p tp td depth node' ?s1)"
        using go sel(1) line dm un sb
        by (subst search_run.simps)
          (simp add: unsolved_def ShouldStop_eq c_def [symmetric] m_def [symmetric] s1u dfpn_IsRepetition_def list_ex_iff)
      moreover have "kid_ok cfg p P b ?c2" using kid_ok_line [OF kc d] line by (simp add: m_def b'_def)
      ultimately show ?thesis using solved [of ?c2] ex by (simp add: unsolved_def m_def)
    next
      case rec
      let ?P = "P @ [hash (b')]" let ?sc = "?s1\<lparr>st_board := b', path_hashes := ?P\<rparr>"
      have "node_inv cfg (\<not> p) ?P (b') c"
        using kc sc(1) node_inv_fresh by (cases "is_expanded c") (auto simp: kid_ok_def m_def b'_def)
      then have rc: "ready cfg (\<not> p) ?P (b') (depth + 1) c ?sc"
        using f(1) dep le_node by (simp add: ready_def b'_def)
      have act: "active cfg sp sd c ?sc" using sc go by (simp add: active_def OutOfMemory_def)
      have lc: "leaves c \<le> leaves node"
      proof -
        have "leaves node = sum_list (map leaves (kids node))" using e go(3) by (subst leaves.simps) simp
        then show ?thesis using ck(1) by (simp add: member_le_sum_list)
      qed
      have "run_post cfg (\<not> p) ?P (b') c ?sc (active cfg sp sd c ?sc) (search_run cfg False (\<not> p) sp sd (depth + 1) c ?sc)"
      proof (rule entry_post [OF rc])
        show "\<not> OutOfMemory ?sc" using go(4) by (simp add: OutOfMemory_def)
        fix k assume ec: "is_expanded c"
        have "((nodes_limit cfg - nodes_searched (?sc\<lparr>stop_readings := k\<rparr>), leaves c, below c), nodes_limit cfg - nodes_searched st, leaves node, below node)
          \<in> less_than <*lex*> less_than <*lex*> less_than" using lc le_node by auto
        moreover have "ready cfg (\<not> p) ?P (b') (depth + 1) c (?sc\<lparr>stop_readings := k\<rparr>)"
          using rc by (simp add: ready_def)
        ultimately have "run_post cfg (\<not> p) ?P (b') c (?sc\<lparr>stop_readings := k\<rparr>) (active cfg sp sd c (?sc\<lparr>stop_readings := k\<rparr>))
          (search_run cfg True (\<not> p) sp sd (depth + 1) c (?sc\<lparr>stop_readings := k\<rparr>))" using less.hyps ec by blast
        then show "run_post cfg (\<not> p) ?P (b') c (?sc\<lparr>stop_readings := k\<rparr>) (active cfg sp sd c ?sc)
          (search_run cfg True (\<not> p) sp sd (depth + 1) c (?sc\<lparr>stop_readings := k\<rparr>))"
          by (simp add: active_def OutOfMemory_def)
      qed
      then obtain c' st' where x: "search_run cfg False (\<not> p) sp sd (depth + 1) c ?sc = Some (c', st')"
        "stopped cfg st' \<or> node_inv cfg (\<not> p) ?P (b') c' \<and> step_ok ?sc c st' c' \<and>
          (OutOfMemory st' \<or> nodes_searched ?sc < nodes_searched st' \<or> leaves c' < leaves c)"
        using act by (auto simp: run_post_def)
      let ?u = "st'\<lparr>path_hashes := butlast (path_hashes st'), st_board := UndoMove (st_board st') (last_move c') undo\<rparr>"
      let ?v = "?u\<lparr>stop_readings := stop_readings st' + 1\<rparr>"
      have run: "search_run cfg True p tp td depth node st =
          (if stopped cfg st' then Some (with_child node i c', ?v)
           else Option.bind (SummarizeNode p (with_child node i c')) (\<lambda>node'. search_run cfg True p tp td depth node' ?v))"
        using go sel(1) rec dm sb x(1)
        by (subst search_run.simps)
          (simp add: unsolved_def ShouldStop_eq c_def [symmetric] m_def [symmetric] dfpn_IsRepetition_def list_ex_iff)
      show ?thesis
      proof (cases "stopped cfg st'")
        case True
        then have "stopped cfg ?v" by (auto simp: stopped_def)
        then show ?thesis using run True by (simp add: run_post_stopped)
      next
        case False
        then have y: "node_inv cfg (\<not> p) ?P (b') c'" "step_ok ?sc c st' c'"
          "OutOfMemory st' \<or> nodes_searched st < nodes_searched st' \<or> leaves c' < leaves c" using x(2) by simp_all
        have cm: "last_move c' = m" using y(2) by (simp add: step_ok_def m_def)
        have ko: "kid_ok cfg p P b c'" by (rule kid_ok_search [OF rec [unfolded b'_def] cm y(1) [unfolded b'_def]])
        have bs: "below c' + pool_used st \<le> below (children node ! i) + pool_used st'" "pool_used st' \<le> 2000000"
          using y(2) dep by (simp_all add: step_ok_def c_def)
        have cm': "last_move c' = last_move (children node ! i)" using cm by (simp add: m_def c_def)
        note cr = child_replaced [OF r e go(3) sel(2) ko cm' bs]
        have v: "st_board ?v = b" "path_hashes ?v = P" using y(2) un cm by (simp_all add: step_ok_def)
        have "step_ok st node ?v (summarized p (with_child node i c'))"
          using cr(3,4) y(2) v sb dep by (simp add: step_ok_def)
        moreover have "OutOfMemory ?v \<or> nodes_searched st < nodes_searched ?v \<or> leaves (summarized p (with_child node i c')) < leaves node"
          using y(3) cr(6) by (auto simp: OutOfMemory_def c_def)
        ultimately have "run_post cfg p P b node st (active cfg tp td node st) (search_run cfg True p tp td depth (summarized p (with_child node i c')) ?v)"
          using cr(2,5) by (intro tail)
        then show ?thesis using run False cr(1) by simp
      qed
    qed
  qed
qed

lemma root_loop_post:
  assumes "ready cfg True P b 0 node st"
  shows "\<exists>node' st'. root_loop cfg node st = Some (node', st') \<and> (stopped cfg st' \<or> node_inv cfg True P b node')"
  using assms
proof (induction "(nodes_limit cfg - nodes_searched st, leaves node)" arbitrary: node st
    rule: wf_induct_rule [OF wf_lex_prod [OF wf_less_than wf_less_than]])
  case less: 1
  note r = less.prems
  have inv: "node_inv cfg True P b node" and dep: "below node \<le> pool_used st" "pool_used st \<le> pool_capacity st" "pool_capacity st \<le> 2000000"
    using r by (simp_all add: ready_def)
  let ?s1 = "st\<lparr>stop_readings := stop_readings st + 1\<rparr>"
  consider (off) "\<not> (unsolved node \<and> \<not> OutOfMemory st)" | (stop) "unsolved node" "\<not> OutOfMemory st" "stopped cfg st"
    | (limit) "unsolved node" "\<not> OutOfMemory st" "\<not> stopped cfg st" "\<not> nodes_searched st < nodes_limit cfg"
    | (go) "unsolved node" "\<not> OutOfMemory st" "\<not> stopped cfg st" "nodes_searched st < nodes_limit cfg"
    by blast
  then show ?case
  proof cases
    case off
    then have "root_loop cfg node st = Some (node, st)" by (subst root_loop.simps) (auto simp: unsolved_def)
    then show ?thesis using inv by simp
  next
    case stop
    then have "root_loop cfg node st = Some (node, ?s1)" by (subst root_loop.simps) (simp add: unsolved_def ShouldStop_eq)
    then show ?thesis using inv by simp
  next
    case limit
    then have "root_loop cfg node st = Some (node, ?s1)" by (subst root_loop.simps) (simp add: unsolved_def ShouldStop_eq)
    then show ?thesis using inv by simp
  next
    case go
    have r1: "ready cfg True P b 0 node (?s1\<lparr>stop_readings := k\<rparr>)" "ready cfg True P b 0 node ?s1" for k
      using r by (simp_all add: ready_def)
    have "numbers_ok (Suc (below node)) node" using inv by (simp add: node_inv_iff)
    then have "pn node < kInf" "dn node < kInf"
      using go(1) dep by (simp_all add: unsolved_def numbers_ok_def kInf_def)
    then have act: "active cfg kInf kInf node ?s1" using go by (simp add: active_def OutOfMemory_def)
    have "run_post cfg True P b node ?s1 (active cfg kInf kInf node ?s1) (search_run cfg False True kInf kInf 0 node ?s1)"
    proof (rule entry_post [OF r1(2)])
      show "\<not> OutOfMemory ?s1" using go(2) by (simp add: OutOfMemory_def)
      fix k assume "is_expanded node"
      from loop_post [OF r1(1) this, where tp = kInf and td = kInf]
      show "run_post cfg True P b node (?s1\<lparr>stop_readings := k\<rparr>) (active cfg kInf kInf node ?s1)
        (search_run cfg True True kInf kInf 0 node (?s1\<lparr>stop_readings := k\<rparr>))" by (simp add: active_def OutOfMemory_def)
    qed
    then obtain node' st' where x: "search_run cfg False True kInf kInf 0 node ?s1 = Some (node', st')"
      "stopped cfg st' \<or> node_inv cfg True P b node' \<and> step_ok ?s1 node st' node' \<and>
        (OutOfMemory st' \<or> nodes_searched st < nodes_searched st' \<or> leaves node' < leaves node)"
      using act by (auto simp: run_post_def)
    have run: "root_loop cfg node st = root_loop cfg node' st'"
      using go x(1) by (subst root_loop.simps) (simp add: unsolved_def ShouldStop_eq)
    consider (stopped) "stopped cfg st'" | (oom) "\<not> stopped cfg st'" "OutOfMemory st'" | (on) "\<not> stopped cfg st'" "\<not> OutOfMemory st'" by blast
    then show ?thesis
    proof cases
      case stopped
      have "stopped cfg (st'\<lparr>stop_readings := stop_readings st' + 1\<rparr>)" using stopped by (auto simp: stopped_def)
      moreover have "root_loop cfg node' st' = Some (node', st') \<or>
          root_loop cfg node' st' = Some (node', st'\<lparr>stop_readings := stop_readings st' + 1\<rparr>)"
        using stopped by (subst (1 2) root_loop.simps) (simp add: ShouldStop_eq)
      ultimately show ?thesis unfolding run using stopped by blast
    next
      case oom
      then have "root_loop cfg node' st' = Some (node', st')" by (subst root_loop.simps) simp
      then show ?thesis using oom x(2) run by simp
    next
      case on
      have "ready cfg True P b 0 node' st'" using r x(2) on(1) by (simp add: ready_def step_ok_def)
      moreover have "((nodes_limit cfg - nodes_searched st', leaves node'), nodes_limit cfg - nodes_searched st, leaves node)
          \<in> less_than <*lex*> less_than" using x(2) on go(4) by (auto simp: step_ok_def)
      ultimately show ?thesis unfolding run using less.hyps by blast
    qed
  qed
qed

lemma no_mate_move: "\<not> checks b NoMateMove" if "board_ok b" "kings_ok b"
proof
  assume "checks b NoMateMove"
  then have "rule_move b NoMateMove" using set_legal_moves [OF that] by (simp add: checks_def)
  moreover have "move_from NoMateMove = 127" "\<not> move_is_drop NoMateMove" by (simp_all add: NoMateMove_def)
  ultimately show False
    unfolding rule_move_def using piece_move_facts(1,2) [OF that] variant_fields(1) drop_fields(3) by fastforce
qed

lemma NoMateMove_nonzero: "NoMateMove \<noteq> 0"
proof
  assume "NoMateMove = 0"
  moreover have "move_from NoMateMove = 127" by (simp add: NoMateMove_def)
  ultimately show False by (simp add: move_from_def)
qed

lemma principal_head:
  assumes "node_inv cfg True P b root" "pn root = 0" "ExtractPV True root \<noteq> []"
  shows "checks b (hd (ExtractPV True root)) \<and> upper_edge True P b (hd (ExtractPV True root))"
proof -
  have e: "is_expanded root" using assms(1,2) by (auto simp: node_inv_iff fresh_def)
  obtain c where c: "pv_child True (kids root) = Some c" "hd (ExtractPV True root) = last_move c"
    using assms(3) unfolding ExtractPV.simps [of True root] by (auto split: option.splits if_splits)
  show ?thesis using pv_child_in [OF c(1)] assms(1) e c(2) by (auto simp: node_inv_iff considered_def)
qed

text \<open>The search in terms of the two games of the solver.\<close>

lemma dfpn_search_values:
  assumes "lawful b"
  shows "\<exists>m line. dfpn_search cfg b = Some (m, line) \<and> (m = NoMateMove \<longrightarrow> \<not> lower cfg True [hash b] b) \<and>
    (m \<noteq> 0 \<and> m \<noteq> NoMateMove \<longrightarrow> checks b m \<and> upper_edge True [hash b] b m)"
proof -
  let ?s0 = "\<lparr>st_board = b, path_hashes = [], pool_used = 0, pool_capacity = 0, pool_exhausted = False,
    nodes_searched = 0, stop_readings = 0\<rparr>"
  let ?s1 = "?s0\<lparr>stop_readings := 1, pool_capacity := pool_size cfg, path_hashes := [hash b]\<rparr>"
  note nz = NoMateMove_nonzero
  have ok: "board_ok b" "kings_ok b" using assms by (simp_all add: lawful_def)
  show ?thesis
  proof (cases "stopped cfg ?s0")
    case True
    then have "dfpn_search cfg b = Some (0, [])" by (simp add: dfpn_search_def ShouldStop_eq)
    then show "\<exists>m line. dfpn_search cfg b = Some (m, line) \<and> (m = NoMateMove \<longrightarrow> \<not> lower cfg True [hash b] b) \<and>
      (m \<noteq> 0 \<and> m \<noteq> NoMateMove \<longrightarrow> checks b m \<and> upper_edge True [hash b] b m)" using nz by auto
  next
    case False
    have fr: "fresh default_node" by (simp add: fresh_def default_node_def)
    have "ready cfg True [hash b] b 0 default_node ?s1"
      using assms node_inv_fresh [OF fr] fresh_child_props(4)
      by (simp add: ready_def pool_size_def kMaxPoolNodes_def Let_def)
    from root_loop_post [OF this] obtain root st where x: "root_loop cfg default_node ?s1 = Some (root, st)"
      "stopped cfg st \<or> node_inv cfg True [hash b] b root" by blast
    let ?line = "ExtractPV True root"
    have run: "dfpn_search cfg b = (if stopped cfg st then Some (0, [])
        else if pn root = 0 then
          if stopped cfg (st\<lparr>stop_readings := stop_readings st + 1\<rparr>) then Some (0, [])
          else if ?line \<noteq> [] then Some (hd ?line, ?line) else Some (0, ?line)
        else if dn root = 0 then Some (NoMateMove, []) else Some (0, []))"
      using False x(1) by (simp add: dfpn_search_def ShouldStop_eq Let_def)
    have head: "checks b (hd ?line) \<and> upper_edge True [hash b] b (hd ?line)"
      if "pn root = 0" "?line \<noteq> []" "\<not> stopped cfg st"
      using principal_head [OF _ that(1,2)] x(2) that(3) by blast
    have none: "\<not> lower cfg True [hash b] b" if "dn root = 0" "\<not> stopped cfg st"
      using x(2) that by (simp add: node_inv_iff)
    show "\<exists>m line. dfpn_search cfg b = Some (m, line) \<and> (m = NoMateMove \<longrightarrow> \<not> lower cfg True [hash b] b) \<and>
      (m \<noteq> 0 \<and> m \<noteq> NoMateMove \<longrightarrow> checks b m \<and> upper_edge True [hash b] b m)"
    proof (cases "stopped cfg st \<or> pn root = 0 \<and> (stopped cfg (st\<lparr>stop_readings := stop_readings st + 1\<rparr>) \<or> ?line = [])")
      case True
      then have "\<exists>line. dfpn_search cfg b = Some (0, line)" unfolding run by auto
      then show ?thesis using nz by auto
    next
      case go: False
      show ?thesis
      proof (cases "pn root = 0")
        case True
        then have "dfpn_search cfg b = Some (hd ?line, ?line)" using go unfolding run by auto
        then show ?thesis using head True go no_mate_move [OF ok] by auto
      next
        case False
        then have "dfpn_search cfg b = Some (if dn root = 0 then NoMateMove else 0, [])" using go unfolding run by auto
        then show ?thesis using none go nz by auto
      qed
    qed
  qed
qed

subsection \<open>The game of the rules\<close>

text \<open>In the game itself the attacker has every check and the defender every legal reply, and only a
  mate wins at once. The solver leaves it in two ways: it believes a wrong answer of the one-ply
  search, and it has no room for more than 254 moves of a node.\<close>

abbreviation mates :: "shogi_board \<Rightarrow> move \<Rightarrow> bool" where
  "mates b m \<equiv> GenerateLegalMoves (next_pos b m) = []"

abbreviation every_check :: "shogi_board \<Rightarrow> move set" where
  "every_check b \<equiv> {m. checks b m}"

abbreviation every_reply :: "shogi_board \<Rightarrow> move set" where
  "every_reply b \<equiv> set (GenerateLegalMoves b)"

definition tricked :: "bool \<Rightarrow> shogi_board \<Rightarrow> bool" where
  "tricked attacker b \<longleftrightarrow> (\<exists>n c. met attacker b n c \<and>
     (if even n = attacker then one_ply_errs c else 254 < length (GenerateLegalMoves c)))"

definition crowded :: "dfpn_config \<Rightarrow> bool \<Rightarrow> shogi_board \<Rightarrow> bool" where
  "crowded cfg attacker b \<longleftrightarrow> (\<exists>n c. met attacker b n c \<and> even n = attacker \<and> 254 < length (attack_list cfg c))"

lemma tricked_step:
  "one_ply_errs b \<Longrightarrow> tricked True b" "254 < length (GenerateLegalMoves b) \<Longrightarrow> tricked False b"
  "checks b m \<Longrightarrow> verdict (next_pos b m) = RepNone \<Longrightarrow> tricked False (next_pos b m) \<Longrightarrow> tricked True b"
  "m \<in> every_reply b \<Longrightarrow> verdict (next_pos b m) = RepNone \<Longrightarrow> tricked True (next_pos b m) \<Longrightarrow> tricked False b"
  unfolding tricked_def using met_start [of _ b] met_check [of b m] met_reply [of m b] by fastforce+

lemma crowded_step:
  "254 < length (attack_list cfg b) \<Longrightarrow> crowded cfg True b"
  "checks b m \<Longrightarrow> verdict (next_pos b m) = RepNone \<Longrightarrow> crowded cfg False (next_pos b m) \<Longrightarrow> crowded cfg True b"
  "m \<in> every_reply b \<Longrightarrow> verdict (next_pos b m) = RepNone \<Longrightarrow> crowded cfg True (next_pos b m) \<Longrightarrow> crowded cfg False b"
  unfolding crowded_def using met_start [of _ b] met_check [of b m] met_reply [of m b] by fastforce+

text \<open>A proof is a win of the game, unless the solver was tricked.\<close>

lemma upper_game:
  "wins claim_move every_check (\<lambda>b. set (take 254 (GenerateLegalMoves b))) P b \<Longrightarrow> wins mates every_check every_reply P b \<or> tricked True b"
  "loses claim_move every_check (\<lambda>b. set (take 254 (GenerateLegalMoves b))) P b \<Longrightarrow> loses mates every_check every_reply P b \<or> tricked False b"
proof (induction rule: wins_loses.inducts)
  case (win_claim m b P)
  then show ?case using tricked_step(1) wins_loses.win_claim [of m every_check b mates] by (auto simp: claim_move_def)
next
  case (win_repetition m b P)
  then show ?case by (blast intro: wins_loses.win_repetition)
next
  case (win_move m b P)
  then show ?case using tricked_step(3) [of b m] wins_loses.win_move [of m every_check b P mates every_reply] by blast
next
  case (lose_all b P)
  show ?case
  proof (cases "tricked False b")
    case False
    then have all: "take 254 (GenerateLegalMoves b) = GenerateLegalMoves b" using tricked_step(2) [of b] by fastforce
    have "loses mates every_check every_reply P b"
      by (rule wins_loses.lose_all) (use lose_all False tricked_step(4) [of _ b] in \<open>auto simp: all\<close>)
    then show ?thesis ..
  qed blast
qed

text \<open>A win of the game is one the solver's moves allow, unless some position has too many checks.\<close>

lemma lower_game:
  "wins (\<lambda>_ _. False) every_check every_reply P b \<Longrightarrow> lawful b \<longrightarrow>
     wins (\<lambda>_ _. False) (\<lambda>b. set (take 254 (attack_list cfg b))) every_reply P b \<or> crowded cfg True b"
  "loses (\<lambda>_ _. False) every_check every_reply P b \<Longrightarrow> lawful b \<longrightarrow>
     loses (\<lambda>_ _. False) (\<lambda>b. set (take 254 (attack_list cfg b))) every_reply P b \<or> crowded cfg False b"
proof (induction rule: wins_loses.inducts)
  case (win_claim m b P)
  then show ?case by simp
next
  case (win_repetition m b P)
  then show ?case using crowded_step(1) [of cfg b] attack_list_checks [of b m cfg]
    by (cases "254 < length (attack_list cfg b)") (auto intro!: wins_loses.win_repetition)
next
  case (win_move m b P)
  show ?case
  proof (intro impI)
    assume l: "lawful b"
    have l': "lawful (next_pos b m)" using legal_step_facts(1) [OF l] win_move(1) by (simp add: checks_def)
    show "wins (\<lambda>_ _. False) (\<lambda>b. set (take 254 (attack_list cfg b))) every_reply P b \<or> crowded cfg True b"
    proof (cases "crowded cfg True b")
      case False
      then have "m \<in> set (take 254 (attack_list cfg b))" using crowded_step(1) [of cfg b] attack_list_checks [OF l, of m cfg] win_move(1) by fastforce
      moreover have "loses (\<lambda>_ _. False) (\<lambda>b. set (take 254 (attack_list cfg b))) every_reply (P @ [hash (next_pos b m)]) (next_pos b m)"
        using win_move l' False crowded_step(2) [of b m cfg] by blast
      moreover have "verdict (next_pos b m) = RepNone" "hash (next_pos b m) \<notin> set P" using win_move by simp_all
      ultimately show ?thesis using wins_loses.win_move [of m "\<lambda>b. set (take 254 (attack_list cfg b))" b P] by blast
    qed blast
  qed
next
  case (lose_all b P)
  show ?case
  proof (intro impI)
    assume l: "lawful b"
    show "loses (\<lambda>_ _. False) (\<lambda>b. set (take 254 (attack_list cfg b))) every_reply P b \<or> crowded cfg False b"
    proof (cases "crowded cfg False b")
      case False
      have "loses (\<lambda>_ _. False) (\<lambda>b. set (take 254 (attack_list cfg b))) every_reply P b"
        by (rule wins_loses.lose_all) (use lose_all False crowded_step(3) [of _ b cfg] legal_step_facts(1) [OF l] in blast)
      then show ?thesis ..
    qed blast
  qed
qed

lemma upper_edge_game:
  assumes "checks b m" "upper_edge True P b m"
  shows "edge_of mates every_check every_reply True P b m \<or> tricked True b"
  using assms upper_game(2) [of "P @ [hash (next_pos b m)]" "next_pos b m"] tricked_step(1) [of b] tricked_step(3) [of b m]
  by (auto simp: upper_edge_def edge_of_def value_of_def claim_move_def)

lemma lower_none:
  assumes "lawful b" "\<not> lower cfg True P b"
  shows "\<not> wins (\<lambda>_ _. False) every_check every_reply P b \<or> crowded cfg True b"
  using assms lower_game(1) [of P b cfg] by (auto simp: lower_def value_of_def)

text \<open>C6: The df-pn search returns on every lawful position, whatever the limits and whenever it is
  stopped, and never reads through a null child array. The game is that of all checks and all legal
  replies, where a repetition verdict decides and a return to a position of the line saves the
  defender. A move the search returns is a check that wins this game for the attacker, unless the
  game meets a position at which the one-ply search is wrong or one with more than 254 legal
  replies. When it answers that there is no mate the attacker cannot win the game, unless it meets a
  position for which more than 254 checks are generated. In a proof a mating check wins as such; in
  a disproof it is a check without a reply, which wins when it has no repetition verdict and does
  not return to the line.\<close>

theorem dfpn_search_correct:
  assumes "lawful b"
  shows "\<exists>m line. dfpn_search cfg b = Some (m, line) \<and>
    (m = NoMateMove \<longrightarrow>
       \<not> wins (\<lambda>_ _. False) (\<lambda>b. {m. checks b m}) (\<lambda>b. set (GenerateLegalMoves b)) [hash b] b \<or>
       (\<exists>n c. met True b n c \<and> even n \<and> 254 < length (attack_list cfg c))) \<and>
    (m \<noteq> 0 \<and> m \<noteq> NoMateMove \<longrightarrow> checks b m \<and>
       (edge_of (\<lambda>b m. GenerateLegalMoves (next_pos b m) = []) (\<lambda>b. {m. checks b m}) (\<lambda>b. set (GenerateLegalMoves b)) True [hash b] b m \<or>
        (\<exists>n c. met True b n c \<and> (if even n then one_ply_errs c else 254 < length (GenerateLegalMoves c)))))"
proof -
  have "\<exists>m line. dfpn_search cfg b = Some (m, line) \<and> (m = NoMateMove \<longrightarrow> \<not> lower cfg True [hash b] b) \<and>
    (m \<noteq> 0 \<and> m \<noteq> NoMateMove \<longrightarrow> checks b m \<and> upper_edge True [hash b] b m)"
    by (rule dfpn_search_values [OF assms])
  then show ?thesis
    using upper_edge_game [of b _ "[hash b]"] lower_none [OF assms, of cfg "[hash b]"]
    unfolding tricked_def crowded_def eq_True by blast
qed

subsection \<open>A solved position\<close>

definition sample_config :: dfpn_config where
  "sample_config = \<lparr>nodes_limit = 1000, stops_from = None, use_fast_check_movegen = False\<rparr>"

lemma gold_mate_move: "\<not> move_is_null (FindMateInOne gold_position)"
proof -
  have "\<not> InCheck gold_position (side_to_move gold_position)"
    using InCheck_in_check [OF gold_ok(1), of BLACK] gold_att(1) by (auto simp: in_check_def gold_sel)
  then have "FindMateInOne gold_position = FindMateInOneNonCheck gold_position"
    by (simp add: FindMateInOne_def gold_sel sq_IsValid_def)
  then show ?thesis using gold_search by simp
qed

lemma gold_dfpn:
  "dfpn_search sample_config gold_position = Some (FindMateInOne gold_position, [FindMateInOne gold_position])"
proof -
  let ?m = "FindMateInOne gold_position"
  have ns: "\<not> stopped sample_config st" for st by (simp add: stopped_def sample_config_def)
  let ?s = "\<lambda>u n r. \<lparr>st_board = gold_position, path_hashes = [hash gold_position], pool_used = u, pool_capacity = 8000,
    pool_exhausted = False, nodes_searched = n, stop_readings = r\<rparr>"
  let ?child = "with_children [] 0 (set_mate 1 (with_move ?m default_node))"
  let ?n = "with_children [?child] 1 (with_distance 1 (set_mate 0 default_node))"
  have ps: "pool_size sample_config = 8000" by (simp add: pool_size_def sample_config_def kMaxPoolNodes_def)
  have ex: "ExpandNode sample_config True default_node 0 (?s 0 0 r) = Some (?n, ?s 1 0 (r + 2))" for r
    using gold_mate_move by (simp add: ExpandNode_def ShouldStop_eq ns Let_def NewNodes_def)
  have sm: "SummarizeNode True ?n = Some (summarized True ?n)" by (simp add: SummarizeNode_def NOT_EXPANDED_def)
  have un: "\<not> is_expanded default_node" by (simp add: is_expanded_iff default_node_def)
  have run: "search_run sample_config False True kInf kInf 0 default_node (?s 0 0 2) = Some (summarized True ?n, ?s 1 1 6)"
    using ex [of 3] sm un by (subst search_run.simps) (simp add: ShouldStop_eq ns)
  have "summary True [?child] = (0, kInf - 1)" by (simp add: summary_def SatAdd_props)
  then have p0: "pn (summarized True ?n) = 0"
    using summarized_sel(4) [of True ?n] by (simp add: numbered_def key_def)
  have r1: "root_loop sample_config (summarized True ?n) st = Some (summarized True ?n, st)" for st
    using p0 by (subst root_loop.simps) simp
  have r0: "root_loop sample_config default_node (?s 0 0 1) = Some (summarized True ?n, ?s 1 1 6)"
    using run r1 by (subst root_loop.simps) (simp add: ShouldStop_eq ns OutOfMemory_def, simp add: default_node_def sample_config_def numeral_2_eq_2)
  have "pv_child True [?child] = Some ?child" by (simp add: pv_child_def pv_step_def default_node_def)
  then have "ExtractPV True (summarized True ?n) = [?m]"
    by (subst ExtractPV.simps, subst ExtractPV.simps) (simp add: summarized_sel)
  then show ?thesis using r0 p0 by (simp add: dfpn_search_def ShouldStop_eq ns Let_def ps)
qed

theorem dfpn_search_correct_witness:
  "checks gold_position (FindMateInOne gold_position) \<and>
   (edge_of (\<lambda>b m. GenerateLegalMoves (next_pos b m) = []) (\<lambda>b. {m. checks b m}) (\<lambda>b. set (GenerateLegalMoves b)) True
      [hash gold_position] gold_position (FindMateInOne gold_position) \<or>
    (\<exists>n c. met True gold_position n c \<and> (if even n then one_ply_errs c else 254 < length (GenerateLegalMoves c))))"
proof -
  let ?m = "FindMateInOne gold_position"
  have "?m \<noteq> 0" using gold_mate_move by (simp add: move_is_null_def)
  moreover have "?m \<noteq> NoMateMove"
    using in_check_claim [OF gold_lawful gold_mate_move] no_mate_move [OF gold_ok] by (auto simp: claim_move_def)
  ultimately show ?thesis using dfpn_search_correct [OF gold_lawful, of sample_config] gold_dfpn by auto
qed

end
