(* ===== verification/BranchNumbers.thy ===== *)
theory BranchNumbers
  imports Prelude
begin

text \<open>
  The arithmetic of the branch-number mate solver (\<open>namespace bns\<close> of mate/bns.h): the
  saturating sum, \<open>Summarize\<close>, which computes a node's numbers from its children in both
  modes of the solver (branch numbers and proof numbers), and \<open>ChildThresholds\<close>, the window in
  which the selected child is searched. Numbers are 32-bit words as in the code. The template
  parameters \<open>kOrNode\<close> and \<open>kPnDn\<close> are arguments; the index \<open>-1\<close> of a node without a selected
  child is \<open>None\<close>.

  The lemmas give the result of \<open>Summarize\<close> as a first minimum, a second minimum and a count or
  a sum, and show that the window is exact: the selected child always has room to be searched,
  and while it stays the smallest child the node leaves its own window together with it.
\<close>

subsection \<open>The code\<close>

definition bns_kInf :: u32 where
  "bns_kInf = push_bit 30 1"

definition bns_SatAdd :: "u32 \<Rightarrow> u32 \<Rightarrow> u32" where
  "bns_SatAdd a b = (let s = ucast a + ucast b :: u64
     in if ucast bns_kInf \<le> s then bns_kInf else ucast s)"

record child_view =
  view_abn :: u32
  view_obn :: u32

definition unresolved_view :: child_view where
  "unresolved_view = \<lparr>view_abn = 1, view_obn = 1\<rparr>"

definition MateView :: child_view where
  "MateView = \<lparr>view_abn = 0, view_obn = bns_kInf\<rparr>"

definition NoMateView :: child_view where
  "NoMateView = \<lparr>view_abn = bns_kInf, view_obn = 0\<rparr>"

record bns_summary =
  sum_abn :: u32
  sum_obn :: u32
  sum_best :: "nat option"
  sum_second :: u32
  sum_k :: u32
  sum_proved :: bool
  sum_disproved :: bool

definition sum_terminal :: "bns_summary \<Rightarrow> bool" where
  "sum_terminal s \<longleftrightarrow> sum_proved s \<or> sum_disproved s"

text \<open>The number a node minimises over its children, and the other one.\<close>

definition view_rel :: "bool \<Rightarrow> child_view \<Rightarrow> u32" where
  "view_rel or_node c = (if or_node then view_abn c else view_obn c)"

definition view_opp :: "bool \<Rightarrow> child_view \<Rightarrow> u32" where
  "view_opp or_node c = (if or_node then view_obn c else view_abn c)"

record summary_scan =
  scan_rel :: u32
  scan_opp :: u32
  scan_second :: u32
  scan_k :: u32
  scan_sum :: u64
  scan_best :: "nat option"

definition scan_start :: summary_scan where
  "scan_start = \<lparr>scan_rel = bns_kInf, scan_opp = bns_kInf, scan_second = bns_kInf, scan_k = 0,
     scan_sum = 0, scan_best = None\<rparr>"

definition scan_child :: "bool \<Rightarrow> nat \<Rightarrow> u32 \<Rightarrow> u32 \<Rightarrow> summary_scan \<Rightarrow> summary_scan" where
  "scan_child pn i rel opp s = (
     let s = (if pn then s\<lparr>scan_sum := scan_sum s + ucast opp\<rparr> else s)
     in if bns_kInf \<le> rel then s
        else let s = s\<lparr>scan_k := scan_k s + 1\<rparr>
          in if rel < scan_rel s \<or> pn \<and> rel = scan_rel s \<and> opp < scan_opp s
             then s\<lparr>scan_second := scan_rel s, scan_rel := rel, scan_opp := opp, scan_best := Some i\<rparr>
             else if rel < scan_second s then s\<lparr>scan_second := rel\<rparr> else s)"

text \<open>The loop over the children: a child whose relevant number is zero ends it.\<close>

fun summarize_loop :: "bool \<Rightarrow> bool \<Rightarrow> nat \<Rightarrow> child_view list \<Rightarrow> summary_scan \<Rightarrow> nat + summary_scan" where
  "summarize_loop or_node pn i [] s = Inr s"
| "summarize_loop or_node pn i (c # cs) s = (
     if view_rel or_node c = 0 then Inl i
     else summarize_loop or_node pn (i + 1) cs (scan_child pn i (view_rel or_node c) (view_opp or_node c) s))"

definition Summarize :: "bool \<Rightarrow> bool \<Rightarrow> child_view list \<Rightarrow> bns_summary" where
  "Summarize or_node pn cs = (
     let s = \<lparr>sum_abn = 1, sum_obn = 1, sum_best = None, sum_second = bns_kInf, sum_k = 0,
              sum_proved = False, sum_disproved = False\<rparr>
     in case summarize_loop or_node pn 0 cs scan_start of
          Inl i \<Rightarrow> s\<lparr>sum_best := Some i, sum_proved := or_node, sum_disproved := \<not> or_node,
                    sum_abn := if or_node then 0 else bns_kInf,
                    sum_obn := if or_node then bns_kInf else 0\<rparr>
        | Inr t \<Rightarrow>
            if (if pn then scan_sum t = 0 else scan_k t = 0)
            then s\<lparr>sum_proved := \<not> or_node, sum_disproved := or_node,
                   sum_abn := if or_node then bns_kInf else 0,
                   sum_obn := if or_node then 0 else bns_kInf\<rparr>
            else let node_rel = scan_rel t;
                     node_opp = (if pn then (if ucast bns_kInf \<le> scan_sum t then bns_kInf
                                             else ucast (scan_sum t))
                                 else bns_SatAdd (scan_opp t) (scan_k t - 1))
              in s\<lparr>sum_abn := if or_node then node_rel else node_opp,
                   sum_obn := if or_node then node_opp else node_rel,
                   sum_best := scan_best t, sum_second := scan_second t, sum_k := scan_k t\<rparr>)"

definition ChildThresholds :: "bool \<Rightarrow> bns_summary \<Rightarrow> child_view \<Rightarrow> u32 \<Rightarrow> u32 \<Rightarrow> u32 \<times> u32" where
  "ChildThresholds or_node s best abn_th obn_th = (
     let rel_th = (if or_node then abn_th else obn_th);
         opp_th = (if or_node then obn_th else abn_th);
         node_opp = (if or_node then sum_obn s else sum_abn s);
         best_opp = view_opp or_node best;
         rel_out = (if rel_th < bns_SatAdd (sum_second s) 1 then rel_th else bns_SatAdd (sum_second s) 1);
         opp_out = (if bns_kInf \<le> opp_th then bns_kInf else opp_th - (node_opp - best_opp))
     in (if or_node then rel_out else opp_out, if or_node then opp_out else rel_out))"

subsection \<open>The scan finds the two smallest numbers\<close>

lemma unat_kInf: "unat bns_kInf = 2 ^ 30"
  by (simp add: bns_kInf_def push_bit_eq_mult)

lemma unat_u64 [simp]: "unat (ucast (a :: u32) :: u64) = unat a"
  using unsigned_less [of a, where 'a = nat] by (simp add: unsigned_ucast_eq take_bit_nat_eq_self)

lemma unat_u32: "unat (s :: u64) < 2 ^ 32 \<Longrightarrow> unat (ucast s :: u32) = unat s"
  by (simp add: unsigned_ucast_eq take_bit_nat_eq_self)

lemma SatAdd_unat: "unat (bns_SatAdd a b) = min (2 ^ 30) (unat a + unat b)"
proof -
  have a: "unat a < 2 ^ 32" "unat b < 2 ^ 32"
    using unsigned_less [of a, where 'a = nat] unsigned_less [of b, where 'a = nat] by simp_all
  have s: "unat (ucast a + ucast b :: u64) = unat a + unat b"
    using a by (subst unat_add_lem [THEN iffD1]) simp_all
  have le: "ucast bns_kInf \<le> (ucast a + ucast b :: u64) \<longleftrightarrow> 2 ^ 30 \<le> unat a + unat b"
    unfolding word_le_nat_alt s unat_u64 unat_kInf ..
  show ?thesis
    unfolding bns_SatAdd_def Let_def le using s unat_kInf unat_u32 [of "ucast a + ucast b"] by (auto simp: not_le)
qed


text \<open>The order in which the scan prefers children, and what it knows about the children seen so
  far: their number, the sum of their other numbers, the first most preferred one and the
  smallest relevant number among the rest.\<close>

definition preferred :: "bool \<Rightarrow> bool \<Rightarrow> child_view \<Rightarrow> child_view \<Rightarrow> bool" where
  "preferred or_node pn c d \<longleftrightarrow> view_rel or_node c < view_rel or_node d \<or>
     pn \<and> view_rel or_node c = view_rel or_node d \<and> view_opp or_node c < view_opp or_node d"

definition active_views :: "bool \<Rightarrow> child_view list \<Rightarrow> nat" where
  "active_views or_node cs = length (filter (\<lambda>c. view_rel or_node c < bns_kInf) cs)"

definition opp_total :: "bool \<Rightarrow> child_view list \<Rightarrow> nat" where
  "opp_total or_node cs = sum_list (map (\<lambda>c. unat (view_opp or_node c)) cs)"

definition selected :: "bool \<Rightarrow> bool \<Rightarrow> child_view list \<Rightarrow> nat \<Rightarrow> bool" where
  "selected or_node pn cs b \<longleftrightarrow> b < length cs \<and> view_rel or_node (cs ! b) < bns_kInf \<and>
     (\<forall>j<length cs. \<not> preferred or_node pn (cs ! j) (cs ! b)) \<and>
     (\<forall>j<b. preferred or_node pn (cs ! b) (cs ! j))"

definition runner_up :: "bool \<Rightarrow> child_view list \<Rightarrow> nat \<Rightarrow> u32 \<Rightarrow> bool" where
  "runner_up or_node cs b v \<longleftrightarrow> v \<le> bns_kInf \<and>
     (\<forall>j<length cs. j \<noteq> b \<longrightarrow> v \<le> view_rel or_node (cs ! j)) \<and>
     (v = bns_kInf \<or> (\<exists>j<length cs. j \<noteq> b \<and> view_rel or_node (cs ! j) = v))"

definition scan_ok :: "bool \<Rightarrow> bool \<Rightarrow> child_view list \<Rightarrow> summary_scan \<Rightarrow> bool" where
  "scan_ok or_node pn cs s \<longleftrightarrow>
     unat (scan_sum s) = (if pn then opp_total or_node cs else 0) \<and>
     unat (scan_k s) = active_views or_node cs \<and>
     (case scan_best s of
        None \<Rightarrow> scan_rel s = bns_kInf \<and> scan_second s = bns_kInf \<and> active_views or_node cs = 0
      | Some b \<Rightarrow> selected or_node pn cs b \<and> scan_rel s = view_rel or_node (cs ! b) \<and>
          scan_opp s = view_opp or_node (cs ! b) \<and> runner_up or_node cs b (scan_second s))"

lemma active_views_snoc:
  "active_views or_node (cs @ [c]) = active_views or_node cs + (if view_rel or_node c < bns_kInf then 1 else 0)"
  by (simp add: active_views_def)

lemma active_views_le: "active_views or_node cs \<le> length cs"
  by (simp add: active_views_def)

lemma active_views_0: "active_views or_node cs = 0 \<longleftrightarrow> (\<forall>j<length cs. bns_kInf \<le> view_rel or_node (cs ! j))"
  by (auto simp: active_views_def filter_empty_conv all_set_conv_all_nth not_less)

lemma opp_total_le: "opp_total or_node cs \<le> length cs * 2 ^ 32"
proof (induction cs)
  case (Cons c cs)
  have "unat (view_opp or_node c) < 2 ^ 32"
    using unsigned_less [of "view_opp or_node c", where 'a = nat] by simp
  with Cons show ?case by (simp add: opp_total_def)
qed (simp add: opp_total_def)

lemma preferred_below:
  "preferred or_node pn c b \<Longrightarrow> \<not> preferred or_node pn d b \<Longrightarrow> preferred or_node pn c d"
  unfolding preferred_def by (auto simp: not_less order.order_iff_strict dest: order.strict_trans)

lemma preferred_asym: "preferred or_node pn c d \<Longrightarrow> \<not> preferred or_node pn d c"
  unfolding preferred_def by (auto dest: order.strict_implies_not_eq)

lemma selected_snoc_worse:
  "selected or_node pn cs b \<Longrightarrow> \<not> preferred or_node pn c (cs ! b) \<Longrightarrow> selected or_node pn (cs @ [c]) b"
  by (auto simp: selected_def nth_append less_Suc_eq)

lemma selected_snoc_better:
  assumes "selected or_node pn cs b" and "preferred or_node pn c (cs ! b)"
  shows "selected or_node pn (cs @ [c]) (length cs)"
proof -
  have "preferred or_node pn c (cs ! j)" if "j < length cs" for j
    using assms that preferred_below unfolding selected_def by blast
  moreover have "view_rel or_node c < bns_kInf"
    using assms unfolding selected_def preferred_def by auto
  ultimately show ?thesis
    using preferred_asym [of or_node pn c] by (auto simp: selected_def nth_append less_Suc_eq)
qed

lemma selected_smallest: "selected or_node pn cs b \<Longrightarrow> j < length cs \<Longrightarrow> view_rel or_node (cs ! b) \<le> view_rel or_node (cs ! j)"
  unfolding selected_def preferred_def by (auto simp: not_less)

lemma runner_up_snoc:
  "runner_up or_node cs b v \<Longrightarrow> b < length cs \<Longrightarrow>
   runner_up or_node (cs @ [c]) b (if view_rel or_node c < v then view_rel or_node c else v)"
  unfolding runner_up_def
  by (auto simp: nth_append less_Suc_eq not_less intro: order.trans less_imp_le)

lemma runner_up_better:
  "selected or_node pn cs b \<Longrightarrow> runner_up or_node (cs @ [c]) (length cs) (view_rel or_node (cs ! b))"
  using selected_smallest [of or_node pn cs b]
  unfolding runner_up_def selected_def by (auto simp: nth_append less_Suc_eq)


lemma scan_child_ok:
  assumes ok: "scan_ok or_node pn cs s" and len: "length cs < 2 ^ 31"
  shows "scan_ok or_node pn (cs @ [c]) (scan_child pn (length cs) (view_rel or_node c) (view_opp or_node c) s)"
proof -
  define r o' where ro: "r = view_rel or_node c" "o' = view_opp or_node c"
  define s1 where "s1 = (if pn then s\<lparr>scan_sum := scan_sum s + ucast o'\<rparr> else s)"
  have "unat o' < 2 ^ 32" using unsigned_less [of o', where 'a = nat] by simp
  then have "unat (scan_sum s + ucast o') = opp_total or_node cs + unat o'" if pn
    using ok that len opp_total_le [of or_node cs] by (subst unat_add_lem [THEN iffD1]) (simp_all add: scan_ok_def)
  then have sum: "unat (scan_sum s1) = (if pn then opp_total or_node (cs @ [c]) else 0)"
    using ok by (auto simp: s1_def scan_ok_def opp_total_def ro)
  have s1: "scan_rel s1 = scan_rel s" "scan_opp s1 = scan_opp s" "scan_second s1 = scan_second s"
    "scan_k s1 = scan_k s" "scan_best s1 = scan_best s"
    by (simp_all add: s1_def)
  have k: "unat (scan_k s + 1) = active_views or_node cs + 1"
    using ok len active_views_le [of or_node cs] by (subst unat_add_lem [THEN iffD1]) (simp_all add: scan_ok_def)
  show ?thesis
  proof (cases "bns_kInf \<le> r")
    case True
    have eq: "scan_child pn (length cs) r o' s = s1" using True by (simp add: scan_child_def s1_def)
    have "\<not> preferred or_node pn c (cs ! b)" if "selected or_node pn cs b" for b
      using that True unfolding selected_def preferred_def ro by (auto simp: not_less dest: order.strict_trans2)
    moreover have "runner_up or_node (cs @ [c]) b v" if "runner_up or_node cs b v" "b < length cs" for b v
      using runner_up_snoc [OF that, of c] that True by (auto simp: runner_up_def ro nth_append less_Suc_eq)
    ultimately show ?thesis
      using ok sum s1 True selected_snoc_worse
      by (auto simp: eq scan_ok_def active_views_snoc nth_append selected_def simp flip: ro split: option.splits)
  next
    case False
    then have act: "active_views or_node (cs @ [c]) = active_views or_node cs + 1" by (simp add: active_views_snoc ro not_le)
    show ?thesis
    proof (cases "scan_best s")
      case None
      have "r < scan_rel s" using ok None False by (simp add: scan_ok_def not_le)
      then have eq: "scan_child pn (length cs) r o' s =
          s1\<lparr>scan_k := scan_k s + 1, scan_second := scan_rel s, scan_rel := r, scan_opp := o', scan_best := Some (length cs)\<rparr>"
        using False by (simp add: scan_child_def s1_def)
      have old: "\<forall>j<length cs. bns_kInf \<le> view_rel or_node (cs ! j)" "scan_rel s = bns_kInf"
        using ok None by (simp_all add: scan_ok_def active_views_0)
      have "preferred or_node pn c (cs ! j)" if "j < length cs" for j
        using old that False unfolding preferred_def ro by (auto simp: not_le dest: order.strict_trans2)
      then have "selected or_node pn (cs @ [c]) (length cs)"
        using False preferred_asym [of or_node pn c] by (auto simp: selected_def nth_append less_Suc_eq ro)
      moreover have "runner_up or_node (cs @ [c]) (length cs) bns_kInf"
        using old by (auto simp: runner_up_def nth_append less_Suc_eq)
      ultimately show ?thesis
        using sum k act old(2) by (simp add: eq scan_ok_def flip: ro)
    next
      case (Some b)
      then have sel: "selected or_node pn cs b" and cur: "scan_rel s = view_rel or_node (cs ! b)"
        "scan_opp s = view_opp or_node (cs ! b)" and up: "runner_up or_node cs b (scan_second s)"
        using ok by (simp_all add: scan_ok_def)
      have b: "b < length cs" using sel by (simp add: selected_def)
      have cond: "r < scan_rel s \<or> pn \<and> r = scan_rel s \<and> o' < scan_opp s \<longleftrightarrow> preferred or_node pn c (cs ! b)"
        by (simp add: preferred_def cur ro)
      show ?thesis
      proof (cases "preferred or_node pn c (cs ! b)")
        case True
        then have eq: "scan_child pn (length cs) r o' s =
            s1\<lparr>scan_k := scan_k s + 1, scan_second := scan_rel s, scan_rel := r, scan_opp := o', scan_best := Some (length cs)\<rparr>"
          using False by (simp add: scan_child_def Let_def s1 cond flip: s1_def)
        show ?thesis
          using sum k act selected_snoc_better [OF sel True] runner_up_better [OF sel, of c]
          by (simp add: eq scan_ok_def cur flip: ro)
      next
        case worse: False
        define v where "v = (if r < scan_second s then r else scan_second s)"
        have eq: "scan_child pn (length cs) r o' s = s1\<lparr>scan_k := scan_k s + 1, scan_second := v\<rparr>"
          using False worse by (simp add: scan_child_def Let_def s1 cond v_def flip: s1_def)
        show ?thesis
          using sum k act selected_snoc_worse [OF sel worse] runner_up_snoc [OF up b, of c, folded ro, folded v_def] b
          by (simp add: eq scan_ok_def cur Some s1 nth_append flip: ro)
      qed
    qed
  qed
qed


lemma scan_start_ok: "scan_ok or_node pn [] scan_start"
  by (simp add: scan_ok_def scan_start_def opp_total_def active_views_def)

lemma summarize_loop_result:
  assumes "scan_ok or_node pn xs s" and "length xs + length cs < 2 ^ 31"
  shows "case summarize_loop or_node pn (length xs) cs s of
      Inl i \<Rightarrow> \<exists>k<length cs. i = length xs + k \<and> view_rel or_node (cs ! k) = 0 \<and>
        (\<forall>j<k. view_rel or_node (cs ! j) \<noteq> 0)
    | Inr t \<Rightarrow> scan_ok or_node pn (xs @ cs) t \<and> (\<forall>c\<in>set cs. view_rel or_node c \<noteq> 0)"
  using assms
proof (induction cs arbitrary: xs s)
  case (Cons c cs)
  show ?case
  proof (cases "view_rel or_node c = 0")
    case True
    then show ?thesis by auto
  next
    case False
    let ?s = "scan_child pn (length xs) (view_rel or_node c) (view_opp or_node c) s"
    have "scan_ok or_node pn (xs @ [c]) ?s"
      by (rule scan_child_ok) (use Cons.prems in simp_all)
    note IH = Cons.IH [OF this]
    show ?thesis
    proof (cases "summarize_loop or_node pn (Suc (length xs)) cs ?s")
      case (Inl i)
      then obtain k where "k < length cs" "i = length xs + Suc k" "view_rel or_node (cs ! k) = 0"
        "\<forall>j<k. view_rel or_node (cs ! j) \<noteq> 0"
        using IH Cons.prems(2) by auto
      with False Inl show ?thesis by (auto simp: less_Suc_eq_0_disj intro!: exI [of _ "Suc k"])
    next
      case (Inr t)
      with IH Cons.prems(2) False show ?thesis by simp
    qed
  qed
qed simp

lemma summarize_loop_start:
  assumes "length cs < 2 ^ 31"
  shows "case summarize_loop or_node pn 0 cs scan_start of
      Inl i \<Rightarrow> i < length cs \<and> view_rel or_node (cs ! i) = 0 \<and> (\<forall>j<i. view_rel or_node (cs ! j) \<noteq> 0)
    | Inr t \<Rightarrow> scan_ok or_node pn cs t \<and> (\<forall>c\<in>set cs. view_rel or_node c \<noteq> 0)"
  using summarize_loop_result [OF scan_start_ok, of cs or_node pn] assms by (auto split: sum.splits)

subsection \<open>The summary of a node\<close>

definition sum_rel :: "bool \<Rightarrow> bns_summary \<Rightarrow> u32" where
  "sum_rel or_node s = (if or_node then sum_abn s else sum_obn s)"

definition sum_opp :: "bool \<Rightarrow> bns_summary \<Rightarrow> u32" where
  "sum_opp or_node s = (if or_node then sum_obn s else sum_abn s)"

definition exhausted :: "bool \<Rightarrow> bool \<Rightarrow> child_view list \<Rightarrow> bool" where
  "exhausted or_node pn cs \<longleftrightarrow> (if pn then opp_total or_node cs = 0 else active_views or_node cs = 0)"

lemma Summarize_decided:
  assumes "length cs < 2 ^ 31" and "c \<in> set cs" and "view_rel or_node c = 0"
  shows "\<exists>i<length cs. view_rel or_node (cs ! i) = 0 \<and> (\<forall>j<i. view_rel or_node (cs ! j) \<noteq> 0) \<and>
     Summarize or_node pn cs = \<lparr>sum_abn = if or_node then 0 else bns_kInf, sum_obn = if or_node then bns_kInf else 0,
       sum_best = Some i, sum_second = bns_kInf, sum_k = 0, sum_proved = or_node, sum_disproved = \<not> or_node\<rparr>"
proof -
  obtain i where "summarize_loop or_node pn 0 cs scan_start = Inl i" "i < length cs"
    "view_rel or_node (cs ! i) = 0" "\<forall>j<i. view_rel or_node (cs ! j) \<noteq> 0"
    using summarize_loop_start [OF assms(1), of or_node pn] assms(2,3) by (auto split: sum.splits)
  then show ?thesis by (intro exI [of _ i]) (simp add: Summarize_def)
qed

lemma Summarize_exhausted:
  assumes "length cs < 2 ^ 31" and "\<forall>c\<in>set cs. view_rel or_node c \<noteq> 0" and "exhausted or_node pn cs"
  shows "Summarize or_node pn cs = \<lparr>sum_abn = if or_node then bns_kInf else 0, sum_obn = if or_node then 0 else bns_kInf,
       sum_best = None, sum_second = bns_kInf, sum_k = 0, sum_proved = \<not> or_node, sum_disproved = or_node\<rparr>"
proof -
  obtain t where t: "summarize_loop or_node pn 0 cs scan_start = Inr t" "scan_ok or_node pn cs t"
    using summarize_loop_start [OF assms(1), of or_node pn] assms(2) by (auto split: sum.splits)
  then have "if pn then scan_sum t = 0 else scan_k t = 0"
    using assms(3) by (auto simp: scan_ok_def exhausted_def unat_eq_zero)
  with t(1) show ?thesis by (simp add: Summarize_def)
qed

lemma Summarize_open:
  assumes "length cs < 2 ^ 31" and "\<forall>c\<in>set cs. view_rel or_node c \<noteq> 0" and "\<not> exhausted or_node pn cs"
  defines "s \<equiv> Summarize or_node pn cs"
  shows "\<not> sum_terminal s \<and> unat (sum_k s) = active_views or_node cs \<and>
    (case sum_best s of
       None \<Rightarrow> pn \<and> active_views or_node cs = 0 \<and> sum_rel or_node s = bns_kInf
     | Some b \<Rightarrow> selected or_node pn cs b \<and> sum_rel or_node s = view_rel or_node (cs ! b) \<and>
         runner_up or_node cs b (sum_second s) \<and>
         unat (sum_opp or_node s) = min (2 ^ 30)
           (if pn then opp_total or_node cs else unat (view_opp or_node (cs ! b)) + (active_views or_node cs - 1)))"
proof -
  obtain t where t: "summarize_loop or_node pn 0 cs scan_start = Inr t" "scan_ok or_node pn cs t"
    using summarize_loop_start [OF assms(1), of or_node pn] assms(2) by (auto split: sum.splits)
  have ne: "\<not> (if pn then scan_sum t = 0 else scan_k t = 0)"
    using t(2) assms(3) by (auto simp: scan_ok_def exhausted_def unat_eq_zero [symmetric])
  define opp where "opp = (if pn then (if ucast bns_kInf \<le> scan_sum t then bns_kInf else ucast (scan_sum t))
      else bns_SatAdd (scan_opp t) (scan_k t - 1))"
  have s: "s = \<lparr>sum_abn = if or_node then scan_rel t else opp, sum_obn = if or_node then opp else scan_rel t,
      sum_best = scan_best t, sum_second = scan_second t, sum_k = scan_k t, sum_proved = False, sum_disproved = False\<rparr>"
    unfolding s_def Summarize_def t(1) using ne by (simp add: Let_def opp_def)
  have "unat opp = min (2 ^ 30) (if pn then unat (scan_sum t) else unat (scan_opp t) + (unat (scan_k t) - 1))"
  proof (cases pn)
    case True
    have "ucast bns_kInf \<le> scan_sum t \<longleftrightarrow> 2 ^ 30 \<le> unat (scan_sum t)"
      unfolding word_le_nat_alt unat_u64 unat_kInf ..
    with True show ?thesis using unat_u32 [of "scan_sum t"] unat_kInf by (simp add: opp_def)
  next
    case False
    then have "unat (scan_k t - 1) = unat (scan_k t) - 1"
      using ne by (subst unat_minus_one) auto
    with False show ?thesis by (simp add: opp_def SatAdd_unat)
  qed
  with t(2) ne show ?thesis
    by (auto simp: s sum_terminal_def sum_rel_def sum_opp_def scan_ok_def unat_eq_zero split: option.splits if_splits)
qed

lemma selected_unique:
  "selected or_node pn cs b \<Longrightarrow> selected or_node pn cs b' \<Longrightarrow> b = b'"
  unfolding selected_def by (metis linorder_neqE_nat)

text \<open>Replacing the selected child by one that still is the smallest.\<close>

lemma selected_update:
  assumes "b < length cs" and "runner_up or_node cs b v" and "view_rel or_node c < v"
  shows "selected or_node pn (cs[b := c]) b"
proof -
  have "view_rel or_node c < view_rel or_node (cs ! j)" if "j < length cs" "j \<noteq> b" for j
    using assms that unfolding runner_up_def by (meson order.strict_trans2)
  then have "preferred or_node pn c (cs ! j)" if "j < length cs" "j \<noteq> b" for j
    using that by (simp add: preferred_def)
  moreover have "view_rel or_node c < bns_kInf"
    using assms unfolding runner_up_def by (meson order.strict_trans2)
  ultimately show ?thesis
    using assms(1) preferred_asym [of or_node pn c]
    by (auto simp: selected_def nth_list_update)
qed

lemma opp_total_update:
  assumes "b < length cs"
  shows "opp_total or_node (cs[b := c]) = opp_total or_node cs - unat (view_opp or_node (cs ! b)) + unat (view_opp or_node c)"
    and "unat (view_opp or_node (cs ! b)) \<le> opp_total or_node cs"
proof -
  have le: "unat (view_opp or_node (cs ! b)) \<le> opp_total or_node cs"
    using elem_le_sum_list [of b "map (\<lambda>c. unat (view_opp or_node c)) cs"] assms by (simp add: opp_total_def)
  then show "unat (view_opp or_node (cs ! b)) \<le> opp_total or_node cs" .
  show "opp_total or_node (cs[b := c]) = opp_total or_node cs - unat (view_opp or_node (cs ! b)) + unat (view_opp or_node c)"
    using assms le by (simp add: opp_total_def map_update sum_list_update)
qed

lemma active_views_update:
  assumes "b < length cs" and "view_rel or_node c < bns_kInf \<longleftrightarrow> view_rel or_node (cs ! b) < bns_kInf"
  shows "active_views or_node (cs[b := c]) = active_views or_node cs"
proof -
  have "active_views or_node (xs @ c # ys) = active_views or_node (xs @ cs ! b # ys)" for xs ys
    using assms(2) by (simp add: active_views_def)
  then show ?thesis
    using upd_conv_take_nth_drop [OF assms(1), of c] id_take_nth_drop [OF assms(1)] by metis
qed

lemma Summarize_update:
  assumes len: "length cs < 2 ^ 31" and nz: "\<forall>c\<in>set cs. view_rel or_node c \<noteq> 0"
    and sel: "selected or_node pn cs b" and up: "runner_up or_node cs b v"
    and c: "view_rel or_node c \<noteq> 0" "view_opp or_node c \<noteq> 0" "view_rel or_node c < v"
  defines "s \<equiv> Summarize or_node pn (cs[b := c])"
  shows "\<not> sum_terminal s \<and> sum_best s = Some b \<and> sum_rel or_node s = view_rel or_node c \<and>
    unat (sum_opp or_node s) = min (2 ^ 30) (unat (view_opp or_node c) +
      (if pn then opp_total or_node cs - unat (view_opp or_node (cs ! b)) else active_views or_node cs - 1))"
proof -
  have b: "b < length cs" "view_rel or_node (cs ! b) < bns_kInf" using sel by (simp_all add: selected_def)
  have low: "view_rel or_node c < bns_kInf" using up c(3) unfolding runner_up_def by (meson order.strict_trans2)
  have act: "active_views or_node (cs[b := c]) = active_views or_node cs"
    using active_views_update [of b cs or_node c] b low by simp
  have act0: "active_views or_node cs \<noteq> 0"
    using b by (auto simp: active_views_0 not_le)
  have len': "length (cs[b := c]) < 2 ^ 31" using len by simp
  have nz': "\<forall>c\<in>set (cs[b := c]). view_rel or_node c \<noteq> 0"
    using nz c(1) set_update_subset_insert [of cs b c] by blast
  have open': "\<not> exhausted or_node pn (cs[b := c])"
    using act act0 c(2) opp_total_update(1) [OF b(1), of or_node c] by (simp add: exhausted_def unat_eq_zero)
  have sel': "selected or_node pn (cs[b := c]) b" by (rule selected_update [OF b(1) up c(3)])
  note result = Summarize_open [OF len' nz' open', folded s_def, unfolded act]
  obtain b' where b': "sum_best s = Some b'" "selected or_node pn (cs[b := c]) b'"
    using result act0 by (auto split: option.splits)
  have "b' = b" using selected_unique [OF b'(2) sel'] .
  then show ?thesis
    using result b'(1) act0 b(1) opp_total_update(1) [OF b(1), of or_node c]
    by (simp add: add.commute)
qed

subsection \<open>The window of the selected child\<close>

lemma numbers_by_kind:
  "sum_abn s = (if or_node then sum_rel or_node s else sum_opp or_node s)"
  "sum_obn s = (if or_node then sum_opp or_node s else sum_rel or_node s)"
  "view_abn c = (if or_node then view_rel or_node c else view_opp or_node c)"
  "view_obn c = (if or_node then view_opp or_node c else view_rel or_node c)"
  by (simp_all add: sum_rel_def sum_opp_def view_rel_def view_opp_def)

lemma word_diff_unat: "(b :: u32) \<le> a \<Longrightarrow> unat (a - b) = unat a - unat b"
  by (simp add: unat_sub)

lemma ChildThresholds_values:
  fixes or_node abn_th obn_th
  defines "rel_th \<equiv> if or_node then abn_th else obn_th" and "opp_th \<equiv> if or_node then obn_th else abn_th"
  assumes opp: "sum_opp or_node s < opp_th" "view_opp or_node c \<le> sum_opp or_node s"
    and th: "rel_th \<le> bns_kInf" "opp_th \<le> bns_kInf"
  shows "\<exists>r q. ChildThresholds or_node s c abn_th obn_th = (if or_node then (r, q) else (q, r)) \<and>
    unat r = min (unat rel_th) (min (2 ^ 30) (unat (sum_second s) + 1)) \<and>
    unat q = (if opp_th = bns_kInf then 2 ^ 30
              else unat opp_th - (unat (sum_opp or_node s) - unat (view_opp or_node c)))"
proof -
  define r where "r = (if rel_th < bns_SatAdd (sum_second s) 1 then rel_th else bns_SatAdd (sum_second s) 1)"
  define q where "q = (if bns_kInf \<le> opp_th then bns_kInf else opp_th - (sum_opp or_node s - view_opp or_node c))"
  have "unat r = min (unat rel_th) (min (2 ^ 30) (unat (sum_second s) + 1))"
    by (auto simp: r_def word_less_nat_alt SatAdd_unat)
  moreover have "unat q = (if opp_th = bns_kInf then 2 ^ 30
      else unat opp_th - (unat (sum_opp or_node s) - unat (view_opp or_node c)))"
  proof (cases "opp_th = bns_kInf")
    case False
    then have "\<not> bns_kInf \<le> opp_th" using th(2) by simp
    moreover have "unat (sum_opp or_node s - view_opp or_node c) = unat (sum_opp or_node s) - unat (view_opp or_node c)"
      using opp(2) by (rule word_diff_unat)
    moreover from this have "sum_opp or_node s - view_opp or_node c \<le> opp_th"
      using opp(1) unfolding word_le_nat_alt word_less_nat_alt by simp
    ultimately show ?thesis using False by (simp add: q_def word_diff_unat)
  qed (simp add: q_def unat_kInf)
  moreover have "ChildThresholds or_node s c abn_th obn_th = (if or_node then (r, q) else (q, r))"
    unfolding ChildThresholds_def Let_def r_def q_def rel_th_def opp_th_def sum_opp_def by simp
  ultimately show ?thesis by blast
qed

text \<open>What the window promises for a child view: while the view stays the strictly smallest child,
  the node keeps its selection, and the node leaves its own window only together with the child;
  once the runner-up is smaller, another child is selected.\<close>

definition window_exact ::
  "bool \<Rightarrow> bool \<Rightarrow> child_view list \<Rightarrow> nat \<Rightarrow> u32 \<Rightarrow> u32 \<times> u32 \<Rightarrow> u32 \<times> u32 \<Rightarrow> child_view \<Rightarrow> bool" where
  "window_exact or_node pn cs b v th child_th c \<longleftrightarrow> (
     let s = Summarize or_node pn (cs[b := c]);
         node_open = (sum_abn s < fst th \<and> sum_obn s < snd th);
         child_open = (view_abn c < fst child_th \<and> view_obn c < snd child_th)
     in (view_rel or_node c < v \<longrightarrow> \<not> sum_terminal s \<and> sum_best s = Some b \<and>
           (node_open \<longrightarrow> child_open) \<and>
           (child_open \<and> (if or_node then snd th else fst th) < bns_kInf \<longrightarrow> node_open)) \<and>
        (v < view_rel or_node c \<longrightarrow> sum_best s \<noteq> Some b))"

lemma window_exact_below:
  assumes len: "length cs < 2 ^ 31" and nz: "\<forall>c\<in>set cs. view_rel or_node c \<noteq> 0"
    and sel: "selected or_node pn cs b" and up: "runner_up or_node cs b v"
    and c: "view_rel or_node c \<noteq> 0" "view_opp or_node c \<noteq> 0" "view_rel or_node c < v"
    and opp: "unat opp = (if pn then opp_total or_node cs else unat (view_opp or_node (cs ! b)) + (active_views or_node cs - 1))"
    and r: "unat r = min (unat rel_th) (min (2 ^ 30) (unat v + 1))"
    and q: "unat q = (if opp_th = bns_kInf then 2 ^ 30 else unat opp_th - (unat opp - unat (view_opp or_node (cs ! b))))"
    and th: "opp < opp_th" "opp_th \<le> bns_kInf"
  defines "s \<equiv> Summarize or_node pn (cs[b := c])"
  shows "\<not> sum_terminal s \<and> sum_best s = Some b \<and>
    (sum_rel or_node s < rel_th \<longleftrightarrow> view_rel or_node c < r) \<and>
    (sum_opp or_node s < opp_th \<longrightarrow> view_opp or_node c < q) \<and>
    (view_opp or_node c < q \<and> opp_th < bns_kInf \<longrightarrow> sum_opp or_node s < opp_th)"
proof -
  note s = Summarize_update [OF len nz sel up c, folded s_def]
  have b: "b < length cs" using sel by (simp add: selected_def)
  define rest where "rest = unat opp - unat (view_opp or_node (cs ! b))"
  have rest: "unat (sum_opp or_node s) = min (2 ^ 30) (unat (view_opp or_node c) + rest)" and
    opp': "unat opp = unat (view_opp or_node (cs ! b)) + rest"
    using s opp opp_total_update(2) [OF b, of or_node] by (auto simp: rest_def)
  have low: "unat (view_rel or_node c) < unat v" "unat v \<le> 2 ^ 30"
    using c(3) up unfolding runner_up_def word_less_nat_alt word_le_nat_alt unat_kInf by simp_all
  have th': "unat opp < unat opp_th" "unat opp_th \<le> 2 ^ 30"
    using th unfolding word_less_nat_alt word_le_nat_alt unat_kInf by simp_all
  have inf: "opp_th = bns_kInf \<longleftrightarrow> unat opp_th = 2 ^ 30"
    by (metis unat_kInf word_unat_eq_iff)
  have "sum_rel or_node s < rel_th \<longleftrightarrow> view_rel or_node c < r"
    using s r low unfolding word_less_nat_alt by auto
  moreover have "(sum_opp or_node s < opp_th \<longrightarrow> view_opp or_node c < q) \<and>
      (view_opp or_node c < q \<and> opp_th < bns_kInf \<longrightarrow> sum_opp or_node s < opp_th)"
    using q rest th' inf opp' unfolding word_less_nat_alt unat_kInf rest_def [symmetric] by (auto split: if_splits)
  ultimately show ?thesis using s by blast
qed

lemma window_exact_above:
  assumes len: "length cs < 2 ^ 31" and nz: "\<forall>c\<in>set cs. view_rel or_node c \<noteq> 0"
    and b: "b < length cs" and up: "runner_up or_node cs b v"
    and c: "view_rel or_node c \<noteq> 0" "v < view_rel or_node c"
  shows "sum_best (Summarize or_node pn (cs[b := c])) \<noteq> Some b"
proof -
  have len': "length (cs[b := c]) < 2 ^ 31" using len by simp
  have nz': "\<forall>c\<in>set (cs[b := c]). view_rel or_node c \<noteq> 0"
    using nz c(1) set_update_subset_insert [of cs b c] by blast
  have "\<not> selected or_node pn (cs[b := c]) b"
  proof
    assume sel: "selected or_node pn (cs[b := c]) b"
    then have "view_rel or_node c < bns_kInf" using b by (simp add: selected_def)
    with up c(2) obtain j where j: "j < length cs" "j \<noteq> b" "view_rel or_node (cs ! j) = v"
      unfolding runner_up_def by (auto dest: order.strict_trans)
    with selected_smallest [OF sel, of j] b c(2) show False by simp
  qed
  then show ?thesis
    using Summarize_open [OF len' nz', of pn] Summarize_exhausted [OF len' nz', of pn]
    by (cases "exhausted or_node pn (cs[b := c])") (auto split: option.splits)
qed

text \<open>C9: In both modes of the branch-number solver, the window the selected child is searched in
  lies inside the node's window and leaves the child room, and it is exact: as long as the child
  stays the strictly smallest one, the node keeps it selected, the child's window is open whenever
  the node's is, and the node's is open whenever the child's is, provided the node's threshold for
  the summed number is below infinity; once the child has passed the runner-up, the node selects
  another child.\<close>

theorem ChildThresholds_window:
  assumes len: "length cs < 2 ^ 31" and s: "s = Summarize or_node pn cs" "\<not> sum_terminal s"
    and th: "sum_abn s < abn_th" "sum_obn s < obn_th" "abn_th \<le> bns_kInf" "obn_th \<le> bns_kInf"
  shows "\<exists>b<length cs. \<exists>a d. sum_best s = Some b \<and> ChildThresholds or_node s (cs ! b) abn_th obn_th = (a, d) \<and>
    view_abn (cs ! b) < a \<and> a \<le> abn_th \<and> view_obn (cs ! b) < d \<and> d \<le> obn_th \<and>
    (\<forall>c. view_abn c \<noteq> 0 \<and> view_obn c \<noteq> 0 \<longrightarrow>
       window_exact or_node pn cs b (sum_second s) (abn_th, obn_th) (a, d) c)"
proof -
  define rel_th where "rel_th = (if or_node then abn_th else obn_th)"
  define opp_th where "opp_th = (if or_node then obn_th else abn_th)"
  have th': "sum_rel or_node s < rel_th" "sum_opp or_node s < opp_th" "rel_th \<le> bns_kInf" "opp_th \<le> bns_kInf"
    using th by (auto simp: rel_th_def opp_th_def sum_rel_def sum_opp_def)
  have nz: "\<forall>c\<in>set cs. view_rel or_node c \<noteq> 0"
  proof
    fix c assume "c \<in> set cs"
    then show "view_rel or_node c \<noteq> 0"
      using Summarize_decided [OF len, of c or_node pn] s(2) unfolding s(1) sum_terminal_def by auto
  qed
  have "\<not> exhausted or_node pn cs"
    using Summarize_exhausted [OF len nz, of pn] s by (auto simp: sum_terminal_def)
  note result = Summarize_open [OF len nz this, folded s(1)]
  have "sum_best s \<noteq> None" using result th'(1,3) by (auto split: option.splits)
  then obtain b where best: "sum_best s = Some b" by blast
  with result have sel: "selected or_node pn cs b" and rel: "sum_rel or_node s = view_rel or_node (cs ! b)"
    and up: "runner_up or_node cs b (sum_second s)"
    and opp: "unat (sum_opp or_node s) = min (2 ^ 30)
      (if pn then opp_total or_node cs else unat (view_opp or_node (cs ! b)) + (active_views or_node cs - 1))"
    by simp_all
  have b: "b < length cs" using sel by (simp add: selected_def)
  have less: "unat (sum_opp or_node s) < 2 ^ 30" "unat (sum_opp or_node s) < unat opp_th" "unat opp_th \<le> 2 ^ 30"
    using th'(2,4) unfolding word_less_nat_alt word_le_nat_alt unat_kInf by simp_all
  with opp have opp: "unat (sum_opp or_node s) =
      (if pn then opp_total or_node cs else unat (view_opp or_node (cs ! b)) + (active_views or_node cs - 1))"
    by (simp add: min_def split: if_splits)
  have le: "view_opp or_node (cs ! b) \<le> sum_opp or_node s"
    using opp opp_total_update(2) [OF b, of or_node] unfolding word_le_nat_alt by (simp split: if_splits)
  obtain r q where rq: "ChildThresholds or_node s (cs ! b) abn_th obn_th = (if or_node then (r, q) else (q, r))"
    and r: "unat r = min (unat rel_th) (min (2 ^ 30) (unat (sum_second s) + 1))"
    and q: "unat q = (if opp_th = bns_kInf then 2 ^ 30
              else unat opp_th - (unat (sum_opp or_node s) - unat (view_opp or_node (cs ! b))))"
    using ChildThresholds_values [OF th'(2) [unfolded opp_th_def] le] th'(3,4)
    unfolding rel_th_def opp_th_def by blast
  have low: "view_rel or_node (cs ! b) < bns_kInf" using sel by (simp add: selected_def)
  have "view_rel or_node (cs ! b) \<le> sum_second s"
    using low up selected_smallest [OF sel] unfolding runner_up_def by (metis less_imp_le)
  with low have room_r: "view_rel or_node (cs ! b) < r" "r \<le> rel_th"
    using r th'(1) rel unfolding word_less_nat_alt word_le_nat_alt unat_kInf by auto
  have room_q: "view_opp or_node (cs ! b) < q" "q \<le> opp_th"
    using q less le unfolding word_less_nat_alt word_le_nat_alt by (auto simp: unat_kInf split: if_splits)
  define a d where "a = (if or_node then r else q)" and "d = (if or_node then q else r)"
  have "window_exact or_node pn cs b (sum_second s) (abn_th, obn_th) (a, d) c"
    if "view_abn c \<noteq> 0" "view_obn c \<noteq> 0" for c
  proof -
    have c: "view_rel or_node c \<noteq> 0" "view_opp or_node c \<noteq> 0"
      using that by (auto simp: view_rel_def view_opp_def)
    show ?thesis
      using window_exact_below [OF len nz sel up c _ opp r q th'(2,4)] window_exact_above [OF len nz b up c(1), of pn]
      unfolding window_exact_def Let_def fst_conv snd_conv numbers_by_kind [where or_node = or_node]
      by (auto simp: a_def d_def rel_th_def opp_th_def split: if_splits)
  qed
  moreover have "view_abn (cs ! b) < a" "a \<le> abn_th" "view_obn (cs ! b) < d" "d \<le> obn_th"
    using room_r room_q unfolding numbers_by_kind [where or_node = or_node]
    by (auto simp: a_def d_def rel_th_def opp_th_def split: if_splits)
  ultimately show ?thesis
    using b best rq by (intro exI [of _ b] conjI exI [of _ a] exI [of _ d]) (auto simp: a_def d_def)
qed

definition sample_views :: "child_view list" where
  "sample_views = [\<lparr>view_abn = 3, view_obn = 3\<rparr>, \<lparr>view_abn = 2, view_obn = 4\<rparr>, \<lparr>view_abn = 5, view_obn = 6\<rparr>]"

lemma sample_summary:
  "Summarize True False sample_views = \<lparr>sum_abn = 2, sum_obn = 6, sum_best = Some 1, sum_second = 3,
     sum_k = 3, sum_proved = False, sum_disproved = False\<rparr>"
  by (simp add: Summarize_def sample_views_def scan_start_def scan_child_def view_rel_def view_opp_def
      bns_kInf_def bns_SatAdd_def push_bit_eq_mult Let_def)

theorem ChildThresholds_window_witness:
  "\<exists>a d. ChildThresholds True (Summarize True False sample_views) (sample_views ! 1) 8 9 = (a, d) \<and>
     2 < a \<and> a \<le> 8 \<and> 4 < d \<and> d \<le> 9"
proof -
  have len: "length sample_views < 2 ^ 31" by (simp add: sample_views_def)
  have view: "view_abn (sample_views ! 1) = 2" "view_obn (sample_views ! 1) = 4" by (simp_all add: sample_views_def)
  show ?thesis
    using ChildThresholds_window [OF len refl, of True False 8 9]
    by (auto simp: sample_summary sum_terminal_def bns_kInf_def push_bit_eq_mult view [simplified])
qed

end
