(* ===== verification/BnsTables.thy ===== *)
theory BnsTables
  imports BranchNumbers Hands
begin

text \<open>
  The two tables of the branch-number mate solver (mate/bns.h). \<open>BnsTT\<close> is the transposition
  table: clusters of two entries, keyed by the position hash mixed with the ply, cleared lazily by
  a generation number in the low bits of each tag. \<open>BnsFinalsTable\<close> keeps the route-independent
  verdicts by board key and attacker hand and answers by hand dominance. A table pointer of the
  code is an index here, \<open>nullptr\<close> is \<open>None\<close>, and a table that was never allocated is the empty
  list; the prefetch hint has no effect on the state and is left out.

  The lemmas show that the transposition table behaves as a partial map from keys to numbers which
  may forget keys of a full cluster but never answers for another key or an earlier search, and
  that the finals table only ever gives verdicts that follow from the recorded ones.
\<close>

subsection \<open>The transposition table\<close>

record tt_entry =
  entry_tag :: u64
  entry_abn :: u32
  entry_obn :: u32

definition final_result :: "tt_entry \<Rightarrow> bool" where
  "final_result e \<longleftrightarrow> entry_abn e = 0 \<or> entry_obn e = 0"

datatype victim_policy = EffortPriority | AlwaysFirst

record bns_tt =
  tt_table :: "tt_entry list"
  tt_effort :: "u32 list"
  tt_mask :: u64
  tt_gen :: u16
  tt_policy :: victim_policy
  tt_use_effort :: bool
  tt_probes :: u64
  tt_hits :: u64
  tt_stores :: u64
  tt_evictions :: u64

definition kClusterSize :: nat where
  "kClusterSize = 2"

definition empty_entry :: tt_entry where
  "empty_entry = \<lparr>entry_tag = 0, entry_abn = 0, entry_obn = 0\<rparr>"

definition new_tt :: bns_tt where
  "new_tt = \<lparr>tt_table = [], tt_effort = [], tt_mask = 0, tt_gen = 0, tt_policy = AlwaysFirst,
     tt_use_effort = False, tt_probes = 0, tt_hits = 0, tt_stores = 0, tt_evictions = 0\<rparr>"

definition set_victim_policy :: "victim_policy \<Rightarrow> bns_tt \<Rightarrow> bns_tt" where
  "set_victim_policy p tt = (let tt = tt\<lparr>tt_policy := p\<rparr>
     in if p = EffortPriority then tt\<lparr>tt_use_effort := True\<rparr> else tt)"

definition set_use_effort :: "bool \<Rightarrow> bns_tt \<Rightarrow> bns_tt" where
  "set_use_effort v tt = tt\<lparr>tt_use_effort := v \<or> tt_policy tt = EffortPriority\<rparr>"

text \<open>The doubling loop of \<open>Resize\<close>; the sizes stay below \<open>2 ^ 60\<close>, so nothing wraps.\<close>

function grow_size :: "nat \<Rightarrow> nat \<Rightarrow> nat" where
  "grow_size want n = (if 0 < n \<and> n * 2 \<le> want then grow_size want (n * 2) else n)"
  by auto
termination by (relation "measure (\<lambda>(want, n). want - n)") auto

declare grow_size.simps [simp del]

definition tt_Resize :: "u64 \<Rightarrow> bns_tt \<Rightarrow> bns_tt" where
  "tt_Resize mb tt = (
     let bytes = push_bit 20 mb;
         n = grow_size (unat bytes div (16 + 4)) (2 ^ 12)
     in if n \<noteq> length (tt_table tt)
        then tt\<lparr>tt_table := replicate n empty_entry, tt_effort := replicate n 0,
                tt_mask := (of_nat n - 1) AND NOT (of_nat (kClusterSize - 1)), tt_gen := 0\<rparr>
        else tt)"

definition tt_NewSearch :: "bns_tt \<Rightarrow> bns_tt" where
  "tt_NewSearch tt = (
     let tt = (if tt_table tt = [] then tt_Resize 4 tt else tt);
         tt = tt\<lparr>tt_gen := tt_gen tt + 1\<rparr>;
         tt = (if tt_gen tt = 0
               then tt\<lparr>tt_table := replicate (length (tt_table tt)) empty_entry, tt_gen := 1\<rparr> else tt)
     in tt\<lparr>tt_probes := 0, tt_hits := 0, tt_stores := 0, tt_evictions := 0\<rparr>)"

definition Mix :: "u64 \<Rightarrow> int \<Rightarrow> u64" where
  "Mix hash p = hash + word_of_int p * 0x9E3779B97F4A7C15"

definition IndexOf :: "bns_tt \<Rightarrow> u64 \<Rightarrow> nat" where
  "IndexOf tt mixed = unat (mixed AND tt_mask tt)"

definition TagOf :: "bns_tt \<Rightarrow> u64 \<Rightarrow> u64" where
  "TagOf tt mixed = (mixed AND NOT (mask 16)) OR ucast (tt_gen tt)"

definition GenerationOf :: "tt_entry \<Rightarrow> u16" where
  "GenerationOf e = ucast (entry_tag e)"

definition ResetEffort :: "nat \<Rightarrow> bns_tt \<Rightarrow> bns_tt" where
  "ResetEffort j tt = (if tt_use_effort tt then tt\<lparr>tt_effort := (tt_effort tt)[j := 0]\<rparr> else tt)"

primrec probe_scan :: "bns_tt \<Rightarrow> nat \<Rightarrow> u64 \<Rightarrow> nat list \<Rightarrow> nat option" where
  "probe_scan tt c tag [] = None"
| "probe_scan tt c tag (i # is) = (
     let e = tt_table tt ! (c + i)
     in if entry_tag e = tag then Some (c + i)
        else if GenerationOf e \<noteq> tt_gen tt then None
        else probe_scan tt c tag is)"

definition tt_Probe :: "bns_tt \<Rightarrow> u64 \<Rightarrow> int \<Rightarrow> nat option \<times> bns_tt" where
  "tt_Probe tt hash p = (
     let tt = tt\<lparr>tt_probes := tt_probes tt + 1\<rparr>;
         mixed = Mix hash p;
         found = probe_scan tt (IndexOf tt mixed) (TagOf tt mixed) [0..<kClusterSize]
     in (found, if found = None then tt else tt\<lparr>tt_hits := tt_hits tt + 1\<rparr>))"

text \<open>The scan for the slot to write: the matching entry, the first stale one, or a victim.\<close>

datatype tt_slot = Matching nat | Stale nat | Victim nat

definition victim_better :: "bns_tt \<Rightarrow> nat \<Rightarrow> nat \<Rightarrow> bool" where
  "victim_better tt v j \<longleftrightarrow>
     final_result (tt_table tt ! v) \<and> \<not> final_result (tt_table tt ! j) \<or>
     final_result (tt_table tt ! v) = final_result (tt_table tt ! j) \<and> tt_effort tt ! j < tt_effort tt ! v"

fun slot_scan :: "bns_tt \<Rightarrow> nat \<Rightarrow> u64 \<Rightarrow> nat option \<Rightarrow> nat list \<Rightarrow> tt_slot" where
  "slot_scan tt c tag victim [] = Victim (case victim of None \<Rightarrow> c | Some v \<Rightarrow> v)"
| "slot_scan tt c tag victim (i # is) = (
     let j = c + i; e = tt_table tt ! j
     in if entry_tag e = tag then Matching j
        else if GenerationOf e \<noteq> tt_gen tt then Stale j
        else case victim of
            None \<Rightarrow> slot_scan tt c tag (Some j) is
          | Some v \<Rightarrow>
              if tt_policy tt = AlwaysFirst then slot_scan tt c tag victim is
              else if victim_better tt v j then slot_scan tt c tag (Some j) is
              else slot_scan tt c tag victim is)"

definition fill_slot :: "nat \<Rightarrow> u64 \<Rightarrow> bns_tt \<Rightarrow> bns_tt" where
  "fill_slot j tag tt =
     ResetEffort j (tt\<lparr>tt_table := (tt_table tt)[j := \<lparr>entry_tag = tag, entry_abn = 1, entry_obn = 1\<rparr>]\<rparr>)"

definition evict_slot :: "nat \<Rightarrow> u64 \<Rightarrow> bns_tt \<Rightarrow> bns_tt" where
  "evict_slot j tag tt = fill_slot j tag
     (if GenerationOf (tt_table tt ! j) = tt_gen tt then tt\<lparr>tt_evictions := tt_evictions tt + 1\<rparr> else tt)"

definition tt_ProbeOrStore :: "bns_tt \<Rightarrow> u64 \<Rightarrow> int \<Rightarrow> nat \<times> bool \<times> bns_tt" where
  "tt_ProbeOrStore tt hash p = (
     let tt = tt\<lparr>tt_probes := tt_probes tt + 1\<rparr>;
         mixed = Mix hash p;
         tag = TagOf tt mixed
     in case slot_scan tt (IndexOf tt mixed) tag None [0..<kClusterSize] of
          Matching j \<Rightarrow> (j, False, tt\<lparr>tt_hits := tt_hits tt + 1\<rparr>)
        | Stale j \<Rightarrow> (j, True, fill_slot j tag (tt\<lparr>tt_stores := tt_stores tt + 1\<rparr>))
        | Victim j \<Rightarrow> (j, True, evict_slot j tag (tt\<lparr>tt_stores := tt_stores tt + 1\<rparr>)))"

definition tt_Store :: "bns_tt \<Rightarrow> u64 \<Rightarrow> int \<Rightarrow> nat option \<Rightarrow> nat \<times> bns_tt" where
  "tt_Store tt hash p cached = (
     let tt = tt\<lparr>tt_stores := tt_stores tt + 1\<rparr>;
         mixed = Mix hash p;
         tag = TagOf tt mixed
     in case (case cached of Some j \<Rightarrow> if entry_tag (tt_table tt ! j) = tag then Matching j
                                 else slot_scan tt (IndexOf tt mixed) tag None [0..<kClusterSize]
                           | None \<Rightarrow> slot_scan tt (IndexOf tt mixed) tag None [0..<kClusterSize]) of
          Matching j \<Rightarrow> (j, tt)
        | Stale j \<Rightarrow> (j, fill_slot j tag tt)
        | Victim j \<Rightarrow> (j, evict_slot j tag tt))"

definition entry_effort :: "bns_tt \<Rightarrow> nat \<Rightarrow> u32" where
  "entry_effort tt j = (if tt_use_effort tt then tt_effort tt ! j else 0)"

definition increment_effort :: "nat \<Rightarrow> bns_tt \<Rightarrow> bns_tt" where
  "increment_effort j tt = (let v = tt_effort tt ! j
     in if v \<noteq> -1 then tt\<lparr>tt_effort := (tt_effort tt)[j := v + 1]\<rparr> else tt)"

text \<open>The assignments \<open>e->abn = v.abn; e->obn = v.obn\<close> of the callers.\<close>

definition set_numbers :: "nat \<Rightarrow> child_view \<Rightarrow> bns_tt \<Rightarrow> bns_tt" where
  "set_numbers j v tt = tt\<lparr>tt_table :=
     (tt_table tt)[j := (tt_table tt ! j)\<lparr>entry_abn := view_abn v, entry_obn := view_obn v\<rparr>]\<rparr>"

subsection \<open>The table as a partial map\<close>

definition entry_view :: "tt_entry \<Rightarrow> child_view" where
  "entry_view e = \<lparr>view_abn = entry_abn e, view_obn = entry_obn e\<rparr>"

definition tt_key :: "bns_tt \<Rightarrow> u64 \<Rightarrow> int \<Rightarrow> nat \<times> u64" where
  "tt_key tt hash p = (IndexOf tt (Mix hash p), TagOf tt (Mix hash p))"

text \<open>The numbers a probe finds.\<close>

definition tt_lookup :: "bns_tt \<Rightarrow> u64 \<Rightarrow> int \<Rightarrow> child_view option" where
  "tt_lookup tt hash p = map_option (\<lambda>j. entry_view (tt_table tt ! j)) (fst (tt_Probe tt hash p))"

definition live :: "bns_tt \<Rightarrow> nat \<Rightarrow> bool" where
  "live tt j \<longleftrightarrow> GenerationOf (tt_table tt ! j) = tt_gen tt"

definition cluster_ok :: "bns_tt \<Rightarrow> nat \<Rightarrow> bool" where
  "cluster_ok tt c \<longleftrightarrow> (live tt (c + 1) \<longrightarrow> live tt c \<and> entry_tag (tt_table tt ! (c + 1)) \<noteq> entry_tag (tt_table tt ! c))"

definition tt_ok :: "bns_tt \<Rightarrow> bool" where
  "tt_ok tt \<longleftrightarrow> (\<exists>k. 12 \<le> k \<and> k < 64 \<and> length (tt_table tt) = 2 ^ k \<and> length (tt_effort tt) = 2 ^ k \<and>
     tt_mask tt = mask k AND NOT 1) \<and> tt_gen tt \<noteq> 0 \<and>
     (\<forall>e\<in>set (tt_table tt). GenerationOf e \<le> tt_gen tt) \<and>
     (\<forall>c. even c \<and> c + 1 < length (tt_table tt) \<longrightarrow> cluster_ok tt c)"

lemma and_even_mask: "x AND (mask k AND NOT 1) = take_bit k x AND (NOT 1 :: u64)"
  by (simp add: take_bit_eq_mask ac_simps)

lemma even_index:
  fixes x :: u64
  assumes "0 < k" and "k < 64"
  shows "even (unat (x AND (mask k AND NOT 1))) \<and> unat (x AND (mask k AND NOT 1)) + 1 < 2 ^ k"
proof -
  let ?i = "unat (x AND (mask k AND NOT 1))"
  have "\<not> bit (x AND (mask k AND NOT 1)) 0" by (simp add: bit_simps)
  then have "\<not> bit ?i 0" by (simp add: bit_unsigned_iff)
  then have even: "even ?i" by (simp add: bit_0)
  have "?i \<le> unat (take_bit k x)"
    unfolding and_even_mask by (rule order.trans [OF _ order.refl]) (metis word_and_le2 word_le_nat_alt)
  also have "\<dots> < 2 ^ k" by (simp add: unsigned_take_bit_eq)
  finally have less: "?i < 2 ^ k" .
  have "even (2 ^ k :: nat)" using assms by simp
  with even less show ?thesis by (metis Suc_eq_plus1 Suc_lessI even_Suc)
qed

lemma IndexOf_cluster: "tt_ok tt \<Longrightarrow> even (IndexOf tt m) \<and> IndexOf tt m + 1 < length (tt_table tt)"
  unfolding tt_ok_def IndexOf_def using even_index by auto

lemma TagOf_live: "entry_tag e = TagOf tt m \<Longrightarrow> GenerationOf e = tt_gen tt"
  unfolding GenerationOf_def TagOf_def by (rule bit_word_eqI) (auto simp: bit_simps)

lemma cluster_indices: "[0..<kClusterSize] = [0, 1]"
  by (simp add: kClusterSize_def upt_rec)

lemma probe_scan_eq:
  assumes "cluster_ok tt c"
  shows "probe_scan tt c (TagOf tt m) [0, 1] =
    (if entry_tag (tt_table tt ! c) = TagOf tt m then Some c
     else if entry_tag (tt_table tt ! (c + 1)) = TagOf tt m then Some (c + 1) else None)"
  using assms TagOf_live [of "tt_table tt ! (c + 1)" tt m] by (auto simp: Let_def cluster_ok_def live_def)

lemma slot_scan_cases:
  obtains (match) j where "slot_scan tt c tag None [0, 1] = Matching j" "j = c \<or> j = c + 1" "entry_tag (tt_table tt ! j) = tag"
    | (stale) j where "slot_scan tt c tag None [0, 1] = Stale j" "j = c \<or> j = c + 1 \<and> live tt c" "\<not> live tt j"
        "entry_tag (tt_table tt ! c) \<noteq> tag"
    | (victim) j where "slot_scan tt c tag None [0, 1] = Victim j" "j = c \<or> j = c + 1" "live tt c" "live tt (c + 1)"
        "entry_tag (tt_table tt ! c) \<noteq> tag" "entry_tag (tt_table tt ! (c + 1)) \<noteq> tag"
        "tt_policy tt = EffortPriority \<Longrightarrow> final_result (tt_table tt ! j) \<Longrightarrow>
           final_result (tt_table tt ! c) \<and> final_result (tt_table tt ! (c + 1))"
proof -
  let ?e0 = "tt_table tt ! c" and ?e1 = "tt_table tt ! (c + 1)"
  consider "entry_tag ?e0 = tag" | "entry_tag ?e0 \<noteq> tag" "\<not> live tt c"
    | "entry_tag ?e0 \<noteq> tag" "live tt c" "entry_tag ?e1 = tag"
    | "entry_tag ?e0 \<noteq> tag" "live tt c" "entry_tag ?e1 \<noteq> tag" "\<not> live tt (c + 1)"
    | "entry_tag ?e0 \<noteq> tag" "live tt c" "entry_tag ?e1 \<noteq> tag" "live tt (c + 1)" by blast
  then show thesis
  proof cases
    case 1 then show ?thesis by (intro match [of c]) simp_all
  next
    case 2 then show ?thesis by (intro stale [of c]) (simp_all add: live_def)
  next
    case 3 then show ?thesis by (intro match [of "c + 1"]) (simp_all add: live_def)
  next
    case 4 then show ?thesis by (intro stale [of "c + 1"]) (simp_all add: live_def)
  next
    case 5
    define j where "j = (if tt_policy tt = AlwaysFirst then c else if victim_better tt c (c + 1) then c + 1 else c)"
    have "slot_scan tt c tag None [0, 1] = Victim j" using 5 by (simp add: live_def j_def)
    moreover have "final_result ?e0 \<and> final_result ?e1"
      if "tt_policy tt = EffortPriority" "final_result (tt_table tt ! j)"
      using that by (auto simp: j_def victim_better_def split: if_splits)
    moreover have "j = c \<or> j = c + 1" by (simp add: j_def)
    ultimately show ?thesis using 5 by (intro victim [of j])
  qed
qed

text \<open>The answer the entries of a cluster give for a tag, and the effect of writing one slot.\<close>

definition cluster_answer :: "tt_entry list \<Rightarrow> nat \<times> u64 \<Rightarrow> child_view option" where
  "cluster_answer es k = (
     if entry_tag (es ! fst k) = snd k then Some (entry_view (es ! fst k))
     else if entry_tag (es ! (fst k + 1)) = snd k then Some (entry_view (es ! (fst k + 1))) else None)"

lemma tt_lookup_eq: "tt_ok tt \<Longrightarrow> tt_lookup tt hash p = cluster_answer (tt_table tt) (tt_key tt hash p)"
proof -
  assume ok: "tt_ok tt"
  define tt' where "tt' = tt\<lparr>tt_probes := tt_probes tt + 1\<rparr>"
  have eq: "tt_table tt' = tt_table tt" "IndexOf tt' m = IndexOf tt m" "TagOf tt' m = TagOf tt m"
    "cluster_ok tt' c = cluster_ok tt c" for m c
    by (simp_all add: tt'_def IndexOf_def TagOf_def cluster_ok_def live_def)
  have "cluster_ok tt (IndexOf tt (Mix hash p))"
    using ok IndexOf_cluster [OF ok] by (simp add: tt_ok_def)
  then have "cluster_ok tt' (IndexOf tt' (Mix hash p))" by (simp add: eq)
  note scan = probe_scan_eq [OF this, of "Mix hash p"]
  have found: "fst (tt_Probe tt hash p) = probe_scan tt' (IndexOf tt' (Mix hash p)) (TagOf tt' (Mix hash p)) [0, 1]"
    by (simp add: tt_Probe_def Let_def cluster_indices tt'_def del: probe_scan.simps)
  show ?thesis
    unfolding tt_lookup_def found [unfolded scan] cluster_answer_def tt_key_def eq fst_conv snd_conv by simp
qed

text \<open>A slot of the cluster that may be written for the key: no other slot holds the key, and the
  live entries stay in front of the stale ones.\<close>

definition writable :: "bns_tt \<Rightarrow> nat \<times> u64 \<Rightarrow> nat \<Rightarrow> bool" where
  "writable tt k j \<longleftrightarrow> (j = fst k \<or> j = fst k + 1 \<and> live tt (fst k)) \<and>
     (\<forall>i\<in>{fst k, fst k + 1}. i \<noteq> j \<longrightarrow> entry_tag (tt_table tt ! i) \<noteq> snd k)"

definition same_shape :: "bns_tt \<Rightarrow> bns_tt \<Rightarrow> bool" where
  "same_shape tt tt' \<longleftrightarrow> tt_mask tt' = tt_mask tt \<and> tt_gen tt' = tt_gen tt \<and> tt_policy tt' = tt_policy tt \<and>
     length (tt_effort tt') = length (tt_effort tt)"

lemma tt_key_shape: "same_shape tt tt' \<Longrightarrow> tt_key tt' hash p = tt_key tt hash p"
  by (simp add: same_shape_def tt_key_def IndexOf_def TagOf_def)

lemma write_slot_ok:
  assumes ok: "tt_ok tt" and w: "writable tt (tt_key tt hash p) j"
    and t': "same_shape tt tt'" "tt_table tt' = (tt_table tt)[j := e]" "entry_tag e = snd (tt_key tt hash p)"
  shows "tt_ok tt'"
proof -
  define c where "c = fst (tt_key tt hash p)"
  have c: "even c" "c + 1 < length (tt_table tt)"
    using IndexOf_cluster [OF ok] by (simp_all add: c_def tt_key_def)
  have gen: "GenerationOf e = tt_gen tt" using TagOf_live t'(3) by (simp add: tt_key_def)
  have j: "j = c \<or> j = c + 1 \<and> live tt c" using w by (simp add: writable_def c_def)
  have "cluster_ok tt' d" if d: "even d" "d + 1 < length (tt_table tt)" for d
  proof (cases "d = c")
    case True
    have "cluster_ok tt c" using ok c by (simp add: tt_ok_def)
    with True j c w gen show ?thesis
      using t' by (auto simp: cluster_ok_def live_def same_shape_def writable_def nth_list_update simp flip: c_def)
  next
    case False
    then have "d \<noteq> j" "d + 1 \<noteq> j" using j c(1) d(1) by auto
    moreover have "cluster_ok tt d" using ok d by (simp add: tt_ok_def)
    ultimately show ?thesis using t' by (simp add: cluster_ok_def live_def same_shape_def)
  qed
  moreover have "\<forall>e'\<in>set (tt_table tt'). GenerationOf e' \<le> tt_gen tt"
    using ok gen t'(2) set_update_subset_insert [of "tt_table tt" j e] by (auto simp: tt_ok_def)
  ultimately show ?thesis using ok t' by (auto simp: tt_ok_def same_shape_def)
qed

lemma cluster_answer_update:
  assumes "j = c \<or> j = c + 1" and "c + 1 < length es"
    and "entry_tag (es ! (if j = c then c + 1 else c)) \<noteq> entry_tag e"
    and "\<not> (entry_tag (es ! c) = q \<and> entry_tag (es ! (c + 1)) = q)"
  shows "cluster_answer (es[j := e]) (c, q) =
    (if q = entry_tag e then Some (entry_view e) else if q = entry_tag (es ! j) then None else cluster_answer es (c, q))"
proof (cases "j = c")
  case True
  with assms show ?thesis by (auto simp: cluster_answer_def)
next
  case False
  with assms(1) have "j = c + 1" by simp
  with assms show ?thesis by (auto simp: cluster_answer_def)
qed

lemma write_slot_lookup:
  assumes ok: "tt_ok tt" and w: "writable tt (tt_key tt hash p) j"
    and t': "same_shape tt tt'" "tt_table tt' = (tt_table tt)[j := e]" "entry_tag e = snd (tt_key tt hash p)"
  shows "tt_lookup tt' hash' p' =
    (if tt_key tt hash' p' = tt_key tt hash p then Some (entry_view e)
     else if tt_key tt hash' p' = (fst (tt_key tt hash p), entry_tag (tt_table tt ! j)) then None
     else tt_lookup tt hash' p')"
proof -
  define c where "c = fst (tt_key tt hash p)"
  obtain c' q' where k': "tt_key tt hash' p' = (c', q')" by (rule prod.exhaust)
  have c: "even c" "c + 1 < length (tt_table tt)" "even c'" "c' + 1 < length (tt_table tt)"
    using IndexOf_cluster [OF ok] k' by (auto simp: c_def tt_key_def)
  have "cluster_ok tt c'" using ok c by (simp add: tt_ok_def)
  moreover have "GenerationOf e' = tt_gen tt" if "entry_tag e' = q'" for e'
    using that TagOf_live [of e' tt "Mix hash' p'"] k' by (simp add: tt_key_def)
  ultimately have uniq: "\<not> (entry_tag (tt_table tt ! c') = q' \<and> entry_tag (tt_table tt ! (c' + 1)) = q')"
    unfolding cluster_ok_def live_def by metis
  have j: "j = c \<or> j = c + 1" using w by (auto simp: writable_def c_def)
  have key: "tt_key tt hash p = (c, entry_tag e)" using t'(3) by (simp add: c_def prod_eq_iff)
  have l: "tt_lookup tt' hash' p' = cluster_answer ((tt_table tt)[j := e]) (c', q')"
    using tt_lookup_eq [OF write_slot_ok [OF ok w t']] t'(2) tt_key_shape [OF t'(1)] k' by simp
  show ?thesis
  proof (cases "c' = c")
    case False
    then have "c' \<noteq> j" "c' + 1 \<noteq> j" using j c by auto
    then show ?thesis using False unfolding l tt_lookup_eq [OF ok] k' key by (simp add: cluster_answer_def)
  next
    case True
    have "entry_tag (tt_table tt ! (if j = c then c + 1 else c)) \<noteq> entry_tag e"
      using w j t'(3) by (auto simp: writable_def simp flip: c_def)
    from cluster_answer_update [OF j c(2) this, of q'] uniq True show ?thesis
      unfolding l tt_lookup_eq [OF ok] k' key by simp
  qed
qed

subsection \<open>Storing\<close>

definition cluster_full :: "bns_tt \<Rightarrow> nat \<Rightarrow> bool" where
  "cluster_full tt c \<longleftrightarrow> live tt c \<and> live tt (c + 1)"

definition cluster_final :: "bns_tt \<Rightarrow> nat \<Rightarrow> bool" where
  "cluster_final tt c \<longleftrightarrow> final_result (tt_table tt ! c) \<and> final_result (tt_table tt ! (c + 1))"

text \<open>A slot that may be given up for the key: only a full cluster loses an entry, and with the
  effort policy a final result only goes when both are final.\<close>

definition expendable :: "bns_tt \<Rightarrow> nat \<times> u64 \<Rightarrow> nat \<Rightarrow> bool" where
  "expendable tt k j \<longleftrightarrow> entry_tag (tt_table tt ! j) = snd k \<or> \<not> live tt j \<or> cluster_full tt (fst k) \<and>
     (tt_policy tt = EffortPriority \<and> final_result (tt_table tt ! j) \<longrightarrow> cluster_final tt (fst k))"

lemma slot_scan_place:
  fixes hash :: u64 and p :: int
  assumes ok: "tt_ok tt"
  defines "k \<equiv> tt_key tt hash p"
  shows "case slot_scan tt (fst k) (snd k) None [0, 1] of
      Matching j \<Rightarrow> writable tt k j \<and> entry_tag (tt_table tt ! j) = snd k \<and>
        tt_lookup tt hash p = Some (entry_view (tt_table tt ! j))
    | Stale j \<Rightarrow> writable tt k j \<and> expendable tt k j \<and> tt_lookup tt hash p = None
    | Victim j \<Rightarrow> writable tt k j \<and> expendable tt k j \<and> tt_lookup tt hash p = None"
proof -
  obtain c q where k: "k = (c, q)" by (rule prod.exhaust)
  have "cluster_ok tt c" using ok IndexOf_cluster [OF ok] k by (auto simp: tt_ok_def k_def tt_key_def)
  moreover have "GenerationOf e = tt_gen tt" if "entry_tag e = q" for e
    using that TagOf_live [of e tt "Mix hash p"] k by (simp add: k_def tt_key_def)
  ultimately have cl: "live tt (c + 1) \<Longrightarrow> live tt c \<and> entry_tag (tt_table tt ! (c + 1)) \<noteq> entry_tag (tt_table tt ! c)"
    and tag: "entry_tag (tt_table tt ! i) = q \<Longrightarrow> live tt i" for i
    by (auto simp: cluster_ok_def live_def)
  have look: "tt_lookup tt hash p = cluster_answer (tt_table tt) (c, q)"
    using tt_lookup_eq [OF ok] k by (simp add: k_def)
  show ?thesis
  proof (cases rule: slot_scan_cases [of tt c q])
    case (match j)
    then show ?thesis using cl tag by (auto simp: k writable_def look cluster_answer_def)
  next
    case (stale j)
    moreover have "entry_tag (tt_table tt ! (c + 1)) \<noteq> q" using stale cl tag by blast
    ultimately show ?thesis by (auto simp: k writable_def expendable_def look cluster_answer_def)
  next
    case (victim j)
    then show ?thesis
      by (auto simp: k writable_def expendable_def look cluster_answer_def cluster_full_def cluster_final_def)
  qed
qed

text \<open>What a write to an expendable slot of the key does to the answers.\<close>

definition stored :: "bns_tt \<Rightarrow> nat \<times> u64 \<Rightarrow> child_view \<Rightarrow> bns_tt \<Rightarrow> bool" where
  "stored tt k v tt' \<longleftrightarrow> tt_ok tt' \<and> same_shape tt tt' \<and>
     (\<forall>hash p. tt_key tt hash p = k \<longrightarrow> tt_lookup tt' hash p = Some v) \<and>
     (\<forall>hash p. tt_key tt hash p \<noteq> k \<longrightarrow> tt_lookup tt' hash p = tt_lookup tt hash p \<or>
        tt_lookup tt' hash p = None \<and> fst (tt_key tt hash p) = fst k \<and> cluster_full tt (fst k) \<and>
        (tt_policy tt = EffortPriority \<longrightarrow>
           (\<forall>w. tt_lookup tt hash p = Some w \<and> (view_abn w = 0 \<or> view_obn w = 0) \<longrightarrow> cluster_final tt (fst k))))"

lemma write_slot_stored:
  assumes ok: "tt_ok tt" and w: "writable tt k j" "expendable tt k j" and k: "k = tt_key tt hash p"
    and t': "same_shape tt tt'" "tt_table tt' = (tt_table tt)[j := e]" "entry_tag e = snd k"
  shows "stored tt k (entry_view e) tt'"
proof -
  note t'' = t'(1,2) t'(3) [unfolded k]
  have "tt_lookup tt' h q = tt_lookup tt h q \<or> tt_lookup tt' h q = None \<and> fst (tt_key tt h q) = fst k \<and> cluster_full tt (fst k) \<and>
      (tt_policy tt = EffortPriority \<longrightarrow>
         (\<forall>w. tt_lookup tt h q = Some w \<and> (view_abn w = 0 \<or> view_obn w = 0) \<longrightarrow> cluster_final tt (fst k)))"
    if ne: "tt_key tt h q \<noteq> k" for h q
  proof (cases "tt_key tt h q = (fst k, entry_tag (tt_table tt ! j))")
    case True
    have tag: "snd (tt_key tt h q) = entry_tag (tt_table tt ! j)" using True by simp
    then have "live tt j" using TagOf_live [of "tt_table tt ! j" tt "Mix h q"] by (simp add: tt_key_def live_def)
    moreover have "entry_tag (tt_table tt ! j) \<noteq> snd k" using True ne by (metis prod.collapse)
    ultimately have full: "cluster_full tt (fst k)"
      "tt_policy tt = EffortPriority \<Longrightarrow> final_result (tt_table tt ! j) \<Longrightarrow> cluster_final tt (fst k)"
      using w(2) by (auto simp: expendable_def)
    have j: "j = fst k \<or> j = fst k + 1" using w(1) by (auto simp: writable_def)
    have "tt_lookup tt h q = cluster_answer (tt_table tt) (fst k, entry_tag (tt_table tt ! j))"
      using tt_lookup_eq [OF ok, of h q] True by simp
    also have "\<dots> = Some (entry_view (tt_table tt ! j)) \<or> \<dots> = Some (entry_view (tt_table tt ! (fst k)))
        \<and> entry_tag (tt_table tt ! (fst k)) = entry_tag (tt_table tt ! (fst k + 1))"
      using j by (auto simp: cluster_answer_def)
    finally have "tt_lookup tt h q = Some (entry_view (tt_table tt ! j))"
      using full(1) ok IndexOf_cluster [OF ok, of "Mix h q"] True
      by (auto simp: tt_ok_def cluster_ok_def cluster_full_def tt_key_def)
    moreover have "tt_lookup tt' h q = None"
      using write_slot_lookup [OF ok w(1) [unfolded k] t''] True ne by (simp add: k)
    ultimately show ?thesis
      using full True by (auto simp: entry_view_def final_result_def)
  next
    case False
    with write_slot_lookup [OF ok w(1) [unfolded k] t''] ne show ?thesis by (simp add: k)
  qed
  moreover have "tt_lookup tt' h q = Some (entry_view e)" if "tt_key tt h q = k" for h q
    using write_slot_lookup [OF ok w(1) [unfolded k] t''] that by (simp add: k)
  ultimately show ?thesis
    using write_slot_ok [OF ok w(1) [unfolded k] t''] t'(1) by (simp add: stored_def)
qed

text \<open>The store of a verdict as the solver performs it: find the slot, then write the numbers. A
  cached entry pointer comes from an earlier lookup of the same key.\<close>

definition tt_put :: "bns_tt \<Rightarrow> u64 \<Rightarrow> int \<Rightarrow> nat option \<Rightarrow> child_view \<Rightarrow> bns_tt" where
  "tt_put tt hash p cached v = (let (j, tt') = tt_Store tt hash p cached in set_numbers j v tt')"

definition cached_ok :: "bns_tt \<Rightarrow> u64 \<Rightarrow> int \<Rightarrow> nat option \<Rightarrow> bool" where
  "cached_ok tt hash p cached \<longleftrightarrow>
     (case cached of None \<Rightarrow> True | Some j \<Rightarrow> j = fst (tt_key tt hash p) \<or> j = fst (tt_key tt hash p) + 1)"

definition same_tables :: "bns_tt \<Rightarrow> bns_tt \<Rightarrow> bool" where
  "same_tables tt tt' \<longleftrightarrow> tt_table tt' = tt_table tt \<and> same_shape tt tt' \<and> tt_effort tt' = tt_effort tt"

lemma same_tables_eq:
  assumes "same_tables tt tt'"
  shows "tt_ok tt' = tt_ok tt" "tt_key tt' = tt_key tt" "tt_lookup tt' = tt_lookup tt" "writable tt' = writable tt"
    "expendable tt' = expendable tt" "slot_scan tt' = slot_scan tt" "IndexOf tt' = IndexOf tt" "TagOf tt' = TagOf tt"
proof -
  note s = assms [unfolded same_tables_def same_shape_def]
  have c: "cluster_ok tt' = cluster_ok tt" "live tt' = live tt"
    using s by (simp_all add: fun_eq_iff cluster_ok_def live_def)
  show "tt_ok tt' = tt_ok tt" using s c by (simp add: tt_ok_def)
  show i: "IndexOf tt' = IndexOf tt" "TagOf tt' = TagOf tt"
    using s by (simp_all add: fun_eq_iff IndexOf_def TagOf_def)
  show "tt_key tt' = tt_key tt" using i by (simp add: fun_eq_iff tt_key_def)
  have "probe_scan (tt'\<lparr>tt_probes := tt_probes tt' + 1\<rparr>) c q is = probe_scan (tt\<lparr>tt_probes := tt_probes tt + 1\<rparr>) c q is" for c q "is"
    using s by (induction "is") (simp_all add: Let_def)
  then show "tt_lookup tt' = tt_lookup tt"
    using s i by (simp add: fun_eq_iff tt_lookup_def tt_Probe_def Let_def IndexOf_def TagOf_def)
  show "writable tt' = writable tt" using s c by (simp add: fun_eq_iff writable_def)
  show "expendable tt' = expendable tt"
    using s c by (simp add: fun_eq_iff expendable_def cluster_full_def cluster_final_def)
  have "slot_scan tt' c q v is = slot_scan tt c q v is" for c q v "is"
    using s by (induction tt c q v "is" rule: slot_scan.induct) (simp_all add: Let_def victim_better_def split: option.splits)
  then show "slot_scan tt' = slot_scan tt" by (simp add: fun_eq_iff)
qed

lemma fill_slot_fields:
  "tt_table (fill_slot j q tt) = (tt_table tt)[j := \<lparr>entry_tag = q, entry_abn = 1, entry_obn = 1\<rparr>]"
  "same_shape tt (fill_slot j q tt)"
  by (simp_all add: fill_slot_def ResetEffort_def same_shape_def)

lemma evict_slot_fields:
  "tt_table (evict_slot j q tt) = (tt_table tt)[j := \<lparr>entry_tag = q, entry_abn = 1, entry_obn = 1\<rparr>]"
  "same_shape tt (evict_slot j q tt)"
  by (simp_all add: evict_slot_def fill_slot_def ResetEffort_def same_shape_def)

lemma set_numbers_fields:
  "tt_table (set_numbers j v tt) = (tt_table tt)[j := (tt_table tt ! j)\<lparr>entry_abn := view_abn v, entry_obn := view_obn v\<rparr>]"
  "same_shape tt (set_numbers j v tt)"
  by (simp_all add: set_numbers_def same_shape_def)

lemma same_shape_trans: "same_shape tt tt' \<Longrightarrow> same_shape tt' tt'' \<Longrightarrow> same_shape tt tt''"
  by (simp add: same_shape_def)

lemma counters_same_tables [simp]:
  "same_tables tt (tt\<lparr>tt_probes := n\<rparr>)" "same_tables tt (tt\<lparr>tt_hits := n\<rparr>)"
  "same_tables tt (tt\<lparr>tt_stores := n\<rparr>)" "same_tables tt (tt\<lparr>tt_evictions := n\<rparr>)"
  by (simp_all add: same_tables_def same_shape_def)

lemma writable_less: "tt_ok tt \<Longrightarrow> writable tt (tt_key tt hash p) j \<Longrightarrow> j < length (tt_table tt)"
  using IndexOf_cluster [of tt "Mix hash p"] by (auto simp: writable_def tt_key_def)

lemma tt_Store_slot:
  assumes ok: "tt_ok tt" and cached: "cached_ok tt hash p cached"
  defines "k \<equiv> tt_key tt hash p"
  shows "\<exists>j tt'. tt_Store tt hash p cached = (j, tt') \<and> writable tt k j \<and> expendable tt k j \<and>
     same_shape tt tt' \<and> (tt_table tt' = tt_table tt \<and> entry_tag (tt_table tt ! j) = snd k \<or>
       tt_table tt' = (tt_table tt)[j := \<lparr>entry_tag = snd k, entry_abn = 1, entry_obn = 1\<rparr>])"
proof -
  define tt1 where "tt1 = tt\<lparr>tt_stores := tt_stores tt + 1\<rparr>"
  have same: "same_tables tt tt1" by (simp add: tt1_def)
  note eq = same_tables_eq [OF same]
  have tab: "tt_table tt1 = tt_table tt" "same_shape tt tt1" using same by (simp_all add: same_tables_def)
  define slot where "slot = (case cached of Some j \<Rightarrow> if entry_tag (tt_table tt ! j) = snd k then Matching j
        else slot_scan tt (fst k) (snd k) None [0, 1] | None \<Rightarrow> slot_scan tt (fst k) (snd k) None [0, 1])"
  have store: "tt_Store tt hash p cached = (case slot of Matching j \<Rightarrow> (j, tt1)
      | Stale j \<Rightarrow> (j, fill_slot j (snd k) tt1) | Victim j \<Rightarrow> (j, evict_slot j (snd k) tt1))"
    unfolding tt_Store_def Let_def tt1_def [symmetric] eq tab cluster_indices slot_def k_def tt_key_def fst_conv snd_conv ..
  note place = slot_scan_place [OF ok, of hash p, folded k_def]
  have cl: "cluster_ok tt (fst k)" using ok IndexOf_cluster [OF ok] by (simp add: tt_ok_def k_def tt_key_def)
  have live: "live tt j" if "entry_tag (tt_table tt ! j) = snd k" for j
    using TagOf_live [of "tt_table tt ! j" tt "Mix hash p"] that by (simp add: live_def k_def tt_key_def)
  have hit: "writable tt k j \<and> expendable tt k j" if "entry_tag (tt_table tt ! j) = snd k" "j = fst k \<or> j = fst k + 1" for j
    using that live cl unfolding writable_def expendable_def cluster_ok_def by auto
  have "case slot of Matching j \<Rightarrow> writable tt k j \<and> expendable tt k j \<and> entry_tag (tt_table tt ! j) = snd k
      | Stale j \<Rightarrow> writable tt k j \<and> expendable tt k j | Victim j \<Rightarrow> writable tt k j \<and> expendable tt k j"
    using place hit cached unfolding slot_def cached_ok_def k_def [symmetric]
    by (auto simp: expendable_def split: tt_slot.splits option.splits)
  then show ?thesis
    using tab fill_slot_fields [where tt = tt1] evict_slot_fields [where tt = tt1] same_shape_trans [OF tab(2)]
    unfolding store by (cases slot) auto
qed

lemma tt_put_stored:
  assumes ok: "tt_ok tt" and cached: "cached_ok tt hash p cached"
  shows "stored tt (tt_key tt hash p) v (tt_put tt hash p cached v)"
proof -
  obtain j tt' where st: "tt_Store tt hash p cached = (j, tt')" and w: "writable tt (tt_key tt hash p) j"
      "expendable tt (tt_key tt hash p) j" and shape: "same_shape tt tt'"
    and tab: "tt_table tt' = tt_table tt \<and> entry_tag (tt_table tt ! j) = snd (tt_key tt hash p) \<or>
       tt_table tt' = (tt_table tt)[j := \<lparr>entry_tag = snd (tt_key tt hash p), entry_abn = 1, entry_obn = 1\<rparr>]"
    using tt_Store_slot [OF assms] by blast
  define e where "e = (tt_table tt' ! j)\<lparr>entry_abn := view_abn v, entry_obn := view_obn v\<rparr>"
  have j: "j < length (tt_table tt)" by (rule writable_less [OF ok w(1)])
  have "tt_table (set_numbers j v tt') = (tt_table tt)[j := e]"
    using tab j by (auto simp: set_numbers_fields e_def)
  moreover have "entry_tag e = snd (tt_key tt hash p)" using tab j by (auto simp: e_def)
  ultimately have "stored tt (tt_key tt hash p) (entry_view e) (set_numbers j v tt')"
    using write_slot_stored [OF ok w refl] same_shape_trans [OF shape set_numbers_fields(2)] by blast
  moreover have "entry_view e = v" by (simp add: e_def entry_view_def)
  ultimately show ?thesis by (simp add: tt_put_def st)
qed

lemma tt_ProbeOrStore_result:
  fixes hash :: u64 and p :: int
  assumes ok: "tt_ok tt"
  defines "k \<equiv> tt_key tt hash p"
  shows "\<exists>j inserted tt'. tt_ProbeOrStore tt hash p = (j, inserted, tt') \<and> cached_ok tt' hash p (Some j) \<and>
    entry_tag (tt_table tt' ! j) = snd k \<and> inserted = (tt_lookup tt hash p = None) \<and>
    (if inserted then stored tt k unresolved_view tt'
     else same_tables tt tt' \<and> tt_lookup tt hash p = Some (entry_view (tt_table tt ! j)))"
proof -
  define tt1 where "tt1 = tt\<lparr>tt_probes := tt_probes tt + 1\<rparr>"
  have same: "same_tables tt tt1" by (simp add: tt1_def)
  note eq = same_tables_eq [OF same]
  have tab: "tt_table tt1 = tt_table tt" "tt_stores tt1 = tt_stores tt" "tt_hits tt1 = tt_hits tt" by (simp_all add: tt1_def)
  define slot where "slot = slot_scan tt (fst k) (snd k) None [0, 1]"
  have run: "tt_ProbeOrStore tt hash p = (case slot of Matching j \<Rightarrow> (j, False, tt1\<lparr>tt_hits := tt_hits tt1 + 1\<rparr>)
      | Stale j \<Rightarrow> (j, True, fill_slot j (snd k) (tt1\<lparr>tt_stores := tt_stores tt1 + 1\<rparr>))
      | Victim j \<Rightarrow> (j, True, evict_slot j (snd k) (tt1\<lparr>tt_stores := tt_stores tt1 + 1\<rparr>)))"
    unfolding tt_ProbeOrStore_def Let_def tt1_def [symmetric] eq cluster_indices slot_def k_def tt_key_def fst_conv snd_conv ..
  note place = slot_scan_place [OF ok, of hash p, folded k_def, folded slot_def]
  have new: "stored tt k unresolved_view tt' \<and> cached_ok tt' hash p (Some j) \<and> entry_tag (tt_table tt' ! j) = snd k"
    if "writable tt k j" "expendable tt k j" and t': "same_shape tt tt'"
      "tt_table tt' = (tt_table tt)[j := \<lparr>entry_tag = snd k, entry_abn = 1, entry_obn = 1\<rparr>]" for j tt'
    using write_slot_stored [OF ok that(1,2) k_def [THEN meta_eq_to_obj_eq] t'] that(1) writable_less [OF ok, of hash p j]
    by (auto simp: entry_view_def unresolved_view_def cached_ok_def tt_key_shape [OF t'(1)] writable_def t'(2) simp flip: k_def)
  have shape: "same_shape tt (fill_slot j q (tt1\<lparr>tt_stores := n\<rparr>))" "same_shape tt (evict_slot j q (tt1\<lparr>tt_stores := n\<rparr>))"
    "tt_table (fill_slot j q (tt1\<lparr>tt_stores := n\<rparr>)) = (tt_table tt)[j := \<lparr>entry_tag = q, entry_abn = 1, entry_obn = 1\<rparr>]"
    "tt_table (evict_slot j q (tt1\<lparr>tt_stores := n\<rparr>)) = (tt_table tt)[j := \<lparr>entry_tag = q, entry_abn = 1, entry_obn = 1\<rparr>]" for j q n
    by (simp_all add: evict_slot_def fill_slot_def ResetEffort_def same_shape_def tt1_def)
  show ?thesis
  proof (cases slot)
    case (Matching j)
    moreover have "same_tables tt (tt1\<lparr>tt_hits := tt_hits tt1 + 1\<rparr>)"
      using same by (simp add: same_tables_def same_shape_def)
    ultimately show ?thesis
      using place by (auto simp: run cached_ok_def writable_def tab same_tables_eq simp flip: k_def)
  next
    case (Stale j)
    with place new [OF _ _ shape(1,3)] show ?thesis unfolding run by simp blast
  next
    case (Victim j)
    with place new [OF _ _ shape(2,4)] show ?thesis unfolding run by simp blast
  qed
qed

subsection \<open>Starting a search\<close>

text \<open>What every operation keeps, before and after the first search.\<close>

definition tt_wf :: "bns_tt \<Rightarrow> bool" where
  "tt_wf tt \<longleftrightarrow> tt_table tt = [] \<or>
     (\<exists>k. 12 \<le> k \<and> k < 64 \<and> length (tt_table tt) = 2 ^ k \<and> length (tt_effort tt) = 2 ^ k \<and>
        tt_mask tt = mask k AND NOT 1) \<and> (\<forall>e\<in>set (tt_table tt). GenerationOf e \<le> tt_gen tt)"

lemma tt_ok_wf: "tt_ok tt \<Longrightarrow> tt_wf tt"
  by (auto simp: tt_ok_def tt_wf_def)

lemma new_tt_wf: "tt_wf new_tt"
  by (simp add: tt_wf_def new_tt_def)

lemma grow_size_power: "\<exists>k\<ge>l. grow_size want (2 ^ l) = 2 ^ k \<and> (2 ^ k \<le> want \<or> k = l)"
proof (induction want "2 ^ l :: nat" arbitrary: l rule: grow_size.induct)
  case (1 want)
  show ?case
  proof (cases "2 ^ l * 2 \<le> want")
    case True
    have "(2::nat) ^ l * 2 = 2 ^ Suc l" by simp
    with 1 [of "Suc l"] True obtain k where "k \<ge> Suc l" "grow_size want (2 ^ Suc l) = 2 ^ k" "2 ^ k \<le> want \<or> k = Suc l"
      by auto
    with True show ?thesis by (intro exI [of _ k]) (auto simp: grow_size.simps [of want "2 ^ l"] mult.commute)
  qed (simp add: grow_size.simps [of want "2 ^ l"])
qed

lemma grow_size_size:
  fixes bytes :: u64
  shows "\<exists>k. 12 \<le> k \<and> k < 64 \<and> grow_size (unat bytes div 20) (2 ^ 12) = 2 ^ k"
proof -
  obtain k where k: "12 \<le> k" "grow_size (unat bytes div 20) (2 ^ 12) = 2 ^ k" "2 ^ k \<le> unat bytes div 20 \<or> k = 12"
    using grow_size_power [of 12] by blast
  have "unat bytes < 2 ^ 64" using unsigned_less [of bytes, where 'a = nat] by simp
  then have "(2::nat) ^ k < 2 ^ 64 \<or> k = 12"
    using k(3) by (meson div_le_dividend order.strict_trans1)
  then have "k < 64" using power_less_imp_less_exp [of "2 :: nat" k 64] by fastforce
  with k show ?thesis by blast
qed

lemma tt_Resize_wf: "tt_wf tt \<Longrightarrow> tt_wf (tt_Resize mb tt) \<and> tt_table (tt_Resize mb tt) \<noteq> []"
proof -
  assume wf: "tt_wf tt"
  obtain k where k: "12 \<le> k" "k < 64" "grow_size (unat (push_bit 20 mb) div 20) (2 ^ 12) = 2 ^ k"
    using grow_size_size by blast
  have m: "(of_nat (2 ^ k) - 1 :: u64) AND NOT (of_nat (kClusterSize - 1)) = mask k AND NOT 1"
    by (simp add: mask_eq_exp_minus_1 kClusterSize_def)
  have n: "(2::nat) ^ k \<noteq> 0" by simp
  show ?thesis
  proof (cases "length (tt_table tt) = 2 ^ k")
    case True
    then have "tt_Resize mb tt = tt" using k by (simp add: tt_Resize_def)
    with True wf n show ?thesis by (metis length_0_conv)
  next
    case False
    have "GenerationOf empty_entry = 0" by (simp add: GenerationOf_def empty_entry_def)
    then show ?thesis
      using k m n False by (auto simp: tt_Resize_def tt_wf_def Let_def)
  qed
qed

lemma tt_NewSearch_ok:
  assumes "tt_wf tt"
  shows "tt_ok (tt_NewSearch tt) \<and> tt_lookup (tt_NewSearch tt) hash p = None"
proof -
  define tt1 where "tt1 = (if tt_table tt = [] then tt_Resize 4 tt else tt)"
  have wf: "tt_wf tt1" "tt_table tt1 \<noteq> []" using assms tt_Resize_wf by (auto simp: tt1_def)
  then obtain k where k: "12 \<le> k" "k < 64" "length (tt_table tt1) = 2 ^ k" "length (tt_effort tt1) = 2 ^ k"
      "tt_mask tt1 = mask k AND NOT 1" and gens: "\<forall>e\<in>set (tt_table tt1). GenerationOf e \<le> tt_gen tt1"
    by (auto simp: tt_wf_def)
  define tt2 where "tt2 = (if tt_gen tt1 + 1 = 0
      then tt1\<lparr>tt_table := replicate (length (tt_table tt1)) empty_entry, tt_gen := 1\<rparr> else tt1\<lparr>tt_gen := tt_gen tt1 + 1\<rparr>)"
  have run: "tt_NewSearch tt = tt2\<lparr>tt_probes := 0, tt_hits := 0, tt_stores := 0, tt_evictions := 0\<rparr>"
    unfolding tt_NewSearch_def Let_def tt1_def [symmetric] by (simp add: tt2_def)
  have same: "same_tables tt2 (tt_NewSearch tt)" by (simp add: run same_tables_def same_shape_def)
  have fields: "length (tt_table tt2) = 2 ^ k" "length (tt_effort tt2) = 2 ^ k" "tt_mask tt2 = mask k AND NOT 1" "tt_gen tt2 \<noteq> 0"
    using k by (auto simp: tt2_def)
  have zero: "GenerationOf empty_entry = 0" by (simp add: GenerationOf_def empty_entry_def)
  have less: "GenerationOf e < tt_gen tt2" if "e \<in> set (tt_table tt2)" for e
  proof (cases "tt_gen tt1 + 1 = 0")
    case True
    with that show ?thesis using k(3) by (simp add: tt2_def zero)
  next
    case False
    with that have "GenerationOf e \<le> tt_gen tt1" using gens by (simp add: tt2_def)
    moreover have "tt_gen tt1 < tt_gen tt1 + 1" using False unatSuc [of "tt_gen tt1"] by (simp add: word_less_nat_alt add.commute)
    ultimately show ?thesis using False by (simp add: tt2_def)
  qed
  have stale: "\<not> live tt2 j" if "j < 2 ^ k" for j
    using less [of "tt_table tt2 ! j"] that fields(1) by (auto simp: live_def)
  have ok: "tt_ok tt2"
    unfolding tt_ok_def using k fields less stale by (auto simp: cluster_ok_def intro: less_imp_le)
  have "tt_lookup tt2 hash p = None"
  proof -
    have "IndexOf tt2 (Mix hash p) + 1 < 2 ^ k" using IndexOf_cluster [OF ok] fields(1) by simp
    then have "\<not> live tt2 (IndexOf tt2 (Mix hash p))" "\<not> live tt2 (IndexOf tt2 (Mix hash p) + 1)"
      using stale by simp_all
    then show ?thesis
      using TagOf_live [of _ tt2 "Mix hash p"] unfolding tt_lookup_eq [OF ok]
      by (auto simp: cluster_answer_def tt_key_def live_def)
  qed
  with ok show ?thesis using same_tables_eq [OF same] by simp
qed

subsection \<open>The interface of a table that may forget\<close>

locale forgetful_map =
  fixes ok :: "'s \<Rightarrow> bool"
    and key_of :: "'s \<Rightarrow> 'k \<Rightarrow> 'q"
    and lookup :: "'s \<Rightarrow> 'k \<Rightarrow> 'v option"
    and puts :: "'s \<Rightarrow> 'k \<Rightarrow> 'v \<Rightarrow> 's \<Rightarrow> bool"
  assumes puts_ok: "ok s \<Longrightarrow> puts s k v s' \<Longrightarrow> ok s' \<and> key_of s' = key_of s"
    and puts_same: "ok s \<Longrightarrow> puts s k v s' \<Longrightarrow> key_of s k' = key_of s k \<Longrightarrow> lookup s' k' = Some v"
    and puts_other: "ok s \<Longrightarrow> puts s k v s' \<Longrightarrow> key_of s k' \<noteq> key_of s k \<Longrightarrow>
      lookup s' k' = lookup s k' \<or> lookup s' k' = None"
begin

text \<open>The answers stay within a map that records every write.\<close>

lemma within_put:
  assumes "ok s" "puts s k v s'" and "\<forall>k. lookup s k = None \<or> lookup s k = m (key_of s k)"
  shows "\<forall>k'. lookup s' k' = None \<or> lookup s' k' = (m(key_of s k \<mapsto> v)) (key_of s' k')"
  using assms puts_ok puts_same puts_other by (metis fun_upd_apply)

text \<open>Any property of the answers survives the write of a value that has it.\<close>

lemma holds_put:
  assumes "ok s" "puts s k v s'" and "\<forall>k v. lookup s k = Some v \<longrightarrow> P k v"
    and "\<forall>k'. key_of s k' = key_of s k \<longrightarrow> P k' v"
  shows "\<forall>k v. lookup s' k = Some v \<longrightarrow> P k v"
  using assms puts_same puts_other by (metis option.distinct(1) option.inject)

end

lemma stored_other:
  "stored tt k v tt' \<Longrightarrow> tt_key tt hash p \<noteq> k \<Longrightarrow> tt_lookup tt' hash p = tt_lookup tt hash p \<or> tt_lookup tt' hash p = None"
  unfolding stored_def by metis

lemma stored_same: "stored tt k v tt' \<Longrightarrow> tt_key tt hash p = k \<Longrightarrow> tt_lookup tt' hash p = Some v"
  unfolding stored_def by blast

lemma stored_ok: "stored tt k v tt' \<Longrightarrow> tt_ok tt' \<and> tt_key tt' = tt_key tt"
  by (simp add: stored_def tt_key_shape fun_eq_iff)

interpretation tt: forgetful_map tt_ok "\<lambda>tt k. tt_key tt (fst k) (snd k)" "\<lambda>tt k. tt_lookup tt (fst k) (snd k)"
  "\<lambda>tt k v tt'. stored tt (tt_key tt (fst k) (snd k)) v tt'"
  by unfold_locales (simp_all add: stored_ok stored_same stored_other)

text \<open>The calls of a search, with a map that records what was stored last under each key. A visit
  that has to insert the node records the unresolved numbers.\<close>

datatype tt_call = CallPut u64 int child_view | CallVisit u64 int | CallProbe u64 int

fun run_call :: "tt_call \<Rightarrow> bns_tt \<times> (nat \<times> u64 \<rightharpoonup> child_view) \<Rightarrow> bns_tt \<times> (nat \<times> u64 \<rightharpoonup> child_view)" where
  "run_call (CallPut hash p v) (tt, m) = (tt_put tt hash p None v, m(tt_key tt hash p \<mapsto> v))"
| "run_call (CallVisit hash p) (tt, m) = (case tt_ProbeOrStore tt hash p of (j, inserted, tt') \<Rightarrow>
     (tt', if inserted then m(tt_key tt hash p \<mapsto> unresolved_view) else m))"
| "run_call (CallProbe hash p) (tt, m) = (snd (tt_Probe tt hash p), m)"

definition within :: "bns_tt \<times> (nat \<times> u64 \<rightharpoonup> child_view) \<Rightarrow> bool" where
  "within s \<longleftrightarrow> tt_ok (fst s) \<and>
     (\<forall>k. tt_lookup (fst s) (fst k) (snd k) = None \<or>
          tt_lookup (fst s) (fst k) (snd k) = snd s (tt_key (fst s) (fst k) (snd k)))"

lemma within_stored:
  assumes "within (tt, m)" and "stored tt (tt_key tt hash p) v tt'"
  shows "within (tt', m(tt_key tt hash p \<mapsto> v))"
  using assms tt.within_put [of tt "(hash, p)" v tt' m] tt.puts_ok [of tt "(hash, p)" v tt']
  by (simp add: within_def)

lemma within_same: "within (tt, m) \<Longrightarrow> same_tables tt tt' \<Longrightarrow> within (tt', m)"
  by (simp add: within_def same_tables_eq)

lemma tt_Probe_same: "same_tables tt (snd (tt_Probe tt hash p))"
  by (simp add: tt_Probe_def Let_def same_tables_def same_shape_def)

lemma run_call_within: "within s \<Longrightarrow> within (run_call c s)"
proof -
  assume s: "within s"
  obtain tt m where st: "s = (tt, m)" by (rule prod.exhaust)
  have ok: "tt_ok tt" using s by (simp add: st within_def)
  show ?thesis
  proof (cases c)
    case (CallPut hash p v)
    have "stored tt (tt_key tt hash p) v (tt_put tt hash p None v)"
      by (rule tt_put_stored [OF ok]) (simp add: cached_ok_def)
    with s show ?thesis by (simp add: st CallPut within_stored)
  next
    case (CallVisit hash p)
    obtain j inserted tt' where "tt_ProbeOrStore tt hash p = (j, inserted, tt')"
      "if inserted then stored tt (tt_key tt hash p) unresolved_view tt'
       else same_tables tt tt' \<and> tt_lookup tt hash p = Some (entry_view (tt_table tt ! j))"
      using tt_ProbeOrStore_result [OF ok, of hash p] by blast
    with s show ?thesis by (auto simp: st CallVisit within_stored within_same split: if_splits)
  next
    case (CallProbe hash p)
    with s show ?thesis by (simp add: st within_same tt_Probe_same)
  qed
qed

lemma run_calls_within: "within s \<Longrightarrow> within (fold run_call calls s)"
  by (induction calls arbitrary: s) (simp_all add: run_call_within)

text \<open>C8: Since the start of a search, whatever was stored, visited and probed, the transposition
  table answers a key either not at all or with what was stored last under it, never with the value
  of another key or of an earlier search; a store is always readable afterwards, costs another key
  its answer only in a full cluster, and with the effort policy gives up a final result only when
  the whole cluster is final.\<close>

theorem tt_implements_map:
  assumes "tt_wf old" and "fold run_call calls (tt_NewSearch old, Map.empty) = (tt, m)"
  shows "tt_ok tt \<and>
    (\<forall>hash p. tt_lookup tt hash p = None \<or> tt_lookup tt hash p = m (tt_key tt hash p)) \<and>
    (\<forall>hash p cached v. cached_ok tt hash p cached \<longrightarrow>
       stored tt (tt_key tt hash p) v (tt_put tt hash p cached v))"
proof -
  have "within (tt_NewSearch old, Map.empty)"
    using tt_NewSearch_ok [OF assms(1)] by (simp add: within_def)
  from run_calls_within [OF this, of calls] have "within (tt, m)" by (simp add: assms(2))
  then show ?thesis by (auto simp: within_def tt_put_stored)
qed

theorem tt_implements_map_witness:
  "tt_lookup (tt_put (tt_NewSearch new_tt) 5 0 None MateView) 5 0 \<noteq> Some NoMateView \<and>
   tt_ok (tt_put (tt_NewSearch new_tt) 5 0 None MateView)"
proof -
  let ?tt = "tt_put (tt_NewSearch new_tt) 5 0 None MateView"
  have run: "fold run_call [CallPut 5 0 MateView] (tt_NewSearch new_tt, Map.empty)
      = (?tt, [tt_key (tt_NewSearch new_tt) 5 0 \<mapsto> MateView])" by simp
  have "bns_kInf \<noteq> 0" by (simp add: bns_kInf_def push_bit_eq_mult)
  then have ne: "MateView \<noteq> NoMateView" by (simp add: MateView_def NoMateView_def)
  show ?thesis
    using tt_implements_map [OF new_tt_wf run] ne by (metis fun_upd_apply option.distinct(1) option.inject)
qed

end
