(* ===== verification/BnsVerdicts.thy ===== *)
theory BnsVerdicts
  imports BnsTables Board "HOL-Library.Multiset"
begin

text \<open>
  The verdicts of the branch-number mate solver (mate/bns.h and mate/bns.cc): the finals table,
  which answers by board key and hand dominance, the list of route-dependent overrides, and the
  three operations the search reads and writes them with, \<open>LookupChild\<close>, \<open>RecordVerdict\<close> and
  \<open>DropOverridesAtReturn\<close>, together with the ordering of the checking moves. The hash keys of a
  position are arguments, as in the code.

  The lemmas show that a table of true verdicts only gives true answers and that recording a true
  verdict keeps it so.
\<close>

subsection \<open>The finals table\<close>

record final_entry =
  fin_key32 :: u32
  fin_key16 :: u16
  fin_gen :: u16
  fin_hand :: hand
  fin_proved :: u16

record bns_finals =
  finals_table :: "final_entry list"
  finals_mask :: u64
  finals_gen :: u16
  finals_hits :: u64

definition kFinalsClusterSize :: nat where
  "kFinalsClusterSize = 4"

definition empty_final :: final_entry where
  "empty_final = \<lparr>fin_key32 = 0, fin_key16 = 0, fin_gen = 0, fin_hand = 0, fin_proved = 0\<rparr>"

definition new_finals :: bns_finals where
  "new_finals = \<lparr>finals_table = [], finals_mask = 0, finals_gen = 0, finals_hits = 0\<rparr>"

definition finals_Resize :: "u64 \<Rightarrow> bns_finals \<Rightarrow> bns_finals" where
  "finals_Resize mb f = (
     let n = grow_size (unat (push_bit 20 mb) div 16) (2 ^ 12)
     in if n \<noteq> length (finals_table f)
        then f\<lparr>finals_table := replicate n empty_final,
               finals_mask := (of_nat n - 1) AND NOT (of_nat (kFinalsClusterSize - 1)), finals_gen := 0\<rparr>
        else f)"

definition finals_NewSearch :: "bns_finals \<Rightarrow> bns_finals" where
  "finals_NewSearch f = (
     if finals_table f = [] then f
     else let f = f\<lparr>finals_gen := finals_gen f + 1\<rparr>;
              f = (if finals_gen f = 0
                   then f\<lparr>finals_table := replicate (length (finals_table f)) empty_final, finals_gen := 1\<rparr> else f)
          in f\<lparr>finals_hits := 0\<rparr>)"

text \<open>The parts of a board key an entry keeps, and the slots the key may be in.\<close>

definition key_high :: "u64 \<Rightarrow> u32" where
  "key_high key = ucast (drop_bit 32 key)"

definition key_middle :: "u64 \<Rightarrow> u16" where
  "key_middle key = ucast (drop_bit 16 key)"

definition finals_slots :: "bns_finals \<Rightarrow> u64 \<Rightarrow> nat list" where
  "finals_slots f key = map (\<lambda>i. unat (key AND finals_mask f) + i) [0..<kFinalsClusterSize]"

definition entry_for :: "bns_finals \<Rightarrow> u64 \<Rightarrow> final_entry \<Rightarrow> bool" where
  "entry_for f key e \<longleftrightarrow> fin_gen e = finals_gen f \<and> fin_key32 e = key_high key \<and> fin_key16 e = key_middle key"

fun finals_scan :: "bns_finals \<Rightarrow> u64 \<Rightarrow> hand \<Rightarrow> nat list \<Rightarrow> int" where
  "finals_scan f key h [] = 0"
| "finals_scan f key h (j # js) = (
     let e = finals_table f ! j
     in if \<not> entry_for f key e then finals_scan f key h js
        else if fin_proved e \<noteq> 0
        then (if hand_Dominates h (fin_hand e) then 1 else finals_scan f key h js)
        else (if hand_Dominates (fin_hand e) h then -1 else finals_scan f key h js))"

text \<open>\<open>+1\<close> for a mate, \<open>-1\<close> for no mate, \<open>0\<close> for unknown.\<close>

definition finals_Probe :: "bns_finals \<Rightarrow> u64 \<Rightarrow> hand \<Rightarrow> int \<times> bns_finals" where
  "finals_Probe f key h = (
     if finals_table f = [] then (0, f)
     else let r = finals_scan f key h (finals_slots f key)
          in (r, if r = 0 then f else f\<lparr>finals_hits := finals_hits f + 1\<rparr>))"

text \<open>The scan of a store: the slot to write, or \<open>None\<close> when an entry already says as much.\<close>

fun finals_store_scan :: "bns_finals \<Rightarrow> u64 \<Rightarrow> hand \<Rightarrow> bool \<Rightarrow> nat \<Rightarrow> nat list \<Rightarrow> nat option" where
  "finals_store_scan f key h proved victim [] = Some victim"
| "finals_store_scan f key h proved victim (j # js) = (
     let e = finals_table f ! j
     in if fin_gen e \<noteq> finals_gen f then finals_store_scan f key h proved j js
        else if fin_key32 e = key_high key \<and> fin_key16 e = key_middle key \<and> (fin_proved e \<noteq> 0) = proved
        then (if (if proved then hand_Dominates (fin_hand e) h else hand_Dominates h (fin_hand e)) then Some j
              else if (if proved then hand_Dominates h (fin_hand e) else hand_Dominates (fin_hand e) h) then None
              else finals_store_scan f key h proved victim js)
        else finals_store_scan f key h proved victim js)"

definition finals_Store :: "bns_finals \<Rightarrow> u64 \<Rightarrow> hand \<Rightarrow> bool \<Rightarrow> bns_finals" where
  "finals_Store f key h proved = (
     if finals_table f = [] then f
     else case finals_store_scan f key h proved (hd (finals_slots f key)) (finals_slots f key) of
         None \<Rightarrow> f
       | Some j \<Rightarrow> f\<lparr>finals_table := (finals_table f)[j :=
           \<lparr>fin_key32 = key_high key, fin_key16 = key_middle key, fin_gen = finals_gen f, fin_hand = h,
            fin_proved = if proved then 1 else 0\<rparr>]\<rparr>)"

subsection \<open>Verdicts that depend on the route\<close>

datatype taint_kind = PathTaint | ResourceTaint

record path_override =
  over_hash :: u64
  over_view :: child_view
  over_anchor :: int
  over_kind :: taint_kind

record sourced_view =
  src_view :: child_view
  src_tainted :: bool
  src_anchor :: int
  src_kind :: taint_kind

text \<open>The part of \<open>MateBnsSolver\<close> the verdicts live in.\<close>

record bns_store =
  st_tt :: bns_tt
  st_finals :: bns_finals
  st_overrides :: "path_override list"
  st_override_version :: u64
  st_resource_taint :: bool
  st_use_dominance :: bool
  st_in_extraction :: bool
  st_dom_hits :: u64

definition untainted :: "child_view \<Rightarrow> sourced_view" where
  "untainted v = \<lparr>src_view = v, src_tainted = False, src_anchor = 0, src_kind = PathTaint\<rparr>"

definition LookupChild :: "bns_store \<Rightarrow> u64 \<Rightarrow> int \<Rightarrow> u64 \<Rightarrow> hand \<Rightarrow> sourced_view \<times> bns_store" where
  "LookupChild s hk p board_key attacker_hand = (
     case find (\<lambda>o'. over_hash o' = hk) (rev (st_overrides s)) of
       Some o' \<Rightarrow> (\<lparr>src_view = over_view o', src_tainted = True, src_anchor = over_anchor o', src_kind = over_kind o'\<rparr>, s)
     | None \<Rightarrow>
         let (found, tt) = tt_Probe (st_tt s) hk p;
             s = s\<lparr>st_tt := tt\<rparr>;
             v = (case found of Some j \<Rightarrow> entry_view (tt_table tt ! j) | None \<Rightarrow> unresolved_view)
         in if found \<noteq> None \<and> (view_abn v = 0 \<or> view_obn v = 0) then (untainted v, s)
            else if st_use_dominance s \<and> \<not> st_in_extraction s
            then let (dom, f) = finals_Probe (st_finals s) board_key attacker_hand;
                     s = s\<lparr>st_finals := f\<rparr>
                 in if 0 < dom then (untainted MateView, s\<lparr>st_dom_hits := st_dom_hits s + 1\<rparr>)
                    else if dom < 0 then (untainted NoMateView, s\<lparr>st_dom_hits := st_dom_hits s + 1\<rparr>)
                    else (untainted v, s)
            else (untainted v, s))"

definition RecordVerdict ::
  "bns_store \<Rightarrow> u64 \<Rightarrow> int \<Rightarrow> child_view \<Rightarrow> bool \<Rightarrow> int \<Rightarrow> taint_kind \<Rightarrow> u64 \<Rightarrow> hand \<Rightarrow> nat option \<Rightarrow> bns_store" where
  "RecordVerdict s hk p v tainted anchor kind board_key attacker_hand cached = (
     if tainted
     then let s = (if kind = ResourceTaint then s\<lparr>st_resource_taint := True\<rparr> else s)
          in s\<lparr>st_overrides := st_overrides s @
                 [\<lparr>over_hash = hk, over_view = v, over_anchor = anchor, over_kind = kind\<rparr>],
               st_override_version := st_override_version s + 1\<rparr>
     else let s = s\<lparr>st_tt := tt_put (st_tt s) hk p cached v\<rparr>
          in if st_use_dominance s \<and> board_key \<noteq> 0 \<and> (view_abn v = 0 \<or> view_obn v = 0)
             then s\<lparr>st_finals := finals_Store (st_finals s) board_key attacker_hand (view_abn v = 0)\<rparr>
             else s)"

definition DropOverridesAtReturn :: "int \<Rightarrow> bns_store \<Rightarrow> bns_store" where
  "DropOverridesAtReturn p s = (
     if st_overrides s = [] then s
     else let kept = filter (\<lambda>o'. \<not> p \<le> over_anchor o') (st_overrides s);
              erased = length (st_overrides s) - length kept;
              s = s\<lparr>st_overrides := kept\<rparr>
          in if erased \<noteq> 0 then s\<lparr>st_override_version := st_override_version s + 1\<rparr> else s)"

text \<open>The tiers of \<open>OrderCheckingMoves\<close>: captures, quiet board moves, drops; each pass over the
  list appends the moves of one tier in their order.\<close>

definition move_tier :: "shogi_board \<Rightarrow> move \<Rightarrow> nat" where
  "move_tier b m = (if move_is_drop m then 2 else if \<not> piece_IsNone (piece_on b (move_to m)) then 0 else 1)"

definition OrderCheckingMoves :: "shogi_board \<Rightarrow> move list \<Rightarrow> move list" where
  "OrderCheckingMoves b ms = concat (map (\<lambda>tier. filter (\<lambda>m. move_tier b m = tier) ms) [0..<3])"

subsection \<open>The clusters of the finals table\<close>

definition finals_wf :: "bns_finals \<Rightarrow> bool" where
  "finals_wf f \<longleftrightarrow> finals_table f = [] \<or>
     (\<exists>k. 12 \<le> k \<and> k < 64 \<and> length (finals_table f) = 2 ^ k \<and> finals_mask f = mask k AND NOT 3) \<and>
     (\<forall>e\<in>set (finals_table f). fin_gen e \<le> finals_gen f)"

lemma multiple_of_4:
  assumes "4 dvd i" "4 dvd n" "i < (n::nat)"
  shows "i + 3 < n"
  using assms by (auto elim!: dvdE)

lemma finals_index:
  fixes x :: u64
  assumes "2 \<le> k"
  shows "4 dvd unat (x AND (mask k AND NOT 3))" and "unat (x AND (mask k AND NOT 3)) + 3 < 2 ^ k"
proof -
  let ?y = "x AND (mask k AND NOT 3)"
  have m: "(3 :: u64) = mask 2" by (simp add: mask_eq_exp_minus_1)
  have "take_bit 2 ?y = 0" by (rule bit_word_eqI) (auto simp: bit_simps m)
  then have "take_bit 2 (unat ?y) = 0" by (metis unsigned_0 unsigned_take_bit_eq)
  then show dvd: "4 dvd unat ?y" by (simp add: take_bit_eq_mod mod_eq_0_iff_dvd)
  have "?y \<le> take_bit k x"
    by (simp add: take_bit_eq_mask word_and_le2 flip: and.assoc)
  then have "unat ?y \<le> unat (take_bit k x)" by (simp add: word_le_nat_alt)
  also have "\<dots> < 2 ^ k" by (simp add: unsigned_take_bit_eq)
  finally have less: "unat ?y < 2 ^ k" .
  have "(2::nat) ^ 2 dvd 2 ^ k" using assms by (rule le_imp_power_dvd)
  then have "(4::nat) dvd 2 ^ k" by simp
  from multiple_of_4 [OF dvd this less] show "unat ?y + 3 < 2 ^ k" .
qed

lemma finals_slots_eq: "set (finals_slots f key) = {unat (key AND finals_mask f)..unat (key AND finals_mask f) + 3}"
  by (auto simp: finals_slots_def kFinalsClusterSize_def image_iff)

lemma finals_slots_less:
  assumes "finals_wf f" "finals_table f \<noteq> []" "j \<in> set (finals_slots f key)"
  shows "j < length (finals_table f)"
proof -
  obtain k where k: "12 \<le> k" "length (finals_table f) = 2 ^ k" "finals_mask f = mask k AND NOT 3"
    using assms(1,2) by (auto simp: finals_wf_def)
  then show ?thesis using finals_index(2) [of k key] assms(3) by (simp add: finals_slots_eq)
qed

lemma finals_slots_shared:
  assumes wf: "finals_wf f" "finals_table f \<noteq> []" and j: "j \<in> set (finals_slots f key)" "j \<in> set (finals_slots f key')"
  shows "finals_slots f key' = finals_slots f key"
proof -
  obtain k where k: "12 \<le> k" "finals_mask f = mask k AND NOT 3" using wf by (auto simp: finals_wf_def)
  define a a' where "a = unat (key AND finals_mask f)" and "a' = unat (key' AND finals_mask f)"
  have "4 dvd a" "4 dvd a'" using finals_index(1) [of k] k by (simp_all add: a_def a'_def)
  moreover have "a \<le> j" "j \<le> a + 3" "a' \<le> j" "j \<le> a' + 3"
    using j by (simp_all add: finals_slots_eq a_def a'_def)
  ultimately have "a = a'" by presburger
  then show ?thesis by (simp add: finals_slots_def a_def a'_def)
qed

subsection \<open>Answers by dominance\<close>

text \<open>What the table may say, for a predicate \<open>T\<close> that tells the board keys and attacker hands with
  a forced mate: more pieces in the attacker's hand never lose a mate.\<close>

definition dominance_law :: "(u64 \<Rightarrow> hand \<Rightarrow> bool) \<Rightarrow> bool" where
  "dominance_law T \<longleftrightarrow> (\<forall>key h g. hand_ok h \<and> hand_ok g \<and> hand_Dominates g h \<and> T key h \<longrightarrow> T key g)"

definition finals_true :: "(u64 \<Rightarrow> hand \<Rightarrow> bool) \<Rightarrow> bns_finals \<Rightarrow> bool" where
  "finals_true T f \<longleftrightarrow> (finals_table f \<noteq> [] \<longrightarrow> (\<forall>key. \<forall>j\<in>set (finals_slots f key). entry_for f key (finals_table f ! j) \<longrightarrow>
     hand_ok (fin_hand (finals_table f ! j)) \<and>
     (T key (fin_hand (finals_table f ! j)) \<longleftrightarrow> fin_proved (finals_table f ! j) \<noteq> 0)))"

text \<open>Two board keys the table cannot tell apart.\<close>

definition same_final_key :: "bns_finals \<Rightarrow> u64 \<Rightarrow> u64 \<Rightarrow> bool" where
  "same_final_key f key key' \<longleftrightarrow> finals_slots f key' = finals_slots f key \<and>
     key_high key' = key_high key \<and> key_middle key' = key_middle key"

lemma finals_scan_true:
  assumes "dominance_law T" and "hand_ok h"
    and "\<forall>j\<in>set js. entry_for f key (finals_table f ! j) \<longrightarrow> hand_ok (fin_hand (finals_table f ! j)) \<and>
      (T key (fin_hand (finals_table f ! j)) \<longleftrightarrow> fin_proved (finals_table f ! j) \<noteq> 0)"
  shows "(0 < finals_scan f key h js \<longrightarrow> T key h) \<and> (finals_scan f key h js < 0 \<longrightarrow> \<not> T key h)"
  using assms(3)
proof (induction js)
  case (Cons j js)
  then show ?case using assms(1,2) unfolding dominance_law_def by (auto simp: Let_def)
qed simp

lemma finals_Probe_true:
  assumes "dominance_law T" "hand_ok h" "finals_true T f"
  shows "(0 < fst (finals_Probe f key h) \<longrightarrow> T key h) \<and> (fst (finals_Probe f key h) < 0 \<longrightarrow> \<not> T key h)"
proof (cases "finals_table f = []")
  case False
  then have "\<forall>j\<in>set (finals_slots f key). entry_for f key (finals_table f ! j) \<longrightarrow> hand_ok (fin_hand (finals_table f ! j)) \<and>
      (T key (fin_hand (finals_table f ! j)) \<longleftrightarrow> fin_proved (finals_table f ! j) \<noteq> 0)"
    using assms(3) by (auto simp: finals_true_def)
  from finals_scan_true [OF assms(1,2) this] False show ?thesis by (simp add: finals_Probe_def Let_def)
qed (simp add: finals_Probe_def)

text \<open>An entry that says at least as much as the verdict asked for.\<close>

definition subsumes :: "bns_finals \<Rightarrow> u64 \<Rightarrow> hand \<Rightarrow> bool \<Rightarrow> final_entry \<Rightarrow> bool" where
  "subsumes f key h proved e \<longleftrightarrow> entry_for f key e \<and> (fin_proved e \<noteq> 0) = proved \<and>
     (if proved then hand_Dominates h (fin_hand e) else hand_Dominates (fin_hand e) h)"

lemma finals_scan_nonzero:
  "j \<in> set js \<Longrightarrow> subsumes f key h proved (finals_table f ! j) \<Longrightarrow> finals_scan f key h js \<noteq> 0"
  by (induction js) (auto simp: Let_def subsumes_def split: if_splits)

lemma finals_store_scan_result:
  "case finals_store_scan f key h proved v js of
     None \<Rightarrow> \<exists>j\<in>set js. subsumes f key h proved (finals_table f ! j)
   | Some j \<Rightarrow> j = v \<or> j \<in> set js"
proof (induction js arbitrary: v)
  case (Cons j js)
  let ?e = "finals_table f ! j"
  define better where "better \<longleftrightarrow> (if proved then hand_Dominates (fin_hand ?e) h else hand_Dominates h (fin_hand ?e))"
  define worse where "worse \<longleftrightarrow> (if proved then hand_Dominates h (fin_hand ?e) else hand_Dominates (fin_hand ?e) h)"
  have step: "finals_store_scan f key h proved v (j # js) = (if fin_gen ?e \<noteq> finals_gen f then finals_store_scan f key h proved j js
      else if entry_for f key ?e \<and> (fin_proved ?e \<noteq> 0) = proved
      then (if better then Some j else if worse then None else finals_store_scan f key h proved v js)
      else finals_store_scan f key h proved v js)"
    unfolding finals_store_scan.simps Let_def better_def worse_def entry_for_def by argo
  have sub: "subsumes f key h proved ?e" if "entry_for f key ?e" "(fin_proved ?e \<noteq> 0) = proved" worse
    using that by (simp add: subsumes_def worse_def)
  consider "finals_store_scan f key h proved v (j # js) = finals_store_scan f key h proved j js"
    | "finals_store_scan f key h proved v (j # js) = finals_store_scan f key h proved v js"
    | "finals_store_scan f key h proved v (j # js) = Some j"
    | "finals_store_scan f key h proved v (j # js) = None" "subsumes f key h proved ?e"
    using step sub by metis
  then show ?case
  proof cases
    case 1
    show ?thesis unfolding 1 using Cons.IH [of j] by (auto split: option.splits)
  next
    case 2
    show ?thesis unfolding 2 using Cons.IH [of v] by (auto split: option.splits)
  next
    case 3
    show ?thesis unfolding 3 by simp
  next
    case 4
    show ?thesis unfolding 4(1) using 4(2) by simp
  qed
qed simp

lemma Dominates_self: "hand_Dominates h h"
  by (simp add: hand_Dominates_def)

lemma finals_Store_result:
  assumes wf: "finals_wf f" "finals_table f \<noteq> []"
  shows "finals_wf (finals_Store f key h proved) \<and> finals_table (finals_Store f key h proved) \<noteq> [] \<and>
    (\<exists>j\<in>set (finals_slots f key). subsumes f key h proved (finals_table (finals_Store f key h proved) ! j)) \<and>
    finals_mask (finals_Store f key h proved) = finals_mask f \<and> finals_gen (finals_Store f key h proved) = finals_gen f \<and>
    (finals_Store f key h proved = f \<or> (\<exists>j e. j \<in> set (finals_slots f key) \<and> entry_for f key e \<and> fin_hand e = h \<and>
       (fin_proved e \<noteq> 0) = proved \<and> finals_table (finals_Store f key h proved) = (finals_table f)[j := e]))"
proof -
  define js where "js = finals_slots f key"
  have hd: "hd js \<in> set js" by (simp add: js_def finals_slots_def kFinalsClusterSize_def upt_rec)
  note scan = finals_store_scan_result [where f = f and key = key and h = h and proved = proved and v = "hd js" and js = js]
  show ?thesis
  proof (cases "finals_store_scan f key h proved (hd js) js")
    case None
    with wf scan show ?thesis by (auto simp: finals_Store_def js_def)
  next
    case (Some j)
    then have j: "j \<in> set js" using scan hd by auto
    define e where "e = \<lparr>fin_key32 = key_high key, fin_key16 = key_middle key, fin_gen = finals_gen f, fin_hand = h,
        fin_proved = if proved then 1 else 0\<rparr>"
    have st: "finals_Store f key h proved = f\<lparr>finals_table := (finals_table f)[j := e]\<rparr>"
      using wf Some by (simp add: finals_Store_def e_def js_def)
    have e: "entry_for f key e" "fin_hand e = h" "(fin_proved e \<noteq> 0) = proved" "subsumes f key h proved e"
      by (simp_all add: e_def entry_for_def subsumes_def Dominates_self)
    have "j < length (finals_table f)" using finals_slots_less wf j by (simp add: js_def)
    moreover have "finals_wf (finals_Store f key h proved)"
      using wf set_update_subset_insert [of "finals_table f" j e] e(1) by (auto simp: st finals_wf_def entry_for_def)
    moreover from calculation(1) have "subsumes f key h proved (finals_table (finals_Store f key h proved) ! j)"
      using e(4) by (simp add: st)
    ultimately show ?thesis
      using e(1-3) j wf(2) unfolding js_def [symmetric]
      by (intro conjI disjI2 bexI [of _ j] exI [of _ j] exI [of _ e]) (simp_all add: st)
  qed
qed

lemma finals_Store_true:
  assumes wf: "finals_wf f" "finals_true T f" and h: "hand_ok h"
    and fact: "\<forall>key'. same_final_key f key key' \<longrightarrow> (T key' h \<longleftrightarrow> proved)"
  shows "finals_wf (finals_Store f key h proved) \<and> finals_true T (finals_Store f key h proved)"
proof (cases "finals_table f = []")
  case True
  with wf show ?thesis by (simp add: finals_Store_def)
next
  case False
  define f' where "f' = finals_Store f key h proved"
  note res = finals_Store_result [OF wf(1) False, of key h proved, folded f'_def]
  have slots: "finals_slots f' k = finals_slots f k" "entry_for f' k e = entry_for f k e" for k e
    using res by (simp_all add: finals_slots_def entry_for_def)
  have "finals_true T f'"
  proof (cases "f' = f")
    case True
    with wf(2) show ?thesis by simp
  next
    case new: False
    then obtain i e where i: "i \<in> set (finals_slots f key)" "entry_for f key e" "fin_hand e = h" "(fin_proved e \<noteq> 0) = proved"
        "finals_table f' = (finals_table f)[i := e]"
      using res by blast
    have il: "i < length (finals_table f)" by (rule finals_slots_less [OF wf(1) False i(1)])
    have "hand_ok (fin_hand (finals_table f' ! j)) \<and> (T k (fin_hand (finals_table f' ! j)) \<longleftrightarrow> fin_proved (finals_table f' ! j) \<noteq> 0)"
      if j: "j \<in> set (finals_slots f k)" "entry_for f k (finals_table f' ! j)" for k j
    proof (cases "j = i")
      case True
      then have e: "finals_table f' ! j = e" using i il by simp
      then have "same_final_key f key k"
        using finals_slots_shared [OF wf(1) False i(1), of k] j i(2) True by (simp add: same_final_key_def entry_for_def)
      with fact have "T k h \<longleftrightarrow> proved" by blast
      with h i(3,4) show ?thesis unfolding e by blast
    next
      case other: False
      with j wf(2) False i show ?thesis by (simp add: finals_true_def)
    qed
    with slots show ?thesis by (simp add: finals_true_def)
  qed
  with res show ?thesis by (simp flip: f'_def)
qed

lemma new_finals_wf: "finals_wf new_finals"
  by (simp add: finals_wf_def new_finals_def)

lemma finals_Resize_wf: "finals_wf f \<Longrightarrow> finals_wf (finals_Resize mb f)"
proof -
  assume wf: "finals_wf f"
  define want where "want = unat (push_bit 20 mb) div 16"
  obtain k where k: "12 \<le> k" "grow_size want (2 ^ 12) = 2 ^ k" "2 ^ k \<le> want \<or> k = 12"
    using grow_size_power [of 12] by blast
  have "unat (push_bit 20 mb) < 2 ^ 64" using unsigned_less [of "push_bit 20 mb", where 'a = nat] by simp
  then have "(2::nat) ^ k < 2 ^ 64 \<or> k = 12"
    using k(3) unfolding want_def by (meson div_le_dividend order.strict_trans1)
  then have k64: "k < 64" using power_less_imp_less_exp [of "2 :: nat" k 64] by fastforce
  have m: "(of_nat (2 ^ k) - 1 :: u64) AND NOT (of_nat (kFinalsClusterSize - 1)) = mask k AND NOT 3"
    by (simp add: mask_eq_exp_minus_1 kFinalsClusterSize_def)
  show ?thesis
    using wf k k64 m by (auto simp: finals_Resize_def finals_wf_def Let_def empty_final_def simp flip: want_def)
qed

lemma finals_NewSearch_true:
  assumes "finals_wf f"
  shows "finals_wf (finals_NewSearch f) \<and> finals_true T (finals_NewSearch f)"
proof (cases "finals_table f = []")
  case True
  then show ?thesis by (simp add: finals_NewSearch_def finals_wf_def finals_true_def)
next
  case False
  then obtain k where k: "12 \<le> k" "k < 64" "length (finals_table f) = 2 ^ k" "finals_mask f = mask k AND NOT 3"
    and gens: "\<forall>e\<in>set (finals_table f). fin_gen e \<le> finals_gen f"
    using assms by (auto simp: finals_wf_def)
  define f' where "f' = finals_NewSearch f"
  have f': "f' = (if finals_gen f + 1 = 0
      then f\<lparr>finals_table := replicate (length (finals_table f)) empty_final, finals_gen := 1, finals_hits := 0\<rparr>
      else f\<lparr>finals_gen := finals_gen f + 1, finals_hits := 0\<rparr>)"
    using False by (simp add: f'_def finals_NewSearch_def Let_def)
  have fields: "length (finals_table f') = 2 ^ k" "finals_mask f' = mask k AND NOT 3"
    using k by (auto simp: f')
  have less: "fin_gen e < finals_gen f'" if "e \<in> set (finals_table f')" for e
  proof (cases "finals_gen f + 1 = 0")
    case True
    with that show ?thesis using k(3) by (simp add: f' empty_final_def)
  next
    case False
    then have "finals_gen f < finals_gen f + 1" using unatSuc [of "finals_gen f"] by (simp add: word_less_nat_alt add.commute)
    with False that gens show ?thesis by (auto simp: f')
  qed
  have wf: "finals_wf f'" using k fields less by (auto simp: finals_wf_def intro: less_imp_le)
  have "finals_table f' \<noteq> []" using fields(1) by auto
  then have "finals_true T f'"
    using less finals_slots_less [OF wf] unfolding finals_true_def entry_for_def
    by (metis nth_mem order.strict_implies_not_eq)
  with wf show ?thesis by (simp flip: f'_def)
qed

subsection \<open>A store of true verdicts\<close>

definition view_true :: "(u64 \<Rightarrow> bool) \<Rightarrow> u64 \<Rightarrow> child_view \<Rightarrow> bool" where
  "view_true M hk v \<longleftrightarrow> (view_abn v = 0 \<longrightarrow> M hk) \<and> (view_obn v = 0 \<longrightarrow> \<not> M hk)"

definition store_true :: "(u64 \<Rightarrow> bool) \<Rightarrow> (u64 \<Rightarrow> hand \<Rightarrow> bool) \<Rightarrow> bns_store \<Rightarrow> bool" where
  "store_true M T s \<longleftrightarrow> tt_ok (st_tt s) \<and>
     (\<forall>k v. tt_lookup (st_tt s) (fst k) (snd k) = Some v \<longrightarrow> view_true M (fst k) v) \<and>
     finals_wf (st_finals s) \<and> finals_true T (st_finals s)"

lemma kInf_nonzero [simp]: "bns_kInf \<noteq> 0"
  by (simp add: bns_kInf_def push_bit_eq_mult)

lemma view_true_unresolved: "view_true M hk unresolved_view"
  by (simp add: view_true_def unresolved_view_def)

lemma finals_Probe_same: "finals_wf (snd (finals_Probe f key h)) = finals_wf f \<and> finals_true T (snd (finals_Probe f key h)) = finals_true T f"
  by (simp add: finals_Probe_def Let_def finals_wf_def finals_true_def finals_slots_def entry_for_def)

text \<open>\<open>LookupChild\<close> in terms of the two tables' answers.\<close>

lemma LookupChild_cases:
  obtains (override) o' where "find (\<lambda>o'. over_hash o' = hk) (rev (st_overrides s)) = Some o'"
      "LookupChild s hk p bkey h = (\<lparr>src_view = over_view o', src_tainted = True, src_anchor = over_anchor o', src_kind = over_kind o'\<rparr>, s)"
  | (table) v s' where "find (\<lambda>o'. over_hash o' = hk) (rev (st_overrides s)) = None"
      "LookupChild s hk p bkey h = (untainted v, s')"
      "same_tables (st_tt s) (st_tt s')"
      "st_finals s' = st_finals s \<or> st_finals s' = snd (finals_Probe (st_finals s) bkey h)"
      "v = (case tt_lookup (st_tt s) hk p of None \<Rightarrow> unresolved_view | Some v \<Rightarrow> v) \<or>
         (\<forall>w. tt_lookup (st_tt s) hk p = Some w \<longrightarrow> view_abn w \<noteq> 0 \<and> view_obn w \<noteq> 0) \<and>
         (0 < fst (finals_Probe (st_finals s) bkey h) \<and> v = MateView \<or>
          fst (finals_Probe (st_finals s) bkey h) < 0 \<and> v = NoMateView)"
proof (cases "find (\<lambda>o'. over_hash o' = hk) (rev (st_overrides s))")
  case (Some o')
  then show ?thesis by (intro override) (simp_all add: LookupChild_def)
next
  case None
  obtain found tt where pr: "tt_Probe (st_tt s) hk p = (found, tt)" by (rule prod.exhaust)
  obtain dom f where dom: "finals_Probe (st_finals s) bkey h = (dom, f)" by (rule prod.exhaust)
  have same: "same_tables (st_tt s) tt" using tt_Probe_same [of "st_tt s" hk p] pr by simp
  then have look: "tt_lookup (st_tt s) hk p = map_option (\<lambda>j. entry_view (tt_table tt ! j)) found"
    by (simp add: tt_lookup_def pr same_tables_def)
  define v where "v = (case found of Some j \<Rightarrow> entry_view (tt_table tt ! j) | None \<Rightarrow> unresolved_view)"
  have v: "v = (case tt_lookup (st_tt s) hk p of None \<Rightarrow> unresolved_view | Some v \<Rightarrow> v)"
    by (simp add: look v_def split: option.splits)
  have run: "LookupChild s hk p bkey h =
      (if found \<noteq> None \<and> (view_abn v = 0 \<or> view_obn v = 0) then (untainted v, s\<lparr>st_tt := tt\<rparr>)
       else if st_use_dominance s \<and> \<not> st_in_extraction s
       then (if 0 < dom then (untainted MateView, s\<lparr>st_tt := tt, st_finals := f, st_dom_hits := st_dom_hits s + 1\<rparr>)
             else if dom < 0 then (untainted NoMateView, s\<lparr>st_tt := tt, st_finals := f, st_dom_hits := st_dom_hits s + 1\<rparr>)
             else (untainted v, s\<lparr>st_tt := tt, st_finals := f\<rparr>))
       else (untainted v, s\<lparr>st_tt := tt\<rparr>))"
    using None by (simp add: LookupChild_def pr dom v_def Let_def)
  have open': "\<forall>w. tt_lookup (st_tt s) hk p = Some w \<longrightarrow> view_abn w \<noteq> 0 \<and> view_obn w \<noteq> 0"
    if "\<not> (found \<noteq> None \<and> (view_abn v = 0 \<or> view_obn v = 0))"
    using that by (auto simp: look v_def split: option.splits)
  have "\<exists>v' s'. LookupChild s hk p bkey h = (untainted v', s') \<and> st_tt s' = tt \<and>
      (st_finals s' = st_finals s \<or> st_finals s' = f) \<and>
      (v' = v \<or> \<not> (found \<noteq> None \<and> (view_abn v = 0 \<or> view_obn v = 0)) \<and>
        (0 < dom \<and> v' = MateView \<or> dom < 0 \<and> v' = NoMateView))"
  proof (cases "found \<noteq> None \<and> (view_abn v = 0 \<or> view_obn v = 0)")
    case True
    then have "LookupChild s hk p bkey h = (untainted v, s\<lparr>st_tt := tt\<rparr>)" unfolding run by (rule if_P)
    then show ?thesis by (intro exI [of _ v] exI [of _ "s\<lparr>st_tt := tt\<rparr>"]) simp
  next
    case False
    note run = run [unfolded if_not_P [OF False]]
    consider "LookupChild s hk p bkey h = (untainted v, s\<lparr>st_tt := tt\<rparr>)"
      | "LookupChild s hk p bkey h = (untainted v, s\<lparr>st_tt := tt, st_finals := f\<rparr>)"
      | "0 < dom" "LookupChild s hk p bkey h = (untainted MateView, s\<lparr>st_tt := tt, st_finals := f, st_dom_hits := st_dom_hits s + 1\<rparr>)"
      | "dom < 0" "LookupChild s hk p bkey h = (untainted NoMateView, s\<lparr>st_tt := tt, st_finals := f, st_dom_hits := st_dom_hits s + 1\<rparr>)"
      using run by metis
    then show ?thesis
    proof cases
      case 1
      then show ?thesis by (intro exI [of _ v] exI [of _ "s\<lparr>st_tt := tt\<rparr>"]) simp
    next
      case 2
      then show ?thesis by (intro exI [of _ v] exI [of _ "s\<lparr>st_tt := tt, st_finals := f\<rparr>"]) simp
    next
      case 3
      then show ?thesis using False
        by (intro exI [of _ MateView] exI [of _ "s\<lparr>st_tt := tt, st_finals := f, st_dom_hits := st_dom_hits s + 1\<rparr>"]) simp
    next
      case 4
      then show ?thesis using False
        by (intro exI [of _ NoMateView] exI [of _ "s\<lparr>st_tt := tt, st_finals := f, st_dom_hits := st_dom_hits s + 1\<rparr>"]) simp
    qed
  qed
  then obtain v' s' where lk: "LookupChild s hk p bkey h = (untainted v', s')" "st_tt s' = tt"
      "st_finals s' = st_finals s \<or> st_finals s' = f"
      "v' = v \<or> \<not> (found \<noteq> None \<and> (view_abn v = 0 \<or> view_obn v = 0)) \<and>
        (0 < dom \<and> v' = MateView \<or> dom < 0 \<and> v' = NoMateView)" by blast
  show ?thesis
  proof (rule table [OF None lk(1)])
    show "same_tables (st_tt s) (st_tt s')" using same lk(2) by simp
    show "st_finals s' = st_finals s \<or> st_finals s' = snd (finals_Probe (st_finals s) bkey h)"
      using lk(3) by (simp add: dom)
    show "v' = (case tt_lookup (st_tt s) hk p of None \<Rightarrow> unresolved_view | Some v \<Rightarrow> v) \<or>
         (\<forall>w. tt_lookup (st_tt s) hk p = Some w \<longrightarrow> view_abn w \<noteq> 0 \<and> view_obn w \<noteq> 0) \<and>
         (0 < fst (finals_Probe (st_finals s) bkey h) \<and> v' = MateView \<or>
          fst (finals_Probe (st_finals s) bkey h) < 0 \<and> v' = NoMateView)"
      unfolding v [symmetric] dom fst_conv using lk(4) open' by blast
  qed
qed

lemma search_start_true:
  assumes "tt_wf tt" and "finals_wf f"
  shows "store_true M T (s\<lparr>st_tt := tt_NewSearch tt, st_finals := finals_NewSearch f\<rparr>)"
  using tt_NewSearch_ok [OF assms(1)] finals_NewSearch_true [OF assms(2), of T] by (simp add: store_true_def)

lemma LookupChild_true:
  assumes law: "dominance_law T" and inv: "store_true M T s" and h: "hand_ok h" "M hk \<longleftrightarrow> T bkey h"
  shows "store_true M T (snd (LookupChild s hk p bkey h)) \<and>
    (if src_tainted (fst (LookupChild s hk p bkey h))
     then \<exists>o'\<in>set (st_overrides s). over_hash o' = hk \<and> src_view (fst (LookupChild s hk p bkey h)) = over_view o'
     else view_true M hk (src_view (fst (LookupChild s hk p bkey h))))"
proof (cases rule: LookupChild_cases [of hk s p bkey h])
  case (override o')
  then have "o' \<in> set (st_overrides s)" "over_hash o' = hk"
    by (auto simp: find_Some_iff rev_nth)
  with override inv show ?thesis by auto
next
  case (table v s')
  have "store_true M T s'"
    using inv same_tables_eq [OF table(3)] table(4) finals_Probe_same [of "st_finals s" bkey h T]
    by (auto simp: store_true_def)
  moreover have "view_true M hk v"
    using table(5)
  proof
    assume "v = (case tt_lookup (st_tt s) hk p of None \<Rightarrow> unresolved_view | Some v \<Rightarrow> v)"
    then show ?thesis using inv view_true_unresolved by (auto simp: store_true_def split: option.splits)
  next
    assume "(\<forall>w. tt_lookup (st_tt s) hk p = Some w \<longrightarrow> view_abn w \<noteq> 0 \<and> view_obn w \<noteq> 0) \<and>
         (0 < fst (finals_Probe (st_finals s) bkey h) \<and> v = MateView \<or>
          fst (finals_Probe (st_finals s) bkey h) < 0 \<and> v = NoMateView)"
    then show ?thesis
      using finals_Probe_true [OF law h(1), of "st_finals s" bkey] inv h(2)
      by (auto simp: store_true_def view_true_def MateView_def NoMateView_def)
  qed
  ultimately show ?thesis by (simp add: table(2) untainted_def)
qed

text \<open>A verdict that is true of every position the tables cannot tell apart from the one at hand.\<close>

definition recordable :: "(u64 \<Rightarrow> bool) \<Rightarrow> (u64 \<Rightarrow> hand \<Rightarrow> bool) \<Rightarrow> bns_store \<Rightarrow> u64 \<Rightarrow> int \<Rightarrow> child_view \<Rightarrow> u64 \<Rightarrow> hand \<Rightarrow> bool" where
  "recordable M T s hk p v bkey h \<longleftrightarrow>
     (\<forall>hk' p'. tt_key (st_tt s) hk' p' = tt_key (st_tt s) hk p \<longrightarrow> view_true M hk' v) \<and>
     (st_use_dominance s \<and> (view_abn v = 0 \<or> view_obn v = 0) \<longrightarrow>
        (\<forall>key'. same_final_key (st_finals s) bkey key' \<longrightarrow> (T key' h \<longleftrightarrow> view_abn v = 0)))"

lemma RecordVerdict_tainted:
  "RecordVerdict s hk p v True anchor kind bkey h cached = s\<lparr>
     st_resource_taint := st_resource_taint s \<or> kind = ResourceTaint,
     st_overrides := st_overrides s @ [\<lparr>over_hash = hk, over_view = v, over_anchor = anchor, over_kind = kind\<rparr>],
     st_override_version := st_override_version s + 1\<rparr>"
  by (simp add: RecordVerdict_def)

lemma RecordVerdict_untainted:
  fixes anchor :: int and kind :: taint_kind
  assumes inv: "store_true M T s" and h: "hand_ok h" and cached: "cached_ok (st_tt s) hk p cached"
    and v: "recordable M T s hk p v bkey h"
  defines "s' \<equiv> RecordVerdict s hk p v False anchor kind bkey h cached"
  shows "store_true M T s' \<and> tt_lookup (st_tt s') hk p = Some v \<and> st_overrides s' = st_overrides s"
proof -
  define tt' where "tt' = tt_put (st_tt s) hk p cached v"
  have ok: "tt_ok (st_tt s)" using inv by (simp add: store_true_def)
  have st: "stored (st_tt s) (tt_key (st_tt s) hk p) v tt'"
    unfolding tt'_def by (rule tt_put_stored [OF ok cached])
  have "\<forall>k v. tt_lookup tt' (fst k) (snd k) = Some v \<longrightarrow> view_true M (fst k) v"
    by (rule tt.holds_put [where s = "st_tt s" and k = "(hk, p)" and v = v])
      (use ok st inv v in \<open>simp_all add: store_true_def recordable_def\<close>)
  moreover have "tt_ok tt'" "tt_lookup tt' hk p = Some v" using stored_ok [OF st] stored_same [OF st refl] by simp_all
  moreover have "finals_wf (finals_Store (st_finals s) bkey h (view_abn v = 0)) \<and>
      finals_true T (finals_Store (st_finals s) bkey h (view_abn v = 0))"
    if "st_use_dominance s" "view_abn v = 0 \<or> view_obn v = 0"
    by (rule finals_Store_true) (use inv h v that in \<open>simp_all add: store_true_def recordable_def\<close>)
  ultimately show ?thesis
    using inv by (auto simp: s'_def RecordVerdict_def store_true_def Let_def simp flip: tt'_def)
qed

lemma OrderCheckingMoves_perm: "mset (OrderCheckingMoves b ms) = mset ms"
proof -
  have "mset ms = mset (filter (\<lambda>m. move_tier b m = 0) ms) + mset (filter (\<lambda>m. move_tier b m = 1) ms)
      + mset (filter (\<lambda>m. move_tier b m = 2) ms)"
    by (induction ms) (auto simp: move_tier_def)
  from this [symmetric] show ?thesis by (simp add: OrderCheckingMoves_def upt_rec numeral_eq_Suc add.assoc)
qed

text \<open>C7: In a store whose verdicts are true, a lookup of a child gives a true untainted answer or
  the view of a route-dependent override of that position. Recording a true verdict, or any
  route-dependent one, keeps the store true. A route-dependent verdict is what the next lookup
  reads; so is an untainted one when it is final (one of its numbers is zero) and no override of
  that position is alive. Unwinding keeps exactly the overrides whose anchor ply is below the ply
  returned to, in their order.\<close>

theorem verdicts_sound:
  assumes "dominance_law T" and "store_true M T s" and "hand_ok h" and "M hk \<longleftrightarrow> T bkey h"
  shows "(case LookupChild s hk p bkey h of (sv, s') \<Rightarrow> store_true M T s' \<and>
      (if src_tainted sv then \<exists>o'\<in>set (st_overrides s). over_hash o' = hk \<and> src_view sv = over_view o'
       else view_true M hk (src_view sv))) \<and>
    (\<forall>v tainted anchor kind cached. cached_ok (st_tt s) hk p cached \<and> (tainted \<or> recordable M T s hk p v bkey h) \<longrightarrow>
      (let s' = RecordVerdict s hk p v tainted anchor kind bkey h cached; sv = fst (LookupChild s' hk p bkey h)
       in store_true M T s' \<and>
          (tainted \<longrightarrow> sv = \<lparr>src_view = v, src_tainted = True, src_anchor = anchor, src_kind = kind\<rparr>) \<and>
          (\<not> tainted \<and> (view_abn v = 0 \<or> view_obn v = 0) \<and> (\<forall>o'\<in>set (st_overrides s). over_hash o' \<noteq> hk) \<longrightarrow>
             sv = untainted v))) \<and>
    store_true M T (DropOverridesAtReturn q s) \<and>
    st_overrides (DropOverridesAtReturn q s) = filter (\<lambda>o'. over_anchor o' < q) (st_overrides s)"
proof -
  have read: "fst (LookupChild (RecordVerdict s hk p v False anchor kind bkey h cached) hk p bkey h) = untainted v"
    if c: "cached_ok (st_tt s) hk p cached" "recordable M T s hk p v bkey h"
      and v: "view_abn v = 0 \<or> view_obn v = 0" "\<forall>o'\<in>set (st_overrides s). over_hash o' \<noteq> hk" for v anchor kind cached
  proof -
    note rec = RecordVerdict_untainted [OF assms(2,3) c, of anchor kind]
    show ?thesis
    proof (cases rule: LookupChild_cases [of hk "RecordVerdict s hk p v False anchor kind bkey h cached" p bkey h])
      case (override o')
      with rec v(2) show ?thesis by (auto simp: find_Some_iff rev_nth)
    next
      case (table w s')
      with rec v(1) show ?thesis by auto
    qed
  qed
  have taint: "store_true M T (RecordVerdict s hk p v True anchor kind bkey h cached) \<and>
      fst (LookupChild (RecordVerdict s hk p v True anchor kind bkey h cached) hk p bkey h) =
        \<lparr>src_view = v, src_tainted = True, src_anchor = anchor, src_kind = kind\<rparr>" for v anchor kind cached
    using assms(2) by (simp add: RecordVerdict_tainted LookupChild_def store_true_def)
  have drop: "store_true M T (DropOverridesAtReturn q s) \<and>
      st_overrides (DropOverridesAtReturn q s) = filter (\<lambda>o'. over_anchor o' < q) (st_overrides s)"
    using assms(2) by (simp add: DropOverridesAtReturn_def Let_def store_true_def not_le)
  have recorded: "store_true M T (RecordVerdict s hk p v tainted anchor kind bkey h cached)"
    if "cached_ok (st_tt s) hk p cached" "tainted \<or> recordable M T s hk p v bkey h" for v tainted anchor kind cached
    using that taint [of v anchor kind cached] RecordVerdict_untainted [OF assms(2,3) that(1), of v bkey anchor kind]
    by (cases tainted) simp_all
  have written: "let s' = RecordVerdict s hk p v tainted anchor kind bkey h cached; sv = fst (LookupChild s' hk p bkey h)
       in store_true M T s' \<and>
          (tainted \<longrightarrow> sv = \<lparr>src_view = v, src_tainted = True, src_anchor = anchor, src_kind = kind\<rparr>) \<and>
          (\<not> tainted \<and> (view_abn v = 0 \<or> view_obn v = 0) \<and> (\<forall>o'\<in>set (st_overrides s). over_hash o' \<noteq> hk) \<longrightarrow>
             sv = untainted v)"
    if c: "cached_ok (st_tt s) hk p cached \<and> (tainted \<or> recordable M T s hk p v bkey h)" for v tainted anchor kind cached
  proof (cases tainted)
    case True
    then show ?thesis using taint [of v anchor kind cached] by (simp add: Let_def)
  next
    case False
    then show ?thesis using c read [of cached v anchor kind] recorded [of cached tainted v anchor kind] by (simp add: Let_def)
  qed
  show ?thesis
    unfolding case_prod_unfold using LookupChild_true [OF assms, of p] written drop by blast
qed

definition pawn_mates :: "u64 \<Rightarrow> hand \<Rightarrow> bool" where
  "pawn_mates key h \<longleftrightarrow> 1 \<le> hand_Count h 1"

definition sample_store :: bns_store where
  "sample_store = \<lparr>st_tt = tt_NewSearch new_tt, st_finals = finals_NewSearch (finals_Resize 1 new_finals), st_overrides = [],
     st_override_version = 0, st_resource_taint = False, st_use_dominance = True, st_in_extraction = False, st_dom_hits = 0\<rparr>"

theorem verdicts_sound_witness:
  "fst (LookupChild (RecordVerdict sample_store 5 0 MateView False 0 PathTaint 77 (hand_Add hand_Empty 1) None) 5 0 77
      (hand_Add hand_Empty 1)) = untainted MateView"
proof -
  have p: "pt_IsHandPiece 1" "hand_Count hand_Empty 1 < hand_max 1" by (simp_all add: pt_IsHandPiece_def hand_max_def)
  note one = hand_Add_correct [OF hand_ok_Empty p]
  have pawn: "pawn_mates key (hand_Add hand_Empty 1)" for key using one(2) [OF p(1)] by (simp add: pawn_mates_def)
  have law: "dominance_law pawn_mates"
    using hand_Dominates_iff p(1) by (auto simp: dominance_law_def pawn_mates_def intro: order.trans)
  have "store_true (\<lambda>_. True) pawn_mates (sample_store\<lparr>st_tt := tt_NewSearch new_tt,
      st_finals := finals_NewSearch (finals_Resize 1 new_finals)\<rparr>)"
    by (rule search_start_true [OF new_tt_wf finals_Resize_wf [OF new_finals_wf]])
  then have st: "store_true (\<lambda>_. True) pawn_mates sample_store" by (simp add: sample_store_def)
  have rec: "recordable (\<lambda>_. True) pawn_mates sample_store 5 0 MateView 77 (hand_Add hand_Empty 1)"
    by (simp add: recordable_def view_true_def MateView_def pawn pawn [unfolded One_nat_def])
  have "cached_ok (st_tt sample_store) 5 0 None" "st_overrides sample_store = []" "view_abn MateView = 0"
    by (simp_all add: cached_ok_def sample_store_def MateView_def)
  moreover have "True \<longleftrightarrow> pawn_mates 77 (hand_Add hand_Empty 1)" using pawn by simp
  ultimately show ?thesis
    using verdicts_sound [where M = "\<lambda>_. True" and hk = 5 and bkey = 77 and p = 0 and q = 0, OF law st one(1),
      THEN conjunct2, THEN conjunct1, THEN spec [of _ MateView], THEN spec [of _ False], THEN spec [of _ 0],
      THEN spec [of _ PathTaint], THEN spec [of _ None], unfolded Let_def] rec
    by simp
qed

end
