(* ===== verification/Spec2Isabelle.thy ===== *)
theory Spec2Isabelle
  imports CheckGen OpeningBooks GoteBfs TimeManagement See Butterfly SearchInfo EvalCaches Records
    ChildSlots SearchSteps Symmetry MateScreen Dfpn BnsVerdicts
begin

text \<open>
  A verification library for the JHBR5 shogi engine (C++, under src/).

  \<^bold>\<open>The program.\<close>  A USI engine: a position with redundant bitboards (shogi/) is read from text or
  from 32 bytes, moves are generated, made and taken back on it; a playout walks down a tree of
  nodes by the PUCT rule (mcts/), evaluates the leaf with two sparse-input networks (nnue/) and
  backs the value up; a time policy (usi/) decides when to stop; an opening book (book/) may
  answer instead, and a retrograde solver marks the exits of a book; self-play writes records
  (nnue/record).  Everything rests on the position, so most of the library is about it.

  \<^bold>\<open>Basic data.\<close>  Prelude holds the generic lemmas and the collections of rewrite rules;
  ShogiTypes, Hands and Moves are shogi/types.h (an index of type \<open>uint8_t\<close> is a number below 256,
  the packed hand is one \<open>32 word\<close>, a move one \<open>16 word\<close>); Bitboards is shogi/bitboard.h (two
  \<open>64 word\<close>s); Tables, Sliding and CheckTables are the start-up tables and branch-free slider
  attacks of shogi/bitboard.cc.  A table is the function of its index that the start-up loops
  store.  The lemmas identify every table and every bit trick with the walk along the rays of the
  board.

  \<^bold>\<open>The position.\<close>  Board is the record \<open>shogi_board\<close> of shogi/board.h with its invariant
  \<open>board_ok\<close> (the piece array, the colour and type bitboards and the king squares agree); Placement
  is building a position by \<open>PutPiece\<close>; Attacks the attack queries, Hashing the Zobrist keys,
  MoveApply \<open>DoMove\<close> in its three modes and \<open>UndoMove\<close>.  The locale \<open>reversible\<close> states once what
  it means for a making and an unmaking operation to nest, and is interpreted for both modes the
  code uses.  GameRules is repetition, declaration, game result and the flipped position, Sfen the
  text form, PackedSfens and PackedRound the 32-byte codec, Decimal the standard library's number
  text.

  \<^bold>\<open>Move generation.\<close>  MoveGen and CheckingMoves translate the generators.  CheckGeometry,
  MoveRules, KingSafety, Evasions and LegalMoves build the argument: checks and pins on a bare
  placement, what the bitboard shortcuts compute, and the rules of the game as the specification
  \<open>rule_move\<close>.  GamePlay and CheckGen hold the results: the legal generator lists exactly the
  moves of the rules, games of legal moves stay lawful, and the production generator of checks
  agrees with the filter that defines it.

  \<^bold>\<open>Mate search.\<close>  MateInOne is the one-ply search of shogi/board.cc, which probes moves without
  making them; a move it returns is legal and checks, and mates outside one case, which MateScreen
  shows to occur.  ShallowMate is mate/shallow_mate.h: what the probe reports as mate is a forced
  win on the game tree of the rules with the repetition verdicts (\<open>forced_win\<close>), for every reading of
  the stop flag and the clock at its checkpoints, unless that tree has a position at which the
  one-ply search is wrong in the way just named (\<open>one_ply_errs\<close>); \<open>attack_wins\<close> is the game as the
  search counts it, from which this follows.  Dfpn is the proof-number solver of mate/dfpn.cc: the
  search returns on every lawful position, and its proofs and disproofs are wins and failures to
  win of the game of all checks and all legal replies, played with the repetition verdicts and with
  a return to the line saving the defender (\<open>wins\<close>, \<open>loses\<close>).  The exceptions are a wrong one-ply
  answer met on the way, for a proof, and a position with more moves than the 254 a node has room
  for; the games the solver itself plays (\<open>upper\<close>, \<open>lower\<close>) carry the induction.  BranchNumbers, BnsTables and BnsVerdicts are the parts of the branch-number solver
  (mate/bns.h) below its search loop: the numbers of a node and the window of its selected child,
  the clustered transposition table, which implements a map that may forget (the locale
  \<open>forgetful_map\<close>), and the store of verdicts with hand dominance and route-dependent overrides.
  That no two positions share a table key, and that a larger attacker hand keeps a mate, are
  hypotheses there, on the verdicts recorded.

  \<^bold>\<open>Search.\<close>  UctTree is the tree as a value with its byte accounting and reuse between moves,
  ChildSlots the race of threads to create a child as an interleaving of atomic steps, SearchSteps
  selection and backup, Butterfly the history table, See the static exchange evaluation,
  EvalCaches the value cache.

  \<^bold>\<open>Networks.\<close>  FeatureIndex is the index scheme of nnue/types.h with the pair tables; the locale
  \<open>numbering\<close> says how destination sets are numbered through and is interpreted for the threat
  pairs and for the three kinds of policy rows (MoveBuckets, nnue/move_buckets.cc).  Features is
  nnue/features.cc, Networks the scalar kernels and the forward passes; Symmetry shows that the
  networks see a position from the side to move.

  \<^bold>\<open>Around the search.\<close>  TimeManagement is usi/time_manager.cc: the deadlines of a budget, and a
  controller whose stop is tied to the conditions of its reason at the snapshot it was decided on,
  read off the snapshots before it (\<open>stop_justified\<close>).  SearchInfo is the info line, Records
  the record files, written through a C stream that buffers as the library likes onto a device that
  may fill up, Ybb and OpeningBooks the book
  with the file system as a parameter (the locale \<open>ordered_index\<close> is the contract of the binary
  search), GoteExit, GoteSolver and GoteBfs the retrograde solver over a graph given by its four
  queries.

  \<^bold>\<open>Conventions.\<close>  Integers are words where the source relies on their width and numbers with the
  bound as a lemma elsewhere.  A failing read, throw or early return is an option or sum value.
  Floating point (Floats) is a value rounded operation by operation to nearest even in 24 or 53
  bits, with infinities; fused multiply-add and excess precision are not modelled, and \<open>std::exp\<close>
  and \<open>std::log\<close> are parameters.  Atomics are sequential except in ChildSlots.  Pointers that
  cannot alias are values.  SIMD branches are represented by the portable branch they must agree
  with.

  \<^bold>\<open>Bounds and fuel.\<close>  The evasion test and the pawn-drop-mate test call each other; \<open>has_evasion\<close>
  takes a level count, and 82 levels are enough because every nested drop fills a square
  (\<open>has_evasion_fuel\<close>).  The exchange loop of See is a \<open>partial_function (option)\<close> shown to return;
  so is the
  df-pn search, by the expansions left and the unsolved leaves; the main loop of the retrograde
  solver is \<open>while_option\<close>, shown to return on every graph.  Loops over bits, ranks and files are structural.

  \<^bold>\<open>Not modelled.\<close>  The approximate one-ply mate search (shogi/mate1ply.cc) and the
  search loop of the branch-number solver (mate/bns.cc), which rests on it; the multi-threaded search loop (mcts/uct_search.cc) and the USI
  command loop (usi/usi_engine.cc), which are threads, clocks and console text around the modelled
  steps; the loading of weight files and the vectorised kernels; data generation, the Python
  binding and the command-line tools.
\<close>

end
